(* ===== verification/Prelude.thy ===== *)
theory Prelude
  imports Main "HOL-Library.Word"
begin

text \<open>
  Shared vocabulary of the development: the machine types of the crate, the error values, the
  little-endian byte conversions of the Rust standard library, and the generic lemmas on bits,
  words and lists that the component theories use.

  \<^item> \<open>u8\<close>, \<open>u16\<close>, \<open>u32\<close>, \<open>u64\<close> are HOL words of that width (arithmetic wraps, as the
    \<open>wrapping_*\<close> methods and the casts of the source do). \<open>usize\<close> and small counters whose
    value the code keeps in range are \<open>nat\<close>; where the width matters a word is kept.
  \<^item> a \<open>Result\<close> and a panic are both an \<open>Inl\<close> of the type \<open>error\<close>: \<open>InvalidArgument\<close>
    and \<open>InvalidData\<close> are the two kinds of \<open>src/datasketches/src/error.rs\<close>, \<open>Panic\<close> is an
    assertion, an index out of bounds or an \<open>unreachable!\<close>. A message carries its fixed
    text; the numbers that the source formats into it are left out.
\<close>

unbundle bit_operations_syntax

section \<open>Machine types and results\<close>

type_synonym u8 = "8 word"
type_synonym u16 = "16 word"
type_synonym u32 = "32 word"
type_synonym u64 = "64 word"

datatype error =
    InvalidArgument string
  | InvalidData string
  | Panic string

type_synonym 'a res = "error + 'a"

definition bind_res :: "'a res \<Rightarrow> ('a \<Rightarrow> 'b res) \<Rightarrow> 'b res" where
  "bind_res r f = (case r of Inl e \<Rightarrow> Inl e | Inr x \<Rightarrow> f x)"

definition ensure :: "bool \<Rightarrow> error \<Rightarrow> unit res" where
  "ensure c e = (if c then Inr () else Inl e)"

lemma bind_res_simps [simp]:
  "bind_res (Inl e) f = Inl e"
  "bind_res (Inr x) f = f x"
  by (simp_all add: bind_res_def)

lemma bind_res_assoc: "bind_res (bind_res r f) g = bind_res r (\<lambda>x. bind_res (f x) g)"
  by (cases r) simp_all

lemma bind_res_Inr_iff: "bind_res r f = Inr y \<longleftrightarrow> (\<exists>x. r = Inr x \<and> f x = Inr y)"
  by (cases r) simp_all

lemma ensure_simps [simp]:
  "ensure True e = Inr ()"
  "ensure False e = Inl e"
  by (simp_all add: ensure_def)

lemma ensure_Inr_iff: "ensure c e = Inr u \<longleftrightarrow> c"
  by (simp add: ensure_def)

text \<open>A loop over a list whose body may fail\<close>

fun fold_res :: "('s \<Rightarrow> 'a \<Rightarrow> 's res) \<Rightarrow> 's \<Rightarrow> 'a list \<Rightarrow> 's res" where
  "fold_res f s [] = Inr s"
| "fold_res f s (x # xs) = bind_res (f s x) (\<lambda>s. fold_res f s xs)"

lemma fold_res_append: "fold_res f s (xs @ ys) = bind_res (fold_res f s xs) (\<lambda>s. fold_res f s ys)"
  by (induction xs arbitrary: s) (simp_all add: bind_res_assoc)

lemma fold_res_invariant:
  assumes "P s []" and "\<And>s ys x. P s ys \<Longrightarrow> \<exists>s'. f s x = Inr s' \<and> P s' (ys @ [x])"
  shows "\<exists>s'. fold_res f s xs = Inr s' \<and> P s' xs"
proof -
  have "P s ys \<Longrightarrow> \<exists>s'. fold_res f s xs = Inr s' \<and> P s' (ys @ xs)" for ys
  proof (induction xs arbitrary: s ys)
    case (Cons x xs)
    obtain s' where "f s x = Inr s'" "P s' (ys @ [x])" using assms(2) [OF Cons.prems] by blast
    then show ?case using Cons.IH [of s' "ys @ [x]"] by simp
  qed simp
  from this [of "[]"] show ?thesis using assms(1) by simp
qed

text \<open>A slice access \<open>a[i]\<close> of the source panics when \<open>i\<close> is out of bounds.\<close>

definition get_at :: "'a list \<Rightarrow> nat \<Rightarrow> 'a res" where
  "get_at xs i = (if i < length xs then Inr (xs ! i) else Inl (Panic ''index out of bounds''))"

definition set_at :: "'a list \<Rightarrow> nat \<Rightarrow> 'a \<Rightarrow> 'a list res" where
  "set_at xs i x =
     (if i < length xs then Inr (xs[i := x]) else Inl (Panic ''index out of bounds''))"

lemma get_at_in [simp]: "i < length xs \<Longrightarrow> get_at xs i = Inr (xs ! i)"
  by (simp add: get_at_def)

lemma set_at_in [simp]: "i < length xs \<Longrightarrow> set_at xs i x = Inr (xs[i := x])"
  by (simp add: set_at_def)

section \<open>Bits\<close>

text \<open>
  \<open>bits_of n w\<close> are the low \<open>n\<close> bits of \<open>w\<close>, the most significant first: the order in
  which the compressed formats write them.
\<close>

definition bits_of :: "nat \<Rightarrow> 'a::len word \<Rightarrow> bool list" where
  "bits_of n w = map (\<lambda>i. bit w (n - 1 - i)) [0..<n]"

lemma length_bits_of [simp]: "length (bits_of n w) = n"
  by (simp add: bits_of_def)

lemma nth_bits_of [simp]: "i < n \<Longrightarrow> bits_of n w ! i = bit w (n - 1 - i)"
  by (simp add: bits_of_def)

lemma bits_of_eq_iff:
  "bits_of n v = bits_of n w \<longleftrightarrow> (\<forall>i < n. bit v i = bit w i)"
proof
  assume eq: "bits_of n v = bits_of n w"
  show "\<forall>i < n. bit v i = bit w i"
  proof (intro allI impI)
    fix i
    assume "i < n"
    then have "bits_of n v ! (n - 1 - i) = bits_of n w ! (n - 1 - i)"
      and "n - 1 - i < n" and "n - 1 - (n - 1 - i) = i"
      using eq by auto
    then show "bit v i = bit w i" by simp
  qed
next
  assume "\<forall>i < n. bit v i = bit w i"
  then show "bits_of n v = bits_of n w" by (auto simp: bits_of_def)
qed

lemma take_bit_bits_of: "bits_of n (take_bit n w) = bits_of n w"
  by (simp add: bits_of_eq_iff bit_take_bit_iff)

lemma word_eq_take_bitI:
  fixes v w :: "'a::len word"
  assumes "bits_of n v = bits_of n w" and "\<And>i. bit v i \<Longrightarrow> i < n"
  shows "v = take_bit n w"
  using assms by (intro bit_word_eqI) (auto simp: bits_of_eq_iff bit_take_bit_iff)

lemma bit_less_length: "bit (w :: 'a::len word) i \<Longrightarrow> i < LENGTH('a)"
  by (rule bit_imp_le_length)

lemma bit_255 [simp]: "bit (255 :: 'a::len word) i \<longleftrightarrow> i < 8 \<and> i < LENGTH('a)"
proof -
  have "(255 :: 'a word) = mask 8" by (simp add: mask_eq_exp_minus_1)
  then have "bit (255 :: 'a word) i \<longleftrightarrow> bit (mask 8 :: 'a word) i" by (simp only:)
  then show ?thesis by (auto simp: bit_mask_iff)
qed

section \<open>Byte order\<close>

text \<open>
  \<open>to_le_bytes\<close>, \<open>from_le_bytes\<close> and their big-endian twins are the standard library's
  \<open>uN::to_le_bytes\<close> etc., for a word of any width that is a multiple of eight.
\<close>

definition to_le_bytes :: "'a::len word \<Rightarrow> u8 list" where
  "to_le_bytes w = map (\<lambda>i. ucast (drop_bit (8 * i) w)) [0..<LENGTH('a) div 8]"

primrec from_le_bytes :: "u8 list \<Rightarrow> 'a::len word" where
  "from_le_bytes [] = 0"
| "from_le_bytes (b # bs) = ucast b OR push_bit 8 (from_le_bytes bs)"

definition to_be_bytes :: "'a::len word \<Rightarrow> u8 list" where
  "to_be_bytes w = rev (to_le_bytes w)"

definition from_be_bytes :: "u8 list \<Rightarrow> 'a::len word" where
  "from_be_bytes bs = from_le_bytes (rev bs)"

lemma length_to_le_bytes [simp]: "length (to_le_bytes (w :: 'a::len word)) = LENGTH('a) div 8"
  by (simp add: to_le_bytes_def)

lemma length_to_be_bytes [simp]: "length (to_be_bytes (w :: 'a::len word)) = LENGTH('a) div 8"
  by (simp add: to_be_bytes_def)

lemma bit_from_le_bytes:
  "bit (from_le_bytes bs :: 'a::len word) i \<longleftrightarrow>
     i < LENGTH('a) \<and> i div 8 < length bs \<and> bit (bs ! (i div 8)) (i mod 8)"
proof (induction bs arbitrary: i)
  case Nil
  show ?case by simp
next
  case (Cons b bs)
  show ?case
  proof (cases "i < 8")
    case True
    then show ?thesis by (auto simp: bit_simps Cons.IH dest: bit_less_length)
  next
    case False
    then obtain j where j: "i = j + 8" by (metis add.commute le_Suc_ex not_less)
    then have "i div 8 = Suc (j div 8)" and "i mod 8 = j mod 8" by simp_all
    then show ?thesis by (auto simp: bit_simps Cons.IH j dest: bit_less_length)
  qed
qed

lemma from_to_le_bytes [simp]:
  assumes "8 dvd LENGTH('a)"
  shows "from_le_bytes (to_le_bytes (w :: 'a::len word)) = w"
proof (rule bit_word_eqI)
  fix i
  assume i: "i < LENGTH('a)"
  with assms have "i div 8 < LENGTH('a) div 8" by (auto simp: less_mult_imp_div_less elim!: dvdE)
  moreover have "8 * (i div 8) + i mod 8 = i" by simp
  ultimately show "bit (from_le_bytes (to_le_bytes w) :: 'a word) i = bit w i"
    using i by (simp add: bit_from_le_bytes to_le_bytes_def bit_simps)
qed

lemma from_to_be_bytes [simp]:
  "8 dvd LENGTH('a) \<Longrightarrow> from_be_bytes (to_be_bytes (w :: 'a::len word)) = w"
  by (simp add: from_be_bytes_def to_be_bytes_def)

section \<open>Lists\<close>

lemma upt_append: "i \<le> j \<Longrightarrow> j \<le> k \<Longrightarrow> [i..<j] @ [j..<k] = [i..<k]"
  by (metis le_Suc_ex upt_add_eq_append)

lemma upt_shift: "map (\<lambda>i. i + k) [0..<n] = [k..<k + n]"
  by (simp add: map_add_upt add.commute)

section \<open>Leading zeros\<close>

definition leading_zeros :: "'a::len word \<Rightarrow> nat" where
  "leading_zeros w = length (takeWhile Not (bits_of LENGTH('a) w))"

lemma leading_zeros_le: "leading_zeros (w :: 'a::len word) \<le> LENGTH('a)"
  using length_takeWhile_le [of Not "bits_of LENGTH('a) w"] by (simp add: leading_zeros_def)

text \<open>No bit is set from position \<open>LENGTH - leading_zeros\<close> on.\<close>

lemma bit_leading_zeros:
  assumes "bit (w :: 'a::len word) i"
  shows "i < LENGTH('a) - leading_zeros w"
proof (rule ccontr)
  let ?bs = "bits_of LENGTH('a) w"
  assume neg: "\<not> i < LENGTH('a) - leading_zeros w"
  have i: "i < LENGTH('a)" using assms by (rule bit_less_length)
  let ?j = "LENGTH('a) - 1 - i"
  have "?j < length (takeWhile Not ?bs)"
    using neg i by (simp add: leading_zeros_def)
  then have "\<not> ?bs ! ?j" using nth_mem set_takeWhileD takeWhile_nth by metis
  then show False using assms i by simp
qed

lemma leading_zeros_bit:
  assumes "(w :: 'a::len word) \<noteq> 0"
  shows "leading_zeros w < LENGTH('a)" and "bit w (LENGTH('a) - 1 - leading_zeros w)"
proof -
  let ?bs = "bits_of LENGTH('a) w"
  have "\<exists>i. bit w i"
  proof (rule ccontr)
    assume "\<not> (\<exists>i. bit w i)"
    then have "w = 0" by (intro bit_word_eqI) simp
    then show False using assms by simp
  qed
  then obtain i where i: "bit w i" by blast
  show lt: "leading_zeros w < LENGTH('a)" using bit_leading_zeros [OF i] by linarith
  then have "\<not> Not (?bs ! leading_zeros w)"
    unfolding leading_zeros_def by (intro nth_length_takeWhile) simp
  then show "bit w (LENGTH('a) - 1 - leading_zeros w)" using lt by simp
qed

lemma leading_zeros_unat: "unat (w :: 'a::len word) < 2 ^ (LENGTH('a) - leading_zeros w)"
proof -
  have "take_bit (LENGTH('a) - leading_zeros w) w = w"
    by (rule bit_word_eqI) (auto simp: bit_take_bit_iff dest: bit_leading_zeros)
  then have "unat w = take_bit (LENGTH('a) - leading_zeros w) (unat w)"
    by (metis unsigned_take_bit_eq)
  then show ?thesis by (metis take_bit_nat_less_exp)
qed

end
