(* ===== verification/Codec.thy ===== *)
theory Codec
  imports Prelude
begin

text \<open>
  \<open>src/datasketches/src/codec\<close>: the byte writer \<open>SketchBytes\<close>, the byte reader
  \<open>SketchSlice\<close>, the family identifiers and the header assertions that every sketch's
  serializer uses.

  A \<open>SketchBytes\<close> is the list of the bytes written so far. A \<open>SketchSlice\<close> is the record
  \<open>sketch_slice\<close> of the underlying bytes and the cursor's position; a read returns the
  value and the moved cursor, or \<open>None\<close> for the \<open>UnexpectedEof\<close> of \<open>Cursor::read_exact\<close>.
  Signed integers and floats are their bit patterns: \<open>write_i16_le\<close> and \<open>write_f32_le\<close> write
  the bytes of the two's complement and of the IEEE pattern, so the model of a signed or
  floating-point accessor is the one of the unsigned word of the same width.

  The locale \<open>wire_codec\<close> is the contract between a writer and a reader; it is interpreted
  for every pair of accessors, and gives the round trip of whole arrays (\<open>read_many\<close>).
\<close>

section \<open>Writing: \<open>encode.rs\<close>\<close>

type_synonym sketch_bytes = "u8 list"

definition with_capacity :: "nat \<Rightarrow> sketch_bytes" where
  "with_capacity capacity = []"

definition into_bytes :: "sketch_bytes \<Rightarrow> u8 list" where
  "into_bytes bytes = bytes"

definition write_bytes :: "sketch_bytes \<Rightarrow> u8 list \<Rightarrow> sketch_bytes" where
  "write_bytes bytes buf = bytes @ buf"

definition write_u8 :: "sketch_bytes \<Rightarrow> u8 \<Rightarrow> sketch_bytes" where
  "write_u8 bytes n = bytes @ [n]"

definition write_i8 :: "sketch_bytes \<Rightarrow> 8 word \<Rightarrow> sketch_bytes" where
  "write_i8 bytes n = bytes @ [n]"

definition write_u16_le :: "sketch_bytes \<Rightarrow> 16 word \<Rightarrow> sketch_bytes" where
  "write_u16_le bytes n = write_bytes bytes (to_le_bytes n)"

definition write_u16_be :: "sketch_bytes \<Rightarrow> 16 word \<Rightarrow> sketch_bytes" where
  "write_u16_be bytes n = write_bytes bytes (to_be_bytes n)"

definition write_i16_le :: "sketch_bytes \<Rightarrow> 16 word \<Rightarrow> sketch_bytes" where
  "write_i16_le bytes n = write_bytes bytes (to_le_bytes n)"

definition write_i16_be :: "sketch_bytes \<Rightarrow> 16 word \<Rightarrow> sketch_bytes" where
  "write_i16_be bytes n = write_bytes bytes (to_be_bytes n)"

definition write_u32_le :: "sketch_bytes \<Rightarrow> 32 word \<Rightarrow> sketch_bytes" where
  "write_u32_le bytes n = write_bytes bytes (to_le_bytes n)"

definition write_u32_be :: "sketch_bytes \<Rightarrow> 32 word \<Rightarrow> sketch_bytes" where
  "write_u32_be bytes n = write_bytes bytes (to_be_bytes n)"

definition write_i32_le :: "sketch_bytes \<Rightarrow> 32 word \<Rightarrow> sketch_bytes" where
  "write_i32_le bytes n = write_bytes bytes (to_le_bytes n)"

definition write_i32_be :: "sketch_bytes \<Rightarrow> 32 word \<Rightarrow> sketch_bytes" where
  "write_i32_be bytes n = write_bytes bytes (to_be_bytes n)"

definition write_u64_le :: "sketch_bytes \<Rightarrow> 64 word \<Rightarrow> sketch_bytes" where
  "write_u64_le bytes n = write_bytes bytes (to_le_bytes n)"

definition write_u64_be :: "sketch_bytes \<Rightarrow> 64 word \<Rightarrow> sketch_bytes" where
  "write_u64_be bytes n = write_bytes bytes (to_be_bytes n)"

definition write_i64_le :: "sketch_bytes \<Rightarrow> 64 word \<Rightarrow> sketch_bytes" where
  "write_i64_le bytes n = write_bytes bytes (to_le_bytes n)"

definition write_i64_be :: "sketch_bytes \<Rightarrow> 64 word \<Rightarrow> sketch_bytes" where
  "write_i64_be bytes n = write_bytes bytes (to_be_bytes n)"

definition write_f32_le :: "sketch_bytes \<Rightarrow> 32 word \<Rightarrow> sketch_bytes" where
  "write_f32_le bytes n = write_bytes bytes (to_le_bytes n)"

definition write_f32_be :: "sketch_bytes \<Rightarrow> 32 word \<Rightarrow> sketch_bytes" where
  "write_f32_be bytes n = write_bytes bytes (to_be_bytes n)"

definition write_f64_le :: "sketch_bytes \<Rightarrow> 64 word \<Rightarrow> sketch_bytes" where
  "write_f64_le bytes n = write_bytes bytes (to_le_bytes n)"

definition write_f64_be :: "sketch_bytes \<Rightarrow> 64 word \<Rightarrow> sketch_bytes" where
  "write_f64_be bytes n = write_bytes bytes (to_be_bytes n)"

section \<open>Reading: \<open>decode.rs\<close>\<close>

record sketch_slice =
  sl_data :: "u8 list"
  sl_pos :: nat

definition new_slice :: "u8 list \<Rightarrow> sketch_slice" where
  "new_slice buf = \<lparr>sl_data = buf, sl_pos = 0\<rparr>"

definition advance :: "nat \<Rightarrow> sketch_slice \<Rightarrow> sketch_slice" where
  "advance n s = s\<lparr>sl_pos := sl_pos s + n\<rparr>"

definition remaining :: "sketch_slice \<Rightarrow> u8 list" where
  "remaining s = (let buf = sl_data s; pos = min (sl_pos s) (length buf) in drop pos buf)"

text \<open>\<open>read_exact\<close> with a buffer of \<open>n\<close> bytes: the bytes read, or \<open>None\<close> at the end of the input.\<close>

definition read_exact :: "nat \<Rightarrow> sketch_slice \<Rightarrow> (u8 list \<times> sketch_slice) option" where
  "read_exact n s =
     (if n \<le> length (remaining s) then Some (take n (remaining s), advance n s) else None)"

definition read_u8 :: "sketch_slice \<Rightarrow> (u8 \<times> sketch_slice) option" where
  "read_u8 s = map_option (\<lambda>(buf, s'). (buf ! 0, s')) (read_exact 1 s)"

definition read_i8 :: "sketch_slice \<Rightarrow> (8 word \<times> sketch_slice) option" where
  "read_i8 s = map_option (\<lambda>(buf, s'). (buf ! 0, s')) (read_exact 1 s)"

definition read_u16_le :: "sketch_slice \<Rightarrow> (16 word \<times> sketch_slice) option" where
  "read_u16_le s = map_option (\<lambda>(buf, s'). (from_le_bytes buf, s')) (read_exact 2 s)"

definition read_u16_be :: "sketch_slice \<Rightarrow> (16 word \<times> sketch_slice) option" where
  "read_u16_be s = map_option (\<lambda>(buf, s'). (from_be_bytes buf, s')) (read_exact 2 s)"

definition read_i16_le :: "sketch_slice \<Rightarrow> (16 word \<times> sketch_slice) option" where
  "read_i16_le s = map_option (\<lambda>(buf, s'). (from_le_bytes buf, s')) (read_exact 2 s)"

definition read_i16_be :: "sketch_slice \<Rightarrow> (16 word \<times> sketch_slice) option" where
  "read_i16_be s = map_option (\<lambda>(buf, s'). (from_be_bytes buf, s')) (read_exact 2 s)"

definition read_u32_le :: "sketch_slice \<Rightarrow> (32 word \<times> sketch_slice) option" where
  "read_u32_le s = map_option (\<lambda>(buf, s'). (from_le_bytes buf, s')) (read_exact 4 s)"

definition read_u32_be :: "sketch_slice \<Rightarrow> (32 word \<times> sketch_slice) option" where
  "read_u32_be s = map_option (\<lambda>(buf, s'). (from_be_bytes buf, s')) (read_exact 4 s)"

definition read_i32_le :: "sketch_slice \<Rightarrow> (32 word \<times> sketch_slice) option" where
  "read_i32_le s = map_option (\<lambda>(buf, s'). (from_le_bytes buf, s')) (read_exact 4 s)"

definition read_i32_be :: "sketch_slice \<Rightarrow> (32 word \<times> sketch_slice) option" where
  "read_i32_be s = map_option (\<lambda>(buf, s'). (from_be_bytes buf, s')) (read_exact 4 s)"

definition read_u64_le :: "sketch_slice \<Rightarrow> (64 word \<times> sketch_slice) option" where
  "read_u64_le s = map_option (\<lambda>(buf, s'). (from_le_bytes buf, s')) (read_exact 8 s)"

definition read_u64_be :: "sketch_slice \<Rightarrow> (64 word \<times> sketch_slice) option" where
  "read_u64_be s = map_option (\<lambda>(buf, s'). (from_be_bytes buf, s')) (read_exact 8 s)"

definition read_i64_le :: "sketch_slice \<Rightarrow> (64 word \<times> sketch_slice) option" where
  "read_i64_le s = map_option (\<lambda>(buf, s'). (from_le_bytes buf, s')) (read_exact 8 s)"

definition read_i64_be :: "sketch_slice \<Rightarrow> (64 word \<times> sketch_slice) option" where
  "read_i64_be s = map_option (\<lambda>(buf, s'). (from_be_bytes buf, s')) (read_exact 8 s)"

definition read_f32_le :: "sketch_slice \<Rightarrow> (32 word \<times> sketch_slice) option" where
  "read_f32_le s = map_option (\<lambda>(buf, s'). (from_le_bytes buf, s')) (read_exact 4 s)"

definition read_f32_be :: "sketch_slice \<Rightarrow> (32 word \<times> sketch_slice) option" where
  "read_f32_be s = map_option (\<lambda>(buf, s'). (from_be_bytes buf, s')) (read_exact 4 s)"

definition read_f64_le :: "sketch_slice \<Rightarrow> (64 word \<times> sketch_slice) option" where
  "read_f64_le s = map_option (\<lambda>(buf, s'). (from_le_bytes buf, s')) (read_exact 8 s)"

definition read_f64_be :: "sketch_slice \<Rightarrow> (64 word \<times> sketch_slice) option" where
  "read_f64_be s = map_option (\<lambda>(buf, s'). (from_be_bytes buf, s')) (read_exact 8 s)"

section \<open>Header assertions: \<open>assert.rs\<close> and \<open>family.rs\<close>\<close>

text \<open>\<open>cursor.read_x().map_err(insufficient_data(tag))\<close>\<close>

definition insufficient_data :: "string \<Rightarrow> 'a option \<Rightarrow> 'a res" where
  "insufficient_data tag r =
     (case r of None \<Rightarrow> Inl (InvalidData (''insufficient data: '' @ tag)) | Some x \<Rightarrow> Inr x)"

definition ensure_serial_version_is :: "u8 \<Rightarrow> u8 \<Rightarrow> unit res" where
  "ensure_serial_version_is expected actual =
     (if expected = actual then Inr () else Inl (InvalidData ''unsupported serial version''))"

definition ensure_preamble_longs_in :: "u8 list \<Rightarrow> u8 \<Rightarrow> unit res" where
  "ensure_preamble_longs_in expected actual =
     (if actual \<in> set expected then Inr () else Inl (InvalidData ''invalid preamble longs''))"

definition ensure_preamble_longs_in_range :: "u8 \<Rightarrow> u8 \<Rightarrow> u8 \<Rightarrow> unit res" where
  "ensure_preamble_longs_in_range a b actual =
     (if a \<le> actual \<and> actual \<le> b then Inr () else Inl (InvalidData ''invalid preamble longs''))"

record family =
  fam_id :: u8
  fam_name :: string
  fam_min_pre_longs :: u8
  fam_max_pre_longs :: u8

definition family_theta :: family where
  "family_theta = \<lparr>fam_id = 3, fam_name = ''THETA'', fam_min_pre_longs = 1, fam_max_pre_longs = 3\<rparr>"

definition family_hll :: family where
  "family_hll = \<lparr>fam_id = 7, fam_name = ''HLL'', fam_min_pre_longs = 1, fam_max_pre_longs = 1\<rparr>"

definition family_tuple :: family where
  "family_tuple = \<lparr>fam_id = 9, fam_name = ''TUPLE'', fam_min_pre_longs = 1, fam_max_pre_longs = 3\<rparr>"

definition family_frequency :: family where
  "family_frequency = \<lparr>fam_id = 10, fam_name = ''FREQUENCY'', fam_min_pre_longs = 1, fam_max_pre_longs = 4\<rparr>"

definition family_cpc :: family where
  "family_cpc = \<lparr>fam_id = 16, fam_name = ''CPC'', fam_min_pre_longs = 1, fam_max_pre_longs = 5\<rparr>"

definition family_req :: family where
  "family_req = \<lparr>fam_id = 17, fam_name = ''REQ'', fam_min_pre_longs = 1, fam_max_pre_longs = 2\<rparr>"

definition family_countmin :: family where
  "family_countmin = \<lparr>fam_id = 18, fam_name = ''COUNTMIN'', fam_min_pre_longs = 2, fam_max_pre_longs = 2\<rparr>"

definition family_tdigest :: family where
  "family_tdigest = \<lparr>fam_id = 20, fam_name = ''TDIGEST'', fam_min_pre_longs = 1, fam_max_pre_longs = 2\<rparr>"

definition family_bloomfilter :: family where
  "family_bloomfilter = \<lparr>fam_id = 21, fam_name = ''BLOOMFILTER'', fam_min_pre_longs = 3, fam_max_pre_longs = 4\<rparr>"

definition validate_id :: "family \<Rightarrow> u8 \<Rightarrow> unit res" where
  "validate_id f family_id =
     (if family_id \<noteq> fam_id f then Inl (InvalidData ''invalid family'') else Inr ())"

section \<open>The cursor\<close>

lemma remaining_advance [simp]: "remaining (advance n s) = drop n (remaining s)"
  by (simp add: remaining_def advance_def Let_def add.commute min_def)

lemma remaining_new [simp]: "remaining (new_slice bs) = bs"
  by (simp add: remaining_def new_slice_def)

lemma advance_advance [simp]: "advance n (advance m s) = advance (m + n) s"
  by (simp add: advance_def add.assoc)

lemma advance_0 [simp]: "advance 0 s = s"
  by (simp add: advance_def)

lemma read_exact_enough:
  "remaining s = bs @ rest \<Longrightarrow> length bs = n \<Longrightarrow> read_exact n s = Some (bs, advance n s)"
  by (simp add: read_exact_def)

lemma read_exact_one:
  "remaining s = x # rest \<Longrightarrow> read_exact (Suc 0) s = Some ([x], advance (Suc 0) s)"
  by (simp add: read_exact_def)

lemma read_exact_None: "length (remaining s) < n \<Longrightarrow> read_exact n s = None"
  by (simp add: read_exact_def)

lemma read_exact_Some:
  "read_exact n s = Some (bs, s') \<Longrightarrow>
     length bs = n \<and> remaining s = bs @ remaining s' \<and> s' = advance n s"
  by (auto simp: read_exact_def split: if_splits)

lemma insufficient_data_simps [simp]:
  "insufficient_data tag (Some x) = Inr x"
  "insufficient_data tag None = Inl (InvalidData (''insufficient data: '' @ tag))"
  by (simp_all add: insufficient_data_def)

section \<open>The wire contract\<close>

text \<open>Reading \<open>n\<close> values one after the other, as the array loops of the deserializers do.\<close>

fun read_many ::
  "(sketch_slice \<Rightarrow> ('a \<times> sketch_slice) option) \<Rightarrow> nat \<Rightarrow> sketch_slice \<Rightarrow>
   ('a list \<times> sketch_slice) option" where
  "read_many rd 0 s = Some ([], s)"
| "read_many rd (Suc n) s =
     (case rd s of None \<Rightarrow> None
      | Some (x, s') \<Rightarrow> (case read_many rd n s' of None \<Rightarrow> None
                       | Some (xs, s'') \<Rightarrow> Some (x # xs, s'')))"

text \<open>
  What a writer promises its reader: it appends \<open>width\<close> bytes, and reading at those bytes
  gives the value back and moves the cursor past them; with fewer than \<open>width\<close> bytes left
  the read fails.
\<close>

locale wire_codec =
  fixes wr :: "sketch_bytes \<Rightarrow> 'a \<Rightarrow> sketch_bytes"
    and rd :: "sketch_slice \<Rightarrow> ('a \<times> sketch_slice) option"
    and enc :: "'a \<Rightarrow> u8 list"
    and width :: nat
  assumes wr_enc: "wr bs x = bs @ enc x"
    and length_enc: "length (enc x) = width"
    and rd_enc: "remaining s = enc x @ rest \<Longrightarrow> rd s = Some (x, advance width s)"
    and rd_eof: "length (remaining s) < width \<Longrightarrow> rd s = None"
begin

lemma wr_many: "foldl wr bs xs = bs @ concat (map enc xs)"
  by (induction xs arbitrary: bs) (simp_all add: wr_enc)

lemma length_wr_many: "length (concat (map enc xs)) = width * length xs"
  by (induction xs) (simp_all add: length_enc)

lemma rd_many:
  "remaining s = concat (map enc xs) @ rest \<Longrightarrow>
     read_many rd (length xs) s = Some (xs, advance (width * length xs) s)"
proof (induction xs arbitrary: s)
  case Nil
  then show ?case by simp
next
  case (Cons x xs)
  from Cons.prems have "rd s = Some (x, advance width s)"
    by (intro rd_enc [of _ _ "concat (map enc xs) @ rest"]) simp
  moreover have "read_many rd (length xs) (advance width s) =
      Some (xs, advance (width * length xs) (advance width s))"
    by (rule Cons.IH) (simp add: Cons.prems length_enc)
  ultimately show ?case by (simp add: add.commute)
qed

lemma rd_inj: "enc x = enc y \<Longrightarrow> x = y"
  using rd_enc [of "new_slice (enc x)" x "[]"] rd_enc [of "new_slice (enc x)" y "[]"] by simp

end

named_theorems codec_simps \<open>unfolding of the accessors\<close>

declare
  write_u16_le_def [codec_simps]
  write_u16_be_def [codec_simps]
  write_i16_le_def [codec_simps]
  write_i16_be_def [codec_simps]
  write_u32_le_def [codec_simps]
  write_u32_be_def [codec_simps]
  write_i32_le_def [codec_simps]
  write_i32_be_def [codec_simps]
  write_u64_le_def [codec_simps]
  write_u64_be_def [codec_simps]
  write_i64_le_def [codec_simps]
  write_i64_be_def [codec_simps]
  write_f32_le_def [codec_simps]
  write_f32_be_def [codec_simps]
  write_f64_le_def [codec_simps]
  write_f64_be_def [codec_simps]
  write_bytes_def [codec_simps]
  write_u8_def [codec_simps]
  write_i8_def [codec_simps]
  with_capacity_def [codec_simps]
  into_bytes_def [codec_simps]

interpretation u8_codec: wire_codec write_u8 read_u8 "\<lambda>x. [x]" 1
  by unfold_locales (auto simp: write_u8_def read_u8_def read_exact_one read_exact_None)

interpretation i8_codec: wire_codec write_i8 read_i8 "\<lambda>x. [x]" 1
  by unfold_locales (auto simp: write_i8_def read_i8_def read_exact_one read_exact_None)

interpretation u16_le_codec: wire_codec write_u16_le read_u16_le to_le_bytes 2
  by unfold_locales
    (auto simp: codec_simps read_u16_le_def read_exact_enough read_exact_None)

interpretation u16_be_codec: wire_codec write_u16_be read_u16_be to_be_bytes 2
  by unfold_locales
    (auto simp: codec_simps read_u16_be_def read_exact_enough read_exact_None)

interpretation i16_le_codec: wire_codec write_i16_le read_i16_le to_le_bytes 2
  by unfold_locales
    (auto simp: codec_simps read_i16_le_def read_exact_enough read_exact_None)

interpretation i16_be_codec: wire_codec write_i16_be read_i16_be to_be_bytes 2
  by unfold_locales
    (auto simp: codec_simps read_i16_be_def read_exact_enough read_exact_None)

interpretation u32_le_codec: wire_codec write_u32_le read_u32_le to_le_bytes 4
  by unfold_locales
    (auto simp: codec_simps read_u32_le_def read_exact_enough read_exact_None)

interpretation u32_be_codec: wire_codec write_u32_be read_u32_be to_be_bytes 4
  by unfold_locales
    (auto simp: codec_simps read_u32_be_def read_exact_enough read_exact_None)

interpretation i32_le_codec: wire_codec write_i32_le read_i32_le to_le_bytes 4
  by unfold_locales
    (auto simp: codec_simps read_i32_le_def read_exact_enough read_exact_None)

interpretation i32_be_codec: wire_codec write_i32_be read_i32_be to_be_bytes 4
  by unfold_locales
    (auto simp: codec_simps read_i32_be_def read_exact_enough read_exact_None)

interpretation u64_le_codec: wire_codec write_u64_le read_u64_le to_le_bytes 8
  by unfold_locales
    (auto simp: codec_simps read_u64_le_def read_exact_enough read_exact_None)

interpretation u64_be_codec: wire_codec write_u64_be read_u64_be to_be_bytes 8
  by unfold_locales
    (auto simp: codec_simps read_u64_be_def read_exact_enough read_exact_None)

interpretation i64_le_codec: wire_codec write_i64_le read_i64_le to_le_bytes 8
  by unfold_locales
    (auto simp: codec_simps read_i64_le_def read_exact_enough read_exact_None)

interpretation i64_be_codec: wire_codec write_i64_be read_i64_be to_be_bytes 8
  by unfold_locales
    (auto simp: codec_simps read_i64_be_def read_exact_enough read_exact_None)

interpretation f32_le_codec: wire_codec write_f32_le read_f32_le to_le_bytes 4
  by unfold_locales
    (auto simp: codec_simps read_f32_le_def read_exact_enough read_exact_None)

interpretation f32_be_codec: wire_codec write_f32_be read_f32_be to_be_bytes 4
  by unfold_locales
    (auto simp: codec_simps read_f32_be_def read_exact_enough read_exact_None)

interpretation f64_le_codec: wire_codec write_f64_le read_f64_le to_le_bytes 8
  by unfold_locales
    (auto simp: codec_simps read_f64_le_def read_exact_enough read_exact_None)

interpretation f64_be_codec: wire_codec write_f64_be read_f64_be to_be_bytes 8
  by unfold_locales
    (auto simp: codec_simps read_f64_be_def read_exact_enough read_exact_None)

section \<open>Reading at a position\<close>

text \<open>
  A deserializer's cursor is the slice of its input moved forward; these rules evaluate its reads
  on an input given as a concatenation of encoded fields.
\<close>

named_theorems cursor_reads \<open>reads at a position of an input\<close>

lemma read_exact_at [cursor_reads]:
  "read_exact k (advance n (new_slice bs)) =
     (if k \<le> length bs - n then Some (take k (drop n bs), advance (n + k) (new_slice bs)) else None)"
  "read_exact k (new_slice bs) =
     (if k \<le> length bs then Some (take k bs, advance k (new_slice bs)) else None)"
  by (simp_all add: read_exact_def)

lemma insufficient_data_Inr_iff: "insufficient_data tag r = Inr x \<longleftrightarrow> r = Some x"
  by (simp add: insufficient_data_def split: option.split)

lemma read_u8_at [cursor_reads]:
  "read_u8 (advance n (new_slice bs)) =
     (if 1 \<le> length bs - n then Some (take 1 (drop n bs) ! 0, advance (n + 1) (new_slice bs)) else None)"
  "read_u8 (new_slice bs) =
     (if 1 \<le> length bs then Some (take 1 bs ! 0, advance 1 (new_slice bs)) else None)"
  by (simp_all add: read_u8_def read_exact_at)

lemma read_u16_le_at [cursor_reads]:
  "read_u16_le (advance n (new_slice bs)) =
     (if 2 \<le> length bs - n then Some (from_le_bytes (take 2 (drop n bs)), advance (n + 2) (new_slice bs)) else None)"
  "read_u16_le (new_slice bs) =
     (if 2 \<le> length bs then Some (from_le_bytes (take 2 bs), advance 2 (new_slice bs)) else None)"
  by (simp_all add: read_u16_le_def read_exact_at)

lemma read_u16_be_at [cursor_reads]:
  "read_u16_be (advance n (new_slice bs)) =
     (if 2 \<le> length bs - n then Some (from_be_bytes (take 2 (drop n bs)), advance (n + 2) (new_slice bs)) else None)"
  "read_u16_be (new_slice bs) =
     (if 2 \<le> length bs then Some (from_be_bytes (take 2 bs), advance 2 (new_slice bs)) else None)"
  by (simp_all add: read_u16_be_def read_exact_at)

lemma read_u32_le_at [cursor_reads]:
  "read_u32_le (advance n (new_slice bs)) =
     (if 4 \<le> length bs - n then Some (from_le_bytes (take 4 (drop n bs)), advance (n + 4) (new_slice bs)) else None)"
  "read_u32_le (new_slice bs) =
     (if 4 \<le> length bs then Some (from_le_bytes (take 4 bs), advance 4 (new_slice bs)) else None)"
  by (simp_all add: read_u32_le_def read_exact_at)

lemma read_u32_be_at [cursor_reads]:
  "read_u32_be (advance n (new_slice bs)) =
     (if 4 \<le> length bs - n then Some (from_be_bytes (take 4 (drop n bs)), advance (n + 4) (new_slice bs)) else None)"
  "read_u32_be (new_slice bs) =
     (if 4 \<le> length bs then Some (from_be_bytes (take 4 bs), advance 4 (new_slice bs)) else None)"
  by (simp_all add: read_u32_be_def read_exact_at)

lemma read_u64_le_at [cursor_reads]:
  "read_u64_le (advance n (new_slice bs)) =
     (if 8 \<le> length bs - n then Some (from_le_bytes (take 8 (drop n bs)), advance (n + 8) (new_slice bs)) else None)"
  "read_u64_le (new_slice bs) =
     (if 8 \<le> length bs then Some (from_le_bytes (take 8 bs), advance 8 (new_slice bs)) else None)"
  by (simp_all add: read_u64_le_def read_exact_at)

lemma read_f64_le_at [cursor_reads]:
  "read_f64_le (advance n (new_slice bs)) =
     (if 8 \<le> length bs - n then Some (from_le_bytes (take 8 (drop n bs)), advance (n + 8) (new_slice bs)) else None)"
  "read_f64_le (new_slice bs) =
     (if 8 \<le> length bs then Some (from_le_bytes (take 8 bs), advance 8 (new_slice bs)) else None)"
  by (simp_all add: read_f64_le_def read_exact_at)

lemma read_i64_le_at [cursor_reads]:
  "read_i64_le (advance n (new_slice bs)) =
     (if 8 \<le> length bs - n then Some (from_le_bytes (take 8 (drop n bs)), advance (n + 8) (new_slice bs)) else None)"
  "read_i64_le (new_slice bs) =
     (if 8 \<le> length bs then Some (from_le_bytes (take 8 bs), advance 8 (new_slice bs)) else None)"
  by (simp_all add: read_i64_le_def read_exact_at)

lemma read_f32_le_at [cursor_reads]:
  "read_f32_le (advance n (new_slice bs)) =
     (if 4 \<le> length bs - n then Some (from_le_bytes (take 4 (drop n bs)), advance (n + 4) (new_slice bs)) else None)"
  "read_f32_le (new_slice bs) =
     (if 4 \<le> length bs then Some (from_le_bytes (take 4 bs), advance 4 (new_slice bs)) else None)"
  by (simp_all add: read_f32_le_def read_exact_at)

end
