(* ===== verification/BitStream.thy ===== *)
theory BitStream
  imports Prelude
begin

text \<open>
  The specification behind \<open>src/datasketches/src/thetafamily/theta/bit_pack.rs\<close>: a sequence of
  elements of \<open>n\<close> bits is one stream of bits, the most significant bit of each element first.
  \<open>stream_bit n f q\<close> is bit \<open>q\<close> of the stream of the elements \<open>f 0, f 1, \<dots>\<close>.
  Packing cuts a stream of \<open>bits\<close>-wide values into bytes, unpacking cuts a stream of bytes into
  \<open>bits\<close>-wide values: both are \<open>regroup\<close>, which assembles one output element from the
  pieces of the input elements it overlaps. The unrolled routines of the source are
  equal to it, routine by routine (theories \<open>BitPack_Pack\<close> and \<open>BitPack_Unpack\<close>).
\<close>

section \<open>Streams of bits\<close>

definition stream_bit :: "nat \<Rightarrow> (nat \<Rightarrow> 'a::len word) \<Rightarrow> nat \<Rightarrow> bool" where
  "stream_bit n f q = bit (f (q div n)) (n - 1 - q mod n)"

definition stream_of :: "nat \<Rightarrow> 'a::len word list \<Rightarrow> bool list" where
  "stream_of n xs = concat (map (bits_of n) xs)"

lemma length_stream_of [simp]: "length (stream_of n xs) = n * length xs"
  by (induction xs) (simp_all add: stream_of_def)

lemma stream_of_append [simp]: "stream_of n (xs @ ys) = stream_of n xs @ stream_of n ys"
  by (simp add: stream_of_def)

lemma stream_of_simps [simp]:
  "stream_of n [] = []"
  "stream_of n (x # xs) = bits_of n x @ stream_of n xs"
  by (simp_all add: stream_of_def)

lemma bits_of_stream:
  "bits_of n (f k) = map (stream_bit n f) [n * k..<n * k + n]"
proof (rule nth_equalityI)
  fix i
  assume "i < length (bits_of n (f k))"
  then show "bits_of n (f k) ! i = map (stream_bit n f) [n * k..<n * k + n] ! i"
    by (simp add: stream_bit_def)
qed simp

lemma stream_of_map: "stream_of n (map f [0..<m]) = map (stream_bit n f) [0..<n * m]"
proof (induction m)
  case 0
  show ?case by simp
next
  case (Suc m)
  have "[0..<n * m + n] = [0..<n * m] @ [n * m..<n * m + n]"
    by (rule upt_add_eq_append) simp
  moreover have "n * Suc m = n * m + n" by simp
  moreover have "[0..<Suc m] = [0..<m] @ [m]" by simp
  ultimately show ?case by (simp add: Suc.IH bits_of_stream del: upt_Suc mult_Suc_right)
qed

lemma stream_of_nth: "stream_of n xs = map (stream_bit n (nth xs)) [0..<n * length xs]"
  using stream_of_map [of n "nth xs" "length xs"] by (simp add: map_nth)

section \<open>Regrouping\<close>

text \<open>
  \<open>piece r w l x\<close>: the \<open>w\<close> bits of \<open>x\<close> above its lowest \<open>r\<close>, moved up by \<open>l\<close>.
  \<open>regroup n f pos need\<close>: the number whose binary digits are the \<open>need\<close> stream bits from
  position \<open>pos\<close>, put together piece by piece.
\<close>

definition piece :: "nat \<Rightarrow> nat \<Rightarrow> nat \<Rightarrow> u64 \<Rightarrow> u64" where
  "piece r w l x = push_bit l (drop_bit r x AND mask w)"

function regroup :: "nat \<Rightarrow> (nat \<Rightarrow> u64) \<Rightarrow> nat \<Rightarrow> nat \<Rightarrow> u64" where
  "regroup n f pos need =
     (if need = 0 \<or> n = 0 then 0
      else let avail = n - pos mod n; w = min avail need in
        piece (avail - w) w (need - w) (f (pos div n)) OR regroup n f (pos + w) (need - w))"
  by pat_completeness auto
termination
  by (relation "measure (\<lambda>(n, f, pos, need). need)") (auto simp: min_def)

declare regroup.simps [simp del]

lemma regroup_0: "regroup n f pos 0 = 0"
  by (simp add: regroup.simps)

lemma regroup_step:
  "0 < n \<Longrightarrow> 0 < need \<Longrightarrow>
     regroup n f pos need =
       (let avail = n - pos mod n; w = min avail need in
         piece (avail - w) w (need - w) (f (pos div n)) OR regroup n f (pos + w) (need - w))"
  by (simp add: regroup.simps [of n f pos need])

lemma bit_piece:
  "bit (piece r w l x) i \<longleftrightarrow> i < 64 \<and> l \<le> i \<and> i - l < w \<and> bit x (r + (i - l))"
  by (auto simp: piece_def bit_simps add.commute)

lemma div_mod_within:
  assumes "(pos :: nat) mod n + d < n"
  shows "(pos + d) div n = pos div n" and "(pos + d) mod n = pos mod n + d"
proof -
  have eq: "pos + d = (pos mod n + d) + n * (pos div n)" by simp
  have "0 < n" using assms by simp
  then show "(pos + d) div n = pos div n" using assms by (simp only: eq div_mult_self2) simp
  show "(pos + d) mod n = pos mod n + d" using assms by (simp only: eq mod_mult_self2) simp
qed

lemma bit_regroup:
  assumes "0 < n" and "need \<le> 64"
  shows "bit (regroup n f pos need) i \<longleftrightarrow> i < need \<and> stream_bit n f (pos + (need - 1 - i))"
  using assms
proof (induction n f pos need rule: regroup.induct)
  case (1 n f pos need)
  show ?case
  proof (cases "need = 0")
    case True
    then show ?thesis by (simp add: regroup_0)
  next
    case False
    define avail where "avail = n - pos mod n"
    define w where "w = min avail need"
    have pm: "pos mod n < n" using "1.prems" by simp
    have w: "0 < w" "w \<le> need" "w \<le> avail" using False pm by (auto simp: w_def avail_def)
    have IH: "bit (regroup n f (pos + w) (need - w)) i \<longleftrightarrow>
        i < need - w \<and> stream_bit n f (pos + w + (need - w - 1 - i))"
      using "1.IH" [of avail w] "1.prems" False by (simp add: avail_def w_def)
    have eq: "regroup n f pos need =
        piece (avail - w) w (need - w) (f (pos div n)) OR regroup n f (pos + w) (need - w)"
      using "1.prems" False by (simp add: regroup_step avail_def w_def Let_def)
    show ?thesis
    proof (cases "i < need - w")
      case True
      then have "i < need" by simp
      with True show ?thesis using w by (simp add: eq bit_or_iff bit_piece IH)
    next
      case ge: False
      show ?thesis
      proof (cases "i < need")
        case True
        let ?d = "need - 1 - i"
        have d: "pos mod n + ?d < n" using ge True w pm unfolding avail_def by linarith
        have "stream_bit n f (pos + ?d) \<longleftrightarrow> bit (f (pos div n)) (avail - w + (i - (need - w)))"
          using div_mod_within [OF d] ge True w pm
          unfolding stream_bit_def avail_def by (simp add: algebra_simps)
        then show ?thesis using ge True "1.prems" w
          by (auto simp add: eq bit_or_iff bit_piece IH)
      next
        case False
        then show ?thesis using w ge by (auto simp: eq bit_or_iff bit_piece IH)
      qed
    qed
  qed
qed

lemma bits_of_regroup:
  assumes "0 < n" and "need \<le> 64"
  shows "bits_of need (regroup n f pos need) = map (stream_bit n f) [pos..<pos + need]"
  using assms by (intro nth_equalityI) (auto simp: bit_regroup)

section \<open>Filling an array from its start\<close>

definition fill_to :: "nat \<Rightarrow> (nat \<Rightarrow> 'a) \<Rightarrow> 'a list \<Rightarrow> 'a list" where
  "fill_to n f b = foldl (\<lambda>b i. b[i := f i]) b [0..<n]"

lemma fill_zero: "b = fill_to 0 f b"
  by (simp add: fill_to_def)

lemma fill_step:
  "t = fill_to k f b \<Longrightarrow> n = Suc k \<Longrightarrow> x = f k \<Longrightarrow> t[k := x] = fill_to n f b"
  by (simp add: fill_to_def)

lemma fill_to_eq: "n \<le> length b \<Longrightarrow> fill_to n f b = map f [0..<n] @ drop n b"
proof (induction n)
  case 0
  show ?case by (simp add: fill_to_def)
next
  case (Suc n)
  have "fill_to (Suc n) f b = (fill_to n f b)[n := f n]" by (simp add: fill_to_def)
  also have "\<dots> = (map f [0..<n] @ drop n b)[n := f n]" using Suc by simp
  also have "\<dots> = map f [0..<Suc n] @ drop (Suc n) b"
    using Suc.prems by (simp add: list_update_append Cons_nth_drop_Suc [symmetric])
  finally show ?case .
qed

section \<open>The literals of the unrolled routines\<close>

text \<open>
  Every operand of the source is a shifted, masked element. The rules of \<open>literal_pieces\<close>
  turn the literals into \<open>piece\<close>s; the simplifier then computes the pieces of
  \<open>regroup\<close> and compares.
\<close>

named_theorems literal_pieces \<open>literal shifts and masks as pieces\<close>
named_theorems regroup_eval \<open>evaluation of regroup at numerals\<close>

lemma mask_pieces [literal_pieces]:
  "x AND 1 = piece 0 1 0 x" "x AND 3 = piece 0 2 0 x" "x AND 7 = piece 0 3 0 x"
  "x AND 0xf = piece 0 4 0 x" "x AND 0x1f = piece 0 5 0 x" "x AND 0x3f = piece 0 6 0 x"
  "x AND 0x7f = piece 0 7 0 x" "x AND 0xff = piece 0 8 0 x"
  by (simp_all add: piece_def mask_eq_exp_minus_1)

lemma shift_pieces [literal_pieces]:
  "piece 0 w 0 (drop_bit r x) = piece r w 0 x"
  "push_bit l (piece r w 0 x) = piece r w l x"
  by (simp_all add: piece_def)

lemma ucast_and8 [literal_pieces]: "ucast (x AND y :: u8) = (ucast x AND ucast y :: u64)"
  by (rule bit_word_eqI) (auto simp: bit_simps)

lemma ucast_drop8 [literal_pieces]: "ucast (drop_bit n x :: u8) = (drop_bit n (ucast x) :: u64)"
  by (rule bit_word_eqI) (auto simp: bit_simps dest: bit_less_length)

lemma ucast_masks [literal_pieces]:
  "ucast (1 :: u8) = (1 :: u64)" "ucast (3 :: u8) = (3 :: u64)" "ucast (7 :: u8) = (7 :: u64)"
  "ucast (0xf :: u8) = (0xf :: u64)" "ucast (0x1f :: u8) = (0x1f :: u64)"
  "ucast (0x3f :: u8) = (0x3f :: u64)" "ucast (0x7f :: u8) = (0x7f :: u64)"
  by simp_all

lemma piece_whole_byte: "piece 0 8 0 (ucast (x :: u8)) = ucast x"
  by (rule bit_word_eqI) (auto simp: bit_piece bit_simps dest: bit_less_length)

lemma push_whole_byte [literal_pieces]: "push_bit l (ucast (x :: u8)) = piece 0 8 l (ucast x)"
  by (metis piece_whole_byte shift_pieces(2))

lemma or_whole_byte [literal_pieces]: "v OR ucast (y :: u8) = v OR piece 0 8 0 (ucast y)"
  by (simp add: piece_whole_byte)

declare regroup_step [regroup_eval] regroup_0 [regroup_eval] Let_def [regroup_eval]
  numeral_2_eq_2 [symmetric, regroup_eval]

end
