(* ===== verification/BitPacker.thy ===== *)
theory BitPacker
  imports BitStream
begin

text \<open>
  \<open>BitPacker\<close> and \<open>BitUnpacker\<close> of \<open>src/datasketches/src/thetafamily/theta/bit_pack.rs\<close>:
  writing and reading values of any width at a bit cursor. The records keep the fields of the
  structs. The abstraction of a packer is the list of the bits written so far (\<open>packed\<close>);
  \<open>pack_value\<close> appends the bits of the value to it, \<open>unpack_value\<close> reads them back.
  An access beyond the buffer is the panic of Rust's slice indexing.
\<close>

section \<open>The packer\<close>

definition low_bit_to_byte_mask :: "nat \<Rightarrow> u8" where
  "low_bit_to_byte_mask bits = (if bits \<ge> 8 then 255 else push_bit bits 1 - 1)"

record bit_packer =
  pk_bytes :: "u8 list"
  pk_index :: nat
  pk_used :: nat

definition packer_new :: "u8 list \<Rightarrow> bit_packer" where
  "packer_new bytes = \<lparr>pk_bytes = bytes, pk_index = 0, pk_used = 0\<rparr>"

definition bytes_used :: "bit_packer \<Rightarrow> nat" where
  "bytes_used p = (if pk_used p = 0 then pk_index p else pk_index p + 1)"

text \<open>\<open>self.bytes[self.byte_index] |= x\<close> and \<open>self.bytes[self.byte_index] = x\<close>\<close>

definition or_byte :: "u8 \<Rightarrow> bit_packer \<Rightarrow> bit_packer res" where
  "or_byte x p = bind_res (get_at (pk_bytes p) (pk_index p)) (\<lambda>b.
     Inr (p\<lparr>pk_bytes := (pk_bytes p)[pk_index p := b OR x]\<rparr>))"

definition put_byte :: "u8 \<Rightarrow> bit_packer \<Rightarrow> bit_packer res" where
  "put_byte x p = bind_res (set_at (pk_bytes p) (pk_index p) x) (\<lambda>bs. Inr (p\<lparr>pk_bytes := bs\<rparr>))"

text \<open>The \<open>while bits >= 8\<close> loop; it returns the bits left over.\<close>

fun pack_whole_bytes :: "u64 \<Rightarrow> nat \<Rightarrow> bit_packer \<Rightarrow> (nat \<times> bit_packer) res" where
  "pack_whole_bytes value bits p =
     (if 8 \<le> bits then
        bind_res (put_byte (ucast (drop_bit (bits - 8) value)) p) (\<lambda>p.
          pack_whole_bytes value (bits - 8) (p\<lparr>pk_index := pk_index p + 1\<rparr>))
      else Inr (bits, p))"

definition pack_rest :: "u64 \<Rightarrow> nat \<Rightarrow> bit_packer \<Rightarrow> bit_packer res" where
  "pack_rest value bits p =
     bind_res (pack_whole_bytes value bits p) (\<lambda>(bits, p).
       if 0 < bits then
         bind_res (put_byte (ucast (push_bit (8 - bits) value)) p) (\<lambda>p. Inr (p\<lparr>pk_used := bits\<rparr>))
       else Inr p)"

definition pack_value :: "u64 \<Rightarrow> nat \<Rightarrow> bit_packer \<Rightarrow> bit_packer res" where
  "pack_value value bits p =
     (if 0 < pk_used p then
        let remain_bits = 8 - pk_used p;
            remain_mask = low_bit_to_byte_mask remain_bits
        in if bits < remain_bits then
             bind_res (or_byte (ucast (push_bit (remain_bits - bits) value) AND remain_mask) p)
               (\<lambda>p. Inr (p\<lparr>pk_used := pk_used p + bits\<rparr>))
           else
             bind_res (or_byte (ucast (drop_bit (bits - remain_bits) value) AND remain_mask) p)
               (\<lambda>p. pack_rest value (bits - remain_bits)
                  (p\<lparr>pk_used := 0, pk_index := pk_index p + 1\<rparr>))
      else pack_rest value bits p)"

section \<open>The unpacker\<close>

record bit_unpacker =
  up_bytes :: "u8 list"
  up_index :: nat
  up_used :: nat

definition unpacker_new :: "u8 list \<Rightarrow> bit_unpacker" where
  "unpacker_new bytes = \<lparr>up_bytes = bytes, up_index = 0, up_used = 0\<rparr>"

fun unpack_whole_bytes :: "u64 \<Rightarrow> nat \<Rightarrow> bit_unpacker \<Rightarrow> (u64 \<times> nat \<times> bit_unpacker) res" where
  "unpack_whole_bytes value bits u =
     (if 8 \<le> bits then
        bind_res (get_at (up_bytes u) (up_index u)) (\<lambda>b.
          unpack_whole_bytes (push_bit 8 value OR ucast b) (bits - 8)
            (u\<lparr>up_index := up_index u + 1\<rparr>))
      else Inr (value, bits, u))"

definition unpack_rest :: "u64 \<Rightarrow> nat \<Rightarrow> bit_unpacker \<Rightarrow> (u64 \<times> bit_unpacker) res" where
  "unpack_rest value bits u =
     bind_res (unpack_whole_bytes value bits u) (\<lambda>(value, bits, u).
       if 0 < bits then
         bind_res (get_at (up_bytes u) (up_index u)) (\<lambda>b.
           Inr (push_bit bits value OR ucast (drop_bit (8 - bits) b), u\<lparr>up_used := bits\<rparr>))
       else Inr (value, u))"

definition unpack_value :: "nat \<Rightarrow> bit_unpacker \<Rightarrow> (u64 \<times> bit_unpacker) res" where
  "unpack_value bits u =
     (if bits = 0 then Inr (0, u)
      else
        let avail_bits = 8 - up_used u;
            chunk_bits = min avail_bits bits;
            chunk_mask = low_bit_to_byte_mask chunk_bits
        in bind_res (get_at (up_bytes u) (up_index u)) (\<lambda>b.
             let value = ucast (drop_bit (avail_bits - chunk_bits) b AND chunk_mask);
                 u = (if chunk_bits = avail_bits then u\<lparr>up_index := up_index u + 1\<rparr> else u);
                 u = u\<lparr>up_used := (up_used u + chunk_bits) AND 7\<rparr>
             in unpack_rest value (bits - chunk_bits) u))"

text \<open>Packing and unpacking a sequence of values, each with its width.\<close>

fun pack_values :: "(u64 \<times> nat) list \<Rightarrow> bit_packer \<Rightarrow> bit_packer res" where
  "pack_values [] p = Inr p"
| "pack_values ((value, bits) # vs) p = bind_res (pack_value value bits p) (pack_values vs)"

fun unpack_values :: "nat list \<Rightarrow> bit_unpacker \<Rightarrow> (u64 list \<times> bit_unpacker) res" where
  "unpack_values [] u = Inr ([], u)"
| "unpack_values (bits # bss) u =
     bind_res (unpack_value bits u) (\<lambda>(value, u).
       bind_res (unpack_values bss u) (\<lambda>(values, u). Inr (value # values, u)))"

declare pack_whole_bytes.simps [simp del] unpack_whole_bytes.simps [simp del]

section \<open>Bit lists\<close>

named_theorems bit_list_simps \<open>bit lists of shifted, truncated and combined words\<close>

lemma bits_of_split:
  "m \<le> n \<Longrightarrow> bits_of n w = bits_of m (drop_bit (n - m) w) @ bits_of (n - m) w"
  by (rule nth_equalityI) (auto simp: nth_append bit_drop_bit_eq)

lemma bits_of_ucast [bit_list_simps]:
  "n \<le> LENGTH('b) \<Longrightarrow> bits_of n (ucast (w :: 'a::len word) :: 'b::len word) = bits_of n w"
  by (rule nth_equalityI) (auto simp: bit_ucast_iff)

lemma take_bits_of: "m \<le> n \<Longrightarrow> take m (bits_of n w) = bits_of m (drop_bit (n - m) w)"
  by (simp add: bits_of_split [of m n])

lemma bit_low_mask: "bit (low_bit_to_byte_mask n) i \<longleftrightarrow> i < n \<and> i < 8"
proof -
  have "low_bit_to_byte_mask n = mask (min n 8)"
    by (cases "n \<le> 8") (auto simp: low_bit_to_byte_mask_def mask_eq_exp_minus_1 min_def)
  then show ?thesis by (auto simp: bit_mask_iff)
qed

lemma bits_of_push [bit_list_simps]:
  "m \<le> n \<Longrightarrow> n \<le> LENGTH('a) \<Longrightarrow>
     take m (bits_of n (push_bit (n - m) (w :: 'a::len word))) = bits_of m w"
  by (rule nth_equalityI) (auto simp: bit_push_bit_iff)

lemma bits_of_snoc:
  fixes v w :: "'a::len word"
  assumes "n + m \<le> LENGTH('a)" and "\<And>i. bit w i \<Longrightarrow> i < m"
  shows "bits_of (n + m) (push_bit m v OR w) = bits_of n v @ bits_of m w"
proof (rule nth_equalityI)
  fix i
  assume "i < length (bits_of (n + m) (push_bit m v OR w))"
  then have i: "i < n + m" by simp
  show "bits_of (n + m) (push_bit m v OR w) ! i = (bits_of n v @ bits_of m w) ! i"
  proof (cases "i < n")
    case True
    then have "\<not> bit w (n + m - Suc i)" using assms(2) by fastforce
    with True assms(1) show ?thesis
      by (auto simp: nth_append bit_or_iff bit_push_bit_iff)
  next
    case False
    then have "\<not> m \<le> n + m - Suc i" and "n + m - Suc i = m - Suc (i - n)" using i by auto
    with False i assms(1) show ?thesis by (simp add: nth_append bit_or_iff bit_push_bit_iff)
  qed
qed simp

lemma take_stream_update:
  "k < length bs \<Longrightarrow> u \<le> 8 \<Longrightarrow>
     take (8 * k + u) (stream_of 8 (bs[k := x])) = take (8 * k) (stream_of 8 bs) @ take u (bits_of 8 x)"
  by (simp add: upd_conv_take_nth_drop)
    (metis add_diff_cancel_left' append_take_drop_id append_eq_conv_conj length_stream_of
      length_take less_imp_le min.absorb2 stream_of_append take_add)

lemma take_stream_split:
  "k < length bs \<Longrightarrow> u \<le> 8 \<Longrightarrow>
     take (8 * k + u) (stream_of 8 bs) = take (8 * k) (stream_of 8 bs) @ take u (bits_of 8 (bs ! k))"
  using take_stream_update [of k bs u "bs ! k"] by simp

section \<open>What the packer has written\<close>

definition packer_cursor :: "bit_packer \<Rightarrow> nat" where
  "packer_cursor p = 8 * pk_index p + pk_used p"

definition packed :: "bit_packer \<Rightarrow> bool list" where
  "packed p = take (packer_cursor p) (stream_of 8 (pk_bytes p))"

text \<open>
  The invariant: a partly used byte exists and its unused bits are still zero, so that the
  next value can be or-ed into it.
\<close>

definition packer_ok :: "bit_packer \<Rightarrow> bool" where
  "packer_ok p \<longleftrightarrow>
     pk_used p < 8 \<and> pk_index p \<le> length (pk_bytes p) \<and>
     (0 < pk_used p \<longrightarrow> pk_index p < length (pk_bytes p) \<and>
        (\<forall>i < 8 - pk_used p. \<not> bit (pk_bytes p ! pk_index p) i))"

section \<open>Correctness of the packer\<close>

lemma put_byte_in:
  "pk_index p < length (pk_bytes p) \<Longrightarrow>
     put_byte x p = Inr (p\<lparr>pk_bytes := (pk_bytes p)[pk_index p := x]\<rparr>)"
  by (simp add: put_byte_def)

lemma or_byte_in:
  "pk_index p < length (pk_bytes p) \<Longrightarrow>
     or_byte x p = Inr (p\<lparr>pk_bytes := (pk_bytes p)[pk_index p := pk_bytes p ! pk_index p OR x]\<rparr>)"
  by (simp add: or_byte_def)

lemma pack_whole_bytes_ok:
  assumes "pk_index p + bits div 8 \<le> length (pk_bytes p)"
  shows "\<exists>p'. pack_whole_bytes v bits p = Inr (bits mod 8, p') \<and>
     pk_index p' = pk_index p + bits div 8 \<and> pk_used p' = pk_used p \<and>
     length (pk_bytes p') = length (pk_bytes p) \<and>
     take (8 * pk_index p') (stream_of 8 (pk_bytes p')) =
       take (8 * pk_index p) (stream_of 8 (pk_bytes p)) @
       bits_of (bits - bits mod 8) (drop_bit (bits mod 8) v)"
  using assms
proof (induction v bits p rule: pack_whole_bytes.induct)
  case (1 v bits p)
  show ?case
  proof (cases "8 \<le> bits")
    case False
    then show ?thesis by (simp add: pack_whole_bytes.simps [of v bits p] bits_of_def)
  next
    case True
    define x :: u8 where "x = ucast (drop_bit (bits - 8) v)"
    define q where "q = p\<lparr>pk_bytes := (pk_bytes p)[pk_index p := x]\<rparr>"
    define q' where "q' = q\<lparr>pk_index := pk_index q + 1\<rparr>"
    have m: "(bits - 8) mod 8 = bits mod 8" and d: "(bits - 8) div 8 + 1 = bits div 8"
      using True by (simp_all add: le_mod_geq le_div_geq)
    have k: "pk_index p < length (pk_bytes p)" using d "1.prems" by linarith
    have run: "pack_whole_bytes v bits p = pack_whole_bytes v (bits - 8) q'"
      using True k by (simp add: pack_whole_bytes.simps [of v bits p] put_byte_in x_def q_def q'_def)
    have q': "take (8 * pk_index q') (stream_of 8 (pk_bytes q')) =
        take (8 * pk_index p) (stream_of 8 (pk_bytes p)) @ bits_of 8 x"
      using take_stream_update [OF k, of 8 x] by (simp add: q_def q'_def add.commute)
    have "\<exists>p'. pack_whole_bytes v (bits - 8) q' = Inr ((bits - 8) mod 8, p') \<and>
       pk_index p' = pk_index q' + (bits - 8) div 8 \<and> pk_used p' = pk_used q' \<and>
       length (pk_bytes p') = length (pk_bytes q') \<and>
       take (8 * pk_index p') (stream_of 8 (pk_bytes p')) =
         take (8 * pk_index q') (stream_of 8 (pk_bytes q')) @
         bits_of (bits - 8 - (bits - 8) mod 8) (drop_bit ((bits - 8) mod 8) v)"
      unfolding q'_def by (rule "1.IH") (use True d "1.prems" in \<open>auto simp: q_def\<close>)
    then obtain p' where p': "pack_whole_bytes v (bits - 8) q' = Inr ((bits - 8) mod 8, p')"
       "pk_index p' = pk_index q' + (bits - 8) div 8" "pk_used p' = pk_used q'"
       "length (pk_bytes p') = length (pk_bytes q')"
       "take (8 * pk_index p') (stream_of 8 (pk_bytes p')) =
         take (8 * pk_index q') (stream_of 8 (pk_bytes q')) @
         bits_of (bits - 8 - (bits - 8) mod 8) (drop_bit ((bits - 8) mod 8) v)"
      by blast
    have "bits_of 8 x @ bits_of (bits - 8 - bits mod 8) (drop_bit (bits mod 8) v) =
        bits_of (bits - bits mod 8) (drop_bit (bits mod 8) v)"
    proof -
      have "8 \<le> bits - bits mod 8" using True by presburger
      then have "bits - bits mod 8 - 8 + bits mod 8 = bits - 8"
        and "bits - bits mod 8 - 8 = bits - 8 - bits mod 8" by simp_all
      with \<open>8 \<le> bits - bits mod 8\<close> show ?thesis
        by (simp add: bits_of_split [of 8 "bits - bits mod 8"] x_def bits_of_ucast)
    qed
    then have "take (8 * pk_index p') (stream_of 8 (pk_bytes p')) =
        take (8 * pk_index p) (stream_of 8 (pk_bytes p)) @
        bits_of (bits - bits mod 8) (drop_bit (bits mod 8) v)"
      by (simp only: p'(5) q' m append_assoc)
    moreover have "pk_index q' = pk_index p + 1" "pk_used q' = pk_used p"
        "length (pk_bytes q') = length (pk_bytes p)"
      by (simp_all add: q_def q'_def)
    ultimately show ?thesis using p'(1-4) d by (intro exI [of _ p']) (simp add: run m)
  qed
qed

lemma pack_rest_ok:
  assumes "pk_used p = 0" and "bits \<le> 64"
    and "packer_cursor p + bits \<le> 8 * length (pk_bytes p)"
  shows "\<exists>p'. pack_rest v bits p = Inr p' \<and> packer_ok p' \<and>
     packer_cursor p' = packer_cursor p + bits \<and>
     length (pk_bytes p') = length (pk_bytes p) \<and>
     packed p' = packed p @ bits_of bits v"
proof -
  let ?r = "bits mod 8"
  have bits: "8 * (bits div 8) + ?r = bits" by simp
  have room: "pk_index p + bits div 8 \<le> length (pk_bytes p)"
    using assms(3) bits unfolding packer_cursor_def by linarith
  obtain p' where p': "pack_whole_bytes v bits p = Inr (?r, p')"
      "pk_index p' = pk_index p + bits div 8" "pk_used p' = pk_used p"
      "length (pk_bytes p') = length (pk_bytes p)"
      "take (8 * pk_index p') (stream_of 8 (pk_bytes p')) =
         take (8 * pk_index p) (stream_of 8 (pk_bytes p)) @
         bits_of (bits - ?r) (drop_bit ?r v)"
    using pack_whole_bytes_ok [OF room, of v] by auto
  have whole: "bits_of bits v = bits_of (bits - ?r) (drop_bit ?r v) @ bits_of ?r v"
    using bits_of_split [of "bits - ?r" bits v] by simp
  show ?thesis
  proof (cases "?r = 0")
    case True
    then show ?thesis using p' assms bits whole
      by (auto simp: pack_rest_def packer_ok_def packer_cursor_def packed_def bits_of_def)
  next
    case False
    define x :: u8 where "x = ucast (push_bit (8 - ?r) v)"
    have r: "?r < 8" by simp
    have k: "pk_index p' < length (pk_bytes p')"
      using p'(2,4) assms(1,3) False bits unfolding packer_cursor_def by linarith
    have x: "take ?r (bits_of 8 x) = bits_of ?r v"
      using bits_of_push [of ?r 8 v] r by (simp add: x_def bits_of_ucast)
    have "pack_rest v bits p =
        Inr (p'\<lparr>pk_bytes := (pk_bytes p')[pk_index p' := x], pk_used := ?r\<rparr>)"
      using False k by (simp add: pack_rest_def p'(1) put_byte_in x_def)
    moreover have "\<forall>i < 8 - ?r. \<not> bit x i" by (auto simp: x_def bit_simps)
    moreover have "take (8 * pk_index p' + ?r) (stream_of 8 ((pk_bytes p')[pk_index p' := x])) =
        take (8 * pk_index p) (stream_of 8 (pk_bytes p)) @ bits_of bits v"
      using take_stream_update [OF k, of ?r x] p'(5) x whole by simp
    ultimately show ?thesis
      using p'(2-4) assms k bits
      by (simp add: packer_ok_def packer_cursor_def packed_def)
  qed
qed

text \<open>Or-ing bits into the free part of a byte keeps its used part.\<close>

lemma take_bits_or:
  assumes "u + n \<le> 8" and "\<forall>i < 8 - u. \<not> bit (b :: u8) i"
    and "\<And>i. i < 8 \<Longrightarrow> bit x i \<longleftrightarrow> 8 - u - n \<le> i \<and> i < 8 - u \<and> bit (v :: u64) (i - (8 - u - n) + k)"
  shows "take (u + n) (bits_of 8 (b OR x)) = take u (bits_of 8 b) @ bits_of n (drop_bit k v)"
  using assms
  by (intro nth_equalityI) (auto simp: nth_append bit_or_iff bit_drop_bit_eq add.commute)

theorem pack_value_ok:
  assumes ok: "packer_ok p" and bits: "bits \<le> 64"
    and room: "packer_cursor p + bits \<le> 8 * length (pk_bytes p)"
  shows "\<exists>p'. pack_value v bits p = Inr p' \<and> packer_ok p' \<and>
     packer_cursor p' = packer_cursor p + bits \<and>
     length (pk_bytes p') = length (pk_bytes p) \<and>
     packed p' = packed p @ bits_of bits v"
proof (cases "pk_used p = 0")
  case True
  then show ?thesis using pack_rest_ok [of p bits v] bits room by (simp add: pack_value_def)
next
  case False
  let ?u = "pk_used p" and ?k = "pk_index p" and ?b = "pk_bytes p ! pk_index p"
  let ?rem = "8 - pk_used p"
  have u: "0 < ?u" "?u < 8" and k: "?k < length (pk_bytes p)"
    and free: "\<forall>i < 8 - ?u. \<not> bit ?b i"
    using ok False by (auto simp: packer_ok_def)
  have old: "packed p = take (8 * ?k) (stream_of 8 (pk_bytes p)) @ take ?u (bits_of 8 ?b)"
    using take_stream_split [OF k, of ?u] u by (simp add: packed_def packer_cursor_def)
  show ?thesis
  proof (cases "bits < ?rem")
    case True
    define x :: u8 where "x = ucast (push_bit (?rem - bits) v) AND low_bit_to_byte_mask ?rem"
    define p' where "p' = p\<lparr>pk_bytes := (pk_bytes p)[?k := ?b OR x], pk_used := ?u + bits\<rparr>"
    have run: "pack_value v bits p = Inr p'"
      using True u k by (simp add: pack_value_def or_byte_in x_def p'_def)
    have "take (?u + bits) (bits_of 8 (?b OR x)) =
        take ?u (bits_of 8 ?b) @ bits_of bits (drop_bit 0 v)"
      by (rule take_bits_or) (use free True u in \<open>auto simp: x_def bit_simps bit_low_mask\<close>)
    then have x: "take (?u + bits) (bits_of 8 (?b OR x)) = take ?u (bits_of 8 ?b) @ bits_of bits v"
      by simp
    have "packed p' = take (8 * ?k) (stream_of 8 (pk_bytes p)) @ take (?u + bits) (bits_of 8 (?b OR x))"
      using take_stream_update [OF k, of "?u + bits" "?b OR x"] True u
      by (simp add: packed_def packer_cursor_def p'_def add.assoc)
    then have "packed p' = packed p @ bits_of bits v" by (simp only: x old append_assoc)
    moreover have "packer_ok p'"
      using True u k free by (auto simp: packer_ok_def p'_def x_def bit_simps)
    ultimately show ?thesis
      by (simp add: run p'_def packer_cursor_def)
  next
    case False
    define x :: u8 where "x = ucast (drop_bit (bits - ?rem) v) AND low_bit_to_byte_mask ?rem"
    define q where "q = p\<lparr>pk_bytes := (pk_bytes p)[?k := ?b OR x], pk_used := 0, pk_index := ?k + 1\<rparr>"
    have run: "pack_value v bits p = pack_rest v (bits - ?rem) q"
      using False u k by (simp add: pack_value_def or_byte_in x_def q_def)
    have "take (?u + ?rem) (bits_of 8 (?b OR x)) =
        take ?u (bits_of 8 ?b) @ bits_of ?rem (drop_bit (bits - ?rem) v)"
      by (rule take_bits_or) (use free False u in \<open>auto simp: x_def bit_simps bit_low_mask add.commute\<close>)
    then have x: "bits_of 8 (?b OR x) =
        take ?u (bits_of 8 ?b) @ bits_of ?rem (drop_bit (bits - ?rem) v)"
      using u by simp
    have "packed q = take (8 * ?k) (stream_of 8 (pk_bytes p)) @ bits_of 8 (?b OR x)"
      using take_stream_update [OF k, of 8 "?b OR x"]
      by (simp add: packed_def packer_cursor_def q_def add.commute)
    then have q: "packed q = packed p @ bits_of ?rem (drop_bit (bits - ?rem) v)"
      by (simp only: x old append_assoc)
    have "bits_of bits v =
        bits_of ?rem (drop_bit (bits - ?rem) v) @ bits_of (bits - ?rem) v"
      using False by (intro bits_of_split) simp
    moreover have "packer_cursor q + (bits - ?rem) = packer_cursor p + bits"
      using False u by (simp add: packer_cursor_def q_def)
    moreover have "\<exists>p'. pack_rest v (bits - ?rem) q = Inr p' \<and> packer_ok p' \<and>
        packer_cursor p' = packer_cursor q + (bits - ?rem) \<and>
        length (pk_bytes p') = length (pk_bytes q) \<and>
        packed p' = packed q @ bits_of (bits - ?rem) v"
      by (rule pack_rest_ok) (use bits room \<open>packer_cursor q + (bits - ?rem) = _\<close> in \<open>auto simp: q_def\<close>)
    moreover have "length (pk_bytes q) = length (pk_bytes p)" by (simp add: q_def)
    ultimately show ?thesis by (auto simp: run q)
  qed
qed

text \<open>The panic: a value that does not fit into the rest of the buffer.\<close>

lemma pack_whole_bytes_full:
  assumes "length (pk_bytes p) < pk_index p + bits div 8" and "pk_index p \<le> length (pk_bytes p)"
  shows "\<exists>e. pack_whole_bytes v bits p = Inl (Panic e)"
  using assms
proof (induction v bits p rule: pack_whole_bytes.induct)
  case (1 v bits p)
  from "1.prems" have "bits div 8 \<noteq> 0" by linarith
  then have 8: "8 \<le> bits" by (simp add: div_eq_0_iff)
  show ?case
  proof (cases "pk_index p < length (pk_bytes p)")
    case True
    let ?q = "p\<lparr>pk_bytes := (pk_bytes p)[pk_index p := ucast (drop_bit (bits - 8) v)]\<rparr>"
    have "bits div 8 = (bits - 8) div 8 + 1" using 8 by (simp add: le_div_geq)
    then have "\<exists>e. pack_whole_bytes v (bits - 8) (?q\<lparr>pk_index := pk_index ?q + 1\<rparr>) = Inl (Panic e)"
      by (intro "1.IH") (use "1.prems" 8 True in auto)
    then show ?thesis
      using 8 True by (simp add: pack_whole_bytes.simps [of v bits p] put_byte_in)
  next
    case False
    then show ?thesis using 8
      by (simp add: pack_whole_bytes.simps [of v bits p] put_byte_def set_at_def)
  qed
qed

lemma pack_rest_full:
  assumes "pk_used p = 0" and "pk_index p \<le> length (pk_bytes p)"
    and "8 * length (pk_bytes p) < packer_cursor p + bits"
  shows "\<exists>e. pack_rest v bits p = Inl (Panic e)"
proof (cases "length (pk_bytes p) < pk_index p + bits div 8")
  case True
  then show ?thesis using pack_whole_bytes_full [of p bits v] assms
    by (auto simp: pack_rest_def)
next
  case False
  then obtain q where q: "pack_whole_bytes v bits p = Inr (bits mod 8, q)"
      "pk_index q = pk_index p + bits div 8" "length (pk_bytes q) = length (pk_bytes p)"
    using pack_whole_bytes_ok [of p bits v] by auto
  have "8 * length (pk_bytes p) < 8 * pk_index p + bits"
    using assms(1,3) by (simp add: packer_cursor_def)
  moreover have "8 * (bits div 8) + bits mod 8 = bits" by simp
  ultimately have "pk_index q = length (pk_bytes q)" and "0 < bits mod 8"
    using False q(2,3) by linarith+
  then show ?thesis by (simp add: pack_rest_def q(1) put_byte_def set_at_def)
qed

theorem pack_value_full:
  assumes ok: "packer_ok p" and full: "8 * length (pk_bytes p) < packer_cursor p + bits"
  shows "\<exists>e. pack_value v bits p = Inl (Panic e)"
proof (cases "pk_used p = 0")
  case True
  then show ?thesis using pack_rest_full [of p bits v] ok full
    by (simp add: pack_value_def packer_ok_def)
next
  case False
  then have k: "pk_index p < length (pk_bytes p)" "pk_used p < 8"
    using ok by (auto simp: packer_ok_def)
  let ?rem = "8 - pk_used p"
  let ?q = "\<lambda>b. p\<lparr>pk_bytes := (pk_bytes p)[pk_index p := b], pk_used := 0, pk_index := Suc (pk_index p)\<rparr>"
  have "\<not> bits < ?rem" using full k unfolding packer_cursor_def by linarith
  moreover have "\<exists>e. pack_rest v (bits - ?rem) (?q b) = Inl (Panic e)" for b
    using full k calculation by (intro pack_rest_full) (auto simp: packer_cursor_def)
  ultimately show ?thesis using False k by (simp add: pack_value_def or_byte_in)
qed

section \<open>Correctness of the unpacker\<close>

definition unpacker_cursor :: "bit_unpacker \<Rightarrow> nat" where
  "unpacker_cursor u = 8 * up_index u + up_used u"

definition unpacker_ok :: "bit_unpacker \<Rightarrow> bool" where
  "unpacker_ok u \<longleftrightarrow> up_used u < 8"

text \<open>The bits at and after the cursor.\<close>

definition pending :: "bit_unpacker \<Rightarrow> bool list" where
  "pending u = drop (unpacker_cursor u) (stream_of 8 (up_bytes u))"

lemma drop_stream_split:
  assumes "k < length bs" and "d \<le> 8"
  shows "drop (8 * k + d) (stream_of 8 bs) =
     drop d (bits_of 8 (bs ! k)) @ drop (8 * (k + 1)) (stream_of 8 bs)"
proof -
  have "stream_of 8 bs = stream_of 8 (take k bs) @ bits_of 8 (bs ! k) @ stream_of 8 (drop (Suc k) bs)"
    using assms(1) id_take_nth_drop [of k bs] by (metis stream_of_append stream_of_simps(2))
  then show ?thesis using assms by simp
qed

lemma take_eqD: "take n xs = take n ys \<Longrightarrow> m \<le> n \<Longrightarrow> take m xs = take m ys"
  by (metis min.absorb1 take_take)

lemma unpack_whole_bytes_ok:
  assumes "up_index u + bits div 8 \<le> length (up_bytes u)"
    and "n + 8 * (bits div 8) \<le> 64" and "\<And>i. bit v i \<Longrightarrow> i < n"
  shows "\<exists>v'. unpack_whole_bytes v bits u =
       Inr (v', bits mod 8, u\<lparr>up_index := up_index u + bits div 8\<rparr>) \<and>
     bits_of (n + 8 * (bits div 8)) v' =
       bits_of n v @ take (8 * (bits div 8)) (drop (8 * up_index u) (stream_of 8 (up_bytes u))) \<and>
     (\<forall>i. bit v' i \<longrightarrow> i < n + 8 * (bits div 8))"
  using assms
proof (induction v bits u arbitrary: n rule: unpack_whole_bytes.induct)
  case (1 v bits u)
  show ?case
  proof (cases "8 \<le> bits")
    case False
    then show ?thesis using "1.prems" by (simp add: unpack_whole_bytes.simps [of v bits u])
  next
    case True
    let ?k = "up_index u" and ?b = "up_bytes u ! up_index u"
    let ?v = "push_bit 8 v OR ucast ?b"
    let ?u = "u\<lparr>up_index := ?k + 1\<rparr>"
    have m: "(bits - 8) mod 8 = bits mod 8" and d: "bits div 8 = (bits - 8) div 8 + 1"
      using True by (simp_all add: le_mod_geq le_div_geq)
    have k: "?k < length (up_bytes u)" using d "1.prems" by linarith
    have run: "unpack_whole_bytes v bits u = unpack_whole_bytes ?v (bits - 8) ?u"
      using True k by (simp add: unpack_whole_bytes.simps [of v bits u])
    have v: "bits_of (n + 8) ?v = bits_of n v @ bits_of 8 ?b"
      using "1.prems"(2) d
      by (subst bits_of_snoc) (auto simp: bits_of_ucast bit_simps dest: bit_less_length)
    have fit: "i < n + 8" if "bit ?v i" for i
      using that "1.prems"(3) [of "i - 8"] by (auto simp: bit_simps dest: bit_less_length)
    have "\<exists>v'. unpack_whole_bytes ?v (bits - 8) ?u =
         Inr (v', (bits - 8) mod 8, ?u\<lparr>up_index := up_index ?u + (bits - 8) div 8\<rparr>) \<and>
       bits_of ((n + 8) + 8 * ((bits - 8) div 8)) v' = bits_of (n + 8) ?v @
         take (8 * ((bits - 8) div 8)) (drop (8 * up_index ?u) (stream_of 8 (up_bytes ?u))) \<and>
       (\<forall>i. bit v' i \<longrightarrow> i < (n + 8) + 8 * ((bits - 8) div 8))"
      by (rule "1.IH") (use True k d "1.prems" fit in auto)
    then obtain v' where v': "unpack_whole_bytes ?v (bits - 8) ?u =
         Inr (v', (bits - 8) mod 8, ?u\<lparr>up_index := up_index ?u + (bits - 8) div 8\<rparr>)"
       "bits_of ((n + 8) + 8 * ((bits - 8) div 8)) v' = bits_of (n + 8) ?v @
         take (8 * ((bits - 8) div 8)) (drop (8 * up_index ?u) (stream_of 8 (up_bytes ?u)))"
       "\<forall>i. bit v' i \<longrightarrow> i < (n + 8) + 8 * ((bits - 8) div 8)"
      by blast
    have len: "n + 8 * (bits div 8) = (n + 8) + 8 * ((bits - 8) div 8)"
      and idx: "?u\<lparr>up_index := up_index ?u + (bits - 8) div 8\<rparr> = u\<lparr>up_index := ?k + bits div 8\<rparr>"
      by (simp_all add: d)
    have "drop (8 * ?k) (stream_of 8 (up_bytes u)) =
        bits_of 8 ?b @ drop (8 * (?k + 1)) (stream_of 8 (up_bytes u))"
      using drop_stream_split [OF k, of 0] by simp
    then have "bits_of 8 ?b @ take (8 * ((bits - 8) div 8)) (drop (8 * (?k + 1)) (stream_of 8 (up_bytes u))) =
        take (8 * (bits div 8)) (drop (8 * ?k) (stream_of 8 (up_bytes u)))"
      by (simp add: d)
    with v'(2) have "bits_of (n + 8 * (bits div 8)) v' =
        bits_of n v @ take (8 * (bits div 8)) (drop (8 * ?k) (stream_of 8 (up_bytes u)))"
      by (simp add: len v)
    then show ?thesis using v'(1,3) by (simp only: run m idx len) blast
  qed
qed

lemma take_across_byte:
  assumes "8 * k + 8 * q + r \<le> 8 * length bs" and "0 < r" and "r < 8"
  shows "take (8 * q + r) (drop (8 * k) (stream_of 8 bs)) =
     take (8 * q) (drop (8 * k) (stream_of 8 bs)) @ take r (bits_of 8 (bs ! (k + q)))"
proof -
  have "k + q < length bs" using assms by linarith
  then have "drop (8 * (k + q)) (stream_of 8 bs) =
      bits_of 8 (bs ! (k + q)) @ drop (8 * (k + q + 1)) (stream_of 8 bs)"
    using drop_stream_split [of "k + q" bs 0] by simp
  moreover have "take r (drop (8 * q) (drop (8 * k) (stream_of 8 bs))) =
      take r (drop (8 * (k + q)) (stream_of 8 bs))"
    by (simp add: algebra_simps)
  ultimately show ?thesis using assms(3) by (simp only: take_add) simp
qed

text \<open>The first, partly used byte.\<close>

lemma first_chunk:
  fixes b :: u8
  assumes "u < 8" and "c \<le> 8 - u"
  defines "x \<equiv> ucast (drop_bit (8 - u - c) b AND low_bit_to_byte_mask c) :: u64"
  shows "bits_of c x = take c (drop u (bits_of 8 b))" and "bit x i \<Longrightarrow> i < c"
proof -
  show "bits_of c x = take c (drop u (bits_of 8 b))"
    using assms by (intro nth_equalityI) (auto simp: x_def bit_simps bit_low_mask)
  show "bit x i \<Longrightarrow> i < c"
    by (auto simp: x_def bit_simps bit_low_mask)
qed

lemma and_7: "(n :: nat) AND 7 = n mod 8"
proof -
  have "n AND 7 = n AND mask 3" by (simp add: mask_eq_exp_minus_1)
  then show ?thesis by (simp only: flip: take_bit_eq_mask) (simp add: take_bit_eq_mod)
qed

lemma unpack_rest_ok:
  assumes "up_used u = 0" and room: "unpacker_cursor u + bits \<le> 8 * length (up_bytes u)"
    and n: "n + bits \<le> 64" and v: "\<And>i. bit v i \<Longrightarrow> i < n"
  shows "\<exists>v' u'. unpack_rest v bits u = Inr (v', u') \<and> unpacker_ok u' \<and>
     up_bytes u' = up_bytes u \<and> unpacker_cursor u' = unpacker_cursor u + bits \<and>
     bits_of (n + bits) v' = bits_of n v @ take bits (pending u) \<and> (\<forall>i. bit v' i \<longrightarrow> i < n + bits)"
proof -
  let ?k = "up_index u" and ?q = "bits div 8" and ?r = "bits mod 8"
  let ?S = "drop (8 * ?k) (stream_of 8 (up_bytes u))"
  have split: "8 * ?q + ?r = bits" by simp
  have room': "8 * ?k + 8 * ?q + ?r \<le> 8 * length (up_bytes u)"
    using room assms(1) by (simp add: unpacker_cursor_def)
  have pend: "pending u = ?S" using assms(1) by (simp add: pending_def unpacker_cursor_def)
  have "?k + ?q \<le> length (up_bytes u)" and "n + 8 * ?q \<le> 64" using room' n split by linarith+
  then obtain v' where v': "unpack_whole_bytes v bits u = Inr (v', ?r, u\<lparr>up_index := ?k + ?q\<rparr>)"
      "bits_of (n + 8 * ?q) v' = bits_of n v @ take (8 * ?q) ?S"
      "\<And>i. bit v' i \<Longrightarrow> i < n + 8 * ?q"
    using unpack_whole_bytes_ok [of u bits n v] v by blast
  show ?thesis
  proof (cases "?r = 0")
    case True
    then have "bits = 8 * ?q" using split by linarith
    with True v' assms(1) show ?thesis
      by (auto simp: unpack_rest_def unpacker_ok_def unpacker_cursor_def pend)
  next
    case False
    let ?b = "up_bytes u ! (?k + ?q)"
    let ?v = "push_bit ?r v' OR ucast (drop_bit (8 - ?r) ?b)"
    have r: "0 < ?r" "?r < 8" using False by auto
    have fits: "i < ?r" if "bit (ucast (drop_bit (8 - ?r) ?b) :: u64) i" for i
      using that r by (auto simp: bit_simps dest: bit_less_length)
    have "?k + ?q < length (up_bytes u)" using room' r by linarith
    then have run: "unpack_rest v bits u = Inr (?v, u\<lparr>up_index := ?k + ?q, up_used := ?r\<rparr>)"
      using r by (simp add: unpack_rest_def v'(1))
    have "bits_of ((n + 8 * ?q) + ?r) ?v =
        bits_of (n + 8 * ?q) v' @ bits_of ?r (ucast (drop_bit (8 - ?r) ?b) :: u64)"
      using n split fits by (intro bits_of_snoc) auto
    also have "bits_of ?r (ucast (drop_bit (8 - ?r) ?b) :: u64) = take ?r (bits_of 8 ?b)"
      using r by (simp add: bits_of_ucast take_bits_of)
    finally have "bits_of (n + (8 * ?q + ?r)) ?v = bits_of n v @ take (8 * ?q + ?r) (pending u)"
      by (simp only: v'(2) pend take_across_byte [OF room' r] append_assoc add.assoc)
    moreover have "i < n + (8 * ?q + ?r)" if "bit ?v i" for i
    proof (cases "bit (ucast (drop_bit (8 - ?r) ?b) :: u64) i")
      case True
      from fits [OF this] show ?thesis by linarith
    next
      case False
      with that have "?r \<le> i" and "bit v' (i - ?r)" by (auto simp: bit_or_iff bit_push_bit_iff)
      with v'(3) [of "i - ?r"] show ?thesis by linarith
    qed
    ultimately show ?thesis
      using r assms(1) run by (simp add: unpacker_ok_def unpacker_cursor_def split)
  qed
qed

theorem unpack_value_ok:
  assumes ok: "unpacker_ok u" and bits: "bits \<le> 64"
    and room: "unpacker_cursor u + bits \<le> 8 * length (up_bytes u)"
  shows "\<exists>v u'. unpack_value bits u = Inr (v, u') \<and> unpacker_ok u' \<and>
     up_bytes u' = up_bytes u \<and> unpacker_cursor u' = unpacker_cursor u + bits \<and>
     bits_of bits v = take bits (pending u) \<and> (\<forall>i. bit v i \<longrightarrow> i < bits)"
proof (cases "bits = 0")
  case True
  then show ?thesis using ok by (simp add: unpack_value_def bits_of_def)
next
  case False
  let ?k = "up_index u" and ?d = "up_used u" and ?b = "up_bytes u ! up_index u"
  have d: "?d < 8" using ok by (simp add: unpacker_ok_def)
  have k: "?k < length (up_bytes u)" using room False unfolding unpacker_cursor_def by linarith
  have pend: "pending u = drop ?d (bits_of 8 ?b) @ drop (8 * (?k + 1)) (stream_of 8 (up_bytes u))"
    using drop_stream_split [OF k, of ?d] d by (simp add: pending_def unpacker_cursor_def)
  define c where "c = min (8 - ?d) bits"
  define x :: u64 where "x = ucast (drop_bit (8 - ?d - c) ?b AND low_bit_to_byte_mask c)"
  have c: "c \<le> 8 - ?d" "c \<le> bits" "0 < c" using False d by (auto simp: c_def)
  have x: "bits_of c x = take c (drop ?d (bits_of 8 ?b))" "\<And>i. bit x i \<Longrightarrow> i < c"
    using first_chunk [OF d c(1), of ?b] unfolding x_def by blast+
  show ?thesis
  proof (cases "c = 8 - ?d")
    case False
    then have "bits < 8 - ?d" and c_eq: "c = bits" by (auto simp: c_def)
    then have run: "unpack_value bits u = Inr (x, u\<lparr>up_used := ?d + bits\<rparr>)"
      using \<open>bits \<noteq> 0\<close> k
      by (simp add: unpack_value_def unpack_rest_def unpack_whole_bytes.simps x_def and_7 Let_def)
    then show ?thesis using x \<open>bits < 8 - ?d\<close>
      by (simp add: c_eq pend unpacker_ok_def unpacker_cursor_def)
  next
    case True
    define w where "w = u\<lparr>up_index := ?k + 1, up_used := 0\<rparr>"
    have run: "unpack_value bits u = unpack_rest x (bits - c) w"
      using \<open>bits \<noteq> 0\<close> k d True
      by (simp add: unpack_value_def c_def [symmetric] x_def w_def and_7 Let_def)
    have w: "unpacker_cursor w + (bits - c) = unpacker_cursor u + bits"
      "pending w = drop (8 * (?k + 1)) (stream_of 8 (up_bytes u))"
      using True c d by (simp_all add: unpacker_cursor_def pending_def w_def)
    have "\<exists>v' u'. unpack_rest x (bits - c) w = Inr (v', u') \<and> unpacker_ok u' \<and>
       up_bytes u' = up_bytes w \<and> unpacker_cursor u' = unpacker_cursor w + (bits - c) \<and>
       bits_of (c + (bits - c)) v' = bits_of c x @ take (bits - c) (pending w) \<and>
       (\<forall>i. bit v' i \<longrightarrow> i < c + (bits - c))"
      by (rule unpack_rest_ok) (use room bits c x(2) w(1) in \<open>auto simp: w_def\<close>)
    moreover have "take bits (pending u) = bits_of c x @ take (bits - c) (pending w)"
      using True d c x(1) by (simp add: pend w(2))
    ultimately show ?thesis using c(2) w(1) by (auto simp: run w_def)
  qed
qed

section \<open>Sequences of values\<close>

definition total_bits :: "nat list \<Rightarrow> nat" where
  "total_bits bss = sum_list bss"

definition all_bits :: "(u64 \<times> nat) list \<Rightarrow> bool list" where
  "all_bits vs = concat (map (\<lambda>(v, bits). bits_of bits v) vs)"

lemma length_all_bits: "length (all_bits vs) = total_bits (map snd vs)"
  by (induction vs) (auto simp: all_bits_def total_bits_def)

lemma pack_values_ok:
  assumes "packer_ok p" and "\<forall>(v, bits) \<in> set vs. bits \<le> 64"
    and "packer_cursor p + total_bits (map snd vs) \<le> 8 * length (pk_bytes p)"
  shows "\<exists>p'. pack_values vs p = Inr p' \<and> packer_ok p' \<and>
     packer_cursor p' = packer_cursor p + total_bits (map snd vs) \<and>
     length (pk_bytes p') = length (pk_bytes p) \<and> packed p' = packed p @ all_bits vs"
  using assms
proof (induction vs arbitrary: p)
  case Nil
  then show ?case by (simp add: all_bits_def total_bits_def)
next
  case (Cons x vs)
  obtain v bits where x: "x = (v, bits)" by (cases x)
  obtain q where q: "pack_value v bits p = Inr q" "packer_ok q"
      "packer_cursor q = packer_cursor p + bits" "length (pk_bytes q) = length (pk_bytes p)"
      "packed q = packed p @ bits_of bits v"
    using pack_value_ok [of p bits v] Cons.prems by (auto simp: x total_bits_def)
  then show ?case using Cons.IH [of q] Cons.prems
    by (auto simp: x total_bits_def all_bits_def)
qed

lemma unpack_values_ok:
  assumes "unpacker_ok u" and "\<forall>bits \<in> set (map snd vs). bits \<le> 64"
    and "take (total_bits (map snd vs)) (pending u) = all_bits vs"
    and "unpacker_cursor u + total_bits (map snd vs) \<le> 8 * length (up_bytes u)"
  shows "\<exists>u'. unpack_values (map snd vs) u = Inr (map (\<lambda>(v, bits). take_bit bits v) vs, u') \<and>
     unpacker_ok u' \<and> unpacker_cursor u' = unpacker_cursor u + total_bits (map snd vs)"
  using assms
proof (induction vs arbitrary: u)
  case Nil
  then show ?case by (simp add: total_bits_def)
next
  case (Cons x vs)
  obtain v bits where x: "x = (v, bits)" by (cases x)
  let ?t = "total_bits (map snd vs)"
  have t: "total_bits (map snd (x # vs)) = bits + ?t" by (simp add: total_bits_def x)
  obtain w q where q: "unpack_value bits u = Inr (w, q)" "unpacker_ok q" "up_bytes q = up_bytes u"
      "unpacker_cursor q = unpacker_cursor u + bits" "bits_of bits w = take bits (pending u)"
      "\<And>i. bit w i \<Longrightarrow> i < bits"
    using unpack_value_ok [of u bits] Cons.prems by (auto simp: x total_bits_def)
  have all: "take (bits + ?t) (pending u) = bits_of bits v @ all_bits vs"
    using Cons.prems(3) by (simp only: t) (simp add: x all_bits_def)
  have "take bits (pending u) = take bits (take (bits + ?t) (pending u))" by simp
  then have "bits_of bits w = bits_of bits v" by (simp only: q(5) all) simp
  then have w: "w = take_bit bits v" using q(6) by (rule word_eq_take_bitI)
  have pend: "pending q = drop bits (pending u)" by (simp add: pending_def q add.commute)
  have "take ?t (drop bits (pending u)) = drop bits (take (bits + ?t) (pending u))"
    by (simp add: drop_take)
  then have "take ?t (pending q) = all_bits vs" by (simp only: pend all) simp
  then show ?case using Cons.IH [of q] Cons.prems q
    by (auto simp: x w total_bits_def)
qed

end
