(* ===== verification/BitPack_Pack1.thy ===== *)
theory BitPack_Pack1
  imports BitStream
begin

text \<open>
  The unrolled packing routines \<open>pack_bits_1\<close> to \<open>pack_bits_63\<close> of
  \<open>src/datasketches/src/thetafamily/theta/bit_pack.rs\<close>, widths 1 to 40, statement by
  statement: every assignment \<open>bytes[j] = \<dots> as u8\<close> is one list update, a shift left is
  \<open>push_bit\<close>, a shift right \<open>drop_bit\<close>. The caller (\<open>pack_bits_block\<close>) checks the lengths,
  so no index is out of range. After each routine, its equality with the generic \<open>regroup\<close>.
\<close>

definition pack_bits_1 :: "u64 list \<Rightarrow> u8 list \<Rightarrow> u8 list" where
  "pack_bits_1 values bytes = bytes
    [0 := ucast (push_bit 7 (values ! 0 AND 0x1) OR push_bit 6 (values ! 1 AND 0x1) OR
        push_bit 5 (values ! 2 AND 0x1) OR push_bit 4 (values ! 3 AND 0x1) OR
        push_bit 3 (values ! 4 AND 0x1) OR push_bit 2 (values ! 5 AND 0x1) OR
        push_bit 1 (values ! 6 AND 0x1) OR (values ! 7 AND 0x1))]"

lemma pack_bits_1_fill:
  "pack_bits_1 v b = fill_to 1 (\<lambda>j. ucast (regroup 1 (nth v) (8 * j) 8)) b"
  unfolding pack_bits_1_def literal_pieces
  by (intro fill_step fill_zero) (simp add: regroup_eval; fail)+

definition pack_bits_2 :: "u64 list \<Rightarrow> u8 list \<Rightarrow> u8 list" where
  "pack_bits_2 values bytes = bytes
    [0 := ucast (push_bit 6 (values ! 0 AND 0x3) OR push_bit 4 (values ! 1 AND 0x3) OR
        push_bit 2 (values ! 2 AND 0x3) OR (values ! 3 AND 0x3)),
     1 := ucast (push_bit 6 (values ! 4 AND 0x3) OR push_bit 4 (values ! 5 AND 0x3) OR
        push_bit 2 (values ! 6 AND 0x3) OR (values ! 7 AND 0x3))]"

lemma pack_bits_2_fill:
  "pack_bits_2 v b = fill_to 2 (\<lambda>j. ucast (regroup 2 (nth v) (8 * j) 8)) b"
  unfolding pack_bits_2_def literal_pieces
  by (intro fill_step fill_zero) (simp add: regroup_eval; fail)+

definition pack_bits_3 :: "u64 list \<Rightarrow> u8 list \<Rightarrow> u8 list" where
  "pack_bits_3 values bytes = bytes
    [0 := ucast (push_bit 5 (values ! 0 AND 0x7) OR push_bit 2 (values ! 1 AND 0x7) OR
        (drop_bit 1 (values ! 2) AND 0x3)),
     1 := ucast (push_bit 7 (values ! 2 AND 0x1) OR push_bit 4 (values ! 3 AND 0x7) OR
        push_bit 1 (values ! 4 AND 0x7) OR (drop_bit 2 (values ! 5) AND 0x1)),
     2 := ucast (push_bit 6 (values ! 5 AND 0x3) OR push_bit 3 (values ! 6 AND 0x7) OR
        (values ! 7 AND 0x7))]"

lemma pack_bits_3_fill:
  "pack_bits_3 v b = fill_to 3 (\<lambda>j. ucast (regroup 3 (nth v) (8 * j) 8)) b"
  unfolding pack_bits_3_def literal_pieces
  by (intro fill_step fill_zero) (simp add: regroup_eval; fail)+

definition pack_bits_4 :: "u64 list \<Rightarrow> u8 list \<Rightarrow> u8 list" where
  "pack_bits_4 values bytes = bytes
    [0 := ucast (push_bit 4 (values ! 0 AND 0xf) OR (values ! 1 AND 0xf)),
     1 := ucast (push_bit 4 (values ! 2 AND 0xf) OR (values ! 3 AND 0xf)),
     2 := ucast (push_bit 4 (values ! 4 AND 0xf) OR (values ! 5 AND 0xf)),
     3 := ucast (push_bit 4 (values ! 6 AND 0xf) OR (values ! 7 AND 0xf))]"

lemma pack_bits_4_fill:
  "pack_bits_4 v b = fill_to 4 (\<lambda>j. ucast (regroup 4 (nth v) (8 * j) 8)) b"
  unfolding pack_bits_4_def literal_pieces
  by (intro fill_step fill_zero) (simp add: regroup_eval; fail)+

definition pack_bits_5 :: "u64 list \<Rightarrow> u8 list \<Rightarrow> u8 list" where
  "pack_bits_5 values bytes = bytes
    [0 := ucast (push_bit 3 (values ! 0 AND 0x1f) OR (drop_bit 2 (values ! 1) AND 0x7)),
     1 := ucast (push_bit 6 (values ! 1 AND 0x3) OR push_bit 1 (values ! 2 AND 0x1f) OR
        (drop_bit 4 (values ! 3) AND 0x1)),
     2 := ucast (push_bit 4 (values ! 3 AND 0xf) OR (drop_bit 1 (values ! 4) AND 0xf)),
     3 := ucast (push_bit 7 (values ! 4 AND 0x1) OR push_bit 2 (values ! 5 AND 0x1f) OR
        (drop_bit 3 (values ! 6) AND 0x3)),
     4 := ucast (push_bit 5 (values ! 6 AND 0x7) OR (values ! 7 AND 0x1f))]"

lemma pack_bits_5_fill:
  "pack_bits_5 v b = fill_to 5 (\<lambda>j. ucast (regroup 5 (nth v) (8 * j) 8)) b"
  unfolding pack_bits_5_def literal_pieces
  by (intro fill_step fill_zero) (simp add: regroup_eval; fail)+

definition pack_bits_6 :: "u64 list \<Rightarrow> u8 list \<Rightarrow> u8 list" where
  "pack_bits_6 values bytes = bytes
    [0 := ucast (push_bit 2 (values ! 0 AND 0x3f) OR (drop_bit 4 (values ! 1) AND 0x3)),
     1 := ucast (push_bit 4 (values ! 1 AND 0xf) OR (drop_bit 2 (values ! 2) AND 0xf)),
     2 := ucast (push_bit 6 (values ! 2 AND 0x3) OR (values ! 3 AND 0x3f)),
     3 := ucast (push_bit 2 (values ! 4 AND 0x3f) OR (drop_bit 4 (values ! 5) AND 0x3)),
     4 := ucast (push_bit 4 (values ! 5 AND 0xf) OR (drop_bit 2 (values ! 6) AND 0xf)),
     5 := ucast (push_bit 6 (values ! 6 AND 0x3) OR (values ! 7 AND 0x3f))]"

lemma pack_bits_6_fill:
  "pack_bits_6 v b = fill_to 6 (\<lambda>j. ucast (regroup 6 (nth v) (8 * j) 8)) b"
  unfolding pack_bits_6_def literal_pieces
  by (intro fill_step fill_zero) (simp add: regroup_eval; fail)+

definition pack_bits_7 :: "u64 list \<Rightarrow> u8 list \<Rightarrow> u8 list" where
  "pack_bits_7 values bytes = bytes
    [0 := ucast (push_bit 1 (values ! 0 AND 0x7f) OR (drop_bit 6 (values ! 1) AND 0x1)),
     1 := ucast (push_bit 2 (values ! 1 AND 0x3f) OR (drop_bit 5 (values ! 2) AND 0x3)),
     2 := ucast (push_bit 3 (values ! 2 AND 0x1f) OR (drop_bit 4 (values ! 3) AND 0x7)),
     3 := ucast (push_bit 4 (values ! 3 AND 0xf) OR (drop_bit 3 (values ! 4) AND 0xf)),
     4 := ucast (push_bit 5 (values ! 4 AND 0x7) OR (drop_bit 2 (values ! 5) AND 0x1f)),
     5 := ucast (push_bit 6 (values ! 5 AND 0x3) OR (drop_bit 1 (values ! 6) AND 0x3f)),
     6 := ucast (push_bit 7 (values ! 6 AND 0x1) OR (values ! 7 AND 0x7f))]"

lemma pack_bits_7_fill:
  "pack_bits_7 v b = fill_to 7 (\<lambda>j. ucast (regroup 7 (nth v) (8 * j) 8)) b"
  unfolding pack_bits_7_def literal_pieces
  by (intro fill_step fill_zero) (simp add: regroup_eval; fail)+

definition pack_bits_8 :: "u64 list \<Rightarrow> u8 list \<Rightarrow> u8 list" where
  "pack_bits_8 values bytes = bytes
    [0 := ucast (values ! 0 AND 0xff),
     1 := ucast (values ! 1 AND 0xff),
     2 := ucast (values ! 2 AND 0xff),
     3 := ucast (values ! 3 AND 0xff),
     4 := ucast (values ! 4 AND 0xff),
     5 := ucast (values ! 5 AND 0xff),
     6 := ucast (values ! 6 AND 0xff),
     7 := ucast (values ! 7 AND 0xff)]"

lemma pack_bits_8_fill:
  "pack_bits_8 v b = fill_to 8 (\<lambda>j. ucast (regroup 8 (nth v) (8 * j) 8)) b"
  unfolding pack_bits_8_def literal_pieces
  by (intro fill_step fill_zero) (simp add: regroup_eval; fail)+

definition pack_bits_9 :: "u64 list \<Rightarrow> u8 list \<Rightarrow> u8 list" where
  "pack_bits_9 values bytes = bytes
    [0 := ucast (drop_bit 1 (values ! 0) AND 0xff),
     1 := ucast (push_bit 7 (values ! 0 AND 0x1) OR (drop_bit 2 (values ! 1) AND 0x7f)),
     2 := ucast (push_bit 6 (values ! 1 AND 0x3) OR (drop_bit 3 (values ! 2) AND 0x3f)),
     3 := ucast (push_bit 5 (values ! 2 AND 0x7) OR (drop_bit 4 (values ! 3) AND 0x1f)),
     4 := ucast (push_bit 4 (values ! 3 AND 0xf) OR (drop_bit 5 (values ! 4) AND 0xf)),
     5 := ucast (push_bit 3 (values ! 4 AND 0x1f) OR (drop_bit 6 (values ! 5) AND 0x7)),
     6 := ucast (push_bit 2 (values ! 5 AND 0x3f) OR (drop_bit 7 (values ! 6) AND 0x3)),
     7 := ucast (push_bit 1 (values ! 6 AND 0x7f) OR (drop_bit 8 (values ! 7) AND 0x1)),
     8 := ucast (values ! 7 AND 0xff)]"

lemma pack_bits_9_fill:
  "pack_bits_9 v b = fill_to 9 (\<lambda>j. ucast (regroup 9 (nth v) (8 * j) 8)) b"
  unfolding pack_bits_9_def literal_pieces
  by (intro fill_step fill_zero) (simp add: regroup_eval; fail)+

definition pack_bits_10 :: "u64 list \<Rightarrow> u8 list \<Rightarrow> u8 list" where
  "pack_bits_10 values bytes = bytes
    [0 := ucast (drop_bit 2 (values ! 0) AND 0xff),
     1 := ucast (push_bit 6 (values ! 0 AND 0x3) OR (drop_bit 4 (values ! 1) AND 0x3f)),
     2 := ucast (push_bit 4 (values ! 1 AND 0xf) OR (drop_bit 6 (values ! 2) AND 0xf)),
     3 := ucast (push_bit 2 (values ! 2 AND 0x3f) OR (drop_bit 8 (values ! 3) AND 0x3)),
     4 := ucast (values ! 3 AND 0xff),
     5 := ucast (drop_bit 2 (values ! 4) AND 0xff),
     6 := ucast (push_bit 6 (values ! 4 AND 0x3) OR (drop_bit 4 (values ! 5) AND 0x3f)),
     7 := ucast (push_bit 4 (values ! 5 AND 0xf) OR (drop_bit 6 (values ! 6) AND 0xf)),
     8 := ucast (push_bit 2 (values ! 6 AND 0x3f) OR (drop_bit 8 (values ! 7) AND 0x3)),
     9 := ucast (values ! 7 AND 0xff)]"

lemma pack_bits_10_fill:
  "pack_bits_10 v b = fill_to 10 (\<lambda>j. ucast (regroup 10 (nth v) (8 * j) 8)) b"
  unfolding pack_bits_10_def literal_pieces
  by (intro fill_step fill_zero) (simp add: regroup_eval; fail)+

definition pack_bits_11 :: "u64 list \<Rightarrow> u8 list \<Rightarrow> u8 list" where
  "pack_bits_11 values bytes = bytes
    [0 := ucast (drop_bit 3 (values ! 0) AND 0xff),
     1 := ucast (push_bit 5 (values ! 0 AND 0x7) OR (drop_bit 6 (values ! 1) AND 0x1f)),
     2 := ucast (push_bit 2 (values ! 1 AND 0x3f) OR (drop_bit 9 (values ! 2) AND 0x3)),
     3 := ucast (drop_bit 1 (values ! 2) AND 0xff),
     4 := ucast (push_bit 7 (values ! 2 AND 0x1) OR (drop_bit 4 (values ! 3) AND 0x7f)),
     5 := ucast (push_bit 4 (values ! 3 AND 0xf) OR (drop_bit 7 (values ! 4) AND 0xf)),
     6 := ucast (push_bit 1 (values ! 4 AND 0x7f) OR (drop_bit 10 (values ! 5) AND 0x1)),
     7 := ucast (drop_bit 2 (values ! 5) AND 0xff),
     8 := ucast (push_bit 6 (values ! 5 AND 0x3) OR (drop_bit 5 (values ! 6) AND 0x3f)),
     9 := ucast (push_bit 3 (values ! 6 AND 0x1f) OR (drop_bit 8 (values ! 7) AND 0x7)),
     10 := ucast (values ! 7 AND 0xff)]"

lemma pack_bits_11_fill:
  "pack_bits_11 v b = fill_to 11 (\<lambda>j. ucast (regroup 11 (nth v) (8 * j) 8)) b"
  unfolding pack_bits_11_def literal_pieces
  by (intro fill_step fill_zero) (simp add: regroup_eval; fail)+

definition pack_bits_12 :: "u64 list \<Rightarrow> u8 list \<Rightarrow> u8 list" where
  "pack_bits_12 values bytes = bytes
    [0 := ucast (drop_bit 4 (values ! 0) AND 0xff),
     1 := ucast (push_bit 4 (values ! 0 AND 0xf) OR (drop_bit 8 (values ! 1) AND 0xf)),
     2 := ucast (values ! 1 AND 0xff),
     3 := ucast (drop_bit 4 (values ! 2) AND 0xff),
     4 := ucast (push_bit 4 (values ! 2 AND 0xf) OR (drop_bit 8 (values ! 3) AND 0xf)),
     5 := ucast (values ! 3 AND 0xff),
     6 := ucast (drop_bit 4 (values ! 4) AND 0xff),
     7 := ucast (push_bit 4 (values ! 4 AND 0xf) OR (drop_bit 8 (values ! 5) AND 0xf)),
     8 := ucast (values ! 5 AND 0xff),
     9 := ucast (drop_bit 4 (values ! 6) AND 0xff),
     10 := ucast (push_bit 4 (values ! 6 AND 0xf) OR (drop_bit 8 (values ! 7) AND 0xf)),
     11 := ucast (values ! 7 AND 0xff)]"

lemma pack_bits_12_fill:
  "pack_bits_12 v b = fill_to 12 (\<lambda>j. ucast (regroup 12 (nth v) (8 * j) 8)) b"
  unfolding pack_bits_12_def literal_pieces
  by (intro fill_step fill_zero) (simp add: regroup_eval; fail)+

definition pack_bits_13 :: "u64 list \<Rightarrow> u8 list \<Rightarrow> u8 list" where
  "pack_bits_13 values bytes = bytes
    [0 := ucast (drop_bit 5 (values ! 0) AND 0xff),
     1 := ucast (push_bit 3 (values ! 0 AND 0x1f) OR (drop_bit 10 (values ! 1) AND 0x7)),
     2 := ucast (drop_bit 2 (values ! 1) AND 0xff),
     3 := ucast (push_bit 6 (values ! 1 AND 0x3) OR (drop_bit 7 (values ! 2) AND 0x3f)),
     4 := ucast (push_bit 1 (values ! 2 AND 0x7f) OR (drop_bit 12 (values ! 3) AND 0x1)),
     5 := ucast (drop_bit 4 (values ! 3) AND 0xff),
     6 := ucast (push_bit 4 (values ! 3 AND 0xf) OR (drop_bit 9 (values ! 4) AND 0xf)),
     7 := ucast (drop_bit 1 (values ! 4) AND 0xff),
     8 := ucast (push_bit 7 (values ! 4 AND 0x1) OR (drop_bit 6 (values ! 5) AND 0x7f)),
     9 := ucast (push_bit 2 (values ! 5 AND 0x3f) OR (drop_bit 11 (values ! 6) AND 0x3)),
     10 := ucast (drop_bit 3 (values ! 6) AND 0xff),
     11 := ucast (push_bit 5 (values ! 6 AND 0x7) OR (drop_bit 8 (values ! 7) AND 0x1f)),
     12 := ucast (values ! 7 AND 0xff)]"

lemma pack_bits_13_fill:
  "pack_bits_13 v b = fill_to 13 (\<lambda>j. ucast (regroup 13 (nth v) (8 * j) 8)) b"
  unfolding pack_bits_13_def literal_pieces
  by (intro fill_step fill_zero) (simp add: regroup_eval; fail)+

definition pack_bits_14 :: "u64 list \<Rightarrow> u8 list \<Rightarrow> u8 list" where
  "pack_bits_14 values bytes = bytes
    [0 := ucast (drop_bit 6 (values ! 0) AND 0xff),
     1 := ucast (push_bit 2 (values ! 0 AND 0x3f) OR (drop_bit 12 (values ! 1) AND 0x3)),
     2 := ucast (drop_bit 4 (values ! 1) AND 0xff),
     3 := ucast (push_bit 4 (values ! 1 AND 0xf) OR (drop_bit 10 (values ! 2) AND 0xf)),
     4 := ucast (drop_bit 2 (values ! 2) AND 0xff),
     5 := ucast (push_bit 6 (values ! 2 AND 0x3) OR (drop_bit 8 (values ! 3) AND 0x3f)),
     6 := ucast (values ! 3 AND 0xff),
     7 := ucast (drop_bit 6 (values ! 4) AND 0xff),
     8 := ucast (push_bit 2 (values ! 4 AND 0x3f) OR (drop_bit 12 (values ! 5) AND 0x3)),
     9 := ucast (drop_bit 4 (values ! 5) AND 0xff),
     10 := ucast (push_bit 4 (values ! 5 AND 0xf) OR (drop_bit 10 (values ! 6) AND 0xf)),
     11 := ucast (drop_bit 2 (values ! 6) AND 0xff),
     12 := ucast (push_bit 6 (values ! 6 AND 0x3) OR (drop_bit 8 (values ! 7) AND 0x3f)),
     13 := ucast (values ! 7 AND 0xff)]"

lemma pack_bits_14_fill:
  "pack_bits_14 v b = fill_to 14 (\<lambda>j. ucast (regroup 14 (nth v) (8 * j) 8)) b"
  unfolding pack_bits_14_def literal_pieces
  by (intro fill_step fill_zero) (simp add: regroup_eval; fail)+

definition pack_bits_15 :: "u64 list \<Rightarrow> u8 list \<Rightarrow> u8 list" where
  "pack_bits_15 values bytes = bytes
    [0 := ucast (drop_bit 7 (values ! 0) AND 0xff),
     1 := ucast (push_bit 1 (values ! 0 AND 0x7f) OR (drop_bit 14 (values ! 1) AND 0x1)),
     2 := ucast (drop_bit 6 (values ! 1) AND 0xff),
     3 := ucast (push_bit 2 (values ! 1 AND 0x3f) OR (drop_bit 13 (values ! 2) AND 0x3)),
     4 := ucast (drop_bit 5 (values ! 2) AND 0xff),
     5 := ucast (push_bit 3 (values ! 2 AND 0x1f) OR (drop_bit 12 (values ! 3) AND 0x7)),
     6 := ucast (drop_bit 4 (values ! 3) AND 0xff),
     7 := ucast (push_bit 4 (values ! 3 AND 0xf) OR (drop_bit 11 (values ! 4) AND 0xf)),
     8 := ucast (drop_bit 3 (values ! 4) AND 0xff),
     9 := ucast (push_bit 5 (values ! 4 AND 0x7) OR (drop_bit 10 (values ! 5) AND 0x1f)),
     10 := ucast (drop_bit 2 (values ! 5) AND 0xff),
     11 := ucast (push_bit 6 (values ! 5 AND 0x3) OR (drop_bit 9 (values ! 6) AND 0x3f)),
     12 := ucast (drop_bit 1 (values ! 6) AND 0xff),
     13 := ucast (push_bit 7 (values ! 6 AND 0x1) OR (drop_bit 8 (values ! 7) AND 0x7f)),
     14 := ucast (values ! 7 AND 0xff)]"

lemma pack_bits_15_fill:
  "pack_bits_15 v b = fill_to 15 (\<lambda>j. ucast (regroup 15 (nth v) (8 * j) 8)) b"
  unfolding pack_bits_15_def literal_pieces
  by (intro fill_step fill_zero) (simp add: regroup_eval; fail)+

definition pack_bits_16 :: "u64 list \<Rightarrow> u8 list \<Rightarrow> u8 list" where
  "pack_bits_16 values bytes = bytes
    [0 := ucast (drop_bit 8 (values ! 0) AND 0xff),
     1 := ucast (values ! 0 AND 0xff),
     2 := ucast (drop_bit 8 (values ! 1) AND 0xff),
     3 := ucast (values ! 1 AND 0xff),
     4 := ucast (drop_bit 8 (values ! 2) AND 0xff),
     5 := ucast (values ! 2 AND 0xff),
     6 := ucast (drop_bit 8 (values ! 3) AND 0xff),
     7 := ucast (values ! 3 AND 0xff),
     8 := ucast (drop_bit 8 (values ! 4) AND 0xff),
     9 := ucast (values ! 4 AND 0xff),
     10 := ucast (drop_bit 8 (values ! 5) AND 0xff),
     11 := ucast (values ! 5 AND 0xff),
     12 := ucast (drop_bit 8 (values ! 6) AND 0xff),
     13 := ucast (values ! 6 AND 0xff),
     14 := ucast (drop_bit 8 (values ! 7) AND 0xff),
     15 := ucast (values ! 7 AND 0xff)]"

lemma pack_bits_16_fill:
  "pack_bits_16 v b = fill_to 16 (\<lambda>j. ucast (regroup 16 (nth v) (8 * j) 8)) b"
  unfolding pack_bits_16_def literal_pieces
  by (intro fill_step fill_zero) (simp add: regroup_eval; fail)+

definition pack_bits_17 :: "u64 list \<Rightarrow> u8 list \<Rightarrow> u8 list" where
  "pack_bits_17 values bytes = bytes
    [0 := ucast (drop_bit 9 (values ! 0) AND 0xff),
     1 := ucast (drop_bit 1 (values ! 0) AND 0xff),
     2 := ucast (push_bit 7 (values ! 0 AND 0x1) OR (drop_bit 10 (values ! 1) AND 0x7f)),
     3 := ucast (drop_bit 2 (values ! 1) AND 0xff),
     4 := ucast (push_bit 6 (values ! 1 AND 0x3) OR (drop_bit 11 (values ! 2) AND 0x3f)),
     5 := ucast (drop_bit 3 (values ! 2) AND 0xff),
     6 := ucast (push_bit 5 (values ! 2 AND 0x7) OR (drop_bit 12 (values ! 3) AND 0x1f)),
     7 := ucast (drop_bit 4 (values ! 3) AND 0xff),
     8 := ucast (push_bit 4 (values ! 3 AND 0xf) OR (drop_bit 13 (values ! 4) AND 0xf)),
     9 := ucast (drop_bit 5 (values ! 4) AND 0xff),
     10 := ucast (push_bit 3 (values ! 4 AND 0x1f) OR (drop_bit 14 (values ! 5) AND 0x7)),
     11 := ucast (drop_bit 6 (values ! 5) AND 0xff),
     12 := ucast (push_bit 2 (values ! 5 AND 0x3f) OR (drop_bit 15 (values ! 6) AND 0x3)),
     13 := ucast (drop_bit 7 (values ! 6) AND 0xff),
     14 := ucast (push_bit 1 (values ! 6 AND 0x7f) OR (drop_bit 16 (values ! 7) AND 0x1)),
     15 := ucast (drop_bit 8 (values ! 7) AND 0xff),
     16 := ucast (values ! 7 AND 0xff)]"

lemma pack_bits_17_fill:
  "pack_bits_17 v b = fill_to 17 (\<lambda>j. ucast (regroup 17 (nth v) (8 * j) 8)) b"
  unfolding pack_bits_17_def literal_pieces
  by (intro fill_step fill_zero) (simp add: regroup_eval; fail)+

definition pack_bits_18 :: "u64 list \<Rightarrow> u8 list \<Rightarrow> u8 list" where
  "pack_bits_18 values bytes = bytes
    [0 := ucast (drop_bit 10 (values ! 0) AND 0xff),
     1 := ucast (drop_bit 2 (values ! 0) AND 0xff),
     2 := ucast (push_bit 6 (values ! 0 AND 0x3) OR (drop_bit 12 (values ! 1) AND 0x3f)),
     3 := ucast (drop_bit 4 (values ! 1) AND 0xff),
     4 := ucast (push_bit 4 (values ! 1 AND 0xf) OR (drop_bit 14 (values ! 2) AND 0xf)),
     5 := ucast (drop_bit 6 (values ! 2) AND 0xff),
     6 := ucast (push_bit 2 (values ! 2 AND 0x3f) OR (drop_bit 16 (values ! 3) AND 0x3)),
     7 := ucast (drop_bit 8 (values ! 3) AND 0xff),
     8 := ucast (values ! 3 AND 0xff),
     9 := ucast (drop_bit 10 (values ! 4) AND 0xff),
     10 := ucast (drop_bit 2 (values ! 4) AND 0xff),
     11 := ucast (push_bit 6 (values ! 4 AND 0x3) OR (drop_bit 12 (values ! 5) AND 0x3f)),
     12 := ucast (drop_bit 4 (values ! 5) AND 0xff),
     13 := ucast (push_bit 4 (values ! 5 AND 0xf) OR (drop_bit 14 (values ! 6) AND 0xf)),
     14 := ucast (drop_bit 6 (values ! 6) AND 0xff),
     15 := ucast (push_bit 2 (values ! 6 AND 0x3f) OR (drop_bit 16 (values ! 7) AND 0x3)),
     16 := ucast (drop_bit 8 (values ! 7) AND 0xff),
     17 := ucast (values ! 7 AND 0xff)]"

lemma pack_bits_18_fill:
  "pack_bits_18 v b = fill_to 18 (\<lambda>j. ucast (regroup 18 (nth v) (8 * j) 8)) b"
  unfolding pack_bits_18_def literal_pieces
  by (intro fill_step fill_zero) (simp add: regroup_eval; fail)+

definition pack_bits_19 :: "u64 list \<Rightarrow> u8 list \<Rightarrow> u8 list" where
  "pack_bits_19 values bytes = bytes
    [0 := ucast (drop_bit 11 (values ! 0) AND 0xff),
     1 := ucast (drop_bit 3 (values ! 0) AND 0xff),
     2 := ucast (push_bit 5 (values ! 0 AND 0x7) OR (drop_bit 14 (values ! 1) AND 0x1f)),
     3 := ucast (drop_bit 6 (values ! 1) AND 0xff),
     4 := ucast (push_bit 2 (values ! 1 AND 0x3f) OR (drop_bit 17 (values ! 2) AND 0x3)),
     5 := ucast (drop_bit 9 (values ! 2) AND 0xff),
     6 := ucast (drop_bit 1 (values ! 2) AND 0xff),
     7 := ucast (push_bit 7 (values ! 2 AND 0x1) OR (drop_bit 12 (values ! 3) AND 0x7f)),
     8 := ucast (drop_bit 4 (values ! 3) AND 0xff),
     9 := ucast (push_bit 4 (values ! 3 AND 0xf) OR (drop_bit 15 (values ! 4) AND 0xf)),
     10 := ucast (drop_bit 7 (values ! 4) AND 0xff),
     11 := ucast (push_bit 1 (values ! 4 AND 0x7f) OR (drop_bit 18 (values ! 5) AND 0x1)),
     12 := ucast (drop_bit 10 (values ! 5) AND 0xff),
     13 := ucast (drop_bit 2 (values ! 5) AND 0xff),
     14 := ucast (push_bit 6 (values ! 5 AND 0x3) OR (drop_bit 13 (values ! 6) AND 0x3f)),
     15 := ucast (drop_bit 5 (values ! 6) AND 0xff),
     16 := ucast (push_bit 3 (values ! 6 AND 0x1f) OR (drop_bit 16 (values ! 7) AND 0x7)),
     17 := ucast (drop_bit 8 (values ! 7) AND 0xff),
     18 := ucast (values ! 7 AND 0xff)]"

lemma pack_bits_19_fill:
  "pack_bits_19 v b = fill_to 19 (\<lambda>j. ucast (regroup 19 (nth v) (8 * j) 8)) b"
  unfolding pack_bits_19_def literal_pieces
  by (intro fill_step fill_zero) (simp add: regroup_eval; fail)+

definition pack_bits_20 :: "u64 list \<Rightarrow> u8 list \<Rightarrow> u8 list" where
  "pack_bits_20 values bytes = bytes
    [0 := ucast (drop_bit 12 (values ! 0) AND 0xff),
     1 := ucast (drop_bit 4 (values ! 0) AND 0xff),
     2 := ucast (push_bit 4 (values ! 0 AND 0xf) OR (drop_bit 16 (values ! 1) AND 0xf)),
     3 := ucast (drop_bit 8 (values ! 1) AND 0xff),
     4 := ucast (values ! 1 AND 0xff),
     5 := ucast (drop_bit 12 (values ! 2) AND 0xff),
     6 := ucast (drop_bit 4 (values ! 2) AND 0xff),
     7 := ucast (push_bit 4 (values ! 2 AND 0xf) OR (drop_bit 16 (values ! 3) AND 0xf)),
     8 := ucast (drop_bit 8 (values ! 3) AND 0xff),
     9 := ucast (values ! 3 AND 0xff),
     10 := ucast (drop_bit 12 (values ! 4) AND 0xff),
     11 := ucast (drop_bit 4 (values ! 4) AND 0xff),
     12 := ucast (push_bit 4 (values ! 4 AND 0xf) OR (drop_bit 16 (values ! 5) AND 0xf)),
     13 := ucast (drop_bit 8 (values ! 5) AND 0xff),
     14 := ucast (values ! 5 AND 0xff),
     15 := ucast (drop_bit 12 (values ! 6) AND 0xff),
     16 := ucast (drop_bit 4 (values ! 6) AND 0xff),
     17 := ucast (push_bit 4 (values ! 6 AND 0xf) OR (drop_bit 16 (values ! 7) AND 0xf)),
     18 := ucast (drop_bit 8 (values ! 7) AND 0xff),
     19 := ucast (values ! 7 AND 0xff)]"

lemma pack_bits_20_fill:
  "pack_bits_20 v b = fill_to 20 (\<lambda>j. ucast (regroup 20 (nth v) (8 * j) 8)) b"
  unfolding pack_bits_20_def literal_pieces
  by (intro fill_step fill_zero) (simp add: regroup_eval; fail)+

definition pack_bits_21 :: "u64 list \<Rightarrow> u8 list \<Rightarrow> u8 list" where
  "pack_bits_21 values bytes = bytes
    [0 := ucast (drop_bit 13 (values ! 0) AND 0xff),
     1 := ucast (drop_bit 5 (values ! 0) AND 0xff),
     2 := ucast (push_bit 3 (values ! 0 AND 0x1f) OR (drop_bit 18 (values ! 1) AND 0x7)),
     3 := ucast (drop_bit 10 (values ! 1) AND 0xff),
     4 := ucast (drop_bit 2 (values ! 1) AND 0xff),
     5 := ucast (push_bit 6 (values ! 1 AND 0x3) OR (drop_bit 15 (values ! 2) AND 0x3f)),
     6 := ucast (drop_bit 7 (values ! 2) AND 0xff),
     7 := ucast (push_bit 1 (values ! 2 AND 0x7f) OR (drop_bit 20 (values ! 3) AND 0x1)),
     8 := ucast (drop_bit 12 (values ! 3) AND 0xff),
     9 := ucast (drop_bit 4 (values ! 3) AND 0xff),
     10 := ucast (push_bit 4 (values ! 3 AND 0xf) OR (drop_bit 17 (values ! 4) AND 0xf)),
     11 := ucast (drop_bit 9 (values ! 4) AND 0xff),
     12 := ucast (drop_bit 1 (values ! 4) AND 0xff),
     13 := ucast (push_bit 7 (values ! 4 AND 0x1) OR (drop_bit 14 (values ! 5) AND 0x7f)),
     14 := ucast (drop_bit 6 (values ! 5) AND 0xff),
     15 := ucast (push_bit 2 (values ! 5 AND 0x3f) OR (drop_bit 19 (values ! 6) AND 0x3)),
     16 := ucast (drop_bit 11 (values ! 6) AND 0xff),
     17 := ucast (drop_bit 3 (values ! 6) AND 0xff),
     18 := ucast (push_bit 5 (values ! 6 AND 0x7) OR (drop_bit 16 (values ! 7) AND 0x1f)),
     19 := ucast (drop_bit 8 (values ! 7) AND 0xff),
     20 := ucast (values ! 7 AND 0xff)]"

lemma pack_bits_21_fill:
  "pack_bits_21 v b = fill_to 21 (\<lambda>j. ucast (regroup 21 (nth v) (8 * j) 8)) b"
  unfolding pack_bits_21_def literal_pieces
  by (intro fill_step fill_zero) (simp add: regroup_eval; fail)+

definition pack_bits_22 :: "u64 list \<Rightarrow> u8 list \<Rightarrow> u8 list" where
  "pack_bits_22 values bytes = bytes
    [0 := ucast (drop_bit 14 (values ! 0) AND 0xff),
     1 := ucast (drop_bit 6 (values ! 0) AND 0xff),
     2 := ucast (push_bit 2 (values ! 0 AND 0x3f) OR (drop_bit 20 (values ! 1) AND 0x3)),
     3 := ucast (drop_bit 12 (values ! 1) AND 0xff),
     4 := ucast (drop_bit 4 (values ! 1) AND 0xff),
     5 := ucast (push_bit 4 (values ! 1 AND 0xf) OR (drop_bit 18 (values ! 2) AND 0xf)),
     6 := ucast (drop_bit 10 (values ! 2) AND 0xff),
     7 := ucast (drop_bit 2 (values ! 2) AND 0xff),
     8 := ucast (push_bit 6 (values ! 2 AND 0x3) OR (drop_bit 16 (values ! 3) AND 0x3f)),
     9 := ucast (drop_bit 8 (values ! 3) AND 0xff),
     10 := ucast (values ! 3 AND 0xff),
     11 := ucast (drop_bit 14 (values ! 4) AND 0xff),
     12 := ucast (drop_bit 6 (values ! 4) AND 0xff),
     13 := ucast (push_bit 2 (values ! 4 AND 0x3f) OR (drop_bit 20 (values ! 5) AND 0x3)),
     14 := ucast (drop_bit 12 (values ! 5) AND 0xff),
     15 := ucast (drop_bit 4 (values ! 5) AND 0xff),
     16 := ucast (push_bit 4 (values ! 5 AND 0xf) OR (drop_bit 18 (values ! 6) AND 0xf)),
     17 := ucast (drop_bit 10 (values ! 6) AND 0xff),
     18 := ucast (drop_bit 2 (values ! 6) AND 0xff),
     19 := ucast (push_bit 6 (values ! 6 AND 0x3) OR (drop_bit 16 (values ! 7) AND 0x3f)),
     20 := ucast (drop_bit 8 (values ! 7) AND 0xff),
     21 := ucast (values ! 7 AND 0xff)]"

lemma pack_bits_22_fill:
  "pack_bits_22 v b = fill_to 22 (\<lambda>j. ucast (regroup 22 (nth v) (8 * j) 8)) b"
  unfolding pack_bits_22_def literal_pieces
  by (intro fill_step fill_zero) (simp add: regroup_eval; fail)+

definition pack_bits_23 :: "u64 list \<Rightarrow> u8 list \<Rightarrow> u8 list" where
  "pack_bits_23 values bytes = bytes
    [0 := ucast (drop_bit 15 (values ! 0) AND 0xff),
     1 := ucast (drop_bit 7 (values ! 0) AND 0xff),
     2 := ucast (push_bit 1 (values ! 0 AND 0x7f) OR (drop_bit 22 (values ! 1) AND 0x1)),
     3 := ucast (drop_bit 14 (values ! 1) AND 0xff),
     4 := ucast (drop_bit 6 (values ! 1) AND 0xff),
     5 := ucast (push_bit 2 (values ! 1 AND 0x3f) OR (drop_bit 21 (values ! 2) AND 0x3)),
     6 := ucast (drop_bit 13 (values ! 2) AND 0xff),
     7 := ucast (drop_bit 5 (values ! 2) AND 0xff),
     8 := ucast (push_bit 3 (values ! 2 AND 0x1f) OR (drop_bit 20 (values ! 3) AND 0x7)),
     9 := ucast (drop_bit 12 (values ! 3) AND 0xff),
     10 := ucast (drop_bit 4 (values ! 3) AND 0xff),
     11 := ucast (push_bit 4 (values ! 3 AND 0xf) OR (drop_bit 19 (values ! 4) AND 0xf)),
     12 := ucast (drop_bit 11 (values ! 4) AND 0xff),
     13 := ucast (drop_bit 3 (values ! 4) AND 0xff),
     14 := ucast (push_bit 5 (values ! 4 AND 0x7) OR (drop_bit 18 (values ! 5) AND 0x1f)),
     15 := ucast (drop_bit 10 (values ! 5) AND 0xff),
     16 := ucast (drop_bit 2 (values ! 5) AND 0xff),
     17 := ucast (push_bit 6 (values ! 5 AND 0x3) OR (drop_bit 17 (values ! 6) AND 0x3f)),
     18 := ucast (drop_bit 9 (values ! 6) AND 0xff),
     19 := ucast (drop_bit 1 (values ! 6) AND 0xff),
     20 := ucast (push_bit 7 (values ! 6 AND 0x1) OR (drop_bit 16 (values ! 7) AND 0x7f)),
     21 := ucast (drop_bit 8 (values ! 7) AND 0xff),
     22 := ucast (values ! 7 AND 0xff)]"

lemma pack_bits_23_fill:
  "pack_bits_23 v b = fill_to 23 (\<lambda>j. ucast (regroup 23 (nth v) (8 * j) 8)) b"
  unfolding pack_bits_23_def literal_pieces
  by (intro fill_step fill_zero) (simp add: regroup_eval; fail)+

definition pack_bits_24 :: "u64 list \<Rightarrow> u8 list \<Rightarrow> u8 list" where
  "pack_bits_24 values bytes = bytes
    [0 := ucast (drop_bit 16 (values ! 0) AND 0xff),
     1 := ucast (drop_bit 8 (values ! 0) AND 0xff),
     2 := ucast (values ! 0 AND 0xff),
     3 := ucast (drop_bit 16 (values ! 1) AND 0xff),
     4 := ucast (drop_bit 8 (values ! 1) AND 0xff),
     5 := ucast (values ! 1 AND 0xff),
     6 := ucast (drop_bit 16 (values ! 2) AND 0xff),
     7 := ucast (drop_bit 8 (values ! 2) AND 0xff),
     8 := ucast (values ! 2 AND 0xff),
     9 := ucast (drop_bit 16 (values ! 3) AND 0xff),
     10 := ucast (drop_bit 8 (values ! 3) AND 0xff),
     11 := ucast (values ! 3 AND 0xff),
     12 := ucast (drop_bit 16 (values ! 4) AND 0xff),
     13 := ucast (drop_bit 8 (values ! 4) AND 0xff),
     14 := ucast (values ! 4 AND 0xff),
     15 := ucast (drop_bit 16 (values ! 5) AND 0xff),
     16 := ucast (drop_bit 8 (values ! 5) AND 0xff),
     17 := ucast (values ! 5 AND 0xff),
     18 := ucast (drop_bit 16 (values ! 6) AND 0xff),
     19 := ucast (drop_bit 8 (values ! 6) AND 0xff),
     20 := ucast (values ! 6 AND 0xff),
     21 := ucast (drop_bit 16 (values ! 7) AND 0xff),
     22 := ucast (drop_bit 8 (values ! 7) AND 0xff),
     23 := ucast (values ! 7 AND 0xff)]"

lemma pack_bits_24_fill:
  "pack_bits_24 v b = fill_to 24 (\<lambda>j. ucast (regroup 24 (nth v) (8 * j) 8)) b"
  unfolding pack_bits_24_def literal_pieces
  by (intro fill_step fill_zero) (simp add: regroup_eval; fail)+

definition pack_bits_25 :: "u64 list \<Rightarrow> u8 list \<Rightarrow> u8 list" where
  "pack_bits_25 values bytes = bytes
    [0 := ucast (drop_bit 17 (values ! 0) AND 0xff),
     1 := ucast (drop_bit 9 (values ! 0) AND 0xff),
     2 := ucast (drop_bit 1 (values ! 0) AND 0xff),
     3 := ucast (push_bit 7 (values ! 0 AND 0x1) OR (drop_bit 18 (values ! 1) AND 0x7f)),
     4 := ucast (drop_bit 10 (values ! 1) AND 0xff),
     5 := ucast (drop_bit 2 (values ! 1) AND 0xff),
     6 := ucast (push_bit 6 (values ! 1 AND 0x3) OR (drop_bit 19 (values ! 2) AND 0x3f)),
     7 := ucast (drop_bit 11 (values ! 2) AND 0xff),
     8 := ucast (drop_bit 3 (values ! 2) AND 0xff),
     9 := ucast (push_bit 5 (values ! 2 AND 0x7) OR (drop_bit 20 (values ! 3) AND 0x1f)),
     10 := ucast (drop_bit 12 (values ! 3) AND 0xff),
     11 := ucast (drop_bit 4 (values ! 3) AND 0xff),
     12 := ucast (push_bit 4 (values ! 3 AND 0xf) OR (drop_bit 21 (values ! 4) AND 0xf)),
     13 := ucast (drop_bit 13 (values ! 4) AND 0xff),
     14 := ucast (drop_bit 5 (values ! 4) AND 0xff),
     15 := ucast (push_bit 3 (values ! 4 AND 0x1f) OR (drop_bit 22 (values ! 5) AND 0x7)),
     16 := ucast (drop_bit 14 (values ! 5) AND 0xff),
     17 := ucast (drop_bit 6 (values ! 5) AND 0xff),
     18 := ucast (push_bit 2 (values ! 5 AND 0x3f) OR (drop_bit 23 (values ! 6) AND 0x3)),
     19 := ucast (drop_bit 15 (values ! 6) AND 0xff),
     20 := ucast (drop_bit 7 (values ! 6) AND 0xff),
     21 := ucast (push_bit 1 (values ! 6 AND 0x7f) OR (drop_bit 24 (values ! 7) AND 0x1)),
     22 := ucast (drop_bit 16 (values ! 7) AND 0xff),
     23 := ucast (drop_bit 8 (values ! 7) AND 0xff),
     24 := ucast (values ! 7 AND 0xff)]"

lemma pack_bits_25_fill:
  "pack_bits_25 v b = fill_to 25 (\<lambda>j. ucast (regroup 25 (nth v) (8 * j) 8)) b"
  unfolding pack_bits_25_def literal_pieces
  by (intro fill_step fill_zero) (simp add: regroup_eval; fail)+

definition pack_bits_26 :: "u64 list \<Rightarrow> u8 list \<Rightarrow> u8 list" where
  "pack_bits_26 values bytes = bytes
    [0 := ucast (drop_bit 18 (values ! 0) AND 0xff),
     1 := ucast (drop_bit 10 (values ! 0) AND 0xff),
     2 := ucast (drop_bit 2 (values ! 0) AND 0xff),
     3 := ucast (push_bit 6 (values ! 0 AND 0x3) OR (drop_bit 20 (values ! 1) AND 0x3f)),
     4 := ucast (drop_bit 12 (values ! 1) AND 0xff),
     5 := ucast (drop_bit 4 (values ! 1) AND 0xff),
     6 := ucast (push_bit 4 (values ! 1 AND 0xf) OR (drop_bit 22 (values ! 2) AND 0xf)),
     7 := ucast (drop_bit 14 (values ! 2) AND 0xff),
     8 := ucast (drop_bit 6 (values ! 2) AND 0xff),
     9 := ucast (push_bit 2 (values ! 2 AND 0x3f) OR (drop_bit 24 (values ! 3) AND 0x3)),
     10 := ucast (drop_bit 16 (values ! 3) AND 0xff),
     11 := ucast (drop_bit 8 (values ! 3) AND 0xff),
     12 := ucast (values ! 3 AND 0xff),
     13 := ucast (drop_bit 18 (values ! 4) AND 0xff),
     14 := ucast (drop_bit 10 (values ! 4) AND 0xff),
     15 := ucast (drop_bit 2 (values ! 4) AND 0xff),
     16 := ucast (push_bit 6 (values ! 4 AND 0x3) OR (drop_bit 20 (values ! 5) AND 0x3f)),
     17 := ucast (drop_bit 12 (values ! 5) AND 0xff),
     18 := ucast (drop_bit 4 (values ! 5) AND 0xff),
     19 := ucast (push_bit 4 (values ! 5 AND 0xf) OR (drop_bit 22 (values ! 6) AND 0xf)),
     20 := ucast (drop_bit 14 (values ! 6) AND 0xff),
     21 := ucast (drop_bit 6 (values ! 6) AND 0xff),
     22 := ucast (push_bit 2 (values ! 6 AND 0x3f) OR (drop_bit 24 (values ! 7) AND 0x3)),
     23 := ucast (drop_bit 16 (values ! 7) AND 0xff),
     24 := ucast (drop_bit 8 (values ! 7) AND 0xff),
     25 := ucast (values ! 7 AND 0xff)]"

lemma pack_bits_26_fill:
  "pack_bits_26 v b = fill_to 26 (\<lambda>j. ucast (regroup 26 (nth v) (8 * j) 8)) b"
  unfolding pack_bits_26_def literal_pieces
  by (intro fill_step fill_zero) (simp add: regroup_eval; fail)+

definition pack_bits_27 :: "u64 list \<Rightarrow> u8 list \<Rightarrow> u8 list" where
  "pack_bits_27 values bytes = bytes
    [0 := ucast (drop_bit 19 (values ! 0) AND 0xff),
     1 := ucast (drop_bit 11 (values ! 0) AND 0xff),
     2 := ucast (drop_bit 3 (values ! 0) AND 0xff),
     3 := ucast (push_bit 5 (values ! 0 AND 0x7) OR (drop_bit 22 (values ! 1) AND 0x1f)),
     4 := ucast (drop_bit 14 (values ! 1) AND 0xff),
     5 := ucast (drop_bit 6 (values ! 1) AND 0xff),
     6 := ucast (push_bit 2 (values ! 1 AND 0x3f) OR (drop_bit 25 (values ! 2) AND 0x3)),
     7 := ucast (drop_bit 17 (values ! 2) AND 0xff),
     8 := ucast (drop_bit 9 (values ! 2) AND 0xff),
     9 := ucast (drop_bit 1 (values ! 2) AND 0xff),
     10 := ucast (push_bit 7 (values ! 2 AND 0x1) OR (drop_bit 20 (values ! 3) AND 0x7f)),
     11 := ucast (drop_bit 12 (values ! 3) AND 0xff),
     12 := ucast (drop_bit 4 (values ! 3) AND 0xff),
     13 := ucast (push_bit 4 (values ! 3 AND 0xf) OR (drop_bit 23 (values ! 4) AND 0xf)),
     14 := ucast (drop_bit 15 (values ! 4) AND 0xff),
     15 := ucast (drop_bit 7 (values ! 4) AND 0xff),
     16 := ucast (push_bit 1 (values ! 4 AND 0x7f) OR (drop_bit 26 (values ! 5) AND 0x1)),
     17 := ucast (drop_bit 18 (values ! 5) AND 0xff),
     18 := ucast (drop_bit 10 (values ! 5) AND 0xff),
     19 := ucast (drop_bit 2 (values ! 5) AND 0xff),
     20 := ucast (push_bit 6 (values ! 5 AND 0x3) OR (drop_bit 21 (values ! 6) AND 0x3f)),
     21 := ucast (drop_bit 13 (values ! 6) AND 0xff),
     22 := ucast (drop_bit 5 (values ! 6) AND 0xff),
     23 := ucast (push_bit 3 (values ! 6 AND 0x1f) OR (drop_bit 24 (values ! 7) AND 0x7)),
     24 := ucast (drop_bit 16 (values ! 7) AND 0xff),
     25 := ucast (drop_bit 8 (values ! 7) AND 0xff),
     26 := ucast (values ! 7 AND 0xff)]"

lemma pack_bits_27_fill:
  "pack_bits_27 v b = fill_to 27 (\<lambda>j. ucast (regroup 27 (nth v) (8 * j) 8)) b"
  unfolding pack_bits_27_def literal_pieces
  by (intro fill_step fill_zero) (simp add: regroup_eval; fail)+

definition pack_bits_28 :: "u64 list \<Rightarrow> u8 list \<Rightarrow> u8 list" where
  "pack_bits_28 values bytes = bytes
    [0 := ucast (drop_bit 20 (values ! 0) AND 0xff),
     1 := ucast (drop_bit 12 (values ! 0) AND 0xff),
     2 := ucast (drop_bit 4 (values ! 0) AND 0xff),
     3 := ucast (push_bit 4 (values ! 0 AND 0xf) OR (drop_bit 24 (values ! 1) AND 0xf)),
     4 := ucast (drop_bit 16 (values ! 1) AND 0xff),
     5 := ucast (drop_bit 8 (values ! 1) AND 0xff),
     6 := ucast (values ! 1 AND 0xff),
     7 := ucast (drop_bit 20 (values ! 2) AND 0xff),
     8 := ucast (drop_bit 12 (values ! 2) AND 0xff),
     9 := ucast (drop_bit 4 (values ! 2) AND 0xff),
     10 := ucast (push_bit 4 (values ! 2 AND 0xf) OR (drop_bit 24 (values ! 3) AND 0xf)),
     11 := ucast (drop_bit 16 (values ! 3) AND 0xff),
     12 := ucast (drop_bit 8 (values ! 3) AND 0xff),
     13 := ucast (values ! 3 AND 0xff),
     14 := ucast (drop_bit 20 (values ! 4) AND 0xff),
     15 := ucast (drop_bit 12 (values ! 4) AND 0xff),
     16 := ucast (drop_bit 4 (values ! 4) AND 0xff),
     17 := ucast (push_bit 4 (values ! 4 AND 0xf) OR (drop_bit 24 (values ! 5) AND 0xf)),
     18 := ucast (drop_bit 16 (values ! 5) AND 0xff),
     19 := ucast (drop_bit 8 (values ! 5) AND 0xff),
     20 := ucast (values ! 5 AND 0xff),
     21 := ucast (drop_bit 20 (values ! 6) AND 0xff),
     22 := ucast (drop_bit 12 (values ! 6) AND 0xff),
     23 := ucast (drop_bit 4 (values ! 6) AND 0xff),
     24 := ucast (push_bit 4 (values ! 6 AND 0xf) OR (drop_bit 24 (values ! 7) AND 0xf)),
     25 := ucast (drop_bit 16 (values ! 7) AND 0xff),
     26 := ucast (drop_bit 8 (values ! 7) AND 0xff),
     27 := ucast (values ! 7 AND 0xff)]"

lemma pack_bits_28_fill:
  "pack_bits_28 v b = fill_to 28 (\<lambda>j. ucast (regroup 28 (nth v) (8 * j) 8)) b"
  unfolding pack_bits_28_def literal_pieces
  by (intro fill_step fill_zero) (simp add: regroup_eval; fail)+

definition pack_bits_29 :: "u64 list \<Rightarrow> u8 list \<Rightarrow> u8 list" where
  "pack_bits_29 values bytes = bytes
    [0 := ucast (drop_bit 21 (values ! 0) AND 0xff),
     1 := ucast (drop_bit 13 (values ! 0) AND 0xff),
     2 := ucast (drop_bit 5 (values ! 0) AND 0xff),
     3 := ucast (push_bit 3 (values ! 0 AND 0x1f) OR (drop_bit 26 (values ! 1) AND 0x7)),
     4 := ucast (drop_bit 18 (values ! 1) AND 0xff),
     5 := ucast (drop_bit 10 (values ! 1) AND 0xff),
     6 := ucast (drop_bit 2 (values ! 1) AND 0xff),
     7 := ucast (push_bit 6 (values ! 1 AND 0x3) OR (drop_bit 23 (values ! 2) AND 0x3f)),
     8 := ucast (drop_bit 15 (values ! 2) AND 0xff),
     9 := ucast (drop_bit 7 (values ! 2) AND 0xff),
     10 := ucast (push_bit 1 (values ! 2 AND 0x7f) OR (drop_bit 28 (values ! 3) AND 0x1)),
     11 := ucast (drop_bit 20 (values ! 3) AND 0xff),
     12 := ucast (drop_bit 12 (values ! 3) AND 0xff),
     13 := ucast (drop_bit 4 (values ! 3) AND 0xff),
     14 := ucast (push_bit 4 (values ! 3 AND 0xf) OR (drop_bit 25 (values ! 4) AND 0xf)),
     15 := ucast (drop_bit 17 (values ! 4) AND 0xff),
     16 := ucast (drop_bit 9 (values ! 4) AND 0xff),
     17 := ucast (drop_bit 1 (values ! 4) AND 0xff),
     18 := ucast (push_bit 7 (values ! 4 AND 0x1) OR (drop_bit 22 (values ! 5) AND 0x7f)),
     19 := ucast (drop_bit 14 (values ! 5) AND 0xff),
     20 := ucast (drop_bit 6 (values ! 5) AND 0xff),
     21 := ucast (push_bit 2 (values ! 5 AND 0x3f) OR (drop_bit 27 (values ! 6) AND 0x3)),
     22 := ucast (drop_bit 19 (values ! 6) AND 0xff),
     23 := ucast (drop_bit 11 (values ! 6) AND 0xff),
     24 := ucast (drop_bit 3 (values ! 6) AND 0xff),
     25 := ucast (push_bit 5 (values ! 6 AND 0x7) OR (drop_bit 24 (values ! 7) AND 0x1f)),
     26 := ucast (drop_bit 16 (values ! 7) AND 0xff),
     27 := ucast (drop_bit 8 (values ! 7) AND 0xff),
     28 := ucast (values ! 7 AND 0xff)]"

lemma pack_bits_29_fill:
  "pack_bits_29 v b = fill_to 29 (\<lambda>j. ucast (regroup 29 (nth v) (8 * j) 8)) b"
  unfolding pack_bits_29_def literal_pieces
  by (intro fill_step fill_zero) (simp add: regroup_eval; fail)+

definition pack_bits_30 :: "u64 list \<Rightarrow> u8 list \<Rightarrow> u8 list" where
  "pack_bits_30 values bytes = bytes
    [0 := ucast (drop_bit 22 (values ! 0) AND 0xff),
     1 := ucast (drop_bit 14 (values ! 0) AND 0xff),
     2 := ucast (drop_bit 6 (values ! 0) AND 0xff),
     3 := ucast (push_bit 2 (values ! 0 AND 0x3f) OR (drop_bit 28 (values ! 1) AND 0x3)),
     4 := ucast (drop_bit 20 (values ! 1) AND 0xff),
     5 := ucast (drop_bit 12 (values ! 1) AND 0xff),
     6 := ucast (drop_bit 4 (values ! 1) AND 0xff),
     7 := ucast (push_bit 4 (values ! 1 AND 0xf) OR (drop_bit 26 (values ! 2) AND 0xf)),
     8 := ucast (drop_bit 18 (values ! 2) AND 0xff),
     9 := ucast (drop_bit 10 (values ! 2) AND 0xff),
     10 := ucast (drop_bit 2 (values ! 2) AND 0xff),
     11 := ucast (push_bit 6 (values ! 2 AND 0x3) OR (drop_bit 24 (values ! 3) AND 0x3f)),
     12 := ucast (drop_bit 16 (values ! 3) AND 0xff),
     13 := ucast (drop_bit 8 (values ! 3) AND 0xff),
     14 := ucast (values ! 3 AND 0xff),
     15 := ucast (drop_bit 22 (values ! 4) AND 0xff),
     16 := ucast (drop_bit 14 (values ! 4) AND 0xff),
     17 := ucast (drop_bit 6 (values ! 4) AND 0xff),
     18 := ucast (push_bit 2 (values ! 4 AND 0x3f) OR (drop_bit 28 (values ! 5) AND 0x3)),
     19 := ucast (drop_bit 20 (values ! 5) AND 0xff),
     20 := ucast (drop_bit 12 (values ! 5) AND 0xff),
     21 := ucast (drop_bit 4 (values ! 5) AND 0xff),
     22 := ucast (push_bit 4 (values ! 5 AND 0xf) OR (drop_bit 26 (values ! 6) AND 0xf)),
     23 := ucast (drop_bit 18 (values ! 6) AND 0xff),
     24 := ucast (drop_bit 10 (values ! 6) AND 0xff),
     25 := ucast (drop_bit 2 (values ! 6) AND 0xff),
     26 := ucast (push_bit 6 (values ! 6 AND 0x3) OR (drop_bit 24 (values ! 7) AND 0x3f)),
     27 := ucast (drop_bit 16 (values ! 7) AND 0xff),
     28 := ucast (drop_bit 8 (values ! 7) AND 0xff),
     29 := ucast (values ! 7 AND 0xff)]"

lemma pack_bits_30_fill:
  "pack_bits_30 v b = fill_to 30 (\<lambda>j. ucast (regroup 30 (nth v) (8 * j) 8)) b"
  unfolding pack_bits_30_def literal_pieces
  by (intro fill_step fill_zero) (simp add: regroup_eval; fail)+

definition pack_bits_31 :: "u64 list \<Rightarrow> u8 list \<Rightarrow> u8 list" where
  "pack_bits_31 values bytes = bytes
    [0 := ucast (drop_bit 23 (values ! 0) AND 0xff),
     1 := ucast (drop_bit 15 (values ! 0) AND 0xff),
     2 := ucast (drop_bit 7 (values ! 0) AND 0xff),
     3 := ucast (push_bit 1 (values ! 0 AND 0x7f) OR (drop_bit 30 (values ! 1) AND 0x1)),
     4 := ucast (drop_bit 22 (values ! 1) AND 0xff),
     5 := ucast (drop_bit 14 (values ! 1) AND 0xff),
     6 := ucast (drop_bit 6 (values ! 1) AND 0xff),
     7 := ucast (push_bit 2 (values ! 1 AND 0x3f) OR (drop_bit 29 (values ! 2) AND 0x3)),
     8 := ucast (drop_bit 21 (values ! 2) AND 0xff),
     9 := ucast (drop_bit 13 (values ! 2) AND 0xff),
     10 := ucast (drop_bit 5 (values ! 2) AND 0xff),
     11 := ucast (push_bit 3 (values ! 2 AND 0x1f) OR (drop_bit 28 (values ! 3) AND 0x7)),
     12 := ucast (drop_bit 20 (values ! 3) AND 0xff),
     13 := ucast (drop_bit 12 (values ! 3) AND 0xff),
     14 := ucast (drop_bit 4 (values ! 3) AND 0xff),
     15 := ucast (push_bit 4 (values ! 3 AND 0xf) OR (drop_bit 27 (values ! 4) AND 0xf)),
     16 := ucast (drop_bit 19 (values ! 4) AND 0xff),
     17 := ucast (drop_bit 11 (values ! 4) AND 0xff),
     18 := ucast (drop_bit 3 (values ! 4) AND 0xff),
     19 := ucast (push_bit 5 (values ! 4 AND 0x7) OR (drop_bit 26 (values ! 5) AND 0x1f)),
     20 := ucast (drop_bit 18 (values ! 5) AND 0xff),
     21 := ucast (drop_bit 10 (values ! 5) AND 0xff),
     22 := ucast (drop_bit 2 (values ! 5) AND 0xff),
     23 := ucast (push_bit 6 (values ! 5 AND 0x3) OR (drop_bit 25 (values ! 6) AND 0x3f)),
     24 := ucast (drop_bit 17 (values ! 6) AND 0xff),
     25 := ucast (drop_bit 9 (values ! 6) AND 0xff),
     26 := ucast (drop_bit 1 (values ! 6) AND 0xff),
     27 := ucast (push_bit 7 (values ! 6 AND 0x1) OR (drop_bit 24 (values ! 7) AND 0x7f)),
     28 := ucast (drop_bit 16 (values ! 7) AND 0xff),
     29 := ucast (drop_bit 8 (values ! 7) AND 0xff),
     30 := ucast (values ! 7 AND 0xff)]"

lemma pack_bits_31_fill:
  "pack_bits_31 v b = fill_to 31 (\<lambda>j. ucast (regroup 31 (nth v) (8 * j) 8)) b"
  unfolding pack_bits_31_def literal_pieces
  by (intro fill_step fill_zero) (simp add: regroup_eval; fail)+

definition pack_bits_32 :: "u64 list \<Rightarrow> u8 list \<Rightarrow> u8 list" where
  "pack_bits_32 values bytes = bytes
    [0 := ucast (drop_bit 24 (values ! 0) AND 0xff),
     1 := ucast (drop_bit 16 (values ! 0) AND 0xff),
     2 := ucast (drop_bit 8 (values ! 0) AND 0xff),
     3 := ucast (values ! 0 AND 0xff),
     4 := ucast (drop_bit 24 (values ! 1) AND 0xff),
     5 := ucast (drop_bit 16 (values ! 1) AND 0xff),
     6 := ucast (drop_bit 8 (values ! 1) AND 0xff),
     7 := ucast (values ! 1 AND 0xff),
     8 := ucast (drop_bit 24 (values ! 2) AND 0xff),
     9 := ucast (drop_bit 16 (values ! 2) AND 0xff),
     10 := ucast (drop_bit 8 (values ! 2) AND 0xff),
     11 := ucast (values ! 2 AND 0xff),
     12 := ucast (drop_bit 24 (values ! 3) AND 0xff),
     13 := ucast (drop_bit 16 (values ! 3) AND 0xff),
     14 := ucast (drop_bit 8 (values ! 3) AND 0xff),
     15 := ucast (values ! 3 AND 0xff),
     16 := ucast (drop_bit 24 (values ! 4) AND 0xff),
     17 := ucast (drop_bit 16 (values ! 4) AND 0xff),
     18 := ucast (drop_bit 8 (values ! 4) AND 0xff),
     19 := ucast (values ! 4 AND 0xff),
     20 := ucast (drop_bit 24 (values ! 5) AND 0xff),
     21 := ucast (drop_bit 16 (values ! 5) AND 0xff),
     22 := ucast (drop_bit 8 (values ! 5) AND 0xff),
     23 := ucast (values ! 5 AND 0xff),
     24 := ucast (drop_bit 24 (values ! 6) AND 0xff),
     25 := ucast (drop_bit 16 (values ! 6) AND 0xff),
     26 := ucast (drop_bit 8 (values ! 6) AND 0xff),
     27 := ucast (values ! 6 AND 0xff),
     28 := ucast (drop_bit 24 (values ! 7) AND 0xff),
     29 := ucast (drop_bit 16 (values ! 7) AND 0xff),
     30 := ucast (drop_bit 8 (values ! 7) AND 0xff),
     31 := ucast (values ! 7 AND 0xff)]"

lemma pack_bits_32_fill:
  "pack_bits_32 v b = fill_to 32 (\<lambda>j. ucast (regroup 32 (nth v) (8 * j) 8)) b"
  unfolding pack_bits_32_def literal_pieces
  by (intro fill_step fill_zero) (simp add: regroup_eval; fail)+

definition pack_bits_33 :: "u64 list \<Rightarrow> u8 list \<Rightarrow> u8 list" where
  "pack_bits_33 values bytes = bytes
    [0 := ucast (drop_bit 25 (values ! 0) AND 0xff),
     1 := ucast (drop_bit 17 (values ! 0) AND 0xff),
     2 := ucast (drop_bit 9 (values ! 0) AND 0xff),
     3 := ucast (drop_bit 1 (values ! 0) AND 0xff),
     4 := ucast (push_bit 7 (values ! 0 AND 0x1) OR (drop_bit 26 (values ! 1) AND 0x7f)),
     5 := ucast (drop_bit 18 (values ! 1) AND 0xff),
     6 := ucast (drop_bit 10 (values ! 1) AND 0xff),
     7 := ucast (drop_bit 2 (values ! 1) AND 0xff),
     8 := ucast (push_bit 6 (values ! 1 AND 0x3) OR (drop_bit 27 (values ! 2) AND 0x3f)),
     9 := ucast (drop_bit 19 (values ! 2) AND 0xff),
     10 := ucast (drop_bit 11 (values ! 2) AND 0xff),
     11 := ucast (drop_bit 3 (values ! 2) AND 0xff),
     12 := ucast (push_bit 5 (values ! 2 AND 0x7) OR (drop_bit 28 (values ! 3) AND 0x1f)),
     13 := ucast (drop_bit 20 (values ! 3) AND 0xff),
     14 := ucast (drop_bit 12 (values ! 3) AND 0xff),
     15 := ucast (drop_bit 4 (values ! 3) AND 0xff),
     16 := ucast (push_bit 4 (values ! 3 AND 0xf) OR (drop_bit 29 (values ! 4) AND 0xf)),
     17 := ucast (drop_bit 21 (values ! 4) AND 0xff),
     18 := ucast (drop_bit 13 (values ! 4) AND 0xff),
     19 := ucast (drop_bit 5 (values ! 4) AND 0xff),
     20 := ucast (push_bit 3 (values ! 4 AND 0x1f) OR (drop_bit 30 (values ! 5) AND 0x7)),
     21 := ucast (drop_bit 22 (values ! 5) AND 0xff),
     22 := ucast (drop_bit 14 (values ! 5) AND 0xff),
     23 := ucast (drop_bit 6 (values ! 5) AND 0xff),
     24 := ucast (push_bit 2 (values ! 5 AND 0x3f) OR (drop_bit 31 (values ! 6) AND 0x3)),
     25 := ucast (drop_bit 23 (values ! 6) AND 0xff),
     26 := ucast (drop_bit 15 (values ! 6) AND 0xff),
     27 := ucast (drop_bit 7 (values ! 6) AND 0xff),
     28 := ucast (push_bit 1 (values ! 6 AND 0x7f) OR (drop_bit 32 (values ! 7) AND 0x1)),
     29 := ucast (drop_bit 24 (values ! 7) AND 0xff),
     30 := ucast (drop_bit 16 (values ! 7) AND 0xff),
     31 := ucast (drop_bit 8 (values ! 7) AND 0xff),
     32 := ucast (values ! 7 AND 0xff)]"

lemma pack_bits_33_fill:
  "pack_bits_33 v b = fill_to 33 (\<lambda>j. ucast (regroup 33 (nth v) (8 * j) 8)) b"
  unfolding pack_bits_33_def literal_pieces
  by (intro fill_step fill_zero) (simp add: regroup_eval; fail)+

definition pack_bits_34 :: "u64 list \<Rightarrow> u8 list \<Rightarrow> u8 list" where
  "pack_bits_34 values bytes = bytes
    [0 := ucast (drop_bit 26 (values ! 0) AND 0xff),
     1 := ucast (drop_bit 18 (values ! 0) AND 0xff),
     2 := ucast (drop_bit 10 (values ! 0) AND 0xff),
     3 := ucast (drop_bit 2 (values ! 0) AND 0xff),
     4 := ucast (push_bit 6 (values ! 0 AND 0x3) OR (drop_bit 28 (values ! 1) AND 0x3f)),
     5 := ucast (drop_bit 20 (values ! 1) AND 0xff),
     6 := ucast (drop_bit 12 (values ! 1) AND 0xff),
     7 := ucast (drop_bit 4 (values ! 1) AND 0xff),
     8 := ucast (push_bit 4 (values ! 1 AND 0xf) OR (drop_bit 30 (values ! 2) AND 0xf)),
     9 := ucast (drop_bit 22 (values ! 2) AND 0xff),
     10 := ucast (drop_bit 14 (values ! 2) AND 0xff),
     11 := ucast (drop_bit 6 (values ! 2) AND 0xff),
     12 := ucast (push_bit 2 (values ! 2 AND 0x3f) OR (drop_bit 32 (values ! 3) AND 0x3)),
     13 := ucast (drop_bit 24 (values ! 3) AND 0xff),
     14 := ucast (drop_bit 16 (values ! 3) AND 0xff),
     15 := ucast (drop_bit 8 (values ! 3) AND 0xff),
     16 := ucast (values ! 3 AND 0xff),
     17 := ucast (drop_bit 26 (values ! 4) AND 0xff),
     18 := ucast (drop_bit 18 (values ! 4) AND 0xff),
     19 := ucast (drop_bit 10 (values ! 4) AND 0xff),
     20 := ucast (drop_bit 2 (values ! 4) AND 0xff),
     21 := ucast (push_bit 6 (values ! 4 AND 0x3) OR (drop_bit 28 (values ! 5) AND 0x3f)),
     22 := ucast (drop_bit 20 (values ! 5) AND 0xff),
     23 := ucast (drop_bit 12 (values ! 5) AND 0xff),
     24 := ucast (drop_bit 4 (values ! 5) AND 0xff),
     25 := ucast (push_bit 4 (values ! 5 AND 0xf) OR (drop_bit 30 (values ! 6) AND 0xf)),
     26 := ucast (drop_bit 22 (values ! 6) AND 0xff),
     27 := ucast (drop_bit 14 (values ! 6) AND 0xff),
     28 := ucast (drop_bit 6 (values ! 6) AND 0xff),
     29 := ucast (push_bit 2 (values ! 6 AND 0x3f) OR (drop_bit 32 (values ! 7) AND 0x3)),
     30 := ucast (drop_bit 24 (values ! 7) AND 0xff),
     31 := ucast (drop_bit 16 (values ! 7) AND 0xff),
     32 := ucast (drop_bit 8 (values ! 7) AND 0xff),
     33 := ucast (values ! 7 AND 0xff)]"

lemma pack_bits_34_fill:
  "pack_bits_34 v b = fill_to 34 (\<lambda>j. ucast (regroup 34 (nth v) (8 * j) 8)) b"
  unfolding pack_bits_34_def literal_pieces
  by (intro fill_step fill_zero) (simp add: regroup_eval; fail)+

definition pack_bits_35 :: "u64 list \<Rightarrow> u8 list \<Rightarrow> u8 list" where
  "pack_bits_35 values bytes = bytes
    [0 := ucast (drop_bit 27 (values ! 0) AND 0xff),
     1 := ucast (drop_bit 19 (values ! 0) AND 0xff),
     2 := ucast (drop_bit 11 (values ! 0) AND 0xff),
     3 := ucast (drop_bit 3 (values ! 0) AND 0xff),
     4 := ucast (push_bit 5 (values ! 0 AND 0x7) OR (drop_bit 30 (values ! 1) AND 0x1f)),
     5 := ucast (drop_bit 22 (values ! 1) AND 0xff),
     6 := ucast (drop_bit 14 (values ! 1) AND 0xff),
     7 := ucast (drop_bit 6 (values ! 1) AND 0xff),
     8 := ucast (push_bit 2 (values ! 1 AND 0x3f) OR (drop_bit 33 (values ! 2) AND 0x3)),
     9 := ucast (drop_bit 25 (values ! 2) AND 0xff),
     10 := ucast (drop_bit 17 (values ! 2) AND 0xff),
     11 := ucast (drop_bit 9 (values ! 2) AND 0xff),
     12 := ucast (drop_bit 1 (values ! 2) AND 0xff),
     13 := ucast (push_bit 7 (values ! 2 AND 0x1) OR (drop_bit 28 (values ! 3) AND 0x7f)),
     14 := ucast (drop_bit 20 (values ! 3) AND 0xff),
     15 := ucast (drop_bit 12 (values ! 3) AND 0xff),
     16 := ucast (drop_bit 4 (values ! 3) AND 0xff),
     17 := ucast (push_bit 4 (values ! 3 AND 0xf) OR (drop_bit 31 (values ! 4) AND 0xf)),
     18 := ucast (drop_bit 23 (values ! 4) AND 0xff),
     19 := ucast (drop_bit 15 (values ! 4) AND 0xff),
     20 := ucast (drop_bit 7 (values ! 4) AND 0xff),
     21 := ucast (push_bit 1 (values ! 4 AND 0x7f) OR (drop_bit 34 (values ! 5) AND 0x1)),
     22 := ucast (drop_bit 26 (values ! 5) AND 0xff),
     23 := ucast (drop_bit 18 (values ! 5) AND 0xff),
     24 := ucast (drop_bit 10 (values ! 5) AND 0xff),
     25 := ucast (drop_bit 2 (values ! 5) AND 0xff),
     26 := ucast (push_bit 6 (values ! 5 AND 0x3) OR (drop_bit 29 (values ! 6) AND 0x3f)),
     27 := ucast (drop_bit 21 (values ! 6) AND 0xff),
     28 := ucast (drop_bit 13 (values ! 6) AND 0xff),
     29 := ucast (drop_bit 5 (values ! 6) AND 0xff),
     30 := ucast (push_bit 3 (values ! 6 AND 0x1f) OR (drop_bit 32 (values ! 7) AND 0x7)),
     31 := ucast (drop_bit 24 (values ! 7) AND 0xff),
     32 := ucast (drop_bit 16 (values ! 7) AND 0xff),
     33 := ucast (drop_bit 8 (values ! 7) AND 0xff),
     34 := ucast (values ! 7 AND 0xff)]"

lemma pack_bits_35_fill:
  "pack_bits_35 v b = fill_to 35 (\<lambda>j. ucast (regroup 35 (nth v) (8 * j) 8)) b"
  unfolding pack_bits_35_def literal_pieces
  by (intro fill_step fill_zero) (simp add: regroup_eval; fail)+

definition pack_bits_36 :: "u64 list \<Rightarrow> u8 list \<Rightarrow> u8 list" where
  "pack_bits_36 values bytes = bytes
    [0 := ucast (drop_bit 28 (values ! 0) AND 0xff),
     1 := ucast (drop_bit 20 (values ! 0) AND 0xff),
     2 := ucast (drop_bit 12 (values ! 0) AND 0xff),
     3 := ucast (drop_bit 4 (values ! 0) AND 0xff),
     4 := ucast (push_bit 4 (values ! 0 AND 0xf) OR (drop_bit 32 (values ! 1) AND 0xf)),
     5 := ucast (drop_bit 24 (values ! 1) AND 0xff),
     6 := ucast (drop_bit 16 (values ! 1) AND 0xff),
     7 := ucast (drop_bit 8 (values ! 1) AND 0xff),
     8 := ucast (values ! 1 AND 0xff),
     9 := ucast (drop_bit 28 (values ! 2) AND 0xff),
     10 := ucast (drop_bit 20 (values ! 2) AND 0xff),
     11 := ucast (drop_bit 12 (values ! 2) AND 0xff),
     12 := ucast (drop_bit 4 (values ! 2) AND 0xff),
     13 := ucast (push_bit 4 (values ! 2 AND 0xf) OR (drop_bit 32 (values ! 3) AND 0xf)),
     14 := ucast (drop_bit 24 (values ! 3) AND 0xff),
     15 := ucast (drop_bit 16 (values ! 3) AND 0xff),
     16 := ucast (drop_bit 8 (values ! 3) AND 0xff),
     17 := ucast (values ! 3 AND 0xff),
     18 := ucast (drop_bit 28 (values ! 4) AND 0xff),
     19 := ucast (drop_bit 20 (values ! 4) AND 0xff),
     20 := ucast (drop_bit 12 (values ! 4) AND 0xff),
     21 := ucast (drop_bit 4 (values ! 4) AND 0xff),
     22 := ucast (push_bit 4 (values ! 4 AND 0xf) OR (drop_bit 32 (values ! 5) AND 0xf)),
     23 := ucast (drop_bit 24 (values ! 5) AND 0xff),
     24 := ucast (drop_bit 16 (values ! 5) AND 0xff),
     25 := ucast (drop_bit 8 (values ! 5) AND 0xff),
     26 := ucast (values ! 5 AND 0xff),
     27 := ucast (drop_bit 28 (values ! 6) AND 0xff),
     28 := ucast (drop_bit 20 (values ! 6) AND 0xff),
     29 := ucast (drop_bit 12 (values ! 6) AND 0xff),
     30 := ucast (drop_bit 4 (values ! 6) AND 0xff),
     31 := ucast (push_bit 4 (values ! 6 AND 0xf) OR (drop_bit 32 (values ! 7) AND 0xf)),
     32 := ucast (drop_bit 24 (values ! 7) AND 0xff),
     33 := ucast (drop_bit 16 (values ! 7) AND 0xff),
     34 := ucast (drop_bit 8 (values ! 7) AND 0xff),
     35 := ucast (values ! 7 AND 0xff)]"

lemma pack_bits_36_fill:
  "pack_bits_36 v b = fill_to 36 (\<lambda>j. ucast (regroup 36 (nth v) (8 * j) 8)) b"
  unfolding pack_bits_36_def literal_pieces
  by (intro fill_step fill_zero) (simp add: regroup_eval; fail)+

definition pack_bits_37 :: "u64 list \<Rightarrow> u8 list \<Rightarrow> u8 list" where
  "pack_bits_37 values bytes = bytes
    [0 := ucast (drop_bit 29 (values ! 0) AND 0xff),
     1 := ucast (drop_bit 21 (values ! 0) AND 0xff),
     2 := ucast (drop_bit 13 (values ! 0) AND 0xff),
     3 := ucast (drop_bit 5 (values ! 0) AND 0xff),
     4 := ucast (push_bit 3 (values ! 0 AND 0x1f) OR (drop_bit 34 (values ! 1) AND 0x7)),
     5 := ucast (drop_bit 26 (values ! 1) AND 0xff),
     6 := ucast (drop_bit 18 (values ! 1) AND 0xff),
     7 := ucast (drop_bit 10 (values ! 1) AND 0xff),
     8 := ucast (drop_bit 2 (values ! 1) AND 0xff),
     9 := ucast (push_bit 6 (values ! 1 AND 0x3) OR (drop_bit 31 (values ! 2) AND 0x3f)),
     10 := ucast (drop_bit 23 (values ! 2) AND 0xff),
     11 := ucast (drop_bit 15 (values ! 2) AND 0xff),
     12 := ucast (drop_bit 7 (values ! 2) AND 0xff),
     13 := ucast (push_bit 1 (values ! 2 AND 0x7f) OR (drop_bit 36 (values ! 3) AND 0x1)),
     14 := ucast (drop_bit 28 (values ! 3) AND 0xff),
     15 := ucast (drop_bit 20 (values ! 3) AND 0xff),
     16 := ucast (drop_bit 12 (values ! 3) AND 0xff),
     17 := ucast (drop_bit 4 (values ! 3) AND 0xff),
     18 := ucast (push_bit 4 (values ! 3 AND 0xf) OR (drop_bit 33 (values ! 4) AND 0xf)),
     19 := ucast (drop_bit 25 (values ! 4) AND 0xff),
     20 := ucast (drop_bit 17 (values ! 4) AND 0xff),
     21 := ucast (drop_bit 9 (values ! 4) AND 0xff),
     22 := ucast (drop_bit 1 (values ! 4) AND 0xff),
     23 := ucast (push_bit 7 (values ! 4 AND 0x1) OR (drop_bit 30 (values ! 5) AND 0x7f)),
     24 := ucast (drop_bit 22 (values ! 5) AND 0xff),
     25 := ucast (drop_bit 14 (values ! 5) AND 0xff),
     26 := ucast (drop_bit 6 (values ! 5) AND 0xff),
     27 := ucast (push_bit 2 (values ! 5 AND 0x3f) OR (drop_bit 35 (values ! 6) AND 0x3)),
     28 := ucast (drop_bit 27 (values ! 6) AND 0xff),
     29 := ucast (drop_bit 19 (values ! 6) AND 0xff),
     30 := ucast (drop_bit 11 (values ! 6) AND 0xff),
     31 := ucast (drop_bit 3 (values ! 6) AND 0xff),
     32 := ucast (push_bit 5 (values ! 6 AND 0x7) OR (drop_bit 32 (values ! 7) AND 0x1f)),
     33 := ucast (drop_bit 24 (values ! 7) AND 0xff),
     34 := ucast (drop_bit 16 (values ! 7) AND 0xff),
     35 := ucast (drop_bit 8 (values ! 7) AND 0xff),
     36 := ucast (values ! 7 AND 0xff)]"

lemma pack_bits_37_fill:
  "pack_bits_37 v b = fill_to 37 (\<lambda>j. ucast (regroup 37 (nth v) (8 * j) 8)) b"
  unfolding pack_bits_37_def literal_pieces
  by (intro fill_step fill_zero) (simp add: regroup_eval; fail)+

definition pack_bits_38 :: "u64 list \<Rightarrow> u8 list \<Rightarrow> u8 list" where
  "pack_bits_38 values bytes = bytes
    [0 := ucast (drop_bit 30 (values ! 0) AND 0xff),
     1 := ucast (drop_bit 22 (values ! 0) AND 0xff),
     2 := ucast (drop_bit 14 (values ! 0) AND 0xff),
     3 := ucast (drop_bit 6 (values ! 0) AND 0xff),
     4 := ucast (push_bit 2 (values ! 0 AND 0x3f) OR (drop_bit 36 (values ! 1) AND 0x3)),
     5 := ucast (drop_bit 28 (values ! 1) AND 0xff),
     6 := ucast (drop_bit 20 (values ! 1) AND 0xff),
     7 := ucast (drop_bit 12 (values ! 1) AND 0xff),
     8 := ucast (drop_bit 4 (values ! 1) AND 0xff),
     9 := ucast (push_bit 4 (values ! 1 AND 0xf) OR (drop_bit 34 (values ! 2) AND 0xf)),
     10 := ucast (drop_bit 26 (values ! 2) AND 0xff),
     11 := ucast (drop_bit 18 (values ! 2) AND 0xff),
     12 := ucast (drop_bit 10 (values ! 2) AND 0xff),
     13 := ucast (drop_bit 2 (values ! 2) AND 0xff),
     14 := ucast (push_bit 6 (values ! 2 AND 0x3) OR (drop_bit 32 (values ! 3) AND 0x3f)),
     15 := ucast (drop_bit 24 (values ! 3) AND 0xff),
     16 := ucast (drop_bit 16 (values ! 3) AND 0xff),
     17 := ucast (drop_bit 8 (values ! 3) AND 0xff),
     18 := ucast (values ! 3 AND 0xff),
     19 := ucast (drop_bit 30 (values ! 4) AND 0xff),
     20 := ucast (drop_bit 22 (values ! 4) AND 0xff),
     21 := ucast (drop_bit 14 (values ! 4) AND 0xff),
     22 := ucast (drop_bit 6 (values ! 4) AND 0xff),
     23 := ucast (push_bit 2 (values ! 4 AND 0x3f) OR (drop_bit 36 (values ! 5) AND 0x3)),
     24 := ucast (drop_bit 28 (values ! 5) AND 0xff),
     25 := ucast (drop_bit 20 (values ! 5) AND 0xff),
     26 := ucast (drop_bit 12 (values ! 5) AND 0xff),
     27 := ucast (drop_bit 4 (values ! 5) AND 0xff),
     28 := ucast (push_bit 4 (values ! 5 AND 0xf) OR (drop_bit 34 (values ! 6) AND 0xf)),
     29 := ucast (drop_bit 26 (values ! 6) AND 0xff),
     30 := ucast (drop_bit 18 (values ! 6) AND 0xff),
     31 := ucast (drop_bit 10 (values ! 6) AND 0xff),
     32 := ucast (drop_bit 2 (values ! 6) AND 0xff),
     33 := ucast (push_bit 6 (values ! 6 AND 0x3) OR (drop_bit 32 (values ! 7) AND 0x3f)),
     34 := ucast (drop_bit 24 (values ! 7) AND 0xff),
     35 := ucast (drop_bit 16 (values ! 7) AND 0xff),
     36 := ucast (drop_bit 8 (values ! 7) AND 0xff),
     37 := ucast (values ! 7 AND 0xff)]"

lemma pack_bits_38_fill:
  "pack_bits_38 v b = fill_to 38 (\<lambda>j. ucast (regroup 38 (nth v) (8 * j) 8)) b"
  unfolding pack_bits_38_def literal_pieces
  by (intro fill_step fill_zero) (simp add: regroup_eval; fail)+

definition pack_bits_39 :: "u64 list \<Rightarrow> u8 list \<Rightarrow> u8 list" where
  "pack_bits_39 values bytes = bytes
    [0 := ucast (drop_bit 31 (values ! 0) AND 0xff),
     1 := ucast (drop_bit 23 (values ! 0) AND 0xff),
     2 := ucast (drop_bit 15 (values ! 0) AND 0xff),
     3 := ucast (drop_bit 7 (values ! 0) AND 0xff),
     4 := ucast (push_bit 1 (values ! 0 AND 0x7f) OR (drop_bit 38 (values ! 1) AND 0x1)),
     5 := ucast (drop_bit 30 (values ! 1) AND 0xff),
     6 := ucast (drop_bit 22 (values ! 1) AND 0xff),
     7 := ucast (drop_bit 14 (values ! 1) AND 0xff),
     8 := ucast (drop_bit 6 (values ! 1) AND 0xff),
     9 := ucast (push_bit 2 (values ! 1 AND 0x3f) OR (drop_bit 37 (values ! 2) AND 0x3)),
     10 := ucast (drop_bit 29 (values ! 2) AND 0xff),
     11 := ucast (drop_bit 21 (values ! 2) AND 0xff),
     12 := ucast (drop_bit 13 (values ! 2) AND 0xff),
     13 := ucast (drop_bit 5 (values ! 2) AND 0xff),
     14 := ucast (push_bit 3 (values ! 2 AND 0x1f) OR (drop_bit 36 (values ! 3) AND 0x7)),
     15 := ucast (drop_bit 28 (values ! 3) AND 0xff),
     16 := ucast (drop_bit 20 (values ! 3) AND 0xff),
     17 := ucast (drop_bit 12 (values ! 3) AND 0xff),
     18 := ucast (drop_bit 4 (values ! 3) AND 0xff),
     19 := ucast (push_bit 4 (values ! 3 AND 0xf) OR (drop_bit 35 (values ! 4) AND 0xf)),
     20 := ucast (drop_bit 27 (values ! 4) AND 0xff),
     21 := ucast (drop_bit 19 (values ! 4) AND 0xff),
     22 := ucast (drop_bit 11 (values ! 4) AND 0xff),
     23 := ucast (drop_bit 3 (values ! 4) AND 0xff),
     24 := ucast (push_bit 5 (values ! 4 AND 0x7) OR (drop_bit 34 (values ! 5) AND 0x1f)),
     25 := ucast (drop_bit 26 (values ! 5) AND 0xff),
     26 := ucast (drop_bit 18 (values ! 5) AND 0xff),
     27 := ucast (drop_bit 10 (values ! 5) AND 0xff),
     28 := ucast (drop_bit 2 (values ! 5) AND 0xff),
     29 := ucast (push_bit 6 (values ! 5 AND 0x3) OR (drop_bit 33 (values ! 6) AND 0x3f)),
     30 := ucast (drop_bit 25 (values ! 6) AND 0xff),
     31 := ucast (drop_bit 17 (values ! 6) AND 0xff),
     32 := ucast (drop_bit 9 (values ! 6) AND 0xff),
     33 := ucast (drop_bit 1 (values ! 6) AND 0xff),
     34 := ucast (push_bit 7 (values ! 6 AND 0x1) OR (drop_bit 32 (values ! 7) AND 0x7f)),
     35 := ucast (drop_bit 24 (values ! 7) AND 0xff),
     36 := ucast (drop_bit 16 (values ! 7) AND 0xff),
     37 := ucast (drop_bit 8 (values ! 7) AND 0xff),
     38 := ucast (values ! 7 AND 0xff)]"

lemma pack_bits_39_fill:
  "pack_bits_39 v b = fill_to 39 (\<lambda>j. ucast (regroup 39 (nth v) (8 * j) 8)) b"
  unfolding pack_bits_39_def literal_pieces
  by (intro fill_step fill_zero) (simp add: regroup_eval; fail)+

definition pack_bits_40 :: "u64 list \<Rightarrow> u8 list \<Rightarrow> u8 list" where
  "pack_bits_40 values bytes = bytes
    [0 := ucast (drop_bit 32 (values ! 0) AND 0xff),
     1 := ucast (drop_bit 24 (values ! 0) AND 0xff),
     2 := ucast (drop_bit 16 (values ! 0) AND 0xff),
     3 := ucast (drop_bit 8 (values ! 0) AND 0xff),
     4 := ucast (values ! 0 AND 0xff),
     5 := ucast (drop_bit 32 (values ! 1) AND 0xff),
     6 := ucast (drop_bit 24 (values ! 1) AND 0xff),
     7 := ucast (drop_bit 16 (values ! 1) AND 0xff),
     8 := ucast (drop_bit 8 (values ! 1) AND 0xff),
     9 := ucast (values ! 1 AND 0xff),
     10 := ucast (drop_bit 32 (values ! 2) AND 0xff),
     11 := ucast (drop_bit 24 (values ! 2) AND 0xff),
     12 := ucast (drop_bit 16 (values ! 2) AND 0xff),
     13 := ucast (drop_bit 8 (values ! 2) AND 0xff),
     14 := ucast (values ! 2 AND 0xff),
     15 := ucast (drop_bit 32 (values ! 3) AND 0xff),
     16 := ucast (drop_bit 24 (values ! 3) AND 0xff),
     17 := ucast (drop_bit 16 (values ! 3) AND 0xff),
     18 := ucast (drop_bit 8 (values ! 3) AND 0xff),
     19 := ucast (values ! 3 AND 0xff),
     20 := ucast (drop_bit 32 (values ! 4) AND 0xff),
     21 := ucast (drop_bit 24 (values ! 4) AND 0xff),
     22 := ucast (drop_bit 16 (values ! 4) AND 0xff),
     23 := ucast (drop_bit 8 (values ! 4) AND 0xff),
     24 := ucast (values ! 4 AND 0xff),
     25 := ucast (drop_bit 32 (values ! 5) AND 0xff),
     26 := ucast (drop_bit 24 (values ! 5) AND 0xff),
     27 := ucast (drop_bit 16 (values ! 5) AND 0xff),
     28 := ucast (drop_bit 8 (values ! 5) AND 0xff),
     29 := ucast (values ! 5 AND 0xff),
     30 := ucast (drop_bit 32 (values ! 6) AND 0xff),
     31 := ucast (drop_bit 24 (values ! 6) AND 0xff),
     32 := ucast (drop_bit 16 (values ! 6) AND 0xff),
     33 := ucast (drop_bit 8 (values ! 6) AND 0xff),
     34 := ucast (values ! 6 AND 0xff),
     35 := ucast (drop_bit 32 (values ! 7) AND 0xff),
     36 := ucast (drop_bit 24 (values ! 7) AND 0xff),
     37 := ucast (drop_bit 16 (values ! 7) AND 0xff),
     38 := ucast (drop_bit 8 (values ! 7) AND 0xff),
     39 := ucast (values ! 7 AND 0xff)]"

lemma pack_bits_40_fill:
  "pack_bits_40 v b = fill_to 40 (\<lambda>j. ucast (regroup 40 (nth v) (8 * j) 8)) b"
  unfolding pack_bits_40_def literal_pieces
  by (intro fill_step fill_zero) (simp add: regroup_eval; fail)+

end
