(* ===== verification/BitPack_Pack2.thy ===== *)
theory BitPack_Pack2
  imports BitStream
begin

text \<open>
  The unrolled packing routines \<open>pack_bits_1\<close> to \<open>pack_bits_63\<close> of
  \<open>src/datasketches/src/thetafamily/theta/bit_pack.rs\<close>, widths 41 to 63, statement by
  statement: every assignment \<open>bytes[j] = \<dots> as u8\<close> is one list update, a shift left is
  \<open>push_bit\<close>, a shift right \<open>drop_bit\<close>. The caller (\<open>pack_bits_block\<close>) checks the lengths,
  so no index is out of range. After each routine, its equality with the generic \<open>regroup\<close>.
\<close>

definition pack_bits_41 :: "u64 list \<Rightarrow> u8 list \<Rightarrow> u8 list" where
  "pack_bits_41 values bytes = bytes
    [0 := ucast (drop_bit 33 (values ! 0) AND 0xff),
     1 := ucast (drop_bit 25 (values ! 0) AND 0xff),
     2 := ucast (drop_bit 17 (values ! 0) AND 0xff),
     3 := ucast (drop_bit 9 (values ! 0) AND 0xff),
     4 := ucast (drop_bit 1 (values ! 0) AND 0xff),
     5 := ucast (push_bit 7 (values ! 0 AND 0x1) OR (drop_bit 34 (values ! 1) AND 0x7f)),
     6 := ucast (drop_bit 26 (values ! 1) AND 0xff),
     7 := ucast (drop_bit 18 (values ! 1) AND 0xff),
     8 := ucast (drop_bit 10 (values ! 1) AND 0xff),
     9 := ucast (drop_bit 2 (values ! 1) AND 0xff),
     10 := ucast (push_bit 6 (values ! 1 AND 0x3) OR (drop_bit 35 (values ! 2) AND 0x3f)),
     11 := ucast (drop_bit 27 (values ! 2) AND 0xff),
     12 := ucast (drop_bit 19 (values ! 2) AND 0xff),
     13 := ucast (drop_bit 11 (values ! 2) AND 0xff),
     14 := ucast (drop_bit 3 (values ! 2) AND 0xff),
     15 := ucast (push_bit 5 (values ! 2 AND 0x7) OR (drop_bit 36 (values ! 3) AND 0x1f)),
     16 := ucast (drop_bit 28 (values ! 3) AND 0xff),
     17 := ucast (drop_bit 20 (values ! 3) AND 0xff),
     18 := ucast (drop_bit 12 (values ! 3) AND 0xff),
     19 := ucast (drop_bit 4 (values ! 3) AND 0xff),
     20 := ucast (push_bit 4 (values ! 3 AND 0xf) OR (drop_bit 37 (values ! 4) AND 0xf)),
     21 := ucast (drop_bit 29 (values ! 4) AND 0xff),
     22 := ucast (drop_bit 21 (values ! 4) AND 0xff),
     23 := ucast (drop_bit 13 (values ! 4) AND 0xff),
     24 := ucast (drop_bit 5 (values ! 4) AND 0xff),
     25 := ucast (push_bit 3 (values ! 4 AND 0x1f) OR (drop_bit 38 (values ! 5) AND 0x7)),
     26 := ucast (drop_bit 30 (values ! 5) AND 0xff),
     27 := ucast (drop_bit 22 (values ! 5) AND 0xff),
     28 := ucast (drop_bit 14 (values ! 5) AND 0xff),
     29 := ucast (drop_bit 6 (values ! 5) AND 0xff),
     30 := ucast (push_bit 2 (values ! 5 AND 0x3f) OR (drop_bit 39 (values ! 6) AND 0x3)),
     31 := ucast (drop_bit 31 (values ! 6) AND 0xff),
     32 := ucast (drop_bit 23 (values ! 6) AND 0xff),
     33 := ucast (drop_bit 15 (values ! 6) AND 0xff),
     34 := ucast (drop_bit 7 (values ! 6) AND 0xff),
     35 := ucast (push_bit 1 (values ! 6 AND 0x7f) OR (drop_bit 40 (values ! 7) AND 0x1)),
     36 := ucast (drop_bit 32 (values ! 7) AND 0xff),
     37 := ucast (drop_bit 24 (values ! 7) AND 0xff),
     38 := ucast (drop_bit 16 (values ! 7) AND 0xff),
     39 := ucast (drop_bit 8 (values ! 7) AND 0xff),
     40 := ucast (values ! 7 AND 0xff)]"

lemma pack_bits_41_fill:
  "pack_bits_41 v b = fill_to 41 (\<lambda>j. ucast (regroup 41 (nth v) (8 * j) 8)) b"
  unfolding pack_bits_41_def literal_pieces
  by (intro fill_step fill_zero) (simp add: regroup_eval; fail)+

definition pack_bits_42 :: "u64 list \<Rightarrow> u8 list \<Rightarrow> u8 list" where
  "pack_bits_42 values bytes = bytes
    [0 := ucast (drop_bit 34 (values ! 0) AND 0xff),
     1 := ucast (drop_bit 26 (values ! 0) AND 0xff),
     2 := ucast (drop_bit 18 (values ! 0) AND 0xff),
     3 := ucast (drop_bit 10 (values ! 0) AND 0xff),
     4 := ucast (drop_bit 2 (values ! 0) AND 0xff),
     5 := ucast (push_bit 6 (values ! 0 AND 0x3) OR (drop_bit 36 (values ! 1) AND 0x3f)),
     6 := ucast (drop_bit 28 (values ! 1) AND 0xff),
     7 := ucast (drop_bit 20 (values ! 1) AND 0xff),
     8 := ucast (drop_bit 12 (values ! 1) AND 0xff),
     9 := ucast (drop_bit 4 (values ! 1) AND 0xff),
     10 := ucast (push_bit 4 (values ! 1 AND 0xf) OR (drop_bit 38 (values ! 2) AND 0xf)),
     11 := ucast (drop_bit 30 (values ! 2) AND 0xff),
     12 := ucast (drop_bit 22 (values ! 2) AND 0xff),
     13 := ucast (drop_bit 14 (values ! 2) AND 0xff),
     14 := ucast (drop_bit 6 (values ! 2) AND 0xff),
     15 := ucast (push_bit 2 (values ! 2 AND 0x3f) OR (drop_bit 40 (values ! 3) AND 0x3)),
     16 := ucast (drop_bit 32 (values ! 3) AND 0xff),
     17 := ucast (drop_bit 24 (values ! 3) AND 0xff),
     18 := ucast (drop_bit 16 (values ! 3) AND 0xff),
     19 := ucast (drop_bit 8 (values ! 3) AND 0xff),
     20 := ucast (values ! 3 AND 0xff),
     21 := ucast (drop_bit 34 (values ! 4) AND 0xff),
     22 := ucast (drop_bit 26 (values ! 4) AND 0xff),
     23 := ucast (drop_bit 18 (values ! 4) AND 0xff),
     24 := ucast (drop_bit 10 (values ! 4) AND 0xff),
     25 := ucast (drop_bit 2 (values ! 4) AND 0xff),
     26 := ucast (push_bit 6 (values ! 4 AND 0x3) OR (drop_bit 36 (values ! 5) AND 0x3f)),
     27 := ucast (drop_bit 28 (values ! 5) AND 0xff),
     28 := ucast (drop_bit 20 (values ! 5) AND 0xff),
     29 := ucast (drop_bit 12 (values ! 5) AND 0xff),
     30 := ucast (drop_bit 4 (values ! 5) AND 0xff),
     31 := ucast (push_bit 4 (values ! 5 AND 0xf) OR (drop_bit 38 (values ! 6) AND 0xf)),
     32 := ucast (drop_bit 30 (values ! 6) AND 0xff),
     33 := ucast (drop_bit 22 (values ! 6) AND 0xff),
     34 := ucast (drop_bit 14 (values ! 6) AND 0xff),
     35 := ucast (drop_bit 6 (values ! 6) AND 0xff),
     36 := ucast (push_bit 2 (values ! 6 AND 0x3f) OR (drop_bit 40 (values ! 7) AND 0x3)),
     37 := ucast (drop_bit 32 (values ! 7) AND 0xff),
     38 := ucast (drop_bit 24 (values ! 7) AND 0xff),
     39 := ucast (drop_bit 16 (values ! 7) AND 0xff),
     40 := ucast (drop_bit 8 (values ! 7) AND 0xff),
     41 := ucast (values ! 7 AND 0xff)]"

lemma pack_bits_42_fill:
  "pack_bits_42 v b = fill_to 42 (\<lambda>j. ucast (regroup 42 (nth v) (8 * j) 8)) b"
  unfolding pack_bits_42_def literal_pieces
  by (intro fill_step fill_zero) (simp add: regroup_eval; fail)+

definition pack_bits_43 :: "u64 list \<Rightarrow> u8 list \<Rightarrow> u8 list" where
  "pack_bits_43 values bytes = bytes
    [0 := ucast (drop_bit 35 (values ! 0) AND 0xff),
     1 := ucast (drop_bit 27 (values ! 0) AND 0xff),
     2 := ucast (drop_bit 19 (values ! 0) AND 0xff),
     3 := ucast (drop_bit 11 (values ! 0) AND 0xff),
     4 := ucast (drop_bit 3 (values ! 0) AND 0xff),
     5 := ucast (push_bit 5 (values ! 0 AND 0x7) OR (drop_bit 38 (values ! 1) AND 0x1f)),
     6 := ucast (drop_bit 30 (values ! 1) AND 0xff),
     7 := ucast (drop_bit 22 (values ! 1) AND 0xff),
     8 := ucast (drop_bit 14 (values ! 1) AND 0xff),
     9 := ucast (drop_bit 6 (values ! 1) AND 0xff),
     10 := ucast (push_bit 2 (values ! 1 AND 0x3f) OR (drop_bit 41 (values ! 2) AND 0x3)),
     11 := ucast (drop_bit 33 (values ! 2) AND 0xff),
     12 := ucast (drop_bit 25 (values ! 2) AND 0xff),
     13 := ucast (drop_bit 17 (values ! 2) AND 0xff),
     14 := ucast (drop_bit 9 (values ! 2) AND 0xff),
     15 := ucast (drop_bit 1 (values ! 2) AND 0xff),
     16 := ucast (push_bit 7 (values ! 2 AND 0x1) OR (drop_bit 36 (values ! 3) AND 0x7f)),
     17 := ucast (drop_bit 28 (values ! 3) AND 0xff),
     18 := ucast (drop_bit 20 (values ! 3) AND 0xff),
     19 := ucast (drop_bit 12 (values ! 3) AND 0xff),
     20 := ucast (drop_bit 4 (values ! 3) AND 0xff),
     21 := ucast (push_bit 4 (values ! 3 AND 0xf) OR (drop_bit 39 (values ! 4) AND 0xf)),
     22 := ucast (drop_bit 31 (values ! 4) AND 0xff),
     23 := ucast (drop_bit 23 (values ! 4) AND 0xff),
     24 := ucast (drop_bit 15 (values ! 4) AND 0xff),
     25 := ucast (drop_bit 7 (values ! 4) AND 0xff),
     26 := ucast (push_bit 1 (values ! 4 AND 0x7f) OR (drop_bit 42 (values ! 5) AND 0x1)),
     27 := ucast (drop_bit 34 (values ! 5) AND 0xff),
     28 := ucast (drop_bit 26 (values ! 5) AND 0xff),
     29 := ucast (drop_bit 18 (values ! 5) AND 0xff),
     30 := ucast (drop_bit 10 (values ! 5) AND 0xff),
     31 := ucast (drop_bit 2 (values ! 5) AND 0xff),
     32 := ucast (push_bit 6 (values ! 5 AND 0x3) OR (drop_bit 37 (values ! 6) AND 0x3f)),
     33 := ucast (drop_bit 29 (values ! 6) AND 0xff),
     34 := ucast (drop_bit 21 (values ! 6) AND 0xff),
     35 := ucast (drop_bit 13 (values ! 6) AND 0xff),
     36 := ucast (drop_bit 5 (values ! 6) AND 0xff),
     37 := ucast (push_bit 3 (values ! 6 AND 0x1f) OR (drop_bit 40 (values ! 7) AND 0x7)),
     38 := ucast (drop_bit 32 (values ! 7) AND 0xff),
     39 := ucast (drop_bit 24 (values ! 7) AND 0xff),
     40 := ucast (drop_bit 16 (values ! 7) AND 0xff),
     41 := ucast (drop_bit 8 (values ! 7) AND 0xff),
     42 := ucast (values ! 7 AND 0xff)]"

lemma pack_bits_43_fill:
  "pack_bits_43 v b = fill_to 43 (\<lambda>j. ucast (regroup 43 (nth v) (8 * j) 8)) b"
  unfolding pack_bits_43_def literal_pieces
  by (intro fill_step fill_zero) (simp add: regroup_eval; fail)+

definition pack_bits_44 :: "u64 list \<Rightarrow> u8 list \<Rightarrow> u8 list" where
  "pack_bits_44 values bytes = bytes
    [0 := ucast (drop_bit 36 (values ! 0) AND 0xff),
     1 := ucast (drop_bit 28 (values ! 0) AND 0xff),
     2 := ucast (drop_bit 20 (values ! 0) AND 0xff),
     3 := ucast (drop_bit 12 (values ! 0) AND 0xff),
     4 := ucast (drop_bit 4 (values ! 0) AND 0xff),
     5 := ucast (push_bit 4 (values ! 0 AND 0xf) OR (drop_bit 40 (values ! 1) AND 0xf)),
     6 := ucast (drop_bit 32 (values ! 1) AND 0xff),
     7 := ucast (drop_bit 24 (values ! 1) AND 0xff),
     8 := ucast (drop_bit 16 (values ! 1) AND 0xff),
     9 := ucast (drop_bit 8 (values ! 1) AND 0xff),
     10 := ucast (values ! 1 AND 0xff),
     11 := ucast (drop_bit 36 (values ! 2) AND 0xff),
     12 := ucast (drop_bit 28 (values ! 2) AND 0xff),
     13 := ucast (drop_bit 20 (values ! 2) AND 0xff),
     14 := ucast (drop_bit 12 (values ! 2) AND 0xff),
     15 := ucast (drop_bit 4 (values ! 2) AND 0xff),
     16 := ucast (push_bit 4 (values ! 2 AND 0xf) OR (drop_bit 40 (values ! 3) AND 0xf)),
     17 := ucast (drop_bit 32 (values ! 3) AND 0xff),
     18 := ucast (drop_bit 24 (values ! 3) AND 0xff),
     19 := ucast (drop_bit 16 (values ! 3) AND 0xff),
     20 := ucast (drop_bit 8 (values ! 3) AND 0xff),
     21 := ucast (values ! 3 AND 0xff),
     22 := ucast (drop_bit 36 (values ! 4) AND 0xff),
     23 := ucast (drop_bit 28 (values ! 4) AND 0xff),
     24 := ucast (drop_bit 20 (values ! 4) AND 0xff),
     25 := ucast (drop_bit 12 (values ! 4) AND 0xff),
     26 := ucast (drop_bit 4 (values ! 4) AND 0xff),
     27 := ucast (push_bit 4 (values ! 4 AND 0xf) OR (drop_bit 40 (values ! 5) AND 0xf)),
     28 := ucast (drop_bit 32 (values ! 5) AND 0xff),
     29 := ucast (drop_bit 24 (values ! 5) AND 0xff),
     30 := ucast (drop_bit 16 (values ! 5) AND 0xff),
     31 := ucast (drop_bit 8 (values ! 5) AND 0xff),
     32 := ucast (values ! 5 AND 0xff),
     33 := ucast (drop_bit 36 (values ! 6) AND 0xff),
     34 := ucast (drop_bit 28 (values ! 6) AND 0xff),
     35 := ucast (drop_bit 20 (values ! 6) AND 0xff),
     36 := ucast (drop_bit 12 (values ! 6) AND 0xff),
     37 := ucast (drop_bit 4 (values ! 6) AND 0xff),
     38 := ucast (push_bit 4 (values ! 6 AND 0xf) OR (drop_bit 40 (values ! 7) AND 0xf)),
     39 := ucast (drop_bit 32 (values ! 7) AND 0xff),
     40 := ucast (drop_bit 24 (values ! 7) AND 0xff),
     41 := ucast (drop_bit 16 (values ! 7) AND 0xff),
     42 := ucast (drop_bit 8 (values ! 7) AND 0xff),
     43 := ucast (values ! 7 AND 0xff)]"

lemma pack_bits_44_fill:
  "pack_bits_44 v b = fill_to 44 (\<lambda>j. ucast (regroup 44 (nth v) (8 * j) 8)) b"
  unfolding pack_bits_44_def literal_pieces
  by (intro fill_step fill_zero) (simp add: regroup_eval; fail)+

definition pack_bits_45 :: "u64 list \<Rightarrow> u8 list \<Rightarrow> u8 list" where
  "pack_bits_45 values bytes = bytes
    [0 := ucast (drop_bit 37 (values ! 0) AND 0xff),
     1 := ucast (drop_bit 29 (values ! 0) AND 0xff),
     2 := ucast (drop_bit 21 (values ! 0) AND 0xff),
     3 := ucast (drop_bit 13 (values ! 0) AND 0xff),
     4 := ucast (drop_bit 5 (values ! 0) AND 0xff),
     5 := ucast (push_bit 3 (values ! 0 AND 0x1f) OR (drop_bit 42 (values ! 1) AND 0x7)),
     6 := ucast (drop_bit 34 (values ! 1) AND 0xff),
     7 := ucast (drop_bit 26 (values ! 1) AND 0xff),
     8 := ucast (drop_bit 18 (values ! 1) AND 0xff),
     9 := ucast (drop_bit 10 (values ! 1) AND 0xff),
     10 := ucast (drop_bit 2 (values ! 1) AND 0xff),
     11 := ucast (push_bit 6 (values ! 1 AND 0x3) OR (drop_bit 39 (values ! 2) AND 0x3f)),
     12 := ucast (drop_bit 31 (values ! 2) AND 0xff),
     13 := ucast (drop_bit 23 (values ! 2) AND 0xff),
     14 := ucast (drop_bit 15 (values ! 2) AND 0xff),
     15 := ucast (drop_bit 7 (values ! 2) AND 0xff),
     16 := ucast (push_bit 1 (values ! 2 AND 0x7f) OR (drop_bit 44 (values ! 3) AND 0x1)),
     17 := ucast (drop_bit 36 (values ! 3) AND 0xff),
     18 := ucast (drop_bit 28 (values ! 3) AND 0xff),
     19 := ucast (drop_bit 20 (values ! 3) AND 0xff),
     20 := ucast (drop_bit 12 (values ! 3) AND 0xff),
     21 := ucast (drop_bit 4 (values ! 3) AND 0xff),
     22 := ucast (push_bit 4 (values ! 3 AND 0xf) OR (drop_bit 41 (values ! 4) AND 0xf)),
     23 := ucast (drop_bit 33 (values ! 4) AND 0xff),
     24 := ucast (drop_bit 25 (values ! 4) AND 0xff),
     25 := ucast (drop_bit 17 (values ! 4) AND 0xff),
     26 := ucast (drop_bit 9 (values ! 4) AND 0xff),
     27 := ucast (drop_bit 1 (values ! 4) AND 0xff),
     28 := ucast (push_bit 7 (values ! 4 AND 0x1) OR (drop_bit 38 (values ! 5) AND 0x7f)),
     29 := ucast (drop_bit 30 (values ! 5) AND 0xff),
     30 := ucast (drop_bit 22 (values ! 5) AND 0xff),
     31 := ucast (drop_bit 14 (values ! 5) AND 0xff),
     32 := ucast (drop_bit 6 (values ! 5) AND 0xff),
     33 := ucast (push_bit 2 (values ! 5 AND 0x3f) OR (drop_bit 43 (values ! 6) AND 0x3)),
     34 := ucast (drop_bit 35 (values ! 6) AND 0xff),
     35 := ucast (drop_bit 27 (values ! 6) AND 0xff),
     36 := ucast (drop_bit 19 (values ! 6) AND 0xff),
     37 := ucast (drop_bit 11 (values ! 6) AND 0xff),
     38 := ucast (drop_bit 3 (values ! 6) AND 0xff),
     39 := ucast (push_bit 5 (values ! 6 AND 0x7) OR (drop_bit 40 (values ! 7) AND 0x1f)),
     40 := ucast (drop_bit 32 (values ! 7) AND 0xff),
     41 := ucast (drop_bit 24 (values ! 7) AND 0xff),
     42 := ucast (drop_bit 16 (values ! 7) AND 0xff),
     43 := ucast (drop_bit 8 (values ! 7) AND 0xff),
     44 := ucast (values ! 7 AND 0xff)]"

lemma pack_bits_45_fill:
  "pack_bits_45 v b = fill_to 45 (\<lambda>j. ucast (regroup 45 (nth v) (8 * j) 8)) b"
  unfolding pack_bits_45_def literal_pieces
  by (intro fill_step fill_zero) (simp add: regroup_eval; fail)+

definition pack_bits_46 :: "u64 list \<Rightarrow> u8 list \<Rightarrow> u8 list" where
  "pack_bits_46 values bytes = bytes
    [0 := ucast (drop_bit 38 (values ! 0) AND 0xff),
     1 := ucast (drop_bit 30 (values ! 0) AND 0xff),
     2 := ucast (drop_bit 22 (values ! 0) AND 0xff),
     3 := ucast (drop_bit 14 (values ! 0) AND 0xff),
     4 := ucast (drop_bit 6 (values ! 0) AND 0xff),
     5 := ucast (push_bit 2 (values ! 0 AND 0x3f) OR (drop_bit 44 (values ! 1) AND 0x3)),
     6 := ucast (drop_bit 36 (values ! 1) AND 0xff),
     7 := ucast (drop_bit 28 (values ! 1) AND 0xff),
     8 := ucast (drop_bit 20 (values ! 1) AND 0xff),
     9 := ucast (drop_bit 12 (values ! 1) AND 0xff),
     10 := ucast (drop_bit 4 (values ! 1) AND 0xff),
     11 := ucast (push_bit 4 (values ! 1 AND 0xf) OR (drop_bit 42 (values ! 2) AND 0xf)),
     12 := ucast (drop_bit 34 (values ! 2) AND 0xff),
     13 := ucast (drop_bit 26 (values ! 2) AND 0xff),
     14 := ucast (drop_bit 18 (values ! 2) AND 0xff),
     15 := ucast (drop_bit 10 (values ! 2) AND 0xff),
     16 := ucast (drop_bit 2 (values ! 2) AND 0xff),
     17 := ucast (push_bit 6 (values ! 2 AND 0x3) OR (drop_bit 40 (values ! 3) AND 0x3f)),
     18 := ucast (drop_bit 32 (values ! 3) AND 0xff),
     19 := ucast (drop_bit 24 (values ! 3) AND 0xff),
     20 := ucast (drop_bit 16 (values ! 3) AND 0xff),
     21 := ucast (drop_bit 8 (values ! 3) AND 0xff),
     22 := ucast (values ! 3 AND 0xff),
     23 := ucast (drop_bit 38 (values ! 4) AND 0xff),
     24 := ucast (drop_bit 30 (values ! 4) AND 0xff),
     25 := ucast (drop_bit 22 (values ! 4) AND 0xff),
     26 := ucast (drop_bit 14 (values ! 4) AND 0xff),
     27 := ucast (drop_bit 6 (values ! 4) AND 0xff),
     28 := ucast (push_bit 2 (values ! 4 AND 0x3f) OR (drop_bit 44 (values ! 5) AND 0x3)),
     29 := ucast (drop_bit 36 (values ! 5) AND 0xff),
     30 := ucast (drop_bit 28 (values ! 5) AND 0xff),
     31 := ucast (drop_bit 20 (values ! 5) AND 0xff),
     32 := ucast (drop_bit 12 (values ! 5) AND 0xff),
     33 := ucast (drop_bit 4 (values ! 5) AND 0xff),
     34 := ucast (push_bit 4 (values ! 5 AND 0xf) OR (drop_bit 42 (values ! 6) AND 0xf)),
     35 := ucast (drop_bit 34 (values ! 6) AND 0xff),
     36 := ucast (drop_bit 26 (values ! 6) AND 0xff),
     37 := ucast (drop_bit 18 (values ! 6) AND 0xff),
     38 := ucast (drop_bit 10 (values ! 6) AND 0xff),
     39 := ucast (drop_bit 2 (values ! 6) AND 0xff),
     40 := ucast (push_bit 6 (values ! 6 AND 0x3) OR (drop_bit 40 (values ! 7) AND 0x3f)),
     41 := ucast (drop_bit 32 (values ! 7) AND 0xff),
     42 := ucast (drop_bit 24 (values ! 7) AND 0xff),
     43 := ucast (drop_bit 16 (values ! 7) AND 0xff),
     44 := ucast (drop_bit 8 (values ! 7) AND 0xff),
     45 := ucast (values ! 7 AND 0xff)]"

lemma pack_bits_46_fill:
  "pack_bits_46 v b = fill_to 46 (\<lambda>j. ucast (regroup 46 (nth v) (8 * j) 8)) b"
  unfolding pack_bits_46_def literal_pieces
  by (intro fill_step fill_zero) (simp add: regroup_eval; fail)+

definition pack_bits_47 :: "u64 list \<Rightarrow> u8 list \<Rightarrow> u8 list" where
  "pack_bits_47 values bytes = bytes
    [0 := ucast (drop_bit 39 (values ! 0) AND 0xff),
     1 := ucast (drop_bit 31 (values ! 0) AND 0xff),
     2 := ucast (drop_bit 23 (values ! 0) AND 0xff),
     3 := ucast (drop_bit 15 (values ! 0) AND 0xff),
     4 := ucast (drop_bit 7 (values ! 0) AND 0xff),
     5 := ucast (push_bit 1 (values ! 0 AND 0x7f) OR (drop_bit 46 (values ! 1) AND 0x1)),
     6 := ucast (drop_bit 38 (values ! 1) AND 0xff),
     7 := ucast (drop_bit 30 (values ! 1) AND 0xff),
     8 := ucast (drop_bit 22 (values ! 1) AND 0xff),
     9 := ucast (drop_bit 14 (values ! 1) AND 0xff),
     10 := ucast (drop_bit 6 (values ! 1) AND 0xff),
     11 := ucast (push_bit 2 (values ! 1 AND 0x3f) OR (drop_bit 45 (values ! 2) AND 0x3)),
     12 := ucast (drop_bit 37 (values ! 2) AND 0xff),
     13 := ucast (drop_bit 29 (values ! 2) AND 0xff),
     14 := ucast (drop_bit 21 (values ! 2) AND 0xff),
     15 := ucast (drop_bit 13 (values ! 2) AND 0xff),
     16 := ucast (drop_bit 5 (values ! 2) AND 0xff),
     17 := ucast (push_bit 3 (values ! 2 AND 0x1f) OR (drop_bit 44 (values ! 3) AND 0x7)),
     18 := ucast (drop_bit 36 (values ! 3) AND 0xff),
     19 := ucast (drop_bit 28 (values ! 3) AND 0xff),
     20 := ucast (drop_bit 20 (values ! 3) AND 0xff),
     21 := ucast (drop_bit 12 (values ! 3) AND 0xff),
     22 := ucast (drop_bit 4 (values ! 3) AND 0xff),
     23 := ucast (push_bit 4 (values ! 3 AND 0xf) OR (drop_bit 43 (values ! 4) AND 0xf)),
     24 := ucast (drop_bit 35 (values ! 4) AND 0xff),
     25 := ucast (drop_bit 27 (values ! 4) AND 0xff),
     26 := ucast (drop_bit 19 (values ! 4) AND 0xff),
     27 := ucast (drop_bit 11 (values ! 4) AND 0xff),
     28 := ucast (drop_bit 3 (values ! 4) AND 0xff),
     29 := ucast (push_bit 5 (values ! 4 AND 0x7) OR (drop_bit 42 (values ! 5) AND 0x1f)),
     30 := ucast (drop_bit 34 (values ! 5) AND 0xff),
     31 := ucast (drop_bit 26 (values ! 5) AND 0xff),
     32 := ucast (drop_bit 18 (values ! 5) AND 0xff),
     33 := ucast (drop_bit 10 (values ! 5) AND 0xff),
     34 := ucast (drop_bit 2 (values ! 5) AND 0xff),
     35 := ucast (push_bit 6 (values ! 5 AND 0x3) OR (drop_bit 41 (values ! 6) AND 0x3f)),
     36 := ucast (drop_bit 33 (values ! 6) AND 0xff),
     37 := ucast (drop_bit 25 (values ! 6) AND 0xff),
     38 := ucast (drop_bit 17 (values ! 6) AND 0xff),
     39 := ucast (drop_bit 9 (values ! 6) AND 0xff),
     40 := ucast (drop_bit 1 (values ! 6) AND 0xff),
     41 := ucast (push_bit 7 (values ! 6 AND 0x1) OR (drop_bit 40 (values ! 7) AND 0x7f)),
     42 := ucast (drop_bit 32 (values ! 7) AND 0xff),
     43 := ucast (drop_bit 24 (values ! 7) AND 0xff),
     44 := ucast (drop_bit 16 (values ! 7) AND 0xff),
     45 := ucast (drop_bit 8 (values ! 7) AND 0xff),
     46 := ucast (values ! 7 AND 0xff)]"

lemma pack_bits_47_fill:
  "pack_bits_47 v b = fill_to 47 (\<lambda>j. ucast (regroup 47 (nth v) (8 * j) 8)) b"
  unfolding pack_bits_47_def literal_pieces
  by (intro fill_step fill_zero) (simp add: regroup_eval; fail)+

definition pack_bits_48 :: "u64 list \<Rightarrow> u8 list \<Rightarrow> u8 list" where
  "pack_bits_48 values bytes = bytes
    [0 := ucast (drop_bit 40 (values ! 0) AND 0xff),
     1 := ucast (drop_bit 32 (values ! 0) AND 0xff),
     2 := ucast (drop_bit 24 (values ! 0) AND 0xff),
     3 := ucast (drop_bit 16 (values ! 0) AND 0xff),
     4 := ucast (drop_bit 8 (values ! 0) AND 0xff),
     5 := ucast (values ! 0 AND 0xff),
     6 := ucast (drop_bit 40 (values ! 1) AND 0xff),
     7 := ucast (drop_bit 32 (values ! 1) AND 0xff),
     8 := ucast (drop_bit 24 (values ! 1) AND 0xff),
     9 := ucast (drop_bit 16 (values ! 1) AND 0xff),
     10 := ucast (drop_bit 8 (values ! 1) AND 0xff),
     11 := ucast (values ! 1 AND 0xff),
     12 := ucast (drop_bit 40 (values ! 2) AND 0xff),
     13 := ucast (drop_bit 32 (values ! 2) AND 0xff),
     14 := ucast (drop_bit 24 (values ! 2) AND 0xff),
     15 := ucast (drop_bit 16 (values ! 2) AND 0xff),
     16 := ucast (drop_bit 8 (values ! 2) AND 0xff),
     17 := ucast (values ! 2 AND 0xff),
     18 := ucast (drop_bit 40 (values ! 3) AND 0xff),
     19 := ucast (drop_bit 32 (values ! 3) AND 0xff),
     20 := ucast (drop_bit 24 (values ! 3) AND 0xff),
     21 := ucast (drop_bit 16 (values ! 3) AND 0xff),
     22 := ucast (drop_bit 8 (values ! 3) AND 0xff),
     23 := ucast (values ! 3 AND 0xff),
     24 := ucast (drop_bit 40 (values ! 4) AND 0xff),
     25 := ucast (drop_bit 32 (values ! 4) AND 0xff),
     26 := ucast (drop_bit 24 (values ! 4) AND 0xff),
     27 := ucast (drop_bit 16 (values ! 4) AND 0xff),
     28 := ucast (drop_bit 8 (values ! 4) AND 0xff),
     29 := ucast (values ! 4 AND 0xff),
     30 := ucast (drop_bit 40 (values ! 5) AND 0xff),
     31 := ucast (drop_bit 32 (values ! 5) AND 0xff),
     32 := ucast (drop_bit 24 (values ! 5) AND 0xff),
     33 := ucast (drop_bit 16 (values ! 5) AND 0xff),
     34 := ucast (drop_bit 8 (values ! 5) AND 0xff),
     35 := ucast (values ! 5 AND 0xff),
     36 := ucast (drop_bit 40 (values ! 6) AND 0xff),
     37 := ucast (drop_bit 32 (values ! 6) AND 0xff),
     38 := ucast (drop_bit 24 (values ! 6) AND 0xff),
     39 := ucast (drop_bit 16 (values ! 6) AND 0xff),
     40 := ucast (drop_bit 8 (values ! 6) AND 0xff),
     41 := ucast (values ! 6 AND 0xff),
     42 := ucast (drop_bit 40 (values ! 7) AND 0xff),
     43 := ucast (drop_bit 32 (values ! 7) AND 0xff),
     44 := ucast (drop_bit 24 (values ! 7) AND 0xff),
     45 := ucast (drop_bit 16 (values ! 7) AND 0xff),
     46 := ucast (drop_bit 8 (values ! 7) AND 0xff),
     47 := ucast (values ! 7 AND 0xff)]"

lemma pack_bits_48_fill:
  "pack_bits_48 v b = fill_to 48 (\<lambda>j. ucast (regroup 48 (nth v) (8 * j) 8)) b"
  unfolding pack_bits_48_def literal_pieces
  by (intro fill_step fill_zero) (simp add: regroup_eval; fail)+

definition pack_bits_49 :: "u64 list \<Rightarrow> u8 list \<Rightarrow> u8 list" where
  "pack_bits_49 values bytes = bytes
    [0 := ucast (drop_bit 41 (values ! 0) AND 0xff),
     1 := ucast (drop_bit 33 (values ! 0) AND 0xff),
     2 := ucast (drop_bit 25 (values ! 0) AND 0xff),
     3 := ucast (drop_bit 17 (values ! 0) AND 0xff),
     4 := ucast (drop_bit 9 (values ! 0) AND 0xff),
     5 := ucast (drop_bit 1 (values ! 0) AND 0xff),
     6 := ucast (push_bit 7 (values ! 0 AND 0x1) OR (drop_bit 42 (values ! 1) AND 0x7f)),
     7 := ucast (drop_bit 34 (values ! 1) AND 0xff),
     8 := ucast (drop_bit 26 (values ! 1) AND 0xff),
     9 := ucast (drop_bit 18 (values ! 1) AND 0xff),
     10 := ucast (drop_bit 10 (values ! 1) AND 0xff),
     11 := ucast (drop_bit 2 (values ! 1) AND 0xff),
     12 := ucast (push_bit 6 (values ! 1 AND 0x3) OR (drop_bit 43 (values ! 2) AND 0x3f)),
     13 := ucast (drop_bit 35 (values ! 2) AND 0xff),
     14 := ucast (drop_bit 27 (values ! 2) AND 0xff),
     15 := ucast (drop_bit 19 (values ! 2) AND 0xff),
     16 := ucast (drop_bit 11 (values ! 2) AND 0xff),
     17 := ucast (drop_bit 3 (values ! 2) AND 0xff),
     18 := ucast (push_bit 5 (values ! 2 AND 0x7) OR (drop_bit 44 (values ! 3) AND 0x1f)),
     19 := ucast (drop_bit 36 (values ! 3) AND 0xff),
     20 := ucast (drop_bit 28 (values ! 3) AND 0xff),
     21 := ucast (drop_bit 20 (values ! 3) AND 0xff),
     22 := ucast (drop_bit 12 (values ! 3) AND 0xff),
     23 := ucast (drop_bit 4 (values ! 3) AND 0xff),
     24 := ucast (push_bit 4 (values ! 3 AND 0xf) OR (drop_bit 45 (values ! 4) AND 0xf)),
     25 := ucast (drop_bit 37 (values ! 4) AND 0xff),
     26 := ucast (drop_bit 29 (values ! 4) AND 0xff),
     27 := ucast (drop_bit 21 (values ! 4) AND 0xff),
     28 := ucast (drop_bit 13 (values ! 4) AND 0xff),
     29 := ucast (drop_bit 5 (values ! 4) AND 0xff),
     30 := ucast (push_bit 3 (values ! 4 AND 0x1f) OR (drop_bit 46 (values ! 5) AND 0x7)),
     31 := ucast (drop_bit 38 (values ! 5) AND 0xff),
     32 := ucast (drop_bit 30 (values ! 5) AND 0xff),
     33 := ucast (drop_bit 22 (values ! 5) AND 0xff),
     34 := ucast (drop_bit 14 (values ! 5) AND 0xff),
     35 := ucast (drop_bit 6 (values ! 5) AND 0xff),
     36 := ucast (push_bit 2 (values ! 5 AND 0x3f) OR (drop_bit 47 (values ! 6) AND 0x3)),
     37 := ucast (drop_bit 39 (values ! 6) AND 0xff),
     38 := ucast (drop_bit 31 (values ! 6) AND 0xff),
     39 := ucast (drop_bit 23 (values ! 6) AND 0xff),
     40 := ucast (drop_bit 15 (values ! 6) AND 0xff),
     41 := ucast (drop_bit 7 (values ! 6) AND 0xff),
     42 := ucast (push_bit 1 (values ! 6 AND 0x7f) OR (drop_bit 48 (values ! 7) AND 0x1)),
     43 := ucast (drop_bit 40 (values ! 7) AND 0xff),
     44 := ucast (drop_bit 32 (values ! 7) AND 0xff),
     45 := ucast (drop_bit 24 (values ! 7) AND 0xff),
     46 := ucast (drop_bit 16 (values ! 7) AND 0xff),
     47 := ucast (drop_bit 8 (values ! 7) AND 0xff),
     48 := ucast (values ! 7 AND 0xff)]"

lemma pack_bits_49_fill:
  "pack_bits_49 v b = fill_to 49 (\<lambda>j. ucast (regroup 49 (nth v) (8 * j) 8)) b"
  unfolding pack_bits_49_def literal_pieces
  by (intro fill_step fill_zero) (simp add: regroup_eval; fail)+

definition pack_bits_50 :: "u64 list \<Rightarrow> u8 list \<Rightarrow> u8 list" where
  "pack_bits_50 values bytes = bytes
    [0 := ucast (drop_bit 42 (values ! 0) AND 0xff),
     1 := ucast (drop_bit 34 (values ! 0) AND 0xff),
     2 := ucast (drop_bit 26 (values ! 0) AND 0xff),
     3 := ucast (drop_bit 18 (values ! 0) AND 0xff),
     4 := ucast (drop_bit 10 (values ! 0) AND 0xff),
     5 := ucast (drop_bit 2 (values ! 0) AND 0xff),
     6 := ucast (push_bit 6 (values ! 0 AND 0x3) OR (drop_bit 44 (values ! 1) AND 0x3f)),
     7 := ucast (drop_bit 36 (values ! 1) AND 0xff),
     8 := ucast (drop_bit 28 (values ! 1) AND 0xff),
     9 := ucast (drop_bit 20 (values ! 1) AND 0xff),
     10 := ucast (drop_bit 12 (values ! 1) AND 0xff),
     11 := ucast (drop_bit 4 (values ! 1) AND 0xff),
     12 := ucast (push_bit 4 (values ! 1 AND 0xf) OR (drop_bit 46 (values ! 2) AND 0xf)),
     13 := ucast (drop_bit 38 (values ! 2) AND 0xff),
     14 := ucast (drop_bit 30 (values ! 2) AND 0xff),
     15 := ucast (drop_bit 22 (values ! 2) AND 0xff),
     16 := ucast (drop_bit 14 (values ! 2) AND 0xff),
     17 := ucast (drop_bit 6 (values ! 2) AND 0xff),
     18 := ucast (push_bit 2 (values ! 2 AND 0x3f) OR (drop_bit 48 (values ! 3) AND 0x3)),
     19 := ucast (drop_bit 40 (values ! 3) AND 0xff),
     20 := ucast (drop_bit 32 (values ! 3) AND 0xff),
     21 := ucast (drop_bit 24 (values ! 3) AND 0xff),
     22 := ucast (drop_bit 16 (values ! 3) AND 0xff),
     23 := ucast (drop_bit 8 (values ! 3) AND 0xff),
     24 := ucast (values ! 3 AND 0xff),
     25 := ucast (drop_bit 42 (values ! 4) AND 0xff),
     26 := ucast (drop_bit 34 (values ! 4) AND 0xff),
     27 := ucast (drop_bit 26 (values ! 4) AND 0xff),
     28 := ucast (drop_bit 18 (values ! 4) AND 0xff),
     29 := ucast (drop_bit 10 (values ! 4) AND 0xff),
     30 := ucast (drop_bit 2 (values ! 4) AND 0xff),
     31 := ucast (push_bit 6 (values ! 4 AND 0x3) OR (drop_bit 44 (values ! 5) AND 0x3f)),
     32 := ucast (drop_bit 36 (values ! 5) AND 0xff),
     33 := ucast (drop_bit 28 (values ! 5) AND 0xff),
     34 := ucast (drop_bit 20 (values ! 5) AND 0xff),
     35 := ucast (drop_bit 12 (values ! 5) AND 0xff),
     36 := ucast (drop_bit 4 (values ! 5) AND 0xff),
     37 := ucast (push_bit 4 (values ! 5 AND 0xf) OR (drop_bit 46 (values ! 6) AND 0xf)),
     38 := ucast (drop_bit 38 (values ! 6) AND 0xff),
     39 := ucast (drop_bit 30 (values ! 6) AND 0xff),
     40 := ucast (drop_bit 22 (values ! 6) AND 0xff),
     41 := ucast (drop_bit 14 (values ! 6) AND 0xff),
     42 := ucast (drop_bit 6 (values ! 6) AND 0xff),
     43 := ucast (push_bit 2 (values ! 6 AND 0x3f) OR (drop_bit 48 (values ! 7) AND 0x3)),
     44 := ucast (drop_bit 40 (values ! 7) AND 0xff),
     45 := ucast (drop_bit 32 (values ! 7) AND 0xff),
     46 := ucast (drop_bit 24 (values ! 7) AND 0xff),
     47 := ucast (drop_bit 16 (values ! 7) AND 0xff),
     48 := ucast (drop_bit 8 (values ! 7) AND 0xff),
     49 := ucast (values ! 7 AND 0xff)]"

lemma pack_bits_50_fill:
  "pack_bits_50 v b = fill_to 50 (\<lambda>j. ucast (regroup 50 (nth v) (8 * j) 8)) b"
  unfolding pack_bits_50_def literal_pieces
  by (intro fill_step fill_zero) (simp add: regroup_eval; fail)+

definition pack_bits_51 :: "u64 list \<Rightarrow> u8 list \<Rightarrow> u8 list" where
  "pack_bits_51 values bytes = bytes
    [0 := ucast (drop_bit 43 (values ! 0) AND 0xff),
     1 := ucast (drop_bit 35 (values ! 0) AND 0xff),
     2 := ucast (drop_bit 27 (values ! 0) AND 0xff),
     3 := ucast (drop_bit 19 (values ! 0) AND 0xff),
     4 := ucast (drop_bit 11 (values ! 0) AND 0xff),
     5 := ucast (drop_bit 3 (values ! 0) AND 0xff),
     6 := ucast (push_bit 5 (values ! 0 AND 0x7) OR (drop_bit 46 (values ! 1) AND 0x1f)),
     7 := ucast (drop_bit 38 (values ! 1) AND 0xff),
     8 := ucast (drop_bit 30 (values ! 1) AND 0xff),
     9 := ucast (drop_bit 22 (values ! 1) AND 0xff),
     10 := ucast (drop_bit 14 (values ! 1) AND 0xff),
     11 := ucast (drop_bit 6 (values ! 1) AND 0xff),
     12 := ucast (push_bit 2 (values ! 1 AND 0x3f) OR (drop_bit 49 (values ! 2) AND 0x3)),
     13 := ucast (drop_bit 41 (values ! 2) AND 0xff),
     14 := ucast (drop_bit 33 (values ! 2) AND 0xff),
     15 := ucast (drop_bit 25 (values ! 2) AND 0xff),
     16 := ucast (drop_bit 17 (values ! 2) AND 0xff),
     17 := ucast (drop_bit 9 (values ! 2) AND 0xff),
     18 := ucast (drop_bit 1 (values ! 2) AND 0xff),
     19 := ucast (push_bit 7 (values ! 2 AND 0x1) OR (drop_bit 44 (values ! 3) AND 0x7f)),
     20 := ucast (drop_bit 36 (values ! 3) AND 0xff),
     21 := ucast (drop_bit 28 (values ! 3) AND 0xff),
     22 := ucast (drop_bit 20 (values ! 3) AND 0xff),
     23 := ucast (drop_bit 12 (values ! 3) AND 0xff),
     24 := ucast (drop_bit 4 (values ! 3) AND 0xff),
     25 := ucast (push_bit 4 (values ! 3 AND 0xf) OR (drop_bit 47 (values ! 4) AND 0xf)),
     26 := ucast (drop_bit 39 (values ! 4) AND 0xff),
     27 := ucast (drop_bit 31 (values ! 4) AND 0xff),
     28 := ucast (drop_bit 23 (values ! 4) AND 0xff),
     29 := ucast (drop_bit 15 (values ! 4) AND 0xff),
     30 := ucast (drop_bit 7 (values ! 4) AND 0xff),
     31 := ucast (push_bit 1 (values ! 4 AND 0x7f) OR (drop_bit 50 (values ! 5) AND 0x1)),
     32 := ucast (drop_bit 42 (values ! 5) AND 0xff),
     33 := ucast (drop_bit 34 (values ! 5) AND 0xff),
     34 := ucast (drop_bit 26 (values ! 5) AND 0xff),
     35 := ucast (drop_bit 18 (values ! 5) AND 0xff),
     36 := ucast (drop_bit 10 (values ! 5) AND 0xff),
     37 := ucast (drop_bit 2 (values ! 5) AND 0xff),
     38 := ucast (push_bit 6 (values ! 5 AND 0x3) OR (drop_bit 45 (values ! 6) AND 0x3f)),
     39 := ucast (drop_bit 37 (values ! 6) AND 0xff),
     40 := ucast (drop_bit 29 (values ! 6) AND 0xff),
     41 := ucast (drop_bit 21 (values ! 6) AND 0xff),
     42 := ucast (drop_bit 13 (values ! 6) AND 0xff),
     43 := ucast (drop_bit 5 (values ! 6) AND 0xff),
     44 := ucast (push_bit 3 (values ! 6 AND 0x1f) OR (drop_bit 48 (values ! 7) AND 0x7)),
     45 := ucast (drop_bit 40 (values ! 7) AND 0xff),
     46 := ucast (drop_bit 32 (values ! 7) AND 0xff),
     47 := ucast (drop_bit 24 (values ! 7) AND 0xff),
     48 := ucast (drop_bit 16 (values ! 7) AND 0xff),
     49 := ucast (drop_bit 8 (values ! 7) AND 0xff),
     50 := ucast (values ! 7 AND 0xff)]"

lemma pack_bits_51_fill:
  "pack_bits_51 v b = fill_to 51 (\<lambda>j. ucast (regroup 51 (nth v) (8 * j) 8)) b"
  unfolding pack_bits_51_def literal_pieces
  by (intro fill_step fill_zero) (simp add: regroup_eval; fail)+

definition pack_bits_52 :: "u64 list \<Rightarrow> u8 list \<Rightarrow> u8 list" where
  "pack_bits_52 values bytes = bytes
    [0 := ucast (drop_bit 44 (values ! 0) AND 0xff),
     1 := ucast (drop_bit 36 (values ! 0) AND 0xff),
     2 := ucast (drop_bit 28 (values ! 0) AND 0xff),
     3 := ucast (drop_bit 20 (values ! 0) AND 0xff),
     4 := ucast (drop_bit 12 (values ! 0) AND 0xff),
     5 := ucast (drop_bit 4 (values ! 0) AND 0xff),
     6 := ucast (push_bit 4 (values ! 0 AND 0xf) OR (drop_bit 48 (values ! 1) AND 0xf)),
     7 := ucast (drop_bit 40 (values ! 1) AND 0xff),
     8 := ucast (drop_bit 32 (values ! 1) AND 0xff),
     9 := ucast (drop_bit 24 (values ! 1) AND 0xff),
     10 := ucast (drop_bit 16 (values ! 1) AND 0xff),
     11 := ucast (drop_bit 8 (values ! 1) AND 0xff),
     12 := ucast (values ! 1 AND 0xff),
     13 := ucast (drop_bit 44 (values ! 2) AND 0xff),
     14 := ucast (drop_bit 36 (values ! 2) AND 0xff),
     15 := ucast (drop_bit 28 (values ! 2) AND 0xff),
     16 := ucast (drop_bit 20 (values ! 2) AND 0xff),
     17 := ucast (drop_bit 12 (values ! 2) AND 0xff),
     18 := ucast (drop_bit 4 (values ! 2) AND 0xff),
     19 := ucast (push_bit 4 (values ! 2 AND 0xf) OR (drop_bit 48 (values ! 3) AND 0xf)),
     20 := ucast (drop_bit 40 (values ! 3) AND 0xff),
     21 := ucast (drop_bit 32 (values ! 3) AND 0xff),
     22 := ucast (drop_bit 24 (values ! 3) AND 0xff),
     23 := ucast (drop_bit 16 (values ! 3) AND 0xff),
     24 := ucast (drop_bit 8 (values ! 3) AND 0xff),
     25 := ucast (values ! 3 AND 0xff),
     26 := ucast (drop_bit 44 (values ! 4) AND 0xff),
     27 := ucast (drop_bit 36 (values ! 4) AND 0xff),
     28 := ucast (drop_bit 28 (values ! 4) AND 0xff),
     29 := ucast (drop_bit 20 (values ! 4) AND 0xff),
     30 := ucast (drop_bit 12 (values ! 4) AND 0xff),
     31 := ucast (drop_bit 4 (values ! 4) AND 0xff),
     32 := ucast (push_bit 4 (values ! 4 AND 0xf) OR (drop_bit 48 (values ! 5) AND 0xf)),
     33 := ucast (drop_bit 40 (values ! 5) AND 0xff),
     34 := ucast (drop_bit 32 (values ! 5) AND 0xff),
     35 := ucast (drop_bit 24 (values ! 5) AND 0xff),
     36 := ucast (drop_bit 16 (values ! 5) AND 0xff),
     37 := ucast (drop_bit 8 (values ! 5) AND 0xff),
     38 := ucast (values ! 5 AND 0xff),
     39 := ucast (drop_bit 44 (values ! 6) AND 0xff),
     40 := ucast (drop_bit 36 (values ! 6) AND 0xff),
     41 := ucast (drop_bit 28 (values ! 6) AND 0xff),
     42 := ucast (drop_bit 20 (values ! 6) AND 0xff),
     43 := ucast (drop_bit 12 (values ! 6) AND 0xff),
     44 := ucast (drop_bit 4 (values ! 6) AND 0xff),
     45 := ucast (push_bit 4 (values ! 6 AND 0xf) OR (drop_bit 48 (values ! 7) AND 0xf)),
     46 := ucast (drop_bit 40 (values ! 7) AND 0xff),
     47 := ucast (drop_bit 32 (values ! 7) AND 0xff),
     48 := ucast (drop_bit 24 (values ! 7) AND 0xff),
     49 := ucast (drop_bit 16 (values ! 7) AND 0xff),
     50 := ucast (drop_bit 8 (values ! 7) AND 0xff),
     51 := ucast (values ! 7 AND 0xff)]"

lemma pack_bits_52_fill:
  "pack_bits_52 v b = fill_to 52 (\<lambda>j. ucast (regroup 52 (nth v) (8 * j) 8)) b"
  unfolding pack_bits_52_def literal_pieces
  by (intro fill_step fill_zero) (simp add: regroup_eval; fail)+

definition pack_bits_53 :: "u64 list \<Rightarrow> u8 list \<Rightarrow> u8 list" where
  "pack_bits_53 values bytes = bytes
    [0 := ucast (drop_bit 45 (values ! 0) AND 0xff),
     1 := ucast (drop_bit 37 (values ! 0) AND 0xff),
     2 := ucast (drop_bit 29 (values ! 0) AND 0xff),
     3 := ucast (drop_bit 21 (values ! 0) AND 0xff),
     4 := ucast (drop_bit 13 (values ! 0) AND 0xff),
     5 := ucast (drop_bit 5 (values ! 0) AND 0xff),
     6 := ucast (push_bit 3 (values ! 0 AND 0x1f) OR (drop_bit 50 (values ! 1) AND 0x7)),
     7 := ucast (drop_bit 42 (values ! 1) AND 0xff),
     8 := ucast (drop_bit 34 (values ! 1) AND 0xff),
     9 := ucast (drop_bit 26 (values ! 1) AND 0xff),
     10 := ucast (drop_bit 18 (values ! 1) AND 0xff),
     11 := ucast (drop_bit 10 (values ! 1) AND 0xff),
     12 := ucast (drop_bit 2 (values ! 1) AND 0xff),
     13 := ucast (push_bit 6 (values ! 1 AND 0x3) OR (drop_bit 47 (values ! 2) AND 0x3f)),
     14 := ucast (drop_bit 39 (values ! 2) AND 0xff),
     15 := ucast (drop_bit 31 (values ! 2) AND 0xff),
     16 := ucast (drop_bit 23 (values ! 2) AND 0xff),
     17 := ucast (drop_bit 15 (values ! 2) AND 0xff),
     18 := ucast (drop_bit 7 (values ! 2) AND 0xff),
     19 := ucast (push_bit 1 (values ! 2 AND 0x7f) OR (drop_bit 52 (values ! 3) AND 0x1)),
     20 := ucast (drop_bit 44 (values ! 3) AND 0xff),
     21 := ucast (drop_bit 36 (values ! 3) AND 0xff),
     22 := ucast (drop_bit 28 (values ! 3) AND 0xff),
     23 := ucast (drop_bit 20 (values ! 3) AND 0xff),
     24 := ucast (drop_bit 12 (values ! 3) AND 0xff),
     25 := ucast (drop_bit 4 (values ! 3) AND 0xff),
     26 := ucast (push_bit 4 (values ! 3 AND 0xf) OR (drop_bit 49 (values ! 4) AND 0xf)),
     27 := ucast (drop_bit 41 (values ! 4) AND 0xff),
     28 := ucast (drop_bit 33 (values ! 4) AND 0xff),
     29 := ucast (drop_bit 25 (values ! 4) AND 0xff),
     30 := ucast (drop_bit 17 (values ! 4) AND 0xff),
     31 := ucast (drop_bit 9 (values ! 4) AND 0xff),
     32 := ucast (drop_bit 1 (values ! 4) AND 0xff),
     33 := ucast (push_bit 7 (values ! 4 AND 0x1) OR (drop_bit 46 (values ! 5) AND 0x7f)),
     34 := ucast (drop_bit 38 (values ! 5) AND 0xff),
     35 := ucast (drop_bit 30 (values ! 5) AND 0xff),
     36 := ucast (drop_bit 22 (values ! 5) AND 0xff),
     37 := ucast (drop_bit 14 (values ! 5) AND 0xff),
     38 := ucast (drop_bit 6 (values ! 5) AND 0xff),
     39 := ucast (push_bit 2 (values ! 5 AND 0x3f) OR (drop_bit 51 (values ! 6) AND 0x3)),
     40 := ucast (drop_bit 43 (values ! 6) AND 0xff),
     41 := ucast (drop_bit 35 (values ! 6) AND 0xff),
     42 := ucast (drop_bit 27 (values ! 6) AND 0xff),
     43 := ucast (drop_bit 19 (values ! 6) AND 0xff),
     44 := ucast (drop_bit 11 (values ! 6) AND 0xff),
     45 := ucast (drop_bit 3 (values ! 6) AND 0xff),
     46 := ucast (push_bit 5 (values ! 6 AND 0x7) OR (drop_bit 48 (values ! 7) AND 0x1f)),
     47 := ucast (drop_bit 40 (values ! 7) AND 0xff),
     48 := ucast (drop_bit 32 (values ! 7) AND 0xff),
     49 := ucast (drop_bit 24 (values ! 7) AND 0xff),
     50 := ucast (drop_bit 16 (values ! 7) AND 0xff),
     51 := ucast (drop_bit 8 (values ! 7) AND 0xff),
     52 := ucast (values ! 7 AND 0xff)]"

lemma pack_bits_53_fill:
  "pack_bits_53 v b = fill_to 53 (\<lambda>j. ucast (regroup 53 (nth v) (8 * j) 8)) b"
  unfolding pack_bits_53_def literal_pieces
  by (intro fill_step fill_zero) (simp add: regroup_eval; fail)+

definition pack_bits_54 :: "u64 list \<Rightarrow> u8 list \<Rightarrow> u8 list" where
  "pack_bits_54 values bytes = bytes
    [0 := ucast (drop_bit 46 (values ! 0) AND 0xff),
     1 := ucast (drop_bit 38 (values ! 0) AND 0xff),
     2 := ucast (drop_bit 30 (values ! 0) AND 0xff),
     3 := ucast (drop_bit 22 (values ! 0) AND 0xff),
     4 := ucast (drop_bit 14 (values ! 0) AND 0xff),
     5 := ucast (drop_bit 6 (values ! 0) AND 0xff),
     6 := ucast (push_bit 2 (values ! 0 AND 0x3f) OR (drop_bit 52 (values ! 1) AND 0x3)),
     7 := ucast (drop_bit 44 (values ! 1) AND 0xff),
     8 := ucast (drop_bit 36 (values ! 1) AND 0xff),
     9 := ucast (drop_bit 28 (values ! 1) AND 0xff),
     10 := ucast (drop_bit 20 (values ! 1) AND 0xff),
     11 := ucast (drop_bit 12 (values ! 1) AND 0xff),
     12 := ucast (drop_bit 4 (values ! 1) AND 0xff),
     13 := ucast (push_bit 4 (values ! 1 AND 0xf) OR (drop_bit 50 (values ! 2) AND 0xf)),
     14 := ucast (drop_bit 42 (values ! 2) AND 0xff),
     15 := ucast (drop_bit 34 (values ! 2) AND 0xff),
     16 := ucast (drop_bit 26 (values ! 2) AND 0xff),
     17 := ucast (drop_bit 18 (values ! 2) AND 0xff),
     18 := ucast (drop_bit 10 (values ! 2) AND 0xff),
     19 := ucast (drop_bit 2 (values ! 2) AND 0xff),
     20 := ucast (push_bit 6 (values ! 2 AND 0x3) OR (drop_bit 48 (values ! 3) AND 0x3f)),
     21 := ucast (drop_bit 40 (values ! 3) AND 0xff),
     22 := ucast (drop_bit 32 (values ! 3) AND 0xff),
     23 := ucast (drop_bit 24 (values ! 3) AND 0xff),
     24 := ucast (drop_bit 16 (values ! 3) AND 0xff),
     25 := ucast (drop_bit 8 (values ! 3) AND 0xff),
     26 := ucast (values ! 3 AND 0xff),
     27 := ucast (drop_bit 46 (values ! 4) AND 0xff),
     28 := ucast (drop_bit 38 (values ! 4) AND 0xff),
     29 := ucast (drop_bit 30 (values ! 4) AND 0xff),
     30 := ucast (drop_bit 22 (values ! 4) AND 0xff),
     31 := ucast (drop_bit 14 (values ! 4) AND 0xff),
     32 := ucast (drop_bit 6 (values ! 4) AND 0xff),
     33 := ucast (push_bit 2 (values ! 4 AND 0x3f) OR (drop_bit 52 (values ! 5) AND 0x3)),
     34 := ucast (drop_bit 44 (values ! 5) AND 0xff),
     35 := ucast (drop_bit 36 (values ! 5) AND 0xff),
     36 := ucast (drop_bit 28 (values ! 5) AND 0xff),
     37 := ucast (drop_bit 20 (values ! 5) AND 0xff),
     38 := ucast (drop_bit 12 (values ! 5) AND 0xff),
     39 := ucast (drop_bit 4 (values ! 5) AND 0xff),
     40 := ucast (push_bit 4 (values ! 5 AND 0xf) OR (drop_bit 50 (values ! 6) AND 0xf)),
     41 := ucast (drop_bit 42 (values ! 6) AND 0xff),
     42 := ucast (drop_bit 34 (values ! 6) AND 0xff),
     43 := ucast (drop_bit 26 (values ! 6) AND 0xff),
     44 := ucast (drop_bit 18 (values ! 6) AND 0xff),
     45 := ucast (drop_bit 10 (values ! 6) AND 0xff),
     46 := ucast (drop_bit 2 (values ! 6) AND 0xff),
     47 := ucast (push_bit 6 (values ! 6 AND 0x3) OR (drop_bit 48 (values ! 7) AND 0x3f)),
     48 := ucast (drop_bit 40 (values ! 7) AND 0xff),
     49 := ucast (drop_bit 32 (values ! 7) AND 0xff),
     50 := ucast (drop_bit 24 (values ! 7) AND 0xff),
     51 := ucast (drop_bit 16 (values ! 7) AND 0xff),
     52 := ucast (drop_bit 8 (values ! 7) AND 0xff),
     53 := ucast (values ! 7 AND 0xff)]"

lemma pack_bits_54_fill:
  "pack_bits_54 v b = fill_to 54 (\<lambda>j. ucast (regroup 54 (nth v) (8 * j) 8)) b"
  unfolding pack_bits_54_def literal_pieces
  by (intro fill_step fill_zero) (simp add: regroup_eval; fail)+

definition pack_bits_55 :: "u64 list \<Rightarrow> u8 list \<Rightarrow> u8 list" where
  "pack_bits_55 values bytes = bytes
    [0 := ucast (drop_bit 47 (values ! 0) AND 0xff),
     1 := ucast (drop_bit 39 (values ! 0) AND 0xff),
     2 := ucast (drop_bit 31 (values ! 0) AND 0xff),
     3 := ucast (drop_bit 23 (values ! 0) AND 0xff),
     4 := ucast (drop_bit 15 (values ! 0) AND 0xff),
     5 := ucast (drop_bit 7 (values ! 0) AND 0xff),
     6 := ucast (push_bit 1 (values ! 0 AND 0x7f) OR (drop_bit 54 (values ! 1) AND 0x1)),
     7 := ucast (drop_bit 46 (values ! 1) AND 0xff),
     8 := ucast (drop_bit 38 (values ! 1) AND 0xff),
     9 := ucast (drop_bit 30 (values ! 1) AND 0xff),
     10 := ucast (drop_bit 22 (values ! 1) AND 0xff),
     11 := ucast (drop_bit 14 (values ! 1) AND 0xff),
     12 := ucast (drop_bit 6 (values ! 1) AND 0xff),
     13 := ucast (push_bit 2 (values ! 1 AND 0x3f) OR (drop_bit 53 (values ! 2) AND 0x3)),
     14 := ucast (drop_bit 45 (values ! 2) AND 0xff),
     15 := ucast (drop_bit 37 (values ! 2) AND 0xff),
     16 := ucast (drop_bit 29 (values ! 2) AND 0xff),
     17 := ucast (drop_bit 21 (values ! 2) AND 0xff),
     18 := ucast (drop_bit 13 (values ! 2) AND 0xff),
     19 := ucast (drop_bit 5 (values ! 2) AND 0xff),
     20 := ucast (push_bit 3 (values ! 2 AND 0x1f) OR (drop_bit 52 (values ! 3) AND 0x7)),
     21 := ucast (drop_bit 44 (values ! 3) AND 0xff),
     22 := ucast (drop_bit 36 (values ! 3) AND 0xff),
     23 := ucast (drop_bit 28 (values ! 3) AND 0xff),
     24 := ucast (drop_bit 20 (values ! 3) AND 0xff),
     25 := ucast (drop_bit 12 (values ! 3) AND 0xff),
     26 := ucast (drop_bit 4 (values ! 3) AND 0xff),
     27 := ucast (push_bit 4 (values ! 3 AND 0xf) OR (drop_bit 51 (values ! 4) AND 0xf)),
     28 := ucast (drop_bit 43 (values ! 4) AND 0xff),
     29 := ucast (drop_bit 35 (values ! 4) AND 0xff),
     30 := ucast (drop_bit 27 (values ! 4) AND 0xff),
     31 := ucast (drop_bit 19 (values ! 4) AND 0xff),
     32 := ucast (drop_bit 11 (values ! 4) AND 0xff),
     33 := ucast (drop_bit 3 (values ! 4) AND 0xff),
     34 := ucast (push_bit 5 (values ! 4 AND 0x7) OR (drop_bit 50 (values ! 5) AND 0x1f)),
     35 := ucast (drop_bit 42 (values ! 5) AND 0xff),
     36 := ucast (drop_bit 34 (values ! 5) AND 0xff),
     37 := ucast (drop_bit 26 (values ! 5) AND 0xff),
     38 := ucast (drop_bit 18 (values ! 5) AND 0xff),
     39 := ucast (drop_bit 10 (values ! 5) AND 0xff),
     40 := ucast (drop_bit 2 (values ! 5) AND 0xff),
     41 := ucast (push_bit 6 (values ! 5 AND 0x3) OR (drop_bit 49 (values ! 6) AND 0x3f)),
     42 := ucast (drop_bit 41 (values ! 6) AND 0xff),
     43 := ucast (drop_bit 33 (values ! 6) AND 0xff),
     44 := ucast (drop_bit 25 (values ! 6) AND 0xff),
     45 := ucast (drop_bit 17 (values ! 6) AND 0xff),
     46 := ucast (drop_bit 9 (values ! 6) AND 0xff),
     47 := ucast (drop_bit 1 (values ! 6) AND 0xff),
     48 := ucast (push_bit 7 (values ! 6 AND 0x1) OR (drop_bit 48 (values ! 7) AND 0x7f)),
     49 := ucast (drop_bit 40 (values ! 7) AND 0xff),
     50 := ucast (drop_bit 32 (values ! 7) AND 0xff),
     51 := ucast (drop_bit 24 (values ! 7) AND 0xff),
     52 := ucast (drop_bit 16 (values ! 7) AND 0xff),
     53 := ucast (drop_bit 8 (values ! 7) AND 0xff),
     54 := ucast (values ! 7 AND 0xff)]"

lemma pack_bits_55_fill:
  "pack_bits_55 v b = fill_to 55 (\<lambda>j. ucast (regroup 55 (nth v) (8 * j) 8)) b"
  unfolding pack_bits_55_def literal_pieces
  by (intro fill_step fill_zero) (simp add: regroup_eval; fail)+

definition pack_bits_56 :: "u64 list \<Rightarrow> u8 list \<Rightarrow> u8 list" where
  "pack_bits_56 values bytes = bytes
    [0 := ucast (drop_bit 48 (values ! 0) AND 0xff),
     1 := ucast (drop_bit 40 (values ! 0) AND 0xff),
     2 := ucast (drop_bit 32 (values ! 0) AND 0xff),
     3 := ucast (drop_bit 24 (values ! 0) AND 0xff),
     4 := ucast (drop_bit 16 (values ! 0) AND 0xff),
     5 := ucast (drop_bit 8 (values ! 0) AND 0xff),
     6 := ucast (values ! 0 AND 0xff),
     7 := ucast (drop_bit 48 (values ! 1) AND 0xff),
     8 := ucast (drop_bit 40 (values ! 1) AND 0xff),
     9 := ucast (drop_bit 32 (values ! 1) AND 0xff),
     10 := ucast (drop_bit 24 (values ! 1) AND 0xff),
     11 := ucast (drop_bit 16 (values ! 1) AND 0xff),
     12 := ucast (drop_bit 8 (values ! 1) AND 0xff),
     13 := ucast (values ! 1 AND 0xff),
     14 := ucast (drop_bit 48 (values ! 2) AND 0xff),
     15 := ucast (drop_bit 40 (values ! 2) AND 0xff),
     16 := ucast (drop_bit 32 (values ! 2) AND 0xff),
     17 := ucast (drop_bit 24 (values ! 2) AND 0xff),
     18 := ucast (drop_bit 16 (values ! 2) AND 0xff),
     19 := ucast (drop_bit 8 (values ! 2) AND 0xff),
     20 := ucast (values ! 2 AND 0xff),
     21 := ucast (drop_bit 48 (values ! 3) AND 0xff),
     22 := ucast (drop_bit 40 (values ! 3) AND 0xff),
     23 := ucast (drop_bit 32 (values ! 3) AND 0xff),
     24 := ucast (drop_bit 24 (values ! 3) AND 0xff),
     25 := ucast (drop_bit 16 (values ! 3) AND 0xff),
     26 := ucast (drop_bit 8 (values ! 3) AND 0xff),
     27 := ucast (values ! 3 AND 0xff),
     28 := ucast (drop_bit 48 (values ! 4) AND 0xff),
     29 := ucast (drop_bit 40 (values ! 4) AND 0xff),
     30 := ucast (drop_bit 32 (values ! 4) AND 0xff),
     31 := ucast (drop_bit 24 (values ! 4) AND 0xff),
     32 := ucast (drop_bit 16 (values ! 4) AND 0xff),
     33 := ucast (drop_bit 8 (values ! 4) AND 0xff),
     34 := ucast (values ! 4 AND 0xff),
     35 := ucast (drop_bit 48 (values ! 5) AND 0xff),
     36 := ucast (drop_bit 40 (values ! 5) AND 0xff),
     37 := ucast (drop_bit 32 (values ! 5) AND 0xff),
     38 := ucast (drop_bit 24 (values ! 5) AND 0xff),
     39 := ucast (drop_bit 16 (values ! 5) AND 0xff),
     40 := ucast (drop_bit 8 (values ! 5) AND 0xff),
     41 := ucast (values ! 5 AND 0xff),
     42 := ucast (drop_bit 48 (values ! 6) AND 0xff),
     43 := ucast (drop_bit 40 (values ! 6) AND 0xff),
     44 := ucast (drop_bit 32 (values ! 6) AND 0xff),
     45 := ucast (drop_bit 24 (values ! 6) AND 0xff),
     46 := ucast (drop_bit 16 (values ! 6) AND 0xff),
     47 := ucast (drop_bit 8 (values ! 6) AND 0xff),
     48 := ucast (values ! 6 AND 0xff),
     49 := ucast (drop_bit 48 (values ! 7) AND 0xff),
     50 := ucast (drop_bit 40 (values ! 7) AND 0xff),
     51 := ucast (drop_bit 32 (values ! 7) AND 0xff),
     52 := ucast (drop_bit 24 (values ! 7) AND 0xff),
     53 := ucast (drop_bit 16 (values ! 7) AND 0xff),
     54 := ucast (drop_bit 8 (values ! 7) AND 0xff),
     55 := ucast (values ! 7 AND 0xff)]"

lemma pack_bits_56_fill:
  "pack_bits_56 v b = fill_to 56 (\<lambda>j. ucast (regroup 56 (nth v) (8 * j) 8)) b"
  unfolding pack_bits_56_def literal_pieces
  by (intro fill_step fill_zero) (simp add: regroup_eval; fail)+

definition pack_bits_57 :: "u64 list \<Rightarrow> u8 list \<Rightarrow> u8 list" where
  "pack_bits_57 values bytes = bytes
    [0 := ucast (drop_bit 49 (values ! 0) AND 0xff),
     1 := ucast (drop_bit 41 (values ! 0) AND 0xff),
     2 := ucast (drop_bit 33 (values ! 0) AND 0xff),
     3 := ucast (drop_bit 25 (values ! 0) AND 0xff),
     4 := ucast (drop_bit 17 (values ! 0) AND 0xff),
     5 := ucast (drop_bit 9 (values ! 0) AND 0xff),
     6 := ucast (drop_bit 1 (values ! 0) AND 0xff),
     7 := ucast (push_bit 7 (values ! 0 AND 0x1) OR (drop_bit 50 (values ! 1) AND 0x7f)),
     8 := ucast (drop_bit 42 (values ! 1) AND 0xff),
     9 := ucast (drop_bit 34 (values ! 1) AND 0xff),
     10 := ucast (drop_bit 26 (values ! 1) AND 0xff),
     11 := ucast (drop_bit 18 (values ! 1) AND 0xff),
     12 := ucast (drop_bit 10 (values ! 1) AND 0xff),
     13 := ucast (drop_bit 2 (values ! 1) AND 0xff),
     14 := ucast (push_bit 6 (values ! 1 AND 0x3) OR (drop_bit 51 (values ! 2) AND 0x3f)),
     15 := ucast (drop_bit 43 (values ! 2) AND 0xff),
     16 := ucast (drop_bit 35 (values ! 2) AND 0xff),
     17 := ucast (drop_bit 27 (values ! 2) AND 0xff),
     18 := ucast (drop_bit 19 (values ! 2) AND 0xff),
     19 := ucast (drop_bit 11 (values ! 2) AND 0xff),
     20 := ucast (drop_bit 3 (values ! 2) AND 0xff),
     21 := ucast (push_bit 5 (values ! 2 AND 0x7) OR (drop_bit 52 (values ! 3) AND 0x1f)),
     22 := ucast (drop_bit 44 (values ! 3) AND 0xff),
     23 := ucast (drop_bit 36 (values ! 3) AND 0xff),
     24 := ucast (drop_bit 28 (values ! 3) AND 0xff),
     25 := ucast (drop_bit 20 (values ! 3) AND 0xff),
     26 := ucast (drop_bit 12 (values ! 3) AND 0xff),
     27 := ucast (drop_bit 4 (values ! 3) AND 0xff),
     28 := ucast (push_bit 4 (values ! 3 AND 0xf) OR (drop_bit 53 (values ! 4) AND 0xf)),
     29 := ucast (drop_bit 45 (values ! 4) AND 0xff),
     30 := ucast (drop_bit 37 (values ! 4) AND 0xff),
     31 := ucast (drop_bit 29 (values ! 4) AND 0xff),
     32 := ucast (drop_bit 21 (values ! 4) AND 0xff),
     33 := ucast (drop_bit 13 (values ! 4) AND 0xff),
     34 := ucast (drop_bit 5 (values ! 4) AND 0xff),
     35 := ucast (push_bit 3 (values ! 4 AND 0x1f) OR (drop_bit 54 (values ! 5) AND 0x7)),
     36 := ucast (drop_bit 46 (values ! 5) AND 0xff),
     37 := ucast (drop_bit 38 (values ! 5) AND 0xff),
     38 := ucast (drop_bit 30 (values ! 5) AND 0xff),
     39 := ucast (drop_bit 22 (values ! 5) AND 0xff),
     40 := ucast (drop_bit 14 (values ! 5) AND 0xff),
     41 := ucast (drop_bit 6 (values ! 5) AND 0xff),
     42 := ucast (push_bit 2 (values ! 5 AND 0x3f) OR (drop_bit 55 (values ! 6) AND 0x3)),
     43 := ucast (drop_bit 47 (values ! 6) AND 0xff),
     44 := ucast (drop_bit 39 (values ! 6) AND 0xff),
     45 := ucast (drop_bit 31 (values ! 6) AND 0xff),
     46 := ucast (drop_bit 23 (values ! 6) AND 0xff),
     47 := ucast (drop_bit 15 (values ! 6) AND 0xff),
     48 := ucast (drop_bit 7 (values ! 6) AND 0xff),
     49 := ucast (push_bit 1 (values ! 6 AND 0x7f) OR (drop_bit 56 (values ! 7) AND 0x1)),
     50 := ucast (drop_bit 48 (values ! 7) AND 0xff),
     51 := ucast (drop_bit 40 (values ! 7) AND 0xff),
     52 := ucast (drop_bit 32 (values ! 7) AND 0xff),
     53 := ucast (drop_bit 24 (values ! 7) AND 0xff),
     54 := ucast (drop_bit 16 (values ! 7) AND 0xff),
     55 := ucast (drop_bit 8 (values ! 7) AND 0xff),
     56 := ucast (values ! 7 AND 0xff)]"

lemma pack_bits_57_fill:
  "pack_bits_57 v b = fill_to 57 (\<lambda>j. ucast (regroup 57 (nth v) (8 * j) 8)) b"
  unfolding pack_bits_57_def literal_pieces
  by (intro fill_step fill_zero) (simp add: regroup_eval; fail)+

definition pack_bits_58 :: "u64 list \<Rightarrow> u8 list \<Rightarrow> u8 list" where
  "pack_bits_58 values bytes = bytes
    [0 := ucast (drop_bit 50 (values ! 0) AND 0xff),
     1 := ucast (drop_bit 42 (values ! 0) AND 0xff),
     2 := ucast (drop_bit 34 (values ! 0) AND 0xff),
     3 := ucast (drop_bit 26 (values ! 0) AND 0xff),
     4 := ucast (drop_bit 18 (values ! 0) AND 0xff),
     5 := ucast (drop_bit 10 (values ! 0) AND 0xff),
     6 := ucast (drop_bit 2 (values ! 0) AND 0xff),
     7 := ucast (push_bit 6 (values ! 0 AND 0x3) OR (drop_bit 52 (values ! 1) AND 0x3f)),
     8 := ucast (drop_bit 44 (values ! 1) AND 0xff),
     9 := ucast (drop_bit 36 (values ! 1) AND 0xff),
     10 := ucast (drop_bit 28 (values ! 1) AND 0xff),
     11 := ucast (drop_bit 20 (values ! 1) AND 0xff),
     12 := ucast (drop_bit 12 (values ! 1) AND 0xff),
     13 := ucast (drop_bit 4 (values ! 1) AND 0xff),
     14 := ucast (push_bit 4 (values ! 1 AND 0xf) OR (drop_bit 54 (values ! 2) AND 0xf)),
     15 := ucast (drop_bit 46 (values ! 2) AND 0xff),
     16 := ucast (drop_bit 38 (values ! 2) AND 0xff),
     17 := ucast (drop_bit 30 (values ! 2) AND 0xff),
     18 := ucast (drop_bit 22 (values ! 2) AND 0xff),
     19 := ucast (drop_bit 14 (values ! 2) AND 0xff),
     20 := ucast (drop_bit 6 (values ! 2) AND 0xff),
     21 := ucast (push_bit 2 (values ! 2 AND 0x3f) OR (drop_bit 56 (values ! 3) AND 0x3)),
     22 := ucast (drop_bit 48 (values ! 3) AND 0xff),
     23 := ucast (drop_bit 40 (values ! 3) AND 0xff),
     24 := ucast (drop_bit 32 (values ! 3) AND 0xff),
     25 := ucast (drop_bit 24 (values ! 3) AND 0xff),
     26 := ucast (drop_bit 16 (values ! 3) AND 0xff),
     27 := ucast (drop_bit 8 (values ! 3) AND 0xff),
     28 := ucast (values ! 3 AND 0xff),
     29 := ucast (drop_bit 50 (values ! 4) AND 0xff),
     30 := ucast (drop_bit 42 (values ! 4) AND 0xff),
     31 := ucast (drop_bit 34 (values ! 4) AND 0xff),
     32 := ucast (drop_bit 26 (values ! 4) AND 0xff),
     33 := ucast (drop_bit 18 (values ! 4) AND 0xff),
     34 := ucast (drop_bit 10 (values ! 4) AND 0xff),
     35 := ucast (drop_bit 2 (values ! 4) AND 0xff),
     36 := ucast (push_bit 6 (values ! 4 AND 0x3) OR (drop_bit 52 (values ! 5) AND 0x3f)),
     37 := ucast (drop_bit 44 (values ! 5) AND 0xff),
     38 := ucast (drop_bit 36 (values ! 5) AND 0xff),
     39 := ucast (drop_bit 28 (values ! 5) AND 0xff),
     40 := ucast (drop_bit 20 (values ! 5) AND 0xff),
     41 := ucast (drop_bit 12 (values ! 5) AND 0xff),
     42 := ucast (drop_bit 4 (values ! 5) AND 0xff),
     43 := ucast (push_bit 4 (values ! 5 AND 0xf) OR (drop_bit 54 (values ! 6) AND 0xf)),
     44 := ucast (drop_bit 46 (values ! 6) AND 0xff),
     45 := ucast (drop_bit 38 (values ! 6) AND 0xff),
     46 := ucast (drop_bit 30 (values ! 6) AND 0xff),
     47 := ucast (drop_bit 22 (values ! 6) AND 0xff),
     48 := ucast (drop_bit 14 (values ! 6) AND 0xff),
     49 := ucast (drop_bit 6 (values ! 6) AND 0xff),
     50 := ucast (push_bit 2 (values ! 6 AND 0x3f) OR (drop_bit 56 (values ! 7) AND 0x3)),
     51 := ucast (drop_bit 48 (values ! 7) AND 0xff),
     52 := ucast (drop_bit 40 (values ! 7) AND 0xff),
     53 := ucast (drop_bit 32 (values ! 7) AND 0xff),
     54 := ucast (drop_bit 24 (values ! 7) AND 0xff),
     55 := ucast (drop_bit 16 (values ! 7) AND 0xff),
     56 := ucast (drop_bit 8 (values ! 7) AND 0xff),
     57 := ucast (values ! 7 AND 0xff)]"

lemma pack_bits_58_fill:
  "pack_bits_58 v b = fill_to 58 (\<lambda>j. ucast (regroup 58 (nth v) (8 * j) 8)) b"
  unfolding pack_bits_58_def literal_pieces
  by (intro fill_step fill_zero) (simp add: regroup_eval; fail)+

definition pack_bits_59 :: "u64 list \<Rightarrow> u8 list \<Rightarrow> u8 list" where
  "pack_bits_59 values bytes = bytes
    [0 := ucast (drop_bit 51 (values ! 0) AND 0xff),
     1 := ucast (drop_bit 43 (values ! 0) AND 0xff),
     2 := ucast (drop_bit 35 (values ! 0) AND 0xff),
     3 := ucast (drop_bit 27 (values ! 0) AND 0xff),
     4 := ucast (drop_bit 19 (values ! 0) AND 0xff),
     5 := ucast (drop_bit 11 (values ! 0) AND 0xff),
     6 := ucast (drop_bit 3 (values ! 0) AND 0xff),
     7 := ucast (push_bit 5 (values ! 0 AND 0x7) OR (drop_bit 54 (values ! 1) AND 0x1f)),
     8 := ucast (drop_bit 46 (values ! 1) AND 0xff),
     9 := ucast (drop_bit 38 (values ! 1) AND 0xff),
     10 := ucast (drop_bit 30 (values ! 1) AND 0xff),
     11 := ucast (drop_bit 22 (values ! 1) AND 0xff),
     12 := ucast (drop_bit 14 (values ! 1) AND 0xff),
     13 := ucast (drop_bit 6 (values ! 1) AND 0xff),
     14 := ucast (push_bit 2 (values ! 1 AND 0x3f) OR (drop_bit 57 (values ! 2) AND 0x3)),
     15 := ucast (drop_bit 49 (values ! 2) AND 0xff),
     16 := ucast (drop_bit 41 (values ! 2) AND 0xff),
     17 := ucast (drop_bit 33 (values ! 2) AND 0xff),
     18 := ucast (drop_bit 25 (values ! 2) AND 0xff),
     19 := ucast (drop_bit 17 (values ! 2) AND 0xff),
     20 := ucast (drop_bit 9 (values ! 2) AND 0xff),
     21 := ucast (drop_bit 1 (values ! 2) AND 0xff),
     22 := ucast (push_bit 7 (values ! 2 AND 0x1) OR (drop_bit 52 (values ! 3) AND 0x7f)),
     23 := ucast (drop_bit 44 (values ! 3) AND 0xff),
     24 := ucast (drop_bit 36 (values ! 3) AND 0xff),
     25 := ucast (drop_bit 28 (values ! 3) AND 0xff),
     26 := ucast (drop_bit 20 (values ! 3) AND 0xff),
     27 := ucast (drop_bit 12 (values ! 3) AND 0xff),
     28 := ucast (drop_bit 4 (values ! 3) AND 0xff),
     29 := ucast (push_bit 4 (values ! 3 AND 0xf) OR (drop_bit 55 (values ! 4) AND 0xf)),
     30 := ucast (drop_bit 47 (values ! 4) AND 0xff),
     31 := ucast (drop_bit 39 (values ! 4) AND 0xff),
     32 := ucast (drop_bit 31 (values ! 4) AND 0xff),
     33 := ucast (drop_bit 23 (values ! 4) AND 0xff),
     34 := ucast (drop_bit 15 (values ! 4) AND 0xff),
     35 := ucast (drop_bit 7 (values ! 4) AND 0xff),
     36 := ucast (push_bit 1 (values ! 4 AND 0x7f) OR (drop_bit 58 (values ! 5) AND 0x1)),
     37 := ucast (drop_bit 50 (values ! 5) AND 0xff),
     38 := ucast (drop_bit 42 (values ! 5) AND 0xff),
     39 := ucast (drop_bit 34 (values ! 5) AND 0xff),
     40 := ucast (drop_bit 26 (values ! 5) AND 0xff),
     41 := ucast (drop_bit 18 (values ! 5) AND 0xff),
     42 := ucast (drop_bit 10 (values ! 5) AND 0xff),
     43 := ucast (drop_bit 2 (values ! 5) AND 0xff),
     44 := ucast (push_bit 6 (values ! 5 AND 0x3) OR (drop_bit 53 (values ! 6) AND 0x3f)),
     45 := ucast (drop_bit 45 (values ! 6) AND 0xff),
     46 := ucast (drop_bit 37 (values ! 6) AND 0xff),
     47 := ucast (drop_bit 29 (values ! 6) AND 0xff),
     48 := ucast (drop_bit 21 (values ! 6) AND 0xff),
     49 := ucast (drop_bit 13 (values ! 6) AND 0xff),
     50 := ucast (drop_bit 5 (values ! 6) AND 0xff),
     51 := ucast (push_bit 3 (values ! 6 AND 0x1f) OR (drop_bit 56 (values ! 7) AND 0x7)),
     52 := ucast (drop_bit 48 (values ! 7) AND 0xff),
     53 := ucast (drop_bit 40 (values ! 7) AND 0xff),
     54 := ucast (drop_bit 32 (values ! 7) AND 0xff),
     55 := ucast (drop_bit 24 (values ! 7) AND 0xff),
     56 := ucast (drop_bit 16 (values ! 7) AND 0xff),
     57 := ucast (drop_bit 8 (values ! 7) AND 0xff),
     58 := ucast (values ! 7 AND 0xff)]"

lemma pack_bits_59_fill:
  "pack_bits_59 v b = fill_to 59 (\<lambda>j. ucast (regroup 59 (nth v) (8 * j) 8)) b"
  unfolding pack_bits_59_def literal_pieces
  by (intro fill_step fill_zero) (simp add: regroup_eval; fail)+

definition pack_bits_60 :: "u64 list \<Rightarrow> u8 list \<Rightarrow> u8 list" where
  "pack_bits_60 values bytes = bytes
    [0 := ucast (drop_bit 52 (values ! 0) AND 0xff),
     1 := ucast (drop_bit 44 (values ! 0) AND 0xff),
     2 := ucast (drop_bit 36 (values ! 0) AND 0xff),
     3 := ucast (drop_bit 28 (values ! 0) AND 0xff),
     4 := ucast (drop_bit 20 (values ! 0) AND 0xff),
     5 := ucast (drop_bit 12 (values ! 0) AND 0xff),
     6 := ucast (drop_bit 4 (values ! 0) AND 0xff),
     7 := ucast (push_bit 4 (values ! 0 AND 0xf) OR (drop_bit 56 (values ! 1) AND 0xf)),
     8 := ucast (drop_bit 48 (values ! 1) AND 0xff),
     9 := ucast (drop_bit 40 (values ! 1) AND 0xff),
     10 := ucast (drop_bit 32 (values ! 1) AND 0xff),
     11 := ucast (drop_bit 24 (values ! 1) AND 0xff),
     12 := ucast (drop_bit 16 (values ! 1) AND 0xff),
     13 := ucast (drop_bit 8 (values ! 1) AND 0xff),
     14 := ucast (values ! 1 AND 0xff),
     15 := ucast (drop_bit 52 (values ! 2) AND 0xff),
     16 := ucast (drop_bit 44 (values ! 2) AND 0xff),
     17 := ucast (drop_bit 36 (values ! 2) AND 0xff),
     18 := ucast (drop_bit 28 (values ! 2) AND 0xff),
     19 := ucast (drop_bit 20 (values ! 2) AND 0xff),
     20 := ucast (drop_bit 12 (values ! 2) AND 0xff),
     21 := ucast (drop_bit 4 (values ! 2) AND 0xff),
     22 := ucast (push_bit 4 (values ! 2 AND 0xf) OR (drop_bit 56 (values ! 3) AND 0xf)),
     23 := ucast (drop_bit 48 (values ! 3) AND 0xff),
     24 := ucast (drop_bit 40 (values ! 3) AND 0xff),
     25 := ucast (drop_bit 32 (values ! 3) AND 0xff),
     26 := ucast (drop_bit 24 (values ! 3) AND 0xff),
     27 := ucast (drop_bit 16 (values ! 3) AND 0xff),
     28 := ucast (drop_bit 8 (values ! 3) AND 0xff),
     29 := ucast (values ! 3 AND 0xff),
     30 := ucast (drop_bit 52 (values ! 4) AND 0xff),
     31 := ucast (drop_bit 44 (values ! 4) AND 0xff),
     32 := ucast (drop_bit 36 (values ! 4) AND 0xff),
     33 := ucast (drop_bit 28 (values ! 4) AND 0xff),
     34 := ucast (drop_bit 20 (values ! 4) AND 0xff),
     35 := ucast (drop_bit 12 (values ! 4) AND 0xff),
     36 := ucast (drop_bit 4 (values ! 4) AND 0xff),
     37 := ucast (push_bit 4 (values ! 4 AND 0xf) OR (drop_bit 56 (values ! 5) AND 0xf)),
     38 := ucast (drop_bit 48 (values ! 5) AND 0xff),
     39 := ucast (drop_bit 40 (values ! 5) AND 0xff),
     40 := ucast (drop_bit 32 (values ! 5) AND 0xff),
     41 := ucast (drop_bit 24 (values ! 5) AND 0xff),
     42 := ucast (drop_bit 16 (values ! 5) AND 0xff),
     43 := ucast (drop_bit 8 (values ! 5) AND 0xff),
     44 := ucast (values ! 5 AND 0xff),
     45 := ucast (drop_bit 52 (values ! 6) AND 0xff),
     46 := ucast (drop_bit 44 (values ! 6) AND 0xff),
     47 := ucast (drop_bit 36 (values ! 6) AND 0xff),
     48 := ucast (drop_bit 28 (values ! 6) AND 0xff),
     49 := ucast (drop_bit 20 (values ! 6) AND 0xff),
     50 := ucast (drop_bit 12 (values ! 6) AND 0xff),
     51 := ucast (drop_bit 4 (values ! 6) AND 0xff),
     52 := ucast (push_bit 4 (values ! 6 AND 0xf) OR (drop_bit 56 (values ! 7) AND 0xf)),
     53 := ucast (drop_bit 48 (values ! 7) AND 0xff),
     54 := ucast (drop_bit 40 (values ! 7) AND 0xff),
     55 := ucast (drop_bit 32 (values ! 7) AND 0xff),
     56 := ucast (drop_bit 24 (values ! 7) AND 0xff),
     57 := ucast (drop_bit 16 (values ! 7) AND 0xff),
     58 := ucast (drop_bit 8 (values ! 7) AND 0xff),
     59 := ucast (values ! 7 AND 0xff)]"

lemma pack_bits_60_fill:
  "pack_bits_60 v b = fill_to 60 (\<lambda>j. ucast (regroup 60 (nth v) (8 * j) 8)) b"
  unfolding pack_bits_60_def literal_pieces
  by (intro fill_step fill_zero) (simp add: regroup_eval; fail)+

definition pack_bits_61 :: "u64 list \<Rightarrow> u8 list \<Rightarrow> u8 list" where
  "pack_bits_61 values bytes = bytes
    [0 := ucast (drop_bit 53 (values ! 0) AND 0xff),
     1 := ucast (drop_bit 45 (values ! 0) AND 0xff),
     2 := ucast (drop_bit 37 (values ! 0) AND 0xff),
     3 := ucast (drop_bit 29 (values ! 0) AND 0xff),
     4 := ucast (drop_bit 21 (values ! 0) AND 0xff),
     5 := ucast (drop_bit 13 (values ! 0) AND 0xff),
     6 := ucast (drop_bit 5 (values ! 0) AND 0xff),
     7 := ucast (push_bit 3 (values ! 0 AND 0x1f) OR (drop_bit 58 (values ! 1) AND 0x7)),
     8 := ucast (drop_bit 50 (values ! 1) AND 0xff),
     9 := ucast (drop_bit 42 (values ! 1) AND 0xff),
     10 := ucast (drop_bit 34 (values ! 1) AND 0xff),
     11 := ucast (drop_bit 26 (values ! 1) AND 0xff),
     12 := ucast (drop_bit 18 (values ! 1) AND 0xff),
     13 := ucast (drop_bit 10 (values ! 1) AND 0xff),
     14 := ucast (drop_bit 2 (values ! 1) AND 0xff),
     15 := ucast (push_bit 6 (values ! 1 AND 0x3) OR (drop_bit 55 (values ! 2) AND 0x3f)),
     16 := ucast (drop_bit 47 (values ! 2) AND 0xff),
     17 := ucast (drop_bit 39 (values ! 2) AND 0xff),
     18 := ucast (drop_bit 31 (values ! 2) AND 0xff),
     19 := ucast (drop_bit 23 (values ! 2) AND 0xff),
     20 := ucast (drop_bit 15 (values ! 2) AND 0xff),
     21 := ucast (drop_bit 7 (values ! 2) AND 0xff),
     22 := ucast (push_bit 1 (values ! 2 AND 0x7f) OR (drop_bit 60 (values ! 3) AND 0x1)),
     23 := ucast (drop_bit 52 (values ! 3) AND 0xff),
     24 := ucast (drop_bit 44 (values ! 3) AND 0xff),
     25 := ucast (drop_bit 36 (values ! 3) AND 0xff),
     26 := ucast (drop_bit 28 (values ! 3) AND 0xff),
     27 := ucast (drop_bit 20 (values ! 3) AND 0xff),
     28 := ucast (drop_bit 12 (values ! 3) AND 0xff),
     29 := ucast (drop_bit 4 (values ! 3) AND 0xff),
     30 := ucast (push_bit 4 (values ! 3 AND 0xf) OR (drop_bit 57 (values ! 4) AND 0xf)),
     31 := ucast (drop_bit 49 (values ! 4) AND 0xff),
     32 := ucast (drop_bit 41 (values ! 4) AND 0xff),
     33 := ucast (drop_bit 33 (values ! 4) AND 0xff),
     34 := ucast (drop_bit 25 (values ! 4) AND 0xff),
     35 := ucast (drop_bit 17 (values ! 4) AND 0xff),
     36 := ucast (drop_bit 9 (values ! 4) AND 0xff),
     37 := ucast (drop_bit 1 (values ! 4) AND 0xff),
     38 := ucast (push_bit 7 (values ! 4 AND 0x1) OR (drop_bit 54 (values ! 5) AND 0x7f)),
     39 := ucast (drop_bit 46 (values ! 5) AND 0xff),
     40 := ucast (drop_bit 38 (values ! 5) AND 0xff),
     41 := ucast (drop_bit 30 (values ! 5) AND 0xff),
     42 := ucast (drop_bit 22 (values ! 5) AND 0xff),
     43 := ucast (drop_bit 14 (values ! 5) AND 0xff),
     44 := ucast (drop_bit 6 (values ! 5) AND 0xff),
     45 := ucast (push_bit 2 (values ! 5 AND 0x3f) OR (drop_bit 59 (values ! 6) AND 0x3)),
     46 := ucast (drop_bit 51 (values ! 6) AND 0xff),
     47 := ucast (drop_bit 43 (values ! 6) AND 0xff),
     48 := ucast (drop_bit 35 (values ! 6) AND 0xff),
     49 := ucast (drop_bit 27 (values ! 6) AND 0xff),
     50 := ucast (drop_bit 19 (values ! 6) AND 0xff),
     51 := ucast (drop_bit 11 (values ! 6) AND 0xff),
     52 := ucast (drop_bit 3 (values ! 6) AND 0xff),
     53 := ucast (push_bit 5 (values ! 6 AND 0x7) OR (drop_bit 56 (values ! 7) AND 0x1f)),
     54 := ucast (drop_bit 48 (values ! 7) AND 0xff),
     55 := ucast (drop_bit 40 (values ! 7) AND 0xff),
     56 := ucast (drop_bit 32 (values ! 7) AND 0xff),
     57 := ucast (drop_bit 24 (values ! 7) AND 0xff),
     58 := ucast (drop_bit 16 (values ! 7) AND 0xff),
     59 := ucast (drop_bit 8 (values ! 7) AND 0xff),
     60 := ucast (values ! 7 AND 0xff)]"

lemma pack_bits_61_fill:
  "pack_bits_61 v b = fill_to 61 (\<lambda>j. ucast (regroup 61 (nth v) (8 * j) 8)) b"
  unfolding pack_bits_61_def literal_pieces
  by (intro fill_step fill_zero) (simp add: regroup_eval; fail)+

definition pack_bits_62 :: "u64 list \<Rightarrow> u8 list \<Rightarrow> u8 list" where
  "pack_bits_62 values bytes = bytes
    [0 := ucast (drop_bit 54 (values ! 0) AND 0xff),
     1 := ucast (drop_bit 46 (values ! 0) AND 0xff),
     2 := ucast (drop_bit 38 (values ! 0) AND 0xff),
     3 := ucast (drop_bit 30 (values ! 0) AND 0xff),
     4 := ucast (drop_bit 22 (values ! 0) AND 0xff),
     5 := ucast (drop_bit 14 (values ! 0) AND 0xff),
     6 := ucast (drop_bit 6 (values ! 0) AND 0xff),
     7 := ucast (push_bit 2 (values ! 0 AND 0x3f) OR (drop_bit 60 (values ! 1) AND 0x3)),
     8 := ucast (drop_bit 52 (values ! 1) AND 0xff),
     9 := ucast (drop_bit 44 (values ! 1) AND 0xff),
     10 := ucast (drop_bit 36 (values ! 1) AND 0xff),
     11 := ucast (drop_bit 28 (values ! 1) AND 0xff),
     12 := ucast (drop_bit 20 (values ! 1) AND 0xff),
     13 := ucast (drop_bit 12 (values ! 1) AND 0xff),
     14 := ucast (drop_bit 4 (values ! 1) AND 0xff),
     15 := ucast (push_bit 4 (values ! 1 AND 0xf) OR (drop_bit 58 (values ! 2) AND 0xf)),
     16 := ucast (drop_bit 50 (values ! 2) AND 0xff),
     17 := ucast (drop_bit 42 (values ! 2) AND 0xff),
     18 := ucast (drop_bit 34 (values ! 2) AND 0xff),
     19 := ucast (drop_bit 26 (values ! 2) AND 0xff),
     20 := ucast (drop_bit 18 (values ! 2) AND 0xff),
     21 := ucast (drop_bit 10 (values ! 2) AND 0xff),
     22 := ucast (drop_bit 2 (values ! 2) AND 0xff),
     23 := ucast (push_bit 6 (values ! 2 AND 0x3) OR (drop_bit 56 (values ! 3) AND 0x3f)),
     24 := ucast (drop_bit 48 (values ! 3) AND 0xff),
     25 := ucast (drop_bit 40 (values ! 3) AND 0xff),
     26 := ucast (drop_bit 32 (values ! 3) AND 0xff),
     27 := ucast (drop_bit 24 (values ! 3) AND 0xff),
     28 := ucast (drop_bit 16 (values ! 3) AND 0xff),
     29 := ucast (drop_bit 8 (values ! 3) AND 0xff),
     30 := ucast (values ! 3 AND 0xff),
     31 := ucast (drop_bit 54 (values ! 4) AND 0xff),
     32 := ucast (drop_bit 46 (values ! 4) AND 0xff),
     33 := ucast (drop_bit 38 (values ! 4) AND 0xff),
     34 := ucast (drop_bit 30 (values ! 4) AND 0xff),
     35 := ucast (drop_bit 22 (values ! 4) AND 0xff),
     36 := ucast (drop_bit 14 (values ! 4) AND 0xff),
     37 := ucast (drop_bit 6 (values ! 4) AND 0xff),
     38 := ucast (push_bit 2 (values ! 4 AND 0x3f) OR (drop_bit 60 (values ! 5) AND 0x3)),
     39 := ucast (drop_bit 52 (values ! 5) AND 0xff),
     40 := ucast (drop_bit 44 (values ! 5) AND 0xff),
     41 := ucast (drop_bit 36 (values ! 5) AND 0xff),
     42 := ucast (drop_bit 28 (values ! 5) AND 0xff),
     43 := ucast (drop_bit 20 (values ! 5) AND 0xff),
     44 := ucast (drop_bit 12 (values ! 5) AND 0xff),
     45 := ucast (drop_bit 4 (values ! 5) AND 0xff),
     46 := ucast (push_bit 4 (values ! 5 AND 0xf) OR (drop_bit 58 (values ! 6) AND 0xf)),
     47 := ucast (drop_bit 50 (values ! 6) AND 0xff),
     48 := ucast (drop_bit 42 (values ! 6) AND 0xff),
     49 := ucast (drop_bit 34 (values ! 6) AND 0xff),
     50 := ucast (drop_bit 26 (values ! 6) AND 0xff),
     51 := ucast (drop_bit 18 (values ! 6) AND 0xff),
     52 := ucast (drop_bit 10 (values ! 6) AND 0xff),
     53 := ucast (drop_bit 2 (values ! 6) AND 0xff),
     54 := ucast (push_bit 6 (values ! 6 AND 0x3) OR (drop_bit 56 (values ! 7) AND 0x3f)),
     55 := ucast (drop_bit 48 (values ! 7) AND 0xff),
     56 := ucast (drop_bit 40 (values ! 7) AND 0xff),
     57 := ucast (drop_bit 32 (values ! 7) AND 0xff),
     58 := ucast (drop_bit 24 (values ! 7) AND 0xff),
     59 := ucast (drop_bit 16 (values ! 7) AND 0xff),
     60 := ucast (drop_bit 8 (values ! 7) AND 0xff),
     61 := ucast (values ! 7 AND 0xff)]"

lemma pack_bits_62_fill:
  "pack_bits_62 v b = fill_to 62 (\<lambda>j. ucast (regroup 62 (nth v) (8 * j) 8)) b"
  unfolding pack_bits_62_def literal_pieces
  by (intro fill_step fill_zero) (simp add: regroup_eval; fail)+

definition pack_bits_63 :: "u64 list \<Rightarrow> u8 list \<Rightarrow> u8 list" where
  "pack_bits_63 values bytes = bytes
    [0 := ucast (drop_bit 55 (values ! 0) AND 0xff),
     1 := ucast (drop_bit 47 (values ! 0) AND 0xff),
     2 := ucast (drop_bit 39 (values ! 0) AND 0xff),
     3 := ucast (drop_bit 31 (values ! 0) AND 0xff),
     4 := ucast (drop_bit 23 (values ! 0) AND 0xff),
     5 := ucast (drop_bit 15 (values ! 0) AND 0xff),
     6 := ucast (drop_bit 7 (values ! 0) AND 0xff),
     7 := ucast (push_bit 1 (values ! 0 AND 0x7f) OR (drop_bit 62 (values ! 1) AND 0x1)),
     8 := ucast (drop_bit 54 (values ! 1) AND 0xff),
     9 := ucast (drop_bit 46 (values ! 1) AND 0xff),
     10 := ucast (drop_bit 38 (values ! 1) AND 0xff),
     11 := ucast (drop_bit 30 (values ! 1) AND 0xff),
     12 := ucast (drop_bit 22 (values ! 1) AND 0xff),
     13 := ucast (drop_bit 14 (values ! 1) AND 0xff),
     14 := ucast (drop_bit 6 (values ! 1) AND 0xff),
     15 := ucast (push_bit 2 (values ! 1 AND 0x3f) OR (drop_bit 61 (values ! 2) AND 0x3)),
     16 := ucast (drop_bit 53 (values ! 2) AND 0xff),
     17 := ucast (drop_bit 45 (values ! 2) AND 0xff),
     18 := ucast (drop_bit 37 (values ! 2) AND 0xff),
     19 := ucast (drop_bit 29 (values ! 2) AND 0xff),
     20 := ucast (drop_bit 21 (values ! 2) AND 0xff),
     21 := ucast (drop_bit 13 (values ! 2) AND 0xff),
     22 := ucast (drop_bit 5 (values ! 2) AND 0xff),
     23 := ucast (push_bit 3 (values ! 2 AND 0x1f) OR (drop_bit 60 (values ! 3) AND 0x7)),
     24 := ucast (drop_bit 52 (values ! 3) AND 0xff),
     25 := ucast (drop_bit 44 (values ! 3) AND 0xff),
     26 := ucast (drop_bit 36 (values ! 3) AND 0xff),
     27 := ucast (drop_bit 28 (values ! 3) AND 0xff),
     28 := ucast (drop_bit 20 (values ! 3) AND 0xff),
     29 := ucast (drop_bit 12 (values ! 3) AND 0xff),
     30 := ucast (drop_bit 4 (values ! 3) AND 0xff),
     31 := ucast (push_bit 4 (values ! 3 AND 0xf) OR (drop_bit 59 (values ! 4) AND 0xf)),
     32 := ucast (drop_bit 51 (values ! 4) AND 0xff),
     33 := ucast (drop_bit 43 (values ! 4) AND 0xff),
     34 := ucast (drop_bit 35 (values ! 4) AND 0xff),
     35 := ucast (drop_bit 27 (values ! 4) AND 0xff),
     36 := ucast (drop_bit 19 (values ! 4) AND 0xff),
     37 := ucast (drop_bit 11 (values ! 4) AND 0xff),
     38 := ucast (drop_bit 3 (values ! 4) AND 0xff),
     39 := ucast (push_bit 5 (values ! 4 AND 0x7) OR (drop_bit 58 (values ! 5) AND 0x1f)),
     40 := ucast (drop_bit 50 (values ! 5) AND 0xff),
     41 := ucast (drop_bit 42 (values ! 5) AND 0xff),
     42 := ucast (drop_bit 34 (values ! 5) AND 0xff),
     43 := ucast (drop_bit 26 (values ! 5) AND 0xff),
     44 := ucast (drop_bit 18 (values ! 5) AND 0xff),
     45 := ucast (drop_bit 10 (values ! 5) AND 0xff),
     46 := ucast (drop_bit 2 (values ! 5) AND 0xff),
     47 := ucast (push_bit 6 (values ! 5 AND 0x3) OR (drop_bit 57 (values ! 6) AND 0x3f)),
     48 := ucast (drop_bit 49 (values ! 6) AND 0xff),
     49 := ucast (drop_bit 41 (values ! 6) AND 0xff),
     50 := ucast (drop_bit 33 (values ! 6) AND 0xff),
     51 := ucast (drop_bit 25 (values ! 6) AND 0xff),
     52 := ucast (drop_bit 17 (values ! 6) AND 0xff),
     53 := ucast (drop_bit 9 (values ! 6) AND 0xff),
     54 := ucast (drop_bit 1 (values ! 6) AND 0xff),
     55 := ucast (push_bit 7 (values ! 6 AND 0x1) OR (drop_bit 56 (values ! 7) AND 0x7f)),
     56 := ucast (drop_bit 48 (values ! 7) AND 0xff),
     57 := ucast (drop_bit 40 (values ! 7) AND 0xff),
     58 := ucast (drop_bit 32 (values ! 7) AND 0xff),
     59 := ucast (drop_bit 24 (values ! 7) AND 0xff),
     60 := ucast (drop_bit 16 (values ! 7) AND 0xff),
     61 := ucast (drop_bit 8 (values ! 7) AND 0xff),
     62 := ucast (values ! 7 AND 0xff)]"

lemma pack_bits_63_fill:
  "pack_bits_63 v b = fill_to 63 (\<lambda>j. ucast (regroup 63 (nth v) (8 * j) 8)) b"
  unfolding pack_bits_63_def literal_pieces
  by (intro fill_step fill_zero) (simp add: regroup_eval; fail)+

end
