(* ===== verification/BitPack_Unpack1.thy ===== *)
theory BitPack_Unpack1
  imports BitStream
begin

text \<open>
  The unrolled unpacking routines \<open>unpack_bits_1\<close> to \<open>unpack_bits_63\<close> of
  \<open>src/datasketches/src/thetafamily/theta/bit_pack.rs\<close>, widths 1 to 40, statement by
  statement; a cast \<open>as u64\<close> is \<open>ucast\<close>. The caller (\<open>unpack_bits_block\<close>) checks the
  lengths. After each routine, its equality with the generic \<open>regroup\<close>.
\<close>

definition unpack_bits_1 :: "u64 list \<Rightarrow> u8 list \<Rightarrow> u64 list" where
  "unpack_bits_1 values bytes = values
    [0 := ucast (drop_bit 7 (bytes ! 0) AND 0x1),
     1 := ucast (drop_bit 6 (bytes ! 0) AND 0x1),
     2 := ucast (drop_bit 5 (bytes ! 0) AND 0x1),
     3 := ucast (drop_bit 4 (bytes ! 0) AND 0x1),
     4 := ucast (drop_bit 3 (bytes ! 0) AND 0x1),
     5 := ucast (drop_bit 2 (bytes ! 0) AND 0x1),
     6 := ucast (drop_bit 1 (bytes ! 0) AND 0x1),
     7 := ucast (bytes ! 0 AND 0x1)]"

lemma unpack_bits_1_fill:
  "unpack_bits_1 v b = fill_to 8 (\<lambda>k. regroup 8 (\<lambda>j. ucast (b ! j)) (1 * k) 1) v"
  unfolding unpack_bits_1_def literal_pieces
  by (intro fill_step fill_zero) (simp add: regroup_eval; fail)+

definition unpack_bits_2 :: "u64 list \<Rightarrow> u8 list \<Rightarrow> u64 list" where
  "unpack_bits_2 values bytes = values
    [0 := ucast (drop_bit 6 (bytes ! 0) AND 0x3),
     1 := ucast (drop_bit 4 (bytes ! 0) AND 0x3),
     2 := ucast (drop_bit 2 (bytes ! 0) AND 0x3),
     3 := ucast (bytes ! 0 AND 0x3),
     4 := ucast (drop_bit 6 (bytes ! 1) AND 0x3),
     5 := ucast (drop_bit 4 (bytes ! 1) AND 0x3),
     6 := ucast (drop_bit 2 (bytes ! 1) AND 0x3),
     7 := ucast (bytes ! 1 AND 0x3)]"

lemma unpack_bits_2_fill:
  "unpack_bits_2 v b = fill_to 8 (\<lambda>k. regroup 8 (\<lambda>j. ucast (b ! j)) (2 * k) 2) v"
  unfolding unpack_bits_2_def literal_pieces
  by (intro fill_step fill_zero) (simp add: regroup_eval; fail)+

definition unpack_bits_3 :: "u64 list \<Rightarrow> u8 list \<Rightarrow> u64 list" where
  "unpack_bits_3 values bytes = values
    [0 := ucast (drop_bit 5 (bytes ! 0) AND 0x7),
     1 := ucast (drop_bit 2 (bytes ! 0) AND 0x7),
     2 := push_bit 1 (ucast (bytes ! 0 AND 0x3)) OR ucast (drop_bit 7 (bytes ! 1) AND 0x1),
     3 := ucast (drop_bit 4 (bytes ! 1) AND 0x7),
     4 := ucast (drop_bit 1 (bytes ! 1) AND 0x7),
     5 := push_bit 2 (ucast (bytes ! 1 AND 0x1)) OR ucast (drop_bit 6 (bytes ! 2) AND 0x3),
     6 := ucast (drop_bit 3 (bytes ! 2) AND 0x7),
     7 := ucast (bytes ! 2 AND 0x7)]"

lemma unpack_bits_3_fill:
  "unpack_bits_3 v b = fill_to 8 (\<lambda>k. regroup 8 (\<lambda>j. ucast (b ! j)) (3 * k) 3) v"
  unfolding unpack_bits_3_def literal_pieces
  by (intro fill_step fill_zero) (simp add: regroup_eval; fail)+

definition unpack_bits_4 :: "u64 list \<Rightarrow> u8 list \<Rightarrow> u64 list" where
  "unpack_bits_4 values bytes = values
    [0 := ucast (drop_bit 4 (bytes ! 0) AND 0xf),
     1 := ucast (bytes ! 0 AND 0xf),
     2 := ucast (drop_bit 4 (bytes ! 1) AND 0xf),
     3 := ucast (bytes ! 1 AND 0xf),
     4 := ucast (drop_bit 4 (bytes ! 2) AND 0xf),
     5 := ucast (bytes ! 2 AND 0xf),
     6 := ucast (drop_bit 4 (bytes ! 3) AND 0xf),
     7 := ucast (bytes ! 3 AND 0xf)]"

lemma unpack_bits_4_fill:
  "unpack_bits_4 v b = fill_to 8 (\<lambda>k. regroup 8 (\<lambda>j. ucast (b ! j)) (4 * k) 4) v"
  unfolding unpack_bits_4_def literal_pieces
  by (intro fill_step fill_zero) (simp add: regroup_eval; fail)+

definition unpack_bits_5 :: "u64 list \<Rightarrow> u8 list \<Rightarrow> u64 list" where
  "unpack_bits_5 values bytes = values
    [0 := ucast (drop_bit 3 (bytes ! 0) AND 0x1f),
     1 := push_bit 2 (ucast (bytes ! 0 AND 0x7)) OR ucast (drop_bit 6 (bytes ! 1) AND 0x3),
     2 := ucast (drop_bit 1 (bytes ! 1) AND 0x1f),
     3 := push_bit 4 (ucast (bytes ! 1 AND 0x1)) OR ucast (drop_bit 4 (bytes ! 2) AND 0xf),
     4 := push_bit 1 (ucast (bytes ! 2 AND 0xf)) OR ucast (drop_bit 7 (bytes ! 3) AND 0x1),
     5 := ucast (drop_bit 2 (bytes ! 3) AND 0x1f),
     6 := push_bit 3 (ucast (bytes ! 3 AND 0x3)) OR ucast (drop_bit 5 (bytes ! 4) AND 0x7),
     7 := ucast (bytes ! 4 AND 0x1f)]"

lemma unpack_bits_5_fill:
  "unpack_bits_5 v b = fill_to 8 (\<lambda>k. regroup 8 (\<lambda>j. ucast (b ! j)) (5 * k) 5) v"
  unfolding unpack_bits_5_def literal_pieces
  by (intro fill_step fill_zero) (simp add: regroup_eval; fail)+

definition unpack_bits_6 :: "u64 list \<Rightarrow> u8 list \<Rightarrow> u64 list" where
  "unpack_bits_6 values bytes = values
    [0 := ucast (drop_bit 2 (bytes ! 0) AND 0x3f),
     1 := push_bit 4 (ucast (bytes ! 0 AND 0x3)) OR ucast (drop_bit 4 (bytes ! 1) AND 0xf),
     2 := push_bit 2 (ucast (bytes ! 1 AND 0xf)) OR ucast (drop_bit 6 (bytes ! 2) AND 0x3),
     3 := ucast (bytes ! 2 AND 0x3f),
     4 := ucast (drop_bit 2 (bytes ! 3) AND 0x3f),
     5 := push_bit 4 (ucast (bytes ! 3 AND 0x3)) OR ucast (drop_bit 4 (bytes ! 4) AND 0xf),
     6 := push_bit 2 (ucast (bytes ! 4 AND 0xf)) OR ucast (drop_bit 6 (bytes ! 5) AND 0x3),
     7 := ucast (bytes ! 5 AND 0x3f)]"

lemma unpack_bits_6_fill:
  "unpack_bits_6 v b = fill_to 8 (\<lambda>k. regroup 8 (\<lambda>j. ucast (b ! j)) (6 * k) 6) v"
  unfolding unpack_bits_6_def literal_pieces
  by (intro fill_step fill_zero) (simp add: regroup_eval; fail)+

definition unpack_bits_7 :: "u64 list \<Rightarrow> u8 list \<Rightarrow> u64 list" where
  "unpack_bits_7 values bytes = values
    [0 := ucast (drop_bit 1 (bytes ! 0) AND 0x7f),
     1 := push_bit 6 (ucast (bytes ! 0 AND 0x1)) OR ucast (drop_bit 2 (bytes ! 1) AND 0x3f),
     2 := push_bit 5 (ucast (bytes ! 1 AND 0x3)) OR ucast (drop_bit 3 (bytes ! 2) AND 0x1f),
     3 := push_bit 4 (ucast (bytes ! 2 AND 0x7)) OR ucast (drop_bit 4 (bytes ! 3) AND 0xf),
     4 := push_bit 3 (ucast (bytes ! 3 AND 0xf)) OR ucast (drop_bit 5 (bytes ! 4) AND 0x7),
     5 := push_bit 2 (ucast (bytes ! 4 AND 0x1f)) OR ucast (drop_bit 6 (bytes ! 5) AND 0x3),
     6 := push_bit 1 (ucast (bytes ! 5 AND 0x3f)) OR ucast (drop_bit 7 (bytes ! 6) AND 0x1),
     7 := ucast (bytes ! 6 AND 0x7f)]"

lemma unpack_bits_7_fill:
  "unpack_bits_7 v b = fill_to 8 (\<lambda>k. regroup 8 (\<lambda>j. ucast (b ! j)) (7 * k) 7) v"
  unfolding unpack_bits_7_def literal_pieces
  by (intro fill_step fill_zero) (simp add: regroup_eval; fail)+

definition unpack_bits_8 :: "u64 list \<Rightarrow> u8 list \<Rightarrow> u64 list" where
  "unpack_bits_8 values bytes = values
    [0 := ucast (bytes ! 0),
     1 := ucast (bytes ! 1),
     2 := ucast (bytes ! 2),
     3 := ucast (bytes ! 3),
     4 := ucast (bytes ! 4),
     5 := ucast (bytes ! 5),
     6 := ucast (bytes ! 6),
     7 := ucast (bytes ! 7)]"

lemma unpack_bits_8_fill:
  "unpack_bits_8 v b = fill_to 8 (\<lambda>k. regroup 8 (\<lambda>j. ucast (b ! j)) (8 * k) 8) v"
  unfolding unpack_bits_8_def literal_pieces
  by (intro fill_step fill_zero) (simp add: regroup_eval piece_whole_byte; fail)+

definition unpack_bits_9 :: "u64 list \<Rightarrow> u8 list \<Rightarrow> u64 list" where
  "unpack_bits_9 values bytes = values
    [0 := push_bit 1 (ucast (bytes ! 0)) OR ucast (drop_bit 7 (bytes ! 1) AND 0x1),
     1 := push_bit 2 (ucast (bytes ! 1 AND 0x7f)) OR ucast (drop_bit 6 (bytes ! 2) AND 0x3),
     2 := push_bit 3 (ucast (bytes ! 2 AND 0x3f)) OR ucast (drop_bit 5 (bytes ! 3) AND 0x7),
     3 := push_bit 4 (ucast (bytes ! 3 AND 0x1f)) OR ucast (drop_bit 4 (bytes ! 4) AND 0xf),
     4 := push_bit 5 (ucast (bytes ! 4 AND 0xf)) OR ucast (drop_bit 3 (bytes ! 5) AND 0x1f),
     5 := push_bit 6 (ucast (bytes ! 5 AND 0x7)) OR ucast (drop_bit 2 (bytes ! 6) AND 0x3f),
     6 := push_bit 7 (ucast (bytes ! 6 AND 0x3)) OR ucast (drop_bit 1 (bytes ! 7) AND 0x7f),
     7 := push_bit 8 (ucast (bytes ! 7 AND 0x1)) OR ucast (bytes ! 8)]"

lemma unpack_bits_9_fill:
  "unpack_bits_9 v b = fill_to 8 (\<lambda>k. regroup 8 (\<lambda>j. ucast (b ! j)) (9 * k) 9) v"
  unfolding unpack_bits_9_def literal_pieces
  by (intro fill_step fill_zero) (simp add: regroup_eval; fail)+

definition unpack_bits_10 :: "u64 list \<Rightarrow> u8 list \<Rightarrow> u64 list" where
  "unpack_bits_10 values bytes = values
    [0 := push_bit 2 (ucast (bytes ! 0)) OR ucast (drop_bit 6 (bytes ! 1) AND 0x3),
     1 := push_bit 4 (ucast (bytes ! 1 AND 0x3f)) OR ucast (drop_bit 4 (bytes ! 2) AND 0xf),
     2 := push_bit 6 (ucast (bytes ! 2 AND 0xf)) OR ucast (drop_bit 2 (bytes ! 3) AND 0x3f),
     3 := push_bit 8 (ucast (bytes ! 3 AND 0x3)) OR ucast (bytes ! 4),
     4 := push_bit 2 (ucast (bytes ! 5)) OR ucast (drop_bit 6 (bytes ! 6) AND 0x3),
     5 := push_bit 4 (ucast (bytes ! 6 AND 0x3f)) OR ucast (drop_bit 4 (bytes ! 7) AND 0xf),
     6 := push_bit 6 (ucast (bytes ! 7 AND 0xf)) OR ucast (drop_bit 2 (bytes ! 8) AND 0x3f),
     7 := push_bit 8 (ucast (bytes ! 8 AND 0x3)) OR ucast (bytes ! 9)]"

lemma unpack_bits_10_fill:
  "unpack_bits_10 v b = fill_to 8 (\<lambda>k. regroup 8 (\<lambda>j. ucast (b ! j)) (10 * k) 10) v"
  unfolding unpack_bits_10_def literal_pieces
  by (intro fill_step fill_zero) (simp add: regroup_eval; fail)+

definition unpack_bits_11 :: "u64 list \<Rightarrow> u8 list \<Rightarrow> u64 list" where
  "unpack_bits_11 values bytes = values
    [0 := push_bit 3 (ucast (bytes ! 0)) OR ucast (drop_bit 5 (bytes ! 1) AND 0x7),
     1 := push_bit 6 (ucast (bytes ! 1 AND 0x1f)) OR ucast (drop_bit 2 (bytes ! 2) AND 0x3f),
     2 := push_bit 9 (ucast (bytes ! 2 AND 0x3)) OR push_bit 1 (ucast (bytes ! 3)) OR
        ucast (drop_bit 7 (bytes ! 4) AND 0x1),
     3 := push_bit 4 (ucast (bytes ! 4 AND 0x7f)) OR ucast (drop_bit 4 (bytes ! 5) AND 0xf),
     4 := push_bit 7 (ucast (bytes ! 5 AND 0xf)) OR ucast (drop_bit 1 (bytes ! 6) AND 0x7f),
     5 := push_bit 10 (ucast (bytes ! 6 AND 0x1)) OR push_bit 2 (ucast (bytes ! 7)) OR
        ucast (drop_bit 6 (bytes ! 8) AND 0x3),
     6 := push_bit 5 (ucast (bytes ! 8 AND 0x3f)) OR ucast (drop_bit 3 (bytes ! 9) AND 0x1f),
     7 := push_bit 8 (ucast (bytes ! 9 AND 0x7)) OR ucast (bytes ! 10)]"

lemma unpack_bits_11_fill:
  "unpack_bits_11 v b = fill_to 8 (\<lambda>k. regroup 8 (\<lambda>j. ucast (b ! j)) (11 * k) 11) v"
  unfolding unpack_bits_11_def literal_pieces
  by (intro fill_step fill_zero) (simp add: regroup_eval; fail)+

definition unpack_bits_12 :: "u64 list \<Rightarrow> u8 list \<Rightarrow> u64 list" where
  "unpack_bits_12 values bytes = values
    [0 := push_bit 4 (ucast (bytes ! 0)) OR ucast (drop_bit 4 (bytes ! 1) AND 0xf),
     1 := push_bit 8 (ucast (bytes ! 1 AND 0xf)) OR ucast (bytes ! 2),
     2 := push_bit 4 (ucast (bytes ! 3)) OR ucast (drop_bit 4 (bytes ! 4) AND 0xf),
     3 := push_bit 8 (ucast (bytes ! 4 AND 0xf)) OR ucast (bytes ! 5),
     4 := push_bit 4 (ucast (bytes ! 6)) OR ucast (drop_bit 4 (bytes ! 7) AND 0xf),
     5 := push_bit 8 (ucast (bytes ! 7 AND 0xf)) OR ucast (bytes ! 8),
     6 := push_bit 4 (ucast (bytes ! 9)) OR ucast (drop_bit 4 (bytes ! 10) AND 0xf),
     7 := push_bit 8 (ucast (bytes ! 10 AND 0xf)) OR ucast (bytes ! 11)]"

lemma unpack_bits_12_fill:
  "unpack_bits_12 v b = fill_to 8 (\<lambda>k. regroup 8 (\<lambda>j. ucast (b ! j)) (12 * k) 12) v"
  unfolding unpack_bits_12_def literal_pieces
  by (intro fill_step fill_zero) (simp add: regroup_eval; fail)+

definition unpack_bits_13 :: "u64 list \<Rightarrow> u8 list \<Rightarrow> u64 list" where
  "unpack_bits_13 values bytes = values
    [0 := push_bit 5 (ucast (bytes ! 0)) OR ucast (drop_bit 3 (bytes ! 1) AND 0x1f),
     1 := push_bit 10 (ucast (bytes ! 1 AND 0x7)) OR push_bit 2 (ucast (bytes ! 2)) OR
        ucast (drop_bit 6 (bytes ! 3) AND 0x3),
     2 := push_bit 7 (ucast (bytes ! 3 AND 0x3f)) OR ucast (drop_bit 1 (bytes ! 4) AND 0x7f),
     3 := push_bit 12 (ucast (bytes ! 4 AND 0x1)) OR push_bit 4 (ucast (bytes ! 5)) OR
        ucast (drop_bit 4 (bytes ! 6) AND 0xf),
     4 := push_bit 9 (ucast (bytes ! 6 AND 0xf)) OR push_bit 1 (ucast (bytes ! 7)) OR
        ucast (drop_bit 7 (bytes ! 8) AND 0x1),
     5 := push_bit 6 (ucast (bytes ! 8 AND 0x7f)) OR ucast (drop_bit 2 (bytes ! 9) AND 0x3f),
     6 := push_bit 11 (ucast (bytes ! 9 AND 0x3)) OR push_bit 3 (ucast (bytes ! 10)) OR
        ucast (drop_bit 5 (bytes ! 11) AND 0x7),
     7 := push_bit 8 (ucast (bytes ! 11 AND 0x1f)) OR ucast (bytes ! 12)]"

lemma unpack_bits_13_fill:
  "unpack_bits_13 v b = fill_to 8 (\<lambda>k. regroup 8 (\<lambda>j. ucast (b ! j)) (13 * k) 13) v"
  unfolding unpack_bits_13_def literal_pieces
  by (intro fill_step fill_zero) (simp add: regroup_eval; fail)+

definition unpack_bits_14 :: "u64 list \<Rightarrow> u8 list \<Rightarrow> u64 list" where
  "unpack_bits_14 values bytes = values
    [0 := push_bit 6 (ucast (bytes ! 0)) OR ucast (drop_bit 2 (bytes ! 1) AND 0x3f),
     1 := push_bit 12 (ucast (bytes ! 1 AND 0x3)) OR push_bit 4 (ucast (bytes ! 2)) OR
        ucast (drop_bit 4 (bytes ! 3) AND 0xf),
     2 := push_bit 10 (ucast (bytes ! 3 AND 0xf)) OR push_bit 2 (ucast (bytes ! 4)) OR
        ucast (drop_bit 6 (bytes ! 5) AND 0x3),
     3 := push_bit 8 (ucast (bytes ! 5 AND 0x3f)) OR ucast (bytes ! 6),
     4 := push_bit 6 (ucast (bytes ! 7)) OR ucast (drop_bit 2 (bytes ! 8) AND 0x3f),
     5 := push_bit 12 (ucast (bytes ! 8 AND 0x3)) OR push_bit 4 (ucast (bytes ! 9)) OR
        ucast (drop_bit 4 (bytes ! 10) AND 0xf),
     6 := push_bit 10 (ucast (bytes ! 10 AND 0xf)) OR push_bit 2 (ucast (bytes ! 11)) OR
        ucast (drop_bit 6 (bytes ! 12) AND 0x3),
     7 := push_bit 8 (ucast (bytes ! 12 AND 0x3f)) OR ucast (bytes ! 13)]"

lemma unpack_bits_14_fill:
  "unpack_bits_14 v b = fill_to 8 (\<lambda>k. regroup 8 (\<lambda>j. ucast (b ! j)) (14 * k) 14) v"
  unfolding unpack_bits_14_def literal_pieces
  by (intro fill_step fill_zero) (simp add: regroup_eval; fail)+

definition unpack_bits_15 :: "u64 list \<Rightarrow> u8 list \<Rightarrow> u64 list" where
  "unpack_bits_15 values bytes = values
    [0 := push_bit 7 (ucast (bytes ! 0)) OR ucast (drop_bit 1 (bytes ! 1) AND 0x7f),
     1 := push_bit 14 (ucast (bytes ! 1 AND 0x1)) OR push_bit 6 (ucast (bytes ! 2)) OR
        ucast (drop_bit 2 (bytes ! 3) AND 0x3f),
     2 := push_bit 13 (ucast (bytes ! 3 AND 0x3)) OR push_bit 5 (ucast (bytes ! 4)) OR
        ucast (drop_bit 3 (bytes ! 5) AND 0x1f),
     3 := push_bit 12 (ucast (bytes ! 5 AND 0x7)) OR push_bit 4 (ucast (bytes ! 6)) OR
        ucast (drop_bit 4 (bytes ! 7) AND 0xf),
     4 := push_bit 11 (ucast (bytes ! 7 AND 0xf)) OR push_bit 3 (ucast (bytes ! 8)) OR
        ucast (drop_bit 5 (bytes ! 9) AND 0x7),
     5 := push_bit 10 (ucast (bytes ! 9 AND 0x1f)) OR push_bit 2 (ucast (bytes ! 10)) OR
        ucast (drop_bit 6 (bytes ! 11) AND 0x3),
     6 := push_bit 9 (ucast (bytes ! 11 AND 0x3f)) OR push_bit 1 (ucast (bytes ! 12)) OR
        ucast (drop_bit 7 (bytes ! 13) AND 0x1),
     7 := push_bit 8 (ucast (bytes ! 13 AND 0x7f)) OR ucast (bytes ! 14)]"

lemma unpack_bits_15_fill:
  "unpack_bits_15 v b = fill_to 8 (\<lambda>k. regroup 8 (\<lambda>j. ucast (b ! j)) (15 * k) 15) v"
  unfolding unpack_bits_15_def literal_pieces
  by (intro fill_step fill_zero) (simp add: regroup_eval; fail)+

definition unpack_bits_16 :: "u64 list \<Rightarrow> u8 list \<Rightarrow> u64 list" where
  "unpack_bits_16 values bytes = values
    [0 := push_bit 8 (ucast (bytes ! 0)) OR ucast (bytes ! 1),
     1 := push_bit 8 (ucast (bytes ! 2)) OR ucast (bytes ! 3),
     2 := push_bit 8 (ucast (bytes ! 4)) OR ucast (bytes ! 5),
     3 := push_bit 8 (ucast (bytes ! 6)) OR ucast (bytes ! 7),
     4 := push_bit 8 (ucast (bytes ! 8)) OR ucast (bytes ! 9),
     5 := push_bit 8 (ucast (bytes ! 10)) OR ucast (bytes ! 11),
     6 := push_bit 8 (ucast (bytes ! 12)) OR ucast (bytes ! 13),
     7 := push_bit 8 (ucast (bytes ! 14)) OR ucast (bytes ! 15)]"

lemma unpack_bits_16_fill:
  "unpack_bits_16 v b = fill_to 8 (\<lambda>k. regroup 8 (\<lambda>j. ucast (b ! j)) (16 * k) 16) v"
  unfolding unpack_bits_16_def literal_pieces
  by (intro fill_step fill_zero) (simp add: regroup_eval; fail)+

definition unpack_bits_17 :: "u64 list \<Rightarrow> u8 list \<Rightarrow> u64 list" where
  "unpack_bits_17 values bytes = values
    [0 := push_bit 9 (ucast (bytes ! 0)) OR push_bit 1 (ucast (bytes ! 1)) OR
        ucast (drop_bit 7 (bytes ! 2) AND 0x1),
     1 := push_bit 10 (ucast (bytes ! 2 AND 0x7f)) OR push_bit 2 (ucast (bytes ! 3)) OR
        ucast (drop_bit 6 (bytes ! 4) AND 0x3),
     2 := push_bit 11 (ucast (bytes ! 4 AND 0x3f)) OR push_bit 3 (ucast (bytes ! 5)) OR
        ucast (drop_bit 5 (bytes ! 6) AND 0x7),
     3 := push_bit 12 (ucast (bytes ! 6 AND 0x1f)) OR push_bit 4 (ucast (bytes ! 7)) OR
        ucast (drop_bit 4 (bytes ! 8) AND 0xf),
     4 := push_bit 13 (ucast (bytes ! 8 AND 0xf)) OR push_bit 5 (ucast (bytes ! 9)) OR
        ucast (drop_bit 3 (bytes ! 10) AND 0x1f),
     5 := push_bit 14 (ucast (bytes ! 10 AND 0x7)) OR push_bit 6 (ucast (bytes ! 11)) OR
        ucast (drop_bit 2 (bytes ! 12) AND 0x3f),
     6 := push_bit 15 (ucast (bytes ! 12 AND 0x3)) OR push_bit 7 (ucast (bytes ! 13)) OR
        ucast (drop_bit 1 (bytes ! 14) AND 0x7f),
     7 := push_bit 16 (ucast (bytes ! 14 AND 0x1)) OR push_bit 8 (ucast (bytes ! 15)) OR
        ucast (bytes ! 16)]"

lemma unpack_bits_17_fill:
  "unpack_bits_17 v b = fill_to 8 (\<lambda>k. regroup 8 (\<lambda>j. ucast (b ! j)) (17 * k) 17) v"
  unfolding unpack_bits_17_def literal_pieces
  by (intro fill_step fill_zero) (simp add: regroup_eval; fail)+

definition unpack_bits_18 :: "u64 list \<Rightarrow> u8 list \<Rightarrow> u64 list" where
  "unpack_bits_18 values bytes = values
    [0 := push_bit 10 (ucast (bytes ! 0)) OR push_bit 2 (ucast (bytes ! 1)) OR
        ucast (drop_bit 6 (bytes ! 2) AND 0x3),
     1 := push_bit 12 (ucast (bytes ! 2 AND 0x3f)) OR push_bit 4 (ucast (bytes ! 3)) OR
        ucast (drop_bit 4 (bytes ! 4) AND 0xf),
     2 := push_bit 14 (ucast (bytes ! 4 AND 0xf)) OR push_bit 6 (ucast (bytes ! 5)) OR
        ucast (drop_bit 2 (bytes ! 6) AND 0x3f),
     3 := push_bit 16 (ucast (bytes ! 6 AND 0x3)) OR push_bit 8 (ucast (bytes ! 7)) OR
        ucast (bytes ! 8),
     4 := push_bit 10 (ucast (bytes ! 9)) OR push_bit 2 (ucast (bytes ! 10)) OR
        ucast (drop_bit 6 (bytes ! 11) AND 0x3),
     5 := push_bit 12 (ucast (bytes ! 11 AND 0x3f)) OR push_bit 4 (ucast (bytes ! 12)) OR
        ucast (drop_bit 4 (bytes ! 13) AND 0xf),
     6 := push_bit 14 (ucast (bytes ! 13 AND 0xf)) OR push_bit 6 (ucast (bytes ! 14)) OR
        ucast (drop_bit 2 (bytes ! 15) AND 0x3f),
     7 := push_bit 16 (ucast (bytes ! 15 AND 0x3)) OR push_bit 8 (ucast (bytes ! 16)) OR
        ucast (bytes ! 17)]"

lemma unpack_bits_18_fill:
  "unpack_bits_18 v b = fill_to 8 (\<lambda>k. regroup 8 (\<lambda>j. ucast (b ! j)) (18 * k) 18) v"
  unfolding unpack_bits_18_def literal_pieces
  by (intro fill_step fill_zero) (simp add: regroup_eval; fail)+

definition unpack_bits_19 :: "u64 list \<Rightarrow> u8 list \<Rightarrow> u64 list" where
  "unpack_bits_19 values bytes = values
    [0 := push_bit 11 (ucast (bytes ! 0)) OR push_bit 3 (ucast (bytes ! 1)) OR
        ucast (drop_bit 5 (bytes ! 2) AND 0x7),
     1 := push_bit 14 (ucast (bytes ! 2 AND 0x1f)) OR push_bit 6 (ucast (bytes ! 3)) OR
        ucast (drop_bit 2 (bytes ! 4) AND 0x3f),
     2 := push_bit 17 (ucast (bytes ! 4 AND 0x3)) OR push_bit 9 (ucast (bytes ! 5)) OR
        push_bit 1 (ucast (bytes ! 6)) OR ucast (drop_bit 7 (bytes ! 7) AND 0x1),
     3 := push_bit 12 (ucast (bytes ! 7 AND 0x7f)) OR push_bit 4 (ucast (bytes ! 8)) OR
        ucast (drop_bit 4 (bytes ! 9) AND 0xf),
     4 := push_bit 15 (ucast (bytes ! 9 AND 0xf)) OR push_bit 7 (ucast (bytes ! 10)) OR
        ucast (drop_bit 1 (bytes ! 11) AND 0x7f),
     5 := push_bit 18 (ucast (bytes ! 11 AND 0x1)) OR push_bit 10 (ucast (bytes ! 12)) OR
        push_bit 2 (ucast (bytes ! 13)) OR ucast (drop_bit 6 (bytes ! 14) AND 0x3),
     6 := push_bit 13 (ucast (bytes ! 14 AND 0x3f)) OR push_bit 5 (ucast (bytes ! 15)) OR
        ucast (drop_bit 3 (bytes ! 16) AND 0x1f),
     7 := push_bit 16 (ucast (bytes ! 16 AND 0x7)) OR push_bit 8 (ucast (bytes ! 17)) OR
        ucast (bytes ! 18)]"

lemma unpack_bits_19_fill:
  "unpack_bits_19 v b = fill_to 8 (\<lambda>k. regroup 8 (\<lambda>j. ucast (b ! j)) (19 * k) 19) v"
  unfolding unpack_bits_19_def literal_pieces
  by (intro fill_step fill_zero) (simp add: regroup_eval; fail)+

definition unpack_bits_20 :: "u64 list \<Rightarrow> u8 list \<Rightarrow> u64 list" where
  "unpack_bits_20 values bytes = values
    [0 := push_bit 12 (ucast (bytes ! 0)) OR push_bit 4 (ucast (bytes ! 1)) OR
        ucast (drop_bit 4 (bytes ! 2) AND 0xf),
     1 := push_bit 16 (ucast (bytes ! 2 AND 0xf)) OR push_bit 8 (ucast (bytes ! 3)) OR
        ucast (bytes ! 4),
     2 := push_bit 12 (ucast (bytes ! 5)) OR push_bit 4 (ucast (bytes ! 6)) OR
        ucast (drop_bit 4 (bytes ! 7) AND 0xf),
     3 := push_bit 16 (ucast (bytes ! 7 AND 0xf)) OR push_bit 8 (ucast (bytes ! 8)) OR
        ucast (bytes ! 9),
     4 := push_bit 12 (ucast (bytes ! 10)) OR push_bit 4 (ucast (bytes ! 11)) OR
        ucast (drop_bit 4 (bytes ! 12) AND 0xf),
     5 := push_bit 16 (ucast (bytes ! 12 AND 0xf)) OR push_bit 8 (ucast (bytes ! 13)) OR
        ucast (bytes ! 14),
     6 := push_bit 12 (ucast (bytes ! 15)) OR push_bit 4 (ucast (bytes ! 16)) OR
        ucast (drop_bit 4 (bytes ! 17) AND 0xf),
     7 := push_bit 16 (ucast (bytes ! 17 AND 0xf)) OR push_bit 8 (ucast (bytes ! 18)) OR
        ucast (bytes ! 19)]"

lemma unpack_bits_20_fill:
  "unpack_bits_20 v b = fill_to 8 (\<lambda>k. regroup 8 (\<lambda>j. ucast (b ! j)) (20 * k) 20) v"
  unfolding unpack_bits_20_def literal_pieces
  by (intro fill_step fill_zero) (simp add: regroup_eval; fail)+

definition unpack_bits_21 :: "u64 list \<Rightarrow> u8 list \<Rightarrow> u64 list" where
  "unpack_bits_21 values bytes = values
    [0 := push_bit 13 (ucast (bytes ! 0)) OR push_bit 5 (ucast (bytes ! 1)) OR
        ucast (drop_bit 3 (bytes ! 2) AND 0x1f),
     1 := push_bit 18 (ucast (bytes ! 2 AND 0x7)) OR push_bit 10 (ucast (bytes ! 3)) OR
        push_bit 2 (ucast (bytes ! 4)) OR ucast (drop_bit 6 (bytes ! 5) AND 0x3),
     2 := push_bit 15 (ucast (bytes ! 5 AND 0x3f)) OR push_bit 7 (ucast (bytes ! 6)) OR
        ucast (drop_bit 1 (bytes ! 7) AND 0x7f),
     3 := push_bit 20 (ucast (bytes ! 7 AND 0x1)) OR push_bit 12 (ucast (bytes ! 8)) OR
        push_bit 4 (ucast (bytes ! 9)) OR ucast (drop_bit 4 (bytes ! 10) AND 0xf),
     4 := push_bit 17 (ucast (bytes ! 10 AND 0xf)) OR push_bit 9 (ucast (bytes ! 11)) OR
        push_bit 1 (ucast (bytes ! 12)) OR ucast (drop_bit 7 (bytes ! 13) AND 0x1),
     5 := push_bit 14 (ucast (bytes ! 13 AND 0x7f)) OR push_bit 6 (ucast (bytes ! 14)) OR
        ucast (drop_bit 2 (bytes ! 15) AND 0x3f),
     6 := push_bit 19 (ucast (bytes ! 15 AND 0x3)) OR push_bit 11 (ucast (bytes ! 16)) OR
        push_bit 3 (ucast (bytes ! 17)) OR ucast (drop_bit 5 (bytes ! 18) AND 0x7),
     7 := push_bit 16 (ucast (bytes ! 18 AND 0x1f)) OR push_bit 8 (ucast (bytes ! 19)) OR
        ucast (bytes ! 20)]"

lemma unpack_bits_21_fill:
  "unpack_bits_21 v b = fill_to 8 (\<lambda>k. regroup 8 (\<lambda>j. ucast (b ! j)) (21 * k) 21) v"
  unfolding unpack_bits_21_def literal_pieces
  by (intro fill_step fill_zero) (simp add: regroup_eval; fail)+

definition unpack_bits_22 :: "u64 list \<Rightarrow> u8 list \<Rightarrow> u64 list" where
  "unpack_bits_22 values bytes = values
    [0 := push_bit 14 (ucast (bytes ! 0)) OR push_bit 6 (ucast (bytes ! 1)) OR
        ucast (drop_bit 2 (bytes ! 2) AND 0x3f),
     1 := push_bit 20 (ucast (bytes ! 2 AND 0x3)) OR push_bit 12 (ucast (bytes ! 3)) OR
        push_bit 4 (ucast (bytes ! 4)) OR ucast (drop_bit 4 (bytes ! 5) AND 0xf),
     2 := push_bit 18 (ucast (bytes ! 5 AND 0xf)) OR push_bit 10 (ucast (bytes ! 6)) OR
        push_bit 2 (ucast (bytes ! 7)) OR ucast (drop_bit 6 (bytes ! 8) AND 0x3),
     3 := push_bit 16 (ucast (bytes ! 8 AND 0x3f)) OR push_bit 8 (ucast (bytes ! 9)) OR
        ucast (bytes ! 10),
     4 := push_bit 14 (ucast (bytes ! 11)) OR push_bit 6 (ucast (bytes ! 12)) OR
        ucast (drop_bit 2 (bytes ! 13) AND 0x3f),
     5 := push_bit 20 (ucast (bytes ! 13 AND 0x3)) OR push_bit 12 (ucast (bytes ! 14)) OR
        push_bit 4 (ucast (bytes ! 15)) OR ucast (drop_bit 4 (bytes ! 16) AND 0xf),
     6 := push_bit 18 (ucast (bytes ! 16 AND 0xf)) OR push_bit 10 (ucast (bytes ! 17)) OR
        push_bit 2 (ucast (bytes ! 18)) OR ucast (drop_bit 6 (bytes ! 19) AND 0x3),
     7 := push_bit 16 (ucast (bytes ! 19 AND 0x3f)) OR push_bit 8 (ucast (bytes ! 20)) OR
        ucast (bytes ! 21)]"

lemma unpack_bits_22_fill:
  "unpack_bits_22 v b = fill_to 8 (\<lambda>k. regroup 8 (\<lambda>j. ucast (b ! j)) (22 * k) 22) v"
  unfolding unpack_bits_22_def literal_pieces
  by (intro fill_step fill_zero) (simp add: regroup_eval; fail)+

definition unpack_bits_23 :: "u64 list \<Rightarrow> u8 list \<Rightarrow> u64 list" where
  "unpack_bits_23 values bytes = values
    [0 := push_bit 15 (ucast (bytes ! 0)) OR push_bit 7 (ucast (bytes ! 1)) OR
        ucast (drop_bit 1 (bytes ! 2) AND 0x7f),
     1 := push_bit 22 (ucast (bytes ! 2 AND 0x1)) OR push_bit 14 (ucast (bytes ! 3)) OR
        push_bit 6 (ucast (bytes ! 4)) OR ucast (drop_bit 2 (bytes ! 5) AND 0x3f),
     2 := push_bit 21 (ucast (bytes ! 5 AND 0x3)) OR push_bit 13 (ucast (bytes ! 6)) OR
        push_bit 5 (ucast (bytes ! 7)) OR ucast (drop_bit 3 (bytes ! 8) AND 0x1f),
     3 := push_bit 20 (ucast (bytes ! 8 AND 0x7)) OR push_bit 12 (ucast (bytes ! 9)) OR
        push_bit 4 (ucast (bytes ! 10)) OR ucast (drop_bit 4 (bytes ! 11) AND 0xf),
     4 := push_bit 19 (ucast (bytes ! 11 AND 0xf)) OR push_bit 11 (ucast (bytes ! 12)) OR
        push_bit 3 (ucast (bytes ! 13)) OR ucast (drop_bit 5 (bytes ! 14) AND 0x7),
     5 := push_bit 18 (ucast (bytes ! 14 AND 0x1f)) OR push_bit 10 (ucast (bytes ! 15)) OR
        push_bit 2 (ucast (bytes ! 16)) OR ucast (drop_bit 6 (bytes ! 17) AND 0x3),
     6 := push_bit 17 (ucast (bytes ! 17 AND 0x3f)) OR push_bit 9 (ucast (bytes ! 18)) OR
        push_bit 1 (ucast (bytes ! 19)) OR ucast (drop_bit 7 (bytes ! 20) AND 0x1),
     7 := push_bit 16 (ucast (bytes ! 20 AND 0x7f)) OR push_bit 8 (ucast (bytes ! 21)) OR
        ucast (bytes ! 22)]"

lemma unpack_bits_23_fill:
  "unpack_bits_23 v b = fill_to 8 (\<lambda>k. regroup 8 (\<lambda>j. ucast (b ! j)) (23 * k) 23) v"
  unfolding unpack_bits_23_def literal_pieces
  by (intro fill_step fill_zero) (simp add: regroup_eval; fail)+

definition unpack_bits_24 :: "u64 list \<Rightarrow> u8 list \<Rightarrow> u64 list" where
  "unpack_bits_24 values bytes = values
    [0 := push_bit 16 (ucast (bytes ! 0)) OR push_bit 8 (ucast (bytes ! 1)) OR
        ucast (bytes ! 2),
     1 := push_bit 16 (ucast (bytes ! 3)) OR push_bit 8 (ucast (bytes ! 4)) OR
        ucast (bytes ! 5),
     2 := push_bit 16 (ucast (bytes ! 6)) OR push_bit 8 (ucast (bytes ! 7)) OR
        ucast (bytes ! 8),
     3 := push_bit 16 (ucast (bytes ! 9)) OR push_bit 8 (ucast (bytes ! 10)) OR
        ucast (bytes ! 11),
     4 := push_bit 16 (ucast (bytes ! 12)) OR push_bit 8 (ucast (bytes ! 13)) OR
        ucast (bytes ! 14),
     5 := push_bit 16 (ucast (bytes ! 15)) OR push_bit 8 (ucast (bytes ! 16)) OR
        ucast (bytes ! 17),
     6 := push_bit 16 (ucast (bytes ! 18)) OR push_bit 8 (ucast (bytes ! 19)) OR
        ucast (bytes ! 20),
     7 := push_bit 16 (ucast (bytes ! 21)) OR push_bit 8 (ucast (bytes ! 22)) OR
        ucast (bytes ! 23)]"

lemma unpack_bits_24_fill:
  "unpack_bits_24 v b = fill_to 8 (\<lambda>k. regroup 8 (\<lambda>j. ucast (b ! j)) (24 * k) 24) v"
  unfolding unpack_bits_24_def literal_pieces
  by (intro fill_step fill_zero) (simp add: regroup_eval; fail)+

definition unpack_bits_25 :: "u64 list \<Rightarrow> u8 list \<Rightarrow> u64 list" where
  "unpack_bits_25 values bytes = values
    [0 := push_bit 17 (ucast (bytes ! 0)) OR push_bit 9 (ucast (bytes ! 1)) OR
        push_bit 1 (ucast (bytes ! 2)) OR ucast (drop_bit 7 (bytes ! 3) AND 0x1),
     1 := push_bit 18 (ucast (bytes ! 3 AND 0x7f)) OR push_bit 10 (ucast (bytes ! 4)) OR
        push_bit 2 (ucast (bytes ! 5)) OR ucast (drop_bit 6 (bytes ! 6) AND 0x3),
     2 := push_bit 19 (ucast (bytes ! 6 AND 0x3f)) OR push_bit 11 (ucast (bytes ! 7)) OR
        push_bit 3 (ucast (bytes ! 8)) OR ucast (drop_bit 5 (bytes ! 9) AND 0x7),
     3 := push_bit 20 (ucast (bytes ! 9 AND 0x1f)) OR push_bit 12 (ucast (bytes ! 10)) OR
        push_bit 4 (ucast (bytes ! 11)) OR ucast (drop_bit 4 (bytes ! 12) AND 0xf),
     4 := push_bit 21 (ucast (bytes ! 12 AND 0xf)) OR push_bit 13 (ucast (bytes ! 13)) OR
        push_bit 5 (ucast (bytes ! 14)) OR ucast (drop_bit 3 (bytes ! 15) AND 0x1f),
     5 := push_bit 22 (ucast (bytes ! 15 AND 0x7)) OR push_bit 14 (ucast (bytes ! 16)) OR
        push_bit 6 (ucast (bytes ! 17)) OR ucast (drop_bit 2 (bytes ! 18) AND 0x3f),
     6 := push_bit 23 (ucast (bytes ! 18 AND 0x3)) OR push_bit 15 (ucast (bytes ! 19)) OR
        push_bit 7 (ucast (bytes ! 20)) OR ucast (drop_bit 1 (bytes ! 21) AND 0x7f),
     7 := push_bit 24 (ucast (bytes ! 21 AND 0x1)) OR push_bit 16 (ucast (bytes ! 22)) OR
        push_bit 8 (ucast (bytes ! 23)) OR ucast (bytes ! 24)]"

lemma unpack_bits_25_fill:
  "unpack_bits_25 v b = fill_to 8 (\<lambda>k. regroup 8 (\<lambda>j. ucast (b ! j)) (25 * k) 25) v"
  unfolding unpack_bits_25_def literal_pieces
  by (intro fill_step fill_zero) (simp add: regroup_eval; fail)+

definition unpack_bits_26 :: "u64 list \<Rightarrow> u8 list \<Rightarrow> u64 list" where
  "unpack_bits_26 values bytes = values
    [0 := push_bit 18 (ucast (bytes ! 0)) OR push_bit 10 (ucast (bytes ! 1)) OR
        push_bit 2 (ucast (bytes ! 2)) OR ucast (drop_bit 6 (bytes ! 3) AND 0x3),
     1 := push_bit 20 (ucast (bytes ! 3 AND 0x3f)) OR push_bit 12 (ucast (bytes ! 4)) OR
        push_bit 4 (ucast (bytes ! 5)) OR ucast (drop_bit 4 (bytes ! 6) AND 0xf),
     2 := push_bit 22 (ucast (bytes ! 6 AND 0xf)) OR push_bit 14 (ucast (bytes ! 7)) OR
        push_bit 6 (ucast (bytes ! 8)) OR ucast (drop_bit 2 (bytes ! 9) AND 0x3f),
     3 := push_bit 24 (ucast (bytes ! 9 AND 0x3)) OR push_bit 16 (ucast (bytes ! 10)) OR
        push_bit 8 (ucast (bytes ! 11)) OR ucast (bytes ! 12),
     4 := push_bit 18 (ucast (bytes ! 13)) OR push_bit 10 (ucast (bytes ! 14)) OR
        push_bit 2 (ucast (bytes ! 15)) OR ucast (drop_bit 6 (bytes ! 16) AND 0x3),
     5 := push_bit 20 (ucast (bytes ! 16 AND 0x3f)) OR push_bit 12 (ucast (bytes ! 17)) OR
        push_bit 4 (ucast (bytes ! 18)) OR ucast (drop_bit 4 (bytes ! 19) AND 0xf),
     6 := push_bit 22 (ucast (bytes ! 19 AND 0xf)) OR push_bit 14 (ucast (bytes ! 20)) OR
        push_bit 6 (ucast (bytes ! 21)) OR ucast (drop_bit 2 (bytes ! 22) AND 0x3f),
     7 := push_bit 24 (ucast (bytes ! 22 AND 0x3)) OR push_bit 16 (ucast (bytes ! 23)) OR
        push_bit 8 (ucast (bytes ! 24)) OR ucast (bytes ! 25)]"

lemma unpack_bits_26_fill:
  "unpack_bits_26 v b = fill_to 8 (\<lambda>k. regroup 8 (\<lambda>j. ucast (b ! j)) (26 * k) 26) v"
  unfolding unpack_bits_26_def literal_pieces
  by (intro fill_step fill_zero) (simp add: regroup_eval; fail)+

definition unpack_bits_27 :: "u64 list \<Rightarrow> u8 list \<Rightarrow> u64 list" where
  "unpack_bits_27 values bytes = values
    [0 := push_bit 19 (ucast (bytes ! 0)) OR push_bit 11 (ucast (bytes ! 1)) OR
        push_bit 3 (ucast (bytes ! 2)) OR ucast (drop_bit 5 (bytes ! 3) AND 0x7),
     1 := push_bit 22 (ucast (bytes ! 3 AND 0x1f)) OR push_bit 14 (ucast (bytes ! 4)) OR
        push_bit 6 (ucast (bytes ! 5)) OR ucast (drop_bit 2 (bytes ! 6) AND 0x3f),
     2 := push_bit 25 (ucast (bytes ! 6 AND 0x3)) OR push_bit 17 (ucast (bytes ! 7)) OR
        push_bit 9 (ucast (bytes ! 8)) OR push_bit 1 (ucast (bytes ! 9)) OR
        ucast (drop_bit 7 (bytes ! 10) AND 0x1),
     3 := push_bit 20 (ucast (bytes ! 10 AND 0x7f)) OR push_bit 12 (ucast (bytes ! 11)) OR
        push_bit 4 (ucast (bytes ! 12)) OR ucast (drop_bit 4 (bytes ! 13) AND 0xf),
     4 := push_bit 23 (ucast (bytes ! 13 AND 0xf)) OR push_bit 15 (ucast (bytes ! 14)) OR
        push_bit 7 (ucast (bytes ! 15)) OR ucast (drop_bit 1 (bytes ! 16) AND 0x7f),
     5 := push_bit 26 (ucast (bytes ! 16 AND 0x1)) OR push_bit 18 (ucast (bytes ! 17)) OR
        push_bit 10 (ucast (bytes ! 18)) OR push_bit 2 (ucast (bytes ! 19)) OR
        ucast (drop_bit 6 (bytes ! 20) AND 0x3),
     6 := push_bit 21 (ucast (bytes ! 20 AND 0x3f)) OR push_bit 13 (ucast (bytes ! 21)) OR
        push_bit 5 (ucast (bytes ! 22)) OR ucast (drop_bit 3 (bytes ! 23) AND 0x1f),
     7 := push_bit 24 (ucast (bytes ! 23 AND 0x7)) OR push_bit 16 (ucast (bytes ! 24)) OR
        push_bit 8 (ucast (bytes ! 25)) OR ucast (bytes ! 26)]"

lemma unpack_bits_27_fill:
  "unpack_bits_27 v b = fill_to 8 (\<lambda>k. regroup 8 (\<lambda>j. ucast (b ! j)) (27 * k) 27) v"
  unfolding unpack_bits_27_def literal_pieces
  by (intro fill_step fill_zero) (simp add: regroup_eval; fail)+

definition unpack_bits_28 :: "u64 list \<Rightarrow> u8 list \<Rightarrow> u64 list" where
  "unpack_bits_28 values bytes = values
    [0 := push_bit 20 (ucast (bytes ! 0)) OR push_bit 12 (ucast (bytes ! 1)) OR
        push_bit 4 (ucast (bytes ! 2)) OR ucast (drop_bit 4 (bytes ! 3) AND 0xf),
     1 := push_bit 24 (ucast (bytes ! 3 AND 0xf)) OR push_bit 16 (ucast (bytes ! 4)) OR
        push_bit 8 (ucast (bytes ! 5)) OR ucast (bytes ! 6),
     2 := push_bit 20 (ucast (bytes ! 7)) OR push_bit 12 (ucast (bytes ! 8)) OR
        push_bit 4 (ucast (bytes ! 9)) OR ucast (drop_bit 4 (bytes ! 10) AND 0xf),
     3 := push_bit 24 (ucast (bytes ! 10 AND 0xf)) OR push_bit 16 (ucast (bytes ! 11)) OR
        push_bit 8 (ucast (bytes ! 12)) OR ucast (bytes ! 13),
     4 := push_bit 20 (ucast (bytes ! 14)) OR push_bit 12 (ucast (bytes ! 15)) OR
        push_bit 4 (ucast (bytes ! 16)) OR ucast (drop_bit 4 (bytes ! 17) AND 0xf),
     5 := push_bit 24 (ucast (bytes ! 17 AND 0xf)) OR push_bit 16 (ucast (bytes ! 18)) OR
        push_bit 8 (ucast (bytes ! 19)) OR ucast (bytes ! 20),
     6 := push_bit 20 (ucast (bytes ! 21)) OR push_bit 12 (ucast (bytes ! 22)) OR
        push_bit 4 (ucast (bytes ! 23)) OR ucast (drop_bit 4 (bytes ! 24) AND 0xf),
     7 := push_bit 24 (ucast (bytes ! 24 AND 0xf)) OR push_bit 16 (ucast (bytes ! 25)) OR
        push_bit 8 (ucast (bytes ! 26)) OR ucast (bytes ! 27)]"

lemma unpack_bits_28_fill:
  "unpack_bits_28 v b = fill_to 8 (\<lambda>k. regroup 8 (\<lambda>j. ucast (b ! j)) (28 * k) 28) v"
  unfolding unpack_bits_28_def literal_pieces
  by (intro fill_step fill_zero) (simp add: regroup_eval; fail)+

definition unpack_bits_29 :: "u64 list \<Rightarrow> u8 list \<Rightarrow> u64 list" where
  "unpack_bits_29 values bytes = values
    [0 := push_bit 21 (ucast (bytes ! 0)) OR push_bit 13 (ucast (bytes ! 1)) OR
        push_bit 5 (ucast (bytes ! 2)) OR ucast (drop_bit 3 (bytes ! 3) AND 0x1f),
     1 := push_bit 26 (ucast (bytes ! 3 AND 0x7)) OR push_bit 18 (ucast (bytes ! 4)) OR
        push_bit 10 (ucast (bytes ! 5)) OR push_bit 2 (ucast (bytes ! 6)) OR
        ucast (drop_bit 6 (bytes ! 7) AND 0x3),
     2 := push_bit 23 (ucast (bytes ! 7 AND 0x3f)) OR push_bit 15 (ucast (bytes ! 8)) OR
        push_bit 7 (ucast (bytes ! 9)) OR ucast (drop_bit 1 (bytes ! 10) AND 0x7f),
     3 := push_bit 28 (ucast (bytes ! 10 AND 0x1)) OR push_bit 20 (ucast (bytes ! 11)) OR
        push_bit 12 (ucast (bytes ! 12)) OR push_bit 4 (ucast (bytes ! 13)) OR
        ucast (drop_bit 4 (bytes ! 14) AND 0xf),
     4 := push_bit 25 (ucast (bytes ! 14 AND 0xf)) OR push_bit 17 (ucast (bytes ! 15)) OR
        push_bit 9 (ucast (bytes ! 16)) OR push_bit 1 (ucast (bytes ! 17)) OR
        ucast (drop_bit 7 (bytes ! 18) AND 0x1),
     5 := push_bit 22 (ucast (bytes ! 18 AND 0x7f)) OR push_bit 14 (ucast (bytes ! 19)) OR
        push_bit 6 (ucast (bytes ! 20)) OR ucast (drop_bit 2 (bytes ! 21) AND 0x3f),
     6 := push_bit 27 (ucast (bytes ! 21 AND 0x3)) OR push_bit 19 (ucast (bytes ! 22)) OR
        push_bit 11 (ucast (bytes ! 23)) OR push_bit 3 (ucast (bytes ! 24)) OR
        ucast (drop_bit 5 (bytes ! 25) AND 0x7),
     7 := push_bit 24 (ucast (bytes ! 25 AND 0x1f)) OR push_bit 16 (ucast (bytes ! 26)) OR
        push_bit 8 (ucast (bytes ! 27)) OR ucast (bytes ! 28)]"

lemma unpack_bits_29_fill:
  "unpack_bits_29 v b = fill_to 8 (\<lambda>k. regroup 8 (\<lambda>j. ucast (b ! j)) (29 * k) 29) v"
  unfolding unpack_bits_29_def literal_pieces
  by (intro fill_step fill_zero) (simp add: regroup_eval; fail)+

definition unpack_bits_30 :: "u64 list \<Rightarrow> u8 list \<Rightarrow> u64 list" where
  "unpack_bits_30 values bytes = values
    [0 := push_bit 22 (ucast (bytes ! 0)) OR push_bit 14 (ucast (bytes ! 1)) OR
        push_bit 6 (ucast (bytes ! 2)) OR ucast (drop_bit 2 (bytes ! 3) AND 0x3f),
     1 := push_bit 28 (ucast (bytes ! 3 AND 0x3)) OR push_bit 20 (ucast (bytes ! 4)) OR
        push_bit 12 (ucast (bytes ! 5)) OR push_bit 4 (ucast (bytes ! 6)) OR
        ucast (drop_bit 4 (bytes ! 7) AND 0xf),
     2 := push_bit 26 (ucast (bytes ! 7 AND 0xf)) OR push_bit 18 (ucast (bytes ! 8)) OR
        push_bit 10 (ucast (bytes ! 9)) OR push_bit 2 (ucast (bytes ! 10)) OR
        ucast (drop_bit 6 (bytes ! 11) AND 0x3),
     3 := push_bit 24 (ucast (bytes ! 11 AND 0x3f)) OR push_bit 16 (ucast (bytes ! 12)) OR
        push_bit 8 (ucast (bytes ! 13)) OR ucast (bytes ! 14),
     4 := push_bit 22 (ucast (bytes ! 15)) OR push_bit 14 (ucast (bytes ! 16)) OR
        push_bit 6 (ucast (bytes ! 17)) OR ucast (drop_bit 2 (bytes ! 18) AND 0x3f),
     5 := push_bit 28 (ucast (bytes ! 18 AND 0x3)) OR push_bit 20 (ucast (bytes ! 19)) OR
        push_bit 12 (ucast (bytes ! 20)) OR push_bit 4 (ucast (bytes ! 21)) OR
        ucast (drop_bit 4 (bytes ! 22) AND 0xf),
     6 := push_bit 26 (ucast (bytes ! 22 AND 0xf)) OR push_bit 18 (ucast (bytes ! 23)) OR
        push_bit 10 (ucast (bytes ! 24)) OR push_bit 2 (ucast (bytes ! 25)) OR
        ucast (drop_bit 6 (bytes ! 26) AND 0x3),
     7 := push_bit 24 (ucast (bytes ! 26 AND 0x3f)) OR push_bit 16 (ucast (bytes ! 27)) OR
        push_bit 8 (ucast (bytes ! 28)) OR ucast (bytes ! 29)]"

lemma unpack_bits_30_fill:
  "unpack_bits_30 v b = fill_to 8 (\<lambda>k. regroup 8 (\<lambda>j. ucast (b ! j)) (30 * k) 30) v"
  unfolding unpack_bits_30_def literal_pieces
  by (intro fill_step fill_zero) (simp add: regroup_eval; fail)+

definition unpack_bits_31 :: "u64 list \<Rightarrow> u8 list \<Rightarrow> u64 list" where
  "unpack_bits_31 values bytes = values
    [0 := push_bit 23 (ucast (bytes ! 0)) OR push_bit 15 (ucast (bytes ! 1)) OR
        push_bit 7 (ucast (bytes ! 2)) OR ucast (drop_bit 1 (bytes ! 3) AND 0x7f),
     1 := push_bit 30 (ucast (bytes ! 3 AND 0x1)) OR push_bit 22 (ucast (bytes ! 4)) OR
        push_bit 14 (ucast (bytes ! 5)) OR push_bit 6 (ucast (bytes ! 6)) OR
        ucast (drop_bit 2 (bytes ! 7) AND 0x3f),
     2 := push_bit 29 (ucast (bytes ! 7 AND 0x3)) OR push_bit 21 (ucast (bytes ! 8)) OR
        push_bit 13 (ucast (bytes ! 9)) OR push_bit 5 (ucast (bytes ! 10)) OR
        ucast (drop_bit 3 (bytes ! 11) AND 0x1f),
     3 := push_bit 28 (ucast (bytes ! 11 AND 0x7)) OR push_bit 20 (ucast (bytes ! 12)) OR
        push_bit 12 (ucast (bytes ! 13)) OR push_bit 4 (ucast (bytes ! 14)) OR
        ucast (drop_bit 4 (bytes ! 15) AND 0xf),
     4 := push_bit 27 (ucast (bytes ! 15 AND 0xf)) OR push_bit 19 (ucast (bytes ! 16)) OR
        push_bit 11 (ucast (bytes ! 17)) OR push_bit 3 (ucast (bytes ! 18)) OR
        ucast (drop_bit 5 (bytes ! 19) AND 0x7),
     5 := push_bit 26 (ucast (bytes ! 19 AND 0x1f)) OR push_bit 18 (ucast (bytes ! 20)) OR
        push_bit 10 (ucast (bytes ! 21)) OR push_bit 2 (ucast (bytes ! 22)) OR
        ucast (drop_bit 6 (bytes ! 23) AND 0x3),
     6 := push_bit 25 (ucast (bytes ! 23 AND 0x3f)) OR push_bit 17 (ucast (bytes ! 24)) OR
        push_bit 9 (ucast (bytes ! 25)) OR push_bit 1 (ucast (bytes ! 26)) OR
        ucast (drop_bit 7 (bytes ! 27) AND 0x1),
     7 := push_bit 24 (ucast (bytes ! 27 AND 0x7f)) OR push_bit 16 (ucast (bytes ! 28)) OR
        push_bit 8 (ucast (bytes ! 29)) OR ucast (bytes ! 30)]"

lemma unpack_bits_31_fill:
  "unpack_bits_31 v b = fill_to 8 (\<lambda>k. regroup 8 (\<lambda>j. ucast (b ! j)) (31 * k) 31) v"
  unfolding unpack_bits_31_def literal_pieces
  by (intro fill_step fill_zero) (simp add: regroup_eval; fail)+

definition unpack_bits_32 :: "u64 list \<Rightarrow> u8 list \<Rightarrow> u64 list" where
  "unpack_bits_32 values bytes = values
    [0 := push_bit 24 (ucast (bytes ! 0)) OR push_bit 16 (ucast (bytes ! 1)) OR
        push_bit 8 (ucast (bytes ! 2)) OR ucast (bytes ! 3),
     1 := push_bit 24 (ucast (bytes ! 4)) OR push_bit 16 (ucast (bytes ! 5)) OR
        push_bit 8 (ucast (bytes ! 6)) OR ucast (bytes ! 7),
     2 := push_bit 24 (ucast (bytes ! 8)) OR push_bit 16 (ucast (bytes ! 9)) OR
        push_bit 8 (ucast (bytes ! 10)) OR ucast (bytes ! 11),
     3 := push_bit 24 (ucast (bytes ! 12)) OR push_bit 16 (ucast (bytes ! 13)) OR
        push_bit 8 (ucast (bytes ! 14)) OR ucast (bytes ! 15),
     4 := push_bit 24 (ucast (bytes ! 16)) OR push_bit 16 (ucast (bytes ! 17)) OR
        push_bit 8 (ucast (bytes ! 18)) OR ucast (bytes ! 19),
     5 := push_bit 24 (ucast (bytes ! 20)) OR push_bit 16 (ucast (bytes ! 21)) OR
        push_bit 8 (ucast (bytes ! 22)) OR ucast (bytes ! 23),
     6 := push_bit 24 (ucast (bytes ! 24)) OR push_bit 16 (ucast (bytes ! 25)) OR
        push_bit 8 (ucast (bytes ! 26)) OR ucast (bytes ! 27),
     7 := push_bit 24 (ucast (bytes ! 28)) OR push_bit 16 (ucast (bytes ! 29)) OR
        push_bit 8 (ucast (bytes ! 30)) OR ucast (bytes ! 31)]"

lemma unpack_bits_32_fill:
  "unpack_bits_32 v b = fill_to 8 (\<lambda>k. regroup 8 (\<lambda>j. ucast (b ! j)) (32 * k) 32) v"
  unfolding unpack_bits_32_def literal_pieces
  by (intro fill_step fill_zero) (simp add: regroup_eval; fail)+

definition unpack_bits_33 :: "u64 list \<Rightarrow> u8 list \<Rightarrow> u64 list" where
  "unpack_bits_33 values bytes = values
    [0 := push_bit 25 (ucast (bytes ! 0)) OR push_bit 17 (ucast (bytes ! 1)) OR
        push_bit 9 (ucast (bytes ! 2)) OR push_bit 1 (ucast (bytes ! 3)) OR
        ucast (drop_bit 7 (bytes ! 4) AND 0x1),
     1 := push_bit 26 (ucast (bytes ! 4 AND 0x7f)) OR push_bit 18 (ucast (bytes ! 5)) OR
        push_bit 10 (ucast (bytes ! 6)) OR push_bit 2 (ucast (bytes ! 7)) OR
        ucast (drop_bit 6 (bytes ! 8) AND 0x3),
     2 := push_bit 27 (ucast (bytes ! 8 AND 0x3f)) OR push_bit 19 (ucast (bytes ! 9)) OR
        push_bit 11 (ucast (bytes ! 10)) OR push_bit 3 (ucast (bytes ! 11)) OR
        ucast (drop_bit 5 (bytes ! 12) AND 0x7),
     3 := push_bit 28 (ucast (bytes ! 12 AND 0x1f)) OR push_bit 20 (ucast (bytes ! 13)) OR
        push_bit 12 (ucast (bytes ! 14)) OR push_bit 4 (ucast (bytes ! 15)) OR
        ucast (drop_bit 4 (bytes ! 16) AND 0xf),
     4 := push_bit 29 (ucast (bytes ! 16 AND 0xf)) OR push_bit 21 (ucast (bytes ! 17)) OR
        push_bit 13 (ucast (bytes ! 18)) OR push_bit 5 (ucast (bytes ! 19)) OR
        ucast (drop_bit 3 (bytes ! 20) AND 0x1f),
     5 := push_bit 30 (ucast (bytes ! 20 AND 0x7)) OR push_bit 22 (ucast (bytes ! 21)) OR
        push_bit 14 (ucast (bytes ! 22)) OR push_bit 6 (ucast (bytes ! 23)) OR
        ucast (drop_bit 2 (bytes ! 24) AND 0x3f),
     6 := push_bit 31 (ucast (bytes ! 24 AND 0x3)) OR push_bit 23 (ucast (bytes ! 25)) OR
        push_bit 15 (ucast (bytes ! 26)) OR push_bit 7 (ucast (bytes ! 27)) OR
        ucast (drop_bit 1 (bytes ! 28) AND 0x7f),
     7 := push_bit 32 (ucast (bytes ! 28 AND 0x1)) OR push_bit 24 (ucast (bytes ! 29)) OR
        push_bit 16 (ucast (bytes ! 30)) OR push_bit 8 (ucast (bytes ! 31)) OR
        ucast (bytes ! 32)]"

lemma unpack_bits_33_fill:
  "unpack_bits_33 v b = fill_to 8 (\<lambda>k. regroup 8 (\<lambda>j. ucast (b ! j)) (33 * k) 33) v"
  unfolding unpack_bits_33_def literal_pieces
  by (intro fill_step fill_zero) (simp add: regroup_eval; fail)+

definition unpack_bits_34 :: "u64 list \<Rightarrow> u8 list \<Rightarrow> u64 list" where
  "unpack_bits_34 values bytes = values
    [0 := push_bit 26 (ucast (bytes ! 0)) OR push_bit 18 (ucast (bytes ! 1)) OR
        push_bit 10 (ucast (bytes ! 2)) OR push_bit 2 (ucast (bytes ! 3)) OR
        ucast (drop_bit 6 (bytes ! 4) AND 0x3),
     1 := push_bit 28 (ucast (bytes ! 4 AND 0x3f)) OR push_bit 20 (ucast (bytes ! 5)) OR
        push_bit 12 (ucast (bytes ! 6)) OR push_bit 4 (ucast (bytes ! 7)) OR
        ucast (drop_bit 4 (bytes ! 8) AND 0xf),
     2 := push_bit 30 (ucast (bytes ! 8 AND 0xf)) OR push_bit 22 (ucast (bytes ! 9)) OR
        push_bit 14 (ucast (bytes ! 10)) OR push_bit 6 (ucast (bytes ! 11)) OR
        ucast (drop_bit 2 (bytes ! 12) AND 0x3f),
     3 := push_bit 32 (ucast (bytes ! 12 AND 0x3)) OR push_bit 24 (ucast (bytes ! 13)) OR
        push_bit 16 (ucast (bytes ! 14)) OR push_bit 8 (ucast (bytes ! 15)) OR
        ucast (bytes ! 16),
     4 := push_bit 26 (ucast (bytes ! 17)) OR push_bit 18 (ucast (bytes ! 18)) OR
        push_bit 10 (ucast (bytes ! 19)) OR push_bit 2 (ucast (bytes ! 20)) OR
        ucast (drop_bit 6 (bytes ! 21) AND 0x3),
     5 := push_bit 28 (ucast (bytes ! 21 AND 0x3f)) OR push_bit 20 (ucast (bytes ! 22)) OR
        push_bit 12 (ucast (bytes ! 23)) OR push_bit 4 (ucast (bytes ! 24)) OR
        ucast (drop_bit 4 (bytes ! 25) AND 0xf),
     6 := push_bit 30 (ucast (bytes ! 25 AND 0xf)) OR push_bit 22 (ucast (bytes ! 26)) OR
        push_bit 14 (ucast (bytes ! 27)) OR push_bit 6 (ucast (bytes ! 28)) OR
        ucast (drop_bit 2 (bytes ! 29) AND 0x3f),
     7 := push_bit 32 (ucast (bytes ! 29 AND 0x3)) OR push_bit 24 (ucast (bytes ! 30)) OR
        push_bit 16 (ucast (bytes ! 31)) OR push_bit 8 (ucast (bytes ! 32)) OR
        ucast (bytes ! 33)]"

lemma unpack_bits_34_fill:
  "unpack_bits_34 v b = fill_to 8 (\<lambda>k. regroup 8 (\<lambda>j. ucast (b ! j)) (34 * k) 34) v"
  unfolding unpack_bits_34_def literal_pieces
  by (intro fill_step fill_zero) (simp add: regroup_eval; fail)+

definition unpack_bits_35 :: "u64 list \<Rightarrow> u8 list \<Rightarrow> u64 list" where
  "unpack_bits_35 values bytes = values
    [0 := push_bit 27 (ucast (bytes ! 0)) OR push_bit 19 (ucast (bytes ! 1)) OR
        push_bit 11 (ucast (bytes ! 2)) OR push_bit 3 (ucast (bytes ! 3)) OR
        ucast (drop_bit 5 (bytes ! 4) AND 0x7),
     1 := push_bit 30 (ucast (bytes ! 4 AND 0x1f)) OR push_bit 22 (ucast (bytes ! 5)) OR
        push_bit 14 (ucast (bytes ! 6)) OR push_bit 6 (ucast (bytes ! 7)) OR
        ucast (drop_bit 2 (bytes ! 8) AND 0x3f),
     2 := push_bit 33 (ucast (bytes ! 8 AND 0x3)) OR push_bit 25 (ucast (bytes ! 9)) OR
        push_bit 17 (ucast (bytes ! 10)) OR push_bit 9 (ucast (bytes ! 11)) OR
        push_bit 1 (ucast (bytes ! 12)) OR ucast (drop_bit 7 (bytes ! 13) AND 0x1),
     3 := push_bit 28 (ucast (bytes ! 13 AND 0x7f)) OR push_bit 20 (ucast (bytes ! 14)) OR
        push_bit 12 (ucast (bytes ! 15)) OR push_bit 4 (ucast (bytes ! 16)) OR
        ucast (drop_bit 4 (bytes ! 17) AND 0xf),
     4 := push_bit 31 (ucast (bytes ! 17 AND 0xf)) OR push_bit 23 (ucast (bytes ! 18)) OR
        push_bit 15 (ucast (bytes ! 19)) OR push_bit 7 (ucast (bytes ! 20)) OR
        ucast (drop_bit 1 (bytes ! 21) AND 0x7f),
     5 := push_bit 34 (ucast (bytes ! 21 AND 0x1)) OR push_bit 26 (ucast (bytes ! 22)) OR
        push_bit 18 (ucast (bytes ! 23)) OR push_bit 10 (ucast (bytes ! 24)) OR
        push_bit 2 (ucast (bytes ! 25)) OR ucast (drop_bit 6 (bytes ! 26) AND 0x3),
     6 := push_bit 29 (ucast (bytes ! 26 AND 0x3f)) OR push_bit 21 (ucast (bytes ! 27)) OR
        push_bit 13 (ucast (bytes ! 28)) OR push_bit 5 (ucast (bytes ! 29)) OR
        ucast (drop_bit 3 (bytes ! 30) AND 0x1f),
     7 := push_bit 32 (ucast (bytes ! 30 AND 0x7)) OR push_bit 24 (ucast (bytes ! 31)) OR
        push_bit 16 (ucast (bytes ! 32)) OR push_bit 8 (ucast (bytes ! 33)) OR
        ucast (bytes ! 34)]"

lemma unpack_bits_35_fill:
  "unpack_bits_35 v b = fill_to 8 (\<lambda>k. regroup 8 (\<lambda>j. ucast (b ! j)) (35 * k) 35) v"
  unfolding unpack_bits_35_def literal_pieces
  by (intro fill_step fill_zero) (simp add: regroup_eval; fail)+

definition unpack_bits_36 :: "u64 list \<Rightarrow> u8 list \<Rightarrow> u64 list" where
  "unpack_bits_36 values bytes = values
    [0 := push_bit 28 (ucast (bytes ! 0)) OR push_bit 20 (ucast (bytes ! 1)) OR
        push_bit 12 (ucast (bytes ! 2)) OR push_bit 4 (ucast (bytes ! 3)) OR
        ucast (drop_bit 4 (bytes ! 4) AND 0xf),
     1 := push_bit 32 (ucast (bytes ! 4 AND 0xf)) OR push_bit 24 (ucast (bytes ! 5)) OR
        push_bit 16 (ucast (bytes ! 6)) OR push_bit 8 (ucast (bytes ! 7)) OR
        ucast (bytes ! 8),
     2 := push_bit 28 (ucast (bytes ! 9)) OR push_bit 20 (ucast (bytes ! 10)) OR
        push_bit 12 (ucast (bytes ! 11)) OR push_bit 4 (ucast (bytes ! 12)) OR
        ucast (drop_bit 4 (bytes ! 13) AND 0xf),
     3 := push_bit 32 (ucast (bytes ! 13 AND 0xf)) OR push_bit 24 (ucast (bytes ! 14)) OR
        push_bit 16 (ucast (bytes ! 15)) OR push_bit 8 (ucast (bytes ! 16)) OR
        ucast (bytes ! 17),
     4 := push_bit 28 (ucast (bytes ! 18)) OR push_bit 20 (ucast (bytes ! 19)) OR
        push_bit 12 (ucast (bytes ! 20)) OR push_bit 4 (ucast (bytes ! 21)) OR
        ucast (drop_bit 4 (bytes ! 22) AND 0xf),
     5 := push_bit 32 (ucast (bytes ! 22 AND 0xf)) OR push_bit 24 (ucast (bytes ! 23)) OR
        push_bit 16 (ucast (bytes ! 24)) OR push_bit 8 (ucast (bytes ! 25)) OR
        ucast (bytes ! 26),
     6 := push_bit 28 (ucast (bytes ! 27)) OR push_bit 20 (ucast (bytes ! 28)) OR
        push_bit 12 (ucast (bytes ! 29)) OR push_bit 4 (ucast (bytes ! 30)) OR
        ucast (drop_bit 4 (bytes ! 31) AND 0xf),
     7 := push_bit 32 (ucast (bytes ! 31 AND 0xf)) OR push_bit 24 (ucast (bytes ! 32)) OR
        push_bit 16 (ucast (bytes ! 33)) OR push_bit 8 (ucast (bytes ! 34)) OR
        ucast (bytes ! 35)]"

lemma unpack_bits_36_fill:
  "unpack_bits_36 v b = fill_to 8 (\<lambda>k. regroup 8 (\<lambda>j. ucast (b ! j)) (36 * k) 36) v"
  unfolding unpack_bits_36_def literal_pieces
  by (intro fill_step fill_zero) (simp add: regroup_eval; fail)+

definition unpack_bits_37 :: "u64 list \<Rightarrow> u8 list \<Rightarrow> u64 list" where
  "unpack_bits_37 values bytes = values
    [0 := push_bit 29 (ucast (bytes ! 0)) OR push_bit 21 (ucast (bytes ! 1)) OR
        push_bit 13 (ucast (bytes ! 2)) OR push_bit 5 (ucast (bytes ! 3)) OR
        ucast (drop_bit 3 (bytes ! 4) AND 0x1f),
     1 := push_bit 34 (ucast (bytes ! 4 AND 0x7)) OR push_bit 26 (ucast (bytes ! 5)) OR
        push_bit 18 (ucast (bytes ! 6)) OR push_bit 10 (ucast (bytes ! 7)) OR
        push_bit 2 (ucast (bytes ! 8)) OR ucast (drop_bit 6 (bytes ! 9) AND 0x3),
     2 := push_bit 31 (ucast (bytes ! 9 AND 0x3f)) OR push_bit 23 (ucast (bytes ! 10)) OR
        push_bit 15 (ucast (bytes ! 11)) OR push_bit 7 (ucast (bytes ! 12)) OR
        ucast (drop_bit 1 (bytes ! 13) AND 0x7f),
     3 := push_bit 36 (ucast (bytes ! 13 AND 0x1)) OR push_bit 28 (ucast (bytes ! 14)) OR
        push_bit 20 (ucast (bytes ! 15)) OR push_bit 12 (ucast (bytes ! 16)) OR
        push_bit 4 (ucast (bytes ! 17)) OR ucast (drop_bit 4 (bytes ! 18) AND 0xf),
     4 := push_bit 33 (ucast (bytes ! 18 AND 0xf)) OR push_bit 25 (ucast (bytes ! 19)) OR
        push_bit 17 (ucast (bytes ! 20)) OR push_bit 9 (ucast (bytes ! 21)) OR
        push_bit 1 (ucast (bytes ! 22)) OR ucast (drop_bit 7 (bytes ! 23) AND 0x1),
     5 := push_bit 30 (ucast (bytes ! 23 AND 0x7f)) OR push_bit 22 (ucast (bytes ! 24)) OR
        push_bit 14 (ucast (bytes ! 25)) OR push_bit 6 (ucast (bytes ! 26)) OR
        ucast (drop_bit 2 (bytes ! 27) AND 0x3f),
     6 := push_bit 35 (ucast (bytes ! 27 AND 0x3)) OR push_bit 27 (ucast (bytes ! 28)) OR
        push_bit 19 (ucast (bytes ! 29)) OR push_bit 11 (ucast (bytes ! 30)) OR
        push_bit 3 (ucast (bytes ! 31)) OR ucast (drop_bit 5 (bytes ! 32) AND 0x7),
     7 := push_bit 32 (ucast (bytes ! 32 AND 0x1f)) OR push_bit 24 (ucast (bytes ! 33)) OR
        push_bit 16 (ucast (bytes ! 34)) OR push_bit 8 (ucast (bytes ! 35)) OR
        ucast (bytes ! 36)]"

lemma unpack_bits_37_fill:
  "unpack_bits_37 v b = fill_to 8 (\<lambda>k. regroup 8 (\<lambda>j. ucast (b ! j)) (37 * k) 37) v"
  unfolding unpack_bits_37_def literal_pieces
  by (intro fill_step fill_zero) (simp add: regroup_eval; fail)+

definition unpack_bits_38 :: "u64 list \<Rightarrow> u8 list \<Rightarrow> u64 list" where
  "unpack_bits_38 values bytes = values
    [0 := push_bit 30 (ucast (bytes ! 0)) OR push_bit 22 (ucast (bytes ! 1)) OR
        push_bit 14 (ucast (bytes ! 2)) OR push_bit 6 (ucast (bytes ! 3)) OR
        ucast (drop_bit 2 (bytes ! 4) AND 0x3f),
     1 := push_bit 36 (ucast (bytes ! 4 AND 0x3)) OR push_bit 28 (ucast (bytes ! 5)) OR
        push_bit 20 (ucast (bytes ! 6)) OR push_bit 12 (ucast (bytes ! 7)) OR
        push_bit 4 (ucast (bytes ! 8)) OR ucast (drop_bit 4 (bytes ! 9) AND 0xf),
     2 := push_bit 34 (ucast (bytes ! 9 AND 0xf)) OR push_bit 26 (ucast (bytes ! 10)) OR
        push_bit 18 (ucast (bytes ! 11)) OR push_bit 10 (ucast (bytes ! 12)) OR
        push_bit 2 (ucast (bytes ! 13)) OR ucast (drop_bit 6 (bytes ! 14) AND 0x3),
     3 := push_bit 32 (ucast (bytes ! 14 AND 0x3f)) OR push_bit 24 (ucast (bytes ! 15)) OR
        push_bit 16 (ucast (bytes ! 16)) OR push_bit 8 (ucast (bytes ! 17)) OR
        ucast (bytes ! 18),
     4 := push_bit 30 (ucast (bytes ! 19)) OR push_bit 22 (ucast (bytes ! 20)) OR
        push_bit 14 (ucast (bytes ! 21)) OR push_bit 6 (ucast (bytes ! 22)) OR
        ucast (drop_bit 2 (bytes ! 23) AND 0x3f),
     5 := push_bit 36 (ucast (bytes ! 23 AND 0x3)) OR push_bit 28 (ucast (bytes ! 24)) OR
        push_bit 20 (ucast (bytes ! 25)) OR push_bit 12 (ucast (bytes ! 26)) OR
        push_bit 4 (ucast (bytes ! 27)) OR ucast (drop_bit 4 (bytes ! 28) AND 0xf),
     6 := push_bit 34 (ucast (bytes ! 28 AND 0xf)) OR push_bit 26 (ucast (bytes ! 29)) OR
        push_bit 18 (ucast (bytes ! 30)) OR push_bit 10 (ucast (bytes ! 31)) OR
        push_bit 2 (ucast (bytes ! 32)) OR ucast (drop_bit 6 (bytes ! 33) AND 0x3),
     7 := push_bit 32 (ucast (bytes ! 33 AND 0x3f)) OR push_bit 24 (ucast (bytes ! 34)) OR
        push_bit 16 (ucast (bytes ! 35)) OR push_bit 8 (ucast (bytes ! 36)) OR
        ucast (bytes ! 37)]"

lemma unpack_bits_38_fill:
  "unpack_bits_38 v b = fill_to 8 (\<lambda>k. regroup 8 (\<lambda>j. ucast (b ! j)) (38 * k) 38) v"
  unfolding unpack_bits_38_def literal_pieces
  by (intro fill_step fill_zero) (simp add: regroup_eval; fail)+

definition unpack_bits_39 :: "u64 list \<Rightarrow> u8 list \<Rightarrow> u64 list" where
  "unpack_bits_39 values bytes = values
    [0 := push_bit 31 (ucast (bytes ! 0)) OR push_bit 23 (ucast (bytes ! 1)) OR
        push_bit 15 (ucast (bytes ! 2)) OR push_bit 7 (ucast (bytes ! 3)) OR
        ucast (drop_bit 1 (bytes ! 4) AND 0x7f),
     1 := push_bit 38 (ucast (bytes ! 4 AND 0x1)) OR push_bit 30 (ucast (bytes ! 5)) OR
        push_bit 22 (ucast (bytes ! 6)) OR push_bit 14 (ucast (bytes ! 7)) OR
        push_bit 6 (ucast (bytes ! 8)) OR ucast (drop_bit 2 (bytes ! 9) AND 0x3f),
     2 := push_bit 37 (ucast (bytes ! 9 AND 0x3)) OR push_bit 29 (ucast (bytes ! 10)) OR
        push_bit 21 (ucast (bytes ! 11)) OR push_bit 13 (ucast (bytes ! 12)) OR
        push_bit 5 (ucast (bytes ! 13)) OR ucast (drop_bit 3 (bytes ! 14) AND 0x1f),
     3 := push_bit 36 (ucast (bytes ! 14 AND 0x7)) OR push_bit 28 (ucast (bytes ! 15)) OR
        push_bit 20 (ucast (bytes ! 16)) OR push_bit 12 (ucast (bytes ! 17)) OR
        push_bit 4 (ucast (bytes ! 18)) OR ucast (drop_bit 4 (bytes ! 19) AND 0xf),
     4 := push_bit 35 (ucast (bytes ! 19 AND 0xf)) OR push_bit 27 (ucast (bytes ! 20)) OR
        push_bit 19 (ucast (bytes ! 21)) OR push_bit 11 (ucast (bytes ! 22)) OR
        push_bit 3 (ucast (bytes ! 23)) OR ucast (drop_bit 5 (bytes ! 24) AND 0x7),
     5 := push_bit 34 (ucast (bytes ! 24 AND 0x1f)) OR push_bit 26 (ucast (bytes ! 25)) OR
        push_bit 18 (ucast (bytes ! 26)) OR push_bit 10 (ucast (bytes ! 27)) OR
        push_bit 2 (ucast (bytes ! 28)) OR ucast (drop_bit 6 (bytes ! 29) AND 0x3),
     6 := push_bit 33 (ucast (bytes ! 29 AND 0x3f)) OR push_bit 25 (ucast (bytes ! 30)) OR
        push_bit 17 (ucast (bytes ! 31)) OR push_bit 9 (ucast (bytes ! 32)) OR
        push_bit 1 (ucast (bytes ! 33)) OR ucast (drop_bit 7 (bytes ! 34) AND 0x1),
     7 := push_bit 32 (ucast (bytes ! 34 AND 0x7f)) OR push_bit 24 (ucast (bytes ! 35)) OR
        push_bit 16 (ucast (bytes ! 36)) OR push_bit 8 (ucast (bytes ! 37)) OR
        ucast (bytes ! 38)]"

lemma unpack_bits_39_fill:
  "unpack_bits_39 v b = fill_to 8 (\<lambda>k. regroup 8 (\<lambda>j. ucast (b ! j)) (39 * k) 39) v"
  unfolding unpack_bits_39_def literal_pieces
  by (intro fill_step fill_zero) (simp add: regroup_eval; fail)+

definition unpack_bits_40 :: "u64 list \<Rightarrow> u8 list \<Rightarrow> u64 list" where
  "unpack_bits_40 values bytes = values
    [0 := push_bit 32 (ucast (bytes ! 0)) OR push_bit 24 (ucast (bytes ! 1)) OR
        push_bit 16 (ucast (bytes ! 2)) OR push_bit 8 (ucast (bytes ! 3)) OR
        ucast (bytes ! 4),
     1 := push_bit 32 (ucast (bytes ! 5)) OR push_bit 24 (ucast (bytes ! 6)) OR
        push_bit 16 (ucast (bytes ! 7)) OR push_bit 8 (ucast (bytes ! 8)) OR
        ucast (bytes ! 9),
     2 := push_bit 32 (ucast (bytes ! 10)) OR push_bit 24 (ucast (bytes ! 11)) OR
        push_bit 16 (ucast (bytes ! 12)) OR push_bit 8 (ucast (bytes ! 13)) OR
        ucast (bytes ! 14),
     3 := push_bit 32 (ucast (bytes ! 15)) OR push_bit 24 (ucast (bytes ! 16)) OR
        push_bit 16 (ucast (bytes ! 17)) OR push_bit 8 (ucast (bytes ! 18)) OR
        ucast (bytes ! 19),
     4 := push_bit 32 (ucast (bytes ! 20)) OR push_bit 24 (ucast (bytes ! 21)) OR
        push_bit 16 (ucast (bytes ! 22)) OR push_bit 8 (ucast (bytes ! 23)) OR
        ucast (bytes ! 24),
     5 := push_bit 32 (ucast (bytes ! 25)) OR push_bit 24 (ucast (bytes ! 26)) OR
        push_bit 16 (ucast (bytes ! 27)) OR push_bit 8 (ucast (bytes ! 28)) OR
        ucast (bytes ! 29),
     6 := push_bit 32 (ucast (bytes ! 30)) OR push_bit 24 (ucast (bytes ! 31)) OR
        push_bit 16 (ucast (bytes ! 32)) OR push_bit 8 (ucast (bytes ! 33)) OR
        ucast (bytes ! 34),
     7 := push_bit 32 (ucast (bytes ! 35)) OR push_bit 24 (ucast (bytes ! 36)) OR
        push_bit 16 (ucast (bytes ! 37)) OR push_bit 8 (ucast (bytes ! 38)) OR
        ucast (bytes ! 39)]"

lemma unpack_bits_40_fill:
  "unpack_bits_40 v b = fill_to 8 (\<lambda>k. regroup 8 (\<lambda>j. ucast (b ! j)) (40 * k) 40) v"
  unfolding unpack_bits_40_def literal_pieces
  by (intro fill_step fill_zero) (simp add: regroup_eval; fail)+

end
