(* ===== verification/BitPack_Unpack2.thy ===== *)
theory BitPack_Unpack2
  imports BitStream
begin

text \<open>
  The unrolled unpacking routines \<open>unpack_bits_1\<close> to \<open>unpack_bits_63\<close> of
  \<open>src/datasketches/src/thetafamily/theta/bit_pack.rs\<close>, widths 41 to 63, statement by
  statement; a cast \<open>as u64\<close> is \<open>ucast\<close>. The caller (\<open>unpack_bits_block\<close>) checks the
  lengths. After each routine, its equality with the generic \<open>regroup\<close>.
\<close>

definition unpack_bits_41 :: "u64 list \<Rightarrow> u8 list \<Rightarrow> u64 list" where
  "unpack_bits_41 values bytes = values
    [0 := push_bit 33 (ucast (bytes ! 0)) OR push_bit 25 (ucast (bytes ! 1)) OR
        push_bit 17 (ucast (bytes ! 2)) OR push_bit 9 (ucast (bytes ! 3)) OR
        push_bit 1 (ucast (bytes ! 4)) OR ucast (drop_bit 7 (bytes ! 5) AND 0x1),
     1 := push_bit 34 (ucast (bytes ! 5 AND 0x7f)) OR push_bit 26 (ucast (bytes ! 6)) OR
        push_bit 18 (ucast (bytes ! 7)) OR push_bit 10 (ucast (bytes ! 8)) OR
        push_bit 2 (ucast (bytes ! 9)) OR ucast (drop_bit 6 (bytes ! 10) AND 0x3),
     2 := push_bit 35 (ucast (bytes ! 10 AND 0x3f)) OR push_bit 27 (ucast (bytes ! 11)) OR
        push_bit 19 (ucast (bytes ! 12)) OR push_bit 11 (ucast (bytes ! 13)) OR
        push_bit 3 (ucast (bytes ! 14)) OR ucast (drop_bit 5 (bytes ! 15) AND 0x7),
     3 := push_bit 36 (ucast (bytes ! 15 AND 0x1f)) OR push_bit 28 (ucast (bytes ! 16)) OR
        push_bit 20 (ucast (bytes ! 17)) OR push_bit 12 (ucast (bytes ! 18)) OR
        push_bit 4 (ucast (bytes ! 19)) OR ucast (drop_bit 4 (bytes ! 20) AND 0xf),
     4 := push_bit 37 (ucast (bytes ! 20 AND 0xf)) OR push_bit 29 (ucast (bytes ! 21)) OR
        push_bit 21 (ucast (bytes ! 22)) OR push_bit 13 (ucast (bytes ! 23)) OR
        push_bit 5 (ucast (bytes ! 24)) OR ucast (drop_bit 3 (bytes ! 25) AND 0x1f),
     5 := push_bit 38 (ucast (bytes ! 25 AND 0x7)) OR push_bit 30 (ucast (bytes ! 26)) OR
        push_bit 22 (ucast (bytes ! 27)) OR push_bit 14 (ucast (bytes ! 28)) OR
        push_bit 6 (ucast (bytes ! 29)) OR ucast (drop_bit 2 (bytes ! 30) AND 0x3f),
     6 := push_bit 39 (ucast (bytes ! 30 AND 0x3)) OR push_bit 31 (ucast (bytes ! 31)) OR
        push_bit 23 (ucast (bytes ! 32)) OR push_bit 15 (ucast (bytes ! 33)) OR
        push_bit 7 (ucast (bytes ! 34)) OR ucast (drop_bit 1 (bytes ! 35) AND 0x7f),
     7 := push_bit 40 (ucast (bytes ! 35 AND 0x1)) OR push_bit 32 (ucast (bytes ! 36)) OR
        push_bit 24 (ucast (bytes ! 37)) OR push_bit 16 (ucast (bytes ! 38)) OR
        push_bit 8 (ucast (bytes ! 39)) OR ucast (bytes ! 40)]"

lemma unpack_bits_41_fill:
  "unpack_bits_41 v b = fill_to 8 (\<lambda>k. regroup 8 (\<lambda>j. ucast (b ! j)) (41 * k) 41) v"
  unfolding unpack_bits_41_def literal_pieces
  by (intro fill_step fill_zero) (simp add: regroup_eval; fail)+

definition unpack_bits_42 :: "u64 list \<Rightarrow> u8 list \<Rightarrow> u64 list" where
  "unpack_bits_42 values bytes = values
    [0 := push_bit 34 (ucast (bytes ! 0)) OR push_bit 26 (ucast (bytes ! 1)) OR
        push_bit 18 (ucast (bytes ! 2)) OR push_bit 10 (ucast (bytes ! 3)) OR
        push_bit 2 (ucast (bytes ! 4)) OR ucast (drop_bit 6 (bytes ! 5) AND 0x3),
     1 := push_bit 36 (ucast (bytes ! 5 AND 0x3f)) OR push_bit 28 (ucast (bytes ! 6)) OR
        push_bit 20 (ucast (bytes ! 7)) OR push_bit 12 (ucast (bytes ! 8)) OR
        push_bit 4 (ucast (bytes ! 9)) OR ucast (drop_bit 4 (bytes ! 10) AND 0xf),
     2 := push_bit 38 (ucast (bytes ! 10 AND 0xf)) OR push_bit 30 (ucast (bytes ! 11)) OR
        push_bit 22 (ucast (bytes ! 12)) OR push_bit 14 (ucast (bytes ! 13)) OR
        push_bit 6 (ucast (bytes ! 14)) OR ucast (drop_bit 2 (bytes ! 15) AND 0x3f),
     3 := push_bit 40 (ucast (bytes ! 15 AND 0x3)) OR push_bit 32 (ucast (bytes ! 16)) OR
        push_bit 24 (ucast (bytes ! 17)) OR push_bit 16 (ucast (bytes ! 18)) OR
        push_bit 8 (ucast (bytes ! 19)) OR ucast (bytes ! 20),
     4 := push_bit 34 (ucast (bytes ! 21)) OR push_bit 26 (ucast (bytes ! 22)) OR
        push_bit 18 (ucast (bytes ! 23)) OR push_bit 10 (ucast (bytes ! 24)) OR
        push_bit 2 (ucast (bytes ! 25)) OR ucast (drop_bit 6 (bytes ! 26) AND 0x3),
     5 := push_bit 36 (ucast (bytes ! 26 AND 0x3f)) OR push_bit 28 (ucast (bytes ! 27)) OR
        push_bit 20 (ucast (bytes ! 28)) OR push_bit 12 (ucast (bytes ! 29)) OR
        push_bit 4 (ucast (bytes ! 30)) OR ucast (drop_bit 4 (bytes ! 31) AND 0xf),
     6 := push_bit 38 (ucast (bytes ! 31 AND 0xf)) OR push_bit 30 (ucast (bytes ! 32)) OR
        push_bit 22 (ucast (bytes ! 33)) OR push_bit 14 (ucast (bytes ! 34)) OR
        push_bit 6 (ucast (bytes ! 35)) OR ucast (drop_bit 2 (bytes ! 36) AND 0x3f),
     7 := push_bit 40 (ucast (bytes ! 36 AND 0x3)) OR push_bit 32 (ucast (bytes ! 37)) OR
        push_bit 24 (ucast (bytes ! 38)) OR push_bit 16 (ucast (bytes ! 39)) OR
        push_bit 8 (ucast (bytes ! 40)) OR ucast (bytes ! 41)]"

lemma unpack_bits_42_fill:
  "unpack_bits_42 v b = fill_to 8 (\<lambda>k. regroup 8 (\<lambda>j. ucast (b ! j)) (42 * k) 42) v"
  unfolding unpack_bits_42_def literal_pieces
  by (intro fill_step fill_zero) (simp add: regroup_eval; fail)+

definition unpack_bits_43 :: "u64 list \<Rightarrow> u8 list \<Rightarrow> u64 list" where
  "unpack_bits_43 values bytes = values
    [0 := push_bit 35 (ucast (bytes ! 0)) OR push_bit 27 (ucast (bytes ! 1)) OR
        push_bit 19 (ucast (bytes ! 2)) OR push_bit 11 (ucast (bytes ! 3)) OR
        push_bit 3 (ucast (bytes ! 4)) OR ucast (drop_bit 5 (bytes ! 5) AND 0x7),
     1 := push_bit 38 (ucast (bytes ! 5 AND 0x1f)) OR push_bit 30 (ucast (bytes ! 6)) OR
        push_bit 22 (ucast (bytes ! 7)) OR push_bit 14 (ucast (bytes ! 8)) OR
        push_bit 6 (ucast (bytes ! 9)) OR ucast (drop_bit 2 (bytes ! 10) AND 0x3f),
     2 := push_bit 41 (ucast (bytes ! 10 AND 0x3)) OR push_bit 33 (ucast (bytes ! 11)) OR
        push_bit 25 (ucast (bytes ! 12)) OR push_bit 17 (ucast (bytes ! 13)) OR
        push_bit 9 (ucast (bytes ! 14)) OR push_bit 1 (ucast (bytes ! 15)) OR
        ucast (drop_bit 7 (bytes ! 16) AND 0x1),
     3 := push_bit 36 (ucast (bytes ! 16 AND 0x7f)) OR push_bit 28 (ucast (bytes ! 17)) OR
        push_bit 20 (ucast (bytes ! 18)) OR push_bit 12 (ucast (bytes ! 19)) OR
        push_bit 4 (ucast (bytes ! 20)) OR ucast (drop_bit 4 (bytes ! 21) AND 0xf),
     4 := push_bit 39 (ucast (bytes ! 21 AND 0xf)) OR push_bit 31 (ucast (bytes ! 22)) OR
        push_bit 23 (ucast (bytes ! 23)) OR push_bit 15 (ucast (bytes ! 24)) OR
        push_bit 7 (ucast (bytes ! 25)) OR ucast (drop_bit 1 (bytes ! 26) AND 0x7f),
     5 := push_bit 42 (ucast (bytes ! 26 AND 0x1)) OR push_bit 34 (ucast (bytes ! 27)) OR
        push_bit 26 (ucast (bytes ! 28)) OR push_bit 18 (ucast (bytes ! 29)) OR
        push_bit 10 (ucast (bytes ! 30)) OR push_bit 2 (ucast (bytes ! 31)) OR
        ucast (drop_bit 6 (bytes ! 32) AND 0x3),
     6 := push_bit 37 (ucast (bytes ! 32 AND 0x3f)) OR push_bit 29 (ucast (bytes ! 33)) OR
        push_bit 21 (ucast (bytes ! 34)) OR push_bit 13 (ucast (bytes ! 35)) OR
        push_bit 5 (ucast (bytes ! 36)) OR ucast (drop_bit 3 (bytes ! 37) AND 0x1f),
     7 := push_bit 40 (ucast (bytes ! 37 AND 0x7)) OR push_bit 32 (ucast (bytes ! 38)) OR
        push_bit 24 (ucast (bytes ! 39)) OR push_bit 16 (ucast (bytes ! 40)) OR
        push_bit 8 (ucast (bytes ! 41)) OR ucast (bytes ! 42)]"

lemma unpack_bits_43_fill:
  "unpack_bits_43 v b = fill_to 8 (\<lambda>k. regroup 8 (\<lambda>j. ucast (b ! j)) (43 * k) 43) v"
  unfolding unpack_bits_43_def literal_pieces
  by (intro fill_step fill_zero) (simp add: regroup_eval; fail)+

definition unpack_bits_44 :: "u64 list \<Rightarrow> u8 list \<Rightarrow> u64 list" where
  "unpack_bits_44 values bytes = values
    [0 := push_bit 36 (ucast (bytes ! 0)) OR push_bit 28 (ucast (bytes ! 1)) OR
        push_bit 20 (ucast (bytes ! 2)) OR push_bit 12 (ucast (bytes ! 3)) OR
        push_bit 4 (ucast (bytes ! 4)) OR ucast (drop_bit 4 (bytes ! 5) AND 0xf),
     1 := push_bit 40 (ucast (bytes ! 5 AND 0xf)) OR push_bit 32 (ucast (bytes ! 6)) OR
        push_bit 24 (ucast (bytes ! 7)) OR push_bit 16 (ucast (bytes ! 8)) OR
        push_bit 8 (ucast (bytes ! 9)) OR ucast (bytes ! 10),
     2 := push_bit 36 (ucast (bytes ! 11)) OR push_bit 28 (ucast (bytes ! 12)) OR
        push_bit 20 (ucast (bytes ! 13)) OR push_bit 12 (ucast (bytes ! 14)) OR
        push_bit 4 (ucast (bytes ! 15)) OR ucast (drop_bit 4 (bytes ! 16) AND 0xf),
     3 := push_bit 40 (ucast (bytes ! 16 AND 0xf)) OR push_bit 32 (ucast (bytes ! 17)) OR
        push_bit 24 (ucast (bytes ! 18)) OR push_bit 16 (ucast (bytes ! 19)) OR
        push_bit 8 (ucast (bytes ! 20)) OR ucast (bytes ! 21),
     4 := push_bit 36 (ucast (bytes ! 22)) OR push_bit 28 (ucast (bytes ! 23)) OR
        push_bit 20 (ucast (bytes ! 24)) OR push_bit 12 (ucast (bytes ! 25)) OR
        push_bit 4 (ucast (bytes ! 26)) OR ucast (drop_bit 4 (bytes ! 27) AND 0xf),
     5 := push_bit 40 (ucast (bytes ! 27 AND 0xf)) OR push_bit 32 (ucast (bytes ! 28)) OR
        push_bit 24 (ucast (bytes ! 29)) OR push_bit 16 (ucast (bytes ! 30)) OR
        push_bit 8 (ucast (bytes ! 31)) OR ucast (bytes ! 32),
     6 := push_bit 36 (ucast (bytes ! 33)) OR push_bit 28 (ucast (bytes ! 34)) OR
        push_bit 20 (ucast (bytes ! 35)) OR push_bit 12 (ucast (bytes ! 36)) OR
        push_bit 4 (ucast (bytes ! 37)) OR ucast (drop_bit 4 (bytes ! 38) AND 0xf),
     7 := push_bit 40 (ucast (bytes ! 38 AND 0xf)) OR push_bit 32 (ucast (bytes ! 39)) OR
        push_bit 24 (ucast (bytes ! 40)) OR push_bit 16 (ucast (bytes ! 41)) OR
        push_bit 8 (ucast (bytes ! 42)) OR ucast (bytes ! 43)]"

lemma unpack_bits_44_fill:
  "unpack_bits_44 v b = fill_to 8 (\<lambda>k. regroup 8 (\<lambda>j. ucast (b ! j)) (44 * k) 44) v"
  unfolding unpack_bits_44_def literal_pieces
  by (intro fill_step fill_zero) (simp add: regroup_eval; fail)+

definition unpack_bits_45 :: "u64 list \<Rightarrow> u8 list \<Rightarrow> u64 list" where
  "unpack_bits_45 values bytes = values
    [0 := push_bit 37 (ucast (bytes ! 0)) OR push_bit 29 (ucast (bytes ! 1)) OR
        push_bit 21 (ucast (bytes ! 2)) OR push_bit 13 (ucast (bytes ! 3)) OR
        push_bit 5 (ucast (bytes ! 4)) OR ucast (drop_bit 3 (bytes ! 5) AND 0x1f),
     1 := push_bit 42 (ucast (bytes ! 5 AND 0x7)) OR push_bit 34 (ucast (bytes ! 6)) OR
        push_bit 26 (ucast (bytes ! 7)) OR push_bit 18 (ucast (bytes ! 8)) OR
        push_bit 10 (ucast (bytes ! 9)) OR push_bit 2 (ucast (bytes ! 10)) OR
        ucast (drop_bit 6 (bytes ! 11) AND 0x3),
     2 := push_bit 39 (ucast (bytes ! 11 AND 0x3f)) OR push_bit 31 (ucast (bytes ! 12)) OR
        push_bit 23 (ucast (bytes ! 13)) OR push_bit 15 (ucast (bytes ! 14)) OR
        push_bit 7 (ucast (bytes ! 15)) OR ucast (drop_bit 1 (bytes ! 16) AND 0x7f),
     3 := push_bit 44 (ucast (bytes ! 16 AND 0x1)) OR push_bit 36 (ucast (bytes ! 17)) OR
        push_bit 28 (ucast (bytes ! 18)) OR push_bit 20 (ucast (bytes ! 19)) OR
        push_bit 12 (ucast (bytes ! 20)) OR push_bit 4 (ucast (bytes ! 21)) OR
        ucast (drop_bit 4 (bytes ! 22) AND 0xf),
     4 := push_bit 41 (ucast (bytes ! 22 AND 0xf)) OR push_bit 33 (ucast (bytes ! 23)) OR
        push_bit 25 (ucast (bytes ! 24)) OR push_bit 17 (ucast (bytes ! 25)) OR
        push_bit 9 (ucast (bytes ! 26)) OR push_bit 1 (ucast (bytes ! 27)) OR
        ucast (drop_bit 7 (bytes ! 28) AND 0x1),
     5 := push_bit 38 (ucast (bytes ! 28 AND 0x7f)) OR push_bit 30 (ucast (bytes ! 29)) OR
        push_bit 22 (ucast (bytes ! 30)) OR push_bit 14 (ucast (bytes ! 31)) OR
        push_bit 6 (ucast (bytes ! 32)) OR ucast (drop_bit 2 (bytes ! 33) AND 0x3f),
     6 := push_bit 43 (ucast (bytes ! 33 AND 0x3)) OR push_bit 35 (ucast (bytes ! 34)) OR
        push_bit 27 (ucast (bytes ! 35)) OR push_bit 19 (ucast (bytes ! 36)) OR
        push_bit 11 (ucast (bytes ! 37)) OR push_bit 3 (ucast (bytes ! 38)) OR
        ucast (drop_bit 5 (bytes ! 39) AND 0x7),
     7 := push_bit 40 (ucast (bytes ! 39 AND 0x1f)) OR push_bit 32 (ucast (bytes ! 40)) OR
        push_bit 24 (ucast (bytes ! 41)) OR push_bit 16 (ucast (bytes ! 42)) OR
        push_bit 8 (ucast (bytes ! 43)) OR ucast (bytes ! 44)]"

lemma unpack_bits_45_fill:
  "unpack_bits_45 v b = fill_to 8 (\<lambda>k. regroup 8 (\<lambda>j. ucast (b ! j)) (45 * k) 45) v"
  unfolding unpack_bits_45_def literal_pieces
  by (intro fill_step fill_zero) (simp add: regroup_eval; fail)+

definition unpack_bits_46 :: "u64 list \<Rightarrow> u8 list \<Rightarrow> u64 list" where
  "unpack_bits_46 values bytes = values
    [0 := push_bit 38 (ucast (bytes ! 0)) OR push_bit 30 (ucast (bytes ! 1)) OR
        push_bit 22 (ucast (bytes ! 2)) OR push_bit 14 (ucast (bytes ! 3)) OR
        push_bit 6 (ucast (bytes ! 4)) OR ucast (drop_bit 2 (bytes ! 5) AND 0x3f),
     1 := push_bit 44 (ucast (bytes ! 5 AND 0x3)) OR push_bit 36 (ucast (bytes ! 6)) OR
        push_bit 28 (ucast (bytes ! 7)) OR push_bit 20 (ucast (bytes ! 8)) OR
        push_bit 12 (ucast (bytes ! 9)) OR push_bit 4 (ucast (bytes ! 10)) OR
        ucast (drop_bit 4 (bytes ! 11) AND 0xf),
     2 := push_bit 42 (ucast (bytes ! 11 AND 0xf)) OR push_bit 34 (ucast (bytes ! 12)) OR
        push_bit 26 (ucast (bytes ! 13)) OR push_bit 18 (ucast (bytes ! 14)) OR
        push_bit 10 (ucast (bytes ! 15)) OR push_bit 2 (ucast (bytes ! 16)) OR
        ucast (drop_bit 6 (bytes ! 17) AND 0x3),
     3 := push_bit 40 (ucast (bytes ! 17 AND 0x3f)) OR push_bit 32 (ucast (bytes ! 18)) OR
        push_bit 24 (ucast (bytes ! 19)) OR push_bit 16 (ucast (bytes ! 20)) OR
        push_bit 8 (ucast (bytes ! 21)) OR ucast (bytes ! 22),
     4 := push_bit 38 (ucast (bytes ! 23)) OR push_bit 30 (ucast (bytes ! 24)) OR
        push_bit 22 (ucast (bytes ! 25)) OR push_bit 14 (ucast (bytes ! 26)) OR
        push_bit 6 (ucast (bytes ! 27)) OR ucast (drop_bit 2 (bytes ! 28) AND 0x3f),
     5 := push_bit 44 (ucast (bytes ! 28 AND 0x3)) OR push_bit 36 (ucast (bytes ! 29)) OR
        push_bit 28 (ucast (bytes ! 30)) OR push_bit 20 (ucast (bytes ! 31)) OR
        push_bit 12 (ucast (bytes ! 32)) OR push_bit 4 (ucast (bytes ! 33)) OR
        ucast (drop_bit 4 (bytes ! 34) AND 0xf),
     6 := push_bit 42 (ucast (bytes ! 34 AND 0xf)) OR push_bit 34 (ucast (bytes ! 35)) OR
        push_bit 26 (ucast (bytes ! 36)) OR push_bit 18 (ucast (bytes ! 37)) OR
        push_bit 10 (ucast (bytes ! 38)) OR push_bit 2 (ucast (bytes ! 39)) OR
        ucast (drop_bit 6 (bytes ! 40) AND 0x3),
     7 := push_bit 40 (ucast (bytes ! 40 AND 0x3f)) OR push_bit 32 (ucast (bytes ! 41)) OR
        push_bit 24 (ucast (bytes ! 42)) OR push_bit 16 (ucast (bytes ! 43)) OR
        push_bit 8 (ucast (bytes ! 44)) OR ucast (bytes ! 45)]"

lemma unpack_bits_46_fill:
  "unpack_bits_46 v b = fill_to 8 (\<lambda>k. regroup 8 (\<lambda>j. ucast (b ! j)) (46 * k) 46) v"
  unfolding unpack_bits_46_def literal_pieces
  by (intro fill_step fill_zero) (simp add: regroup_eval; fail)+

definition unpack_bits_47 :: "u64 list \<Rightarrow> u8 list \<Rightarrow> u64 list" where
  "unpack_bits_47 values bytes = values
    [0 := push_bit 39 (ucast (bytes ! 0)) OR push_bit 31 (ucast (bytes ! 1)) OR
        push_bit 23 (ucast (bytes ! 2)) OR push_bit 15 (ucast (bytes ! 3)) OR
        push_bit 7 (ucast (bytes ! 4)) OR ucast (drop_bit 1 (bytes ! 5) AND 0x7f),
     1 := push_bit 46 (ucast (bytes ! 5 AND 0x1)) OR push_bit 38 (ucast (bytes ! 6)) OR
        push_bit 30 (ucast (bytes ! 7)) OR push_bit 22 (ucast (bytes ! 8)) OR
        push_bit 14 (ucast (bytes ! 9)) OR push_bit 6 (ucast (bytes ! 10)) OR
        ucast (drop_bit 2 (bytes ! 11) AND 0x3f),
     2 := push_bit 45 (ucast (bytes ! 11 AND 0x3)) OR push_bit 37 (ucast (bytes ! 12)) OR
        push_bit 29 (ucast (bytes ! 13)) OR push_bit 21 (ucast (bytes ! 14)) OR
        push_bit 13 (ucast (bytes ! 15)) OR push_bit 5 (ucast (bytes ! 16)) OR
        ucast (drop_bit 3 (bytes ! 17) AND 0x1f),
     3 := push_bit 44 (ucast (bytes ! 17 AND 0x7)) OR push_bit 36 (ucast (bytes ! 18)) OR
        push_bit 28 (ucast (bytes ! 19)) OR push_bit 20 (ucast (bytes ! 20)) OR
        push_bit 12 (ucast (bytes ! 21)) OR push_bit 4 (ucast (bytes ! 22)) OR
        ucast (drop_bit 4 (bytes ! 23) AND 0xf),
     4 := push_bit 43 (ucast (bytes ! 23 AND 0xf)) OR push_bit 35 (ucast (bytes ! 24)) OR
        push_bit 27 (ucast (bytes ! 25)) OR push_bit 19 (ucast (bytes ! 26)) OR
        push_bit 11 (ucast (bytes ! 27)) OR push_bit 3 (ucast (bytes ! 28)) OR
        ucast (drop_bit 5 (bytes ! 29) AND 0x7),
     5 := push_bit 42 (ucast (bytes ! 29 AND 0x1f)) OR push_bit 34 (ucast (bytes ! 30)) OR
        push_bit 26 (ucast (bytes ! 31)) OR push_bit 18 (ucast (bytes ! 32)) OR
        push_bit 10 (ucast (bytes ! 33)) OR push_bit 2 (ucast (bytes ! 34)) OR
        ucast (drop_bit 6 (bytes ! 35) AND 0x3),
     6 := push_bit 41 (ucast (bytes ! 35 AND 0x3f)) OR push_bit 33 (ucast (bytes ! 36)) OR
        push_bit 25 (ucast (bytes ! 37)) OR push_bit 17 (ucast (bytes ! 38)) OR
        push_bit 9 (ucast (bytes ! 39)) OR push_bit 1 (ucast (bytes ! 40)) OR
        ucast (drop_bit 7 (bytes ! 41) AND 0x1),
     7 := push_bit 40 (ucast (bytes ! 41 AND 0x7f)) OR push_bit 32 (ucast (bytes ! 42)) OR
        push_bit 24 (ucast (bytes ! 43)) OR push_bit 16 (ucast (bytes ! 44)) OR
        push_bit 8 (ucast (bytes ! 45)) OR ucast (bytes ! 46)]"

lemma unpack_bits_47_fill:
  "unpack_bits_47 v b = fill_to 8 (\<lambda>k. regroup 8 (\<lambda>j. ucast (b ! j)) (47 * k) 47) v"
  unfolding unpack_bits_47_def literal_pieces
  by (intro fill_step fill_zero) (simp add: regroup_eval; fail)+

definition unpack_bits_48 :: "u64 list \<Rightarrow> u8 list \<Rightarrow> u64 list" where
  "unpack_bits_48 values bytes = values
    [0 := push_bit 40 (ucast (bytes ! 0)) OR push_bit 32 (ucast (bytes ! 1)) OR
        push_bit 24 (ucast (bytes ! 2)) OR push_bit 16 (ucast (bytes ! 3)) OR
        push_bit 8 (ucast (bytes ! 4)) OR ucast (bytes ! 5),
     1 := push_bit 40 (ucast (bytes ! 6)) OR push_bit 32 (ucast (bytes ! 7)) OR
        push_bit 24 (ucast (bytes ! 8)) OR push_bit 16 (ucast (bytes ! 9)) OR
        push_bit 8 (ucast (bytes ! 10)) OR ucast (bytes ! 11),
     2 := push_bit 40 (ucast (bytes ! 12)) OR push_bit 32 (ucast (bytes ! 13)) OR
        push_bit 24 (ucast (bytes ! 14)) OR push_bit 16 (ucast (bytes ! 15)) OR
        push_bit 8 (ucast (bytes ! 16)) OR ucast (bytes ! 17),
     3 := push_bit 40 (ucast (bytes ! 18)) OR push_bit 32 (ucast (bytes ! 19)) OR
        push_bit 24 (ucast (bytes ! 20)) OR push_bit 16 (ucast (bytes ! 21)) OR
        push_bit 8 (ucast (bytes ! 22)) OR ucast (bytes ! 23),
     4 := push_bit 40 (ucast (bytes ! 24)) OR push_bit 32 (ucast (bytes ! 25)) OR
        push_bit 24 (ucast (bytes ! 26)) OR push_bit 16 (ucast (bytes ! 27)) OR
        push_bit 8 (ucast (bytes ! 28)) OR ucast (bytes ! 29),
     5 := push_bit 40 (ucast (bytes ! 30)) OR push_bit 32 (ucast (bytes ! 31)) OR
        push_bit 24 (ucast (bytes ! 32)) OR push_bit 16 (ucast (bytes ! 33)) OR
        push_bit 8 (ucast (bytes ! 34)) OR ucast (bytes ! 35),
     6 := push_bit 40 (ucast (bytes ! 36)) OR push_bit 32 (ucast (bytes ! 37)) OR
        push_bit 24 (ucast (bytes ! 38)) OR push_bit 16 (ucast (bytes ! 39)) OR
        push_bit 8 (ucast (bytes ! 40)) OR ucast (bytes ! 41),
     7 := push_bit 40 (ucast (bytes ! 42)) OR push_bit 32 (ucast (bytes ! 43)) OR
        push_bit 24 (ucast (bytes ! 44)) OR push_bit 16 (ucast (bytes ! 45)) OR
        push_bit 8 (ucast (bytes ! 46)) OR ucast (bytes ! 47)]"

lemma unpack_bits_48_fill:
  "unpack_bits_48 v b = fill_to 8 (\<lambda>k. regroup 8 (\<lambda>j. ucast (b ! j)) (48 * k) 48) v"
  unfolding unpack_bits_48_def literal_pieces
  by (intro fill_step fill_zero) (simp add: regroup_eval; fail)+

definition unpack_bits_49 :: "u64 list \<Rightarrow> u8 list \<Rightarrow> u64 list" where
  "unpack_bits_49 values bytes = values
    [0 := push_bit 41 (ucast (bytes ! 0)) OR push_bit 33 (ucast (bytes ! 1)) OR
        push_bit 25 (ucast (bytes ! 2)) OR push_bit 17 (ucast (bytes ! 3)) OR
        push_bit 9 (ucast (bytes ! 4)) OR push_bit 1 (ucast (bytes ! 5)) OR
        ucast (drop_bit 7 (bytes ! 6) AND 0x1),
     1 := push_bit 42 (ucast (bytes ! 6 AND 0x7f)) OR push_bit 34 (ucast (bytes ! 7)) OR
        push_bit 26 (ucast (bytes ! 8)) OR push_bit 18 (ucast (bytes ! 9)) OR
        push_bit 10 (ucast (bytes ! 10)) OR push_bit 2 (ucast (bytes ! 11)) OR
        ucast (drop_bit 6 (bytes ! 12) AND 0x3),
     2 := push_bit 43 (ucast (bytes ! 12 AND 0x3f)) OR push_bit 35 (ucast (bytes ! 13)) OR
        push_bit 27 (ucast (bytes ! 14)) OR push_bit 19 (ucast (bytes ! 15)) OR
        push_bit 11 (ucast (bytes ! 16)) OR push_bit 3 (ucast (bytes ! 17)) OR
        ucast (drop_bit 5 (bytes ! 18) AND 0x7),
     3 := push_bit 44 (ucast (bytes ! 18 AND 0x1f)) OR push_bit 36 (ucast (bytes ! 19)) OR
        push_bit 28 (ucast (bytes ! 20)) OR push_bit 20 (ucast (bytes ! 21)) OR
        push_bit 12 (ucast (bytes ! 22)) OR push_bit 4 (ucast (bytes ! 23)) OR
        ucast (drop_bit 4 (bytes ! 24) AND 0xf),
     4 := push_bit 45 (ucast (bytes ! 24 AND 0xf)) OR push_bit 37 (ucast (bytes ! 25)) OR
        push_bit 29 (ucast (bytes ! 26)) OR push_bit 21 (ucast (bytes ! 27)) OR
        push_bit 13 (ucast (bytes ! 28)) OR push_bit 5 (ucast (bytes ! 29)) OR
        ucast (drop_bit 3 (bytes ! 30) AND 0x1f),
     5 := push_bit 46 (ucast (bytes ! 30 AND 0x7)) OR push_bit 38 (ucast (bytes ! 31)) OR
        push_bit 30 (ucast (bytes ! 32)) OR push_bit 22 (ucast (bytes ! 33)) OR
        push_bit 14 (ucast (bytes ! 34)) OR push_bit 6 (ucast (bytes ! 35)) OR
        ucast (drop_bit 2 (bytes ! 36) AND 0x3f),
     6 := push_bit 47 (ucast (bytes ! 36 AND 0x3)) OR push_bit 39 (ucast (bytes ! 37)) OR
        push_bit 31 (ucast (bytes ! 38)) OR push_bit 23 (ucast (bytes ! 39)) OR
        push_bit 15 (ucast (bytes ! 40)) OR push_bit 7 (ucast (bytes ! 41)) OR
        ucast (drop_bit 1 (bytes ! 42) AND 0x7f),
     7 := push_bit 48 (ucast (bytes ! 42 AND 0x1)) OR push_bit 40 (ucast (bytes ! 43)) OR
        push_bit 32 (ucast (bytes ! 44)) OR push_bit 24 (ucast (bytes ! 45)) OR
        push_bit 16 (ucast (bytes ! 46)) OR push_bit 8 (ucast (bytes ! 47)) OR
        ucast (bytes ! 48)]"

lemma unpack_bits_49_fill:
  "unpack_bits_49 v b = fill_to 8 (\<lambda>k. regroup 8 (\<lambda>j. ucast (b ! j)) (49 * k) 49) v"
  unfolding unpack_bits_49_def literal_pieces
  by (intro fill_step fill_zero) (simp add: regroup_eval; fail)+

definition unpack_bits_50 :: "u64 list \<Rightarrow> u8 list \<Rightarrow> u64 list" where
  "unpack_bits_50 values bytes = values
    [0 := push_bit 42 (ucast (bytes ! 0)) OR push_bit 34 (ucast (bytes ! 1)) OR
        push_bit 26 (ucast (bytes ! 2)) OR push_bit 18 (ucast (bytes ! 3)) OR
        push_bit 10 (ucast (bytes ! 4)) OR push_bit 2 (ucast (bytes ! 5)) OR
        ucast (drop_bit 6 (bytes ! 6) AND 0x3),
     1 := push_bit 44 (ucast (bytes ! 6 AND 0x3f)) OR push_bit 36 (ucast (bytes ! 7)) OR
        push_bit 28 (ucast (bytes ! 8)) OR push_bit 20 (ucast (bytes ! 9)) OR
        push_bit 12 (ucast (bytes ! 10)) OR push_bit 4 (ucast (bytes ! 11)) OR
        ucast (drop_bit 4 (bytes ! 12) AND 0xf),
     2 := push_bit 46 (ucast (bytes ! 12 AND 0xf)) OR push_bit 38 (ucast (bytes ! 13)) OR
        push_bit 30 (ucast (bytes ! 14)) OR push_bit 22 (ucast (bytes ! 15)) OR
        push_bit 14 (ucast (bytes ! 16)) OR push_bit 6 (ucast (bytes ! 17)) OR
        ucast (drop_bit 2 (bytes ! 18) AND 0x3f),
     3 := push_bit 48 (ucast (bytes ! 18 AND 0x3)) OR push_bit 40 (ucast (bytes ! 19)) OR
        push_bit 32 (ucast (bytes ! 20)) OR push_bit 24 (ucast (bytes ! 21)) OR
        push_bit 16 (ucast (bytes ! 22)) OR push_bit 8 (ucast (bytes ! 23)) OR
        ucast (bytes ! 24),
     4 := push_bit 42 (ucast (bytes ! 25)) OR push_bit 34 (ucast (bytes ! 26)) OR
        push_bit 26 (ucast (bytes ! 27)) OR push_bit 18 (ucast (bytes ! 28)) OR
        push_bit 10 (ucast (bytes ! 29)) OR push_bit 2 (ucast (bytes ! 30)) OR
        ucast (drop_bit 6 (bytes ! 31) AND 0x3),
     5 := push_bit 44 (ucast (bytes ! 31 AND 0x3f)) OR push_bit 36 (ucast (bytes ! 32)) OR
        push_bit 28 (ucast (bytes ! 33)) OR push_bit 20 (ucast (bytes ! 34)) OR
        push_bit 12 (ucast (bytes ! 35)) OR push_bit 4 (ucast (bytes ! 36)) OR
        ucast (drop_bit 4 (bytes ! 37) AND 0xf),
     6 := push_bit 46 (ucast (bytes ! 37 AND 0xf)) OR push_bit 38 (ucast (bytes ! 38)) OR
        push_bit 30 (ucast (bytes ! 39)) OR push_bit 22 (ucast (bytes ! 40)) OR
        push_bit 14 (ucast (bytes ! 41)) OR push_bit 6 (ucast (bytes ! 42)) OR
        ucast (drop_bit 2 (bytes ! 43) AND 0x3f),
     7 := push_bit 48 (ucast (bytes ! 43 AND 0x3)) OR push_bit 40 (ucast (bytes ! 44)) OR
        push_bit 32 (ucast (bytes ! 45)) OR push_bit 24 (ucast (bytes ! 46)) OR
        push_bit 16 (ucast (bytes ! 47)) OR push_bit 8 (ucast (bytes ! 48)) OR
        ucast (bytes ! 49)]"

lemma unpack_bits_50_fill:
  "unpack_bits_50 v b = fill_to 8 (\<lambda>k. regroup 8 (\<lambda>j. ucast (b ! j)) (50 * k) 50) v"
  unfolding unpack_bits_50_def literal_pieces
  by (intro fill_step fill_zero) (simp add: regroup_eval; fail)+

definition unpack_bits_51 :: "u64 list \<Rightarrow> u8 list \<Rightarrow> u64 list" where
  "unpack_bits_51 values bytes = values
    [0 := push_bit 43 (ucast (bytes ! 0)) OR push_bit 35 (ucast (bytes ! 1)) OR
        push_bit 27 (ucast (bytes ! 2)) OR push_bit 19 (ucast (bytes ! 3)) OR
        push_bit 11 (ucast (bytes ! 4)) OR push_bit 3 (ucast (bytes ! 5)) OR
        ucast (drop_bit 5 (bytes ! 6) AND 0x7),
     1 := push_bit 46 (ucast (bytes ! 6 AND 0x1f)) OR push_bit 38 (ucast (bytes ! 7)) OR
        push_bit 30 (ucast (bytes ! 8)) OR push_bit 22 (ucast (bytes ! 9)) OR
        push_bit 14 (ucast (bytes ! 10)) OR push_bit 6 (ucast (bytes ! 11)) OR
        ucast (drop_bit 2 (bytes ! 12) AND 0x3f),
     2 := push_bit 49 (ucast (bytes ! 12 AND 0x3)) OR push_bit 41 (ucast (bytes ! 13)) OR
        push_bit 33 (ucast (bytes ! 14)) OR push_bit 25 (ucast (bytes ! 15)) OR
        push_bit 17 (ucast (bytes ! 16)) OR push_bit 9 (ucast (bytes ! 17)) OR
        push_bit 1 (ucast (bytes ! 18)) OR ucast (drop_bit 7 (bytes ! 19) AND 0x1),
     3 := push_bit 44 (ucast (bytes ! 19 AND 0x7f)) OR push_bit 36 (ucast (bytes ! 20)) OR
        push_bit 28 (ucast (bytes ! 21)) OR push_bit 20 (ucast (bytes ! 22)) OR
        push_bit 12 (ucast (bytes ! 23)) OR push_bit 4 (ucast (bytes ! 24)) OR
        ucast (drop_bit 4 (bytes ! 25) AND 0xf),
     4 := push_bit 47 (ucast (bytes ! 25 AND 0xf)) OR push_bit 39 (ucast (bytes ! 26)) OR
        push_bit 31 (ucast (bytes ! 27)) OR push_bit 23 (ucast (bytes ! 28)) OR
        push_bit 15 (ucast (bytes ! 29)) OR push_bit 7 (ucast (bytes ! 30)) OR
        ucast (drop_bit 1 (bytes ! 31) AND 0x7f),
     5 := push_bit 50 (ucast (bytes ! 31 AND 0x1)) OR push_bit 42 (ucast (bytes ! 32)) OR
        push_bit 34 (ucast (bytes ! 33)) OR push_bit 26 (ucast (bytes ! 34)) OR
        push_bit 18 (ucast (bytes ! 35)) OR push_bit 10 (ucast (bytes ! 36)) OR
        push_bit 2 (ucast (bytes ! 37)) OR ucast (drop_bit 6 (bytes ! 38) AND 0x3),
     6 := push_bit 45 (ucast (bytes ! 38 AND 0x3f)) OR push_bit 37 (ucast (bytes ! 39)) OR
        push_bit 29 (ucast (bytes ! 40)) OR push_bit 21 (ucast (bytes ! 41)) OR
        push_bit 13 (ucast (bytes ! 42)) OR push_bit 5 (ucast (bytes ! 43)) OR
        ucast (drop_bit 3 (bytes ! 44) AND 0x1f),
     7 := push_bit 48 (ucast (bytes ! 44 AND 0x7)) OR push_bit 40 (ucast (bytes ! 45)) OR
        push_bit 32 (ucast (bytes ! 46)) OR push_bit 24 (ucast (bytes ! 47)) OR
        push_bit 16 (ucast (bytes ! 48)) OR push_bit 8 (ucast (bytes ! 49)) OR
        ucast (bytes ! 50)]"

lemma unpack_bits_51_fill:
  "unpack_bits_51 v b = fill_to 8 (\<lambda>k. regroup 8 (\<lambda>j. ucast (b ! j)) (51 * k) 51) v"
  unfolding unpack_bits_51_def literal_pieces
  by (intro fill_step fill_zero) (simp add: regroup_eval; fail)+

definition unpack_bits_52 :: "u64 list \<Rightarrow> u8 list \<Rightarrow> u64 list" where
  "unpack_bits_52 values bytes = values
    [0 := push_bit 44 (ucast (bytes ! 0)) OR push_bit 36 (ucast (bytes ! 1)) OR
        push_bit 28 (ucast (bytes ! 2)) OR push_bit 20 (ucast (bytes ! 3)) OR
        push_bit 12 (ucast (bytes ! 4)) OR push_bit 4 (ucast (bytes ! 5)) OR
        ucast (drop_bit 4 (bytes ! 6) AND 0xf),
     1 := push_bit 48 (ucast (bytes ! 6 AND 0xf)) OR push_bit 40 (ucast (bytes ! 7)) OR
        push_bit 32 (ucast (bytes ! 8)) OR push_bit 24 (ucast (bytes ! 9)) OR
        push_bit 16 (ucast (bytes ! 10)) OR push_bit 8 (ucast (bytes ! 11)) OR
        ucast (bytes ! 12),
     2 := push_bit 44 (ucast (bytes ! 13)) OR push_bit 36 (ucast (bytes ! 14)) OR
        push_bit 28 (ucast (bytes ! 15)) OR push_bit 20 (ucast (bytes ! 16)) OR
        push_bit 12 (ucast (bytes ! 17)) OR push_bit 4 (ucast (bytes ! 18)) OR
        ucast (drop_bit 4 (bytes ! 19) AND 0xf),
     3 := push_bit 48 (ucast (bytes ! 19 AND 0xf)) OR push_bit 40 (ucast (bytes ! 20)) OR
        push_bit 32 (ucast (bytes ! 21)) OR push_bit 24 (ucast (bytes ! 22)) OR
        push_bit 16 (ucast (bytes ! 23)) OR push_bit 8 (ucast (bytes ! 24)) OR
        ucast (bytes ! 25),
     4 := push_bit 44 (ucast (bytes ! 26)) OR push_bit 36 (ucast (bytes ! 27)) OR
        push_bit 28 (ucast (bytes ! 28)) OR push_bit 20 (ucast (bytes ! 29)) OR
        push_bit 12 (ucast (bytes ! 30)) OR push_bit 4 (ucast (bytes ! 31)) OR
        ucast (drop_bit 4 (bytes ! 32) AND 0xf),
     5 := push_bit 48 (ucast (bytes ! 32 AND 0xf)) OR push_bit 40 (ucast (bytes ! 33)) OR
        push_bit 32 (ucast (bytes ! 34)) OR push_bit 24 (ucast (bytes ! 35)) OR
        push_bit 16 (ucast (bytes ! 36)) OR push_bit 8 (ucast (bytes ! 37)) OR
        ucast (bytes ! 38),
     6 := push_bit 44 (ucast (bytes ! 39)) OR push_bit 36 (ucast (bytes ! 40)) OR
        push_bit 28 (ucast (bytes ! 41)) OR push_bit 20 (ucast (bytes ! 42)) OR
        push_bit 12 (ucast (bytes ! 43)) OR push_bit 4 (ucast (bytes ! 44)) OR
        ucast (drop_bit 4 (bytes ! 45) AND 0xf),
     7 := push_bit 48 (ucast (bytes ! 45 AND 0xf)) OR push_bit 40 (ucast (bytes ! 46)) OR
        push_bit 32 (ucast (bytes ! 47)) OR push_bit 24 (ucast (bytes ! 48)) OR
        push_bit 16 (ucast (bytes ! 49)) OR push_bit 8 (ucast (bytes ! 50)) OR
        ucast (bytes ! 51)]"

lemma unpack_bits_52_fill:
  "unpack_bits_52 v b = fill_to 8 (\<lambda>k. regroup 8 (\<lambda>j. ucast (b ! j)) (52 * k) 52) v"
  unfolding unpack_bits_52_def literal_pieces
  by (intro fill_step fill_zero) (simp add: regroup_eval; fail)+

definition unpack_bits_53 :: "u64 list \<Rightarrow> u8 list \<Rightarrow> u64 list" where
  "unpack_bits_53 values bytes = values
    [0 := push_bit 45 (ucast (bytes ! 0)) OR push_bit 37 (ucast (bytes ! 1)) OR
        push_bit 29 (ucast (bytes ! 2)) OR push_bit 21 (ucast (bytes ! 3)) OR
        push_bit 13 (ucast (bytes ! 4)) OR push_bit 5 (ucast (bytes ! 5)) OR
        ucast (drop_bit 3 (bytes ! 6) AND 0x1f),
     1 := push_bit 50 (ucast (bytes ! 6 AND 0x7)) OR push_bit 42 (ucast (bytes ! 7)) OR
        push_bit 34 (ucast (bytes ! 8)) OR push_bit 26 (ucast (bytes ! 9)) OR
        push_bit 18 (ucast (bytes ! 10)) OR push_bit 10 (ucast (bytes ! 11)) OR
        push_bit 2 (ucast (bytes ! 12)) OR ucast (drop_bit 6 (bytes ! 13) AND 0x3),
     2 := push_bit 47 (ucast (bytes ! 13 AND 0x3f)) OR push_bit 39 (ucast (bytes ! 14)) OR
        push_bit 31 (ucast (bytes ! 15)) OR push_bit 23 (ucast (bytes ! 16)) OR
        push_bit 15 (ucast (bytes ! 17)) OR push_bit 7 (ucast (bytes ! 18)) OR
        ucast (drop_bit 1 (bytes ! 19) AND 0x7f),
     3 := push_bit 52 (ucast (bytes ! 19 AND 0x1)) OR push_bit 44 (ucast (bytes ! 20)) OR
        push_bit 36 (ucast (bytes ! 21)) OR push_bit 28 (ucast (bytes ! 22)) OR
        push_bit 20 (ucast (bytes ! 23)) OR push_bit 12 (ucast (bytes ! 24)) OR
        push_bit 4 (ucast (bytes ! 25)) OR ucast (drop_bit 4 (bytes ! 26) AND 0xf),
     4 := push_bit 49 (ucast (bytes ! 26 AND 0xf)) OR push_bit 41 (ucast (bytes ! 27)) OR
        push_bit 33 (ucast (bytes ! 28)) OR push_bit 25 (ucast (bytes ! 29)) OR
        push_bit 17 (ucast (bytes ! 30)) OR push_bit 9 (ucast (bytes ! 31)) OR
        push_bit 1 (ucast (bytes ! 32)) OR ucast (drop_bit 7 (bytes ! 33) AND 0x1),
     5 := push_bit 46 (ucast (bytes ! 33 AND 0x7f)) OR push_bit 38 (ucast (bytes ! 34)) OR
        push_bit 30 (ucast (bytes ! 35)) OR push_bit 22 (ucast (bytes ! 36)) OR
        push_bit 14 (ucast (bytes ! 37)) OR push_bit 6 (ucast (bytes ! 38)) OR
        ucast (drop_bit 2 (bytes ! 39) AND 0x3f),
     6 := push_bit 51 (ucast (bytes ! 39 AND 0x3)) OR push_bit 43 (ucast (bytes ! 40)) OR
        push_bit 35 (ucast (bytes ! 41)) OR push_bit 27 (ucast (bytes ! 42)) OR
        push_bit 19 (ucast (bytes ! 43)) OR push_bit 11 (ucast (bytes ! 44)) OR
        push_bit 3 (ucast (bytes ! 45)) OR ucast (drop_bit 5 (bytes ! 46) AND 0x7),
     7 := push_bit 48 (ucast (bytes ! 46 AND 0x1f)) OR push_bit 40 (ucast (bytes ! 47)) OR
        push_bit 32 (ucast (bytes ! 48)) OR push_bit 24 (ucast (bytes ! 49)) OR
        push_bit 16 (ucast (bytes ! 50)) OR push_bit 8 (ucast (bytes ! 51)) OR
        ucast (bytes ! 52)]"

lemma unpack_bits_53_fill:
  "unpack_bits_53 v b = fill_to 8 (\<lambda>k. regroup 8 (\<lambda>j. ucast (b ! j)) (53 * k) 53) v"
  unfolding unpack_bits_53_def literal_pieces
  by (intro fill_step fill_zero) (simp add: regroup_eval; fail)+

definition unpack_bits_54 :: "u64 list \<Rightarrow> u8 list \<Rightarrow> u64 list" where
  "unpack_bits_54 values bytes = values
    [0 := push_bit 46 (ucast (bytes ! 0)) OR push_bit 38 (ucast (bytes ! 1)) OR
        push_bit 30 (ucast (bytes ! 2)) OR push_bit 22 (ucast (bytes ! 3)) OR
        push_bit 14 (ucast (bytes ! 4)) OR push_bit 6 (ucast (bytes ! 5)) OR
        ucast (drop_bit 2 (bytes ! 6) AND 0x3f),
     1 := push_bit 52 (ucast (bytes ! 6 AND 0x3)) OR push_bit 44 (ucast (bytes ! 7)) OR
        push_bit 36 (ucast (bytes ! 8)) OR push_bit 28 (ucast (bytes ! 9)) OR
        push_bit 20 (ucast (bytes ! 10)) OR push_bit 12 (ucast (bytes ! 11)) OR
        push_bit 4 (ucast (bytes ! 12)) OR ucast (drop_bit 4 (bytes ! 13) AND 0xf),
     2 := push_bit 50 (ucast (bytes ! 13 AND 0xf)) OR push_bit 42 (ucast (bytes ! 14)) OR
        push_bit 34 (ucast (bytes ! 15)) OR push_bit 26 (ucast (bytes ! 16)) OR
        push_bit 18 (ucast (bytes ! 17)) OR push_bit 10 (ucast (bytes ! 18)) OR
        push_bit 2 (ucast (bytes ! 19)) OR ucast (drop_bit 6 (bytes ! 20) AND 0x3),
     3 := push_bit 48 (ucast (bytes ! 20 AND 0x3f)) OR push_bit 40 (ucast (bytes ! 21)) OR
        push_bit 32 (ucast (bytes ! 22)) OR push_bit 24 (ucast (bytes ! 23)) OR
        push_bit 16 (ucast (bytes ! 24)) OR push_bit 8 (ucast (bytes ! 25)) OR
        ucast (bytes ! 26),
     4 := push_bit 46 (ucast (bytes ! 27)) OR push_bit 38 (ucast (bytes ! 28)) OR
        push_bit 30 (ucast (bytes ! 29)) OR push_bit 22 (ucast (bytes ! 30)) OR
        push_bit 14 (ucast (bytes ! 31)) OR push_bit 6 (ucast (bytes ! 32)) OR
        ucast (drop_bit 2 (bytes ! 33) AND 0x3f),
     5 := push_bit 52 (ucast (bytes ! 33 AND 0x3)) OR push_bit 44 (ucast (bytes ! 34)) OR
        push_bit 36 (ucast (bytes ! 35)) OR push_bit 28 (ucast (bytes ! 36)) OR
        push_bit 20 (ucast (bytes ! 37)) OR push_bit 12 (ucast (bytes ! 38)) OR
        push_bit 4 (ucast (bytes ! 39)) OR ucast (drop_bit 4 (bytes ! 40) AND 0xf),
     6 := push_bit 50 (ucast (bytes ! 40 AND 0xf)) OR push_bit 42 (ucast (bytes ! 41)) OR
        push_bit 34 (ucast (bytes ! 42)) OR push_bit 26 (ucast (bytes ! 43)) OR
        push_bit 18 (ucast (bytes ! 44)) OR push_bit 10 (ucast (bytes ! 45)) OR
        push_bit 2 (ucast (bytes ! 46)) OR ucast (drop_bit 6 (bytes ! 47) AND 0x3),
     7 := push_bit 48 (ucast (bytes ! 47 AND 0x3f)) OR push_bit 40 (ucast (bytes ! 48)) OR
        push_bit 32 (ucast (bytes ! 49)) OR push_bit 24 (ucast (bytes ! 50)) OR
        push_bit 16 (ucast (bytes ! 51)) OR push_bit 8 (ucast (bytes ! 52)) OR
        ucast (bytes ! 53)]"

lemma unpack_bits_54_fill:
  "unpack_bits_54 v b = fill_to 8 (\<lambda>k. regroup 8 (\<lambda>j. ucast (b ! j)) (54 * k) 54) v"
  unfolding unpack_bits_54_def literal_pieces
  by (intro fill_step fill_zero) (simp add: regroup_eval; fail)+

definition unpack_bits_55 :: "u64 list \<Rightarrow> u8 list \<Rightarrow> u64 list" where
  "unpack_bits_55 values bytes = values
    [0 := push_bit 47 (ucast (bytes ! 0)) OR push_bit 39 (ucast (bytes ! 1)) OR
        push_bit 31 (ucast (bytes ! 2)) OR push_bit 23 (ucast (bytes ! 3)) OR
        push_bit 15 (ucast (bytes ! 4)) OR push_bit 7 (ucast (bytes ! 5)) OR
        ucast (drop_bit 1 (bytes ! 6) AND 0x7f),
     1 := push_bit 54 (ucast (bytes ! 6 AND 0x1)) OR push_bit 46 (ucast (bytes ! 7)) OR
        push_bit 38 (ucast (bytes ! 8)) OR push_bit 30 (ucast (bytes ! 9)) OR
        push_bit 22 (ucast (bytes ! 10)) OR push_bit 14 (ucast (bytes ! 11)) OR
        push_bit 6 (ucast (bytes ! 12)) OR ucast (drop_bit 2 (bytes ! 13) AND 0x3f),
     2 := push_bit 53 (ucast (bytes ! 13 AND 0x3)) OR push_bit 45 (ucast (bytes ! 14)) OR
        push_bit 37 (ucast (bytes ! 15)) OR push_bit 29 (ucast (bytes ! 16)) OR
        push_bit 21 (ucast (bytes ! 17)) OR push_bit 13 (ucast (bytes ! 18)) OR
        push_bit 5 (ucast (bytes ! 19)) OR ucast (drop_bit 3 (bytes ! 20) AND 0x1f),
     3 := push_bit 52 (ucast (bytes ! 20 AND 0x7)) OR push_bit 44 (ucast (bytes ! 21)) OR
        push_bit 36 (ucast (bytes ! 22)) OR push_bit 28 (ucast (bytes ! 23)) OR
        push_bit 20 (ucast (bytes ! 24)) OR push_bit 12 (ucast (bytes ! 25)) OR
        push_bit 4 (ucast (bytes ! 26)) OR ucast (drop_bit 4 (bytes ! 27) AND 0xf),
     4 := push_bit 51 (ucast (bytes ! 27 AND 0xf)) OR push_bit 43 (ucast (bytes ! 28)) OR
        push_bit 35 (ucast (bytes ! 29)) OR push_bit 27 (ucast (bytes ! 30)) OR
        push_bit 19 (ucast (bytes ! 31)) OR push_bit 11 (ucast (bytes ! 32)) OR
        push_bit 3 (ucast (bytes ! 33)) OR ucast (drop_bit 5 (bytes ! 34) AND 0x7),
     5 := push_bit 50 (ucast (bytes ! 34 AND 0x1f)) OR push_bit 42 (ucast (bytes ! 35)) OR
        push_bit 34 (ucast (bytes ! 36)) OR push_bit 26 (ucast (bytes ! 37)) OR
        push_bit 18 (ucast (bytes ! 38)) OR push_bit 10 (ucast (bytes ! 39)) OR
        push_bit 2 (ucast (bytes ! 40)) OR ucast (drop_bit 6 (bytes ! 41) AND 0x3),
     6 := push_bit 49 (ucast (bytes ! 41 AND 0x3f)) OR push_bit 41 (ucast (bytes ! 42)) OR
        push_bit 33 (ucast (bytes ! 43)) OR push_bit 25 (ucast (bytes ! 44)) OR
        push_bit 17 (ucast (bytes ! 45)) OR push_bit 9 (ucast (bytes ! 46)) OR
        push_bit 1 (ucast (bytes ! 47)) OR ucast (drop_bit 7 (bytes ! 48) AND 0x1),
     7 := push_bit 48 (ucast (bytes ! 48 AND 0x7f)) OR push_bit 40 (ucast (bytes ! 49)) OR
        push_bit 32 (ucast (bytes ! 50)) OR push_bit 24 (ucast (bytes ! 51)) OR
        push_bit 16 (ucast (bytes ! 52)) OR push_bit 8 (ucast (bytes ! 53)) OR
        ucast (bytes ! 54)]"

lemma unpack_bits_55_fill:
  "unpack_bits_55 v b = fill_to 8 (\<lambda>k. regroup 8 (\<lambda>j. ucast (b ! j)) (55 * k) 55) v"
  unfolding unpack_bits_55_def literal_pieces
  by (intro fill_step fill_zero) (simp add: regroup_eval; fail)+

definition unpack_bits_56 :: "u64 list \<Rightarrow> u8 list \<Rightarrow> u64 list" where
  "unpack_bits_56 values bytes = values
    [0 := push_bit 48 (ucast (bytes ! 0)) OR push_bit 40 (ucast (bytes ! 1)) OR
        push_bit 32 (ucast (bytes ! 2)) OR push_bit 24 (ucast (bytes ! 3)) OR
        push_bit 16 (ucast (bytes ! 4)) OR push_bit 8 (ucast (bytes ! 5)) OR
        ucast (bytes ! 6),
     1 := push_bit 48 (ucast (bytes ! 7)) OR push_bit 40 (ucast (bytes ! 8)) OR
        push_bit 32 (ucast (bytes ! 9)) OR push_bit 24 (ucast (bytes ! 10)) OR
        push_bit 16 (ucast (bytes ! 11)) OR push_bit 8 (ucast (bytes ! 12)) OR
        ucast (bytes ! 13),
     2 := push_bit 48 (ucast (bytes ! 14)) OR push_bit 40 (ucast (bytes ! 15)) OR
        push_bit 32 (ucast (bytes ! 16)) OR push_bit 24 (ucast (bytes ! 17)) OR
        push_bit 16 (ucast (bytes ! 18)) OR push_bit 8 (ucast (bytes ! 19)) OR
        ucast (bytes ! 20),
     3 := push_bit 48 (ucast (bytes ! 21)) OR push_bit 40 (ucast (bytes ! 22)) OR
        push_bit 32 (ucast (bytes ! 23)) OR push_bit 24 (ucast (bytes ! 24)) OR
        push_bit 16 (ucast (bytes ! 25)) OR push_bit 8 (ucast (bytes ! 26)) OR
        ucast (bytes ! 27),
     4 := push_bit 48 (ucast (bytes ! 28)) OR push_bit 40 (ucast (bytes ! 29)) OR
        push_bit 32 (ucast (bytes ! 30)) OR push_bit 24 (ucast (bytes ! 31)) OR
        push_bit 16 (ucast (bytes ! 32)) OR push_bit 8 (ucast (bytes ! 33)) OR
        ucast (bytes ! 34),
     5 := push_bit 48 (ucast (bytes ! 35)) OR push_bit 40 (ucast (bytes ! 36)) OR
        push_bit 32 (ucast (bytes ! 37)) OR push_bit 24 (ucast (bytes ! 38)) OR
        push_bit 16 (ucast (bytes ! 39)) OR push_bit 8 (ucast (bytes ! 40)) OR
        ucast (bytes ! 41),
     6 := push_bit 48 (ucast (bytes ! 42)) OR push_bit 40 (ucast (bytes ! 43)) OR
        push_bit 32 (ucast (bytes ! 44)) OR push_bit 24 (ucast (bytes ! 45)) OR
        push_bit 16 (ucast (bytes ! 46)) OR push_bit 8 (ucast (bytes ! 47)) OR
        ucast (bytes ! 48),
     7 := push_bit 48 (ucast (bytes ! 49)) OR push_bit 40 (ucast (bytes ! 50)) OR
        push_bit 32 (ucast (bytes ! 51)) OR push_bit 24 (ucast (bytes ! 52)) OR
        push_bit 16 (ucast (bytes ! 53)) OR push_bit 8 (ucast (bytes ! 54)) OR
        ucast (bytes ! 55)]"

lemma unpack_bits_56_fill:
  "unpack_bits_56 v b = fill_to 8 (\<lambda>k. regroup 8 (\<lambda>j. ucast (b ! j)) (56 * k) 56) v"
  unfolding unpack_bits_56_def literal_pieces
  by (intro fill_step fill_zero) (simp add: regroup_eval; fail)+

definition unpack_bits_57 :: "u64 list \<Rightarrow> u8 list \<Rightarrow> u64 list" where
  "unpack_bits_57 values bytes = values
    [0 := push_bit 49 (ucast (bytes ! 0)) OR push_bit 41 (ucast (bytes ! 1)) OR
        push_bit 33 (ucast (bytes ! 2)) OR push_bit 25 (ucast (bytes ! 3)) OR
        push_bit 17 (ucast (bytes ! 4)) OR push_bit 9 (ucast (bytes ! 5)) OR
        push_bit 1 (ucast (bytes ! 6)) OR ucast (drop_bit 7 (bytes ! 7) AND 0x1),
     1 := push_bit 50 (ucast (bytes ! 7 AND 0x7f)) OR push_bit 42 (ucast (bytes ! 8)) OR
        push_bit 34 (ucast (bytes ! 9)) OR push_bit 26 (ucast (bytes ! 10)) OR
        push_bit 18 (ucast (bytes ! 11)) OR push_bit 10 (ucast (bytes ! 12)) OR
        push_bit 2 (ucast (bytes ! 13)) OR ucast (drop_bit 6 (bytes ! 14) AND 0x3),
     2 := push_bit 51 (ucast (bytes ! 14 AND 0x3f)) OR push_bit 43 (ucast (bytes ! 15)) OR
        push_bit 35 (ucast (bytes ! 16)) OR push_bit 27 (ucast (bytes ! 17)) OR
        push_bit 19 (ucast (bytes ! 18)) OR push_bit 11 (ucast (bytes ! 19)) OR
        push_bit 3 (ucast (bytes ! 20)) OR ucast (drop_bit 5 (bytes ! 21) AND 0x7),
     3 := push_bit 52 (ucast (bytes ! 21 AND 0x1f)) OR push_bit 44 (ucast (bytes ! 22)) OR
        push_bit 36 (ucast (bytes ! 23)) OR push_bit 28 (ucast (bytes ! 24)) OR
        push_bit 20 (ucast (bytes ! 25)) OR push_bit 12 (ucast (bytes ! 26)) OR
        push_bit 4 (ucast (bytes ! 27)) OR ucast (drop_bit 4 (bytes ! 28) AND 0xf),
     4 := push_bit 53 (ucast (bytes ! 28 AND 0xf)) OR push_bit 45 (ucast (bytes ! 29)) OR
        push_bit 37 (ucast (bytes ! 30)) OR push_bit 29 (ucast (bytes ! 31)) OR
        push_bit 21 (ucast (bytes ! 32)) OR push_bit 13 (ucast (bytes ! 33)) OR
        push_bit 5 (ucast (bytes ! 34)) OR ucast (drop_bit 3 (bytes ! 35) AND 0x1f),
     5 := push_bit 54 (ucast (bytes ! 35 AND 0x7)) OR push_bit 46 (ucast (bytes ! 36)) OR
        push_bit 38 (ucast (bytes ! 37)) OR push_bit 30 (ucast (bytes ! 38)) OR
        push_bit 22 (ucast (bytes ! 39)) OR push_bit 14 (ucast (bytes ! 40)) OR
        push_bit 6 (ucast (bytes ! 41)) OR ucast (drop_bit 2 (bytes ! 42) AND 0x3f),
     6 := push_bit 55 (ucast (bytes ! 42 AND 0x3)) OR push_bit 47 (ucast (bytes ! 43)) OR
        push_bit 39 (ucast (bytes ! 44)) OR push_bit 31 (ucast (bytes ! 45)) OR
        push_bit 23 (ucast (bytes ! 46)) OR push_bit 15 (ucast (bytes ! 47)) OR
        push_bit 7 (ucast (bytes ! 48)) OR ucast (drop_bit 1 (bytes ! 49) AND 0x7f),
     7 := push_bit 56 (ucast (bytes ! 49 AND 0x1)) OR push_bit 48 (ucast (bytes ! 50)) OR
        push_bit 40 (ucast (bytes ! 51)) OR push_bit 32 (ucast (bytes ! 52)) OR
        push_bit 24 (ucast (bytes ! 53)) OR push_bit 16 (ucast (bytes ! 54)) OR
        push_bit 8 (ucast (bytes ! 55)) OR ucast (bytes ! 56)]"

lemma unpack_bits_57_fill:
  "unpack_bits_57 v b = fill_to 8 (\<lambda>k. regroup 8 (\<lambda>j. ucast (b ! j)) (57 * k) 57) v"
  unfolding unpack_bits_57_def literal_pieces
  by (intro fill_step fill_zero) (simp add: regroup_eval; fail)+

definition unpack_bits_58 :: "u64 list \<Rightarrow> u8 list \<Rightarrow> u64 list" where
  "unpack_bits_58 values bytes = values
    [0 := push_bit 50 (ucast (bytes ! 0)) OR push_bit 42 (ucast (bytes ! 1)) OR
        push_bit 34 (ucast (bytes ! 2)) OR push_bit 26 (ucast (bytes ! 3)) OR
        push_bit 18 (ucast (bytes ! 4)) OR push_bit 10 (ucast (bytes ! 5)) OR
        push_bit 2 (ucast (bytes ! 6)) OR ucast (drop_bit 6 (bytes ! 7) AND 0x3),
     1 := push_bit 52 (ucast (bytes ! 7 AND 0x3f)) OR push_bit 44 (ucast (bytes ! 8)) OR
        push_bit 36 (ucast (bytes ! 9)) OR push_bit 28 (ucast (bytes ! 10)) OR
        push_bit 20 (ucast (bytes ! 11)) OR push_bit 12 (ucast (bytes ! 12)) OR
        push_bit 4 (ucast (bytes ! 13)) OR ucast (drop_bit 4 (bytes ! 14) AND 0xf),
     2 := push_bit 54 (ucast (bytes ! 14 AND 0xf)) OR push_bit 46 (ucast (bytes ! 15)) OR
        push_bit 38 (ucast (bytes ! 16)) OR push_bit 30 (ucast (bytes ! 17)) OR
        push_bit 22 (ucast (bytes ! 18)) OR push_bit 14 (ucast (bytes ! 19)) OR
        push_bit 6 (ucast (bytes ! 20)) OR ucast (drop_bit 2 (bytes ! 21) AND 0x3f),
     3 := push_bit 56 (ucast (bytes ! 21 AND 0x3)) OR push_bit 48 (ucast (bytes ! 22)) OR
        push_bit 40 (ucast (bytes ! 23)) OR push_bit 32 (ucast (bytes ! 24)) OR
        push_bit 24 (ucast (bytes ! 25)) OR push_bit 16 (ucast (bytes ! 26)) OR
        push_bit 8 (ucast (bytes ! 27)) OR ucast (bytes ! 28),
     4 := push_bit 50 (ucast (bytes ! 29)) OR push_bit 42 (ucast (bytes ! 30)) OR
        push_bit 34 (ucast (bytes ! 31)) OR push_bit 26 (ucast (bytes ! 32)) OR
        push_bit 18 (ucast (bytes ! 33)) OR push_bit 10 (ucast (bytes ! 34)) OR
        push_bit 2 (ucast (bytes ! 35)) OR ucast (drop_bit 6 (bytes ! 36) AND 0x3),
     5 := push_bit 52 (ucast (bytes ! 36 AND 0x3f)) OR push_bit 44 (ucast (bytes ! 37)) OR
        push_bit 36 (ucast (bytes ! 38)) OR push_bit 28 (ucast (bytes ! 39)) OR
        push_bit 20 (ucast (bytes ! 40)) OR push_bit 12 (ucast (bytes ! 41)) OR
        push_bit 4 (ucast (bytes ! 42)) OR ucast (drop_bit 4 (bytes ! 43) AND 0xf),
     6 := push_bit 54 (ucast (bytes ! 43 AND 0xf)) OR push_bit 46 (ucast (bytes ! 44)) OR
        push_bit 38 (ucast (bytes ! 45)) OR push_bit 30 (ucast (bytes ! 46)) OR
        push_bit 22 (ucast (bytes ! 47)) OR push_bit 14 (ucast (bytes ! 48)) OR
        push_bit 6 (ucast (bytes ! 49)) OR ucast (drop_bit 2 (bytes ! 50) AND 0x3f),
     7 := push_bit 56 (ucast (bytes ! 50 AND 0x3)) OR push_bit 48 (ucast (bytes ! 51)) OR
        push_bit 40 (ucast (bytes ! 52)) OR push_bit 32 (ucast (bytes ! 53)) OR
        push_bit 24 (ucast (bytes ! 54)) OR push_bit 16 (ucast (bytes ! 55)) OR
        push_bit 8 (ucast (bytes ! 56)) OR ucast (bytes ! 57)]"

lemma unpack_bits_58_fill:
  "unpack_bits_58 v b = fill_to 8 (\<lambda>k. regroup 8 (\<lambda>j. ucast (b ! j)) (58 * k) 58) v"
  unfolding unpack_bits_58_def literal_pieces
  by (intro fill_step fill_zero) (simp add: regroup_eval; fail)+

definition unpack_bits_59 :: "u64 list \<Rightarrow> u8 list \<Rightarrow> u64 list" where
  "unpack_bits_59 values bytes = values
    [0 := push_bit 51 (ucast (bytes ! 0)) OR push_bit 43 (ucast (bytes ! 1)) OR
        push_bit 35 (ucast (bytes ! 2)) OR push_bit 27 (ucast (bytes ! 3)) OR
        push_bit 19 (ucast (bytes ! 4)) OR push_bit 11 (ucast (bytes ! 5)) OR
        push_bit 3 (ucast (bytes ! 6)) OR ucast (drop_bit 5 (bytes ! 7) AND 0x7),
     1 := push_bit 54 (ucast (bytes ! 7 AND 0x1f)) OR push_bit 46 (ucast (bytes ! 8)) OR
        push_bit 38 (ucast (bytes ! 9)) OR push_bit 30 (ucast (bytes ! 10)) OR
        push_bit 22 (ucast (bytes ! 11)) OR push_bit 14 (ucast (bytes ! 12)) OR
        push_bit 6 (ucast (bytes ! 13)) OR ucast (drop_bit 2 (bytes ! 14) AND 0x3f),
     2 := push_bit 57 (ucast (bytes ! 14 AND 0x3)) OR push_bit 49 (ucast (bytes ! 15)) OR
        push_bit 41 (ucast (bytes ! 16)) OR push_bit 33 (ucast (bytes ! 17)) OR
        push_bit 25 (ucast (bytes ! 18)) OR push_bit 17 (ucast (bytes ! 19)) OR
        push_bit 9 (ucast (bytes ! 20)) OR push_bit 1 (ucast (bytes ! 21)) OR
        ucast (drop_bit 7 (bytes ! 22) AND 0x1),
     3 := push_bit 52 (ucast (bytes ! 22 AND 0x7f)) OR push_bit 44 (ucast (bytes ! 23)) OR
        push_bit 36 (ucast (bytes ! 24)) OR push_bit 28 (ucast (bytes ! 25)) OR
        push_bit 20 (ucast (bytes ! 26)) OR push_bit 12 (ucast (bytes ! 27)) OR
        push_bit 4 (ucast (bytes ! 28)) OR ucast (drop_bit 4 (bytes ! 29) AND 0xf),
     4 := push_bit 55 (ucast (bytes ! 29 AND 0xf)) OR push_bit 47 (ucast (bytes ! 30)) OR
        push_bit 39 (ucast (bytes ! 31)) OR push_bit 31 (ucast (bytes ! 32)) OR
        push_bit 23 (ucast (bytes ! 33)) OR push_bit 15 (ucast (bytes ! 34)) OR
        push_bit 7 (ucast (bytes ! 35)) OR ucast (drop_bit 1 (bytes ! 36) AND 0x7f),
     5 := push_bit 58 (ucast (bytes ! 36 AND 0x1)) OR push_bit 50 (ucast (bytes ! 37)) OR
        push_bit 42 (ucast (bytes ! 38)) OR push_bit 34 (ucast (bytes ! 39)) OR
        push_bit 26 (ucast (bytes ! 40)) OR push_bit 18 (ucast (bytes ! 41)) OR
        push_bit 10 (ucast (bytes ! 42)) OR push_bit 2 (ucast (bytes ! 43)) OR
        ucast (drop_bit 6 (bytes ! 44) AND 0x3),
     6 := push_bit 53 (ucast (bytes ! 44 AND 0x3f)) OR push_bit 45 (ucast (bytes ! 45)) OR
        push_bit 37 (ucast (bytes ! 46)) OR push_bit 29 (ucast (bytes ! 47)) OR
        push_bit 21 (ucast (bytes ! 48)) OR push_bit 13 (ucast (bytes ! 49)) OR
        push_bit 5 (ucast (bytes ! 50)) OR ucast (drop_bit 3 (bytes ! 51) AND 0x1f),
     7 := push_bit 56 (ucast (bytes ! 51 AND 0x7)) OR push_bit 48 (ucast (bytes ! 52)) OR
        push_bit 40 (ucast (bytes ! 53)) OR push_bit 32 (ucast (bytes ! 54)) OR
        push_bit 24 (ucast (bytes ! 55)) OR push_bit 16 (ucast (bytes ! 56)) OR
        push_bit 8 (ucast (bytes ! 57)) OR ucast (bytes ! 58)]"

lemma unpack_bits_59_fill:
  "unpack_bits_59 v b = fill_to 8 (\<lambda>k. regroup 8 (\<lambda>j. ucast (b ! j)) (59 * k) 59) v"
  unfolding unpack_bits_59_def literal_pieces
  by (intro fill_step fill_zero) (simp add: regroup_eval; fail)+

definition unpack_bits_60 :: "u64 list \<Rightarrow> u8 list \<Rightarrow> u64 list" where
  "unpack_bits_60 values bytes = values
    [0 := push_bit 52 (ucast (bytes ! 0)) OR push_bit 44 (ucast (bytes ! 1)) OR
        push_bit 36 (ucast (bytes ! 2)) OR push_bit 28 (ucast (bytes ! 3)) OR
        push_bit 20 (ucast (bytes ! 4)) OR push_bit 12 (ucast (bytes ! 5)) OR
        push_bit 4 (ucast (bytes ! 6)) OR ucast (drop_bit 4 (bytes ! 7) AND 0xf),
     1 := push_bit 56 (ucast (bytes ! 7 AND 0xf)) OR push_bit 48 (ucast (bytes ! 8)) OR
        push_bit 40 (ucast (bytes ! 9)) OR push_bit 32 (ucast (bytes ! 10)) OR
        push_bit 24 (ucast (bytes ! 11)) OR push_bit 16 (ucast (bytes ! 12)) OR
        push_bit 8 (ucast (bytes ! 13)) OR ucast (bytes ! 14),
     2 := push_bit 52 (ucast (bytes ! 15)) OR push_bit 44 (ucast (bytes ! 16)) OR
        push_bit 36 (ucast (bytes ! 17)) OR push_bit 28 (ucast (bytes ! 18)) OR
        push_bit 20 (ucast (bytes ! 19)) OR push_bit 12 (ucast (bytes ! 20)) OR
        push_bit 4 (ucast (bytes ! 21)) OR ucast (drop_bit 4 (bytes ! 22) AND 0xf),
     3 := push_bit 56 (ucast (bytes ! 22 AND 0xf)) OR push_bit 48 (ucast (bytes ! 23)) OR
        push_bit 40 (ucast (bytes ! 24)) OR push_bit 32 (ucast (bytes ! 25)) OR
        push_bit 24 (ucast (bytes ! 26)) OR push_bit 16 (ucast (bytes ! 27)) OR
        push_bit 8 (ucast (bytes ! 28)) OR ucast (bytes ! 29),
     4 := push_bit 52 (ucast (bytes ! 30)) OR push_bit 44 (ucast (bytes ! 31)) OR
        push_bit 36 (ucast (bytes ! 32)) OR push_bit 28 (ucast (bytes ! 33)) OR
        push_bit 20 (ucast (bytes ! 34)) OR push_bit 12 (ucast (bytes ! 35)) OR
        push_bit 4 (ucast (bytes ! 36)) OR ucast (drop_bit 4 (bytes ! 37) AND 0xf),
     5 := push_bit 56 (ucast (bytes ! 37 AND 0xf)) OR push_bit 48 (ucast (bytes ! 38)) OR
        push_bit 40 (ucast (bytes ! 39)) OR push_bit 32 (ucast (bytes ! 40)) OR
        push_bit 24 (ucast (bytes ! 41)) OR push_bit 16 (ucast (bytes ! 42)) OR
        push_bit 8 (ucast (bytes ! 43)) OR ucast (bytes ! 44),
     6 := push_bit 52 (ucast (bytes ! 45)) OR push_bit 44 (ucast (bytes ! 46)) OR
        push_bit 36 (ucast (bytes ! 47)) OR push_bit 28 (ucast (bytes ! 48)) OR
        push_bit 20 (ucast (bytes ! 49)) OR push_bit 12 (ucast (bytes ! 50)) OR
        push_bit 4 (ucast (bytes ! 51)) OR ucast (drop_bit 4 (bytes ! 52) AND 0xf),
     7 := push_bit 56 (ucast (bytes ! 52 AND 0xf)) OR push_bit 48 (ucast (bytes ! 53)) OR
        push_bit 40 (ucast (bytes ! 54)) OR push_bit 32 (ucast (bytes ! 55)) OR
        push_bit 24 (ucast (bytes ! 56)) OR push_bit 16 (ucast (bytes ! 57)) OR
        push_bit 8 (ucast (bytes ! 58)) OR ucast (bytes ! 59)]"

lemma unpack_bits_60_fill:
  "unpack_bits_60 v b = fill_to 8 (\<lambda>k. regroup 8 (\<lambda>j. ucast (b ! j)) (60 * k) 60) v"
  unfolding unpack_bits_60_def literal_pieces
  by (intro fill_step fill_zero) (simp add: regroup_eval; fail)+

definition unpack_bits_61 :: "u64 list \<Rightarrow> u8 list \<Rightarrow> u64 list" where
  "unpack_bits_61 values bytes = values
    [0 := push_bit 53 (ucast (bytes ! 0)) OR push_bit 45 (ucast (bytes ! 1)) OR
        push_bit 37 (ucast (bytes ! 2)) OR push_bit 29 (ucast (bytes ! 3)) OR
        push_bit 21 (ucast (bytes ! 4)) OR push_bit 13 (ucast (bytes ! 5)) OR
        push_bit 5 (ucast (bytes ! 6)) OR ucast (drop_bit 3 (bytes ! 7) AND 0x1f),
     1 := push_bit 58 (ucast (bytes ! 7 AND 0x7)) OR push_bit 50 (ucast (bytes ! 8)) OR
        push_bit 42 (ucast (bytes ! 9)) OR push_bit 34 (ucast (bytes ! 10)) OR
        push_bit 26 (ucast (bytes ! 11)) OR push_bit 18 (ucast (bytes ! 12)) OR
        push_bit 10 (ucast (bytes ! 13)) OR push_bit 2 (ucast (bytes ! 14)) OR
        ucast (drop_bit 6 (bytes ! 15) AND 0x3),
     2 := push_bit 55 (ucast (bytes ! 15 AND 0x3f)) OR push_bit 47 (ucast (bytes ! 16)) OR
        push_bit 39 (ucast (bytes ! 17)) OR push_bit 31 (ucast (bytes ! 18)) OR
        push_bit 23 (ucast (bytes ! 19)) OR push_bit 15 (ucast (bytes ! 20)) OR
        push_bit 7 (ucast (bytes ! 21)) OR ucast (drop_bit 1 (bytes ! 22) AND 0x7f),
     3 := push_bit 60 (ucast (bytes ! 22 AND 0x1)) OR push_bit 52 (ucast (bytes ! 23)) OR
        push_bit 44 (ucast (bytes ! 24)) OR push_bit 36 (ucast (bytes ! 25)) OR
        push_bit 28 (ucast (bytes ! 26)) OR push_bit 20 (ucast (bytes ! 27)) OR
        push_bit 12 (ucast (bytes ! 28)) OR push_bit 4 (ucast (bytes ! 29)) OR
        ucast (drop_bit 4 (bytes ! 30) AND 0xf),
     4 := push_bit 57 (ucast (bytes ! 30 AND 0xf)) OR push_bit 49 (ucast (bytes ! 31)) OR
        push_bit 41 (ucast (bytes ! 32)) OR push_bit 33 (ucast (bytes ! 33)) OR
        push_bit 25 (ucast (bytes ! 34)) OR push_bit 17 (ucast (bytes ! 35)) OR
        push_bit 9 (ucast (bytes ! 36)) OR push_bit 1 (ucast (bytes ! 37)) OR
        ucast (drop_bit 7 (bytes ! 38) AND 0x1),
     5 := push_bit 54 (ucast (bytes ! 38 AND 0x7f)) OR push_bit 46 (ucast (bytes ! 39)) OR
        push_bit 38 (ucast (bytes ! 40)) OR push_bit 30 (ucast (bytes ! 41)) OR
        push_bit 22 (ucast (bytes ! 42)) OR push_bit 14 (ucast (bytes ! 43)) OR
        push_bit 6 (ucast (bytes ! 44)) OR ucast (drop_bit 2 (bytes ! 45) AND 0x3f),
     6 := push_bit 59 (ucast (bytes ! 45 AND 0x3)) OR push_bit 51 (ucast (bytes ! 46)) OR
        push_bit 43 (ucast (bytes ! 47)) OR push_bit 35 (ucast (bytes ! 48)) OR
        push_bit 27 (ucast (bytes ! 49)) OR push_bit 19 (ucast (bytes ! 50)) OR
        push_bit 11 (ucast (bytes ! 51)) OR push_bit 3 (ucast (bytes ! 52)) OR
        ucast (drop_bit 5 (bytes ! 53) AND 0x7),
     7 := push_bit 56 (ucast (bytes ! 53 AND 0x1f)) OR push_bit 48 (ucast (bytes ! 54)) OR
        push_bit 40 (ucast (bytes ! 55)) OR push_bit 32 (ucast (bytes ! 56)) OR
        push_bit 24 (ucast (bytes ! 57)) OR push_bit 16 (ucast (bytes ! 58)) OR
        push_bit 8 (ucast (bytes ! 59)) OR ucast (bytes ! 60)]"

lemma unpack_bits_61_fill:
  "unpack_bits_61 v b = fill_to 8 (\<lambda>k. regroup 8 (\<lambda>j. ucast (b ! j)) (61 * k) 61) v"
  unfolding unpack_bits_61_def literal_pieces
  by (intro fill_step fill_zero) (simp add: regroup_eval; fail)+

definition unpack_bits_62 :: "u64 list \<Rightarrow> u8 list \<Rightarrow> u64 list" where
  "unpack_bits_62 values bytes = values
    [0 := push_bit 54 (ucast (bytes ! 0)) OR push_bit 46 (ucast (bytes ! 1)) OR
        push_bit 38 (ucast (bytes ! 2)) OR push_bit 30 (ucast (bytes ! 3)) OR
        push_bit 22 (ucast (bytes ! 4)) OR push_bit 14 (ucast (bytes ! 5)) OR
        push_bit 6 (ucast (bytes ! 6)) OR ucast (drop_bit 2 (bytes ! 7) AND 0x3f),
     1 := push_bit 60 (ucast (bytes ! 7 AND 0x3)) OR push_bit 52 (ucast (bytes ! 8)) OR
        push_bit 44 (ucast (bytes ! 9)) OR push_bit 36 (ucast (bytes ! 10)) OR
        push_bit 28 (ucast (bytes ! 11)) OR push_bit 20 (ucast (bytes ! 12)) OR
        push_bit 12 (ucast (bytes ! 13)) OR push_bit 4 (ucast (bytes ! 14)) OR
        ucast (drop_bit 4 (bytes ! 15) AND 0xf),
     2 := push_bit 58 (ucast (bytes ! 15 AND 0xf)) OR push_bit 50 (ucast (bytes ! 16)) OR
        push_bit 42 (ucast (bytes ! 17)) OR push_bit 34 (ucast (bytes ! 18)) OR
        push_bit 26 (ucast (bytes ! 19)) OR push_bit 18 (ucast (bytes ! 20)) OR
        push_bit 10 (ucast (bytes ! 21)) OR push_bit 2 (ucast (bytes ! 22)) OR
        ucast (drop_bit 6 (bytes ! 23) AND 0x3),
     3 := push_bit 56 (ucast (bytes ! 23 AND 0x3f)) OR push_bit 48 (ucast (bytes ! 24)) OR
        push_bit 40 (ucast (bytes ! 25)) OR push_bit 32 (ucast (bytes ! 26)) OR
        push_bit 24 (ucast (bytes ! 27)) OR push_bit 16 (ucast (bytes ! 28)) OR
        push_bit 8 (ucast (bytes ! 29)) OR ucast (bytes ! 30),
     4 := push_bit 54 (ucast (bytes ! 31)) OR push_bit 46 (ucast (bytes ! 32)) OR
        push_bit 38 (ucast (bytes ! 33)) OR push_bit 30 (ucast (bytes ! 34)) OR
        push_bit 22 (ucast (bytes ! 35)) OR push_bit 14 (ucast (bytes ! 36)) OR
        push_bit 6 (ucast (bytes ! 37)) OR ucast (drop_bit 2 (bytes ! 38) AND 0x3f),
     5 := push_bit 60 (ucast (bytes ! 38 AND 0x3)) OR push_bit 52 (ucast (bytes ! 39)) OR
        push_bit 44 (ucast (bytes ! 40)) OR push_bit 36 (ucast (bytes ! 41)) OR
        push_bit 28 (ucast (bytes ! 42)) OR push_bit 20 (ucast (bytes ! 43)) OR
        push_bit 12 (ucast (bytes ! 44)) OR push_bit 4 (ucast (bytes ! 45)) OR
        ucast (drop_bit 4 (bytes ! 46) AND 0xf),
     6 := push_bit 58 (ucast (bytes ! 46 AND 0xf)) OR push_bit 50 (ucast (bytes ! 47)) OR
        push_bit 42 (ucast (bytes ! 48)) OR push_bit 34 (ucast (bytes ! 49)) OR
        push_bit 26 (ucast (bytes ! 50)) OR push_bit 18 (ucast (bytes ! 51)) OR
        push_bit 10 (ucast (bytes ! 52)) OR push_bit 2 (ucast (bytes ! 53)) OR
        ucast (drop_bit 6 (bytes ! 54) AND 0x3),
     7 := push_bit 56 (ucast (bytes ! 54 AND 0x3f)) OR push_bit 48 (ucast (bytes ! 55)) OR
        push_bit 40 (ucast (bytes ! 56)) OR push_bit 32 (ucast (bytes ! 57)) OR
        push_bit 24 (ucast (bytes ! 58)) OR push_bit 16 (ucast (bytes ! 59)) OR
        push_bit 8 (ucast (bytes ! 60)) OR ucast (bytes ! 61)]"

lemma unpack_bits_62_fill:
  "unpack_bits_62 v b = fill_to 8 (\<lambda>k. regroup 8 (\<lambda>j. ucast (b ! j)) (62 * k) 62) v"
  unfolding unpack_bits_62_def literal_pieces
  by (intro fill_step fill_zero) (simp add: regroup_eval; fail)+

definition unpack_bits_63 :: "u64 list \<Rightarrow> u8 list \<Rightarrow> u64 list" where
  "unpack_bits_63 values bytes = values
    [0 := push_bit 55 (ucast (bytes ! 0)) OR push_bit 47 (ucast (bytes ! 1)) OR
        push_bit 39 (ucast (bytes ! 2)) OR push_bit 31 (ucast (bytes ! 3)) OR
        push_bit 23 (ucast (bytes ! 4)) OR push_bit 15 (ucast (bytes ! 5)) OR
        push_bit 7 (ucast (bytes ! 6)) OR ucast (drop_bit 1 (bytes ! 7) AND 0x7f),
     1 := push_bit 62 (ucast (bytes ! 7 AND 0x1)) OR push_bit 54 (ucast (bytes ! 8)) OR
        push_bit 46 (ucast (bytes ! 9)) OR push_bit 38 (ucast (bytes ! 10)) OR
        push_bit 30 (ucast (bytes ! 11)) OR push_bit 22 (ucast (bytes ! 12)) OR
        push_bit 14 (ucast (bytes ! 13)) OR push_bit 6 (ucast (bytes ! 14)) OR
        ucast (drop_bit 2 (bytes ! 15) AND 0x3f),
     2 := push_bit 61 (ucast (bytes ! 15 AND 0x3)) OR push_bit 53 (ucast (bytes ! 16)) OR
        push_bit 45 (ucast (bytes ! 17)) OR push_bit 37 (ucast (bytes ! 18)) OR
        push_bit 29 (ucast (bytes ! 19)) OR push_bit 21 (ucast (bytes ! 20)) OR
        push_bit 13 (ucast (bytes ! 21)) OR push_bit 5 (ucast (bytes ! 22)) OR
        ucast (drop_bit 3 (bytes ! 23) AND 0x1f),
     3 := push_bit 60 (ucast (bytes ! 23 AND 0x7)) OR push_bit 52 (ucast (bytes ! 24)) OR
        push_bit 44 (ucast (bytes ! 25)) OR push_bit 36 (ucast (bytes ! 26)) OR
        push_bit 28 (ucast (bytes ! 27)) OR push_bit 20 (ucast (bytes ! 28)) OR
        push_bit 12 (ucast (bytes ! 29)) OR push_bit 4 (ucast (bytes ! 30)) OR
        ucast (drop_bit 4 (bytes ! 31) AND 0xf),
     4 := push_bit 59 (ucast (bytes ! 31 AND 0xf)) OR push_bit 51 (ucast (bytes ! 32)) OR
        push_bit 43 (ucast (bytes ! 33)) OR push_bit 35 (ucast (bytes ! 34)) OR
        push_bit 27 (ucast (bytes ! 35)) OR push_bit 19 (ucast (bytes ! 36)) OR
        push_bit 11 (ucast (bytes ! 37)) OR push_bit 3 (ucast (bytes ! 38)) OR
        ucast (drop_bit 5 (bytes ! 39) AND 0x7),
     5 := push_bit 58 (ucast (bytes ! 39 AND 0x1f)) OR push_bit 50 (ucast (bytes ! 40)) OR
        push_bit 42 (ucast (bytes ! 41)) OR push_bit 34 (ucast (bytes ! 42)) OR
        push_bit 26 (ucast (bytes ! 43)) OR push_bit 18 (ucast (bytes ! 44)) OR
        push_bit 10 (ucast (bytes ! 45)) OR push_bit 2 (ucast (bytes ! 46)) OR
        ucast (drop_bit 6 (bytes ! 47) AND 0x3),
     6 := push_bit 57 (ucast (bytes ! 47 AND 0x3f)) OR push_bit 49 (ucast (bytes ! 48)) OR
        push_bit 41 (ucast (bytes ! 49)) OR push_bit 33 (ucast (bytes ! 50)) OR
        push_bit 25 (ucast (bytes ! 51)) OR push_bit 17 (ucast (bytes ! 52)) OR
        push_bit 9 (ucast (bytes ! 53)) OR push_bit 1 (ucast (bytes ! 54)) OR
        ucast (drop_bit 7 (bytes ! 55) AND 0x1),
     7 := push_bit 56 (ucast (bytes ! 55 AND 0x7f)) OR push_bit 48 (ucast (bytes ! 56)) OR
        push_bit 40 (ucast (bytes ! 57)) OR push_bit 32 (ucast (bytes ! 58)) OR
        push_bit 24 (ucast (bytes ! 59)) OR push_bit 16 (ucast (bytes ! 60)) OR
        push_bit 8 (ucast (bytes ! 61)) OR ucast (bytes ! 62)]"

lemma unpack_bits_63_fill:
  "unpack_bits_63 v b = fill_to 8 (\<lambda>k. regroup 8 (\<lambda>j. ucast (b ! j)) (63 * k) 63) v"
  unfolding unpack_bits_63_def literal_pieces
  by (intro fill_step fill_zero) (simp add: regroup_eval; fail)+

end
