(* ===== verification/BitPack.thy ===== *)
theory BitPack
  imports BitPacker BitPack_Pack1 BitPack_Pack2 BitPack_Unpack1 BitPack_Unpack2
begin

text \<open>
  \<open>pack_bits_block\<close> and \<open>unpack_bits_block\<close> of
  \<open>src/datasketches/src/thetafamily/theta/bit_pack.rs\<close>: the length checks and the dispatch to
  the unrolled routines. Whatever the width, the block routines write the stream of the eight
  values, which is also what eight calls of \<open>BitPacker::pack_value\<close> write; unpacking inverts
  packing, and truncates every value to the width.
\<close>

definition BLOCK_WIDTH :: nat where
  "BLOCK_WIDTH = 8"

definition pack_bits_block :: "u64 list \<Rightarrow> u8 list \<Rightarrow> nat \<Rightarrow> u8 list res" where
  "pack_bits_block values bytes bits =
     bind_res (ensure (length values = BLOCK_WIDTH) (Panic ''values length must be 8'')) (\<lambda>_.
     bind_res (ensure (1 \<le> bits \<and> bits \<le> 63) (Panic ''wrong number of bits in pack_bits_block8'')) (\<lambda>_.
     bind_res (ensure (bits \<le> length bytes) (Panic ''output buffer too small'')) (\<lambda>_.
       (if bits = 1 then Inr (pack_bits_1 values bytes)
          else if bits = 2 then Inr (pack_bits_2 values bytes)
          else if bits = 3 then Inr (pack_bits_3 values bytes)
          else if bits = 4 then Inr (pack_bits_4 values bytes)
          else if bits = 5 then Inr (pack_bits_5 values bytes)
          else if bits = 6 then Inr (pack_bits_6 values bytes)
          else if bits = 7 then Inr (pack_bits_7 values bytes)
          else if bits = 8 then Inr (pack_bits_8 values bytes)
          else if bits = 9 then Inr (pack_bits_9 values bytes)
          else if bits = 10 then Inr (pack_bits_10 values bytes)
          else if bits = 11 then Inr (pack_bits_11 values bytes)
          else if bits = 12 then Inr (pack_bits_12 values bytes)
          else if bits = 13 then Inr (pack_bits_13 values bytes)
          else if bits = 14 then Inr (pack_bits_14 values bytes)
          else if bits = 15 then Inr (pack_bits_15 values bytes)
          else if bits = 16 then Inr (pack_bits_16 values bytes)
          else if bits = 17 then Inr (pack_bits_17 values bytes)
          else if bits = 18 then Inr (pack_bits_18 values bytes)
          else if bits = 19 then Inr (pack_bits_19 values bytes)
          else if bits = 20 then Inr (pack_bits_20 values bytes)
          else if bits = 21 then Inr (pack_bits_21 values bytes)
          else if bits = 22 then Inr (pack_bits_22 values bytes)
          else if bits = 23 then Inr (pack_bits_23 values bytes)
          else if bits = 24 then Inr (pack_bits_24 values bytes)
          else if bits = 25 then Inr (pack_bits_25 values bytes)
          else if bits = 26 then Inr (pack_bits_26 values bytes)
          else if bits = 27 then Inr (pack_bits_27 values bytes)
          else if bits = 28 then Inr (pack_bits_28 values bytes)
          else if bits = 29 then Inr (pack_bits_29 values bytes)
          else if bits = 30 then Inr (pack_bits_30 values bytes)
          else if bits = 31 then Inr (pack_bits_31 values bytes)
          else if bits = 32 then Inr (pack_bits_32 values bytes)
          else if bits = 33 then Inr (pack_bits_33 values bytes)
          else if bits = 34 then Inr (pack_bits_34 values bytes)
          else if bits = 35 then Inr (pack_bits_35 values bytes)
          else if bits = 36 then Inr (pack_bits_36 values bytes)
          else if bits = 37 then Inr (pack_bits_37 values bytes)
          else if bits = 38 then Inr (pack_bits_38 values bytes)
          else if bits = 39 then Inr (pack_bits_39 values bytes)
          else if bits = 40 then Inr (pack_bits_40 values bytes)
          else if bits = 41 then Inr (pack_bits_41 values bytes)
          else if bits = 42 then Inr (pack_bits_42 values bytes)
          else if bits = 43 then Inr (pack_bits_43 values bytes)
          else if bits = 44 then Inr (pack_bits_44 values bytes)
          else if bits = 45 then Inr (pack_bits_45 values bytes)
          else if bits = 46 then Inr (pack_bits_46 values bytes)
          else if bits = 47 then Inr (pack_bits_47 values bytes)
          else if bits = 48 then Inr (pack_bits_48 values bytes)
          else if bits = 49 then Inr (pack_bits_49 values bytes)
          else if bits = 50 then Inr (pack_bits_50 values bytes)
          else if bits = 51 then Inr (pack_bits_51 values bytes)
          else if bits = 52 then Inr (pack_bits_52 values bytes)
          else if bits = 53 then Inr (pack_bits_53 values bytes)
          else if bits = 54 then Inr (pack_bits_54 values bytes)
          else if bits = 55 then Inr (pack_bits_55 values bytes)
          else if bits = 56 then Inr (pack_bits_56 values bytes)
          else if bits = 57 then Inr (pack_bits_57 values bytes)
          else if bits = 58 then Inr (pack_bits_58 values bytes)
          else if bits = 59 then Inr (pack_bits_59 values bytes)
          else if bits = 60 then Inr (pack_bits_60 values bytes)
          else if bits = 61 then Inr (pack_bits_61 values bytes)
          else if bits = 62 then Inr (pack_bits_62 values bytes)
          else if bits = 63 then Inr (pack_bits_63 values bytes)
          else Inl (Panic ''unreachable'')))))"

definition unpack_bits_block :: "u64 list \<Rightarrow> u8 list \<Rightarrow> nat \<Rightarrow> u64 list res" where
  "unpack_bits_block values bytes bits =
     bind_res (ensure (length values = BLOCK_WIDTH) (Panic ''values length must be 8'')) (\<lambda>_.
     bind_res (ensure (1 \<le> bits \<and> bits \<le> 63) (Panic ''wrong number of bits in unpack_bits_block8'')) (\<lambda>_.
     bind_res (ensure (bits \<le> length bytes) (Panic ''output buffer too small'')) (\<lambda>_.
       (if bits = 1 then Inr (unpack_bits_1 values bytes)
          else if bits = 2 then Inr (unpack_bits_2 values bytes)
          else if bits = 3 then Inr (unpack_bits_3 values bytes)
          else if bits = 4 then Inr (unpack_bits_4 values bytes)
          else if bits = 5 then Inr (unpack_bits_5 values bytes)
          else if bits = 6 then Inr (unpack_bits_6 values bytes)
          else if bits = 7 then Inr (unpack_bits_7 values bytes)
          else if bits = 8 then Inr (unpack_bits_8 values bytes)
          else if bits = 9 then Inr (unpack_bits_9 values bytes)
          else if bits = 10 then Inr (unpack_bits_10 values bytes)
          else if bits = 11 then Inr (unpack_bits_11 values bytes)
          else if bits = 12 then Inr (unpack_bits_12 values bytes)
          else if bits = 13 then Inr (unpack_bits_13 values bytes)
          else if bits = 14 then Inr (unpack_bits_14 values bytes)
          else if bits = 15 then Inr (unpack_bits_15 values bytes)
          else if bits = 16 then Inr (unpack_bits_16 values bytes)
          else if bits = 17 then Inr (unpack_bits_17 values bytes)
          else if bits = 18 then Inr (unpack_bits_18 values bytes)
          else if bits = 19 then Inr (unpack_bits_19 values bytes)
          else if bits = 20 then Inr (unpack_bits_20 values bytes)
          else if bits = 21 then Inr (unpack_bits_21 values bytes)
          else if bits = 22 then Inr (unpack_bits_22 values bytes)
          else if bits = 23 then Inr (unpack_bits_23 values bytes)
          else if bits = 24 then Inr (unpack_bits_24 values bytes)
          else if bits = 25 then Inr (unpack_bits_25 values bytes)
          else if bits = 26 then Inr (unpack_bits_26 values bytes)
          else if bits = 27 then Inr (unpack_bits_27 values bytes)
          else if bits = 28 then Inr (unpack_bits_28 values bytes)
          else if bits = 29 then Inr (unpack_bits_29 values bytes)
          else if bits = 30 then Inr (unpack_bits_30 values bytes)
          else if bits = 31 then Inr (unpack_bits_31 values bytes)
          else if bits = 32 then Inr (unpack_bits_32 values bytes)
          else if bits = 33 then Inr (unpack_bits_33 values bytes)
          else if bits = 34 then Inr (unpack_bits_34 values bytes)
          else if bits = 35 then Inr (unpack_bits_35 values bytes)
          else if bits = 36 then Inr (unpack_bits_36 values bytes)
          else if bits = 37 then Inr (unpack_bits_37 values bytes)
          else if bits = 38 then Inr (unpack_bits_38 values bytes)
          else if bits = 39 then Inr (unpack_bits_39 values bytes)
          else if bits = 40 then Inr (unpack_bits_40 values bytes)
          else if bits = 41 then Inr (unpack_bits_41 values bytes)
          else if bits = 42 then Inr (unpack_bits_42 values bytes)
          else if bits = 43 then Inr (unpack_bits_43 values bytes)
          else if bits = 44 then Inr (unpack_bits_44 values bytes)
          else if bits = 45 then Inr (unpack_bits_45 values bytes)
          else if bits = 46 then Inr (unpack_bits_46 values bytes)
          else if bits = 47 then Inr (unpack_bits_47 values bytes)
          else if bits = 48 then Inr (unpack_bits_48 values bytes)
          else if bits = 49 then Inr (unpack_bits_49 values bytes)
          else if bits = 50 then Inr (unpack_bits_50 values bytes)
          else if bits = 51 then Inr (unpack_bits_51 values bytes)
          else if bits = 52 then Inr (unpack_bits_52 values bytes)
          else if bits = 53 then Inr (unpack_bits_53 values bytes)
          else if bits = 54 then Inr (unpack_bits_54 values bytes)
          else if bits = 55 then Inr (unpack_bits_55 values bytes)
          else if bits = 56 then Inr (unpack_bits_56 values bytes)
          else if bits = 57 then Inr (unpack_bits_57 values bytes)
          else if bits = 58 then Inr (unpack_bits_58 values bytes)
          else if bits = 59 then Inr (unpack_bits_59 values bytes)
          else if bits = 60 then Inr (unpack_bits_60 values bytes)
          else if bits = 61 then Inr (unpack_bits_61 values bytes)
          else if bits = 62 then Inr (unpack_bits_62 values bytes)
          else if bits = 63 then Inr (unpack_bits_63 values bytes)
          else Inl (Panic ''unreachable'')))))"

section \<open>The dispatch\<close>

lemmas pack_fills =
  pack_bits_1_fill pack_bits_2_fill pack_bits_3_fill pack_bits_4_fill
  pack_bits_5_fill pack_bits_6_fill pack_bits_7_fill pack_bits_8_fill
  pack_bits_9_fill pack_bits_10_fill pack_bits_11_fill pack_bits_12_fill
  pack_bits_13_fill pack_bits_14_fill pack_bits_15_fill pack_bits_16_fill
  pack_bits_17_fill pack_bits_18_fill pack_bits_19_fill pack_bits_20_fill
  pack_bits_21_fill pack_bits_22_fill pack_bits_23_fill pack_bits_24_fill
  pack_bits_25_fill pack_bits_26_fill pack_bits_27_fill pack_bits_28_fill
  pack_bits_29_fill pack_bits_30_fill pack_bits_31_fill pack_bits_32_fill
  pack_bits_33_fill pack_bits_34_fill pack_bits_35_fill pack_bits_36_fill
  pack_bits_37_fill pack_bits_38_fill pack_bits_39_fill pack_bits_40_fill
  pack_bits_41_fill pack_bits_42_fill pack_bits_43_fill pack_bits_44_fill
  pack_bits_45_fill pack_bits_46_fill pack_bits_47_fill pack_bits_48_fill
  pack_bits_49_fill pack_bits_50_fill pack_bits_51_fill pack_bits_52_fill
  pack_bits_53_fill pack_bits_54_fill pack_bits_55_fill pack_bits_56_fill
  pack_bits_57_fill pack_bits_58_fill pack_bits_59_fill pack_bits_60_fill
  pack_bits_61_fill pack_bits_62_fill pack_bits_63_fill

lemmas unpack_fills =
  unpack_bits_1_fill unpack_bits_2_fill unpack_bits_3_fill unpack_bits_4_fill
  unpack_bits_5_fill unpack_bits_6_fill unpack_bits_7_fill unpack_bits_8_fill
  unpack_bits_9_fill unpack_bits_10_fill unpack_bits_11_fill unpack_bits_12_fill
  unpack_bits_13_fill unpack_bits_14_fill unpack_bits_15_fill unpack_bits_16_fill
  unpack_bits_17_fill unpack_bits_18_fill unpack_bits_19_fill unpack_bits_20_fill
  unpack_bits_21_fill unpack_bits_22_fill unpack_bits_23_fill unpack_bits_24_fill
  unpack_bits_25_fill unpack_bits_26_fill unpack_bits_27_fill unpack_bits_28_fill
  unpack_bits_29_fill unpack_bits_30_fill unpack_bits_31_fill unpack_bits_32_fill
  unpack_bits_33_fill unpack_bits_34_fill unpack_bits_35_fill unpack_bits_36_fill
  unpack_bits_37_fill unpack_bits_38_fill unpack_bits_39_fill unpack_bits_40_fill
  unpack_bits_41_fill unpack_bits_42_fill unpack_bits_43_fill unpack_bits_44_fill
  unpack_bits_45_fill unpack_bits_46_fill unpack_bits_47_fill unpack_bits_48_fill
  unpack_bits_49_fill unpack_bits_50_fill unpack_bits_51_fill unpack_bits_52_fill
  unpack_bits_53_fill unpack_bits_54_fill unpack_bits_55_fill unpack_bits_56_fill
  unpack_bits_57_fill unpack_bits_58_fill unpack_bits_59_fill unpack_bits_60_fill
  unpack_bits_61_fill unpack_bits_62_fill unpack_bits_63_fill

lemma le_63_cases:
  fixes bits :: nat
  assumes "1 \<le> bits" and "bits \<le> 63"
  shows "bits \<in> {1, 2, 3, 4, 5, 6, 7, 8, 9, 10, 11, 12, 13, 14, 15, 16, 17, 18, 19, 20, 21, 22, 23, 24, 25, 26, 27, 28, 29, 30, 31, 32, 33, 34, 35, 36, 37, 38, 39, 40, 41, 42, 43, 44, 45, 46, 47, 48, 49, 50, 51, 52, 53, 54, 55, 56, 57, 58, 59, 60, 61, 62, 63}"
proof -
  have "[1..<64] = [1, 2, 3, 4, 5, 6, 7, 8, 9, 10, 11, 12, 13, 14, 15, 16, 17, 18, 19, 20, 21, 22, 23, 24, 25, 26, 27, 28, 29, 30, 31, 32, 33, 34, 35, 36, 37, 38, 39, 40, 41, 42, 43, 44, 45, 46, 47, 48, 49, 50, 51, 52, 53, 54, 55, 56, 57, 58, 59, 60, 61, 62, 63 :: nat]"
    by code_simp
  moreover have "bits \<in> set [1..<64]" using assms by simp
  ultimately show ?thesis by (simp only: list.set)
qed

lemma pack_bits_block_fill:
  assumes "length values = 8" and "1 \<le> bits" and "bits \<le> 63" and "bits \<le> length bytes"
  shows "pack_bits_block values bytes bits =
     Inr (fill_to bits (\<lambda>j. ucast (regroup bits (nth values) (8 * j) 8)) bytes)"
  using le_63_cases [OF assms(2,3)] assms(1,4)
  by (elim insertE emptyE) (simp_all add: pack_bits_block_def BLOCK_WIDTH_def pack_fills)

lemma unpack_bits_block_fill:
  assumes "length values = 8" and "1 \<le> bits" and "bits \<le> 63" and "bits \<le> length bytes"
  shows "unpack_bits_block values bytes bits =
     Inr (fill_to 8 (\<lambda>k. regroup 8 (\<lambda>j. ucast (bytes ! j)) (bits * k) bits) values)"
  using le_63_cases [OF assms(2,3)] assms(1,4)
  by (elim insertE emptyE) (simp_all add: unpack_bits_block_def BLOCK_WIDTH_def unpack_fills)

section \<open>What the block routines compute\<close>

lemma stream_of_8_inj:
  assumes "stream_of 8 xs = stream_of 8 (ys :: u8 list)" and "length xs = length ys"
  shows "xs = ys"
  using assms(2,1)
proof (induction xs ys rule: list_induct2)
  case Nil
  then show ?case by simp
next
  case (Cons x xs y ys)
  then have "bits_of 8 x = bits_of 8 y" and "stream_of 8 xs = stream_of 8 ys" by simp_all
  moreover from this(1) have "x = y" by (intro bit_word_eqI) (simp add: bits_of_eq_iff)
  ultimately show ?case using Cons.IH by simp
qed

lemma stream_of_regroup:
  assumes "0 < n"
  shows "stream_of 8 (map (\<lambda>j. ucast (regroup n f (8 * j) 8) :: u8) [0..<m]) =
     map (stream_bit n f) [0..<8 * m]"
proof (induction m)
  case 0
  show ?case by simp
next
  case (Suc m)
  have "[0..<8 * m + 8] = [0..<8 * m] @ [8 * m..<8 * m + 8]"
    by (rule upt_add_eq_append) simp
  moreover have "8 * Suc m = 8 * m + 8" by simp
  moreover have "[0..<Suc m] = [0..<m] @ [m]" by simp
  ultimately show ?case
    by (simp add: Suc.IH bits_of_ucast bits_of_regroup [OF assms] del: upt_Suc mult_Suc_right)
qed

lemma pack_bits_block_stream:
  assumes "length values = 8" and "1 \<le> bits" and "bits \<le> 63" and "bits \<le> length bytes"
  shows "\<exists>out. pack_bits_block values bytes bits = Inr out \<and> length out = length bytes \<and>
     stream_of 8 (take bits out) = stream_of bits values \<and> drop bits out = drop bits bytes"
proof -
  let ?b = "map (\<lambda>j. ucast (regroup bits (nth values) (8 * j) 8) :: u8) [0..<bits]"
  have "stream_of 8 ?b = stream_of bits values"
    using stream_of_regroup [of bits "nth values" bits] assms(1,2)
    by (simp add: stream_of_nth [of bits] mult.commute)
  then show ?thesis using assms by (simp add: pack_bits_block_fill fill_to_eq)
qed

lemma stream_of_take: "k \<le> length xs \<Longrightarrow> stream_of n (take k xs) = take (n * k) (stream_of n xs)"
proof -
  assume k: "k \<le> length xs"
  have "stream_of n xs = stream_of n (take k xs) @ stream_of n (drop k xs)"
    by (metis append_take_drop_id stream_of_append)
  with k show ?thesis by simp
qed

lemma stream_bit_8_ucast:
  "stream_bit 8 (\<lambda>j. ucast (bytes ! j) :: u64) = stream_bit 8 (nth (bytes :: u8 list))"
  by (rule ext) (auto simp: stream_bit_def bit_ucast_iff)

lemma unpack_bits_block_stream:
  assumes "length values = 8" and "1 \<le> bits" and "bits \<le> 63" and "bits \<le> length bytes"
  shows "\<exists>out. unpack_bits_block values bytes bits = Inr out \<and> length out = 8 \<and>
     stream_of bits out = stream_of 8 (take bits bytes) \<and> (\<forall>v \<in> set out. take_bit bits v = v)"
proof -
  let ?f = "\<lambda>j. ucast (bytes ! j) :: u64"
  let ?out = "map (\<lambda>k. regroup 8 ?f (bits * k) bits) [0..<8]"
  have stream: "stream_of bits (map (\<lambda>k. regroup 8 ?f (bits * k) bits) [0..<m]) =
      map (stream_bit 8 ?f) [0..<bits * m]" for m
  proof (induction m)
    case (Suc m)
    have "[0..<bits * m + bits] = [0..<bits * m] @ [bits * m..<bits * m + bits]"
      by (rule upt_add_eq_append) simp
    moreover have "bits * Suc m = bits * m + bits" by simp
    moreover have "[0..<Suc m] = [0..<m] @ [m]" by simp
    ultimately show ?case
      using assms(3) by (simp add: Suc.IH bits_of_regroup del: upt_Suc mult_Suc_right)
  qed simp
  have "stream_of 8 (take bits bytes) = map (stream_bit 8 (nth bytes)) [0..<8 * bits]"
    using assms(4) by (simp only: stream_of_take) (simp add: stream_of_nth take_map)
  then have "stream_of bits ?out = stream_of 8 (take bits bytes)"
    by (simp only: stream [of 8] stream_bit_8_ucast mult.commute [of bits 8])
  moreover have "take_bit bits v = v" if "v \<in> set ?out" for v
    using that assms(3) by (auto simp: bit_take_bit_iff bit_regroup intro!: bit_word_eqI)
  ultimately show ?thesis using assms by (simp add: unpack_bits_block_fill fill_to_eq)
qed

lemma stream_of_inj:
  assumes "stream_of n xs = stream_of n ys" and "length xs = length ys"
    and "\<forall>x \<in> set xs. take_bit n x = x"
  shows "xs = map (take_bit n) (ys :: u64 list)"
  using assms(2,1,3)
proof (induction xs ys rule: list_induct2)
  case Nil
  then show ?case by simp
next
  case (Cons x xs y ys)
  from Cons.prems have "bits_of n x = bits_of n y" and "stream_of n xs = stream_of n ys" by simp_all
  then have "take_bit n x = take_bit n y"
    by (auto simp: bits_of_eq_iff bit_take_bit_iff intro!: bit_word_eqI)
  then have x: "x = take_bit n y" using Cons.prems(2) by simp
  have "\<forall>x \<in> set xs. take_bit n x = x" using Cons.prems(2) by simp
  with \<open>stream_of n xs = stream_of n ys\<close> have "xs = map (take_bit n) ys" by (rule Cons.IH)
  with x show ?case by simp
qed

lemma block_inverse:
  assumes "length vs = 8" and "1 \<le> bits" and "bits \<le> 63" and "bits \<le> length bytes"
  shows "\<exists>out. pack_bits_block vs bytes bits = Inr out \<and> length out = length bytes \<and>
     (\<forall>scratch. length scratch = 8 \<longrightarrow> unpack_bits_block scratch out bits = Inr (map (take_bit bits) vs))"
proof -
  obtain out where out: "pack_bits_block vs bytes bits = Inr out" "length out = length bytes"
      "stream_of 8 (take bits out) = stream_of bits vs"
    using pack_bits_block_stream [OF assms] by blast
  have "unpack_bits_block scratch out bits = Inr (map (take_bit bits) vs)"
    if scratch: "length scratch = 8" for scratch
  proof -
    obtain ws where ws: "unpack_bits_block scratch out bits = Inr ws" "length ws = 8"
        "stream_of bits ws = stream_of 8 (take bits out)" "\<forall>v \<in> set ws. take_bit bits v = v"
      using unpack_bits_block_stream [OF scratch assms(2,3), of out] assms(4) out(2) by auto
    have "ws = map (take_bit bits) vs"
      by (rule stream_of_inj) (use ws out assms(1) in auto)
    then show ?thesis using ws(1) by simp
  qed
  then show ?thesis using out by blast
qed

section \<open>Properties\<close>

text \<open>
  C21. Packing a block writes exactly the bits of the eight values, most significant bit first
  and without gaps, into the first \<open>bits\<close> bytes of the buffer, and leaves the rest alone:
  for every width from 1 to 63 the unrolled routine is the bit-stream specification.
\<close>

theorem pack_block_writes_stream:
  assumes "length values = BLOCK_WIDTH" and "1 \<le> bits" and "bits \<le> 63" and "bits \<le> length bytes"
  shows "\<exists>out. pack_bits_block values bytes bits = Inr out \<and> length out = length bytes \<and>
     stream_of 8 (take bits out) = stream_of bits values \<and> drop bits out = drop bits bytes"
  using assms unfolding BLOCK_WIDTH_def by (rule pack_bits_block_stream)

theorem pack_block_writes_stream_witness:
  "\<exists>out. pack_bits_block [5, 1, 7, 0, 2, 6, 3, 4] [9, 9, 9, 200] 3 = Inr out \<and>
     length out = length [9, 9, 9, 200 :: u8] \<and>
     stream_of 8 (take 3 out) = stream_of 3 [5, 1, 7, 0, 2, 6, 3, 4 :: u64] \<and>
     drop 3 out = drop 3 [9, 9, 9, 200]"
  by (rule pack_block_writes_stream) (simp_all add: BLOCK_WIDTH_def)

text \<open>
  C22. Block routines round-trip: whatever the values and the previous contents of the buffers,
  \<open>unpack_bits_block\<close> on the output of \<open>pack_bits_block\<close> gives every value truncated to the
  width, for every width from 1 to 63.
\<close>

theorem block_roundtrip:
  assumes "length values = BLOCK_WIDTH" and "length scratch = BLOCK_WIDTH"
    and "1 \<le> bits" and "bits \<le> 63" and "bits \<le> length bytes"
  shows "\<exists>out. pack_bits_block values bytes bits = Inr out \<and>
     unpack_bits_block scratch out bits = Inr (map (take_bit bits) values)"
  using block_inverse [of "values" bits bytes] assms by (auto simp: BLOCK_WIDTH_def)

theorem block_roundtrip_witness:
  "\<exists>out. pack_bits_block [5, 1, 7, 0, 2, 6, 3, 12] [9, 9, 9, 200] 3 = Inr out \<and>
     unpack_bits_block [0, 0, 0, 0, 0, 0, 0, 0] out 3 = Inr [5, 1, 7, 0, 2, 6, 3, 4]"
  using block_roundtrip [of "[5, 1, 7, 0, 2, 6, 3, 12]" "[0, 0, 0, 0, 0, 0, 0, 0]" 3 "[9, 9, 9, 200]"]
  by (simp add: BLOCK_WIDTH_def take_bit_eq_mod)

text \<open>
  The unrolled block routine and the incremental packer write the same bytes: eight calls of
  \<open>pack_value\<close> on a fresh \<open>BitPacker\<close> use exactly \<open>bits\<close> bytes, which are those of
  \<open>pack_bits_block\<close>. So a reader may use either decoder on the output of either encoder.
\<close>

theorem block_equals_packer:
  assumes "length values = BLOCK_WIDTH" and "1 \<le> bits" and "bits \<le> 63" and "bits \<le> length bytes"
  shows "\<exists>out p. pack_bits_block values bytes bits = Inr out \<and>
     pack_values (map (\<lambda>v. (v, bits)) values) (packer_new bytes) = Inr p \<and>
     bytes_used p = bits \<and> take bits (pk_bytes p) = take bits out"
proof -
  let ?vs = "map (\<lambda>v. (v, bits)) values"
  obtain out where out: "pack_bits_block values bytes bits = Inr out" "length out = length bytes"
      "stream_of 8 (take bits out) = stream_of bits values"
    using pack_bits_block_stream [of "values" bits bytes] assms by (auto simp: BLOCK_WIDTH_def)
  have total: "total_bits (map snd ?vs) = 8 * bits"
    using assms(1) by (simp add: total_bits_def comp_def sum_list_triv BLOCK_WIDTH_def)
  have all: "all_bits ?vs = stream_of bits values"
    by (simp add: all_bits_def stream_of_def comp_def)
  obtain p where p: "pack_values ?vs (packer_new bytes) = Inr p" "packer_ok p"
      "packer_cursor p = 8 * bits" "length (pk_bytes p) = length bytes" "packed p = stream_of bits values"
    using pack_values_ok [of "packer_new bytes" ?vs] assms total all
    by (auto simp: packer_new_def packer_ok_def packer_cursor_def packed_def)
  have "pk_used p < 8" "8 * pk_index p + pk_used p = 8 * bits"
    using p(2,3) by (simp_all add: packer_ok_def packer_cursor_def)
  then have used: "pk_used p = 0" "pk_index p = bits" by presburger+
  have "stream_of 8 (take bits (pk_bytes p)) = stream_of 8 (take bits out)"
    using p(3,4,5) out(3) assms(4) by (simp add: packed_def stream_of_take)
  then have "take bits (pk_bytes p) = take bits out"
    by (rule stream_of_8_inj) (use p(4) out(2) in simp)
  with out(1) p(1) used show ?thesis by (simp add: bytes_used_def)
qed

theorem block_equals_packer_witness:
  "\<exists>out p. pack_bits_block [5, 1, 7, 0, 2, 6, 3, 4] [0, 0, 0] 3 = Inr out \<and>
     pack_values (map (\<lambda>v. (v, 3)) [5, 1, 7, 0, 2, 6, 3, 4]) (packer_new [0, 0, 0]) = Inr p \<and>
     bytes_used p = 3 \<and> take 3 (pk_bytes p) = take 3 out"
  by (rule block_equals_packer) (simp_all add: BLOCK_WIDTH_def)

text \<open>
  The incremental packer round-trips any sequence of values of any widths up to 64: if they
  fit into the buffer, packing succeeds, and unpacking the same widths from its bytes gives
  the values truncated to their widths, with the cursor after the last bit.
\<close>

theorem packer_roundtrip:
  assumes "\<forall>(v, bits) \<in> set vs. bits \<le> 64" and "total_bits (map snd vs) \<le> 8 * length bytes"
  shows "\<exists>p u. pack_values vs (packer_new bytes) = Inr p \<and>
     unpack_values (map snd vs) (unpacker_new (pk_bytes p)) =
       Inr (map (\<lambda>(v, bits). take_bit bits v) vs, u) \<and>
     unpacker_cursor u = total_bits (map snd vs)"
proof -
  obtain p where p: "pack_values vs (packer_new bytes) = Inr p" "packer_ok p"
      "packer_cursor p = total_bits (map snd vs)" "length (pk_bytes p) = length bytes"
      "packed p = all_bits vs"
    using pack_values_ok [of "packer_new bytes" vs] assms
    by (auto simp: packer_new_def packer_ok_def packer_cursor_def packed_def)
  let ?u = "unpacker_new (pk_bytes p)"
  have u: "unpacker_ok ?u" "unpacker_cursor ?u = 0" "up_bytes ?u = pk_bytes p"
    by (simp_all add: unpacker_new_def unpacker_ok_def unpacker_cursor_def)
  have "take (total_bits (map snd vs)) (pending ?u) = all_bits vs"
    using p(3,5) by (simp add: pending_def u packed_def)
  then show ?thesis
    using unpack_values_ok [of ?u vs] assms u p by (auto simp: case_prod_unfold)
qed

theorem packer_roundtrip_witness:
  "\<exists>p u. pack_values [(5, 3), (1000, 10), (7, 2)] (packer_new [0, 0]) = Inr p \<and>
     unpack_values [3, 10, 2] (unpacker_new (pk_bytes p)) = Inr ([5, 1000, 3], u) \<and>
     unpacker_cursor u = 15"
  using packer_roundtrip [of "[(5, 3), (1000, 10), (7, 2)]" "[0, 0]"]
  by (simp add: total_bits_def take_bit_eq_mod)

text \<open>
  The packer never writes past its buffer and never loses bits silently: a call succeeds
  exactly when the value fits into the bits that are left, and panics otherwise.
\<close>

theorem pack_value_succeeds_iff:
  assumes "packer_ok p" and "bits \<le> 64"
  shows "(\<exists>p'. pack_value v bits p = Inr p') \<longleftrightarrow>
     packer_cursor p + bits \<le> 8 * length (pk_bytes p)"
  using pack_value_ok [of p bits v] pack_value_full [of p bits v] assms
  by (metis not_le old.sum.distinct(2))

theorem pack_value_succeeds_iff_witness:
  "packer_ok (packer_new [0]) \<and> (\<exists>p'. pack_value 77 8 (packer_new [0]) = Inr p') \<and>
     \<not> (\<exists>p'. pack_value 77 9 (packer_new [0]) = Inr p')"
proof -
  have ok: "packer_ok (packer_new [0])" by (simp add: packer_ok_def packer_new_def)
  show ?thesis
    using ok pack_value_succeeds_iff [OF ok, of 8 77] pack_value_succeeds_iff [OF ok, of 9 77]
    by (simp add: packer_cursor_def packer_new_def)
qed

end
