(* ===== verification/Streaming.thy ===== *)
theory Streaming
  imports Prelude
begin

text \<open>
  What the two streaming hashers of \<open>src/datasketches/src/hash\<close> have in common. A hasher keeps
  a core state and a buffer of the bytes that do not fill a block yet; a write completes the
  buffer, absorbs whole blocks, and keeps the rest. The specification is \<open>absorb_blocks\<close> over
  the concatenation of the pending bytes and the new ones. The locale \<open>streaming_hasher\<close>
  states this contract; its consequence is that how the input is split into writes does not
  matter. \<open>Murmur\<close> and \<open>XxHash\<close> interpret it.
\<close>

section \<open>Slices of arrays\<close>

text \<open>\<open>xs[a..b]\<close>, and \<open>buf[a..a + bs.len()].copy_from_slice(bs)\<close>\<close>

definition slice_of :: "nat \<Rightarrow> nat \<Rightarrow> 'a list \<Rightarrow> 'a list" where
  "slice_of a b xs = take (b - a) (drop a xs)"

definition copy_into :: "'a list \<Rightarrow> nat \<Rightarrow> 'a list \<Rightarrow> 'a list" where
  "copy_into buf a bs = take a buf @ bs @ drop (a + length bs) buf"

lemma length_copy_into [simp]:
  "a + length bs \<le> length buf \<Longrightarrow> length (copy_into buf a bs) = length buf"
  by (simp add: copy_into_def)

lemma take_copy_into [simp]:
  "a + length bs \<le> length buf \<Longrightarrow> take (a + length bs) (copy_into buf a bs) = take a buf @ bs"
  by (simp add: copy_into_def)

lemma copy_into_full:
  "a + length bs = length buf \<Longrightarrow> copy_into buf a bs = take a buf @ bs"
  by (simp add: copy_into_def)

lemma slice_of_0 [simp]: "slice_of 0 n xs = take n xs"
  by (simp add: slice_of_def)

lemma slice_of_append: "b \<le> length xs \<Longrightarrow> slice_of a b (xs @ ys) = slice_of a b xs"
  by (simp add: slice_of_def)

text \<open>\<open>read_u64_le\<close> of \<open>src/datasketches/src/hash/mod.rs\<close>, for at most eight bytes\<close>

definition read_u64_le_hash :: "u8 list \<Rightarrow> u64" where
  "read_u64_le_hash bytes = from_le_bytes (copy_into (replicate 8 0) 0 bytes)"

section \<open>Absorbing blocks\<close>

function absorb_blocks ::
  "nat \<Rightarrow> ('c \<Rightarrow> u8 list \<Rightarrow> 'c) \<Rightarrow> 'c \<Rightarrow> u8 list \<Rightarrow> 'c \<times> u8 list" where
  "absorb_blocks n f c bs =
     (if n = 0 \<or> length bs < n then (c, bs)
      else absorb_blocks n f (f c (take n bs)) (drop n bs))"
  by pat_completeness auto
termination
  by (relation "measure (\<lambda>(n, f, c, bs). length bs)") auto

declare absorb_blocks.simps [simp del]

lemma absorb_blocks_short: "length bs < n \<Longrightarrow> absorb_blocks n f c bs = (c, bs)"
  by (simp add: absorb_blocks.simps)

lemma absorb_blocks_block:
  "0 < n \<Longrightarrow> length b = n \<Longrightarrow> absorb_blocks n f c (b @ bs) = absorb_blocks n f (f c b) bs"
  by (simp add: absorb_blocks.simps [of n f c "b @ bs"])

lemma absorb_blocks_append:
  "0 < n \<Longrightarrow> absorb_blocks n f c (xs @ ys) =
     (case absorb_blocks n f c xs of (c', r) \<Rightarrow> absorb_blocks n f c' (r @ ys))"
proof (induction n f c xs rule: absorb_blocks.induct)
  case (1 n f c xs)
  show ?case
  proof (cases "length xs < n")
    case True
    then show ?thesis by (simp add: absorb_blocks_short)
  next
    case False
    then have "absorb_blocks n f c (xs @ ys) = absorb_blocks n f (f c (take n xs)) (drop n xs @ ys)"
      using "1.prems" by (simp add: absorb_blocks.simps [of n f c "xs @ ys"])
    then show ?thesis
      using "1.IH" "1.prems" False by (simp add: absorb_blocks.simps [of n f c xs])
  qed
qed

lemma absorb_blocks_rest_length:
  "0 < n \<Longrightarrow> length (snd (absorb_blocks n f c bs)) = length bs mod n"
proof (induction n f c bs rule: absorb_blocks.induct)
  case (1 n f c bs)
  then show ?case
    by (cases "length bs < n") (simp_all add: absorb_blocks.simps [of n f c bs] le_mod_geq)
qed

text \<open>The block loop of a hasher, as a fold over the block numbers.\<close>

lemma absorb_blocks_fold:
  assumes "0 < n" and "n * m \<le> length bs"
  shows "absorb_blocks n f c bs =
     absorb_blocks n f (foldl (\<lambda>c i. f c (slice_of (n * i) (n * i + n) bs)) c [0..<m]) (drop (n * m) bs)"
  using assms(2)
proof (induction m)
  case 0
  then show ?case by simp
next
  case (Suc m)
  let ?c = "foldl (\<lambda>c i. f c (slice_of (n * i) (n * i + n) bs)) c [0..<m]"
  have "drop (n * m) bs = slice_of (n * m) (n * m + n) bs @ drop (n * Suc m) bs"
    by (metis add.commute add_diff_cancel_left' append_take_drop_id drop_drop mult_Suc_right slice_of_def)
  moreover have "length (slice_of (n * m) (n * m + n) bs) = n"
    using Suc.prems by (simp add: slice_of_def)
  ultimately have "absorb_blocks n f ?c (drop (n * m) bs) =
      absorb_blocks n f (f ?c (slice_of (n * m) (n * m + n) bs)) (drop (n * Suc m) bs)"
    by (simp only: absorb_blocks_block [OF assms(1)])
  then show ?case using Suc by (simp del: drop_drop)
qed

lemma absorb_blocks_all:
  assumes "0 < n" and "m = length bs div n"
  shows "absorb_blocks n f c bs =
     (foldl (\<lambda>c i. f c (slice_of (n * i) (n * i + n) bs)) c [0..<m], drop (n * m) bs)"
proof -
  have "n * m \<le> length bs" using assms by (simp add: times_div_less_eq_dividend)
  moreover have "length (drop (n * m) bs) < n"
    using assms by (simp add: minus_mult_div_eq_mod)
  ultimately show ?thesis
    using absorb_blocks_fold [OF assms(1), of m bs f c] by (simp add: absorb_blocks_short)
qed

section \<open>The contract of a streaming hasher\<close>

locale streaming_hasher =
  fixes hash_write :: "'h \<Rightarrow> u8 list \<Rightarrow> 'h"
    and core :: "'h \<Rightarrow> 'c"
    and pending :: "'h \<Rightarrow> u8 list"
    and ok :: "'h \<Rightarrow> bool"
    and block :: nat
    and absorb :: "'c \<Rightarrow> u8 list \<Rightarrow> 'c"
    and finish :: "'h \<Rightarrow> 'r"
  assumes block_pos: "0 < block"
    and write_ok: "ok h \<Longrightarrow> ok (hash_write h bs)"
    and write_absorbs: "ok h \<Longrightarrow>
      (core (hash_write h bs), pending (hash_write h bs)) =
        absorb_blocks block absorb (core h) (pending h @ bs)"
    and finish_cong: "ok h \<Longrightarrow> ok h' \<Longrightarrow> core h = core h' \<Longrightarrow> pending h = pending h' \<Longrightarrow>
      finish h = finish h'"
begin

lemma write_append:
  assumes "ok h"
  shows "core (hash_write (hash_write h xs) ys) = core (hash_write h (xs @ ys))"
    and "pending (hash_write (hash_write h xs) ys) = pending (hash_write h (xs @ ys))"
proof -
  have 1: "(core (hash_write h xs), pending (hash_write h xs)) =
      absorb_blocks block absorb (core h) (pending h @ xs)"
    by (rule write_absorbs) fact
  have "(core (hash_write (hash_write h xs) ys), pending (hash_write (hash_write h xs) ys)) =
      absorb_blocks block absorb (core (hash_write h xs)) (pending (hash_write h xs) @ ys)"
    by (rule write_absorbs) (rule write_ok, fact)
  also have "\<dots> = absorb_blocks block absorb (core h) ((pending h @ xs) @ ys)"
    by (simp only: absorb_blocks_append [OF block_pos, of absorb "core h" "pending h @ xs" ys]
        1 [symmetric] prod.case)
  also have "\<dots> = (core (hash_write h (xs @ ys)), pending (hash_write h (xs @ ys)))"
    using write_absorbs [OF assms, of "xs @ ys"] by simp
  finally show "core (hash_write (hash_write h xs) ys) = core (hash_write h (xs @ ys))"
    and "pending (hash_write (hash_write h xs) ys) = pending (hash_write h (xs @ ys))"
    by simp_all
qed

lemma finish_write_append:
  "ok h \<Longrightarrow> finish (hash_write (hash_write h xs) ys) = finish (hash_write h (xs @ ys))"
  by (intro finish_cong write_append write_ok)

lemma write_nil: "ok h \<Longrightarrow> length (pending h) < block \<Longrightarrow> finish (hash_write h []) = finish h"
  using write_absorbs [of h "[]"] by (intro finish_cong write_ok) (simp_all add: absorb_blocks_short)

text \<open>Any sequence of writes is one write of the concatenation.\<close>

lemma writes_core:
  assumes "ok h" and "length (pending h) < block"
  shows "ok (foldl hash_write h bss) \<and>
     (core (foldl hash_write h bss), pending (foldl hash_write h bss)) =
       absorb_blocks block absorb (core h) (pending h @ concat bss)"
proof (induction bss rule: rev_induct)
  case Nil
  show ?case using assms by (simp add: absorb_blocks_short)
next
  case (snoc bs bss)
  let ?g = "foldl hash_write h bss"
  have "(core (hash_write ?g bs), pending (hash_write ?g bs)) =
      absorb_blocks block absorb (core ?g) (pending ?g @ bs)"
    using snoc by (intro write_absorbs) simp
  also have "\<dots> = absorb_blocks block absorb (core h) ((pending h @ concat bss) @ bs)"
    using snoc by (simp only: absorb_blocks_append [OF block_pos, of absorb "core h" "pending h @ concat bss" bs]
        conjunct2 [OF snoc, symmetric] prod.case)
  finally show ?case using snoc write_ok by simp
qed

lemma finish_writes:
  assumes "ok h" and "length (pending h) < block"
  shows "finish (foldl hash_write h bss) = finish (hash_write h (concat bss))"
proof -
  have "(core (foldl hash_write h bss), pending (foldl hash_write h bss)) =
      (core (hash_write h (concat bss)), pending (hash_write h (concat bss)))"
    using writes_core [OF assms, of bss] write_absorbs [OF assms(1), of "concat bss"] by simp
  then show ?thesis
    using writes_core [OF assms, of bss] write_ok [OF assms(1)] by (intro finish_cong) simp_all
qed

end

end
