(* ===== verification/XxHash.thy ===== *)
theory XxHash
  imports Streaming
begin

text \<open>
  \<open>XxHash64\<close> of \<open>src/datasketches/src/hash/xxhash.rs\<close>. The record has the fields of the struct;
  the \<open>while\<close> loops of \<open>finish64\<close> over the pending bytes are recursions over the bytes that are
  left (\<open>buf[idx..]\<close>), and \<open>chunks_exact(32)\<close> is \<open>chunks_exact 32\<close>.
\<close>

definition P1 :: u64 where "P1 = 0x9E3779B185EBCA87"

definition P2 :: u64 where "P2 = 0xC2B2AE3D27D4EB4F"

definition P3 :: u64 where "P3 = 0x165667B19E3779F9"

definition P4 :: u64 where "P4 = 0x85EBCA77C2B2AE63"

definition P5 :: u64 where "P5 = 0x27D4EB2F165667C5"

record xxhash =
  xx_seed :: u64
  xx_total_len :: u64
  xx_v1 :: u64
  xx_v2 :: u64
  xx_v3 :: u64
  xx_v4 :: u64
  xx_buffer :: "u8 list"
  xx_buffer_len :: nat

definition xxhash_with_seed :: "u64 \<Rightarrow> xxhash" where
  "xxhash_with_seed seed =
     \<lparr>xx_seed = seed, xx_total_len = 0, xx_v1 = seed + P1 + P2, xx_v2 = seed + P2, xx_v3 = seed,
      xx_v4 = seed - P1, xx_buffer = replicate 32 0, xx_buffer_len = 0\<rparr>"

definition xx_round :: "u64 \<Rightarrow> u64 \<Rightarrow> u64" where
  "xx_round acc input =
     (let acc = acc + input * P2;
          acc = word_rotl 31 acc
      in acc * P1)"

definition merge_round :: "u64 \<Rightarrow> u64 \<Rightarrow> u64" where
  "merge_round acc val =
     (let v = val * P2;
          v = word_rotl 31 v;
          v = v * P1;
          acc = acc XOR v
      in acc * P1 + P4)"

definition xx_finalize :: "u64 \<Rightarrow> u64" where
  "xx_finalize hash =
     (let hash = hash XOR drop_bit 33 hash;
          hash = hash * P2;
          hash = hash XOR drop_bit 29 hash;
          hash = hash * P3
      in hash XOR drop_bit 32 hash)"

text \<open>The three loops of \<open>finish64\<close>: eight bytes at a time, then four, then one.\<close>

fun xx_tail8 :: "u64 \<Rightarrow> u8 list \<Rightarrow> u64 \<times> u8 list" where
  "xx_tail8 hash (b0 # b1 # b2 # b3 # b4 # b5 # b6 # b7 # rest) =
     (let k1 = read_u64_le_hash [b0, b1, b2, b3, b4, b5, b6, b7];
          k1 = k1 * P2;
          k1 = word_rotl 31 k1;
          k1 = k1 * P1;
          hash = hash XOR k1;
          hash = word_rotl 27 hash * P1 + P4
      in xx_tail8 hash rest)"
| "xx_tail8 hash buf = (hash, buf)"

definition xx_tail4 :: "u64 \<Rightarrow> u8 list \<Rightarrow> u64 \<times> u8 list" where
  "xx_tail4 hash buf =
     (if 4 \<le> length buf then
        let k1 = read_u64_le_hash (take 4 buf);
            hash = hash XOR (k1 * P1);
            hash = word_rotl 23 hash * P2 + P3
        in (hash, drop 4 buf)
      else (hash, buf))"

fun xx_tail1 :: "u64 \<Rightarrow> u8 list \<Rightarrow> u64" where
  "xx_tail1 hash [] = hash"
| "xx_tail1 hash (b # buf) =
     (let k1 = ucast b;
          hash = hash XOR (k1 * P5);
          hash = word_rotl 11 hash * P1
      in xx_tail1 hash buf)"

definition finish64 :: "xxhash \<Rightarrow> u64" where
  "finish64 h =
     (let hash =
            (if 32 \<le> xx_total_len h then
               let acc = word_rotl 1 (xx_v1 h) + word_rotl 7 (xx_v2 h) + word_rotl 12 (xx_v3 h)
                           + word_rotl 18 (xx_v4 h);
                   acc = merge_round acc (xx_v1 h);
                   acc = merge_round acc (xx_v2 h);
                   acc = merge_round acc (xx_v3 h);
                   acc = merge_round acc (xx_v4 h)
               in acc
             else xx_seed h + P5);
          hash = hash + xx_total_len h;
          buf = take (xx_buffer_len h) (xx_buffer h);
          (hash, buf) = xx_tail8 hash buf;
          (hash, buf) = xx_tail4 hash buf;
          hash = xx_tail1 hash buf
      in xx_finalize hash)"

definition xx_hash_u64 :: "u64 \<Rightarrow> u64 \<Rightarrow> u64" where
  "xx_hash_u64 input seed =
     (let hash = seed + P5 + 8;
          k1 = input;
          k1 = k1 * P2;
          k1 = word_rotl 31 k1;
          k1 = k1 * P1;
          hash = hash XOR k1;
          hash = word_rotl 27 hash * P1 + P4
      in xx_finalize hash)"

definition xxhash_update :: "xxhash \<Rightarrow> u8 list \<Rightarrow> xxhash" where
  "xxhash_update h chunk =
     h\<lparr>xx_v1 := xx_round (xx_v1 h) (read_u64_le_hash (slice_of 0 8 chunk)),
       xx_v2 := xx_round (xx_v2 h) (read_u64_le_hash (slice_of 8 16 chunk)),
       xx_v3 := xx_round (xx_v3 h) (read_u64_le_hash (slice_of 16 24 chunk)),
       xx_v4 := xx_round (xx_v4 h) (read_u64_le_hash (slice_of 24 32 chunk))\<rparr>"

text \<open>\<open>chunks_exact(n)\<close>: the whole chunks, and \<open>remainder()\<close>\<close>

definition chunks_exact :: "nat \<Rightarrow> 'a list \<Rightarrow> 'a list list" where
  "chunks_exact n bs = map (\<lambda>i. slice_of (n * i) (n * i + n) bs) [0..<length bs div n]"

definition chunks_remainder :: "nat \<Rightarrow> 'a list \<Rightarrow> 'a list" where
  "chunks_remainder n bs = drop (n * (length bs div n)) bs"

definition xxhash_fill :: "xxhash \<Rightarrow> u8 list \<Rightarrow> xxhash \<times> u8 list" where
  "xxhash_fill h bytes =
     (if xx_buffer_len h \<noteq> 0 then
        let needed = 32 - xx_buffer_len h;
            chunk = copy_into (xx_buffer h) (xx_buffer_len h) (slice_of 0 needed bytes);
            h = xxhash_update (h\<lparr>xx_buffer := chunk\<rparr>) chunk
        in (h\<lparr>xx_buffer_len := 0\<rparr>, drop needed bytes)
      else (h, bytes))"

definition xxhash_write :: "xxhash \<Rightarrow> u8 list \<Rightarrow> xxhash" where
  "xxhash_write h bytes =
     (let h = h\<lparr>xx_total_len := xx_total_len h + of_nat (length bytes)\<rparr>
      in if xx_buffer_len h + length bytes < 32 then
           h\<lparr>xx_buffer := copy_into (xx_buffer h) (xx_buffer_len h) bytes,
             xx_buffer_len := xx_buffer_len h + length bytes\<rparr>
         else
           let (h, bytes) = xxhash_fill h bytes;
               h = foldl xxhash_update h (chunks_exact 32 bytes);
               rem = chunks_remainder 32 bytes
           in if rem \<noteq> [] then
                h\<lparr>xx_buffer := copy_into (xx_buffer h) 0 rem, xx_buffer_len := length rem\<rparr>
              else h)"

text \<open>Hashing a value: all its writes into a fresh hasher, then \<open>finish64\<close>.\<close>

definition xxhash_hash :: "u64 \<Rightarrow> u8 list list \<Rightarrow> u64" where
  "xxhash_hash seed chunks = finish64 (foldl xxhash_write (xxhash_with_seed seed) chunks)"

section \<open>XxHash64 is a streaming hasher\<close>

text \<open>
  The absorbed state: the seed, the four lanes and the number of bytes absorbed. The struct only
  keeps the total length, so the absorbed length is the total minus what is pending.
\<close>

definition xx_core :: "xxhash \<Rightarrow> u64 \<times> u64 \<times> u64 \<times> u64 \<times> u64 \<times> u64" where
  "xx_core h = (xx_seed h, xx_v1 h, xx_v2 h, xx_v3 h, xx_v4 h,
     xx_total_len h - of_nat (xx_buffer_len h))"

definition xx_pending :: "xxhash \<Rightarrow> u8 list" where
  "xx_pending h = take (xx_buffer_len h) (xx_buffer h)"

definition xx_ok :: "xxhash \<Rightarrow> bool" where
  "xx_ok h \<longleftrightarrow> length (xx_buffer h) = 32 \<and> xx_buffer_len h < 32"

definition xx_absorb ::
  "u64 \<times> u64 \<times> u64 \<times> u64 \<times> u64 \<times> u64 \<Rightarrow> u8 list \<Rightarrow> u64 \<times> u64 \<times> u64 \<times> u64 \<times> u64 \<times> u64" where
  "xx_absorb c b = (case c of (s, v1, v2, v3, v4, n) \<Rightarrow>
     (s, xx_round v1 (read_u64_le_hash (slice_of 0 8 b)), xx_round v2 (read_u64_le_hash (slice_of 8 16 b)),
      xx_round v3 (read_u64_le_hash (slice_of 16 24 b)), xx_round v4 (read_u64_le_hash (slice_of 24 32 b)),
      n + 32))"

text \<open>The lanes, without the length, which \<open>write\<close> counts ahead of the blocks.\<close>

definition xx_lanes :: "xxhash \<Rightarrow> u64 \<times> u64 \<times> u64 \<times> u64 \<times> u64" where
  "xx_lanes h = (xx_seed h, xx_v1 h, xx_v2 h, xx_v3 h, xx_v4 h)"

definition with_len :: "u64 \<times> u64 \<times> u64 \<times> u64 \<times> u64 \<Rightarrow> u64 \<Rightarrow> u64 \<times> u64 \<times> u64 \<times> u64 \<times> u64 \<times> u64" where
  "with_len l n = (case l of (s, v1, v2, v3, v4) \<Rightarrow> (s, v1, v2, v3, v4, n))"

lemma xx_core_lanes: "xx_core h = with_len (xx_lanes h) (xx_total_len h - of_nat (xx_buffer_len h))"
  by (simp add: xx_core_def xx_lanes_def with_len_def)

lemma xxhash_update_lanes:
  "with_len (xx_lanes (xxhash_update h b)) (n + 32) = xx_absorb (with_len (xx_lanes h) n) b"
  by (simp add: xx_absorb_def xx_lanes_def with_len_def xxhash_update_def)

lemma xxhash_update_frame [simp]:
  "xx_total_len (xxhash_update h b) = xx_total_len h"
  "xx_buffer (xxhash_update h b) = xx_buffer h"
  "xx_buffer_len (xxhash_update h b) = xx_buffer_len h"
  by (simp_all add: xxhash_update_def)

lemma xx_lanes_frame [simp]:
  "xx_lanes (h\<lparr>xx_total_len := n\<rparr>) = xx_lanes h"
  "xx_lanes (h\<lparr>xx_buffer := b\<rparr>) = xx_lanes h"
  "xx_lanes (h\<lparr>xx_buffer_len := k\<rparr>) = xx_lanes h"
  by (simp_all add: xx_lanes_def)

lemma xxhash_updates:
  "with_len (xx_lanes (foldl xxhash_update h cs)) (n + 32 * of_nat (length cs)) =
     foldl xx_absorb (with_len (xx_lanes h) n) cs"
  "xx_total_len (foldl xxhash_update h cs) = xx_total_len h"
  "xx_buffer (foldl xxhash_update h cs) = xx_buffer h"
  "xx_buffer_len (foldl xxhash_update h cs) = xx_buffer_len h"
proof (induction cs arbitrary: h n)
  case (Cons c cs)
  {
    case 1
    show ?case
      using Cons(1) [of "xxhash_update h c" "n + 32"]
      by (simp add: xxhash_update_lanes algebra_simps)
  }
qed simp_all

lemma absorb_blocks_chunks:
  assumes "0 < n"
  shows "absorb_blocks n f c bs = (foldl f c (chunks_exact n bs), chunks_remainder n bs)"
  using absorb_blocks_all [OF assms, of "length bs div n" bs f c]
  by (simp add: chunks_exact_def chunks_remainder_def foldl_map)

lemma xxhash_fill_absorbs:
  assumes "xx_ok h" and "32 \<le> xx_buffer_len h + length bytes" and "xxhash_fill h bytes = (g, rest)"
  shows "xx_ok g \<and> xx_buffer_len g = 0 \<and> xx_total_len g = xx_total_len h \<and>
     length rest = xx_buffer_len h + length bytes - (if xx_buffer_len h = 0 then 0 else 32) \<and>
     absorb_blocks 32 xx_absorb (with_len (xx_lanes h) n) (xx_pending h @ bytes) =
       absorb_blocks 32 xx_absorb
         (with_len (xx_lanes g) (n + (if xx_buffer_len h = 0 then 0 else 32))) rest"
proof (cases "xx_buffer_len h = 0")
  case True
  then show ?thesis using assms by (simp add: xxhash_fill_def xx_pending_def)
next
  case False
  define needed where "needed = 32 - xx_buffer_len h"
  define chunk where "chunk = copy_into (xx_buffer h) (xx_buffer_len h) (take needed bytes)"
  have len: "xx_buffer_len h + length (take needed bytes) = length (xx_buffer h)"
    and l: "length (xx_buffer h) = 32"
    using assms(1,2) by (auto simp: needed_def xx_ok_def)
  have chunk: "chunk = xx_pending h @ take needed bytes" "length chunk = 32"
    using len l by (simp_all add: chunk_def xx_pending_def copy_into_full)
  have g: "with_len (xx_lanes g) (n + 32) = xx_absorb (with_len (xx_lanes h) n) chunk"
      "xx_buffer g = chunk" "xx_buffer_len g = 0" "xx_total_len g = xx_total_len h"
    and rest: "rest = drop needed bytes"
    using assms(3) False xxhash_update_lanes [of "h\<lparr>xx_buffer := chunk\<rparr>" chunk n]
    by (auto simp: xxhash_fill_def Let_def chunk_def needed_def)
  have "xx_pending h @ bytes = chunk @ rest" by (simp add: chunk(1) rest)
  moreover have "absorb_blocks 32 xx_absorb (with_len (xx_lanes h) n) (chunk @ rest) =
      absorb_blocks 32 xx_absorb (with_len (xx_lanes g) (n + 32)) rest"
    unfolding g(1) by (rule absorb_blocks_block) (use chunk(2) in simp_all)
  moreover have "length rest = xx_buffer_len h + length bytes - 32"
    using assms(1) by (simp add: rest needed_def xx_ok_def)
  ultimately show ?thesis using chunk(2) g False by (simp add: xx_ok_def)
qed

lemma length_chunks [simp]:
  "length (chunks_exact n bs) = length bs div n"
  "length (chunks_remainder n bs) = length bs mod n"
  by (simp_all add: chunks_exact_def chunks_remainder_def minus_mult_div_eq_mod)

lemma word_of_chunks: "of_nat m = (32 * of_nat (m div 32) + of_nat (m mod 32) :: u64)"
proof -
  have "of_nat m = (of_nat (32 * (m div 32) + m mod 32) :: u64)" by simp
  then show ?thesis by (simp only: of_nat_add of_nat_mult of_nat_numeral)
qed

lemma xxhash_write_absorbs:
  assumes "xx_ok h"
  shows "xx_ok (xxhash_write h bytes) \<and>
     (xx_core (xxhash_write h bytes), xx_pending (xxhash_write h bytes)) =
       absorb_blocks 32 xx_absorb (xx_core h) (xx_pending h @ bytes)"
proof (cases "xx_buffer_len h + length bytes < 32")
  case True
  then show ?thesis using assms
    by (simp add: xxhash_write_def xx_ok_def xx_pending_def absorb_blocks_short xx_core_lanes Let_def)
next
  case False
  let ?h = "h\<lparr>xx_total_len := xx_total_len h + of_nat (length bytes)\<rparr>"
  let ?n = "xx_total_len h - of_nat (xx_buffer_len h)"
  let ?d = "if xx_buffer_len h = 0 then 0 else 32 :: nat"
  obtain g rest where fill: "xxhash_fill ?h bytes = (g, rest)" by fastforce
  have ok: "xx_ok ?h" using assms by (simp add: xx_ok_def)
  have g: "xx_ok g" "xx_buffer_len g = 0" "xx_total_len g = xx_total_len h + of_nat (length bytes)"
      "length rest = xx_buffer_len h + length bytes - ?d"
    and eq: "absorb_blocks 32 xx_absorb (xx_core h) (xx_pending h @ bytes) =
       absorb_blocks 32 xx_absorb (with_len (xx_lanes g) (?n + of_nat ?d)) rest"
    using xxhash_fill_absorbs [OF ok _ fill, of ?n] False
    by (simp_all add: xx_core_lanes xx_pending_def)
  let ?h' = "foldl xxhash_update g (chunks_exact 32 rest)"
  let ?m = "32 * of_nat (length rest div 32) :: u64"
  have lanes: "with_len (xx_lanes ?h') (?n + of_nat ?d + ?m) =
      foldl xx_absorb (with_len (xx_lanes g) (?n + of_nat ?d)) (chunks_exact 32 rest)"
    using xxhash_updates(1) [of g "chunks_exact 32 rest" "?n + of_nat ?d"] by simp
  have "of_nat (length rest + ?d) = (of_nat (xx_buffer_len h + length bytes) :: u64)"
    using g(4) False by simp
  then have total: "xx_total_len h + of_nat (length bytes) - of_nat (length rest mod 32) =
      ?n + of_nat ?d + ?m"
    by (simp add: word_of_chunks [of "length rest"] algebra_simps split: if_splits)
  have out: "xxhash_write h bytes =
     (if chunks_remainder 32 rest \<noteq> [] then
        ?h'\<lparr>xx_buffer := copy_into (xx_buffer ?h') 0 (chunks_remainder 32 rest),
          xx_buffer_len := length (chunks_remainder 32 rest)\<rparr>
      else ?h')"
    using False by (simp add: xxhash_write_def fill Let_def)
  have len: "xx_buffer_len (xxhash_write h bytes) = length rest mod 32"
    using g(2) length_chunks(2) [of 32 rest] unfolding out
    by (simp add: xxhash_updates(4) flip: length_0_conv)
  have "xx_lanes (xxhash_write h bytes) = xx_lanes ?h'"
    "xx_total_len (xxhash_write h bytes) = xx_total_len h + of_nat (length bytes)"
    using g(3) by (simp_all add: out xxhash_updates(2))
  then have core: "xx_core (xxhash_write h bytes) = with_len (xx_lanes ?h') (?n + of_nat ?d + ?m)"
    by (simp only: xx_core_lanes len total)
  have pend: "xx_pending (xxhash_write h bytes) = chunks_remainder 32 rest"
    using g by (auto simp: out xx_pending_def xxhash_updates(3,4) copy_into_def)
  have "xx_ok (xxhash_write h bytes)"
    using g by (auto simp: out xx_ok_def xxhash_updates(3,4))
  then show ?thesis by (simp add: core pend eq lanes absorb_blocks_chunks)
qed

lemma finish64_cong:
  assumes "xx_ok h" and "xx_ok h'" and "xx_core h = xx_core h'" and "xx_pending h = xx_pending h'"
  shows "finish64 h = finish64 h'"
proof -
  have n: "xx_buffer_len h = xx_buffer_len h'"
    using assms by (metis length_take less_imp_le_nat min_absorb2 xx_ok_def xx_pending_def)
  have "xx_seed h = xx_seed h'" "xx_v1 h = xx_v1 h'" "xx_v2 h = xx_v2 h'" "xx_v3 h = xx_v3 h'"
      "xx_v4 h = xx_v4 h'" "xx_total_len h = xx_total_len h'"
    using assms(3) n by (simp_all add: xx_core_def)
  then show ?thesis
    using assms(4) by (simp only: finish64_def Let_def xx_pending_def)
qed

interpretation xx: streaming_hasher xxhash_write xx_core xx_pending xx_ok 32 xx_absorb finish64
  by unfold_locales (simp, metis xxhash_write_absorbs, metis xxhash_write_absorbs, rule finish64_cong)

lemma xx_ok_with_seed [simp]: "xx_ok (xxhash_with_seed seed)"
  by (simp add: xx_ok_def xxhash_with_seed_def)

lemma xx_pending_with_seed [simp]: "xx_pending (xxhash_with_seed seed) = []"
  by (simp add: xx_pending_def xxhash_with_seed_def)

text \<open>
  C31. Splitting the input of XxHash64 into writes does not change the hash: whatever chunks a
  value's \<open>Hash\<close> implementation writes, the hash is that of a single write of their
  concatenation.
\<close>

theorem xxhash_split_invariant:
  "xxhash_hash seed chunks = finish64 (xxhash_write (xxhash_with_seed seed) (concat chunks))"
  unfolding xxhash_hash_def by (rule xx.finish_writes) simp_all

lemma to_le_bytes_8:
  "\<exists>b0 b1 b2 b3 b4 b5 b6 b7. to_le_bytes (w :: u64) = [b0, b1, b2, b3, b4, b5, b6, b7]"
proof -
  have "length xs = 8 \<Longrightarrow> \<exists>b0 b1 b2 b3 b4 b5 b6 b7. xs = [b0, b1, b2, b3, b4, b5, b6, b7]"
    for xs :: "u8 list"
    by (auto simp: numeral_eq_Suc length_Suc_conv)
  from this [of "to_le_bytes w"] show ?thesis by simp
qed

text \<open>
  The specialised routine \<open>hash_u64\<close> computes the hash that the streaming hasher gives to the
  eight little-endian bytes of its argument, for every input and every seed.
\<close>

theorem xxhash_u64_agrees: "xx_hash_u64 input seed = xxhash_hash seed [to_le_bytes input]"
proof -
  obtain b0 b1 b2 b3 b4 b5 b6 b7 where b: "to_le_bytes input = [b0, b1, b2, b3, b4, b5, b6, b7]"
    using to_le_bytes_8 by blast
  have "read_u64_le_hash [b0, b1, b2, b3, b4, b5, b6, b7] = input"
    by (simp add: read_u64_le_hash_def copy_into_def flip: b)
  then show ?thesis
    by (simp add: xxhash_hash_def xxhash_write_def xxhash_with_seed_def b finish64_def copy_into_def
        xx_tail4_def xx_hash_u64_def Let_def)
qed

text \<open>
  Test vectors of XxHash64 hold for the model: the empty input, one byte, and inputs that fill
  one block exactly or leave a tail of each kind.
\<close>

theorem xxhash_test_vectors:
  "xxhash_hash 0 [] = 0xEF46DB3751D8E999 \<and>
   xxhash_hash 0 [[0]] = 0xE934A84ADB052768 \<and>
   xxhash_hash 0x9E3779B1 [] = 0xAC75FDA2929B17EF \<and>
   xxhash_hash 0 [map (of_char :: char \<Rightarrow> u8) ''abc''] = 0x44BC2CF5AD770999"
  by code_simp

end
