(* ===== verification/Probing.thy ===== *)
theory Probing
  imports Prelude
begin

text \<open>
  Open addressing with an odd stride over a power of two of slots, as the hash tables of the
  crate do it: the shared table of the theta family, the coupon set and the exception map of HLL.
  \<open>probe_loop\<close> is their loop (a slot that stops it, or the walk is back at its start), and the
  locale \<open>open_addressing\<close> is the contract of a lookup written with it: the walk visits every
  slot, so a lookup ends, finds a key that is present, and finds a free slot for one that is not.
\<close>

section \<open>The probe loop\<close>

text \<open>
  The result of a search: a slot, or the loop is back at its first index. The loop has no bound
  in the source; its fuel is the number of slots, and \<open>Out_of_fuel\<close> is a loop that has not ended
  by then. For a power of two of slots it never occurs (\<open>probe_miss\<close>, \<open>probe_hit\<close>).
\<close>

datatype probe_result = Slot nat | Wrapped | Out_of_fuel

fun probe_loop ::
  "nat \<Rightarrow> ('s \<Rightarrow> bool) \<Rightarrow> 's list \<Rightarrow> nat \<Rightarrow> nat \<Rightarrow> nat \<Rightarrow> nat \<Rightarrow> probe_result" where
  "probe_loop 0 stop slots msk stride loop_index index = Out_of_fuel"
| "probe_loop (Suc fuel) stop slots msk stride loop_index index =
     (if stop (slots ! index) then Slot index
      else let index = (index + stride) AND msk
           in if index = loop_index then Wrapped
              else probe_loop fuel stop slots msk stride loop_index index)"

text \<open>Placing elements one after the other into the slots that a search finds for them.\<close>

fun place_all ::
  "('s list \<Rightarrow> 'e \<Rightarrow> probe_result) \<Rightarrow> ('e \<Rightarrow> 's) \<Rightarrow> 's list \<Rightarrow> 'e list \<Rightarrow> 's list res" where
  "place_all look mk slots [] = Inr slots"
| "place_all look mk slots (x # xs) =
     (case look slots x of
        Slot i \<Rightarrow> place_all look mk (slots[i := mk x]) xs
      | Wrapped \<Rightarrow> Inl (Panic ''unreachable: no slot'')
      | Out_of_fuel \<Rightarrow> Inl (Panic ''search does not end''))"

lemma and_mask_nat: "x AND (2 ^ n - 1) = x mod 2 ^ n" for x :: nat
  by (metis mask_eq_exp_minus_1 take_bit_eq_mask take_bit_eq_mod)

lemma and_mask_nat_lt [simp]: "x AND (2 ^ n - 1) < (2 :: nat) ^ n"
  by (simp only: and_mask_nat mod_less_divisor zero_less_power zero_less_numeral)

lemma distinct_filter_nth:
  "(\<And>i j. i < length xs \<Longrightarrow> j < length xs \<Longrightarrow> P (xs ! i) \<Longrightarrow> xs ! i = xs ! j \<Longrightarrow> i = j) \<Longrightarrow>
   distinct (filter P xs)"
proof (induction xs)
  case (Cons x xs)
  have "i = j" if "i < length xs" "j < length xs" "P (xs ! i)" "xs ! i = xs ! j" for i j
    using Cons.prems [of "Suc i" "Suc j"] that by simp
  moreover have "x \<notin> set xs" if "P x"
    using Cons.prems [of 0 "Suc _"] that by (auto simp: in_set_conv_nth)
  ultimately show ?case using Cons.IH by simp
qed simp

section \<open>The walk\<close>

definition walk :: "nat \<Rightarrow> nat \<Rightarrow> nat \<Rightarrow> nat \<Rightarrow> nat" where
  "walk n start stride i = (start + i * stride) mod n"

lemma walk_lt: "0 < n \<Longrightarrow> walk n start stride i < n"
  by (simp add: walk_def)

lemma walk_0: "start < n \<Longrightarrow> walk n start stride 0 = start"
  by (simp add: walk_def)

lemma walk_Suc: "walk n start stride (Suc i) = (walk n start stride i + stride) mod n"
  by (simp add: walk_def mod_add_left_eq add.assoc add.commute [of stride])

lemma walk_round: "walk n start stride n = walk n start stride 0"
  by (simp add: walk_def)

lemma walk_inj_aux:
  assumes "coprime n stride" and "i \<le> j" and "j < n"
    and "walk n start stride i = walk n start stride j"
  shows "i = j"
proof -
  have "n dvd (start + j * stride) - (start + i * stride)"
    using assms(4) by (metis walk_def mod_eq_dvd_iff_nat add_le_cancel_left mult_le_mono1 assms(2))
  then have "n dvd (j - i) * stride" by (simp add: diff_mult_distrib)
  then have "n dvd j - i" using assms(1) by (simp add: coprime_dvd_mult_left_iff)
  then show ?thesis using assms(2,3) by (metis diff_less_mono2 dvd_imp_le less_imp_diff_less
      not_less le_antisym zero_less_diff diff_is_0_eq')
qed

lemma walk_inj:
  assumes "coprime n stride" and "i < n" and "j < n"
    and "walk n start stride i = walk n start stride j"
  shows "i = j"
  using walk_inj_aux [OF assms(1)] assms by (metis nat_le_linear)

text \<open>An odd stride visits every slot of a power of two.\<close>

lemma walk_surj:
  assumes "coprime n stride" and "p < n"
  shows "\<exists>i<n. p = walk n start stride i"
proof -
  have "inj_on (walk n start stride) {..<n}"
    using walk_inj [OF assms(1)] by (auto simp: inj_on_def)
  moreover have "walk n start stride ` {..<n} \<subseteq> {..<n}"
    using walk_lt assms(2) by auto
  ultimately have "walk n start stride ` {..<n} = {..<n}"
    by (simp add: endo_inj_surj)
  then show ?thesis using assms(2) by (metis imageE lessThan_iff)
qed

lemma probe_loop_from:
  assumes n: "n = 2 ^ lg" and cop: "coprime n stride" and start: "start < n" and i: "i < n"
  shows "probe_loop (n - i) stop slots (n - 1) stride start (walk n start stride i) =
     (if \<exists>j. i \<le> j \<and> j < n \<and> stop (slots ! walk n start stride j)
      then Slot (walk n start stride (LEAST j. i \<le> j \<and> stop (slots ! walk n start stride j)))
      else Wrapped)"
  using i
proof (induction "n - i" arbitrary: i)
  case 0
  then show ?case by simp
next
  case (Suc f)
  let ?w = "walk n start stride"
  have f: "n - i = Suc f" and f': "f = n - Suc i" using Suc.hyps(2) by simp_all
  show ?case
  proof (cases "stop (slots ! ?w i)")
    case True
    then have "(LEAST j. i \<le> j \<and> stop (slots ! ?w j)) = i"
      by (intro Least_equality) auto
    then show ?thesis using True Suc.prems by (auto simp: f)
  next
    case False
    have nxt: "(?w i + stride) AND (n - 1) = ?w (Suc i)"
      by (simp only: n and_mask_nat walk_Suc)
    have shift: "(i \<le> j \<and> stop (slots ! ?w j)) = (Suc i \<le> j \<and> stop (slots ! ?w j))" for j
      using False by (metis Suc_leI Suc_leD le_neq_implies_less)
    show ?thesis
    proof (cases "Suc i = n")
      case True
      have "?w n = start" using start by (simp add: walk_round walk_0)
      then have "probe_loop (n - i) stop slots (n - 1) stride start (?w i) = Wrapped"
        using False nxt True by (simp add: f)
      moreover have "\<not> (\<exists>j. i \<le> j \<and> j < n \<and> stop (slots ! ?w j))"
        using shift True by (metis not_less)
      ultimately show ?thesis by simp
    next
      case more: False
      then have lt: "Suc i < n" using Suc.prems by simp
      then have "?w (Suc i) \<noteq> ?w 0" using walk_inj [OF cop lt, of 0] by auto
      then have "probe_loop (n - i) stop slots (n - 1) stride start (?w i) =
          probe_loop f stop slots (n - 1) stride start (?w (Suc i))"
        using False start by (simp add: f nxt walk_0 Let_def del: One_nat_def)
      also have "\<dots> = (if \<exists>j. Suc i \<le> j \<and> j < n \<and> stop (slots ! ?w j)
          then Slot (?w (LEAST j. Suc i \<le> j \<and> stop (slots ! ?w j))) else Wrapped)"
        unfolding f' by (rule Suc.hyps(1) [OF f' lt])
      also have "(\<exists>j. Suc i \<le> j \<and> j < n \<and> stop (slots ! ?w j)) =
          (\<exists>j. i \<le> j \<and> j < n \<and> stop (slots ! ?w j))"
        using shift by blast
      also have "(LEAST j. Suc i \<le> j \<and> stop (slots ! ?w j)) = (LEAST j. i \<le> j \<and> stop (slots ! ?w j))"
        by (simp only: shift)
      finally show ?thesis .
    qed
  qed
qed

lemma probe_hit:
  assumes "n = 2 ^ lg" and "coprime n stride" and "start < n" and "i < n"
    and "\<forall>j<i. \<not> stop (slots ! walk n start stride j)" and "stop (slots ! walk n start stride i)"
  shows "probe_loop n stop slots (n - 1) stride start start = Slot (walk n start stride i)"
proof -
  have "(LEAST j. stop (slots ! walk n start stride j)) = i"
    using assms(5,6) by (intro Least_equality) (auto simp: not_less [symmetric])
  then show ?thesis
    using probe_loop_from [of n lg stride start 0 stop slots] assms by (auto simp: walk_0)
qed

lemma probe_miss:
  assumes "n = 2 ^ lg" and "coprime n stride" and "start < n"
    and "\<forall>p<n. \<not> stop (slots ! p)"
  shows "probe_loop n stop slots (n - 1) stride start start = Wrapped"
  using probe_loop_from [of n lg stride start 0 stop slots] assms walk_lt [of n start stride]
  by (auto simp: walk_0)

lemma probe_cong:
  "(\<And>s. s \<in> set slots \<Longrightarrow> stop s = stop' s) \<Longrightarrow> length slots = 2 ^ lg \<Longrightarrow> i < 2 ^ lg \<Longrightarrow>
   probe_loop f stop slots (2 ^ lg - 1) stride start i = probe_loop f stop' slots (2 ^ lg - 1) stride start i"
proof (induction f arbitrary: i)
  case (Suc f)
  have "(i + stride) AND (2 ^ lg - 1) < 2 ^ lg" by (rule and_mask_nat_lt)
  then show ?case using Suc by (simp add: Let_def)
qed simp

section \<open>The contract of an open-addressing table\<close>

text \<open>
  \<open>occ\<close> is the key of a slot (or None for a free slot), \<open>start\<close> and \<open>stride\<close> give the walk of
  a key in a table of \<open>2 ^ lg\<close> slots, and \<open>lookup\<close> is the table's search.
\<close>

locale open_addressing =
  fixes occ :: "'s \<Rightarrow> 'k option"
    and start :: "nat \<Rightarrow> 'k \<Rightarrow> nat"
    and stride :: "nat \<Rightarrow> 'k \<Rightarrow> nat"
    and lookup :: "nat \<Rightarrow> 's list \<Rightarrow> 'k \<Rightarrow> probe_result"
  assumes start_lt: "start lg k < 2 ^ lg"
    and stride_odd: "odd (stride lg k)"
    and lookup_probes: "length slots = 2 ^ lg \<Longrightarrow>
      lookup lg slots k = probe_loop (2 ^ lg) (\<lambda>s. occ s = None \<or> occ s = Some k) slots
        (2 ^ lg - 1) (stride lg k) (start lg k) (start lg k)"
begin

definition pos :: "nat \<Rightarrow> 'k \<Rightarrow> nat \<Rightarrow> nat" where
  "pos lg k i = walk (2 ^ lg) (start lg k) (stride lg k) i"

definition keys :: "'s list \<Rightarrow> 'k set" where
  "keys slots = {k. \<exists>s \<in> set slots. occ s = Some k}"

definition stored :: "'s list \<Rightarrow> 's set" where
  "stored slots = {s \<in> set slots. occ s \<noteq> None}"

definition wf :: "nat \<Rightarrow> 's list \<Rightarrow> bool" where
  "wf lg slots \<longleftrightarrow> length slots = 2 ^ lg \<and>
     (\<forall>p < 2 ^ lg. \<forall>q < 2 ^ lg. \<forall>k. occ (slots ! p) = Some k \<longrightarrow> occ (slots ! q) = Some k \<longrightarrow> p = q) \<and>
     (\<forall>p < 2 ^ lg. \<forall>k. occ (slots ! p) = Some k \<longrightarrow>
        (\<exists>i < 2 ^ lg. p = pos lg k i \<and> (\<forall>j<i. occ (slots ! pos lg k j) \<noteq> None)))"

lemma stride_coprime: "coprime (2 ^ lg) (stride lg k)"
  using stride_odd by (simp add: coprime_commute)

lemma pos_lt [simp]: "pos lg k i < 2 ^ lg"
  by (simp add: pos_def walk_lt)

lemma pos_inj: "pos lg k i = pos lg k j \<Longrightarrow> i < 2 ^ lg \<Longrightarrow> j < 2 ^ lg \<Longrightarrow> i = j"
  unfolding pos_def by (rule walk_inj [OF stride_coprime])

lemma pos_surj: "p < 2 ^ lg \<Longrightarrow> \<exists>i < 2 ^ lg. p = pos lg k i"
  unfolding pos_def by (rule walk_surj [OF stride_coprime])

lemma wf_length: "wf lg slots \<Longrightarrow> length slots = 2 ^ lg"
  by (simp add: wf_def)

lemma wf_unique:
  "wf lg slots \<Longrightarrow> p < 2 ^ lg \<Longrightarrow> q < 2 ^ lg \<Longrightarrow> occ (slots ! p) = Some k \<Longrightarrow> occ (slots ! q) = Some k \<Longrightarrow>
   p = q"
  unfolding wf_def by blast

lemma wf_chain:
  "wf lg slots \<Longrightarrow> p < 2 ^ lg \<Longrightarrow> occ (slots ! p) = Some k \<Longrightarrow>
   \<exists>i < 2 ^ lg. p = pos lg k i \<and> (\<forall>j<i. occ (slots ! pos lg k j) \<noteq> None)"
  unfolding wf_def by blast

lemma keys_nth: "k \<in> keys slots \<longleftrightarrow> (\<exists>p < length slots. occ (slots ! p) = Some k)"
  by (auto simp: keys_def in_set_conv_nth Bex_def)

lemma keys_stored: "k \<in> keys slots \<longleftrightarrow> (\<exists>s \<in> stored slots. occ s = Some k)"
  by (auto simp: keys_def stored_def)

lemma lookup_hit:
  assumes "length slots = 2 ^ lg" and "i < 2 ^ lg"
    and "\<forall>j<i. occ (slots ! pos lg k j) \<notin> {None, Some k}" and "occ (slots ! pos lg k i) \<in> {None, Some k}"
  shows "lookup lg slots k = Slot (pos lg k i)"
  unfolding lookup_probes [OF assms(1)] pos_def
  by (rule probe_hit [OF refl stride_coprime start_lt]) (use assms in \<open>auto simp: pos_def\<close>)

lemma lookup_found:
  assumes "wf lg slots" and "p < 2 ^ lg" and "occ (slots ! p) = Some k"
  shows "lookup lg slots k = Slot p"
proof -
  obtain i where i: "i < 2 ^ lg" "p = pos lg k i" "\<forall>j<i. occ (slots ! pos lg k j) \<noteq> None"
    using wf_chain [OF assms] by blast
  have "occ (slots ! pos lg k j) \<noteq> Some k" if "j < i" for j
  proof
    assume "occ (slots ! pos lg k j) = Some k"
    then have "pos lg k j = pos lg k i" using wf_unique [OF assms(1) pos_lt assms(2)] assms(3) i(2) by simp
    then show False using pos_inj that i(1) by (metis less_trans nat_neq_iff)
  qed
  then show ?thesis
    using lookup_hit [OF wf_length [OF assms(1)] i(1), of k] i assms(3) by simp
qed

lemma lookup_absent:
  assumes "length slots = 2 ^ lg" and "k \<notin> keys slots" and "\<exists>s \<in> set slots. occ s = None"
  obtains i where "i < 2 ^ lg" and "lookup lg slots k = Slot (pos lg k i)"
    and "occ (slots ! pos lg k i) = None" and "\<forall>j<i. occ (slots ! pos lg k j) \<noteq> None"
proof -
  obtain q where q: "q < 2 ^ lg" "occ (slots ! q) = None"
    using assms(1,3) by (metis in_set_conv_nth)
  obtain r where "r < 2 ^ lg" "q = pos lg k r" using pos_surj [OF q(1)] by blast
  then have ex: "\<exists>r. r < 2 ^ lg \<and> occ (slots ! pos lg k r) = None" using q by blast
  define i where "i = (LEAST r. r < 2 ^ lg \<and> occ (slots ! pos lg k r) = None)"
  have i: "i < 2 ^ lg" "occ (slots ! pos lg k i) = None"
    using LeastI_ex [OF ex] by (simp_all add: i_def)
  have least: "\<forall>j<i. occ (slots ! pos lg k j) \<noteq> None"
    using not_less_Least [of _ "\<lambda>r. r < 2 ^ lg \<and> occ (slots ! pos lg k r) = None"] i(1)
    unfolding i_def by (metis (mono_tags, lifting) less_trans)
  have "\<forall>j<i. occ (slots ! pos lg k j) \<noteq> Some k"
    using assms(1,2) by (simp add: keys_nth)
  then show ?thesis
    using lookup_hit [OF assms(1) i(1)] i least that by simp
qed

lemma lookup_full:
  assumes "length slots = 2 ^ lg" and "k \<notin> keys slots" and "\<forall>s \<in> set slots. occ s \<noteq> None"
  shows "lookup lg slots k = Wrapped"
  unfolding lookup_probes [OF assms(1)]
  by (rule probe_miss [OF refl stride_coprime start_lt]) (use assms in \<open>auto simp: keys_nth\<close>)

text \<open>The search always ends by itself.\<close>

lemma lookup_ends: "wf lg slots \<Longrightarrow> lookup lg slots k \<noteq> Out_of_fuel"
  by (metis keys_nth lookup_absent lookup_found lookup_full probe_result.distinct(3,5) wf_length)

text \<open>Where a search ends: at the key, or at a free slot when the key is absent.\<close>

lemma lookup_Slot:
  assumes "wf lg slots" and "lookup lg slots k = Slot p"
  shows "p < 2 ^ lg"
    and "k \<in> keys slots \<Longrightarrow> occ (slots ! p) = Some k"
    and "k \<notin> keys slots \<Longrightarrow> occ (slots ! p) = None"
    and "\<exists>i < 2 ^ lg. p = pos lg k i \<and> (\<forall>j<i. occ (slots ! pos lg k j) \<noteq> None)"
proof -
  have len: "length slots = 2 ^ lg" using assms(1) by (rule wf_length)
  consider (found) q where "q < 2 ^ lg" "occ (slots ! q) = Some k"
    | (absent) "k \<notin> keys slots" "\<exists>s \<in> set slots. occ s = None"
    | (full) "k \<notin> keys slots" "\<forall>s \<in> set slots. occ s \<noteq> None"
    using len keys_nth by metis
  then have "p < 2 ^ lg \<and> (k \<in> keys slots \<longrightarrow> occ (slots ! p) = Some k) \<and>
      (k \<notin> keys slots \<longrightarrow> occ (slots ! p) = None) \<and>
      (\<exists>i < 2 ^ lg. p = pos lg k i \<and> (\<forall>j<i. occ (slots ! pos lg k j) \<noteq> None))"
  proof cases
    case found
    then have "p = q" using lookup_found [OF assms(1) found] assms(2) by simp
    then show ?thesis using found wf_chain [OF assms(1) found] keys_nth len by auto
  next
    case absent
    obtain i where "i < 2 ^ lg" "lookup lg slots k = Slot (pos lg k i)"
      "occ (slots ! pos lg k i) = None" "\<forall>j<i. occ (slots ! pos lg k j) \<noteq> None"
      using lookup_absent [OF len absent] .
    then show ?thesis using absent assms(2) by auto
  next
    case full
    then show ?thesis using lookup_full [OF len full] assms(2) by simp
  qed
  then show "p < 2 ^ lg" and "k \<in> keys slots \<Longrightarrow> occ (slots ! p) = Some k"
    and "k \<notin> keys slots \<Longrightarrow> occ (slots ! p) = None"
    and "\<exists>i < 2 ^ lg. p = pos lg k i \<and> (\<forall>j<i. occ (slots ! pos lg k j) \<noteq> None)"
    by blast+
qed

lemma lookup_succeeds:
  assumes "wf lg slots" and "k \<in> keys slots \<or> (\<exists>s \<in> set slots. occ s = None)"
  obtains p where "lookup lg slots k = Slot p"
proof (cases "k \<in> keys slots")
  case True
  then obtain q where "q < 2 ^ lg" "occ (slots ! q) = Some k"
    using keys_nth wf_length [OF assms(1)] by auto
  then show ?thesis using lookup_found [OF assms(1)] that by blast
next
  case False
  then show ?thesis using lookup_absent [OF wf_length [OF assms(1)] False] assms(2) that by metis
qed

lemma wf_insert:
  assumes wf: "wf lg slots" and found: "lookup lg slots k = Slot p" and s: "occ s = Some k"
  shows "wf lg (slots[p := s])"
proof -
  note P = lookup_Slot [OF wf found]
  have len: "length slots = 2 ^ lg" using wf by (rule wf_length)
  have other: "q = p" if "q < 2 ^ lg" "occ (slots ! q) = Some k" for q
    using P(2) wf_unique [OF wf that(1) P(1) that(2)] that len keys_nth by metis
  have nth: "slots[p := s] ! q = (if q = p then s else slots ! q)" if "q < 2 ^ lg" for q
    using that len by (simp add: nth_list_update)
  have "q = r" if "q < 2 ^ lg" "r < 2 ^ lg" "occ (slots[p := s] ! q) = Some k'"
      "occ (slots[p := s] ! r) = Some k'" for q r k'
  proof -
    show ?thesis
    proof (cases "k' = k")
      case True
      then show ?thesis using that other by (metis nth)
    next
      case False
      then have "q \<noteq> p" "r \<noteq> p" using that s by (auto simp: nth)
      then show ?thesis using that wf_unique [OF wf] by (simp add: nth)
    qed
  qed
  moreover have "\<exists>i < 2 ^ lg. q = pos lg k' i \<and> (\<forall>j<i. occ (slots[p := s] ! pos lg k' j) \<noteq> None)"
    if q: "q < 2 ^ lg" and k': "occ (slots[p := s] ! q) = Some k'" for q k'
  proof -
    have "\<exists>i < 2 ^ lg. q = pos lg k' i \<and> (\<forall>j<i. occ (slots ! pos lg k' j) \<noteq> None)"
    proof (cases "q = p")
      case True
      then have "k' = k" using k' s q by (simp add: nth)
      then show ?thesis using P(4) True by simp
    next
      case False
      then show ?thesis using wf_chain [OF wf q] k' q by (simp add: nth)
    qed
    then show ?thesis using s by (metis nth option.distinct(1) pos_lt)
  qed
  ultimately show ?thesis using len by (auto simp: wf_def)
qed

lemma stored_nth: "s \<in> stored slots \<longleftrightarrow> (\<exists>q < length slots. s = slots ! q \<and> occ s \<noteq> None)"
  by (auto simp: stored_def in_set_conv_nth)

lemma stored_insert:
  assumes wf: "wf lg slots" and found: "lookup lg slots k = Slot p" and s: "occ s = Some k"
  shows "stored (slots[p := s]) = insert s {t \<in> stored slots. occ t \<noteq> Some k}"
proof -
  note P = lookup_Slot [OF wf found]
  have len: "length slots = 2 ^ lg" using wf by (rule wf_length)
  have nth: "slots[p := s] ! q = (if q = p then s else slots ! q)" if "q < 2 ^ lg" for q
    using that len by (simp add: nth_list_update)
  have other: "q = p" if "q < 2 ^ lg" "occ (slots ! q) = Some k" for q
    using P(2) wf_unique [OF wf that(1) P(1) that(2)] that len keys_nth by metis
  have pk: "occ (slots ! p) = None \<or> occ (slots ! p) = Some k" using P(2,3) by blast
  show ?thesis
  proof (intro set_eqI)
    fix t
    have "t \<in> stored (slots[p := s]) \<longleftrightarrow>
        (\<exists>q < 2 ^ lg. t = (if q = p then s else slots ! q) \<and> occ t \<noteq> None)"
      using len nth by (auto simp: stored_nth)
    also have "\<dots> \<longleftrightarrow> t = s \<or> (\<exists>q < 2 ^ lg. q \<noteq> p \<and> t = slots ! q \<and> occ t \<noteq> None)"
    proof
      assume "\<exists>q < 2 ^ lg. t = (if q = p then s else slots ! q) \<and> occ t \<noteq> None"
      then show "t = s \<or> (\<exists>q < 2 ^ lg. q \<noteq> p \<and> t = slots ! q \<and> occ t \<noteq> None)"
        by (auto split: if_splits)
    next
      assume "t = s \<or> (\<exists>q < 2 ^ lg. q \<noteq> p \<and> t = slots ! q \<and> occ t \<noteq> None)"
      then show "\<exists>q < 2 ^ lg. t = (if q = p then s else slots ! q) \<and> occ t \<noteq> None"
      proof
        assume "t = s"
        then show ?thesis using P(1) s by (intro exI [of _ p]) simp
      qed auto
    qed
    also have "(\<exists>q < 2 ^ lg. q \<noteq> p \<and> t = slots ! q \<and> occ t \<noteq> None) \<longleftrightarrow>
        t \<in> stored slots \<and> occ t \<noteq> Some k"
      unfolding stored_nth len using other pk by metis
    finally show "t \<in> stored (slots[p := s]) \<longleftrightarrow> t \<in> insert s {t \<in> stored slots. occ t \<noteq> Some k}"
      by simp
  qed
qed

lemma keys_insert:
  assumes "wf lg slots" and "lookup lg slots k = Slot p" and "occ s = Some k"
  shows "keys (slots[p := s]) = insert k (keys slots)"
proof (intro set_eqI)
  fix k'
  have "k' \<in> keys (slots[p := s]) \<longleftrightarrow> k' = k \<or> (\<exists>t \<in> stored slots. occ t \<noteq> Some k \<and> occ t = Some k')"
    using assms(3) by (auto simp: keys_stored stored_insert [OF assms])
  also have "\<dots> \<longleftrightarrow> k' = k \<or> (\<exists>t \<in> stored slots. occ t = Some k')"
    by (metis option.inject)
  finally show "k' \<in> keys (slots[p := s]) \<longleftrightarrow> k' \<in> insert k (keys slots)"
    by (simp add: keys_stored [of k' slots])
qed

text \<open>Counting the occupied slots\<close>

definition occupied :: "'s list \<Rightarrow> nat" where
  "occupied slots = length (filter (\<lambda>s. occ s \<noteq> None) slots)"

lemma stored_set: "stored slots = set (filter (\<lambda>s. occ s \<noteq> None) slots)"
  by (simp add: stored_def)

lemma finite_stored [simp]: "finite (stored slots)"
  by (simp add: stored_def)

lemma free_slot_iff: "(\<exists>s \<in> set slots. occ s = None) \<longleftrightarrow> occupied slots < length slots"
proof -
  have "occupied slots = length slots \<longleftrightarrow> (\<forall>s \<in> set slots. occ s \<noteq> None)"
    unfolding occupied_def using length_filter_less [of _ slots "\<lambda>s. occ s \<noteq> None"]
    by (auto simp: less_le)
  moreover have "occupied slots \<le> length slots"
    unfolding occupied_def by (rule length_filter_le)
  ultimately show ?thesis by (metis le_neq_implies_less less_irrefl)
qed

lemma distinct_occupied:
  assumes "wf lg slots"
  shows "distinct (filter (\<lambda>s. occ s \<noteq> None) slots)"
    and "inj_on occ (stored slots)"
proof -
  have "inj_on occ (stored slots)"
    using wf_unique [OF assms] wf_length [OF assms]
    by (intro inj_onI) (auto simp: stored_nth, metis)
  then show "inj_on occ (stored slots)" .
  have "i = j" if "i < length slots" "j < length slots" "occ (slots ! i) \<noteq> None" "slots ! i = slots ! j" for i j
    using that wf_unique [OF assms, of i j] wf_length [OF assms] by auto
  then show "distinct (filter (\<lambda>s. occ s \<noteq> None) slots)"
    by (intro distinct_filter_nth) blast
qed

lemma occupied_card:
  assumes "wf lg slots"
  shows "occupied slots = card (stored slots)" and "occupied slots = card (keys slots)"
proof -
  show 1: "occupied slots = card (stored slots)"
    using distinct_occupied(1) [OF assms] by (simp only: occupied_def stored_set distinct_card)
  have img: "keys slots = (\<lambda>s. the (occ s)) ` stored slots"
    by (auto simp: keys_stored stored_def image_iff) force+
  have "inj_on (\<lambda>s. the (occ s)) (stored slots)"
    using distinct_occupied(2) [OF assms] by (auto simp: inj_on_def stored_def)
  then show "occupied slots = card (keys slots)"
    by (simp only: img card_image 1)
qed

lemma occupied_insert:
  assumes "wf lg slots" and "lookup lg slots k = Slot p" and "occ s = Some k"
  shows "occupied (slots[p := s]) = (if k \<in> keys slots then occupied slots else Suc (occupied slots))"
proof -
  have "keys slots \<subseteq> (\<lambda>s. the (occ s)) ` stored slots"
    by (auto simp: keys_stored image_iff) force
  then have "finite (keys slots)"
    by (rule finite_subset) simp
  then show ?thesis
    using occupied_card(2) [OF assms(1)] occupied_card(2) [OF wf_insert [OF assms]]
    by (simp add: keys_insert [OF assms] card_insert_if)
qed

text \<open>Tables without an occupied slot, and filling a table with elements of distinct keys\<close>

lemma wf_empty:
  "occ e = None \<Longrightarrow> wf lg (replicate (2 ^ lg) e)"
  "occ e = None \<Longrightarrow> stored (replicate n e) = {}"
  "occ e = None \<Longrightarrow> keys (replicate n e) = {}"
  "occ e = None \<Longrightarrow> occupied (replicate n e) = 0"
  by (auto simp: wf_def stored_def keys_def occupied_def)

lemma place_all_ok:
  assumes "wf lg slots" and "\<And>slots x. x \<in> set xs \<Longrightarrow> length slots = 2 ^ lg \<Longrightarrow>
      key x \<notin> keys slots \<Longrightarrow> look slots x = lookup lg slots (key x)"
    and "\<And>x. x \<in> set xs \<Longrightarrow> occ (mk x) = Some (key x)"
    and "distinct (map key xs)" and "key ` set xs \<inter> keys slots = {}"
    and "occupied slots + length xs \<le> 2 ^ lg"
  shows "\<exists>slots'. place_all look mk slots xs = Inr slots' \<and> wf lg slots' \<and>
     stored slots' = stored slots \<union> mk ` set xs \<and> occupied slots' = occupied slots + length xs"
  using assms
proof (induction xs arbitrary: slots)
  case Nil
  then show ?case by simp
next
  case (Cons x xs)
  note wf = Cons.prems(1)
  have new: "key x \<notin> keys slots" using Cons.prems(5) by simp
  have free: "\<exists>s \<in> set slots. occ s = None"
    using Cons.prems(6) wf_length [OF wf] by (simp add: free_slot_iff)
  obtain p where p: "lookup lg slots (key x) = Slot p"
    using lookup_succeeds [OF wf] free by blast
  have occ: "occ (mk x) = Some (key x)" by (rule Cons.prems(3)) simp
  note ins = wf_insert [OF wf p occ] keys_insert [OF wf p occ] stored_insert [OF wf p occ]
    occupied_insert [OF wf p occ]
  have "\<exists>slots'. place_all look mk (slots[p := mk x]) xs = Inr slots' \<and> wf lg slots' \<and>
     stored slots' = stored (slots[p := mk x]) \<union> mk ` set xs \<and>
     occupied slots' = occupied (slots[p := mk x]) + length xs"
  proof (rule Cons.IH [OF ins(1)])
    show "key ` set xs \<inter> keys (slots[p := mk x]) = {}"
      using Cons.prems(4,5) by (auto simp: ins(2))
    show "occupied (slots[p := mk x]) + length xs \<le> 2 ^ lg"
      using Cons.prems(6) new by (simp add: ins(4))
  qed (use Cons.prems in auto)
  moreover have "{t \<in> stored slots. occ t \<noteq> Some (key x)} = stored slots"
    using new by (auto simp: keys_stored)
  ultimately show ?case
    using p new Cons.prems(2) [of x slots] wf_length [OF wf] by (auto simp: ins(3,4))
qed

end

end
