(* ===== verification/Murmur.thy ===== *)
theory Murmur
  imports Streaming
begin

text \<open>
  \<open>MurmurHash3X64128\<close> of \<open>src/datasketches/src/hash/murmurhash.rs\<close> and the seed hash of
  \<open>src/datasketches/src/hash/seed.rs\<close>. The record has the fields of the struct; \<open>mm_buf\<close> is
  the 16-byte array, of which the first \<open>mm_buf_len\<close> bytes are pending. The running length
  \<open>mm_total\<close> is a 64-bit word (the source's plain \<open>+=\<close> would overflow after \<open>2 ^ 64\<close> bytes).

  A hashed value is the list of the byte chunks that its \<open>Hash\<close> implementation writes.
\<close>

record murmur =
  mm_h1 :: u64
  mm_h2 :: u64
  mm_total :: u64
  mm_buf :: "u8 list"
  mm_buf_len :: nat

definition MM_C1 :: u64 where
  "MM_C1 = 0x87c37b91114253d5"

definition MM_C2 :: u64 where
  "MM_C2 = 0x4cf5ad432745937f"

definition DEFAULT_UPDATE_SEED :: u64 where
  "DEFAULT_UPDATE_SEED = 9001"

definition murmur_with_seed :: "u64 \<Rightarrow> murmur" where
  "murmur_with_seed seed =
     \<lparr>mm_h1 = seed, mm_h2 = seed, mm_total = 0, mm_buf = replicate 16 0, mm_buf_len = 0\<rparr>"

definition fmix64 :: "u64 \<Rightarrow> u64" where
  "fmix64 k =
     (let k = k XOR drop_bit 33 k;
          k = k * 0xff51afd7ed558ccd;
          k = k XOR drop_bit 33 k;
          k = k * 0xc4ceb9fe1a85ec53
      in k XOR drop_bit 33 k)"

definition finish128 :: "murmur \<Rightarrow> u64 \<times> u64" where
  "finish128 h =
     (let h1 = mm_h1 h;
          h2 = mm_h2 h;
          total = mm_total h + of_nat (mm_buf_len h);
          rem = mm_buf_len h;
          (h1, h2) =
            (if 0 < rem then
               let h2 =
                     (if 8 < rem then
                        let k2 = read_u64_le_hash (slice_of 8 rem (mm_buf h));
                            k2 = k2 * MM_C2;
                            k2 = word_rotl 33 k2;
                            k2 = k2 * MM_C1
                        in h2 XOR k2
                      else h2);
                   k1_len = min rem 8;
                   k1 = read_u64_le_hash (slice_of 0 k1_len (mm_buf h));
                   k1 = k1 * MM_C1;
                   k1 = word_rotl 31 k1;
                   k1 = k1 * MM_C2
               in (h1 XOR k1, h2)
             else (h1, h2));
          h1 = h1 XOR total;
          h2 = h2 XOR total;
          h1 = h1 + h2;
          h2 = h2 + h1;
          h1 = fmix64 h1;
          h2 = fmix64 h2;
          h1 = h1 + h2;
          h2 = h2 + h1
      in (h1, h2))"

definition murmur_update :: "u64 \<Rightarrow> u64 \<Rightarrow> murmur \<Rightarrow> murmur" where
  "murmur_update k1 k2 h =
     (let k1 = k1 * MM_C1;
          k1 = word_rotl 31 k1;
          k1 = k1 * MM_C2;
          h1 = mm_h1 h XOR k1;
          h1 = word_rotl 27 h1;
          h1 = h1 + mm_h2 h;
          h1 = h1 * 5 + 0x52dce729;
          k2 = k2 * MM_C2;
          k2 = word_rotl 33 k2;
          k2 = k2 * MM_C1;
          h2 = mm_h2 h XOR k2;
          h2 = word_rotl 31 h2;
          h2 = h2 + h1;
          h2 = h2 * 5 + 0x38495ab5
      in h\<lparr>mm_h1 := h1, mm_h2 := h2, mm_total := mm_total h + 16\<rparr>)"

definition murmur_finish :: "murmur \<Rightarrow> u64" where
  "murmur_finish h = fst (finish128 h)"

text \<open>The steps of \<open>write\<close>: completing the buffer, the whole blocks, the remaining bytes.\<close>

definition murmur_fill :: "murmur \<Rightarrow> u8 list \<Rightarrow> murmur \<times> u8 list" where
  "murmur_fill h bytes =
     (if mm_buf_len h \<noteq> 0 then
        let wanted = 16 - mm_buf_len h;
            buf = copy_into (mm_buf h) (mm_buf_len h) (slice_of 0 wanted bytes);
            k1 = read_u64_le_hash (slice_of 0 8 buf);
            k2 = read_u64_le_hash (slice_of 8 16 buf);
            h = murmur_update k1 k2 (h\<lparr>mm_buf := buf\<rparr>)
        in (h\<lparr>mm_buf_len := 0\<rparr>, drop wanted bytes)
      else (h, bytes))"

definition murmur_block :: "u8 list \<Rightarrow> murmur \<Rightarrow> nat \<Rightarrow> murmur" where
  "murmur_block bytes h i =
     (let lo = 16 * i;
          mi = lo + 8;
          hi = mi + 8;
          k1 = read_u64_le_hash (slice_of lo mi bytes);
          k2 = read_u64_le_hash (slice_of mi hi bytes)
      in murmur_update k1 k2 h)"

definition murmur_write :: "murmur \<Rightarrow> u8 list \<Rightarrow> murmur" where
  "murmur_write h bytes =
     (if mm_buf_len h + length bytes < 16 then
        h\<lparr>mm_buf := copy_into (mm_buf h) (mm_buf_len h) bytes,
          mm_buf_len := mm_buf_len h + length bytes\<rparr>
      else
        let (h, bytes) = murmur_fill h bytes;
            blocks = length bytes div 16;
            h = foldl (murmur_block bytes) h [0..<blocks];
            len = length bytes mod 16
        in if 0 < len then
             h\<lparr>mm_buf := copy_into (mm_buf h) 0 (drop (16 * blocks) bytes), mm_buf_len := len\<rparr>
           else h)"

text \<open>Hashing a value: all its writes into a fresh hasher, then \<open>finish128\<close>.\<close>

definition murmur_hash :: "u64 \<Rightarrow> u8 list list \<Rightarrow> u64 \<times> u64" where
  "murmur_hash seed chunks = finish128 (foldl murmur_write (murmur_with_seed seed) chunks)"

definition compute_seed_hash :: "u64 \<Rightarrow> u16 res" where
  "compute_seed_hash seed =
     (let hasher = murmur_with_seed 0;
          hasher = murmur_write hasher (to_le_bytes seed);
          (h1, _) = finish128 hasher;
          seed_hash = ucast (h1 AND 0xffff)
      in if seed_hash \<noteq> 0 then Inr seed_hash else Inl (Panic ''assert_ne seed_hash''))"

definition check_seed_hash :: "u16 \<Rightarrow> u16 \<Rightarrow> (string \<Rightarrow> error) \<Rightarrow> unit res" where
  "check_seed_hash expected actual kind =
     (if actual \<noteq> expected then Inl (kind ''incompatible seed hash'') else Inr ())"

lemma default_seed_hash: "compute_seed_hash DEFAULT_UPDATE_SEED = Inr 0x93cc"
  by code_simp

section \<open>Murmur is a streaming hasher\<close>

definition mm_core :: "murmur \<Rightarrow> u64 \<times> u64 \<times> u64" where
  "mm_core h = (mm_h1 h, mm_h2 h, mm_total h)"

definition mm_pending :: "murmur \<Rightarrow> u8 list" where
  "mm_pending h = take (mm_buf_len h) (mm_buf h)"

definition mm_ok :: "murmur \<Rightarrow> bool" where
  "mm_ok h \<longleftrightarrow> length (mm_buf h) = 16 \<and> mm_buf_len h < 16"

definition mm_absorb :: "u64 \<times> u64 \<times> u64 \<Rightarrow> u8 list \<Rightarrow> u64 \<times> u64 \<times> u64" where
  "mm_absorb c b = (case c of (h1, h2, n) \<Rightarrow>
     mm_core (murmur_update (read_u64_le_hash (slice_of 0 8 b)) (read_u64_le_hash (slice_of 8 16 b))
       \<lparr>mm_h1 = h1, mm_h2 = h2, mm_total = n, mm_buf = [], mm_buf_len = 0\<rparr>))"

lemma murmur_update_core:
  "mm_core (murmur_update (read_u64_le_hash (slice_of 0 8 b)) (read_u64_le_hash (slice_of 8 16 b)) h) =
     mm_absorb (mm_core h) b"
  by (simp add: mm_absorb_def mm_core_def murmur_update_def Let_def)

lemma murmur_update_frame [simp]:
  "mm_buf (murmur_update k1 k2 h) = mm_buf h"
  "mm_buf_len (murmur_update k1 k2 h) = mm_buf_len h"
  by (simp_all add: murmur_update_def Let_def)

lemma mm_core_frame [simp]:
  "mm_core (h\<lparr>mm_buf := b\<rparr>) = mm_core h"
  "mm_core (h\<lparr>mm_buf_len := n\<rparr>) = mm_core h"
  by (simp_all add: mm_core_def)

lemma slice_of_slice:
  "b \<le> d \<Longrightarrow> slice_of a b (slice_of c (c + d) xs) = slice_of (c + a) (c + b) xs"
  by (simp add: slice_of_def drop_take min_def add.commute)

lemma murmur_block_core:
  "mm_core (murmur_block bytes h i) = mm_absorb (mm_core h) (slice_of (16 * i) (16 * i + 16) bytes)"
  using slice_of_slice [of 8 16 0 "16 * i" bytes] slice_of_slice [of 16 16 8 "16 * i" bytes]
  by (simp add: murmur_block_def Let_def add.assoc flip: murmur_update_core)

lemma murmur_block_frame [simp]:
  "mm_buf (murmur_block bytes h i) = mm_buf h"
  "mm_buf_len (murmur_block bytes h i) = mm_buf_len h"
  by (simp_all add: murmur_block_def Let_def)

lemma murmur_blocks:
  "mm_core (foldl (murmur_block bytes) h is) =
     foldl (\<lambda>c i. mm_absorb c (slice_of (16 * i) (16 * i + 16) bytes)) (mm_core h) is"
  "mm_buf (foldl (murmur_block bytes) h is) = mm_buf h"
  "mm_buf_len (foldl (murmur_block bytes) h is) = mm_buf_len h"
  by (induction "is" arbitrary: h) (simp_all add: murmur_block_core)

lemma murmur_fill_absorbs:
  assumes "mm_ok h" and "16 \<le> mm_buf_len h + length bytes" and "murmur_fill h bytes = (g, rest)"
  shows "mm_ok g \<and> mm_buf_len g = 0 \<and>
     absorb_blocks 16 mm_absorb (mm_core h) (mm_pending h @ bytes) =
       absorb_blocks 16 mm_absorb (mm_core g) rest"
proof (cases "mm_buf_len h = 0")
  case True
  then show ?thesis using assms by (simp add: murmur_fill_def mm_pending_def)
next
  case False
  define wanted where "wanted = 16 - mm_buf_len h"
  define buf where "buf = copy_into (mm_buf h) (mm_buf_len h) (take wanted bytes)"
  have len: "mm_buf_len h + length (take wanted bytes) = length (mm_buf h)" and l: "length (mm_buf h) = 16"
    using assms(1,2) by (auto simp: wanted_def mm_ok_def)
  have buf: "buf = mm_pending h @ take wanted bytes" "length buf = 16"
    using len l by (simp_all add: buf_def mm_pending_def copy_into_full)
  have g: "mm_core g = mm_absorb (mm_core h) buf" "mm_buf g = buf" "mm_buf_len g = 0"
    and rest: "rest = drop wanted bytes"
    using assms(3) False
    using murmur_update_core [of buf "h\<lparr>mm_buf := buf\<rparr>"]
    by (auto simp: murmur_fill_def Let_def buf_def wanted_def)
  have "mm_pending h @ bytes = buf @ rest" by (simp add: buf(1) rest)
  moreover have "absorb_blocks 16 mm_absorb (mm_core h) (buf @ rest) =
      absorb_blocks 16 mm_absorb (mm_core g) rest"
    unfolding g(1) by (rule absorb_blocks_block) (use buf(2) in simp_all)
  ultimately show ?thesis using buf(2) g by (simp add: mm_ok_def)
qed

lemma murmur_write_absorbs:
  assumes "mm_ok h"
  shows "mm_ok (murmur_write h bytes) \<and>
     (mm_core (murmur_write h bytes), mm_pending (murmur_write h bytes)) =
       absorb_blocks 16 mm_absorb (mm_core h) (mm_pending h @ bytes)"
proof (cases "mm_buf_len h + length bytes < 16")
  case True
  then show ?thesis using assms
    by (simp add: murmur_write_def mm_ok_def mm_pending_def absorb_blocks_short)
next
  case False
  obtain g rest where fill: "murmur_fill h bytes = (g, rest)" by fastforce
  have g: "mm_ok g" "mm_buf_len g = 0"
    and eq: "absorb_blocks 16 mm_absorb (mm_core h) (mm_pending h @ bytes) =
       absorb_blocks 16 mm_absorb (mm_core g) rest"
    using murmur_fill_absorbs [OF assms _ fill] False by simp_all
  let ?m = "length rest div 16" and ?r = "length rest mod 16"
  let ?t = "drop (16 * ?m) rest"
  have r: "length ?t = ?r" by (simp add: minus_mult_div_eq_mod)
  show ?thesis
  proof (cases "?r = 0")
    case True
    then have "?t = []" using r by simp
    then show ?thesis using False g True unfolding eq
      by (simp add: murmur_write_def fill murmur_blocks mm_ok_def mm_pending_def
          absorb_blocks_all [of 16 ?m rest])
  next
    case nz: False
    then show ?thesis using False g r unfolding eq
      by (simp add: murmur_write_def fill murmur_blocks mm_ok_def mm_pending_def copy_into_def
          absorb_blocks_all [of 16 ?m rest] Let_def)
  qed
qed

lemma finish128_cong:
  assumes "mm_ok h" and "mm_ok h'" and "mm_core h = mm_core h'" and "mm_pending h = mm_pending h'"
  shows "finish128 h = finish128 h'"
proof -
  have n: "mm_buf_len h = mm_buf_len h'"
    using assms by (metis length_take less_imp_le_nat min_absorb2 mm_ok_def mm_pending_def
        order_less_imp_le)
  have slice: "slice_of a b (mm_buf g) = slice_of a b (mm_pending g)" if "b \<le> mm_buf_len g" for a b g
    using that by (simp add: slice_of_def mm_pending_def drop_take min_def)
  have same: "slice_of a b (mm_buf h) = slice_of a b (mm_buf h')" if "b \<le> mm_buf_len h'" for a b
    using slice [of b h a] slice [of b h' a] that n assms(4) by simp
  have "mm_h1 h = mm_h1 h'" "mm_h2 h = mm_h2 h'" "mm_total h = mm_total h'"
    using assms(3) by (simp_all add: mm_core_def)
  then show ?thesis
    by (simp only: finish128_def Let_def n same [OF order_refl] same [OF min.cobounded1])
qed

interpretation mm: streaming_hasher murmur_write mm_core mm_pending mm_ok 16 mm_absorb finish128
  by unfold_locales (simp, metis murmur_write_absorbs, metis murmur_write_absorbs, rule finish128_cong)

lemma mm_ok_with_seed [simp]: "mm_ok (murmur_with_seed seed)"
  by (simp add: mm_ok_def murmur_with_seed_def)

lemma mm_pending_with_seed [simp]: "mm_pending (murmur_with_seed seed) = []"
  by (simp add: mm_pending_def murmur_with_seed_def)

text \<open>
  C32. Splitting the input of the 128-bit hash into writes does not change it: whatever chunks a
  value's \<open>Hash\<close> implementation writes, the hash is that of a single write of their
  concatenation.
\<close>

theorem murmur_split_invariant:
  "murmur_hash seed chunks = finish128 (murmur_write (murmur_with_seed seed) (concat chunks))"
  unfolding murmur_hash_def by (rule mm.finish_writes) simp_all

text \<open>
  The published test vectors of MurmurHash3 x64 128 hold for the model: a tail longer than
  eight bytes, one of exactly eight bytes, and no tail.
\<close>

theorem murmur_test_vectors:
  "murmur_hash 0 [map (of_char :: char \<Rightarrow> u8) ''The quick brown fox jumps over the lazy dog''] =
     (0xe34bbc7bbc071b6c, 0x7a433ca9c49a9347) \<and>
   murmur_hash 0 [map (of_char :: char \<Rightarrow> u8) ''The quick brown fox jumps over the lazy1''] =
     (0xe3301a827e5cdfe3, 0xbdbf05f8da0f0392) \<and>
   murmur_hash 0 [map (of_char :: char \<Rightarrow> u8) ''The quick brown fox jumps over t''] =
     (0xdf6af91bb29bdacf, 0x91a341c58df1f3a6)"
  by code_simp

lemma compute_seed_hash_cases:
  "(\<exists>s. compute_seed_hash seed = Inr s \<and> s \<noteq> 0) \<or>
   compute_seed_hash seed = Inl (Panic ''assert_ne seed_hash'')"
  by (simp add: compute_seed_hash_def Let_def split: prod.split)

end
