(* ===== verification/HashTable.thy ===== *)
theory HashTable
  imports Complex_Main Probing Murmur
begin

text \<open>
  The hash table that the Theta and Tuple sketches and their set operations share:
  \<open>src/datasketches/src/thetafamily/common/hash_table.rs\<close>, with the constants of
  \<open>thetafamily/common/constants.rs\<close> and \<open>ResizeFactor\<close> of \<open>common/resize.rs\<close>.

  The trait \<open>SketchEntry\<close> is the argument \<open>h :: 'e \<Rightarrow> u64\<close>, the hash of an entry. The sizes
  (\<open>u8\<close> logarithms, \<open>usize\<close> counts) are \<open>nat\<close>; hashes and theta are 64-bit words. The
  sampling probability is a rational number, the exact value of the \<open>f32\<close>; its product with
  \<open>MAX_THETA as f64 = 2 ^ 63\<close> is exact in \<open>f64\<close>. The load factors \<open>0.5\<close> and \<open>15/16\<close> are
  fractions whose product with a table size is exact in \<open>f64\<close>.

  \<open>select_nth_unstable_by_key\<close> leaves the order within the two parts open; the model sorts. The
  debug-only assertion that an inserted entry has the hash it is inserted under is a hypothesis
  of the lemmas.
\<close>

section \<open>Constants\<close>

datatype resize_factor = X1 | X2 | X4 | X8

fun lg_value :: "resize_factor \<Rightarrow> nat" where
  "lg_value X1 = 0"
| "lg_value X2 = 1"
| "lg_value X4 = 2"
| "lg_value X8 = 3"

fun rf_value :: "resize_factor \<Rightarrow> nat" where
  "rf_value X1 = 1"
| "rf_value X2 = 2"
| "rf_value X4 = 4"
| "rf_value X8 = 8"

lemma rf_value_lg: "rf_value rf = 2 ^ lg_value rf"
  by (cases rf) simp_all

definition MAX_THETA :: u64 where "MAX_THETA = 0x7fffffffffffffff"

definition MIN_LG_K :: nat where "MIN_LG_K = 5"

definition MAX_LG_K :: nat where "MAX_LG_K = 26"

definition DEFAULT_LG_K :: nat where "DEFAULT_LG_K = 12"

definition HASH_TABLE_RESIZE_THRESHOLD :: "nat \<times> nat" where
  "HASH_TABLE_RESIZE_THRESHOLD = (1, 2)"

definition HASH_TABLE_REBUILD_THRESHOLD :: "nat \<times> nat" where
  "HASH_TABLE_REBUILD_THRESHOLD = (15, 16)"

text \<open>\<open>(fraction * n as f64) as usize\<close>\<close>

definition scale :: "nat \<times> nat \<Rightarrow> nat \<Rightarrow> nat" where
  "scale fraction n = fst fraction * n div snd fraction"

definition STRIDE_HASH_BITS :: nat where "STRIDE_HASH_BITS = 7"

definition STRIDE_MASK :: u64 where "STRIDE_MASK = 2 ^ STRIDE_HASH_BITS - 1"

section \<open>The table\<close>

record 'e compact_parts =
  cp_entries :: "'e list"
  cp_theta :: u64
  cp_seed_hash :: u16
  cp_ordered :: bool
  cp_empty :: bool

record 'e sketch_table =
  ht_lg_cur_size :: nat
  ht_lg_nom_size :: nat
  ht_lg_max_size :: nat
  ht_resize_factor :: resize_factor
  ht_sampling_probability :: rat
  ht_seed :: u64
  ht_is_empty :: bool
  ht_theta :: u64
  ht_entries :: "'e option list"
  ht_num_retained :: nat

definition starting_sub_multiple :: "nat \<Rightarrow> nat \<Rightarrow> nat \<Rightarrow> nat" where
  "starting_sub_multiple lg_target lg_min lg_resize_factor =
     (if lg_target \<le> lg_min then lg_min
      else if lg_resize_factor = 0 then lg_target
      else (lg_target - lg_min) mod lg_resize_factor + lg_min)"

definition starting_theta_from_sampling_probability :: "rat \<Rightarrow> u64" where
  "starting_theta_from_sampling_probability p =
     (if p < 1 then of_int \<lfloor>2 ^ 63 * p\<rfloor> else MAX_THETA)"

definition from_raw_parts ::
  "nat \<Rightarrow> nat \<Rightarrow> resize_factor \<Rightarrow> rat \<Rightarrow> u64 \<Rightarrow> u64 \<Rightarrow> bool \<Rightarrow> 'e sketch_table res" where
  "from_raw_parts lg_cur_size lg_nom_size rf p theta seed is_empty =
     (let lg_max_size = lg_nom_size + 1
      in if lg_cur_size \<le> lg_max_size then
           let size = (if 0 < lg_cur_size then 2 ^ lg_cur_size else 0)
           in Inr \<lparr>ht_lg_cur_size = lg_cur_size, ht_lg_nom_size = lg_nom_size,
                ht_lg_max_size = lg_max_size, ht_resize_factor = rf, ht_sampling_probability = p,
                ht_seed = seed, ht_is_empty = is_empty, ht_theta = theta,
                ht_entries = replicate size None, ht_num_retained = 0\<rparr>
         else Inl (Panic ''lg_cur_size must be <= lg_nom_size + 1''))"

definition table_new :: "nat \<Rightarrow> resize_factor \<Rightarrow> rat \<Rightarrow> u64 \<Rightarrow> 'e sketch_table res" where
  "table_new lg_nom_size rf p seed =
     (let lg_max_size = lg_nom_size + 1;
          lg_cur_size = starting_sub_multiple lg_max_size MIN_LG_K (lg_value rf)
      in from_raw_parts lg_cur_size lg_nom_size rf p
           (starting_theta_from_sampling_probability p) seed True)"

text \<open>Hashing a value, given as the byte chunks that its \<open>Hash\<close> implementation writes\<close>

definition table_hash :: "'e sketch_table \<Rightarrow> u8 list list \<Rightarrow> u64" where
  "table_hash t chunks = (let (h1, _) = murmur_hash (ht_seed t) chunks in drop_bit 1 h1)"

definition get_stride :: "u64 \<Rightarrow> nat \<Rightarrow> nat" where
  "get_stride key lg_size = unat (2 * (drop_bit lg_size key AND STRIDE_MASK) + 1)"

definition find_in_entries ::
  "('e \<Rightarrow> u64) \<Rightarrow> 'e option list \<Rightarrow> u64 \<Rightarrow> nat \<Rightarrow> probe_result" where
  "find_in_entries h entries key lg_size =
     (if entries = [] then Wrapped
      else
        let size = length entries;
            msk = size - 1;
            stride = get_stride key lg_size;
            index = unat key AND msk;
            loop_index = index
        in probe_loop size (\<lambda>slot. case slot of None \<Rightarrow> True | Some entry \<Rightarrow> h entry = key)
             entries msk stride loop_index index)"

definition find_in_curr_entries :: "('e \<Rightarrow> u64) \<Rightarrow> 'e sketch_table \<Rightarrow> u64 \<Rightarrow> probe_result" where
  "find_in_curr_entries h t key = find_in_entries h (ht_entries t) key (ht_lg_cur_size t)"

definition capacity_threshold :: "'e sketch_table \<Rightarrow> nat" where
  "capacity_threshold t =
     (let fraction = (if ht_lg_cur_size t \<le> ht_lg_nom_size t then HASH_TABLE_RESIZE_THRESHOLD
                      else HASH_TABLE_REBUILD_THRESHOLD)
      in scale fraction (length (ht_entries t)))"

text \<open>\<open>iter_entries\<close>, and \<open>into_iter().flatten()\<close>: the occupied slots in order\<close>

definition flatten :: "'e option list \<Rightarrow> 'e list" where
  "flatten xs = map the (filter (\<lambda>x. x \<noteq> None) xs)"

definition iter_entries :: "'e sketch_table \<Rightarrow> 'e list" where
  "iter_entries t = flatten (ht_entries t)"

definition select_nth_unstable_by_key ::
  "nat \<Rightarrow> ('e \<Rightarrow> u64) \<Rightarrow> 'e list \<Rightarrow> ('e list \<times> 'e \<times> 'e list) res" where
  "select_nth_unstable_by_key k key xs =
     (if k < length xs then
        let ys = sort_key key xs in Inr (take k ys, ys ! k, drop (Suc k) ys)
      else Inl (Panic ''select_nth_unstable index out of bounds''))"

definition resize :: "('e \<Rightarrow> u64) \<Rightarrow> 'e sketch_table \<Rightarrow> 'e sketch_table res" where
  "resize h t =
     (let new_lg_size = min (ht_lg_cur_size t + lg_value (ht_resize_factor t)) (ht_lg_max_size t);
          new_size = 2 ^ new_lg_size
      in bind_res (place_all (\<lambda>new_entries entry. find_in_entries h new_entries (h entry) new_lg_size)
           Some (replicate new_size None) (flatten (ht_entries t))) (\<lambda>new_entries.
         Inr (t\<lparr>ht_entries := new_entries, ht_lg_cur_size := new_lg_size\<rparr>)))"

definition rebuild :: "('e \<Rightarrow> u64) \<Rightarrow> 'e sketch_table \<Rightarrow> 'e sketch_table res" where
  "rebuild h t =
     (let k = 2 ^ ht_lg_nom_size t;
          retained = flatten (ht_entries t)
      in bind_res (select_nth_unstable_by_key k h retained) (\<lambda>(lesser, kth, greater).
         let t = t\<lparr>ht_theta := h kth\<rparr>;
             retained = take k (lesser @ kth # greater);
             size = 2 ^ ht_lg_cur_size t
         in bind_res (place_all
                (\<lambda>new_entries entry. find_in_entries h new_entries (h entry) (ht_lg_cur_size t))
                Some (replicate size None) retained) (\<lambda>new_entries.
            let num_inserted = length retained
            in if num_inserted = k then
                 Inr (t\<lparr>ht_num_retained := num_inserted, ht_entries := new_entries\<rparr>)
               else Inl (Panic ''Number of inserted entries should be equal to k''))))"

text \<open>
  The callback of \<open>upsert_entry\<close>: what it does to an existing entry, and the entry it returns
  for a new key.
\<close>

record 'e upsert =
  on_existing :: "'e \<Rightarrow> 'e"
  on_new :: "'e option"

definition upsert_entry ::
  "('e \<Rightarrow> u64) \<Rightarrow> 'e sketch_table \<Rightarrow> u64 \<Rightarrow> 'e upsert \<Rightarrow> ('e sketch_table \<times> bool) res" where
  "upsert_entry h t hash f =
     (let t = t\<lparr>ht_is_empty := False\<rparr>
      in if hash = 0 \<or> ht_theta t \<le> hash then Inr (t, False)
         else
           case find_in_curr_entries h t hash of
             Wrapped \<Rightarrow> Inl (Panic ''unreachable: Resize or rebuild should be called'')
           | Out_of_fuel \<Rightarrow> Inl (Panic ''search does not end'')
           | Slot index \<Rightarrow>
               (case ht_entries t ! index of
                  Some entry \<Rightarrow>
                    Inr (t\<lparr>ht_entries := (ht_entries t)[index := Some (on_existing f entry)]\<rparr>, False)
                | None \<Rightarrow>
                    (case on_new f of
                       None \<Rightarrow> Inr (t, False)
                     | Some entry \<Rightarrow>
                         let t = t\<lparr>ht_entries := (ht_entries t)[index := Some entry],
                                   ht_num_retained := ht_num_retained t + 1\<rparr>
                         in if capacity_threshold t < ht_num_retained t then
                              bind_res (if ht_lg_cur_size t \<le> ht_lg_nom_size t then resize h t
                                        else rebuild h t) (\<lambda>t. Inr (t, True))
                            else Inr (t, True))))"

definition table_entry :: "('e \<Rightarrow> u64) \<Rightarrow> 'e sketch_table \<Rightarrow> u64 \<Rightarrow> 'e option res" where
  "table_entry h t hash =
     (if hash = 0 then Inr None
      else
        case find_in_curr_entries h t hash of
          Wrapped \<Rightarrow> Inr None
        | Out_of_fuel \<Rightarrow> Inl (Panic ''search does not end'')
        | Slot index \<Rightarrow>
            (case ht_entries t ! index of
               Some entry \<Rightarrow> Inr (if h entry = hash then Some entry else None)
             | None \<Rightarrow> Inr None))"

definition table_trim :: "('e \<Rightarrow> u64) \<Rightarrow> 'e sketch_table \<Rightarrow> 'e sketch_table res" where
  "table_trim h t = (if 2 ^ ht_lg_nom_size t < ht_num_retained t then rebuild h t else Inr t)"

definition table_reset :: "'e sketch_table \<Rightarrow> 'e sketch_table" where
  "table_reset t =
     (let init_theta = starting_theta_from_sampling_probability (ht_sampling_probability t);
          init_lg_cur = starting_sub_multiple (ht_lg_nom_size t + 1) MIN_LG_K
            (lg_value (ht_resize_factor t));
          size = 2 ^ init_lg_cur
      in t\<lparr>ht_entries := replicate size None, ht_num_retained := 0, ht_theta := init_theta,
           ht_is_empty := True, ht_lg_cur_size := init_lg_cur\<rparr>)"

definition table_to_compact_parts ::
  "('e \<Rightarrow> u64) \<Rightarrow> 'e sketch_table \<Rightarrow> bool \<Rightarrow> 'e compact_parts res" where
  "table_to_compact_parts h t ordered =
     (let entries = iter_entries t;
          empty = ht_is_empty t;
          theta = (if empty then MAX_THETA else ht_theta t);
          is_single = (length entries = 1 \<and> theta = MAX_THETA);
          ordered = (ordered \<or> empty \<or> is_single);
          entries = (if ordered \<and> 1 < length entries then sort_key h entries else entries)
      in bind_res (compute_seed_hash (ht_seed t)) (\<lambda>seed_hash.
         Inr \<lparr>cp_entries = entries, cp_theta = theta, cp_seed_hash = seed_hash, cp_ordered = ordered,
           cp_empty = empty\<rparr>))"

definition set_empty :: "'e sketch_table \<Rightarrow> bool \<Rightarrow> 'e sketch_table" where
  "set_empty t b = t\<lparr>ht_is_empty := b\<rparr>"

definition set_theta :: "'e sketch_table \<Rightarrow> u64 \<Rightarrow> 'e sketch_table res" where
  "set_theta t theta =
     (if 1 \<le> theta \<and> theta \<le> MAX_THETA then Inr (t\<lparr>ht_theta := theta\<rparr>)
      else Inl (Panic ''theta must be in [1, MAX_THETA]''))"

text \<open>\<open>n.ilog2()\<close>, by halving\<close>

fun ilog2 :: "nat \<Rightarrow> nat" where
  "ilog2 n = (if n < 2 then 0 else Suc (ilog2 (n div 2)))"

declare ilog2.simps [simp del]

definition lg_size_from_count_for_rebuild :: "nat \<Rightarrow> nat \<times> nat \<Rightarrow> nat" where
  "lg_size_from_count_for_rebuild count load_factor =
     (let log2_n = ilog2 count
      in log2_n + (if scale load_factor (2 ^ (log2_n + 1)) < count then 2 else 1))"

section \<open>The search keeps the open-addressing contract\<close>

definition table_start :: "nat \<Rightarrow> u64 \<Rightarrow> nat" where
  "table_start lg key = unat key AND (2 ^ lg - 1)"

definition table_stride :: "nat \<Rightarrow> u64 \<Rightarrow> nat" where
  "table_stride lg key = get_stride key lg"

definition table_lookup :: "('e \<Rightarrow> u64) \<Rightarrow> nat \<Rightarrow> 'e option list \<Rightarrow> u64 \<Rightarrow> probe_result" where
  "table_lookup h lg entries key = find_in_entries h entries key lg"

lemma get_stride_nat: "get_stride key lg = 2 * unat (drop_bit lg key AND STRIDE_MASK) + 1"
proof -
  let ?s = "drop_bit lg key AND STRIDE_MASK"
  have "?s = take_bit 7 (drop_bit lg key)"
    by (simp add: STRIDE_MASK_def STRIDE_HASH_BITS_def take_bit_eq_mask mask_eq_exp_minus_1)
  then have "unat ?s < 2 ^ 7" 
    using take_bit_nat_less_exp [of 7 "unat (drop_bit lg key)"] by (simp add: unsigned_take_bit_eq)
  then have "unat (2 * ?s + 1) = 2 * unat ?s + 1"
    by (simp add: unat_word_ariths)
  then show ?thesis by (simp add: get_stride_def)
qed

lemma table_probes:
  assumes "length entries = 2 ^ lg"
  shows "table_lookup h lg entries key = probe_loop (2 ^ lg)
     (\<lambda>s. map_option h s = None \<or> map_option h s = Some key) entries (2 ^ lg - 1)
     (table_stride lg key) (table_start lg key) (table_start lg key)"
proof -
  have "entries \<noteq> []" using assms by auto
  moreover have "(\<lambda>slot. case slot of None \<Rightarrow> True | Some entry \<Rightarrow> h entry = key) =
      (\<lambda>s. map_option h s = None \<or> map_option h s = Some key)"
    by (auto simp: fun_eq_iff split: option.split)
  ultimately show ?thesis
    by (simp only: table_lookup_def find_in_entries_def assms table_stride_def table_start_def Let_def
        if_False)
qed

interpretation tab: open_addressing "map_option h" table_start table_stride "table_lookup h"
  for h :: "'e \<Rightarrow> u64"
proof
  show "table_start lg k < 2 ^ lg" for lg k
    unfolding table_start_def by (rule and_mask_nat_lt)
  show "odd (table_stride lg k)" for lg k
    by (simp add: table_stride_def get_stride_nat)
qed (rule table_probes)

section \<open>Invariant\<close>

text \<open>The entries of a table, and the hashes that it retains\<close>

definition entry_set :: "'e sketch_table \<Rightarrow> 'e set" where
  "entry_set t = set (iter_entries t)"

definition retained_hashes :: "('e \<Rightarrow> u64) \<Rightarrow> 'e sketch_table \<Rightarrow> u64 set" where
  "retained_hashes h t = h ` entry_set t"

text \<open>
  The shape of the table: an open-addressing table of \<open>2 ^ lg_cur_size\<close> slots that counts its
  entries, with hashes between 0 and theta, that can still grow or has its full size.
\<close>

definition table_shape :: "('e \<Rightarrow> u64) \<Rightarrow> 'e sketch_table \<Rightarrow> bool" where
  "table_shape h t \<longleftrightarrow>
     ht_lg_max_size t = Suc (ht_lg_nom_size t) \<and> 0 < ht_lg_cur_size t \<and>
     ht_lg_cur_size t \<le> ht_lg_max_size t \<and>
     (ht_lg_cur_size t = ht_lg_max_size t \<or> 0 < lg_value (ht_resize_factor t)) \<and>
     tab.wf h (ht_lg_cur_size t) (ht_entries t) \<and>
     ht_num_retained t = tab.occupied h (ht_entries t) \<and>
     (\<forall>e \<in> entry_set t. 0 < h e \<and> h e < ht_theta t)"

definition table_ok :: "('e \<Rightarrow> u64) \<Rightarrow> 'e sketch_table \<Rightarrow> bool" where
  "table_ok h t \<longleftrightarrow> table_shape h t \<and> ht_num_retained t \<le> capacity_threshold t"

lemma set_flatten: "set (flatten xs) = {e. Some e \<in> set xs}"
  by (auto simp: flatten_def image_iff) force

lemma entry_set_stored: "e \<in> entry_set t \<longleftrightarrow> Some e \<in> tab.stored h (ht_entries t)"
  by (auto simp: entry_set_def iter_entries_def set_flatten tab.stored_def)

lemma stored_flatten: "tab.stored h xs = Some ` set (flatten xs)"
  by (auto simp: set_flatten tab.stored_def image_iff)

lemma keys_flatten: "tab.keys h xs = h ` set (flatten xs)"
  by (auto simp: tab.keys_stored stored_flatten)

lemma keys_retained: "tab.keys h (ht_entries t) = retained_hashes h t"
  by (simp add: keys_flatten retained_hashes_def entry_set_def iter_entries_def)

lemma length_flatten: "length (flatten xs) = tab.occupied h xs"
  by (simp add: flatten_def tab.occupied_def)

lemma distinct_flatten:
  assumes "tab.wf h lg xs"
  shows "distinct (map h (flatten xs))"
proof -
  note d = tab.distinct_occupied [OF assms]
  have "inj_on h (set (flatten xs))"
    using d(2) by (auto simp: inj_on_def stored_flatten)
  moreover have "distinct (flatten xs)"
    using d(1) by (auto simp: flatten_def distinct_map inj_on_def)
  ultimately show ?thesis by (simp add: distinct_map)
qed

lemma capacity_threshold_cases:
  "capacity_threshold t =
     (if ht_lg_cur_size t \<le> ht_lg_nom_size t then length (ht_entries t) div 2
      else 15 * length (ht_entries t) div 16)"
  by (simp add: capacity_threshold_def scale_def HASH_TABLE_RESIZE_THRESHOLD_def
      HASH_TABLE_REBUILD_THRESHOLD_def)

lemma capacity_threshold_lt:
  assumes "length (ht_entries t) = 2 ^ lg"
  shows "capacity_threshold t < length (ht_entries t)"
  using assms by (simp add: capacity_threshold_cases div_less_iff_less_mult)

text \<open>A table within its threshold has a free slot, so a search ends at a slot.\<close>

lemma table_find:
  assumes "table_ok h t"
  obtains i where "find_in_curr_entries h t key = Slot i" and "i < length (ht_entries t)"
    and "key \<in> retained_hashes h t \<longrightarrow> (\<exists>e. ht_entries t ! i = Some e \<and> h e = key)"
    and "key \<notin> retained_hashes h t \<longrightarrow> ht_entries t ! i = None"
proof -
  have wf: "tab.wf h (ht_lg_cur_size t) (ht_entries t)"
    and occ: "tab.occupied h (ht_entries t) \<le> capacity_threshold t"
    using assms by (auto simp: table_ok_def table_shape_def)
  have len: "length (ht_entries t) = 2 ^ ht_lg_cur_size t" by (rule tab.wf_length [OF wf])
  have "tab.occupied h (ht_entries t) < length (ht_entries t)"
    using occ capacity_threshold_lt [OF len] by simp
  then have free: "\<exists>s \<in> set (ht_entries t). map_option h s = None"
    by (simp only: tab.free_slot_iff)
  obtain p where p: "table_lookup h (ht_lg_cur_size t) (ht_entries t) key = Slot p"
    using tab.lookup_succeeds [OF wf] free by blast
  show ?thesis
  proof (rule that [of p])
    show "find_in_curr_entries h t key = Slot p"
      using p by (simp add: find_in_curr_entries_def table_lookup_def)
  qed (use tab.lookup_Slot [OF wf p] in \<open>auto simp: keys_retained len\<close>)
qed

section \<open>Growing\<close>

lemma place_all_table:
  assumes "distinct (map h xs)" and "length xs \<le> 2 ^ lg"
  obtains slots where
    "place_all (\<lambda>slots e. find_in_entries h slots (h e) lg) Some (replicate (2 ^ lg) None) xs = Inr slots"
    and "tab.wf h lg slots" and "set (flatten slots) = set xs" and "tab.occupied h slots = length xs"
proof -
  have none: "map_option h None = None" by simp
  obtain slots where slots:
    "place_all (\<lambda>slots e. find_in_entries h slots (h e) lg) Some (replicate (2 ^ lg) None) xs = Inr slots"
    "tab.wf h lg slots" "tab.stored h slots = Some ` set xs" "tab.occupied h slots = length xs"
    using tab.place_all_ok [of h lg "replicate (2 ^ lg) None" xs h
        "\<lambda>slots e. find_in_entries h slots (h e) lg" Some] assms
    by (auto simp: tab.wf_empty table_lookup_def)
  have "set (flatten slots) = set xs"
    using slots(3) by (simp add: stored_flatten inj_image_eq_iff)
  then show ?thesis using slots that by blast
qed

lemma grown_room:
  "n \<le> m div 2 + 1 \<Longrightarrow> 2 * m \<le> l \<Longrightarrow> 2 \<le> m \<Longrightarrow> n \<le> l div 2 \<and> n \<le> 15 * l div 16" for n m l :: nat
proof -
  assume n: "n \<le> m div 2 + 1" and l: "2 * m \<le> l" and m: "2 \<le> m"
  have "n \<le> m" using n m by linarith
  moreover have "m \<le> l div 2" using l by linarith
  moreover have "16 * m div 16 \<le> 15 * l div 16" using l by (intro div_le_mono) simp
  ultimately show ?thesis by simp
qed

lemma resize_ok:
  assumes shape: "table_shape h t" and small: "ht_lg_cur_size t \<le> ht_lg_nom_size t"
    and num: "ht_num_retained t \<le> capacity_threshold t + 1"
  obtains t' where "resize h t = Inr t'" and "table_ok h t'" and "entry_set t' = entry_set t"
    and "ht_theta t' = ht_theta t" and "ht_is_empty t' = ht_is_empty t"
    and "ht_lg_nom_size t' = ht_lg_nom_size t" and "ht_seed t' = ht_seed t"
proof -
  let ?lg = "min (ht_lg_cur_size t + lg_value (ht_resize_factor t)) (ht_lg_max_size t)"
  have S: "ht_lg_max_size t = Suc (ht_lg_nom_size t)" "0 < ht_lg_cur_size t"
    "tab.wf h (ht_lg_cur_size t) (ht_entries t)" "ht_num_retained t = tab.occupied h (ht_entries t)"
    "0 < lg_value (ht_resize_factor t)"
    using shape small by (auto simp: table_shape_def)
  have len: "length (ht_entries t) = 2 ^ ht_lg_cur_size t" by (rule tab.wf_length [OF S(3)])
  have grow: "Suc (ht_lg_cur_size t) \<le> ?lg" using S small by simp
  then have "(2 :: nat) ^ Suc (ht_lg_cur_size t) \<le> 2 ^ ?lg"
    by (intro power_increasing) simp_all
  moreover have two: "(2 :: nat) \<le> 2 ^ ht_lg_cur_size t"
    using power_increasing [of 1 "ht_lg_cur_size t" "2 :: nat"] S(2) by simp
  ultimately have room: "2 * 2 ^ ht_lg_cur_size t \<le> (2 :: nat) ^ ?lg" by simp
  have num': "ht_num_retained t \<le> 2 ^ ht_lg_cur_size t div 2 + 1"
    using num small len by (simp add: capacity_threshold_cases)
  obtain slots where slots:
    "place_all (\<lambda>slots e. find_in_entries h slots (h e) ?lg) Some (replicate (2 ^ ?lg) None)
       (flatten (ht_entries t)) = Inr slots"
    "tab.wf h ?lg slots" "set (flatten slots) = set (flatten (ht_entries t))"
    "tab.occupied h slots = length (flatten (ht_entries t))"
  proof (rule place_all_table)
    show "distinct (map h (flatten (ht_entries t)))" by (rule distinct_flatten [OF S(3)])
    show "length (flatten (ht_entries t)) \<le> 2 ^ ?lg"
      using num' room two S(4) by (simp add: length_flatten [of _ h])
  qed
  let ?t = "t\<lparr>ht_entries := slots, ht_lg_cur_size := ?lg\<rparr>"
  have es: "entry_set ?t = entry_set t" using slots(3) by (simp add: entry_set_def iter_entries_def)
  have "ht_num_retained t \<le> capacity_threshold ?t"
    using grown_room [OF num' room two] tab.wf_length [OF slots(2)]
    by (simp add: capacity_threshold_cases)
  then have "table_ok h ?t"
    using shape slots(2,4) S es grow
    by (simp add: table_ok_def table_shape_def length_flatten [of _ h])
  then show ?thesis
    using that [of ?t] slots(1) es by (simp add: resize_def Let_def)
qed

section \<open>Rebuilding\<close>

text \<open>The \<open>k\<close> smallest of a list with distinct keys are those below the next one.\<close>

lemma sorted_distinct_take:
  fixes ys :: "'k::linorder list"
  assumes "sorted ys" and "distinct ys" and "k < length ys"
  shows "set (take k ys) = {y \<in> set ys. y < ys ! k}"
proof -
  have lt: "ys ! i < ys ! j" if "i < j" "j < length ys" for i j
    using assms(1,2) that by (metis distinct_conv_nth le_neq_trans less_imp_le nat_neq_iff
        order_less_trans sorted_nth_mono)
  show ?thesis
  proof (intro set_eqI iffI)
    fix y assume "y \<in> set (take k ys)"
    then obtain i where "i < k" "y = ys ! i" using assms(3) by (auto simp: in_set_conv_nth)
    then show "y \<in> {y \<in> set ys. y < ys ! k}" using lt [of i k] assms(3) by auto
  next
    fix y assume "y \<in> {y \<in> set ys. y < ys ! k}"
    then obtain i where i: "i < length ys" "y = ys ! i" "ys ! i < ys ! k"
      by (auto simp: in_set_conv_nth)
    then have "i < k" using lt [of k i] by (metis less_asym linorder_cases less_irrefl)
    then show "y \<in> set (take k ys)" using i assms(3) by (auto simp: in_set_conv_nth)
  qed
qed

lemma sort_key_take:
  assumes "distinct (map f xs)" and "k < length xs"
  shows "set (take k (sort_key f xs)) = {x \<in> set xs. f x < f (sort_key f xs ! k)}"
proof -
  let ?ys = "sort_key f xs"
  have inj: "inj_on f (set ?ys)" using assms(1) by (simp add: distinct_map)
  have "distinct (map f ?ys)" using assms(1) by (simp add: distinct_map)
  then have "set (take k (map f ?ys)) = {y \<in> set (map f ?ys). y < map f ?ys ! k}"
    using assms(2) by (intro sorted_distinct_take) simp_all
  then have img: "f ` set (take k ?ys) = {y \<in> f ` set ?ys. y < f (?ys ! k)}"
    using assms(2) by (simp add: take_map)
  have sub: "set (take k ?ys) \<subseteq> set ?ys" by (rule set_take_subset)
  show ?thesis
  proof (intro set_eqI iffI)
    fix x assume "x \<in> set (take k ?ys)"
    then show "x \<in> {x \<in> set xs. f x < f (?ys ! k)}" using img sub by auto
  next
    fix x assume x: "x \<in> {x \<in> set xs. f x < f (?ys ! k)}"
    then have "f x \<in> f ` set (take k ?ys)" using img by auto
    then obtain z where z: "z \<in> set (take k ?ys)" "f x = f z" by auto
    then have "x = z" using x sub by (intro inj_onD [OF inj z(2)]) auto
    then show "x \<in> set (take k ?ys)" using z by simp
  qed
qed

lemma select_nth_ok:
  assumes "distinct (map h xs)" and "k < length xs"
  obtains lesser kth greater where
    "select_nth_unstable_by_key k h xs = Inr (lesser, kth, greater)"
    and "length lesser = k" and "distinct (map h lesser)" and "kth \<in> set xs"
    and "set lesser = {x \<in> set xs. h x < h kth}"
proof (rule that [of "take k (sort_key h xs)" "sort_key h xs ! k" "drop (Suc k) (sort_key h xs)"])
  show "select_nth_unstable_by_key k h xs =
      Inr (take k (sort_key h xs), sort_key h xs ! k, drop (Suc k) (sort_key h xs))"
    using assms(2) by (simp add: select_nth_unstable_by_key_def Let_def)
  have "distinct (map h (sort_key h xs))" using assms(1) by (simp add: distinct_map)
  then show "distinct (map h (take k (sort_key h xs)))" by (simp flip: take_map)
  show "sort_key h xs ! k \<in> set xs"
    using nth_mem [of k "sort_key h xs"] assms(2) by simp
  show "set (take k (sort_key h xs)) = {x \<in> set xs. h x < h (sort_key h xs ! k)}"
    by (rule sort_key_take [OF assms])
qed (use assms(2) in simp)

lemma rebuild_ok:
  assumes shape: "table_shape h t" and full: "ht_lg_cur_size t = ht_lg_max_size t"
    and num: "2 ^ ht_lg_nom_size t < ht_num_retained t"
  obtains t' where "rebuild h t = Inr t'" and "table_ok h t'"
    and "entry_set t' = {e \<in> entry_set t. h e < ht_theta t'}" and "ht_theta t' \<in> retained_hashes h t"
    and "ht_num_retained t' = 2 ^ ht_lg_nom_size t" and "ht_is_empty t' = ht_is_empty t"
    and "ht_lg_nom_size t' = ht_lg_nom_size t" and "ht_seed t' = ht_seed t"
proof -
  let ?k = "2 ^ ht_lg_nom_size t :: nat" and ?xs = "flatten (ht_entries t)"
  have S: "ht_lg_max_size t = Suc (ht_lg_nom_size t)"
    "tab.wf h (ht_lg_cur_size t) (ht_entries t)" "ht_num_retained t = tab.occupied h (ht_entries t)"
    using shape by (auto simp: table_shape_def)
  have "?k < length ?xs" using num S(3) by (simp add: length_flatten [of _ h])
  then obtain lesser kth greater where sel:
    "select_nth_unstable_by_key ?k h ?xs = Inr (lesser, kth, greater)" "length lesser = ?k"
    "distinct (map h lesser)" "kth \<in> set ?xs" "set lesser = {x \<in> set ?xs. h x < h kth}"
    using select_nth_ok [OF distinct_flatten [OF S(2)]] by blast
  obtain slots where slots:
    "place_all (\<lambda>slots e. find_in_entries h slots (h e) (ht_lg_cur_size t)) Some
       (replicate (2 ^ ht_lg_cur_size t) None) lesser = Inr slots"
    "tab.wf h (ht_lg_cur_size t) slots" "set (flatten slots) = set lesser"
    "tab.occupied h slots = length lesser"
    by (rule place_all_table [OF sel(3), of "ht_lg_cur_size t"]) (use sel(2) S(1) full in simp)
  let ?t = "t\<lparr>ht_theta := h kth, ht_num_retained := ?k, ht_entries := slots\<rparr>"
  have es: "entry_set ?t = {e \<in> entry_set t. h e < h kth}"
    using slots(3) sel(5) by (simp add: entry_set_def iter_entries_def)
  have "length slots = 2 * ?k"
    using tab.wf_length [OF slots(2)] S(1) full by simp
  then have "?k \<le> capacity_threshold ?t"
    using S(1) full by (simp add: capacity_threshold_cases)
  then have "table_ok h ?t"
    using shape slots(2,4) sel(2) es by (auto simp: table_ok_def table_shape_def)
  moreover have "rebuild h t = Inr ?t"
    using sel(1,2) slots(1) by (simp add: rebuild_def Let_def)
  moreover have "h kth \<in> retained_hashes h t"
    using sel(4) by (simp add: retained_hashes_def entry_set_def iter_entries_def)
  ultimately show ?thesis using that [of ?t] es by simp
qed

section \<open>Upserting\<close>

text \<open>What an upsert does to the set of entries, before any entry falls to theta\<close>

definition upserted :: "('e \<Rightarrow> u64) \<Rightarrow> 'e set \<Rightarrow> u64 \<Rightarrow> 'e upsert \<Rightarrow> 'e set" where
  "upserted h S hash f =
     (if hash \<in> h ` S then (\<lambda>e. if h e = hash then on_existing f e else e) ` S
      else S \<union> set_option (on_new f))"

text \<open>A callback for a hash keeps the hash of the entry, and creates an entry with that hash.\<close>

definition upsert_for :: "('e \<Rightarrow> u64) \<Rightarrow> u64 \<Rightarrow> 'e upsert \<Rightarrow> bool" where
  "upsert_for h hash f \<longleftrightarrow>
     (\<forall>e. h e = hash \<longrightarrow> h (on_existing f e) = hash) \<and> (\<forall>e \<in> set_option (on_new f). h e = hash)"

lemma hashes_upserted:
  assumes "upsert_for h hash f"
  shows "h ` upserted h S hash f = (if on_new f = None then h ` S else insert hash (h ` S))"
proof (cases "hash \<in> h ` S")
  case True
  have "h ` upserted h S hash f = (\<lambda>e. h (if h e = hash then on_existing f e else e)) ` S"
    using True by (simp only: upserted_def if_True image_image)
  also have "\<dots> = h ` S"
    by (rule image_cong [OF refl]) (use assms in \<open>simp add: upsert_for_def\<close>)
  finally show ?thesis using True by (simp add: insert_absorb)
next
  case False
  then show ?thesis using assms
    by (cases "on_new f") (auto simp: upserted_def upsert_for_def)
qed

lemma entry_set_unique:
  assumes "table_shape h t" and "e \<in> entry_set t" and "e' \<in> entry_set t" and "h e = h e'"
  shows "e = e'"
proof -
  have "inj_on (map_option h) (tab.stored h (ht_entries t))"
    using assms(1) tab.distinct_occupied(2) [of h "ht_lg_cur_size t"] by (simp add: table_shape_def)
  then have "Some e = Some e'"
    by (rule inj_onD) (use assms in \<open>simp_all add: entry_set_stored [of _ _ h]\<close>)
  then show ?thesis by simp
qed

lemma entry_set_update:
  assumes shape: "table_shape h t" and find: "find_in_curr_entries h t (h e) = Slot i"
  shows "tab.wf h (ht_lg_cur_size t) ((ht_entries t)[i := Some e])"
    and "set (flatten ((ht_entries t)[i := Some e])) = insert e {e' \<in> entry_set t. h e' \<noteq> h e}"
    and "tab.occupied h ((ht_entries t)[i := Some e]) =
      (if h e \<in> retained_hashes h t then ht_num_retained t else Suc (ht_num_retained t))"
proof -
  have wf: "tab.wf h (ht_lg_cur_size t) (ht_entries t)"
    and n: "ht_num_retained t = tab.occupied h (ht_entries t)"
    using shape by (auto simp: table_shape_def)
  have f: "table_lookup h (ht_lg_cur_size t) (ht_entries t) (h e) = Slot i"
    using find by (simp add: find_in_curr_entries_def table_lookup_def)
  have e: "map_option h (Some e) = Some (h e)" by simp
  show "tab.wf h (ht_lg_cur_size t) ((ht_entries t)[i := Some e])"
    by (rule tab.wf_insert [OF wf f e])
  have "Some ` set (flatten ((ht_entries t)[i := Some e])) =
      Some ` insert e {e' \<in> entry_set t. h e' \<noteq> h e}"
    using tab.stored_insert [OF wf f e]
    by (auto simp: stored_flatten entry_set_def iter_entries_def)
  then show "set (flatten ((ht_entries t)[i := Some e])) = insert e {e' \<in> entry_set t. h e' \<noteq> h e}"
    by (simp only: inj_image_eq_iff inj_Some)
  show "tab.occupied h ((ht_entries t)[i := Some e]) =
      (if h e \<in> retained_hashes h t then ht_num_retained t else Suc (ht_num_retained t))"
    using tab.occupied_insert [OF wf f e] n by (simp add: keys_retained)
qed

lemma table_ok_set_empty [simp]:
  "table_ok h (t\<lparr>ht_is_empty := b\<rparr>) = table_ok h t"
  "table_shape h (t\<lparr>ht_is_empty := b\<rparr>) = table_shape h t"
  "entry_set (t\<lparr>ht_is_empty := b\<rparr>) = entry_set t"
  "retained_hashes h (t\<lparr>ht_is_empty := b\<rparr>) = retained_hashes h t"
  "find_in_curr_entries h (t\<lparr>ht_is_empty := b\<rparr>) key = find_in_curr_entries h t key"
  "capacity_threshold (t\<lparr>ht_is_empty := b\<rparr>) = capacity_threshold t"
  by (simp_all add: table_ok_def table_shape_def entry_set_def iter_entries_def
      retained_hashes_def find_in_curr_entries_def capacity_threshold_cases)

text \<open>The specification of an upsert that is not screened out by theta\<close>

definition upsert_result ::
  "('e \<Rightarrow> u64) \<Rightarrow> 'e sketch_table \<Rightarrow> u64 \<Rightarrow> 'e upsert \<Rightarrow> 'e sketch_table \<Rightarrow> bool" where
  "upsert_result h t hash f t' \<longleftrightarrow>
     table_ok h t' \<and>
     entry_set t' = {e \<in> upserted h (entry_set t) hash f. h e < ht_theta t'} \<and>
     (ht_theta t' = ht_theta t \<or>
      ht_theta t' \<in> h ` upserted h (entry_set t) hash f \<and> ht_num_retained t' = 2 ^ ht_lg_nom_size t) \<and>
     \<not> ht_is_empty t' \<and> ht_lg_nom_size t' = ht_lg_nom_size t \<and> ht_seed t' = ht_seed t"

lemma upsert_existing:
  assumes ok: "table_ok h t" and f: "upsert_for h hash f" and hash: "hash \<noteq> 0" "hash < ht_theta t"
    and there: "hash \<in> retained_hashes h t"
  shows "\<exists>t'. upsert_entry h t hash f = Inr (t', False) \<and> upsert_result h t hash f t'"
proof -
  have shape: "table_shape h t" using ok by (simp add: table_ok_def)
  obtain i e where i: "find_in_curr_entries h t hash = Slot i" "i < length (ht_entries t)"
      "ht_entries t ! i = Some e" "h e = hash"
    using table_find [OF ok] there by metis
  let ?e = "on_existing f e"
  have he: "h ?e = hash" using f i(4) by (simp add: upsert_for_def)
  have e_in: "e \<in> entry_set t" using i(2,3) by (auto simp: entry_set_def iter_entries_def set_flatten
      in_set_conv_nth)
  have find: "find_in_curr_entries h t (h ?e) = Slot i" by (simp add: he i(1))
  note U = entry_set_update [OF shape find]
  let ?t = "t\<lparr>ht_is_empty := False, ht_entries := (ht_entries t)[i := Some ?e]\<rparr>"
  have ups: "upserted h (entry_set t) hash f = insert ?e {e' \<in> entry_set t. h e' \<noteq> hash}"
  proof -
    have "x = e" if "x \<in> entry_set t" "h x = hash" for x
      using entry_set_unique [OF shape that(1) e_in] that(2) i(4) by simp
    then have one: "entry_set t \<inter> {x. h x = hash} = {e}"
      using e_in i(4) by blast
    have "upserted h (entry_set t) hash f =
        on_existing f ` (entry_set t \<inter> {x. h x = hash}) \<union> entry_set t \<inter> {x. h x \<noteq> hash}"
      using there by (simp add: upserted_def retained_hashes_def)
    then show ?thesis unfolding one by auto
  qed
  have es: "entry_set ?t = upserted h (entry_set t) hash f"
    using U(2) unfolding ups by (simp add: he entry_set_def iter_entries_def)
  have lt: "0 < h e' \<and> h e' < ht_theta t" if "e' \<in> entry_set ?t" for e'
    using that shape hash he unfolding es ups by (auto simp: table_shape_def word_neq_0_conv)
  have "table_ok h ?t"
    using ok U(1,3) he there lt unfolding table_ok_def table_shape_def capacity_threshold_cases
    by auto
  then have "upsert_result h t hash f ?t"
    using es lt by (auto simp: upsert_result_def)
  then show ?thesis
    using hash(1) hash(2) [folded not_le] i by (auto simp: upsert_entry_def Let_def)
qed

lemma upsert_declined:
  assumes ok: "table_ok h t" and hash: "hash \<noteq> 0" "hash < ht_theta t"
    and new: "hash \<notin> retained_hashes h t" and none: "on_new f = None"
  shows "\<exists>t'. upsert_entry h t hash f = Inr (t', False) \<and> upsert_result h t hash f t'"
proof -
  obtain i where i: "find_in_curr_entries h t hash = Slot i" "ht_entries t ! i = None"
    using table_find [OF ok] new by metis
  let ?t = "t\<lparr>ht_is_empty := False\<rparr>"
  have "upserted h (entry_set t) hash f = entry_set t"
    using new none by (simp add: upserted_def retained_hashes_def)
  moreover have "{e \<in> entry_set t. h e < ht_theta t} = entry_set t"
    using ok by (auto simp: table_ok_def table_shape_def)
  ultimately have "upsert_result h t hash f ?t"
    using ok by (simp add: upsert_result_def)
  then show ?thesis
    using hash(1) hash(2) [folded not_le] i none by (auto simp: upsert_entry_def Let_def)
qed

text \<open>The table with a new entry in its slot, before it is resized or rebuilt\<close>

lemma upsert_new_step:
  assumes ok: "table_ok h t" and f: "upsert_for h hash f" and hash: "hash \<noteq> 0" "hash < ht_theta t"
    and new: "hash \<notin> retained_hashes h t" and some: "on_new f = Some e"
  obtains t' where "upsert_entry h t hash f =
     (if capacity_threshold t < ht_num_retained t' then
        bind_res (if ht_lg_cur_size t' \<le> ht_lg_nom_size t' then resize h t' else rebuild h t')
          (\<lambda>t. Inr (t, True))
      else Inr (t', True))"
    and "table_shape h t'" and "entry_set t' = insert e (entry_set t)"
    and "capacity_threshold t' = capacity_threshold t" and "ht_num_retained t' = ht_num_retained t + 1"
    and "ht_theta t' = ht_theta t" and "ht_is_empty t' = False"
    and "ht_lg_nom_size t' = ht_lg_nom_size t" and "ht_lg_cur_size t' = ht_lg_cur_size t"
    and "ht_lg_max_size t' = ht_lg_max_size t" and "ht_seed t' = ht_seed t"
proof -
  have shape: "table_shape h t" using ok by (simp add: table_ok_def)
  have he: "h e = hash" using f some by (simp add: upsert_for_def)
  obtain i where i: "find_in_curr_entries h t hash = Slot i" "ht_entries t ! i = None"
    using table_find [OF ok] new by metis
  have find: "find_in_curr_entries h t (h e) = Slot i" by (simp add: he i(1))
  note U = entry_set_update [OF shape find]
  let ?t = "t\<lparr>ht_is_empty := False, ht_entries := (ht_entries t)[i := Some e],
    ht_num_retained := ht_num_retained t + 1\<rparr>"
  have es: "entry_set ?t = insert e (entry_set t)"
  proof -
    have "entry_set ?t = insert e {e' \<in> entry_set t. h e' \<noteq> hash}"
      using U(2) by (simp add: he entry_set_def iter_entries_def)
    also have "{e' \<in> entry_set t. h e' \<noteq> hash} = entry_set t"
      using new by (auto simp: retained_hashes_def)
    finally show ?thesis .
  qed
  have lt: "0 < h e' \<and> h e' < ht_theta t" if "e' \<in> entry_set ?t" for e'
    using that shape hash he unfolding es by (auto simp: table_shape_def word_neq_0_conv)
  have cap: "capacity_threshold ?t = capacity_threshold t"
    by (simp add: capacity_threshold_cases)
  have "table_shape h ?t"
    using shape U(1,3) he new lt unfolding table_shape_def by auto
  moreover have "upsert_entry h t hash f =
     (if capacity_threshold ?t < ht_num_retained ?t then
        bind_res (if ht_lg_cur_size ?t \<le> ht_lg_nom_size ?t then resize h ?t else rebuild h ?t)
          (\<lambda>t. Inr (t, True))
      else Inr (?t, True))"
    using hash(1) hash(2) [folded not_le] i some by (auto simp: upsert_entry_def Let_def)
  ultimately show ?thesis using that [of ?t] es cap by simp
qed

text \<open>A new entry for which there is room: the table only grows by it.\<close>

lemma upsert_room:
  assumes "table_ok h t" and "upsert_for h hash f" and "hash \<noteq> 0" "hash < ht_theta t"
    and "hash \<notin> retained_hashes h t" and "on_new f = Some e"
    and room: "ht_num_retained t < capacity_threshold t"
  obtains t' where "upsert_entry h t hash f = Inr (t', True)" and "table_ok h t'"
    and "entry_set t' = insert e (entry_set t)" and "ht_num_retained t' = ht_num_retained t + 1"
    and "capacity_threshold t' = capacity_threshold t" and "ht_theta t' = ht_theta t"
    and "ht_is_empty t' = False" and "ht_seed t' = ht_seed t"
proof (rule upsert_new_step [OF assms(1-6)])
  fix t'
  assume t': "upsert_entry h t hash f =
     (if capacity_threshold t < ht_num_retained t' then
        bind_res (if ht_lg_cur_size t' \<le> ht_lg_nom_size t' then resize h t' else rebuild h t')
          (\<lambda>t. Inr (t, True))
      else Inr (t', True))" "table_shape h t'" "entry_set t' = insert e (entry_set t)"
    "capacity_threshold t' = capacity_threshold t" "ht_num_retained t' = ht_num_retained t + 1"
    "ht_theta t' = ht_theta t" "ht_is_empty t' = False" "ht_seed t' = ht_seed t"
  show ?thesis using that [of t'] t' room by (simp add: table_ok_def)
qed

lemma upsert_new:
  assumes ok: "table_ok h t" and f: "upsert_for h hash f" and hash: "hash \<noteq> 0" "hash < ht_theta t"
    and new: "hash \<notin> retained_hashes h t" and some: "on_new f = Some e"
  shows "\<exists>t'. upsert_entry h t hash f = Inr (t', True) \<and> upsert_result h t hash f t'"
proof (rule upsert_new_step [OF assms])
  fix t1
  assume step: "upsert_entry h t hash f =
     (if capacity_threshold t < ht_num_retained t1 then
        bind_res (if ht_lg_cur_size t1 \<le> ht_lg_nom_size t1 then resize h t1 else rebuild h t1)
          (\<lambda>t. Inr (t, True))
      else Inr (t1, True))"
    and shape': "table_shape h t1" and es1: "entry_set t1 = insert e (entry_set t)"
    and cap: "capacity_threshold t1 = capacity_threshold t"
    and num: "ht_num_retained t1 = ht_num_retained t + 1"
    and same: "ht_theta t1 = ht_theta t" "ht_is_empty t1 = False"
      "ht_lg_nom_size t1 = ht_lg_nom_size t" "ht_lg_cur_size t1 = ht_lg_cur_size t"
      "ht_lg_max_size t1 = ht_lg_max_size t" "ht_seed t1 = ht_seed t"
  have es: "entry_set t1 = upserted h (entry_set t) hash f"
    using new some by (simp add: es1 upserted_def retained_hashes_def)
  have lt: "0 < h e' \<and> h e' < ht_theta t" if "e' \<in> entry_set t1" for e'
    using that shape' same(1) by (auto simp: table_shape_def)
  show ?thesis
  proof (cases "capacity_threshold t < ht_num_retained t1")
    case False
    then have "upsert_result h t hash f t1"
      using shape' es lt same cap by (auto simp: upsert_result_def table_ok_def)
    then show ?thesis using step False by auto
  next
    case over: True
    show ?thesis
    proof (cases "ht_lg_cur_size t1 \<le> ht_lg_nom_size t1")
      case True
      have "ht_num_retained t1 \<le> capacity_threshold t1 + 1"
        using ok num unfolding cap table_ok_def by simp
      then obtain t' where t': "resize h t1 = Inr t'" "table_ok h t'" "entry_set t' = entry_set t1"
          "ht_theta t' = ht_theta t1" "ht_is_empty t' = ht_is_empty t1"
          "ht_lg_nom_size t' = ht_lg_nom_size t1" "ht_seed t' = ht_seed t1"
        using resize_ok [OF shape' True] by blast
      then have "upsert_result h t hash f t'"
        using es lt same by (auto simp: upsert_result_def)
      then show ?thesis using step over True t'(1) by auto
    next
      case False
      have full: "ht_lg_cur_size t1 = ht_lg_max_size t1"
        using False shape' by (auto simp: table_shape_def)
      have "ht_lg_cur_size t1 = Suc (ht_lg_nom_size t1)" using full shape' by (simp add: table_shape_def)
      then have "length (ht_entries t1) = 2 * 2 ^ ht_lg_nom_size t1"
        using shape' tab.wf_length [of h "ht_lg_cur_size t1" "ht_entries t1"]
        by (simp add: table_shape_def)
      then have "2 ^ ht_lg_nom_size t1 \<le> capacity_threshold t1"
        using False by (simp add: capacity_threshold_cases)
      then have "2 ^ ht_lg_nom_size t1 < ht_num_retained t1" using over cap by linarith
      then obtain t' where t': "rebuild h t1 = Inr t'" "table_ok h t'"
          "entry_set t' = {e \<in> entry_set t1. h e < ht_theta t'}"
          "ht_theta t' \<in> retained_hashes h t1" "ht_num_retained t' = 2 ^ ht_lg_nom_size t1"
          "ht_is_empty t' = ht_is_empty t1" "ht_lg_nom_size t' = ht_lg_nom_size t1"
          "ht_seed t' = ht_seed t1"
        using rebuild_ok [OF shape' full] by blast
      then have "upsert_result h t hash f t'"
        using es same by (auto simp: upsert_result_def retained_hashes_def)
      then show ?thesis using step over False t'(1) by auto
    qed
  qed
qed

lemma upsert_screened:
  "hash = 0 \<or> ht_theta t \<le> hash \<Longrightarrow> upsert_entry h t hash f = Inr (t\<lparr>ht_is_empty := False\<rparr>, False)"
  by (simp add: upsert_entry_def Let_def)

lemma upsert_ok:
  assumes "table_ok h t" and "upsert_for h hash f" and "hash \<noteq> 0" and "hash < ht_theta t"
  shows "\<exists>t'. upsert_entry h t hash f = Inr (t', hash \<notin> retained_hashes h t \<and> on_new f \<noteq> None) \<and>
     upsert_result h t hash f t'"
  using upsert_existing [OF assms] upsert_declined [OF assms(1,3,4)] upsert_new [OF assms]
  by (cases "hash \<in> retained_hashes h t"; cases "on_new f") auto

section \<open>The other operations\<close>

lemma table_entry_ok:
  assumes "table_ok h t" and "hash \<noteq> 0"
  shows "\<exists>r. table_entry h t hash = Inr r \<and>
     (case r of Some e \<Rightarrow> e \<in> entry_set t \<and> h e = hash | None \<Rightarrow> hash \<notin> retained_hashes h t)"
proof -
  obtain i where i: "find_in_curr_entries h t hash = Slot i" "i < length (ht_entries t)"
    "hash \<in> retained_hashes h t \<longrightarrow> (\<exists>e. ht_entries t ! i = Some e \<and> h e = hash)"
    "hash \<notin> retained_hashes h t \<longrightarrow> ht_entries t ! i = None"
    by (rule table_find [OF assms(1), of hash])
  have "e \<in> entry_set t" if "ht_entries t ! i = Some e" for e
    using that i(2) by (auto simp: entry_set_def iter_entries_def set_flatten in_set_conv_nth)
  then show ?thesis
    using i assms(2) by (cases "hash \<in> retained_hashes h t") (auto simp: table_entry_def)
qed

lemma fresh_table:
  assumes "0 < ht_lg_cur_size t" and "ht_lg_cur_size t \<le> ht_lg_max_size t"
    and "ht_lg_max_size t = Suc (ht_lg_nom_size t)"
    and "ht_lg_cur_size t = ht_lg_max_size t \<or> 0 < lg_value (ht_resize_factor t)"
    and "ht_entries t = replicate (2 ^ ht_lg_cur_size t) None" and "ht_num_retained t = 0"
  shows "table_ok h t" and "entry_set t = {}"
proof -
  show "entry_set t = {}" by (simp add: entry_set_def iter_entries_def flatten_def assms(5))
  then show "table_ok h t"
    unfolding table_ok_def table_shape_def using assms by (auto simp: tab.wf_empty)
qed

lemma starting_sub_multiple_bounds:
  assumes "MIN_LG_K \<le> lg_target"
  shows "MIN_LG_K \<le> starting_sub_multiple lg_target MIN_LG_K r"
    and "starting_sub_multiple lg_target MIN_LG_K r \<le> lg_target"
    and "starting_sub_multiple lg_target MIN_LG_K r = lg_target \<or> 0 < r"
proof -
  have "(lg_target - MIN_LG_K) mod r + MIN_LG_K \<le> lg_target"
    using assms mod_less_eq_dividend [of "lg_target - MIN_LG_K" r] by linarith
  then show "MIN_LG_K \<le> starting_sub_multiple lg_target MIN_LG_K r"
    and "starting_sub_multiple lg_target MIN_LG_K r \<le> lg_target"
    and "starting_sub_multiple lg_target MIN_LG_K r = lg_target \<or> 0 < r"
    using assms by (auto simp: starting_sub_multiple_def)
qed

lemma table_new_shape:
  fixes h :: "'e \<Rightarrow> u64"
  assumes "4 \<le> lg_nom"
  obtains t where "table_new lg_nom rf p seed = Inr t" and "table_ok h t" and "entry_set t = {}"
    and "ht_theta t = starting_theta_from_sampling_probability p" and "ht_is_empty t"
    and "ht_lg_nom_size t = lg_nom" and "ht_seed t = seed" and "ht_num_retained t = 0"
proof -
  let ?lg = "starting_sub_multiple (lg_nom + 1) MIN_LG_K (lg_value rf)"
  have min: "MIN_LG_K \<le> lg_nom + 1" using assms by (simp add: MIN_LG_K_def)
  note B = starting_sub_multiple_bounds [OF min, of "lg_value rf"]
  have pos: "0 < ?lg" using B(1) by (simp add: MIN_LG_K_def)
  obtain t :: "'e sketch_table" where t: "table_new lg_nom rf p seed = Inr t" "ht_lg_cur_size t = ?lg"
    "ht_lg_nom_size t = lg_nom" "ht_lg_max_size t = Suc lg_nom" "ht_resize_factor t = rf"
    "ht_entries t = replicate (2 ^ ?lg) None" "ht_num_retained t = 0" "ht_seed t = seed"
    "ht_theta t = starting_theta_from_sampling_probability p" "ht_is_empty t"
    using B(2) pos by (simp add: table_new_def from_raw_parts_def Let_def)
  have "table_ok h t" "entry_set t = {}"
    using fresh_table(1) [of t h] fresh_table(2) [of t] t B pos by simp_all
  then show ?thesis using that t by blast
qed

lemma table_reset_shape:
  assumes "table_ok h t" and "4 \<le> ht_lg_nom_size t"
  shows "table_ok h (table_reset t)" and "entry_set (table_reset t) = {}"
proof -
  let ?lg = "starting_sub_multiple (ht_lg_nom_size t + 1) MIN_LG_K (lg_value (ht_resize_factor t))"
  have min: "MIN_LG_K \<le> ht_lg_nom_size t + 1" using assms(2) by (simp add: MIN_LG_K_def)
  note B = starting_sub_multiple_bounds [OF min, of "lg_value (ht_resize_factor t)"]
  have pos: "0 < ?lg" using B(1) by (simp add: MIN_LG_K_def)
  have max: "ht_lg_max_size t = Suc (ht_lg_nom_size t)"
    using assms(1) by (simp add: table_ok_def table_shape_def)
  show "table_ok h (table_reset t)" and "entry_set (table_reset t) = {}"
    by (rule fresh_table; use B pos max in \<open>simp add: table_reset_def Let_def\<close>)+
qed

lemma table_trim_shape:
  assumes "table_ok h t"
  obtains t' where "table_trim h t = Inr t'" and "table_ok h t'"
    and "entry_set t' = {e \<in> entry_set t. h e < ht_theta t'}"
    and "ht_num_retained t' = min (ht_num_retained t) (2 ^ ht_lg_nom_size t)"
    and "ht_theta t' = ht_theta t \<or> ht_theta t' \<in> retained_hashes h t"
    and "ht_lg_nom_size t' = ht_lg_nom_size t" and "ht_seed t' = ht_seed t"
    and "ht_is_empty t' = ht_is_empty t"
proof (cases "2 ^ ht_lg_nom_size t < ht_num_retained t")
  case False
  moreover have "{e \<in> entry_set t. h e < ht_theta t} = entry_set t"
    using assms by (auto simp: table_ok_def table_shape_def)
  ultimately show ?thesis using that [of t] assms by (simp add: table_trim_def)
next
  case True
  have shape: "table_shape h t" using assms by (simp add: table_ok_def)
  have len: "length (ht_entries t) = 2 ^ ht_lg_cur_size t"
    using shape tab.wf_length [of h "ht_lg_cur_size t" "ht_entries t"] by (simp add: table_shape_def)
  have "ht_lg_cur_size t = ht_lg_max_size t"
  proof (rule ccontr)
    assume "ht_lg_cur_size t \<noteq> ht_lg_max_size t"
    then have le: "ht_lg_cur_size t \<le> ht_lg_nom_size t" using shape by (simp add: table_shape_def)
    then have "(2 :: nat) ^ ht_lg_cur_size t \<le> 2 ^ ht_lg_nom_size t"
      by (intro power_increasing) simp_all
    moreover have "ht_num_retained t \<le> 2 ^ ht_lg_cur_size t div 2"
      using assms le len by (simp add: table_ok_def capacity_threshold_cases)
    then have "ht_num_retained t \<le> 2 ^ ht_lg_cur_size t"
      by (rule le_trans) (rule div_le_dividend)
    ultimately have "ht_num_retained t \<le> 2 ^ ht_lg_nom_size t" by (rule le_trans [rotated])
    then show False using True by simp
  qed
  then obtain t' where t': "rebuild h t = Inr t'" "table_ok h t'"
    "entry_set t' = {e \<in> entry_set t. h e < ht_theta t'}" "ht_theta t' \<in> retained_hashes h t"
    "ht_num_retained t' = 2 ^ ht_lg_nom_size t" "ht_is_empty t' = ht_is_empty t"
    "ht_lg_nom_size t' = ht_lg_nom_size t" "ht_seed t' = ht_seed t"
    using rebuild_ok [OF shape _ True] by blast
  show ?thesis by (rule that [of t']) (use t' True in \<open>simp_all add: table_trim_def\<close>)
qed

lemma num_retained_card:
  assumes "table_ok h t"
  shows "ht_num_retained t = card (retained_hashes h t)"
    and "ht_num_retained t = length (iter_entries t)"
  using assms tab.occupied_card(2) [of h "ht_lg_cur_size t" "ht_entries t"]
  by (simp_all add: table_ok_def table_shape_def keys_retained iter_entries_def length_flatten [of _ h])

lemma ilog2_bounds: "0 < n \<Longrightarrow> 2 ^ ilog2 n \<le> n \<and> n < 2 * 2 ^ ilog2 n"
proof (induction n rule: ilog2.induct)
  case (1 n)
  show ?case
  proof (cases "n < 2")
    case True
    then show ?thesis using "1.prems" by (simp add: ilog2.simps)
  next
    case False
    then have "2 ^ ilog2 (n div 2) \<le> n div 2 \<and> n div 2 < 2 * 2 ^ ilog2 (n div 2)"
      using "1.IH" by simp
    then show ?thesis using False by (simp add: ilog2.simps [of n]) linarith
  qed
qed

lemma lg_size_for_rebuild:
  assumes "0 < count"
  shows "count \<le> 15 * 2 ^ lg_size_from_count_for_rebuild count HASH_TABLE_REBUILD_THRESHOLD div 16"
    and "0 < lg_size_from_count_for_rebuild count HASH_TABLE_REBUILD_THRESHOLD"
proof -
  have B: "2 ^ ilog2 count \<le> count" "count < 2 * 2 ^ ilog2 count" using ilog2_bounds [OF assms] by auto
  have "16 * count div 16 \<le> 15 * (4 * 2 ^ ilog2 count) div 16" using B by (intro div_le_mono) simp
  then show "count \<le> 15 * 2 ^ lg_size_from_count_for_rebuild count HASH_TABLE_REBUILD_THRESHOLD div 16"
    by (simp add: lg_size_from_count_for_rebuild_def scale_def HASH_TABLE_REBUILD_THRESHOLD_def Let_def
        power_add not_less)
  show "0 < lg_size_from_count_for_rebuild count HASH_TABLE_REBUILD_THRESHOLD"
    by (simp add: lg_size_from_count_for_rebuild_def Let_def)
qed

section \<open>Properties\<close>

text \<open>A small table of plain hashes for the concrete instances: four slots, nominal size two\<close>

definition example_table :: "u64 sketch_table" where
  "example_table = \<lparr>ht_lg_cur_size = 2, ht_lg_nom_size = 1, ht_lg_max_size = 2,
     ht_resize_factor = X1, ht_sampling_probability = 1, ht_seed = 9001, ht_is_empty = True,
     ht_theta = 100, ht_entries = [None, None, None, None], ht_num_retained = 0\<rparr>"

lemma example_table_ok: "table_ok (\<lambda>x. x) example_table" "entry_set example_table = {}"
  using fresh_table [of example_table] by (simp_all add: example_table_def numeral_eq_Suc)

text \<open>
  C29. A search in a table within its capacity threshold always ends, at a slot inside the table:
  the slot of the key if the key is retained, and a free slot otherwise. So the
  \<open>unreachable!\<close> of \<open>upsert_entry\<close> cannot be reached.
\<close>

theorem table_search_ends:
  assumes "table_ok h t"
  shows "\<exists>i < length (ht_entries t). find_in_curr_entries h t key = Slot i \<and>
     (case ht_entries t ! i of Some e \<Rightarrow> h e = key | None \<Rightarrow> key \<notin> retained_hashes h t)"
proof -
  obtain i where "find_in_curr_entries h t key = Slot i" "i < length (ht_entries t)"
    "key \<in> retained_hashes h t \<longrightarrow> (\<exists>e. ht_entries t ! i = Some e \<and> h e = key)"
    "key \<notin> retained_hashes h t \<longrightarrow> ht_entries t ! i = None"
    by (rule table_find [OF assms, of key])
  then show ?thesis by (cases "key \<in> retained_hashes h t") auto
qed

theorem table_search_ends_witness:
  "\<exists>i < 4. find_in_curr_entries (\<lambda>x. x) example_table 5 = Slot i"
  using table_search_ends [OF example_table_ok(1), of 5] by (auto simp: example_table_def)

text \<open>
  C1. \<open>upsert_entry\<close> never panics on a well-formed table and keeps it well-formed: it screens out
  a zero hash and a hash at or above theta, applies the callback to the entry with that hash or
  adds the entry the callback creates, and afterwards holds exactly the resulting entries below
  the new theta. Theta never grows; when it falls, exactly \<open>2 ^ lg_nom_size\<close> entries are left.
  The result says whether an entry was created.
\<close>

theorem table_upsert_exact:
  assumes "table_ok h t" and "upsert_for h hash f"
  shows "\<exists>t'. upsert_entry h t hash f =
        Inr (t', 0 < hash \<and> hash < ht_theta t \<and> hash \<notin> retained_hashes h t \<and> on_new f \<noteq> None) \<and>
     table_ok h t' \<and> \<not> ht_is_empty t' \<and> ht_theta t' \<le> ht_theta t \<and>
     (ht_theta t' \<noteq> ht_theta t \<longrightarrow> ht_num_retained t' = 2 ^ ht_lg_nom_size t) \<and>
     entry_set t' =
       {e \<in> (if hash = 0 \<or> ht_theta t \<le> hash then entry_set t else upserted h (entry_set t) hash f).
         h e < ht_theta t'}"
proof (cases "hash = 0 \<or> ht_theta t \<le> hash")
  case True
  have "{e \<in> entry_set t. h e < ht_theta t} = entry_set t"
    using assms(1) by (auto simp: table_ok_def table_shape_def)
  then show ?thesis using True assms(1) by (auto simp: upsert_screened leD)
next
  case False
  then have hash: "hash \<noteq> 0" "0 < hash" "hash < ht_theta t" by (simp_all add: word_neq_0_conv not_le)
  obtain t' where t': "upsert_entry h t hash f = Inr (t', hash \<notin> retained_hashes h t \<and> on_new f \<noteq> None)"
    "upsert_result h t hash f t'"
    using upsert_ok [OF assms hash(1,3)] by blast
  have "x < ht_theta t" if "x \<in> h ` upserted h (entry_set t) hash f" for x
    using that hash(3) assms(1) hashes_upserted [OF assms(2), of "entry_set t"]
    by (auto simp: table_ok_def table_shape_def split: if_splits)
  then have "ht_theta t' \<le> ht_theta t"
    using t'(2) by (auto simp: upsert_result_def less_imp_le)
  then show ?thesis using t' hash False by (auto simp: upsert_result_def)
qed

theorem table_upsert_exact_witness:
  "\<exists>t'. upsert_entry (\<lambda>x. x) example_table 5 \<lparr>on_existing = (\<lambda>x. x), on_new = Some 5\<rparr> = Inr (t', True) \<and>
     table_ok (\<lambda>x. x) t'"
  using table_upsert_exact [OF example_table_ok(1), of 5 "\<lparr>on_existing = (\<lambda>x. x), on_new = Some 5\<rparr>"]
    example_table_ok(2)
  by (auto simp: upsert_for_def retained_hashes_def example_table_def)

text \<open>
  \<open>entry\<close> returns the retained entry with the given hash, and None exactly when no entry has
  it; it never panics.
\<close>

theorem table_entry_exact:
  assumes "table_ok h t" and "hash \<noteq> 0"
  shows "\<exists>r. table_entry h t hash = Inr r \<and> (r = None \<longleftrightarrow> hash \<notin> retained_hashes h t) \<and>
     (\<forall>e. r = Some e \<longleftrightarrow> e \<in> entry_set t \<and> h e = hash)"
proof -
  have shape: "table_shape h t" using assms(1) by (simp add: table_ok_def)
  obtain r where r: "table_entry h t hash = Inr r"
    "case r of Some e \<Rightarrow> e \<in> entry_set t \<and> h e = hash | None \<Rightarrow> hash \<notin> retained_hashes h t"
    using table_entry_ok [OF assms] by blast
  show ?thesis
  proof (cases r)
    case None
    then show ?thesis using r by (auto simp: retained_hashes_def)
  next
    case (Some e)
    then have e: "e \<in> entry_set t" "h e = hash" using r(2) by auto
    have "hash \<in> retained_hashes h t" using e by (auto simp: retained_hashes_def)
    moreover have "Some e = Some e' \<longleftrightarrow> e' \<in> entry_set t \<and> h e' = hash" for e'
      using entry_set_unique [OF shape _ e(1), of e'] e by (simp only: option.inject) metis
    ultimately show ?thesis using r(1) unfolding Some by blast
  qed
qed

theorem table_entry_exact_witness:
  "table_entry (\<lambda>x. x) example_table 7 = Inr None"
  using table_entry_exact [OF example_table_ok(1), of 7] example_table_ok(2)
  by (auto simp: retained_hashes_def)

text \<open>
  \<open>trim\<close> leaves at most \<open>2 ^ lg_nom_size\<close> entries, the smallest ones: afterwards the table
  holds exactly its former entries below the new theta. A table already small enough keeps
  theta.
\<close>

theorem table_trim_exact:
  assumes "table_ok h t"
  shows "\<exists>t'. table_trim h t = Inr t' \<and> table_ok h t' \<and>
     ht_num_retained t' = min (ht_num_retained t) (2 ^ ht_lg_nom_size t) \<and>
     entry_set t' = {e \<in> entry_set t. h e < ht_theta t'} \<and>
     (ht_theta t' = ht_theta t \<or> ht_theta t' \<in> retained_hashes h t)"
  by (rule table_trim_shape [OF assms]) blast

theorem table_trim_exact_witness:
  "\<exists>t'. table_trim (\<lambda>x. x) example_table = Inr t' \<and> ht_num_retained t' = 0"
  using table_trim_exact [OF example_table_ok(1)] by (auto simp: example_table_def)

text \<open>
  A table sized by \<open>lg_size_from_count_for_rebuild\<close> holds the given number of entries without
  exceeding its rebuild threshold.
\<close>

theorem lg_size_from_count_suffices:
  assumes "0 < count" and "length (ht_entries t) = 2 ^ lg_size_from_count_for_rebuild count HASH_TABLE_REBUILD_THRESHOLD"
    and "ht_lg_nom_size t < ht_lg_cur_size t"
  shows "count \<le> capacity_threshold t"
  using lg_size_for_rebuild [OF assms(1)] assms(2,3) by (simp add: capacity_threshold_cases)

theorem lg_size_from_count_suffices_witness: "3 \<le> capacity_threshold example_table"
proof (rule lg_size_from_count_suffices)
  show "length (ht_entries example_table) =
      2 ^ lg_size_from_count_for_rebuild 3 HASH_TABLE_REBUILD_THRESHOLD"
    by (simp add: example_table_def lg_size_from_count_for_rebuild_def ilog2.simps scale_def
        HASH_TABLE_REBUILD_THRESHOLD_def)
qed (simp_all add: example_table_def)

end
