(* ===== verification/ThetaSketch.thy ===== *)
theory ThetaSketch
  imports HashTable
begin

text \<open>
  The mutable Theta sketch: \<open>src/datasketches/src/thetafamily/theta/hash_table.rs\<close> (entries that
  are plain hashes) and \<open>ThetaSketch\<close>, \<open>ThetaSketchBuilder\<close> of \<open>theta/sketch.rs\<close>. A value is
  the list of byte chunks that its \<open>Hash\<close> implementation writes. The floating-point results
  (\<open>estimate\<close>, \<open>theta\<close>, the bounds) are not modelled.
\<close>

section \<open>Entries and the builder\<close>

datatype theta_entry = ThetaEntry (te_hash: u64)

definition theta_entry_new :: "u64 \<Rightarrow> theta_entry res" where
  "theta_entry_new hash =
     (if hash \<noteq> 0 then Inr (ThetaEntry hash) else Inl (Panic ''hash must be non-zero''))"

text \<open>
  The callback is only reached with a hash that passed the screening, so the panic of
  \<open>ThetaEntry::new\<close> is the None that no search gets to (\<open>upsert_screened\<close>).
\<close>

definition try_insert_hash ::
  "theta_entry sketch_table \<Rightarrow> u64 \<Rightarrow> (theta_entry sketch_table \<times> bool) res" where
  "try_insert_hash t hash =
     upsert_entry te_hash t hash
       \<lparr>on_existing = (\<lambda>e. e),
        on_new = (case theta_entry_new hash of Inr e \<Rightarrow> Some e | Inl _ \<Rightarrow> None)\<rparr>"

definition try_insert ::
  "theta_entry sketch_table \<Rightarrow> u8 list list \<Rightarrow> (theta_entry sketch_table \<times> bool) res" where
  "try_insert t chunks = (let hash = table_hash t chunks in try_insert_hash t hash)"

record theta_sketch =
  ts_table :: "theta_entry sketch_table"

record theta_builder =
  tb_lg_k :: nat
  tb_resize_factor :: resize_factor
  tb_sampling_probability :: rat
  tb_seed :: u64

definition theta_builder_default :: theta_builder where
  "theta_builder_default =
     \<lparr>tb_lg_k = DEFAULT_LG_K, tb_resize_factor = X8, tb_sampling_probability = 1,
      tb_seed = DEFAULT_UPDATE_SEED\<rparr>"

definition builder_lg_k :: "theta_builder \<Rightarrow> nat \<Rightarrow> theta_builder res" where
  "builder_lg_k b lg_k =
     (if MIN_LG_K \<le> lg_k \<and> lg_k \<le> MAX_LG_K then Inr (b\<lparr>tb_lg_k := lg_k\<rparr>)
      else Inl (Panic ''lg_k out of range''))"

definition builder_resize_factor :: "theta_builder \<Rightarrow> resize_factor \<Rightarrow> theta_builder" where
  "builder_resize_factor b factor = b\<lparr>tb_resize_factor := factor\<rparr>"

definition builder_sampling_probability :: "theta_builder \<Rightarrow> rat \<Rightarrow> theta_builder res" where
  "builder_sampling_probability b probability =
     (if 0 \<le> probability \<and> probability \<le> 1 \<and> 0 < probability
      then Inr (b\<lparr>tb_sampling_probability := probability\<rparr>)
      else Inl (Panic ''sampling_probability out of range''))"

definition builder_seed :: "theta_builder \<Rightarrow> u64 \<Rightarrow> theta_builder" where
  "builder_seed b seed = b\<lparr>tb_seed := seed\<rparr>"

definition builder_build :: "theta_builder \<Rightarrow> theta_sketch res" where
  "builder_build b =
     bind_res (table_new (tb_lg_k b) (tb_resize_factor b) (tb_sampling_probability b) (tb_seed b))
       (\<lambda>table. Inr \<lparr>ts_table = table\<rparr>)"

section \<open>The sketch\<close>

definition theta_update :: "theta_sketch \<Rightarrow> u8 list list \<Rightarrow> theta_sketch res" where
  "theta_update s value =
     bind_res (try_insert (ts_table s) value) (\<lambda>(table, _). Inr (s\<lparr>ts_table := table\<rparr>))"

definition theta_trim :: "theta_sketch \<Rightarrow> theta_sketch res" where
  "theta_trim s = bind_res (table_trim te_hash (ts_table s)) (\<lambda>table. Inr (s\<lparr>ts_table := table\<rparr>))"

definition theta_reset :: "theta_sketch \<Rightarrow> theta_sketch" where
  "theta_reset s = s\<lparr>ts_table := table_reset (ts_table s)\<rparr>"

definition theta_is_estimation_mode :: "theta_sketch \<Rightarrow> bool" where
  "theta_is_estimation_mode s \<longleftrightarrow> ht_theta (ts_table s) < MAX_THETA"

text \<open>The compact form: the retained hashes, theta, the seed hash and two flags\<close>

record compact_theta =
  ct_entries :: "u64 list"
  ct_theta :: u64
  ct_seed_hash :: u16
  ct_ordered :: bool
  ct_empty :: bool

definition compact_from_parts :: "u64 list \<Rightarrow> u64 \<Rightarrow> u16 \<Rightarrow> bool \<Rightarrow> bool \<Rightarrow> compact_theta" where
  "compact_from_parts entries theta seed_hash ordered is_empty =
     \<lparr>ct_entries = entries, ct_theta = theta, ct_seed_hash = seed_hash, ct_ordered = ordered,
      ct_empty = is_empty\<rparr>"

definition theta_compact :: "theta_sketch \<Rightarrow> bool \<Rightarrow> compact_theta res" where
  "theta_compact s ordered =
     bind_res (table_to_compact_parts te_hash (ts_table s) ordered) (\<lambda>parts.
       Inr (compact_from_parts (map te_hash (cp_entries parts)) (cp_theta parts) (cp_seed_hash parts)
         (cp_ordered parts) (cp_empty parts)))"

text \<open>Building a sketch from a sequence of values\<close>

definition theta_update_all :: "theta_sketch \<Rightarrow> u8 list list list \<Rightarrow> theta_sketch res" where
  "theta_update_all s vs = fold_res theta_update s vs"

section \<open>Inserting hashes\<close>

definition theta_hashes :: "theta_sketch \<Rightarrow> u64 set" where
  "theta_hashes s = retained_hashes te_hash (ts_table s)"

lemma theta_upsert_for:
  "upsert_for te_hash hash
     \<lparr>on_existing = (\<lambda>e. e), on_new = (case theta_entry_new hash of Inr e \<Rightarrow> Some e | Inl _ \<Rightarrow> None)\<rparr>"
  by (simp add: upsert_for_def theta_entry_new_def)

text \<open>
  The state after a set \<open>seen\<close> of hashes has been offered to a table that started at \<open>theta0\<close>:
  exactly the hashes seen below theta are retained; theta is still the start value, or it is a
  hash seen and at least \<open>2 ^ lg_nom\<close> smaller ones are retained.
\<close>

definition kmv :: "u64 \<Rightarrow> u64 set \<Rightarrow> theta_entry sketch_table \<Rightarrow> bool" where
  "kmv theta0 seen t \<longleftrightarrow>
     table_ok te_hash t \<and> retained_hashes te_hash t = {x \<in> seen. 0 < x \<and> x < ht_theta t} \<and>
     ht_theta t \<le> theta0 \<and>
     (ht_theta t = theta0 \<or> ht_theta t \<in> seen \<and> 2 ^ ht_lg_nom_size t \<le> ht_num_retained t)"

lemma table_ok_hash_lt:
  "table_ok h t \<Longrightarrow> x \<in> retained_hashes h t \<Longrightarrow> 0 < x \<and> x < ht_theta t"
  by (auto simp: table_ok_def table_shape_def retained_hashes_def)

lemma retained_filter:
  "entry_set t' = {e \<in> S. h e < ht_theta t'} \<Longrightarrow> retained_hashes h t' = {x \<in> h ` S. x < ht_theta t'}"
  by (auto simp: retained_hashes_def)

lemma try_insert_hash_kmv:
  assumes kmv: "kmv theta0 seen t"
  shows "\<exists>t' b. try_insert_hash t hash = Inr (t', b) \<and> kmv theta0 (insert hash seen) t' \<and>
     \<not> ht_is_empty t' \<and> ht_lg_nom_size t' = ht_lg_nom_size t \<and> ht_seed t' = ht_seed t"
proof -
  let ?f = "\<lparr>on_existing = (\<lambda>e. e),
    on_new = (case theta_entry_new hash of Inr e \<Rightarrow> Some e | Inl _ \<Rightarrow> None)\<rparr>"
  have ok: "table_ok te_hash t" and kept: "retained_hashes te_hash t = {x \<in> seen. 0 < x \<and> x < ht_theta t}"
    and le: "ht_theta t \<le> theta0"
    and cases: "ht_theta t = theta0 \<or> ht_theta t \<in> seen \<and> 2 ^ ht_lg_nom_size t \<le> ht_num_retained t"
    using kmv by (auto simp: kmv_def)
  show ?thesis
  proof (cases "hash = 0 \<or> ht_theta t \<le> hash")
    case True
    then have "{x \<in> insert hash seen. 0 < x \<and> x < ht_theta t} = {x \<in> seen. 0 < x \<and> x < ht_theta t}"
      by auto
    then show ?thesis
      using True ok kept le cases
      by (auto simp: try_insert_hash_def upsert_screened kmv_def)
  next
    case False
    then have hash: "hash \<noteq> 0" "0 < hash" "hash < ht_theta t" by (simp_all add: word_neq_0_conv not_le)
    obtain t' where t': "try_insert_hash t hash = Inr (t', hash \<notin> retained_hashes te_hash t)"
      "upsert_result te_hash t hash ?f t'"
      using upsert_ok [OF ok theta_upsert_for hash(1,3)] hash(1)
      by (auto simp: try_insert_hash_def theta_entry_new_def)
    have ups: "te_hash ` upserted te_hash (entry_set t) hash ?f = insert hash (retained_hashes te_hash t)"
      using hashes_upserted [OF theta_upsert_for, of "entry_set t" hash] hash(1)
      by (simp add: theta_entry_new_def retained_hashes_def)
    have R: "table_ok te_hash t'" "retained_hashes te_hash t' =
        {x \<in> insert hash (retained_hashes te_hash t). x < ht_theta t'}"
      "ht_theta t' = ht_theta t \<or>
       ht_theta t' \<in> insert hash (retained_hashes te_hash t) \<and> ht_num_retained t' = 2 ^ ht_lg_nom_size t"
      "\<not> ht_is_empty t'" "ht_lg_nom_size t' = ht_lg_nom_size t" "ht_seed t' = ht_seed t"
      using t'(2) retained_filter [of t' "upserted te_hash (entry_set t) hash ?f" te_hash]
      unfolding upsert_result_def ups by blast+
    have low: "ht_theta t' \<le> ht_theta t"
      using R(3) hash(3) table_ok_hash_lt [OF ok, of "ht_theta t'"]
      by (elim disjE conjE insertE) (simp_all add: less_imp_le)
    have "retained_hashes te_hash t' = {x \<in> insert hash seen. 0 < x \<and> x < ht_theta t'}"
      unfolding R(2) kept using hash(2) low by auto
    moreover have "ht_theta t' = theta0 \<or>
        ht_theta t' \<in> insert hash seen \<and> 2 ^ ht_lg_nom_size t' \<le> ht_num_retained t'"
    proof (cases "ht_theta t' = ht_theta t")
      case True
      have "ht_num_retained t \<le> ht_num_retained t'"
        unfolding num_retained_card(1) [OF ok] num_retained_card(1) [OF R(1)] R(2) True
        using hash(3) kept by (intro card_mono) (auto simp: retained_hashes_def entry_set_def)
      then show ?thesis using cases True R(5) by auto
    next
      case False
      then show ?thesis using R(3,5) kept by auto
    qed
    ultimately have "kmv theta0 (insert hash seen) t'"
      using R(1) low le by (simp add: kmv_def)
    then show ?thesis using t'(1) R(4,5,6) by blast
  qed
qed

lemma kmv_new:
  "table_ok te_hash t \<Longrightarrow> entry_set t = {} \<Longrightarrow> kmv (ht_theta t) {} t"
  by (simp add: kmv_def retained_hashes_def)

lemma theta_update_all_kmv:
  assumes "kmv theta0 {} (ts_table s)"
  shows "\<exists>s'. theta_update_all s vs = Inr s' \<and>
     kmv theta0 (set (map (table_hash (ts_table s)) vs)) (ts_table s') \<and>
     ht_is_empty (ts_table s') = (vs = [] \<and> ht_is_empty (ts_table s)) \<and>
     ht_lg_nom_size (ts_table s') = ht_lg_nom_size (ts_table s) \<and>
     ht_seed (ts_table s') = ht_seed (ts_table s)"
  unfolding theta_update_all_def
proof (rule fold_res_invariant [where P = "\<lambda>s' vs.
     kmv theta0 (set (map (table_hash (ts_table s)) vs)) (ts_table s') \<and>
     ht_is_empty (ts_table s') = (vs = [] \<and> ht_is_empty (ts_table s)) \<and>
     ht_lg_nom_size (ts_table s') = ht_lg_nom_size (ts_table s) \<and>
     ht_seed (ts_table s') = ht_seed (ts_table s)"])
  fix s1 :: theta_sketch and vs v
  assume P: "kmv theta0 (set (map (table_hash (ts_table s)) vs)) (ts_table s1) \<and>
     ht_is_empty (ts_table s1) = (vs = [] \<and> ht_is_empty (ts_table s)) \<and>
     ht_lg_nom_size (ts_table s1) = ht_lg_nom_size (ts_table s) \<and>
     ht_seed (ts_table s1) = ht_seed (ts_table s)"
  then have hash: "table_hash (ts_table s1) v = table_hash (ts_table s) v"
    by (simp add: table_hash_def)
  obtain t' b where t': "try_insert_hash (ts_table s1) (table_hash (ts_table s) v) = Inr (t', b)"
    "kmv theta0 (insert (table_hash (ts_table s) v) (set (map (table_hash (ts_table s)) vs))) t'"
    "\<not> ht_is_empty t'" "ht_lg_nom_size t' = ht_lg_nom_size (ts_table s1)"
    "ht_seed t' = ht_seed (ts_table s1)"
    using try_insert_hash_kmv [OF conjunct1 [OF P]] by blast
  have "theta_update s1 v = Inr (s1\<lparr>ts_table := t'\<rparr>)"
    using t'(1) by (simp add: theta_update_def try_insert_def hash)
  moreover have "kmv theta0 (set (map (table_hash (ts_table s)) (vs @ [v]))) t'"
    using t'(2) by simp
  moreover have "ht_lg_nom_size t' = ht_lg_nom_size (ts_table s)" "ht_seed t' = ht_seed (ts_table s)"
    using t'(4,5) P by simp_all
  ultimately show "\<exists>s'. theta_update s1 v = Inr s' \<and>
     kmv theta0 (set (map (table_hash (ts_table s)) (vs @ [v]))) (ts_table s') \<and>
     ht_is_empty (ts_table s') = (vs @ [v] = [] \<and> ht_is_empty (ts_table s)) \<and>
     ht_lg_nom_size (ts_table s') = ht_lg_nom_size (ts_table s) \<and>
     ht_seed (ts_table s') = ht_seed (ts_table s)"
    using t'(3) by (intro exI [of _ "s1\<lparr>ts_table := t'\<rparr>"]) simp
qed (use assms in simp)

lemma kmv_exact:
  assumes "kmv theta0 seen t" and "finite seen"
    and "card {x \<in> seen. 0 < x \<and> x < theta0} \<le> 2 ^ ht_lg_nom_size t"
  shows "ht_theta t = theta0"
proof (rule ccontr)
  assume "ht_theta t \<noteq> theta0"
  then have lt: "ht_theta t < theta0" and seen: "ht_theta t \<in> seen"
    and "2 ^ ht_lg_nom_size t \<le> ht_num_retained t" and ok: "table_ok te_hash t"
    and kept: "retained_hashes te_hash t = {x \<in> seen. 0 < x \<and> x < ht_theta t}"
    using assms(1) unfolding kmv_def by (simp_all add: order.strict_iff_order)
  then have num: "2 ^ ht_lg_nom_size t \<le> card {x \<in> seen. 0 < x \<and> x < ht_theta t}"
    unfolding num_retained_card(1) [OF ok] kept by blast
  have pos: "0 < ht_theta t"
  proof (rule ccontr)
    assume "\<not> 0 < ht_theta t"
    then have none: "{x \<in> seen. 0 < x \<and> x < ht_theta t} = {}" by auto
    show False using num unfolding none by simp
  qed
  have "insert (ht_theta t) {x \<in> seen. 0 < x \<and> x < ht_theta t} \<subseteq> {x \<in> seen. 0 < x \<and> x < theta0}"
    using lt seen pos by auto
  then have "card (insert (ht_theta t) {x \<in> seen. 0 < x \<and> x < ht_theta t}) \<le> 2 ^ ht_lg_nom_size t"
    using assms(2) by (intro le_trans [OF card_mono assms(3)]) simp_all
  moreover have "card (insert (ht_theta t) {x \<in> seen. 0 < x \<and> x < ht_theta t}) =
      Suc (card {x \<in> seen. 0 < x \<and> x < ht_theta t})"
    using assms(2) by (intro card_insert_disjoint) simp_all
  ultimately show False using num by linarith
qed

lemma builder_build_shape:
  assumes "4 \<le> tb_lg_k b"
  obtains s where "builder_build b = Inr s" and "table_ok te_hash (ts_table s)"
    and "kmv (starting_theta_from_sampling_probability (tb_sampling_probability b)) {} (ts_table s)"
    and "ht_is_empty (ts_table s)" and "ht_lg_nom_size (ts_table s) = tb_lg_k b"
    and "ht_seed (ts_table s) = tb_seed b"
proof -
  obtain t where t: "table_new (tb_lg_k b) (tb_resize_factor b) (tb_sampling_probability b) (tb_seed b) = Inr t"
    "table_ok te_hash t" "entry_set t = {}" "ht_is_empty t" "ht_lg_nom_size t = tb_lg_k b"
    "ht_theta t = starting_theta_from_sampling_probability (tb_sampling_probability b)"
    "ht_seed t = tb_seed b"
    by (rule table_new_shape [OF assms, where h = te_hash])
  then show ?thesis
    using kmv_new [of t] that [of "\<lparr>ts_table = t\<rparr>"] by (simp add: builder_build_def)
qed

section \<open>Properties\<close>

text \<open>
  C2. A Theta sketch built with \<open>lg_k\<close> of at least 4 and any sequence of updates: no update
  panics, the sketch retains exactly the distinct hashes seen that are non-zero and below theta,
  theta never rises above its starting value, and if it fell it is a hash seen with at least
  \<open>2 ^ lg_k\<close> smaller ones retained. It is logically empty exactly when nothing was offered.
\<close>

theorem theta_sketch_exact:
  assumes "4 \<le> tb_lg_k b"
  shows "\<exists>s0 s. builder_build b = Inr s0 \<and> theta_update_all s0 vs = Inr s \<and>
     theta_hashes s =
       {x \<in> set (map (table_hash (ts_table s0)) vs). 0 < x \<and> x < ht_theta (ts_table s)} \<and>
     ht_num_retained (ts_table s) = card (theta_hashes s) \<and>
     (let theta0 = starting_theta_from_sampling_probability (tb_sampling_probability b)
      in ht_theta (ts_table s) \<le> theta0 \<and>
         (ht_theta (ts_table s) = theta0 \<or>
          ht_theta (ts_table s) \<in> set (map (table_hash (ts_table s0)) vs) \<and>
          2 ^ tb_lg_k b \<le> ht_num_retained (ts_table s))) \<and>
     ht_is_empty (ts_table s) = (vs = [])"
proof -
  obtain s0 where s0: "builder_build b = Inr s0"
    "kmv (starting_theta_from_sampling_probability (tb_sampling_probability b)) {} (ts_table s0)"
    "ht_is_empty (ts_table s0)" "ht_lg_nom_size (ts_table s0) = tb_lg_k b"
    by (rule builder_build_shape [OF assms])
  obtain s where s: "theta_update_all s0 vs = Inr s"
    "kmv (starting_theta_from_sampling_probability (tb_sampling_probability b))
       (set (map (table_hash (ts_table s0)) vs)) (ts_table s)"
    "ht_is_empty (ts_table s) = (vs = [] \<and> ht_is_empty (ts_table s0))"
    "ht_lg_nom_size (ts_table s) = ht_lg_nom_size (ts_table s0)"
    using theta_update_all_kmv [OF s0(2)] by blast
  have "ht_num_retained (ts_table s) = card (theta_hashes s)"
    unfolding theta_hashes_def using s(2) by (intro num_retained_card(1)) (simp add: kmv_def)
  then show ?thesis
    using s0 s by (auto simp: kmv_def theta_hashes_def Let_def)
qed

theorem theta_sketch_exact_witness:
  "\<exists>s0 s. builder_build theta_builder_default = Inr s0 \<and>
     theta_update_all s0 [[[1]], [[2]], [[1]]] = Inr s \<and> \<not> ht_is_empty (ts_table s)"
  using theta_sketch_exact [of theta_builder_default "[[[1]], [[2]], [[1]]]"]
  by (auto simp: theta_builder_default_def DEFAULT_LG_K_def)

text \<open>
  Exact mode: as long as at most \<open>2 ^ lg_k\<close> distinct hashes below the starting theta were
  offered, theta does not move and the number of retained entries is their exact number,
  whatever the order and the repetitions of the updates.
\<close>

theorem theta_exact_mode:
  assumes "4 \<le> tb_lg_k b" and "builder_build b = Inr s0" and "theta_update_all s0 vs = Inr s"
    and "theta0 = starting_theta_from_sampling_probability (tb_sampling_probability b)"
    and "S = {x \<in> set (map (table_hash (ts_table s0)) vs). 0 < x \<and> x < theta0}"
    and "card S \<le> 2 ^ tb_lg_k b"
  shows "ht_theta (ts_table s) = theta0 \<and> theta_hashes s = S \<and> ht_num_retained (ts_table s) = card S"
proof -
  have s0: "kmv theta0 {} (ts_table s0)" "ht_lg_nom_size (ts_table s0) = tb_lg_k b"
    using builder_build_shape [OF assms(1)] assms(2,4) by (metis sum.inject(2))+
  have s: "kmv theta0 (set (map (table_hash (ts_table s0)) vs)) (ts_table s)"
    "ht_lg_nom_size (ts_table s) = ht_lg_nom_size (ts_table s0)"
    using theta_update_all_kmv [OF s0(1), of vs] assms(3) by auto
  have theta: "ht_theta (ts_table s) = theta0"
    by (rule kmv_exact [OF s(1)]) (use assms(5,6) s s0 in simp_all)
  moreover have "theta_hashes s = S"
    using s(1) theta assms(5) by (simp add: kmv_def theta_hashes_def)
  moreover have "ht_num_retained (ts_table s) = card (theta_hashes s)"
    unfolding theta_hashes_def using s(1) by (intro num_retained_card(1)) (simp add: kmv_def)
  ultimately show ?thesis by simp
qed

theorem theta_exact_mode_witness:
  "\<exists>s0 s. builder_build theta_builder_default = Inr s0 \<and>
     theta_update_all s0 [[[1]], [[2]], [[1]]] = Inr s \<and> ht_theta (ts_table s) = MAX_THETA"
proof -
  let ?vs = "[[[1]], [[2]], [[1]]] :: u8 list list list" and ?b = theta_builder_default
  have lg: "4 \<le> tb_lg_k ?b" by (simp add: theta_builder_default_def DEFAULT_LG_K_def)
  obtain s0 where s0: "builder_build ?b = Inr s0"
    "kmv (starting_theta_from_sampling_probability (tb_sampling_probability ?b)) {} (ts_table s0)"
    by (rule builder_build_shape [OF lg])
  obtain s where s: "theta_update_all s0 ?vs = Inr s"
    using theta_update_all_kmv [OF s0(2)] by blast
  let ?hs = "map (table_hash (ts_table s0)) ?vs"
  have "card {x \<in> set ?hs. 0 < x \<and>
      x < starting_theta_from_sampling_probability (tb_sampling_probability ?b)} \<le> card (set ?hs)"
    by (intro card_mono finite_set) blast
  also have "\<dots> \<le> length ?hs" by (rule card_length)
  also have "\<dots> \<le> 2 ^ tb_lg_k ?b" by (simp add: theta_builder_default_def DEFAULT_LG_K_def)
  finally have "ht_theta (ts_table s) =
      starting_theta_from_sampling_probability (tb_sampling_probability ?b)"
    using theta_exact_mode [OF lg s0(1) s refl refl] by blast
  then show ?thesis
    using s0(1) s by (simp add: theta_builder_default_def starting_theta_from_sampling_probability_def)
qed

end
