(* ===== verification/CompactTheta.thy ===== *)
theory CompactTheta
  imports ThetaSketch Codec BitPack
begin

text \<open>
  The wire formats of \<open>CompactThetaSketch\<close> in \<open>src/datasketches/src/thetafamily/theta/sketch.rs\<close>,
  with the constants of \<open>theta/serialization.rs\<close>: the uncompressed version 3, the compressed
  version 4 (deltas of the sorted hashes, bit-packed in blocks of eight), and the readers of all
  four versions. A cursor that the source advances in place is passed on explicitly. The
  subtractions of consecutive hashes wrap; the source panics there in a debug build, which the
  sketches of the properties (sorted entries) never reach.
\<close>

definition UNCOMPRESSED_SERIAL_VERSION :: u8 where "UNCOMPRESSED_SERIAL_VERSION = 3"

definition COMPRESSED_SERIAL_VERSION :: u8 where "COMPRESSED_SERIAL_VERSION = 4"

definition V2_PREAMBLE_EMPTY :: u8 where "V2_PREAMBLE_EMPTY = 1"

definition V2_PREAMBLE_PRECISE :: u8 where "V2_PREAMBLE_PRECISE = 2"

definition V2_PREAMBLE_ESTIMATE :: u8 where "V2_PREAMBLE_ESTIMATE = 3"

definition FLAGS_IS_READ_ONLY :: u8 where "FLAGS_IS_READ_ONLY = push_bit 1 1"

definition FLAGS_IS_EMPTY :: u8 where "FLAGS_IS_EMPTY = push_bit 2 1"

definition FLAGS_IS_COMPACT :: u8 where "FLAGS_IS_COMPACT = push_bit 3 1"

definition FLAGS_IS_ORDERED :: u8 where "FLAGS_IS_ORDERED = push_bit 4 1"

lemmas theta_flags =
  FLAGS_IS_READ_ONLY_def FLAGS_IS_EMPTY_def FLAGS_IS_COMPACT_def FLAGS_IS_ORDERED_def

section \<open>Writing\<close>

definition ct_is_estimation_mode :: "compact_theta \<Rightarrow> bool" where
  "ct_is_estimation_mode s \<longleftrightarrow> ct_theta s < MAX_THETA"

definition preamble_longs :: "compact_theta \<Rightarrow> bool \<Rightarrow> u8" where
  "preamble_longs s compressed =
     (if compressed then if ct_is_estimation_mode s then 2 else 1
      else if ct_is_estimation_mode s then 3
      else if ct_empty s \<or> length (ct_entries s) = 1 then 1
      else 2)"

definition is_suitable_for_compression :: "compact_theta \<Rightarrow> bool" where
  "is_suitable_for_compression s \<longleftrightarrow>
     ct_ordered s \<and> ct_entries s \<noteq> [] \<and> (length (ct_entries s) \<noteq> 1 \<or> ct_is_estimation_mode s)"

definition serialize_flags :: "compact_theta \<Rightarrow> u8" where
  "serialize_flags s =
     (let flags = 0;
          flags = flags OR FLAGS_IS_READ_ONLY;
          flags = flags OR FLAGS_IS_COMPACT;
          flags = (if ct_empty s then flags OR FLAGS_IS_EMPTY else flags);
          flags = (if ct_ordered s then flags OR FLAGS_IS_ORDERED else flags)
      in flags)"

definition theta_serialize :: "compact_theta \<Rightarrow> u8 list" where
  "theta_serialize s =
     (let bytes = with_capacity (64 + length (ct_entries s) * 8);
          pre_longs = preamble_longs s False;
          bytes = write_u8 bytes pre_longs;
          bytes = write_u8 bytes UNCOMPRESSED_SERIAL_VERSION;
          bytes = write_u8 bytes (fam_id family_theta);
          bytes = write_u16_be bytes 0;
          bytes = write_u8 bytes (serialize_flags s);
          bytes = write_u16_le bytes (ct_seed_hash s);
          bytes = (if 1 < pre_longs then
                     let bytes = write_u32_le bytes (of_nat (length (ct_entries s)))
                     in write_u32_be bytes 0
                   else bytes);
          bytes = (if ct_is_estimation_mode s then write_u64_le bytes (ct_theta s) else bytes);
          bytes = foldl write_u64_le bytes (ct_entries s)
      in into_bytes bytes)"

text \<open>The width of the deltas: the bit length of their bitwise or\<close>

fun ored_deltas :: "u64 \<Rightarrow> u64 \<Rightarrow> u64 list \<Rightarrow> u64" where
  "ored_deltas previous ored [] = ored"
| "ored_deltas previous ored (entry # entries) =
     (let delta = entry - previous in ored_deltas entry (ored OR delta) entries)"

definition compute_entry_bits :: "u64 list \<Rightarrow> nat" where
  "compute_entry_bits entries = 64 - leading_zeros (ored_deltas 0 0 entries)"

definition div_ceil :: "nat \<Rightarrow> nat \<Rightarrow> nat" where
  "div_ceil a b = (a + b - 1) div b"

definition num_entries_bytes :: "nat \<Rightarrow> nat" where
  "num_entries_bytes num_entries =
     (let n = of_nat num_entries :: u32; bits = 32 - leading_zeros n in div_ceil bits 8)"

text \<open>The count, its low bytes first\<close>

fun write_count :: "nat \<Rightarrow> u32 \<Rightarrow> u8 list \<Rightarrow> u8 list" where
  "write_count 0 n bytes = bytes"
| "write_count (Suc k) n bytes =
     (let bytes = write_u8 bytes (ucast (n AND 0xff)) in write_count k (drop_bit 8 n) bytes)"

text \<open>The differences of consecutive entries, starting from \<open>previous\<close>\<close>

fun deltas_from :: "u64 \<Rightarrow> u64 list \<Rightarrow> u64 list" where
  "deltas_from previous [] = []"
| "deltas_from previous (entry # entries) = (entry - previous) # deltas_from entry entries"

text \<open>The loop over whole blocks: it returns the previous entry, the entries left and the bytes.\<close>

function write_blocks ::
  "nat \<Rightarrow> u64 \<Rightarrow> u64 list \<Rightarrow> u8 list \<Rightarrow> (u64 \<times> u64 list \<times> u8 list) res" where
  "write_blocks entry_bits previous entries bytes =
     (if BLOCK_WIDTH \<le> length entries then
        let chunk = take BLOCK_WIDTH entries;
            deltas = deltas_from previous chunk;
            previous = last chunk
        in bind_res (pack_bits_block deltas (replicate entry_bits 0) entry_bits) (\<lambda>block.
             write_blocks entry_bits previous (drop BLOCK_WIDTH entries) (write_bytes bytes block))
      else Inr (previous, entries, bytes))"
  by pat_completeness auto
termination
  by (relation "measure (\<lambda>(_, _, entries, _). length entries)") (auto simp: BLOCK_WIDTH_def)

declare write_blocks.simps [simp del]

text \<open>The entries left over go through a \<open>BitPacker\<close> on one block of zeros.\<close>

fun pack_tail :: "nat \<Rightarrow> u64 \<Rightarrow> u64 list \<Rightarrow> bit_packer \<Rightarrow> bit_packer res" where
  "pack_tail entry_bits previous [] packer = Inr packer"
| "pack_tail entry_bits previous (entry # entries) packer =
     (let delta = entry - previous
      in bind_res (pack_value delta entry_bits packer) (pack_tail entry_bits entry entries))"

text \<open>The packed deltas: whole blocks, then the rest\<close>

definition write_deltas :: "nat \<Rightarrow> u64 list \<Rightarrow> u8 list \<Rightarrow> u8 list res" where
  "write_deltas entry_bits entries bytes =
     bind_res (write_blocks entry_bits 0 entries bytes) (\<lambda>(previous, rest, bytes).
       if rest \<noteq> [] then
         bind_res (pack_tail entry_bits previous rest (packer_new (replicate entry_bits 0)))
           (\<lambda>packer. Inr (write_bytes bytes (take (bytes_used packer) (pk_bytes packer))))
       else Inr bytes)"

definition serialize_v4 :: "compact_theta \<Rightarrow> u8 list res" where
  "serialize_v4 s =
     (let pre_longs = preamble_longs s True;
          entry_bits = compute_entry_bits (ct_entries s);
          num_bytes = num_entries_bytes (length (ct_entries s));
          compressed_bits = entry_bits * length (ct_entries s);
          compressed_bytes = div_ceil compressed_bits 8;
          out_bytes = unat pre_longs * 8 + num_bytes + compressed_bytes;
          bytes = with_capacity out_bytes;
          bytes = write_u8 bytes pre_longs;
          bytes = write_u8 bytes COMPRESSED_SERIAL_VERSION;
          bytes = write_u8 bytes (fam_id family_theta);
          bytes = write_u8 bytes (of_nat entry_bits);
          bytes = write_u8 bytes (of_nat num_bytes);
          flags = 0 OR FLAGS_IS_READ_ONLY OR FLAGS_IS_COMPACT OR FLAGS_IS_ORDERED;
          bytes = write_u8 bytes flags;
          bytes = write_u16_le bytes (ct_seed_hash s);
          bytes = (if ct_is_estimation_mode s then write_u64_le bytes (ct_theta s) else bytes);
          bytes = write_count num_bytes (of_nat (length (ct_entries s))) bytes
      in bind_res (write_deltas entry_bits (ct_entries s) bytes) (\<lambda>bytes. Inr (into_bytes bytes)))"

definition serialize_compressed :: "compact_theta \<Rightarrow> u8 list res" where
  "serialize_compressed s =
     (if is_suitable_for_compression s then serialize_v4 s else Inr (theta_serialize s))"

section \<open>Reading\<close>

text \<open>The loop of \<open>read_entries\<close>\<close>

fun read_hashes :: "nat \<Rightarrow> u64 \<Rightarrow> sketch_slice \<Rightarrow> (u64 list \<times> sketch_slice) res" where
  "read_hashes 0 theta cursor = Inr ([], cursor)"
| "read_hashes (Suc n) theta cursor =
     bind_res (insufficient_data ''entries'' (read_u64_le cursor)) (\<lambda>(hash, cursor).
       if hash = 0 \<or> theta \<le> hash then
         Inl (InvalidData ''corrupted: invalid retained hash value'')
       else bind_res (read_hashes n theta cursor) (\<lambda>(entries, cursor). Inr (hash # entries, cursor)))"

definition read_entries :: "sketch_slice \<Rightarrow> nat \<Rightarrow> u64 \<Rightarrow> (u64 list \<times> sketch_slice) res" where
  "read_entries cursor num_entries theta =
     (if 2 ^ 64 \<le> num_entries * 8 then Inl (InvalidData ''Theta entry payload length overflows'')
      else
        let required_bytes = num_entries * 8
        in if length (remaining cursor) < required_bytes then
             Inl (InvalidData ''insufficient data: Theta entries'')
           else read_hashes num_entries theta cursor)"

definition deserialize_v1 :: "sketch_slice \<Rightarrow> u64 \<Rightarrow> compact_theta res" where
  "deserialize_v1 cursor expected_seed =
     bind_res (compute_seed_hash expected_seed) (\<lambda>seed_hash.
     bind_res (insufficient_data ''<unused>'' (read_u8 cursor)) (\<lambda>(_, cursor).
     bind_res (insufficient_data ''<unused_u32_0>'' (read_u32_le cursor)) (\<lambda>(_, cursor).
     bind_res (insufficient_data ''num_entries'' (read_u32_le cursor)) (\<lambda>(num_entries, cursor).
     bind_res (insufficient_data ''<unused_u32_1>'' (read_u32_le cursor)) (\<lambda>(_, cursor).
     bind_res (insufficient_data ''theta_long'' (read_u64_le cursor)) (\<lambda>(theta, cursor).
       let num_entries = unat num_entries;
           is_empty = (num_entries = 0 \<and> theta = MAX_THETA)
       in if is_empty then Inr (compact_from_parts [] theta seed_hash True True)
          else bind_res (read_entries cursor num_entries theta) (\<lambda>(entries, _).
            Inr (compact_from_parts entries theta seed_hash True False))))))))"

definition deserialize_v2 :: "u8 \<Rightarrow> sketch_slice \<Rightarrow> u64 \<Rightarrow> compact_theta res" where
  "deserialize_v2 pre_longs cursor expected_seed =
     bind_res (insufficient_data ''<unused>'' (read_u8 cursor)) (\<lambda>(_, cursor).
     bind_res (insufficient_data ''<unused_u16>'' (read_u16_le cursor)) (\<lambda>(_, cursor).
     bind_res (insufficient_data ''seed_hash'' (read_u16_le cursor)) (\<lambda>(seed_hash, cursor).
     bind_res (compute_seed_hash expected_seed) (\<lambda>expected.
     bind_res (check_seed_hash expected seed_hash InvalidData) (\<lambda>_.
       if pre_longs = V2_PREAMBLE_EMPTY then
         Inr (compact_from_parts [] MAX_THETA seed_hash True True)
       else if pre_longs = V2_PREAMBLE_PRECISE then
         bind_res (insufficient_data ''num_entries'' (read_u32_le cursor)) (\<lambda>(num_entries, cursor).
         bind_res (insufficient_data ''<unused_u32>'' (read_u32_le cursor)) (\<lambda>(_, cursor).
         bind_res (read_entries cursor (unat num_entries) MAX_THETA) (\<lambda>(entries, _).
           Inr (compact_from_parts entries MAX_THETA seed_hash True (num_entries = 0)))))
       else if pre_longs = V2_PREAMBLE_ESTIMATE then
         bind_res (insufficient_data ''num_entries'' (read_u32_le cursor)) (\<lambda>(num_entries, cursor).
         bind_res (insufficient_data ''<unused_u32>'' (read_u32_le cursor)) (\<lambda>(_, cursor).
         bind_res (insufficient_data ''theta_long'' (read_u64_le cursor)) (\<lambda>(theta, cursor).
           let is_empty = (num_entries = 0 \<and> theta = MAX_THETA)
           in bind_res (read_entries cursor (unat num_entries) theta) (\<lambda>(entries, _).
                Inr (compact_from_parts entries theta seed_hash True is_empty)))))
       else Inl (InvalidData ''invalid preamble longs''))))))"

definition deserialize_v3 :: "u8 \<Rightarrow> sketch_slice \<Rightarrow> u64 \<Rightarrow> compact_theta res" where
  "deserialize_v3 pre_longs cursor expected_seed =
     bind_res (insufficient_data ''<unused_u32>'' (read_u16_le cursor)) (\<lambda>(_, cursor).
     bind_res (insufficient_data ''flags'' (read_u8 cursor)) (\<lambda>(flags, cursor).
     bind_res (insufficient_data ''seed_hash'' (read_u16_le cursor)) (\<lambda>(seed_hash, cursor).
       let is_empty = (flags AND FLAGS_IS_EMPTY \<noteq> 0);
           ordered = (flags AND FLAGS_IS_ORDERED \<noteq> 0)
       in if \<not> is_empty then
            bind_res (compute_seed_hash expected_seed) (\<lambda>expected.
            bind_res (check_seed_hash expected seed_hash InvalidData) (\<lambda>_.
            bind_res
              (if pre_longs = 1 then Inr (1 :: u32, MAX_THETA, cursor)
               else
                 bind_res (insufficient_data ''num_entries'' (read_u32_le cursor)) (\<lambda>(num_entries, cursor).
                 bind_res (insufficient_data ''<unused_u32>'' (read_u32_le cursor)) (\<lambda>(_, cursor).
                   if 2 < pre_longs then
                     bind_res (insufficient_data ''theta_long'' (read_u64_le cursor)) (\<lambda>(theta, cursor).
                       Inr (num_entries, theta, cursor))
                   else Inr (num_entries, MAX_THETA, cursor))))
              (\<lambda>(num_entries, theta, cursor).
            bind_res (read_entries cursor (unat num_entries) theta) (\<lambda>(entries, _).
              Inr (compact_from_parts entries theta seed_hash ordered is_empty)))))
          else Inr (compact_from_parts [] MAX_THETA seed_hash ordered is_empty))))"

text \<open>The number of entries, low bytes first\<close>

fun read_count :: "nat \<Rightarrow> nat \<Rightarrow> nat \<Rightarrow> sketch_slice \<Rightarrow> (nat \<times> sketch_slice) res" where
  "read_count i 0 num_entries cursor = Inr (num_entries, cursor)"
| "read_count i (Suc k) num_entries cursor =
     bind_res (insufficient_data ''num_entries_byte'' (read_u8 cursor)) (\<lambda>(b, cursor).
       read_count (i + 1) k (num_entries OR push_bit (8 * i) (unat b)) cursor)"

text \<open>The whole blocks: \<open>n\<close> deltas are left to read.\<close>

function read_blocks :: "nat \<Rightarrow> nat \<Rightarrow> u64 list \<Rightarrow> sketch_slice \<Rightarrow> (u64 list \<times> nat \<times> sketch_slice) res" where
  "read_blocks entry_bits n deltas cursor =
     (if BLOCK_WIDTH \<le> n then
        bind_res (insufficient_data ''delta_block'' (read_exact entry_bits cursor)) (\<lambda>(block, cursor).
        bind_res (unpack_bits_block (replicate BLOCK_WIDTH 0) block entry_bits) (\<lambda>vs.
          read_blocks entry_bits (n - BLOCK_WIDTH) (deltas @ vs) cursor))
      else Inr (deltas, n, cursor))"
  by pat_completeness auto
termination
  by (relation "measure (\<lambda>(_, n, _, _). n)") (auto simp: BLOCK_WIDTH_def)

declare read_blocks.simps [simp del]

fun unpack_tail :: "nat \<Rightarrow> nat \<Rightarrow> bit_unpacker \<Rightarrow> u64 list res" where
  "unpack_tail entry_bits 0 unpacker = Inr []"
| "unpack_tail entry_bits (Suc n) unpacker =
     bind_res (unpack_value entry_bits unpacker) (\<lambda>(v, unpacker).
       bind_res (unpack_tail entry_bits n unpacker) (\<lambda>vs. Inr (v # vs)))"

text \<open>Undoing the deltas, with \<open>checked_add\<close>\<close>

fun undo_deltas :: "u64 \<Rightarrow> u64 \<Rightarrow> u64 list \<Rightarrow> u64 list res" where
  "undo_deltas theta previous [] = Inr []"
| "undo_deltas theta previous (e # es) =
     (if 2 ^ 64 \<le> unat e + unat previous then Inl (InvalidData ''Theta entry delta overflows'')
      else
        let e = e + previous
        in if e = 0 \<or> theta \<le> e then Inl (InvalidData ''corrupted: invalid retained hash value'')
           else bind_res (undo_deltas theta e es) (\<lambda>entries. Inr (e # entries)))"

text \<open>The packed deltas: the length check, whole blocks, the rest, and the sums\<close>

definition read_deltas :: "nat \<Rightarrow> nat \<Rightarrow> u64 \<Rightarrow> sketch_slice \<Rightarrow> u64 list res" where
  "read_deltas entry_bits num_entries theta cursor =
     (if 2 ^ 64 \<le> num_entries * entry_bits + 7 then
        Inl (InvalidData ''Theta compressed payload length overflows'')
      else
        let required_bytes = (num_entries * entry_bits + 7) div 8
        in if length (remaining cursor) < required_bytes then
             Inl (InvalidData ''insufficient data: Theta compressed entries'')
           else
             bind_res (read_blocks entry_bits num_entries [] cursor) (\<lambda>(deltas, n, cursor).
             bind_res
               (if 0 < n then
                  let bytes_needed = div_ceil (n * entry_bits) 8
                  in bind_res (insufficient_data ''delta_tail'' (read_exact bytes_needed cursor))
                       (\<lambda>(tail, cursor). unpack_tail entry_bits n (unpacker_new tail))
                else Inr []) (\<lambda>tail_deltas.
               undo_deltas theta 0 (deltas @ tail_deltas))))"

definition deserialize_v4 :: "u8 \<Rightarrow> sketch_slice \<Rightarrow> u64 \<Rightarrow> compact_theta res" where
  "deserialize_v4 pre_longs cursor expected_seed =
     bind_res (insufficient_data ''entry_bits'' (read_u8 cursor)) (\<lambda>(entry_bits, cursor).
     bind_res (insufficient_data ''num_entries'' (read_u8 cursor)) (\<lambda>(num_bytes, cursor).
     bind_res (ensure (num_bytes \<le> 4) (InvalidData ''Theta entry count uses too many bytes'')) (\<lambda>_.
     bind_res (insufficient_data ''flags'' (read_u8 cursor)) (\<lambda>(flags, cursor).
     bind_res (insufficient_data ''seed_hash'' (read_u16_le cursor)) (\<lambda>(seed_hash, cursor).
       let is_empty = (flags AND FLAGS_IS_EMPTY \<noteq> 0)
       in bind_res
            (if \<not> is_empty then
               bind_res (compute_seed_hash expected_seed) (\<lambda>expected.
                 check_seed_hash expected seed_hash InvalidData)
             else Inr ()) (\<lambda>_.
          bind_res
            (if 1 < pre_longs then insufficient_data ''theta_long'' (read_u64_le cursor)
             else Inr (MAX_THETA, cursor)) (\<lambda>(theta, cursor).
          bind_res (read_count 0 (unat num_bytes) 0 cursor) (\<lambda>(num_entries, cursor).
          bind_res (ensure (\<not> (0 < num_entries \<and> \<not> (1 \<le> entry_bits \<and> entry_bits \<le> 63)))
            (InvalidData ''Theta entry width must be in [1, 63]'')) (\<lambda>_.
          bind_res (read_deltas (unat entry_bits) num_entries theta cursor) (\<lambda>entries.
            let ordered = (flags AND FLAGS_IS_ORDERED \<noteq> 0)
            in Inr (compact_from_parts entries theta seed_hash ordered is_empty)))))))))))"

definition deserialize_with_seed :: "u8 list \<Rightarrow> u64 \<Rightarrow> compact_theta res" where
  "deserialize_with_seed bytes seed =
     (let cursor = new_slice bytes
      in bind_res (insufficient_data ''preamble_longs'' (read_u8 cursor)) (\<lambda>(pre_longs, cursor).
         bind_res (insufficient_data ''serial_version'' (read_u8 cursor)) (\<lambda>(ser_ver, cursor).
         bind_res (insufficient_data ''family_id'' (read_u8 cursor)) (\<lambda>(family_id, cursor).
         bind_res (validate_id family_theta family_id) (\<lambda>_.
         bind_res (ensure_preamble_longs_in_range (fam_min_pre_longs family_theta)
           (fam_max_pre_longs family_theta) pre_longs) (\<lambda>_.
           if ser_ver = 1 then deserialize_v1 cursor seed
           else if ser_ver = 2 then deserialize_v2 pre_longs cursor seed
           else if ser_ver = 3 then deserialize_v3 pre_longs cursor seed
           else if ser_ver = 4 then deserialize_v4 pre_longs cursor seed
           else Inl (InvalidData ''unsupported serial version'')))))))"

definition theta_deserialize :: "u8 list \<Rightarrow> compact_theta res" where
  "theta_deserialize bytes = deserialize_with_seed bytes DEFAULT_UPDATE_SEED"

section \<open>The uncompressed format\<close>

text \<open>A compact sketch as the library builds them, with the seed hash of \<open>seed\<close>\<close>

definition compact_ok :: "u64 \<Rightarrow> compact_theta \<Rightarrow> bool" where
  "compact_ok seed s \<longleftrightarrow>
     length (ct_entries s) < 2 ^ 32 \<and> ct_theta s \<le> MAX_THETA \<and>
     (\<forall>h \<in> set (ct_entries s). 0 < h \<and> h < ct_theta s) \<and>
     (ct_empty s \<longrightarrow> ct_entries s = [] \<and> ct_theta s = MAX_THETA) \<and>
     compute_seed_hash seed = Inr (ct_seed_hash s)"

lemma read_hashes_ok:
  "remaining c = concat (map to_le_bytes es) @ rest \<Longrightarrow> \<forall>h \<in> set es. 0 < h \<and> h < theta \<Longrightarrow>
   read_hashes (length es) theta c = Inr (es, advance (8 * length es) c)"
proof (induction es arbitrary: c)
  case (Cons e es)
  have "read_u64_le c = Some (e, advance 8 c)"
    using Cons.prems(1) by (intro u64_le_codec.rd_enc) simp
  moreover have "read_hashes (length es) theta (advance 8 c) =
      Inr (es, advance (8 * length es) (advance 8 c))"
    using Cons.prems by (intro Cons.IH) simp_all
  moreover have "e \<noteq> 0" "\<not> theta \<le> e" using Cons.prems(2) by auto
  ultimately show ?case by (simp add: add.commute)
qed simp

lemma read_entries_ok:
  assumes "remaining c = concat (map to_le_bytes es) @ rest" and "\<forall>h \<in> set es. 0 < h \<and> h < theta"
    and "length es < 2 ^ 32"
  shows "read_entries c (length es) theta = Inr (es, advance (8 * length es) c)"
proof -
  have "length (remaining c) = 8 * length es + length rest"
    using assms(1) by (simp add: u64_le_codec.length_wr_many)
  then show ?thesis
    using assms(3) read_hashes_ok [OF assms(1,2)] by (simp add: read_entries_def)
qed

lemma serialize_flags_bits:
  "serialize_flags s AND 4 = (if ct_empty s then 4 else 0)"
  "serialize_flags s AND 16 = (if ct_ordered s then 16 else 0)"
  by (simp_all add: serialize_flags_def theta_flags)

lemma unat_of_length: "n < 2 ^ 32 \<Longrightarrow> unat (of_nat n :: u32) = n"
  by (simp add: unat_of_nat)

lemma theta_serialize_bytes:
  "theta_serialize s =
     preamble_longs s False # 3 # 3 # to_be_bytes (0 :: u16) @ serialize_flags s # to_le_bytes (ct_seed_hash s) @
     (if 1 < preamble_longs s False
      then to_le_bytes (of_nat (length (ct_entries s)) :: u32) @ to_be_bytes (0 :: u32) else []) @
     (if ct_is_estimation_mode s then to_le_bytes (ct_theta s) else []) @
     concat (map to_le_bytes (ct_entries s))"
  by (simp add: theta_serialize_def codec_simps u64_le_codec.wr_many Let_def
      UNCOMPRESSED_SERIAL_VERSION_def family_theta_def)

lemma theta_roundtrip_v3:
  assumes "compact_ok seed s"
  shows "deserialize_with_seed (theta_serialize s) seed = Inr s"
proof -
  have len: "length (ct_entries s) < 2 ^ 32" and max: "ct_theta s \<le> MAX_THETA"
    and hashes: "\<forall>h \<in> set (ct_entries s). 0 < h \<and> h < ct_theta s"
    and emp: "ct_empty s \<longrightarrow> ct_entries s = [] \<and> ct_theta s = MAX_THETA"
    and seed: "compute_seed_hash seed = Inr (ct_seed_hash s)"
    using assms by (auto simp: compact_ok_def)
  have s: "compact_from_parts (ct_entries s) (ct_theta s) (ct_seed_hash s) (ct_ordered s) (ct_empty s) = s"
    by (simp add: compact_from_parts_def)
  let ?bs = "theta_serialize s"
  have entries: "read_entries (advance n (new_slice ?bs)) (length (ct_entries s)) (ct_theta s) =
      Inr (ct_entries s, advance (8 * length (ct_entries s)) (advance n (new_slice ?bs)))"
    if "drop n ?bs = concat (map to_le_bytes (ct_entries s))" for n
    by (rule read_entries_ok [of _ _ "[]"]) (use that hashes len in simp_all)
  note reads = cursor_reads theta_serialize_bytes serialize_flags_bits seed unat_of_length [OF len]
    validate_id_def ensure_preamble_longs_in_range_def family_theta_def check_seed_hash_def
  consider (empty) "ct_empty s" | (estimation) "\<not> ct_empty s" "ct_theta s < MAX_THETA"
    | (single) "\<not> ct_empty s" "ct_theta s = MAX_THETA" "length (ct_entries s) = 1"
    | (exact) "\<not> ct_empty s" "ct_theta s = MAX_THETA" "length (ct_entries s) \<noteq> 1"
    using max by fastforce
  then show ?thesis
  proof cases
    case empty
    then show ?thesis using emp s
      by (cases "ct_ordered s") (simp_all add: deserialize_with_seed_def deserialize_v3_def reads preamble_longs_def
          ct_is_estimation_mode_def theta_flags Let_def del: One_nat_def)
  next
    case estimation
    have "drop 24 ?bs = concat (map to_le_bytes (ct_entries s))"
      using estimation by (simp add: reads preamble_longs_def ct_is_estimation_mode_def)
    note e = entries [OF this]
    show ?thesis using estimation s e
      by (cases "ct_ordered s") (simp_all add: deserialize_with_seed_def deserialize_v3_def reads preamble_longs_def
          ct_is_estimation_mode_def theta_flags Let_def del: One_nat_def)
  next
    case single
    have "drop 8 ?bs = concat (map to_le_bytes (ct_entries s))"
      using single by (simp add: reads preamble_longs_def ct_is_estimation_mode_def)
    note e = entries [OF this]
    show ?thesis using single s e
      by (cases "ct_ordered s") (simp_all add: deserialize_with_seed_def deserialize_v3_def reads preamble_longs_def
          ct_is_estimation_mode_def theta_flags Let_def del: One_nat_def)
  next
    case exact
    have "drop 16 ?bs = concat (map to_le_bytes (ct_entries s))"
      using exact by (simp add: reads preamble_longs_def ct_is_estimation_mode_def)
    note e = entries [OF this]
    show ?thesis using exact s e
      by (cases "ct_ordered s") (simp_all add: deserialize_with_seed_def deserialize_v3_def reads preamble_longs_def
          ct_is_estimation_mode_def theta_flags Let_def del: One_nat_def)
  qed
qed

section \<open>The compressed format\<close>

subsection \<open>Deltas\<close>

lemma length_deltas [simp]: "length (deltas_from previous es) = length es"
  by (induction es arbitrary: previous) simp_all

lemma deltas_append:
  "deltas_from previous (xs @ ys) = deltas_from previous xs @ deltas_from (last (previous # xs)) ys"
  by (induction xs arbitrary: previous) simp_all

lemma undo_deltas_ok:
  "sorted_wrt (<) (previous # es) \<Longrightarrow> \<forall>e \<in> set es. e < theta \<Longrightarrow>
   undo_deltas theta previous (deltas_from previous es) = Inr es"
proof (induction es arbitrary: previous)
  case (Cons e es)
  have lt: "previous < e" "e \<noteq> 0" "\<not> theta \<le> e" using Cons.prems by auto
  have "unat (e - previous) + unat previous = unat e"
    using lt(1) by (simp add: unat_sub less_imp_le word_less_nat_alt)
  then have "unat (e - previous) + unat previous < 2 ^ 64" using unsigned_less [of e] by simp
  moreover have "undo_deltas theta e (deltas_from e es) = Inr es"
    using Cons.prems by (intro Cons.IH) auto
  ultimately show ?case using lt(2,3) by (simp add: not_le)
qed simp

lemma bit_ored_deltas:
  "bit (ored_deltas previous ored es) i \<longleftrightarrow> bit ored i \<or> (\<exists>d \<in> set (deltas_from previous es). bit d i)"
  by (induction es arbitrary: previous ored) (auto simp: Let_def bit_or_iff)

lemma delta_le: "sorted_wrt (<) (previous # es) \<Longrightarrow> d \<in> set (deltas_from previous es) \<Longrightarrow>
    0 < d \<and> (\<exists>e \<in> set es. d \<le> e)"
proof (induction es arbitrary: previous)
  case (Cons e es)
  have lt: "previous < e" using Cons.prems by simp
  show ?case
  proof (cases "d = e - previous")
    case True
    then show ?thesis using lt by (auto simp: word_sub_le less_imp_le word_greater_zero_iff)
  next
    case False
    then have "d \<in> set (deltas_from e es)" using Cons.prems(2) by simp
    then have "0 < d \<and> (\<exists>e \<in> set es. d \<le> e)" using Cons.prems(1) by (intro Cons.IH) auto
    then show ?thesis by auto
  qed
qed simp

lemma entry_bits_bounds:
  assumes "sorted_wrt (<) (0 # es)" and "\<forall>e \<in> set es. e < MAX_THETA" and "es \<noteq> []"
  shows "1 \<le> compute_entry_bits es" and "compute_entry_bits es \<le> 63"
    and "\<forall>d \<in> set (deltas_from 0 es). take_bit (compute_entry_bits es) d = d"
proof -
  let ?o = "ored_deltas 0 0 es"
  have low: "\<not> bit d 63" if "d \<in> set (deltas_from 0 es)" for d
  proof -
    obtain e where "e \<in> set es" "d \<le> e" using delta_le [OF assms(1) \<open>d \<in> _\<close>] by blast
    then have "d < MAX_THETA" using assms(2) by (auto intro: le_less_trans)
    then have "unat d < 2 ^ 63" by (simp add: MAX_THETA_def word_less_nat_alt)
    then show ?thesis
      by (metis bit_take_bit_iff less_irrefl take_bit_nat_eq_self unsigned_take_bit_eq
          word_unat_eq_iff)
  qed
  obtain d where d: "d \<in> set (deltas_from 0 es)" using assms(3) by (cases es) auto
  then have "d \<noteq> 0" using delta_le [OF assms(1) d] by auto
  have o: "bit ?o i \<longleftrightarrow> (\<exists>d \<in> set (deltas_from 0 es). bit d i)" for i
    by (simp add: bit_ored_deltas)
  then have "?o \<noteq> 0" using d \<open>d \<noteq> 0\<close> by (metis bit_0_eq bot_apply bot_bool_def bit_word_eqI)
  then have lz: "leading_zeros ?o < 64" "bit ?o (63 - leading_zeros ?o)"
    using leading_zeros_bit [of ?o] by simp_all
  show "1 \<le> compute_entry_bits es" using lz(1) by (simp add: compute_entry_bits_def)
  have "leading_zeros ?o \<noteq> 0" using lz(2) low o by (metis diff_zero)
  then show "compute_entry_bits es \<le> 63" by (simp add: compute_entry_bits_def)
  have "i < compute_entry_bits es" if "d \<in> set (deltas_from 0 es)" "bit d i" for d i
    using bit_leading_zeros [of ?o i] that o by (auto simp: compute_entry_bits_def)
  then show "\<forall>d \<in> set (deltas_from 0 es). take_bit (compute_entry_bits es) d = d"
    by (auto intro!: bit_word_eqI simp: bit_take_bit_iff)
qed

subsection \<open>The entry count\<close>

lemma write_count_bytes:
  "write_count k n bytes = bytes @ map (\<lambda>i. ucast (drop_bit (8 * i) n)) [0..<k]"
proof (induction k arbitrary: n bytes)
  case (Suc k)
  have first: "ucast (n AND 0xff) = (ucast n :: u8)"
  proof -
    have "n AND 0xff = take_bit 8 n" by (simp add: take_bit_eq_mask mask_eq_exp_minus_1)
    then show ?thesis by (intro bit_word_eqI) (auto simp: bit_simps)
  qed
  have "map (\<lambda>i. ucast (drop_bit (8 * i) n) :: u8) [0..<Suc k] =
      ucast n # map (\<lambda>i. ucast (drop_bit (8 * i) (drop_bit 8 n))) [0..<k]"
    by (simp only: upt_conv_Cons [of 0 "Suc k"] map_Suc_upt [symmetric] zero_less_Suc)
      (simp add: comp_def add.commute)
  then show ?case using Suc by (simp add: first write_u8_def Let_def del: upt_Suc)
qed simp

lemma read_count_ok:
  "remaining c = map (\<lambda>i. ucast (drop_bit (8 * i) n)) [0..<k] @ rest \<Longrightarrow>
   read_count i k acc c = Inr (acc OR push_bit (8 * i) (take_bit (8 * k) (unat (n :: u32))), advance k c)"
proof (induction k arbitrary: c acc i n)
  case (Suc k)
  have tail: "map (\<lambda>i. ucast (drop_bit (8 * i) n) :: u8) [0..<Suc k] =
      ucast n # map (\<lambda>i. ucast (drop_bit (8 * i) (drop_bit 8 n))) [0..<k]"
    by (simp only: upt_conv_Cons [of 0 "Suc k"] map_Suc_upt [symmetric] zero_less_Suc)
      (simp add: comp_def add.commute)
  have "read_u8 c = Some (ucast n, advance 1 c)"
    using Suc.prems by (intro u8_codec.rd_enc) (simp add: tail del: upt_Suc)
  moreover have "read_count (i + 1) k (acc OR push_bit (8 * i) (unat (ucast n :: u8))) (advance 1 c) =
      Inr ((acc OR push_bit (8 * i) (unat (ucast n :: u8))) OR
           push_bit (8 * (i + 1)) (take_bit (8 * k) (unat (drop_bit 8 n))), advance k (advance 1 c))"
    using Suc.prems by (intro Suc.IH) (simp add: tail del: upt_Suc)
  moreover have "(acc OR push_bit (8 * i) (unat (ucast n :: u8))) OR
      push_bit (8 * (i + 1)) (take_bit (8 * k) (unat (drop_bit 8 n))) =
      acc OR push_bit (8 * i) (take_bit (8 * Suc k) (unat n))"
  proof (rule bit_eqI)
    fix m
    show "bit ((acc OR push_bit (8 * i) (unat (ucast n :: u8))) OR
        push_bit (8 * (i + 1)) (take_bit (8 * k) (unat (drop_bit 8 n)))) m =
        bit (acc OR push_bit (8 * i) (take_bit (8 * Suc k) (unat n))) m"
    proof (cases "m < 8 * i + 8")
      case False
      then obtain j where "m = 8 * i + 8 + j" using le_Suc_ex not_less by blast
      then show ?thesis by (simp add: bit_simps)
    qed (auto simp: bit_simps)
  qed
  ultimately show ?case by simp
qed (simp add: bit_eq_iff bit_simps)

lemma num_entries_bytes_ok:
  assumes "n < 2 ^ 32"
  shows "num_entries_bytes n \<le> 4" and "n < 2 ^ (8 * num_entries_bytes n)"
proof -
  let ?n = "of_nat n :: u32" and ?b = "32 - leading_zeros (of_nat n :: u32)"
  have b: "num_entries_bytes n = (?b + 7) div 8" by (simp add: num_entries_bytes_def div_ceil_def Let_def)
  show "num_entries_bytes n \<le> 4" unfolding b by linarith
  have "n = unat ?n" using assms by (simp add: unat_of_length)
  also have "\<dots> < 2 ^ ?b" using leading_zeros_unat [of ?n] by simp
  also have "\<dots> \<le> 2 ^ (8 * num_entries_bytes n)"
    unfolding b by (intro power_increasing) simp_all
  finally show "n < 2 ^ (8 * num_entries_bytes n)" .
qed

subsection \<open>Whole blocks\<close>

lemma write_blocks_ok:
  assumes "1 \<le> eb" and "eb \<le> 63" and "\<forall>d \<in> set (deltas_from previous es). take_bit eb d = d"
  shows "\<exists>previous' rest bs ds. write_blocks eb previous es bytes = Inr (previous', rest, bytes @ bs) \<and>
     length rest = length es mod 8 \<and> length bs = eb * (length es div 8) \<and>
     deltas_from previous es = ds @ deltas_from previous' rest \<and>
     (\<forall>c acc tl. remaining c = bs @ tl \<longrightarrow>
        read_blocks eb (length es) acc c = Inr (acc @ ds, length rest, advance (length bs) c))"
  using assms(3)
proof (induction "length es div 8" arbitrary: es previous bytes)
  case 0
  then have "length es < 8" by simp
  then show ?case
    by (simp add: write_blocks.simps [of eb] read_blocks.simps [of eb] BLOCK_WIDTH_def)
next
  case (Suc q)
  have long: "8 \<le> length es" using Suc.hyps(2) by simp
  let ?ch = "take 8 es" and ?es = "drop 8 es"
  let ?ds = "deltas_from previous ?ch"
  have ch: "length ?ds = 8" "?ch \<noteq> []" using long by auto
  have split: "deltas_from previous es = ?ds @ deltas_from (last ?ch) ?es"
    using deltas_append [of previous ?ch ?es] ch(2) by simp
  then have fits: "\<forall>d \<in> set ?ds. take_bit eb d = d"
    "\<forall>d \<in> set (deltas_from (last ?ch) ?es). take_bit eb d = d"
    using Suc.prems by auto
  obtain block where block: "pack_bits_block ?ds (replicate eb 0) eb = Inr block" "length block = eb"
    "\<forall>scratch. length scratch = 8 \<longrightarrow> unpack_bits_block scratch block eb = Inr (map (take_bit eb) ?ds)"
    using block_inverse [OF ch(1) assms(1,2), of "replicate eb 0"] by auto
  have ds: "map (take_bit eb) ?ds = ?ds" using fits(1) by (simp add: map_idI)
  have q: "q = length ?es div 8" using Suc.hyps(2) by simp
  obtain previous' rest bs ds' where IH:
    "write_blocks eb (last ?ch) ?es (bytes @ block) = Inr (previous', rest, (bytes @ block) @ bs)"
    "length rest = length ?es mod 8" "length bs = eb * (length ?es div 8)"
    "deltas_from (last ?ch) ?es = ds' @ deltas_from previous' rest"
    "\<forall>c acc tl. remaining c = bs @ tl \<longrightarrow>
       read_blocks eb (length ?es) acc c = Inr (acc @ ds', length rest, advance (length bs) c)"
    using Suc.hyps(1) [OF q fits(2), of "bytes @ block"] by blast
  have "write_blocks eb previous es bytes = Inr (previous', rest, bytes @ (block @ bs))"
    using long block(1) IH(1)
    by (simp add: write_blocks.simps [of eb _ es] BLOCK_WIDTH_def Let_def write_bytes_def)
  moreover have "length rest = length es mod 8" using IH(2) long by (simp add: le_mod_geq)
  moreover have "length (block @ bs) = eb * (length es div 8)"
    using IH(3) block(2) long by (simp add: le_div_geq)
  moreover have "deltas_from previous es = (?ds @ ds') @ deltas_from previous' rest"
    using split IH(4) by simp
  moreover have "read_blocks eb (length es) acc c = Inr (acc @ (?ds @ ds'), length rest, advance (length (block @ bs)) c)"
    if "remaining c = (block @ bs) @ tl" for c acc tl
  proof -
    have "read_exact eb c = Some (block, advance eb c)"
      using that block(2) by (intro read_exact_enough) simp_all
    then have "read_blocks eb (length es) acc c = read_blocks eb (length ?es) (acc @ ?ds) (advance eb c)"
      using long block(3) ds by (simp add: read_blocks.simps [of eb "length es"] BLOCK_WIDTH_def)
    moreover have "remaining (advance eb c) = bs @ tl" using that block(2) by simp
    ultimately show ?thesis using IH(5) block(2) by simp
  qed
  ultimately show ?case by blast
qed

subsection \<open>The entries left over\<close>

lemma pack_tail_values:
  "pack_tail eb previous es = pack_values (map (\<lambda>d. (d, eb)) (deltas_from previous es))"
proof (induction es arbitrary: previous)
  case (Cons e es)
  show ?case by (rule ext) (simp add: Cons Let_def)
qed (rule ext, simp)

lemma ceil_of_cursor:
  "8 * i + u = n \<Longrightarrow> u < 8 \<Longrightarrow>
   (if u = 0 then i else i + 1) = (n + 8 - 1) div 8 \<and> 8 * (if u = 0 then i else i + 1) < n + 8 \<and>
   n \<le> 8 * (if u = 0 then i else i + 1)" for i u n :: nat
proof -
  assume n: "8 * i + u = n" and u: "u < 8"
  show ?thesis
  proof (cases "u = 0")
    case False
    then obtain v where v: "u = Suc v" "v < 7" using u by (cases u) auto
    have "(n + 8 - 1) div 8 = (8 * (i + 1) + v) div 8" by (simp add: n [symmetric] v(1))
    also have "\<dots> = i + 1" using v(2) by simp
    finally show ?thesis using False n u by simp
  qed (use n in simp)
qed

lemma unpack_tail_values:
  "unpack_values (replicate n eb) u = Inr (vs, u') \<Longrightarrow> unpack_tail eb n u = Inr vs"
  by (induction n arbitrary: u vs u') (auto simp: bind_res_Inr_iff)

lemma pack_tail_ok:
  assumes "1 \<le> eb" and "eb \<le> 63" and "length es < 8"
    and "\<forall>d \<in> set (deltas_from previous es). take_bit eb d = d"
  shows "\<exists>p. pack_tail eb previous es (packer_new (replicate eb 0)) = Inr p \<and>
     length (take (bytes_used p) (pk_bytes p)) = div_ceil (length es * eb) 8 \<and>
     unpack_tail eb (length es) (unpacker_new (take (bytes_used p) (pk_bytes p))) =
       Inr (deltas_from previous es)"
proof -
  let ?ds = "deltas_from previous es"
  let ?vs = "map (\<lambda>d. (d, eb)) ?ds" and ?n = "length es * eb"
  have total: "total_bits (map snd ?vs) = ?n"
    by (simp add: total_bits_def comp_def sum_list_triv)
  have snd: "map snd ?vs = replicate (length es) eb" by (simp add: comp_def map_replicate_const)
  have le: "?n \<le> 8 * eb" using assms(3) by simp
  obtain p where p: "pack_values ?vs (packer_new (replicate eb 0)) = Inr p" "packer_ok p"
      "packer_cursor p = ?n" "length (pk_bytes p) = eb" "packed p = all_bits ?vs"
  proof -
    let ?p = "packer_new (replicate eb 0)"
    have new: "packer_ok ?p" "packer_cursor ?p = 0" "length (pk_bytes ?p) = eb" "packed ?p = []"
      by (simp_all add: packer_new_def packer_ok_def packer_cursor_def packed_def)
    have wide: "\<forall>(v, bits) \<in> set ?vs. bits \<le> 64" using assms(2) by auto
    have "packer_cursor ?p + total_bits (map snd ?vs) \<le> 8 * length (pk_bytes ?p)"
      using le by (simp only: new total add_0)
    from pack_values_ok [OF new(1) wide this] show ?thesis
      unfolding new total add_0 append_Nil using that by blast
  qed
  have used: "bytes_used p = div_ceil ?n 8" "8 * bytes_used p < ?n + 8" "?n \<le> 8 * bytes_used p"
    using ceil_of_cursor [of "pk_index p" "pk_used p" ?n] p(2,3)
    unfolding packer_ok_def packer_cursor_def bytes_used_def div_ceil_def by blast+
  then have room: "bytes_used p \<le> eb" using le by linarith
  let ?bs = "take (bytes_used p) (pk_bytes p)"
  have u: "unpacker_ok (unpacker_new ?bs)" "unpacker_cursor (unpacker_new ?bs) = 0"
      "up_bytes (unpacker_new ?bs) = ?bs"
    by (simp_all add: unpacker_new_def unpacker_ok_def unpacker_cursor_def)
  have "take ?n (pending (unpacker_new ?bs)) = take ?n (stream_of 8 ?bs)"
    by (simp add: pending_def u)
  also have "\<dots> = take ?n (stream_of 8 (pk_bytes p))"
    using used(3) room p(4) by (simp add: stream_of_take min_def)
  also have "\<dots> = all_bits ?vs" using p(3,5) by (simp add: packed_def)
  finally have pend: "take (total_bits (map snd ?vs)) (pending (unpacker_new ?bs)) = all_bits ?vs"
    by (simp only: total)
  obtain u' where "unpack_values (map snd ?vs) (unpacker_new ?bs) =
      Inr (map (\<lambda>(v, bits). take_bit bits v) ?vs, u')"
    using unpack_values_ok [OF u(1) _ pend] assms(2) u used(3) room p(4) total by auto
  moreover have "map (\<lambda>(v, bits). take_bit bits v) ?vs = ?ds"
    using assms(4) by (simp add: comp_def map_idI)
  ultimately have "unpack_tail eb (length es) (unpacker_new ?bs) = Inr ?ds"
    unfolding snd by (intro unpack_tail_values) simp
  then show ?thesis using p(1,4) used(1) room by (simp add: pack_tail_values)
qed

subsection \<open>The round trip\<close>

lemma deltas_roundtrip:
  assumes eb: "1 \<le> eb" "eb \<le> 63" and fits: "\<forall>d \<in> set (deltas_from 0 es). take_bit eb d = d"
    and sorted: "sorted_wrt (<) (0 # es)" and len: "length es < 2 ^ 32"
  shows "\<exists>payload. write_deltas eb es bytes = Inr (bytes @ payload) \<and>
     (\<forall>c theta tl. remaining c = payload @ tl \<longrightarrow> (\<forall>e \<in> set es. e < theta) \<longrightarrow>
        read_deltas eb (length es) theta c = Inr es)"
proof -
  obtain previous' rest bs ds where W:
    "write_blocks eb 0 es bytes = Inr (previous', rest, bytes @ bs)"
    "length rest = length es mod 8" "length bs = eb * (length es div 8)"
    "deltas_from 0 es = ds @ deltas_from previous' rest"
    "\<forall>c acc tl. remaining c = bs @ tl \<longrightarrow>
       read_blocks eb (length es) acc c = Inr (acc @ ds, length rest, advance (length bs) c)"
    using write_blocks_ok [OF eb fits, of bytes] by blast
  have rest: "length rest < 8" using W(2) by simp
  have fits': "\<forall>d \<in> set (deltas_from previous' rest). take_bit eb d = d" using fits W(4) by simp
  obtain p where P: "pack_tail eb previous' rest (packer_new (replicate eb 0)) = Inr p"
     "length (take (bytes_used p) (pk_bytes p)) = div_ceil (length rest * eb) 8"
     "unpack_tail eb (length rest) (unpacker_new (take (bytes_used p) (pk_bytes p))) =
       Inr (deltas_from previous' rest)"
    using pack_tail_ok [OF eb rest fits'] by blast
  define tb where "tb = (if rest = [] then [] else take (bytes_used p) (pk_bytes p))"
  have tb: "length tb = div_ceil (length rest * eb) 8"
    using P(2) by (simp add: tb_def div_ceil_def)
  have written: "write_deltas eb es bytes = Inr (bytes @ (bs @ tb))"
    using W(1) P(1) by (auto simp: write_deltas_def tb_def write_bytes_def)
  have bound: "length es * eb + 7 < 2 ^ 64"
  proof -
    have "length es * eb \<le> 2 ^ 32 * 63" using len eb(2) by (intro mult_le_mono) simp_all
    then show ?thesis by simp
  qed
  have "length es * eb = 8 * (eb * (length es div 8)) + length rest * eb"
  proof -
    have "length es * eb = (8 * (length es div 8) + length es mod 8) * eb" by simp
    also have "\<dots> = 8 * (eb * (length es div 8)) + length es mod 8 * eb"
      by (simp only: add_mult_distrib mult.commute [of "length es div 8" eb] mult.assoc)
    finally show ?thesis by (simp only: W(2))
  qed
  then have size: "(length es * eb + 7) div 8 = length bs + length tb"
    by (simp add: W(3) tb div_ceil_def add.assoc)
  have "read_deltas eb (length es) theta c = Inr es"
    if c: "remaining c = (bs @ tb) @ tl" and theta: "\<forall>e \<in> set es. e < theta" for c theta tl
  proof -
    have blocks: "read_blocks eb (length es) [] c = Inr (ds, length rest, advance (length bs) c)"
      using W(5) c by simp
    have "read_exact (div_ceil (length rest * eb) 8) (advance (length bs) c) =
        Some (tb, advance (div_ceil (length rest * eb) 8) (advance (length bs) c))"
      using c tb by (intro read_exact_enough) simp_all
    moreover have "undo_deltas theta 0 (ds @ deltas_from previous' rest) = Inr es"
      using undo_deltas_ok [OF sorted theta] W(4) by simp
    moreover have "\<not> length (remaining c) < length bs + length tb" using c by simp
    ultimately show ?thesis
      using blocks bound P(3) W(4)
      by (cases "rest = []") (simp_all add: read_deltas_def size tb_def)
  qed
  then show ?thesis using written by blast
qed

lemma theta_roundtrip_v4:
  assumes "compact_ok seed s" and ord: "ct_ordered s" "sorted_wrt (<) (ct_entries s)"
    and nonempty: "ct_entries s \<noteq> []"
  shows "\<exists>bytes. serialize_v4 s = Inr bytes \<and> deserialize_with_seed bytes seed = Inr s"
proof -
  let ?es = "ct_entries s"
  let ?eb = "compute_entry_bits ?es" and ?nb = "num_entries_bytes (length ?es)"
  have len: "length ?es < 2 ^ 32" and max: "ct_theta s \<le> MAX_THETA"
    and hashes: "\<forall>h \<in> set ?es. 0 < h \<and> h < ct_theta s"
    and emp: "\<not> ct_empty s" and seed: "compute_seed_hash seed = Inr (ct_seed_hash s)"
    using assms(1) nonempty by (auto simp: compact_ok_def)
  have sorted: "sorted_wrt (<) (0 # ?es)" using ord(2) hashes by simp
  have "\<forall>e \<in> set ?es. e < MAX_THETA" using hashes max by (auto intro: less_le_trans)
  note eb = entry_bits_bounds [OF sorted this nonempty]
  note nb = num_entries_bytes_ok [OF len]
  let ?count = "map (\<lambda>i. ucast (drop_bit (8 * i) (of_nat (length ?es) :: u32))) [0..<?nb] :: u8 list"
  define header where "header = preamble_longs s True # 4 # 3 # of_nat ?eb # of_nat ?nb #
    26 # to_le_bytes (ct_seed_hash s) @ (if ct_is_estimation_mode s then to_le_bytes (ct_theta s) else [])"
  obtain payload where P: "write_deltas ?eb ?es (header @ ?count) = Inr ((header @ ?count) @ payload)"
    "\<forall>c theta tl. remaining c = payload @ tl \<longrightarrow> (\<forall>e \<in> set ?es. e < theta) \<longrightarrow>
        read_deltas ?eb (length ?es) theta c = Inr ?es"
    using deltas_roundtrip [OF eb sorted len] by blast
  let ?bytes = "header @ ?count @ payload"
  have "serialize_v4 s = bind_res (write_deltas ?eb ?es (header @ ?count)) Inr"
    by (simp add: serialize_v4_def codec_simps write_count_bytes Let_def theta_flags
        COMPRESSED_SERIAL_VERSION_def family_theta_def header_def)
  then have "serialize_v4 s = Inr ?bytes" by (simp add: P(1))
  moreover have "deserialize_with_seed ?bytes seed = Inr s"
  proof -
    let ?pos = "length header"
    have "read_count 0 ?nb 0 (advance ?pos (new_slice ?bytes)) =
        Inr (take_bit (8 * ?nb) (unat (of_nat (length ?es) :: u32)), advance ?nb (advance ?pos (new_slice ?bytes)))"
      using read_count_ok [of "advance ?pos (new_slice ?bytes)" "of_nat (length ?es)" ?nb payload 0 0]
      by simp
    moreover have "take_bit (8 * ?nb) (length ?es) = length ?es"
      using nb(2) by (simp add: take_bit_nat_eq_self)
    ultimately have count: "read_count 0 ?nb 0 (advance ?pos (new_slice ?bytes)) =
        Inr (length ?es, advance (?pos + ?nb) (new_slice ?bytes))"
      by (simp add: unat_of_length [OF len])
    have deltas: "read_deltas ?eb (length ?es) (ct_theta s) (advance (?pos + ?nb) (new_slice ?bytes)) = Inr ?es"
      using P(2) hashes by simp
    have small: "unat (of_nat ?eb :: u8) = ?eb" "unat (of_nat ?nb :: u8) = ?nb"
      "(of_nat ?nb :: u8) \<le> 4" "1 \<le> (of_nat ?eb :: u8)" "(of_nat ?eb :: u8) \<le> 63"
      using eb(1,2) nb(1) by (simp_all add: unat_of_nat word_le_nat_alt)
    have s: "compact_from_parts ?es (ct_theta s) (ct_seed_hash s) True False = s"
      using ord(1) emp by (simp add: compact_from_parts_def)
    have theta: "ct_theta s = MAX_THETA" if "\<not> ct_is_estimation_mode s"
      using that max by (simp add: ct_is_estimation_mode_def)
    show ?thesis
    proof (cases "ct_is_estimation_mode s")
      case True
      then have "?pos = 16" by (simp add: header_def)
      then show ?thesis using count deltas small s True nonempty
        by (simp add: deserialize_with_seed_def deserialize_v4_def cursor_reads header_def seed
            preamble_longs_def validate_id_def ensure_preamble_longs_in_range_def family_theta_def
            check_seed_hash_def theta_flags del: One_nat_def)
    next
      case False
      then have "?pos = 8" by (simp add: header_def)
      then show ?thesis using count deltas small s False nonempty theta
        by (simp add: deserialize_with_seed_def deserialize_v4_def cursor_reads header_def seed
            preamble_longs_def validate_id_def ensure_preamble_longs_in_range_def family_theta_def
            check_seed_hash_def theta_flags del: One_nat_def)
    qed
  qed
  ultimately show ?thesis by blast
qed

section \<open>What a reader accepts\<close>

lemma read_hashes_valid:
  "read_hashes n theta c = Inr (es, c') \<Longrightarrow> length es = n \<and> (\<forall>h \<in> set es. 0 < h \<and> h < theta)"
proof (induction n arbitrary: es c)
  case (Suc n)
  then obtain hash c1 es1 where "read_u64_le c = Some (hash, c1)" "hash \<noteq> 0" "\<not> theta \<le> hash"
    "read_hashes n theta c1 = Inr (es1, c')" "es = hash # es1"
    by (auto simp: bind_res_Inr_iff insufficient_data_Inr_iff split: if_splits)
  moreover from this have "0 < hash" "hash < theta" by (simp_all add: word_neq_0_conv not_le)
  ultimately show ?case using Suc.IH [of c1 es1] by simp
qed simp

lemma read_entries_valid:
  "read_entries c n theta = Inr (es, c') \<Longrightarrow> length es = n \<and> (\<forall>h \<in> set es. 0 < h \<and> h < theta)"
  by (auto simp: read_entries_def Let_def split: if_splits dest: read_hashes_valid)

lemma undo_deltas_valid:
  "undo_deltas theta previous ds = Inr es \<Longrightarrow>
     length es = length ds \<and> sorted (previous # es) \<and> (\<forall>h \<in> set es. 0 < h \<and> h < theta)"
proof (induction ds arbitrary: previous es)
  case (Cons d ds)
  then obtain es1 where es: "unat d + unat previous < 2 ^ 64" "d + previous \<noteq> 0" "\<not> theta \<le> d + previous"
    "undo_deltas theta (d + previous) ds = Inr es1" "es = (d + previous) # es1"
    by (auto simp: bind_res_Inr_iff Let_def split: if_splits)
  have "unat (d + previous) = unat d + unat previous"
    using es(1) by (simp add: unat_plus_if_size word_size)
  then have "previous \<le> d + previous" by (simp add: word_le_nat_alt)
  moreover have "0 < d + previous" "d + previous < theta"
    using es(2,3) by (simp_all add: word_neq_0_conv not_le)
  ultimately show ?case using Cons.IH [OF es(4)] es(5) by auto
qed simp

definition accepted :: "u64 \<Rightarrow> compact_theta \<Rightarrow> bool" where
  "accepted seed s \<longleftrightarrow> (\<forall>h \<in> set (ct_entries s). 0 < h \<and> h < ct_theta s) \<and>
     (ct_empty s \<or> compute_seed_hash seed = Inr (ct_seed_hash s))"

lemma check_seed_hash_Inr: "check_seed_hash a b k = Inr u \<longleftrightarrow> a = b"
  by (auto simp: check_seed_hash_def)

lemma deserialize_v1_accepted: "deserialize_v1 c seed = Inr s \<Longrightarrow> accepted seed s"
  by (auto simp: deserialize_v1_def bind_res_Inr_iff insufficient_data_Inr_iff accepted_def Let_def
      compact_from_parts_def split: if_splits dest!: read_entries_valid)

lemma deserialize_v2_accepted: "deserialize_v2 p c seed = Inr s \<Longrightarrow> accepted seed s"
  by (auto simp: deserialize_v2_def bind_res_Inr_iff insufficient_data_Inr_iff accepted_def Let_def
      check_seed_hash_Inr compact_from_parts_def split: if_splits dest!: read_entries_valid)

lemma deserialize_v3_accepted: "deserialize_v3 p c seed = Inr s \<Longrightarrow> accepted seed s"
  by (auto simp: deserialize_v3_def bind_res_Inr_iff insufficient_data_Inr_iff accepted_def Let_def
      check_seed_hash_Inr compact_from_parts_def split: if_splits dest!: read_entries_valid)

lemma read_deltas_valid:
  assumes "read_deltas eb n theta c = Inr es"
  shows "sorted es \<and> (\<forall>h \<in> set es. 0 < h \<and> h < theta)"
proof -
  obtain ds where "undo_deltas theta 0 ds = Inr es"
    using assms unfolding read_deltas_def Let_def bind_res_Inr_iff
    by (auto simp: bind_res_Inr_iff split: if_splits)
  from undo_deltas_valid [OF this] show ?thesis by simp
qed

lemma deserialize_v4_accepted: "deserialize_v4 p c seed = Inr s \<Longrightarrow> accepted seed s"
  by (auto simp: deserialize_v4_def bind_res_Inr_iff insufficient_data_Inr_iff ensure_Inr_iff
      accepted_def Let_def check_seed_hash_Inr compact_from_parts_def
      split: if_splits dest!: read_deltas_valid)

section \<open>Compacting a sketch\<close>

lemma iter_entries_distinct:
  assumes "table_ok h t"
  shows "distinct (map h (iter_entries t))"
  using assms distinct_flatten [of h "ht_lg_cur_size t" "ht_entries t"]
  by (simp add: table_ok_def table_shape_def iter_entries_def)

lemma theta_compact_shape:
  assumes ok: "table_ok te_hash (ts_table s)" and theta: "ht_theta (ts_table s) \<le> MAX_THETA"
    and emp: "ht_is_empty (ts_table s) \<longrightarrow> entry_set (ts_table s) = {}"
    and small: "ht_num_retained (ts_table s) < 2 ^ 32" and c: "theta_compact s ordered = Inr c"
  shows "compact_ok (ht_seed (ts_table s)) c" and "ct_ordered c \<longrightarrow> sorted_wrt (<) (ct_entries c)"
    and "set (ct_entries c) = theta_hashes s" and "distinct (ct_entries c)"
    and "ordered \<longrightarrow> ct_ordered c"
proof -
  let ?t = "ts_table s"
  let ?es = "iter_entries ?t"
  define emp_ord where "emp_ord = (ordered \<or> ht_is_empty ?t \<or>
    (length ?es = 1 \<and> (if ht_is_empty ?t then MAX_THETA else ht_theta ?t) = MAX_THETA))"
  define xs where "xs = (if emp_ord \<and> 1 < length ?es then sort_key te_hash ?es else ?es)"
  obtain sh where sh: "compute_seed_hash (ht_seed ?t) = Inr sh"
    and c: "c = compact_from_parts (map te_hash xs) (if ht_is_empty ?t then MAX_THETA else ht_theta ?t)
      sh emp_ord (ht_is_empty ?t)"
    using c unfolding xs_def emp_ord_def
    by (auto simp: theta_compact_def table_to_compact_parts_def bind_res_Inr_iff Let_def)
  have set: "set (map te_hash xs) = retained_hashes te_hash ?t"
    by (simp add: xs_def retained_hashes_def entry_set_def)
  have dist: "distinct (map te_hash xs)"
    using iter_entries_distinct [OF ok] by (auto simp: xs_def distinct_map)
  have len: "length xs = ht_num_retained ?t"
    using num_retained_card(2) [OF ok] by (simp add: xs_def)
  have lt: "0 < x \<and> x < ht_theta ?t" if "x \<in> retained_hashes te_hash ?t" for x
    using table_ok_hash_lt [OF ok that] .
  have none: "xs = []" if "ht_is_empty ?t"
    using emp that by (simp add: xs_def entry_set_def)
  show "compact_ok (ht_seed ?t) c"
    using lt theta small sh none set len by (auto simp: compact_ok_def c compact_from_parts_def)
  show "ordered \<longrightarrow> ct_ordered c" by (simp add: c compact_from_parts_def emp_ord_def)
  show "set (ct_entries c) = theta_hashes s"
    using set by (simp add: c compact_from_parts_def theta_hashes_def)
  show "distinct (ct_entries c)" using dist by (simp add: c compact_from_parts_def)
  have "sorted (map te_hash xs)" if emp_ord
  proof (cases "1 < length ?es")
    case True
    then show ?thesis using that by (simp add: xs_def)
  next
    case False
    then have "length xs \<le> 1" by (simp add: xs_def)
    then show ?thesis by (cases xs) auto
  qed
  then show "ct_ordered c \<longrightarrow> sorted_wrt (<) (ct_entries c)"
    using dist by (simp add: c compact_from_parts_def strict_sorted_iff)
qed

lemma starting_theta_le:
  assumes "0 \<le> p"
  shows "starting_theta_from_sampling_probability p \<le> MAX_THETA"
proof (cases "p < 1")
  case True
  let ?k = "\<lfloor>2 ^ 63 * p\<rfloor>"
  have "2 ^ 63 * p < 2 ^ 63 * 1" using True by (intro mult_strict_left_mono) simp_all
  then have k: "0 \<le> ?k" "?k < 2 ^ 63" using assms by (simp_all add: floor_less_iff)
  then have "uint (of_int ?k :: u64) = ?k"
    by (simp add: uint_word_of_int_eq take_bit_int_eq_self)
  then have "uint (of_int ?k :: u64) \<le> uint MAX_THETA" using k(2) by (simp add: MAX_THETA_def)
  then show ?thesis using True
    by (simp only: starting_theta_from_sampling_probability_def if_True word_le_def)
qed (simp add: starting_theta_from_sampling_probability_def)

lemma num_retained_small:
  assumes "table_ok h t" and "ht_lg_nom_size t \<le> 30"
  shows "ht_num_retained t < 2 ^ 32"
proof -
  have len: "length (ht_entries t) = 2 ^ ht_lg_cur_size t" and lg: "ht_lg_cur_size t \<le> 31"
    and num: "ht_num_retained t \<le> capacity_threshold t"
    using assms tab.wf_length [of h "ht_lg_cur_size t" "ht_entries t"]
    by (auto simp: table_ok_def table_shape_def)
  have "ht_num_retained t < 2 ^ ht_lg_cur_size t"
    using num capacity_threshold_lt [OF len] len by linarith
  also have "\<dots> \<le> 2 ^ 32" using lg by (intro power_increasing) simp_all
  finally show ?thesis .
qed

section \<open>Properties\<close>

text \<open>The seed hash of the default seed, as the other DataSketches libraries have it\<close>

text \<open>
  The uncompressed format round-trips: what \<open>serialize\<close> writes for a compact sketch,
  \<open>deserialize_with_seed\<close> reads back as the same sketch, for every mode (empty, single item,
  exact, estimation).
\<close>

theorem theta_serialize_roundtrip:
  assumes "compact_ok seed s"
  shows "deserialize_with_seed (theta_serialize s) seed = Inr s"
  by (rule theta_roundtrip_v3 [OF assms])

theorem theta_serialize_roundtrip_witness:
  "let s = compact_from_parts [7, 5] 100 0x93cc False False
   in deserialize_with_seed (theta_serialize s) DEFAULT_UPDATE_SEED = Inr s"
  unfolding Let_def
  by (rule theta_serialize_roundtrip)
    (simp add: compact_ok_def compact_from_parts_def default_seed_hash MAX_THETA_def)

text \<open>
  C18. \<open>serialize_compressed\<close> never panics on a sketch whose ordered flag tells the truth, and
  its output reads back as the same sketch: bit widths, entry count, delta coding, block packing
  and the leftover entries all agree between writer and reader.
\<close>

theorem theta_compressed_roundtrip:
  assumes "compact_ok seed s" and "ct_ordered s \<longrightarrow> sorted_wrt (<) (ct_entries s)"
  shows "\<exists>bytes. serialize_compressed s = Inr bytes \<and> deserialize_with_seed bytes seed = Inr s"
  using theta_roundtrip_v4 [OF assms(1)] theta_roundtrip_v3 [OF assms(1)] assms(2)
  by (auto simp: serialize_compressed_def is_suitable_for_compression_def)

theorem theta_compressed_roundtrip_witness:
  "let s = compact_from_parts [3, 4, 8, 15, 16, 23, 42, 108, 200, 201] 1000 0x93cc True False
   in \<exists>bytes. serialize_compressed s = Inr bytes \<and> deserialize_with_seed bytes DEFAULT_UPDATE_SEED = Inr s"
  unfolding Let_def
  by (rule theta_compressed_roundtrip)
    (simp_all add: compact_ok_def compact_from_parts_def default_seed_hash MAX_THETA_def)

text \<open>
  C20. On arbitrary bytes, whatever the version, a sketch that the reader accepts has only
  non-zero hashes below its theta, and a sketch that is not marked empty carries the seed hash
  of the expected seed.
\<close>

theorem theta_deserialize_valid:
  assumes "deserialize_with_seed bytes seed = Inr s"
  shows "(\<forall>h \<in> set (ct_entries s). h \<noteq> 0 \<and> h < ct_theta s) \<and>
     (\<not> ct_empty s \<longrightarrow> compute_seed_hash seed = Inr (ct_seed_hash s))"
proof -
  have "accepted seed s"
    using assms deserialize_v1_accepted deserialize_v2_accepted deserialize_v3_accepted
      deserialize_v4_accepted
    by (auto simp: deserialize_with_seed_def bind_res_Inr_iff split: if_splits)
  then show ?thesis by (auto simp: accepted_def)
qed

theorem theta_deserialize_valid_witness:
  "\<exists>bytes s. theta_deserialize bytes = Inr s \<and> ct_entries s = [7, 5] \<and>
     list_all (\<lambda>h. h \<noteq> 0 \<and> h < ct_theta s) (ct_entries s)"
proof -
  let ?s = "compact_from_parts [7, 5] 100 0x93cc False False"
  have read: "deserialize_with_seed (theta_serialize ?s) DEFAULT_UPDATE_SEED = Inr ?s"
    by (rule theta_roundtrip_v3)
      (simp add: compact_ok_def compact_from_parts_def default_seed_hash MAX_THETA_def)
  have "list_all (\<lambda>h. h \<noteq> 0 \<and> h < ct_theta ?s) (ct_entries ?s)"
    using theta_deserialize_valid [OF read] unfolding list_all_iff by blast
  moreover have "ct_entries ?s = [7, 5]" by (simp add: compact_from_parts_def)
  ultimately show ?thesis using read unfolding theta_deserialize_def by blast
qed

text \<open>
  C17. The whole pipeline: compacting a sketch that any sequence of updates built, ordered or not,
  serializing it in compressed form and reading the bytes back with the sketch's seed gives the
  compact sketch, whose entries are exactly the retained hashes.
\<close>

theorem theta_pipeline_roundtrip:
  assumes "4 \<le> tb_lg_k b" and "tb_lg_k b \<le> MAX_LG_K" and "0 \<le> tb_sampling_probability b"
    and "builder_build b = Inr s0" and "theta_update_all s0 vs = Inr s"
    and "theta_compact s ordered = Inr c"
  shows "\<exists>bytes. serialize_compressed c = Inr bytes \<and> deserialize_with_seed bytes (tb_seed b) = Inr c \<and>
     set (ct_entries c) = theta_hashes s \<and> distinct (ct_entries c) \<and>
     (ordered \<longrightarrow> sorted (ct_entries c))"
proof -
  let ?theta0 = "starting_theta_from_sampling_probability (tb_sampling_probability b)"
  have s0: "kmv ?theta0 {} (ts_table s0)" "ht_is_empty (ts_table s0)"
    "ht_lg_nom_size (ts_table s0) = tb_lg_k b" "ht_seed (ts_table s0) = tb_seed b"
    using builder_build_shape [OF assms(1)] assms(4) by (metis sum.inject(2))+
  have s: "kmv ?theta0 (set (map (table_hash (ts_table s0)) vs)) (ts_table s)"
    "ht_is_empty (ts_table s) = (vs = [])" "ht_lg_nom_size (ts_table s) = tb_lg_k b"
    "ht_seed (ts_table s) = tb_seed b"
    using theta_update_all_kmv [OF s0(1), of vs] assms(5) s0(2-4) by auto
  have ok: "table_ok te_hash (ts_table s)" using s(1) by (simp add: kmv_def)
  have "ht_theta (ts_table s) \<le> ?theta0" using s(1) unfolding kmv_def by blast
  then have theta: "ht_theta (ts_table s) \<le> MAX_THETA"
    using starting_theta_le [OF assms(3)] by (rule order_trans)
  have emp: "ht_is_empty (ts_table s) \<longrightarrow> entry_set (ts_table s) = {}"
  proof
    assume "ht_is_empty (ts_table s)"
    then have "retained_hashes te_hash (ts_table s) = {}" using s(1,2) by (simp add: kmv_def)
    then show "entry_set (ts_table s) = {}" by (simp add: retained_hashes_def)
  qed
  have small: "ht_num_retained (ts_table s) < 2 ^ 32"
    using assms(2) s(3) by (intro num_retained_small [OF ok]) (simp add: MAX_LG_K_def)
  note C = theta_compact_shape [OF ok theta emp small assms(6)]
  have "\<exists>bytes. serialize_compressed c = Inr bytes \<and> deserialize_with_seed bytes (tb_seed b) = Inr c"
    using theta_roundtrip_v4 [OF C(1)] theta_roundtrip_v3 [OF C(1)] C(2) s(4)
    by (auto simp: serialize_compressed_def is_suitable_for_compression_def)
  then show ?thesis using C by (auto simp: strict_sorted_iff)
qed

theorem theta_pipeline_roundtrip_witness:
  "\<exists>s0 s c bytes. builder_build theta_builder_default = Inr s0 \<and>
     theta_update_all s0 [[[1]], [[2]], [[1]]] = Inr s \<and> theta_compact s True = Inr c \<and>
     serialize_compressed c = Inr bytes \<and> deserialize_with_seed bytes DEFAULT_UPDATE_SEED = Inr c"
proof -
  let ?b = theta_builder_default
  have lg: "4 \<le> tb_lg_k ?b" "tb_lg_k ?b \<le> MAX_LG_K" "0 \<le> tb_sampling_probability ?b"
    "tb_seed ?b = DEFAULT_UPDATE_SEED"
    by (simp_all add: theta_builder_default_def DEFAULT_LG_K_def MAX_LG_K_def)
  obtain s0 where s0: "builder_build ?b = Inr s0" "ht_seed (ts_table s0) = tb_seed ?b"
    "kmv (starting_theta_from_sampling_probability (tb_sampling_probability ?b)) {} (ts_table s0)"
    by (rule builder_build_shape [OF lg(1)])
  obtain s where s: "theta_update_all s0 [[[1]], [[2]], [[1]]] = Inr s"
    "ht_seed (ts_table s) = tb_seed ?b"
    using theta_update_all_kmv [OF s0(3)] s0(2) by metis
  obtain c where c: "theta_compact s True = Inr c"
    using s(2) lg(4) default_seed_hash
    by (simp add: theta_compact_def table_to_compact_parts_def Let_def)
  show ?thesis
    using theta_pipeline_roundtrip [OF lg(1-3) s0(1) s(1) c] s0(1) s(1) c lg(4) by auto
qed

end
