(* ===== verification/SketchView.thy ===== *)
theory SketchView
  imports CompactTheta
begin

text \<open>
  The read-only views that the set operations take: the traits \<open>KeySketch\<close> and \<open>EntrySketch\<close> of
  \<open>src/datasketches/src/thetafamily/common/mod.rs\<close> as a record of the scalars and the entries in
  iteration order, and the views of the two kinds of Theta sketches
  (\<open>ThetaSketchView\<close> of \<open>theta/sketch.rs\<close>). The entries of a compact sketch are wrapped by
  \<open>ThetaEntry::new\<close>, whose panic on zero no sketch that the library builds or reads reaches.
\<close>

record 'e sketch_view =
  sv_seed_hash :: u16
  sv_theta :: u64
  sv_empty :: bool
  sv_ordered :: bool
  sv_num_retained :: nat
  sv_entries :: "'e list"

definition view_of_sketch :: "theta_sketch \<Rightarrow> theta_entry sketch_view res" where
  "view_of_sketch s =
     bind_res (compute_seed_hash (ht_seed (ts_table s))) (\<lambda>seed_hash.
       Inr \<lparr>sv_seed_hash = seed_hash, sv_theta = ht_theta (ts_table s),
         sv_empty = ht_is_empty (ts_table s), sv_ordered = False,
         sv_num_retained = ht_num_retained (ts_table s), sv_entries = iter_entries (ts_table s)\<rparr>)"

definition view_of_compact :: "compact_theta \<Rightarrow> theta_entry sketch_view" where
  "view_of_compact s =
     \<lparr>sv_seed_hash = ct_seed_hash s, sv_theta = ct_theta s, sv_empty = ct_empty s,
      sv_ordered = ct_ordered s, sv_num_retained = length (ct_entries s),
      sv_entries = map ThetaEntry (ct_entries s)\<rparr>"

definition view_hashes :: "('e \<Rightarrow> u64) \<Rightarrow> 'e sketch_view \<Rightarrow> u64 set" where
  "view_hashes h v = h ` set (sv_entries v)"

text \<open>A view of a sketch as the library builds them\<close>

definition view_ok :: "('e \<Rightarrow> u64) \<Rightarrow> u64 \<Rightarrow> 'e sketch_view \<Rightarrow> bool" where
  "view_ok h seed v \<longleftrightarrow>
     (\<forall>x \<in> view_hashes h v. 0 < x \<and> x < sv_theta v) \<and> 0 < sv_theta v \<and> sv_theta v \<le> MAX_THETA \<and>
     distinct (map h (sv_entries v)) \<and> sv_num_retained v = length (sv_entries v) \<and>
     (sv_ordered v \<longrightarrow> sorted (map h (sv_entries v))) \<and>
     (sv_empty v \<longrightarrow> sv_entries v = []) \<and>
     (\<not> sv_empty v \<longrightarrow> compute_seed_hash seed = Inr (sv_seed_hash v))"

lemma view_of_compact_ok:
  assumes "compact_ok seed s" and "0 < ct_theta s" and "distinct (ct_entries s)"
    and "ct_ordered s \<longrightarrow> sorted (ct_entries s)"
  shows "view_ok te_hash seed (view_of_compact s)"
    and "view_hashes te_hash (view_of_compact s) = set (ct_entries s)"
  using assms
  by (auto simp: view_ok_def view_of_compact_def view_hashes_def compact_ok_def image_image comp_def)

lemma view_of_sketch_ok:
  assumes ok: "table_ok te_hash (ts_table s)" and theta: "0 < ht_theta (ts_table s)"
    "ht_theta (ts_table s) \<le> MAX_THETA"
    and emp: "ht_is_empty (ts_table s) \<longrightarrow> theta_hashes s = {}"
    and v: "view_of_sketch s = Inr v"
  shows "view_ok te_hash (ht_seed (ts_table s)) v" and "view_hashes te_hash v = theta_hashes s"
    and "sv_theta v = ht_theta (ts_table s)" and "sv_empty v = ht_is_empty (ts_table s)"
proof -
  let ?t = "ts_table s"
  obtain sh where sh: "compute_seed_hash (ht_seed ?t) = Inr sh"
    and v: "v = \<lparr>sv_seed_hash = sh, sv_theta = ht_theta ?t, sv_empty = ht_is_empty ?t, sv_ordered = False,
      sv_num_retained = ht_num_retained ?t, sv_entries = iter_entries ?t\<rparr>"
    using v by (auto simp: view_of_sketch_def bind_res_Inr_iff)
  show hs: "view_hashes te_hash v = theta_hashes s"
    by (simp add: v view_hashes_def theta_hashes_def retained_hashes_def entry_set_def)
  have "\<forall>x \<in> theta_hashes s. 0 < x \<and> x < ht_theta ?t"
    using table_ok_hash_lt [OF ok] by (simp add: theta_hashes_def)
  moreover have "ht_is_empty ?t \<longrightarrow> iter_entries ?t = []"
    using emp by (simp add: theta_hashes_def retained_hashes_def entry_set_def)
  ultimately show "view_ok te_hash (ht_seed ?t) v"
    using theta sh hs iter_entries_distinct [OF ok] num_retained_card(2) [OF ok]
    by (simp add: view_ok_def v)
  show "sv_theta v = ht_theta ?t" and "sv_empty v = ht_is_empty ?t" by (simp_all add: v)
qed

text \<open>In an ordered view everything after an entry is at least as large.\<close>

lemma ordered_tail:
  "sorted (map h (e # es)) \<Longrightarrow> b \<le> h e \<Longrightarrow> x \<in> h ` set es \<Longrightarrow> b \<le> x"
  by auto

end
