(* ===== verification/ThetaUnion.thy ===== *)
theory ThetaUnion
  imports SketchView
begin

text \<open>
  The union of Theta-family sketches: \<open>UnionState\<close> of
  \<open>src/datasketches/src/thetafamily/common/union.rs\<close> and \<open>ThetaUnion\<close> of \<open>theta/union.rs\<close>. The
  merge policy is the argument \<open>merge :: 'e \<Rightarrow> 'e \<Rightarrow> 'e\<close> (existing, incoming, merged); the Theta
  policy keeps the existing entry. An update that is rejected leaves the union as it was.
\<close>

record 'e union_state =
  us_table :: "'e sketch_table"
  us_union_theta :: u64

definition union_new :: "nat \<Rightarrow> resize_factor \<Rightarrow> rat \<Rightarrow> u64 \<Rightarrow> 'e union_state res" where
  "union_new lg_k rf p seed =
     bind_res (table_new lg_k rf p seed) (\<lambda>table.
       Inr \<lparr>us_table = table, us_union_theta = ht_theta table\<rparr>)"

text \<open>The loop over the entries of the incoming sketch, with its early stop on ordered input\<close>

fun union_loop ::
  "('e \<Rightarrow> u64) \<Rightarrow> ('e \<Rightarrow> 'e \<Rightarrow> 'e) \<Rightarrow> u64 \<Rightarrow> bool \<Rightarrow> 'e sketch_table \<Rightarrow> 'e list \<Rightarrow> 'e sketch_table res" where
  "union_loop h merge union_theta ordered table [] = Inr table"
| "union_loop h merge union_theta ordered table (entry # entries) =
     (let hash = h entry
      in if hash < union_theta \<and> hash < ht_theta table then
           bind_res (upsert_entry h table hash
               \<lparr>on_existing = (\<lambda>existing. merge existing entry), on_new = Some entry\<rparr>) (\<lambda>(table, _).
             union_loop h merge union_theta ordered table entries)
         else if ordered then Inr table
         else union_loop h merge union_theta ordered table entries)"

definition union_update ::
  "('e \<Rightarrow> u64) \<Rightarrow> ('e \<Rightarrow> 'e \<Rightarrow> 'e) \<Rightarrow> 'e union_state \<Rightarrow> 'e sketch_view \<Rightarrow> 'e union_state res" where
  "union_update h merge u sketch =
     (if sv_empty sketch then Inr u
      else
        bind_res (compute_seed_hash (ht_seed (us_table u))) (\<lambda>seed_hash.
        bind_res (check_seed_hash seed_hash (sv_seed_hash sketch) InvalidArgument) (\<lambda>_.
          let table = set_empty (us_table u) False;
              union_theta = min (us_union_theta u) (sv_theta sketch)
          in bind_res (union_loop h merge union_theta (sv_ordered sketch) table (sv_entries sketch)) (\<lambda>table.
               Inr \<lparr>us_table = table, us_union_theta = min union_theta (ht_theta table)\<rparr>))))"

definition union_to_compact_parts :: "('e \<Rightarrow> u64) \<Rightarrow> 'e union_state \<Rightarrow> bool \<Rightarrow> 'e compact_parts res" where
  "union_to_compact_parts h u ordered =
     bind_res (compute_seed_hash (ht_seed (us_table u))) (\<lambda>seed_hash.
       if ht_is_empty (us_table u) then
         Inr \<lparr>cp_entries = [], cp_theta = us_union_theta u, cp_seed_hash = seed_hash,
           cp_ordered = True, cp_empty = True\<rparr>
       else
         let theta = min (us_union_theta u) (ht_theta (us_table u));
             entries = (if ht_theta (us_table u) \<le> us_union_theta u then iter_entries (us_table u)
                        else filter (\<lambda>entry. h entry < theta) (iter_entries (us_table u)));
             nominal_num = 2 ^ ht_lg_nom_size (us_table u)
         in bind_res
              (if nominal_num < length entries then
                 bind_res (select_nth_unstable_by_key nominal_num h entries) (\<lambda>(lesser, kth, greater).
                   Inr (h kth, take nominal_num (lesser @ kth # greater)))
               else Inr (theta, entries)) (\<lambda>(theta, entries).
              let ordered = (ordered \<or> (length entries = 1 \<and> theta = MAX_THETA));
                  entries = (if ordered then sort_key h entries else entries)
              in Inr \<lparr>cp_entries = entries, cp_theta = theta, cp_seed_hash = seed_hash,
                   cp_ordered = ordered, cp_empty = False\<rparr>))"

definition union_reset :: "'e union_state \<Rightarrow> 'e union_state" where
  "union_reset u = (let table = table_reset (us_table u)
     in \<lparr>us_table = table, us_union_theta = ht_theta table\<rparr>)"

section \<open>The Theta union\<close>

record theta_union =
  tu_state :: "theta_entry union_state"

definition noop_merge :: "theta_entry \<Rightarrow> theta_entry \<Rightarrow> theta_entry" where
  "noop_merge existing incoming = existing"

text \<open>The builder has the fields of the sketch builder, \<open>theta_builder\<close>.\<close>

definition theta_union_build :: "theta_builder \<Rightarrow> theta_union res" where
  "theta_union_build b =
     bind_res (union_new (tb_lg_k b) (tb_resize_factor b) (tb_sampling_probability b) (tb_seed b))
       (\<lambda>state. Inr \<lparr>tu_state = state\<rparr>)"

definition theta_union_update :: "theta_union \<Rightarrow> theta_entry sketch_view \<Rightarrow> theta_union res" where
  "theta_union_update u sketch =
     bind_res (union_update te_hash noop_merge (tu_state u) sketch) (\<lambda>state. Inr \<lparr>tu_state = state\<rparr>)"

definition theta_union_to_sketch :: "theta_union \<Rightarrow> bool \<Rightarrow> compact_theta res" where
  "theta_union_to_sketch u ordered =
     bind_res (union_to_compact_parts te_hash (tu_state u) ordered) (\<lambda>parts.
       Inr (compact_from_parts (map te_hash (cp_entries parts)) (cp_theta parts) (cp_seed_hash parts)
         (cp_ordered parts) (cp_empty parts)))"

definition theta_union_reset :: "theta_union \<Rightarrow> theta_union" where
  "theta_union_reset u = u\<lparr>tu_state := union_reset (tu_state u)\<rparr>"

section \<open>The loop\<close>

text \<open>
  The table after the hashes \<open>seen\<close>, which only have to be exact below the bound \<open>b\<close> (and below
  the table's theta): entries above the union's theta are not offered.
\<close>

definition union_table :: "('e \<Rightarrow> u64) \<Rightarrow> u64 \<Rightarrow> u64 \<Rightarrow> u64 set \<Rightarrow> 'e sketch_table \<Rightarrow> bool" where
  "union_table h theta0 b seen t \<longleftrightarrow>
     table_ok h t \<and> retained_hashes h t \<subseteq> seen \<and>
     (\<forall>x \<in> seen. 0 < x \<and> x < b \<and> x < ht_theta t \<longrightarrow> x \<in> retained_hashes h t) \<and>
     ht_theta t \<le> theta0 \<and>
     (ht_theta t = theta0 \<or> ht_theta t \<in> seen \<and> 2 ^ ht_lg_nom_size t \<le> ht_num_retained t)"

lemma union_table_mono: "union_table h theta0 b seen t \<Longrightarrow> b' \<le> b \<Longrightarrow> union_table h theta0 b' seen t"
  unfolding union_table_def by (meson less_le_trans)

lemma union_table_more:
  assumes "union_table h theta0 b seen t" and "\<forall>x \<in> extra. \<not> (x < b \<and> x < ht_theta t)"
  shows "union_table h theta0 b (seen \<union> extra) t"
  using assms unfolding union_table_def by blast

lemma union_table_upsert:
  assumes U: "union_table h theta0 b seen t" and hash: "0 < h e" "h e < b" "h e < ht_theta t"
    and merge: "\<And>x y. h (merge x y) = h x"
  shows "\<exists>t' r. upsert_entry h t (h e) \<lparr>on_existing = (\<lambda>x. merge x e), on_new = Some e\<rparr> = Inr (t', r) \<and>
     union_table h theta0 b (insert (h e) seen) t' \<and> ht_theta t' \<le> ht_theta t \<and>
     ht_is_empty t' = False \<and>
     ht_lg_nom_size t' = ht_lg_nom_size t \<and> ht_seed t' = ht_seed t"
proof -
  let ?f = "\<lparr>on_existing = (\<lambda>x. merge x e), on_new = Some e\<rparr>"
  have ok: "table_ok h t" and sub: "retained_hashes h t \<subseteq> seen" and le: "ht_theta t \<le> theta0"
    and all: "\<And>x. x \<in> seen \<Longrightarrow> 0 < x \<Longrightarrow> x < b \<Longrightarrow> x < ht_theta t \<Longrightarrow> x \<in> retained_hashes h t"
    and cases: "ht_theta t = theta0 \<or> ht_theta t \<in> seen \<and> 2 ^ ht_lg_nom_size t \<le> ht_num_retained t"
    using U unfolding union_table_def by blast+
  have f: "upsert_for h (h e) ?f" by (simp add: upsert_for_def merge)
  have nz: "h e \<noteq> 0" using hash(1) by auto
  obtain t' where t': "upsert_entry h t (h e) ?f = Inr (t', h e \<notin> retained_hashes h t \<and> on_new ?f \<noteq> None)"
    "upsert_result h t (h e) ?f t'"
    using upsert_ok [OF ok f nz hash(3)] by blast
  have ups: "h ` upserted h (entry_set t) (h e) ?f = insert (h e) (retained_hashes h t)"
    using hashes_upserted [OF f, of "entry_set t"] by (simp add: retained_hashes_def)
  have R: "table_ok h t'" "retained_hashes h t' = {x \<in> insert (h e) (retained_hashes h t). x < ht_theta t'}"
    "ht_theta t' = ht_theta t \<or>
     ht_theta t' \<in> insert (h e) (retained_hashes h t) \<and> ht_num_retained t' = 2 ^ ht_lg_nom_size t"
    "\<not> ht_is_empty t'" "ht_lg_nom_size t' = ht_lg_nom_size t" "ht_seed t' = ht_seed t"
    using t'(2) retained_filter [of t' "upserted h (entry_set t) (h e) ?f" h]
    unfolding upsert_result_def ups by blast+
  have low: "ht_theta t' \<le> ht_theta t"
    using R(3) hash(3) table_ok_hash_lt [OF ok, of "ht_theta t'"]
    by (elim disjE conjE insertE) (simp_all add: less_imp_le)
  have "x \<in> retained_hashes h t'" if "x \<in> insert (h e) seen" "0 < x" "x < b" "x < ht_theta t'" for x
    using that all [of x] low unfolding R(2) by (auto intro: less_le_trans)
  moreover have "retained_hashes h t' \<subseteq> insert (h e) seen" using sub unfolding R(2) by blast
  moreover have "ht_theta t' = theta0 \<or>
      ht_theta t' \<in> insert (h e) seen \<and> 2 ^ ht_lg_nom_size t' \<le> ht_num_retained t'"
  proof (cases "ht_theta t' = ht_theta t")
    case True
    have "retained_hashes h t \<subseteq> retained_hashes h t'"
      using table_ok_hash_lt [OF ok] unfolding R(2) True by blast
    then have "ht_num_retained t \<le> ht_num_retained t'"
      unfolding num_retained_card(1) [OF ok] num_retained_card(1) [OF R(1)]
      by (intro card_mono) (simp_all add: retained_hashes_def entry_set_def)
    then show ?thesis using cases unfolding True R(5) by auto
  next
    case False
    then show ?thesis using R(3) sub unfolding R(5) by auto
  qed
  ultimately have "union_table h theta0 b (insert (h e) seen) t'"
    using R(1) low le unfolding union_table_def by (meson order_trans)
  then show ?thesis using t'(1) R(4-6) low by blast
qed

lemma union_loop_ok:
  assumes merge: "\<And>x y. h (merge x y) = h x"
  shows "union_table h theta0 b seen t \<Longrightarrow> \<forall>e \<in> set es. 0 < h e \<Longrightarrow>
    ordered \<longrightarrow> sorted (map h es) \<Longrightarrow>
    \<exists>t'. union_loop h merge b ordered t es = Inr t' \<and> union_table h theta0 b (seen \<union> h ` set es) t' \<and>
      ht_theta t' \<le> ht_theta t \<and> (\<not> ht_is_empty t \<longrightarrow> \<not> ht_is_empty t') \<and>
      ht_lg_nom_size t' = ht_lg_nom_size t \<and> ht_seed t' = ht_seed t"
proof (induction es arbitrary: t seen)
  case Nil
  then show ?case by simp
next
  case (Cons e es)
  show ?case
  proof (cases "h e < b \<and> h e < ht_theta t")
    case True
    then obtain t1 r where t1: "upsert_entry h t (h e)
        \<lparr>on_existing = (\<lambda>x. merge x e), on_new = Some e\<rparr> = Inr (t1, r)"
      "union_table h theta0 b (insert (h e) seen) t1" "ht_is_empty t1 = False"
      "ht_lg_nom_size t1 = ht_lg_nom_size t" "ht_seed t1 = ht_seed t" "ht_theta t1 \<le> ht_theta t"
      using union_table_upsert [OF Cons.prems(1), of e merge] Cons.prems(2) merge by auto
    obtain t' where t': "union_loop h merge b ordered t1 es = Inr t'"
      "union_table h theta0 b (insert (h e) seen \<union> h ` set es) t'"
      "\<not> ht_is_empty t1 \<longrightarrow> \<not> ht_is_empty t'"
      "ht_lg_nom_size t' = ht_lg_nom_size t1" "ht_seed t' = ht_seed t1" "ht_theta t' \<le> ht_theta t1"
      using Cons.IH [OF t1(2)] Cons.prems(2,3) by auto
    have "union_loop h merge b ordered t (e # es) = Inr t'"
      using True t1(1) t'(1) by (simp add: Let_def)
    then show ?thesis using t' t1(3-6) by auto
  next
    case False
    show ?thesis
    proof (cases ordered)
      case True
      have "\<forall>x \<in> h ` set (e # es). h e \<le> x" using True Cons.prems(3) by auto
      then have "\<forall>x \<in> h ` set (e # es). \<not> (x < b \<and> x < ht_theta t)"
        using False by (meson le_less_trans)
      from union_table_more [OF Cons.prems(1) this] True False show ?thesis
        by (auto simp: Let_def)
    next
      case not: False
      have "union_table h theta0 b (seen \<union> {h e}) t"
        by (rule union_table_more [OF Cons.prems(1)]) (use False in simp)
      then have "\<exists>t'. union_loop h merge b ordered t es = Inr t' \<and>
          union_table h theta0 b (seen \<union> {h e} \<union> h ` set es) t' \<and>
          ht_theta t' \<le> ht_theta t \<and> (\<not> ht_is_empty t \<longrightarrow> \<not> ht_is_empty t') \<and>
          ht_lg_nom_size t' = ht_lg_nom_size t \<and> ht_seed t' = ht_seed t"
        using Cons.prems(2) not by (intro Cons.IH) auto
      then show ?thesis using False not by (auto simp: Let_def)
    qed
  qed
qed

section \<open>Updates\<close>

text \<open>What a sequence of inputs amounts to: the hashes of the non-empty ones, and the least theta\<close>

definition live :: "'e sketch_view list \<Rightarrow> 'e sketch_view set" where
  "live vs = {v \<in> set vs. \<not> sv_empty v}"

definition seen_hashes :: "('e \<Rightarrow> u64) \<Rightarrow> 'e sketch_view list \<Rightarrow> u64 set" where
  "seen_hashes h vs = (\<Union>v \<in> live vs. view_hashes h v)"

definition least_theta :: "u64 \<Rightarrow> 'e sketch_view list \<Rightarrow> u64" where
  "least_theta theta0 vs = Min (insert theta0 (sv_theta ` live vs))"

definition union_inv :: "('e \<Rightarrow> u64) \<Rightarrow> u64 \<Rightarrow> nat \<Rightarrow> u64 \<Rightarrow> 'e union_state \<Rightarrow> 'e sketch_view list \<Rightarrow> bool" where
  "union_inv h seed lg_k theta0 u vs \<longleftrightarrow>
     union_table h theta0 (us_union_theta u) (seen_hashes h vs) (us_table u) \<and>
     us_union_theta u = min (least_theta theta0 vs) (ht_theta (us_table u)) \<and>
     ht_is_empty (us_table u) = (live vs = {}) \<and>
     ht_lg_nom_size (us_table u) = lg_k \<and> ht_seed (us_table u) = seed"

lemma live_snoc: "live (vs @ [v]) = (if sv_empty v then live vs else insert v (live vs))"
  by (auto simp: live_def)

lemma finite_live [simp]: "finite (live vs)"
  by (simp add: live_def)

lemma least_theta_snoc:
  "least_theta theta0 (vs @ [v]) =
     (if sv_empty v then least_theta theta0 vs else min (least_theta theta0 vs) (sv_theta v))"
  by (simp add: least_theta_def live_snoc min.commute insert_commute [of theta0])

lemma seen_snoc:
  "seen_hashes h (vs @ [v]) = (if sv_empty v then seen_hashes h vs else seen_hashes h vs \<union> view_hashes h v)"
  by (auto simp: seen_hashes_def live_snoc)

lemma union_update_inv:
  assumes inv: "union_inv h seed lg_k theta0 u vs" and v: "view_ok h seed v"
    and merge: "\<And>x y. h (merge x y) = h x"
  shows "\<exists>u'. union_update h merge u v = Inr u' \<and> union_inv h seed lg_k theta0 u' (vs @ [v])"
proof (cases "sv_empty v")
  case True
  then have "live (vs @ [v]) = live vs" by (simp add: live_snoc)
  then have "union_inv h seed lg_k theta0 u (vs @ [v]) = union_inv h seed lg_k theta0 u vs"
    by (simp add: union_inv_def seen_hashes_def least_theta_def)
  then have "union_inv h seed lg_k theta0 u (vs @ [v])" using inv by simp
  then show ?thesis using True by (simp add: union_update_def)
next
  case False
  let ?t = "set_empty (us_table u) False" and ?b = "min (us_union_theta u) (sv_theta v)"
  have U: "union_table h theta0 (us_union_theta u) (seen_hashes h vs) (us_table u)"
    and b: "us_union_theta u = min (least_theta theta0 vs) (ht_theta (us_table u))"
    and k: "ht_lg_nom_size (us_table u) = lg_k" and seed: "ht_seed (us_table u) = seed"
    using inv unfolding union_inv_def by blast+
  have sh: "compute_seed_hash seed = Inr (sv_seed_hash v)" using v False by (simp add: view_ok_def)
  have "union_table h theta0 (us_union_theta u) (seen_hashes h vs) ?t"
    using U unfolding union_table_def set_empty_def by simp
  then have T: "union_table h theta0 ?b (seen_hashes h vs) ?t"
    by (rule union_table_mono) simp
  have pos: "\<forall>e \<in> set (sv_entries v). 0 < h e"
    and sorted: "sv_ordered v \<longrightarrow> sorted (map h (sv_entries v))"
    using v by (auto simp: view_ok_def view_hashes_def)
  obtain t' where t': "union_loop h merge ?b (sv_ordered v) ?t (sv_entries v) = Inr t'"
    "union_table h theta0 ?b (seen_hashes h vs \<union> h ` set (sv_entries v)) t'" "\<not> ht_is_empty t'"
    "ht_lg_nom_size t' = lg_k" "ht_seed t' = seed" "ht_theta t' \<le> ht_theta (us_table u)"
    using union_loop_ok [where merge = merge, OF merge T pos sorted] k seed
    by (auto simp: set_empty_def)
  let ?u = "\<lparr>us_table = t', us_union_theta = min ?b (ht_theta t')\<rparr>"
  have "min ?b (ht_theta t') = min (least_theta theta0 (vs @ [v])) (ht_theta t')"
    using False b t'(6) by (auto simp: least_theta_snoc min_def)
  moreover have "union_table h theta0 (min ?b (ht_theta t')) (seen_hashes h (vs @ [v])) t'"
    using union_table_mono [OF t'(2) min.cobounded1] False
    by (simp only: seen_snoc view_hashes_def if_False)
  ultimately have "union_inv h seed lg_k theta0 ?u (vs @ [v])"
    using t'(3-5) False by (simp add: union_inv_def live_snoc)
  moreover have "union_update h merge u v = Inr ?u"
    using False sh seed t'(1) by (simp add: union_update_def check_seed_hash_def Let_def)
  ultimately show ?thesis by blast
qed


section \<open>The result\<close>

text \<open>
  What a union of nominal size \<open>k\<close> promises: the hashes seen below its theta, at most \<open>k\<close> of them;
  theta is the least one of the inputs, or a hash seen with exactly \<open>k\<close> below it.
\<close>

definition bottom :: "nat \<Rightarrow> u64 \<Rightarrow> u64 set \<Rightarrow> u64 \<Rightarrow> u64 set \<Rightarrow> bool" where
  "bottom k limit S theta X \<longleftrightarrow>
     X = {x \<in> S. x < theta} \<and> theta \<le> limit \<and> card X \<le> k \<and>
     (theta = limit \<or> theta \<in> S \<and> card X = k)"

lemma bottom_theta_le:
  assumes "finite S" and "bottom k limit S theta X" and "bottom k limit S theta' X'"
  shows "theta' \<le> theta"
proof (rule ccontr)
  assume "\<not> theta' \<le> theta"
  then have lt: "theta < theta'" by simp
  have X: "X = {x \<in> S. x < theta}" "X' = {x \<in> S. x < theta'}" "card X' \<le> k" "theta' \<le> limit"
    "theta = limit \<or> theta \<in> S \<and> card X = k"
    using assms(2,3) unfolding bottom_def by blast+
  have kth: "theta \<in> S" "card X = k" using X(4,5) lt by auto
  have "insert theta X \<subseteq> X'" using lt kth(1) unfolding X(1,2) by auto
  moreover have "finite X'" using assms(1) unfolding X(2) by simp
  ultimately have "card (insert theta X) \<le> card X'" by (rule card_mono [rotated])
  moreover have "card (insert theta X) = Suc (card X)"
    using assms(1) unfolding X(1) by (intro card_insert_disjoint) simp_all
  ultimately show False using kth(2) X(3) by linarith
qed

text \<open>The promise has one solution.\<close>

lemma bottom_unique:
  assumes "finite S" and "bottom k limit S theta X" and "bottom k limit S theta' X'"
  shows "theta' = theta \<and> X' = X"
proof -
  have "theta' = theta"
    using bottom_theta_le [OF assms] bottom_theta_le [OF assms(1,3,2)] by (rule antisym)
  then show ?thesis using assms(2,3) by (simp add: bottom_def)
qed

lemma finite_seen [simp]: "finite (seen_hashes h vs)"
  by (simp add: seen_hashes_def view_hashes_def)

lemma trim_to_nominal:
  assumes "distinct (map h es)" and "h ` set es = {x \<in> S. x < theta}" and "theta \<le> limit"
    and "theta = limit \<or> theta \<in> S \<and> k \<le> length es"
  shows "\<exists>theta' es'.
     (if k < length es then
        bind_res (select_nth_unstable_by_key k h es) (\<lambda>(lesser, kth, greater).
          Inr (h kth, take k (lesser @ kth # greater)))
      else Inr (theta, es)) = Inr (theta', es') \<and>
     bottom k limit S theta' (h ` set es') \<and> distinct (map h es')"
proof (cases "k < length es")
  case True
  then obtain lesser kth greater where sel:
    "select_nth_unstable_by_key k h es = Inr (lesser, kth, greater)" "length lesser = k"
    "distinct (map h lesser)" "kth \<in> set es" "set lesser = {x \<in> set es. h x < h kth}"
    using select_nth_ok [OF assms(1)] by blast
  have kth: "h kth \<in> S" "h kth < theta" using sel(4) assms(2) by blast+
  have "h ` set lesser = {x \<in> h ` set es. x < h kth}" unfolding sel(5) by blast
  then have set: "h ` set lesser = {x \<in> S. x < h kth}"
    unfolding assms(2) using kth(2) by auto
  have "card (h ` set lesser) = k"
    using distinct_card [OF sel(3)] sel(2) by simp
  then have "bottom k limit S (h kth) (h ` set lesser)"
    using set kth assms(3) by (simp add: bottom_def)
  then show ?thesis using True sel(1-3) by simp
next
  case False
  have card: "card (h ` set es) = length es" using distinct_card [OF assms(1)] by simp
  then show ?thesis using False assms unfolding bottom_def by (auto simp flip: card)
qed

lemma union_entries_ok:
  assumes inv: "union_inv h seed lg_k theta0 u vs" and pos: "\<forall>x \<in> seen_hashes h vs. 0 < x"
    and theta: "theta = min (us_union_theta u) (ht_theta (us_table u))"
    and es: "es = (if ht_theta (us_table u) \<le> us_union_theta u then iter_entries (us_table u)
      else filter (\<lambda>e. h e < theta) (iter_entries (us_table u)))"
  shows "distinct (map h es)" and "h ` set es = {x \<in> seen_hashes h vs. x < theta}"
    and "theta \<le> least_theta theta0 vs"
    and "theta = least_theta theta0 vs \<or> theta \<in> seen_hashes h vs \<and> 2 ^ lg_k \<le> length es"
proof -
  let ?t = "us_table u" and ?S = "seen_hashes h vs" and ?T = "least_theta theta0 vs"
  have b: "us_union_theta u = min ?T (ht_theta ?t)"
    and U: "union_table h theta0 (us_union_theta u) ?S ?t" and k: "ht_lg_nom_size ?t = lg_k"
    using inv unfolding union_inv_def by blast+
  have ok: "table_ok h ?t" and sub: "retained_hashes h ?t \<subseteq> ?S"
    and all: "\<And>x. x \<in> ?S \<Longrightarrow> 0 < x \<Longrightarrow> x < us_union_theta u \<Longrightarrow> x < ht_theta ?t \<Longrightarrow> x \<in> retained_hashes h ?t"
    and fell: "ht_theta ?t = theta0 \<or> ht_theta ?t \<in> ?S \<and> 2 ^ lg_k \<le> ht_num_retained ?t"
    using U k unfolding union_table_def by blast+
  have T0: "?T \<le> theta0" by (simp add: least_theta_def)
  show "distinct (map h es)"
    using iter_entries_distinct [OF ok] by (auto simp: es distinct_map inj_on_def)
  have ret: "h ` set es = {x \<in> retained_hashes h ?t. x < theta}"
    using table_ok_hash_lt [OF ok] theta
    by (auto simp: es retained_hashes_def entry_set_def min_def)
  show set: "h ` set es = {x \<in> ?S. x < theta}"
    unfolding ret using sub all pos theta by auto
  show le: "theta \<le> ?T" unfolding theta b by simp
  show "theta = ?T \<or> theta \<in> ?S \<and> 2 ^ lg_k \<le> length es"
  proof (cases "ht_theta ?t < ?T")
    case True
    then have "theta = ht_theta ?t" "ht_theta ?t \<le> us_union_theta u" "ht_theta ?t \<noteq> theta0"
      using T0 unfolding theta b by auto
    then show ?thesis using fell num_retained_card(2) [OF ok] by (auto simp: es)
  next
    case False
    then show ?thesis unfolding theta b by simp
  qed
qed

lemma union_parts_ok:
  assumes inv: "union_inv h seed lg_k theta0 u vs" and sh: "compute_seed_hash seed = Inr sh"
    and pos: "\<forall>x \<in> seen_hashes h vs. 0 < x"
  shows "\<exists>parts. union_to_compact_parts h u ordered = Inr parts \<and>
     bottom (2 ^ lg_k) (least_theta theta0 vs) (seen_hashes h vs) (cp_theta parts) (h ` set (cp_entries parts)) \<and>
     distinct (map h (cp_entries parts)) \<and> cp_seed_hash parts = sh \<and>
     (cp_ordered parts \<longrightarrow> sorted (map h (cp_entries parts))) \<and> (ordered \<longrightarrow> cp_ordered parts) \<and>
     cp_empty parts = (live vs = {})"
proof (cases "live vs = {}")
  case True
  have "seen_hashes h vs = {}" "least_theta theta0 vs = theta0"
    using True by (simp_all add: seen_hashes_def least_theta_def)
  moreover have "us_union_theta u = min (least_theta theta0 vs) (ht_theta (us_table u))"
    "union_table h theta0 (us_union_theta u) (seen_hashes h vs) (us_table u)"
    "ht_is_empty (us_table u)" "ht_seed (us_table u) = seed"
    using inv True unfolding union_inv_def by blast+
  ultimately show ?thesis
    using sh True by (auto simp: union_to_compact_parts_def bottom_def union_table_def)
next
  case False
  let ?t = "us_table u"
  have t: "\<not> ht_is_empty ?t" "ht_seed ?t = seed" "ht_lg_nom_size ?t = lg_k"
    using inv False unfolding union_inv_def by blast+
  define theta where "theta = min (us_union_theta u) (ht_theta ?t)"
  define es where "es = (if ht_theta ?t \<le> us_union_theta u then iter_entries ?t
    else filter (\<lambda>e. h e < theta) (iter_entries ?t))"
  obtain theta' es' where trim:
    "(if 2 ^ lg_k < length es then
        bind_res (select_nth_unstable_by_key (2 ^ lg_k) h es) (\<lambda>(lesser, kth, greater).
          Inr (h kth, take (2 ^ lg_k) (lesser @ kth # greater)))
      else Inr (theta, es)) = Inr (theta', es')"
    "bottom (2 ^ lg_k) (least_theta theta0 vs) (seen_hashes h vs) theta' (h ` set es')"
    "distinct (map h es')"
    using trim_to_nominal [OF union_entries_ok [OF inv pos theta_def es_def]] by blast
  let ?ordered = "ordered \<or> length es' = 1 \<and> theta' = MAX_THETA"
  have "union_to_compact_parts h u ordered = Inr
      \<lparr>cp_entries = (if ?ordered then sort_key h es' else es'), cp_theta = theta',
       cp_seed_hash = sh, cp_ordered = ?ordered, cp_empty = False\<rparr>"
    using sh t trim(1) unfolding union_to_compact_parts_def Let_def
    by (simp only: bind_res_simps if_False flip: theta_def es_def) simp
  then show ?thesis using trim(2,3) False by (auto simp: distinct_map)
qed


lemma empty_loses_theta:
  assumes "ct_empty c" and "ct_entries c = []"
  shows "deserialize_with_seed (theta_serialize c) seed = Inr (c\<lparr>ct_theta := MAX_THETA\<rparr>)"
proof -
  note reads = cursor_reads theta_serialize_bytes serialize_flags_bits validate_id_def
    ensure_preamble_longs_in_range_def family_theta_def
  show ?thesis using assms
    by (cases "ct_ordered c"; cases "ct_theta c < MAX_THETA")
      (simp_all add: deserialize_with_seed_def deserialize_v3_def reads preamble_longs_def
        ct_is_estimation_mode_def compact_from_parts_def theta_flags Let_def del: One_nat_def)
qed

lemma starting_theta_lt:
  assumes "0 \<le> p" and "p \<le> 1 - 1 / 2 ^ 24"
  shows "starting_theta_from_sampling_probability p < MAX_THETA"
proof -
  let ?k = "\<lfloor>2 ^ 63 * p\<rfloor>"
  have "2 ^ 63 * p \<le> 2 ^ 63 * (1 - 1 / 2 ^ 24)" by (rule mult_left_mono [OF assms(2)]) simp
  also have "\<dots> < of_int (2 ^ 63 - 1)" by (simp add: right_diff_distrib)
  finally have k: "0 \<le> ?k" "?k < 2 ^ 63 - 1" using assms(1) by (simp_all add: floor_less_iff)
  then have "uint (of_int ?k :: u64) = ?k"
    by (simp add: uint_word_of_int_eq take_bit_int_eq_self)
  then have "uint (of_int ?k :: u64) < uint MAX_THETA" using k(2) by (simp add: MAX_THETA_def)
  moreover have "p < 1" using assms(2) by (rule le_less_trans) simp
  ultimately show ?thesis
    by (simp only: starting_theta_from_sampling_probability_def if_True word_less_def)
qed

section \<open>The Theta union\<close>

definition theta_union_all :: "theta_union \<Rightarrow> theta_entry sketch_view list \<Rightarrow> theta_union res" where
  "theta_union_all u vs = fold_res theta_union_update u vs"

lemma noop_merge_hash: "te_hash (noop_merge x y) = te_hash x"
  by (simp add: noop_merge_def)

lemma theta_union_build_ok: "4 \<le> tb_lg_k b \<Longrightarrow> \<exists>u. theta_union_build b = Inr u"
  by (rule table_new_shape [of "tb_lg_k b" "tb_resize_factor b" "tb_sampling_probability b" "tb_seed b" te_hash])
    (simp_all add: theta_union_build_def union_new_def)

lemma theta_union_build_inv:
  assumes "4 \<le> tb_lg_k b" and "theta_union_build b = Inr u"
  shows "union_inv te_hash (tb_seed b) (tb_lg_k b)
    (starting_theta_from_sampling_probability (tb_sampling_probability b)) (tu_state u) []"
proof -
  obtain t where t: "table_new (tb_lg_k b) (tb_resize_factor b) (tb_sampling_probability b) (tb_seed b) = Inr t"
    "table_ok te_hash t" "entry_set t = {}" "ht_is_empty t" "ht_lg_nom_size t = tb_lg_k b"
    "ht_theta t = starting_theta_from_sampling_probability (tb_sampling_probability b)"
    "ht_seed t = tb_seed b"
    by (rule table_new_shape [OF assms(1), where h = te_hash])
  then have "tu_state u = \<lparr>us_table = t, us_union_theta = ht_theta t\<rparr>"
    using assms(2) by (auto simp: theta_union_build_def union_new_def)
  then show ?thesis using t(2-7)
    by (simp add: union_inv_def union_table_def retained_hashes_def seen_hashes_def least_theta_def
        live_def)
qed

lemma theta_union_all_inv:
  assumes "union_inv te_hash seed lg_k theta0 (tu_state u) []"
    and "\<forall>v \<in> set vs. view_ok te_hash seed v"
  shows "\<exists>u'. theta_union_all u vs = Inr u' \<and> union_inv te_hash seed lg_k theta0 (tu_state u') vs"
proof -
  have "union_inv te_hash seed lg_k theta0 (tu_state u) ws \<Longrightarrow>
    \<exists>u'. theta_union_all u vs = Inr u' \<and> union_inv te_hash seed lg_k theta0 (tu_state u') (ws @ vs)" for ws
    using assms(2)
  proof (induction vs arbitrary: u ws)
    case (Cons v vs)
    obtain s where s: "union_update te_hash noop_merge (tu_state u) v = Inr s"
      "union_inv te_hash seed lg_k theta0 s (ws @ [v])"
      using union_update_inv [where merge = noop_merge, OF Cons.prems(1) _ noop_merge_hash] Cons.prems(2)
      by (metis list.set_intros(1))
    have "theta_union_update u v = Inr \<lparr>tu_state = s\<rparr>" using s(1) by (simp add: theta_union_update_def)
    then show ?case
      using Cons.IH [of "\<lparr>tu_state = s\<rparr>" "ws @ [v]"] s(2) Cons.prems(2)
      by (simp add: theta_union_all_def)
  qed (simp add: theta_union_all_def)
  from this [of "[]"] show ?thesis using assms(1) by simp
qed

text \<open>What the compact result is of a union that took in the views \<open>vs\<close>\<close>

definition union_result ::
  "u64 \<Rightarrow> nat \<Rightarrow> u64 \<Rightarrow> theta_entry sketch_view list \<Rightarrow> bool \<Rightarrow> compact_theta \<Rightarrow> bool" where
  "union_result seed lg_k theta0 vs ordered c \<longleftrightarrow>
     bottom (2 ^ lg_k) (least_theta theta0 vs) (seen_hashes te_hash vs) (ct_theta c) (set (ct_entries c)) \<and>
     distinct (ct_entries c) \<and> (ct_ordered c \<longrightarrow> sorted (ct_entries c)) \<and> (ordered \<longrightarrow> ct_ordered c) \<and>
     ct_empty c = (live vs = {}) \<and> compute_seed_hash seed = Inr (ct_seed_hash c)"

lemma seen_pos: "\<forall>v \<in> set vs. view_ok h seed v \<Longrightarrow> \<forall>x \<in> seen_hashes h vs. 0 < x"
  by (auto simp: seen_hashes_def live_def view_ok_def)

lemma theta_union_result:
  assumes "4 \<le> tb_lg_k b" and "theta_union_build b = Inr u0" and "compute_seed_hash (tb_seed b) = Inr sh"
    and "\<forall>v \<in> set vs. view_ok te_hash (tb_seed b) v"
  shows "\<exists>u c. theta_union_all u0 vs = Inr u \<and> theta_union_to_sketch u ordered = Inr c \<and>
    union_result (tb_seed b) (tb_lg_k b)
      (starting_theta_from_sampling_probability (tb_sampling_probability b)) vs ordered c"
proof -
  obtain u where u: "theta_union_all u0 vs = Inr u"
    "union_inv te_hash (tb_seed b) (tb_lg_k b)
      (starting_theta_from_sampling_probability (tb_sampling_probability b)) (tu_state u) vs"
    using theta_union_all_inv [OF theta_union_build_inv [OF assms(1,2)] assms(4)] by blast
  show ?thesis
    using union_parts_ok [OF u(2) assms(3) seen_pos [OF assms(4)], of ordered] u(1) assms(3)
    by (auto simp: theta_union_to_sketch_def union_result_def compact_from_parts_def)
qed

section \<open>Properties\<close>

text \<open>
  C9. The union of any sequence of valid views: no update is rejected or panics, and the compact
  result has a theta no larger than the starting theta and the thetas of the non-empty inputs,
  and as entries exactly the hashes of the inputs below it, each once and at most \<open>2 ^ lg_k\<close> of
  them. Theta is that least theta, or a hash of an input with \<open>2 ^ lg_k\<close> smaller ones. The
  result is sorted when it says so, and empty exactly when every input was.
\<close>

theorem theta_union_exact:
  assumes "4 \<le> tb_lg_k b" and "theta_union_build b = Inr u0" and "compute_seed_hash (tb_seed b) = Inr sh"
    and "\<forall>v \<in> set vs. view_ok te_hash (tb_seed b) v"
    and "S = (\<Union>v \<in> {v \<in> set vs. \<not> sv_empty v}. view_hashes te_hash v)"
    and "least = Min (insert (starting_theta_from_sampling_probability (tb_sampling_probability b))
           (sv_theta ` {v \<in> set vs. \<not> sv_empty v}))"
  shows "\<exists>u c. theta_union_all u0 vs = Inr u \<and> theta_union_to_sketch u ordered = Inr c \<and>
     set (ct_entries c) = {x \<in> S. x < ct_theta c} \<and> distinct (ct_entries c) \<and>
     length (ct_entries c) \<le> 2 ^ tb_lg_k b \<and> ct_theta c \<le> least \<and>
     (ct_theta c = least \<or> ct_theta c \<in> S \<and> length (ct_entries c) = 2 ^ tb_lg_k b) \<and>
     (ct_ordered c \<longrightarrow> sorted (ct_entries c)) \<and> (ordered \<longrightarrow> ct_ordered c) \<and>
     ct_empty c = (\<forall>v \<in> set vs. sv_empty v) \<and> ct_seed_hash c = sh"
proof -
  have eqs: "seen_hashes te_hash vs = S"
    "least_theta (starting_theta_from_sampling_probability (tb_sampling_probability b)) vs = least"
    "live vs = {} \<longleftrightarrow> (\<forall>v \<in> set vs. sv_empty v)"
    unfolding seen_hashes_def least_theta_def live_def assms(5,6) by auto
  obtain u c where u: "theta_union_all u0 vs = Inr u" "theta_union_to_sketch u ordered = Inr c"
    "union_result (tb_seed b) (tb_lg_k b)
      (starting_theta_from_sampling_probability (tb_sampling_probability b)) vs ordered c"
    using theta_union_result [OF assms(1-4)] by blast
  have c: "bottom (2 ^ tb_lg_k b) least S (ct_theta c) (set (ct_entries c))"
    "distinct (ct_entries c)" "ct_empty c = (\<forall>v \<in> set vs. sv_empty v)"
    "ct_ordered c \<longrightarrow> sorted (ct_entries c)" "ordered \<longrightarrow> ct_ordered c"
    "compute_seed_hash (tb_seed b) = Inr (ct_seed_hash c)"
    using u(3) unfolding union_result_def eqs by blast+
  have sh: "ct_seed_hash c = sh" using c(6) assms(3) by simp
  show ?thesis using u(1,2) sh c(2-5) c(1) [unfolded bottom_def distinct_card [OF c(2)]] by blast
qed

theorem theta_union_exact_witness:
  "let v1 = view_of_compact (compact_from_parts [5, 9] MAX_THETA 0x93cc True False);
       v2 = view_of_compact (compact_from_parts [7, 5] 100 0x93cc False False)
   in \<exists>u0 u c. theta_union_build theta_builder_default = Inr u0 \<and>
     theta_union_all u0 [v1, v2] = Inr u \<and> theta_union_to_sketch u True = Inr c \<and>
     ct_theta c \<le> 100 \<and> \<not> ct_empty c"
proof -
  let ?b = theta_builder_default
  let ?v1 = "view_of_compact (compact_from_parts [5, 9] MAX_THETA 0x93cc True False)"
  let ?v2 = "view_of_compact (compact_from_parts [7, 5] 100 0x93cc False False)"
  have lg: "4 \<le> tb_lg_k ?b" by (simp add: theta_builder_default_def DEFAULT_LG_K_def)
  have sh: "compute_seed_hash (tb_seed ?b) = Inr 0x93cc"
    by (simp add: theta_builder_default_def default_seed_hash)
  obtain u0 where u0: "theta_union_build ?b = Inr u0"
    using theta_union_build_ok [OF lg] by blast
  have ok: "\<forall>v \<in> set [?v1, ?v2]. view_ok te_hash (tb_seed ?b) v"
    using sh by (auto simp: view_ok_def view_of_compact_def compact_from_parts_def view_hashes_def MAX_THETA_def)
  have "sv_theta ?v2 = 100" "\<not> sv_empty ?v2" by (simp_all add: view_of_compact_def compact_from_parts_def)
  then have "Min (insert (starting_theta_from_sampling_probability (tb_sampling_probability ?b))
      (sv_theta ` {v \<in> set [?v1, ?v2]. \<not> sv_empty v})) \<le> 100"
    by (intro Min_le) (use image_eqI [of 100 sv_theta ?v2] in auto)
  then show ?thesis
    using theta_union_exact [OF lg u0 sh ok refl refl, of True] u0 \<open>\<not> sv_empty ?v2\<close>
    unfolding Let_def by (meson list.set_intros order_trans)
qed

text \<open>
  The ordered result of a union depends only on the set of its inputs: neither their order
  nor repeating an input changes theta, the entries, or any flag.
\<close>

theorem theta_union_order_independent:
  assumes "4 \<le> tb_lg_k b" and "theta_union_build b = Inr u0" and "compute_seed_hash (tb_seed b) = Inr sh"
    and "\<forall>v \<in> set vs. view_ok te_hash (tb_seed b) v" and "set ws = set vs"
  shows "\<exists>u u' c. theta_union_all u0 vs = Inr u \<and> theta_union_all u0 ws = Inr u' \<and>
     theta_union_to_sketch u True = Inr c \<and> theta_union_to_sketch u' True = Inr c"
proof -
  obtain u c where u: "theta_union_all u0 vs = Inr u" "theta_union_to_sketch u True = Inr c"
    "union_result (tb_seed b) (tb_lg_k b)
      (starting_theta_from_sampling_probability (tb_sampling_probability b)) vs True c"
    using theta_union_result [OF assms(1-4)] by blast
  obtain u' c' where u': "theta_union_all u0 ws = Inr u'" "theta_union_to_sketch u' True = Inr c'"
    "union_result (tb_seed b) (tb_lg_k b)
      (starting_theta_from_sampling_probability (tb_sampling_probability b)) ws True c'"
    using theta_union_result [OF assms(1-3), of ws] assms(4,5) by blast
  have same: "seen_hashes te_hash ws = seen_hashes te_hash vs" "live ws = live vs"
    "least_theta theta0 ws = least_theta theta0 vs" for theta0
    using assms(5) by (simp_all add: seen_hashes_def least_theta_def live_def)
  have "ct_theta c' = ct_theta c \<and> set (ct_entries c') = set (ct_entries c)"
    using u(3) u'(3) bottom_unique [OF finite_seen [of te_hash vs]] unfolding union_result_def same by blast
  moreover have "sorted (ct_entries c)" "distinct (ct_entries c)" "sorted (ct_entries c')"
    "distinct (ct_entries c')" "ct_ordered c" "ct_ordered c'" "ct_empty c' = ct_empty c"
    "ct_seed_hash c' = ct_seed_hash c"
    using u(3) u'(3) assms(3) unfolding union_result_def same by simp_all
  ultimately have "c' = c" using sorted_distinct_set_unique by (intro compact_theta.equality) auto
  then show ?thesis using u u' by blast
qed

theorem theta_union_order_independent_witness:
  "let v1 = view_of_compact (compact_from_parts [5, 9] MAX_THETA 0x93cc True False);
       v2 = view_of_compact (compact_from_parts [7, 5] 100 0x93cc False False)
   in \<exists>u0 u u' c. theta_union_build theta_builder_default = Inr u0 \<and>
     theta_union_all u0 [v1, v2] = Inr u \<and> theta_union_all u0 [v2, v1, v2] = Inr u' \<and>
     theta_union_to_sketch u True = Inr c \<and> theta_union_to_sketch u' True = Inr c"
proof -
  let ?b = theta_builder_default
  let ?v1 = "view_of_compact (compact_from_parts [5, 9] MAX_THETA 0x93cc True False)"
  let ?v2 = "view_of_compact (compact_from_parts [7, 5] 100 0x93cc False False)"
  have lg: "4 \<le> tb_lg_k ?b" by (simp add: theta_builder_default_def DEFAULT_LG_K_def)
  have sh: "compute_seed_hash (tb_seed ?b) = Inr 0x93cc"
    by (simp add: theta_builder_default_def default_seed_hash)
  obtain u0 where u0: "theta_union_build ?b = Inr u0"
    using theta_union_build_ok [OF lg] by blast
  have ok: "\<forall>v \<in> set [?v1, ?v2]. view_ok te_hash (tb_seed ?b) v"
    using sh by (auto simp: view_ok_def view_of_compact_def compact_from_parts_def view_hashes_def MAX_THETA_def)
  have "set [?v2, ?v1, ?v2] = set [?v1, ?v2]" by auto
  from theta_union_order_independent [OF lg u0 sh ok this] show ?thesis using u0 unfolding Let_def by blast
qed

text \<open>
  A union with a sampling probability below 1 (at most the largest \<open>f32\<close> below 1) that took
  in nothing reports its starting theta with the empty flag, a combination that no other sketch
  has: the result is in estimation mode, and writing it and reading it back does not give the
  same sketch.
\<close>

theorem theta_union_empty_theta:
  assumes "4 \<le> tb_lg_k b" and "theta_union_build b = Inr u0" and "theta_union_to_sketch u0 ordered = Inr c"
    and "0 \<le> tb_sampling_probability b" and "tb_sampling_probability b \<le> 1 - 1 / 2 ^ 24"
  shows "ct_empty c \<and> ct_is_estimation_mode c \<and>
     deserialize_with_seed (theta_serialize c) (tb_seed b) = Inr (c\<lparr>ct_theta := MAX_THETA\<rparr>) \<and>
     c\<lparr>ct_theta := MAX_THETA\<rparr> \<noteq> c"
proof -
  let ?theta0 = "starting_theta_from_sampling_probability (tb_sampling_probability b)"
  obtain t :: "theta_entry sketch_table" where
    t: "table_new (tb_lg_k b) (tb_resize_factor b) (tb_sampling_probability b) (tb_seed b) = Inr t"
    "ht_is_empty t" "ht_theta t = ?theta0"
    using table_new_shape [OF assms(1), where h = te_hash] by metis
  have c: "ct_entries c = []" "ct_theta c = ?theta0" "ct_empty c"
    using assms(2,3) t
    by (auto simp: theta_union_build_def union_new_def theta_union_to_sketch_def
        union_to_compact_parts_def bind_res_Inr_iff compact_from_parts_def)
  have "?theta0 < MAX_THETA" by (rule starting_theta_lt [OF assms(4,5)])
  then show ?thesis
    using c empty_loses_theta [OF c(3,1)]
    by (auto simp: ct_is_estimation_mode_def compact_theta.ext_inject dest: arg_cong [of _ _ ct_theta])
qed

theorem theta_union_empty_theta_witness:
  "let b = theta_builder_default\<lparr>tb_sampling_probability := 1 / 2\<rparr>
   in \<exists>u0 c. theta_union_build b = Inr u0 \<and> theta_union_to_sketch u0 True = Inr c \<and>
     theta_deserialize (theta_serialize c) \<noteq> Inr c"
proof -
  let ?b = "theta_builder_default\<lparr>tb_sampling_probability := 1 / 2\<rparr>"
  have lg: "4 \<le> tb_lg_k ?b" and p: "0 \<le> tb_sampling_probability ?b"
    "tb_sampling_probability ?b \<le> 1 - 1 / 2 ^ 24" and seed: "tb_seed ?b = DEFAULT_UPDATE_SEED"
    by (simp_all add: theta_builder_default_def DEFAULT_LG_K_def)
  obtain u0 where u0: "theta_union_build ?b = Inr u0"
    using theta_union_build_ok [OF lg] by blast
  have sh: "compute_seed_hash (tb_seed ?b) = Inr 0x93cc" using seed default_seed_hash by simp
  obtain c where c: "theta_union_to_sketch u0 True = Inr c"
    using theta_union_result [OF lg u0 sh, of "[]"] by (auto simp: theta_union_all_def)
  show ?thesis
    using theta_union_empty_theta [OF lg u0 c p] u0 c seed
    unfolding Let_def theta_deserialize_def by (metis sum.inject(2))
qed

end
