(* ===== verification/ThetaIntersection.thy ===== *)
theory ThetaIntersection
  imports SketchView
begin

text \<open>
  The intersection of Theta-family sketches: \<open>IntersectionState\<close> of
  \<open>src/datasketches/src/thetafamily/common/intersection.rs\<close> and \<open>ThetaIntersection\<close> of
  \<open>theta/intersection.rs\<close>. An update that is rejected after it has changed the state leaves the
  changed state behind, so an update returns the state next to its result.
\<close>

record 'e intersection_state =
  is_table :: "'e sketch_table"
  is_has_result :: bool

text \<open>The operator \<open>?\<close> in a method of a mutable receiver, whose current state is \<open>s\<close>\<close>

definition try_res :: "'s \<Rightarrow> 'a res \<Rightarrow> ('a \<Rightarrow> 's \<times> 'b res) \<Rightarrow> 's \<times> 'b res" where
  "try_res s r k = (case r of Inl e \<Rightarrow> (s, Inl e) | Inr x \<Rightarrow> k x)"

lemma try_res_simps [simp]:
  "try_res s (Inl e) k = (s, Inl e)"
  "try_res s (Inr x) k = k x"
  by (simp_all add: try_res_def)

definition intersection_new :: "u64 \<Rightarrow> 'e intersection_state res" where
  "intersection_new seed =
     bind_res (from_raw_parts 0 0 X1 1 MAX_THETA seed False) (\<lambda>table.
       Inr \<lparr>is_table = table, is_has_result = False\<rparr>)"

definition new_default_table :: "'e sketch_table \<Rightarrow> 'e sketch_table res" where
  "new_default_table t = from_raw_parts 0 0 X1 1 (ht_theta t) (ht_seed t) (ht_is_empty t)"

text \<open>A table that holds \<open>count\<close> entries without being rebuilt\<close>

definition sized_table :: "'e sketch_table \<Rightarrow> nat \<Rightarrow> 'e sketch_table res" where
  "sized_table t count =
     (let lg_size = lg_size_from_count_for_rebuild count HASH_TABLE_REBUILD_THRESHOLD
      in from_raw_parts lg_size (lg_size - 1) X1 1 (ht_theta t) (ht_seed t) (ht_is_empty t))"

fun insert_entries ::
  "('e \<Rightarrow> u64) \<Rightarrow> error \<Rightarrow> 'e sketch_table \<Rightarrow> 'e list \<Rightarrow> 'e sketch_table \<times> unit res" where
  "insert_entries h err table [] = (table, Inr ())"
| "insert_entries h err table (entry # entries) =
     try_res table
       (upsert_entry h table (h entry) \<lparr>on_existing = (\<lambda>existing. existing), on_new = Some entry\<rparr>)
       (\<lambda>(table, inserted).
         if \<not> inserted then (table, Inl err) else insert_entries h err table entries)"

text \<open>The entries of the sketch that the table has too, merged, and how many were looked at\<close>

fun match_entries ::
  "('e \<Rightarrow> u64) \<Rightarrow> ('e \<Rightarrow> 'e \<Rightarrow> 'e) \<Rightarrow> 'e sketch_table \<Rightarrow> bool \<Rightarrow> nat \<Rightarrow> 'e list \<Rightarrow> nat \<Rightarrow> 'e list \<Rightarrow>
     ('e list \<times> nat) res" where
  "match_entries h merge table ordered max_matches matched_entries count [] = Inr (matched_entries, count)"
| "match_entries h merge table ordered max_matches matched_entries count (entry # entries) =
     (let hash = h entry
      in if hash < ht_theta table then
           bind_res (table_entry h table hash) (\<lambda>found.
             case found of
               Some existing \<Rightarrow>
                 if length matched_entries = max_matches then
                   Inl (InvalidArgument ''max matches exceeded, possibly corrupted input sketch'')
                 else
                   match_entries h merge table ordered max_matches
                     (matched_entries @ [merge existing entry]) (count + 1) entries
             | None \<Rightarrow>
                 match_entries h merge table ordered max_matches matched_entries (count + 1) entries)
         else if ordered then Inr (matched_entries, count)
         else match_entries h merge table ordered max_matches matched_entries (count + 1) entries)"

text \<open>The first update copies the entries\<close>

definition intersection_first ::
  "('e \<Rightarrow> u64) \<Rightarrow> 'e intersection_state \<Rightarrow> 'e sketch_view \<Rightarrow> 'e intersection_state \<times> unit res" where
  "intersection_first h s sketch =
     try_res s (sized_table (is_table s) (sv_num_retained sketch)) (\<lambda>table.
       let (table, r) = insert_entries h
             (InvalidArgument ''Insert entries from sketch fail, possibly corrupted input sketch'')
             table (sv_entries sketch);
           s = s\<lparr>is_table := table\<rparr>
       in try_res s r (\<lambda>_.
            if ht_num_retained table \<noteq> sv_num_retained sketch then
              (s, Inl (InvalidArgument ''num entries mismatch, possibly corrupted input sketch''))
            else (s, Inr ())))"

text \<open>Later updates keep the entries that the sketch has too\<close>

definition intersection_next ::
  "('e \<Rightarrow> u64) \<Rightarrow> ('e \<Rightarrow> 'e \<Rightarrow> 'e) \<Rightarrow> 'e intersection_state \<Rightarrow> 'e sketch_view \<Rightarrow>
     'e intersection_state \<times> unit res" where
  "intersection_next h merge s sketch =
     (let table = is_table s;
          max_matches = min (ht_num_retained table) (sv_num_retained sketch)
      in try_res s (match_entries h merge table (sv_ordered sketch) max_matches [] 0 (sv_entries sketch))
           (\<lambda>(matched_entries, count).
             if sv_num_retained sketch < count then
               (s, Inl (InvalidArgument ''more keys than expected, possibly corrupted input sketch''))
             else if \<not> sv_ordered sketch \<and> count < sv_num_retained sketch then
               (s, Inl (InvalidArgument ''fewer keys than expected, possibly corrupted input sketch''))
             else if matched_entries = [] then
               try_res s (new_default_table table) (\<lambda>table.
                 (s\<lparr>is_table := (if ht_theta table = MAX_THETA then set_empty table True else table)\<rparr>,
                  Inr ()))
             else
               try_res s (sized_table table (length matched_entries)) (\<lambda>table.
                 let (table, r) = insert_entries h
                       (InvalidArgument ''duplicate key, possibly corrupted input sketch'')
                       table matched_entries
                 in (s\<lparr>is_table := table\<rparr>, r))))"

definition intersection_update ::
  "('e \<Rightarrow> u64) \<Rightarrow> ('e \<Rightarrow> 'e \<Rightarrow> 'e) \<Rightarrow> 'e intersection_state \<Rightarrow> 'e sketch_view \<Rightarrow>
     'e intersection_state \<times> unit res" where
  "intersection_update h merge s sketch =
     (if ht_is_empty (is_table s) then (s, Inr ())
      else
        try_res s
          (if sv_empty sketch then Inr (set_empty (is_table s) True)
           else
             bind_res (compute_seed_hash (ht_seed (is_table s))) (\<lambda>seed_hash.
             bind_res (check_seed_hash seed_hash (sv_seed_hash sketch) InvalidArgument) (\<lambda>_.
               Inr (is_table s)))) (\<lambda>table.
        let s = s\<lparr>is_table := table\<rparr>
        in try_res s
             (set_theta table
                (if ht_is_empty table then MAX_THETA else min (ht_theta table) (sv_theta sketch)))
             (\<lambda>table.
        let s = s\<lparr>is_table := table\<rparr>
        in if is_has_result s \<and> ht_num_retained table = 0 then (s, Inr ())
           else if sv_num_retained sketch = 0 then
             let s = s\<lparr>is_has_result := True\<rparr>
             in try_res s (new_default_table table) (\<lambda>table. (s\<lparr>is_table := table\<rparr>, Inr ()))
           else if \<not> is_has_result s then intersection_first h (s\<lparr>is_has_result := True\<rparr>) sketch
           else intersection_next h merge s sketch)))"

definition intersection_to_compact_parts ::
  "('e \<Rightarrow> u64) \<Rightarrow> 'e intersection_state \<Rightarrow> bool \<Rightarrow> 'e compact_parts res" where
  "intersection_to_compact_parts h s ordered =
     (let entries = iter_entries (is_table s);
          entries = (if ordered then sort_key h entries else entries)
      in bind_res (compute_seed_hash (ht_seed (is_table s))) (\<lambda>seed_hash.
         Inr \<lparr>cp_entries = entries, cp_theta = ht_theta (is_table s), cp_seed_hash = seed_hash,
           cp_ordered = ordered, cp_empty = ht_is_empty (is_table s)\<rparr>))"

section \<open>The Theta intersection\<close>

record theta_intersection =
  ti_state :: "theta_entry intersection_state"

definition noop_intersection :: "theta_entry \<Rightarrow> theta_entry \<Rightarrow> theta_entry" where
  "noop_intersection existing incoming = existing"

definition theta_intersection_new :: "u64 \<Rightarrow> theta_intersection res" where
  "theta_intersection_new seed =
     bind_res (intersection_new seed) (\<lambda>state. Inr \<lparr>ti_state = state\<rparr>)"

definition theta_intersection_update ::
  "theta_intersection \<Rightarrow> theta_entry sketch_view \<Rightarrow> theta_intersection \<times> unit res" where
  "theta_intersection_update s sketch =
     (let (state, r) = intersection_update te_hash noop_intersection (ti_state s) sketch
      in (\<lparr>ti_state = state\<rparr>, r))"

definition theta_intersection_to_sketch :: "theta_intersection \<Rightarrow> bool \<Rightarrow> compact_theta option res" where
  "theta_intersection_to_sketch s ordered =
     (if \<not> is_has_result (ti_state s) then Inr None
      else
        bind_res (intersection_to_compact_parts te_hash (ti_state s) ordered) (\<lambda>parts.
          Inr (Some (compact_from_parts (map te_hash (cp_entries parts)) (cp_theta parts)
            (cp_seed_hash parts) (cp_ordered parts) (cp_empty parts)))))"

section \<open>Inserting and matching\<close>

lemma insert_entries_ok:
  "table_ok h t \<Longrightarrow> distinct (map h es) \<Longrightarrow> \<forall>e \<in> set es. 0 < h e \<and> h e < ht_theta t \<Longrightarrow>
   h ` set es \<inter> retained_hashes h t = {} \<Longrightarrow> ht_num_retained t + length es \<le> capacity_threshold t \<Longrightarrow>
   \<exists>t'. insert_entries h err t es = (t', Inr ()) \<and> table_ok h t' \<and> entry_set t' = entry_set t \<union> set es \<and>
     ht_num_retained t' = ht_num_retained t + length es \<and> ht_theta t' = ht_theta t \<and>
     ht_seed t' = ht_seed t \<and> ht_is_empty t' = (es = [] \<and> ht_is_empty t)"
proof (induction es arbitrary: t)
  case Nil
  then show ?case by simp
next
  case (Cons e es)
  let ?f = "\<lparr>on_existing = (\<lambda>existing. existing), on_new = Some e\<rparr>"
  have pre: "upsert_for h (h e) ?f" "h e \<noteq> 0" "h e < ht_theta t" "h e \<notin> retained_hashes h t"
    "ht_num_retained t < capacity_threshold t"
    using Cons.prems by (auto simp: upsert_for_def)
  obtain t1 where t1: "upsert_entry h t (h e) ?f = Inr (t1, True)" "table_ok h t1"
    "entry_set t1 = insert e (entry_set t)" "ht_num_retained t1 = ht_num_retained t + 1"
    "capacity_threshold t1 = capacity_threshold t" "ht_theta t1 = ht_theta t"
    "ht_is_empty t1 = False" "ht_seed t1 = ht_seed t"
    by (rule upsert_room [OF Cons.prems(1) pre(1-4) _ pre(5), of e]) simp_all
  have "h ` set es \<inter> retained_hashes h t1 = {}"
    using Cons.prems(2,4) t1(3) by (auto simp: retained_hashes_def)
  then obtain t' where "insert_entries h err t1 es = (t', Inr ())" "table_ok h t'"
    "entry_set t' = entry_set t1 \<union> set es" "ht_num_retained t' = ht_num_retained t1 + length es"
    "ht_theta t' = ht_theta t1" "ht_seed t' = ht_seed t1" "ht_is_empty t' = (es = [] \<and> ht_is_empty t1)"
    using Cons.IH [OF t1(2)] Cons.prems t1(4-6) by auto
  then show ?case using t1 by simp
qed

lemma table_entry_set_theta [simp]:
  "table_entry h (t\<lparr>ht_theta := theta\<rparr>) hash = table_entry h t hash"
  by (simp add: table_entry_def find_in_curr_entries_def split: probe_result.split)

text \<open>The merged entries of the hashes that two sets of entries share, below theta\<close>

definition common :: "('e \<Rightarrow> u64) \<Rightarrow> ('e \<Rightarrow> 'e \<Rightarrow> 'e) \<Rightarrow> u64 \<Rightarrow> 'e set \<Rightarrow> 'e set \<Rightarrow> 'e set" where
  "common h merge theta A B = {merge a b | a b. a \<in> A \<and> b \<in> B \<and> h a = h b \<and> h b < theta}"

lemma common_simps:
  "common h merge theta A {} = {}"
  "common h merge theta A (insert b B) =
     (if h b < theta then (\<lambda>a. merge a b) ` {a \<in> A. h a = h b} else {}) \<union> common h merge theta A B"
  by (auto simp: common_def)

lemma hashes_common:
  assumes "\<And>x y. h (merge x y) = h x"
  shows "h ` common h merge theta A B = {x \<in> h ` A \<inter> h ` B. x < theta}"
  using assms unfolding common_def by (auto simp: image_iff) metis

lemma match_entries_ok:
  assumes ok: "table_ok h t" and merge: "\<And>x y. h (merge x y) = h x"
  shows "\<forall>e \<in> set es. 0 < h e \<Longrightarrow> distinct (map h es) \<Longrightarrow> ordered \<longrightarrow> sorted (map h es) \<Longrightarrow>
    distinct (map h ms) \<Longrightarrow> h ` set ms \<subseteq> retained_hashes h t - h ` set es \<Longrightarrow> length ms + length es \<le> n \<Longrightarrow>
    \<exists>ms' count'. match_entries h merge (t\<lparr>ht_theta := theta\<rparr>) ordered (min (ht_num_retained t) n) ms count es =
        Inr (ms', count') \<and>
      set ms' = set ms \<union> common h merge theta (entry_set t) (set es) \<and> distinct (map h ms') \<and>
      count' \<le> count + length es \<and> (\<not> ordered \<longrightarrow> count' = count + length es)"
proof (induction es arbitrary: ms count)
  case Nil
  then show ?case by (simp add: common_simps)
next
  case (Cons e es)
  obtain r where r: "table_entry h t (h e) = Inr r"
    "case r of Some a \<Rightarrow> a \<in> entry_set t \<and> h a = h e | None \<Rightarrow> h e \<notin> retained_hashes h t"
    using table_entry_ok [OF ok, of "h e"] Cons.prems(1) by fastforce
  consider (high) "\<not> h e < theta" | (none) "h e < theta" "r = None" | (found) a where "h e < theta" "r = Some a"
    by (cases r) auto
  then show ?case
  proof cases
    case high
    show ?thesis
    proof (cases ordered)
      case True
      have "\<forall>x \<in> set (e # es). \<not> h x < theta" using True high Cons.prems(3) by fastforce
      then have "common h merge theta (entry_set t) (set (e # es)) = {}" by (auto simp: common_def)
      then show ?thesis using True high Cons.prems(4) by (simp add: Let_def)
    next
      case False
      then show ?thesis
        using high Cons.IH [of ms "count + 1"] Cons.prems by (auto simp: Let_def common_simps)
    qed
  next
    case none
    then have "{a \<in> entry_set t. h a = h e} = {}" using r(2)
      by (auto simp: retained_hashes_def image_iff)
    then have "common h merge theta (entry_set t) (set (e # es)) = common h merge theta (entry_set t) (set es)"
      by (auto simp: common_simps)
    note eq = this
    obtain ms' count' where m: "match_entries h merge (t\<lparr>ht_theta := theta\<rparr>) ordered
          (min (ht_num_retained t) n) ms (count + 1) es = Inr (ms', count')"
      "set ms' = set ms \<union> common h merge theta (entry_set t) (set es)" "distinct (map h ms')"
      "count' \<le> count + 1 + length es" "\<not> ordered \<longrightarrow> count' = count + 1 + length es"
    proof -
      have "h ` set ms \<subseteq> retained_hashes h t - h ` set es" using Cons.prems(5) by auto
      moreover have "\<forall>e \<in> set es. 0 < h e" "distinct (map h es)" "ordered \<longrightarrow> sorted (map h es)"
        "length ms + length es \<le> n"
        using Cons.prems(1-3,6) by simp_all
      ultimately show ?thesis using Cons.IH [of ms "count + 1"] Cons.prems(4) that by blast
    qed
    have "match_entries h merge (t\<lparr>ht_theta := theta\<rparr>) ordered (min (ht_num_retained t) n) ms count (e # es) =
        Inr (ms', count')"
      using none r(1) m(1) by (simp add: Let_def)
    then show ?thesis using m(2-5) unfolding eq by (intro exI [of _ ms'] exI [of _ count']) simp
  next
    case found
    then have a: "a \<in> entry_set t" "h a = h e" using r(2) by auto
    have "table_shape h t" using ok by (simp add: table_ok_def)
    then have "a' = a" if "a' \<in> entry_set t" "h a' = h e" for a'
      using entry_set_unique [of h t a' a] that a by simp
    then have "{a' \<in> entry_set t. h a' = h e} = {a}" using a by blast
    then have "common h merge theta (entry_set t) (set (e # es)) =
        insert (merge a e) (common h merge theta (entry_set t) (set es))"
      using found by (simp add: common_simps)
    note eq = this
    have "length ms \<noteq> min (ht_num_retained t) n"
    proof -
      have "h e \<in> retained_hashes h t" using a by (metis image_eqI retained_hashes_def)
      then have "h ` set ms \<subset> retained_hashes h t" using Cons.prems(5) by auto
      then have "card (h ` set ms) < card (retained_hashes h t)"
        by (intro psubset_card_mono) (simp_all add: retained_hashes_def entry_set_def)
      then show ?thesis
        using num_retained_card(1) [OF ok] distinct_card [OF Cons.prems(4)] Cons.prems(6) by simp
    qed
    moreover obtain ms' count' where m: "match_entries h merge (t\<lparr>ht_theta := theta\<rparr>) ordered
          (min (ht_num_retained t) n) (ms @ [merge a e]) (count + 1) es = Inr (ms', count')"
      "set ms' = set (ms @ [merge a e]) \<union> common h merge theta (entry_set t) (set es)"
      "distinct (map h ms')"
      "count' \<le> count + 1 + length es" "\<not> ordered \<longrightarrow> count' = count + 1 + length es"
    proof -
      have "distinct (map h (ms @ [merge a e]))"
        using Cons.prems(4,5) merge a(2) by auto
      moreover have "h ` set (ms @ [merge a e]) \<subseteq> retained_hashes h t - h ` set es"
        using Cons.prems(2,5) a merge image_eqI [of "h e" h a] by (auto simp: retained_hashes_def)
      ultimately show ?thesis
        using Cons.IH [of "ms @ [merge a e]" "count + 1"] Cons.prems that by simp blast
    qed
    ultimately have "match_entries h merge (t\<lparr>ht_theta := theta\<rparr>) ordered (min (ht_num_retained t) n)
        ms count (e # es) = Inr (ms', count')"
      using found r(1) by (simp add: Let_def)
    then show ?thesis using m(2-5) unfolding eq by (intro exI [of _ ms'] exI [of _ count']) simp
  qed
qed

section \<open>Specification\<close>

text \<open>
  What an intersection holds: everything before the first update, and then a set of entries, a
  theta, and whether it is known to be empty.
\<close>

datatype 'e common_set =
    Universe
  | Common "'e set" u64 bool

definition common_step ::
  "('e \<Rightarrow> u64) \<Rightarrow> ('e \<Rightarrow> 'e \<Rightarrow> 'e) \<Rightarrow> 'e common_set \<Rightarrow> 'e sketch_view \<Rightarrow> 'e common_set" where
  "common_step h merge c v =
     (case c of
        Universe \<Rightarrow>
          if sv_empty v then Common {} MAX_THETA True
          else Common (set (sv_entries v)) (sv_theta v) False
      | Common E theta known_empty \<Rightarrow>
          if known_empty then c
          else if sv_empty v then Common {} MAX_THETA True
          else
            let theta' = min theta (sv_theta v);
                E' = common h merge theta' E (set (sv_entries v))
            in Common E' theta' (E \<noteq> {} \<and> sv_entries v \<noteq> [] \<and> E' = {} \<and> theta' = MAX_THETA))"

definition holds_common :: "('e \<Rightarrow> u64) \<Rightarrow> u64 \<Rightarrow> 'e intersection_state \<Rightarrow> 'e common_set \<Rightarrow> bool" where
  "holds_common h seed s c \<longleftrightarrow>
     ht_seed (is_table s) = seed \<and>
     (case c of
        Universe \<Rightarrow>
          \<not> is_has_result s \<and> \<not> ht_is_empty (is_table s) \<and> ht_theta (is_table s) = MAX_THETA \<and>
          ht_num_retained (is_table s) = 0
      | Common E theta known_empty \<Rightarrow>
          is_has_result s \<and> ht_is_empty (is_table s) = known_empty \<and> ht_theta (is_table s) = theta \<and>
          entry_set (is_table s) = E \<and> 0 < theta \<and> theta \<le> MAX_THETA \<and>
          (known_empty \<longrightarrow> E = {} \<and> theta = MAX_THETA) \<and>
          (if E = {} then ht_num_retained (is_table s) = 0 else table_ok h (is_table s)))"

lemma default_table:
  obtains t' where "new_default_table t = Inr t'" and "entry_set t' = {}" and "ht_num_retained t' = 0"
    and "ht_theta t' = ht_theta t" and "ht_seed t' = ht_seed t" and "ht_is_empty t' = ht_is_empty t"
proof -
  have "\<exists>t'. new_default_table t = Inr t' \<and> entry_set t' = {} \<and> ht_num_retained t' = 0 \<and>
      ht_theta t' = ht_theta t \<and> ht_seed t' = ht_seed t \<and> ht_is_empty t' = ht_is_empty t"
    by (simp add: new_default_table_def from_raw_parts_def Let_def entry_set_def iter_entries_def flatten_def)
  then show ?thesis using that by blast
qed

lemma sized_table_ok:
  fixes t :: "'e sketch_table"
  assumes "0 < count"
  obtains t' where "sized_table t count = Inr t'" and "table_ok h t'" and "entry_set t' = {}"
    and "ht_num_retained t' = 0" and "count \<le> capacity_threshold t'"
    and "ht_theta t' = ht_theta t" and "ht_seed t' = ht_seed t" and "ht_is_empty t' = ht_is_empty t"
proof -
  let ?lg = "lg_size_from_count_for_rebuild count HASH_TABLE_REBUILD_THRESHOLD"
  have lg: "0 < ?lg" "count \<le> 15 * 2 ^ ?lg div 16" using lg_size_for_rebuild [OF assms] by auto
  obtain t' :: "'e sketch_table" where t': "sized_table t count = Inr t'" "ht_lg_cur_size t' = ?lg"
    "ht_lg_nom_size t' = ?lg - 1" "ht_lg_max_size t' = ?lg" "ht_entries t' = replicate (2 ^ ?lg) None"
    "ht_num_retained t' = 0" "ht_theta t' = ht_theta t" "ht_seed t' = ht_seed t"
    "ht_is_empty t' = ht_is_empty t"
    using lg(1) by (simp add: sized_table_def from_raw_parts_def Let_def)
  have "table_ok h t'" "entry_set t' = {}"
    using fresh_table(1) [of t' h] fresh_table(2) [of t'] t' lg(1) by simp_all
  moreover have "count \<le> capacity_threshold t'"
    using lg t'(2-5) by (simp add: capacity_threshold_cases) linarith
  ultimately show ?thesis using that t' by blast
qed

text \<open>Filling a table that was made for the entries\<close>

lemma fill_sized_table:
  assumes "es \<noteq> []" and "distinct (map h es)" and "\<forall>e \<in> set es. 0 < h e \<and> h e < ht_theta t"
    and "sized_table t (length es) = Inr t0"
  shows "\<exists>t'. insert_entries h err t0 es = (t', Inr ()) \<and> table_ok h t' \<and> entry_set t' = set es \<and>
     ht_num_retained t' = length es \<and> ht_theta t' = ht_theta t \<and> ht_seed t' = ht_seed t \<and>
     \<not> ht_is_empty t'"
proof -
  obtain t1 where "sized_table t (length es) = Inr t1" and t1: "table_ok h t1" "entry_set t1 = {}"
    "ht_num_retained t1 = 0" "length es \<le> capacity_threshold t1"
    "ht_theta t1 = ht_theta t" "ht_seed t1 = ht_seed t"
    using assms(1) by (metis sized_table_ok length_greater_0_conv)
  then have "t0 = t1" using assms(4) by simp
  then show ?thesis
    using insert_entries_ok [of h t1 es err] t1 assms(1-3) by (auto simp: retained_hashes_def)
qed


lemma intersection_first_ok:
  assumes v: "view_ok h seed v" and some: "sv_entries v \<noteq> []" and s: "ht_seed (is_table s) = seed"
    and theta: "ht_theta (is_table s) = sv_theta v" "is_has_result s"
  shows "\<exists>s'. intersection_first h s v = (s', Inr ()) \<and>
    holds_common h seed s' (Common (set (sv_entries v)) (sv_theta v) False)"
proof -
  have n: "sv_num_retained v = length (sv_entries v)" "distinct (map h (sv_entries v))"
    "\<forall>e \<in> set (sv_entries v). 0 < h e \<and> h e < sv_theta v" "0 < sv_theta v" "sv_theta v \<le> MAX_THETA"
    using v by (auto simp: view_ok_def view_hashes_def)
  obtain t0 where t0: "sized_table (is_table s) (length (sv_entries v)) = Inr t0"
    using some by (metis sized_table_ok length_greater_0_conv)
  obtain t' where t': "insert_entries h
      (InvalidArgument ''Insert entries from sketch fail, possibly corrupted input sketch'') t0
      (sv_entries v) = (t', Inr ())" "table_ok h t'" "entry_set t' = set (sv_entries v)"
    "ht_num_retained t' = length (sv_entries v)" "ht_theta t' = sv_theta v" "ht_seed t' = seed"
    "\<not> ht_is_empty t'"
    using fill_sized_table [OF some n(2) _ t0] n(3) theta(1) s by metis
  have "intersection_first h s v = (s\<lparr>is_table := t'\<rparr>, Inr ())"
    using t0 t' n(1) by (simp add: intersection_first_def Let_def)
  then show ?thesis
    using t' n(4,5) some theta(2) by (simp add: holds_common_def)
qed

lemma intersection_next_ok:
  assumes v: "view_ok h seed v" and merge: "\<And>x y. h (merge x y) = h x"
    and ok: "table_ok h t" and t: "ht_seed t = seed" "\<not> ht_is_empty t"
    and theta: "0 < theta" "theta \<le> MAX_THETA"
    and s: "is_table s = t\<lparr>ht_theta := theta\<rparr>" "is_has_result s"
    and E': "E' = common h merge theta (entry_set t) (set (sv_entries v))"
  shows "\<exists>s'. intersection_next h merge s v = (s', Inr ()) \<and>
    holds_common h seed s' (Common E' theta (E' = {} \<and> theta = MAX_THETA))"
proof -
  have n: "sv_num_retained v = length (sv_entries v)" "distinct (map h (sv_entries v))"
    "\<forall>e \<in> set (sv_entries v). 0 < h e" "sv_ordered v \<longrightarrow> sorted (map h (sv_entries v))"
    using v by (auto simp: view_ok_def view_hashes_def)
  obtain ms count where m: "match_entries h merge (t\<lparr>ht_theta := theta\<rparr>) (sv_ordered v)
      (min (ht_num_retained t) (sv_num_retained v)) [] 0 (sv_entries v) = Inr (ms, count)"
    "set ms = E'" "distinct (map h ms)" "count \<le> sv_num_retained v"
    "\<not> sv_ordered v \<longrightarrow> count = sv_num_retained v"
    using match_entries_ok [where merge = merge, OF ok merge n(3,2,4), where ms = "[]" and n = "sv_num_retained v" and theta = theta and count = 0]
      n(1) E' by auto
  show ?thesis
  proof (cases "ms = []")
    case True
    obtain t' where "new_default_table (t\<lparr>ht_theta := theta\<rparr>) = Inr t'" "entry_set t' = {}"
      "ht_num_retained t' = 0" "ht_theta t' = theta" "ht_seed t' = seed" "\<not> ht_is_empty t'"
      using default_table [of "t\<lparr>ht_theta := theta\<rparr>"] t by auto
    then show ?thesis
      using m s True theta
      by (auto simp: intersection_next_def Let_def holds_common_def set_empty_def)
  next
    case False
    obtain t0 where t0: "sized_table (t\<lparr>ht_theta := theta\<rparr>) (length ms) = Inr t0"
      using False by (metis sized_table_ok length_greater_0_conv)
    have hs: "h ` set ms = {x \<in> h ` entry_set t \<inter> h ` set (sv_entries v). x < theta}"
      unfolding m(2) E' by (rule hashes_common [where merge = merge, OF merge])
    have "\<forall>e \<in> set ms. 0 < h e \<and> h e < ht_theta (t\<lparr>ht_theta := theta\<rparr>)"
    proof
      fix e
      assume "e \<in> set ms"
      then have "h e \<in> {x \<in> h ` entry_set t \<inter> h ` set (sv_entries v). x < theta}"
        unfolding hs [symmetric] by (rule imageI)
      then show "0 < h e \<and> h e < ht_theta (t\<lparr>ht_theta := theta\<rparr>)" using n(3) by auto
    qed
    from fill_sized_table [OF False m(3) this t0]
    obtain t' where t': "insert_entries h
        (InvalidArgument ''duplicate key, possibly corrupted input sketch'') t0 ms = (t', Inr ())"
      "table_ok h t'" "entry_set t' = set ms" "ht_theta t' = theta" "ht_seed t' = seed" "\<not> ht_is_empty t'"
      using t(1) by auto
    have "intersection_next h merge s v = (s\<lparr>is_table := t'\<rparr>, Inr ())"
      using m(1,4,5) s t0 t'(1) False by (auto simp: intersection_next_def Let_def)
    moreover have "E' \<noteq> {}" using False m(2) by auto
    ultimately show ?thesis
      using t' s(2) theta m(2) by (simp add: holds_common_def)
  qed
qed

lemma set_theta_ok:
  assumes "0 < theta" and "theta \<le> MAX_THETA"
  shows "set_theta t theta = Inr (t\<lparr>ht_theta := theta\<rparr>)"
proof -
  have "1 \<le> theta" using assms(1) word_less_1 [of theta] by (metis not_le word_not_simps(1))
  then show ?thesis using assms(2) by (simp add: set_theta_def)
qed

text \<open>Nothing changes once the intersection is known to be empty, and an empty input makes it so.\<close>

lemma intersection_closed:
  assumes rel: "holds_common h seed s (Common E theta known)" and v: "view_ok h seed v"
    and closed: "known \<or> sv_empty v"
  shows "\<exists>s'. intersection_update h merge s v = (s', Inr ()) \<and>
    holds_common h seed s' (if known then Common E theta known else Common {} MAX_THETA True)"
proof (cases known)
  case True
  then show ?thesis using rel by (auto simp: intersection_update_def holds_common_def)
next
  case False
  let ?t = "is_table s"
  let ?t1 = "(set_empty ?t True)\<lparr>ht_theta := MAX_THETA\<rparr>"
  have n: "sv_empty v" "sv_num_retained v = 0" using v False closed by (auto simp: view_ok_def)
  have max: "0 < MAX_THETA" by (simp add: MAX_THETA_def)
  have r: "is_has_result s" "\<not> ht_is_empty ?t" "ht_seed ?t = seed" "entry_set ?t = E"
    "E = {} \<longrightarrow> ht_num_retained ?t = 0" "E \<noteq> {} \<longrightarrow> table_ok h ?t"
    using rel False by (simp_all add: holds_common_def split: if_splits)
  show ?thesis
  proof (cases "ht_num_retained ?t = 0")
    case True
    have "E = {}"
    proof (rule ccontr)
      assume ne: "E \<noteq> {}"
      then have "card (retained_hashes h ?t) = 0" using r(6) num_retained_card(1) [of h ?t] True by simp
      moreover have "finite (retained_hashes h ?t)" by (simp add: retained_hashes_def entry_set_def)
      ultimately show False using ne r(4) by (simp add: retained_hashes_def)
    qed
    moreover have "intersection_update h merge s v = (s\<lparr>is_table := ?t1\<rparr>, Inr ())"
      using n r True max by (simp add: intersection_update_def set_theta_ok set_empty_def)
    ultimately show ?thesis using r True False max
      by (simp add: holds_common_def set_empty_def entry_set_def iter_entries_def)
  next
    case False
    obtain t' where t': "new_default_table ?t1 = Inr t'" "entry_set t' = {}" "ht_num_retained t' = 0"
      "ht_theta t' = MAX_THETA" "ht_seed t' = seed" "ht_is_empty t'"
      by (rule default_table [of ?t1]) (simp add: r(3) set_empty_def)
    have "intersection_update h merge s v = (s\<lparr>is_table := t', is_has_result := True\<rparr>, Inr ())"
      using n r False max t'(1) by (simp add: intersection_update_def set_theta_ok set_empty_def)
    then show ?thesis using \<open>\<not> known\<close> t'(2-6) max by (simp add: holds_common_def)
  qed
qed

text \<open>One update is one step of the specification.\<close>

lemma intersection_update_ok:
  assumes rel: "holds_common h seed s c" and v: "view_ok h seed v"
    and merge: "\<And>x y. h (merge x y) = h x"
  shows "\<exists>s'. intersection_update h merge s v = (s', Inr ()) \<and>
    holds_common h seed s' (common_step h merge c v)"
proof -
  let ?t = "is_table s"
  have seed: "ht_seed ?t = seed" using rel by (simp add: holds_common_def)
  have n: "sv_num_retained v = length (sv_entries v)" "0 < sv_theta v" "sv_theta v \<le> MAX_THETA"
    "sv_empty v \<longrightarrow> sv_entries v = []"
    "\<not> sv_empty v \<longrightarrow> compute_seed_hash seed = Inr (sv_seed_hash v)"
    using v by (auto simp: view_ok_def)
  note set_theta = set_theta_ok
  have max: "0 < MAX_THETA" by (simp add: MAX_THETA_def)
  show ?thesis
  proof (cases c)
    case Universe
    have u: "\<not> is_has_result s" "\<not> ht_is_empty ?t" "ht_theta ?t = MAX_THETA" "ht_num_retained ?t = 0"
      using rel Universe by (simp_all add: holds_common_def)
    show ?thesis
    proof (cases "sv_entries v = []")
      case none: True
      let ?theta = "if sv_empty v then MAX_THETA else sv_theta v"
      let ?t1 = "(if sv_empty v then set_empty ?t True else ?t)\<lparr>ht_theta := ?theta\<rparr>"
      obtain t' where t': "new_default_table ?t1 = Inr t'" "entry_set t' = {}" "ht_num_retained t' = 0"
        "ht_theta t' = ?theta" "ht_seed t' = seed" "ht_is_empty t' = sv_empty v"
        by (rule default_table [of ?t1]) (simp add: seed u set_empty_def)
      have "intersection_update h merge s v = (\<lparr>is_table = t', is_has_result = True\<rparr>, Inr ())"
        using u n none seed max t'(1)
        by (cases "sv_empty v")
          (simp_all add: intersection_update_def set_empty_def set_theta check_seed_hash_def min_absorb2)
      then show ?thesis
        using t'(2-6) n(2,3) none max Universe by (simp add: common_step_def holds_common_def)
    next
      case False
      then have "\<not> sv_empty v" using n(4) by blast
      let ?s = "\<lparr>is_table = ?t\<lparr>ht_theta := sv_theta v\<rparr>, is_has_result = True\<rparr>"
      have "intersection_update h merge s v = intersection_first h ?s v"
        using u n False \<open>\<not> sv_empty v\<close> seed max
        by (cases s) (simp add: intersection_update_def set_theta check_seed_hash_def min_absorb2)
      then show ?thesis
        using intersection_first_ok [OF v False, of ?s] seed Universe \<open>\<not> sv_empty v\<close>
        by (simp add: common_step_def)
    qed
  next
    case c: (Common E theta known)
    have r: "is_has_result s" "ht_is_empty ?t = known" "ht_theta ?t = theta" "entry_set ?t = E"
      "0 < theta" "theta \<le> MAX_THETA" "known \<longrightarrow> E = {} \<and> theta = MAX_THETA"
      "E = {} \<longrightarrow> ht_num_retained ?t = 0" "E \<noteq> {} \<longrightarrow> table_ok h ?t"
      using rel c by (simp_all add: holds_common_def split: if_splits)
    show ?thesis
    proof (cases "known \<or> sv_empty v")
      case True
      then show ?thesis using intersection_closed [OF rel [unfolded c] v True, of merge] c
        by (cases known) (simp_all add: common_step_def)
    next
      case live: False
      let ?theta = "min theta (sv_theta v)"
      let ?s = "s\<lparr>is_table := ?t\<lparr>ht_theta := ?theta\<rparr>\<rparr>"
      have theta: "0 < ?theta" "?theta \<le> MAX_THETA" using r(5,6) n(2) by (auto simp: min_def)
      have seed_hash: "compute_seed_hash (ht_seed ?t) = Inr (sv_seed_hash v)" using live n(5) seed by simp
      consider (none) "E = {}" | (gone) "E \<noteq> {}" "sv_entries v = []" | (some) "E \<noteq> {}" "sv_entries v \<noteq> []"
        by blast
      then show ?thesis
      proof cases
        case none
        have "intersection_update h merge s v = (?s, Inr ())"
          using live r none seed_hash theta
          by (simp add: intersection_update_def check_seed_hash_def set_theta)
        then show ?thesis using none c live r theta seed
          by (simp add: common_step_def Let_def holds_common_def common_def entry_set_def iter_entries_def)
      next
        case gone
        have ne: "ht_num_retained ?t \<noteq> 0"
          using r(4,9) gone(1) num_retained_card(1) [of h ?t] by (auto simp: retained_hashes_def entry_set_def)
        obtain t' where t': "new_default_table (?t\<lparr>ht_theta := ?theta\<rparr>) = Inr t'" "entry_set t' = {}"
          "ht_num_retained t' = 0" "ht_theta t' = ?theta" "ht_seed t' = seed" "\<not> ht_is_empty t'"
          by (rule default_table [of "?t\<lparr>ht_theta := ?theta\<rparr>"]) (use seed r(2) live in simp)
        have "intersection_update h merge s v = (s\<lparr>is_table := t', is_has_result := True\<rparr>, Inr ())"
          using live r(1-3) gone n(1) seed_hash theta t'(1) ne
          by (simp add: intersection_update_def check_seed_hash_def set_theta)
        then show ?thesis using gone c live t'(2-6) theta
          by (simp add: common_step_def Let_def holds_common_def common_def)
      next
        case some
        have ok: "table_ok h ?t" using r(9) some(1) by blast
        have ne: "ht_num_retained ?t \<noteq> 0"
          using some(1) num_retained_card(1) [OF ok] r(4) by (auto simp: retained_hashes_def entry_set_def)
        have "intersection_update h merge s v = intersection_next h merge ?s v"
          using live r(1-3) some n(1) seed_hash theta ne
          by (simp add: intersection_update_def check_seed_hash_def set_theta)
        moreover have "\<exists>s'. intersection_next h merge ?s v = (s', Inr ()) \<and>
            holds_common h seed s' (Common (common h merge ?theta E (set (sv_entries v))) ?theta
              (common h merge ?theta E (set (sv_entries v)) = {} \<and> ?theta = MAX_THETA))"
          using intersection_next_ok [where merge = merge, OF v merge ok seed _ theta, of ?s] r(1,2,4) live by simp
        ultimately show ?thesis using some c live by (simp add: common_step_def Let_def)
      qed
    qed
  qed
qed


section \<open>Sequences of updates\<close>

fun intersection_all ::
  "theta_intersection \<Rightarrow> theta_entry sketch_view list \<Rightarrow> theta_intersection \<times> unit res" where
  "intersection_all s [] = (s, Inr ())"
| "intersection_all s (v # vs) =
     (let (s, r) = theta_intersection_update s v in try_res s r (\<lambda>_. intersection_all s vs))"

definition common_all :: "theta_entry common_set \<Rightarrow> theta_entry sketch_view list \<Rightarrow> theta_entry common_set" where
  "common_all c vs = foldl (common_step te_hash noop_intersection) c vs"

lemma noop_intersection_hash: "te_hash (noop_intersection x y) = te_hash x"
  by (simp add: noop_intersection_def)

lemma intersection_all_ok:
  "holds_common te_hash seed (ti_state s) c \<Longrightarrow> \<forall>v \<in> set vs. view_ok te_hash seed v \<Longrightarrow>
   \<exists>s'. intersection_all s vs = (s', Inr ()) \<and> holds_common te_hash seed (ti_state s') (common_all c vs)"
proof (induction vs arbitrary: s c)
  case (Cons v vs)
  obtain s1 where s1: "intersection_update te_hash noop_intersection (ti_state s) v = (s1, Inr ())"
    "holds_common te_hash seed s1 (common_step te_hash noop_intersection c v)"
    using intersection_update_ok [where merge = noop_intersection, OF Cons.prems(1) _ noop_intersection_hash]
      Cons.prems(2) by (metis list.set_intros(1))
  then show ?case
    using Cons.IH [of "\<lparr>ti_state = s1\<rparr>"] Cons.prems(2)
    by (simp add: theta_intersection_update_def common_all_def)
qed (simp add: common_all_def)

lemma theta_intersection_new_ok:
  obtains s where "theta_intersection_new seed = Inr s" and "holds_common te_hash seed (ti_state s) Universe"
  by (simp add: theta_intersection_new_def intersection_new_def from_raw_parts_def holds_common_def)

text \<open>
  The specification after at least one view: the hashes that all views share below theta; theta
  is the least of theirs, unless the intersection became known to be empty on the way.
\<close>

definition shared_hashes :: "theta_entry sketch_view list \<Rightarrow> u64 set" where
  "shared_hashes vs = (\<Inter>v \<in> set vs. view_hashes te_hash v)"

definition common_ok :: "theta_entry sketch_view list \<Rightarrow> theta_entry common_set \<Rightarrow> bool" where
  "common_ok vs c \<longleftrightarrow>
     (\<exists>E theta known. c = Common E theta known \<and>
        te_hash ` E = {x \<in> shared_hashes vs. x < theta} \<and>
        theta = (if known then MAX_THETA else Min (sv_theta ` set vs)) \<and>
        (known \<longrightarrow> E = {}) \<and> ((\<exists>v \<in> set vs. sv_empty v) \<longrightarrow> known))"

lemma theta_entry_eq: "te_hash a = te_hash b \<Longrightarrow> a = b"
  by (cases a; cases b) simp

lemma common_step_ok:
  assumes c: "vs = [] \<and> c = Universe \<or> vs \<noteq> [] \<and> common_ok vs c" and v: "view_ok te_hash seed v"
  shows "common_ok (vs @ [v]) (common_step te_hash noop_intersection c v)"
proof (cases "vs = []")
  case True
  then show ?thesis
    using c v by (auto simp: common_ok_def common_step_def shared_hashes_def view_hashes_def view_ok_def)
next
  case False
  then obtain E theta known where E: "c = Common E theta known"
    "te_hash ` E = {x \<in> shared_hashes vs. x < theta}"
    "theta = (if known then MAX_THETA else Min (sv_theta ` set vs))" "known \<longrightarrow> E = {}"
    "(\<exists>v \<in> set vs. sv_empty v) \<longrightarrow> known"
    using c unfolding common_ok_def by blast
  have shared: "shared_hashes (vs @ [v]) = shared_hashes vs \<inter> view_hashes te_hash v"
    using False by (auto simp: shared_hashes_def)
  show ?thesis
  proof (cases "known \<or> sv_empty v")
    case True
    have "{x \<in> shared_hashes (vs @ [v]). x < MAX_THETA} = {}"
      using True E(2-4) v unfolding shared by (auto simp: view_ok_def view_hashes_def)
    then show ?thesis using True E(1,3,4) by (auto simp: common_ok_def common_step_def)
  next
    case live: False
    have theta: "Min (sv_theta ` set (vs @ [v])) = min theta (sv_theta v)"
      using live E(3) False by (simp add: min.commute)
    have hs: "te_hash ` common te_hash noop_intersection (min theta (sv_theta v)) E (set (sv_entries v)) =
        {x \<in> shared_hashes (vs @ [v]). x < min theta (sv_theta v)}"
      unfolding hashes_common [where merge = noop_intersection, OF noop_intersection_hash] E(2) shared
        view_hashes_def by auto
    show ?thesis
      using live E(1,5) hs theta by (auto simp: common_ok_def common_step_def Let_def)
  qed
qed

lemma common_all_ok:
  assumes "\<forall>v \<in> set vs. view_ok te_hash seed v" and "vs \<noteq> []"
  shows "common_ok vs (common_all Universe vs)"
proof -
  have "vs = [] \<and> common_all Universe vs = Universe \<or> vs \<noteq> [] \<and> common_ok vs (common_all Universe vs)"
    using assms(1)
  proof (induction vs rule: rev_induct)
    case (snoc v vs)
    then show ?case using common_step_ok [of vs "common_all Universe vs" seed v] by (simp add: common_all_def)
  qed (simp add: common_all_def)
  then show ?thesis using assms(2) by blast
qed

lemma intersection_result_ok:
  assumes rel: "holds_common te_hash seed (ti_state s) (Common E theta known)"
    and sh: "compute_seed_hash seed = Inr sh"
  shows "\<exists>c. theta_intersection_to_sketch s ordered = Inr (Some c) \<and> set (ct_entries c) = te_hash ` E \<and>
     distinct (ct_entries c) \<and> ct_theta c = theta \<and> ct_empty c = known \<and> ct_seed_hash c = sh \<and>
     ct_ordered c = ordered \<and> (ordered \<longrightarrow> sorted (ct_entries c))"
proof -
  let ?t = "is_table (ti_state s)"
  have r: "is_has_result (ti_state s)" "ht_is_empty ?t = known" "ht_theta ?t = theta" "entry_set ?t = E"
    "ht_seed ?t = seed" "E \<noteq> {} \<longrightarrow> table_ok te_hash ?t"
    using rel by (simp_all add: holds_common_def split: if_splits)
  have "distinct (map te_hash (iter_entries ?t))"
  proof (cases "E = {}")
    case True
    then have "iter_entries ?t = []" using r(4) by (simp add: entry_set_def)
    then show ?thesis by simp
  qed (use r(6) iter_entries_distinct in blast)
  then show ?thesis
    using r(1-5) sh by (auto simp: theta_intersection_to_sketch_def intersection_to_compact_parts_def
        compact_from_parts_def entry_set_def distinct_map Let_def)
qed

section \<open>Properties\<close>

text \<open>
  Refinement: on valid views an intersection update is one step of the specification on sets
  (everything before the first update; then the merged entries that both sides have below the
  lower theta; known to be empty when an input is, or when nothing is left in exact mode). No
  update is rejected or panics, and the hash table behind it stays well formed.
\<close>

theorem theta_intersection_refines:
  assumes "holds_common te_hash seed (ti_state s) c" and "view_ok te_hash seed v"
  shows "\<exists>s'. theta_intersection_update s v = (s', Inr ()) \<and>
     holds_common te_hash seed (ti_state s') (common_step te_hash noop_intersection c v)"
  using intersection_update_ok [where merge = noop_intersection, OF assms noop_intersection_hash]
  by (auto simp: theta_intersection_update_def)

theorem theta_intersection_refines_witness:
  "let v = view_of_compact (compact_from_parts [7, 5] 100 0x93cc False False)
   in \<exists>s s'. theta_intersection_new DEFAULT_UPDATE_SEED = Inr s \<and>
     theta_intersection_update s v = (s', Inr ()) \<and> is_has_result (ti_state s')"
proof -
  let ?v = "view_of_compact (compact_from_parts [7, 5] 100 0x93cc False False)"
  obtain s where s: "theta_intersection_new DEFAULT_UPDATE_SEED = Inr s"
    "holds_common te_hash DEFAULT_UPDATE_SEED (ti_state s) Universe"
    by (rule theta_intersection_new_ok)
  have v: "view_ok te_hash DEFAULT_UPDATE_SEED ?v"
    by (auto simp: view_ok_def view_of_compact_def compact_from_parts_def view_hashes_def
        MAX_THETA_def default_seed_hash)
  have "common_step te_hash noop_intersection Universe ?v =
      Common (set (sv_entries ?v)) (sv_theta ?v) False"
    by (simp add: common_step_def view_of_compact_def compact_from_parts_def)
  then show ?thesis
    using theta_intersection_refines [OF s(2) v] s(1) by (auto simp: Let_def holds_common_def)
qed

text \<open>
  C10. The intersection of any non-empty sequence of valid views: the result has as entries exactly
  the hashes that all inputs share below its theta, each once. Its theta is the least theta of the
  inputs, unless the result is marked empty, and then it is \<open>MAX_THETA\<close> with no entries. An empty
  input makes the result empty.
\<close>

theorem theta_intersection_exact:
  assumes "theta_intersection_new seed = Inr s0" and "compute_seed_hash seed = Inr sh" and "vs \<noteq> []"
    and "\<forall>v \<in> set vs. view_ok te_hash seed v"
  shows "\<exists>s c. intersection_all s0 vs = (s, Inr ()) \<and>
     theta_intersection_to_sketch s ordered = Inr (Some c) \<and>
     set (ct_entries c) = {x \<in> (\<Inter>v \<in> set vs. view_hashes te_hash v). x < ct_theta c} \<and>
     distinct (ct_entries c) \<and> (ordered \<longrightarrow> sorted (ct_entries c)) \<and> ct_seed_hash c = sh \<and>
     ct_theta c = (if ct_empty c then MAX_THETA else Min (sv_theta ` set vs)) \<and>
     (ct_empty c \<longrightarrow> ct_entries c = []) \<and> ((\<exists>v \<in> set vs. sv_empty v) \<longrightarrow> ct_empty c)"
proof -
  have "holds_common te_hash seed (ti_state s0) Universe"
    using assms(1) theta_intersection_new_ok by (metis sum.inject(2))
  then obtain s where s: "intersection_all s0 vs = (s, Inr ())"
    "holds_common te_hash seed (ti_state s) (common_all Universe vs)"
    using intersection_all_ok assms(4) by blast
  obtain E theta known where E: "common_all Universe vs = Common E theta known"
    "te_hash ` E = {x \<in> shared_hashes vs. x < theta}"
    "theta = (if known then MAX_THETA else Min (sv_theta ` set vs))" "known \<longrightarrow> E = {}"
    "(\<exists>v \<in> set vs. sv_empty v) \<longrightarrow> known"
    using common_all_ok [OF assms(4,3)] unfolding common_ok_def by blast
  obtain c where c: "theta_intersection_to_sketch s ordered = Inr (Some c)"
    "set (ct_entries c) = te_hash ` E" "distinct (ct_entries c)" "ct_theta c = theta"
    "ct_empty c = known" "ct_seed_hash c = sh" "ordered \<longrightarrow> sorted (ct_entries c)"
    using intersection_result_ok [OF s(2) [unfolded E(1)] assms(2)] by blast
  have "set (ct_entries c) = {x \<in> (\<Inter>v \<in> set vs. view_hashes te_hash v). x < ct_theta c}"
    unfolding c(2,4) E(2) shared_hashes_def ..
  moreover have "ct_empty c \<longrightarrow> ct_entries c = []" using c(2,5) E(4) by auto
  moreover have "ct_theta c = (if ct_empty c then MAX_THETA else Min (sv_theta ` set vs))"
    unfolding c(4,5) by (rule E(3))
  ultimately show ?thesis using s(1) c(1,3,5-7) E(5) by blast
qed

theorem theta_intersection_exact_witness:
  "let v1 = view_of_compact (compact_from_parts [5, 9] MAX_THETA 0x93cc True False);
       v2 = view_of_compact (compact_from_parts [7, 5] 100 0x93cc False False)
   in \<exists>s0 s c. theta_intersection_new DEFAULT_UPDATE_SEED = Inr s0 \<and>
     intersection_all s0 [v1, v2] = (s, Inr ()) \<and>
     theta_intersection_to_sketch s True = Inr (Some c) \<and> set (ct_entries c) \<subseteq> {5}"
proof -
  let ?v1 = "view_of_compact (compact_from_parts [5, 9] MAX_THETA 0x93cc True False)"
  let ?v2 = "view_of_compact (compact_from_parts [7, 5] 100 0x93cc False False)"
  have ok: "\<forall>v \<in> set [?v1, ?v2]. view_ok te_hash DEFAULT_UPDATE_SEED v"
    by (auto simp: view_ok_def view_of_compact_def compact_from_parts_def view_hashes_def
        MAX_THETA_def default_seed_hash)
  have shared: "(\<Inter>v \<in> set [?v1, ?v2]. view_hashes te_hash v) = {5}"
    by (auto simp: view_hashes_def view_of_compact_def compact_from_parts_def)
  obtain s0 where s0: "theta_intersection_new DEFAULT_UPDATE_SEED = Inr s0"
    by (rule theta_intersection_new_ok)
  show ?thesis
    using theta_intersection_exact [OF s0 default_seed_hash _ ok, of True] s0
    unfolding shared Let_def by fastforce
qed

text \<open>
  C34. A deserialized sketch can make the intersection panic: the reader accepts 24 bytes whose theta
  field is zero, as a sketch without entries that is not flagged empty and has theta 0, and the
  first update with that sketch fails the assertion of \<open>set_theta\<close> instead of returning an error.
\<close>

theorem theta_intersection_zero_theta:
  assumes "theta_intersection_new seed = Inr s0" and "compute_seed_hash seed = Inr sh"
    and "bytes = [3, 3, 3, 0, 0, 26] @ to_le_bytes sh @ replicate 8 0 @ to_le_bytes (0 :: u64)"
  shows "\<exists>c. deserialize_with_seed bytes seed = Inr c \<and> ct_theta c = 0 \<and> ct_entries c = [] \<and> \<not> ct_empty c \<and>
     snd (theta_intersection_update s0 (view_of_compact c)) = Inl (Panic ''theta must be in [1, MAX_THETA]'')"
proof -
  let ?c = "compact_from_parts [] 0 sh True False"
  have "compact_ok seed ?c" using assms(2) by (simp add: compact_ok_def compact_from_parts_def)
  then have "deserialize_with_seed (theta_serialize ?c) seed = Inr ?c" by (rule theta_roundtrip_v3)
  moreover have "theta_serialize ?c = bytes"
  proof -
    have "to_le_bytes (0 :: u32) = replicate 4 0" "to_be_bytes (0 :: u32) = replicate 4 0" "to_be_bytes (0 :: u16) = replicate 2 0"
      by (simp_all add: to_le_bytes_def to_be_bytes_def map_replicate_const)
    moreover have "ct_is_estimation_mode ?c" "preamble_longs ?c False = 3" "serialize_flags ?c = 26"
      "ct_entries ?c = []" "ct_theta ?c = 0" "ct_seed_hash ?c = sh"
      by (simp_all add: ct_is_estimation_mode_def preamble_longs_def serialize_flags_def compact_from_parts_def
          MAX_THETA_def FLAGS_IS_READ_ONLY_def FLAGS_IS_COMPACT_def FLAGS_IS_ORDERED_def)
    moreover have "replicate 8 (0 :: u8) = replicate 4 0 @ replicate 4 0" "replicate 2 (0 :: u8) = [0, 0]"
      by (simp_all flip: replicate_add) (simp add: numeral_2_eq_2)
    ultimately show ?thesis
      unfolding assms(3)
      by (simp add: theta_serialize_def Let_def with_capacity_def into_bytes_def write_u8_def write_u16_be_def
          write_u16_le_def write_u32_le_def write_u32_be_def write_u64_le_def write_bytes_def
          UNCOMPRESSED_SERIAL_VERSION_def family_theta_def)
  qed
  moreover have "holds_common te_hash seed (ti_state s0) Universe"
    using assms(1) theta_intersection_new_ok by (metis sum.inject(2))
  then have "snd (theta_intersection_update s0 (view_of_compact ?c)) =
      Inl (Panic ''theta must be in [1, MAX_THETA]'')"
    using assms(2)
    by (simp add: holds_common_def theta_intersection_update_def intersection_update_def
        view_of_compact_def compact_from_parts_def check_seed_hash_def set_theta_def)
  moreover have "ct_theta ?c = 0" "ct_entries ?c = []" "\<not> ct_empty ?c" by (simp_all add: compact_from_parts_def)
  ultimately show ?thesis by (intro exI [of _ ?c]) simp
qed

theorem theta_intersection_zero_theta_witness:
  "\<exists>s0 c. theta_intersection_new DEFAULT_UPDATE_SEED = Inr s0 \<and>
     theta_deserialize ([3, 3, 3, 0, 0, 26, 0xcc, 0x93] @ replicate 16 0) = Inr c \<and> ct_theta c = 0 \<and>
     snd (theta_intersection_update s0 (view_of_compact c)) = Inl (Panic ''theta must be in [1, MAX_THETA]'')"
proof -
  obtain s0 where s0: "theta_intersection_new DEFAULT_UPDATE_SEED = Inr s0"
    by (rule theta_intersection_new_ok)
  have "to_le_bytes (0x93cc :: u16) = [0xcc, 0x93]" by code_simp
  moreover have "to_le_bytes (0 :: u64) = replicate 8 0" by (simp add: to_le_bytes_def map_replicate_const)
  moreover have "replicate 16 (0 :: u8) = replicate 8 0 @ replicate 8 0" by code_simp
  ultimately have bytes: "[3, 3, 3, 0, 0, 26, 0xcc, 0x93] @ replicate 16 0 =
      [3, 3, 3, 0, 0, 26] @ to_le_bytes (0x93cc :: u16) @ replicate 8 0 @ to_le_bytes (0 :: u64)"
    by (simp only: append.simps)
  show ?thesis
    using theta_intersection_zero_theta [OF s0 default_seed_hash bytes] s0
    unfolding theta_deserialize_def by blast
qed

end
