(* ===== verification/ThetaANotB.thy ===== *)
theory ThetaANotB
  imports SketchView
begin

text \<open>
  The difference of two Theta-family sketches: \<open>compute\<close> of
  \<open>src/datasketches/src/thetafamily/common/a_not_b.rs\<close> and \<open>ThetaANotB\<close> of \<open>theta/a_not_b.rs\<close>.
  The second sketch only contributes its hashes. The hash set of the source is a set.
\<close>

definition parts_from_sketch :: "('e \<Rightarrow> u64) \<Rightarrow> 'e sketch_view \<Rightarrow> bool \<Rightarrow> 'e compact_parts" where
  "parts_from_sketch h sketch ordered =
     (let entries = sv_entries sketch;
          out_ordered = (ordered \<or> sv_ordered sketch);
          entries = (if ordered \<and> \<not> sv_ordered sketch \<and> 1 < length entries then sort_key h entries
                     else entries)
      in \<lparr>cp_entries = entries, cp_theta = sv_theta sketch, cp_seed_hash = sv_seed_hash sketch,
          cp_ordered = out_ordered, cp_empty = sv_empty sketch\<rparr>)"

text \<open>Both inputs in ascending order: a scan of both, without a hash set\<close>

fun merge_scan :: "('e \<Rightarrow> u64) \<Rightarrow> u64 \<Rightarrow> u64 list \<Rightarrow> 'e list \<Rightarrow> 'e list" where
  "merge_scan h theta b_hashes [] = []"
| "merge_scan h theta b_hashes (entry # entries) =
     (let hash = h entry
      in if theta \<le> hash then []
         else
           let b_hashes = dropWhile (\<lambda>b_hash. b_hash < hash) b_hashes
           in case b_hashes of
                [] \<Rightarrow> entry # merge_scan h theta b_hashes entries
              | b_hash # _ \<Rightarrow>
                  if b_hash \<noteq> hash then entry # merge_scan h theta b_hashes entries
                  else merge_scan h theta b_hashes entries)"

fun collect_keys :: "u64 \<Rightarrow> bool \<Rightarrow> u64 set \<Rightarrow> u64 list \<Rightarrow> u64 set" where
  "collect_keys theta b_ordered b_keys [] = b_keys"
| "collect_keys theta b_ordered b_keys (hash # hashes) =
     (if hash < theta then collect_keys theta b_ordered (insert hash b_keys) hashes
      else if b_ordered then b_keys
      else collect_keys theta b_ordered b_keys hashes)"

fun keep_others :: "('e \<Rightarrow> u64) \<Rightarrow> u64 \<Rightarrow> bool \<Rightarrow> u64 set \<Rightarrow> 'e list \<Rightarrow> 'e list" where
  "keep_others h theta a_ordered b_keys [] = []"
| "keep_others h theta a_ordered b_keys (entry # entries) =
     (let hash = h entry
      in if hash < theta then
           if hash \<notin> b_keys then entry # keep_others h theta a_ordered b_keys entries
           else keep_others h theta a_ordered b_keys entries
         else if a_ordered then []
         else keep_others h theta a_ordered b_keys entries)"

text \<open>The entries of \<open>a\<close> that are left: the three-way choice of the algorithm\<close>

definition remaining_entries ::
  "('a \<Rightarrow> u64) \<Rightarrow> ('b \<Rightarrow> u64) \<Rightarrow> u64 \<Rightarrow> 'a sketch_view \<Rightarrow> 'b sketch_view \<Rightarrow> 'a list" where
  "remaining_entries ha hb theta a b =
     (if sv_num_retained b = 0 then filter (\<lambda>entry. ha entry < theta) (sv_entries a)
      else if sv_ordered a \<and> sv_ordered b then
        merge_scan ha theta (map hb (sv_entries b)) (sv_entries a)
      else
        let b_keys = collect_keys theta (sv_ordered b) {} (map hb (sv_entries b))
        in keep_others ha theta (sv_ordered a) b_keys (sv_entries a))"

definition a_not_b_compute ::
  "('a \<Rightarrow> u64) \<Rightarrow> ('b \<Rightarrow> u64) \<Rightarrow> u16 \<Rightarrow> 'a sketch_view \<Rightarrow> 'b sketch_view \<Rightarrow> bool \<Rightarrow> 'a compact_parts res" where
  "a_not_b_compute ha hb seed_hash a b ordered =
     (if sv_empty a then Inr (parts_from_sketch ha a ordered)
      else
        bind_res (check_seed_hash seed_hash (sv_seed_hash a) InvalidArgument) (\<lambda>_.
          if sv_empty b then Inr (parts_from_sketch ha a ordered)
          else
            bind_res (check_seed_hash seed_hash (sv_seed_hash b) InvalidArgument) (\<lambda>_.
              let theta = min (sv_theta a) (sv_theta b);
                  entries = remaining_entries ha hb theta a b;
                  is_empty = (entries = [] \<and> theta = MAX_THETA);
                  out_ordered = (ordered \<or> sv_ordered a);
                  entries = (if ordered \<and> \<not> sv_ordered a \<and> 1 < length entries
                             then sort_key ha entries else entries)
              in Inr \<lparr>cp_entries = entries, cp_theta = theta, cp_seed_hash = seed_hash,
                   cp_ordered = out_ordered, cp_empty = is_empty\<rparr>)))"

definition theta_a_not_b_with_seed :: "u64 \<Rightarrow> u16 res" where
  "theta_a_not_b_with_seed seed = compute_seed_hash seed"

definition theta_a_not_b ::
  "u16 \<Rightarrow> theta_entry sketch_view \<Rightarrow> theta_entry sketch_view \<Rightarrow> bool \<Rightarrow> compact_theta res" where
  "theta_a_not_b seed_hash a b ordered =
     bind_res (a_not_b_compute te_hash te_hash seed_hash a b ordered) (\<lambda>parts.
       Inr (compact_from_parts (map te_hash (cp_entries parts)) (cp_theta parts) (cp_seed_hash parts)
         (cp_ordered parts) (cp_empty parts)))"

section \<open>Each way of subtracting is a filter\<close>

text \<open>The three branches compute the same list: the entries of \<open>a\<close> below theta that \<open>b\<close> has not.\<close>

lemma merge_scan_filter:
  "sorted (map h es) \<Longrightarrow> sorted bs \<Longrightarrow>
   merge_scan h theta bs es = filter (\<lambda>e. h e < theta \<and> h e \<notin> set bs) es"
proof (induction es arbitrary: bs)
  case (Cons e es)
  show ?case
  proof (cases "theta \<le> h e")
    case True
    then have "\<forall>x \<in> set (e # es). \<not> h x < theta" using Cons.prems(1) by fastforce
    then have "filter (\<lambda>e. h e < theta \<and> h e \<notin> set bs) (e # es) = []"
      by (intro filter_False) blast
    then show ?thesis using True by simp
  next
    case False
    define bs' where bs': "bs' = dropWhile (\<lambda>b. b < h e) bs"
    have sorted: "sorted bs'" unfolding bs' using Cons.prems(2) by (rule sorted_dropWhile)
    have later: "x \<in> set bs' \<longleftrightarrow> x \<in> set bs" if "h e \<le> x" for x
    proof -
      have "set bs = set (takeWhile (\<lambda>b. b < h e) bs) \<union> set bs'"
        unfolding bs' by (metis set_append takeWhile_dropWhile_id)
      then show ?thesis using that set_takeWhileD [of x "\<lambda>b. b < h e" bs] by fastforce
    qed
    have "filter (\<lambda>x. h x < theta \<and> h x \<notin> set bs') es = filter (\<lambda>x. h x < theta \<and> h x \<notin> set bs) es"
      using Cons.prems(1) later by (intro filter_cong) auto
    then have rest: "merge_scan h theta bs' es = filter (\<lambda>x. h x < theta \<and> h x \<notin> set bs) es"
      using Cons.IH [OF _ sorted] Cons.prems(1) by simp
    have found: "h e \<in> set bs \<longleftrightarrow> bs' \<noteq> [] \<and> hd bs' = h e"
    proof
      assume "h e \<in> set bs"
      then have "h e \<in> set bs'" using later by blast
      then show "bs' \<noteq> [] \<and> hd bs' = h e"
        using sorted hd_dropWhile [of "\<lambda>b. b < h e" bs] unfolding bs' [symmetric] by (cases bs') auto
    next
      assume "bs' \<noteq> [] \<and> hd bs' = h e"
      then show "h e \<in> set bs" using set_dropWhileD [of "h e" "\<lambda>b. b < h e" bs] unfolding bs' by (metis list.set_sel(1))
    qed
    show ?thesis
      using False rest found by (cases bs') (auto simp: Let_def simp flip: bs')
  qed
qed simp

lemma collect_keys_set:
  "b_ordered \<longrightarrow> sorted xs \<Longrightarrow> collect_keys theta b_ordered keys xs = keys \<union> {x \<in> set xs. x < theta}"
proof (induction xs arbitrary: keys)
  case (Cons x xs)
  show ?case
  proof (cases "x < theta \<or> \<not> b_ordered")
    case True
    then show ?thesis using Cons by auto
  next
    case False
    then have none: "{y \<in> set (x # xs). y < theta} = {}" using Cons.prems by fastforce
    show ?thesis using False unfolding none by simp
  qed
qed simp

lemma keep_others_filter:
  "a_ordered \<longrightarrow> sorted (map h es) \<Longrightarrow>
   keep_others h theta a_ordered keys es = filter (\<lambda>e. h e < theta \<and> h e \<notin> keys) es"
proof (induction es)
  case (Cons e es)
  show ?case
  proof (cases "h e < theta \<or> \<not> a_ordered")
    case True
    then show ?thesis using Cons by (auto simp: Let_def)
  next
    case False
    then have "\<forall>x \<in> set (e # es). \<not> h x < theta" using Cons.prems by fastforce
    then have "filter (\<lambda>e. h e < theta \<and> h e \<notin> keys) (e # es) = []"
      by (intro filter_False) blast
    then show ?thesis using False by simp
  qed
qed simp

text \<open>The result on valid views, whichever branch computes it\<close>

lemma a_not_b_entries:
  assumes a: "view_ok ha seed a" and b: "view_ok hb seed b"
    and live: "\<not> sv_empty a" "\<not> sv_empty b" and sh: "compute_seed_hash seed = Inr sh"
    and theta: "theta = min (sv_theta a) (sv_theta b)"
    and es: "es = filter (\<lambda>e. ha e < theta \<and> ha e \<notin> view_hashes hb b) (sv_entries a)"
  shows "a_not_b_compute ha hb sh a b ordered =
     Inr \<lparr>cp_entries = (if ordered \<and> \<not> sv_ordered a \<and> 1 < length es then sort_key ha es else es),
       cp_theta = theta, cp_seed_hash = sh, cp_ordered = (ordered \<or> sv_ordered a),
       cp_empty = (es = [] \<and> theta = MAX_THETA)\<rparr>"
proof -
  have va: "sv_seed_hash a = sh" "sv_ordered a \<longrightarrow> sorted (map ha (sv_entries a))"
    and vb: "sv_seed_hash b = sh" "sv_ordered b \<longrightarrow> sorted (map hb (sv_entries b))"
      "sv_num_retained b = length (sv_entries b)"
    using a b live sh by (auto simp: view_ok_def)
  define es' where "es' = remaining_entries ha hb theta a b"
  have "es' = es"
  proof -
    consider (none) "sv_num_retained b = 0" | (scan) "sv_num_retained b \<noteq> 0" "sv_ordered a \<and> sv_ordered b"
      | (keys) "sv_num_retained b \<noteq> 0" "\<not> (sv_ordered a \<and> sv_ordered b)" by blast
    then show ?thesis
    proof cases
      case none
      then show ?thesis using vb(3) by (simp add: es'_def remaining_entries_def es view_hashes_def)
    next
      case scan
      then show ?thesis
        using va(2) vb(2) by (simp add: es'_def remaining_entries_def es view_hashes_def merge_scan_filter)
    next
      case keys
      have "es' = filter (\<lambda>e. ha e < theta \<and> ha e \<notin> {x \<in> view_hashes hb b. x < theta}) (sv_entries a)"
        unfolding es'_def remaining_entries_def Let_def if_not_P [OF keys(1)] if_not_P [OF keys(2)]
        by (simp add: collect_keys_set [OF vb(2)] keep_others_filter [OF va(2)] view_hashes_def)
      also have "\<dots> = es" unfolding es by (intro filter_cong) auto
      finally show ?thesis .
    qed
  qed
  then show ?thesis
    using live va(1) vb(1) unfolding a_not_b_compute_def es'_def theta
    by (simp add: check_seed_hash_def Let_def)
qed

section \<open>Properties\<close>

text \<open>
  C11. The difference of two valid views: it never fails, and its entries are exactly the hashes
  of \<open>a\<close> below the common theta that \<open>b\<close> does not have, each once, whichever of the three
  algorithms runs; an empty side leaves \<open>a\<close> as it is. The result is sorted when it says so, and
  marked empty when \<open>a\<close> is or when nothing is left in exact mode.
\<close>

theorem theta_a_not_b_exact:
  assumes "view_ok te_hash seed a" and "view_ok te_hash seed b" and "theta_a_not_b_with_seed seed = Inr sh"
    and "theta = (if sv_empty a \<or> sv_empty b then sv_theta a else min (sv_theta a) (sv_theta b))"
  shows "\<exists>c. theta_a_not_b sh a b ordered = Inr c \<and> ct_theta c = theta \<and>
     set (ct_entries c) = {x \<in> view_hashes te_hash a - view_hashes te_hash b. x < theta} \<and>
     distinct (ct_entries c) \<and> (ordered \<longrightarrow> ct_ordered c) \<and> (ct_ordered c \<longrightarrow> sorted (ct_entries c)) \<and>
     ct_empty c = (sv_empty a \<or> \<not> sv_empty b \<and> ct_entries c = [] \<and> theta = MAX_THETA)"
proof -
  have sh: "compute_seed_hash seed = Inr sh" using assms(3) by (simp add: theta_a_not_b_with_seed_def)
  have dist: "distinct (map te_hash (sv_entries a))" and sorted: "sv_ordered a \<longrightarrow> sorted (map te_hash (sv_entries a))"
    and lt: "\<forall>x \<in> view_hashes te_hash a. x < sv_theta a"
    and none: "sv_empty a \<longrightarrow> sv_entries a = []" "sv_empty b \<longrightarrow> sv_entries b = []"
    using assms(1,2) by (auto simp: view_ok_def)
  have sort_Nil: "sort_key te_hash xs = [] \<longleftrightarrow> xs = []" for xs by (metis length_0_conv length_sort)
  have short: "length xs \<le> 1 \<Longrightarrow> sorted (map te_hash xs)" for xs
    by (cases xs) auto
  show ?thesis
  proof (cases "sv_empty a \<or> sv_empty b")
    case True
    have copy: "a_not_b_compute te_hash te_hash sh a b ordered = Inr (parts_from_sketch te_hash a ordered)"
      using True assms(1) sh by (auto simp: a_not_b_compute_def check_seed_hash_def view_ok_def)
    have "view_hashes te_hash a - view_hashes te_hash b = view_hashes te_hash a"
      using True none by (auto simp: view_hashes_def)
    then show ?thesis
      using True copy dist sorted lt none assms(4) short [of "sv_entries a"]
      by (auto simp: theta_a_not_b_def parts_from_sketch_def Let_def compact_from_parts_def view_hashes_def
          distinct_map)
  next
    case False
    define es where "es = filter (\<lambda>e. te_hash e < theta \<and> te_hash e \<notin> view_hashes te_hash b) (sv_entries a)"
    have theta: "theta = min (sv_theta a) (sv_theta b)" using False assms(4) by simp
    note C = a_not_b_entries [OF assms(1,2) _ _ sh theta es_def, of ordered]
    have "distinct (map te_hash es)" using dist by (auto simp: es_def distinct_map inj_on_def)
    moreover have "sv_ordered a \<longrightarrow> sorted (map te_hash es)"
      using sorted by (simp add: es_def sorted_filter)
    moreover have "te_hash ` set es = {x \<in> view_hashes te_hash a - view_hashes te_hash b. x < theta}"
      by (auto simp: es_def view_hashes_def)
    ultimately show ?thesis
      using False C short [of es]
      by (auto simp: theta_a_not_b_def compact_from_parts_def distinct_map sort_Nil)
  qed
qed

theorem theta_a_not_b_exact_witness:
  "let a = view_of_compact (compact_from_parts [5, 9] MAX_THETA 0x93cc True False);
       b = view_of_compact (compact_from_parts [7, 5] 100 0x93cc False False)
   in \<exists>c. theta_a_not_b 0x93cc a b True = Inr c \<and> ct_theta c = 100 \<and> set (ct_entries c) = {9}"
proof -
  let ?a = "view_of_compact (compact_from_parts [5, 9] MAX_THETA 0x93cc True False)"
  let ?b = "view_of_compact (compact_from_parts [7, 5] 100 0x93cc False False)"
  have ok: "view_ok te_hash DEFAULT_UPDATE_SEED ?a" "view_ok te_hash DEFAULT_UPDATE_SEED ?b"
    by (auto simp: view_ok_def view_of_compact_def compact_from_parts_def view_hashes_def
        MAX_THETA_def default_seed_hash)
  have sh: "theta_a_not_b_with_seed DEFAULT_UPDATE_SEED = Inr 0x93cc"
    by (simp add: theta_a_not_b_with_seed_def default_seed_hash)
  have theta: "(if sv_empty ?a \<or> sv_empty ?b then sv_theta ?a else min (sv_theta ?a) (sv_theta ?b)) = 100"
    by (simp add: view_of_compact_def compact_from_parts_def MAX_THETA_def)
  have hs: "{x \<in> view_hashes te_hash ?a - view_hashes te_hash ?b. x < 100} = {9}"
    by (auto simp: view_hashes_def view_of_compact_def compact_from_parts_def)
  show ?thesis
    using theta_a_not_b_exact [OF ok sh refl, of True] unfolding theta hs Let_def by blast
qed

text \<open>
  A non-empty input with another seed hash is rejected, and an empty one is not looked at.
\<close>

theorem theta_a_not_b_seed_check:
  "(\<exists>c. theta_a_not_b sh a b ordered = Inr c) \<longleftrightarrow>
     sv_empty a \<or> sv_seed_hash a = sh \<and> (sv_empty b \<or> sv_seed_hash b = sh)"
  by (auto simp: theta_a_not_b_def a_not_b_compute_def check_seed_hash_def Let_def)

end
