(* ===== verification/PurgeMap.thy ===== *)
theory PurgeMap
  imports HashTable
begin

text \<open>
  The linear-probing map of the frequent-items sketch with its purge operation:
  \<open>src/datasketches/src/frequencies/reverse_purge_item_hash_map.rs\<close>. A slot is active when its
  state is positive, and the state is its distance from the home slot of its key plus one, an
  unsigned 16-bit number. The item type is \<open>'k\<close>, its \<open>Hash\<close> implementation the argument \<open>enc\<close>
  that gives the byte chunks an item writes. The loops over probe positions have no bound in the
  source but their debug assertion \<open>drift < DRIFT_LIMIT\<close>, which is the panic \<open>drift_exceeded\<close> here;
  their fuel is the number of slots, and running out is a panic that the lemmas exclude. The lemmas
  have one of two outcomes, \<open>may_drift\<close>: a right result, or this assertion, and the latter only when
  the map holds about as many keys as the limit, so never in a table of up to \<open>2 ^ 10\<close> slots.
\<close>

section \<open>The map\<close>

record 'k purge_map =
  rp_lg_length :: nat
  rp_load_threshold :: nat
  rp_keys :: "'k option list"
  rp_values :: "u64 list"
  rp_states :: "u16 list"
  rp_num_active :: nat

definition MAX_SAMPLE_SIZE :: nat where "MAX_SAMPLE_SIZE = 1024"
definition DRIFT_LIMIT :: nat where "DRIFT_LIMIT = 1024"

text \<open>\<open>debug_assert!(drift < DRIFT_LIMIT, "drift limit exceeded")\<close>\<close>

definition drift_exceeded :: error where "drift_exceeded = Panic ''drift limit exceeded''"

definition hash_item :: "('k \<Rightarrow> u8 list list) \<Rightarrow> 'k \<Rightarrow> u64" where
  "hash_item enc item = murmur_finish (foldl murmur_write (murmur_with_seed DEFAULT_UPDATE_SEED) (enc item))"

text \<open>\<open>usize::is_power_of_two\<close> and \<open>usize::trailing_zeros\<close> (of a positive number)\<close>

definition is_power_of_two :: "nat \<Rightarrow> bool" where
  "is_power_of_two n \<longleftrightarrow> 0 < n \<and> n AND (n - 1) = 0"

fun trailing_zeros :: "nat \<Rightarrow> nat" where
  "trailing_zeros n = (if n = 0 then 64 else if odd n then 0 else Suc (trailing_zeros (n div 2)))"

declare trailing_zeros.simps [simp del]

definition load_threshold_for :: "nat \<Rightarrow> nat" where
  "load_threshold_for map_size = map_size * 3 div 4"

definition rp_new :: "nat \<Rightarrow> 'k purge_map res" where
  "rp_new map_size =
     (if is_power_of_two map_size then
        Inr \<lparr>rp_lg_length = trailing_zeros map_size, rp_load_threshold = load_threshold_for map_size,
          rp_keys = replicate map_size None, rp_values = replicate map_size 0,
          rp_states = replicate map_size 0, rp_num_active = 0\<rparr>
      else Inl (Panic ''map_size must be power of 2''))"

text \<open>The search: the slot of the key or a free slot, and its distance from home plus one\<close>

fun find_probe :: "nat \<Rightarrow> 'k purge_map \<Rightarrow> 'k \<Rightarrow> nat \<Rightarrow> nat \<Rightarrow> nat \<Rightarrow> (nat \<times> nat) res" where
  "find_probe 0 m key msk probe drift = Inl (Panic ''search does not end'')"
| "find_probe (Suc fuel) m key msk probe drift =
     (if 0 < rp_states m ! probe then
        if rp_keys m ! probe = Some key then Inr (probe, drift)
        else if drift + 1 < DRIFT_LIMIT then find_probe fuel m key msk ((probe + 1) AND msk) (drift + 1)
        else Inl drift_exceeded
      else Inr (probe, drift))"

definition find_probe_or_empty :: "('k \<Rightarrow> u8 list list) \<Rightarrow> 'k purge_map \<Rightarrow> 'k \<Rightarrow> (nat \<times> nat) res" where
  "find_probe_or_empty enc m key =
     (let msk = length (rp_keys m) - 1;
          probe = unat (hash_item enc key) AND msk
      in find_probe (length (rp_keys m)) m key msk probe 1)"

definition rp_get :: "('k \<Rightarrow> u8 list list) \<Rightarrow> 'k purge_map \<Rightarrow> 'k \<Rightarrow> u64 res" where
  "rp_get enc m key =
     bind_res (find_probe_or_empty enc m key) (\<lambda>(probe, _).
       Inr (if 0 < rp_states m ! probe then rp_values m ! probe else 0))"

definition adjust_or_put_value :: "('k \<Rightarrow> u8 list list) \<Rightarrow> 'k purge_map \<Rightarrow> 'k \<Rightarrow> u64 \<Rightarrow> 'k purge_map res" where
  "adjust_or_put_value enc m key adjust_amount =
     bind_res (find_probe_or_empty enc m key) (\<lambda>(probe, drift).
       if rp_states m ! probe = 0 then
         Inr (m\<lparr>rp_keys := (rp_keys m)[probe := Some key],
                rp_values := (rp_values m)[probe := adjust_amount],
                rp_states := (rp_states m)[probe := of_nat drift],
                rp_num_active := rp_num_active m + 1\<rparr>)
       else
         Inr (m\<lparr>rp_values := (rp_values m)[probe := rp_values m ! probe + adjust_amount]\<rparr>))"

section \<open>Deleting and purging\<close>

text \<open>
  The loop of \<open>hash_delete\<close>: \<open>delete_probe\<close> is the hole, \<open>probe\<close> the slot looked at, \<open>drift\<close>
  slots behind it. A slot that lies further from its home than from the hole moves into the hole.
\<close>

fun close_hole :: "nat \<Rightarrow> nat \<Rightarrow> nat \<Rightarrow> nat \<Rightarrow> nat \<Rightarrow> 'k purge_map \<Rightarrow> 'k purge_map res" where
  "close_hole 0 msk delete_probe probe drift m = Inl (Panic ''deletion does not end'')"
| "close_hole (Suc fuel) msk delete_probe probe drift m =
     (if rp_states m ! probe \<noteq> 0 then
        let (m, drift, delete_probe) =
          (if drift < unat (rp_states m ! probe) then
             (m\<lparr>rp_keys := (rp_keys m)[delete_probe := rp_keys m ! probe, probe := None],
                rp_values := (rp_values m)[delete_probe := rp_values m ! probe],
                rp_states := (rp_states m)
                  [delete_probe := rp_states m ! probe - of_nat drift, probe := 0]\<rparr>, 0, probe)
           else (m, drift, delete_probe))
        in if drift + 1 < DRIFT_LIMIT
           then close_hole fuel msk delete_probe ((probe + 1) AND msk) (drift + 1) m
           else Inl drift_exceeded
      else Inr m)"

definition hash_delete :: "nat \<Rightarrow> 'k purge_map \<Rightarrow> 'k purge_map res" where
  "hash_delete delete_probe m =
     (let m = m\<lparr>rp_states := (rp_states m)[delete_probe := 0],
                rp_keys := (rp_keys m)[delete_probe := None]\<rparr>;
          msk = length (rp_keys m) - 1
      in close_hole (length (rp_keys m)) msk delete_probe ((delete_probe + 1) AND msk) 1 m)"

text \<open>The last free slot\<close>

fun last_free :: "u16 list \<Rightarrow> nat \<Rightarrow> nat res" where
  "last_free states 0 = (if 0 < states ! 0 then Inl (Panic ''attempt to subtract with overflow'') else Inr 0)"
| "last_free states (Suc i) = (if 0 < states ! Suc i then last_free states i else Inr (Suc i))"

definition delete_if_zero :: "'k purge_map \<Rightarrow> nat \<Rightarrow> 'k purge_map res" where
  "delete_if_zero m probe =
     (if 0 < rp_states m ! probe \<and> rp_values m ! probe = 0 then
        bind_res (hash_delete probe m) (\<lambda>m. Inr (m\<lparr>rp_num_active := rp_num_active m - 1\<rparr>))
      else Inr m)"

definition keep_only_positive_counts :: "'k purge_map \<Rightarrow> 'k purge_map res" where
  "keep_only_positive_counts m =
     (let len = length (rp_keys m)
      in bind_res (last_free (rp_states m) (len - 1)) (\<lambda>first_probe.
         bind_res (fold_res delete_if_zero m (rev [0..<first_probe])) (\<lambda>m.
           fold_res delete_if_zero m (rev [first_probe..<len]))))"

definition saturating_sub :: "u64 \<Rightarrow> u64 \<Rightarrow> u64" where
  "saturating_sub a b = (if b \<le> a then a - b else 0)"

definition adjust_all_values_by :: "'k purge_map \<Rightarrow> u64 \<Rightarrow> 'k purge_map" where
  "adjust_all_values_by m adjust_amount =
     m\<lparr>rp_values := map (\<lambda>v. saturating_sub v adjust_amount) (rp_values m)\<rparr>"

text \<open>The values of the first active slots, up to the limit\<close>

fun collect_samples :: "nat \<Rightarrow> u64 list \<Rightarrow> (u16 \<times> u64) list \<Rightarrow> u64 list res" where
  "collect_samples limit samples slots =
     (if length samples < limit then
        case slots of
          [] \<Rightarrow> Inl (Panic ''index out of bounds'')
        | (state, v) # slots \<Rightarrow>
            collect_samples limit (if 0 < state then samples @ [v] else samples) slots
      else Inr samples)"

declare collect_samples.simps [simp del]

definition rp_purge :: "'k purge_map \<Rightarrow> nat \<Rightarrow> ('k purge_map \<times> u64) res" where
  "rp_purge m sample_size =
     (let limit = min (min sample_size (rp_num_active m)) MAX_SAMPLE_SIZE
      in bind_res (collect_samples limit [] (zip (rp_states m) (rp_values m))) (\<lambda>samples.
           let mid = length samples div 2
           in bind_res (select_nth_unstable_by_key mid (\<lambda>v. v) samples) (\<lambda>(_, median, _).
                bind_res (keep_only_positive_counts (adjust_all_values_by m median)) (\<lambda>m.
                  Inr (m, median)))))"

text \<open>Growing: every active slot is put into the new arrays.\<close>

fun put_all :: "('k \<Rightarrow> u8 list list) \<Rightarrow> 'k purge_map \<Rightarrow> ('k option \<times> u64 \<times> u16) list \<Rightarrow> 'k purge_map res" where
  "put_all enc m [] = Inr m"
| "put_all enc m ((key, v, state) # slots) =
     (case key of
        Some key \<Rightarrow>
          if 0 < state then bind_res (adjust_or_put_value enc m key v) (\<lambda>m. put_all enc m slots)
          else put_all enc m slots
      | None \<Rightarrow> put_all enc m slots)"

definition rp_resize :: "('k \<Rightarrow> u8 list list) \<Rightarrow> 'k purge_map \<Rightarrow> nat \<Rightarrow> 'k purge_map res" where
  "rp_resize enc m new_size =
     (if is_power_of_two new_size then
        put_all enc \<lparr>rp_lg_length = trailing_zeros new_size,
            rp_load_threshold = load_threshold_for new_size,
            rp_keys = replicate new_size None, rp_values = replicate new_size 0,
            rp_states = replicate new_size 0, rp_num_active = 0\<rparr>
          (zip (rp_keys m) (zip (rp_values m) (rp_states m)))
      else Inl (Panic ''new_size must be power of 2''))"

section \<open>Iterating\<close>

definition active_entries :: "'k purge_map \<Rightarrow> ('k \<times> u64) list" where
  "active_entries m =
     map (\<lambda>(k, v, _). (the k, v))
       (filter (\<lambda>(k, _, state). 0 < state \<and> k \<noteq> None) (zip (rp_keys m) (zip (rp_values m) (rp_states m))))"

text \<open>
  The stride of the iterator, \<open>((size as f64 * 0.6180339887498949) as usize) | 1\<close>: the literal is
  the double \<open>347922205179541 / 2 ^ 49\<close>, and scaling it by a power of two is exact.
\<close>

definition iter_stride :: "nat \<Rightarrow> nat" where
  "iter_stride len = (len * 347922205179541 div 2 ^ 49) OR 1"

fun iter_from :: "nat \<Rightarrow> 'k purge_map \<Rightarrow> nat \<Rightarrow> nat \<Rightarrow> nat \<Rightarrow> nat \<Rightarrow> ('k \<times> u64) list res" where
  "iter_from 0 m stride msk index count =
     (if rp_num_active m \<le> count then Inr [] else Inl (Panic ''iteration does not end''))"
| "iter_from (Suc fuel) m stride msk index count =
     (if rp_num_active m \<le> count then Inr []
      else
        let index = (index + stride) AND msk
        in if 0 < rp_states m ! index then
             case rp_keys m ! index of
               None \<Rightarrow> Inl (Panic ''active key missing'')
             | Some key \<Rightarrow>
                 bind_res (iter_from fuel m stride msk index (count + 1)) (\<lambda>rest.
                   Inr ((key, rp_values m ! index) # rest))
           else iter_from fuel m stride msk index count)"

text \<open>The start index \<open>0usize.wrapping_sub(stride)\<close>\<close>

definition rp_iter :: "'k purge_map \<Rightarrow> ('k \<times> u64) list res" where
  "rp_iter m =
     (let len = length (rp_keys m);
          stride = iter_stride len;
          msk = len - 1;
          index = unat (0 - of_nat stride :: u64)
      in iter_from len m stride msk index 0)"


section \<open>Powers of two\<close>

lemma is_power_of_two_exp [simp]: "is_power_of_two (2 ^ lg)"
  using and_mask_nat [of "2 ^ lg" lg] by (simp add: is_power_of_two_def)

lemma trailing_zeros_exp [simp]: "trailing_zeros (2 ^ lg) = lg"
proof (induction lg)
  case (Suc lg)
  then show ?case by (simp add: trailing_zeros.simps [of "2 * 2 ^ lg"])
qed (simp add: trailing_zeros.simps)

lemma mod_add_cancel:
  fixes a b d n :: nat
  assumes "(a + d) mod n = (b + d) mod n"
  shows "a mod n = b mod n"
proof -
  have "(int a + int d) mod int n = (int b + int d) mod int n"
    using assms by (metis of_nat_add zmod_int)
  then have "(int a + int d - int d) mod int n = (int b + int d - int d) mod int n"
    by (rule mod_diff_cong) simp
  then have "int (a mod n) = int (b mod n)" by (simp add: zmod_int)
  then show ?thesis by simp
qed

lemma mod_offset_inj:
  fixes p i j n :: nat
  assumes "(p + i) mod n = (p + j) mod n" and "i < n" and "j < n"
  shows "i = j"
  using mod_add_cancel [of i p n j] assms by (simp add: add.commute)

section \<open>The invariant\<close>

definition home :: "('k \<Rightarrow> u8 list list) \<Rightarrow> 'k purge_map \<Rightarrow> 'k \<Rightarrow> nat" where
  "home enc m k = unat (hash_item enc k) mod length (rp_keys m)"

text \<open>
  Slot \<open>i\<close> holds \<open>k\<close> where the probes for \<open>k\<close> come past: its state says how far from home, below
  the drift limit, and every slot on the way is active, or one of the holes \<open>H\<close> of a deletion in
  progress.
\<close>

definition placed :: "('k \<Rightarrow> u8 list list) \<Rightarrow> nat set \<Rightarrow> 'k purge_map \<Rightarrow> nat \<Rightarrow> 'k \<Rightarrow> bool" where
  "placed enc H m i k \<longleftrightarrow>
     (let n = length (rp_keys m); s = unat (rp_states m ! i)
      in rp_keys m ! i = Some k \<and> 0 < s \<and> s \<le> n \<and> s < DRIFT_LIMIT \<and> (home enc m k + (s - 1)) mod n = i \<and>
         (\<forall>d < s - 1. rp_states m ! ((home enc m k + d) mod n) \<noteq> 0 \<or> (home enc m k + d) mod n \<in> H))"

definition slots_ok :: "('k \<Rightarrow> u8 list list) \<Rightarrow> nat set \<Rightarrow> 'k purge_map \<Rightarrow> bool" where
  "slots_ok enc H m \<longleftrightarrow>
     length (rp_keys m) = 2 ^ rp_lg_length m \<and> length (rp_values m) = length (rp_keys m) \<and>
     length (rp_states m) = length (rp_keys m) \<and>
     (\<forall>i < length (rp_keys m). rp_states m ! i = 0 \<and> rp_keys m ! i = None \<or> (\<exists>k. placed enc H m i k)) \<and>
     (\<forall>i < length (rp_keys m). \<forall>j < length (rp_keys m). \<forall>k.
        rp_keys m ! i = Some k \<longrightarrow> rp_keys m ! j = Some k \<longrightarrow> i = j)"

text \<open>The map that the arrays stand for\<close>

definition rp_set :: "'k purge_map \<Rightarrow> ('k \<times> u64) set" where
  "rp_set m = {(k, v). \<exists>i < length (rp_keys m). rp_keys m ! i = Some k \<and> rp_values m ! i = v}"

definition rp_map :: "'k purge_map \<Rightarrow> 'k \<Rightarrow> u64 option" where
  "rp_map m = map_of (active_entries m)"

definition rp_ok :: "('k \<Rightarrow> u8 list list) \<Rightarrow> 'k purge_map \<Rightarrow> bool" where
  "rp_ok enc m \<longleftrightarrow> slots_ok enc {} m \<and> rp_num_active m = card (dom (rp_map m)) \<and>
     rp_num_active m < length (rp_keys m) \<and> length (rp_keys m) \<le> 2 ^ 30 \<and>
     rp_load_threshold m = load_threshold_for (length (rp_keys m))"

lemma slots_okD:
  assumes "slots_ok enc H m"
  shows "length (rp_keys m) = 2 ^ rp_lg_length m" "length (rp_values m) = length (rp_keys m)"
    "length (rp_states m) = length (rp_keys m)" "0 < length (rp_keys m)"
  using assms by (simp_all add: slots_ok_def)

lemma slot_cases:
  assumes "slots_ok enc H m" and "i < length (rp_keys m)"
  obtains (free) "rp_states m ! i = 0" "rp_keys m ! i = None"
    | (active) k where "rp_states m ! i \<noteq> 0" "rp_keys m ! i = Some k" "placed enc H m i k"
proof -
  consider "rp_states m ! i = 0 \<and> rp_keys m ! i = None" | k where "placed enc H m i k"
    using assms unfolding slots_ok_def by blast
  then show ?thesis
  proof cases
    case 2
    then have "rp_states m ! i \<noteq> 0" "rp_keys m ! i = Some k" by (auto simp: placed_def Let_def)
    then show ?thesis using active 2 by blast
  qed (use free in blast)
qed

lemma slot_disj:
  "slots_ok enc H m \<Longrightarrow> i < length (rp_keys m) \<Longrightarrow>
   rp_states m ! i = 0 \<and> rp_keys m ! i = None \<or> (\<exists>k. placed enc H m i k)"
  unfolding slots_ok_def by blast

lemma slot_unique:
  "slots_ok enc H m \<Longrightarrow> i < length (rp_keys m) \<Longrightarrow> j < length (rp_keys m) \<Longrightarrow>
   rp_keys m ! i = Some k \<Longrightarrow> rp_keys m ! j = Some k \<Longrightarrow> i = j"
  unfolding slots_ok_def by blast

lemma state_iff_key:
  "slots_ok enc H m \<Longrightarrow> i < length (rp_keys m) \<Longrightarrow> rp_states m ! i = 0 \<longleftrightarrow> rp_keys m ! i = None"
  by (erule (1) slot_cases) simp_all

lemma zip_slots:
  "length (rp_values m) = length (rp_keys m) \<Longrightarrow> length (rp_states m) = length (rp_keys m) \<Longrightarrow>
   zip (rp_keys m) (zip (rp_values m) (rp_states m)) =
   map (\<lambda>i. (rp_keys m ! i, rp_values m ! i, rp_states m ! i)) [0..<length (rp_keys m)]"
  by (rule nth_equalityI) simp_all

lemma set_active_entries:
  assumes "slots_ok enc H m"
  shows "set (active_entries m) = rp_set m"
proof -
  note L = slots_okD [OF assms]
  have "(k, v) \<in> set (active_entries m) \<longleftrightarrow>
      (\<exists>i < length (rp_keys m). 0 < rp_states m ! i \<and> rp_keys m ! i = Some k \<and> rp_values m ! i = v)" for k v
    unfolding active_entries_def zip_slots [OF L(2,3)] by (auto simp: image_iff) force
  moreover have "0 < rp_states m ! i \<and> rp_keys m ! i = Some k \<longleftrightarrow> rp_keys m ! i = Some k"
    if "i < length (rp_keys m)" for i k
    using state_iff_key [OF assms that] by (metis option.distinct(1) word_neq_0_conv)
  ultimately have "(k, v) \<in> set (active_entries m) \<longleftrightarrow> (k, v) \<in> rp_set m" for k v
    unfolding rp_set_def mem_Collect_eq prod.case by blast
  then show ?thesis by auto
qed

lemma distinct_active_entries:
  assumes "slots_ok enc H m"
  shows "distinct (map fst (active_entries m))"
proof -
  note L = slots_okD [OF assms]
  let ?zs = "zip (rp_keys m) (zip (rp_values m) (rp_states m))"
  let ?P = "\<lambda>(k, v, state). (0 :: u16) < state \<and> k \<noteq> (None :: 'a option)"
  have nth: "?zs ! i = (rp_keys m ! i, rp_values m ! i, rp_states m ! i)" if "i < length (rp_keys m)" for i
    using that L(2,3) by simp
  have "distinct (filter ?P ?zs)"
  proof (rule distinct_filter_nth)
    fix i j
    assume "i < length ?zs" "j < length ?zs" "?P (?zs ! i)" "?zs ! i = ?zs ! j"
    then show "i = j" using L(2,3) slot_unique [OF assms, of i j] by (auto simp: nth)
  qed
  moreover have "inj_on (\<lambda>(k, _). the k) (set (filter ?P ?zs))"
  proof (rule inj_onI)
    fix x y
    assume x: "x \<in> set (filter ?P ?zs)" and y: "y \<in> set (filter ?P ?zs)"
      and eq: "(case x of (k, _) \<Rightarrow> the k) = (case y of (k, _) \<Rightarrow> the k)"
    obtain i where i: "i < length (rp_keys m)" "x = ?zs ! i" "?P x"
      using x by (auto simp: in_set_conv_nth)
    obtain j where j: "j < length (rp_keys m)" "y = ?zs ! j" "?P y"
      using y by (auto simp: in_set_conv_nth)
    have "i = j"
      using slot_unique [OF assms i(1) j(1)] eq i j by (auto simp: nth)
    then show "x = y" using i j by simp
  qed
  ultimately have "distinct (map (\<lambda>(k, _). the k) (filter ?P ?zs))" by (simp add: distinct_map)
  then show ?thesis by (simp add: active_entries_def comp_def case_prod_unfold)
qed

lemma rp_map_iff: "slots_ok enc H m \<Longrightarrow> rp_map m k = Some v \<longleftrightarrow> (k, v) \<in> rp_set m"
  unfolding rp_map_def
  by (metis distinct_active_entries map_of_eq_Some_iff set_active_entries)

lemma rp_map_eqI:
  assumes "slots_ok enc H m" and "\<And>k v. (k, v) \<in> rp_set m \<longleftrightarrow> f k = Some v"
  shows "rp_map m = f"
proof (rule ext)
  fix k
  have eq: "rp_map m k = Some v \<longleftrightarrow> f k = Some v" for v
    unfolding rp_map_iff [OF assms(1)] by (rule assms(2))
  show "rp_map m k = f k" using eq [of "the (f k)"] eq [of "the (rp_map m k)"] by (metis option.exhaust_sel)
qed

lemma rp_map_slot:
  "slots_ok enc H m \<Longrightarrow> i < length (rp_keys m) \<Longrightarrow> rp_keys m ! i = Some k \<Longrightarrow>
   rp_map m k = Some (rp_values m ! i)"
  unfolding rp_map_iff rp_set_def mem_Collect_eq prod.case by blast

lemma rp_map_None:
  "slots_ok enc H m \<Longrightarrow> rp_map m k = None \<longleftrightarrow> (\<forall>i < length (rp_keys m). rp_keys m ! i \<noteq> Some k)"
  using rp_map_iff [of enc H m k] unfolding rp_set_def
  by (cases "rp_map m k") auto

lemma finite_dom_rp_map [simp]: "finite (dom (rp_map m))"
  by (simp add: rp_map_def finite_dom_map_of)

text \<open>The keys are in bijection with the active slots.\<close>

lemma card_active:
  assumes "slots_ok enc H m"
  shows "card {i. i < length (rp_keys m) \<and> rp_states m ! i \<noteq> 0} = card (dom (rp_map m))"
proof (rule bij_betw_same_card)
  let ?A = "{i. i < length (rp_keys m) \<and> rp_states m ! i \<noteq> 0}"
  show "bij_betw (\<lambda>i. the (rp_keys m ! i)) ?A (dom (rp_map m))"
  proof (rule bij_betwI')
    fix i j
    assume "i \<in> ?A" "j \<in> ?A"
    then show "(the (rp_keys m ! i) = the (rp_keys m ! j)) = (i = j)"
      using state_iff_key [OF assms] slot_unique [OF assms, of i j] by fastforce
  next
    fix i
    assume "i \<in> ?A"
    then show "the (rp_keys m ! i) \<in> dom (rp_map m)"
      using state_iff_key [OF assms] rp_map_slot [OF assms] by fastforce
  next
    fix k
    assume "k \<in> dom (rp_map m)"
    then obtain i where "i < length (rp_keys m)" "rp_keys m ! i = Some k"
      using rp_map_None [OF assms, of k] by (auto simp: dom_def)
    then show "\<exists>i \<in> ?A. k = the (rp_keys m ! i)" using state_iff_key [OF assms, of i] by force
  qed
qed

lemma free_slot:
  assumes "slots_ok enc H m" and "card (dom (rp_map m)) < length (rp_keys m)"
  obtains i where "i < length (rp_keys m)" and "rp_states m ! i = 0"
proof -
  have "{i. i < length (rp_keys m) \<and> rp_states m ! i \<noteq> 0} \<noteq> {..<length (rp_keys m)}"
    using assms card_active [OF assms(1)] by (metis card_lessThan less_irrefl)
  then show ?thesis using that by auto
qed


section \<open>Searching\<close>

text \<open>
  The two outcomes: a result with the property \<open>P\<close>, or, under the condition \<open>c\<close>, the drift assertion.
\<close>

definition may_drift :: "bool \<Rightarrow> 'a res \<Rightarrow> ('a \<Rightarrow> bool) \<Rightarrow> bool" where
  "may_drift c r P \<longleftrightarrow> (\<exists>x. r = Inr x \<and> P x) \<or> c \<and> r = Inl drift_exceeded"

lemma may_driftI: "r = Inr x \<Longrightarrow> P x \<Longrightarrow> may_drift c r P"
  by (simp add: may_drift_def)

lemma may_drift_panic: "r = Inl drift_exceeded \<Longrightarrow> c \<Longrightarrow> may_drift c r P"
  by (simp add: may_drift_def)

lemma may_driftE:
  assumes "may_drift c r P"
  obtains (result) x where "r = Inr x" "P x" | (drift) "c" "r = Inl drift_exceeded"
  using assms by (auto simp: may_drift_def)

lemma may_drift_mono: "may_drift c r P \<Longrightarrow> (c \<Longrightarrow> c') \<Longrightarrow> (\<And>x. r = Inr x \<Longrightarrow> P x \<Longrightarrow> P' x) \<Longrightarrow> may_drift c' r P'"
  by (auto simp: may_drift_def)

lemma may_drift_bind:
  "may_drift c r P \<Longrightarrow> (\<And>x. r = Inr x \<Longrightarrow> P x \<Longrightarrow> may_drift c (f x) Q) \<Longrightarrow> may_drift c (bind_res r f) Q"
  by (auto simp: may_drift_def)

lemma may_drift_False: "may_drift False r P \<longleftrightarrow> (\<exists>x. r = Inr x \<and> P x)"
  by (simp add: may_drift_def)

lemma next_probe: "n = 2 ^ lg \<Longrightarrow> ((h + i) mod n + 1) AND (n - 1) = (h + Suc i) mod n" for n :: nat
  by (simp add: and_mask_nat [unfolded One_nat_def] mod_Suc_eq)

lemma find_probe_walk:
  assumes n: "length (rp_keys m) = n" "n = 2 ^ lg"
    and pass: "\<forall>j < J. rp_states m ! ((h + j) mod n) \<noteq> 0 \<and> rp_keys m ! ((h + j) mod n) \<noteq> Some key"
    and stop: "rp_states m ! ((h + J) mod n) = 0 \<or> rp_keys m ! ((h + J) mod n) = Some key"
  shows "i \<le> J \<Longrightarrow> J - i < fuel \<Longrightarrow> i + 1 < DRIFT_LIMIT \<Longrightarrow>
    find_probe fuel m key (n - 1) ((h + i) mod n) (i + 1) =
      (if J + 1 < DRIFT_LIMIT then Inr ((h + J) mod n, J + 1) else Inl drift_exceeded)"
proof (induction fuel arbitrary: i)
  case (Suc fuel)
  show ?case
  proof (cases "i = J")
    case True
    then show ?thesis using stop Suc.prems(3) by (auto simp: word_neq_0_conv [symmetric])
  next
    case False
    then have "i < J" using Suc.prems by simp
    then have "find_probe (Suc fuel) m key (n - 1) ((h + i) mod n) (i + 1) =
        (if Suc i + 1 < DRIFT_LIMIT then find_probe fuel m key (n - 1) ((h + Suc i) mod n) (Suc i + 1)
         else Inl drift_exceeded)"
      using pass next_probe [OF n(2), of h i] by (simp add: word_neq_0_conv [symmetric])
    then show ?thesis using Suc.IH [of "Suc i"] Suc.prems \<open>i < J\<close> by simp
  qed
qed simp

lemma home_lt: "slots_ok enc H m \<Longrightarrow> home enc m k < length (rp_keys m)"
  using slots_okD(4) [of enc H m] by (simp add: home_def)

lemma find_probe_home:
  assumes "slots_ok enc H m"
  shows "find_probe_or_empty enc m key =
    find_probe (length (rp_keys m)) m key (length (rp_keys m) - 1) (home enc m key) 1"
  using slots_okD(1) [OF assms]
  by (simp add: find_probe_or_empty_def home_def Let_def and_mask_nat [unfolded One_nat_def])

lemma find_walk:
  assumes ok: "slots_ok enc H m" and J: "J < length (rp_keys m)"
    and pass: "\<forall>j < J. rp_states m ! ((home enc m key + j) mod length (rp_keys m)) \<noteq> 0 \<and>
      rp_keys m ! ((home enc m key + j) mod length (rp_keys m)) \<noteq> Some key"
    and stop: "rp_states m ! ((home enc m key + J) mod length (rp_keys m)) = 0 \<or>
      rp_keys m ! ((home enc m key + J) mod length (rp_keys m)) = Some key"
  shows "find_probe_or_empty enc m key =
    (if J + 1 < DRIFT_LIMIT then Inr ((home enc m key + J) mod length (rp_keys m), J + 1)
     else Inl drift_exceeded)"
  using find_probe_walk [OF refl slots_okD(1) [OF ok] pass stop, of 0 "length (rp_keys m)"] J
    home_lt [OF ok, of key]
  by (simp add: find_probe_home [OF ok] DRIFT_LIMIT_def)

text \<open>A key that is there is found in its slot.\<close>

lemma find_present:
  assumes ok: "slots_ok enc {} m" and i: "i < length (rp_keys m)" "rp_keys m ! i = Some key"
  shows "\<exists>d. find_probe_or_empty enc m key = Inr (i, d)"
proof -
  let ?n = "length (rp_keys m)" and ?s = "unat (rp_states m ! i)" and ?h = "home enc m key"
  have "placed enc {} m i key" using i by (cases rule: slot_cases [OF ok i(1)]) auto
  then have p: "0 < ?s" "?s \<le> ?n" "(?h + (?s - 1)) mod ?n = i" "?s < DRIFT_LIMIT"
    "\<forall>d < ?s - 1. rp_states m ! ((?h + d) mod ?n) \<noteq> 0"
    by (auto simp: placed_def Let_def)
  have "rp_keys m ! ((?h + d) mod ?n) \<noteq> Some key" if "d < ?s - 1" for d
  proof
    assume "rp_keys m ! ((?h + d) mod ?n) = Some key"
    then have "(?h + d) mod ?n = (?h + (?s - 1)) mod ?n"
      using slot_unique [OF ok _ i(1) _ i(2)] slots_okD(4) [OF ok] p(3) by simp
    then show False using mod_offset_inj [of ?h d ?n "?s - 1"] that p(1,2) by simp
  qed
  then show ?thesis
    using find_walk [OF ok, of "?s - 1" key] p i(2) by simp
qed

text \<open>A run of active slots is no longer than the map has keys.\<close>

lemma run_le_card:
  assumes ok: "slots_ok enc {} m" and run: "\<forall>j < J. rp_states m ! ((h + j) mod length (rp_keys m)) \<noteq> 0"
    and J: "J \<le> length (rp_keys m)"
  shows "J \<le> card (dom (rp_map m))"
proof -
  let ?n = "length (rp_keys m)"
  have n: "0 < ?n" by (rule slots_okD(4) [OF ok])
  have "card ((\<lambda>j. (h + j) mod ?n) ` {..<J}) \<le> card {i. i < ?n \<and> rp_states m ! i \<noteq> 0}"
    using run n by (intro card_mono) auto
  moreover have "inj_on (\<lambda>j. (h + j) mod ?n) {..<J}"
  proof (rule inj_onI)
    fix x y
    assume "x \<in> {..<J}" "y \<in> {..<J}" "(h + x) mod ?n = (h + y) mod ?n"
    then show "x = y" using mod_offset_inj [of h x ?n y] J by simp
  qed
  ultimately show ?thesis using card_active [OF ok] by (simp add: card_image)
qed

text \<open>A key that is not there ends at a free slot, with the distance that its state will record.\<close>

lemma find_absent:
  assumes ok: "slots_ok enc {} m" and none: "rp_map m key = None"
    and room: "card (dom (rp_map m)) < length (rp_keys m)"
  obtains J where "find_probe_or_empty enc m key =
      (if J + 1 < DRIFT_LIMIT then Inr ((home enc m key + J) mod length (rp_keys m), J + 1)
       else Inl drift_exceeded)"
    and "rp_states m ! ((home enc m key + J) mod length (rp_keys m)) = 0"
    and "\<forall>j < J. rp_states m ! ((home enc m key + j) mod length (rp_keys m)) \<noteq> 0"
    and "J < length (rp_keys m)" and "J \<le> card (dom (rp_map m))"
proof -
  let ?n = "length (rp_keys m)" and ?h = "home enc m key"
  have n: "0 < ?n" by (rule slots_okD(4) [OF ok])
  obtain i where i: "i < ?n" "rp_states m ! i = 0" by (rule free_slot [OF ok room])
  have "?h + (i + ?n - ?h) = i + ?n" using home_lt [OF ok, of key] by linarith
  then have "(?h + (i + ?n - ?h) mod ?n) mod ?n = i" using i(1) by (simp add: mod_add_right_eq)
  then have ex: "rp_states m ! ((?h + (i + ?n - ?h) mod ?n) mod ?n) = 0"
    by (simp only: i(2))
  define J where "J = (LEAST J. rp_states m ! ((?h + J) mod ?n) = 0)"
  have J: "rp_states m ! ((?h + J) mod ?n) = 0"
    unfolding J_def by (rule LeastI [where P = "\<lambda>J. rp_states m ! ((?h + J) mod ?n) = 0", OF ex])
  have least: "\<forall>j < J. rp_states m ! ((?h + j) mod ?n) \<noteq> 0"
    unfolding J_def by (blast dest: not_less_Least)
  have "J \<le> (i + ?n - ?h) mod ?n" unfolding J_def
    by (rule Least_le [where P = "\<lambda>J. rp_states m ! ((?h + J) mod ?n) = 0", OF ex])
  then have lt: "J < ?n" using n mod_less_divisor le_less_trans by blast
  have le: "J \<le> card (dom (rp_map m))" using run_le_card [OF ok least] lt by simp
  have "rp_keys m ! p \<noteq> Some key" if "p < ?n" for p using none rp_map_None [OF ok] that by blast
  then have "find_probe_or_empty enc m key =
      (if J + 1 < DRIFT_LIMIT then Inr ((?h + J) mod ?n, J + 1) else Inl drift_exceeded)"
    using least J n by (intro find_walk [OF ok lt]) auto
  then show ?thesis using that J least lt le by blast
qed

text \<open>A key that is there is always found; the search for another one may meet a run that is too long.\<close>

lemma rp_get_ok:
  assumes "rp_ok enc m"
  shows "may_drift (rp_map m key = None \<and> DRIFT_LIMIT \<le> rp_num_active m + 1) (rp_get enc m key)
    (\<lambda>v. v = (case rp_map m key of None \<Rightarrow> 0 | Some v \<Rightarrow> v))"
proof -
  have ok: "slots_ok enc {} m" and room: "card (dom (rp_map m)) < length (rp_keys m)"
    using assms by (simp_all add: rp_ok_def)
  show ?thesis
  proof (cases "rp_map m key")
    case None
    show ?thesis
      by (rule find_absent [OF ok None room])
        (use assms in \<open>auto simp: rp_get_def None may_drift_def rp_ok_def\<close>)
  next
    case (Some v)
    then obtain i where i: "i < length (rp_keys m)" "rp_keys m ! i = Some key"
      using rp_map_None [OF ok, of key] by auto
    then have "rp_states m ! i \<noteq> 0" using state_iff_key [OF ok, of i] by simp
    then show ?thesis
      using find_present [OF ok i] rp_map_slot [OF ok i]
      by (auto simp: rp_get_def word_neq_0_conv [symmetric] may_drift_def Some)
  qed
qed


section \<open>Adding\<close>

text \<open>A slot stays placed when only other free slots change.\<close>

lemma placed_cong:
  assumes "placed enc H m i k" and "length (rp_keys m') = length (rp_keys m)"
    and "rp_keys m' ! i = rp_keys m ! i" and "rp_states m' ! i = rp_states m ! i"
    and "\<And>j. j < length (rp_keys m) \<Longrightarrow> rp_states m ! j \<noteq> 0 \<or> j \<in> H \<Longrightarrow> rp_states m' ! j \<noteq> 0 \<or> j \<in> H'"
  shows "placed enc H' m' i k"
proof -
  let ?n = "length (rp_keys m)" and ?s = "unat (rp_states m ! i)" and ?h = "home enc m k"
  have h: "home enc m' k = ?h" using assms(2) by (simp add: home_def)
  have P: "rp_keys m ! i = Some k" "0 < ?s" "?s \<le> ?n" "(?h + (?s - 1)) mod ?n = i"
    "\<forall>d < ?s - 1. rp_states m ! ((?h + d) mod ?n) \<noteq> 0 \<or> (?h + d) mod ?n \<in> H" "?s < DRIFT_LIMIT"
    using assms(1) unfolding placed_def Let_def by blast+
  have "rp_states m' ! ((?h + d) mod ?n) \<noteq> 0 \<or> (?h + d) mod ?n \<in> H'" if "d < ?s - 1" for d
  proof (rule assms(5))
    show "(?h + d) mod ?n < ?n" using P(2,3) by (intro mod_less_divisor) linarith
  qed (use P(5) that in blast)
  then show ?thesis
    unfolding placed_def Let_def h assms(2-4) using P by blast
qed

text \<open>The map after one slot got the key\<close>

lemma rp_map_upd:
  assumes ok: "slots_ok enc H m" and ok': "slots_ok enc H' m'" and len: "length (rp_keys m') = length (rp_keys m)"
    and i: "i < length (rp_keys m)" "rp_keys m' ! i = Some key" "rp_keys m ! i = None \<or> rp_keys m ! i = Some key"
    and other: "\<And>j. j < length (rp_keys m) \<Longrightarrow> j \<noteq> i \<Longrightarrow>
      rp_keys m' ! j = rp_keys m ! j \<and> rp_values m' ! j = rp_values m ! j"
  shows "rp_map m' = (rp_map m)(key \<mapsto> rp_values m' ! i)"
proof (rule ext)
  fix k
  show "rp_map m' k = ((rp_map m)(key \<mapsto> rp_values m' ! i)) k"
  proof (cases "k = key")
    case True
    then show ?thesis using rp_map_slot [OF ok', of i key] i(1,2) len by simp
  next
    case k: False
    have "rp_map m' k = rp_map m k"
    proof (cases "rp_map m k")
      case None
      then have "\<forall>j < length (rp_keys m). rp_keys m' ! j \<noteq> Some k"
        using rp_map_None [OF ok, of k] other i(2) k by (metis option.inject)
      then show ?thesis using None rp_map_None [OF ok', of k] len by simp
    next
      case (Some w)
      then obtain j where j: "j < length (rp_keys m)" "rp_keys m ! j = Some k"
        using rp_map_None [OF ok, of k] by auto
      then have "j \<noteq> i" using i(3) k by auto
      then show ?thesis
        using rp_map_slot [OF ok j] rp_map_slot [OF ok', of j k] other [OF j(1)] j len by simp
    qed
    then show ?thesis using k by simp
  qed
qed

lemma put_existing:
  assumes ok: "rp_ok enc m" and some: "rp_map m key = Some v"
  shows "\<exists>m'. adjust_or_put_value enc m key a = Inr m' \<and> rp_ok enc m' \<and>
    rp_map m' = (rp_map m)(key \<mapsto> v + a) \<and> rp_lg_length m' = rp_lg_length m"
proof -
  have sok: "slots_ok enc {} m" using ok by (simp add: rp_ok_def)
  obtain i where i: "i < length (rp_keys m)" "rp_keys m ! i = Some key"
    using rp_map_None [OF sok, of key] some by auto
  obtain d where d: "find_probe_or_empty enc m key = Inr (i, d)" using find_present [OF sok i] by blast
  have v: "rp_values m ! i = v" using rp_map_slot [OF sok i] some by simp
  let ?m = "m\<lparr>rp_values := (rp_values m)[i := v + a]\<rparr>"
  have "rp_states m ! i \<noteq> 0" using state_iff_key [OF sok i(1)] i(2) by simp
  then have run: "adjust_or_put_value enc m key a = Inr ?m"
    using d v by (simp add: adjust_or_put_value_def)
  have placed: "placed enc {} ?m j k = placed enc {} m j k" for j k
    by (simp add: placed_def home_def)
  have sok': "slots_ok enc {} ?m" using sok by (simp add: slots_ok_def placed)
  have map: "rp_map ?m = (rp_map m)(key \<mapsto> v + a)"
    using rp_map_upd [OF sok sok' _ i(1), of key] i slots_okD(2) [OF sok] by simp
  have "dom (rp_map ?m) = dom (rp_map m)" using map some by auto
  then show ?thesis using ok sok' run map by (auto simp: rp_ok_def)
qed

lemma put_new:
  assumes ok: "rp_ok enc m" and none: "rp_map m key = None"
    and room: "rp_num_active m + 1 < length (rp_keys m)"
  shows "may_drift (DRIFT_LIMIT \<le> rp_num_active m + 1) (adjust_or_put_value enc m key a)
    (\<lambda>m'. rp_ok enc m' \<and> rp_map m' = (rp_map m)(key \<mapsto> a) \<and> rp_lg_length m' = rp_lg_length m)"
proof -
  have sok: "slots_ok enc {} m" and num: "rp_num_active m = card (dom (rp_map m))"
    using ok by (simp_all add: rp_ok_def)
  let ?n = "length (rp_keys m)" and ?h = "home enc m key"
  have L: "length (rp_values m) = ?n" "length (rp_states m) = ?n" by (rule slots_okD [OF sok])+
  have room0: "card (dom (rp_map m)) < ?n" using room num by simp
  obtain J where find: "find_probe_or_empty enc m key =
      (if J + 1 < DRIFT_LIMIT then Inr ((?h + J) mod ?n, J + 1) else Inl drift_exceeded)"
    and J: "rp_states m ! ((?h + J) mod ?n) = 0" "\<forall>j < J. rp_states m ! ((?h + j) mod ?n) \<noteq> 0"
    "J < ?n" "J \<le> card (dom (rp_map m))"
    by (rule find_absent [OF sok none room0])
  show ?thesis
  proof (cases "J + 1 < DRIFT_LIMIT")
    case False
    then have "adjust_or_put_value enc m key a = Inl drift_exceeded"
      using find by (simp add: adjust_or_put_value_def)
    then show ?thesis by (rule may_drift_panic) (use False J(4) num in simp)
  next
    case drift: True
    define p where "p = (?h + J) mod ?n"
    have p: "p < ?n" "rp_states m ! p = 0" "rp_keys m ! p = None"
      using J(1) slots_okD(4) [OF sok] state_iff_key [OF sok, of p] by (simp_all add: p_def)
    define s where "s = (of_nat (J + 1) :: u16)"
    have "J + 1 < 2 ^ 16" using drift by (simp add: DRIFT_LIMIT_def)
    then have s: "unat s = J + 1" unfolding s_def by (simp only: unat_of_nat) simp
    let ?m = "m\<lparr>rp_keys := (rp_keys m)[p := Some key], rp_values := (rp_values m)[p := a],
      rp_states := (rp_states m)[p := s], rp_num_active := rp_num_active m + 1\<rparr>"
    have run: "adjust_or_put_value enc m key a = Inr ?m"
      using find drift J(1) by (simp add: adjust_or_put_value_def p_def s_def)
    have absent: "rp_keys m ! i \<noteq> Some key" if "i < ?n" for i
      using none rp_map_None [OF sok] that by blast
    have "rp_states ?m ! ((?h + d) mod ?n) \<noteq> 0" if "d < J" for d
    proof -
      have "s \<noteq> 0" using s by auto
      then show ?thesis using J(2) that p(1) L by (auto simp: nth_list_update)
    qed
    then have at_p: "placed enc {} ?m p key"
      using p(1) L s J(3) drift by (auto simp: placed_def Let_def home_def p_def [unfolded home_def])
    have "placed enc {} ?m i k" if "placed enc {} m i k" "i \<noteq> p" for i k
      using that p(1,2) L s by (intro placed_cong [OF that(1)]) (auto simp: nth_list_update)
    then have slots: "rp_states ?m ! i = 0 \<and> rp_keys ?m ! i = None \<or> (\<exists>k. placed enc {} ?m i k)"
      if "i < ?n" for i
    proof (cases "i = p")
      case False
      then have "rp_states ?m ! i = rp_states m ! i" "rp_keys ?m ! i = rp_keys m ! i" by simp_all
      then show ?thesis using slot_disj [OF sok that] \<open>\<And>i k. placed enc {} m i k \<Longrightarrow> i \<noteq> p \<Longrightarrow> placed enc {} ?m i k\<close> False
        by metis
    qed (use at_p in blast)
    have "i = j" if "i < ?n" "j < ?n" "rp_keys ?m ! i = Some k" "rp_keys ?m ! j = Some k" for i j k
      using that absent slot_unique [OF sok, of i j k] p(1) by (auto simp: nth_list_update split: if_splits)
    then have sok': "slots_ok enc {} ?m"
      using slots_okD [OF sok] slots unfolding slots_ok_def by auto
    have map: "rp_map ?m = (rp_map m)(key \<mapsto> a)"
      using rp_map_upd [OF sok sok' _ p(1), of key] p L by simp
    have "card (dom (rp_map ?m)) = card (dom (rp_map m)) + 1"
      using map none by (simp add: card_insert_if domIff)
    then show ?thesis using ok sok' run map num room by (auto simp: rp_ok_def may_drift_def)
  qed
qed


section \<open>Deleting\<close>

text \<open>
  The state of a deletion: the hole \<open>p\<close> is free, the \<open>d - 1\<close> slots behind it are active and lie
  no further from their home than from the hole, and the next \<open>e\<close> slots are active up to a free one.
\<close>

definition hole :: "('k \<Rightarrow> u8 list list) \<Rightarrow> 'k purge_map \<Rightarrow> nat \<Rightarrow> nat \<Rightarrow> nat \<Rightarrow> bool" where
  "hole enc m p d e \<longleftrightarrow>
     (let n = length (rp_keys m)
      in slots_ok enc {p} m \<and> p < n \<and> rp_states m ! p = 0 \<and> 1 \<le> d \<and> d + e < n \<and>
         (\<forall>j. 1 \<le> j \<and> j < d \<longrightarrow>
            rp_states m ! ((p + j) mod n) \<noteq> 0 \<and> unat (rp_states m ! ((p + j) mod n)) \<le> j) \<and>
         (\<forall>j < e. rp_states m ! ((p + d + j) mod n) \<noteq> 0) \<and>
         rp_states m ! ((p + d + e) mod n) = 0)"

text \<open>Where the slots of \<open>m'\<close> come from: unchanged, or from further behind in the run after \<open>p\<close>\<close>

definition moved :: "nat \<Rightarrow> nat \<Rightarrow> 'k purge_map \<Rightarrow> 'k purge_map \<Rightarrow> bool" where
  "moved p run m m' \<longleftrightarrow>
     (let n = length (rp_keys m)
      in (\<forall>i < n. rp_states m' ! i \<noteq> 0 \<longrightarrow>
            (\<exists>j < n. rp_states m ! j \<noteq> 0 \<and> rp_keys m' ! i = rp_keys m ! j \<and>
               rp_values m' ! i = rp_values m ! j \<and>
               (j = i \<or> (\<exists>a b. a < b \<and> b < run \<and> i = (p + a) mod n \<and> j = (p + b) mod n)))) \<and>
         (\<forall>z < n. rp_states m ! z = 0 \<and> z \<noteq> p \<longrightarrow> rp_states m' ! z = 0))"

definition same_shape :: "'k purge_map \<Rightarrow> 'k purge_map \<Rightarrow> bool" where
  "same_shape m m' \<longleftrightarrow> length (rp_keys m') = length (rp_keys m) \<and> rp_lg_length m' = rp_lg_length m \<and>
     rp_load_threshold m' = rp_load_threshold m \<and> rp_num_active m' = rp_num_active m"

text \<open>At the free slot no probe path leads through the hole any more.\<close>

lemma hole_end:
  assumes "hole enc m p d 0"
  shows "slots_ok enc {} m"
proof -
  let ?n = "length (rp_keys m)"
  have H: "slots_ok enc {p} m" "p < ?n" "rp_states m ! p = 0" "1 \<le> d" "d < ?n"
    "\<And>j. 1 \<le> j \<Longrightarrow> j < d \<Longrightarrow> unat (rp_states m ! ((p + j) mod ?n)) \<le> j"
    "rp_states m ! ((p + d) mod ?n) = 0"
    using assms by (simp_all add: hole_def Let_def)
  have "placed enc {} m i k" if "placed enc {p} m i k" for i k
  proof -
    let ?s = "unat (rp_states m ! i)" and ?h = "home enc m k"
    have P: "rp_keys m ! i = Some k" "0 < ?s" "?s \<le> ?n" "(?h + (?s - 1)) mod ?n = i"
      "\<forall>d < ?s - 1. rp_states m ! ((?h + d) mod ?n) \<noteq> 0 \<or> (?h + d) mod ?n = p" "?s < DRIFT_LIMIT"
      using that unfolding placed_def Let_def by blast+
    have "(?h + x) mod ?n \<noteq> p" if x: "x < ?s - 1" for x
    proof
      assume hx: "(?h + x) mod ?n = p"
      define j where "j = ?s - 1 - x"
      have shift: "(p + y) mod ?n = (?h + (x + y)) mod ?n" for y
        using hx by (metis add.assoc mod_add_left_eq)
      have "x + j = ?s - 1" using x by (simp add: j_def)
      then have i: "i = (p + j) mod ?n" using P(4) shift [of j] by simp
      have "\<not> j < d"
      proof
        assume "j < d"
        moreover have "1 \<le> j" using x by (simp add: j_def)
        ultimately have "?s \<le> j" using H(6) [of j] by (simp only: i [symmetric])
        then show False using P(2) by (simp add: j_def)
      qed
      moreover have "j \<noteq> d"
      proof
        assume "j = d"
        then have "rp_states m ! i = 0" using H(7) by (simp only: i)
        then show False using P(2) by simp
      qed
      ultimately have "x + d < ?s - 1" using x by (simp add: j_def)
      then have "(?h + (x + d)) mod ?n = p" using P(5) H(7) shift [of d] by metis
      then have "(p + d) mod ?n = p" using shift [of d] by (simp only:)
      then have "(p + d) mod ?n = (p + 0) mod ?n" using H(2) by simp
      then have "d = 0" by (rule mod_offset_inj) (use H(4,5) in auto)
      then show False using H(4) by simp
    qed
    then show ?thesis unfolding placed_def Let_def using P by blast
  qed
  then show ?thesis using H(1) unfolding slots_ok_def by blast
qed

lemma hole_skip:
  assumes "hole enc m p d (Suc e)"
    and "unat (rp_states m ! ((p + d) mod length (rp_keys m))) \<le> d"
  shows "hole enc m p (Suc d) e"
proof -
  let ?n = "length (rp_keys m)"
  have H: "slots_ok enc {p} m" "p < ?n" "rp_states m ! p = 0" "1 \<le> d" "d + Suc e < ?n"
    "\<And>j. 1 \<le> j \<Longrightarrow> j < d \<Longrightarrow> rp_states m ! ((p + j) mod ?n) \<noteq> 0 \<and> unat (rp_states m ! ((p + j) mod ?n)) \<le> j"
    "\<And>j. j < Suc e \<Longrightarrow> rp_states m ! ((p + d + j) mod ?n) \<noteq> 0"
    "rp_states m ! ((p + d + Suc e) mod ?n) = 0"
    using assms(1) unfolding hole_def Let_def by blast+
  have "rp_states m ! ((p + j) mod ?n) \<noteq> 0 \<and> unat (rp_states m ! ((p + j) mod ?n)) \<le> j"
    if "1 \<le> j" "j < Suc d" for j
    using H(6) [of j] H(7) [of 0] assms(2) that by (cases "j = d") auto
  moreover have "rp_states m ! ((p + Suc d + j) mod ?n) \<noteq> 0" if "j < e" for j
    using H(7) [of "Suc j"] that by simp
  ultimately show ?thesis using H(1-5,8) unfolding hole_def Let_def by auto
qed


text \<open>Moving a slot into the hole makes its old slot the hole.\<close>

definition move_slot :: "nat \<Rightarrow> nat \<Rightarrow> nat \<Rightarrow> 'k purge_map \<Rightarrow> 'k purge_map" where
  "move_slot p q d m =
     m\<lparr>rp_keys := (rp_keys m)[p := rp_keys m ! q, q := None],
       rp_values := (rp_values m)[p := rp_values m ! q],
       rp_states := (rp_states m)[p := rp_states m ! q - of_nat d, q := 0]\<rparr>"

lemma unat_sub_nat: "d \<le> unat (s :: 'a::len word) \<Longrightarrow> unat (s - of_nat d) = unat s - d"
  by (metis le_unat_uoi unat_sub word_le_nat_alt)

lemma hole_move:
  assumes hole: "hole enc m p d (Suc e)" and q: "q = (p + d) mod length (rp_keys m)"
    and far: "d < unat (rp_states m ! q)"
  shows "hole enc (move_slot p q d m) q 1 e" and "rp_set (move_slot p q d m) = rp_set m"
proof -
  let ?n = "length (rp_keys m)" and ?m = "move_slot p q d m"
  have H: "slots_ok enc {p} m" "p < ?n" "rp_states m ! p = 0" "1 \<le> d" "d + Suc e < ?n"
    "\<And>j. j < Suc e \<Longrightarrow> rp_states m ! ((p + d + j) mod ?n) \<noteq> 0"
    "rp_states m ! ((p + d + Suc e) mod ?n) = 0"
    using hole unfolding hole_def Let_def by blast+
  note L = slots_okD [OF H(1)]
  have qn: "q < ?n" using L(4) by (simp add: q)
  have at: "(p + x) mod ?n = p \<longleftrightarrow> x = 0" if "x < ?n" for x
    using mod_offset_inj [of p x ?n 0] H(2) that L(4) by auto
  have pq: "p \<noteq> q" using at [of d] H(4,5) by (auto simp: q)
  have pnone: "rp_keys m ! p = None" using state_iff_key [OF H(1,2)] H(3) by simp
  have keys: "length (rp_keys ?m) = ?n" "rp_keys ?m ! p = rp_keys m ! q" "rp_keys ?m ! q = None"
    "\<And>i. i \<noteq> p \<Longrightarrow> i \<noteq> q \<Longrightarrow> rp_keys ?m ! i = rp_keys m ! i"
    using H(2) qn pq by (simp_all add: move_slot_def)
  have states: "rp_states ?m ! p = rp_states m ! q - of_nat d" "rp_states ?m ! q = 0"
    "\<And>i. i \<noteq> p \<Longrightarrow> i \<noteq> q \<Longrightarrow> rp_states ?m ! i = rp_states m ! i"
    using H(2) qn pq L(3) by (simp_all add: move_slot_def)
  have vals: "rp_values ?m ! p = rp_values m ! q" "\<And>i. i \<noteq> p \<Longrightarrow> rp_values ?m ! i = rp_values m ! i"
    using H(2) L(2) by (simp_all add: move_slot_def)
  have sp: "unat (rp_states ?m ! p) = unat (rp_states m ! q) - d"
    unfolding states(1) using far by (intro unat_sub_nat) simp
  have spn: "rp_states ?m ! p \<noteq> 0" using sp far by auto
  have "rp_states m ! q \<noteq> 0" using H(6) [of 0] by (simp add: q)
  then obtain kq where kq: "placed enc {p} m q kq" using slot_disj [OF H(1) qn] by blast
  then have kq_key: "rp_keys m ! q = Some kq" by (simp add: placed_def Let_def)
  have at_p: "placed enc {q} ?m p kq"
  proof -
    let ?s = "unat (rp_states m ! q)" and ?h = "home enc m kq"
    have P: "?s \<le> ?n" "(?h + (?s - 1)) mod ?n = q"
      "\<forall>d < ?s - 1. rp_states m ! ((?h + d) mod ?n) \<noteq> 0 \<or> (?h + d) mod ?n = p" "?s < DRIFT_LIMIT"
      using kq unfolding placed_def Let_def by blast+
    have "?h + (?s - d - 1) + d = ?h + (?s - 1)" using far by linarith
    then have "(?h + (?s - d - 1) + d) mod ?n = (p + d) mod ?n" using P(2) q by (simp only:)
    then have "(?h + (?s - d - 1)) mod ?n = p mod ?n" by (rule mod_add_cancel)
    then have hp: "(?h + (?s - d - 1)) mod ?n = p" using H(2) by simp
    have "rp_states ?m ! ((?h + x) mod ?n) \<noteq> 0" if x: "x < ?s - d - 1" for x
    proof -
      have "(?h + x) mod ?n \<noteq> p"
      proof
        assume "(?h + x) mod ?n = p"
        then have "x = ?s - d - 1"
          using P(1) hp x by (intro mod_offset_inj [of ?h x ?n "?s - d - 1"]) linarith+
        then show False using x by simp
      qed
      moreover have "(?h + x) mod ?n \<noteq> q"
      proof
        assume "(?h + x) mod ?n = q"
        then have "x = ?s - 1" using P(1,2) x by (intro mod_offset_inj [of ?h x ?n "?s - 1"]) linarith+
        then show False using x by simp
      qed
      ultimately show ?thesis using P(3) x states(3) by auto
    qed
    moreover have "?s - d \<le> ?n" "?s - d < DRIFT_LIMIT" using P(1,4) by linarith+
    ultimately show ?thesis using kq_key hp far keys by (simp add: placed_def Let_def home_def sp)
  qed
  have other: "placed enc {q} ?m i k" if "placed enc {p} m i k" "i \<noteq> p" "i \<noteq> q" for i k
  proof (rule placed_cong [OF that(1) keys(1)])
    fix j
    assume "rp_states m ! j \<noteq> 0 \<or> j \<in> {p}"
    then show "rp_states ?m ! j \<noteq> 0 \<or> j \<in> {q}" using spn states(3) [of j] by (cases "j = p"; cases "j = q") auto
  qed (use that keys(4) states(3) in auto)
  have slots: "rp_states ?m ! i = 0 \<and> rp_keys ?m ! i = None \<or> (\<exists>k. placed enc {q} ?m i k)" if "i < ?n" for i
    using at_p other slot_disj [OF H(1) that] keys(3,4) states(2,3) by metis
  have uniq: "i = j" if "i < ?n" "j < ?n" "rp_keys ?m ! i = Some k" "rp_keys ?m ! j = Some k" for i j k
  proof -
    define src where "src x = (if x = p then q else x)" for x
    have src: "src x < ?n \<and> rp_keys m ! src x = Some k" if "x < ?n" "rp_keys ?m ! x = Some k" for x
      using that keys(2-4) qn by (cases "x = p"; cases "x = q") (auto simp: src_def)
    have "src i = src j" using slot_unique [OF H(1)] src that by blast
    moreover have "i \<noteq> q" "j \<noteq> q" using that keys(3) by auto
    ultimately show ?thesis by (auto simp: src_def split: if_splits)
  qed
  have "slots_ok enc {q} ?m"
    unfolding slots_ok_def keys(1) using L slots uniq by (auto simp: move_slot_def)
  moreover have "rp_states ?m ! ((q + 1 + j) mod ?n) \<noteq> 0" if "j < e" for j
  proof -
    have eq: "(q + 1 + j) mod ?n = (p + d + Suc j) mod ?n"
      using mod_add_left_eq [of "p + d" ?n "Suc j"] by (simp add: q)
    have "(p + (d + Suc j)) mod ?n \<noteq> p" using at [of "d + Suc j"] that H(5) by simp
    moreover have "(p + (d + Suc j)) mod ?n \<noteq> q"
      using mod_offset_inj [of p "d + Suc j" ?n d] that H(5) by (auto simp: q)
    ultimately show ?thesis
      using H(6) [of "Suc j"] that states(3) unfolding eq by (simp add: add.assoc)
  qed
  moreover have "rp_states ?m ! ((q + 1 + e) mod ?n) = 0"
  proof -
    have eq: "(q + 1 + e) mod ?n = (p + (d + Suc e)) mod ?n"
      using mod_add_left_eq [of "p + d" ?n "Suc e"] by (simp add: q add.assoc)
    have "(p + (d + Suc e)) mod ?n \<noteq> p" using at [of "d + Suc e"] H(5) by simp
    moreover have "(p + (d + Suc e)) mod ?n \<noteq> q"
      using mod_offset_inj [of p "d + Suc e" ?n d] H(5) by (auto simp: q)
    ultimately show ?thesis using H(7) states(3) unfolding eq by (simp add: add.assoc)
  qed
  ultimately show "hole enc ?m q 1 e"
    using qn states(2) H(5) unfolding hole_def Let_def keys(1) by auto
  show "rp_set ?m = rp_set m"
  proof (intro set_eqI, clarify)
    fix k v
    have "(\<exists>i < ?n. rp_keys ?m ! i = Some k \<and> rp_values ?m ! i = v) \<longleftrightarrow>
        (\<exists>i < ?n. rp_keys m ! i = Some k \<and> rp_values m ! i = v)"
      (is "?A \<longleftrightarrow> ?B")
    proof
      assume ?A
      then obtain i where i: "i < ?n" "rp_keys ?m ! i = Some k" "rp_values ?m ! i = v" by blast
      then show ?B using keys(2-4) vals qn by (cases "i = p"; cases "i = q") auto
    next
      assume ?B
      then obtain i where i: "i < ?n" "rp_keys m ! i = Some k" "rp_values m ! i = v" by blast
      then have "i \<noteq> p" using pnone by auto
      then show ?A using i keys(2,4) vals H(2) by (cases "i = q") auto
    qed
    then show "(k, v) \<in> rp_set ?m \<longleftrightarrow> (k, v) \<in> rp_set m" by (simp add: rp_set_def keys(1))
  qed
qed


lemma moved_step:
  assumes hole: "hole enc m p d (Suc e)" and q: "q = (p + d) mod length (rp_keys m)"
    and rest: "moved q (Suc e) (move_slot p q d m) m'"
  shows "moved p (d + Suc e) m m'"
proof -
  let ?n = "length (rp_keys m)" and ?m = "move_slot p q d m"
  have H: "slots_ok enc {p} m" "p < ?n" "rp_states m ! p = 0" "1 \<le> d" "d + Suc e < ?n"
    "\<And>j. j < Suc e \<Longrightarrow> rp_states m ! ((p + d + j) mod ?n) \<noteq> 0"
    using hole unfolding hole_def Let_def by blast+
  note L = slots_okD [OF H(1)]
  have n: "length (rp_keys ?m) = ?n" by (simp add: move_slot_def)
  have qn: "q < ?n" using L(4) by (simp add: q)
  have sq: "rp_states m ! q \<noteq> 0" using H(6) [of 0] by (simp add: q)
  have pq: "p \<noteq> q" using sq H(3) by auto
  have at_p: "rp_keys ?m ! p = rp_keys m ! q" "rp_values ?m ! p = rp_values m ! q" "rp_states ?m ! q = 0"
    using H(2) qn pq L(2,3) by (simp_all add: move_slot_def)
  have same: "rp_keys ?m ! i = rp_keys m ! i" "rp_values ?m ! i = rp_values m ! i"
    "rp_states ?m ! i = rp_states m ! i" if "i \<noteq> p" "i \<noteq> q" for i
    using that by (simp_all add: move_slot_def)
  have R: "\<exists>j < ?n. rp_states ?m ! j \<noteq> 0 \<and> rp_keys m' ! i = rp_keys ?m ! j \<and> rp_values m' ! i = rp_values ?m ! j \<and>
      (j = i \<or> (\<exists>a b. a < b \<and> b < Suc e \<and> i = (q + a) mod ?n \<and> j = (q + b) mod ?n))"
    if "i < ?n" "rp_states m' ! i \<noteq> 0" for i
    using rest that unfolding moved_def Let_def n by blast
  have "\<exists>j < ?n. rp_states m ! j \<noteq> 0 \<and> rp_keys m' ! i = rp_keys m ! j \<and> rp_values m' ! i = rp_values m ! j \<and>
      (j = i \<or> (\<exists>a b. a < b \<and> b < d + Suc e \<and> i = (p + a) mod ?n \<and> j = (p + b) mod ?n))"
    if i: "i < ?n" "rp_states m' ! i \<noteq> 0" for i
  proof -
    obtain j where j: "j < ?n" "rp_states ?m ! j \<noteq> 0" "rp_keys m' ! i = rp_keys ?m ! j"
      "rp_values m' ! i = rp_values ?m ! j"
      "j = i \<or> (\<exists>a b. a < b \<and> b < Suc e \<and> i = (q + a) mod ?n \<and> j = (q + b) mod ?n)"
      using R [OF i] by blast
    have shift: "(q + x) mod ?n = (p + (d + x)) mod ?n" for x by (simp add: q mod_simps add.assoc)
    have jq: "j \<noteq> q" using j(2) at_p(3) by auto
    show ?thesis
    proof (cases "j = p")
      case True
      have "(p + (d + b)) mod ?n \<noteq> p" if "b < Suc e" for b
      proof
        assume "(p + (d + b)) mod ?n = p"
        then have "(p + (d + b)) mod ?n = (p + 0) mod ?n" using H(2) by simp
        then have "d + b = 0" by (rule mod_offset_inj) (use H(5) that in auto)
        then show False using H(4) by simp
      qed
      then have "i = p" using j(5) True by (metis shift)
      then have ip: "i = (p + 0) mod ?n" "rp_keys m' ! i = rp_keys m ! q" "rp_values m' ! i = rp_values m ! q"
        using H(2) j(3,4) at_p True by simp_all
      have ab: "0 < d" "d < d + Suc e" using H(4) by simp_all
      show ?thesis using ip ab q qn sq by blast
    next
      case False
      have "j = i \<or> (\<exists>a b. a < b \<and> b < d + Suc e \<and> i = (p + a) mod ?n \<and> j = (p + b) mod ?n)"
        using j(5) unfolding shift by (metis add_less_cancel_left)
      then show ?thesis using j(1-4) same [OF False jq] by metis
    qed
  qed
  moreover have "rp_states m' ! z = 0" if "z < ?n" "rp_states m ! z = 0" "z \<noteq> p" for z
  proof -
    have "z \<noteq> q" using that(2) sq by auto
    then have "rp_states ?m ! z = 0" using same(3) that by simp
    then show ?thesis using rest that(1) \<open>z \<noteq> q\<close> unfolding moved_def Let_def n by blast
  qed
  ultimately show ?thesis unfolding moved_def Let_def by blast
qed

lemma close_hole_ok:
  "hole enc m p d e \<Longrightarrow> e < fuel \<Longrightarrow>
   may_drift (DRIFT_LIMIT \<le> d + e)
     (close_hole fuel (length (rp_keys m) - 1) p ((p + d) mod length (rp_keys m)) d m)
     (\<lambda>m'. slots_ok enc {} m' \<and> rp_set m' = rp_set m \<and> moved p (d + e) m m' \<and> same_shape m m')"
proof (induction fuel arbitrary: m p d e)
  case (Suc fuel)
  let ?n = "length (rp_keys m)"
  let ?q = "(p + d) mod ?n"
  have n: "?n = 2 ^ rp_lg_length m" using Suc.prems(1) by (auto simp: hole_def Let_def slots_ok_def)
  have stay: "moved p run m m" for run by (auto simp: moved_def Let_def)
  show ?case
  proof (cases e)
    case 0
    then have "rp_states m ! ?q = 0" using Suc.prems(1) by (simp add: hole_def Let_def)
    then show ?thesis
      using hole_end Suc.prems(1) 0 stay by (auto simp: same_shape_def may_drift_def)
  next
    case e: (Suc e')
    have act: "rp_states m ! ?q \<noteq> 0"
      using Suc.prems(1) e unfolding hole_def Let_def by (metis add_0_right zero_less_Suc)
    show ?thesis
    proof (cases "d < unat (rp_states m ! ?q)")
      case False
      then have skip: "hole enc m p (Suc d) e'" using hole_skip [OF Suc.prems(1) [unfolded e]] by simp
      have step: "close_hole (Suc fuel) (?n - 1) p ?q d m =
          (if Suc d < DRIFT_LIMIT then close_hole fuel (?n - 1) p ((p + Suc d) mod ?n) (Suc d) m
           else Inl drift_exceeded)"
        using act False next_probe [OF n, of p d] by simp
      show ?thesis
      proof (cases "Suc d < DRIFT_LIMIT")
        case True
        then show ?thesis using Suc.IH [OF skip] Suc.prems(2) e step by simp
      next
        case False
        then show ?thesis using e step by (intro may_drift_panic) simp_all
      qed
    next
      case True
      let ?m = "move_slot p ?q d m"
      have len: "length (rp_keys ?m) = ?n" "same_shape m ?m"
        by (simp_all add: move_slot_def same_shape_def)
      have hole: "hole enc ?m ?q 1 e'" and set: "rp_set ?m = rp_set m"
        using hole_move [OF Suc.prems(1) [unfolded e] refl True] by simp_all
      have rest: "may_drift (DRIFT_LIMIT \<le> 1 + e') (close_hole fuel (?n - 1) ?q ((?q + 1) mod ?n) 1 ?m)
          (\<lambda>m'. slots_ok enc {} m' \<and> rp_set m' = rp_set ?m \<and> moved ?q (1 + e') ?m m' \<and> same_shape ?m m')"
        using Suc.IH [OF hole] Suc.prems(2) e len(1) by simp
      have "(?q + 1) AND (?n - 1) = (?q + 1) mod ?n" using next_probe [OF n, of p d] by (simp add: mod_simps)
      then have step: "close_hole (Suc fuel) (?n - 1) p ?q d m =
          close_hole fuel (?n - 1) ?q ((?q + 1) mod ?n) 1 ?m"
        using act True by (simp add: move_slot_def DRIFT_LIMIT_def)
      have mv: "moved p (d + e) m m'" if "moved ?q (1 + e') ?m m'" for m'
        using moved_step [OF Suc.prems(1) [unfolded e] refl] that e by simp
      have le: "1 + e' \<le> d + e" using e Suc.prems(1) by (simp add: hole_def Let_def)
      have shape: "same_shape m m'" if "same_shape ?m m'" for m'
        using that len(2) by (simp add: same_shape_def)
      show ?thesis
        unfolding step by (rule may_drift_mono [OF rest]) (use le mv shape set in auto)
    qed
  qed
qed simp

text \<open>Deleting the key in slot \<open>p\<close>: the other keys keep their values, and stay in the run behind \<open>p\<close>.\<close>

definition moved_run :: "nat \<Rightarrow> nat \<Rightarrow> 'k purge_map \<Rightarrow> 'k purge_map \<Rightarrow> bool" where
  "moved_run p run m m' \<longleftrightarrow>
     (let n = length (rp_keys m)
      in run < n \<and> (\<forall>x < run. rp_states m ! ((p + x) mod n) \<noteq> 0) \<and>
         (\<forall>z < n. rp_states m ! z = 0 \<longrightarrow> rp_states m' ! z = 0) \<and>
         (\<forall>i < n. rp_states m' ! i \<noteq> 0 \<longrightarrow>
            (\<exists>j < n. j \<noteq> p \<and> rp_states m ! j \<noteq> 0 \<and> rp_values m' ! i = rp_values m ! j \<and>
               (j = i \<or> (\<exists>a b. a < b \<and> b < run \<and> i = (p + a) mod n \<and> j = (p + b) mod n)))))"

lemma first_free_behind:
  assumes "f < n" "Q f" and "p < n" "\<not> Q p"
  obtains e where "e + 1 < n" and "Q ((p + 1 + e) mod n)" and "\<forall>j < e. \<not> Q ((p + 1 + j) mod (n :: nat))"
proof -
  have "(p + 1 + (f + n - p - 1)) mod n = f" using assms(1,3) by simp
  then have ex: "Q ((p + 1 + (f + n - p - 1)) mod n)" using assms(2) by simp
  have "(p + 1 + (f + n - p - 1) mod n) mod n = (p + 1 + (f + n - p - 1)) mod n" by (rule mod_add_right_eq)
  then have ex: "Q ((p + 1 + (f + n - p - 1) mod n) mod n)" using ex by (simp only:)
  define e where "e = (LEAST e. Q ((p + 1 + e) mod n))"
  have e: "Q ((p + 1 + e) mod n)"
    unfolding e_def by (rule LeastI [where P = "\<lambda>e. Q ((p + 1 + e) mod n)", OF ex])
  have least: "\<forall>j < e. \<not> Q ((p + 1 + j) mod n)" unfolding e_def by (blast dest: not_less_Least)
  have "e \<le> (f + n - p - 1) mod n"
    unfolding e_def by (rule Least_le [where P = "\<lambda>e. Q ((p + 1 + e) mod n)", OF ex])
  moreover have "(f + n - p - 1) mod n < n" using assms(1) by (intro mod_less_divisor) simp
  ultimately have "e < n" by simp
  moreover have "e + 1 \<noteq> n"
  proof
    assume "e + 1 = n"
    then have "p + 1 + e = p + n" by simp
    then have "(p + 1 + e) mod n = (p + n) mod n" by (simp only:)
    then have "(p + 1 + e) mod n = p" using assms(3) by simp
    then show False using e assms(4) by simp
  qed
  ultimately have "e + 1 < n" by linarith
  then show ?thesis using that e least by blast
qed

lemma hash_delete_ok:
  assumes ok: "slots_ok enc {} m" and p: "p < length (rp_keys m)" "rp_keys m ! p = Some k"
    and f: "f < length (rp_keys m)" "rp_states m ! f = 0"
  shows "may_drift (DRIFT_LIMIT \<le> card (dom (rp_map m))) (hash_delete p m)
    (\<lambda>m'. \<exists>run. slots_ok enc {} m' \<and> rp_map m' = (rp_map m)(k := None) \<and>
       moved_run p run m m' \<and> same_shape m m')"
proof -
  let ?n = "length (rp_keys m)"
  let ?m = "m\<lparr>rp_states := (rp_states m)[p := 0], rp_keys := (rp_keys m)[p := None]\<rparr>"
  note L = slots_okD [OF ok]
  have sp: "rp_states m ! p \<noteq> 0" using state_iff_key [OF ok p(1)] p(2) by simp
  obtain e where e: "e + 1 < ?n" "rp_states m ! ((p + 1 + e) mod ?n) = 0"
    "\<forall>j < e. rp_states m ! ((p + 1 + j) mod ?n) \<noteq> 0"
    using first_free_behind [of f ?n "\<lambda>i. rp_states m ! i = 0" p] f p(1) sp by blast
  have len: "length (rp_keys ?m) = ?n" by simp
  have at: "(p + x) mod ?n \<noteq> p" if "0 < x" "x < ?n" for x
    using mod_offset_inj [of p x ?n 0] p(1) that L(4) by auto
  have same: "rp_states ?m ! i = rp_states m ! i" "rp_keys ?m ! i = rp_keys m ! i" if "i \<noteq> p" for i
    using that by simp_all
  have free: "rp_states ?m ! p = 0" "rp_keys ?m ! p = None" using p(1) L(3) by simp_all
  have "placed enc {p} ?m i k'" if "placed enc {} m i k'" "i \<noteq> p" for i k'
  proof (rule placed_cong [OF that(1)])
    fix j
    assume "rp_states m ! j \<noteq> 0 \<or> j \<in> {}"
    then show "rp_states ?m ! j \<noteq> 0 \<or> j \<in> {p}" using same(1) [of j] by (cases "j = p") auto
  qed (use that(2) in simp_all)
  then have slots: "rp_states ?m ! i = 0 \<and> rp_keys ?m ! i = None \<or> (\<exists>k. placed enc {p} ?m i k)" if "i < ?n" for i
    using slot_disj [OF ok that] free same [of i] by (cases "i = p") metis+
  have "i = j" if "i < ?n" "j < ?n" "rp_keys ?m ! i = Some k'" "rp_keys ?m ! j = Some k'" for i j k'
    using that free(2) same(2) slot_unique [OF ok, of i j k'] by (metis option.distinct(1))
  then have ok1: "slots_ok enc {p} ?m" using L slots unfolding slots_ok_def len by auto
  have "hole enc ?m p 1 e"
    unfolding hole_def Let_def len
  proof (intro conjI allI impI)
    fix j
    assume "j < e"
    then show "rp_states ?m ! ((p + 1 + j) mod ?n) \<noteq> 0" using e(1,3) same(1) at [of "1 + j"] by simp
  next
    show "rp_states ?m ! ((p + 1 + e) mod ?n) = 0" using e(1,2) same(1) at [of "1 + e"] by simp
  qed (use ok1 p(1) free e in auto)
  then have closed: "may_drift (DRIFT_LIMIT \<le> 1 + e) (close_hole ?n (?n - 1) p ((p + 1) mod ?n) 1 ?m)
      (\<lambda>m'. slots_ok enc {} m' \<and> rp_set m' = rp_set ?m \<and> moved p (1 + e) ?m m' \<and> same_shape ?m m')"
    using close_hole_ok [of enc ?m p 1 e ?n] e(1) len by simp
  have "(p + 1) AND (?n - 1) = (p + 1) mod ?n" using L(1) by (simp add: and_mask_nat [unfolded One_nat_def])
  then have run: "hash_delete p m = close_hole ?n (?n - 1) p ((p + 1) mod ?n) 1 ?m"
    by (simp add: hash_delete_def Let_def)
  have run_active: "rp_states m ! ((p + x) mod ?n) \<noteq> 0" if "x < 1 + e" for x
    using that sp p(1) e(3) by (cases x) auto
  then have "1 + e \<le> card (dom (rp_map m))" using run_le_card [OF ok, of "1 + e" p] e(1) by simp
  moreover have "\<exists>run. slots_ok enc {} m' \<and> rp_map m' = (rp_map m)(k := None) \<and> moved_run p run m m' \<and> same_shape m m'"
    if m'0: "slots_ok enc {} m' \<and> rp_set m' = rp_set ?m \<and> moved p (1 + e) ?m m' \<and> same_shape ?m m'" for m'
  proof -
    have m': "slots_ok enc {} m'" "rp_set m' = rp_set ?m" "moved p (1 + e) ?m m'" "same_shape ?m m'"
      using m'0 by blast+
    have shape: "same_shape m m'" using m'(4) by (simp add: same_shape_def)
    have map: "rp_map m' = (rp_map m)(k := None)"
    proof (rule rp_map_eqI [OF m'(1)])
      fix k' v
      have key: "rp_keys ?m ! i = Some k' \<longleftrightarrow> rp_keys m ! i = Some k' \<and> k' \<noteq> k" if "i < ?n" for i
        using slot_unique [OF ok that p(1)] p(2) free(2) same(2) [of i] by (cases "i = p") auto
      have "(k', v) \<in> rp_set ?m \<longleftrightarrow> (k', v) \<in> rp_set m \<and> k' \<noteq> k"
        using key unfolding rp_set_def mem_Collect_eq prod.case len by auto
      then show "(k', v) \<in> rp_set m' \<longleftrightarrow> ((rp_map m)(k := None)) k' = Some v"
        unfolding m'(2) using rp_map_iff [OF ok, of k' v] by auto
    qed
    have mv: "\<exists>j < ?n. rp_states ?m ! j \<noteq> 0 \<and> rp_values m' ! i = rp_values ?m ! j \<and>
        (j = i \<or> (\<exists>a b. a < b \<and> b < 1 + e \<and> i = (p + a) mod ?n \<and> j = (p + b) mod ?n))"
      if "i < ?n" "rp_states m' ! i \<noteq> 0" for i
      using m'(3) that unfolding moved_def Let_def len by blast
    have "\<exists>j < ?n. j \<noteq> p \<and> rp_states m ! j \<noteq> 0 \<and> rp_values m' ! i = rp_values m ! j \<and>
        (j = i \<or> (\<exists>a b. a < b \<and> b < 1 + e \<and> i = (p + a) mod ?n \<and> j = (p + b) mod ?n))"
      if i: "i < ?n" "rp_states m' ! i \<noteq> 0" for i
    proof -
      obtain j where j: "j < ?n" "rp_states ?m ! j \<noteq> 0" "rp_values m' ! i = rp_values ?m ! j"
        "j = i \<or> (\<exists>a b. a < b \<and> b < 1 + e \<and> i = (p + a) mod ?n \<and> j = (p + b) mod ?n)"
        using mv [OF i] by blast
      have "j \<noteq> p" using j(2) free(1) by metis
      then show ?thesis using j same(1) [of j] by auto
    qed
    moreover have "rp_states m' ! z = 0" if "z < ?n" "rp_states m ! z = 0" for z
    proof -
      have "z \<noteq> p" using that(2) sp by auto
      then show ?thesis using m'(3) that same(1) unfolding moved_def Let_def len by metis
    qed
    ultimately have "moved_run p (1 + e) m m'" using e(1) run_active unfolding moved_run_def Let_def by auto
    then show ?thesis using m'(1) map shape by blast
  qed
  ultimately show ?thesis unfolding run by (intro may_drift_mono [OF closed]) auto
qed

section \<open>Keeping the positive counts\<close>

lemma last_free_ok:
  "\<exists>f' \<le> i. states ! f' = 0 \<Longrightarrow> \<exists>f \<le> i. last_free states i = Inr f \<and> states ! f = 0"
proof (induction i)
  case (Suc i)
  show ?case
  proof (cases "states ! Suc i = 0")
    case False
    then have "\<exists>f' \<le> i. states ! f' = 0" using Suc.prems by (metis le_Suc_eq)
    then show ?thesis using Suc.IH False by (auto simp: word_neq_0_conv [symmetric] intro: le_SucI)
  qed auto
qed simp

lemma probe_order:
  assumes "f < n"
  shows "rev [0..<f] @ rev [f..<n] = map (\<lambda>x. (f + x) mod n) (rev [0..<n])"
proof -
  have "map (\<lambda>x. (f + x) mod n) [0..<n] = [f..<n] @ [0..<f]"
  proof (rule nth_equalityI)
    fix i
    assume "i < length (map (\<lambda>x. (f + x) mod n) [0..<n])"
    then have i: "i < n" by simp
    show "map (\<lambda>x. (f + x) mod n) [0..<n] ! i = ([f..<n] @ [0..<f]) ! i"
    proof (cases "f + i < n")
      case True
      then have "i < n - f" by simp
      then show ?thesis using True by (simp add: nth_append)
    next
      case False
      then have "(f + i) mod n = (f + i - n) mod n" by (simp add: le_mod_geq)
      moreover have "\<not> i < n - f" "i - (n - f) = f + i - n" using False assms by simp_all
      ultimately show ?thesis using i assms by (simp add: nth_append)
    qed
  qed (use assms in simp)
  then have "rev (map (\<lambda>x. (f + x) mod n) [0..<n]) = rev ([f..<n] @ [0..<f])" by (simp only:)
  then show ?thesis by (simp add: rev_map)
qed

text \<open>
  The loop runs backwards round the table from the free slot \<open>f\<close>. Behind it no active slot has
  count zero; the run that a deletion shifts never gets past \<open>f\<close>.
\<close>

definition purging :: "('k \<Rightarrow> u8 list list) \<Rightarrow> 'k purge_map \<Rightarrow> nat \<Rightarrow> nat \<Rightarrow> 'k purge_map \<Rightarrow> bool" where
  "purging enc m0 f c m \<longleftrightarrow>
     (let n = length (rp_keys m)
      in slots_ok enc {} m \<and> rp_num_active m = card (dom (rp_map m)) \<and>
         length (rp_keys m) = length (rp_keys m0) \<and> rp_lg_length m = rp_lg_length m0 \<and>
         rp_load_threshold m = rp_load_threshold m0 \<and> f < n \<and> rp_states m ! f = 0 \<and>
         (\<forall>k. rp_map m k = rp_map m0 k \<or> rp_map m k = None \<and> rp_map m0 k = Some 0) \<and>
         (\<forall>x. c \<le> x \<and> x < n \<and> rp_states m ! ((f + x) mod n) \<noteq> 0 \<longrightarrow> rp_values m ! ((f + x) mod n) \<noteq> 0))"

lemma set_num_active [simp]:
  "slots_ok enc H (m\<lparr>rp_num_active := x\<rparr>) = slots_ok enc H m"
  "rp_map (m\<lparr>rp_num_active := x\<rparr>) = rp_map m"
proof -
  have "placed enc H (m\<lparr>rp_num_active := x\<rparr>) i k = placed enc H m i k" for i k
    by (simp add: placed_def home_def)
  then show "slots_ok enc H (m\<lparr>rp_num_active := x\<rparr>) = slots_ok enc H m" by (simp add: slots_ok_def)
qed (simp add: rp_map_def active_entries_def)

lemma purging_step:
  assumes inv: "purging enc m0 f (Suc c) m" and c: "c < length (rp_keys m)"
  shows "may_drift (DRIFT_LIMIT \<le> card (dom (rp_map m0)))
    (delete_if_zero m ((f + c) mod length (rp_keys m))) (purging enc m0 f c)"
proof -
  let ?n = "length (rp_keys m)" and ?p = "(f + c) mod length (rp_keys m)"
  have I: "slots_ok enc {} m" "rp_num_active m = card (dom (rp_map m))" "?n = length (rp_keys m0)"
    "f < ?n" "rp_states m ! f = 0" "rp_lg_length m = rp_lg_length m0" "rp_load_threshold m = rp_load_threshold m0"
    "\<And>k. rp_map m k = rp_map m0 k \<or> rp_map m k = None \<and> rp_map m0 k = Some 0"
    "\<And>x. Suc c \<le> x \<Longrightarrow> x < ?n \<Longrightarrow> rp_states m ! ((f + x) mod ?n) \<noteq> 0 \<Longrightarrow> rp_values m ! ((f + x) mod ?n) \<noteq> 0"
    using inv unfolding purging_def Let_def by blast+
  have p: "?p < ?n" using c by (intro mod_less_divisor) linarith
  show ?thesis
  proof (cases "rp_states m ! ?p \<noteq> 0 \<and> rp_values m ! ?p = 0")
    case False
    have "rp_values m ! ((f + x) mod ?n) \<noteq> 0"
      if "c \<le> x" "x < ?n" "rp_states m ! ((f + x) mod ?n) \<noteq> 0" for x
      using that False I(9) [of x] by (cases "x = c") auto
    then have "purging enc m0 f c m" using I unfolding purging_def Let_def by blast
    then show ?thesis using False by (auto simp: delete_if_zero_def word_neq_0_conv may_drift_def)
  next
    case True
    then obtain k where k: "rp_keys m ! ?p = Some k" using state_iff_key [OF I(1) p] by auto
    have "dom (rp_map m) \<subseteq> dom (rp_map m0)"
    proof
      fix k'
      assume "k' \<in> dom (rp_map m)"
      then show "k' \<in> dom (rp_map m0)" using I(8) [of k'] by auto
    qed
    then have card: "card (dom (rp_map m)) \<le> card (dom (rp_map m0))" by (simp add: card_mono)
    have mk: "rp_map m k = Some 0" using rp_map_slot [OF I(1) p k] True by simp
    have "purging enc m0 f c (m'\<lparr>rp_num_active := rp_num_active m' - 1\<rparr>)"
      if del: "\<exists>run. slots_ok enc {} m' \<and> rp_map m' = (rp_map m)(k := None) \<and> moved_run ?p run m m' \<and> same_shape m m'"
      for m'
    proof -
      obtain run where m': "slots_ok enc {} m'" "rp_map m' = (rp_map m)(k := None)" "moved_run ?p run m m'"
        "same_shape m m'"
        using del by blast
      let ?m = "m'\<lparr>rp_num_active := rp_num_active m' - 1\<rparr>"
      have ok: "slots_ok enc {} ?m" and map: "rp_map ?m = (rp_map m)(k := None)"
        using m'(1,2) by simp_all
      have len: "length (rp_keys ?m) = ?n" using m'(4) by (simp add: same_shape_def)
      have num: "rp_num_active ?m = card (dom (rp_map ?m))"
        using map I(2) mk m'(4) by (simp add: same_shape_def domIff)
      have R: "run < ?n" "\<And>x. x < run \<Longrightarrow> rp_states m ! ((?p + x) mod ?n) \<noteq> 0"
        "\<And>z. z < ?n \<Longrightarrow> rp_states m ! z = 0 \<Longrightarrow> rp_states m' ! z = 0"
        "\<And>i. i < ?n \<Longrightarrow> rp_states m' ! i \<noteq> 0 \<Longrightarrow>
           \<exists>j < ?n. j \<noteq> ?p \<and> rp_states m ! j \<noteq> 0 \<and> rp_values m' ! i = rp_values m ! j \<and>
             (j = i \<or> (\<exists>a b. a < b \<and> b < run \<and> i = (?p + a) mod ?n \<and> j = (?p + b) mod ?n))"
        using m'(3) unfolding moved_run_def Let_def by blast+
      have shift: "(?p + x) mod ?n = (f + (c + x)) mod ?n" for x by (simp add: mod_add_left_eq add.assoc)
      have run: "c + run \<le> ?n"
      proof (rule ccontr)
        assume "\<not> c + run \<le> ?n"
        then have "?n - c < run" using c by linarith
        then have "rp_states m ! ((f + (c + (?n - c))) mod ?n) \<noteq> 0" using R(2) shift by metis
        then show False using c I(4,5) by simp
      qed
      have "rp_values m' ! ((f + x) mod ?n) \<noteq> 0"
        if x: "c \<le> x" "x < ?n" "rp_states m' ! ((f + x) mod ?n) \<noteq> 0" for x
      proof -
        have "(f + x) mod ?n < ?n" using c by (intro mod_less_divisor) linarith
        then obtain j where j: "j \<noteq> ?p" "rp_states m ! j \<noteq> 0" "rp_values m' ! ((f + x) mod ?n) = rp_values m ! j"
          "j = (f + x) mod ?n \<or>
             (\<exists>a b. a < b \<and> b < run \<and> (f + x) mod ?n = (?p + a) mod ?n \<and> j = (?p + b) mod ?n)"
          using R(4) x(3) by blast
        have "rp_values m ! j \<noteq> 0"
          using j(4)
        proof
          assume jx: "j = (f + x) mod ?n"
          then have "x \<noteq> c" using j(1) by auto
          then show ?thesis using I(9) [of x] x(1,2) j(2) jx by simp
        next
          assume "\<exists>a b. a < b \<and> b < run \<and> (f + x) mod ?n = (?p + a) mod ?n \<and> j = (?p + b) mod ?n"
          then obtain a b where ab: "a < b" "b < run" "j = (?p + b) mod ?n" by blast
          then have "j = (f + (c + b)) mod ?n" using shift by simp
          then show ?thesis using I(9) [of "c + b"] ab run j(2) by simp
        qed
        then show ?thesis using j(3) by simp
      qed
      moreover have "rp_map ?m k' = rp_map m0 k' \<or> rp_map ?m k' = None \<and> rp_map m0 k' = Some 0" for k'
        using map mk I(8) [of k'] by (cases "k' = k") auto
      moreover have "rp_states m' ! f = 0" using R(3) I(4,5) by blast
      ultimately show "purging enc m0 f c ?m"
        using ok num len I(3,4,6,7) m'(4) unfolding purging_def Let_def len by (simp add: same_shape_def)
    qed
    then have "may_drift (DRIFT_LIMIT \<le> card (dom (rp_map m)))
        (bind_res (hash_delete ?p m) (\<lambda>m. Inr (m\<lparr>rp_num_active := rp_num_active m - 1\<rparr>))) (purging enc m0 f c)"
      by (intro may_drift_bind [OF hash_delete_ok [OF I(1) p k I(4,5)]]) (blast intro: may_driftI)
    then show ?thesis
      using True card by (auto simp: delete_if_zero_def word_neq_0_conv [symmetric] elim: may_drift_mono)
  qed
qed

lemma purging_loop:
  "purging enc m0 f c m \<Longrightarrow> c \<le> length (rp_keys m0) \<Longrightarrow>
   may_drift (DRIFT_LIMIT \<le> card (dom (rp_map m0)))
     (fold_res delete_if_zero m (map (\<lambda>x. (f + x) mod length (rp_keys m0)) (rev [0..<c])))
     (purging enc m0 f 0)"
proof (induction c arbitrary: m)
  case (Suc c)
  have len: "length (rp_keys m) = length (rp_keys m0)" using Suc.prems(1) by (simp add: purging_def Let_def)
  have "may_drift (DRIFT_LIMIT \<le> card (dom (rp_map m0)))
      (delete_if_zero m ((f + c) mod length (rp_keys m0))) (purging enc m0 f c)"
    using purging_step [OF Suc.prems(1)] Suc.prems(2) len by simp
  then show ?case using Suc.IH Suc.prems(2) by (simp add: may_drift_bind)
qed (simp add: may_drift_def)

lemma keep_only_positive_ok:
  assumes ok: "slots_ok enc {} m" "rp_num_active m = card (dom (rp_map m))"
    and room: "rp_num_active m < length (rp_keys m)"
  shows "may_drift (DRIFT_LIMIT \<le> rp_num_active m) (keep_only_positive_counts m) (\<lambda>m'. slots_ok enc {} m' \<and>
    rp_num_active m' = card (dom (rp_map m')) \<and> same_shape m (m'\<lparr>rp_num_active := rp_num_active m\<rparr>) \<and>
    rp_map m' = (\<lambda>k. if rp_map m k = Some 0 then None else rp_map m k))"
proof -
  let ?n = "length (rp_keys m)"
  have n: "0 < ?n" by (rule slots_okD(4) [OF ok(1)])
  obtain f' where "f' < ?n" "rp_states m ! f' = 0" using free_slot [OF ok(1)] ok(2) room by metis
  then have "\<exists>f' \<le> ?n - 1. rp_states m ! f' = 0" by (intro exI [of _ f']) auto
  then obtain f where f: "f \<le> ?n - 1" "last_free (rp_states m) (?n - 1) = Inr f" "rp_states m ! f = 0"
    using last_free_ok [of "?n - 1" "rp_states m"] by blast
  have fn: "f < ?n" using f(1) n by linarith
  have "purging enc m f ?n m" using ok f(3) fn by (auto simp: purging_def Let_def)
  then have loop: "may_drift (DRIFT_LIMIT \<le> rp_num_active m)
      (fold_res delete_if_zero m (map (\<lambda>x. (f + x) mod ?n) (rev [0..<?n]))) (purging enc m f 0)"
    using purging_loop [of enc m f ?n m] ok(2) by simp
  have "keep_only_positive_counts m = fold_res delete_if_zero m (rev [0..<f] @ rev [f..<?n])"
    unfolding keep_only_positive_counts_def Let_def f(2) fold_res_append by simp
  then have run: "keep_only_positive_counts m = fold_res delete_if_zero m (map (\<lambda>x. (f + x) mod ?n) (rev [0..<?n]))"
    by (simp only: probe_order [OF fn])
  have "slots_ok enc {} m' \<and> rp_num_active m' = card (dom (rp_map m')) \<and>
      same_shape m (m'\<lparr>rp_num_active := rp_num_active m\<rparr>) \<and>
      rp_map m' = (\<lambda>k. if rp_map m k = Some 0 then None else rp_map m k)"
    if m': "purging enc m f 0 m'" for m'
  proof -
    have P: "slots_ok enc {} m'" "rp_num_active m' = card (dom (rp_map m'))" "length (rp_keys m') = ?n"
      "rp_lg_length m' = rp_lg_length m" "rp_load_threshold m' = rp_load_threshold m"
      "\<And>k. rp_map m' k = rp_map m k \<or> rp_map m' k = None \<and> rp_map m k = Some 0"
      "\<And>x. x < ?n \<Longrightarrow> rp_states m' ! ((f + x) mod ?n) \<noteq> 0 \<Longrightarrow> rp_values m' ! ((f + x) mod ?n) \<noteq> 0"
      using m' unfolding purging_def Let_def by (simp, metis le0)+
    have pos: "rp_map m' k \<noteq> Some 0" for k
    proof
      assume a: "rp_map m' k = Some 0"
      then obtain i where i: "i < ?n" "rp_keys m' ! i = Some k"
        using rp_map_None [OF P(1), of k] P(3) by auto
      have "i \<in> (\<lambda>x. (f + x) mod ?n) ` {..<?n}"
      proof -
        have "set (rev [0..<f] @ rev [f..<?n]) = set (map (\<lambda>x. (f + x) mod ?n) (rev [0..<?n]))"
          by (simp only: probe_order [OF fn])
        moreover have "i \<in> set (rev [0..<f] @ rev [f..<?n])" using i(1) fn by auto
        ultimately show ?thesis by (auto simp: atLeast0LessThan)
      qed
      then obtain x where x: "x < ?n" "i = (f + x) mod ?n" by blast
      have "rp_states m' ! i \<noteq> 0" using state_iff_key [OF P(1)] i P(3) by simp
      then have "rp_values m' ! i \<noteq> 0" using P(7) [OF x(1)] x(2) by simp
      then show False using rp_map_slot [OF P(1)] i P(3) a by simp
    qed
    have "rp_map m' = (\<lambda>k. if rp_map m k = Some 0 then None else rp_map m k)"
    proof (rule ext)
      fix k
      show "rp_map m' k = (if rp_map m k = Some 0 then None else rp_map m k)"
        using P(6) [of k] pos [of k] by auto
    qed
    then show ?thesis using P(1-5) by (auto simp: same_shape_def)
  qed
  then show ?thesis unfolding run by (intro may_drift_mono [OF loop]) blast+
qed

section \<open>Purging\<close>

lemma collect_samples_walk:
  "limit \<le> length samples + length (filter (\<lambda>(s, _). 0 < s) slots) \<Longrightarrow> length samples \<le> limit \<Longrightarrow>
   collect_samples limit samples slots =
     Inr (samples @ take (limit - length samples) (map snd (filter (\<lambda>(s, _). 0 < s) slots)))"
proof (induction slots arbitrary: samples)
  case Nil
  then show ?case by (simp add: collect_samples.simps)
next
  case (Cons x slots)
  obtain s v where x: "x = (s, v)" by force
  show ?case
  proof (cases "length samples < limit")
    case True
    show ?thesis
    proof (cases "0 < s")
      case active: True
      obtain d where d: "limit = Suc (length samples + d)" using True less_natE by (metis add_Suc_right)
      show ?thesis
        using Cons.prems True Cons.IH [of "samples @ [v]"] active
        by (simp add: collect_samples.simps [of _ samples] x d)
    next
      case False
      then show ?thesis
        using Cons.prems True Cons.IH [of samples] by (simp add: collect_samples.simps [of limit samples] x)
    qed
  qed (use Cons.prems in \<open>simp add: collect_samples.simps\<close>)
qed

lemma active_values:
  assumes "slots_ok enc H m"
  shows "map snd (filter (\<lambda>(s, _). 0 < s) (zip (rp_states m) (rp_values m))) = map snd (active_entries m)"
proof -
  note L = slots_okD [OF assms]
  let ?is = "filter (\<lambda>i. rp_keys m ! i \<noteq> None) [0..<length (rp_keys m)]"
  have pos: "0 < rp_states m ! i \<longleftrightarrow> rp_keys m ! i \<noteq> None" if "i < length (rp_keys m)" for i
    using state_iff_key [OF assms that] by (simp add: word_neq_0_conv [symmetric])
  have filt: "filter (\<lambda>i. 0 < rp_states m ! i) [0..<length (rp_keys m)] = ?is"
    by (rule filter_cong) (simp_all add: pos)
  have filt2: "filter (\<lambda>i. 0 < rp_states m ! i \<and> (\<exists>y. rp_keys m ! i = Some y)) [0..<length (rp_keys m)] = ?is"
    by (rule filter_cong) (auto simp: pos)
  have "zip (rp_states m) (rp_values m) = map (\<lambda>i. (rp_states m ! i, rp_values m ! i)) [0..<length (rp_keys m)]"
    by (rule nth_equalityI) (simp_all add: L(2,3))
  then have "map snd (filter (\<lambda>(s, _). 0 < s) (zip (rp_states m) (rp_values m))) = map (\<lambda>i. rp_values m ! i) ?is"
    using filt by (simp add: filter_map comp_def)
  moreover have "map snd (active_entries m) = map (\<lambda>i. rp_values m ! i) ?is"
    unfolding active_entries_def zip_slots [OF L(2,3)]
    using filt2 by (simp add: filter_map comp_def)
  ultimately show ?thesis by simp
qed

lemma length_active_entries:
  "slots_ok enc H m \<Longrightarrow> length (active_entries m) = card (dom (rp_map m))"
  using distinct_card [OF distinct_active_entries [of enc H m]]
  by (simp add: rp_map_def dom_map_of_conv_image_fst)

text \<open>Subtracting the median from every value\<close>

lemma adjust_all_ok:
  assumes "slots_ok enc {} m"
  shows "slots_ok enc {} (adjust_all_values_by m a)"
    and "rp_map (adjust_all_values_by m a) = (\<lambda>k. map_option (\<lambda>v. saturating_sub v a) (rp_map m k))"
    and "same_shape m (adjust_all_values_by m a)"
proof -
  let ?m = "adjust_all_values_by m a"
  note L = slots_okD [OF assms]
  have "placed enc {} ?m i k = placed enc {} m i k" for i k
    by (simp add: adjust_all_values_by_def placed_def home_def)
  then show ok: "slots_ok enc {} ?m" using assms by (simp add: slots_ok_def adjust_all_values_by_def)
  show "rp_map ?m = (\<lambda>k. map_option (\<lambda>v. saturating_sub v a) (rp_map m k))"
  proof (rule ext)
    fix k
    show "rp_map ?m k = map_option (\<lambda>v. saturating_sub v a) (rp_map m k)"
    proof (cases "rp_map m k")
      case None
      then show ?thesis using rp_map_None [OF assms, of k] rp_map_None [OF ok, of k]
        by (simp add: adjust_all_values_by_def)
    next
      case (Some v)
      then obtain i where i: "i < length (rp_keys m)" "rp_keys m ! i = Some k"
        using rp_map_None [OF assms, of k] by auto
      then show ?thesis
        using rp_map_slot [OF assms i] rp_map_slot [OF ok, of i k] L(2) by (simp add: adjust_all_values_by_def)
    qed
  qed
  show "same_shape m ?m" by (simp add: adjust_all_values_by_def same_shape_def)
qed

definition purge_limit :: "nat \<Rightarrow> nat \<Rightarrow> nat" where
  "purge_limit sample_size num_active = min (min sample_size num_active) MAX_SAMPLE_SIZE"

text \<open>The purge subtracts the median of the sample, and keeps what stays positive.\<close>

definition purge_median :: "'k purge_map \<Rightarrow> nat \<Rightarrow> u64" where
  "purge_median m sample_size =
     (let samples = take (purge_limit sample_size (rp_num_active m)) (map snd (active_entries m))
      in sort samples ! (length samples div 2))"

lemma rp_purge_ok:
  assumes ok: "rp_ok enc m" and pos: "0 < rp_num_active m" "0 < sample_size"
  shows "may_drift (DRIFT_LIMIT \<le> rp_num_active m) (rp_purge m sample_size)
    (\<lambda>(m', median). median = purge_median m sample_size \<and> rp_ok enc m' \<and> rp_lg_length m' = rp_lg_length m \<and>
       rp_map m' = (\<lambda>k. case rp_map m k of None \<Rightarrow> None
         | Some v \<Rightarrow> if median < v then Some (v - median) else None))"
proof -
  have sok: "slots_ok enc {} m" and num: "rp_num_active m = card (dom (rp_map m))"
    and room: "rp_num_active m < length (rp_keys m)"
    using ok by (simp_all add: rp_ok_def)
  let ?l = "purge_limit sample_size (rp_num_active m)" and ?med = "purge_median m sample_size"
  let ?samples = "take ?l (map snd (active_entries m))"
  have len: "length (active_entries m) = rp_num_active m" using length_active_entries [OF sok] num by simp
  have l: "?l \<le> rp_num_active m" "0 < ?l" using pos by (simp_all add: purge_limit_def MAX_SAMPLE_SIZE_def)
  have "length (filter (\<lambda>(s, _). 0 < s) (zip (rp_states m) (rp_values m))) = rp_num_active m"
    using arg_cong [OF active_values [OF sok], of length] len by simp
  then have samples: "collect_samples ?l [] (zip (rp_states m) (rp_values m)) = Inr ?samples"
    using collect_samples_walk [of ?l "[]" "zip (rp_states m) (rp_values m)"] l(1) active_values [OF sok] by simp
  have lens: "length ?samples = ?l" using l(1) len by simp
  have mid: "length ?samples div 2 < length ?samples" unfolding lens using l(2) by simp
  have med: "?med = sort_key (\<lambda>v. v) ?samples ! (length ?samples div 2)"
    by (simp add: purge_median_def Let_def)
  let ?adj = "adjust_all_values_by m ?med"
  note A = adjust_all_ok [OF sok, of ?med]
  have dom: "dom (rp_map ?adj) = dom (rp_map m)" unfolding A(2) by (auto simp: dom_def)
  have num_adj: "rp_num_active ?adj = rp_num_active m" "length (rp_keys ?adj) = length (rp_keys m)"
    using A(3) by (simp_all add: same_shape_def)
  have kept: "may_drift (DRIFT_LIMIT \<le> rp_num_active m) (keep_only_positive_counts ?adj) (\<lambda>m'. slots_ok enc {} m' \<and>
      rp_num_active m' = card (dom (rp_map m')) \<and> same_shape ?adj (m'\<lparr>rp_num_active := rp_num_active ?adj\<rparr>) \<and>
      rp_map m' = (\<lambda>k. if rp_map ?adj k = Some 0 then None else rp_map ?adj k))"
    using keep_only_positive_ok [OF A(1)] num_adj dom num room by simp
  have run: "rp_purge m sample_size = bind_res (keep_only_positive_counts ?adj) (\<lambda>m. Inr (m, ?med))"
    using samples mid
    by (simp add: rp_purge_def purge_limit_def [symmetric] select_nth_unstable_by_key_def Let_def med)
  have purged: "rp_ok enc m' \<and> rp_lg_length m' = rp_lg_length m \<and>
      rp_map m' = (\<lambda>k. case rp_map m k of None \<Rightarrow> None | Some v \<Rightarrow> if ?med < v then Some (v - ?med) else None)"
    if m'0: "slots_ok enc {} m' \<and> rp_num_active m' = card (dom (rp_map m')) \<and>
      same_shape ?adj (m'\<lparr>rp_num_active := rp_num_active ?adj\<rparr>) \<and>
      rp_map m' = (\<lambda>k. if rp_map ?adj k = Some 0 then None else rp_map ?adj k)" for m'
  proof -
    have m': "slots_ok enc {} m'" "rp_num_active m' = card (dom (rp_map m'))"
      "same_shape ?adj (m'\<lparr>rp_num_active := rp_num_active ?adj\<rparr>)"
      "rp_map m' = (\<lambda>k. if rp_map ?adj k = Some 0 then None else rp_map ?adj k)"
      using m'0 by blast+
    have map: "rp_map m' = (\<lambda>k. case rp_map m k of None \<Rightarrow> None
        | Some v \<Rightarrow> if ?med < v then Some (v - ?med) else None)"
      unfolding m'(4) A(2)
      by (rule ext) (auto simp: saturating_sub_def split: option.splits)
    have "dom (rp_map m') \<subseteq> dom (rp_map m)"
      unfolding map by (auto simp: dom_def split: option.splits)
    then have "rp_num_active m' \<le> rp_num_active m" using m'(2) num by (simp add: card_mono)
    then have "rp_ok enc m'"
      using m'(1-3) num_adj ok A(3) unfolding rp_ok_def same_shape_def by simp
    moreover have "rp_lg_length m' = rp_lg_length m" using m'(3) A(3) by (simp add: same_shape_def)
    ultimately show ?thesis using map by blast
  qed
  show ?thesis
    unfolding run by (rule may_drift_bind [OF kept], rule may_driftI [OF refl], use purged in auto)
qed

text \<open>The weight that the map holds\<close>

definition rp_total :: "'k purge_map \<Rightarrow> nat" where
  "rp_total m = (\<Sum>k \<in> dom (rp_map m). unat (the (rp_map m k)))"

lemma sum_entries:
  assumes "slots_ok enc H m"
  shows "sum_list (map g (map snd (active_entries m))) = (\<Sum>k \<in> dom (rp_map m). g (the (rp_map m k)) :: nat)"
proof -
  have d: "distinct (map fst (active_entries m))" by (rule distinct_active_entries [OF assms])
  have at: "rp_map m (fst e) = Some (snd e)" if "e \<in> set (active_entries m)" for e
    using d that by (simp add: rp_map_def)
  have "sum_list (map g (map snd (active_entries m))) = (\<Sum>e \<in> set (active_entries m). g (snd e))"
    using d by (simp add: distinct_map sum_list_distinct_conv_sum_set comp_def)
  also have "\<dots> = (\<Sum>e \<in> set (active_entries m). g (the (rp_map m (fst e))))"
    by (rule sum.cong) (simp_all add: at)
  also have "\<dots> = (\<Sum>k \<in> fst ` set (active_entries m). g (the (rp_map m k)))"
    using d by (simp add: sum.reindex distinct_map)
  also have "fst ` set (active_entries m) = dom (rp_map m)" by (simp add: rp_map_def dom_map_of_conv_image_fst)
  finally show ?thesis .
qed

lemma sum_list_map_insort: "sum_list (map g (insort_key h x xs)) = (g x + sum_list (map g xs) :: nat)"
  by (induction xs) simp_all

lemma sum_list_map_sort: "sum_list (map g (sort_key h xs)) = (sum_list (map g xs) :: nat)"
  by (induction xs) (simp_all add: sum_list_map_insort)

lemma sum_list_split: "sum_list (map g xs) = (sum_list (map g (take n xs)) + sum_list (map g (drop n xs)) :: nat)"
proof -
  have "sum_list (map g (take n xs @ drop n xs)) =
      sum_list (map g (take n xs)) + sum_list (map g (drop n xs))"
    by (simp only: map_append sum_list_append)
  then show ?thesis by simp
qed

lemma half_less: "0 < length xs \<Longrightarrow> length xs div 2 < length xs"
  by simp

lemma sorted_upper_half:
  fixes xs :: "u64 list"
  assumes "mid < length xs"
  shows "(length xs - mid) * unat (sort xs ! mid) \<le> sum_list (map (\<lambda>v. min (unat v) (unat (sort xs ! mid))) xs)"
proof -
  let ?med = "sort xs ! mid"
  let ?g = "\<lambda>v. min (unat v) (unat ?med)"
  have "sum_list (map ?g xs) = sum_list (map ?g (sort xs))" by (simp only: sum_list_map_sort)
  also have "\<dots> = sum_list (map ?g (take mid (sort xs))) + sum_list (map ?g (drop mid (sort xs)))"
    by (rule sum_list_split)
  finally have split: "sum_list (map ?g (drop mid (sort xs))) \<le> sum_list (map ?g xs)" by simp
  have "?g v = unat ?med" if "v \<in> set (drop mid (sort xs))" for v
  proof -
    obtain i where i: "i < length xs - mid" "v = sort xs ! (mid + i)"
      using \<open>v \<in> set (drop mid (sort xs))\<close> by (auto simp: in_set_conv_nth)
    then have "?med \<le> v" using sorted_nth_mono [of "sort xs" mid "mid + i"] by simp
    then show ?thesis by (simp add: word_le_nat_alt)
  qed
  then have "map ?g (drop mid (sort xs)) = map (\<lambda>_. unat ?med) (drop mid (sort xs))" by simp
  then have "sum_list (map ?g (drop mid (sort xs))) = (length xs - mid) * unat ?med"
    by (simp add: map_replicate_const sum_list_replicate)
  then show ?thesis using split by simp
qed

lemma purge_samples:
  assumes "rp_ok enc m" and "0 < rp_num_active m" and "0 < sample_size"
  defines "samples \<equiv> take (purge_limit sample_size (rp_num_active m)) (map snd (active_entries m))"
  shows "length samples = purge_limit sample_size (rp_num_active m)" and "0 < length samples"
    and "purge_median m sample_size = sort samples ! (length samples div 2)"
  using length_active_entries [of enc "{}" m] assms
  by (simp_all add: rp_ok_def purge_median_def Let_def purge_limit_def MAX_SAMPLE_SIZE_def)

text \<open>Some key loses all its weight: the map has room again.\<close>

lemma purge_reduces:
  assumes ok: "rp_ok enc m" and pos: "0 < rp_num_active m" "0 < sample_size"
    and m': "rp_ok enc m'" "rp_map m' = (\<lambda>k. case rp_map m k of None \<Rightarrow> None
      | Some v \<Rightarrow> if purge_median m sample_size < v then Some (v - purge_median m sample_size) else None)"
  shows "rp_num_active m' < rp_num_active m"
proof -
  let ?med = "purge_median m sample_size"
  have sok: "slots_ok enc {} m" and num: "rp_num_active m = card (dom (rp_map m))"
    using ok by (simp_all add: rp_ok_def)
  note S = purge_samples [OF ok pos]
  have "?med \<in> set (sort (take (purge_limit sample_size (rp_num_active m)) (map snd (active_entries m))))"
    unfolding S(3) using half_less [OF S(2)] by (intro nth_mem) (simp only: length_sort)
  then have "?med \<in> set (map snd (active_entries m))" by (metis set_sort in_set_takeD)
  then obtain k where "(k, ?med) \<in> set (active_entries m)" by auto
  then have k: "rp_map m k = Some ?med" using set_active_entries [OF sok] rp_map_iff [OF sok] by simp
  have "dom (rp_map m') \<subset> dom (rp_map m)"
    using k unfolding m'(2) by (auto simp: dom_def split: option.splits)
  then have "card (dom (rp_map m')) < card (dom (rp_map m))" by (simp add: psubset_card_mono)
  then show ?thesis using num m'(1) by (simp add: rp_ok_def)
qed

text \<open>A purge by \<open>median\<close> takes at least \<open>median\<close> from every value of the upper half of the sample.\<close>

lemma purge_total:
  assumes ok: "rp_ok enc m" and pos: "0 < rp_num_active m" "0 < sample_size"
    and m': "rp_map m' = (\<lambda>k. case rp_map m k of None \<Rightarrow> None
      | Some v \<Rightarrow> if purge_median m sample_size < v then Some (v - purge_median m sample_size) else None)"
  shows "rp_total m' + (purge_limit sample_size (rp_num_active m) - purge_limit sample_size (rp_num_active m) div 2) *
    unat (purge_median m sample_size) \<le> rp_total m"
proof -
  let ?med = "purge_median m sample_size" and ?l = "purge_limit sample_size (rp_num_active m)"
  let ?g = "\<lambda>v. min (unat v) (unat ?med)"
  let ?vs = "map snd (active_entries m)"
  have sok: "slots_ok enc {} m" using ok by (simp add: rp_ok_def)
  note S = purge_samples [OF ok pos]
  have "(?l - ?l div 2) * unat ?med \<le> sum_list (map ?g (take ?l ?vs))"
    using sorted_upper_half [of "?l div 2" "take ?l ?vs"] S by simp
  also have "\<dots> \<le> sum_list (map ?g ?vs)"
    unfolding sum_list_split [of ?g ?vs ?l] by simp
  also have "\<dots> = (\<Sum>k \<in> dom (rp_map m). ?g (the (rp_map m k)))" by (rule sum_entries [OF sok])
  finally have lost: "(?l - ?l div 2) * unat ?med \<le> (\<Sum>k \<in> dom (rp_map m). ?g (the (rp_map m k)))" .
  have at: "unat (the (rp_map m' k)) = unat (the (rp_map m k)) - unat ?med" if "k \<in> dom (rp_map m')" for k
  proof -
    obtain v where v: "rp_map m k = Some v" "?med < v" "rp_map m' k = Some (v - ?med)"
      using \<open>k \<in> dom (rp_map m')\<close> unfolding m' by (auto split: option.splits if_splits)
    then show ?thesis by (simp add: unat_sub order_less_imp_le)
  qed
  have gone: "unat (the (rp_map m k)) - unat ?med = 0" if "k \<in> dom (rp_map m) - dom (rp_map m')" for k
    using that unfolding m' by (auto simp: word_le_nat_alt not_less split: option.splits if_splits)
  have sub: "dom (rp_map m') \<subseteq> dom (rp_map m)" unfolding m' by (auto split: option.splits)
  have "rp_total m' = (\<Sum>k \<in> dom (rp_map m'). unat (the (rp_map m k)) - unat ?med)"
    unfolding rp_total_def by (rule sum.cong [OF refl at])
  also have "\<dots> = (\<Sum>k \<in> dom (rp_map m). unat (the (rp_map m k)) - unat ?med)"
    using sub gone by (intro sum.mono_neutral_left) auto
  finally have "rp_total m' + (\<Sum>k \<in> dom (rp_map m). ?g (the (rp_map m k))) =
      (\<Sum>k \<in> dom (rp_map m). (unat (the (rp_map m k)) - unat ?med) + ?g (the (rp_map m k)))"
    by (simp add: sum.distrib)
  also have "\<dots> = rp_total m" unfolding rp_total_def by (rule sum.cong) simp_all
  finally show ?thesis using lost by linarith
qed

section \<open>Growing\<close>

definition rp_fresh :: "nat \<Rightarrow> 'k purge_map" where
  "rp_fresh lg = \<lparr>rp_lg_length = lg, rp_load_threshold = load_threshold_for (2 ^ lg),
    rp_keys = replicate (2 ^ lg) None, rp_values = replicate (2 ^ lg) 0, rp_states = replicate (2 ^ lg) 0,
    rp_num_active = 0\<rparr>"

lemma slots_ok_fresh: "slots_ok enc {} (rp_fresh lg)"
  by (simp add: rp_fresh_def slots_ok_def)

lemma rp_fresh_simps [simp]:
  "rp_lg_length (rp_fresh lg) = lg" "rp_num_active (rp_fresh lg) = 0"
  "length (rp_keys (rp_fresh lg)) = 2 ^ lg"
  by (simp_all add: rp_fresh_def)

lemma rp_map_fresh [simp]: "rp_map (rp_fresh lg) = Map.empty"
proof (rule ext)
  show "rp_map (rp_fresh lg) k = None" for k
    unfolding rp_map_None [OF slots_ok_fresh] by (simp add: rp_fresh_def)
qed

lemma rp_fresh_ok:
  assumes "lg \<le> 30"
  shows "rp_ok enc (rp_fresh lg)"
proof -
  have "(2 :: nat) ^ lg \<le> 2 ^ 30" using assms by (intro power_increasing) simp_all
  then show ?thesis by (simp add: rp_ok_def slots_ok_fresh) (simp add: rp_fresh_def)
qed

lemma rp_new_fresh: "rp_new (2 ^ lg) = Inr (rp_fresh lg)"
  by (simp add: rp_new_def rp_fresh_def)

lemma rp_resize_fresh:
  "rp_resize enc m (2 ^ lg) = put_all enc (rp_fresh lg) (zip (rp_keys m) (zip (rp_values m) (rp_states m)))"
  by (simp add: rp_resize_def rp_fresh_def)

lemma rp_put_ok:
  assumes "rp_ok enc m" and "rp_num_active m + 1 < length (rp_keys m)"
  shows "may_drift (rp_map m key = None \<and> DRIFT_LIMIT \<le> rp_num_active m + 1) (adjust_or_put_value enc m key a)
    (\<lambda>m'. rp_ok enc m' \<and> rp_map m' = (rp_map m)(key \<mapsto> (case rp_map m key of None \<Rightarrow> a | Some v \<Rightarrow> v + a)) \<and>
       rp_lg_length m' = rp_lg_length m)"
  using put_new [OF assms(1) _ assms(2), of key a] put_existing [OF assms(1), of key _ a]
  by (cases "rp_map m key") (auto simp: may_drift_def)

text \<open>The slots of the old arrays, as the entries they hold\<close>

lemma put_all_entries:
  assumes "slots_ok enc H m0"
  shows "put_all enc m (zip (rp_keys m0) (zip (rp_values m0) (rp_states m0))) =
    fold_res (\<lambda>m (k, v). adjust_or_put_value enc m k v) m (active_entries m0)"
proof -
  have "put_all enc m slots = fold_res (\<lambda>m (k, v). adjust_or_put_value enc m k v) m
      (map (\<lambda>(k, v, _). (the k, v)) (filter (\<lambda>(k, _, state). 0 < state \<and> k \<noteq> None) slots))" for slots
  proof (induction slots arbitrary: m)
    case (Cons slot slots)
    obtain key v state where "slot = (key, v, state)" by (cases slot) blast
    then show ?case using Cons.IH by (cases key) simp_all
  qed simp
  then show ?thesis by (simp only: active_entries_def)
qed

lemma rp_ok_length: "rp_ok enc m \<Longrightarrow> length (rp_keys m) = 2 ^ rp_lg_length m"
  by (simp add: rp_ok_def slots_ok_def)

lemma put_distinct:
  "rp_ok enc m \<Longrightarrow> distinct (map fst es) \<Longrightarrow> fst ` set es \<inter> dom (rp_map m) = {} \<Longrightarrow>
   rp_num_active m + length es < length (rp_keys m) \<Longrightarrow>
   may_drift (DRIFT_LIMIT \<le> rp_num_active m + length es)
     (fold_res (\<lambda>m (k, v). adjust_or_put_value enc m k v) m es)
     (\<lambda>m'. rp_ok enc m' \<and> rp_map m' = rp_map m ++ map_of es \<and> rp_lg_length m' = rp_lg_length m)"
proof (induction es arbitrary: m)
  case (Cons e es)
  obtain k v where e: "e = (k, v)" by force
  have none: "rp_map m k = None" using Cons.prems(3) by (auto simp: e dom_def)
  have put: "may_drift (DRIFT_LIMIT \<le> rp_num_active m + 1) (adjust_or_put_value enc m k v)
      (\<lambda>m'. rp_ok enc m' \<and> rp_map m' = (rp_map m)(k \<mapsto> v) \<and> rp_lg_length m' = rp_lg_length m)"
    using put_new [OF Cons.prems(1) none, of v] Cons.prems(4) by simp
  have rest: "may_drift (DRIFT_LIMIT \<le> rp_num_active m + length (e # es))
      (fold_res (\<lambda>m (k, v). adjust_or_put_value enc m k v) m1 es)
      (\<lambda>m'. rp_ok enc m' \<and> rp_map m' = rp_map m ++ map_of (e # es) \<and> rp_lg_length m' = rp_lg_length m)"
    if m1: "rp_ok enc m1" "rp_map m1 = (rp_map m)(k \<mapsto> v)" "rp_lg_length m1 = rp_lg_length m" for m1
  proof -
    have num: "rp_num_active m1 = rp_num_active m + 1"
      using m1(1,2) Cons.prems(1) none by (simp add: rp_ok_def card_insert_if domIff)
    have dist: "distinct (map fst es)" using Cons.prems(2) by (simp add: e)
    have disj: "fst ` set es \<inter> dom (rp_map m1) = {}" using Cons.prems(2,3) m1(2) by (auto simp: e)
    have "length (rp_keys m1) = length (rp_keys m)"
      using rp_ok_length [OF m1(1)] rp_ok_length [OF Cons.prems(1)] m1(3) by simp
    then have ih: "may_drift (DRIFT_LIMIT \<le> rp_num_active m + length (e # es))
        (fold_res (\<lambda>m (k, v). adjust_or_put_value enc m k v) m1 es)
        (\<lambda>m'. rp_ok enc m' \<and> rp_map m' = rp_map m1 ++ map_of es \<and> rp_lg_length m' = rp_lg_length m1)"
      using Cons.IH [OF m1(1) dist disj] Cons.prems(4) num by simp
    have "k \<notin> dom (map_of es)" using Cons.prems(2) by (simp add: e dom_map_of_conv_image_fst)
    then have "rp_map m1 ++ map_of es = rp_map m ++ map_of (e # es)"
      unfolding m1(2) e
      by (intro ext) (rename_tac x, case_tac "x = k", simp_all add: map_add_def domIff split: option.split)
    then show ?thesis by (intro may_drift_mono [OF ih]) (simp_all add: m1(3))
  qed
  have "may_drift (DRIFT_LIMIT \<le> rp_num_active m + length (e # es)) (adjust_or_put_value enc m k v)
      (\<lambda>m'. rp_ok enc m' \<and> rp_map m' = (rp_map m)(k \<mapsto> v) \<and> rp_lg_length m' = rp_lg_length m)"
    by (rule may_drift_mono [OF put]) simp_all
  then show ?case unfolding e fold_res.simps prod.case by (rule may_drift_bind) (rule rest [unfolded e], simp_all)
qed (simp add: map_add_def may_drift_def)

lemma rp_resize_ok:
  assumes ok: "rp_ok enc m" and lg: "rp_lg_length m \<le> lg" "lg \<le> 30"
  shows "may_drift (DRIFT_LIMIT \<le> rp_num_active m) (rp_resize enc m (2 ^ lg))
    (\<lambda>m'. rp_ok enc m' \<and> rp_map m' = rp_map m \<and> rp_lg_length m' = lg)"
proof -
  have sok: "slots_ok enc {} m" and num: "rp_num_active m = card (dom (rp_map m))"
    and room: "rp_num_active m < length (rp_keys m)"
    using ok by (simp_all add: rp_ok_def)
  have "(2 :: nat) ^ rp_lg_length m \<le> 2 ^ lg" using lg(1) by (intro power_increasing) simp_all
  then have "length (active_entries m) < 2 ^ lg"
    using length_active_entries [OF sok] num room rp_ok_length [OF ok] by linarith
  then have "may_drift (DRIFT_LIMIT \<le> length (active_entries m))
      (fold_res (\<lambda>m (k, v). adjust_or_put_value enc m k v) (rp_fresh lg) (active_entries m))
      (\<lambda>m'. rp_ok enc m' \<and> rp_map m' = map_of (active_entries m) \<and> rp_lg_length m' = lg)"
    using put_distinct [OF rp_fresh_ok [OF lg(2)] distinct_active_entries [OF sok], of enc] by simp
  then show ?thesis
    using put_all_entries [OF sok, of "rp_fresh lg"] length_active_entries [OF sok] num
    by (simp add: rp_resize_fresh rp_map_def [of m])
qed

section \<open>The iterator\<close>

lemma odd_iter_stride: "odd (iter_stride len)"
  by (simp add: iter_stride_def even_or_iff)

lemma iter_from_walk:
  assumes sok: "slots_ok enc {} m" and n: "n = length (rp_keys m)"
    and c: "c + length (filter (\<lambda>i. rp_keys m ! i \<noteq> None) (map (walk n start stride) [j..<n])) = rp_num_active m"
    and j: "j \<le> n" and idx: "(index + stride) mod n = walk n start stride j mod n"
  shows "iter_from (n - j) m stride (n - 1) index c =
    Inr (map (\<lambda>i. (the (rp_keys m ! i), rp_values m ! i))
      (filter (\<lambda>i. rp_keys m ! i \<noteq> None) (map (walk n start stride) [j..<n])))"
  using c j idx
proof (induction "n - j" arbitrary: j index c)
  case 0
  then show ?case by simp
next
  case (Suc fuel)
  have lg: "n = 2 ^ rp_lg_length m" and n0: "0 < n" using slots_okD [OF sok] n by simp_all
  let ?i = "walk n start stride j"
  have i: "?i < n" by (rule walk_lt [OF n0])
  have next_i: "(index + stride) AND (n - 1) = ?i"
    using Suc.prems(3) i lg by (simp add: and_mask_nat [unfolded One_nat_def])
  have fuel: "n - j = Suc fuel" "fuel = n - Suc j" "j < n" using Suc.hyps(2) by simp_all
  have split: "[j..<n] = j # [Suc j..<n]" by (rule upt_conv_Cons [OF fuel(3)])
  have step: "(?i + stride) mod n = walk n start stride (Suc j) mod n" by (simp add: walk_Suc)
  have st: "0 < rp_states m ! ?i \<longleftrightarrow> rp_keys m ! ?i \<noteq> None"
    using state_iff_key [OF sok, of ?i] i n by (simp add: word_neq_0_conv [symmetric])
  show ?case
  proof (cases "rp_num_active m \<le> c")
    case True
    then have "filter (\<lambda>i. rp_keys m ! i \<noteq> None) (map (walk n start stride) [j..<n]) = []"
      using Suc.prems(1) by (simp only: length_0_conv [symmetric])
    then show ?thesis unfolding fuel(1) using True by simp
  next
    case False
    show ?thesis
    proof (cases "rp_keys m ! ?i")
      case None
      have "iter_from (n - Suc j) m stride (n - 1) ?i c = Inr (map (\<lambda>i. (the (rp_keys m ! i), rp_values m ! i))
          (filter (\<lambda>i. rp_keys m ! i \<noteq> None) (map (walk n start stride) [Suc j..<n])))"
        using Suc.hyps(1) [OF fuel(2) _ _ step, of c] Suc.prems(1) fuel(3) None by (simp add: split)
      then show ?thesis unfolding fuel(1) using False None st by (simp add: fuel(2) [symmetric] next_i [unfolded One_nat_def] split Let_def)
    next
      case (Some k)
      have "iter_from (n - Suc j) m stride (n - 1) ?i (c + 1) = Inr (map (\<lambda>i. (the (rp_keys m ! i), rp_values m ! i))
          (filter (\<lambda>i. rp_keys m ! i \<noteq> None) (map (walk n start stride) [Suc j..<n])))"
        using Suc.hyps(1) [OF fuel(2) _ _ step, of "c + 1"] Suc.prems(1) fuel(3) Some by (simp add: split)
      then show ?thesis unfolding fuel(1) using False Some st by (simp add: fuel(2) [symmetric] next_i [unfolded One_nat_def] split Let_def)
    qed
  qed
qed

text \<open>The odd stride passes every slot once, so the iterator ends with every active entry seen.\<close>

lemma walk_start:
  fixes st :: nat
  assumes n: "n = 2 ^ lg" "lg \<le> 64" and "0 < st" "st < 2 ^ 64"
  shows "(unat (0 - of_nat st :: u64) + st) mod n = 0"
proof -
  have st: "unat (of_nat st :: u64) = st" using assms(4) by (simp add: unat_of_nat)
  have "unat (0 - of_nat st :: u64) = 2 ^ 64 - st"
    using st assms(3) by (subst unat_sub_if') (simp add: word_size)
  then have "unat (0 - of_nat st :: u64) + st = 2 ^ 64" using assms(4) by simp
  moreover have "n dvd 2 ^ 64" unfolding n(1) by (rule le_imp_power_dvd [OF n(2)])
  ultimately show ?thesis by (simp only: dvd_eq_mod_eq_0)
qed

lemma rp_iter_ok:
  assumes ok: "rp_ok enc m"
  shows "\<exists>es. rp_iter m = Inr es \<and> set es = rp_set m \<and> distinct (map fst es)"
proof -
  have sok: "slots_ok enc {} m" and num: "rp_num_active m = card (dom (rp_map m))"
    and n30: "length (rp_keys m) \<le> 2 ^ 30"
    using ok by (simp_all add: rp_ok_def)
  let ?n = "length (rp_keys m)" and ?lg = "rp_lg_length m" and ?st = "iter_stride (length (rp_keys m))"
  have n: "?n = 2 ^ ?lg" "0 < ?n" using slots_okD [OF sok] by simp_all
  have "(2 :: nat) ^ ?lg \<le> 2 ^ 30" using n30 n(1) by simp
  then have lg: "?lg \<le> 30" by (rule power_le_imp_le_exp [rotated]) simp
  have "?n * 347922205179541 div 2 ^ 49 \<le> 2 ^ 30 * 347922205179541 div 2 ^ 49"
    using n30 by (intro div_le_mono mult_le_mono1)
  then have "?n * 347922205179541 div 2 ^ 49 < 2 ^ 63" by simp
  then have st: "?st < 2 ^ 64" unfolding iter_stride_def or_one_eq by simp
  have st0: "0 < ?st" using odd_iter_stride [of ?n] by (intro Nat.gr0I) auto
  let ?is = "filter (\<lambda>i. rp_keys m ! i \<noteq> None) (map (walk ?n 0 ?st) [0..<?n])"
  have cop: "coprime ?n ?st" using odd_iter_stride [of ?n] by (subst n(1)) simp
  have dist: "distinct (map (walk ?n 0 ?st) [0..<?n])"
    using walk_inj [OF cop, where start = 0] by (auto simp: distinct_map inj_on_def)
  have all: "set (map (walk ?n 0 ?st) [0..<?n]) = {..<?n}"
    using walk_surj [OF cop, where start = 0] walk_lt [OF n(2)] by fastforce
  have act: "set ?is = {i. i < ?n \<and> rp_states m ! i \<noteq> 0}"
    unfolding set_filter all using state_iff_key [OF sok] by auto
  have "length ?is = rp_num_active m"
    using distinct_card [OF distinct_filter [OF dist]] card_active [OF sok] num act by (metis (no_types))
  then have "rp_iter m = Inr (map (\<lambda>i. (the (rp_keys m ! i), rp_values m ! i)) ?is)"
    using iter_from_walk [OF sok refl, of 0 0 ?st 0 "unat (0 - of_nat ?st :: u64)"]
      walk_start [OF n(1) _ st0 st] lg
    by (simp add: rp_iter_def Let_def walk_def)
  moreover have "set (map (\<lambda>i. (the (rp_keys m ! i), rp_values m ! i)) ?is) = rp_set m"
  proof -
    have "i \<in> set ?is \<longleftrightarrow> i < ?n \<and> rp_keys m ! i \<noteq> None" for i
      using act state_iff_key [OF sok, of i] by auto
    then show ?thesis by (auto simp only: rp_set_def set_map image_iff) force+
  qed
  moreover have "distinct (map fst (map (\<lambda>i. (the (rp_keys m ! i), rp_values m ! i)) ?is))"
  proof -
    have "inj_on (\<lambda>i. the (rp_keys m ! i)) (set ?is)"
      unfolding act using slot_unique [OF sok] state_iff_key [OF sok] by (intro inj_onI) fastforce
    then show ?thesis using distinct_filter [OF dist] by (simp add: distinct_map comp_def)
  qed
  ultimately show ?thesis by blast
qed

section \<open>What the map promises\<close>

lemma fresh_put:
  "\<exists>m. adjust_or_put_value enc (rp_fresh 3) key a = Inr m \<and> rp_ok enc m \<and> rp_map m = [key \<mapsto> a] \<and>
    rp_num_active m = 1"
proof -
  obtain m where m: "adjust_or_put_value enc (rp_fresh 3) key a = Inr m" "rp_ok enc m" "rp_map m = [key \<mapsto> a]"
    using rp_put_ok [OF rp_fresh_ok [of 3 enc], of key a] by (auto simp: may_drift_def DRIFT_LIMIT_def)
  then have "rp_num_active m = 1" by (simp add: rp_ok_def)
  then show ?thesis using m by blast
qed

text \<open>
  C30. A purge of a well-formed map subtracts the median of its sample, the first active values: a
  key keeps the rest of its value when that is positive and disappears otherwise, at least one does,
  and every probe path stays intact (the map is well formed, so each remaining key is found). The
  lost weight is at least the median for the upper half of the sample. The only way it can fail is
  the debug assertion on the drift, and only in a map of at least 1024 keys.
\<close>

theorem purge_exact:
  assumes "rp_ok enc m" and "0 < rp_num_active m" and "0 < sample_size"
    and "samples = take (min (min sample_size (rp_num_active m)) MAX_SAMPLE_SIZE) (map snd (active_entries m))"
    and "median = sort samples ! (length samples div 2)"
  shows "(\<exists>m'. rp_purge m sample_size = Inr (m', median) \<and> rp_ok enc m' \<and>
      rp_map m' = (\<lambda>k. case rp_map m k of None \<Rightarrow> None
        | Some v \<Rightarrow> if median < v then Some (v - median) else None) \<and>
      rp_num_active m' < rp_num_active m \<and>
      rp_total m' + (length samples - length samples div 2) * unat median \<le> rp_total m) \<or>
    DRIFT_LIMIT \<le> rp_num_active m \<and> rp_purge m sample_size = Inl drift_exceeded"
proof -
  note S = purge_samples [OF assms(1-3)]
  have samples: "samples = take (purge_limit sample_size (rp_num_active m)) (map snd (active_entries m))"
    unfolding assms(4) purge_limit_def ..
  have median: "median = purge_median m sample_size" unfolding assms(5) samples S(3) ..
  show ?thesis
    using rp_purge_ok [OF assms(1-3)]
  proof (cases rule: may_driftE)
    case (result x)
    then obtain m' where m': "rp_purge m sample_size = Inr (m', median)" "rp_ok enc m'"
      "rp_map m' = (\<lambda>k. case rp_map m k of None \<Rightarrow> None
        | Some v \<Rightarrow> if median < v then Some (v - median) else None)"
      unfolding median by (cases x) auto
    show ?thesis
      using m' purge_reduces [OF assms(1-3) m'(2) m'(3) [unfolded median]]
        purge_total [OF assms(1-3) m'(3) [unfolded median]]
      unfolding samples S(1) median by blast
  qed simp
qed

theorem purge_exact_witness:
  "\<exists>m m'. adjust_or_put_value (\<lambda>_. []) (rp_fresh 3) (7 :: nat) 5 = Inr m \<and>
    rp_purge m 6 = Inr (m', 5) \<and> rp_map m' 7 = None \<and> rp_num_active m' < 1"
proof -
  obtain m where m: "adjust_or_put_value (\<lambda>_. []) (rp_fresh 3) (7 :: nat) 5 = Inr m" "rp_ok (\<lambda>_. []) m"
    "rp_map m = [7 \<mapsto> 5]" "rp_num_active m = 1"
    using fresh_put [of "\<lambda>_. []" "7 :: nat" 5] by (elim exE conjE)
  have sok: "slots_ok (\<lambda>_. []) {} m" using m(2) by (simp add: rp_ok_def)
  have "length (active_entries m) = 1" using length_active_entries [OF sok] m(3) by simp
  moreover have "(7, 5) \<in> set (active_entries m)"
    using set_active_entries [OF sok] rp_map_iff [OF sok, of 7 5] m(3) by simp
  ultimately have es: "active_entries m = [(7, 5)]" by (cases "active_entries m") auto
  have "[5] = take (min (min 6 (rp_num_active m)) MAX_SAMPLE_SIZE) (map snd (active_entries m))"
    and "(5 :: u64) = sort [5] ! (length [5 :: u64] div 2)"
    using m(4) es by (simp_all add: MAX_SAMPLE_SIZE_def)
  then obtain m' where "rp_purge m 6 = Inr (m', 5)" "rp_num_active m' < rp_num_active m"
    "rp_map m' = (\<lambda>k. case rp_map m k of None \<Rightarrow> None | Some v \<Rightarrow> if 5 < v then Some (v - 5) else None)"
    using purge_exact [OF m(2), of 6 "[5]" 5] m(4) by (auto simp: DRIFT_LIMIT_def)
  moreover from this(3) have "rp_map m' 7 = None" by (simp add: m(3))
  ultimately show ?thesis using m(1,4) by metis
qed

text \<open>
  The assertion can be reached: 1024 keys with one hash, in a table with room for them, fill a run
  in which the last one would lie too far from its home.
\<close>

theorem colliding_keys_exceed_drift:
  assumes "\<forall>k \<in> fst ` set es. hash_item enc k = hash" and "distinct (map fst es)"
    and "DRIFT_LIMIT \<le> length es" and "length es < 2 ^ lg" and "lg \<le> 30"
  shows "fold_res (\<lambda>m (k, v). adjust_or_put_value enc m k v) (rp_fresh lg) es = Inl drift_exceeded"
proof -
  have "may_drift (DRIFT_LIMIT \<le> rp_num_active (rp_fresh lg :: 'a purge_map) + length es)
      (fold_res (\<lambda>m (k, v). adjust_or_put_value enc m k v) (rp_fresh lg) es)
      (\<lambda>m. rp_ok enc m \<and> rp_map m = rp_map (rp_fresh lg) ++ map_of es \<and>
         rp_lg_length m = rp_lg_length (rp_fresh lg :: 'a purge_map))"
    using assms by (intro put_distinct rp_fresh_ok) simp_all
  then show ?thesis
  proof (cases rule: may_driftE)
    case (result m)
    then have ok: "slots_ok enc {} m" and map: "rp_map m = map_of es" by (simp_all add: rp_ok_def)
    let ?n = "length (rp_keys m)" and ?h = "unat hash mod length (rp_keys m)"
    have "{i. i < ?n \<and> rp_states m ! i \<noteq> 0} \<subseteq> (\<lambda>d. (?h + d) mod ?n) ` {..<DRIFT_LIMIT - 1}"
    proof
      fix i
      assume "i \<in> {i. i < ?n \<and> rp_states m ! i \<noteq> 0}"
      then have i: "i < ?n" "rp_states m ! i \<noteq> 0" by simp_all
      obtain k where k: "rp_keys m ! i = Some k" "placed enc {} m i k"
        by (rule slot_cases [OF ok i(1)]) (use i(2) in auto)
      have "k \<in> fst ` set es"
        using rp_map_slot [OF ok i(1) k(1)] unfolding map by (metis domI dom_map_of_conv_image_fst)
      then have "hash_item enc k = hash" using assms(1) by blast
      then have "home enc m k = ?h" by (simp add: home_def)
      then have "(?h + (unat (rp_states m ! i) - 1)) mod ?n = i" "unat (rp_states m ! i) - 1 < DRIFT_LIMIT - 1"
        using k(2) by (auto simp: placed_def Let_def)
      then show "i \<in> (\<lambda>d. (?h + d) mod ?n) ` {..<DRIFT_LIMIT - 1}" by force
    qed
    then have "card {i. i < ?n \<and> rp_states m ! i \<noteq> 0} \<le> DRIFT_LIMIT - 1"
      using surj_card_le [of "{..<DRIFT_LIMIT - 1}"] by simp
    moreover have "card (dom (rp_map m)) = length es"
      using distinct_card [OF assms(2)] unfolding map by (simp add: dom_map_of_conv_image_fst)
    ultimately show ?thesis using card_active [OF ok] assms(3) by (simp add: DRIFT_LIMIT_def)
  qed
qed

theorem colliding_keys_exceed_drift_witness:
  "fold_res (\<lambda>m (k, v). adjust_or_put_value (\<lambda>_. []) m k v) (rp_fresh 11) (map (\<lambda>k. (k, 1)) [0..<1024]) =
     Inl drift_exceeded"
  by (rule colliding_keys_exceed_drift [where hash = "hash_item (\<lambda>_. []) (0 :: nat)"])
    (simp_all add: hash_item_def DRIFT_LIMIT_def comp_def)

text \<open>
  The iterator of a well-formed map ends: its odd stride passes every slot, so it returns every
  tracked item exactly once, with its value, and never meets an active slot without a key.
\<close>

theorem purge_map_iterator_complete:
  assumes "rp_ok enc m"
  shows "\<exists>es. rp_iter m = Inr es \<and> distinct (map fst es) \<and> map_of es = rp_map m \<and>
    length es = rp_num_active m"
proof -
  obtain es where es: "rp_iter m = Inr es" "set es = rp_set m" "distinct (map fst es)"
    using rp_iter_ok [OF assms] by blast
  have sok: "slots_ok enc {} m" and num: "rp_num_active m = card (dom (rp_map m))"
    using assms by (simp_all add: rp_ok_def)
  have map: "rp_map m = map_of es" using es(2,3) by (intro rp_map_eqI [OF sok]) simp
  have "length es = rp_num_active m"
    using distinct_card [OF es(3)] unfolding num map by (simp add: dom_map_of_conv_image_fst)
  then show ?thesis using es(1,3) map by simp
qed

theorem purge_map_iterator_complete_witness:
  "\<exists>m es. adjust_or_put_value (\<lambda>_. []) (rp_fresh 3) (7 :: nat) 5 = Inr m \<and> rp_iter m = Inr es \<and>
    map_of es 7 = Some 5 \<and> length es = 1"
proof -
  obtain m where m: "adjust_or_put_value (\<lambda>_. []) (rp_fresh 3) (7 :: nat) 5 = Inr m" "rp_ok (\<lambda>_. []) m"
    "rp_map m = [7 \<mapsto> 5]" "rp_num_active m = 1"
    using fresh_put [of "\<lambda>_. []" "7 :: nat" 5] by (elim exE conjE)
  obtain es where "rp_iter m = Inr es" "map_of es = rp_map m" "length es = rp_num_active m"
    using purge_map_iterator_complete [OF m(2)] by blast
  moreover from this(2) have "map_of es 7 = Some 5" by (simp add: m(3))
  ultimately show ?thesis using m(1,4) by metis
qed

end
