(* ===== verification/FrequentItems.thy ===== *)
theory FrequentItems
  imports PurgeMap Codec
begin

text \<open>
  The frequent-items sketch of \<open>src/datasketches/src/frequencies/sketch.rs\<close> over the purging map.
  \<open>enc\<close> is the item type's \<open>Hash\<close>, \<open>ser\<close> and \<open>deser\<close> its \<open>FrequentItemValue\<close>; the instances for
  \<open>u64\<close> and \<open>i64\<close> are those of \<open>serialization.rs\<close>. Counter arithmetic is on 64-bit words, which wrap;
  the theorems bound the stream weight, so that it never overflows. The methods that
  take a borrowed item (\<open>update_ref\<close>, \<open>adjust_or_put_value_ref\<close>) do what the owning ones do.
\<close>

section \<open>The sketch\<close>

definition LG_MIN_MAP_SIZE :: nat where "LG_MIN_MAP_SIZE = 3"
definition LG_MAX_MAP_SIZE :: nat where "LG_MAX_MAP_SIZE = 30"
definition MAX_MAP_SIZE :: nat where "MAX_MAP_SIZE = 2 ^ LG_MAX_MAP_SIZE"
definition SAMPLE_SIZE :: nat where "SAMPLE_SIZE = 1024"

definition map_capacity_for_lg :: "nat \<Rightarrow> nat" where
  "map_capacity_for_lg lg_map_size = 2 ^ lg_map_size * 3 div 4"

definition validate_lg_map_sizes :: "u8 \<Rightarrow> u8 \<Rightarrow> unit res" where
  "validate_lg_map_sizes lg_max lg_cur =
     (if unat lg_cur < LG_MIN_MAP_SIZE then Inl (InvalidData ''lg_cur_map_size too small'')
      else if LG_MAX_MAP_SIZE < unat lg_max then Inl (InvalidData ''lg_max_map_size too large'')
      else if lg_max < lg_cur then Inl (InvalidData ''lg_cur_map_size exceeds lg_max_map_size'')
      else Inr ())"

datatype error_type = NoFalseNegatives | NoFalsePositives

record 'k row =
  row_item :: 'k
  row_estimate :: u64
  row_upper_bound :: u64
  row_lower_bound :: u64

record 'k frequent_items_sketch =
  fi_lg_max_map_size :: nat
  fi_cur_map_cap :: nat
  fi_offset :: u64
  fi_stream_weight :: u64
  fi_sample_size :: nat
  fi_hash_map :: "'k purge_map"

definition with_lg_map_sizes :: "nat \<Rightarrow> nat \<Rightarrow> 'k frequent_items_sketch res" where
  "with_lg_map_sizes lg_max_map_size lg_cur_map_size =
     (let lg_max = max lg_max_map_size LG_MIN_MAP_SIZE;
          lg_cur = max lg_cur_map_size LG_MIN_MAP_SIZE
      in if LG_MAX_MAP_SIZE < lg_max then Inl (Panic ''lg_max_map_size too large'')
         else if lg_max < lg_cur then Inl (Panic ''lg_cur_map_size must not exceed lg_max_map_size'')
         else bind_res (rp_new (2 ^ lg_cur)) (\<lambda>m.
           Inr \<lparr>fi_lg_max_map_size = lg_max, fi_cur_map_cap = rp_load_threshold m, fi_offset = 0,
             fi_stream_weight = 0, fi_sample_size = min SAMPLE_SIZE (map_capacity_for_lg lg_max),
             fi_hash_map = m\<rparr>))"

definition fi_new :: "nat \<Rightarrow> 'k frequent_items_sketch res" where
  "fi_new max_map_size =
     (if \<not> is_power_of_two max_map_size then Inl (Panic ''max_map_size must be power of 2'')
      else if MAX_MAP_SIZE < max_map_size then Inl (Panic ''max_map_size too large'')
      else with_lg_map_sizes (trailing_zeros max_map_size) LG_MIN_MAP_SIZE)"

definition fi_is_empty :: "'k frequent_items_sketch \<Rightarrow> bool" where
  "fi_is_empty sk \<longleftrightarrow> rp_num_active (fi_hash_map sk) = 0"

definition is_initial_state :: "'k frequent_items_sketch \<Rightarrow> bool" where
  "is_initial_state sk \<longleftrightarrow>
     fi_stream_weight sk = 0 \<and> fi_offset sk = 0 \<and> rp_num_active (fi_hash_map sk) = 0"

definition fi_estimate :: "('k \<Rightarrow> u8 list list) \<Rightarrow> 'k frequent_items_sketch \<Rightarrow> 'k \<Rightarrow> u64 res" where
  "fi_estimate enc sk item =
     bind_res (rp_get enc (fi_hash_map sk) item) (\<lambda>v. Inr (if 0 < v then v + fi_offset sk else 0))"

definition fi_lower_bound :: "('k \<Rightarrow> u8 list list) \<Rightarrow> 'k frequent_items_sketch \<Rightarrow> 'k \<Rightarrow> u64 res" where
  "fi_lower_bound enc sk item = rp_get enc (fi_hash_map sk) item"

definition fi_upper_bound :: "('k \<Rightarrow> u8 list list) \<Rightarrow> 'k frequent_items_sketch \<Rightarrow> 'k \<Rightarrow> u64 res" where
  "fi_upper_bound enc sk item =
     bind_res (rp_get enc (fi_hash_map sk) item) (\<lambda>v. Inr (v + fi_offset sk))"

definition maximum_error :: "'k frequent_items_sketch \<Rightarrow> u64" where
  "maximum_error sk = fi_offset sk"

definition maximum_map_capacity :: "'k frequent_items_sketch \<Rightarrow> nat" where
  "maximum_map_capacity sk = map_capacity_for_lg (fi_lg_max_map_size sk)"

definition maybe_resize_or_purge ::
  "('k \<Rightarrow> u8 list list) \<Rightarrow> 'k frequent_items_sketch \<Rightarrow> 'k frequent_items_sketch res" where
  "maybe_resize_or_purge enc sk =
     (if fi_cur_map_cap sk < rp_num_active (fi_hash_map sk) then
        if rp_lg_length (fi_hash_map sk) < fi_lg_max_map_size sk then
          bind_res (rp_resize enc (fi_hash_map sk) (length (rp_keys (fi_hash_map sk)) * 2)) (\<lambda>m.
            Inr (sk\<lparr>fi_hash_map := m, fi_cur_map_cap := rp_load_threshold m\<rparr>))
        else
          bind_res (rp_purge (fi_hash_map sk) (fi_sample_size sk)) (\<lambda>(m, delta).
            let sk = sk\<lparr>fi_hash_map := m, fi_offset := fi_offset sk + delta\<rparr>
            in if maximum_map_capacity sk < rp_num_active m
               then Inl (Panic ''purge did not reduce number of active items'')
               else Inr sk)
      else Inr sk)"

definition update_with_count ::
  "('k \<Rightarrow> u8 list list) \<Rightarrow> 'k frequent_items_sketch \<Rightarrow> 'k \<Rightarrow> u64 \<Rightarrow> 'k frequent_items_sketch res" where
  "update_with_count enc sk item count =
     (if count = 0 then Inr sk
      else
        let sk = sk\<lparr>fi_stream_weight := fi_stream_weight sk + count\<rparr>
        in bind_res (adjust_or_put_value enc (fi_hash_map sk) item count) (\<lambda>m.
             maybe_resize_or_purge enc (sk\<lparr>fi_hash_map := m\<rparr>)))"

definition fi_update ::
  "('k \<Rightarrow> u8 list list) \<Rightarrow> 'k frequent_items_sketch \<Rightarrow> 'k \<Rightarrow> 'k frequent_items_sketch res" where
  "fi_update enc sk item = update_with_count enc sk item 1"

definition fi_merge ::
  "('k \<Rightarrow> u8 list list) \<Rightarrow> 'k frequent_items_sketch \<Rightarrow> 'k frequent_items_sketch \<Rightarrow>
   'k frequent_items_sketch res" where
  "fi_merge enc sk other =
     (if is_initial_state other then Inr sk
      else
        let merged_total = fi_stream_weight sk + fi_stream_weight other
        in bind_res (rp_iter (fi_hash_map other)) (\<lambda>entries.
           bind_res (fold_res (\<lambda>sk (item, count). update_with_count enc sk item count) sk entries) (\<lambda>sk.
             Inr (sk\<lparr>fi_offset := fi_offset sk + fi_offset other, fi_stream_weight := merged_total\<rparr>))))"

definition fi_reset :: "'k frequent_items_sketch \<Rightarrow> 'k frequent_items_sketch res" where
  "fi_reset sk = with_lg_map_sizes (fi_lg_max_map_size sk) LG_MIN_MAP_SIZE"

definition frequent_items_with_threshold ::
  "'k frequent_items_sketch \<Rightarrow> error_type \<Rightarrow> u64 \<Rightarrow> 'k row list res" where
  "frequent_items_with_threshold sk error_type threshold =
     (let threshold = max threshold (fi_offset sk)
      in bind_res (rp_iter (fi_hash_map sk)) (\<lambda>entries.
        let rows = map (\<lambda>(item, count). \<lparr>row_item = item, row_estimate = count + fi_offset sk,
                         row_upper_bound = count + fi_offset sk, row_lower_bound = count\<rparr>)
                     (filter (\<lambda>(item, count).
                        let lower = count; upper = count + fi_offset sk
                        in case error_type of
                             NoFalseNegatives \<Rightarrow> threshold < upper
                           | NoFalsePositives \<Rightarrow> threshold < lower) entries)
        in Inr (sort_key (\<lambda>r. - uint (row_estimate r)) rows)))"

definition frequent_items :: "'k frequent_items_sketch \<Rightarrow> error_type \<Rightarrow> 'k row list res" where
  "frequent_items sk error_type = frequent_items_with_threshold sk error_type (fi_offset sk)"

section \<open>Serialization\<close>

definition FI_SERIAL_VERSION :: u8 where "FI_SERIAL_VERSION = 1"
definition FI_PREAMBLE_LONGS_EMPTY :: u8 where "FI_PREAMBLE_LONGS_EMPTY = 1"
definition FI_PREAMBLE_LONGS_NONEMPTY :: u8 where "FI_PREAMBLE_LONGS_NONEMPTY = 4"
definition FI_EMPTY_FLAG_MASK :: u8 where "FI_EMPTY_FLAG_MASK = 5"

definition fi_serialize ::
  "(sketch_bytes \<Rightarrow> 'k \<Rightarrow> sketch_bytes) \<Rightarrow> 'k frequent_items_sketch \<Rightarrow> u8 list" where
  "fi_serialize ser sk =
     (if is_initial_state sk then
        let bytes = with_capacity 8;
            bytes = write_u8 bytes FI_PREAMBLE_LONGS_EMPTY;
            bytes = write_u8 bytes FI_SERIAL_VERSION;
            bytes = write_u8 bytes (fam_id family_frequency);
            bytes = write_u8 bytes (of_nat (fi_lg_max_map_size sk));
            bytes = write_u8 bytes (of_nat (rp_lg_length (fi_hash_map sk)));
            bytes = write_u8 bytes FI_EMPTY_FLAG_MASK;
            bytes = write_u16_le bytes 0
        in into_bytes bytes
      else
        let active_items = rp_num_active (fi_hash_map sk);
            entries = active_entries (fi_hash_map sk);
            bytes = with_capacity 0;
            bytes = write_u8 bytes FI_PREAMBLE_LONGS_NONEMPTY;
            bytes = write_u8 bytes FI_SERIAL_VERSION;
            bytes = write_u8 bytes (fam_id family_frequency);
            bytes = write_u8 bytes (of_nat (fi_lg_max_map_size sk));
            bytes = write_u8 bytes (of_nat (rp_lg_length (fi_hash_map sk)));
            bytes = write_u8 bytes 0;
            bytes = write_u16_le bytes 0;
            bytes = write_u32_le bytes (of_nat active_items);
            bytes = write_u32_le bytes 0;
            bytes = write_u64_le bytes (fi_stream_weight sk);
            bytes = write_u64_le bytes (fi_offset sk);
            bytes = foldl write_u64_le bytes (map snd entries);
            bytes = foldl ser bytes (map fst entries)
        in into_bytes bytes)"

text \<open>The closure of \<open>deserialize\<close>: any error of an item is a lack of data.\<close>

fun deserialize_items ::
  "(sketch_slice \<Rightarrow> ('k \<times> sketch_slice) res) \<Rightarrow> sketch_slice \<Rightarrow> nat \<Rightarrow> 'k list res" where
  "deserialize_items deser cursor 0 = Inr []"
| "deserialize_items deser cursor (Suc n) =
     (case deser cursor of
        Inl _ \<Rightarrow> Inl (InvalidData ''insufficient data: failed to read item'')
      | Inr (item, cursor) \<Rightarrow>
          bind_res (deserialize_items deser cursor n) (\<lambda>items. Inr (item # items)))"

definition fi_deserialize ::
  "('k \<Rightarrow> u8 list list) \<Rightarrow> (sketch_slice \<Rightarrow> ('k \<times> sketch_slice) res) \<Rightarrow> u8 list \<Rightarrow>
   'k frequent_items_sketch res" where
  "fi_deserialize enc deser bytes =
     (let cursor = new_slice bytes
      in bind_res (insufficient_data ''pre_longs'' (read_u8 cursor)) (\<lambda>(pre_longs, cursor).
         let pre_longs = pre_longs AND 0x3F
         in bind_res (insufficient_data ''serial_version'' (read_u8 cursor)) (\<lambda>(serial_version, cursor).
         bind_res (insufficient_data ''family'' (read_u8 cursor)) (\<lambda>(family, cursor).
         bind_res (insufficient_data ''lg_max_map_size'' (read_u8 cursor)) (\<lambda>(lg_max, cursor).
         bind_res (insufficient_data ''lg_cur_map_size'' (read_u8 cursor)) (\<lambda>(lg_cur, cursor).
         bind_res (insufficient_data ''flags'' (read_u8 cursor)) (\<lambda>(flags, cursor).
         bind_res (insufficient_data ''<unused>'' (read_u16_le cursor)) (\<lambda>(_, cursor).
         bind_res (validate_id family_frequency family) (\<lambda>_.
         bind_res (ensure_serial_version_is FI_SERIAL_VERSION serial_version) (\<lambda>_.
         bind_res (validate_lg_map_sizes lg_max lg_cur) (\<lambda>_.
         if flags AND FI_EMPTY_FLAG_MASK \<noteq> 0 then
           bind_res (ensure_preamble_longs_in [FI_PREAMBLE_LONGS_EMPTY] pre_longs) (\<lambda>_.
             with_lg_map_sizes (unat lg_max) LG_MIN_MAP_SIZE)
         else
           bind_res (ensure_preamble_longs_in [FI_PREAMBLE_LONGS_NONEMPTY] pre_longs) (\<lambda>_.
           bind_res (insufficient_data ''active_items'' (read_u32_le cursor)) (\<lambda>(active_items, cursor).
           let active_items = unat active_items;
               cur_map_cap = map_capacity_for_lg (unat lg_cur)
           in if cur_map_cap < active_items then Inl (InvalidData ''active_items exceeds the capacity'')
           else
           bind_res (insufficient_data ''<unused>'' (read_u32_le cursor)) (\<lambda>(_, cursor).
           bind_res (insufficient_data ''stream_weight'' (read_u64_le cursor)) (\<lambda>(stream_weight, cursor).
           bind_res (insufficient_data ''offset'' (read_u64_le cursor)) (\<lambda>(offset_val, cursor).
           if length (remaining cursor) < active_items * 8
           then Inl (InvalidData ''insufficient data: active_items exceeds the remaining bytes'')
           else
           bind_res (insufficient_data ''weights'' (read_many read_u64_le active_items cursor)) (\<lambda>(weights, cursor).
           bind_res (deserialize_items deser cursor active_items) (\<lambda>items.
           if length items \<noteq> active_items
           then Inl (InvalidData ''item count mismatch during deserialization'')
           else
           bind_res (with_lg_map_sizes (unat lg_max) (unat lg_cur)) (\<lambda>sketch.
           bind_res (fold_res (\<lambda>sk (item, v). update_with_count enc sk item v) sketch (zip items weights)) (\<lambda>sketch.
             Inr (sketch\<lparr>fi_stream_weight := stream_weight, fi_offset := offset_val\<rparr>)))))))))))))))))))))"

section \<open>The shape of a sketch\<close>

definition fi_shape :: "('k \<Rightarrow> u8 list list) \<Rightarrow> 'k frequent_items_sketch \<Rightarrow> bool" where
  "fi_shape enc sk \<longleftrightarrow>
     (let m = fi_hash_map sk
      in rp_ok enc m \<and> LG_MIN_MAP_SIZE \<le> rp_lg_length m \<and> rp_lg_length m \<le> fi_lg_max_map_size sk \<and>
         fi_lg_max_map_size sk \<le> 30 \<and> fi_cur_map_cap sk = rp_load_threshold m \<and>
         rp_num_active m \<le> fi_cur_map_cap sk \<and>
         fi_sample_size sk = min SAMPLE_SIZE (map_capacity_for_lg (fi_lg_max_map_size sk)) \<and>
         (\<forall>k v. rp_map m k = Some v \<longrightarrow> 0 < v))"

text \<open>Every purge takes its delta at least this often from the counters.\<close>

definition purge_share :: "nat \<Rightarrow> nat" where
  "purge_share lg_max =
     min SAMPLE_SIZE (map_capacity_for_lg lg_max) - min SAMPLE_SIZE (map_capacity_for_lg lg_max) div 2"

lemma fi_shapeD:
  assumes "fi_shape enc sk"
  shows "rp_ok enc (fi_hash_map sk)" "LG_MIN_MAP_SIZE \<le> rp_lg_length (fi_hash_map sk)"
    "rp_lg_length (fi_hash_map sk) \<le> fi_lg_max_map_size sk" "fi_lg_max_map_size sk \<le> 30"
    "fi_cur_map_cap sk = rp_load_threshold (fi_hash_map sk)"
    "rp_num_active (fi_hash_map sk) \<le> fi_cur_map_cap sk"
    "fi_sample_size sk = min SAMPLE_SIZE (map_capacity_for_lg (fi_lg_max_map_size sk))"
    "rp_map (fi_hash_map sk) k = Some v \<Longrightarrow> 0 < v"
  using assms unfolding fi_shape_def Let_def by blast+

lemma rp_ok_slots: "rp_ok enc m \<Longrightarrow> slots_ok enc {} m"
  by (simp add: rp_ok_def)

lemma rp_threshold:
  assumes "rp_ok enc m"
  shows "rp_load_threshold m = map_capacity_for_lg (rp_lg_length m)"
proof -
  have "rp_load_threshold m = load_threshold_for (length (rp_keys m))" using assms unfolding rp_ok_def by blast
  then show ?thesis by (simp only: rp_ok_length [OF assms] load_threshold_for_def map_capacity_for_lg_def)
qed

lemma capacity_bounds:
  assumes "LG_MIN_MAP_SIZE \<le> lg"
  shows "6 \<le> map_capacity_for_lg lg" "map_capacity_for_lg lg + 1 < 2 ^ lg"
proof -
  obtain d where "lg = 3 + d" using assms le_Suc_ex [of 3 lg] by (auto simp: LG_MIN_MAP_SIZE_def)
  then have eq: "map_capacity_for_lg lg = 6 * 2 ^ d" "(2 :: nat) ^ lg = 8 * 2 ^ d"
    by (simp_all add: map_capacity_for_lg_def power_add)
  have "1 \<le> (2 :: nat) ^ d" by simp
  then show "6 \<le> map_capacity_for_lg lg" "map_capacity_for_lg lg + 1 < 2 ^ lg" unfolding eq by linarith+
qed

lemma capacity_mono: "lg \<le> lg' \<Longrightarrow> map_capacity_for_lg lg \<le> map_capacity_for_lg lg'"
  unfolding map_capacity_for_lg_def by (intro div_le_mono mult_le_mono1 power_increasing) simp_all

lemma with_lg_map_sizes_ok:
  assumes "LG_MIN_MAP_SIZE \<le> lg_cur" "lg_cur \<le> lg_max" "lg_max \<le> 30"
  shows "\<exists>sk. with_lg_map_sizes lg_max lg_cur = Inr sk \<and> fi_shape enc sk \<and> fi_lg_max_map_size sk = lg_max \<and>
    rp_lg_length (fi_hash_map sk) = lg_cur \<and> rp_map (fi_hash_map sk) = Map.empty \<and>
    fi_offset sk = 0 \<and> fi_stream_weight sk = 0 \<and> rp_num_active (fi_hash_map sk) = 0"
proof -
  have "rp_ok enc (rp_fresh lg_cur)" using assms by (intro rp_fresh_ok) simp
  moreover have "max lg_max LG_MIN_MAP_SIZE = lg_max" "max lg_cur LG_MIN_MAP_SIZE = lg_cur" using assms by simp_all
  ultimately show ?thesis
    using assms by (simp add: with_lg_map_sizes_def Let_def rp_new_fresh fi_shape_def LG_MAX_MAP_SIZE_def)
qed

lemma fi_new_ok:
  assumes "lg \<le> 30"
  shows "\<exists>sk. fi_new (2 ^ lg) = Inr sk \<and> fi_shape enc sk \<and> fi_lg_max_map_size sk = max lg 3 \<and>
    rp_map (fi_hash_map sk) = Map.empty \<and> fi_offset sk = 0 \<and> fi_stream_weight sk = 0"
proof -
  have "(2 :: nat) ^ lg \<le> 2 ^ 30" using assms by (intro power_increasing) simp_all
  then have "fi_new (2 ^ lg) = (with_lg_map_sizes lg LG_MIN_MAP_SIZE :: 'a frequent_items_sketch res)"
    by (simp add: fi_new_def MAX_MAP_SIZE_def LG_MAX_MAP_SIZE_def)
  also have "\<dots> = with_lg_map_sizes (max lg 3) LG_MIN_MAP_SIZE"
    by (simp add: with_lg_map_sizes_def Let_def LG_MIN_MAP_SIZE_def)
  finally show ?thesis
    using with_lg_map_sizes_ok [of LG_MIN_MAP_SIZE "max lg 3" enc] assms by (auto simp: LG_MIN_MAP_SIZE_def)
qed

section \<open>The weight in the map\<close>

lemma rp_total_put:
  assumes "rp_map m' = (rp_map m)(key \<mapsto> (case rp_map m key of None \<Rightarrow> a | Some v \<Rightarrow> v + a))"
    and "rp_total m + unat a < 2 ^ 64"
  shows "rp_total m' = rp_total m + unat a"
    and "rp_map m key = Some v \<Longrightarrow> unat (v + a) = unat v + unat a"
proof -
  let ?g = "\<lambda>f k. case f k of None \<Rightarrow> 0 | Some v \<Rightarrow> unat (v :: u64)"
  have total: "rp_total m = (\<Sum>k \<in> insert key (dom (rp_map m)). ?g (rp_map m) k)" for m :: "'a purge_map"
  proof -
    have "rp_total m = (\<Sum>k \<in> dom (rp_map m). ?g (rp_map m) k)"
      unfolding rp_total_def by (rule sum.cong) auto
    also have "\<dots> = (\<Sum>k \<in> insert key (dom (rp_map m)). ?g (rp_map m) k)"
      by (rule sum.mono_neutral_left) (auto split: option.split)
    finally show ?thesis .
  qed
  have split: "(\<Sum>k \<in> insert key (dom (rp_map m)). ?g f k) =
      ?g f key + (\<Sum>k \<in> dom (rp_map m) - {key}. ?g f k)" for f
    by (simp add: sum.insert_remove)
  have le: "?g (rp_map m) key \<le> rp_total m" unfolding total [of m] split by simp
  show add: "unat (v + a) = unat v + unat a" if "rp_map m key = Some v" for v
    using le that assms(2) by (simp add: unat_plus_if' )
  have "insert key (dom (rp_map m')) = insert key (dom (rp_map m))" unfolding assms(1) by auto
  then have "rp_total m' = (\<Sum>k \<in> insert key (dom (rp_map m)). ?g (rp_map m') k)" using total [of m'] by simp
  also have "\<dots> = ?g (rp_map m') key + (\<Sum>k \<in> dom (rp_map m) - {key}. ?g (rp_map m') k)" by (rule split)
  also have "(\<Sum>k \<in> dom (rp_map m) - {key}. ?g (rp_map m') k) = (\<Sum>k \<in> dom (rp_map m) - {key}. ?g (rp_map m) k)"
    unfolding assms(1) by (rule sum.cong) auto
  also have "?g (rp_map m') key = ?g (rp_map m) key + unat a"
    unfolding assms(1) using add by (simp split: option.split)
  finally show "rp_total m' = rp_total m + unat a" unfolding total [of m] split by simp
qed

lemma rp_total_member: "rp_map m k = Some v \<Longrightarrow> unat v \<le> rp_total m"
  unfolding rp_total_def using member_le_sum [of k "dom (rp_map m)" "\<lambda>k. unat (the (rp_map m k))"]
  by (simp add: domIff)

text \<open>A resize keeps the map, a purge takes a delta off every counter.\<close>

definition lowered :: "u64 \<Rightarrow> ('k \<Rightarrow> u64 option) \<Rightarrow> 'k \<Rightarrow> u64 option" where
  "lowered delta f = (\<lambda>k. case f k of None \<Rightarrow> None | Some v \<Rightarrow> if delta < v then Some (v - delta) else None)"

lemma lowered_0: "(\<And>k v. f k = Some v \<Longrightarrow> 0 < v) \<Longrightarrow> lowered 0 f = f"
  by (rule ext) (auto simp: lowered_def split: option.split)

lemma lowered_pos: "lowered delta f k = Some v \<Longrightarrow> 0 < v"
  by (auto simp: lowered_def word_neq_0_conv [symmetric] split: option.splits if_splits)

lemma maybe_resize_or_purge_ok:
  fixes sk m0
  defines "m \<equiv> fi_hash_map sk"
  assumes ok: "rp_ok enc m" "LG_MIN_MAP_SIZE \<le> rp_lg_length m" "rp_lg_length m \<le> fi_lg_max_map_size sk"
      "fi_lg_max_map_size sk \<le> 30" "fi_cur_map_cap sk = rp_load_threshold m"
      "rp_num_active m \<le> fi_cur_map_cap sk + 1"
      "fi_sample_size sk = min SAMPLE_SIZE (map_capacity_for_lg (fi_lg_max_map_size sk))"
      "\<And>k v. rp_map m k = Some v \<Longrightarrow> 0 < v"
  shows "may_drift (DRIFT_LIMIT \<le> rp_num_active m) (maybe_resize_or_purge enc sk) (\<lambda>sk'. \<exists>delta. fi_shape enc sk' \<and>
    fi_lg_max_map_size sk' = fi_lg_max_map_size sk \<and> fi_stream_weight sk' = fi_stream_weight sk \<and>
    fi_offset sk' = fi_offset sk + delta \<and> rp_map (fi_hash_map sk') = lowered delta (rp_map m) \<and>
    rp_total (fi_hash_map sk') + unat delta * purge_share (fi_lg_max_map_size sk) \<le> rp_total m)"
    (is "may_drift _ _ ?post")
proof -
  have keep: "lowered 0 (rp_map m) = rp_map m" by (rule lowered_0 [OF ok(8)])
  show ?thesis
  proof (cases "fi_cur_map_cap sk < rp_num_active m")
    case False
    then have "fi_shape enc sk" using ok by (simp add: fi_shape_def m_def)
    then show ?thesis
      using False keep
      by (intro may_driftI [of _ sk] exI [of _ 0]) (simp_all add: maybe_resize_or_purge_def m_def)
  next
    case over: True
    show ?thesis
    proof (cases "rp_lg_length m < fi_lg_max_map_size sk")
      case True
      let ?grown = "\<lambda>m'. sk\<lparr>fi_hash_map := m', fi_cur_map_cap := rp_load_threshold m'\<rparr>"
      have run: "maybe_resize_or_purge enc sk =
          bind_res (rp_resize enc m (2 ^ Suc (rp_lg_length m))) (\<lambda>m. Inr (?grown m))"
        using over True rp_ok_length [OF ok(1)]
        by (simp add: maybe_resize_or_purge_def m_def [symmetric] mult.commute)
      have post: "?post (?grown m')"
        if m': "rp_ok enc m'" "rp_map m' = rp_map m" "rp_lg_length m' = Suc (rp_lg_length m)" for m'
      proof -
        have num: "rp_num_active m' = rp_num_active m" using m'(1,2) ok(1) by (simp add: rp_ok_def)
        have "map_capacity_for_lg (rp_lg_length m) + 1 < 2 ^ rp_lg_length m" by (rule capacity_bounds [OF ok(2)])
        moreover have "(2 :: nat) ^ rp_lg_length m \<le> map_capacity_for_lg (Suc (rp_lg_length m))"
          by (simp add: map_capacity_for_lg_def)
        ultimately have "rp_num_active m' \<le> rp_load_threshold m'"
          using ok(5,6) m'(3) num rp_threshold [OF ok(1)] rp_threshold [OF m'(1)] by simp
        then have "fi_shape enc (?grown m')" using ok m' True by (simp add: fi_shape_def)
        then show ?thesis using keep m'(2) by (intro exI [of _ 0]) (simp add: rp_total_def)
      qed
      have "may_drift (DRIFT_LIMIT \<le> rp_num_active m) (rp_resize enc m (2 ^ Suc (rp_lg_length m)))
          (\<lambda>m'. rp_ok enc m' \<and> rp_map m' = rp_map m \<and> rp_lg_length m' = Suc (rp_lg_length m))"
        by (rule rp_resize_ok [OF ok(1)]) (use True ok(4) in simp_all)
      then show ?thesis
        unfolding run by (rule may_drift_bind) (elim conjE, intro may_driftI [OF refl] post)
    next
      case False
      then have lg: "rp_lg_length m = fi_lg_max_map_size sk" using ok(3) by simp
      let ?L = "min SAMPLE_SIZE (map_capacity_for_lg (fi_lg_max_map_size sk))"
      have cap: "fi_cur_map_cap sk = map_capacity_for_lg (fi_lg_max_map_size sk)"
        using ok(5) rp_threshold [OF ok(1)] lg by simp
      have L: "0 < ?L" using capacity_bounds(1) [OF ok(2)] lg by (simp add: SAMPLE_SIZE_def)
      have pos: "0 < rp_num_active m" "0 < fi_sample_size sk" using over L ok(7) by simp_all
      have limit: "purge_limit (fi_sample_size sk) (rp_num_active m) = ?L"
        using over cap ok(7) by (simp add: purge_limit_def SAMPLE_SIZE_def MAX_SAMPLE_SIZE_def min_def)
      define delta where "delta = purge_median m (fi_sample_size sk)"
      let ?purged = "\<lambda>m'. sk\<lparr>fi_hash_map := m', fi_offset := fi_offset sk + delta\<rparr>"
      have post: "rp_num_active m' \<le> map_capacity_for_lg (fi_lg_max_map_size sk) \<and> ?post (?purged m')"
        if m': "rp_ok enc m'" "rp_lg_length m' = rp_lg_length m" "rp_map m' = lowered delta (rp_map m)" for m'
      proof -
        have less: "rp_num_active m' < rp_num_active m"
          using purge_reduces [OF ok(1) pos m'(1)] m'(3) unfolding lowered_def delta_def by blast
        have total: "rp_total m' + purge_share (fi_lg_max_map_size sk) * unat delta \<le> rp_total m"
          using purge_total [OF ok(1) pos, of m'] m'(3)
          unfolding lowered_def delta_def purge_share_def limit by blast
        have num: "rp_num_active m' \<le> map_capacity_for_lg (fi_lg_max_map_size sk)"
          using less ok(6) cap by simp
        have "rp_load_threshold m' = rp_load_threshold m"
          using rp_threshold [OF ok(1)] rp_threshold [OF m'(1)] m'(2) by simp
        then have "fi_shape enc (?purged m')"
          using ok m' num cap lowered_pos [of delta "rp_map m"] by (simp add: fi_shape_def)
        then show ?thesis
          using m'(3) total num by (intro conjI exI [of _ delta]) (simp_all add: mult.commute)
      qed
      have purge: "may_drift (DRIFT_LIMIT \<le> rp_num_active m) (rp_purge m (fi_sample_size sk))
          (\<lambda>(m', d). d = delta \<and> rp_ok enc m' \<and> rp_lg_length m' = rp_lg_length m \<and>
             rp_map m' = lowered delta (rp_map m))"
        unfolding lowered_def delta_def by (rule may_drift_mono [OF rp_purge_ok [OF ok(1) pos]]) auto
      have run: "maybe_resize_or_purge enc sk = bind_res (rp_purge m (fi_sample_size sk)) (\<lambda>(m, delta).
          let sk = sk\<lparr>fi_hash_map := m, fi_offset := fi_offset sk + delta\<rparr>
          in if maximum_map_capacity sk < rp_num_active m
             then Inl (Panic ''purge did not reduce number of active items'') else Inr sk)"
        using over False by (simp add: maybe_resize_or_purge_def m_def [symmetric])
      show ?thesis
        unfolding run
      proof (rule may_drift_bind [OF purge], clarify)
        fix m' d
        assume "rp_ok enc m'" "rp_lg_length m' = rp_lg_length m" "rp_map m' = lowered delta (rp_map m)"
        note P = post [OF this]
        show "may_drift (DRIFT_LIMIT \<le> rp_num_active m)
          (let sk = ?purged m' in if maximum_map_capacity sk < rp_num_active m'
             then Inl (Panic ''purge did not reduce number of active items'') else Inr sk) ?post"
          by (rule may_driftI [where x = "?purged m'"],
              use conjunct1 [OF P] in \<open>simp add: Let_def maximum_map_capacity_def\<close>, rule conjunct2 [OF P])
      qed
    qed
  qed
qed

section \<open>Counting a stream\<close>

text \<open>
  The drift assertion needs 1024 keys in the map, so as many distinct items, and a table of at least
  \<open>2 ^ 11\<close> slots.
\<close>

definition drift_possible :: "nat \<Rightarrow> 'k set \<Rightarrow> bool" where
  "drift_possible lg_max items \<longleftrightarrow> 11 \<le> lg_max \<and> DRIFT_LIMIT \<le> card items"

lemma drift_possibleI:
  assumes "DRIFT_LIMIT \<le> n" "n \<le> card items" "n \<le> map_capacity_for_lg lg + 1" "lg \<le> lg_max"
  shows "drift_possible lg_max items"
proof -
  have "\<not> lg \<le> 10"
  proof
    assume "lg \<le> 10"
    then have "map_capacity_for_lg lg \<le> map_capacity_for_lg 10" by (rule capacity_mono)
    then have "map_capacity_for_lg lg \<le> 768" by (simp add: map_capacity_for_lg_def)
    then show False using assms(1,3) by (simp add: DRIFT_LIMIT_def)
  qed
  then show ?thesis using assms by (simp add: drift_possible_def)
qed

lemma drift_possible_max [simp]: "drift_possible (max lg 3) items = drift_possible lg items"
  by (simp add: drift_possible_def max_def)

text \<open>The true frequencies and the weight of a stream of updates\<close>

definition frequency :: "('k \<times> u64) list \<Rightarrow> 'k \<Rightarrow> nat" where
  "frequency stream k = sum_list (map (\<lambda>(_, c). unat c) (filter (\<lambda>(item, _). item = k) stream))"

definition stream_total :: "('k \<times> u64) list \<Rightarrow> nat" where
  "stream_total stream = sum_list (map (\<lambda>(_, c). unat c) stream)"

lemma frequency_simps [simp]:
  "frequency [] k = 0"
  "frequency ((item, c) # s) k = (if item = k then unat c else 0) + frequency s k"
  "frequency (s @ s') k = frequency s k + frequency s' k"
  by (simp_all add: frequency_def)

lemma stream_total_simps [simp]:
  "stream_total [] = 0"
  "stream_total ((item, c) # s) = unat c + stream_total s"
  "stream_total (s @ s') = stream_total s + stream_total s'"
  by (simp_all add: stream_total_def)

lemma frequency_le_total: "frequency s k \<le> stream_total s"
  by (induction s) (auto simp: split_beta)

text \<open>
  The sketch accounts for the frequencies \<open>f\<close> of a stream of weight \<open>w\<close>: every counter is a lower
  bound that misses at most the offset, and the offset is paid for, \<open>c\<close> times, by lost weight.
\<close>

definition fi_counts :: "nat \<Rightarrow> ('k \<Rightarrow> nat) \<Rightarrow> nat \<Rightarrow> 'k frequent_items_sketch \<Rightarrow> bool" where
  "fi_counts c f w sk \<longleftrightarrow>
     unat (fi_stream_weight sk) = w \<and> c \<le> purge_share (fi_lg_max_map_size sk) \<and>
     rp_total (fi_hash_map sk) + unat (fi_offset sk) * c \<le> w \<and>
     (\<forall>k. case rp_map (fi_hash_map sk) k of
        None \<Rightarrow> f k \<le> unat (fi_offset sk)
      | Some v \<Rightarrow> unat v \<le> f k \<and> f k \<le> unat v + unat (fi_offset sk))"

lemma fi_countsD:
  assumes "fi_counts c f w sk"
  shows "unat (fi_stream_weight sk) = w" "c \<le> purge_share (fi_lg_max_map_size sk)"
    "rp_total (fi_hash_map sk) + unat (fi_offset sk) * c \<le> w"
    "rp_map (fi_hash_map sk) k = None \<Longrightarrow> f k \<le> unat (fi_offset sk)"
    "rp_map (fi_hash_map sk) k = Some v \<Longrightarrow> unat v \<le> f k \<and> f k \<le> unat v + unat (fi_offset sk)"
proof -
  have at: "case rp_map (fi_hash_map sk) k of None \<Rightarrow> f k \<le> unat (fi_offset sk)
      | Some v \<Rightarrow> unat v \<le> f k \<and> f k \<le> unat v + unat (fi_offset sk)" for k
    using assms unfolding fi_counts_def by blast
  show "rp_map (fi_hash_map sk) k = None \<Longrightarrow> f k \<le> unat (fi_offset sk)"
    "rp_map (fi_hash_map sk) k = Some v \<Longrightarrow> unat v \<le> f k \<and> f k \<le> unat v + unat (fi_offset sk)"
    using at [of k] by simp_all
qed (use assms in \<open>auto simp: fi_counts_def\<close>)

lemma fi_counts_weight: "fi_counts c f w sk \<Longrightarrow> w < 2 ^ 64"
proof -
  have "unat (fi_stream_weight sk) < 2 ^ LENGTH(64)" by (rule unsigned_less)
  then show "fi_counts c f w sk \<Longrightarrow> w < 2 ^ 64" using fi_countsD(1) [of c f w sk] by simp
qed

lemma fi_counts_weaken:
  assumes "fi_counts c' f w sk" and "c \<le> c'"
  shows "fi_counts c f w sk"
proof -
  have "unat (fi_offset sk) * c \<le> unat (fi_offset sk) * c'" using assms(2) by simp
  then have "rp_total (fi_hash_map sk) + unat (fi_offset sk) * c \<le> w" using fi_countsD(3) [OF assms(1)] by linarith
  then show ?thesis using assms fi_countsD(2) [OF assms(1)] unfolding fi_counts_def by (meson order_trans)
qed

text \<open>The keys of the map are items of the stream.\<close>

lemma fi_keys:
  assumes "fi_shape enc sk" and "fi_counts c f w sk"
  shows "dom (rp_map (fi_hash_map sk)) \<subseteq> {k. 0 < f k}"
proof
  fix k
  assume "k \<in> dom (rp_map (fi_hash_map sk))"
  then obtain v where v: "rp_map (fi_hash_map sk) k = Some v" by blast
  have "0 < unat v" using fi_shapeD(8) [OF assms(1) v] by (simp add: word_less_nat_alt)
  then show "k \<in> {k. 0 < f k}" using fi_countsD(5) [OF assms(2) v] by simp
qed

lemma frequency_support: "{k. 0 < frequency stream k} \<subseteq> fst ` set stream"
proof
  fix k
  assume "k \<in> {k. 0 < frequency stream k}"
  then show "k \<in> fst ` set stream" by (induction stream) (auto split: if_splits)
qed

lemma update_with_count_ok:
  assumes shape: "fi_shape enc sk" and counts: "fi_counts c f w sk"
    and room: "w + unat count < 2 ^ 64" and c: "1 \<le> c"
    and items: "finite K" "{k. 0 < f k} \<subseteq> K" "item \<in> K"
  shows "may_drift (drift_possible (fi_lg_max_map_size sk) K) (update_with_count enc sk item count)
    (\<lambda>sk'. fi_shape enc sk' \<and> fi_lg_max_map_size sk' = fi_lg_max_map_size sk \<and>
       fi_counts c (f(item := f item + unat count)) (w + unat count) sk')"
proof (cases "count = 0")
  case True
  then show ?thesis using shape counts by (simp add: update_with_count_def may_drift_def)
next
  case False
  note S = fi_shapeD [OF shape] and C = fi_countsD [OF counts]
  let ?m = "fi_hash_map sk" and ?f = "f(item := f item + unat count)"
  have "rp_num_active ?m + 1 < length (rp_keys ?m)"
    using S(5,6) capacity_bounds(2) [OF S(2)] rp_threshold [OF S(1)] rp_ok_length [OF S(1)] by simp
  note put = rp_put_ok [OF S(1) this, of item count]
  have sum: "rp_total ?m + unat count < 2 ^ 64" using C(3) room by linarith
  have dom: "dom (rp_map ?m) \<subseteq> K" using fi_keys [OF shape counts] items(2) by blast
  have cap: "rp_num_active ?m \<le> map_capacity_for_lg (rp_lg_length ?m)" using S(5,6) rp_threshold [OF S(1)] by simp
  have drift: "drift_possible (fi_lg_max_map_size sk) K"
    if "rp_map ?m item = None \<and> DRIFT_LIMIT \<le> rp_num_active ?m + 1"
  proof (rule drift_possibleI)
    have "card (insert item (dom (rp_map ?m))) = rp_num_active ?m + 1"
      using that S(1) by (simp add: rp_ok_def card_insert_if domIff)
    then show "rp_num_active ?m + 1 \<le> card K"
      using card_mono [OF items(1), of "insert item (dom (rp_map ?m))"] dom items(3) by simp
  qed (use that cap S(3) in simp_all)
  have grown: "may_drift (drift_possible (fi_lg_max_map_size sk) K)
      (maybe_resize_or_purge enc (sk\<lparr>fi_stream_weight := fi_stream_weight sk + count, fi_hash_map := m\<rparr>))
      (\<lambda>sk'. fi_shape enc sk' \<and> fi_lg_max_map_size sk' = fi_lg_max_map_size sk \<and>
         fi_counts c ?f (w + unat count) sk')"
    if m: "rp_ok enc m" "rp_lg_length m = rp_lg_length ?m"
      "rp_map m = (rp_map ?m)(item \<mapsto> (case rp_map ?m item of None \<Rightarrow> count | Some v \<Rightarrow> v + count))" for m
  proof -
    note T = rp_total_put [OF m(3) sum]
    let ?sk = "sk\<lparr>fi_stream_weight := fi_stream_weight sk + count, fi_hash_map := m\<rparr>"
    have "card (dom (rp_map m)) \<le> card (dom (rp_map ?m)) + 1"
      unfolding m(3) by (simp add: card_insert_if)
    then have num: "rp_num_active m \<le> rp_num_active ?m + 1" using m(1) S(1) by (simp add: rp_ok_def)
    have pos: "0 < v" if "rp_map m k = Some v" for k v
    proof -
      have "unat (u + count) \<noteq> 0" if "rp_map ?m item = Some u" for u
        using T(2) [OF that] False by (simp add: unat_eq_0)
      then have "u + count \<noteq> 0" if "rp_map ?m item = Some u" for u using that by fastforce
      then show ?thesis
        using \<open>rp_map m k = Some v\<close> S(8) False unfolding m(3)
        by (auto simp: word_neq_0_conv [symmetric] split: option.splits if_splits)
    qed
    have "rp_load_threshold m = rp_load_threshold ?m"
      using rp_threshold [OF S(1)] rp_threshold [OF m(1)] m(2) by simp
    then have resized: "may_drift (DRIFT_LIMIT \<le> rp_num_active m) (maybe_resize_or_purge enc ?sk) (\<lambda>sk'. \<exists>delta. fi_shape enc sk' \<and>
        fi_lg_max_map_size sk' = fi_lg_max_map_size sk \<and> fi_stream_weight sk' = fi_stream_weight sk + count \<and>
        fi_offset sk' = fi_offset sk + delta \<and> rp_map (fi_hash_map sk') = lowered delta (rp_map m) \<and>
        rp_total (fi_hash_map sk') + unat delta * purge_share (fi_lg_max_map_size sk) \<le> rp_total m)"
      using maybe_resize_or_purge_ok [of enc ?sk] m(1,2) S num pos by simp
    have "dom (rp_map m) \<subseteq> K" using dom items(3) unfolding m(3) by auto
    then have "rp_num_active m \<le> card K" using m(1) items(1) by (simp add: rp_ok_def card_mono)
    then have drift: "drift_possible (fi_lg_max_map_size sk) K" if "DRIFT_LIMIT \<le> rp_num_active m"
      by (rule drift_possibleI [OF that]) (use num cap S(3) in simp_all)
    have post: "fi_counts c ?f (w + unat count) sk'"
      if sk': "fi_lg_max_map_size sk' = fi_lg_max_map_size sk" "fi_stream_weight sk' = fi_stream_weight sk + count"
        "fi_offset sk' = fi_offset sk + delta" "rp_map (fi_hash_map sk') = lowered delta (rp_map m)"
        "rp_total (fi_hash_map sk') + unat delta * purge_share (fi_lg_max_map_size sk) \<le> rp_total m" for sk' delta
    proof -
      have "unat delta * c \<le> unat delta * purge_share (fi_lg_max_map_size sk)" using C(2) by simp
      then have lost: "rp_total (fi_hash_map sk') + unat delta * c + unat (fi_offset sk) * c \<le> w + unat count"
        using sk'(5) T(1) C(3) by linarith
      have "unat delta \<le> unat delta * c" "unat (fi_offset sk) \<le> unat (fi_offset sk) * c" using c by simp_all
      then have "unat (fi_offset sk) + unat delta < 2 ^ 64" using lost room by linarith
      then have off: "unat (fi_offset sk') = unat (fi_offset sk) + unat delta"
        unfolding sk'(3) by (simp add: unat_plus_if')
      show "fi_counts c ?f (w + unat count) sk'"
        unfolding fi_counts_def
      proof (intro conjI allI)
        show "unat (fi_stream_weight sk') = w + unat count"
          using room C(1) unfolding sk'(2) by (simp add: unat_plus_if')
        show "c \<le> purge_share (fi_lg_max_map_size sk')" using C(2) sk'(1) by simp
        show "rp_total (fi_hash_map sk') + unat (fi_offset sk') * c \<le> w + unat count"
          using lost unfolding off by (simp add: add_mult_distrib)
        fix k
        have m_k: "case rp_map m k of None \<Rightarrow> ?f k \<le> unat (fi_offset sk)
            | Some v \<Rightarrow> unat v \<le> ?f k \<and> ?f k \<le> unat v + unat (fi_offset sk)"
          using C(4,5) [of k] C(4,5) [of item] T(2) unfolding m(3) by (auto split: option.splits)
        show "case rp_map (fi_hash_map sk') k of None \<Rightarrow> ?f k \<le> unat (fi_offset sk')
            | Some v \<Rightarrow> unat v \<le> ?f k \<and> ?f k \<le> unat v + unat (fi_offset sk')"
        proof (cases "rp_map m k")
          case None
          then show ?thesis using m_k unfolding sk'(4) off lowered_def by simp
        next
          case (Some v)
          then have v: "unat v \<le> ?f k" "?f k \<le> unat v + unat (fi_offset sk)" using m_k by simp_all
          show ?thesis
          proof (cases "delta < v")
            case True
            then have "unat (v - delta) = unat v - unat delta" "unat delta < unat v"
              by (simp_all add: unat_sub order_less_imp_le word_less_nat_alt)
            then show ?thesis using Some True v unfolding sk'(4) off lowered_def by simp
          next
            case False
            then have "unat v \<le> unat delta" by (simp add: word_le_nat_alt not_less)
            then show ?thesis using Some False v unfolding sk'(4) off lowered_def by simp
          qed
        qed
      qed
    qed
    show ?thesis by (rule may_drift_mono [OF resized]) (use drift post in auto)
  qed
  have run: "update_with_count enc sk item count = bind_res (adjust_or_put_value enc ?m item count) (\<lambda>m.
      maybe_resize_or_purge enc (sk\<lparr>fi_stream_weight := fi_stream_weight sk + count, fi_hash_map := m\<rparr>))"
    using False by (simp add: update_with_count_def)
  show ?thesis
    unfolding run
  proof (rule may_drift_bind)
    show "may_drift (drift_possible (fi_lg_max_map_size sk) K) (adjust_or_put_value enc ?m item count)
      (\<lambda>m. rp_ok enc m \<and> rp_lg_length m = rp_lg_length ?m \<and>
         rp_map m = (rp_map ?m)(item \<mapsto> (case rp_map ?m item of None \<Rightarrow> count | Some v \<Rightarrow> v + count)))"
      by (rule may_drift_mono [OF put drift]) simp_all
  qed (use grown in blast)
qed

definition update_stream ::
  "('k \<Rightarrow> u8 list list) \<Rightarrow> 'k frequent_items_sketch \<Rightarrow> ('k \<times> u64) list \<Rightarrow> 'k frequent_items_sketch res" where
  "update_stream enc sk stream = fold_res (\<lambda>sk (item, count). update_with_count enc sk item count) sk stream"

lemma update_stream_ok:
  "fi_shape enc sk \<Longrightarrow> fi_counts c f w sk \<Longrightarrow> w + stream_total stream < 2 ^ 64 \<Longrightarrow> 1 \<le> c \<Longrightarrow>
   finite K \<Longrightarrow> {k. 0 < f k} \<union> fst ` set stream \<subseteq> K \<Longrightarrow>
   may_drift (drift_possible (fi_lg_max_map_size sk) K) (update_stream enc sk stream)
     (\<lambda>sk'. fi_shape enc sk' \<and> fi_lg_max_map_size sk' = fi_lg_max_map_size sk \<and>
        fi_counts c (\<lambda>k. f k + frequency stream k) (w + stream_total stream) sk')"
proof (induction stream arbitrary: sk f w)
  case (Cons x stream)
  obtain item count where x: "x = (item, count)" by force
  have step: "may_drift (drift_possible (fi_lg_max_map_size sk) K) (update_with_count enc sk item count)
      (\<lambda>sk1. fi_shape enc sk1 \<and> fi_lg_max_map_size sk1 = fi_lg_max_map_size sk \<and>
         fi_counts c (f(item := f item + unat count)) (w + unat count) sk1)"
    by (rule update_with_count_ok [OF Cons.prems(1,2) _ Cons.prems(4,5)]) (use Cons.prems(3,6) in \<open>auto simp: x\<close>)
  have eq: "(\<lambda>k. (f(item := f item + unat count)) k + frequency stream k) = (\<lambda>k. f k + frequency (x # stream) k)"
    by (auto simp: x)
  have K: "{k. 0 < (f(item := f item + unat count)) k} \<union> fst ` set stream \<subseteq> K"
    using Cons.prems(6) by (auto simp: x)
  have "may_drift (drift_possible (fi_lg_max_map_size sk) K) (update_stream enc sk1 stream)
      (\<lambda>sk'. fi_shape enc sk' \<and> fi_lg_max_map_size sk' = fi_lg_max_map_size sk \<and>
         fi_counts c (\<lambda>k. f k + frequency (x # stream) k) (w + stream_total (x # stream)) sk')"
    if sk1: "fi_shape enc sk1 \<and> fi_lg_max_map_size sk1 = fi_lg_max_map_size sk \<and>
      fi_counts c (f(item := f item + unat count)) (w + unat count) sk1" for sk1
  proof -
    have w: "w + unat count + stream_total stream = w + stream_total (x # stream)" by (simp add: x)
    have sk1': "fi_shape enc sk1" "fi_lg_max_map_size sk1 = fi_lg_max_map_size sk"
      "fi_counts c (f(item := f item + unat count)) (w + unat count) sk1"
      using sk1 by blast+
    have "w + unat count + stream_total stream < 2 ^ 64" using Cons.prems(3) by (simp only: w)
    from Cons.IH [OF sk1'(1,3) this Cons.prems(4,5) K] show ?thesis unfolding eq w sk1'(2) .
  qed
  note may_drift_bind [OF step this]
  then show ?case by (simp add: x update_stream_def)
qed (simp add: update_stream_def may_drift_def)

section \<open>What the queries answer\<close>

definition fi_of_stream :: "('k \<Rightarrow> u8 list list) \<Rightarrow> nat \<Rightarrow> ('k \<times> u64) list \<Rightarrow> 'k frequent_items_sketch res" where
  "fi_of_stream enc lg stream = bind_res (fi_new (2 ^ lg)) (\<lambda>sk. update_stream enc sk stream)"

lemma purge_share_ge: "LG_MIN_MAP_SIZE \<le> lg \<Longrightarrow> 3 \<le> purge_share lg"
  using capacity_bounds(1) [of lg] by (simp add: purge_share_def SAMPLE_SIZE_def)

lemma fi_counts_empty:
  assumes "rp_map (fi_hash_map sk) = Map.empty" "fi_offset sk = 0" "fi_stream_weight sk = 0"
  shows "fi_counts (purge_share (fi_lg_max_map_size sk)) (\<lambda>_. 0) 0 sk"
  using assms by (simp add: fi_counts_def rp_total_def)

lemma fi_of_stream_ok:
  assumes "lg \<le> 30" and "stream_total stream < 2 ^ 64"
  shows "may_drift (drift_possible lg (fst ` set stream)) (fi_of_stream enc lg stream)
    (\<lambda>sk. fi_shape enc sk \<and> fi_lg_max_map_size sk = max lg 3 \<and>
       fi_counts (purge_share (max lg 3)) (frequency stream) (stream_total stream) sk)"
proof -
  obtain sk where sk: "fi_new (2 ^ lg) = Inr sk" "fi_shape enc sk" "fi_lg_max_map_size sk = max lg 3"
    "rp_map (fi_hash_map sk) = Map.empty" "fi_offset sk = 0" "fi_stream_weight sk = 0"
    using fi_new_ok [OF assms(1)] by blast
  have "fi_counts (purge_share (max lg 3)) (\<lambda>_. 0) 0 sk" using fi_counts_empty [OF sk(4-6)] sk(3) by simp
  moreover have "1 \<le> purge_share (max lg 3)" using purge_share_ge [of "max lg 3"] by (simp add: LG_MIN_MAP_SIZE_def)
  ultimately have "may_drift (drift_possible (max lg 3) (fst ` set stream)) (update_stream enc sk stream)
    (\<lambda>sk'. fi_shape enc sk' \<and> fi_lg_max_map_size sk' = max lg 3 \<and>
       fi_counts (purge_share (max lg 3)) (frequency stream) (stream_total stream) sk')"
    using update_stream_ok [OF sk(2), of "purge_share (max lg 3)" "\<lambda>_. 0" 0 stream "fst ` set stream"] assms(2) sk(3)
    by simp
  then show ?thesis
    unfolding fi_of_stream_def sk(1) bind_res_simps by (rule may_drift_mono) simp_all
qed

text \<open>
  The answers for an item: bounds around its frequency that the maximum error apart, and the upper
  bound as the estimate of a tracked item. Or every query of it trips the drift assertion.
\<close>

definition bounds_hold :: "('k \<Rightarrow> u8 list list) \<Rightarrow> 'k frequent_items_sketch \<Rightarrow> ('k \<Rightarrow> nat) \<Rightarrow> 'k \<Rightarrow> bool" where
  "bounds_hold enc sk f k \<longleftrightarrow>
     (\<exists>lb ub est. fi_lower_bound enc sk k = Inr lb \<and> fi_upper_bound enc sk k = Inr ub \<and>
        fi_estimate enc sk k = Inr est \<and> unat lb \<le> f k \<and> f k \<le> unat ub \<and>
        unat ub = unat lb + unat (maximum_error sk) \<and> est = (if lb = 0 then 0 else ub))"

definition query_drifts :: "('k \<Rightarrow> u8 list list) \<Rightarrow> 'k frequent_items_sketch \<Rightarrow> 'k \<Rightarrow> bool" where
  "query_drifts enc sk k \<longleftrightarrow> fi_lower_bound enc sk k = Inl drift_exceeded \<and>
     fi_upper_bound enc sk k = Inl drift_exceeded \<and> fi_estimate enc sk k = Inl drift_exceeded"

lemma fi_query_bounds:
  assumes "fi_shape enc sk" "fi_counts c f w sk" "1 \<le> c" and K: "finite K" "{k. 0 < f k} \<subseteq> K"
  shows "bounds_hold enc sk f k \<or>
    drift_possible (fi_lg_max_map_size sk) (insert k K) \<and> f k \<le> unat (maximum_error sk) \<and> query_drifts enc sk k"
proof -
  note S = fi_shapeD [OF assms(1)] and C = fi_countsD [OF assms(2)]
  let ?lb = "case rp_map (fi_hash_map sk) k of None \<Rightarrow> 0 | Some v \<Rightarrow> v"
  have "unat ?lb \<le> rp_total (fi_hash_map sk)" using rp_total_member [of "fi_hash_map sk" k] by (simp split: option.split)
  moreover have "unat (fi_offset sk) \<le> unat (fi_offset sk) * c" using assms(3) by simp
  moreover have "w < 2 ^ 64" by (rule fi_counts_weight [OF assms(2)])
  ultimately have "unat ?lb + unat (fi_offset sk) < 2 ^ 64" using C(3) by linarith
  then have ub: "unat (?lb + fi_offset sk) = unat ?lb + unat (fi_offset sk)" by (simp add: unat_plus_if')
  show ?thesis
    using rp_get_ok [OF S(1), of k]
  proof (cases rule: may_driftE)
    case (result v)
    then have "rp_get enc (fi_hash_map sk) k = Inr ?lb" by simp
    moreover have "unat ?lb \<le> f k \<and> f k \<le> unat ?lb + unat (fi_offset sk)"
      using C(4,5) [of k] by (simp split: option.split)
    ultimately have "bounds_hold enc sk f k"
      unfolding bounds_hold_def fi_lower_bound_def fi_upper_bound_def fi_estimate_def maximum_error_def
      using ub by (simp add: word_neq_0_conv [symmetric])
    then show ?thesis ..
  next
    case drift
    have "drift_possible (fi_lg_max_map_size sk) (insert k K)"
    proof (rule drift_possibleI)
      have "card (insert k (dom (rp_map (fi_hash_map sk)))) = rp_num_active (fi_hash_map sk) + 1"
        using drift(1) S(1) by (simp add: rp_ok_def card_insert_if domIff)
      moreover have "insert k (dom (rp_map (fi_hash_map sk))) \<subseteq> insert k K"
        using fi_keys [OF assms(1,2)] K(2) by blast
      ultimately show "rp_num_active (fi_hash_map sk) + 1 \<le> card (insert k K)"
        using card_mono [of "insert k K"] K(1) by (metis finite_insert)
    qed (use drift(1) S(3,5,6) rp_threshold [OF S(1)] in simp_all)
    moreover have "query_drifts enc sk k"
      unfolding query_drifts_def fi_lower_bound_def fi_upper_bound_def fi_estimate_def using drift(2) by simp
    ultimately show ?thesis using C(4) [of k] drift(1) by (simp add: maximum_error_def)
  qed
qed

text \<open>A tracked item has occurred.\<close>

lemma fi_counted_keys:
  assumes "fi_shape enc sk" "fi_counts c f w sk" "k \<in> set (map fst (active_entries (fi_hash_map sk)))"
  shows "0 < f k"
proof -
  obtain v where "(k, v) \<in> set (active_entries (fi_hash_map sk))" using assms(3) by auto
  then have v: "rp_map (fi_hash_map sk) k = Some v"
    using set_active_entries rp_map_iff rp_ok_slots [OF fi_shapeD(1) [OF assms(1)]] by metis
  then have "0 < unat v" using fi_shapeD(8) [OF assms(1) v] by (simp add: word_less_nat_alt)
  then show ?thesis using fi_countsD(5) [OF assms(2) v] by simp
qed

section \<open>Merging\<close>

lemma entries_counts:
  assumes "rp_ok enc m" and es: "set es = rp_set m" "distinct (map fst es)"
  shows "stream_total es = rp_total m"
    and "frequency es k = (case rp_map m k of None \<Rightarrow> 0 | Some v \<Rightarrow> unat v)"
proof -
  have sok: "slots_ok enc {} m" by (rule rp_ok_slots [OF assms(1)])
  have map: "map_of es = rp_map m"
    using rp_map_eqI [OF sok, of "map_of es"] es by simp
  have at: "rp_map m (fst e) = Some (snd e)" if "e \<in> set es" for e
    using es(2) that unfolding map [symmetric] by simp
  have "stream_total es = (\<Sum>e \<in> set es. unat (the (rp_map m (fst e))))"
    using es(2) at by (simp add: stream_total_def sum_list_distinct_conv_sum_set distinct_map split_beta)
  also have "\<dots> = (\<Sum>k \<in> fst ` set es. unat (the (rp_map m k)))"
    using es(2) by (simp add: sum.reindex distinct_map)
  also have "fst ` set es = dom (rp_map m)" unfolding map [symmetric] by (simp add: dom_map_of_conv_image_fst)
  finally show "stream_total es = rp_total m" by (simp add: rp_total_def)
  have "distinct (map fst es) \<Longrightarrow> frequency es k = (case map_of es k of None \<Rightarrow> 0 | Some v \<Rightarrow> unat v)" for es
  proof (induction es)
    case (Cons e es)
    have "frequency es k = 0" if "k \<notin> fst ` set es" for k
      using that by (induction es) auto
    moreover have "map_of es k = None" if "k \<notin> fst ` set es" using that by (simp add: map_of_eq_None_iff)
    ultimately show ?case using Cons by (cases e) (auto split: option.splits)
  qed simp
  then show "frequency es k = (case rp_map m k of None \<Rightarrow> 0 | Some v \<Rightarrow> unat v)" using es(2) map by simp
qed

lemma fi_merge_ok:
  assumes sk: "fi_shape enc sk" "fi_counts c f w sk" and other: "fi_shape enc other" "fi_counts c g v other"
    and room: "w + v < 2 ^ 64" and c: "1 \<le> c"
    and K: "finite K" "{k. 0 < f k} \<subseteq> K" "{k. 0 < g k} \<subseteq> K"
  shows "may_drift (drift_possible (fi_lg_max_map_size sk) K) (fi_merge enc sk other)
    (\<lambda>sk'. fi_shape enc sk' \<and> fi_lg_max_map_size sk' = fi_lg_max_map_size sk \<and>
       fi_counts c (\<lambda>k. f k + g k) (w + v) sk')"
proof (cases "is_initial_state other")
  case True
  note O = fi_countsD [OF other(2)] and S = fi_shapeD [OF other(1)]
  have "dom (rp_map (fi_hash_map other)) = {}" using True S(1) by (simp add: is_initial_state_def rp_ok_def)
  then have "g k = 0" for k using O(4) [of k] True by (simp add: is_initial_state_def)
  moreover have "v = 0" using O(1) True by (simp add: is_initial_state_def)
  ultimately show ?thesis using True sk by (simp add: fi_merge_def may_drift_def)
next
  case False
  note O = fi_countsD [OF other(2)] and S = fi_shapeD [OF other(1)] and C = fi_countsD [OF sk(2)]
  obtain es where es: "rp_iter (fi_hash_map other) = Inr es" "set es = rp_set (fi_hash_map other)" "distinct (map fst es)"
    using rp_iter_ok [OF S(1)] by blast
  note E = entries_counts [OF S(1) es(2,3)]
  have weight: "w + stream_total es < 2 ^ 64" using room O(3) E(1) by linarith
  have "fst ` set es = dom (rp_map (fi_hash_map other))"
    unfolding es(2) using rp_map_iff [OF rp_ok_slots [OF S(1)]] by force
  then have keys: "{k. 0 < f k} \<union> fst ` set es \<subseteq> K" using fi_keys [OF other] K(2,3) by blast
  let ?merged = "\<lambda>sk1. sk1\<lparr>fi_offset := fi_offset sk1 + fi_offset other,
    fi_stream_weight := fi_stream_weight sk + fi_stream_weight other\<rparr>"
  have run: "fi_merge enc sk other = bind_res (update_stream enc sk es) (\<lambda>sk1. Inr (?merged sk1))"
    using False es(1) by (simp add: fi_merge_def update_stream_def)
  have post: "fi_shape enc (?merged sk1) \<and> fi_lg_max_map_size (?merged sk1) = fi_lg_max_map_size sk \<and>
      fi_counts c (\<lambda>k. f k + g k) (w + v) (?merged sk1)"
    if sk1: "fi_shape enc sk1" "fi_lg_max_map_size sk1 = fi_lg_max_map_size sk"
      "fi_counts c (\<lambda>k. f k + frequency es k) (w + stream_total es) sk1" for sk1
  proof -
    note D = fi_countsD [OF sk1(3)]
    let ?sk = "?merged sk1"
    have paid: "rp_total (fi_hash_map sk1) + unat (fi_offset sk1) * c + unat (fi_offset other) * c \<le> w + v"
      using D(3) O(3) E(1) by linarith
    moreover have "unat (fi_offset sk1) \<le> unat (fi_offset sk1) * c" "unat (fi_offset other) \<le> unat (fi_offset other) * c"
      using c by simp_all
    ultimately have "unat (fi_offset sk1) + unat (fi_offset other) < 2 ^ 64" using room by linarith
    then have off: "unat (fi_offset sk1 + fi_offset other) = unat (fi_offset sk1) + unat (fi_offset other)"
      by (simp add: unat_plus_if')
    have "fi_counts c (\<lambda>k. f k + g k) (w + v) ?sk"
      unfolding fi_counts_def
    proof (intro conjI allI)
      show "unat (fi_stream_weight ?sk) = w + v" using room C(1) O(1) by (simp add: unat_plus_if')
      show "c \<le> purge_share (fi_lg_max_map_size ?sk)" using D(2) by simp
      show "rp_total (fi_hash_map ?sk) + unat (fi_offset ?sk) * c \<le> w + v"
        using paid off by (simp add: add_mult_distrib)
      fix k
      have "frequency es k \<le> g k" "g k \<le> frequency es k + unat (fi_offset other)"
        using O(4,5) [of k] unfolding E(2) by (simp_all split: option.split)
      then show "case rp_map (fi_hash_map ?sk) k of None \<Rightarrow> f k + g k \<le> unat (fi_offset ?sk)
          | Some v \<Rightarrow> unat v \<le> f k + g k \<and> f k + g k \<le> unat v + unat (fi_offset ?sk)"
        using D(4,5) [of k] off by (auto split: option.split)
    qed
    moreover have "fi_shape enc ?sk" using sk1(1) by (simp add: fi_shape_def)
    ultimately show ?thesis using sk1(2) by simp
  qed
  show ?thesis
    unfolding run
    by (rule may_drift_bind [OF update_stream_ok [OF sk weight c K(1) keys]])
      (elim conjE, rule may_driftI [OF refl], rule post)
qed

section \<open>Rows\<close>

lemma frequent_rows_ok:
  assumes shape: "fi_shape enc sk" and counts: "fi_counts c f w sk" and c: "1 \<le> c"
  shows "\<exists>rows. frequent_items_with_threshold sk et t = Inr rows \<and>
    sorted_wrt (\<lambda>a b. row_estimate b \<le> row_estimate a) rows \<and> distinct (map row_item rows) \<and>
    (\<forall>r \<in> set rows. unat (row_lower_bound r) \<le> f (row_item r) \<and> f (row_item r) \<le> unat (row_upper_bound r) \<and>
       row_estimate r = row_upper_bound r \<and>
       (et = NoFalsePositives \<longrightarrow> unat t < f (row_item r) \<and> maximum_error sk < row_lower_bound r)) \<and>
    (et = NoFalseNegatives \<longrightarrow> (\<forall>k. unat (max t (maximum_error sk)) < f k \<longrightarrow> k \<in> row_item ` set rows))"
proof -
  note S = fi_shapeD [OF shape] and C = fi_countsD [OF counts]
  let ?m = "fi_hash_map sk" and ?t = "max t (fi_offset sk)"
  have sok: "slots_ok enc {} ?m" by (rule rp_ok_slots [OF S(1)])
  obtain es where es: "rp_iter ?m = Inr es" "set es = rp_set ?m" "distinct (map fst es)"
    using rp_iter_ok [OF S(1)] by blast
  let ?P = "\<lambda>(item, count). case et of NoFalseNegatives \<Rightarrow> ?t < count + fi_offset sk | NoFalsePositives \<Rightarrow> ?t < count"
  let ?row = "\<lambda>(item, count). \<lparr>row_item = item, row_estimate = count + fi_offset sk,
    row_upper_bound = count + fi_offset sk, row_lower_bound = count\<rparr>"
  let ?rows = "sort_key (\<lambda>r. - uint (row_estimate r)) (map ?row (filter ?P es))"
  have run: "frequent_items_with_threshold sk et t = Inr ?rows"
    by (simp add: frequent_items_with_threshold_def Let_def es(1))
  have sorted: "sorted_wrt (\<lambda>a b. row_estimate b \<le> row_estimate a) ?rows"
    using sorted_sort_key [of "\<lambda>r. - uint (row_estimate r)" "map ?row (filter ?P es)"]
    by (simp add: sorted_map word_le_def)
  have "map row_item (map ?row (filter ?P es)) = map fst (filter ?P es)" by (simp add: split_beta)
  then have "distinct (map row_item (map ?row (filter ?P es)))" using distinct_map_filter [OF es(3)] by (simp only:)
  then have dist: "distinct (map row_item ?rows)"
    unfolding distinct_map [of row_item] distinct_sort set_sort .
  have at: "rp_map ?m k = Some v \<longleftrightarrow> (k, v) \<in> set es" for k v
    unfolding es(2) by (rule rp_map_iff [OF sok])
  have up: "unat (v + fi_offset sk) = unat v + unat (fi_offset sk)" if "rp_map ?m k = Some v" for k v
  proof -
    have "unat v \<le> rp_total ?m" by (rule rp_total_member [OF that])
    moreover have "unat (fi_offset sk) \<le> unat (fi_offset sk) * c" using c by simp
    moreover have "w < 2 ^ 64" by (rule fi_counts_weight [OF counts])
    ultimately have "unat v + unat (fi_offset sk) < 2 ^ 64" using C(3) by linarith
    then show ?thesis by (simp add: unat_plus_if')
  qed
  have rows: "unat (row_lower_bound r) \<le> f (row_item r) \<and> f (row_item r) \<le> unat (row_upper_bound r) \<and>
      row_estimate r = row_upper_bound r \<and>
      (et = NoFalsePositives \<longrightarrow> unat t < f (row_item r) \<and> maximum_error sk < row_lower_bound r)"
    if "r \<in> set ?rows" for r
  proof -
    have "r \<in> ?row ` {e \<in> set es. ?P e}" using that by simp
    then obtain e where "e \<in> set es" "?P e" "r = ?row e" by blast
    moreover obtain k v where "e = (k, v)" by force
    ultimately have kv: "(k, v) \<in> set es" "?P (k, v)" "r = ?row (k, v)" by simp_all
    then have v: "rp_map ?m k = Some v" using at by blast
    have "unat t < f k \<and> fi_offset sk < v" if "et = NoFalsePositives"
    proof -
      have "t < v" "fi_offset sk < v" using kv(2) that by simp_all
      then show ?thesis using C(5) [OF v] by (simp add: word_less_nat_alt)
    qed
    then show ?thesis using kv(3) C(5) [OF v] up [OF v] by (simp add: maximum_error_def)
  qed
  have neg: "k \<in> row_item ` set ?rows" if "et = NoFalseNegatives" "unat (max t (maximum_error sk)) < f k" for k
  proof (cases "rp_map ?m k")
    case None
    then have "f k \<le> unat (fi_offset sk)" by (rule C(4))
    moreover have "unat (fi_offset sk) \<le> unat ?t" by (simp add: word_le_nat_alt [symmetric])
    ultimately show ?thesis using that(2) by (simp add: maximum_error_def)
  next
    case (Some v)
    have "unat ?t < unat (v + fi_offset sk)"
      using that(2) C(5) [OF Some] up [OF Some] by (simp add: maximum_error_def)
    then have "?P (k, v)" using that(1) by (simp add: word_less_nat_alt)
    then have "?row (k, v) \<in> set ?rows" using Some at by auto
    then show ?thesis by (force simp: image_iff)
  qed
  show ?thesis using run sorted dist rows neg by blast
qed

section \<open>Round trip\<close>

text \<open>
  What a \<open>FrequentItemValue\<close> implementation owes the sketch: the bytes that \<open>serialize_value\<close>
  appends are read back as the item by \<open>deserialize_value\<close>, which stops behind them.
\<close>

locale item_value =
  fixes ser :: "sketch_bytes \<Rightarrow> 'k \<Rightarrow> sketch_bytes"
    and deser :: "sketch_slice \<Rightarrow> ('k \<times> sketch_slice) res"
    and item_bytes :: "'k \<Rightarrow> u8 list"
    and storable :: "'k \<Rightarrow> bool"
  assumes ser_bytes: "ser bytes x = bytes @ item_bytes x"
    and deser_bytes: "storable x \<Longrightarrow> remaining s = item_bytes x @ rest \<Longrightarrow>
      deser s = Inr (x, advance (length (item_bytes x)) s)"
begin

lemma ser_many: "foldl ser bytes xs = bytes @ concat (map item_bytes xs)"
  by (induction xs arbitrary: bytes) (simp_all add: ser_bytes)

lemma deser_many:
  "list_all storable xs \<Longrightarrow> remaining s = concat (map item_bytes xs) @ rest \<Longrightarrow>
   deserialize_items deser s (length xs) = Inr xs"
proof (induction xs arbitrary: s)
  case (Cons x xs)
  then show ?case
    using deser_bytes [of x s "concat (map item_bytes xs) @ rest"]
      Cons.IH [of "advance (length (item_bytes x)) s"]
    by simp
qed simp

end

text \<open>Adding entries with room for all of them neither grows nor purges.\<close>

lemma update_plain:
  "fi_shape enc sk \<Longrightarrow> distinct (map fst es) \<Longrightarrow> fst ` set es \<inter> dom (rp_map (fi_hash_map sk)) = {} \<Longrightarrow>
   \<forall>e \<in> set es. 0 < snd e \<Longrightarrow> rp_num_active (fi_hash_map sk) + length es \<le> fi_cur_map_cap sk \<Longrightarrow>
   may_drift (DRIFT_LIMIT \<le> rp_num_active (fi_hash_map sk) + length es)
     (fold_res (\<lambda>sk (item, v). update_with_count enc sk item v) sk es)
     (\<lambda>sk'. fi_shape enc sk' \<and> rp_map (fi_hash_map sk') = rp_map (fi_hash_map sk) ++ map_of es \<and>
        fi_lg_max_map_size sk' = fi_lg_max_map_size sk \<and>
        rp_lg_length (fi_hash_map sk') = rp_lg_length (fi_hash_map sk))"
proof (induction es arbitrary: sk)
  case (Cons e es)
  obtain k v where e: "e = (k, v)" by force
  note S = fi_shapeD [OF Cons.prems(1)]
  let ?m = "fi_hash_map sk"
  have none: "rp_map ?m k = None" using Cons.prems(3) by (auto simp: e)
  have v: "0 < v" "v \<noteq> 0" using Cons.prems(4) by (auto simp: e)
  have "rp_num_active ?m + 1 < length (rp_keys ?m)"
    using S(5,6) capacity_bounds(2) [OF S(2)] rp_threshold [OF S(1)] rp_ok_length [OF S(1)] by simp
  note put = put_new [OF S(1) none this, of v]
  let ?C = "DRIFT_LIMIT \<le> rp_num_active ?m + length (e # es)"
  let ?P = "\<lambda>sk'. fi_shape enc sk' \<and> rp_map (fi_hash_map sk') = rp_map ?m ++ map_of (e # es) \<and>
    fi_lg_max_map_size sk' = fi_lg_max_map_size sk \<and> rp_lg_length (fi_hash_map sk') = rp_lg_length ?m"
  show ?case
    using put
  proof (cases rule: may_driftE)
    case drift
    then have "update_with_count enc sk k v = Inl drift_exceeded"
      using v(2) by (simp add: update_with_count_def Let_def)
    then show ?thesis using drift(1) by (intro may_drift_panic) (simp_all add: e)
  next
    case (result m)
    then have m: "adjust_or_put_value enc ?m k v = Inr m" "rp_ok enc m"
      "rp_map m = (rp_map ?m)(k \<mapsto> v)" "rp_lg_length m = rp_lg_length ?m"
      by blast+
    have num: "rp_num_active m = rp_num_active ?m + 1"
      using m(2,3) S(1) none by (simp add: rp_ok_def card_insert_if domIff)
    let ?sk = "sk\<lparr>fi_stream_weight := fi_stream_weight sk + v, fi_hash_map := m\<rparr>"
    have step: "update_with_count enc sk k v = Inr ?sk"
      using v(2) m(1) num Cons.prems(5) by (simp add: update_with_count_def Let_def maybe_resize_or_purge_def)
    have thr: "rp_load_threshold m = rp_load_threshold ?m"
      using rp_threshold [OF S(1)] rp_threshold [OF m(2)] m(4) by simp
    have pos: "0 < u" if "rp_map m k' = Some u" for k' u
      using that v(1) S(8) unfolding m(3) by (auto split: if_splits)
    have shape: "fi_shape enc ?sk" using S m(2,4) thr num Cons.prems(5) pos by (simp add: fi_shape_def)
    have "distinct (map fst es)" "fst ` set es \<inter> dom (rp_map (fi_hash_map ?sk)) = {}"
      "\<forall>e \<in> set es. 0 < snd e" "rp_num_active (fi_hash_map ?sk) + length es \<le> fi_cur_map_cap ?sk"
      using Cons.prems(2-5) m(3) num by (auto simp: e)
    then have rest: "may_drift ?C (fold_res (\<lambda>sk (item, v). update_with_count enc sk item v) ?sk es)
        (\<lambda>sk'. fi_shape enc sk' \<and> rp_map (fi_hash_map sk') = rp_map m ++ map_of es \<and>
           fi_lg_max_map_size sk' = fi_lg_max_map_size sk \<and> rp_lg_length (fi_hash_map sk') = rp_lg_length ?m)"
      using Cons.IH [OF shape] m(4) num by simp
    have "k \<notin> dom (map_of es)" using Cons.prems(2) by (simp add: e dom_map_of_conv_image_fst)
    then have map: "rp_map m ++ map_of es = rp_map ?m ++ map_of (e # es)"
      unfolding m(3) e
      by (intro ext) (rename_tac x, case_tac "x = k", simp_all add: map_add_def domIff split: option.split)
    have "fold_res (\<lambda>sk (item, v). update_with_count enc sk item v) sk (e # es) =
        fold_res (\<lambda>sk (item, v). update_with_count enc sk item v) ?sk es"
      using step by (simp add: e)
    then show ?thesis using rest unfolding map by (simp only:)
  qed
qed (simp add: map_add_def may_drift_def)

text \<open>The item types of \<open>serialization.rs\<close>\<close>

definition u64_hash :: "u64 \<Rightarrow> u8 list list" where
  "u64_hash item = [to_le_bytes item]"

definition u64_serialize_value :: "sketch_bytes \<Rightarrow> u64 \<Rightarrow> sketch_bytes" where
  "u64_serialize_value bytes item = write_u64_le bytes item"

definition u64_deserialize_value :: "sketch_slice \<Rightarrow> (u64 \<times> sketch_slice) res" where
  "u64_deserialize_value cursor = insufficient_data ''failed to read u64 item bytes'' (read_u64_le cursor)"

text \<open>A \<open>String\<close> is its UTF-8 bytes; \<open>utf8\<close> is the check of \<open>String::from_utf8\<close>.\<close>

definition string_hash :: "u8 list \<Rightarrow> u8 list list" where
  "string_hash item = [item, [255]]"

definition string_serialize_value :: "sketch_bytes \<Rightarrow> u8 list \<Rightarrow> sketch_bytes" where
  "string_serialize_value bytes item = write_bytes (write_u32_le bytes (of_nat (length item))) item"

definition string_deserialize_value ::
  "(u8 list \<Rightarrow> bool) \<Rightarrow> sketch_slice \<Rightarrow> (u8 list \<times> sketch_slice) res" where
  "string_deserialize_value utf8 cursor =
     bind_res (insufficient_data ''failed to read string item length'' (read_u32_le cursor)) (\<lambda>(len, cursor).
     bind_res (insufficient_data ''failed to read string item bytes'' (read_exact (unat len) cursor)) (\<lambda>(slice, cursor).
       if utf8 slice then Inr (slice, cursor) else Inl (InvalidData ''invalid UTF-8 string payload'')))"

interpretation u64_item: item_value u64_serialize_value u64_deserialize_value to_le_bytes "\<lambda>_. True"
proof
  show "u64_serialize_value bytes x = bytes @ to_le_bytes x" for bytes x
    unfolding u64_serialize_value_def by (rule u64_le_codec.wr_enc)
  show "u64_deserialize_value s = Inr (x, advance (length (to_le_bytes x)) s)"
    if "remaining s = to_le_bytes x @ rest" for s x rest
    using u64_le_codec.rd_enc [OF that] by (simp add: u64_deserialize_value_def)
qed

interpretation string_item: item_value string_serialize_value "string_deserialize_value utf8"
  "\<lambda>x. to_le_bytes (of_nat (length x) :: u32) @ x" "\<lambda>x. utf8 x \<and> length x < 2 ^ 32"
  for utf8
proof
  show "string_serialize_value bytes x = bytes @ to_le_bytes (of_nat (length x) :: u32) @ x" for bytes x
    by (simp add: string_serialize_value_def u32_le_codec.wr_enc write_bytes_def)
  show "string_deserialize_value utf8 s =
      Inr (x, advance (length (to_le_bytes (of_nat (length x) :: u32) @ x)) s)"
    if "utf8 x \<and> length x < 2 ^ 32" "remaining s = (to_le_bytes (of_nat (length x) :: u32) @ x) @ rest" for s x rest
  proof -
    have len: "unat (of_nat (length x) :: u32) = length x" using that(1) by (simp add: unat_of_nat)
    have "read_u32_le s = Some (of_nat (length x), advance 4 s)"
      by (rule u32_le_codec.rd_enc [where rest = "x @ rest"]) (use that(2) in simp)
    moreover have "read_exact (length x) (advance 4 s) = Some (x, advance (length x) (advance 4 s))"
      by (rule read_exact_enough [where rest = rest]) (use that(2) in simp_all)
    ultimately show ?thesis using that(1) by (simp add: string_deserialize_value_def len)
  qed
qed

text \<open>
  The same answers to every query, but that the search for an item that neither sketch tracks may
  drift too far in one of the two tables, which store the same entries in different slots.
\<close>

definition fi_same_answers ::
  "('k \<Rightarrow> u8 list list) \<Rightarrow> 'k frequent_items_sketch \<Rightarrow> 'k frequent_items_sketch \<Rightarrow> bool" where
  "fi_same_answers enc sk' sk \<longleftrightarrow>
     fi_stream_weight sk' = fi_stream_weight sk \<and> maximum_error sk' = maximum_error sk \<and>
     fi_lg_max_map_size sk' = fi_lg_max_map_size sk \<and>
     (\<forall>k. (fi_lower_bound enc sk' k = fi_lower_bound enc sk k \<and>
           fi_upper_bound enc sk' k = fi_upper_bound enc sk k \<and> fi_estimate enc sk' k = fi_estimate enc sk k) \<or>
          DRIFT_LIMIT \<le> rp_num_active (fi_hash_map sk) + 1 \<and> rp_map (fi_hash_map sk) k = None \<and>
          (query_drifts enc sk' k \<or> query_drifts enc sk k))"

context item_value
begin

lemma fi_round_trip:
  assumes shape: "fi_shape enc sk" and store: "list_all storable (map fst (active_entries (fi_hash_map sk)))"
  shows "may_drift (DRIFT_LIMIT \<le> rp_num_active (fi_hash_map sk)) (fi_deserialize enc deser (fi_serialize ser sk))
    (\<lambda>sk'. fi_shape enc sk' \<and>
       rp_map (fi_hash_map sk') = rp_map (fi_hash_map sk) \<and> fi_offset sk' = fi_offset sk \<and>
       fi_stream_weight sk' = fi_stream_weight sk \<and> fi_lg_max_map_size sk' = fi_lg_max_map_size sk)"
proof (cases "is_initial_state sk")
  case True
  note S = fi_shapeD [OF shape]
  let ?m = "fi_hash_map sk"
  have lg: "fi_lg_max_map_size sk < 256" "rp_lg_length ?m < 256" using S(3,4) by simp_all
  have u: "unat (of_nat (fi_lg_max_map_size sk) :: u8) = fi_lg_max_map_size sk"
    "unat (of_nat (rp_lg_length ?m) :: u8) = rp_lg_length ?m"
    using lg by (simp_all add: unat_of_nat)
  have bytes: "fi_serialize ser sk = [1, 1, 10, of_nat (fi_lg_max_map_size sk), of_nat (rp_lg_length ?m), 5, 0, 0]"
    using True by (simp add: fi_serialize_def Let_def FI_PREAMBLE_LONGS_EMPTY_def FI_SERIAL_VERSION_def
        FI_EMPTY_FLAG_MASK_def family_frequency_def with_capacity_def into_bytes_def write_u8_def
        write_u16_le_def write_bytes_def to_le_bytes_def numeral_2_eq_2)
  have valid: "validate_lg_map_sizes (of_nat (fi_lg_max_map_size sk)) (of_nat (rp_lg_length ?m)) = Inr ()"
    using S(2,3,4) u by (simp add: validate_lg_map_sizes_def LG_MAX_MAP_SIZE_def word_less_nat_alt)
  obtain sk' where sk': "with_lg_map_sizes (fi_lg_max_map_size sk) LG_MIN_MAP_SIZE = Inr sk'" "fi_shape enc sk'"
    "fi_lg_max_map_size sk' = fi_lg_max_map_size sk" "rp_map (fi_hash_map sk') = Map.empty"
    "fi_offset sk' = 0" "fi_stream_weight sk' = 0"
    using with_lg_map_sizes_ok [of LG_MIN_MAP_SIZE "fi_lg_max_map_size sk" enc] S(2,3,4) by auto
  have "fi_deserialize enc deser (fi_serialize ser sk) = Inr sk'"
    unfolding bytes fi_deserialize_def
    by (simp add: Let_def cursor_reads valid u sk'(1) validate_id_def family_frequency_def
        ensure_serial_version_is_def FI_SERIAL_VERSION_def FI_EMPTY_FLAG_MASK_def
        ensure_preamble_longs_in_def FI_PREAMBLE_LONGS_EMPTY_def)
  moreover have "rp_map ?m = Map.empty" using True S(1) by (simp add: is_initial_state_def rp_ok_def)
  ultimately show ?thesis using sk' True by (simp add: is_initial_state_def may_drift_def)
next
  case False
  note S = fi_shapeD [OF shape]
  let ?m = "fi_hash_map sk" and ?es = "active_entries (fi_hash_map sk)"
  have sok: "slots_ok enc {} ?m" by (rule rp_ok_slots [OF S(1)])
  have n: "length ?es = rp_num_active ?m" using length_active_entries [OF sok] S(1) by (simp add: rp_ok_def)
  have cap: "rp_num_active ?m \<le> map_capacity_for_lg (rp_lg_length ?m)" using S(5,6) rp_threshold [OF S(1)] by simp
  have lg: "fi_lg_max_map_size sk < 256" "rp_lg_length ?m < 256" using S(3,4) by simp_all
  have u: "unat (of_nat (fi_lg_max_map_size sk) :: u8) = fi_lg_max_map_size sk"
    "unat (of_nat (rp_lg_length ?m) :: u8) = rp_lg_length ?m"
    using lg by (simp_all add: unat_of_nat)
  have "map_capacity_for_lg (rp_lg_length ?m) \<le> map_capacity_for_lg 30"
    by (rule capacity_mono) (use S(3,4) in simp)
  then have n32: "unat (of_nat (rp_num_active ?m) :: u32) = rp_num_active ?m"
    using cap by (simp add: unat_of_nat map_capacity_for_lg_def)
  have valid: "validate_lg_map_sizes (of_nat (fi_lg_max_map_size sk)) (of_nat (rp_lg_length ?m)) = Inr ()"
    using S(2,3,4) u by (simp add: validate_lg_map_sizes_def LG_MAX_MAP_SIZE_def word_less_nat_alt)
  let ?vs = "concat (map to_le_bytes (map snd ?es))" and ?ks = "concat (map item_bytes (map fst ?es))"
  define bytes where "bytes = [4, 1, 10, of_nat (fi_lg_max_map_size sk), of_nat (rp_lg_length ?m), 0, 0, 0] @
    to_le_bytes (of_nat (rp_num_active ?m) :: u32) @ to_le_bytes (0 :: u32) @
    to_le_bytes (fi_stream_weight sk) @ to_le_bytes (fi_offset sk) @ ?vs @ ?ks"
  have bytes: "fi_serialize ser sk = bytes"
    using False unfolding fi_serialize_def Let_def u64_le_codec.wr_many ser_many
    by (simp add: bytes_def FI_PREAMBLE_LONGS_NONEMPTY_def FI_SERIAL_VERSION_def
        family_frequency_def with_capacity_def into_bytes_def write_u8_def u32_le_codec.wr_enc u64_le_codec.wr_enc
        u16_le_codec.wr_enc write_bytes_def to_le_bytes_def [of "0 :: u16"] numeral_2_eq_2)
  let ?s = "\<lambda>k. advance k (new_slice bytes)"
  have len: "length bytes = 32 + 8 * rp_num_active ?m + length ?ks"
    using u64_le_codec.length_wr_many [of "map snd ?es"] n by (simp add: bytes_def)
  have vl: "length ?vs = rp_num_active ?m * 8"
    using u64_le_codec.length_wr_many [of "map snd ?es"] n by simp
  have fields: "take 4 (drop 8 bytes) = to_le_bytes (of_nat (rp_num_active ?m) :: u32)"
    "take 8 (drop 16 bytes) = to_le_bytes (fi_stream_weight sk)"
    "take 8 (drop 24 bytes) = to_le_bytes (fi_offset sk)" "drop 32 bytes = ?vs @ ?ks"
    by (simp_all add: bytes_def)
  have hdr: "bytes ! 0 = 4" "bytes ! 1 = 1" "bytes ! 2 = 10" "bytes ! 3 = of_nat (fi_lg_max_map_size sk)"
    "bytes ! 4 = of_nat (rp_lg_length ?m)" "bytes ! 5 = 0"
    by (simp_all add: bytes_def)
  have rd8: "read_u8 (?s k) = Some (bytes ! k, ?s (Suc k))" if "k < 32" for k
    using that len by (simp add: read_u8_at)
  have rd: "read_u8 (new_slice bytes) = Some (4, ?s 1)" "read_u8 (?s 1) = Some (1, ?s 2)"
    "read_u8 (?s 2) = Some (10, ?s 3)" "read_u8 (?s 3) = Some (of_nat (fi_lg_max_map_size sk), ?s 4)"
    "read_u8 (?s 4) = Some (of_nat (rp_lg_length ?m), ?s 5)" "read_u8 (?s 5) = Some (0, ?s 6)"
    using rd8 [of 0] rd8 [of 1, unfolded Suc_1] rd8 [of 2] rd8 [of 3] rd8 [of 4] rd8 [of 5] hdr by simp_all
  have vals: "read_many read_u64_le (rp_num_active ?m) (?s 32) = Some (map snd ?es, ?s (32 + 8 * rp_num_active ?m))"
    using u64_le_codec.rd_many [of "?s 32" "map snd ?es" ?ks] fields(4) n by simp
  have "remaining (?s (32 + 8 * rp_num_active ?m)) = ?ks @ []"
    using u64_le_codec.length_wr_many [of "map snd ?es"] n fields(4)
    by (simp add: drop_drop [symmetric] add.commute [of 32])
  then have keys: "deserialize_items deser (?s (32 + 8 * rp_num_active ?m)) (rp_num_active ?m) = Inr (map fst ?es)"
    using deser_many [OF store, of _ "[]"] n by simp
  obtain sk0 where sk0: "with_lg_map_sizes (fi_lg_max_map_size sk) (rp_lg_length ?m) = Inr sk0" "fi_shape enc sk0"
    "fi_lg_max_map_size sk0 = fi_lg_max_map_size sk" "rp_lg_length (fi_hash_map sk0) = rp_lg_length ?m"
    "rp_map (fi_hash_map sk0) = Map.empty" "rp_num_active (fi_hash_map sk0) = 0"
    using with_lg_map_sizes_ok [OF S(2,3,4), of enc] by blast
  have "fi_cur_map_cap sk0 = map_capacity_for_lg (rp_lg_length ?m)"
    using fi_shapeD(1,5) [OF sk0(2)] rp_threshold sk0(4) by metis
  moreover have "\<forall>e \<in> set ?es. 0 < snd e"
    using S(8) rp_map_iff [OF sok] unfolding set_active_entries [OF sok] by force
  ultimately have refill: "may_drift (DRIFT_LIMIT \<le> rp_num_active ?m)
      (fold_res (\<lambda>sk (item, v). update_with_count enc sk item v) sk0 ?es)
      (\<lambda>sk1. fi_shape enc sk1 \<and> rp_map (fi_hash_map sk1) = map_of ?es \<and>
         fi_lg_max_map_size sk1 = fi_lg_max_map_size sk)"
    using update_plain [OF sk0(2) distinct_active_entries [OF sok]] sk0(3,5,6) n cap
    by (auto elim: may_drift_mono)
  have zip: "zip (map fst ?es) (map snd ?es) = ?es" by (rule zip_map_fst_snd)
  let ?sk = "\<lambda>sk1. sk1\<lparr>fi_stream_weight := fi_stream_weight sk, fi_offset := fi_offset sk\<rparr>"
  have run: "fi_deserialize enc deser bytes =
      bind_res (fold_res (\<lambda>sk (item, v). update_with_count enc sk item v) sk0 ?es) (\<lambda>sk1. Inr (?sk sk1))"
    using rd len vl vals keys sk0(1) cap [unfolded not_less [symmetric]] unfolding fi_deserialize_def
    by (simp add: Let_def hdr valid u n32 cap zip fields read_u16_le_at read_u32_le_at read_u64_le_at
        validate_id_def family_frequency_def ensure_serial_version_is_def FI_SERIAL_VERSION_def
        ensure_preamble_longs_in_def FI_PREAMBLE_LONGS_NONEMPTY_def n del: map_snd_zip)
  have shape': "fi_shape enc (?sk sk1)" if "fi_shape enc sk1" for sk1 using that by (simp add: fi_shape_def)
  show ?thesis
    unfolding bytes run
    by (rule may_drift_bind [OF refill], rule may_driftI [OF refl]) (simp add: shape' rp_map_def [of ?m])
qed

lemma fi_round_trip_answers:
  assumes "fi_shape enc sk" and "list_all storable (map fst (active_entries (fi_hash_map sk)))"
  shows "may_drift (DRIFT_LIMIT \<le> rp_num_active (fi_hash_map sk)) (fi_deserialize enc deser (fi_serialize ser sk))
    (\<lambda>sk'. fi_same_answers enc sk' sk)"
proof (rule may_drift_mono [OF fi_round_trip [OF assms]])
  fix sk'
  assume "fi_shape enc sk' \<and> rp_map (fi_hash_map sk') = rp_map (fi_hash_map sk) \<and> fi_offset sk' = fi_offset sk \<and>
    fi_stream_weight sk' = fi_stream_weight sk \<and> fi_lg_max_map_size sk' = fi_lg_max_map_size sk"
  then have sk': "fi_shape enc sk'" "rp_map (fi_hash_map sk') = rp_map (fi_hash_map sk)"
    "fi_offset sk' = fi_offset sk" "fi_stream_weight sk' = fi_stream_weight sk"
    "fi_lg_max_map_size sk' = fi_lg_max_map_size sk"
    by blast+
  note G = rp_get_ok [OF fi_shapeD(1) [OF sk'(1)]] rp_get_ok [OF fi_shapeD(1) [OF assms(1)]]
  have num: "rp_num_active (fi_hash_map sk') = rp_num_active (fi_hash_map sk)"
    using fi_shapeD(1) [OF sk'(1)] fi_shapeD(1) [OF assms(1)] sk'(2) by (simp add: rp_ok_def)
  have get: "rp_get enc (fi_hash_map sk') k = rp_get enc (fi_hash_map sk) k \<or>
      DRIFT_LIMIT \<le> rp_num_active (fi_hash_map sk) + 1 \<and> rp_map (fi_hash_map sk) k = None \<and>
      (rp_get enc (fi_hash_map sk') k = Inl drift_exceeded \<or> rp_get enc (fi_hash_map sk) k = Inl drift_exceeded)" for k
    using G [of k] unfolding may_drift_def sk'(2) num by metis
  have drifts: "query_drifts enc s k" if "rp_get enc (fi_hash_map s) k = Inl drift_exceeded" for s k
    using that by (simp add: query_drifts_def fi_lower_bound_def fi_upper_bound_def fi_estimate_def)
  have same: "fi_lower_bound enc sk' k = fi_lower_bound enc sk k \<and> fi_upper_bound enc sk' k = fi_upper_bound enc sk k \<and>
      fi_estimate enc sk' k = fi_estimate enc sk k"
    if "rp_get enc (fi_hash_map sk') k = rp_get enc (fi_hash_map sk) k" for k
    unfolding fi_lower_bound_def fi_upper_bound_def fi_estimate_def that sk'(3) by simp
  show "fi_same_answers enc sk' sk"
    unfolding fi_same_answers_def maximum_error_def sk'(3-5) using get drifts same by blast
qed

end

section \<open>The guarantees\<close>

text \<open>
  C4. The frequency guarantees, for every stream of updates of total weight below \<open>2 ^ 64\<close> and every
  maximum map size of the code, up to \<open>2 ^ 30\<close> slots: the total weight is exact, and for every item
  the lower bound is at most its true frequency, the upper bound is at least that, and the two differ
  by exactly the maximum error; the estimate is the upper bound for a tracked item and zero otherwise.
  The only failure, of an update or of the query of an item no more frequent than the maximum error,
  is the debug assertion on the drift of a search, and it needs a map of at least \<open>2 ^ 11\<close> slots and
  1024 distinct items: with fewer slots or fewer items nothing panics, whatever the hash function.
\<close>

theorem frequent_items_bounds:
  assumes "lg \<le> 30" and "stream_total stream < 2 ^ 64"
  shows "(\<exists>sk. fi_of_stream enc lg stream = Inr sk \<and> unat (fi_stream_weight sk) = stream_total stream \<and>
      (\<forall>k. bounds_hold enc sk (frequency stream) k \<or>
         drift_possible lg (insert k (fst ` set stream)) \<and> frequency stream k \<le> unat (maximum_error sk) \<and>
         query_drifts enc sk k)) \<or>
    drift_possible lg (fst ` set stream) \<and> fi_of_stream enc lg stream = Inl drift_exceeded"
  using fi_of_stream_ok [OF assms, of enc]
proof (cases rule: may_driftE)
  case (result sk)
  have "1 \<le> purge_share (max lg 3)" using purge_share_ge [of "max lg 3"] by (simp add: LG_MIN_MAP_SIZE_def)
  then have "bounds_hold enc sk (frequency stream) k \<or>
      drift_possible lg (insert k (fst ` set stream)) \<and> frequency stream k \<le> unat (maximum_error sk) \<and>
      query_drifts enc sk k" for k
    using fi_query_bounds [of enc sk _ "frequency stream" _ "fst ` set stream" k] result(2) frequency_support [of stream]
    by auto
  moreover have "unat (fi_stream_weight sk) = stream_total stream" using fi_countsD(1) result(2) by blast
  ultimately show ?thesis using result(1) by blast
qed simp

theorem frequent_items_bounds_witness:
  "\<exists>sk. fi_of_stream u64_hash 3 [(7, 5), (8, 2), (7, 1)] = Inr sk \<and> unat (fi_stream_weight sk) = 8 \<and>
    (\<exists>lb ub. fi_lower_bound u64_hash sk 7 = Inr lb \<and> fi_upper_bound u64_hash sk 7 = Inr ub \<and> unat lb \<le> 6 \<and> 6 \<le> unat ub)"
  using frequent_items_bounds [of 3 "[(7, 5), (8, 2), (7, 1)]" u64_hash]
  by (auto simp: drift_possible_def bounds_hold_def dest: spec [of _ 7])

text \<open>
  The a-priori error: the maximum error, taken \<open>L - L div 2\<close> times, is at most the weight of the
  stream, where \<open>L\<close> is the sample size of a purge, \<open>min 1024 (3/4 * 2 ^ lg)\<close>. For maps of up to
  \<open>2 ^ 10\<close> slots, where the sample holds a full map, this is within \<open>3.5 / 2 ^ lg\<close> of the weight, the
  epsilon that the sketch reports.
\<close>

theorem frequent_items_apriori_error:
  assumes "3 \<le> lg" and "lg \<le> 30" and "stream_total stream < 2 ^ 64"
    and "L = min SAMPLE_SIZE (map_capacity_for_lg lg)"
    and sk: "fi_of_stream enc lg stream = Inr sk"
  shows "unat (maximum_error sk) * (L - L div 2) \<le> stream_total stream \<and>
    (lg \<le> 10 \<longrightarrow> 2 * 2 ^ lg * unat (maximum_error sk) \<le> 7 * stream_total stream)"
proof -
  have lg: "max lg 3 = lg" using assms(1) by simp
  have "fi_counts (purge_share lg) (frequency stream) (stream_total stream) sk"
    using fi_of_stream_ok [OF assms(2,3), of enc] sk unfolding lg may_drift_def by auto
  note C = fi_countsD [OF this]
  have L: "unat (maximum_error sk) * (L - L div 2) \<le> stream_total stream"
    using C(3) assms(4) by (simp add: purge_share_def maximum_error_def)
  have "2 * 2 ^ lg * unat (maximum_error sk) \<le> 7 * stream_total stream" if "lg \<le> 10"
  proof -
    obtain d where d: "lg = 3 + d" using assms(1) le_Suc_ex by blast
    have cap: "map_capacity_for_lg lg = 6 * 2 ^ d" by (simp add: map_capacity_for_lg_def d power_add)
    have "(2 :: nat) ^ d \<le> 2 ^ 7" using that d by (intro power_increasing) simp_all
    then have "L = 6 * 2 ^ d" unfolding assms(4) cap SAMPLE_SIZE_def by simp
    then have "L - L div 2 = 3 * 2 ^ d" by simp
    then have "3 * 2 ^ d * unat (maximum_error sk) \<le> stream_total stream" using L by (simp add: mult.commute)
    then have "7 * (3 * 2 ^ d * unat (maximum_error sk)) \<le> 7 * stream_total stream" by (rule mult_le_mono2)
    moreover have "2 * 2 ^ lg * unat (maximum_error sk) \<le> 7 * (3 * 2 ^ d * unat (maximum_error sk))"
      by (simp add: d power_add)
    ultimately show ?thesis by linarith
  qed
  then show ?thesis using L by blast
qed

theorem frequent_items_apriori_error_witness:
  "\<exists>sk. fi_of_stream u64_hash 3 [(7, 5)] = Inr sk \<and> unat (maximum_error sk) * 3 \<le> 5"
proof -
  have L: "(6 :: nat) = min SAMPLE_SIZE (map_capacity_for_lg 3)"
    by (simp add: SAMPLE_SIZE_def map_capacity_for_lg_def)
  obtain sk where sk: "fi_of_stream u64_hash 3 [(7, 5)] = Inr sk"
    using fi_of_stream_ok [of 3 "[(7, 5)]" u64_hash] by (auto simp: drift_possible_def may_drift_def)
  then show ?thesis
    using frequent_items_apriori_error [OF _ _ _ L sk] by auto
qed

text \<open>
  \<open>frequent_items_with_threshold\<close> never fails on a sketch of a stream; its rows are distinct items in descending
  order of the estimate, each with bounds around the true frequency. Asked for no false positives,
  every row's item is more frequent than the threshold; asked for no false negatives, every item
  more frequent than the threshold and the maximum error has a row.
\<close>

theorem frequent_items_rows:
  assumes "lg \<le> 30" and "stream_total stream < 2 ^ 64" and sk: "fi_of_stream enc lg stream = Inr sk"
  shows "\<exists>rows.
    frequent_items_with_threshold sk et t = Inr rows \<and>
    sorted_wrt (\<lambda>a b. row_estimate b \<le> row_estimate a) rows \<and> distinct (map row_item rows) \<and>
    (\<forall>r \<in> set rows. unat (row_lower_bound r) \<le> frequency stream (row_item r) \<and>
       frequency stream (row_item r) \<le> unat (row_upper_bound r) \<and>
       (et = NoFalsePositives \<longrightarrow> unat t < frequency stream (row_item r))) \<and>
    (et = NoFalseNegatives \<longrightarrow>
       (\<forall>k. unat (max t (maximum_error sk)) < frequency stream k \<longrightarrow> k \<in> row_item ` set rows))"
proof -
  have sk: "fi_shape enc sk" "fi_counts (purge_share (max lg 3)) (frequency stream) (stream_total stream) sk"
    using fi_of_stream_ok [OF assms(1,2), of enc] assms(3) by (auto simp: may_drift_def)
  have "1 \<le> purge_share (max lg 3)" using purge_share_ge [of "max lg 3"] by (simp add: LG_MIN_MAP_SIZE_def)
  then show ?thesis using frequent_rows_ok [OF sk, of et t] by blast
qed

theorem frequent_items_rows_witness:
  "\<exists>sk rows. fi_of_stream u64_hash 3 [(7, 5)] = Inr sk \<and>
    frequent_items_with_threshold sk NoFalsePositives 2 = Inr rows \<and>
    list_all (\<lambda>r. unat (2 :: u64) < frequency [(7, 5)] (row_item r)) rows"
proof -
  obtain sk where sk: "fi_of_stream u64_hash 3 [(7, 5)] = Inr sk"
    using fi_of_stream_ok [of 3 "[(7, 5)]" u64_hash] by (auto simp: drift_possible_def may_drift_def)
  have "stream_total [(7 :: u64, 5)] < 2 ^ 64" by simp
  then show ?thesis
    using frequent_items_rows [OF _ _ sk, of NoFalsePositives 2] sk
    unfolding list_all_iff by (auto simp del: frequency_simps)
qed

text \<open>
  C26. Merging: the merge of two sketches, of any two streams of joined weight below \<open>2 ^ 64\<close> and any
  two map sizes up to \<open>2 ^ 30\<close>, has the guarantees of a sketch of the joined stream: its exact weight,
  bounds around every frequency, and an error paid for by the joined weight. As for one stream, the
  only failure is the drift assertion, which needs a target map of \<open>2 ^ 11\<close> slots and 1024 items.
\<close>

theorem frequent_items_merge:
  assumes "lg1 \<le> 30" and "lg2 \<le> 30" and "stream_total s1 + stream_total s2 < 2 ^ 64"
    and "fi_of_stream enc lg1 s1 = Inr sk1" and "fi_of_stream enc lg2 s2 = Inr sk2"
  shows "(\<exists>sk. fi_merge enc sk1 sk2 = Inr sk \<and>
      unat (fi_stream_weight sk) = stream_total (s1 @ s2) \<and>
      unat (maximum_error sk) * min (purge_share (max lg1 3)) (purge_share (max lg2 3)) \<le> stream_total (s1 @ s2) \<and>
      (\<forall>k. bounds_hold enc sk (frequency (s1 @ s2)) k \<or>
         drift_possible lg1 (insert k (fst ` set (s1 @ s2))) \<and>
         frequency (s1 @ s2) k \<le> unat (maximum_error sk) \<and> query_drifts enc sk k)) \<or>
    drift_possible lg1 (fst ` set (s1 @ s2)) \<and> fi_merge enc sk1 sk2 = Inl drift_exceeded"
proof -
  let ?c = "min (purge_share (max lg1 3)) (purge_share (max lg2 3))" and ?K = "fst ` set (s1 @ s2)"
  have total: "stream_total s1 < 2 ^ 64" "stream_total s2 < 2 ^ 64" using assms(3) by linarith+
  have sk1: "fi_shape enc sk1" "fi_lg_max_map_size sk1 = max lg1 3"
    and "fi_counts (purge_share (max lg1 3)) (frequency s1) (stream_total s1) sk1"
    using fi_of_stream_ok [OF assms(1) total(1), of enc] assms(4) by (auto simp: may_drift_def)
  from this(3) have c1: "fi_counts ?c (frequency s1) (stream_total s1) sk1" by (rule fi_counts_weaken) simp
  have sk2: "fi_shape enc sk2"
    and "fi_counts (purge_share (max lg2 3)) (frequency s2) (stream_total s2) sk2"
    using fi_of_stream_ok [OF assms(2) total(2), of enc] assms(5) by (auto simp: may_drift_def)
  from this(2) have c2: "fi_counts ?c (frequency s2) (stream_total s2) sk2" by (rule fi_counts_weaken) simp
  have c: "1 \<le> ?c"
    using purge_share_ge [of "max lg1 3"] purge_share_ge [of "max lg2 3"] by (simp add: LG_MIN_MAP_SIZE_def)
  have freq: "frequency (s1 @ s2) = (\<lambda>k. frequency s1 k + frequency s2 k)" by (rule ext) simp
  have K: "finite ?K" "{k. 0 < frequency s1 k} \<subseteq> ?K" "{k. 0 < frequency s2 k} \<subseteq> ?K"
    using frequency_support [of s1] frequency_support [of s2] by auto
  show ?thesis
    using fi_merge_ok [OF sk1(1) c1 sk2 c2 assms(3) c K]
  proof (cases rule: may_driftE)
    case (result sk)
    then have sk: "fi_shape enc sk" "fi_lg_max_map_size sk = max lg1 3"
      "fi_counts ?c (frequency (s1 @ s2)) (stream_total s1 + stream_total s2) sk"
      using sk1(2) unfolding freq by simp_all
    have "unat (maximum_error sk) * ?c \<le> stream_total (s1 @ s2)"
      using fi_countsD(3) [OF sk(3)] by (simp add: maximum_error_def)
    moreover have "unat (fi_stream_weight sk) = stream_total (s1 @ s2)" using fi_countsD(1) [OF sk(3)] by simp
    ultimately show ?thesis
      using result(1) fi_query_bounds [OF sk(1,3) c K(1) frequency_support] unfolding sk(2) drift_possible_max by blast
  next
    case drift
    then show ?thesis unfolding sk1(2) drift_possible_max by blast
  qed
qed

theorem frequent_items_merge_witness:
  "\<exists>sk1 sk2 sk. fi_of_stream u64_hash 3 [(7, 5)] = Inr sk1 \<and> fi_of_stream u64_hash 4 [(8, 2)] = Inr sk2 \<and>
    fi_merge u64_hash sk1 sk2 = Inr sk \<and> unat (fi_stream_weight sk) = 7"
proof -
  obtain sk1 where sk1: "fi_of_stream u64_hash 3 [(7, 5)] = Inr sk1"
    using fi_of_stream_ok [of 3 "[(7, 5)]" u64_hash] by (auto simp: drift_possible_def may_drift_def)
  obtain sk2 where sk2: "fi_of_stream u64_hash 4 [(8, 2)] = Inr sk2"
    using fi_of_stream_ok [of 4 "[(8, 2)]" u64_hash] by (auto simp: drift_possible_def may_drift_def)
  show ?thesis
    using frequent_items_merge [OF _ _ _ sk1 sk2] sk1 sk2 by (auto simp: drift_possible_def)
qed

text \<open>
  C35. Serialization: a well-formed sketch of 64-bit integers, and one of strings of fewer than
  \<open>2 ^ 32\<close> bytes that pass the UTF-8 check, are read back with the same counters, offset, weight and
  maximum size, so that every query has the same answer. The reader puts the entries into a new
  table; the only failure is the drift assertion there, for sketches that track 1024 items or more.
\<close>

theorem frequent_items_round_trip:
  assumes "fi_shape u64_hash sk" and "fi_shape string_hash st"
    and "list_all (\<lambda>x. utf8 x \<and> length x < 2 ^ 32) (map fst (active_entries (fi_hash_map st)))"
  shows "((\<exists>sk'. fi_deserialize u64_hash u64_deserialize_value (fi_serialize u64_serialize_value sk) = Inr sk' \<and>
        fi_same_answers u64_hash sk' sk) \<or>
      DRIFT_LIMIT \<le> rp_num_active (fi_hash_map sk) \<and>
      fi_deserialize u64_hash u64_deserialize_value (fi_serialize u64_serialize_value sk) = Inl drift_exceeded) \<and>
    ((\<exists>st'. fi_deserialize string_hash (string_deserialize_value utf8) (fi_serialize string_serialize_value st) = Inr st' \<and>
        fi_same_answers string_hash st' st) \<or>
      DRIFT_LIMIT \<le> rp_num_active (fi_hash_map st) \<and>
      fi_deserialize string_hash (string_deserialize_value utf8) (fi_serialize string_serialize_value st) =
        Inl drift_exceeded)"
  using u64_item.fi_round_trip_answers [OF assms(1)] string_item.fi_round_trip_answers [OF assms(2,3)]
  by (simp add: list_all_iff may_drift_def)

theorem frequent_items_round_trip_witness:
  "\<exists>sk st sk' st'. fi_of_stream u64_hash 3 [(7, 5)] = Inr sk \<and> fi_of_stream string_hash 3 [([104, 105], 3)] = Inr st \<and>
    fi_deserialize u64_hash u64_deserialize_value (fi_serialize u64_serialize_value sk) = Inr sk' \<and>
    fi_deserialize string_hash (string_deserialize_value (\<lambda>_. True)) (fi_serialize string_serialize_value st) = Inr st' \<and>
    fi_same_answers u64_hash sk' sk \<and> fi_same_answers string_hash st' st"
proof -
  obtain sk where sk: "fi_of_stream u64_hash 3 [(7, 5)] = Inr sk" "fi_shape u64_hash sk"
    and csk: "fi_counts (purge_share 3) (frequency [(7, 5)]) 5 sk"
    using fi_of_stream_ok [of 3 "[(7, 5)]" u64_hash] by (auto simp: drift_possible_def may_drift_def)
  obtain st where st: "fi_of_stream string_hash 3 [([104, 105], 3)] = Inr st" "fi_shape string_hash st"
    "fi_counts (purge_share 3) (frequency [([104, 105], 3)]) 3 st"
    using fi_of_stream_ok [of 3 "[([104, 105], 3)]" string_hash] by (auto simp: drift_possible_def may_drift_def)
  have few: "rp_num_active (fi_hash_map s) < DRIFT_LIMIT"
    if "fi_shape enc s" "fi_counts c (frequency [x]) w s" for enc :: "'k \<Rightarrow> u8 list list" and s c x w
  proof -
    have "dom (rp_map (fi_hash_map s)) \<subseteq> fst ` set [x]"
      using fi_keys [OF that] frequency_support [of "[x]"] by blast
    then have "card (dom (rp_map (fi_hash_map s))) \<le> card (fst ` set [x])" by (intro card_mono) simp_all
    then show ?thesis using fi_shapeD(1) [OF that(1)] by (simp add: rp_ok_def DRIFT_LIMIT_def)
  qed
  have "\<not> DRIFT_LIMIT \<le> rp_num_active (fi_hash_map sk)" "\<not> DRIFT_LIMIT \<le> rp_num_active (fi_hash_map st)"
    using few [OF sk(2) csk] few [OF st(2,3)] by simp_all
  note few = this
  have "k = [104, 105]" if "k \<in> set (map fst (active_entries (fi_hash_map st)))" for k
    using fi_counted_keys [OF st(2,3) that] by (simp split: if_splits)
  then have "list_all (\<lambda>x. True \<and> length x < 2 ^ 32) (map fst (active_entries (fi_hash_map st)))"
    by (fastforce simp: list_all_iff)
  then show ?thesis
    using frequent_items_round_trip [OF sk(2) st(2), of "\<lambda>_. True"] sk(1) st(1) few by blast
qed

end
