(* ===== verification/CountMin.thy ===== *)
theory CountMin
  imports Codec Murmur "HOL-Library.Multiset"
begin

text \<open>
  The CountMin sketch of \<open>src/datasketches/src/countmin\<close>. The counter type \<open>T: CountMinValue\<close> is a
  record of its operations, \<open>count_type\<close>, with the instances of \<open>value.rs\<close> for unsigned and signed
  words; the locale \<open>count_value\<close> is what the sketch needs of it, integer arithmetic inside a range.
  An item is the list of byte chunks that its \<open>Hash\<close> implementation writes. \<open>scale\<close> and the methods
  that need it (\<open>upper_bound\<close>, \<open>decay\<close>) and the suggestions of sizes work on \<open>f64\<close> and are left out.
\<close>

section \<open>Counters: \<open>value.rs\<close>\<close>

record 'v count_type =
  ct_zero :: 'v
  ct_one :: 'v
  ct_max :: 'v
  ct_add :: "'v \<Rightarrow> 'v \<Rightarrow> 'v"
  ct_less :: "'v \<Rightarrow> 'v \<Rightarrow> bool"
  ct_abs :: "'v \<Rightarrow> 'v"
  ct_halve :: "'v \<Rightarrow> 'v"
  ct_to_bytes :: "'v \<Rightarrow> u8 list"
  ct_try_from_bytes :: "u8 list \<Rightarrow> 'v res"

text \<open>\<open>impl_unsigned!\<close>: \<open>u8\<close> to \<open>u64\<close>. Addition wraps, as in a release build.\<close>

definition unsigned_count :: "'a::len word count_type" where
  "unsigned_count =
     \<lparr>ct_zero = 0, ct_one = 1, ct_max = - 1, ct_add = (+), ct_less = (<), ct_abs = (\<lambda>v. v),
      ct_halve = drop_bit 1, ct_to_bytes = (\<lambda>v. to_le_bytes (ucast v :: u64)),
      ct_try_from_bytes = (\<lambda>bs.
        let v = from_le_bytes bs :: u64
        in if (ucast (- 1 :: 'a word) :: u64) < v then Inl (InvalidData ''value out of range'')
           else Inr (ucast v))\<rparr>"

text \<open>\<open>impl_signed!\<close>: \<open>i8\<close> to \<open>i64\<close>, two's complement\<close>

definition signed_count :: "'a::len word count_type" where
  "signed_count =
     \<lparr>ct_zero = 0, ct_one = 1, ct_max = word_of_int (2 ^ (LENGTH('a) - 1) - 1), ct_add = (+), ct_less = (<s),
      ct_abs = (\<lambda>v. if 0 \<le>s v then v else - v), ct_halve = (\<lambda>v. v),
      ct_to_bytes = (\<lambda>v. to_le_bytes (word_of_int (sint v) :: u64)),
      ct_try_from_bytes = (\<lambda>bs.
        let v = sint (from_le_bytes bs :: u64)
        in if v < - (2 ^ (LENGTH('a) - 1)) \<or> 2 ^ (LENGTH('a) - 1) - 1 < v
           then Inl (InvalidData ''value out of range'') else Inr (word_of_int v))\<rparr>"

section \<open>The sketch: \<open>sketch.rs\<close>\<close>

definition MAX_TABLE_ENTRIES :: nat where "MAX_TABLE_ENTRIES = 2 ^ 30"

record 'v count_min =
  cm_num_hashes :: u8
  cm_num_buckets :: u32
  cm_seed :: u64
  cm_seed_hash :: u16
  cm_total_weight :: 'v
  cm_counts :: "'v list"
  cm_hash_seeds :: "u64 list"

definition entries_for_config :: "u8 \<Rightarrow> u32 \<Rightarrow> nat res" where
  "entries_for_config num_hashes num_buckets =
     (if \<not> 0 < num_hashes then Inl (Panic ''num_hashes must be at least 1'')
      else if \<not> 3 \<le> num_buckets then Inl (Panic ''num_buckets must be at least 3'')
      else let entries = unat num_hashes * unat num_buckets
           in if entries < MAX_TABLE_ENTRIES then Inr entries else Inl (Panic ''table too large''))"

definition entries_for_config_checked :: "u8 \<Rightarrow> u32 \<Rightarrow> nat res" where
  "entries_for_config_checked num_hashes num_buckets =
     (if num_hashes = 0 then Inl (InvalidData ''num_hashes must be at least 1'')
      else if num_buckets < 3 then Inl (InvalidData ''num_buckets must be at least 3'')
      else let entries = unat num_hashes * unat num_buckets
           in if MAX_TABLE_ENTRIES \<le> entries then Inl (InvalidData ''table too large'') else Inr entries)"

definition make_hash_seeds :: "u64 \<Rightarrow> u8 \<Rightarrow> u64 list" where
  "make_hash_seeds seed num_hashes =
     map (\<lambda>i. fst (murmur_hash seed [to_le_bytes (of_nat i :: u64)])) [0..<unat num_hashes]"

definition cm_make :: "'v count_type \<Rightarrow> u8 \<Rightarrow> u32 \<Rightarrow> u64 \<Rightarrow> nat \<Rightarrow> 'v count_min res" where
  "cm_make T num_hashes num_buckets seed entries =
     bind_res (compute_seed_hash seed) (\<lambda>seed_hash.
       Inr \<lparr>cm_num_hashes = num_hashes, cm_num_buckets = num_buckets, cm_seed = seed,
         cm_seed_hash = seed_hash, cm_total_weight = ct_zero T, cm_counts = replicate entries (ct_zero T),
         cm_hash_seeds = make_hash_seeds seed num_hashes\<rparr>)"

definition cm_with_seed :: "'v count_type \<Rightarrow> u8 \<Rightarrow> u32 \<Rightarrow> u64 \<Rightarrow> 'v count_min res" where
  "cm_with_seed T num_hashes num_buckets seed =
     bind_res (entries_for_config num_hashes num_buckets) (\<lambda>entries.
       cm_make T num_hashes num_buckets seed entries)"

definition cm_new :: "'v count_type \<Rightarrow> u8 \<Rightarrow> u32 \<Rightarrow> 'v count_min res" where
  "cm_new T num_hashes num_buckets = cm_with_seed T num_hashes num_buckets DEFAULT_UPDATE_SEED"

definition cm_is_empty :: "'v count_type \<Rightarrow> 'v count_min \<Rightarrow> bool" where
  "cm_is_empty T s \<longleftrightarrow> cm_total_weight s = ct_zero T"

definition bucket_index :: "'v count_min \<Rightarrow> u8 list list \<Rightarrow> u64 \<Rightarrow> nat" where
  "bucket_index s item seed = unat (fst (murmur_hash seed item) mod ucast (cm_num_buckets s))"

definition update_row ::
  "'v count_type \<Rightarrow> 'v count_min \<Rightarrow> u8 list list \<Rightarrow> 'v \<Rightarrow> 'v list \<Rightarrow> nat \<times> u64 \<Rightarrow> 'v list res" where
  "update_row T s item weight counts = (\<lambda>(row, seed).
     let bucket = bucket_index s item seed;
         index = row * unat (cm_num_buckets s) + bucket
     in bind_res (get_at counts index) (\<lambda>c. set_at counts index (ct_add T c weight)))"

definition cm_update_with_weight ::
  "'v count_type \<Rightarrow> 'v count_min \<Rightarrow> u8 list list \<Rightarrow> 'v \<Rightarrow> 'v count_min res" where
  "cm_update_with_weight T s item weight =
     (if weight = ct_zero T then Inr s
      else
        let abs_weight = ct_abs T weight;
            s = s\<lparr>cm_total_weight := ct_add T (cm_total_weight s) abs_weight\<rparr>
        in bind_res (fold_res (update_row T s item weight) (cm_counts s) (enumerate 0 (cm_hash_seeds s)))
             (\<lambda>counts. Inr (s\<lparr>cm_counts := counts\<rparr>)))"

definition cm_update :: "'v count_type \<Rightarrow> 'v count_min \<Rightarrow> u8 list list \<Rightarrow> 'v count_min res" where
  "cm_update T s item = cm_update_with_weight T s item (ct_one T)"

definition estimate_row :: "'v count_type \<Rightarrow> 'v count_min \<Rightarrow> u8 list list \<Rightarrow> 'v \<Rightarrow> nat \<times> u64 \<Rightarrow> 'v res" where
  "estimate_row T s item m = (\<lambda>(row, seed).
     let bucket = bucket_index s item seed;
         index = row * unat (cm_num_buckets s) + bucket
     in bind_res (get_at (cm_counts s) index) (\<lambda>v. Inr (if ct_less T v m then v else m)))"

definition cm_estimate :: "'v count_type \<Rightarrow> 'v count_min \<Rightarrow> u8 list list \<Rightarrow> 'v res" where
  "cm_estimate T s item = fold_res (estimate_row T s item) (ct_max T) (enumerate 0 (cm_hash_seeds s))"

definition cm_lower_bound :: "'v count_type \<Rightarrow> 'v count_min \<Rightarrow> u8 list list \<Rightarrow> 'v res" where
  "cm_lower_bound T s item = cm_estimate T s item"

text \<open>Two references to one sketch cannot be the arguments of \<open>merge\<close>; the check for it is left out.\<close>

definition cm_merge :: "'v count_type \<Rightarrow> 'v count_min \<Rightarrow> 'v count_min \<Rightarrow> 'v count_min res" where
  "cm_merge T s other =
     (if cm_num_hashes s \<noteq> cm_num_hashes other then Inl (Panic ''assert_eq num_hashes'')
      else if cm_num_buckets s \<noteq> cm_num_buckets other then Inl (Panic ''assert_eq num_buckets'')
      else if cm_seed s \<noteq> cm_seed other then Inl (Panic ''assert_eq seed'')
      else if length (cm_counts s) \<noteq> length (cm_counts other) then Inl (Panic ''assert_eq counts'')
      else Inr (s\<lparr>cm_counts := map2 (ct_add T) (cm_counts s) (cm_counts other),
                  cm_total_weight := ct_add T (cm_total_weight s) (cm_total_weight other)\<rparr>))"

definition cm_halve :: "'v count_type \<Rightarrow> 'v count_min \<Rightarrow> 'v count_min" where
  "cm_halve T s = s\<lparr>cm_counts := map (ct_halve T) (cm_counts s),
                    cm_total_weight := ct_halve T (cm_total_weight s)\<rparr>"

section \<open>Serialization\<close>

definition CM_PREAMBLE_LONGS_SHORT :: u8 where "CM_PREAMBLE_LONGS_SHORT = 2"
definition CM_SERIAL_VERSION :: u8 where "CM_SERIAL_VERSION = 1"
definition CM_FLAGS_IS_EMPTY :: u8 where "CM_FLAGS_IS_EMPTY = 1"

definition cm_serialize :: "'v count_type \<Rightarrow> 'v count_min \<Rightarrow> u8 list" where
  "cm_serialize T s =
     (let bytes = with_capacity 0;
          bytes = write_u8 bytes CM_PREAMBLE_LONGS_SHORT;
          bytes = write_u8 bytes CM_SERIAL_VERSION;
          bytes = write_u8 bytes (fam_id family_countmin);
          bytes = write_u8 bytes (if cm_is_empty T s then CM_FLAGS_IS_EMPTY else 0);
          bytes = write_u32_le bytes 0;
          bytes = write_u32_le bytes (cm_num_buckets s);
          bytes = write_u8 bytes (cm_num_hashes s);
          bytes = write_u16_le bytes (cm_seed_hash s);
          bytes = write_u8 bytes 0
      in if cm_is_empty T s then into_bytes bytes
         else
           let bytes = write_bytes bytes (ct_to_bytes T (cm_total_weight s));
               bytes = foldl (\<lambda>bytes count. write_bytes bytes (ct_to_bytes T count)) bytes (cm_counts s)
           in into_bytes bytes)"

definition read_value :: "'v count_type \<Rightarrow> string \<Rightarrow> sketch_slice \<Rightarrow> ('v \<times> sketch_slice) res" where
  "read_value T tag cursor =
     bind_res (insufficient_data tag (read_exact 8 cursor)) (\<lambda>(bs, cursor).
     bind_res (ct_try_from_bytes T bs) (\<lambda>v. Inr (v, cursor)))"

fun read_counts :: "'v count_type \<Rightarrow> nat \<Rightarrow> sketch_slice \<Rightarrow> ('v list \<times> sketch_slice) res" where
  "read_counts T 0 cursor = Inr ([], cursor)"
| "read_counts T (Suc n) cursor =
     bind_res (read_value T ''counts'' cursor) (\<lambda>(count, cursor).
     bind_res (read_counts T n cursor) (\<lambda>(counts, cursor). Inr (count # counts, cursor)))"

definition cm_deserialize_with_seed :: "'v count_type \<Rightarrow> u8 list \<Rightarrow> u64 \<Rightarrow> 'v count_min res" where
  "cm_deserialize_with_seed T bytes seed =
     (let cursor = new_slice bytes
      in bind_res (insufficient_data ''preamble_longs'' (read_u8 cursor)) (\<lambda>(preamble_longs, cursor).
         bind_res (insufficient_data ''serial_version'' (read_u8 cursor)) (\<lambda>(serial_version, cursor).
         bind_res (insufficient_data ''family_id'' (read_u8 cursor)) (\<lambda>(family_id, cursor).
         bind_res (insufficient_data ''flags'' (read_u8 cursor)) (\<lambda>(flags, cursor).
         bind_res (insufficient_data ''<unused>'' (read_u32_le cursor)) (\<lambda>(_, cursor).
         bind_res (validate_id family_countmin family_id) (\<lambda>_.
         bind_res (ensure_serial_version_is CM_SERIAL_VERSION serial_version) (\<lambda>_.
         bind_res (ensure_preamble_longs_in [CM_PREAMBLE_LONGS_SHORT] preamble_longs) (\<lambda>_.
         bind_res (insufficient_data ''num_buckets'' (read_u32_le cursor)) (\<lambda>(num_buckets, cursor).
         bind_res (insufficient_data ''num_hashes'' (read_u8 cursor)) (\<lambda>(num_hashes, cursor).
         bind_res (insufficient_data ''seed_hash'' (read_u16_le cursor)) (\<lambda>(seed_hash, cursor).
         bind_res (insufficient_data ''unused8'' (read_u8 cursor)) (\<lambda>(_, cursor).
         bind_res (compute_seed_hash seed) (\<lambda>expected.
         bind_res (check_seed_hash expected seed_hash InvalidData) (\<lambda>_.
         bind_res (entries_for_config_checked num_hashes num_buckets) (\<lambda>entries.
         bind_res (cm_make T num_hashes num_buckets seed entries) (\<lambda>sketch.
         if flags AND CM_FLAGS_IS_EMPTY \<noteq> 0 then Inr sketch
         else
           bind_res (read_value T ''total_weight'' cursor) (\<lambda>(total_weight, cursor).
           bind_res (read_counts T (length (cm_counts sketch)) cursor) (\<lambda>(counts, cursor).
             Inr (sketch\<lparr>cm_total_weight := total_weight, cm_counts := counts\<rparr>))))))))))))))))))))"

definition cm_deserialize :: "'v count_type \<Rightarrow> u8 list \<Rightarrow> 'v count_min res" where
  "cm_deserialize T bytes = cm_deserialize_with_seed T bytes DEFAULT_UPDATE_SEED"

section \<open>The table\<close>

definition cm_ok :: "'v count_min \<Rightarrow> bool" where
  "cm_ok s \<longleftrightarrow>
     entries_for_config (cm_num_hashes s) (cm_num_buckets s) = Inr (length (cm_counts s)) \<and>
     cm_hash_seeds s = make_hash_seeds (cm_seed s) (cm_num_hashes s) \<and>
     compute_seed_hash (cm_seed s) = Inr (cm_seed_hash s)"

definition same_config :: "'v count_min \<Rightarrow> 'v count_min \<Rightarrow> bool" where
  "same_config s s' \<longleftrightarrow> cm_num_hashes s' = cm_num_hashes s \<and> cm_num_buckets s' = cm_num_buckets s \<and>
     cm_seed s' = cm_seed s \<and> cm_seed_hash s' = cm_seed_hash s \<and> cm_hash_seeds s' = cm_hash_seeds s \<and>
     length (cm_counts s') = length (cm_counts s)"

abbreviation rows :: "'v count_min \<Rightarrow> nat" where "rows s \<equiv> unat (cm_num_hashes s)"
abbreviation buckets :: "'v count_min \<Rightarrow> nat" where "buckets s \<equiv> unat (cm_num_buckets s)"

lemma entries_Inr:
  "entries_for_config h b = Inr n \<longleftrightarrow> 0 < h \<and> 3 \<le> b \<and> n = unat h * unat b \<and> n < MAX_TABLE_ENTRIES"
  by (auto simp: entries_for_config_def Let_def)

lemma cm_okD:
  assumes "cm_ok s"
  shows "length (cm_counts s) = rows s * buckets s" "length (cm_hash_seeds s) = rows s"
    "0 < rows s" "3 \<le> buckets s" "rows s * buckets s < MAX_TABLE_ENTRIES"
  using assms by (auto simp: cm_ok_def entries_Inr make_hash_seeds_def word_less_nat_alt word_le_nat_alt)

lemma same_config_ok: "cm_ok s \<Longrightarrow> same_config s s' \<Longrightarrow> cm_ok s'"
  by (simp add: cm_ok_def same_config_def)

lemma same_config_refl [simp]: "same_config s s"
  by (simp add: same_config_def)

lemma same_config_trans: "same_config s s' \<Longrightarrow> same_config s' s'' \<Longrightarrow> same_config s s''"
  by (simp add: same_config_def)

lemma bucket_lt: "3 \<le> buckets s \<Longrightarrow> bucket_index s item seed < buckets s"
proof -
  have "unat (ucast (cm_num_buckets s) :: u64) = buckets s"
    using unsigned_less [of "cm_num_buckets s", where 'a = nat]
    by (simp add: unsigned_ucast_eq take_bit_nat_eq_self)
  then show "3 \<le> buckets s \<Longrightarrow> bucket_index s item seed < buckets s"
    by (simp add: bucket_index_def unat_mod)
qed

text \<open>The counters that an item falls into: one per row\<close>

definition hits :: "'v count_min \<Rightarrow> u8 list list \<Rightarrow> nat \<Rightarrow> bool" where
  "hits s item i \<longleftrightarrow> bucket_index s item (cm_hash_seeds s ! (i div buckets s)) = i mod buckets s"

definition slot_of :: "'v count_min \<Rightarrow> u8 list list \<Rightarrow> nat \<Rightarrow> nat" where
  "slot_of s item row = row * buckets s + bucket_index s item (cm_hash_seeds s ! row)"

lemma slot_of_lt:
  assumes "3 \<le> buckets s" and "row < rows s"
  shows "slot_of s item row < rows s * buckets s"
proof -
  have "slot_of s item row < (row + 1) * buckets s"
    using bucket_lt [OF assms(1)] by (simp add: slot_of_def)
  also have "\<dots> \<le> rows s * buckets s" using assms(2) by (intro mult_le_mono1) simp
  finally show ?thesis .
qed

lemma hits_iff:
  "hits s item i \<longleftrightarrow> i = slot_of s item (i div buckets s)"
  using div_mult_mod_eq [of i "buckets s"] unfolding hits_def slot_of_def by (metis add_left_cancel)

lemma slot_of_div: "3 \<le> buckets s \<Longrightarrow> slot_of s item row div buckets s = row"
  using bucket_lt [of s item "cm_hash_seeds s ! row"] by (simp add: slot_of_def)

lemma hits_slot_of: "3 \<le> buckets s \<Longrightarrow> hits s item (slot_of s item row)"
  by (simp add: hits_iff slot_of_div)

text \<open>One update adds the weight to the counters that the item hits.\<close>

lemma update_rows:
  assumes ok: "cm_ok s" and len: "length counts = rows s * buckets s"
  shows "fold_res (update_row T s item w) counts (enumerate 0 (cm_hash_seeds s)) =
    Inr (map (\<lambda>i. if hits s item i then ct_add T (counts ! i) w else counts ! i) [0..<rows s * buckets s])"
proof -
  note S = cm_okD [OF ok]
  let ?n = "rows s * buckets s"
  let ?c = "\<lambda>k. map (\<lambda>i. if i div buckets s < k \<and> hits s item i then ct_add T (counts ! i) w else counts ! i) [0..<?n]"
  have "k \<le> rows s \<Longrightarrow>
    fold_res (update_row T s item w) counts (take k (enumerate 0 (cm_hash_seeds s))) = Inr (?c k)" for k
  proof (induction k)
    case 0
    then show ?case using len map_nth [of counts] by simp
  next
    case (Suc k)
    let ?i = "slot_of s item k"
    have i: "?i < ?n" using slot_of_lt [OF S(4)] Suc.prems by simp
    have "take (Suc k) (enumerate 0 (cm_hash_seeds s)) =
        take k (enumerate 0 (cm_hash_seeds s)) @ [(k, cm_hash_seeds s ! k)]"
      using Suc.prems S(2) by (simp add: take_Suc_conv_app_nth nth_enumerate_eq)
    then have "fold_res (update_row T s item w) counts (take (Suc k) (enumerate 0 (cm_hash_seeds s))) =
        update_row T s item w (?c k) (k, cm_hash_seeds s ! k)"
      using Suc by (cases "update_row T s item w (?c k) (k, cm_hash_seeds s ! k)") (simp_all add: fold_res_append)
    also have "\<dots> = Inr ((?c k)[?i := ct_add T (?c k ! ?i) w])"
      using i unfolding update_row_def slot_of_def [symmetric] by (simp add: Let_def slot_of_def [symmetric])
    also have "(?c k)[?i := ct_add T (?c k ! ?i) w] = ?c (Suc k)"
    proof (rule nth_equalityI)
      fix j
      assume "j < length ((?c k)[?i := ct_add T (?c k ! ?i) w])"
      then have j: "j < ?n" by simp
      have "j = ?i \<longleftrightarrow> j div buckets s = k \<and> hits s item j"
        using hits_iff slot_of_div [OF S(4)] by metis
      then show "(?c k)[?i := ct_add T (?c k ! ?i) w] ! j = ?c (Suc k) ! j"
        using i j slot_of_div [OF S(4)] by (cases "j = ?i") (auto simp: less_Suc_eq)
    qed simp
    finally show ?case .
  qed
  from this [of "rows s"] have "fold_res (update_row T s item w) counts (enumerate 0 (cm_hash_seeds s)) = Inr (?c (rows s))"
    using S(2) by simp
  moreover have "?c (rows s) = map (\<lambda>i. if hits s item i then ct_add T (counts ! i) w else counts ! i) [0..<?n]"
    using S(4) by (intro map_cong) (simp_all add: less_mult_imp_div_less)
  ultimately show ?thesis by simp
qed

section \<open>Counting\<close>

definition cm_update_all :: "'v count_type \<Rightarrow> 'v count_min \<Rightarrow> (u8 list list \<times> 'v) list \<Rightarrow> 'v count_min res" where
  "cm_update_all T s stream = fold_res (\<lambda>s (item, w). cm_update_with_weight T s item w) s stream"

locale count_value =
  fixes T :: "'v count_type" and val :: "'v \<Rightarrow> int" and lo hi :: int
  assumes val_inj: "val v = val w \<Longrightarrow> v = w"
    and val_lo: "lo \<le> val v" and val_hi: "val v \<le> hi"
    and lo_hi: "lo = 0 \<or> lo \<le> - hi" "0 \<le> hi"
    and val_zero: "val (ct_zero T) = 0" and val_max: "val (ct_max T) = hi"
    and val_add: "lo \<le> val v + val w \<Longrightarrow> val v + val w \<le> hi \<Longrightarrow> val (ct_add T v w) = val v + val w"
    and val_less: "ct_less T v w \<longleftrightarrow> val v < val w"
    and val_abs: "\<bar>val v\<bar> \<le> hi \<Longrightarrow> val (ct_abs T v) = \<bar>val v\<bar>"
    and length_to_bytes: "length (ct_to_bytes T v) = 8"
    and try_from_to_bytes: "ct_try_from_bytes T (ct_to_bytes T v) = Inr v"
begin

text \<open>The integers that a stream adds to a counter, and to the total weight\<close>

definition cell :: "'v count_min \<Rightarrow> (u8 list list \<times> 'v) list \<Rightarrow> nat \<Rightarrow> int" where
  "cell s stream i = sum_list (map (\<lambda>(item, w). val w) (filter (\<lambda>(item, w). hits s item i) stream))"

definition weight :: "(u8 list list \<times> 'v) list \<Rightarrow> int" where
  "weight stream = sum_list (map (\<lambda>(item, w). \<bar>val w\<bar>) stream)"

definition counted :: "'v count_min \<Rightarrow> (u8 list list \<times> 'v) list \<Rightarrow> bool" where
  "counted s stream \<longleftrightarrow> cm_ok s \<and> val (cm_total_weight s) = weight stream \<and>
     (\<forall>i < rows s * buckets s. val (cm_counts s ! i) = cell s stream i)"

lemma weight_simps [simp]:
  "weight [] = 0" "weight ((item, w) # s) = \<bar>val w\<bar> + weight s" "weight (s @ s') = weight s + weight s'"
  by (simp_all add: weight_def)

lemma cell_simps [simp]:
  "cell s [] i = 0"
  "cell s ((item, w) # xs) i = (if hits s item i then val w else 0) + cell s xs i"
  "cell s (xs @ ys) i = cell s xs i + cell s ys i"
  by (simp_all add: cell_def)

lemma weight_ge0: "0 \<le> weight xs"
  by (induction xs) auto

lemma cell_abs: "\<bar>cell s xs i\<bar> \<le> weight xs"
  by (induction xs) (auto split: if_splits)

lemma cell_ge_lo: "weight xs \<le> hi \<Longrightarrow> lo \<le> cell s xs i"
proof (cases "lo = 0")
  case True
  then have "0 \<le> cell s xs i" using val_lo by (induction xs) (auto simp: add_nonneg_nonneg)
  then show ?thesis using True by simp
next
  case False
  assume "weight xs \<le> hi"
  then show ?thesis using False lo_hi(1) cell_abs [of s xs i] by linarith
qed

lemma cell_range: "weight xs \<le> hi \<Longrightarrow> lo \<le> cell s xs i \<and> cell s xs i \<le> hi"
  using cell_ge_lo cell_abs [of s xs i] by fastforce

lemma cell_cong: "same_config s s' \<Longrightarrow> cell s' xs i = cell s xs i"
  by (simp add: cell_def hits_def bucket_index_def same_config_def)

lemma update_counted:
  assumes C: "counted s xs" and room: "weight (xs @ [(item, w)]) \<le> hi"
  shows "\<exists>s'. cm_update_with_weight T s item w = Inr s' \<and> counted s' (xs @ [(item, w)]) \<and> same_config s s'"
proof (cases "w = ct_zero T")
  case True
  then show ?thesis using C val_zero by (auto simp: cm_update_with_weight_def counted_def)
next
  case False
  have ok: "cm_ok s" and total: "val (cm_total_weight s) = weight xs"
    and cells: "\<And>i. i < rows s * buckets s \<Longrightarrow> val (cm_counts s ! i) = cell s xs i"
    using C by (simp_all add: counted_def)
  note S = cm_okD [OF ok]
  let ?n = "rows s * buckets s"
  let ?total = "ct_add T (cm_total_weight s) (ct_abs T w)"
  let ?counts = "map (\<lambda>i. if hits s item i then ct_add T (cm_counts s ! i) w else cm_counts s ! i) [0..<?n]"
  let ?s = "s\<lparr>cm_total_weight := ?total\<rparr>"
  let ?s' = "?s\<lparr>cm_counts := ?counts\<rparr>"
  have abs: "val (ct_abs T w) = \<bar>val w\<bar>" using room weight_ge0 [of xs] by (intro val_abs) simp
  have "lo \<le> weight xs + \<bar>val w\<bar>" using lo_hi weight_ge0 [of xs] by linarith
  then have t: "val ?total = weight xs + \<bar>val w\<bar>" using room total abs by (simp add: val_add)
  have "cm_ok ?s" using ok by (simp add: cm_ok_def)
  then have run: "cm_update_with_weight T s item w = Inr ?s'"
    using False update_rows [of ?s "cm_counts s" T item w] S(1)
    by (simp add: cm_update_with_weight_def Let_def hits_def bucket_index_def)
  have config: "same_config s ?s'" using S(1) by (simp add: same_config_def)
  have "val (?counts ! i) = cell s (xs @ [(item, w)]) i" if "i < ?n" for i
    using that cells [OF that] cell_range [OF room, of s i] by (auto simp: val_add)
  then have "counted ?s' (xs @ [(item, w)])"
    using t same_config_ok [OF ok config] unfolding counted_def cell_cong [OF config] by simp
  then show ?thesis using run config by blast
qed

lemma weight_prefix: "weight (xs @ ys) \<le> hi \<Longrightarrow> weight xs \<le> hi"
  using weight_ge0 [of ys] by simp

lemma update_all_counted:
  assumes "counted s xs" and "weight (xs @ ys) \<le> hi"
  shows "\<exists>s'. cm_update_all T s ys = Inr s' \<and> counted s' (xs @ ys) \<and> same_config s s'"
  using assms
proof (induction ys arbitrary: s xs)
  case (Cons y ys)
  obtain item w where y: "y = (item, w)" by force
  have "weight ((xs @ [(item, w)]) @ ys) \<le> hi" using Cons.prems(2) by (simp add: y add.assoc)
  then obtain s1 where s1: "cm_update_with_weight T s item w = Inr s1" "counted s1 (xs @ [(item, w)])" "same_config s s1"
    using update_counted [OF Cons.prems(1)] weight_prefix by blast
  obtain s' where "cm_update_all T s1 ys = Inr s'" "counted s' ((xs @ [(item, w)]) @ ys)" "same_config s1 s'"
    using Cons.IH [OF s1(2) \<open>weight ((xs @ [(item, w)]) @ ys) \<le> hi\<close>] by blast
  then show ?case using s1 same_config_trans by (auto simp: cm_update_all_def y)
qed (auto simp: cm_update_all_def)

text \<open>Two sketches of the same configuration that have counted streams with equal counters are equal.\<close>

lemma counted_unique:
  assumes "counted s xs" "counted s' ys" "same_config s s'" "weight xs = weight ys"
    "\<And>i. cell s xs i = cell s ys i"
  shows "s = s'"
proof -
  have "cm_total_weight s = cm_total_weight s'" using assms(1,2,4) by (intro val_inj) (simp add: counted_def)
  moreover have "cm_counts s = cm_counts s'"
  proof (rule nth_equalityI)
    show "length (cm_counts s) = length (cm_counts s')" using assms(3) by (simp add: same_config_def)
    fix i
    assume "i < length (cm_counts s)"
    then have "i < rows s * buckets s" "i < rows s' * buckets s'"
      using assms(1-3) cm_okD(1) [of s] by (simp_all add: counted_def same_config_def)
    then show "cm_counts s ! i = cm_counts s' ! i"
      using assms cell_cong [OF assms(3)] by (intro val_inj) (simp add: counted_def)
  qed
  ultimately show ?thesis using assms(3) by (simp add: same_config_def)
qed

end

context count_value
begin

lemma with_seed_counted:
  assumes "cm_with_seed T h b seed = Inr s"
  shows "counted s []" and "cm_num_hashes s = h" and "cm_num_buckets s = b" and "cm_seed s = seed"
proof -
  obtain n sh where n: "entries_for_config h b = Inr n" "compute_seed_hash seed = Inr sh"
    and s: "s = \<lparr>cm_num_hashes = h, cm_num_buckets = b, cm_seed = seed, cm_seed_hash = sh,
      cm_total_weight = ct_zero T, cm_counts = replicate n (ct_zero T), cm_hash_seeds = make_hash_seeds seed h\<rparr>"
    using assms by (auto simp: cm_with_seed_def cm_make_def bind_res_Inr_iff)
  show "counted s []"
    using n by (auto simp: counted_def cm_ok_def s val_zero entries_Inr)
  show "cm_num_hashes s = h" "cm_num_buckets s = b" "cm_seed s = seed" by (simp_all add: s)
qed

lemma estimate_counted:
  assumes C: "counted s xs" and room: "weight xs \<le> hi"
  shows "\<exists>v. cm_estimate T s item = Inr v \<and> (\<exists>row < rows s. val v = cell s xs (slot_of s item row)) \<and>
    (\<forall>row < rows s. val v \<le> cell s xs (slot_of s item row))"
proof -
  have ok: "cm_ok s" using C by (simp add: counted_def)
  note S = cm_okD [OF ok]
  let ?c = "\<lambda>row. cell s xs (slot_of s item row)"
  have at: "val (cm_counts s ! slot_of s item row) = ?c row" "slot_of s item row < length (cm_counts s)"
    if "row < rows s" for row
    using C slot_of_lt [OF S(4) that] S(1) by (simp_all add: counted_def)
  have "k \<le> rows s \<Longrightarrow> \<exists>v. fold_res (estimate_row T s item) (ct_max T) (take k (enumerate 0 (cm_hash_seeds s))) = Inr v \<and>
    (k = 0 \<and> v = ct_max T \<or> (\<exists>row < k. val v = ?c row)) \<and> (\<forall>row < k. val v \<le> ?c row)" for k
  proof (induction k)
    case (Suc k)
    then obtain v where v: "fold_res (estimate_row T s item) (ct_max T) (take k (enumerate 0 (cm_hash_seeds s))) = Inr v"
      "k = 0 \<and> v = ct_max T \<or> (\<exists>row < k. val v = ?c row)" "\<forall>row < k. val v \<le> ?c row"
      by auto
    have k: "k < rows s" using Suc.prems by simp
    let ?x = "cm_counts s ! slot_of s item k"
    let ?v = "if ct_less T ?x v then ?x else v"
    have "take (Suc k) (enumerate 0 (cm_hash_seeds s)) =
        take k (enumerate 0 (cm_hash_seeds s)) @ [(k, cm_hash_seeds s ! k)]"
      using k S(2) by (simp add: take_Suc_conv_app_nth nth_enumerate_eq)
    moreover have "estimate_row T s item v (k, cm_hash_seeds s ! k) = Inr ?v"
      using at(2) [OF k] by (simp add: estimate_row_def Let_def slot_of_def)
    ultimately have run: "fold_res (estimate_row T s item) (ct_max T) (take (Suc k) (enumerate 0 (cm_hash_seeds s))) = Inr ?v"
      using v(1) by (simp add: fold_res_append)
    have le: "\<forall>row < Suc k. val ?v \<le> ?c row"
      using v(3) at(1) [OF k] by (auto simp: val_less less_Suc_eq dest: order_trans)
    have "\<exists>row < Suc k. val ?v = ?c row"
    proof (cases "ct_less T ?x v")
      case True
      then show ?thesis using at(1) [OF k] by auto
    next
      case False
      show ?thesis
      proof (cases "k = 0")
        case True
        then have "val v = hi" using v(2) val_max by auto
        then have "val v = ?c k" using False at(1) [OF k] val_hi [of ?x] by (simp add: val_less)
        then show ?thesis using False by auto
      qed (use False v(2) less_Suc_eq in auto)
    qed
    then show ?case using run le by blast
  qed simp
  from this [of "rows s"] show ?thesis using S(2,3) by (simp add: cm_estimate_def)
qed

text \<open>With weights that are not negative every cell of an item holds at least its frequency.\<close>

definition freq :: "(u8 list list \<times> 'v) list \<Rightarrow> u8 list list \<Rightarrow> int" where
  "freq stream item = sum_list (map (\<lambda>(_, w). val w) (filter (\<lambda>(x, _). x = item) stream))"

lemma freq_le_cell:
  assumes "3 \<le> buckets s" and "\<forall>(x, w) \<in> set xs. 0 \<le> val w"
  shows "freq xs item \<le> cell s xs (slot_of s item row)"
  using assms(2) hits_slot_of [OF assms(1)]
  by (induction xs) (auto simp: freq_def)

lemma merge_counted:
  assumes "counted s xs" "counted s' ys" "same_config s s'" and room: "weight (xs @ ys) \<le> hi"
  shows "\<exists>m. cm_merge T s s' = Inr m \<and> counted m (xs @ ys) \<and> same_config s m"
proof -
  let ?n = "rows s * buckets s"
  let ?m = "s\<lparr>cm_counts := map2 (ct_add T) (cm_counts s) (cm_counts s'),
    cm_total_weight := ct_add T (cm_total_weight s) (cm_total_weight s')\<rparr>"
  have ok: "cm_ok s" "cm_ok s'" using assms(1,2) by (simp_all add: counted_def)
  have len: "length (cm_counts s) = ?n" "length (cm_counts s') = ?n"
    using cm_okD(1) [OF ok(1)] assms(3) by (simp_all add: same_config_def)
  have run: "cm_merge T s s' = Inr ?m" using assms(3) by (simp add: cm_merge_def same_config_def)
  have config: "same_config s ?m" using len by (simp add: same_config_def)
  have "lo \<le> weight xs + weight ys" using lo_hi weight_ge0 [of xs] weight_ge0 [of ys] by linarith
  then have t: "val (cm_total_weight ?m) = weight (xs @ ys)"
    using assms(1,2) room by (simp add: counted_def val_add)
  have "val (cm_counts ?m ! i) = cell s (xs @ ys) i" if "i < ?n" for i
  proof -
    have "val (cm_counts s ! i) = cell s xs i" "val (cm_counts s' ! i) = cell s ys i"
      using that assms(1-3) cell_cong [OF assms(3)] by (simp_all add: counted_def same_config_def)
    then show ?thesis using that len cell_range [OF room, of s i] by (simp add: val_add)
  qed
  then have "counted ?m (xs @ ys)"
    using t same_config_ok [OF ok(1) config] unfolding counted_def cell_cong [OF config] by simp
  then show ?thesis using run config by blast
qed

text \<open>The written form is read back.\<close>

lemma read_value_ok:
  "remaining cursor = ct_to_bytes T v @ rest \<Longrightarrow> read_value T tag cursor = Inr (v, advance 8 cursor)"
  using read_exact_enough [of cursor "ct_to_bytes T v" rest 8] length_to_bytes [of v] try_from_to_bytes [of v]
  by (simp add: read_value_def)

lemma read_counts_ok:
  "remaining cursor = concat (map (ct_to_bytes T) vs) @ rest \<Longrightarrow>
   read_counts T (length vs) cursor = Inr (vs, advance (8 * length vs) cursor)"
proof (induction vs arbitrary: cursor)
  case (Cons v vs)
  then show ?case
    using read_value_ok [of cursor v "concat (map (ct_to_bytes T) vs) @ rest"] Cons.IH [of "advance 8 cursor"]
      length_to_bytes [of v]
    by (simp add: add.commute)
qed simp

lemma write_counts: "foldl (\<lambda>bytes count. write_bytes bytes (ct_to_bytes T count)) bs vs = bs @ concat (map (ct_to_bytes T) vs)"
  by (induction vs arbitrary: bs) (simp_all add: write_bytes_def)

lemma cm_round_trip:
  assumes ok: "cm_ok s" and zero: "cm_is_empty T s \<longrightarrow> (\<forall>v \<in> set (cm_counts s). v = ct_zero T)"
  shows "cm_deserialize_with_seed T (cm_serialize T s) (cm_seed s) = Inr s"
proof -
  note S = cm_okD [OF ok]
  have E: "entries_for_config (cm_num_hashes s) (cm_num_buckets s) = Inr (length (cm_counts s))"
    "cm_hash_seeds s = make_hash_seeds (cm_seed s) (cm_num_hashes s)"
    "compute_seed_hash (cm_seed s) = Inr (cm_seed_hash s)"
    using ok by (simp_all add: cm_ok_def)
  let ?n = "length (cm_counts s)"
  have entries: "entries_for_config_checked (cm_num_hashes s) (cm_num_buckets s) = Inr ?n"
    using E(1) unfolding entries_Inr
    by (auto simp: entries_for_config_checked_def Let_def word_neq_0_conv [symmetric] word_less_nat_alt word_le_nat_alt)
  let ?flag = "if cm_is_empty T s then 1 else 0 :: u8"
  let ?body = "if cm_is_empty T s then []
    else ct_to_bytes T (cm_total_weight s) @ concat (map (ct_to_bytes T) (cm_counts s))"
  define bytes where "bytes = [2, 1, 18, ?flag] @ to_le_bytes (0 :: u32) @ to_le_bytes (cm_num_buckets s) @
    [cm_num_hashes s] @ to_le_bytes (cm_seed_hash s) @ [0] @ ?body"
  have ser: "cm_serialize T s = bytes"
    unfolding cm_serialize_def Let_def write_counts
    by (simp add: bytes_def CM_PREAMBLE_LONGS_SHORT_def CM_SERIAL_VERSION_def CM_FLAGS_IS_EMPTY_def
        family_countmin_def with_capacity_def into_bytes_def write_u8_def u32_le_codec.wr_enc
        u16_le_codec.wr_enc write_bytes_def)
  have len: "16 \<le> length bytes" by (simp add: bytes_def)
  then have lens: "4 \<le> length bytes - 4" "4 \<le> length bytes - 8" "2 \<le> length bytes - 13" by simp_all
  have hdr: "bytes ! 0 = 2" "bytes ! Suc 0 = 1" "bytes ! 2 = 18" "bytes ! 3 = ?flag" "bytes ! 12 = cm_num_hashes s"
    by (simp_all add: bytes_def nth_append)
  have fields: "take 4 (drop 8 bytes) = to_le_bytes (cm_num_buckets s)"
    "take 2 (drop 13 bytes) = to_le_bytes (cm_seed_hash s)" "drop 16 bytes = ?body"
    by (simp_all add: bytes_def)
  have rd8: "read_u8 (advance k (new_slice bytes)) = Some (bytes ! k, advance (Suc k) (new_slice bytes))" if "k < 16" for k
    using that len by (simp add: read_u8_at)
  have rd: "read_u8 (new_slice bytes) = Some (2, advance 1 (new_slice bytes))"
    "read_u8 (advance 1 (new_slice bytes)) = Some (1, advance 2 (new_slice bytes))"
    "read_u8 (advance 2 (new_slice bytes)) = Some (18, advance 3 (new_slice bytes))"
    "read_u8 (advance 3 (new_slice bytes)) = Some (?flag, advance 4 (new_slice bytes))"
    "read_u8 (advance 12 (new_slice bytes)) = Some (cm_num_hashes s, advance 13 (new_slice bytes))"
    "read_u8 (advance 15 (new_slice bytes)) = Some (bytes ! 15, advance 16 (new_slice bytes))"
    using rd8 [of 0] rd8 [of 1, unfolded Suc_1] rd8 [of 2] rd8 [of 3] rd8 [of 12] rd8 [of 15] hdr by simp_all
  have rest: "remaining (advance 16 (new_slice bytes)) = ?body" using fields(3) by simp
  have make: "cm_make T (cm_num_hashes s) (cm_num_buckets s) (cm_seed s) ?n =
      Inr (s\<lparr>cm_total_weight := ct_zero T, cm_counts := replicate ?n (ct_zero T)\<rparr>)"
    using E by (simp add: cm_make_def)
  have "cm_deserialize_with_seed T bytes (cm_seed s) = Inr s"
  proof (cases "cm_is_empty T s")
    case True
    have "replicate ?n (ct_zero T) = cm_counts s" by (rule replicate_length_same) (use zero True in blast)
    moreover have "cm_total_weight s = ct_zero T" using True by (simp add: cm_is_empty_def)
    ultimately show ?thesis
      using rd lens True E(3) unfolding cm_deserialize_with_seed_def
      by (simp add: Let_def fields read_u16_le_at read_u32_le_at entries make validate_id_def family_countmin_def
          ensure_serial_version_is_def CM_SERIAL_VERSION_def ensure_preamble_longs_in_def
          CM_PREAMBLE_LONGS_SHORT_def check_seed_hash_def CM_FLAGS_IS_EMPTY_def)
  next
    case False
    have total: "read_value T tag (advance 16 (new_slice bytes)) = Inr (cm_total_weight s, advance 24 (new_slice bytes))" for tag
      using read_value_ok [of "advance 16 (new_slice bytes)" "cm_total_weight s"] rest False by simp
    have "remaining (advance 24 (new_slice bytes)) = concat (map (ct_to_bytes T) (cm_counts s)) @ []"
      using arg_cong [OF fields(3), of "drop 8"] False length_to_bytes [of "cm_total_weight s"] by simp
    then have counts: "read_counts T ?n (advance 24 (new_slice bytes)) =
        Inr (cm_counts s, advance (8 * ?n) (advance 24 (new_slice bytes)))"
      by (rule read_counts_ok)
    show ?thesis
      using rd lens False E(3) unfolding cm_deserialize_with_seed_def
      by (simp add: Let_def fields read_u16_le_at read_u32_le_at entries make validate_id_def family_countmin_def
          ensure_serial_version_is_def CM_SERIAL_VERSION_def ensure_preamble_longs_in_def
          CM_PREAMBLE_LONGS_SHORT_def check_seed_hash_def CM_FLAGS_IS_EMPTY_def total counts)
  qed
  then show ?thesis by (simp only: ser)
qed

lemma counted_empty:
  assumes "counted s xs" and "cm_is_empty T s" and "v \<in> set (cm_counts s)"
  shows "v = ct_zero T"
proof -
  have "weight xs = 0" using assms(1,2) val_zero by (simp add: counted_def cm_is_empty_def)
  moreover obtain i where i: "i < length (cm_counts s)" "v = cm_counts s ! i" using assms(3) by (auto simp: in_set_conv_nth)
  moreover have "val v = cell s xs i"
    using assms(1) i cm_okD(1) [of s] by (simp add: counted_def)
  ultimately have "val v = 0" using cell_abs [of s xs i] by simp
  then show ?thesis using val_inj val_zero by metis
qed

end

section \<open>The counter types of the crate\<close>

lemma unat_ucast_le64: "LENGTH('a) \<le> 64 \<Longrightarrow> unat (ucast (w :: 'a::len word) :: u64) = unat w"
proof -
  assume a: "LENGTH('a) \<le> 64"
  have "unat w < 2 ^ LENGTH('a)" by (rule unsigned_less)
  also have "(2 :: nat) ^ LENGTH('a) \<le> 2 ^ 64" using a by (intro power_increasing) simp_all
  finally show ?thesis by (simp add: unsigned_ucast_eq take_bit_nat_eq_self)
qed

lemma unsigned_count_value:
  assumes "LENGTH('a::len) \<le> 64"
  shows "count_value (unsigned_count :: 'a word count_type) uint 0 (2 ^ LENGTH('a) - 1)"
proof
  fix v w :: "'a word"
  show "uint v = uint w \<Longrightarrow> v = w" by (rule unsigned_word_eqI)
  show "uint v \<le> 2 ^ LENGTH('a) - 1" using unsigned_less [of v, where 'a = int] by simp
  show "uint (ct_max unsigned_count :: 'a word) = 2 ^ LENGTH('a) - 1"
    by (simp add: unsigned_count_def unsigned_minus_1_eq_mask mask_eq_exp_minus_1)
  show "uint (ct_add unsigned_count v w) = uint v + uint w"
    if "uint v + uint w \<le> 2 ^ LENGTH('a) - 1"
    using that by (simp add: unsigned_count_def uint_word_ariths take_bit_int_eq_self)
  show "ct_less unsigned_count v w \<longleftrightarrow> uint v < uint w" by (simp add: unsigned_count_def word_less_def)
  have le: "(ucast v :: u64) \<le> ucast (- 1 :: 'a word)"
  proof -
    have "unat v \<le> unat (- 1 :: 'a word)" by (simp only: word_le_nat_alt [symmetric] word_order.extremum)
    then show ?thesis by (simp only: word_le_nat_alt unat_ucast_le64 [OF assms])
  qed
  have "unat (ucast (ucast v :: u64) :: 'a word) = take_bit LENGTH('a) (unat (ucast v :: u64))"
    by (rule unsigned_ucast_eq)
  also have "\<dots> = unat v"
    unfolding unat_ucast_le64 [OF assms] by (simp add: take_bit_nat_eq_self)
  finally have "ucast (ucast v :: u64) = v" by (rule unsigned_word_eqI)
  then show "ct_try_from_bytes unsigned_count (ct_to_bytes unsigned_count v) = Inr v"
    using le by (simp add: unsigned_count_def Let_def not_less)
qed (simp_all add: unsigned_count_def)

lemma signed_count_value:
  assumes "1 < LENGTH('a::len)" and "LENGTH('a) \<le> 64"
  shows "count_value (signed_count :: 'a word count_type) sint (- (2 ^ (LENGTH('a) - 1))) (2 ^ (LENGTH('a) - 1) - 1)"
proof
  let ?M = "2 ^ (LENGTH('a) - 1) :: int"
  fix v w :: "'a word"
  have range: "- ?M \<le> sint v" "sint v < ?M" for v :: "'a word"
    using sint_ge [of v] sint_lt [of v] by simp_all
  have of: "sint (word_of_int x :: 'a word) = x" if "- ?M \<le> x" "x < ?M" for x
    using that by (simp add: signed_of_int signed_take_bit_int_eq_self)
  show "sint v = sint w \<Longrightarrow> v = w" by (rule signed_word_eqI)
  show "- ?M \<le> sint v" "sint v \<le> ?M - 1" using range by (simp, metis range(2) zle_diff1_eq)
  show "sint (ct_max signed_count :: 'a word) = ?M - 1"
    unfolding signed_count_def count_type.select_convs by (rule of) simp_all
  show "sint (ct_add signed_count v w) = sint v + sint w"
    if "- ?M \<le> sint v + sint w" "sint v + sint w \<le> ?M - 1"
  proof -
    have "v + w = word_of_int (sint v + sint w)" by simp
    then show ?thesis using of [of "sint v + sint w"] that by (simp add: signed_count_def)
  qed
  show "ct_less signed_count v w \<longleftrightarrow> sint v < sint w" by (simp add: signed_count_def word_sless_alt)
  show "sint (ct_abs signed_count v) = \<bar>sint v\<bar>" if "\<bar>sint v\<bar> \<le> ?M - 1"
  proof -
    have "- v = word_of_int (- sint v)" by simp
    then show ?thesis using of [of "- sint v"] that by (simp add: signed_count_def word_sle_eq)
  qed
  have "?M \<le> 2 ^ 63" using assms(2) by (intro power_increasing) simp_all
  then have "signed_take_bit 63 (sint v) = sint v"
    using range [of v] by (intro signed_take_bit_int_eq_self) linarith+
  moreover have "sint (word_of_int (sint v) :: u64) = signed_take_bit (LENGTH(64) - 1) (sint v)"
    by (rule sint_sbintrunc')
  ultimately have "sint (word_of_int (sint v) :: u64) = sint v" by simp
  then show "ct_try_from_bytes signed_count (ct_to_bytes signed_count v) = Inr v"
    using range [of v] by (simp add: signed_count_def Let_def)
qed (simp_all add: signed_count_def)

interpretation u64_count: count_value "unsigned_count :: u64 count_type" uint 0 "2 ^ 64 - 1"
  using unsigned_count_value [where 'a = 64] by simp

interpretation i64_count: count_value "signed_count :: u64 count_type" sint "- (2 ^ 63)" "2 ^ 63 - 1"
  using signed_count_value [where 'a = 64] by simp

interpretation u8_count: count_value "unsigned_count :: u8 count_type" uint 0 255
  using unsigned_count_value [where 'a = 8] by simp

section \<open>Properties\<close>

text \<open>The frequency of an item in a stream of unsigned counts, and the weight of the stream\<close>

definition item_frequency :: "(u8 list list \<times> u64) list \<Rightarrow> u8 list list \<Rightarrow> int" where
  "item_frequency stream item = sum_list (map (\<lambda>(_, w). uint w) (filter (\<lambda>(x, _). x = item) stream))"

definition item_total :: "(u8 list list \<times> u64) list \<Rightarrow> int" where
  "item_total stream = sum_list (map (\<lambda>(_, w). uint w) stream)"

definition cm_of_stream ::
  "'v count_type \<Rightarrow> u8 \<Rightarrow> u32 \<Rightarrow> u64 \<Rightarrow> (u8 list list \<times> 'v) list \<Rightarrow> 'v count_min res" where
  "cm_of_stream T h b seed stream =
     bind_res (cm_with_seed T h b seed) (\<lambda>s. cm_update_all T s stream)"

text \<open>What an item shares its bucket with in a row\<close>

definition collided :: "'v count_min \<Rightarrow> (u8 list list \<times> u64) list \<Rightarrow> u8 list list \<Rightarrow> nat \<Rightarrow> int" where
  "collided s stream item row =
     (let seed = cm_hash_seeds s ! row
      in sum_list (map (\<lambda>(_, w). uint w)
           (filter (\<lambda>(x, _). bucket_index s x seed = bucket_index s item seed) stream)))"

lemma u64_weight: "u64_count.weight xs = item_total xs"
  by (simp add: u64_count.weight_def item_total_def split_beta)

lemma u64_freq: "u64_count.freq xs item = item_frequency xs item"
  by (simp add: u64_count.freq_def item_frequency_def)

lemma u64_cell:
  assumes "3 \<le> buckets s"
  shows "u64_count.cell s xs (slot_of s item row) = collided s xs item row"
proof -
  have "slot_of s item row mod buckets s = bucket_index s item (cm_hash_seeds s ! row)"
    using bucket_lt [OF assms] by (simp add: slot_of_def)
  then have "hits s x (slot_of s item row) \<longleftrightarrow>
      bucket_index s x (cm_hash_seeds s ! row) = bucket_index s item (cm_hash_seeds s ! row)" for x
    by (simp add: hits_def slot_of_div [OF assms])
  then show ?thesis by (simp add: u64_count.cell_def collided_def Let_def)
qed

context count_value
begin

lemma of_stream_counted:
  assumes "cm_with_seed T h b seed = Inr s0" and "weight stream \<le> hi"
  shows "\<exists>s. cm_of_stream T h b seed stream = Inr s \<and> counted s stream \<and> same_config s0 s"
  using update_all_counted [OF with_seed_counted(1) [OF assms(1)], of stream] assms
  by (simp add: cm_of_stream_def)

lemma cell_mset: "mset xs = mset ys \<Longrightarrow> cell s xs i = cell s ys i"
proof -
  assume "mset xs = mset ys"
  then have "mset (map (\<lambda>(item, w). val w) (filter (\<lambda>(item, w). hits s item i) xs)) =
      mset (map (\<lambda>(item, w). val w) (filter (\<lambda>(item, w). hits s item i) ys))"
    by simp
  then show ?thesis unfolding cell_def by (metis sum_mset_sum_list)
qed

lemma weight_mset: "mset xs = mset ys \<Longrightarrow> weight xs = weight ys"
proof -
  assume "mset xs = mset ys"
  then have "mset (map (\<lambda>(item, w). \<bar>val w\<bar>) xs) = mset (map (\<lambda>(item, w). \<bar>val w\<bar>) ys)" by simp
  then show ?thesis unfolding weight_def by (metis sum_mset_sum_list)
qed

text \<open>A merge is the sketch of the joined stream, in any order.\<close>

lemma merge_of_streams:
  assumes s0: "cm_with_seed T h b seed = Inr s0" and room: "weight zs \<le> hi" and zs: "mset zs = mset (xs @ ys)"
    and s: "cm_of_stream T h b seed xs = Inr s" "cm_of_stream T h b seed ys = Inr s'"
  shows "cm_merge T s s' = cm_of_stream T h b seed zs"
proof -
  have w: "weight zs = weight xs + weight ys" using weight_mset [OF zs] by simp
  have "weight xs \<le> hi" "weight ys \<le> hi" using w room weight_ge0 [of xs] weight_ge0 [of ys] by linarith+
  then have c: "counted s xs" "same_config s0 s" "counted s' ys" "same_config s0 s'"
    using of_stream_counted [OF s0] s by (metis sum.inject(2))+
  have config: "same_config s s'" using c(2,4) by (simp add: same_config_def)
  obtain m where m: "cm_merge T s s' = Inr m" "counted m (xs @ ys)" "same_config s m"
    using merge_counted [OF c(1,3) config] w room by auto
  obtain t where t: "cm_of_stream T h b seed zs = Inr t" "counted t zs" "same_config s0 t"
    using of_stream_counted [OF s0 room] by blast
  have "m = t"
  proof (rule counted_unique [OF m(2) t(2)])
    show "same_config m t" using m(3) t(3) c(2) by (simp add: same_config_def)
    show "weight (xs @ ys) = weight zs" by (rule weight_mset) (simp add: zs)
    show "cell m (xs @ ys) i = cell m zs i" for i by (rule cell_mset) (simp add: zs)
  qed
  then show ?thesis using m(1) t(1) by simp
qed

lemma round_trip_of_stream:
  assumes "cm_with_seed T h b seed = Inr s0" and "weight stream \<le> hi"
  shows "\<exists>s. cm_of_stream T h b seed stream = Inr s \<and> cm_deserialize_with_seed T (cm_serialize T s) seed = Inr s"
proof -
  obtain s where s: "cm_of_stream T h b seed stream = Inr s" "counted s stream" "same_config s0 s"
    using of_stream_counted [OF assms] by blast
  have "cm_seed s = seed" using s(3) with_seed_counted(4) [OF assms(1)] by (simp add: same_config_def)
  moreover have "cm_ok s" using s(2) by (simp add: counted_def)
  ultimately show ?thesis using cm_round_trip [of s] counted_empty [OF s(2)] s(1) by auto
qed

end

lemma cm_default_ok: "\<exists>s. cm_with_seed T 1 3 DEFAULT_UPDATE_SEED = Inr s"
  by (simp add: cm_with_seed_def entries_for_config_def cm_make_def MAX_TABLE_ENTRIES_def default_seed_hash)

text \<open>
  C24. The estimate of a CountMin sketch of 64-bit counters, after any stream of total weight below
  \<open>2 ^ 64\<close>, is exactly the least weight, over the rows, of the updates that share the item's bucket.
  It is therefore never below the true frequency and never above the weight of the stream.
\<close>

theorem countmin_estimate_exact:
  assumes "cm_with_seed (unsigned_count :: u64 count_type) h b seed = Inr s0" and "item_total stream < 2 ^ 64"
  shows "\<exists>s v. cm_of_stream unsigned_count h b seed stream = Inr s \<and> cm_estimate unsigned_count s item = Inr v \<and>
    (\<exists>row < unat h. uint v = collided s stream item row) \<and>
    (\<forall>row < unat h. uint v \<le> collided s stream item row) \<and>
    item_frequency stream item \<le> uint v \<and> uint v \<le> item_total stream \<and>
    uint (cm_total_weight s) = item_total stream"
proof -
  have room: "u64_count.weight stream \<le> 2 ^ 64 - 1" using assms(2) by (simp add: u64_weight)
  obtain s where s: "cm_of_stream unsigned_count h b seed stream = Inr s" "u64_count.counted s stream" "same_config s0 s"
    using u64_count.of_stream_counted [OF assms(1) room] by blast
  have h: "rows s = unat h" using s(3) u64_count.with_seed_counted(2) [OF assms(1)] by (simp add: same_config_def)
  have B: "3 \<le> buckets s" using s(2) cm_okD(4) [of s] by (simp add: u64_count.counted_def)
  obtain v where v: "cm_estimate unsigned_count s item = Inr v"
    "\<exists>row < unat h. uint v = collided s stream item row" "\<forall>row < unat h. uint v \<le> collided s stream item row"
    using u64_count.estimate_counted [OF s(2) room, of item] unfolding u64_cell [OF B] h by blast
  obtain row where row: "uint v = u64_count.cell s stream (slot_of s item row)"
    using v(2) by (auto simp: u64_cell [OF B])
  have "item_frequency stream item \<le> uint v"
    unfolding row u64_freq [symmetric] by (rule u64_count.freq_le_cell [OF B]) auto
  moreover have "uint v \<le> item_total stream"
    using u64_count.cell_abs [of s stream] unfolding row u64_weight [symmetric] by (metis abs_ge_self order_trans)
  moreover have "uint (cm_total_weight s) = item_total stream"
    using s(2) by (simp add: u64_count.counted_def u64_weight)
  ultimately show ?thesis using s(1) v by blast
qed

theorem countmin_estimate_exact_witness:
  "\<exists>s v. cm_of_stream unsigned_count 1 3 DEFAULT_UPDATE_SEED [([[7]], 5), ([[8]], 2)] = Inr s \<and>
    cm_estimate unsigned_count s [[7]] = Inr v \<and> 5 \<le> uint (v :: u64) \<and> uint v \<le> 7"
proof -
  obtain s0 :: "u64 count_min" where s0: "cm_with_seed unsigned_count 1 3 DEFAULT_UPDATE_SEED = Inr s0"
    using cm_default_ok by blast
  have f: "item_total [([[7]], 5), ([[8]], 2)] = 7" "item_frequency [([[7]], 5), ([[8]], 2)] [[7]] = 5"
    by (simp_all add: item_total_def item_frequency_def)
  show ?thesis
    using countmin_estimate_exact [OF s0, of "[([[7]], 5), ([[8]], 2)]" "[[7]]"] unfolding f by auto
qed

text \<open>
  CountMin is linear: the merge of the sketches of two streams is the sketch of the joined
  stream, counter for counter, in whatever order its updates come, for unsigned counters and for
  signed ones (with negative weights) as long as the absolute weights stay in range.
\<close>

theorem countmin_merge_is_concatenation:
  assumes "cm_with_seed (unsigned_count :: u64 count_type) h b seed = Inr s0"
    and "item_total zs < 2 ^ 64" and "mset zs = mset (xs @ ys)"
    and "sum_list (map (\<lambda>(_, w). \<bar>sint (w :: u64)\<bar>) zs') < 2 ^ 63" and "mset zs' = mset (xs' @ ys')"
  shows "(\<forall>s s'. cm_of_stream unsigned_count h b seed xs = Inr s \<longrightarrow> cm_of_stream unsigned_count h b seed ys = Inr s' \<longrightarrow>
      cm_merge unsigned_count s s' = cm_of_stream unsigned_count h b seed zs) \<and>
    (\<forall>s s'. cm_of_stream signed_count h b seed xs' = Inr s \<longrightarrow> cm_of_stream signed_count h b seed ys' = Inr s' \<longrightarrow>
      cm_merge signed_count s s' = cm_of_stream signed_count h b seed zs')"
proof -
  have u: "u64_count.weight zs \<le> 2 ^ 64 - 1" using assms(2) by (simp add: u64_weight)
  have i: "i64_count.weight zs' \<le> 2 ^ 63 - 1" using assms(4) by (simp add: i64_count.weight_def split_beta)
  obtain s1 :: "u64 count_min" where s1: "cm_with_seed signed_count h b seed = Inr s1"
    using assms(1) by (auto simp: cm_with_seed_def cm_make_def bind_res_Inr_iff)
  show ?thesis
    using u64_count.merge_of_streams [OF assms(1) u assms(3)] i64_count.merge_of_streams [OF s1 i assms(5)] by blast
qed

theorem countmin_merge_is_concatenation_witness:
  "\<exists>s s' m. cm_of_stream unsigned_count 1 3 DEFAULT_UPDATE_SEED [([[7]], 5 :: u64)] = Inr s \<and>
    cm_of_stream unsigned_count 1 3 DEFAULT_UPDATE_SEED [([[8]], 2)] = Inr s' \<and>
    cm_merge unsigned_count s s' = Inr m \<and>
    cm_of_stream unsigned_count 1 3 DEFAULT_UPDATE_SEED [([[8]], 2), ([[7]], 5)] = Inr m"
proof -
  obtain s0 :: "u64 count_min" where s0: "cm_with_seed unsigned_count 1 3 DEFAULT_UPDATE_SEED = Inr s0"
    using cm_default_ok by blast
  have ex: "\<exists>s. cm_of_stream unsigned_count 1 3 DEFAULT_UPDATE_SEED xs = Inr s" if "item_total xs < 2 ^ 64" for xs
    using u64_count.of_stream_counted [OF s0, of xs] that by (auto simp: u64_weight)
  have r: "item_total [([[7]], 5)] < 2 ^ 64" "item_total [([[8]], 2)] < 2 ^ 64"
    "item_total [([[8]], 2), ([[7]], 5)] < 2 ^ 64"
    by (simp_all add: item_total_def)
  have m: "mset [([[8]], 2), ([[7]], 5)] = mset ([([[7 :: u8]], 5 :: u64)] @ [([[8]], 2)])" by simp
  show ?thesis
    using countmin_merge_is_concatenation [OF s0 r(3) m, of "[]" "[]" "[]"] ex [OF r(1)] ex [OF r(2)] ex [OF r(3)]
    by auto
qed

text \<open>
  A sketch of any stream whose absolute weights stay in range is written and read back
  unchanged, with unsigned and with signed counters.
\<close>

theorem countmin_round_trip:
  assumes "cm_with_seed (unsigned_count :: u64 count_type) h b seed = Inr s0"
    and "item_total xs < 2 ^ 64" and "sum_list (map (\<lambda>(_, w). \<bar>sint (w :: u64)\<bar>) ys) < 2 ^ 63"
  shows "\<exists>s t. cm_of_stream unsigned_count h b seed xs = Inr s \<and>
    cm_deserialize_with_seed unsigned_count (cm_serialize unsigned_count s) seed = Inr s \<and>
    cm_of_stream signed_count h b seed ys = Inr t \<and>
    cm_deserialize_with_seed signed_count (cm_serialize signed_count t) seed = Inr t"
proof -
  have u: "u64_count.weight xs \<le> 2 ^ 64 - 1" using assms(2) by (simp add: u64_weight)
  have i: "i64_count.weight ys \<le> 2 ^ 63 - 1" using assms(3) by (simp add: i64_count.weight_def split_beta)
  obtain s1 :: "u64 count_min" where s1: "cm_with_seed signed_count h b seed = Inr s1"
    using assms(1) by (auto simp: cm_with_seed_def cm_make_def bind_res_Inr_iff)
  show ?thesis
    using u64_count.round_trip_of_stream [OF assms(1) u] i64_count.round_trip_of_stream [OF s1 i] by blast
qed

theorem countmin_round_trip_witness:
  "\<exists>s. cm_of_stream unsigned_count 1 3 DEFAULT_UPDATE_SEED [([[7]], 5 :: u64)] = Inr s \<and>
    cm_deserialize_with_seed unsigned_count (cm_serialize unsigned_count s) DEFAULT_UPDATE_SEED = Inr s"
proof -
  obtain s0 :: "u64 count_min" where s0: "cm_with_seed unsigned_count 1 3 DEFAULT_UPDATE_SEED = Inr s0"
    using cm_default_ok by blast
  have r: "item_total [([[7]], 5)] < 2 ^ 64" by (simp add: item_total_def)
  show ?thesis using countmin_round_trip [OF s0 r, of "[]"] by auto
qed

text \<open>
  The documented \<open>lower_bound\<close> is not one: in the smallest sketch, one row of three buckets, some
  item that was never offered has the lower bound 1 after a single update with another item.
\<close>

theorem countmin_lower_bound_above_frequency:
  "\<exists>x y s. cm_of_stream unsigned_count 1 3 DEFAULT_UPDATE_SEED [(x, 1 :: u64)] = Inr s \<and>
    item_frequency [(x, 1)] y = 0 \<and> cm_lower_bound unsigned_count s y = Inr 1"
proof -
  obtain s0 :: "u64 count_min" where s0: "cm_with_seed unsigned_count 1 3 DEFAULT_UPDATE_SEED = Inr s0"
    using cm_default_ok by blast
  note W = u64_count.with_seed_counted [OF s0]
  let ?item = "\<lambda>i. [[of_nat i]] :: u8 list list"
  let ?b = "\<lambda>i. bucket_index s0 (?item i) (cm_hash_seeds s0 ! 0)"
  have B: "buckets s0 = 3" by (simp add: W(3))
  have "\<not> inj_on ?b {..<4}"
  proof
    assume "inj_on ?b {..<4}"
    moreover have "?b ` {..<4} \<subseteq> {..<3}" using bucket_lt [of s0] B by auto
    ultimately have "card {..<4 :: nat} \<le> card {..<3 :: nat}" by (intro card_inj_on_le) auto
    then show False by simp
  qed
  then obtain i j where ij: "i < 4" "j < 4" "i \<noteq> j" "?b i = ?b j" by (auto simp: inj_on_def)
  have ne: "?item i \<noteq> ?item j"
  proof
    assume "?item i = ?item j"
    then have "unat (of_nat i :: u8) = unat (of_nat j :: u8)" by simp
    then show False using ij by (simp add: unat_of_nat)
  qed
  have room: "u64_count.weight [(?item i, 1)] \<le> 2 ^ 64 - 1" by (simp add: u64_weight item_total_def)
  obtain s where s: "cm_of_stream unsigned_count 1 3 DEFAULT_UPDATE_SEED [(?item i, 1)] = Inr s"
    "u64_count.counted s [(?item i, 1)]" "same_config s0 s"
    using u64_count.of_stream_counted [OF s0 room] by blast
  have B': "3 \<le> buckets s" and h: "rows s = 1" using B W(2) s(3) by (simp_all add: same_config_def)
  have same: "bucket_index s (?item i) (cm_hash_seeds s ! 0) = bucket_index s (?item j) (cm_hash_seeds s ! 0)"
    using ij(4) s(3) by (simp add: bucket_index_def same_config_def)
  obtain v where v: "cm_estimate unsigned_count s (?item j) = Inr v" "uint v = collided s [(?item i, 1)] (?item j) 0"
    using u64_count.estimate_counted [OF s(2) room, of "?item j"] unfolding u64_cell [OF B'] h by auto
  have "uint v = 1" using v(2) same by (simp add: collided_def)
  then have "v = 1" by (metis uint_1 unsigned_word_eqI)
  then have "cm_lower_bound unsigned_count s (?item j) = Inr 1" using v(1) by (simp add: cm_lower_bound_def)
  moreover have "item_frequency [(?item i, 1)] (?item j) = 0" using ne by (simp add: item_frequency_def)
  ultimately show ?thesis using s(1) by blast
qed

end
