(* ===== verification/Bloom.thy ===== *)
theory Bloom
  imports Codec XxHash Murmur
begin

text \<open>
  The Bloom filter of \<open>src/datasketches/src/bloom/sketch.rs\<close>. An item is the list of byte chunks its
  \<open>Hash\<close> implementation writes. A bit access outside the array is a panic, and so is the remainder by
  a capacity of zero; neither occurs in a filter that the builder or the reader makes. The sizing
  formulas (\<open>with_accuracy\<close>, the suggestions) and the load statistics work on \<open>f64\<close> and are left out.
\<close>

section \<open>The filter\<close>

definition BLOOM_SERIAL_VERSION :: u8 where "BLOOM_SERIAL_VERSION = 1"
definition BLOOM_EMPTY_FLAG_MASK :: u8 where "BLOOM_EMPTY_FLAG_MASK = 4"

record bloom_filter =
  bf_seed :: u64
  bf_num_hashes :: u16
  bf_num_bits_set :: u64
  bf_bit_array :: "u64 list"

definition bf_is_empty :: "bloom_filter \<Rightarrow> bool" where
  "bf_is_empty f \<longleftrightarrow> bf_num_bits_set f = 0"

definition bf_capacity :: "bloom_filter \<Rightarrow> nat" where
  "bf_capacity f = length (bf_bit_array f) * 64"

definition bf_compute_hash :: "bloom_filter \<Rightarrow> u8 list list \<Rightarrow> u64 \<times> u64" where
  "bf_compute_hash f item =
     (let h0 = xxhash_hash (bf_seed f) item;
          h1 = xxhash_hash h0 item
      in (h0, h1))"

definition compute_bit_index :: "bloom_filter \<Rightarrow> u64 \<Rightarrow> u64 \<Rightarrow> nat \<Rightarrow> nat res" where
  "compute_bit_index f h0 h1 i =
     (let h = h0 + of_nat i * h1
      in if bf_capacity f = 0 then Inl (Panic ''remainder with a divisor of zero'')
         else Inr (unat (drop_bit 1 h) mod bf_capacity f))"

definition bf_get_bit :: "bloom_filter \<Rightarrow> nat \<Rightarrow> bool res" where
  "bf_get_bit f bit_index =
     (let word_index = drop_bit 6 bit_index;
          bit_offset = bit_index AND 63;
          msk = push_bit bit_offset 1
      in bind_res (get_at (bf_bit_array f) word_index) (\<lambda>w. Inr (w AND msk \<noteq> 0)))"

definition bf_set_bit :: "bloom_filter \<Rightarrow> nat \<Rightarrow> bloom_filter res" where
  "bf_set_bit f bit_index =
     (let word_index = drop_bit 6 bit_index;
          bit_offset = bit_index AND 63;
          msk = push_bit bit_offset 1
      in bind_res (get_at (bf_bit_array f) word_index) (\<lambda>w.
           if w AND msk = 0 then
             bind_res (set_at (bf_bit_array f) word_index (w OR msk)) (\<lambda>bit_array.
               Inr (f\<lparr>bf_bit_array := bit_array, bf_num_bits_set := bf_num_bits_set f + 1\<rparr>))
           else Inr f))"

text \<open>The loops over the hash functions \<open>1..=num_hashes\<close>\<close>

fun check_bits_from :: "bloom_filter \<Rightarrow> u64 \<Rightarrow> u64 \<Rightarrow> nat list \<Rightarrow> bool res" where
  "check_bits_from f h0 h1 [] = Inr True"
| "check_bits_from f h0 h1 (i # is) =
     bind_res (compute_bit_index f h0 h1 i) (\<lambda>bit_index.
     bind_res (bf_get_bit f bit_index) (\<lambda>b.
       if \<not> b then Inr False else check_bits_from f h0 h1 is))"

definition check_bits :: "bloom_filter \<Rightarrow> u64 \<Rightarrow> u64 \<Rightarrow> bool res" where
  "check_bits f h0 h1 = check_bits_from f h0 h1 [1..<unat (bf_num_hashes f) + 1]"

definition set_bits :: "bloom_filter \<Rightarrow> u64 \<Rightarrow> u64 \<Rightarrow> bloom_filter res" where
  "set_bits f h0 h1 =
     fold_res (\<lambda>f i. bind_res (compute_bit_index f h0 h1 i) (bf_set_bit f)) f [1..<unat (bf_num_hashes f) + 1]"

definition bf_contains :: "bloom_filter \<Rightarrow> u8 list list \<Rightarrow> bool res" where
  "bf_contains f item =
     (if bf_is_empty f then Inr False
      else let (h0, h1) = bf_compute_hash f item in check_bits f h0 h1)"

definition bf_insert :: "bloom_filter \<Rightarrow> u8 list list \<Rightarrow> bloom_filter res" where
  "bf_insert f item = (let (h0, h1) = bf_compute_hash f item in set_bits f h0 h1)"

definition bf_contains_and_insert :: "bloom_filter \<Rightarrow> u8 list list \<Rightarrow> (bloom_filter \<times> bool) res" where
  "bf_contains_and_insert f item =
     (let (h0, h1) = bf_compute_hash f item
      in bind_res (check_bits f h0 h1) (\<lambda>was_present.
         bind_res (set_bits f h0 h1) (\<lambda>f. Inr (f, was_present))))"

definition bf_reset :: "bloom_filter \<Rightarrow> bloom_filter" where
  "bf_reset f = f\<lparr>bf_bit_array := map (\<lambda>_. 0) (bf_bit_array f), bf_num_bits_set := 0\<rparr>"

definition is_compatible :: "bloom_filter \<Rightarrow> bloom_filter \<Rightarrow> bool" where
  "is_compatible f other \<longleftrightarrow> length (bf_bit_array f) = length (bf_bit_array other) \<and>
     bf_num_hashes f = bf_num_hashes other \<and> bf_seed f = bf_seed other"

definition count_ones :: "u64 \<Rightarrow> nat" where
  "count_ones w = length (filter (bit w) [0..<64])"

definition count_all :: "u64 list \<Rightarrow> u64" where
  "count_all ws = foldl (\<lambda>n w. n + of_nat (count_ones w)) 0 ws"

definition bf_union :: "bloom_filter \<Rightarrow> bloom_filter \<Rightarrow> bloom_filter res" where
  "bf_union f other =
     (if is_compatible f other then
        let bit_array = map2 (OR) (bf_bit_array f) (bf_bit_array other)
        in Inr (f\<lparr>bf_bit_array := bit_array, bf_num_bits_set := count_all bit_array\<rparr>)
      else Inl (Panic ''Cannot union incompatible Bloom filters''))"

definition bf_intersect :: "bloom_filter \<Rightarrow> bloom_filter \<Rightarrow> bloom_filter res" where
  "bf_intersect f other =
     (if is_compatible f other then
        let bit_array = map2 (AND) (bf_bit_array f) (bf_bit_array other)
        in Inr (f\<lparr>bf_bit_array := bit_array, bf_num_bits_set := count_all bit_array\<rparr>)
      else Inl (Panic ''Cannot intersect incompatible Bloom filters''))"

definition bf_invert :: "bloom_filter \<Rightarrow> bloom_filter" where
  "bf_invert f =
     f\<lparr>bf_bit_array := map (\<lambda>w. NOT w) (bf_bit_array f),
       bf_num_bits_set := of_nat (bf_capacity f) - bf_num_bits_set f\<rparr>"

section \<open>The builder\<close>

record bloom_builder =
  bb_num_bits :: u64
  bb_num_hashes :: u16
  bb_seed :: u64

definition MIN_NUM_BITS :: u64 where "MIN_NUM_BITS = 1"
definition MAX_NUM_BITS :: u64 where
  "MAX_NUM_BITS = (0x7fffffff - ucast (fam_max_pre_longs family_bloomfilter)) * 64"
definition MIN_NUM_HASHES :: u16 where "MIN_NUM_HASHES = 1"
definition MAX_NUM_HASHES :: u16 where "MAX_NUM_HASHES = 0x7fff"

definition bb_with_size :: "u64 \<Rightarrow> u16 \<Rightarrow> bloom_builder res" where
  "bb_with_size num_bits num_hashes =
     (if \<not> (MIN_NUM_BITS \<le> num_bits \<and> num_bits \<le> MAX_NUM_BITS) then Inl (Panic ''num_bits out of range'')
      else if \<not> (MIN_NUM_HASHES \<le> num_hashes \<and> num_hashes \<le> MAX_NUM_HASHES)
      then Inl (Panic ''num_hashes out of range'')
      else Inr \<lparr>bb_num_bits = num_bits, bb_num_hashes = num_hashes, bb_seed = DEFAULT_UPDATE_SEED\<rparr>)"

definition bb_set_seed :: "bloom_builder \<Rightarrow> u64 \<Rightarrow> bloom_builder" where
  "bb_set_seed b seed = b\<lparr>bb_seed := seed\<rparr>"

definition bb_build :: "bloom_builder \<Rightarrow> bloom_filter" where
  "bb_build b =
     (let num_words = (unat (bb_num_bits b) + 63) div 64
      in \<lparr>bf_seed = bb_seed b, bf_num_hashes = bb_num_hashes b, bf_num_bits_set = 0,
          bf_bit_array = replicate num_words 0\<rparr>)"

section \<open>Serialization\<close>

definition bf_serialize :: "bloom_filter \<Rightarrow> u8 list" where
  "bf_serialize f =
     (let preamble_longs = if bf_is_empty f then fam_min_pre_longs family_bloomfilter
                           else fam_max_pre_longs family_bloomfilter;
          bytes = with_capacity 0;
          bytes = write_u8 bytes preamble_longs;
          bytes = write_u8 bytes BLOOM_SERIAL_VERSION;
          bytes = write_u8 bytes (fam_id family_bloomfilter);
          bytes = write_u8 bytes (if bf_is_empty f then BLOOM_EMPTY_FLAG_MASK else 0);
          bytes = write_u16_le bytes (bf_num_hashes f);
          bytes = write_u16_le bytes 0;
          bytes = write_u64_le bytes (bf_seed f);
          num_longs = of_nat (length (bf_bit_array f)) :: u32;
          bytes = write_i32_le bytes num_longs;
          bytes = write_u32_le bytes 0
      in if bf_is_empty f then into_bytes bytes
         else
           let bytes = write_u64_le bytes (bf_num_bits_set f);
               bytes = foldl write_u64_le bytes (bf_bit_array f)
           in into_bytes bytes)"

definition bf_deserialize :: "u8 list \<Rightarrow> bloom_filter res" where
  "bf_deserialize bytes =
     (let cursor = new_slice bytes
      in bind_res (insufficient_data ''preamble_longs'' (read_u8 cursor)) (\<lambda>(preamble_longs, cursor).
         bind_res (insufficient_data ''serial_version'' (read_u8 cursor)) (\<lambda>(serial_version, cursor).
         bind_res (insufficient_data ''family_id'' (read_u8 cursor)) (\<lambda>(family_id, cursor).
         bind_res (insufficient_data ''flags'' (read_u8 cursor)) (\<lambda>(flags, cursor).
         bind_res (validate_id family_bloomfilter family_id) (\<lambda>_.
         bind_res (ensure_serial_version_is BLOOM_SERIAL_VERSION serial_version) (\<lambda>_.
         bind_res (ensure_preamble_longs_in_range (fam_min_pre_longs family_bloomfilter)
           (fam_max_pre_longs family_bloomfilter) preamble_longs) (\<lambda>_.
         let is_empty = flags AND BLOOM_EMPTY_FLAG_MASK \<noteq> 0
         in bind_res (insufficient_data ''num_hashes'' (read_u16_le cursor)) (\<lambda>(num_hashes, cursor).
         if num_hashes = 0 \<or> 0x7fff < num_hashes then Inl (InvalidData ''invalid num_hashes'')
         else
         bind_res (insufficient_data ''unused_header'' (read_u16_le cursor)) (\<lambda>(_, cursor).
         bind_res (insufficient_data ''seed'' (read_u64_le cursor)) (\<lambda>(seed, cursor).
         bind_res (insufficient_data ''num_longs'' (read_i32_le cursor)) (\<lambda>(num_longs, cursor).
         bind_res (insufficient_data ''unused'' (read_u32_le cursor)) (\<lambda>(_, cursor).
         if num_longs \<le>s 0 then Inl (InvalidData ''invalid num_longs'')
         else
         let num_words = unat num_longs
         in if is_empty then
              Inr \<lparr>bf_seed = seed, bf_num_hashes = num_hashes, bf_num_bits_set = 0,
                bf_bit_array = replicate num_words 0\<rparr>
            else if length (remaining cursor) < (num_words + 1) * 8
            then Inl (InvalidData ''insufficient data: Bloom filter payload'')
            else
              bind_res (insufficient_data ''num_bits_set'' (read_u64_le cursor)) (\<lambda>(serialized_num_bits_set, cursor).
              bind_res (insufficient_data ''bit_array'' (read_many read_u64_le num_words cursor)) (\<lambda>(bit_array, cursor).
              let count = count_all bit_array
              in if serialized_num_bits_set \<noteq> - 1 \<and> serialized_num_bits_set \<noteq> count
                 then Inl (InvalidData ''invalid num_bits_set'')
                 else Inr \<lparr>bf_seed = seed, bf_num_hashes = num_hashes, bf_num_bits_set = count,
                   bf_bit_array = bit_array\<rparr>)))))))))))))))"

section \<open>The array as a set of bits\<close>

definition bits_in :: "u64 list \<Rightarrow> nat set" where
  "bits_in ws = {j. j < length ws * 64 \<and> bit (ws ! (j div 64)) (j mod 64)}"

lemma bits_in_bound: "bits_in ws \<subseteq> {..<length ws * 64}"
  by (auto simp: bits_in_def)

lemma finite_bits_in [simp]: "finite (bits_in ws)"
  by (rule finite_subset [OF bits_in_bound]) simp

lemma card_bits_in: "card (bits_in ws) \<le> length ws * 64"
  using card_mono [OF _ bits_in_bound] by simp

lemma bits_in_replicate [simp]: "bits_in (replicate n 0) = {}"
  by (auto simp: bits_in_def)

lemma bits_in_eqI:
  assumes "length ws = length vs" and "bits_in ws = bits_in vs"
  shows "ws = vs"
proof (rule nth_equalityI)
  fix i
  assume i: "i < length ws"
  show "ws ! i = vs ! i"
  proof (rule bit_word_eqI)
    fix b
    assume "b < LENGTH(64)"
    then have b: "b < 64" by simp
    then have "i * 64 + b < length ws * 64" using i by simp
    moreover have "(i * 64 + b \<in> bits_in ws) = (i * 64 + b \<in> bits_in vs)" using assms(2) by simp
    ultimately show "bit (ws ! i) b = bit (vs ! i) b" using b assms(1) by (simp add: bits_in_def)
  qed
qed (rule assms(1))

lemma bits_in_map2:
  assumes "length ws = length vs" and "\<And>w v b. bit (f w v) b = P (bit w b) (bit v b)" "\<not> P False False"
  shows "bits_in (map2 f ws vs) = {j \<in> {..<length ws * 64}. P (j \<in> bits_in ws) (j \<in> bits_in vs)}"
  using assms by (auto simp: bits_in_def less_mult_imp_div_less)

lemma and_63: "j AND 63 = j mod (64 :: nat)"
  using take_bit_eq_mask [of 6 j] by (simp add: take_bit_eq_mod mask_eq_exp_minus_1)

lemma drop_6: "drop_bit 6 j = j div (64 :: nat)"
  by (simp add: drop_bit_eq_div)

lemma and_bit: "b < 64 \<Longrightarrow> (w :: u64) AND push_bit b 1 \<noteq> 0 \<longleftrightarrow> bit w b"
  by (simp add: bit_iff_and_push_bit_not_eq_0)

lemma bits_in_set:
  assumes "j < length ws * 64"
  shows "bits_in (ws[j div 64 := ws ! (j div 64) OR push_bit (j mod 64) 1]) = insert j (bits_in ws)"
proof (rule set_eqI)
  fix x
  let ?w = "ws ! (j div 64) OR push_bit (j mod 64) 1"
  have j: "j div 64 < length ws" using assms by (simp add: less_mult_imp_div_less)
  show "x \<in> bits_in (ws[j div 64 := ?w]) \<longleftrightarrow> x \<in> insert j (bits_in ws)"
  proof (cases "x div 64 = j div 64")
    case True
    have "x = j \<longleftrightarrow> x mod 64 = j mod 64" using True by (metis div_mult_mod_eq)
    moreover have "bit ?w (x mod 64) \<longleftrightarrow> bit (ws ! (j div 64)) (x mod 64) \<or> x mod 64 = j mod 64"
      by (auto simp: bit_simps)
    ultimately show ?thesis using True j assms by (auto simp: bits_in_def)
  next
    case False
    then have "x \<noteq> j" by auto
    then show ?thesis using False by (simp add: bits_in_def)
  qed
qed

text \<open>Counting\<close>

lemma count_ones_card: "count_ones w = card {b. b < 64 \<and> bit w b}"
proof -
  have "count_ones w = card (set (filter (bit w) [0..<64]))"
    unfolding count_ones_def by (rule distinct_card [symmetric]) simp
  moreover have "set (filter (bit w) [0..<64]) = {b. b < 64 \<and> bit w b}" by auto
  ultimately show ?thesis by simp
qed

lemma card_bits_in_snoc: "card (bits_in (ws @ [w])) = card (bits_in ws) + count_ones w"
proof -
  let ?new = "(\<lambda>b. length ws * 64 + b) ` {b. b < 64 \<and> bit w b}"
  have "bits_in (ws @ [w]) = bits_in ws \<union> ?new"
  proof (rule set_eqI)
    fix j
    show "j \<in> bits_in (ws @ [w]) \<longleftrightarrow> j \<in> bits_in ws \<union> ?new"
    proof (cases "j < length ws * 64")
      case True
      then have "j div 64 < length ws" by (simp add: less_mult_imp_div_less)
      then show ?thesis using True by (auto simp: bits_in_def nth_append)
    next
      case False
      then obtain b where b: "j = length ws * 64 + b" using le_Suc_ex not_less by blast
      show ?thesis
      proof (cases "b < 64")
        case True
        then show ?thesis by (auto simp: b bits_in_def nth_append)
      next
        case False
        then show ?thesis by (auto simp: b bits_in_def)
      qed
    qed
  qed
  moreover have "bits_in ws \<inter> ?new = {}" by (auto simp: bits_in_def)
  moreover have "card ?new = count_ones w" by (simp add: card_image count_ones_card)
  ultimately show ?thesis by (simp add: card_Un_disjoint)
qed

lemma count_all_card: "count_all ws = of_nat (card (bits_in ws))"
  by (induction ws rule: rev_induct) (simp_all add: count_all_def card_bits_in_snoc, simp add: bits_in_def)

section \<open>Well-formed filters\<close>

definition bf_ok :: "bloom_filter \<Rightarrow> bool" where
  "bf_ok f \<longleftrightarrow> 0 < bf_num_hashes f \<and> bf_num_hashes f \<le> MAX_NUM_HASHES \<and> 0 < length (bf_bit_array f) \<and>
     length (bf_bit_array f) < 2 ^ 31 \<and> bf_num_bits_set f = of_nat (card (bits_in (bf_bit_array f)))"

abbreviation bf_bits :: "bloom_filter \<Rightarrow> nat set" where
  "bf_bits f \<equiv> bits_in (bf_bit_array f)"

definition probes :: "bloom_filter \<Rightarrow> u8 list list \<Rightarrow> nat set" where
  "probes f item =
     (let (h0, h1) = bf_compute_hash f item
      in (\<lambda>i. unat (drop_bit 1 (h0 + of_nat i * h1)) mod bf_capacity f) ` {1..unat (bf_num_hashes f)})"

lemma bf_num_bits_set: "bf_ok f \<Longrightarrow> unat (bf_num_bits_set f) = card (bf_bits f)"
proof -
  assume ok: "bf_ok f"
  then have "card (bf_bits f) < 2 ^ 64" using card_bits_in [of "bf_bit_array f"] by (simp add: bf_ok_def)
  then show ?thesis using ok by (simp add: bf_ok_def unat_of_nat)
qed

lemma bf_empty_iff: "bf_ok f \<Longrightarrow> bf_is_empty f \<longleftrightarrow> bf_bits f = {}"
  using bf_num_bits_set [of f] by (simp add: bf_is_empty_def unat_eq_0 [symmetric])

lemma bf_equal:
  "bf_ok f \<Longrightarrow> bf_ok g \<Longrightarrow> is_compatible f g \<Longrightarrow> bf_bits f = bf_bits g \<Longrightarrow> f = g"
  using bits_in_eqI [of "bf_bit_array f" "bf_bit_array g"] by (simp add: bf_ok_def is_compatible_def)

lemma compatible_trans: "is_compatible f g \<Longrightarrow> is_compatible g h \<Longrightarrow> is_compatible f h"
  by (simp add: is_compatible_def)

lemma compatible_sym: "is_compatible f g \<Longrightarrow> is_compatible g f"
  by (simp add: is_compatible_def)

lemma compatible_refl [simp]: "is_compatible f f"
  by (simp add: is_compatible_def)

lemma compatible_probes: "is_compatible f g \<Longrightarrow> probes g item = probes f item"
  by (simp add: probes_def bf_compute_hash_def bf_capacity_def is_compatible_def)

lemma compute_bit_index_ok:
  "bf_ok f \<Longrightarrow> compute_bit_index f h0 h1 i = Inr (unat (drop_bit 1 (h0 + of_nat i * h1)) mod bf_capacity f)"
  by (simp add: compute_bit_index_def Let_def bf_ok_def bf_capacity_def)

lemmas bit_access = Let_def and_63 drop_6 bf_capacity_def less_mult_imp_div_less

lemma bf_get_bit_ok: "j < bf_capacity f \<Longrightarrow> bf_get_bit f j = Inr (j \<in> bf_bits f)"
  using and_bit [of "j mod 64" "bf_bit_array f ! (j div 64)"]
  by (simp add: bf_get_bit_def bit_access bits_in_def del: push_bit_of_1)

lemma bf_set_bit_ok:
  assumes ok: "bf_ok f" and j: "j < bf_capacity f"
  shows "\<exists>f'. bf_set_bit f j = Inr f' \<and> bf_ok f' \<and> is_compatible f f' \<and> bf_bits f' = insert j (bf_bits f)"
proof -
  let ?ws = "bf_bit_array f"
  let ?ws' = "?ws[j div 64 := ?ws ! (j div 64) OR push_bit (j mod 64) 1]"
  let ?f' = "f\<lparr>bf_bit_array := ?ws', bf_num_bits_set := bf_num_bits_set f + 1\<rparr>"
  have jn: "j < length ?ws * 64" using j by (simp add: bf_capacity_def)
  have run: "bf_set_bit f j = Inr (if j \<in> bf_bits f then f else ?f')"
    using jn and_bit [of "j mod 64" "?ws ! (j div 64)"]
    by (cases "bit (?ws ! (j div 64)) (j mod 64)")
      (simp_all add: bf_set_bit_def bit_access bits_in_def del: push_bit_of_1)
  have bits: "bits_in ?ws' = insert j (bits_in ?ws)" by (rule bits_in_set [OF jn])
  show ?thesis
  proof (cases "j \<in> bf_bits f")
    case True
    then show ?thesis using run ok by (intro exI [where x = f]) (simp add: insert_absorb)
  next
    case False
    then have "bf_ok ?f'" using ok bits by (simp add: bf_ok_def del: push_bit_of_1)
    then show ?thesis
      using False run bits by (intro exI [where x = ?f']) (simp add: is_compatible_def del: push_bit_of_1)
  qed
qed

lemma check_bits_from_ok:
  "bf_ok f \<Longrightarrow> check_bits_from f h0 h1 is =
    Inr (\<forall>i \<in> set is. unat (drop_bit 1 (h0 + of_nat i * h1)) mod bf_capacity f \<in> bf_bits f)"
  by (induction "is") (auto simp: compute_bit_index_ok bf_get_bit_ok bf_ok_def bf_capacity_def)

lemma probe_indices: "set [1..<n + 1] = {1..n}"
  by auto

lemma check_bits_ok:
  assumes "bf_ok f" and "bf_compute_hash f item = (h0, h1)"
  shows "check_bits f h0 h1 = Inr (probes f item \<subseteq> bf_bits f)"
  unfolding check_bits_def check_bits_from_ok [OF assms(1)] probe_indices probes_def assms(2) Let_def prod.case
    image_subset_iff
  by (rule HOL.refl)

lemma set_bits_ok:
  assumes ok: "bf_ok f" and h: "bf_compute_hash f item = (h0, h1)"
  shows "\<exists>f'. set_bits f h0 h1 = Inr f' \<and> bf_ok f' \<and> is_compatible f f' \<and> bf_bits f' = bf_bits f \<union> probes f item"
proof -
  let ?j = "\<lambda>i. unat (drop_bit 1 (h0 + of_nat i * h1)) mod bf_capacity f"
  let ?is = "[1..<unat (bf_num_hashes f) + 1]"
  let ?P = "\<lambda>g ks. bf_ok g \<and> is_compatible f g \<and> bf_bits g = bf_bits f \<union> ?j ` set ks"
  have run: "\<exists>f'. set_bits f h0 h1 = Inr f' \<and> ?P f' ?is"
    unfolding set_bits_def
  proof (rule fold_res_invariant [where P = ?P])
    fix g ks i
    assume P: "?P g ks"
    have cap: "bf_capacity g = bf_capacity f" using P by (simp add: bf_capacity_def is_compatible_def)
    have "0 < bf_capacity f" using ok by (simp add: bf_capacity_def bf_ok_def)
    then have "?j i < bf_capacity g" using cap by simp
    then have "\<exists>g'. bf_set_bit g (?j i) = Inr g' \<and> bf_ok g' \<and> is_compatible g g' \<and> bf_bits g' = insert (?j i) (bf_bits g)"
      using P by (intro bf_set_bit_ok) simp_all
    then obtain g' where g': "bf_set_bit g (?j i) = Inr g'" "bf_ok g'" "is_compatible g g'" "bf_bits g' = insert (?j i) (bf_bits g)"
      by (elim exE conjE)
    have "is_compatible f g'" using P g'(3) compatible_trans by blast
    moreover have "bf_bits g' = bf_bits f \<union> ?j ` set (ks @ [i])"
      unfolding g'(4) using P by (simp only: set_append set_simps image_Un image_insert image_empty Un_insert_right Un_empty_right)
    moreover have "bind_res (compute_bit_index g h0 h1 i) (bf_set_bit g) = Inr g'"
      using P g'(1) by (simp only: compute_bit_index_ok cap bind_res_simps)
    ultimately show "\<exists>g'. bind_res (compute_bit_index g h0 h1 i) (bf_set_bit g) = Inr g' \<and> ?P g' (ks @ [i])"
      using g'(2) by (intro exI [where x = g'] conjI)
  qed (use ok in simp)
  have probes: "probes f item = ?j ` set ?is"
    unfolding probes_def h Let_def prod.case probe_indices by (rule HOL.refl)
  show ?thesis unfolding probes by (rule run)
qed

text \<open>One item\<close>

lemma bf_insert_ok:
  assumes "bf_ok f"
  shows "\<exists>f'. bf_insert f item = Inr f' \<and> bf_ok f' \<and> is_compatible f f' \<and> bf_bits f' = bf_bits f \<union> probes f item"
proof (cases "bf_compute_hash f item")
  case (Pair h0 h1)
  show ?thesis unfolding bf_insert_def Pair Let_def prod.case by (rule set_bits_ok [OF assms Pair])
qed

lemma probes_nonempty: "bf_ok f \<Longrightarrow> probes f item \<noteq> {}"
  using unat_gt_0 [of "bf_num_hashes f"]
  by (cases "bf_compute_hash f item") (simp add: probes_def bf_ok_def word_neq_0_conv Suc_le_eq)

lemma bf_contains_ok: "bf_ok f \<Longrightarrow> bf_contains f item = Inr (probes f item \<subseteq> bf_bits f)"
proof (cases "bf_compute_hash f item")
  case (Pair h0 h1)
  assume ok: "bf_ok f"
  show ?thesis
  proof (cases "bf_is_empty f")
    case True
    then have "\<not> probes f item \<subseteq> bf_bits f" using bf_empty_iff [OF ok] probes_nonempty [OF ok] by simp
    then show ?thesis using True by (simp add: bf_contains_def)
  next
    case False
    then show ?thesis by (simp add: bf_contains_def Pair check_bits_ok [OF ok Pair])
  qed
qed

lemma bf_contains_and_insert_ok:
  assumes ok: "bf_ok f"
  shows "bf_contains_and_insert f item =
    bind_res (bf_contains f item) (\<lambda>b. bind_res (bf_insert f item) (\<lambda>f'. Inr (f', b)))"
proof (cases "bf_compute_hash f item")
  case (Pair h0 h1)
  show ?thesis
    by (simp add: bf_contains_and_insert_def bf_insert_def Pair check_bits_ok [OF ok Pair] bf_contains_ok [OF ok])
qed

text \<open>A stream of items\<close>

definition bf_insert_all :: "bloom_filter \<Rightarrow> u8 list list list \<Rightarrow> bloom_filter res" where
  "bf_insert_all f items = fold_res bf_insert f items"

lemma bf_insert_all_ok:
  assumes ok: "bf_ok f"
  shows "\<exists>f'. bf_insert_all f items = Inr f' \<and> bf_ok f' \<and> is_compatible f f' \<and>
    bf_bits f' = bf_bits f \<union> (\<Union>x\<in>set items. probes f x)"
  unfolding bf_insert_all_def
proof (rule fold_res_invariant [where P = "\<lambda>g xs. bf_ok g \<and> is_compatible f g \<and>
    bf_bits g = bf_bits f \<union> (\<Union>x\<in>set xs. probes f x)"])
  fix g xs x
  assume P: "bf_ok g \<and> is_compatible f g \<and> bf_bits g = bf_bits f \<union> (\<Union>x\<in>set xs. probes f x)"
  have "\<exists>g'. bf_insert g x = Inr g' \<and> bf_ok g' \<and> is_compatible g g' \<and> bf_bits g' = bf_bits g \<union> probes g x"
    using P by (intro bf_insert_ok) simp
  then obtain g' where g': "bf_insert g x = Inr g'" "bf_ok g'" "is_compatible g g'" "bf_bits g' = bf_bits g \<union> probes g x"
    by (elim exE conjE)
  have "probes g x = probes f x" using P by (intro compatible_probes) simp
  then have "bf_bits g' = bf_bits f \<union> (\<Union>x\<in>set (xs @ [x]). probes f x)"
    unfolding g'(4) using P by (simp only: set_append set_simps UN_Un UN_insert UN_empty Un_assoc Un_empty_right)
  moreover have "is_compatible f g'" using P g'(3) compatible_trans by blast
  ultimately show "\<exists>g'. bf_insert g x = Inr g' \<and> bf_ok g' \<and> is_compatible f g' \<and>
    bf_bits g' = bf_bits f \<union> (\<Union>x\<in>set (xs @ [x]). probes f x)"
    using g'(1,2) by (intro exI [where x = g'] conjI)
qed (use ok in simp)

section \<open>What the builder makes\<close>

lemma bb_build_ok:
  assumes "bb_with_size num_bits num_hashes = Inr b"
  shows "bf_ok (bb_build (bb_set_seed b seed))" and "bf_bits (bb_build (bb_set_seed b seed)) = {}"
proof -
  let ?f = "bb_build (bb_set_seed b seed)"
  have b: "b = \<lparr>bb_num_bits = num_bits, bb_num_hashes = num_hashes, bb_seed = DEFAULT_UPDATE_SEED\<rparr>"
    "1 \<le> num_bits" "num_bits \<le> MAX_NUM_BITS" "1 \<le> num_hashes" "num_hashes \<le> MAX_NUM_HASHES"
    using assms by (auto simp: bb_with_size_def MIN_NUM_BITS_def MIN_NUM_HASHES_def split: if_splits)
  have n: "1 \<le> unat num_bits" "unat num_bits \<le> 0x1FFFFFFEC0"
    using b(2,3) by (simp_all add: MAX_NUM_BITS_def family_bloomfilter_def word_le_nat_alt)
  have len: "length (bf_bit_array ?f) = (unat num_bits + 63) div 64"
    by (simp add: bb_build_def bb_set_seed_def b(1))
  show bits: "bf_bits ?f = {}" by (simp add: bb_build_def Let_def)
  have "0 < num_hashes" using b(4) by (simp add: word_le_nat_alt word_less_nat_alt)
  moreover have "0 < (unat num_bits + 63) div 64" using n(1) by (simp add: div_greater_zero_iff)
  moreover have "(unat num_bits + 63) div 64 < 2147483648" using n(2) by (simp add: div_less_iff_less_mult)
  ultimately show "bf_ok ?f"
    unfolding bf_ok_def bits len using b(5) by (simp add: bb_build_def bb_set_seed_def b(1))
qed

section \<open>Combination\<close>

lemma compatible_length: "is_compatible f g \<Longrightarrow> length (bf_bit_array f) = length (bf_bit_array g)"
  by (simp add: is_compatible_def)

lemma bf_union_ok:
  assumes "bf_ok f" and "is_compatible f g"
  shows "\<exists>u. bf_union f g = Inr u \<and> bf_ok u \<and> is_compatible f u \<and> bf_bits u = bf_bits f \<union> bf_bits g"
proof -
  let ?ws = "map2 (OR) (bf_bit_array f) (bf_bit_array g)"
  have "bits_in ?ws = {j \<in> {..<length (bf_bit_array f) * 64}. j \<in> bf_bits f \<or> j \<in> bf_bits g}"
    by (rule bits_in_map2 [OF compatible_length [OF assms(2)]]) (simp_all add: bit_simps)
  then have "bits_in ?ws = bf_bits f \<union> bf_bits g"
    using bits_in_bound [of "bf_bit_array f"] bits_in_bound [of "bf_bit_array g"] compatible_length [OF assms(2)] by auto
  then show ?thesis using assms
    by (simp add: bf_union_def bf_ok_def is_compatible_def count_all_card flip: length_greater_0_conv)
qed

lemma bf_intersect_ok:
  assumes "bf_ok f" and "is_compatible f g"
  shows "\<exists>u. bf_intersect f g = Inr u \<and> bf_ok u \<and> is_compatible f u \<and> bf_bits u = bf_bits f \<inter> bf_bits g"
proof -
  let ?ws = "map2 (AND) (bf_bit_array f) (bf_bit_array g)"
  have "bits_in ?ws = {j \<in> {..<length (bf_bit_array f) * 64}. j \<in> bf_bits f \<and> j \<in> bf_bits g}"
    by (rule bits_in_map2 [OF compatible_length [OF assms(2)]]) (simp_all add: bit_simps)
  then have "bits_in ?ws = bf_bits f \<inter> bf_bits g"
    using bits_in_bound [of "bf_bit_array f"] by auto
  then show ?thesis using assms
    by (simp add: bf_intersect_def bf_ok_def is_compatible_def count_all_card flip: length_greater_0_conv)
qed

lemma bf_invert_ok:
  assumes "bf_ok f"
  shows "bf_ok (bf_invert f)" and "is_compatible f (bf_invert f)"
    and "bf_bits (bf_invert f) = {..<bf_capacity f} - bf_bits f"
proof -
  have bits: "bits_in (map (\<lambda>w. NOT w) (bf_bit_array f)) = {..<bf_capacity f} - bf_bits f"
    by (auto simp: bits_in_def bf_capacity_def less_mult_imp_div_less bit_simps)
  then show "bf_bits (bf_invert f) = {..<bf_capacity f} - bf_bits f" by (simp add: bf_invert_def)
  have sub: "bf_bits f \<subseteq> {..<bf_capacity f}" using bits_in_bound by (simp add: bf_capacity_def)
  then have "of_nat (card ({..<bf_capacity f} - bf_bits f)) = (of_nat (bf_capacity f) - of_nat (card (bf_bits f)) :: u64)"
    using card_mono [OF _ sub] by (simp add: card_Diff_subset of_nat_diff)
  then show "bf_ok (bf_invert f)"
    using assms unfolding bf_ok_def by (simp add: bf_invert_def bits)
qed (simp add: bf_invert_def is_compatible_def)

lemma bf_reset_ok:
  assumes "bf_ok f"
  shows "bf_ok (bf_reset f)"
proof -
  have "map (\<lambda>_. 0 :: u64) (bf_bit_array f) = replicate (length (bf_bit_array f)) 0" by (rule map_replicate_const)
  then show ?thesis using assms by (simp add: bf_ok_def bf_reset_def)
qed

section \<open>Serialization\<close>

lemma read_many_length: "read_many rd n s = Some (xs, s') \<Longrightarrow> length xs = n"
  by (induction n arbitrary: s xs s') (auto split: option.splits prod.splits)

lemma bf_deserialize_ok:
  assumes "bf_deserialize bytes = Inr f"
  shows "bf_ok f"
proof -
  have longs: "0 < unat n \<and> unat n < 2 ^ 31" if "\<not> n \<le>s 0" for n :: u32
  proof -
    have pos: "0 < sint n" using that by (simp add: word_sle_eq)
    then have "uint n = sint n" using uint_sint [of n] sint_lt [of n] by (simp add: take_bit_int_eq_self)
    then show ?thesis using pos sint_lt [of n] by (simp add: unat_eq_nat_uint nat_less_iff)
  qed
  have hashes: "0 < h \<and> h \<le> MAX_NUM_HASHES" if "h \<noteq> 0" "\<not> 0x7fff < h" for h :: u16
    using that by (simp add: MAX_NUM_HASHES_def word_neq_0_conv)
  show ?thesis
    using assms unfolding bf_deserialize_def Let_def
    by (auto simp: bind_res_Inr_iff insufficient_data_Inr_iff bf_ok_def hashes count_all_card
        dest!: read_many_length longs split: if_splits)
qed

lemma read_i32_le_at:
  "read_i32_le (advance n (new_slice bs)) =
     (if 4 \<le> length bs - n then Some (from_le_bytes (take 4 (drop n bs)), advance (n + 4) (new_slice bs)) else None)"
  by (simp add: read_i32_le_def read_exact_at)

lemma positive_long:
  assumes "0 < n" and "n < 2 ^ 31"
  shows "\<not> (of_nat n :: u32) \<le>s 0"
proof -
  have "unat (of_nat n :: u32) = n" using assms by (simp add: unat_of_nat)
  then have u: "uint (of_nat n :: u32) = int n" by (simp add: uint_nat)
  have "sint (of_nat n :: u32) = signed_take_bit 31 (int n)" by (simp add: sint_uint u)
  also have "\<dots> = int n" using assms by (simp add: signed_take_bit_int_eq_self)
  finally show ?thesis using assms(1) by (simp add: word_sle_eq)
qed

lemma bf_round_trip:
  assumes ok: "bf_ok f"
  shows "bf_deserialize (bf_serialize f) = Inr f"
proof -
  let ?n = "length (bf_bit_array f)"
  let ?e = "bf_is_empty f"
  have n: "0 < ?n" "?n < 2 ^ 31" using ok by (simp_all add: bf_ok_def)
  have h: "bf_num_hashes f \<noteq> 0" "\<not> 0x7fff < bf_num_hashes f"
    using ok by (auto simp: bf_ok_def MAX_NUM_HASHES_def)
  let ?pre = "if ?e then 3 else 4 :: u8"
  let ?flag = "if ?e then 4 else 0 :: u8"
  let ?body = "if ?e then [] else to_le_bytes (bf_num_bits_set f) @ concat (map to_le_bytes (bf_bit_array f))"
  define bytes where "bytes = [?pre, 1, 21, ?flag] @ to_le_bytes (bf_num_hashes f) @ to_le_bytes (0 :: u16) @
    to_le_bytes (bf_seed f) @ to_le_bytes (of_nat ?n :: u32) @ to_le_bytes (0 :: u32) @ ?body"
  have ser: "bf_serialize f = bytes"
    unfolding bf_serialize_def Let_def u64_le_codec.wr_many
    by (simp add: bytes_def BLOOM_SERIAL_VERSION_def BLOOM_EMPTY_FLAG_MASK_def family_bloomfilter_def
        with_capacity_def into_bytes_def write_u8_def u32_le_codec.wr_enc u16_le_codec.wr_enc u64_le_codec.wr_enc
        write_i32_le_def write_bytes_def)
  have len: "24 \<le> length bytes" by (simp add: bytes_def)
  let ?s = "\<lambda>k. advance k (new_slice bytes)"
  have hdr: "bytes ! 0 = ?pre" "bytes ! Suc 0 = 1" "bytes ! 2 = 21" "bytes ! 3 = ?flag"
    by (simp_all add: bytes_def nth_append)
  have fields: "take 2 (drop 4 bytes) = to_le_bytes (bf_num_hashes f)"
    "take 8 (drop 8 bytes) = to_le_bytes (bf_seed f)"
    "take 4 (drop 16 bytes) = to_le_bytes (of_nat ?n :: u32)" "drop 24 bytes = ?body"
    by (simp_all add: bytes_def)
  have lens: "2 \<le> length bytes - 4" "2 \<le> length bytes - 6" "8 \<le> length bytes - 8" "4 \<le> length bytes - 16"
    "4 \<le> length bytes - 20"
    using len by simp_all
  have rd8: "read_u8 (?s k) = Some (bytes ! k, ?s (Suc k))" if "k < 24" for k
    using that len by (simp add: read_u8_at)
  have rd: "read_u8 (new_slice bytes) = Some (?pre, ?s 1)" "read_u8 (?s 1) = Some (1, ?s 2)"
    "read_u8 (?s 2) = Some (21, ?s 3)" "read_u8 (?s 3) = Some (?flag, ?s 4)"
    using rd8 [of 0] rd8 [of 1, unfolded Suc_1] rd8 [of 2] rd8 [of 3] hdr by simp_all
  have rd': "read_u16_le (?s 4) = Some (bf_num_hashes f, ?s 6)" "read_u64_le (?s 8) = Some (bf_seed f, ?s 16)"
    "read_i32_le (?s 16) = Some (of_nat ?n, ?s 20)"
    using lens by (simp_all add: read_u16_le_at read_u64_le_at read_i32_le_at fields)
  have skip: "\<exists>x. read_u16_le (?s 6) = Some (x, ?s 8)" "\<exists>x. read_u32_le (?s 20) = Some (x, ?s 24)"
    using lens by (simp_all add: read_u16_le_at read_u32_le_at)
  obtain x y where xy: "read_u16_le (?s 6) = Some (x, ?s 8)" "read_u32_le (?s 20) = Some (y, ?s 24)"
    using skip by blast
  have words: "unat (of_nat ?n :: u32) = ?n" using n by (simp add: unat_of_nat)
  have rest: "remaining (?s 24) = ?body" using fields(4) by simp
  note D = bf_deserialize_def Let_def rd' xy h words positive_long [OF n] rest validate_id_def
    family_bloomfilter_def ensure_serial_version_is_def BLOOM_SERIAL_VERSION_def
    ensure_preamble_longs_in_range_def BLOOM_EMPTY_FLAG_MASK_def
  have "bf_deserialize bytes = Inr f"
  proof (cases ?e)
    case True
    have "\<lparr>bf_seed = bf_seed f, bf_num_hashes = bf_num_hashes f, bf_num_bits_set = 0, bf_bit_array = replicate ?n 0\<rparr> = f"
      using bf_empty_iff [OF ok] True ok by (intro bf_equal) (simp_all add: bf_ok_def is_compatible_def)
    then show ?thesis using rd True by (simp add: D)
  next
    case False
    have b: "read_u64_le (?s 24) = Some (bf_num_bits_set f, ?s 32)"
      using u64_le_codec.rd_enc [of "?s 24" "bf_num_bits_set f"] rest False by simp
    have "remaining (?s 32) = concat (map to_le_bytes (bf_bit_array f)) @ []"
      using arg_cong [OF fields(4), of "drop 8"] False by simp
    then have payload: "read_many read_u64_le ?n (?s 32) = Some (bf_bit_array f, advance (8 * ?n) (?s 32))"
      by (rule u64_le_codec.rd_many)
    have "length bytes - 24 = 8 + ?n * 8"
      using arg_cong [OF fields(4), of length] False u64_le_codec.length_wr_many [of "bf_bit_array f"] by simp
    with payload show ?thesis
      using rd False ok b
      by (simp add: D count_all_card bf_ok_def)
  qed
  then show ?thesis by (simp only: ser)
qed

section \<open>Properties\<close>

text \<open>
  C25. A filter from the builder that has taken any stream of items answers \<open>contains\<close> with True for every
  one of them. For any other item it answers True exactly when all its probes were set by the stream; the
  number of bits used is the number of distinct probes.
\<close>

theorem bloom_no_false_negatives:
  assumes "bb_with_size num_bits num_hashes = Inr b"
  shows "\<exists>f. bf_insert_all (bb_build (bb_set_seed b seed)) items = Inr f \<and>
    list_all (\<lambda>x. bf_contains f x = Inr True) items \<and>
    (\<forall>x. bf_contains f x = Inr (probes f x \<subseteq> (\<Union>y\<in>set items. probes f y))) \<and>
    unat (bf_num_bits_set f) = card (\<Union>y\<in>set items. probes f y)"
proof -
  let ?f0 = "bb_build (bb_set_seed b seed)"
  note new = bb_build_ok [OF assms, of seed]
  obtain f where f: "bf_insert_all ?f0 items = Inr f" "bf_ok f" "is_compatible ?f0 f"
    "bf_bits f = bf_bits ?f0 \<union> (\<Union>x\<in>set items. probes ?f0 x)"
    using bf_insert_all_ok [OF new(1)] by blast
  have bits: "bf_bits f = (\<Union>x\<in>set items. probes f x)"
    unfolding f(4) new(2) using compatible_probes [OF f(3)] by simp
  have contains: "bf_contains f x = Inr (probes f x \<subseteq> (\<Union>y\<in>set items. probes f y))" for x
    using bf_contains_ok [OF f(2), of x] by (simp only: bits)
  have "list_all (\<lambda>x. bf_contains f x = Inr True) items"
    unfolding contains list_all_iff by blast
  then show ?thesis using f(1) contains bf_num_bits_set [OF f(2)] unfolding bits by blast
qed

lemma bb_example: "bb_with_size 100 3 = Inr \<lparr>bb_num_bits = 100, bb_num_hashes = 3, bb_seed = DEFAULT_UPDATE_SEED\<rparr>"
  by (simp add: bb_with_size_def MIN_NUM_BITS_def MAX_NUM_BITS_def MIN_NUM_HASHES_def MAX_NUM_HASHES_def
      family_bloomfilter_def)

theorem bloom_no_false_negatives_witness:
  "\<exists>b f. bb_with_size 100 3 = Inr b \<and> bf_insert_all (bb_build (bb_set_seed b 5)) [[[1]], [[2]]] = Inr f \<and>
    bf_contains f [[2]] = Inr True"
  using bloom_no_false_negatives [OF bb_example, of 5 "[[[1]], [[2]]]"] bb_example by auto

text \<open>
  \<open>contains_and_insert\<close> is \<open>contains\<close> followed by \<open>insert\<close>: it reports what \<open>contains\<close> would have
  reported before, and leaves the filter that \<open>insert\<close> leaves. A second insertion of the item changes nothing.
\<close>

theorem bloom_contains_and_insert:
  assumes "bf_ok f"
  shows "\<exists>f' b. bf_contains f item = Inr b \<and> bf_insert f item = Inr f' \<and>
    bf_contains_and_insert f item = Inr (f', b) \<and>
    bf_contains_and_insert f' item = Inr (f', True) \<and> (b \<longleftrightarrow> f' = f)"
proof -
  obtain f' where f': "bf_insert f item = Inr f'" "bf_ok f'" "is_compatible f f'" "bf_bits f' = bf_bits f \<union> probes f item"
    using bf_insert_ok [OF assms] by blast
  obtain f'' where f'': "bf_insert f' item = Inr f''" "bf_ok f''" "is_compatible f' f''"
    "bf_bits f'' = bf_bits f' \<union> probes f' item"
    using bf_insert_ok [OF f'(2)] by blast
  have same: "probes f' item = probes f item" by (rule compatible_probes [OF f'(3)])
  have eq: "f'' = f'" by (rule sym, rule bf_equal [OF f'(2) f''(2,3)]) (auto simp: f''(4) f'(4) same)
  have again: "bf_contains_and_insert f' item = Inr (f', True)"
    unfolding bf_contains_and_insert_ok [OF f'(2)] bf_contains_ok [OF f'(2)] f''(1) eq by (simp add: f'(4) same)
  have "probes f item \<subseteq> bf_bits f \<longleftrightarrow> f' = f"
    using bf_equal [OF f'(2) assms compatible_sym [OF f'(3)]] f'(4) by auto
  then show ?thesis
    using bf_contains_ok [OF assms, of item] f'(1) again by (simp add: bf_contains_and_insert_ok [OF assms])
qed

theorem bloom_contains_and_insert_witness:
  "\<exists>f f' b. bf_ok f \<and> bf_contains_and_insert f [[7]] = Inr (f', b) \<and> bf_contains_and_insert f' [[7]] = Inr (f', True)"
  using bloom_contains_and_insert [OF bb_build_ok(1) [OF bb_example, of 5], of "[[7]]"] bb_build_ok(1) [OF bb_example] by blast

text \<open>
  C36. The union of the filters of two streams is the filter of the joined stream; their intersection still
  contains every common item; inversion complements the bits and is its own inverse; filters of another
  configuration are refused by both. The bit count stays exact throughout.
\<close>

theorem bloom_set_operations:
  assumes "bb_with_size num_bits num_hashes = Inr b"
    and "bf_insert_all (bb_build (bb_set_seed b seed)) xs = Inr f"
    and "bf_insert_all (bb_build (bb_set_seed b seed)) ys = Inr g"
  shows "bf_union f g = bf_insert_all (bb_build (bb_set_seed b seed)) (xs @ ys) \<and>
    (\<exists>h. bf_intersect f g = Inr h \<and> bf_ok h \<and> bf_bits h = bf_bits f \<inter> bf_bits g \<and>
      list_all (\<lambda>x. x \<in> set ys \<longrightarrow> bf_contains h x = Inr True) xs) \<and>
    bf_ok (bf_invert f) \<and> bf_bits (bf_invert f) = {..<bf_capacity f} - bf_bits f \<and> bf_invert (bf_invert f) = f \<and>
    (\<forall>other. is_compatible f other \<or>
      bf_union f other = Inl (Panic ''Cannot union incompatible Bloom filters'') \<and>
      bf_intersect f other = Inl (Panic ''Cannot intersect incompatible Bloom filters''))"
proof -
  let ?f0 = "bb_build (bb_set_seed b seed)"
  note new = bb_build_ok [OF assms(1), of seed]
  have f: "bf_ok f" "is_compatible ?f0 f" "bf_bits f = (\<Union>x\<in>set xs. probes ?f0 x)"
    using bf_insert_all_ok [OF new(1), of xs] assms(2) new(2) by auto
  have g: "bf_ok g" "is_compatible ?f0 g" "bf_bits g = (\<Union>x\<in>set ys. probes ?f0 x)"
    using bf_insert_all_ok [OF new(1), of ys] assms(3) new(2) by auto
  have fg: "is_compatible f g" using f(2) g(2) compatible_sym compatible_trans by blast
  obtain u where u: "bf_union f g = Inr u" "bf_ok u" "is_compatible f u" "bf_bits u = bf_bits f \<union> bf_bits g"
    using bf_union_ok [OF f(1) fg] by blast
  obtain v where v: "bf_insert_all ?f0 (xs @ ys) = Inr v" "bf_ok v" "is_compatible ?f0 v"
    "bf_bits v = (\<Union>x\<in>set (xs @ ys). probes ?f0 x)"
    using bf_insert_all_ok [OF new(1), of "xs @ ys"] new(2) by auto
  have "u = v"
  proof (rule bf_equal [OF u(2) v(2)])
    show "is_compatible u v" using u(3) v(3) f(2) compatible_sym compatible_trans by blast
    show "bf_bits u = bf_bits v" unfolding u(4) v(4) f(3) g(3) by simp
  qed
  then have one: "bf_union f g = bf_insert_all ?f0 (xs @ ys)" using u(1) v(1) by simp
  obtain h where h: "bf_intersect f g = Inr h" "bf_ok h" "is_compatible f h" "bf_bits h = bf_bits f \<inter> bf_bits g"
    using bf_intersect_ok [OF f(1) fg] by blast
  have "probes h x = probes ?f0 x" for x
    using compatible_probes [OF h(3)] compatible_probes [OF f(2)] by simp
  then have "list_all (\<lambda>x. x \<in> set ys \<longrightarrow> bf_contains h x = Inr True) xs"
    unfolding list_all_iff bf_contains_ok [OF h(2)] h(4) f(3) g(3) by auto
  then have two: "\<exists>h. bf_intersect f g = Inr h \<and> bf_ok h \<and> bf_bits h = bf_bits f \<inter> bf_bits g \<and>
      list_all (\<lambda>x. x \<in> set ys \<longrightarrow> bf_contains h x = Inr True) xs" using h by blast
  note i = bf_invert_ok [OF f(1)] and j = bf_invert_ok [OF bf_invert_ok(1) [OF f(1)]]
  have "bf_invert (bf_invert f) = f"
  proof (rule bf_equal [OF j(1) f(1)])
    show "is_compatible (bf_invert (bf_invert f)) f" using i(2) j(2) compatible_sym compatible_trans by blast
    have "bf_capacity (bf_invert f) = bf_capacity f" by (simp add: bf_capacity_def bf_invert_def)
    then show "bf_bits (bf_invert (bf_invert f)) = bf_bits f"
      unfolding j(3) i(3) using bits_in_bound [of "bf_bit_array f"] by (auto simp: bf_capacity_def)
  qed
  with one two i show ?thesis by (auto simp: bf_union_def bf_intersect_def)
qed

theorem bloom_set_operations_witness:
  "\<exists>f g h. bf_insert_all (bb_build (bb_set_seed \<lparr>bb_num_bits = 100, bb_num_hashes = 3, bb_seed = DEFAULT_UPDATE_SEED\<rparr> 5))
      [[[1]], [[2]]] = Inr f \<and>
    bf_insert_all (bb_build (bb_set_seed \<lparr>bb_num_bits = 100, bb_num_hashes = 3, bb_seed = DEFAULT_UPDATE_SEED\<rparr> 5))
      [[[2]]] = Inr g \<and> bf_intersect f g = Inr h \<and> bf_contains h [[2]] = Inr True"
proof -
  let ?f0 = "bb_build (bb_set_seed \<lparr>bb_num_bits = 100, bb_num_hashes = 3, bb_seed = DEFAULT_UPDATE_SEED\<rparr> 5)"
  obtain f g where "bf_insert_all ?f0 [[[1]], [[2]]] = Inr f" "bf_insert_all ?f0 [[[2]]] = Inr g"
    using bf_insert_all_ok [OF bb_build_ok(1) [OF bb_example, of 5]] by metis
  then show ?thesis using bloom_set_operations [OF bb_example, of 5 "[[[1]], [[2]]]" f "[[[2]]]" g] by auto
qed

text \<open>
  Reading back the bytes of a well-formed filter, empty or not, gives the same filter.
\<close>

theorem bloom_round_trip:
  assumes "bf_ok f"
  shows "bf_deserialize (bf_serialize f) = Inr f"
  by (rule bf_round_trip [OF assms])

theorem bloom_round_trip_witness:
  "\<exists>f. bf_insert_all (bb_build (bb_set_seed \<lparr>bb_num_bits = 100, bb_num_hashes = 3, bb_seed = DEFAULT_UPDATE_SEED\<rparr> 5))
      [[[1]]] = Inr f \<and> bf_deserialize (bf_serialize f) = Inr f"
proof -
  obtain f where "bf_insert_all (bb_build (bb_set_seed \<lparr>bb_num_bits = 100, bb_num_hashes = 3, bb_seed = DEFAULT_UPDATE_SEED\<rparr> 5))
      [[[1]]] = Inr f" "bf_ok f"
    using bf_insert_all_ok [OF bb_build_ok(1) [OF bb_example, of 5], of "[[[1]]]"] by blast
  then show ?thesis using bloom_round_trip by blast
qed

text \<open>
  C37. Whatever bytes the reader accepts, the filter it returns is well-formed: it has between one and
  32767 hash functions, a non-empty array of fewer than \<open>2 ^ 31\<close> words, and the bit count of its array,
  whatever count the bytes claim. So no operation panics on it: queries and insertions, alone and together, the
  inversion and the reset, and the union and the intersection with any well-formed filter of the same configuration
  (with another one these two panic by contract) give well-formed filters again, and its bytes are read back as it.
\<close>

theorem bloom_reader_well_formed:
  assumes "bf_deserialize bytes = Inr f"
  shows "bf_ok f \<and>
    (\<exists>b f'. bf_contains f item = Inr b \<and> bf_insert f item = Inr f' \<and>
       bf_contains_and_insert f item = Inr (f', b) \<and> bf_ok f') \<and>
    bf_ok (bf_invert f) \<and> bf_ok (bf_reset f) \<and>
    (\<forall>g. bf_ok g \<and> is_compatible f g \<longrightarrow>
       (\<exists>u i. bf_union f g = Inr u \<and> bf_ok u \<and> bf_intersect f g = Inr i \<and> bf_ok i)) \<and>
    bf_deserialize (bf_serialize f) = Inr f"
proof -
  have ok: "bf_ok f" by (rule bf_deserialize_ok [OF assms])
  obtain f' where f': "bf_insert f item = Inr f'" "bf_ok f'" using bf_insert_ok [OF ok] by blast
  have "bf_contains_and_insert f item = Inr (f', probes f item \<subseteq> bf_bits f)"
    using bf_contains_and_insert_ok [OF ok] bf_contains_ok [OF ok] f'(1) by simp
  then show ?thesis
    using ok f' bf_contains_ok [OF ok] bf_invert_ok(1) [OF ok] bf_reset_ok [OF ok] bf_union_ok [OF ok]
      bf_intersect_ok [OF ok] bf_round_trip [OF ok]
    by blast
qed

theorem bloom_reader_well_formed_witness:
  "\<exists>f g u. bf_deserialize (bf_serialize f) = Inr f \<and> \<not> bf_is_empty f \<and> bf_union f g = Inr u \<and> bf_ok u"
proof -
  let ?f0 = "bb_build (bb_set_seed \<lparr>bb_num_bits = 100, bb_num_hashes = 3, bb_seed = DEFAULT_UPDATE_SEED\<rparr> 5)"
  note new = bb_build_ok(1) [OF bb_example, of 5]
  obtain f where f: "bf_ok f" "is_compatible ?f0 f" "bf_bits f = bf_bits ?f0 \<union> probes ?f0 [[1]]"
    using bf_insert_ok [OF new, of "[[1]]"] by blast
  have ne: "\<not> bf_is_empty f" using probes_nonempty [OF new, of "[[1]]"] f(3) bf_empty_iff [OF f(1)] by auto
  have "bf_deserialize (bf_serialize f) = Inr f" by (rule bf_round_trip [OF f(1)])
  then show ?thesis using bloom_reader_well_formed [of "bf_serialize f" f] new compatible_sym [OF f(2)] ne by blast
qed

end
