(* ===== verification/Float64.thy ===== *)
theory Float64
  imports Prelude "HOL-Library.Log_Nat"
begin

text \<open>
  The \<open>f64\<close> of the source: IEEE 754 binary64 as bit patterns, the way \<open>to_bits\<close> and
  \<open>from_bits\<close> show them. An operation computes the exact rational result and rounds it to the
  nearest number, ties to even; infinities, NaN and the sign of zero follow the standard. A NaN
  result is the quiet NaN without payload. The lemmas say where arithmetic is exact: a multiple of
  \<open>2 ^ q\<close> below \<open>2 ^ (q + 53)\<close> is a number of the format, so sums of such multiples are exact.
\<close>

type_synonym f64 = "64 word"

section \<open>Reading a bit pattern\<close>

definition f64_negative :: "f64 \<Rightarrow> bool" where
  "f64_negative x \<longleftrightarrow> bit x 63"

definition f64_exponent :: "f64 \<Rightarrow> nat" where
  "f64_exponent x = unat x div 2 ^ 52 mod 2 ^ 11"

definition f64_fraction :: "f64 \<Rightarrow> nat" where
  "f64_fraction x = unat x mod 2 ^ 52"

definition f64_is_nan :: "f64 \<Rightarrow> bool" where
  "f64_is_nan x \<longleftrightarrow> f64_exponent x = 2047 \<and> f64_fraction x \<noteq> 0"

definition f64_is_infinite :: "f64 \<Rightarrow> bool" where
  "f64_is_infinite x \<longleftrightarrow> f64_exponent x = 2047 \<and> f64_fraction x = 0"

abbreviation pow2 :: "int \<Rightarrow> rat" where
  "pow2 e \<equiv> 2 powi e"

definition f64_magnitude :: "f64 \<Rightarrow> rat" where
  "f64_magnitude x =
     (if f64_exponent x = 0 then of_nat (f64_fraction x) * pow2 (- 1074)
      else of_nat (2 ^ 52 + f64_fraction x) * pow2 (int (f64_exponent x) - 1075))"

text \<open>The number of a finite pattern\<close>

definition f64_val :: "f64 \<Rightarrow> rat" where
  "f64_val x = (if f64_negative x then - f64_magnitude x else f64_magnitude x)"

section \<open>Rounding\<close>

text \<open>The exponent of the leading bit of a positive rational\<close>

definition rat_exponent :: "rat \<Rightarrow> int" where
  "rat_exponent r =
     (let (n, d) = quotient_of r;
          e = int (floorlog 2 (nat n)) - int (floorlog 2 (nat d))
      in if pow2 e \<le> r then e else e - 1)"

definition round_half_even :: "rat \<Rightarrow> int" where
  "round_half_even r =
     (let f = \<lfloor>r\<rfloor>; rest = r - of_int f
      in if rest < 1 / 2 \<or> rest = 1 / 2 \<and> even f then f else f + 1)"

definition f64_sign_bit :: "bool \<Rightarrow> f64" where
  "f64_sign_bit neg = (if neg then 0x8000000000000000 else 0)"

definition F64_INFINITY :: f64 where "F64_INFINITY = 0x7ff0000000000000"
definition F64_NAN :: f64 where "F64_NAN = 0x7ff8000000000000"

text \<open>
  The pattern of the number nearest to a magnitude. Adding the significand to the shifted exponent
  also carries into the exponent when the significand rounds up to \<open>2 ^ 53\<close>.
\<close>

definition f64_round_magnitude :: "rat \<Rightarrow> f64" where
  "f64_round_magnitude r =
     (if r = 0 then 0
      else
        let q = max (- 1074) (rat_exponent r - 52);
            m = round_half_even (r / pow2 q)
        in of_int (min (uint F64_INFINITY) ((q + 1074) * 2 ^ 52 + m)))"

definition f64_round :: "rat \<Rightarrow> f64" where
  "f64_round r = f64_sign_bit (r < 0) OR f64_round_magnitude \<bar>r\<bar>"

section \<open>Arithmetic\<close>

definition f64_neg :: "f64 \<Rightarrow> f64" where
  "f64_neg x = x XOR 0x8000000000000000"

definition f64_add :: "f64 \<Rightarrow> f64 \<Rightarrow> f64" where
  "f64_add x y =
     (if f64_is_nan x \<or> f64_is_nan y then F64_NAN
      else if f64_is_infinite x then
        (if f64_is_infinite y \<and> f64_negative x \<noteq> f64_negative y then F64_NAN else x)
      else if f64_is_infinite y then y
      else if f64_val x + f64_val y = 0 then f64_sign_bit (f64_negative x \<and> f64_negative y)
      else f64_round (f64_val x + f64_val y))"

definition f64_sub :: "f64 \<Rightarrow> f64 \<Rightarrow> f64" where
  "f64_sub x y = f64_add x (f64_neg y)"

definition f64_mul :: "f64 \<Rightarrow> f64 \<Rightarrow> f64" where
  "f64_mul x y =
     (let sign = f64_sign_bit (f64_negative x \<noteq> f64_negative y)
      in if f64_is_nan x \<or> f64_is_nan y then F64_NAN
         else if f64_is_infinite x \<or> f64_is_infinite y then
           (if f64_magnitude x = 0 \<or> f64_magnitude y = 0 then F64_NAN else sign OR F64_INFINITY)
         else sign OR f64_round_magnitude (f64_magnitude x * f64_magnitude y))"

definition f64_div :: "f64 \<Rightarrow> f64 \<Rightarrow> f64" where
  "f64_div x y =
     (let sign = f64_sign_bit (f64_negative x \<noteq> f64_negative y)
      in if f64_is_nan x \<or> f64_is_nan y \<or> f64_is_infinite x \<and> f64_is_infinite y \<or>
           f64_magnitude x = 0 \<and> f64_magnitude y = 0 then F64_NAN
         else if f64_is_infinite x then sign OR F64_INFINITY
         else if f64_is_infinite y then sign
         else if f64_magnitude y = 0 then sign OR F64_INFINITY
         else sign OR f64_round_magnitude (f64_magnitude x / f64_magnitude y))"

text \<open>Comparisons are false on NaN; the two zeros are equal.\<close>

definition f64_le :: "f64 \<Rightarrow> f64 \<Rightarrow> bool" where
  "f64_le x y \<longleftrightarrow> \<not> f64_is_nan x \<and> \<not> f64_is_nan y \<and>
     (if f64_is_infinite x then f64_negative x \<or> f64_is_infinite y \<and> \<not> f64_negative y
      else if f64_is_infinite y then \<not> f64_negative y
      else f64_val x \<le> f64_val y)"

definition f64_less :: "f64 \<Rightarrow> f64 \<Rightarrow> bool" where
  "f64_less x y \<longleftrightarrow> f64_le x y \<and> \<not> f64_le y x"

definition f64_eq :: "f64 \<Rightarrow> f64 \<Rightarrow> bool" where
  "f64_eq x y \<longleftrightarrow> f64_le x y \<and> f64_le y x"

definition f64_max :: "f64 \<Rightarrow> f64 \<Rightarrow> f64" where
  "f64_max x y = (if f64_is_nan x then y else if f64_is_nan y then x else if f64_less x y then y else x)"

text \<open>An integer cast, \<open>n as f64\<close>\<close>

definition f64_of_nat :: "nat \<Rightarrow> f64" where
  "f64_of_nat n = f64_round (of_nat n)"

section \<open>Exact results\<close>

lemma pow2_add: "pow2 (a + b) = pow2 a * pow2 b"
  by (simp add: power_int_add)

lemma pow2_diff: "pow2 (a - b) = pow2 a / pow2 b"
  by (simp add: power_int_diff)

lemma pow2_less_iff [simp]: "pow2 a < pow2 b \<longleftrightarrow> a < b"
  by (metis linorder_not_less one_less_numeral_iff power_int_increasing power_int_strict_increasing
      semiring_norm(76) less_imp_le)

lemma pow2_le_iff [simp]: "pow2 a \<le> pow2 b \<longleftrightarrow> a \<le> b"
  by (simp add: linorder_not_less [symmetric])

lemma pow2_nat: "0 \<le> e \<Longrightarrow> pow2 e = of_int (2 ^ nat e)"
  by (simp add: power_int_def)

lemma rat_exponent_bounds:
  assumes "0 < r"
  shows "pow2 (rat_exponent r) \<le> r" and "r < pow2 (rat_exponent r + 1)"
proof -
  obtain n d where q: "quotient_of r = (n, d)" by (cases "quotient_of r")
  have d: "0 < d" by (rule quotient_of_denom_pos [OF q])
  have r: "r = of_int n / of_int d" by (rule quotient_of_div [OF q])
  then have n: "0 < n" using assms d by (simp add: zero_less_divide_iff)
  have log: "2 ^ (floorlog 2 (nat k) - 1) \<le> nat k \<and> nat k < 2 ^ floorlog 2 (nat k) \<and> 0 < floorlog 2 (nat k)" if "0 < k" for k :: int
    using floorlog_bounds [of "nat k" 2] that by (simp add: floorlog_def)
  let ?a = "floorlog 2 (nat n)" and ?b = "floorlog 2 (nat d)"
  let ?e = "int ?a - int ?b"
  have up: "of_int k < pow2 (int (floorlog 2 (nat k)))" and lo: "pow2 (int (floorlog 2 (nat k)) - 1) \<le> of_int k"
    if "0 < k" for k :: int
  proof -
    let ?f = "floorlog 2 (nat k)"
    have "k < int (2 ^ ?f)" using log [OF that] that by (simp add: nat_less_iff)
    then have "(of_int k :: rat) < of_int (int (2 ^ ?f))" by (simp only: of_int_less_iff)
    then show "of_int k < pow2 (int ?f)"
      by (simp only: of_int_of_nat_eq of_nat_power of_nat_numeral of_int_power of_int_numeral power_int_of_nat)
    have "int (2 ^ (?f - 1)) \<le> k" using log [OF that] that by (simp add: le_nat_iff)
    then have "(of_int (int (2 ^ (?f - 1))) :: rat) \<le> of_int k" by (simp only: of_int_le_iff)
    moreover have "int ?f - 1 = int (?f - 1)" using log [OF that] by simp
    ultimately show "pow2 (int ?f - 1) \<le> of_int k"
      by (simp only: of_int_of_nat_eq of_nat_power of_nat_numeral of_int_power of_int_numeral power_int_of_nat)
  qed
  have "r < pow2 (int ?a) / of_int d" using up [OF n] d by (simp add: r divide_strict_right_mono)
  also have "\<dots> \<le> pow2 (int ?a) / pow2 (int ?b - 1)" using lo [OF d] d by (intro divide_left_mono) simp_all
  also have "\<dots> = pow2 (int ?a - (int ?b - 1))" by (simp only: pow2_diff)
  also have "int ?a - (int ?b - 1) = ?e + 1" by simp
  finally have r1: "r < pow2 (?e + 1)" .
  have "?e - 1 = int ?a - 1 - int ?b" by simp
  then have "pow2 (?e - 1) = pow2 (int ?a - 1) / pow2 (int ?b)" by (simp only: pow2_diff)
  also have "\<dots> \<le> of_int n / pow2 (int ?b)" using lo [OF n] by (intro divide_right_mono) simp_all
  also have "\<dots> \<le> r" unfolding r using up [OF d] n d by (intro divide_left_mono) simp_all
  finally have r2: "pow2 (?e - 1) \<le> r" .
  show "pow2 (rat_exponent r) \<le> r" and "r < pow2 (rat_exponent r + 1)"
    using r1 r2 by (auto simp: rat_exponent_def q Let_def)
qed

lemma round_half_even_of_int [simp]: "round_half_even (of_int m) = m"
  by (simp add: round_half_even_def)

lemma split_at:
  fixes a b c :: int
  assumes "0 \<le> b" and "b < c"
  shows "(a * c + b) div c = a" and "(a * c + b) mod c = b"
  using assms by (simp_all add: div_pos_pos_trivial mod_pos_pos_trivial)

lemma f64_not_negative:
  assumes "uint x < 2 ^ 63"
  shows "\<not> f64_negative x"
proof -
  have "\<not> bit (uint x) 63" using assms by (simp add: bit_iff_odd div_pos_pos_trivial)
  then show ?thesis by (simp add: f64_negative_def bit_uint_iff)
qed

lemma f64_fields:
  assumes "uint x div 2 ^ 52 < 2 ^ 11"
  shows "f64_exponent x = nat (uint x div 2 ^ 52)" and "f64_fraction x = nat (uint x mod 2 ^ 52)"
proof -
  have "nat (uint x div 2 ^ 52) < 2 ^ 11" using assms by (simp add: nat_less_iff)
  then have "nat (uint x) div 2 ^ 52 mod 2 ^ 11 = nat (uint x div 2 ^ 52)" by (simp add: nat_div_distrib)
  then show "f64_exponent x = nat (uint x div 2 ^ 52)" by (simp only: f64_exponent_def unat_eq_nat_uint)
  show "f64_fraction x = nat (uint x mod 2 ^ 52)" 
    by (simp only: f64_fraction_def unat_eq_nat_uint nat_mod_distrib uint_ge_0 zero_le_power zero_le_numeral
        nat_power_eq nat_numeral)
qed

text \<open>A pattern put together from an exponent and a significand\<close>

lemma f64_assemble:
  assumes "- 1074 \<le> q" and "0 \<le> m" and "m < 2 ^ 53" and "q = - 1074 \<or> 2 ^ 52 \<le> m" and "q \<le> 971"
  shows "f64_magnitude (of_int ((q + 1074) * 2 ^ 52 + m)) = of_int m * pow2 q"
    and "f64_exponent (of_int ((q + 1074) * 2 ^ 52 + m)) < 2047"
    and "\<not> f64_negative (of_int ((q + 1074) * 2 ^ 52 + m))"
    and "(q + 1074) * 2 ^ 52 + m < uint F64_INFINITY"
proof -
  let ?x = "of_int ((q + 1074) * 2 ^ 52 + m) :: f64"
  have bound: "(q + 1074) * 2 ^ 52 + m < 2047 * 2 ^ 52"
  proof -
    have "(q + 1074) * 2 ^ 52 \<le> 2045 * 2 ^ 52" using assms(5) by (intro mult_right_mono) simp_all
    then show ?thesis using assms(3) by simp
  qed
  then show "(q + 1074) * 2 ^ 52 + m < uint F64_INFINITY" by (simp add: F64_INFINITY_def)
  have "uint (of_int n :: f64) = n" if "0 \<le> n" "n < 2047 * 2 ^ 52" for n
    using that by (simp add: uint_word_of_int)
  then have u: "uint ?x = (q + 1074) * 2 ^ 52 + m" using bound assms(1,2) by (simp del: of_int_add of_int_mult)
  have exp_frac: "f64_exponent ?x = nat (uint ?x div 2 ^ 52) \<and> f64_fraction ?x = nat (uint ?x mod 2 ^ 52)"
  proof -
    have "uint ?x div 2 ^ 52 < 2 ^ 11" using bound unfolding u by simp
    then show ?thesis by (intro conjI f64_fields)
  qed
  have "uint ?x < 2 ^ 63" using bound unfolding u by simp
  then show "\<not> f64_negative ?x" by (rule f64_not_negative)
  show "f64_exponent ?x < 2047" using exp_frac bound unfolding u by simp
  show "f64_magnitude ?x = of_int m * pow2 q"
  proof (cases "2 ^ 52 \<le> m")
    case True
    have split: "uint ?x = (q + 1075) * 2 ^ 52 + (m - 2 ^ 52)" unfolding u by simp
    have small: "0 \<le> m - 2 ^ 52" "m - 2 ^ 52 < 2 ^ 52" using assms(3) True by simp_all
    have "uint ?x div 2 ^ 52 = q + 1075" and "uint ?x mod 2 ^ 52 = m - 2 ^ 52"
      unfolding split by (rule split_at [OF small])+
    then have "f64_exponent ?x = nat (q + 1075)" "f64_fraction ?x = nat (m - 2 ^ 52)" using exp_frac by simp_all
    then show ?thesis using assms(1) True by (simp add: f64_magnitude_def of_nat_nat)
  next
    case False
    then have "q = - 1074" using assms(4) by blast
    then have "uint ?x = m" unfolding u by simp
    then have "f64_exponent ?x = 0" "f64_fraction ?x = nat m" using exp_frac False assms(2) by simp_all
    then show ?thesis using assms(2) \<open>q = - 1074\<close> by (simp add: f64_magnitude_def of_nat_nat)
  qed
qed

text \<open>Which rationals are numbers of the format, and their rounding\<close>

definition f64_exact :: "rat \<Rightarrow> bool" where
  "f64_exact r \<longleftrightarrow> (\<exists>m q. r = of_int m * pow2 q \<and> \<bar>m\<bar> < 2 ^ 53 \<and> - 1074 \<le> q \<and> q \<le> 900)"

definition f64_number :: "f64 \<Rightarrow> bool" where
  "f64_number x \<longleftrightarrow> f64_exponent x < 2047"

lemma f64_number_simps [simp]:
  "f64_number x \<Longrightarrow> \<not> f64_is_nan x" "f64_number x \<Longrightarrow> \<not> f64_is_infinite x"
  by (simp_all add: f64_number_def f64_is_nan_def f64_is_infinite_def)

lemma f64_round_magnitude_exact:
  assumes "0 < m" and "m < 2 ^ 53" and "- 1074 \<le> q" and "q \<le> 900"
  shows "f64_magnitude (f64_round_magnitude (of_int m * pow2 q)) = of_int m * pow2 q"
    and "f64_number (f64_round_magnitude (of_int m * pow2 q))"
    and "\<not> f64_negative (f64_round_magnitude (of_int m * pow2 q))"
proof -
  define r where "r = of_int m * pow2 q"
  define e where "e = rat_exponent r"
  define q' where "q' = max (- 1074) (e - 52)"
  have r0: "0 < r" using assms(1) by (simp add: r_def)
  note E = rat_exponent_bounds [OF r0, folded e_def]
  have "of_int m < (of_int (2 ^ 53) :: rat)" using assms(2) by (simp only: of_int_less_iff)
  then have "r < pow2 53 * pow2 q" unfolding r_def by (intro mult_strict_right_mono) simp_all
  then have "pow2 e < pow2 (53 + q)" using E(1) by (simp only: pow2_add)
  then have eq: "e < 53 + q" by simp
  then have qq: "q' \<le> q" "q' \<le> 971" using assms(3,4) by (simp_all add: q'_def)
  let ?m = "m * 2 ^ nat (q - q')"
  have "pow2 q = pow2 (q - q') * pow2 q'" by (simp add: pow2_add [symmetric])
  also have "pow2 (q - q') = of_int (2 ^ nat (q - q'))" using qq(1) by (intro pow2_nat) simp
  finally have r: "r = of_int ?m * pow2 q'" by (simp add: r_def)
  have m0: "0 < ?m" using assms(1) by simp
  have "pow2 (e + 1) \<le> pow2 (53 + q')" by (simp add: q'_def)
  then have "of_int ?m * pow2 q' < pow2 53 * pow2 q'" 
    using E(2) unfolding r pow2_add [symmetric] by (rule less_le_trans [rotated])
  then have "of_int ?m < (of_int (2 ^ 53) :: rat)" by (simp add: mult_less_cancel_right)
  then have m53: "?m < 2 ^ 53" by (simp only: of_int_less_iff)
  have low: "q' = - 1074 \<or> 2 ^ 52 \<le> ?m"
  proof (cases "e - 52 \<le> - 1074")
    case False
    then have "q' = e - 52" by (simp add: q'_def)
    then have "pow2 (52 + q') \<le> of_int ?m * pow2 q'" using E(1) unfolding r by simp
    then have "(of_int (2 ^ 52) :: rat) \<le> of_int ?m" unfolding pow2_add by (simp add: mult_le_cancel_right)
    then show ?thesis by (simp only: of_int_le_iff) blast
  qed (simp add: q'_def)
  have "r / pow2 q' = of_int ?m" unfolding r by simp
  then have rnd: "round_half_even (r / pow2 q') = ?m" by (simp only: round_half_even_of_int)
  have "- 1074 \<le> q'" by (simp add: q'_def)
  note A = f64_assemble [OF this less_imp_le [OF m0] m53 low qq(2)]
  have run: "f64_round_magnitude r = of_int ((q' + 1074) * 2 ^ 52 + ?m)"
    using r0 A(4) unfolding f64_round_magnitude_def Let_def e_def [symmetric] q'_def [symmetric] rnd by simp
  show "f64_magnitude (f64_round_magnitude (of_int m * pow2 q)) = of_int m * pow2 q"
    unfolding r_def [symmetric] run A(1) by (rule r [symmetric])
  show "f64_number (f64_round_magnitude (of_int m * pow2 q))"
    unfolding r_def [symmetric] run f64_number_def by (rule A(2))
  show "\<not> f64_negative (f64_round_magnitude (of_int m * pow2 q))"
    unfolding r_def [symmetric] run by (rule A(3))
qed


text \<open>The sign bit\<close>

lemma f64_exponent_bits: "f64_exponent x = unat (take_bit 11 (drop_bit 52 x))"
proof -
  have "unat (take_bit 11 (drop_bit 52 x)) = take_bit 11 (drop_bit 52 (unat x))"
    by (simp only: unsigned_take_bit_eq unat_drop_bit_eq)
  then show ?thesis by (simp only: f64_exponent_def take_bit_eq_mod drop_bit_eq_div)
qed

lemma f64_fraction_bits: "f64_fraction x = unat (take_bit 52 x)"
  by (simp only: f64_fraction_def unsigned_take_bit_eq) (simp only: take_bit_eq_mod)

lemma sign_mask: "bit (0x8000000000000000 :: f64) n \<longleftrightarrow> n = 63"
proof -
  have "(0x8000000000000000 :: f64) = 2 ^ 63" by simp
  then show ?thesis by (simp only: bit_exp_iff) auto
qed

lemma f64_neg_fields [simp]:
  "f64_exponent (f64_neg x) = f64_exponent x" "f64_fraction (f64_neg x) = f64_fraction x"
  "f64_negative (f64_neg x) \<longleftrightarrow> \<not> f64_negative x"
proof -
  have "take_bit 11 (drop_bit 52 (f64_neg x)) = take_bit 11 (drop_bit 52 x)"
    by (rule bit_word_eqI) (auto simp: f64_neg_def bit_simps sign_mask)
  then show "f64_exponent (f64_neg x) = f64_exponent x" by (simp only: f64_exponent_bits)
  have "take_bit 52 (f64_neg x) = take_bit 52 x"
    by (rule bit_word_eqI) (auto simp: f64_neg_def bit_simps sign_mask)
  then show "f64_fraction (f64_neg x) = f64_fraction x" by (simp only: f64_fraction_bits)
  show "f64_negative (f64_neg x) \<longleftrightarrow> \<not> f64_negative x"
    by (simp add: f64_neg_def f64_negative_def bit_simps sign_mask)
qed

lemma f64_val_neg [simp]: "f64_val (f64_neg x) = - f64_val x"
  by (simp add: f64_val_def f64_magnitude_def)

lemma f64_number_neg [simp]: "f64_number (f64_neg x) \<longleftrightarrow> f64_number x"
  by (simp add: f64_number_def)

lemma f64_zero [simp]: "f64_val 0 = 0" "f64_number 0"
  by (simp_all add: f64_val_def f64_magnitude_def f64_number_def f64_exponent_def f64_fraction_def)

lemma f64_sign_bit_zero: "f64_val (f64_sign_bit n) = 0 \<and> f64_number (f64_sign_bit n)"
proof (cases n)
  case True
  have "f64_sign_bit n = f64_neg 0" using True by (simp add: f64_sign_bit_def f64_neg_def)
  then show ?thesis by simp
qed (simp add: f64_sign_bit_def)

text \<open>Sums and differences whose result is an exact non-negative number\<close>

lemma f64_round_exact:
  assumes "f64_exact r" and "0 < r"
  shows "f64_val (f64_round r) = r" and "f64_number (f64_round r)"
proof -
  obtain m q where r: "r = of_int m * pow2 q" "\<bar>m\<bar> < 2 ^ 53" "- 1074 \<le> q" "q \<le> 900"
    using assms(1) unfolding f64_exact_def by blast
  have "0 < pow2 q" by simp
  then have "0 < m" using assms(2) unfolding r(1) by (simp only: zero_less_mult_iff of_int_0_less_iff) linarith
  moreover have "m < 2 ^ 53" using r(2) by simp
  moreover have "f64_round r = f64_round_magnitude r" using assms(2) by (simp add: f64_round_def f64_sign_bit_def)
  ultimately show "f64_val (f64_round r) = r" and "f64_number (f64_round r)"
    using f64_round_magnitude_exact [of m q] r by (simp_all add: f64_val_def)
qed

lemma f64_add_exact:
  assumes "f64_number x" and "f64_number y" and "f64_exact (f64_val x + f64_val y)" and "0 \<le> f64_val x + f64_val y"
  shows "f64_val (f64_add x y) = f64_val x + f64_val y" and "f64_number (f64_add x y)"
proof -
  let ?s = "f64_val x + f64_val y"
  have run: "f64_add x y = (if ?s = 0 then f64_sign_bit (f64_negative x \<and> f64_negative y) else f64_round ?s)"
    using assms(1,2) by (simp add: f64_add_def)
  show "f64_val (f64_add x y) = ?s" and "f64_number (f64_add x y)"
    using f64_round_exact [OF assms(3)] f64_sign_bit_zero assms(4) unfolding run by auto
qed

lemma f64_sub_exact:
  assumes "f64_number x" and "f64_number y" and "f64_exact (f64_val x - f64_val y)" and "0 \<le> f64_val x - f64_val y"
  shows "f64_val (f64_sub x y) = f64_val x - f64_val y" and "f64_number (f64_sub x y)"
  using f64_add_exact [of x "f64_neg y"] assms by (simp_all add: f64_sub_def)

text \<open>Multiples of a fixed power of two\<close>

lemma f64_exact_multiple:
  assumes "r = of_nat n * pow2 q" and "n < 2 ^ 53" and "- 1074 \<le> q" and "q \<le> 900"
  shows "f64_exact r"
proof -
  have "\<bar>int n\<bar> < 2 ^ 53" using assms(2) by simp
  then show ?thesis unfolding f64_exact_def using assms(1,3,4) by (intro exI [of _ "int n"] exI [of _ q]) simp
qed

lemma f64_of_nat_exact:
  assumes "n < 2 ^ 53"
  shows "f64_val (f64_of_nat n) = of_nat n" and "f64_number (f64_of_nat n)"
proof -
  have ex: "f64_exact (of_nat n)" by (rule f64_exact_multiple [of _ n 0]) (use assms in simp_all)
  show "f64_val (f64_of_nat n) = of_nat n" and "f64_number (f64_of_nat n)"
    using f64_round_exact [OF ex]
    by (cases "n = 0"; simp add: f64_of_nat_def f64_round_def f64_round_magnitude_def f64_sign_bit_def)+
qed

end
