(* ===== verification/HllCoupon.thy ===== *)
theory HllCoupon
  imports Murmur Probing Float64
begin

text \<open>
  The coupons of the HLL sketch and the two structures that hold them while there are few:
  \<open>src/datasketches/src/hll/mod.rs\<close>, \<open>container.rs\<close>, \<open>list.rs\<close> and \<open>hash_set.rs\<close>, with the
  cubic interpolation of \<open>cubic_interpolation.rs\<close> that estimates from their number.
  A coupon is the 32-bit word of a 26-bit slot and a 6-bit value; the word 0 marks a free place. Both structures
  refine a finite set of coupons (\<open>list_holds\<close>, \<open>set_holds\<close>). The hash set is an instance of the
  open-addressing contract of the theory Probing. The debug assertions of \<open>cubic_interpolation.rs\<close> on the
  range of its tables are left out.
\<close>

section \<open>Coupons: \<open>mod.rs\<close>\<close>

datatype hll_type = Hll4 | Hll6 | Hll8

definition KEY_BITS_26 :: nat where "KEY_BITS_26 = 26"
definition KEY_MASK_26 :: u32 where "KEY_MASK_26 = 2 ^ 26 - 1"

definition COUPON_RSE_FACTOR :: f64 where "COUPON_RSE_FACTOR = f64_round 0.409"
definition COUPON_RSE :: f64 where "COUPON_RSE = f64_div COUPON_RSE_FACTOR (f64_of_nat (2 ^ 13))"

definition RESIZE_NUMERATOR :: nat where "RESIZE_NUMERATOR = 3"
definition RESIZE_DENOMINATOR :: nat where "RESIZE_DENOMINATOR = 4"

type_synonym coupon = u32

definition COUPON_EMPTY :: coupon where "COUPON_EMPTY = 0"

definition coupon_is_empty :: "coupon \<Rightarrow> bool" where
  "coupon_is_empty c \<longleftrightarrow> c = COUPON_EMPTY"

definition coupon_from_value :: "u8 list list \<Rightarrow> coupon" where
  "coupon_from_value item =
     (let (lo, hi) = murmur_hash DEFAULT_UPDATE_SEED item;
          addr26 = ucast lo AND KEY_MASK_26;
          lz = leading_zeros hi;
          capped = min lz 62;
          val = capped + 1
      in push_bit KEY_BITS_26 (of_nat val) OR addr26)"

definition coupon_pack :: "u32 \<Rightarrow> u8 \<Rightarrow> coupon" where
  "coupon_pack slot val = push_bit KEY_BITS_26 (ucast val) OR (slot AND KEY_MASK_26)"

definition coupon_slot :: "coupon \<Rightarrow> u32" where
  "coupon_slot c = c AND KEY_MASK_26"

definition coupon_value :: "coupon \<Rightarrow> u8" where
  "coupon_value c = ucast (drop_bit KEY_BITS_26 c)"

section \<open>The container: \<open>container.rs\<close>\<close>

record container =
  hc_lg_size :: nat
  hc_coupons :: "coupon list"
  hc_len :: nat

definition container_new :: "nat \<Rightarrow> container" where
  "container_new lg_size = \<lparr>hc_lg_size = lg_size, hc_coupons = replicate (2 ^ lg_size) COUPON_EMPTY, hc_len = 0\<rparr>"

definition container_from_coupons :: "nat \<Rightarrow> coupon list \<Rightarrow> nat \<Rightarrow> container" where
  "container_from_coupons lg_size coupons len = \<lparr>hc_lg_size = lg_size, hc_coupons = coupons, hc_len = len\<rparr>"

definition container_is_full :: "container \<Rightarrow> bool" where
  "container_is_full c \<longleftrightarrow> hc_len c = length (hc_coupons c)"

definition container_is_empty :: "container \<Rightarrow> bool" where
  "container_is_empty c \<longleftrightarrow> hc_len c = 0"

definition container_capacity :: "container \<Rightarrow> nat" where
  "container_capacity c = length (hc_coupons c)"

definition container_iter :: "container \<Rightarrow> coupon list" where
  "container_iter c = filter (\<lambda>c. \<not> coupon_is_empty c) (hc_coupons c)"

section \<open>The list: \<open>list.rs\<close>\<close>

definition LG_INIT_LIST_SIZE :: nat where "LG_INIT_LIST_SIZE = 3"

definition list_default :: container where
  "list_default = container_new LG_INIT_LIST_SIZE"

text \<open>The scan for the first free place or the coupon itself; the flag tells whether it was put.\<close>

fun list_scan :: "coupon \<Rightarrow> coupon list \<Rightarrow> coupon list \<times> bool" where
  "list_scan c [] = ([], False)"
| "list_scan c (v # vs) =
     (if coupon_is_empty v then (c # vs, True)
      else if v = c then (v # vs, False)
      else let (vs, put) = list_scan c vs in (v # vs, put))"

definition list_update_coupon :: "container \<Rightarrow> coupon \<Rightarrow> container" where
  "list_update_coupon l c =
     (let (coupons, put) = list_scan c (hc_coupons l)
      in l\<lparr>hc_coupons := coupons, hc_len := hc_len l + (if put then 1 else 0)\<rparr>)"

section \<open>The hash set: \<open>hash_set.rs\<close>\<close>

definition LG_INIT_SET_SIZE :: nat where "LG_INIT_SET_SIZE = 5"

definition set_default :: container where
  "set_default = container_new LG_INIT_SET_SIZE"

text \<open>The positions are \<open>u32\<close> in the source; a table has at most \<open>2 ^ 18\<close> slots, so \<open>nat\<close> shows the same numbers.\<close>

definition set_start :: "nat \<Rightarrow> coupon \<Rightarrow> nat" where
  "set_start lg_size c = unat c AND (2 ^ lg_size - 1)"

definition set_stride :: "nat \<Rightarrow> coupon \<Rightarrow> nat" where
  "set_stride lg_size c = drop_bit lg_size (unat (c AND KEY_MASK_26)) OR 1"

definition set_find :: "nat \<Rightarrow> coupon list \<Rightarrow> coupon \<Rightarrow> probe_result" where
  "set_find lg_size coupons c =
     probe_loop (length coupons) (\<lambda>s. coupon_is_empty s \<or> s = c) coupons (2 ^ lg_size - 1)
       (set_stride lg_size c) (set_start lg_size c) (set_start lg_size c)"

definition set_update_coupon :: "container \<Rightarrow> coupon \<Rightarrow> container res" where
  "set_update_coupon s c =
     (case set_find (hc_lg_size s) (hc_coupons s) c of
        Slot probe \<Rightarrow>
          Inr (if coupon_is_empty (hc_coupons s ! probe)
               then s\<lparr>hc_coupons := (hc_coupons s)[probe := c], hc_len := hc_len s + 1\<rparr> else s)
      | Wrapped \<Rightarrow> Inl (Panic ''unreachable: HashSet full; no empty slots'')
      | Out_of_fuel \<Rightarrow> Inl (Panic ''search does not end''))"

section \<open>Estimation from the number of coupons\<close>

datatype num_std_dev = One | Two | Three

definition std_dev_u8 :: "num_std_dev \<Rightarrow> nat" where
  "std_dev_u8 n = (case n of One \<Rightarrow> 1 | Two \<Rightarrow> 2 | Three \<Rightarrow> 3)"

text \<open>\<open>coupon_mapping.rs\<close>\<close>

definition X_ARR :: "f64 list" where
  "X_ARR = map f64_round [
     0, 1, 20, 400, 8000, 160000, 300000, 600000, 900000, 1200000, 1500000, 1800000, 2100000,
     2400000, 2700000, 3000000, 3300000, 3600000, 3900000, 4200000, 4500000, 4800000, 5100000,
     5400000, 5700000, 6000000, 6300000, 6600000, 6900000, 7200000, 7500000, 7800000, 8100000,
     8400000, 8700000, 9000000, 9300000, 9600000, 9900000, 10200000]"

definition Y_ARR :: "f64 list" where
  "Y_ARR = map f64_round [
     0, 1, 20.00000094374026, 400.0003963713384, 8000.158929460209, 160063.60677637596,
     300223.70715976635, 600895.593385617, 902016.8065120955, 1203588.498319951, 1505611.8245524743,
     1808087.9449319066, 2111018.0231759353, 2414403.22701425, 2718244.728205189, 3022543.702552454,
     3327301.329921909, 3632518.794258454, 3938197.283602969, 4244337.990109356, 4550942.110061649,
     4858010.843891189, 5165545.396193897, 5473546.975747645, 5782016.7955296505, 6090956.072734016,
     6400366.028789296, 6710247.889376201, 7020602.884445314, 7331432.248234972, 7642737.219289148,
     7954519.0404754765, 8266778.959003342, 8579518.226442046, 8892738.098739047, 9206439.836238328,
     9520624.703698829, 9835293.97031292, 10150448.909725029, 10466090.800050326]"

text \<open>\<open>cubic_interpolation.rs\<close>\<close>

definition cubic_interpolate ::
  "f64 \<Rightarrow> f64 \<Rightarrow> f64 \<Rightarrow> f64 \<Rightarrow> f64 \<Rightarrow> f64 \<Rightarrow> f64 \<Rightarrow> f64 \<Rightarrow> f64 \<Rightarrow> f64" where
  "cubic_interpolate x0 y0 x1 y1 x2 y2 x3 y3 x =
     (let prod = (\<lambda>a b c. f64_mul (f64_mul a b) c);
          l0_numerator = prod (f64_sub x x1) (f64_sub x x2) (f64_sub x x3);
          l1_numerator = prod (f64_sub x x0) (f64_sub x x2) (f64_sub x x3);
          l2_numerator = prod (f64_sub x x0) (f64_sub x x1) (f64_sub x x3);
          l3_numerator = prod (f64_sub x x0) (f64_sub x x1) (f64_sub x x2);
          l0_denominator = prod (f64_sub x0 x1) (f64_sub x0 x2) (f64_sub x0 x3);
          l1_denominator = prod (f64_sub x1 x0) (f64_sub x1 x2) (f64_sub x1 x3);
          l2_denominator = prod (f64_sub x2 x0) (f64_sub x2 x1) (f64_sub x2 x3);
          l3_denominator = prod (f64_sub x3 x0) (f64_sub x3 x1) (f64_sub x3 x2);
          term0 = f64_div (f64_mul y0 l0_numerator) l0_denominator;
          term1 = f64_div (f64_mul y1 l1_numerator) l1_denominator;
          term2 = f64_div (f64_mul y2 l2_numerator) l2_denominator;
          term3 = f64_div (f64_mul y3 l3_numerator) l3_denominator
      in f64_add (f64_add (f64_add term0 term1) term2) term3)"

function recursive_find_straddle :: "f64 list \<Rightarrow> nat \<Rightarrow> nat \<Rightarrow> f64 \<Rightarrow> nat" where
  "recursive_find_straddle x_arr left right x =
     (if left + 1 = right \<or> right \<le> left then left
      else
        let middle = left + (right - left) div 2
        in if f64_le (x_arr ! middle) x then recursive_find_straddle x_arr middle right x
           else recursive_find_straddle x_arr left middle x)"
  by pat_completeness auto
termination
  by (relation "measure (\<lambda>(_, left, right, _). right - left)") auto

definition find_straddle :: "f64 list \<Rightarrow> f64 \<Rightarrow> nat" where
  "find_straddle x_arr x = recursive_find_straddle x_arr 0 (length x_arr - 1) x"

definition interpolate_using_x_and_y_tables :: "f64 list \<Rightarrow> f64 list \<Rightarrow> nat \<Rightarrow> f64 \<Rightarrow> f64" where
  "interpolate_using_x_and_y_tables x_arr y_arr offset x =
     cubic_interpolate (x_arr ! offset) (y_arr ! offset) (x_arr ! (offset + 1)) (y_arr ! (offset + 1))
       (x_arr ! (offset + 2)) (y_arr ! (offset + 2)) (x_arr ! (offset + 3)) (y_arr ! (offset + 3)) x"

definition using_x_and_y_tables :: "f64 list \<Rightarrow> f64 list \<Rightarrow> f64 \<Rightarrow> f64" where
  "using_x_and_y_tables x_arr y_arr x =
     (let last_idx = length x_arr - 1
      in if f64_eq x (x_arr ! last_idx) then y_arr ! last_idx
         else
           let offset = find_straddle x_arr x
           in if offset = 0 then interpolate_using_x_and_y_tables x_arr y_arr offset x
              else if offset = last_idx - 1 then interpolate_using_x_and_y_tables x_arr y_arr (offset - 2) x
              else interpolate_using_x_and_y_tables x_arr y_arr (offset - 1) x)"

definition container_estimate :: "container \<Rightarrow> f64" where
  "container_estimate c =
     (let len = f64_of_nat (hc_len c);
          est = using_x_and_y_tables X_ARR Y_ARR len
      in f64_max len est)"

definition container_upper_bound :: "container \<Rightarrow> num_std_dev \<Rightarrow> f64" where
  "container_upper_bound c n =
     (let len = f64_of_nat (hc_len c);
          est = using_x_and_y_tables X_ARR Y_ARR len;
          rse = f64_mul (f64_neg (f64_of_nat (std_dev_u8 n))) COUPON_RSE;
          bound = f64_div est (f64_add (f64_of_nat 1) rse)
      in f64_max len bound)"

definition container_lower_bound :: "container \<Rightarrow> num_std_dev \<Rightarrow> f64" where
  "container_lower_bound c n =
     (let len = f64_of_nat (hc_len c);
          est = using_x_and_y_tables X_ARR Y_ARR len;
          rse = f64_mul (f64_of_nat (std_dev_u8 n)) COUPON_RSE;
          bound = f64_div est (f64_add (f64_of_nat 1) rse)
      in f64_max len bound)"


section \<open>Lemmas on coupons\<close>

lemma coupon_is_empty_iff [simp]: "coupon_is_empty c \<longleftrightarrow> c = 0"
  by (simp add: coupon_is_empty_def COUPON_EMPTY_def)

lemma bit_key_mask: "bit KEY_MASK_26 n \<longleftrightarrow> n < 26"
proof -
  have "KEY_MASK_26 = mask 26" by (simp add: KEY_MASK_26_def mask_eq_exp_minus_1)
  then have "bit KEY_MASK_26 n \<longleftrightarrow> bit (mask 26 :: u32) n" by simp
  then show ?thesis by (auto simp: bit_mask_iff)
qed

lemma coupon_eqI:
  assumes "coupon_slot c = coupon_slot d" and "coupon_value c = coupon_value d"
  shows "c = d"
proof (rule bit_word_eqI)
  fix n
  assume "n < LENGTH(32)"
  then have n: "n < 32" by simp
  show "bit c n \<longleftrightarrow> bit d n"
  proof (cases "n < 26")
    case True
    have "bit (coupon_slot c) n \<longleftrightarrow> bit (coupon_slot d) n" using assms(1) by simp
    then show ?thesis using True by (simp add: coupon_slot_def bit_simps bit_key_mask)
  next
    case False
    have "bit (coupon_value c) (n - 26) \<longleftrightarrow> bit (coupon_value d) (n - 26)" using assms(2) by simp
    moreover have "n - 26 < 8" using n by simp
    ultimately show ?thesis using False n by (simp add: coupon_value_def KEY_BITS_26_def bit_simps)
  qed
qed

lemma coupon_slot_pack [simp]: "coupon_slot (coupon_pack slot v) = slot AND KEY_MASK_26"
  by (rule bit_word_eqI) (auto simp: coupon_slot_def coupon_pack_def bit_simps bit_key_mask KEY_BITS_26_def)

lemma coupon_value_pack:
  assumes "v < 64"
  shows "coupon_value (coupon_pack slot v) = v"
proof (rule bit_word_eqI)
  fix n
  assume "n < LENGTH(8)"
  then have n: "n < 8" by simp
  have high: "\<not> bit v n" if "\<not> n < 6"
  proof -
    have "unat v < 2 ^ 6" using assms by (simp add: word_less_nat_alt)
    also have "\<dots> \<le> 2 ^ n" using that by (intro power_increasing) simp_all
    finally have "\<not> bit (unat v) n" by (simp add: bit_iff_odd)
    then show ?thesis by (simp add: bit_unsigned_iff)
  qed
  show "bit (coupon_value (coupon_pack slot v)) n \<longleftrightarrow> bit v n"
    using n high by (auto simp: coupon_value_def coupon_pack_def bit_simps bit_key_mask KEY_BITS_26_def)
qed

lemma coupon_value_lt [simp]: "coupon_value c < 64"
proof -
  have "unat c < 2 ^ LENGTH(32)" by (rule unsigned_less)
  then have "unat (drop_bit 26 c) < 64"
    unfolding unat_drop_bit_eq drop_bit_eq_div [where 'a = nat] by (simp add: less_mult_imp_div_less)
  then show ?thesis
    by (simp add: coupon_value_def KEY_BITS_26_def word_less_nat_alt unsigned_ucast_eq take_bit_eq_mod)
qed

section \<open>The list refines a set of coupons\<close>

definition list_holds :: "container \<Rightarrow> coupon set \<Rightarrow> bool" where
  "list_holds l C \<longleftrightarrow>
     (\<exists>cs n. hc_coupons l = cs @ replicate n 0 \<and> hc_len l = length cs \<and> distinct cs \<and> 0 \<notin> set cs \<and> set cs = C) \<and>
     length (hc_coupons l) = 2 ^ hc_lg_size l"

lemma list_scan_spec:
  assumes "0 \<notin> set cs" and "c \<noteq> 0"
  shows "list_scan c (cs @ replicate n 0) =
    (if c \<in> set cs then (cs @ replicate n 0, False)
     else case n of 0 \<Rightarrow> (cs, False) | Suc m \<Rightarrow> (cs @ c # replicate m 0, True))"
  using assms by (induction cs) (auto split: nat.splits)

lemma list_update_holds:
  assumes l: "list_holds l C" and c: "c \<noteq> 0" and room: "c \<in> C \<or> card C < 2 ^ hc_lg_size l"
  shows "list_holds (list_update_coupon l c) (insert c C)"
    and "hc_lg_size (list_update_coupon l c) = hc_lg_size l"
proof -
  obtain cs n where cs: "hc_coupons l = cs @ replicate n 0" "hc_len l = length cs" "distinct cs" "0 \<notin> set cs" "set cs = C"
    "length cs + n = 2 ^ hc_lg_size l"
    using l unfolding list_holds_def by (elim exE conjE) simp
  have "list_holds (list_update_coupon l c) (insert c C) \<and> hc_lg_size (list_update_coupon l c) = hc_lg_size l"
  proof (cases "c \<in> set cs")
    case True
    then have "list_update_coupon l c = l"
      using cs(1) by (simp add: list_update_coupon_def list_scan_spec [OF cs(4) c])
    then show ?thesis using True l cs(5) by (simp add: insert_absorb)
  next
    case False
    then have "length cs < 2 ^ hc_lg_size l" using room cs(3,5) by (auto simp: distinct_card [symmetric])
    then obtain m where m: "n = Suc m" using cs(6) by (cases n) auto
    have "list_update_coupon l c = l\<lparr>hc_coupons := cs @ c # replicate m 0, hc_len := length cs + 1\<rparr>"
      using False cs(1,2) list_scan_spec [OF cs(4) c, of "Suc m"] by (simp add: list_update_coupon_def m)
    moreover have "\<exists>ds k. cs @ c # replicate m 0 = ds @ replicate k 0 \<and> Suc (length cs) = length ds \<and> distinct ds \<and>
        0 \<notin> set ds \<and> set ds = insert c C"
      using False cs(3-5) c by (intro exI [of _ "cs @ [c]"] exI [of _ m]) auto
    ultimately show ?thesis using cs(6) m by (simp add: list_holds_def)
  qed
  then show "list_holds (list_update_coupon l c) (insert c C)"
    and "hc_lg_size (list_update_coupon l c) = hc_lg_size l" by simp_all
qed

lemma list_default_holds: "list_holds list_default {}"
  unfolding list_holds_def list_default_def container_new_def COUPON_EMPTY_def
  by (auto intro: exI [of _ "[]"])

lemma list_holds_facts:
  assumes "list_holds l C"
  shows "hc_len l = card C" and "finite C" and "0 \<notin> C" and "container_capacity l = 2 ^ hc_lg_size l"
    and "set (container_iter l) = C" and "distinct (container_iter l)"
proof -
  obtain cs n where cs: "hc_coupons l = cs @ replicate n 0" "hc_len l = length cs" "distinct cs" "0 \<notin> set cs" "set cs = C"
    using assms unfolding list_holds_def by (elim exE conjE)
  show "hc_len l = card C" using cs by (simp add: distinct_card [symmetric])
  show "finite C" "0 \<notin> C" using cs by auto
  show "container_capacity l = 2 ^ hc_lg_size l" using assms by (simp add: list_holds_def container_capacity_def)
  have "container_iter l = cs" using cs(1,4) by (auto simp: container_iter_def intro: filter_True)
  then show "set (container_iter l) = C" "distinct (container_iter l)" using cs by simp_all
qed

section \<open>The hash set refines a set of coupons\<close>

definition coupon_occ :: "coupon \<Rightarrow> coupon option" where
  "coupon_occ s = (if s = 0 then None else Some s)"

definition set_lookup :: "nat \<Rightarrow> coupon list \<Rightarrow> coupon \<Rightarrow> probe_result" where
  "set_lookup lg slots c =
     (if c = 0 then probe_loop (2 ^ lg) (\<lambda>s. coupon_occ s = None \<or> coupon_occ s = Some c) slots (2 ^ lg - 1)
        (set_stride lg c) (set_start lg c) (set_start lg c)
      else set_find lg slots c)"

interpretation cset: open_addressing coupon_occ set_start set_stride set_lookup
proof
  show "set_start lg c < 2 ^ lg" for lg c
    unfolding set_start_def by (rule and_mask_nat_lt)
  show "odd (set_stride lg c)" for lg c
    by (simp add: set_stride_def even_or_iff)
  show "set_lookup lg slots c =
      probe_loop (2 ^ lg) (\<lambda>s. coupon_occ s = None \<or> coupon_occ s = Some c) slots (2 ^ lg - 1)
        (set_stride lg c) (set_start lg c) (set_start lg c)" if "length slots = 2 ^ lg" for slots lg c
  proof (cases "c = 0")
    case False
    then have "(\<lambda>s. coupon_is_empty s \<or> s = c) = (\<lambda>s. coupon_occ s = None \<or> coupon_occ s = Some c)"
      by (auto simp: coupon_occ_def fun_eq_iff)
    then show ?thesis using False that by (simp only: set_lookup_def set_find_def if_False)
  qed (simp add: set_lookup_def)
qed

lemma cset_stored: "cset.stored slots = set slots - {0}"
  by (auto simp: cset.stored_def coupon_occ_def)

lemma cset_keys: "cset.keys slots = set slots - {0}"
  by (auto simp: cset.keys_def coupon_occ_def split: if_splits)

definition set_holds :: "container \<Rightarrow> coupon set \<Rightarrow> bool" where
  "set_holds s C \<longleftrightarrow> cset.wf (hc_lg_size s) (hc_coupons s) \<and> set (hc_coupons s) - {0} = C \<and> hc_len s = card C"

lemma set_holds_facts:
  assumes "set_holds s C"
  shows "hc_len s = card C" and "finite C" and "0 \<notin> C" and "container_capacity s = 2 ^ hc_lg_size s"
    and "set (container_iter s) = C" and "distinct (container_iter s)"
proof -
  show "hc_len s = card C" "finite C" "0 \<notin> C" using assms by (auto simp: set_holds_def)
  have wf: "cset.wf (hc_lg_size s) (hc_coupons s)" using assms by (simp add: set_holds_def)
  show "container_capacity s = 2 ^ hc_lg_size s" using cset.wf_length [OF wf] by (simp add: container_capacity_def)
  show "set (container_iter s) = C" using assms by (auto simp: set_holds_def container_iter_def)
  have "distinct (filter (\<lambda>s. coupon_occ s \<noteq> None) (hc_coupons s))" using cset.distinct_occupied [OF wf] by blast
  moreover have "(\<lambda>s. coupon_occ s \<noteq> None) = (\<lambda>s. \<not> coupon_is_empty s)"
    by (simp add: fun_eq_iff coupon_occ_def)
  ultimately show "distinct (container_iter s)" by (simp only: container_iter_def)
qed

lemma set_new_holds: "set_holds (container_new lg) {}"
  using cset.wf_empty [of 0 lg] by (simp add: set_holds_def container_new_def COUPON_EMPTY_def coupon_occ_def)

lemma set_update_holds:
  assumes s: "set_holds s C" and c: "c \<noteq> 0" and room: "c \<in> C \<or> card C < 2 ^ hc_lg_size s"
  shows "\<exists>s'. set_update_coupon s c = Inr s' \<and> set_holds s' (insert c C) \<and> hc_lg_size s' = hc_lg_size s"
proof -
  let ?lg = "hc_lg_size s" and ?slots = "hc_coupons s"
  have wf: "cset.wf ?lg ?slots" and C: "set ?slots - {0} = C" and len: "hc_len s = card C"
    using s by (simp_all add: set_holds_def)
  have n: "length ?slots = 2 ^ ?lg" by (rule cset.wf_length [OF wf])
  have "cset.occupied ?slots = card C" using cset.occupied_card [OF wf] cset_stored C by simp
  then have free: "c \<in> cset.keys ?slots \<or> (\<exists>t \<in> set ?slots. coupon_occ t = None)"
    using room cset.free_slot_iff [of ?slots] n C cset_keys by simp
  obtain p where p: "set_lookup ?lg ?slots c = Slot p" using cset.lookup_succeeds [OF wf free] by blast
  note P = cset.lookup_Slot [OF wf p]
  have find: "set_find ?lg ?slots c = Slot p" using p c by (simp add: set_lookup_def)
  show ?thesis
  proof (cases "c \<in> C")
    case True
    then have "?slots ! p = c" using P(2) cset_keys C by (auto simp: coupon_occ_def split: if_splits)
    then show ?thesis using find c True s by (simp add: set_update_coupon_def insert_absorb)
  next
    case False
    then have "c \<notin> cset.keys ?slots" using cset_keys C by simp
    then have empty: "?slots ! p = 0" using P(3) by (simp add: coupon_occ_def split: if_splits)
    have occ: "coupon_occ c = Some c" using c by (simp add: coupon_occ_def)
    have "cset.stored (?slots[p := c]) = insert c {t \<in> cset.stored ?slots. coupon_occ t \<noteq> Some c}"
      by (rule cset.stored_insert [OF wf p occ])
    then have "set (?slots[p := c]) - {0} = insert c C"
      using C False unfolding cset_stored by (auto simp: coupon_occ_def)
    moreover have "cset.wf ?lg (?slots[p := c])" by (rule cset.wf_insert [OF wf p occ])
    moreover have "finite C" using C by auto
    ultimately show ?thesis
      using find empty len False by (simp add: set_update_coupon_def set_holds_def)
  qed
qed

end
