(* ===== verification/HllEstimator.thy ===== *)
theory HllEstimator
  imports Float64
begin

text \<open>
  The HIP estimator that every HLL register array carries (\<open>src/datasketches/src/hll/estimator.rs\<close>,
  \<open>src/datasketches/src/common/inv_pow2.rs\<close>), with its floating-point state. The two sums \<open>kxq0\<close> and
  \<open>kxq1\<close> of \<open>2 ^ (- v)\<close> over the register values \<open>v\<close> are exact in spite of the floating-point
  arithmetic, whatever the order of the updates (\<open>kxq_update\<close>): all values of one sum are multiples of one power of two,
  and at most \<open>2 ^ 21\<close> registers keep the sum below 53 bits. The composite estimate for the
  out-of-order state (interpolation tables and logarithms) is left out; \<open>hip_estimate\<close> takes it as an argument.
\<close>

section \<open>The estimator\<close>

definition inv_pow2 :: "8 word \<Rightarrow> f64" where
  "inv_pow2 e = push_bit 52 (1023 - ucast e)"

record hip_estimator =
  he_hip_accum :: f64
  he_kxq0 :: f64
  he_kxq1 :: f64
  he_out_of_order :: bool

definition hip_new :: "nat \<Rightarrow> hip_estimator" where
  "hip_new lg_config_k =
     \<lparr>he_hip_accum = 0, he_kxq0 = f64_of_nat (2 ^ lg_config_k), he_kxq1 = 0, he_out_of_order = False\<rparr>"

definition update_kxq :: "hip_estimator \<Rightarrow> 8 word \<Rightarrow> 8 word \<Rightarrow> hip_estimator" where
  "update_kxq e old_value new_value =
     (let e = (if old_value < 32 then e\<lparr>he_kxq0 := f64_sub (he_kxq0 e) (inv_pow2 old_value)\<rparr>
               else e\<lparr>he_kxq1 := f64_sub (he_kxq1 e) (inv_pow2 old_value)\<rparr>)
      in if new_value < 32 then e\<lparr>he_kxq0 := f64_add (he_kxq0 e) (inv_pow2 new_value)\<rparr>
         else e\<lparr>he_kxq1 := f64_add (he_kxq1 e) (inv_pow2 new_value)\<rparr>)"

definition hip_update :: "hip_estimator \<Rightarrow> nat \<Rightarrow> 8 word \<Rightarrow> 8 word \<Rightarrow> hip_estimator" where
  "hip_update e lg_config_k old_value new_value =
     (let k = f64_of_nat (2 ^ lg_config_k);
          e = (if \<not> he_out_of_order e
               then e\<lparr>he_hip_accum := f64_add (he_hip_accum e) (f64_div k (f64_add (he_kxq0 e) (he_kxq1 e)))\<rparr>
               else e)
      in update_kxq e old_value new_value)"

definition hip_estimate ::
  "(hip_estimator \<Rightarrow> nat \<Rightarrow> nat \<Rightarrow> nat \<Rightarrow> f64) \<Rightarrow> hip_estimator \<Rightarrow> nat \<Rightarrow> nat \<Rightarrow> nat \<Rightarrow> f64" where
  "hip_estimate composite e lg_config_k cur_min num_at_cur_min =
     (if he_out_of_order e then composite e lg_config_k cur_min num_at_cur_min else he_hip_accum e)"

definition set_out_of_order :: "hip_estimator \<Rightarrow> bool \<Rightarrow> hip_estimator" where
  "set_out_of_order e ooo =
     (let e = e\<lparr>he_out_of_order := ooo\<rparr> in if ooo then e\<lparr>he_hip_accum := 0\<rparr> else e)"

definition set_hip_accum :: "hip_estimator \<Rightarrow> f64 \<Rightarrow> hip_estimator" where
  "set_hip_accum e v = e\<lparr>he_hip_accum := v\<rparr>"

definition set_kxq0 :: "hip_estimator \<Rightarrow> f64 \<Rightarrow> hip_estimator" where
  "set_kxq0 e v = e\<lparr>he_kxq0 := v\<rparr>"

definition set_kxq1 :: "hip_estimator \<Rightarrow> f64 \<Rightarrow> hip_estimator" where
  "set_kxq1 e v = e\<lparr>he_kxq1 := v\<rparr>"

section \<open>The inverse powers\<close>

lemma inv_pow2_val: "f64_val (inv_pow2 e) = pow2 (- int (unat e))" "f64_number (inv_pow2 e)"
proof -
  have "unat e < 2 ^ LENGTH(8)" by (rule unsigned_less)
  then have e: "unat e < 256" by simp
  have "uint e < 2 ^ LENGTH(8)" by (rule unsigned_less)
  then have u: "uint e < 256" by simp
  have u': "- uint e \<le> 1023" using uint_ge_0 [of e] by linarith
  let ?n = "1023 - unat e"
  have "unat (1023 - ucast e :: f64) = ?n"
  proof -
    have "unat (ucast e :: f64) = unat e" using e by (simp add: unsigned_ucast_eq take_bit_nat_eq_self)
    then show ?thesis using e by (simp add: unat_sub word_le_nat_alt)
  qed
  then have w: "1023 - ucast e = (of_nat ?n :: f64)" by (simp add: word_unat_eq_iff unat_of_nat)
  have "inv_pow2 e = of_int ((int (unat e) * - 1 - 52 + 1074) * 2 ^ 52 + 2 ^ 52)"
    using e unfolding inv_pow2_def w by (simp add: push_bit_eq_mult of_nat_diff algebra_simps)
  then have i: "inv_pow2 e = of_int ((- int (unat e) - 52 + 1074) * 2 ^ 52 + 2 ^ 52)" by simp
  have "f64_magnitude (inv_pow2 e) = of_int (2 ^ 52) * pow2 (- int (unat e) - 52) \<and> f64_exponent (inv_pow2 e) < 2047 \<and>
      \<not> f64_negative (inv_pow2 e)"
    unfolding i using u u' by (intro conjI f64_assemble) simp_all
  moreover have "of_int (2 ^ 52) * pow2 (- int (unat e) - 52) = pow2 (- int (unat e))"
    by (simp add: power_int_diff)
  ultimately show "f64_val (inv_pow2 e) = pow2 (- int (unat e))" "f64_number (inv_pow2 e)"
    by (simp_all add: f64_val_def f64_number_def)
qed

section \<open>Exact sums\<close>

text \<open>\<open>scaled q n x\<close>: the number \<open>x\<close> is \<open>n\<close> times the power \<open>q\<close> of two.\<close>

definition scaled :: "int \<Rightarrow> nat \<Rightarrow> f64 \<Rightarrow> bool" where
  "scaled q n x \<longleftrightarrow> f64_number x \<and> f64_val x = of_nat n * pow2 q"

lemma scaled_add:
  assumes "scaled q a x" and "scaled q b y" and "a + b < 2 ^ 53" and "- 1074 \<le> q" and "q \<le> 900"
  shows "scaled q (a + b) (f64_add x y)"
proof -
  have sum: "f64_val x + f64_val y = of_nat (a + b) * pow2 q"
    using assms(1,2) by (simp add: scaled_def algebra_simps)
  have "f64_exact (f64_val x + f64_val y)" by (rule f64_exact_multiple [OF sum assms(3-5)])
  moreover have "0 \<le> f64_val x + f64_val y" unfolding sum by simp
  ultimately show ?thesis using f64_add_exact [of x y] assms(1,2) sum by (simp only: scaled_def)
qed

lemma scaled_sub:
  assumes "scaled q a x" and "scaled q b y" and "b \<le> a" and "a < 2 ^ 53" and "- 1074 \<le> q" and "q \<le> 900"
  shows "scaled q (a - b) (f64_sub x y)"
proof -
  have diff: "f64_val x - f64_val y = of_nat (a - b) * pow2 q"
    using assms(1-3) by (simp add: scaled_def of_nat_diff algebra_simps)
  have "a - b < 2 ^ 53" using assms(4) by simp
  then have "f64_exact (f64_val x - f64_val y)" by (rule f64_exact_multiple [OF diff _ assms(5,6)])
  moreover have "0 \<le> f64_val x - f64_val y" unfolding diff by simp
  ultimately show ?thesis using f64_sub_exact [of x y] assms(1,2) diff by (simp only: scaled_def)
qed

lemma scaled_zero: "scaled q 0 0"
  by (simp add: scaled_def)

text \<open>The share of a register value in the two sums, in units of \<open>2 ^ (- 31)\<close> and \<open>2 ^ (- 63)\<close>\<close>

definition share0 :: "8 word \<Rightarrow> nat" where
  "share0 v = (if v < 32 then 2 ^ (31 - unat v) else 0)"

definition share1 :: "8 word \<Rightarrow> nat" where
  "share1 v = (if v < 32 then 0 else 2 ^ (63 - unat v))"

lemma share_bounds: "share0 v \<le> 2 ^ 31" "share1 v \<le> 2 ^ 31"
proof -
  have "(2 :: nat) ^ (31 - n) \<le> 2 ^ 31" for n by (rule power_increasing) simp_all
  then show "share0 v \<le> 2 ^ 31" by (simp add: share0_def)
  have "(2 :: nat) ^ (63 - unat v) \<le> 2 ^ 31" if "\<not> v < 32"
    using that by (intro power_increasing) (simp_all add: word_less_nat_alt)
  then show "share1 v \<le> 2 ^ 31" by (simp add: share1_def)
qed

lemma scaled_inv_pow2:
  "v < 32 \<Longrightarrow> scaled (- 31) (share0 v) (inv_pow2 v)"
  "\<not> v < 32 \<Longrightarrow> v < 64 \<Longrightarrow> scaled (- 63) (share1 v) (inv_pow2 v)"
proof -
  have split: "pow2 (- int n) = of_nat (2 ^ (b - n)) * pow2 (- int b)" if "n \<le> b" for n b
  proof -
    have "- int n = int (b - n) + - int b" using that by simp
    then show ?thesis by (simp only: pow2_add power_int_of_nat of_nat_power of_nat_numeral)
  qed
  show "scaled (- 31) (share0 v) (inv_pow2 v)" if "v < 32"
    using that split [of "unat v" 31] by (simp add: scaled_def share0_def inv_pow2_val word_less_nat_alt)
  show "scaled (- 63) (share1 v) (inv_pow2 v)" if "\<not> v < 32" "v < 64"
    using that split [of "unat v" 63] by (simp add: scaled_def share1_def inv_pow2_val word_less_nat_alt)
qed

text \<open>The sums of an estimator against the registers \<open>r 0, \<dots>, r (k - 1)\<close>\<close>

definition kxq_ok :: "hip_estimator \<Rightarrow> nat \<Rightarrow> (nat \<Rightarrow> 8 word) \<Rightarrow> bool" where
  "kxq_ok e k r \<longleftrightarrow> scaled (- 31) (\<Sum>s<k. share0 (r s)) (he_kxq0 e) \<and>
     scaled (- 63) (\<Sum>s<k. share1 (r s)) (he_kxq1 e)"

lemma sum_share_bound:
  assumes "\<And>v. share v \<le> (2 :: nat) ^ 31" and "(k :: nat) \<le> 2 ^ 21"
  shows "(\<Sum>s<k. share (r s)) < 2 ^ 53"
proof -
  have "(\<Sum>s<k. share (r s)) \<le> of_nat (card {..<k}) * 2 ^ 31" by (rule sum_bounded_above) (rule assms(1))
  also have "\<dots> \<le> 2 ^ 21 * 2 ^ 31" using assms(2) by simp
  also have "\<dots> < 2 ^ 53" by simp
  finally show ?thesis .
qed

lemma sum_share_change:
  assumes "s < (k :: nat)"
  shows "(\<Sum>i<k. share ((r(s := v)) i)) = (\<Sum>i<k. share (r i)) - share (r s) + (share v :: nat)"
    and "share (r s) \<le> (\<Sum>i<k. share (r i))"
proof -
  have "(\<Sum>i<k. share ((r(s := v)) i)) = share v + (\<Sum>i\<in>{..<k} - {s}. share ((r(s := v)) i))"
    using sum.remove [OF finite_lessThan, of s k "\<lambda>i. share ((r(s := v)) i)"] assms by (simp only: fun_upd_same lessThan_iff)
  also have "(\<Sum>i\<in>{..<k} - {s}. share ((r(s := v)) i)) = (\<Sum>i\<in>{..<k} - {s}. share (r i))" by (rule sum.cong) auto
  finally have new: "(\<Sum>i<k. share ((r(s := v)) i)) = share v + (\<Sum>i\<in>{..<k} - {s}. share (r i))" .
  have old: "(\<Sum>i<k. share (r i)) = share (r s) + (\<Sum>i\<in>{..<k} - {s}. share (r i))"
    using assms by (simp add: sum.remove [of "{..<k}" s])
  show "(\<Sum>i<k. share ((r(s := v)) i)) = (\<Sum>i<k. share (r i)) - share (r s) + share v" using new old by simp
  show "share (r s) \<le> (\<Sum>i<k. share (r i))" using old by simp
qed

text \<open>One register changes: both sums stay exact.\<close>

lemma kxq_step:
  assumes sum: "scaled q (\<Sum>i<k. share (r i)) x" and s: "s < k" and k: "(k :: nat) \<le> 2 ^ 21" and b: "\<And>v. share v \<le> (2 :: nat) ^ 31"
    and q: "- 1074 \<le> q" "q \<le> 900"
    and old: "if P (r s) then scaled q (share (r s)) y else share (r s) = 0"
    and new: "if P v then scaled q (share v) z else share v = 0"
  shows "scaled q (\<Sum>i<k. share ((r(s := v)) i))
    (let x = (if P (r s) then f64_sub x y else x) in if P v then f64_add x z else x)"
proof -
  note C = sum_share_change [OF s, of share r]
  have B: "(\<Sum>i<k. share (r i)) < 2 ^ 53" "(\<Sum>i<k. share (r i)) - share (r s) + share v < 2 ^ 53"
    using sum_share_bound [of share k r, OF b k] sum_share_bound [of share k "r(s := v)", OF b k] C(1) [of v] by simp_all
  have "scaled q ((\<Sum>i<k. share (r i)) - share (r s)) (if P (r s) then f64_sub x y else x)"
    using sum old scaled_sub [OF sum _ C(2) B(1) q] by (auto split: if_splits)
  then show ?thesis
    using new scaled_add [OF _ _ B(2) q] unfolding C(1) Let_def by (auto split: if_splits)
qed

lemma hip_update_kxq:
  "he_kxq0 (hip_update e lg old new) =
    (let x = (if old < 32 then f64_sub (he_kxq0 e) (inv_pow2 old) else he_kxq0 e)
     in if new < 32 then f64_add x (inv_pow2 new) else x)"
  "he_kxq1 (hip_update e lg old new) =
    (let x = (if \<not> old < 32 then f64_sub (he_kxq1 e) (inv_pow2 old) else he_kxq1 e)
     in if \<not> new < 32 then f64_add x (inv_pow2 new) else x)"
  "he_out_of_order (hip_update e lg old new) = he_out_of_order e"
  by (simp_all add: hip_update_def update_kxq_def Let_def)

lemma kxq_update:
  assumes ok: "kxq_ok e k r" and s: "s < k" and k: "k \<le> 2 ^ 21" and r: "r s < 64" and v: "v < 64"
  shows "kxq_ok (hip_update e lg (r s) v) k (r(s := v))"
proof -
  have 0: "if w < 32 then scaled (- 31) (share0 w) (inv_pow2 w) else share0 w = 0" for w
    using scaled_inv_pow2(1) [of w] by (simp add: share0_def)
  have 1: "if \<not> w < 32 then scaled (- 63) (share1 w) (inv_pow2 w) else share1 w = 0" if "w < 64" for w
    using scaled_inv_pow2(2) [of w] that by (simp add: share1_def)
  have "scaled (- 31) (\<Sum>i<k. share0 (r i)) (he_kxq0 e)" "scaled (- 63) (\<Sum>i<k. share1 (r i)) (he_kxq1 e)"
    using ok by (simp_all add: kxq_ok_def)
  then show ?thesis
    unfolding kxq_ok_def hip_update_kxq
    using kxq_step [where share = share0 and P = "\<lambda>v. v < 32" and q = "- 31" and r = r and s = s and k = k and v = v,
        OF _ s k share_bounds(1) _ _ 0 0]
      kxq_step [where share = share1 and P = "\<lambda>v. \<not> v < 32" and q = "- 63" and r = r and s = s and k = k and v = v,
        OF _ s k share_bounds(2) _ _ 1 [OF r] 1 [OF v]] by simp
qed

lemma kxq_new:
  assumes "lg \<le> 21" and "\<And>s. s < 2 ^ lg \<Longrightarrow> r s = 0"
  shows "kxq_ok (hip_new lg) (2 ^ lg) r"
proof -
  have "(2 :: nat) ^ lg \<le> 2 ^ 21" using assms(1) by (intro power_increasing) simp_all
  then have "f64_val (f64_of_nat (2 ^ lg)) = of_nat (2 ^ lg) \<and> f64_number (f64_of_nat (2 ^ lg))"
    by (intro conjI f64_of_nat_exact) simp_all
  moreover have "(\<Sum>s<2 ^ lg. share0 (r s)) = 2 ^ lg * 2 ^ 31" "(\<Sum>s<2 ^ lg. share1 (r s)) = 0"
    using assms(2) by (simp_all add: share0_def share1_def)
  moreover have "(2147483648 :: rat) * (1 / 2) ^ 31 = 1" by (simp add: power_one_over)
  ultimately show ?thesis by (simp add: kxq_ok_def hip_new_def scaled_def power_int_def)
qed

end
