(* ===== verification/HllArray.thy ===== *)
theory HllArray
  imports HllCoupon HllEstimator
begin

text \<open>
  The register arrays of the HLL sketch with 8 and 6 bits per register
  (\<open>src/datasketches/src/hll/array8.rs\<close>, \<open>array6.rs\<close>), and what all register arrays promise: the locale \<open>hll_array\<close> says
  that an array refines one abstract machine, a function of register values with its estimator
  (\<open>hll_state\<close>, \<open>spec_update\<close>). The array with 4 bits is the third instance, in the theory HllArray4.
  The counts of zero registers are \<open>u32\<close> and wrap; slots are \<open>nat\<close>.
\<close>

section \<open>Eight bits: \<open>array8.rs\<close>\<close>

record array8 =
  a8_lg_config_k :: nat
  a8_bytes :: "u8 list"
  a8_num_zeros :: u32
  a8_estimator :: hip_estimator

definition a8_new :: "nat \<Rightarrow> array8" where
  "a8_new lg_config_k =
     \<lparr>a8_lg_config_k = lg_config_k, a8_bytes = replicate (2 ^ lg_config_k) 0,
      a8_num_zeros = of_nat (2 ^ lg_config_k), a8_estimator = hip_new lg_config_k\<rparr>"

definition a8_get :: "array8 \<Rightarrow> nat \<Rightarrow> u8 res" where
  "a8_get a slot = get_at (a8_bytes a) slot"

definition a8_put :: "array8 \<Rightarrow> nat \<Rightarrow> u8 \<Rightarrow> array8 res" where
  "a8_put a slot v = bind_res (set_at (a8_bytes a) slot v) (\<lambda>bytes. Inr (a\<lparr>a8_bytes := bytes\<rparr>))"

definition a8_update :: "array8 \<Rightarrow> coupon \<Rightarrow> array8 res" where
  "a8_update a c =
     (let msk = 2 ^ a8_lg_config_k a - 1;
          slot = unat (coupon_slot c) AND msk;
          new_value = coupon_value c
      in bind_res (a8_get a slot) (\<lambda>old_value.
         if old_value < new_value then
           let a = a\<lparr>a8_estimator := hip_update (a8_estimator a) (a8_lg_config_k a) old_value new_value\<rparr>
           in bind_res (a8_put a slot new_value) (\<lambda>a.
                Inr (if old_value = 0 then a\<lparr>a8_num_zeros := a8_num_zeros a - 1\<rparr> else a))
         else Inr a))"

definition a8_set_hip_accum :: "array8 \<Rightarrow> f64 \<Rightarrow> array8" where
  "a8_set_hip_accum a v = a\<lparr>a8_estimator := set_hip_accum (a8_estimator a) v\<rparr>"

definition a8_is_empty :: "array8 \<Rightarrow> bool" where
  "a8_is_empty a \<longleftrightarrow> a8_num_zeros a = of_nat (2 ^ a8_lg_config_k a)"

section \<open>Six bits: \<open>array6.rs\<close>\<close>

definition VAL_MASK_6 :: u16 where "VAL_MASK_6 = 0x3F"

record array6 =
  a6_lg_config_k :: nat
  a6_bytes :: "u8 list"
  a6_num_zeros :: u32
  a6_estimator :: hip_estimator

definition num_bytes_for_k :: "nat \<Rightarrow> nat" where
  "num_bytes_for_k k = k * 3 div 4 + 1"

definition a6_new :: "nat \<Rightarrow> array6" where
  "a6_new lg_config_k =
     (let k = 2 ^ lg_config_k
      in \<lparr>a6_lg_config_k = lg_config_k, a6_bytes = replicate (num_bytes_for_k k) 0,
          a6_num_zeros = of_nat k, a6_estimator = hip_new lg_config_k\<rparr>)"

definition a6_window :: "u8 list \<Rightarrow> nat \<Rightarrow> u16 res" where
  "a6_window bytes byte_idx =
     bind_res (get_at bytes byte_idx) (\<lambda>b0.
     bind_res (get_at bytes (byte_idx + 1)) (\<lambda>b1. Inr (from_le_bytes [b0, b1])))"

definition a6_get_raw :: "array6 \<Rightarrow> nat \<Rightarrow> u8 res" where
  "a6_get_raw a slot =
     (let start_bit = slot * 6;
          byte_idx = start_bit div 8;
          shift = start_bit mod 8
      in bind_res (a6_window (a6_bytes a) byte_idx) (\<lambda>two_bytes.
           Inr (ucast (drop_bit shift two_bytes AND VAL_MASK_6))))"

definition a6_put_raw :: "array6 \<Rightarrow> nat \<Rightarrow> u8 \<Rightarrow> array6 res" where
  "a6_put_raw a slot v =
     (if \<not> v \<le> 63 then Inl (Panic ''6-bit value must be 0-63'')
      else
        let start_bit = slot * 6;
            byte_idx = start_bit div 8;
            shift = start_bit mod 8
        in bind_res (a6_window (a6_bytes a) byte_idx) (\<lambda>two_bytes.
         let two_bytes = two_bytes AND NOT (push_bit shift VAL_MASK_6);
             two_bytes = two_bytes OR push_bit shift (ucast v AND VAL_MASK_6);
             bytes_out = to_le_bytes two_bytes
         in bind_res (set_at (a6_bytes a) byte_idx (bytes_out ! 0)) (\<lambda>bytes.
            bind_res (set_at bytes (byte_idx + 1) (bytes_out ! 1)) (\<lambda>bytes.
              Inr (a\<lparr>a6_bytes := bytes\<rparr>)))))"

definition a6_update :: "array6 \<Rightarrow> coupon \<Rightarrow> array6 res" where
  "a6_update a c =
     (let msk = 2 ^ a6_lg_config_k a - 1;
          slot = unat (coupon_slot c) AND msk;
          new_value = coupon_value c
      in bind_res (a6_get_raw a slot) (\<lambda>old_value.
         if old_value < new_value then
           let a = a\<lparr>a6_estimator := hip_update (a6_estimator a) (a6_lg_config_k a) old_value new_value\<rparr>
           in bind_res (a6_put_raw a slot new_value) (\<lambda>a.
                Inr (if old_value = 0 then a\<lparr>a6_num_zeros := a6_num_zeros a - 1\<rparr> else a))
         else Inr a))"

definition a6_set_hip_accum :: "array6 \<Rightarrow> f64 \<Rightarrow> array6" where
  "a6_set_hip_accum a v = a\<lparr>a6_estimator := set_hip_accum (a6_estimator a) v\<rparr>"

definition a6_is_empty :: "array6 \<Rightarrow> bool" where
  "a6_is_empty a \<longleftrightarrow> a6_num_zeros a = of_nat (2 ^ a6_lg_config_k a)"

section \<open>The abstract register machine\<close>

type_synonym hll_state = "(nat \<Rightarrow> u8) \<times> hip_estimator"

definition coupon_index :: "nat \<Rightarrow> coupon \<Rightarrow> nat" where
  "coupon_index lg c = unat (coupon_slot c) mod 2 ^ lg"

definition spec_new :: "nat \<Rightarrow> hll_state" where
  "spec_new lg = (\<lambda>_. 0, hip_new lg)"

definition spec_update :: "nat \<Rightarrow> hll_state \<Rightarrow> coupon \<Rightarrow> hll_state" where
  "spec_update lg st c =
     (let (r, e) = st; s = coupon_index lg c; v = coupon_value c
      in if r s < v then (r(s := v), hip_update e lg (r s) v) else st)"

definition spec_set_hip :: "hll_state \<Rightarrow> f64 \<Rightarrow> hll_state" where
  "spec_set_hip st v = (fst st, set_hip_accum (snd st) v)"

definition spec_ok :: "nat \<Rightarrow> hll_state \<Rightarrow> bool" where
  "spec_ok lg st \<longleftrightarrow> 4 \<le> lg \<and> lg \<le> 21 \<and> (\<forall>s. fst st s < 64) \<and> (\<forall>s \<ge> 2 ^ lg. fst st s = 0) \<and>
     kxq_ok (snd st) (2 ^ lg) (fst st)"

lemma coupon_index_lt [simp]: "coupon_index lg c < 2 ^ lg"
  by (simp add: coupon_index_def)

lemma coupon_index_not_ge [simp]: "\<not> 2 ^ lg \<le> coupon_index lg c"
  by (simp add: not_le)

lemma lg_bound: "lg \<le> 21 \<Longrightarrow> (2 :: nat) ^ lg \<le> 2 ^ 21"
  by (rule power_increasing) simp_all

lemma spec_new_ok: "4 \<le> lg \<Longrightarrow> lg \<le> 21 \<Longrightarrow> spec_ok lg (spec_new lg)"
  by (simp add: spec_ok_def spec_new_def kxq_new)

lemma spec_update_ok: "spec_ok lg st \<Longrightarrow> spec_ok lg (spec_update lg st c)"
  using kxq_update [of "snd st" "2 ^ lg" "fst st" "coupon_index lg c" "coupon_value c" lg] lg_bound [of lg]
  by (cases st) (auto simp: spec_ok_def spec_update_def Let_def)

lemma spec_set_hip_ok: "spec_ok lg st \<Longrightarrow> spec_ok lg (spec_set_hip st v)"
  by (simp add: spec_ok_def spec_set_hip_def set_hip_accum_def kxq_ok_def)

lemma spec_update_reg:
  "fst (spec_update lg st c) s = (if s = coupon_index lg c then max (fst st s) (coupon_value c) else fst st s)"
  by (cases st) (auto simp: spec_update_def Let_def max_def)

text \<open>The machine after a list of coupons: the registers are the greatest values offered to them.\<close>

definition coupon_regs :: "nat \<Rightarrow> coupon set \<Rightarrow> nat \<Rightarrow> u8" where
  "coupon_regs lg C s = Max (insert 0 {coupon_value c | c. c \<in> C \<and> coupon_index lg c = s})"

lemma coupon_regs_empty [simp]: "coupon_regs lg {} s = 0"
  by (simp add: coupon_regs_def)

lemma coupon_regs_insert:
  assumes "finite C"
  shows "coupon_regs lg (insert c C) s =
    (if s = coupon_index lg c then max (coupon_regs lg C s) (coupon_value c) else coupon_regs lg C s)"
proof -
  let ?V = "\<lambda>C. {coupon_value c | c. c \<in> C \<and> coupon_index lg c = s}"
  have fin: "finite (?V C)" using assms by simp
  have "?V (insert c C) = (if s = coupon_index lg c then insert (coupon_value c) (?V C) else ?V C)" by auto
  then show ?thesis
    using fin by (auto simp: coupon_regs_def insert_commute [of 0] max.commute max.left_commute)
qed

lemma coupon_regs_lt: "finite C \<Longrightarrow> coupon_regs lg C s < 64"
  by (induction C rule: finite_induct) (auto simp: coupon_regs_insert)

definition spec_updates :: "nat \<Rightarrow> hll_state \<Rightarrow> coupon list \<Rightarrow> hll_state" where
  "spec_updates lg st cs = foldl (spec_update lg) st cs"

lemma spec_updates_ok: "spec_ok lg st \<Longrightarrow> spec_ok lg (spec_updates lg st cs)"
  unfolding spec_updates_def by (induction cs arbitrary: st) (simp_all add: spec_update_ok)

lemma spec_updates_reg:
  "fst (spec_updates lg st cs) s = max (fst st s) (coupon_regs lg (set cs) s)"
proof (induction cs rule: rev_induct)
  case (snoc c cs)
  let ?st = "foldl (spec_update lg) st cs"
  have "fst ?st s = max (fst st s) (coupon_regs lg (set cs) s)" using snoc by (simp add: spec_updates_def)
  then have "fst (spec_update lg ?st c) s = max (fst st s) (coupon_regs lg (insert c (set cs)) s)"
    unfolding spec_update_reg coupon_regs_insert [OF finite_set] by (auto simp: max.assoc)
  then show ?case by (simp add: spec_updates_def)
qed (simp add: spec_updates_def)

section \<open>The contract of a register array\<close>

locale hll_array =
  fixes new :: "nat \<Rightarrow> 'a"
    and upd :: "'a \<Rightarrow> coupon \<Rightarrow> 'a res"
    and set_hip :: "'a \<Rightarrow> f64 \<Rightarrow> 'a"
    and ok :: "nat \<Rightarrow> 'a \<Rightarrow> bool"
    and abst :: "'a \<Rightarrow> hll_state"
  assumes new_refines: "4 \<le> lg \<Longrightarrow> lg \<le> 21 \<Longrightarrow> ok lg (new lg) \<and> abst (new lg) = spec_new lg"
    and upd_refines: "ok lg a \<Longrightarrow> spec_ok lg (abst a) \<Longrightarrow>
      \<exists>a'. upd a c = Inr a' \<and> ok lg a' \<and> abst a' = spec_update lg (abst a) c"
    and set_hip_refines: "ok lg a \<Longrightarrow> ok lg (set_hip a v) \<and> abst (set_hip a v) = spec_set_hip (abst a) v"
begin

definition good :: "nat \<Rightarrow> 'a \<Rightarrow> bool" where
  "good lg a \<longleftrightarrow> ok lg a \<and> spec_ok lg (abst a)"

lemma new_good: "4 \<le> lg \<Longrightarrow> lg \<le> 21 \<Longrightarrow> good lg (new lg)"
  using new_refines spec_new_ok by (simp add: good_def)

lemma upd_good: "good lg a \<Longrightarrow> \<exists>a'. upd a c = Inr a' \<and> good lg a' \<and> abst a' = spec_update lg (abst a) c"
  using upd_refines [of lg a c] spec_update_ok unfolding good_def by metis

lemma set_hip_good: "good lg a \<Longrightarrow> good lg (set_hip a v) \<and> abst (set_hip a v) = spec_set_hip (abst a) v"
  using set_hip_refines [of lg a v] spec_set_hip_ok [of lg "abst a" v] by (simp add: good_def)

lemma updates_good:
  "good lg a \<Longrightarrow> \<exists>a'. fold_res upd a cs = Inr a' \<and> good lg a' \<and> abst a' = spec_updates lg (abst a) cs"
proof (induction cs arbitrary: a)
  case (Cons c cs)
  obtain b where b: "upd a c = Inr b" "good lg b" "abst b = spec_update lg (abst a) c"
    using upd_good [OF Cons.prems] by blast
  then show ?case using Cons.IH [OF b(2)] by (simp add: spec_updates_def)
qed (simp add: spec_updates_def)

lemma filled_good:
  assumes "4 \<le> lg" and "lg \<le> 21"
  shows "\<exists>a. fold_res upd (new lg) cs = Inr a \<and> good lg (set_hip a v) \<and>
    abst (set_hip a v) = spec_set_hip (spec_updates lg (spec_new lg) cs) v"
proof -
  obtain a where "fold_res upd (new lg) cs = Inr a" "good lg a" "abst a = spec_updates lg (abst (new lg)) cs"
    using updates_good [OF new_good [OF assms]] by blast
  then show ?thesis using set_hip_good new_refines [OF assms] by auto
qed

end

section \<open>The array with eight bits\<close>

definition a8_reg :: "array8 \<Rightarrow> nat \<Rightarrow> u8" where
  "a8_reg a s = (if s < length (a8_bytes a) then a8_bytes a ! s else 0)"

definition a8_ok :: "nat \<Rightarrow> array8 \<Rightarrow> bool" where
  "a8_ok lg a \<longleftrightarrow> a8_lg_config_k a = lg \<and> length (a8_bytes a) = 2 ^ lg \<and>
     a8_num_zeros a = of_nat (card {s. s < 2 ^ lg \<and> a8_reg a s = 0})"

definition a8_abs :: "array8 \<Rightarrow> hll_state" where
  "a8_abs a = (a8_reg a, a8_estimator a)"

text \<open>A register that leaves a value is no longer counted at it.\<close>

lemma count_upd:
  fixes r :: "nat \<Rightarrow> u8"
  assumes "s < k" and "v \<noteq> m"
  shows "of_nat (card {i. i < k \<and> (r(s := v)) i = m}) =
    (if r s = m then of_nat (card {i. i < k \<and> r i = m}) - 1 else of_nat (card {i. i < k \<and> r i = m}) :: u32)"
proof -
  let ?Z = "{i. i < k \<and> r i = m}"
  have new: "{i. i < k \<and> (r(s := v)) i = m} = ?Z - {s}" using assms(2) by auto
  show ?thesis
  proof (cases "r s = m")
    case True
    then have "card ?Z = Suc (card (?Z - {s}))" using assms(1) by (intro card.remove) auto
    then show ?thesis unfolding new using True by simp
  next
    case False
    then have "?Z - {s} = ?Z" by auto
    then show ?thesis unfolding new using False by simp
  qed
qed

lemmas zeros_upd = count_upd [where m = 0]

lemma slot_and_mask: "unat (coupon_slot c) AND (2 ^ lg - 1) = coupon_index lg c"
  by (simp only: coupon_index_def and_mask_nat)

lemmas slot_masks [simp] = slot_and_mask slot_and_mask [unfolded One_nat_def]

lemma a8_new_refines: "a8_ok lg (a8_new lg) \<and> a8_abs (a8_new lg) = spec_new lg"
proof -
  have "a8_reg (a8_new lg) = (\<lambda>_. 0)" by (simp add: fun_eq_iff a8_reg_def a8_new_def)
  then show ?thesis by (simp add: a8_ok_def a8_abs_def spec_new_def) (simp add: a8_new_def)
qed

lemma a8_update_refines:
  assumes "a8_ok lg a"
  shows "\<exists>a'. a8_update a c = Inr a' \<and> a8_ok lg a' \<and> a8_abs a' = spec_update lg (a8_abs a) c"
proof -
  let ?s = "coupon_index lg c" and ?v = "coupon_value c"
  have lg: "a8_lg_config_k a = lg" "length (a8_bytes a) = 2 ^ lg"
    and zeros: "a8_num_zeros a = of_nat (card {s. s < 2 ^ lg \<and> a8_reg a s = 0})"
    using assms by (simp_all add: a8_ok_def)
  have get: "a8_get a ?s = Inr (a8_reg a ?s)" using lg by (simp add: a8_get_def a8_reg_def)
  show ?thesis
  proof (cases "a8_reg a ?s < ?v")
    case False
    then show ?thesis using assms get
      by (intro exI [of _ a]) (simp add: a8_update_def Let_def lg(1) spec_update_def a8_abs_def)
  next
    case True
    then have v: "?v \<noteq> 0" by auto
    let ?a = "a\<lparr>a8_estimator := hip_update (a8_estimator a) lg (a8_reg a ?s) ?v, a8_bytes := (a8_bytes a)[?s := ?v],
      a8_num_zeros := if a8_reg a ?s = 0 then a8_num_zeros a - 1 else a8_num_zeros a\<rparr>"
    have run: "a8_update a c = Inr ?a"
      using True get lg by (simp add: a8_update_def Let_def a8_put_def)
    have reg: "a8_reg ?a = (a8_reg a)(?s := ?v)"
      using lg by (auto simp: a8_reg_def fun_eq_iff nth_list_update)
    have "a8_ok lg ?a"
      unfolding a8_ok_def reg zeros_upd [OF coupon_index_lt v] using lg zeros by simp
    moreover have "a8_abs ?a = spec_update lg (a8_abs a) c"
      unfolding a8_abs_def reg using True by (simp add: spec_update_def Let_def)
    ultimately show ?thesis using run by blast
  qed
qed

interpretation a8: hll_array a8_new a8_update a8_set_hip_accum a8_ok a8_abs
proof
  show "a8_ok lg (a8_new lg) \<and> a8_abs (a8_new lg) = spec_new lg" for lg by (rule a8_new_refines)
  show "\<exists>a'. a8_update a c = Inr a' \<and> a8_ok lg a' \<and> a8_abs a' = spec_update lg (a8_abs a) c" if "a8_ok lg a" for lg a c
    by (rule a8_update_refines [OF that])
  show "a8_ok lg (a8_set_hip_accum a v) \<and> a8_abs (a8_set_hip_accum a v) = spec_set_hip (a8_abs a) v"
    if "a8_ok lg a" for lg a v
  proof -
    have "a8_reg (a8_set_hip_accum a v) = a8_reg a" by (simp add: fun_eq_iff a8_reg_def a8_set_hip_accum_def)
    then show ?thesis using that
      by (simp add: a8_ok_def a8_abs_def spec_set_hip_def) (simp add: a8_set_hip_accum_def)
  qed
qed


section \<open>The array with six bits\<close>

definition byte_bit :: "u8 list \<Rightarrow> nat \<Rightarrow> bool" where
  "byte_bit bytes j = bit (bytes ! (j div 8)) (j mod 8)"

definition a6_reg :: "array6 \<Rightarrow> nat \<Rightarrow> u8" where
  "a6_reg a s =
     (if s < 2 ^ a6_lg_config_k a then (case a6_get_raw a s of Inr v \<Rightarrow> v | Inl _ \<Rightarrow> 0) else 0)"

definition a6_ok :: "nat \<Rightarrow> array6 \<Rightarrow> bool" where
  "a6_ok lg a \<longleftrightarrow> a6_lg_config_k a = lg \<and> 2 \<le> lg \<and> length (a6_bytes a) = num_bytes_for_k (2 ^ lg) \<and>
     a6_num_zeros a = of_nat (card {s. s < 2 ^ lg \<and> a6_reg a s = 0})"

definition a6_abs :: "array6 \<Rightarrow> hll_state" where
  "a6_abs a = (a6_reg a, a6_estimator a)"

lemma a6_in_range:
  assumes "2 \<le> lg" and "length bytes = num_bytes_for_k (2 ^ lg)" and "s < 2 ^ lg"
  shows "Suc (s * 6 div 8) < length bytes"
proof -
  obtain m where m: "lg = m + 2" using assms(1) by (metis add.commute le_Suc_ex)
  have "length bytes = 2 ^ m * 3 + 1" using assms(2) by (simp add: m num_bytes_for_k_def)
  moreover have "s < 2 ^ m * 4" using assms(3) by (simp add: m)
  ultimately show ?thesis by linarith
qed

lemma bit_window:
  assumes "Suc i < length bytes" and "j < 16"
  shows "bit (from_le_bytes [bytes ! i, bytes ! Suc i] :: u16) j \<longleftrightarrow> byte_bit bytes (8 * i + j)"
proof (cases "j < 8")
  case False
  then obtain k where "j = 8 + k" by (metis le_Suc_ex not_less)
  then show ?thesis using assms(2) by (simp add: bit_from_le_bytes byte_bit_def del: from_le_bytes.simps)
qed (simp add: bit_from_le_bytes byte_bit_def del: from_le_bytes.simps)

lemma bit_val_mask_6: "bit VAL_MASK_6 i \<longleftrightarrow> i < 6"
proof -
  have "VAL_MASK_6 = mask 6" by (simp add: VAL_MASK_6_def mask_eq_exp_minus_1)
  then have "bit VAL_MASK_6 i \<longleftrightarrow> bit (mask 6 :: u16) i" by simp
  then show ?thesis by (auto simp: bit_mask_iff)
qed

lemma a6_get_bits:
  assumes "Suc (s * 6 div 8) < length (a6_bytes a)"
  shows "\<exists>v. a6_get_raw a s = Inr v \<and> (\<forall>i. bit v i \<longleftrightarrow> i < 6 \<and> byte_bit (a6_bytes a) (6 * s + i))"
proof -
  define n where "n = s * 6 div 8"
  define sh where "sh = s * 6 mod 8"
  define w :: u16 where "w = from_le_bytes [a6_bytes a ! n, a6_bytes a ! Suc n]"
  let ?v = "ucast (drop_bit sh w AND VAL_MASK_6) :: u8"
  have start: "8 * n + sh = 6 * s" unfolding n_def sh_def by (simp only: mult_div_mod_eq mult.commute [of 6 s])
  have sh: "sh < 8" by (simp add: sh_def)
  have n: "Suc n < length (a6_bytes a)" using assms by (simp only: n_def)
  have w: "bit w j \<longleftrightarrow> byte_bit (a6_bytes a) (8 * n + j)" if "j < 16" for j
    unfolding w_def by (rule bit_window [OF n that])
  have "a6_get_raw a s = Inr ?v"
    unfolding a6_get_raw_def Let_def n_def [symmetric] sh_def [symmetric] a6_window_def
    using n by (simp add: w_def del: from_le_bytes.simps)
  moreover have "bit ?v i \<longleftrightarrow> i < 6 \<and> byte_bit (a6_bytes a) (6 * s + i)" for i
  proof (cases "i < 6")
    case True
    have "sh + i < 16" using True sh by linarith
    then have "bit w (sh + i) \<longleftrightarrow> byte_bit (a6_bytes a) (6 * s + i)"
      using w start by (simp add: add.assoc [symmetric])
    then show ?thesis using True by (simp add: bit_simps bit_val_mask_6)
  qed (simp add: bit_simps bit_val_mask_6)
  ultimately show ?thesis by blast
qed

lemma a6_put_bits:
  assumes "Suc (s * 6 div 8) < length (a6_bytes a)" and v: "v < 64"
  shows "\<exists>bytes. a6_put_raw a s v = Inr (a\<lparr>a6_bytes := bytes\<rparr>) \<and> length bytes = length (a6_bytes a) \<and>
    (\<forall>j. byte_bit bytes j \<longleftrightarrow>
      (if 6 * s \<le> j \<and> j < 6 * s + 6 then bit v (j - 6 * s) else byte_bit (a6_bytes a) j))"
proof -
  let ?B = "a6_bytes a"
  define n where "n = s * 6 div 8"
  define sh where "sh = s * 6 mod 8"
  define w :: u16 where "w = from_le_bytes [?B ! n, ?B ! Suc n]"
  define w' where "w' = (w AND NOT (push_bit sh VAL_MASK_6)) OR push_bit sh (ucast v AND VAL_MASK_6)"
  let ?B' = "?B[n := to_le_bytes w' ! 0, Suc n := to_le_bytes w' ! 1]"
  have start: "8 * n + sh = 6 * s" unfolding n_def sh_def by (simp only: mult_div_mod_eq mult.commute [of 6 s])
  have sh: "sh < 8" by (simp add: sh_def)
  have n: "Suc n < length ?B" using assms by (simp only: n_def)
  have w: "bit w j \<longleftrightarrow> byte_bit ?B (8 * n + j)" if "j < 16" for j
    unfolding w_def by (rule bit_window [OF n that])
  have run: "a6_put_raw a s v = Inr (a\<lparr>a6_bytes := ?B'\<rparr>)"
    unfolding a6_put_raw_def Let_def n_def [symmetric] sh_def [symmetric] a6_window_def
    using n v by (simp add: w_def w'_def word_le_nat_alt word_less_nat_alt del: from_le_bytes.simps)
  have w': "bit w' k \<longleftrightarrow> (if sh \<le> k \<and> k < sh + 6 then bit v (k - sh) else byte_bit ?B (8 * n + k))" if "k < 16" for k
  proof -
    have "bit (push_bit sh VAL_MASK_6) k \<longleftrightarrow> sh \<le> k \<and> k < sh + 6"
      using that by (auto simp: bit_simps bit_val_mask_6)
    moreover have "bit (push_bit sh (ucast v AND VAL_MASK_6 :: u16)) k \<longleftrightarrow> sh \<le> k \<and> k < sh + 6 \<and> bit v (k - sh)"
      using that by (auto simp: bit_simps bit_val_mask_6)
    ultimately show ?thesis
      using that w [OF that] unfolding w'_def by (auto simp: bit_or_iff bit_and_iff bit_not_iff)
  qed
  have bytes: "to_le_bytes w' ! 0 = ucast w'" "to_le_bytes w' ! Suc 0 = ucast (drop_bit 8 w')"
    by (simp_all add: to_le_bytes_def)
  have "byte_bit ?B' j \<longleftrightarrow> (if 6 * s \<le> j \<and> j < 6 * s + 6 then bit v (j - 6 * s) else byte_bit ?B j)" for j
  proof -
    consider (lo) k where "j = 8 * n + k" "k < 8" | (hi) k where "j = 8 * n + (8 + k)" "k < 8"
      | (other) "j div 8 \<noteq> n" "j div 8 \<noteq> Suc n"
    proof (cases "j div 8 = n \<or> j div 8 = Suc n")
      case True
      have "j = 8 * n + j mod 8 \<or> j = 8 * n + (8 + j mod 8)" "j mod 8 < 8"
        using True mult_div_mod_eq [of 8 j] by (metis add.assoc add.commute mult_Suc_right) simp
      then show ?thesis using that(1) [of "j mod 8"] that(2) [of "j mod 8"] by blast
    qed (use that(3) in blast)
    then show ?thesis
    proof cases
      case lo
      then have "byte_bit ?B' j \<longleftrightarrow> bit w' k" using n by (simp add: byte_bit_def bytes bit_simps)
      then show ?thesis using w' [of k] lo start [symmetric] by auto
    next
      case hi
      then have "byte_bit ?B' j \<longleftrightarrow> bit w' (8 + k)" using n by (simp add: byte_bit_def bytes bit_simps)
      then show ?thesis using w' [of "8 + k"] hi start [symmetric] by auto
    next
      case other
      then have "\<not> (6 * s \<le> j \<and> j < 6 * s + 6)" using start sh by linarith
      then show ?thesis using other by (auto simp: byte_bit_def)
    qed
  qed
  then show ?thesis using run by (intro exI [of _ ?B']) simp
qed

lemma a6_get:
  assumes "a6_lg_config_k a = lg" and "2 \<le> lg" and "length (a6_bytes a) = num_bytes_for_k (2 ^ lg)" and "s < 2 ^ lg"
  shows "a6_get_raw a s = Inr (a6_reg a s)"
    and "bit (a6_reg a s) i \<longleftrightarrow> i < 6 \<and> byte_bit (a6_bytes a) (6 * s + i)"
proof -
  obtain v where v: "a6_get_raw a s = Inr v" "\<forall>i. bit v i \<longleftrightarrow> i < 6 \<and> byte_bit (a6_bytes a) (6 * s + i)"
    using a6_get_bits [OF a6_in_range [OF assms(2-4)]] by blast
  moreover have "a6_reg a s = v" using v(1) assms(1,4) by (simp add: a6_reg_def)
  ultimately show "a6_get_raw a s = Inr (a6_reg a s)"
    and "bit (a6_reg a s) i \<longleftrightarrow> i < 6 \<and> byte_bit (a6_bytes a) (6 * s + i)" by simp_all
qed

text \<open>Writing one register leaves the others alone.\<close>

lemma a6_put:
  assumes a: "a6_lg_config_k a = lg" "2 \<le> lg" "length (a6_bytes a) = num_bytes_for_k (2 ^ lg)" and s: "s < 2 ^ lg" and v: "v < 64"
  shows "\<exists>bytes. a6_put_raw a s v = Inr (a\<lparr>a6_bytes := bytes\<rparr>) \<and> length bytes = length (a6_bytes a) \<and>
    a6_reg (a\<lparr>a6_bytes := bytes\<rparr>) = (a6_reg a)(s := v)"
proof -
  obtain bytes where put: "a6_put_raw a s v = Inr (a\<lparr>a6_bytes := bytes\<rparr>)" "length bytes = length (a6_bytes a)"
    "\<forall>j. byte_bit bytes j \<longleftrightarrow> (if 6 * s \<le> j \<and> j < 6 * s + 6 then bit v (j - 6 * s) else byte_bit (a6_bytes a) j)"
    using a6_put_bits [OF a6_in_range [OF a(2,3) s] v] by blast
  let ?a = "a\<lparr>a6_bytes := bytes\<rparr>"
  have a': "a6_lg_config_k ?a = lg" "length (a6_bytes ?a) = num_bytes_for_k (2 ^ lg)" using a put(2) by simp_all
  have v6: "bit v i \<longrightarrow> i < 6" for i
  proof (rule ccontr)
    assume "\<not> (bit v i \<longrightarrow> i < 6)"
    then have i: "bit v i" "6 \<le> i" by simp_all
    have "unat v < 2 ^ 6" using v by (simp add: word_less_nat_alt)
    also have "\<dots> \<le> 2 ^ i" using i(2) by (intro power_increasing) simp_all
    finally have "\<not> bit (unat v) i" by (simp add: bit_iff_odd)
    then show False using i(1) by (simp add: bit_unsigned_iff)
  qed
  have "a6_reg ?a t = ((a6_reg a)(s := v)) t" for t
  proof (cases "t < 2 ^ lg")
    case True
    note old = a6_get(2) [OF a True] and new = a6_get(2) [OF a'(1) a(2) a'(2) True]
    show ?thesis
    proof (rule bit_word_eqI)
      fix i
      have "\<not> (6 * s \<le> 6 * t + i \<and> 6 * t + i < 6 * s + 6)" if "t \<noteq> s" "i < 6" using that by linarith
      then show "bit (a6_reg ?a t) i \<longleftrightarrow> bit (((a6_reg a)(s := v)) t) i"
        using v6 [of i] unfolding new by (auto simp: put(3) old)
    qed
  qed (use a s in \<open>auto simp: a6_reg_def\<close>)
  then show ?thesis using put(1,2) by blast
qed

lemma a6_new_refines: "2 \<le> lg \<Longrightarrow> a6_ok lg (a6_new lg) \<and> a6_abs (a6_new lg) = spec_new lg"
proof -
  assume lg: "2 \<le> lg"
  let ?a = "a6_new lg"
  have a: "a6_lg_config_k ?a = lg" "length (a6_bytes ?a) = num_bytes_for_k (2 ^ lg)" by (simp_all add: a6_new_def Let_def)
  have zero: "\<not> byte_bit (a6_bytes ?a) j" if "j div 8 < num_bytes_for_k (2 ^ lg)" for j
    using that by (simp add: byte_bit_def a6_new_def Let_def)
  have reg: "a6_reg ?a s = 0" for s
  proof (cases "s < 2 ^ lg")
    case True
    note get = a6_get(2) [OF a(1) lg a(2) True]
    have "Suc (s * 6 div 8) < num_bytes_for_k (2 ^ lg)" using a6_in_range [OF lg a(2) True] a(2) by simp
    then have "(6 * s + i) div 8 < num_bytes_for_k (2 ^ lg)" if "i < 6" for i using that by linarith
    then have "\<not> bit (a6_reg ?a s) i" for i unfolding get using zero by blast
    then show ?thesis by (simp add: bit_eq_iff)
  qed (simp add: a6_reg_def a(1))
  then have "a6_reg ?a = (\<lambda>_. 0)" by (simp add: fun_eq_iff)
  then show ?thesis using a lg by (simp add: a6_ok_def a6_abs_def spec_new_def) (simp add: a6_new_def Let_def)
qed

lemma a6_reg_cong [simp]:
  "a6_reg (a\<lparr>a6_estimator := e\<rparr>) = a6_reg a" "a6_reg (a\<lparr>a6_num_zeros := n\<rparr>) = a6_reg a"
  by (simp_all add: fun_eq_iff a6_reg_def a6_get_raw_def)

lemma a6_update_refines:
  assumes ok: "a6_ok lg a"
  shows "\<exists>a'. a6_update a c = Inr a' \<and> a6_ok lg a' \<and> a6_abs a' = spec_update lg (a6_abs a) c"
proof -
  let ?s = "coupon_index lg c" and ?v = "coupon_value c"
  have a: "a6_lg_config_k a = lg" "2 \<le> lg" "length (a6_bytes a) = num_bytes_for_k (2 ^ lg)"
    and zeros: "a6_num_zeros a = of_nat (card {s. s < 2 ^ lg \<and> a6_reg a s = 0})"
    using ok by (simp_all add: a6_ok_def)
  note get = a6_get(1) [OF a coupon_index_lt, of c]
  show ?thesis
  proof (cases "a6_reg a ?s < ?v")
    case False
    then show ?thesis using ok get
      by (intro exI [of _ a]) (simp add: a6_update_def Let_def a(1) spec_update_def a6_abs_def)
  next
    case True
    then have v: "?v \<noteq> 0" by auto
    let ?e = "hip_update (a6_estimator a) lg (a6_reg a ?s) ?v"
    let ?a1 = "a\<lparr>a6_estimator := ?e\<rparr>"
    have a1: "a6_lg_config_k ?a1 = lg" "length (a6_bytes ?a1) = num_bytes_for_k (2 ^ lg)" using a by simp_all
    obtain bytes where put: "a6_put_raw ?a1 ?s ?v = Inr (?a1\<lparr>a6_bytes := bytes\<rparr>)" "length bytes = length (a6_bytes ?a1)"
      "a6_reg (?a1\<lparr>a6_bytes := bytes\<rparr>) = (a6_reg ?a1)(?s := ?v)"
      using a6_put [OF a1(1) a(2) a1(2) coupon_index_lt coupon_value_lt] by blast
    let ?a = "?a1\<lparr>a6_bytes := bytes, a6_num_zeros := if a6_reg a ?s = 0 then a6_num_zeros a - 1 else a6_num_zeros a\<rparr>"
    have run: "a6_update a c = Inr ?a"
      using True get put(1) a(1) by (simp add: a6_update_def Let_def)
    have reg: "a6_reg ?a = (a6_reg a)(?s := ?v)"
      using put(3) by simp
    have "a6_ok lg ?a"
      unfolding a6_ok_def reg zeros_upd [OF coupon_index_lt v] using a zeros put(2) by simp
    moreover have "a6_abs ?a = spec_update lg (a6_abs a) c"
      unfolding a6_abs_def reg using True by (simp add: spec_update_def Let_def)
    ultimately show ?thesis using run by blast
  qed
qed

interpretation a6: hll_array a6_new a6_update a6_set_hip_accum a6_ok a6_abs
proof
  show "a6_ok lg (a6_new lg) \<and> a6_abs (a6_new lg) = spec_new lg" if "4 \<le> lg" for lg
    by (rule a6_new_refines) (use that in simp)
  show "\<exists>a'. a6_update a c = Inr a' \<and> a6_ok lg a' \<and> a6_abs a' = spec_update lg (a6_abs a) c" if "a6_ok lg a" for lg a c
    by (rule a6_update_refines [OF that])
  show "a6_ok lg (a6_set_hip_accum a v) \<and> a6_abs (a6_set_hip_accum a v) = spec_set_hip (a6_abs a) v"
    if "a6_ok lg a" for lg a v
    using that by (simp add: a6_ok_def a6_abs_def spec_set_hip_def a6_set_hip_accum_def)
qed

end
