(* ===== verification/HllAux.thy ===== *)
theory HllAux
  imports HllCoupon
begin

text \<open>
  The exception map of the HLL array with 4 bits (\<open>src/datasketches/src/hll/aux_map.rs\<close>): an
  open-addressing table from slots to register values, an instance of the contract of the theory
  Probing. It refines a finite map (\<open>aux_holds\<close>); an insertion grows the table before it is more than
  three quarters full, so a search always ends at the slot or at a free place.
\<close>

section \<open>The map\<close>

record aux_map =
  am_lg_size :: nat
  am_lg_config_k :: nat
  am_entries :: "coupon list"
  am_count :: nat

definition LG_AUX_ARR_INTS :: "nat list" where
  "LG_AUX_ARR_INTS =
     [0, 2, 2, 2, 2, 2, 2, 3, 3, 3, 4, 4, 5, 5, 6, 7, 8, 9, 10, 11, 12, 13, 14, 15, 16, 17, 18]"

definition lg_aux_arr_ints :: "nat \<Rightarrow> nat" where
  "lg_aux_arr_ints lg_config_k = LG_AUX_ARR_INTS ! lg_config_k"

datatype find_result = Found nat | Vacant nat

definition aux_new :: "nat \<Rightarrow> aux_map" where
  "aux_new lg_config_k =
     (let lg_size = lg_aux_arr_ints lg_config_k
      in \<lparr>am_lg_size = lg_size, am_lg_config_k = lg_config_k,
          am_entries = replicate (2 ^ lg_size) COUPON_EMPTY, am_count = 0\<rparr>)"

definition aux_start :: "nat \<Rightarrow> nat \<Rightarrow> nat" where
  "aux_start lg_size slot = slot AND (2 ^ lg_size - 1)"

definition aux_stride :: "nat \<Rightarrow> nat \<Rightarrow> nat" where
  "aux_stride lg_size slot = drop_bit lg_size slot OR 1"

definition aux_find :: "aux_map \<Rightarrow> nat \<Rightarrow> find_result res" where
  "aux_find m slot =
     (let config_k_mask = 2 ^ am_lg_config_k m - 1
      in case probe_loop (length (am_entries m))
             (\<lambda>entry. coupon_is_empty entry \<or> unat (coupon_slot entry) AND config_k_mask = slot)
             (am_entries m) (2 ^ am_lg_size m - 1) (aux_stride (am_lg_size m) slot)
             (aux_start (am_lg_size m) slot) (aux_start (am_lg_size m) slot) of
           Slot probe \<Rightarrow> Inr (if coupon_is_empty (am_entries m ! probe) then Vacant probe else Found probe)
         | Wrapped \<Rightarrow> Inl (Panic ''unreachable: AuxMap full; no empty slots'')
         | Out_of_fuel \<Rightarrow> Inl (Panic ''search does not end''))"

definition aux_grow :: "aux_map \<Rightarrow> aux_map res" where
  "aux_grow m =
     (let new_lg_size = am_lg_size m + 1
      in bind_res
           (place_all
             (\<lambda>slots entry.
               let slot = unat (coupon_slot entry)
               in probe_loop (length slots) coupon_is_empty slots (2 ^ new_lg_size - 1)
                    (aux_stride new_lg_size slot) (aux_start new_lg_size slot) (aux_start new_lg_size slot))
             (\<lambda>entry. entry) (replicate (2 ^ new_lg_size) COUPON_EMPTY)
             (filter (\<lambda>entry. \<not> coupon_is_empty entry) (am_entries m))) (\<lambda>new_entries.
           Inr (m\<lparr>am_entries := new_entries, am_lg_size := new_lg_size\<rparr>)))"

definition aux_check_grow :: "aux_map \<Rightarrow> aux_map res" where
  "aux_check_grow m =
     (if RESIZE_NUMERATOR * 2 ^ am_lg_size m < RESIZE_DENOMINATOR * am_count m then aux_grow m else Inr m)"

definition aux_insert :: "aux_map \<Rightarrow> nat \<Rightarrow> u8 \<Rightarrow> aux_map res" where
  "aux_insert m slot v =
     bind_res (aux_find m slot) (\<lambda>index. case index of
       Found _ \<Rightarrow> Inl (Panic ''unreachable: slot already exists in aux map'')
     | Vacant idx \<Rightarrow>
         aux_check_grow
           (m\<lparr>am_entries := (am_entries m)[idx := coupon_pack (of_nat slot) v], am_count := am_count m + 1\<rparr>))"

definition aux_get :: "aux_map \<Rightarrow> nat \<Rightarrow> u8 option res" where
  "aux_get m slot =
     bind_res (aux_find m slot) (\<lambda>index. case index of
       Found idx \<Rightarrow> Inr (Some (coupon_value (am_entries m ! idx)))
     | Vacant _ \<Rightarrow> Inr None)"

definition aux_replace :: "aux_map \<Rightarrow> nat \<Rightarrow> u8 \<Rightarrow> aux_map res" where
  "aux_replace m slot v =
     bind_res (aux_find m slot) (\<lambda>index. case index of
       Found idx \<Rightarrow> Inr (m\<lparr>am_entries := (am_entries m)[idx := coupon_pack (of_nat slot) v]\<rparr>)
     | Vacant _ \<Rightarrow> Inl (Panic ''unreachable: slot not found in aux map''))"

definition aux_iter :: "aux_map \<Rightarrow> (nat \<times> u8) list" where
  "aux_iter m =
     (let config_k_mask = 2 ^ am_lg_config_k m - 1
      in map (\<lambda>entry. (unat (coupon_slot entry) AND config_k_mask, coupon_value entry))
           (filter (\<lambda>entry. \<not> coupon_is_empty entry) (am_entries m)))"

section \<open>The table as an open-addressing table\<close>

definition aux_occ :: "nat \<Rightarrow> coupon \<Rightarrow> nat option" where
  "aux_occ k entry = (if entry = 0 then None else Some (unat (coupon_slot entry) mod 2 ^ k))"

definition aux_lookup :: "nat \<Rightarrow> nat \<Rightarrow> coupon list \<Rightarrow> nat \<Rightarrow> probe_result" where
  "aux_lookup k lg slots slot =
     probe_loop (2 ^ lg) (\<lambda>e. aux_occ k e = None \<or> aux_occ k e = Some slot) slots (2 ^ lg - 1)
       (aux_stride lg slot) (aux_start lg slot) (aux_start lg slot)"

interpretation aux: open_addressing "aux_occ k" aux_start aux_stride "aux_lookup k" for k
proof
  show "aux_start lg slot < 2 ^ lg" for lg slot
    unfolding aux_start_def by (rule and_mask_nat_lt)
  show "odd (aux_stride lg slot)" for lg slot
    by (simp add: aux_stride_def even_or_iff)
qed (simp add: aux_lookup_def)

text \<open>
  The refined map: a register with an exception and its value. The slots are below \<open>2 ^ k\<close>, so the
  unmasked slot that \<open>grow\<close> uses is the masked one of \<open>find\<close>.
\<close>

definition aux_holds :: "nat \<Rightarrow> aux_map \<Rightarrow> (nat \<rightharpoonup> u8) \<Rightarrow> bool" where
  "aux_holds k m F \<longleftrightarrow>
     am_lg_config_k m = k \<and> k \<le> 21 \<and> 2 \<le> am_lg_size m \<and> aux.wf k (am_lg_size m) (am_entries m) \<and>
     (\<forall>e \<in> set (am_entries m). e \<noteq> 0 \<longrightarrow> unat (coupon_slot e) < 2 ^ k) \<and>
     (\<forall>s v. F s = Some v \<longleftrightarrow> (\<exists>e \<in> set (am_entries m). e \<noteq> 0 \<and> unat (coupon_slot e) = s \<and> coupon_value e = v)) \<and>
     am_count m = aux.occupied k (am_entries m) \<and> 4 * am_count m \<le> 3 * 2 ^ am_lg_size m"

lemma aux_stored: "aux.stored k slots = set slots - {0}"
  by (auto simp: aux.stored_def aux_occ_def)

lemma pack_facts:
  assumes "slot < 2 ^ k" and "k \<le> 21" and "0 < v" and "v < 64"
  shows "coupon_pack (of_nat slot) v \<noteq> 0" and "unat (coupon_slot (coupon_pack (of_nat slot) v)) = slot"
    and "coupon_value (coupon_pack (of_nat slot) v) = v" and "aux_occ k (coupon_pack (of_nat slot) v) = Some slot"
proof -
  let ?c = "coupon_pack (of_nat slot) v"
  show val: "coupon_value ?c = v" by (rule coupon_value_pack [OF assms(4)])
  have "coupon_value 0 = 0" by (simp add: coupon_value_def)
  then show nz: "?c \<noteq> 0" using val assms(3) by auto
  have "slot < 2 ^ 21" using assms(1,2) by (meson less_le_trans one_le_numeral power_increasing)
  then have "slot < 2 ^ 26" by simp
  moreover have "unat (of_nat slot AND KEY_MASK_26 :: u32) = slot mod 2 ^ 26"
  proof -
    have "of_nat slot AND KEY_MASK_26 = take_bit 26 (of_nat slot :: u32)"
      by (rule bit_word_eqI) (auto simp: bit_simps bit_key_mask)
    then have "unat (of_nat slot AND KEY_MASK_26 :: u32) = take_bit 26 (take_bit LENGTH(32) slot)"
      by (simp only: unsigned_take_bit_eq unsigned_of_nat of_nat_id)
    then show ?thesis by (simp add: take_bit_eq_mod mod_mod_cancel)
  qed
  ultimately show slot: "unat (coupon_slot ?c) = slot" by simp
  show "aux_occ k ?c = Some slot" using nz slot assms(1) by (simp add: aux_occ_def)
qed

lemma aux_find_lookup:
  assumes "aux_holds k m F"
  shows "aux_find m slot =
    (case aux_lookup k (am_lg_size m) (am_entries m) slot of
       Slot p \<Rightarrow> Inr (if am_entries m ! p = 0 then Vacant p else Found p)
     | Wrapped \<Rightarrow> Inl (Panic ''unreachable: AuxMap full; no empty slots'')
     | Out_of_fuel \<Rightarrow> Inl (Panic ''search does not end''))"
proof -
  have k: "am_lg_config_k m = k" "length (am_entries m) = 2 ^ am_lg_size m"
    using assms aux.wf_length by (auto simp: aux_holds_def)
  have "(\<lambda>entry. coupon_is_empty entry \<or> unat (coupon_slot entry) AND (2 ^ k - 1) = slot) =
      (\<lambda>e. aux_occ k e = None \<or> aux_occ k e = Some slot)"
    by (auto simp only: fun_eq_iff aux_occ_def and_mask_nat coupon_is_empty_iff split: if_splits)
  then show ?thesis unfolding aux_find_def Let_def k aux_lookup_def by (simp only: coupon_is_empty_iff)
qed

text \<open>The facts of the refinement, one by one\<close>

lemma aux_holdsD:
  assumes "aux_holds k m F"
  shows "am_lg_config_k m = k" "k \<le> 21" "aux.wf k (am_lg_size m) (am_entries m)"
    "length (am_entries m) = 2 ^ am_lg_size m"
    "e \<in> set (am_entries m) \<Longrightarrow> e \<noteq> 0 \<Longrightarrow> aux_occ k e = Some (unat (coupon_slot e))"
    "e \<in> set (am_entries m) \<Longrightarrow> e \<noteq> 0 \<Longrightarrow> F (unat (coupon_slot e)) = Some (coupon_value e)"
    "F s = Some v \<Longrightarrow> \<exists>e \<in> set (am_entries m). e \<noteq> 0 \<and> unat (coupon_slot e) = s \<and> coupon_value e = v"
    "\<exists>t \<in> set (am_entries m). aux_occ k t = None"
    "s \<in> aux.keys k (am_entries m) \<longleftrightarrow> s \<in> dom F"
proof -
  note H = assms [unfolded aux_holds_def]
  show "am_lg_config_k m = k" "k \<le> 21" "aux.wf k (am_lg_size m) (am_entries m)" using H by blast+
  then show len: "length (am_entries m) = 2 ^ am_lg_size m" by (intro aux.wf_length)
  show occ: "aux_occ k e = Some (unat (coupon_slot e))" if "e \<in> set (am_entries m)" "e \<noteq> 0" for e
    using H that by (simp add: aux_occ_def)
  show val: "F (unat (coupon_slot e)) = Some (coupon_value e)" if "e \<in> set (am_entries m)" "e \<noteq> 0" for e
    using H that by blast
  show ex: "\<exists>e \<in> set (am_entries m). e \<noteq> 0 \<and> unat (coupon_slot e) = s \<and> coupon_value e = v" if "F s = Some v" for s v
    using H that by blast
  have "4 * aux.occupied k (am_entries m) \<le> 3 * length (am_entries m)" "0 < length (am_entries m)" using H len by simp_all
  then have "aux.occupied k (am_entries m) < length (am_entries m)" by linarith
  then show "\<exists>t \<in> set (am_entries m). aux_occ k t = None" by (simp only: aux.free_slot_iff)
  have "s \<in> aux.keys k (am_entries m) \<longleftrightarrow> (\<exists>e \<in> set (am_entries m). e \<noteq> 0 \<and> unat (coupon_slot e) = s)"
    unfolding aux.keys_def using occ by (auto simp: aux_occ_def split: if_splits)
  then show "s \<in> aux.keys k (am_entries m) \<longleftrightarrow> s \<in> dom F" using val ex [of s] unfolding dom_def by blast
qed

lemma aux_find_found:
  assumes h: "aux_holds k m F" and s: "F s = Some v"
  shows "\<exists>p < length (am_entries m). aux_find m s = Inr (Found p) \<and> am_entries m ! p \<noteq> 0 \<and>
    unat (coupon_slot (am_entries m ! p)) = s \<and> coupon_value (am_entries m ! p) = v \<and>
    aux_lookup k (am_lg_size m) (am_entries m) s = Slot p"
proof -
  note H = aux_holdsD [OF h]
  obtain e where e: "e \<in> set (am_entries m)" "e \<noteq> 0" "unat (coupon_slot e) = s" "coupon_value e = v" using H(7) [OF s] by blast
  obtain p where p: "p < length (am_entries m)" "am_entries m ! p = e" using e(1) by (auto simp: in_set_conv_nth)
  have "aux_lookup k (am_lg_size m) (am_entries m) s = Slot p"
    using H(5) [OF e(1,2)] e(3) p H(4) by (intro aux.lookup_found [OF H(3)]) simp_all
  then show ?thesis using p e by (simp add: aux_find_lookup [OF h])
qed

lemma aux_find_vacant:
  assumes h: "aux_holds k m F" and s: "s \<notin> dom F"
  shows "\<exists>p < length (am_entries m). aux_find m s = Inr (Vacant p) \<and> am_entries m ! p = 0 \<and>
    aux_lookup k (am_lg_size m) (am_entries m) s = Slot p"
proof -
  note H = aux_holdsD [OF h]
  obtain p where p: "aux_lookup k (am_lg_size m) (am_entries m) s = Slot p"
    using aux.lookup_succeeds [OF H(3)] H(8) by blast
  note P = aux.lookup_Slot [OF H(3) p]
  have "am_entries m ! p = 0" using P(3) H(9) s by (auto simp: aux_occ_def split: if_splits)
  then show ?thesis using p P(1) H(4) by (simp add: aux_find_lookup [OF h])
qed

lemma aux_get_ok: "aux_holds k m F \<Longrightarrow> aux_get m s = Inr (F s)"
proof (cases "F s")
  case None
  assume h: "aux_holds k m F"
  then obtain p where "aux_find m s = Inr (Vacant p)" using aux_find_vacant [OF h, of s] None by auto
  then show ?thesis using None by (simp add: aux_get_def)
next
  case (Some v)
  assume h: "aux_holds k m F"
  then obtain p where "aux_find m s = Inr (Found p)" "coupon_value (am_entries m ! p) = v"
    using aux_find_found [OF h Some] by blast
  then show ?thesis using Some by (simp add: aux_get_def)
qed

text \<open>A changed place: the entries, the keys and the count of the new table\<close>

lemma aux_place:
  assumes h: "aux_holds k m F" and p: "aux_lookup k (am_lg_size m) (am_entries m) s = Slot p"
    and s: "s < 2 ^ k" and v: "0 < v" "v < 64"
  defines "e \<equiv> coupon_pack (of_nat s) v"
  shows "aux.wf k (am_lg_size m) ((am_entries m)[p := e])"
    and "\<forall>d \<in> set ((am_entries m)[p := e]). d \<noteq> 0 \<longrightarrow> unat (coupon_slot d) < 2 ^ k"
    and "(F(s \<mapsto> v)) t = Some w \<longleftrightarrow>
      (\<exists>d \<in> set ((am_entries m)[p := e]). d \<noteq> 0 \<and> unat (coupon_slot d) = t \<and> coupon_value d = w)"
    and "aux.occupied k ((am_entries m)[p := e]) = aux.occupied k (am_entries m) + (if s \<in> dom F then 0 else 1)"
proof -
  note H = aux_holdsD [OF h] and P = pack_facts [OF s aux_holdsD(2) [OF h] v, folded e_def]
  show "aux.wf k (am_lg_size m) ((am_entries m)[p := e])" by (rule aux.wf_insert [OF H(3) p P(4)])
  have stored: "set ((am_entries m)[p := e]) - {0} = insert e {d \<in> set (am_entries m) - {0}. aux_occ k d \<noteq> Some s}"
    using aux.stored_insert [OF H(3) p P(4)] by (simp only: aux_stored)
  have mem: "d \<in> set ((am_entries m)[p := e]) \<and> d \<noteq> 0 \<longleftrightarrow>
      d = e \<or> d \<in> set (am_entries m) \<and> d \<noteq> 0 \<and> aux_occ k d \<noteq> Some s" for d
  proof -
    have "d \<in> set ((am_entries m)[p := e]) - {0} \<longleftrightarrow>
        d \<in> insert e {d \<in> set (am_entries m) - {0}. aux_occ k d \<noteq> Some s}" by (simp only: stored)
    then show ?thesis by simp
  qed
  have old: "unat (coupon_slot d) < 2 ^ k" if "d \<in> set (am_entries m)" "d \<noteq> 0" for d
    using h that by (simp add: aux_holds_def)
  show "\<forall>d \<in> set ((am_entries m)[p := e]). d \<noteq> 0 \<longrightarrow> unat (coupon_slot d) < 2 ^ k"
    using mem old P(2) s by metis
  have "(\<exists>d \<in> set ((am_entries m)[p := e]). d \<noteq> 0 \<and> unat (coupon_slot d) = t \<and> coupon_value d = w) \<longleftrightarrow>
      (\<exists>d. (d = e \<or> d \<in> set (am_entries m) \<and> d \<noteq> 0 \<and> aux_occ k d \<noteq> Some s) \<and> unat (coupon_slot d) = t \<and> coupon_value d = w)"
    unfolding mem [symmetric] by blast
  also have "\<dots> \<longleftrightarrow> t = s \<and> w = v \<or>
      t \<noteq> s \<and> (\<exists>d \<in> set (am_entries m). d \<noteq> 0 \<and> unat (coupon_slot d) = t \<and> coupon_value d = w)"
    using P(2,3) H(5) by auto
  also have "\<dots> \<longleftrightarrow> (F(s \<mapsto> v)) t = Some w" using H(6,7) by auto
  finally show "(F(s \<mapsto> v)) t = Some w \<longleftrightarrow>
      (\<exists>d \<in> set ((am_entries m)[p := e]). d \<noteq> 0 \<and> unat (coupon_slot d) = t \<and> coupon_value d = w)" by (rule sym)
  show "aux.occupied k ((am_entries m)[p := e]) = aux.occupied k (am_entries m) + (if s \<in> dom F then 0 else 1)"
    using aux.occupied_insert [OF H(3) p P(4)] H(9) [of s] by simp
qed

section \<open>The operations refine map updates\<close>

lemma aux_grow_ok:
  assumes m: "am_lg_config_k m = k" "k \<le> 21" "2 \<le> am_lg_size m" and wf: "aux.wf k (am_lg_size m) (am_entries m)"
    and small: "\<forall>e \<in> set (am_entries m). e \<noteq> 0 \<longrightarrow> unat (coupon_slot e) < 2 ^ k"
    and F: "\<forall>s v. F s = Some v \<longleftrightarrow> (\<exists>e \<in> set (am_entries m). e \<noteq> 0 \<and> unat (coupon_slot e) = s \<and> coupon_value e = v)"
    and count: "am_count m = aux.occupied k (am_entries m)"
  shows "\<exists>m'. aux_grow m = Inr m' \<and> aux_holds k m' F"
proof -
  let ?lg = "am_lg_size m + 1"
  let ?xs = "filter (\<lambda>e. \<not> coupon_is_empty e) (am_entries m)"
  let ?key = "\<lambda>e. unat (coupon_slot e)"
  define look where "look = (\<lambda>slots e. probe_loop (length slots) coupon_is_empty slots (2 ^ ?lg - 1)
    (aux_stride ?lg (?key e)) (aux_start ?lg (?key e)) (aux_start ?lg (?key e)))"
  have occ: "aux_occ k e = Some (?key e)" if "e \<in> set ?xs" for e
    using that small by (auto simp: aux_occ_def)
  have xs: "?xs = filter (\<lambda>e. aux_occ k e \<noteq> None) (am_entries m)" by (simp add: aux_occ_def)
  have len: "length (am_entries m) = 2 ^ am_lg_size m" by (rule aux.wf_length [OF wf])
  have num: "length ?xs = am_count m" unfolding xs count by (simp add: aux.occupied_def)
  have "num_le": "am_count m \<le> 2 ^ am_lg_size m"
    unfolding num [symmetric] len [symmetric] by (rule length_filter_le)
  have stored: "set ?xs = aux.stored k (am_entries m)" by (auto simp: aux_stored)
  have "distinct ?xs" unfolding xs by (rule aux.distinct_occupied(1) [OF wf])
  moreover have "inj_on ?key (set ?xs)"
  proof (rule inj_onI)
    fix d e
    assume d: "d \<in> set ?xs" "e \<in> set ?xs" "?key d = ?key e"
    have "aux_occ k d = aux_occ k e" using d by (simp only: occ)
    then show "d = e" by (rule inj_onD [OF aux.distinct_occupied(2) [OF wf] _ d(1,2) [unfolded stored]])
  qed
  ultimately have dist: "distinct (map ?key ?xs)" by (simp only: distinct_map)
  have look: "look slots e = aux_lookup k ?lg slots (?key e)"
    if "e \<in> set ?xs" "length slots = 2 ^ ?lg" "?key e \<notin> aux.keys k slots" for slots e
  proof -
    have "coupon_is_empty d = (aux_occ k d = None \<or> aux_occ k d = Some (?key e))" if "d \<in> set slots" for d
      using that \<open>?key e \<notin> aux.keys k slots\<close> by (auto simp: aux.keys_def aux_occ_def)
    then show ?thesis
      using probe_cong [of slots coupon_is_empty "\<lambda>d. aux_occ k d = None \<or> aux_occ k d = Some (?key e)" ?lg
          "aux_start ?lg (?key e)"] that(2) aux.start_lt [of ?lg "?key e"]
      by (simp only: look_def aux_lookup_def)
  qed
  have room: "aux.occupied k (replicate (2 ^ ?lg) 0) + length ?xs \<le> 2 ^ ?lg"
    using num num_le by (simp add: aux.wf_empty(4) aux_occ_def)
  let ?free = "replicate (2 ^ ?lg) (0 :: coupon)"
  have zero: "aux_occ k 0 = None" by (simp add: aux_occ_def)
  have empty: "aux.wf k ?lg ?free" "aux.stored k ?free = {}" "aux.keys k ?free = {}" "aux.occupied k ?free = 0"
    by (rule aux.wf_empty [OF zero])+
  have "\<exists>slots. place_all look (\<lambda>e. e) ?free ?xs = Inr slots \<and> aux.wf k ?lg slots \<and>
     aux.stored k slots = aux.stored k ?free \<union> (\<lambda>e. e) ` set ?xs \<and>
     aux.occupied k slots = aux.occupied k ?free + length ?xs"
    by (rule aux.place_all_ok [where key = ?key]) (fact empty(1), fact look, fact occ, fact dist, simp only: empty Int_empty_right, fact room)
  then obtain slots where slots: "place_all look (\<lambda>e. e) ?free ?xs = Inr slots" "aux.wf k ?lg slots"
    "aux.stored k slots = aux.stored k ?free \<union> (\<lambda>e. e) ` set ?xs"
    "aux.occupied k slots = aux.occupied k ?free + length ?xs" by blast
  let ?m = "m\<lparr>am_entries := slots, am_lg_size := ?lg\<rparr>"
  have run: "aux_grow m = Inr ?m"
    using slots(1) unfolding aux_grow_def Let_def COUPON_EMPTY_def look_def by simp
  have "aux.stored k slots = set ?xs" using slots(3) by (simp only: empty Un_empty_left image_ident)
  then have "set slots - {0} = set (am_entries m) - {0}" using stored by (simp only: aux_stored)
  then have same: "e \<in> set slots \<and> e \<noteq> 0 \<longleftrightarrow> e \<in> set (am_entries m) \<and> e \<noteq> 0" for e by auto
  have "aux.occupied k slots = am_count m" using slots(4) num by (simp only: empty add_0)
  moreover have "\<forall>e \<in> set slots. e \<noteq> 0 \<longrightarrow> unat (coupon_slot e) < 2 ^ k" using small same by blast
  moreover have "F s = Some v \<longleftrightarrow> (\<exists>e \<in> set slots. e \<noteq> 0 \<and> unat (coupon_slot e) = s \<and> coupon_value e = v)" for s v
    using F same by blast
  moreover have "4 * am_count m \<le> 3 * 2 ^ ?lg" using num_le by simp
  ultimately have "aux_holds k ?m F" using m slots(2) unfolding aux_holds_def by simp
  then show ?thesis using run by blast
qed

lemma aux_insert_ok:
  assumes h: "aux_holds k m F" and s: "s \<notin> dom F" "s < 2 ^ k" and v: "0 < v" "v < 64"
  shows "\<exists>m'. aux_insert m s v = Inr m' \<and> aux_holds k m' (F(s \<mapsto> v))"
proof -
  note H = h [unfolded aux_holds_def]
  obtain p where p: "aux_find m s = Inr (Vacant p)" "aux_lookup k (am_lg_size m) (am_entries m) s = Slot p"
    using aux_find_vacant [OF h s(1)] by blast
  note P = aux_place [OF h p(2) s(2) v]
  let ?es = "(am_entries m)[p := coupon_pack (of_nat s) v]"
  let ?m = "m\<lparr>am_entries := ?es, am_count := am_count m + 1\<rparr>"
  have count: "aux.occupied k ?es = am_count m + 1" using P(4) s(1) H by simp
  have run: "aux_insert m s v = aux_check_grow ?m" using p(1) by (simp add: aux_insert_def)
  show ?thesis
  proof (cases "3 * 2 ^ am_lg_size m < 4 * (am_count m + 1)")
    case True
    have "\<exists>m'. aux_grow ?m = Inr m' \<and> aux_holds k m' (F(s \<mapsto> v))"
    proof (rule aux_grow_ok)
      show "\<forall>t w. (F(s \<mapsto> v)) t = Some w \<longleftrightarrow>
          (\<exists>e \<in> set (am_entries ?m). e \<noteq> 0 \<and> unat (coupon_slot e) = t \<and> coupon_value e = w)" using P(3) by simp
    qed (use H P(1,2) count in simp_all)
    then show ?thesis using True unfolding run by (simp add: aux_check_grow_def RESIZE_NUMERATOR_def RESIZE_DENOMINATOR_def)
  next
    case False
    have "aux_holds k ?m (F(s \<mapsto> v))"
      unfolding aux_holds_def using H P(1-3) count False by (intro conjI allI) simp_all
    then show ?thesis using False unfolding run by (simp add: aux_check_grow_def RESIZE_NUMERATOR_def RESIZE_DENOMINATOR_def)
  qed
qed

lemma aux_replace_ok:
  assumes h: "aux_holds k m F" and s: "s \<in> dom F" and v: "0 < v" "v < 64"
  shows "\<exists>m'. aux_replace m s v = Inr m' \<and> aux_holds k m' (F(s \<mapsto> v))"
proof -
  note H = h [unfolded aux_holds_def]
  obtain w where w: "F s = Some w" using s by blast
  obtain p where p: "aux_find m s = Inr (Found p)" "aux_lookup k (am_lg_size m) (am_entries m) s = Slot p"
    using aux_find_found [OF h w] by blast
  have s2: "s < 2 ^ k" using aux_holdsD(7) [OF h w] H by blast
  note P = aux_place [OF h p(2) s2 v]
  let ?m = "m\<lparr>am_entries := (am_entries m)[p := coupon_pack (of_nat s) v]\<rparr>"
  have "aux_holds k ?m (F(s \<mapsto> v))"
    unfolding aux_holds_def using H P s by (intro conjI allI) simp_all
  then show ?thesis using p(1) by (simp add: aux_replace_def)
qed

lemma aux_new_ok:
  assumes "4 \<le> k" and "k \<le> 21"
  shows "aux_holds k (aux_new k) Map.empty"
proof -
  have "list_all (\<lambda>k. 2 \<le> LG_AUX_ARR_INTS ! k) [4..<22]" by (simp add: LG_AUX_ARR_INTS_def upt_rec)
  then have "\<forall>k \<in> {4..<22}. 2 \<le> LG_AUX_ARR_INTS ! k" by (simp only: list_all_iff set_upt)
  moreover have "k \<in> {4..<22}" unfolding atLeastLessThan_iff using assms by (intro conjI) linarith+
  ultimately have "2 \<le> lg_aux_arr_ints k" unfolding lg_aux_arr_ints_def by (rule bspec)
  then show ?thesis using assms(2)
    by (simp add: aux_holds_def aux_new_def Let_def COUPON_EMPTY_def aux.wf_empty aux_occ_def)
qed

lemma aux_iter_ok:
  assumes h: "aux_holds k m F"
  shows "distinct (map fst (aux_iter m))" and "map_of (aux_iter m) = F" and "length (aux_iter m) = card (dom F)"
proof -
  note H = aux_holdsD [OF h]
  let ?xs = "filter (\<lambda>e. \<not> coupon_is_empty e) (am_entries m)"
  have small: "unat (coupon_slot e) < 2 ^ k" if "e \<in> set ?xs" for e using h that by (simp add: aux_holds_def)
  have iter: "aux_iter m = map (\<lambda>e. (unat (coupon_slot e), coupon_value e)) ?xs"
    unfolding aux_iter_def Let_def H(1) and_mask_nat using small by (intro map_cong) simp_all
  have xs: "?xs = filter (\<lambda>e. aux_occ k e \<noteq> None) (am_entries m)" by (simp add: aux_occ_def)
  have "distinct ?xs" unfolding xs by (rule aux.distinct_occupied(1) [OF H(3)])
  moreover have "inj_on (\<lambda>e. unat (coupon_slot e)) (set ?xs)"
  proof (rule inj_onI)
    fix d e
    assume d: "d \<in> set ?xs" "e \<in> set ?xs" "unat (coupon_slot d) = unat (coupon_slot e)"
    have "aux_occ k d = aux_occ k e" using d H(5) [of d] H(5) [of e] by simp
    moreover have "set ?xs = aux.stored k (am_entries m)" by (auto simp: aux_stored)
    ultimately show "d = e" using aux.distinct_occupied(2) [OF H(3)] d(1,2) by (metis inj_onD)
  qed
  ultimately show dist: "distinct (map fst (aux_iter m))" unfolding iter by (simp add: distinct_map comp_def)
  have "map_of (aux_iter m) s = F s" for s
  proof (cases "F s")
    case None
    have "s \<notin> fst ` set (aux_iter m)" unfolding iter using H(6) None by force
    then show ?thesis using None by (simp add: map_of_eq_None_iff)
  next
    case (Some v)
    then have "(s, v) \<in> set (aux_iter m)" unfolding iter using H(7) by force
    then show ?thesis using Some map_of_is_SomeI [OF dist] by simp
  qed
  then show F: "map_of (aux_iter m) = F" by (rule ext)
  have "length (aux_iter m) = card (fst ` set (aux_iter m))" using distinct_card [OF dist] by simp
  then show "length (aux_iter m) = card (dom F)" unfolding F [symmetric] dom_map_of_conv_image_fst .
qed

end
