(* ===== verification/HllArray4.thy ===== *)
theory HllArray4
  imports HllArray HllAux
begin

text \<open>
  The register array of the HLL sketch with 4 bits per register (\<open>src/datasketches/src/hll/array4.rs\<close>):
  the registers are kept relative to their minimum \<open>cur_min\<close>, and those 15 or more above it in an
  exception map. The theory shows that it refines the same register machine as the arrays with 6
  and 8 bits: it is the third instance of \<open>hll_array\<close>. Arithmetic on \<open>u8\<close> and \<open>u32\<close> wraps; the debug
  assertions are branches, which no update of a well-formed array reaches.
\<close>

section \<open>The array\<close>

definition AUX_TOKEN :: u8 where "AUX_TOKEN = 15"

record array4 =
  a4_lg_config_k :: nat
  a4_bytes :: "u8 list"
  a4_cur_min :: u8
  a4_num_at_cur_min :: u32
  a4_aux_map :: "aux_map option"
  a4_estimator :: hip_estimator

definition a4_new :: "nat \<Rightarrow> array4" where
  "a4_new lg_config_k =
     \<lparr>a4_lg_config_k = lg_config_k, a4_bytes = replicate (2 ^ (lg_config_k - 1)) 0, a4_cur_min = 0,
      a4_num_at_cur_min = of_nat (2 ^ lg_config_k), a4_aux_map = None, a4_estimator = hip_new lg_config_k\<rparr>"

definition a4_get_raw :: "array4 \<Rightarrow> nat \<Rightarrow> u8 res" where
  "a4_get_raw a slot =
     (if \<not> drop_bit 1 slot < length (a4_bytes a) then Inl (Panic ''assertion failed: slot in range'')
      else bind_res (get_at (a4_bytes a) (drop_bit 1 slot)) (\<lambda>b.
       Inr (if slot AND 1 = 0 then b AND 15 else drop_bit 4 b)))"

definition a4_get :: "array4 \<Rightarrow> nat \<Rightarrow> u8 res" where
  "a4_get a slot =
     bind_res (a4_get_raw a slot) (\<lambda>raw.
       if raw < AUX_TOKEN then Inr (a4_cur_min a + raw)
       else bind_res (case a4_aux_map a of Some m \<Rightarrow> aux_get m slot | None \<Rightarrow> Inr None) (\<lambda>v.
         Inr (case v of Some v \<Rightarrow> v | None \<Rightarrow> a4_cur_min a)))"

definition a4_put_raw :: "array4 \<Rightarrow> nat \<Rightarrow> u8 \<Rightarrow> array4 res" where
  "a4_put_raw a slot v =
     (if \<not> v \<le> AUX_TOKEN then Inl (Panic ''assertion failed: value <= AUX_TOKEN'')
      else if \<not> drop_bit 1 slot < length (a4_bytes a) then Inl (Panic ''assertion failed: slot in range'')
      else
      let byte_idx = drop_bit 1 slot
      in bind_res (get_at (a4_bytes a) byte_idx) (\<lambda>old_byte.
         bind_res (set_at (a4_bytes a) byte_idx
             (if slot AND 1 = 0 then (old_byte AND 0xF0) OR (v AND 0x0F)
              else (old_byte AND 0x0F) OR push_bit 4 v)) (\<lambda>bytes.
           Inr (a\<lparr>a4_bytes := bytes\<rparr>))))"

text \<open>The old value of a register whose stored nibble is the token\<close>

definition a4_exception :: "array4 \<Rightarrow> nat \<Rightarrow> u8 res" where
  "a4_exception a slot =
     (case a4_aux_map a of
        None \<Rightarrow> Inl (Panic ''aux_map should be initialized since stored value is AUX_TOKEN'')
      | Some m \<Rightarrow> bind_res (aux_get m slot) (\<lambda>v. case v of
            None \<Rightarrow> Inl (Panic ''slot should be in aux_map since associated value is AUX_TOKEN'')
          | Some v \<Rightarrow> Inr v))"

text \<open>\<open>get_or_insert_with\<close> and the insertion\<close>

definition aux_insert_new :: "nat \<Rightarrow> aux_map option \<Rightarrow> nat \<Rightarrow> u8 \<Rightarrow> aux_map option res" where
  "aux_insert_new lg_config_k aux slot v =
     bind_res (aux_insert (case aux of Some m \<Rightarrow> m | None \<Rightarrow> aux_new lg_config_k) slot v) (\<lambda>m. Inr (Some m))"

text \<open>The two loops of \<open>shift_to_bigger_cur_min\<close>: over the slots, and over the exceptions\<close>

definition a4_shift_slot :: "array4 \<times> u32 \<Rightarrow> nat \<Rightarrow> (array4 \<times> u32) res" where
  "a4_shift_slot st slot =
     (let (a, num_at_new) = st
      in bind_res (a4_get_raw a slot) (\<lambda>raw.
         if raw = 0 then Inl (Panic ''value cannot be 0 when shifting cur_min'')
         else if raw < AUX_TOKEN then
           let decremented = raw - 1
           in bind_res (a4_put_raw a slot decremented) (\<lambda>a.
                Inr (a, if decremented = 0 then num_at_new + 1 else num_at_new))
         else Inr (a, num_at_new)))"

definition a4_shift_exception :: "u8 \<Rightarrow> array4 \<times> aux_map option \<Rightarrow> nat \<times> u8 \<Rightarrow> (array4 \<times> aux_map option) res" where
  "a4_shift_exception new_cur_min st entry =
     (let (a, new_aux) = st; (slot, old_actual_val) = entry
      in bind_res (a4_get_raw a slot) (\<lambda>raw.
         if raw \<noteq> AUX_TOKEN then Inl (Panic ''AuxMap contains slot != AUX_TOKEN'')
         else
           let new_shifted = old_actual_val - new_cur_min
           in if new_shifted < AUX_TOKEN then
                bind_res (a4_put_raw a slot new_shifted) (\<lambda>a. Inr (a, new_aux))
              else
                bind_res (aux_insert_new (a4_lg_config_k a) new_aux slot old_actual_val) (\<lambda>new_aux. Inr (a, new_aux))))"

definition a4_shift_to_bigger_cur_min :: "array4 \<Rightarrow> array4 res" where
  "a4_shift_to_bigger_cur_min a =
     (let new_cur_min = a4_cur_min a + 1; k = 2 ^ a4_lg_config_k a
      in bind_res (fold_res a4_shift_slot (a, 0) [0..<k]) (\<lambda>(a, num_at_new).
         bind_res (case a4_aux_map a of
             None \<Rightarrow> Inr a
           | Some old_aux \<Rightarrow>
               bind_res (fold_res (a4_shift_exception new_cur_min) (a, None) (aux_iter old_aux)) (\<lambda>(a, new_aux).
                 Inr (a\<lparr>a4_aux_map := new_aux\<rparr>))) (\<lambda>a.
           Inr (a\<lparr>a4_cur_min := new_cur_min, a4_num_at_cur_min := num_at_new\<rparr>))))"

text \<open>
  The \<open>while\<close> loop of \<open>update\<close>, with a bound on its rounds. Every register is below 64, so the loop of a
  well-formed array ends before \<open>cur_min\<close> gets there (\<open>a4_settle_ok\<close>): 64 rounds are enough.
\<close>

fun a4_settle :: "nat \<Rightarrow> array4 \<Rightarrow> array4 res" where
  "a4_settle rounds a =
     (if a4_num_at_cur_min a = 0 then
        (case rounds of
           0 \<Rightarrow> Inl (Panic ''the minimum does not settle'')
         | Suc rounds \<Rightarrow> bind_res (a4_shift_to_bigger_cur_min a) (a4_settle rounds))
      else Inr a)"

declare a4_settle.simps [simp del]

text \<open>The four cases of an update, on the exception status of the old and of the new value\<close>

definition a4_write :: "array4 \<Rightarrow> nat \<Rightarrow> u8 \<Rightarrow> u8 \<Rightarrow> array4 res" where
  "a4_write a slot raw_stored new_value =
     (let shifted_new = new_value - a4_cur_min a
      in if raw_stored = AUX_TOKEN then
           if AUX_TOKEN \<le> shifted_new then
             case a4_aux_map a of
               None \<Rightarrow> Inl (Panic ''aux_map should be initialized since stored value is AUX_TOKEN'')
             | Some m \<Rightarrow> bind_res (aux_replace m slot new_value) (\<lambda>m. Inr (a\<lparr>a4_aux_map := Some m\<rparr>))
           else Inl (Panic ''AUX_TOKEN present with non-exception new value'')
         else if AUX_TOKEN \<le> shifted_new then
           bind_res (a4_put_raw a slot AUX_TOKEN) (\<lambda>a.
           bind_res (aux_insert_new (a4_lg_config_k a) (a4_aux_map a) slot new_value) (\<lambda>aux.
             Inr (a\<lparr>a4_aux_map := aux\<rparr>)))
         else a4_put_raw a slot shifted_new)"

definition a4_update :: "array4 \<Rightarrow> coupon \<Rightarrow> array4 res" where
  "a4_update a c =
     (let msk = 2 ^ a4_lg_config_k a - 1;
          slot = unat (coupon_slot c) AND msk;
          new_value = coupon_value c
      in if new_value \<le> a4_cur_min a then Inr a
         else bind_res (a4_get_raw a slot) (\<lambda>raw_stored.
           let lower_bound = raw_stored + a4_cur_min a
           in if new_value \<le> lower_bound then Inr a
              else bind_res (if raw_stored < AUX_TOKEN then Inr lower_bound else a4_exception a slot) (\<lambda>old_value.
                if new_value \<le> old_value then Inr a
                else
                  let a = a\<lparr>a4_estimator := hip_update (a4_estimator a) (a4_lg_config_k a) old_value new_value\<rparr>
                  in bind_res (a4_write a slot raw_stored new_value) (\<lambda>a.
                     if old_value = a4_cur_min a then
                       a4_settle 64 (a\<lparr>a4_num_at_cur_min := a4_num_at_cur_min a - 1\<rparr>)
                     else Inr a))))"

definition a4_set_hip_accum :: "array4 \<Rightarrow> f64 \<Rightarrow> array4" where
  "a4_set_hip_accum a v = a\<lparr>a4_estimator := set_hip_accum (a4_estimator a) v\<rparr>"

definition a4_is_empty :: "array4 \<Rightarrow> bool" where
  "a4_is_empty a \<longleftrightarrow> a4_num_at_cur_min a = of_nat (2 ^ a4_lg_config_k a) \<and> a4_cur_min a = 0"

section \<open>Nibbles\<close>

definition nibble :: "u8 list \<Rightarrow> nat \<Rightarrow> u8" where
  "nibble bytes s = (if even s then bytes ! (s div 2) AND 15 else drop_bit 4 (bytes ! (s div 2)))"

lemma slot_halves: "drop_bit (Suc 0) s = s div 2" "s AND Suc 0 = 0 \<longleftrightarrow> even s" "s mod 2 = 0 \<longleftrightarrow> even s" for s :: nat
  by (auto simp: drop_bit_Suc and_one_eq [unfolded One_nat_def])

lemma nibble_le: "nibble bytes s \<le> 15"
proof (cases "even s")
  case False
  have "unat (drop_bit 4 b) \<le> 15" for b :: u8
  proof -
    have "unat b < 2 ^ LENGTH(8)" by (rule unsigned_less)
    then show ?thesis unfolding unat_drop_bit_eq by (simp add: drop_bit_eq_div)
  qed
  then show ?thesis using False by (simp add: nibble_def word_le_nat_alt)
qed (simp add: nibble_def word_and_le1)

lemma a4_get_raw_in: "s div 2 < length (a4_bytes a) \<Longrightarrow> a4_get_raw a s = Inr (nibble (a4_bytes a) s)"
  by (simp add: a4_get_raw_def nibble_def slot_halves)

lemma bit_15: "bit (15 :: u8) i \<longleftrightarrow> i < 4" "bit (0xF0 :: u8) i \<longleftrightarrow> 4 \<le> i \<and> i < 8"
proof -
  have eq: "(15 :: u8) = mask 4" "(0xF0 :: u8) = push_bit 4 (mask 4)" by (simp_all add: mask_eq_exp_minus_1)
  show "bit (15 :: u8) i \<longleftrightarrow> i < 4" unfolding eq(1) bit_mask_iff by auto
  show "bit (0xF0 :: u8) i \<longleftrightarrow> 4 \<le> i \<and> i < 8" unfolding eq(2) bit_push_bit_iff bit_mask_iff by auto
qed

lemma nibble_bits:
  "v \<le> 15 \<Longrightarrow> ((b AND 0xF0) OR (v AND 0x0F)) AND 15 = v"
  "drop_bit 4 ((b AND 0xF0) OR (v AND 0x0F)) = drop_bit 4 b"
  "v \<le> 15 \<Longrightarrow> drop_bit 4 ((b AND 0x0F) OR push_bit 4 v) = v"
  "((b AND 0x0F) OR push_bit 4 v) AND 15 = b AND 15"
  for b v :: u8
proof -
  have small: "bit v i \<Longrightarrow> i < 4" if "v \<le> 15" for i
  proof -
    assume "bit v i"
    have "unat v < 2 ^ 4" using that by (simp add: word_le_nat_alt)
    then have "take_bit 4 (unat v) = unat v" by (rule take_bit_nat_eq_self)
    moreover have "bit (unat v) i" using \<open>bit v i\<close> by (auto simp: bit_unsigned_iff dest: bit_imp_le_length)
    ultimately show "i < 4" by (metis bit_take_bit_iff)
  qed
  show "((b AND 0xF0) OR (v AND 0x0F)) AND 15 = v" if "v \<le> 15"
    by (rule bit_word_eqI) (use small [OF that] in \<open>auto simp only: bit_and_iff bit_or_iff bit_15\<close>)
  show "drop_bit 4 ((b AND 0xF0) OR (v AND 0x0F)) = drop_bit 4 b"
    by (rule bit_word_eqI) (auto simp only: bit_and_iff bit_or_iff bit_drop_bit_eq comp_def bit_15, auto dest!: bit_imp_le_length)
  show "drop_bit 4 ((b AND 0x0F) OR push_bit 4 v) = v" if "v \<le> 15"
    by (rule bit_word_eqI) (auto simp add: bit_and_iff bit_or_iff bit_push_bit_iff bit_drop_bit_eq bit_15 dest: small [OF that])
  show "((b AND 0x0F) OR push_bit 4 v) AND 15 = b AND 15"
    by (rule bit_word_eqI) (auto simp only: bit_and_iff bit_or_iff bit_push_bit_iff bit_15)
qed

lemma a4_put_raw_in:
  assumes "s div 2 < length (a4_bytes a)" and "v \<le> 15"
  shows "\<exists>bytes. a4_put_raw a s v = Inr (a\<lparr>a4_bytes := bytes\<rparr>) \<and> length bytes = length (a4_bytes a) \<and>
    (\<forall>t. t div 2 < length bytes \<longrightarrow> nibble bytes t = (if t = s then v else nibble (a4_bytes a) t))"
proof -
  let ?b = "a4_bytes a ! (s div 2)"
  let ?n = "if even s then (?b AND 0xF0) OR (v AND 0x0F) else (?b AND 0x0F) OR push_bit 4 v"
  let ?bytes = "(a4_bytes a)[s div 2 := ?n]"
  have "a4_put_raw a s v = Inr (a\<lparr>a4_bytes := ?bytes\<rparr>)"
    using assms by (simp add: a4_put_raw_def Let_def slot_halves AUX_TOKEN_def)
  moreover have "nibble ?bytes t = (if t = s then v else nibble (a4_bytes a) t)" if "t div 2 < length ?bytes" for t
  proof (cases "t div 2 = s div 2")
    case True
    have "t = s \<longleftrightarrow> even t = even s"
      using True by (metis (mono_tags, lifting) bit_eq_rec)
    then show ?thesis using True assms
      by (cases "even s"; cases "even t") (simp_all only: nibble_def nibble_bits nth_list_update_eq if_True if_False simp_thms)
  next
    case False
    then show ?thesis by (auto simp: nibble_def)
  qed
  ultimately show ?thesis by (intro exI [of _ ?bytes]) simp
qed

section \<open>The representation\<close>

text \<open>
  \<open>r\<close> are the registers. The array keeps them relative to \<open>c\<close>, a lower bound: a nibble is the difference, cut
  at 15, and the exception map holds exactly the registers that are cut.
\<close>

definition exceptions :: "nat \<Rightarrow> u8 \<Rightarrow> (nat \<Rightarrow> u8) \<Rightarrow> nat \<rightharpoonup> u8" where
  "exceptions lg c r s = (if s < 2 ^ lg \<and> unat c + 15 \<le> unat (r s) then Some (r s) else None)"

definition aux_rel :: "nat \<Rightarrow> aux_map option \<Rightarrow> (nat \<rightharpoonup> u8) \<Rightarrow> bool" where
  "aux_rel lg aux F \<longleftrightarrow> (case aux of None \<Rightarrow> F = Map.empty | Some m \<Rightarrow> aux_holds lg m F)"

definition stored_nibble :: "u8 \<Rightarrow> u8 \<Rightarrow> u8" where
  "stored_nibble c v = of_nat (min 15 (unat v - unat c))"

definition a4_core :: "nat \<Rightarrow> array4 \<Rightarrow> (nat \<Rightarrow> u8) \<Rightarrow> bool" where
  "a4_core lg a r \<longleftrightarrow>
     a4_lg_config_k a = lg \<and> 4 \<le> lg \<and> lg \<le> 21 \<and> length (a4_bytes a) = 2 ^ (lg - 1) \<and>
     aux_rel lg (a4_aux_map a) (exceptions lg (a4_cur_min a) r) \<and>
     (\<forall>s < 2 ^ lg. a4_cur_min a \<le> r s \<and> r s < 64 \<and> nibble (a4_bytes a) s = stored_nibble (a4_cur_min a) (r s)) \<and>
     (\<forall>s \<ge> 2 ^ lg. r s = 0)"

definition a4_reg :: "array4 \<Rightarrow> nat \<Rightarrow> u8" where
  "a4_reg a s = (if s < 2 ^ a4_lg_config_k a then (case a4_get a s of Inr v \<Rightarrow> v | Inl _ \<Rightarrow> 0) else 0)"

definition at_min :: "nat \<Rightarrow> (nat \<Rightarrow> u8) \<Rightarrow> u8 \<Rightarrow> nat" where
  "at_min lg r c = card {s. s < 2 ^ lg \<and> r s = c}"

definition a4_ok :: "nat \<Rightarrow> array4 \<Rightarrow> bool" where
  "a4_ok lg a \<longleftrightarrow> a4_core lg a (a4_reg a) \<and> 0 < at_min lg (a4_reg a) (a4_cur_min a) \<and>
     a4_num_at_cur_min a = of_nat (at_min lg (a4_reg a) (a4_cur_min a))"

definition a4_abs :: "array4 \<Rightarrow> hll_state" where
  "a4_abs a = (a4_reg a, a4_estimator a)"

lemma at_min_le: "at_min lg r c \<le> 2 ^ lg"
  using card_mono [of "{..<2 ^ lg}" "{s. s < 2 ^ lg \<and> r s = c}"] by (auto simp: at_min_def)

lemma at_min_zero: "lg \<le> 21 \<Longrightarrow> (of_nat (at_min lg r c) :: u32) = 0 \<longleftrightarrow> at_min lg r c = 0"
proof -
  assume "lg \<le> 21"
  then have "at_min lg r c < 2 ^ 32" using at_min_le [of lg r c] lg_bound [of lg] by simp
  then have "unat (of_nat (at_min lg r c) :: u32) = at_min lg r c" by (simp add: unsigned_of_nat take_bit_nat_eq_self)
  moreover have "(of_nat (at_min lg r c) :: u32) = 0 \<longleftrightarrow> unat (of_nat (at_min lg r c) :: u32) = 0"
    by (rule unsigned_eq_0_iff [symmetric])
  ultimately show ?thesis by simp
qed

lemma stored_nibble_le: "stored_nibble c v \<le> 15"
  by (simp add: stored_nibble_def word_le_nat_alt unsigned_of_nat take_bit_nat_eq_self)

lemma unat_stored_nibble: "unat (stored_nibble c v) = min 15 (unat v - unat c)"
  by (simp add: stored_nibble_def unsigned_of_nat take_bit_nat_eq_self)

lemma stored_nibble_pos: "c < v \<Longrightarrow> stored_nibble c v \<noteq> 0"
  unfolding unsigned_eq_0_iff [symmetric, where 'a = nat] by (simp add: unat_stored_nibble word_less_nat_alt)

lemma stored_nibble_cases:
  assumes "c \<le> v" and "v < 64"
  shows "stored_nibble c v < 15 \<longleftrightarrow> unat v < unat c + 15"
    and "unat v < unat c + 15 \<Longrightarrow> stored_nibble c v = v - c"
    and "unat v < unat c + 15 \<Longrightarrow> stored_nibble c v + c = v"
    and "unat c + 15 \<le> unat v \<Longrightarrow> stored_nibble c v = 15"
    and "15 \<le> v - c \<longleftrightarrow> unat c + 15 \<le> unat v"
    and "unat (stored_nibble c v + c) = min 15 (unat v - unat c) + unat c"
proof -
  have le: "unat c \<le> unat v" "unat v < 64" using assms by (simp_all add: word_le_nat_alt word_less_nat_alt)
  show less: "stored_nibble c v < 15 \<longleftrightarrow> unat v < unat c + 15"
    using le by (simp add: word_less_nat_alt unat_stored_nibble) linarith
  have diff: "unat (v - c) = unat v - unat c" using assms(1) by (simp add: unat_sub)
  show "stored_nibble c v = v - c" if "unat v < unat c + 15"
    unfolding word_unat_eq_iff using that by (simp add: unat_stored_nibble diff)
  then show "stored_nibble c v + c = v" if "unat v < unat c + 15" using that by simp
  show "stored_nibble c v = 15" if "unat c + 15 \<le> unat v"
    using that by (simp add: stored_nibble_def)
  show "15 \<le> v - c \<longleftrightarrow> unat c + 15 \<le> unat v" using le by (simp add: word_le_nat_alt diff) linarith
  have "unat (stored_nibble c v) + unat c < 2 ^ 8" using le by (simp add: unat_stored_nibble)
  then show "unat (stored_nibble c v + c) = min 15 (unat v - unat c) + unat c"
    by (subst unat_word_ariths) (simp add: unat_stored_nibble)
qed

lemma a4_coreD:
  assumes "a4_core lg a r"
  shows "a4_lg_config_k a = lg" "4 \<le> lg" "lg \<le> 21" "length (a4_bytes a) = 2 ^ (lg - 1)"
    "aux_rel lg (a4_aux_map a) (exceptions lg (a4_cur_min a) r)"
    "s < 2 ^ lg \<Longrightarrow> a4_cur_min a \<le> r s" "r s < 64"
    "s < 2 ^ lg \<Longrightarrow> nibble (a4_bytes a) s = stored_nibble (a4_cur_min a) (r s)"
    "2 ^ lg \<le> s \<Longrightarrow> r s = 0" "s < 2 ^ lg \<Longrightarrow> s div 2 < length (a4_bytes a)"
proof -
  show H: "a4_lg_config_k a = lg" "4 \<le> lg" "lg \<le> 21" "length (a4_bytes a) = 2 ^ (lg - 1)"
    "aux_rel lg (a4_aux_map a) (exceptions lg (a4_cur_min a) r)" using assms by (simp_all add: a4_core_def)
  show "s < 2 ^ lg \<Longrightarrow> a4_cur_min a \<le> r s" "s < 2 ^ lg \<Longrightarrow> nibble (a4_bytes a) s = stored_nibble (a4_cur_min a) (r s)"
    "2 ^ lg \<le> s \<Longrightarrow> r s = 0" using assms by (simp_all add: a4_core_def)
  show "r s < 64" using assms by (cases "s < 2 ^ lg") (simp_all add: a4_core_def)
  obtain n where "lg = Suc n" using H(2) by (cases lg) simp_all
  then show "s < 2 ^ lg \<Longrightarrow> s div 2 < length (a4_bytes a)" using H(4) by simp
qed

lemma aux_rel_get:
  "aux_rel lg aux F \<Longrightarrow> (case aux of Some m \<Rightarrow> aux_get m s | None \<Rightarrow> Inr None) = Inr (F s)"
  by (cases aux) (simp_all add: aux_rel_def aux_get_ok)

lemma a4_core_get:
  assumes "a4_core lg a r" and "s < 2 ^ lg"
  shows "a4_get_raw a s = Inr (stored_nibble (a4_cur_min a) (r s))" and "a4_get a s = Inr (r s)"
proof -
  note H = a4_coreD [OF assms(1)]
  note N = stored_nibble_cases [OF H(6) H(7), OF assms(2)]
  show raw: "a4_get_raw a s = Inr (stored_nibble (a4_cur_min a) (r s))"
    using a4_get_raw_in [of s a] H(8,10) assms(2) by simp
  show "a4_get a s = Inr (r s)"
    using N(1,3) assms(2) raw aux_rel_get [OF H(5), of s]
    by (auto simp: a4_get_def AUX_TOKEN_def exceptions_def add.commute not_less)
qed

lemma a4_core_reg: "a4_core lg a r \<Longrightarrow> a4_reg a = r"
  using a4_coreD(1,9) a4_core_get(2) by (fastforce simp: fun_eq_iff a4_reg_def not_less)

lemma exceptions_upd:
  "s < 2 ^ lg \<Longrightarrow> exceptions lg c (r(s := v)) = (exceptions lg c r)(s := if unat c + 15 \<le> unat v then Some v else None)"
  by (auto simp: exceptions_def fun_eq_iff)

lemma aux_insert_new_ok:
  assumes "aux_rel lg aux F" and "4 \<le> lg" "lg \<le> 21" and "s \<notin> dom F" "s < 2 ^ lg" and "0 < v" "v < 64"
  shows "\<exists>aux'. aux_insert_new lg aux s v = Inr aux' \<and> aux_rel lg aux' (F(s \<mapsto> v))"
proof -
  have "aux_holds lg (case aux of Some m \<Rightarrow> m | None \<Rightarrow> aux_new lg) F"
    using assms(1-3) aux_new_ok by (cases aux) (auto simp: aux_rel_def)
  then obtain m where "aux_insert (case aux of Some m \<Rightarrow> m | None \<Rightarrow> aux_new lg) s v = Inr m" "aux_holds lg m (F(s \<mapsto> v))"
    using aux_insert_ok assms(4-7) by blast
  then show ?thesis by (intro exI [of _ "Some m"]) (simp add: aux_insert_new_def aux_rel_def)
qed

text \<open>A register raised to \<open>v\<close>, with the new nibble and the new exception map\<close>

lemma a4_core_upd:
  assumes core: "a4_core lg a r" and s: "s < 2 ^ lg" and v: "a4_cur_min a \<le> v" "v < 64"
    and bytes: "length bytes = length (a4_bytes a)"
      "\<And>t. t div 2 < length bytes \<Longrightarrow> nibble bytes t = (if t = s then stored_nibble (a4_cur_min a) v else nibble (a4_bytes a) t)"
    and aux: "aux_rel lg aux ((exceptions lg (a4_cur_min a) r)(s := if unat (a4_cur_min a) + 15 \<le> unat v then Some v else None))"
  shows "a4_core lg (a\<lparr>a4_bytes := bytes, a4_aux_map := aux\<rparr>) (r(s := v))"
  using a4_coreD [OF core] s v bytes aux by (simp add: a4_core_def exceptions_upd)

lemma a4_core_same [simp]:
  "a4_core lg (a4_num_at_cur_min_update f a) = a4_core lg a"
  "a4_core lg (a4_estimator_update g a) = a4_core lg a"
  by (simp_all add: fun_eq_iff a4_core_def)

lemma a4_new_core: "4 \<le> lg \<Longrightarrow> lg \<le> 21 \<Longrightarrow> a4_core lg (a4_new lg) (\<lambda>_. 0)"
proof -
  assume lg: "4 \<le> lg" "lg \<le> 21"
  then obtain n where n: "lg = Suc n" by (cases lg) simp_all
  have "nibble (replicate (2 ^ (lg - 1)) 0) s = 0" if "s < 2 ^ lg" for s
    using that by (simp add: nibble_def n)
  moreover have "stored_nibble 0 0 = 0" by (simp add: stored_nibble_def)
  ultimately show ?thesis using lg by (simp add: a4_core_def a4_new_def aux_rel_def exceptions_def fun_eq_iff)
qed

lemma a4_new_refines:
  assumes "4 \<le> lg" and "lg \<le> 21"
  shows "a4_ok lg (a4_new lg) \<and> a4_abs (a4_new lg) = spec_new lg"
proof -
  note core = a4_new_core [OF assms]
  note reg = a4_core_reg [OF core]
  have "at_min lg (\<lambda>_. 0) (a4_cur_min (a4_new lg)) = 2 ^ lg" by (simp add: at_min_def a4_new_def)
  then show ?thesis unfolding a4_ok_def a4_abs_def spec_new_def reg using core by (simp add: a4_new_def)
qed

section \<open>A shift keeps the registers\<close>

text \<open>A fold that never fails, with what holds after every prefix of the list\<close>

lemma fold_res_prefix:
  assumes "P s []" and "\<And>s ys x zs. xs = ys @ x # zs \<Longrightarrow> P s ys \<Longrightarrow> \<exists>s'. f s x = Inr s' \<and> P s' (ys @ [x])"
  shows "\<exists>s'. fold_res f s xs = Inr s' \<and> P s' xs"
proof -
  have "ys @ zs = xs \<Longrightarrow> P s ys \<Longrightarrow> \<exists>s'. fold_res f s zs = Inr s' \<and> P s' xs" for ys zs
  proof (induction zs arbitrary: s ys)
    case (Cons z zs)
    obtain s' where "f s z = Inr s'" "P s' (ys @ [z])" using assms(2) [OF _ Cons.prems(2)] Cons.prems(1) by metis
    then show ?case using Cons.IH [of "ys @ [z]" s'] Cons.prems(1) by simp
  qed simp
  from this [of "[]" xs] show ?thesis using assms(1) by simp
qed

lemma stored_nibble_shift:
  assumes "c < v" and "v < 64"
  shows "unat v < unat c + 15 \<Longrightarrow> stored_nibble c v - 1 = stored_nibble (c + 1) v"
    and "unat v < unat c + 15 \<Longrightarrow> stored_nibble c v - 1 = 0 \<longleftrightarrow> v = c + 1"
    and "unat (c + 1) = unat c + 1" and "c + 1 \<le> v"
proof -
  have le: "unat c < unat v" "unat v < 64" using assms by (simp_all add: word_less_nat_alt)
  show c: "unat (c + 1) = unat c + 1" using le by (subst unat_word_ariths) simp
  then show "c + 1 \<le> v" using le by (simp add: word_le_nat_alt)
  assume small: "unat v < unat c + 15"
  have "stored_nibble c v = of_nat (Suc (unat v - unat (c + 1)))" using small le c by (simp add: stored_nibble_def)
  then have "stored_nibble c v - 1 = of_nat (unat v - unat (c + 1))" by simp
  also have dec: "\<dots> = stored_nibble (c + 1) v" using small le c by (simp add: stored_nibble_def)
  finally show eq: "stored_nibble c v - 1 = stored_nibble (c + 1) v" .
  have "stored_nibble (c + 1) v = 0 \<longleftrightarrow> unat v = unat (c + 1)"
    unfolding unsigned_eq_0_iff [symmetric, where 'a = nat] using le c by (simp add: unat_stored_nibble min_def) linarith
  then show "stored_nibble c v - 1 = 0 \<longleftrightarrow> v = c + 1" unfolding eq word_unat_eq_iff [of v] .
qed

lemma a4_shift_slots:
  assumes core: "a4_core lg a r" and above: "\<And>s. s < 2 ^ lg \<Longrightarrow> a4_cur_min a < r s"
  defines "c \<equiv> a4_cur_min a"
  shows "\<exists>bytes. fold_res a4_shift_slot (a, 0) [0..<2 ^ lg] = Inr (a\<lparr>a4_bytes := bytes\<rparr>, of_nat (at_min lg r (c + 1))) \<and>
    length bytes = length (a4_bytes a) \<and>
    (\<forall>s < 2 ^ lg. nibble bytes s = (if unat (r s) < unat c + 15 then stored_nibble (c + 1) (r s) else 15))"
proof -
  note H = a4_coreD [OF core, folded c_def]
  have step: "j \<le> 2 ^ lg \<Longrightarrow> \<exists>bytes. fold_res a4_shift_slot (a, 0) [0..<j] =
      Inr (a\<lparr>a4_bytes := bytes\<rparr>, of_nat (card {s. s < j \<and> r s = c + 1})) \<and> length bytes = length (a4_bytes a) \<and>
      (\<forall>s < 2 ^ lg. nibble bytes s =
        (if s < j \<and> unat (r s) < unat c + 15 then stored_nibble (c + 1) (r s) else stored_nibble c (r s)))" for j
  proof (induction j)
    case 0
    then show ?case using H(8) by (intro exI [of _ "a4_bytes a"]) simp
  next
    case (Suc j)
    then have j: "j < 2 ^ lg" by simp
    obtain bytes where run: "fold_res a4_shift_slot (a, 0) [0..<j] =
        Inr (a\<lparr>a4_bytes := bytes\<rparr>, of_nat (card {s. s < j \<and> r s = c + 1}))" and len: "length bytes = length (a4_bytes a)"
      and nib: "\<And>s. s < 2 ^ lg \<Longrightarrow> nibble bytes s =
        (if s < j \<and> unat (r s) < unat c + 15 then stored_nibble (c + 1) (r s) else stored_nibble c (r s))"
      using Suc.IH j by (auto simp: less_imp_le)
    let ?a = "a\<lparr>a4_bytes := bytes\<rparr>"
    have raw: "a4_get_raw ?a j = Inr (stored_nibble c (r j))"
      using a4_get_raw_in [of j ?a] nib [OF j] len H(10) [OF j] by simp
    have nz: "stored_nibble c (r j) \<noteq> 0" "r j = c + 1 \<Longrightarrow> stored_nibble c (c + 1) \<noteq> 0"
      using stored_nibble_pos [OF above [OF j, folded c_def]] by auto
    note N = stored_nibble_cases [OF H(6) [OF j] H(7)] and S = stored_nibble_shift [OF above [OF j, folded c_def] H(7)]
    have set_Suc: "{s. s < Suc j \<and> r s = c + 1} = (if r j = c + 1 then insert j {s. s < j \<and> r s = c + 1} else {s. s < j \<and> r s = c + 1})"
      by (auto simp: less_Suc_eq)
    show ?case
    proof (cases "unat (r j) < unat c + 15")
      case True
      obtain bytes' where put: "a4_put_raw ?a j (stored_nibble (c + 1) (r j)) = Inr (a\<lparr>a4_bytes := bytes'\<rparr>)"
        "length bytes' = length (a4_bytes a)"
        "\<And>t. t div 2 < length bytes' \<Longrightarrow> nibble bytes' t = (if t = j then stored_nibble (c + 1) (r j) else nibble bytes t)"
        using a4_put_raw_in [of j ?a "stored_nibble (c + 1) (r j)"] stored_nibble_le len H(10) [OF j] by auto
      have "a4_shift_slot (?a, of_nat (card {s. s < j \<and> r s = c + 1})) j =
          Inr (a\<lparr>a4_bytes := bytes'\<rparr>, of_nat (card {s. s < Suc j \<and> r s = c + 1}))"
        using raw put(1) True N(1) S(2) [OF True] unfolding a4_shift_slot_def AUX_TOKEN_def Let_def set_Suc
        by (simp add: S(1) [OF True] nz)
      moreover have "nibble bytes' s = (if s < Suc j \<and> unat (r s) < unat c + 15 then stored_nibble (c + 1) (r s) else stored_nibble c (r s))"
        if "s < 2 ^ lg" for s
        using put(2) put(3) [of s] nib [OF that] H(10) [OF that] True by (auto simp: less_Suc_eq)
      ultimately show ?thesis using run put(2) by (intro exI [of _ bytes']) (simp add: fold_res_append)
    next
      case False
      have "r j \<noteq> c + 1" using False S(3) by auto
      then have "a4_shift_slot (?a, of_nat (card {s. s < j \<and> r s = c + 1})) j =
          Inr (?a, of_nat (card {s. s < Suc j \<and> r s = c + 1}))"
        using raw False N(1) nz(1) unfolding a4_shift_slot_def AUX_TOKEN_def Let_def set_Suc by simp
      moreover have "nibble bytes s = (if s < Suc j \<and> unat (r s) < unat c + 15 then stored_nibble (c + 1) (r s) else stored_nibble c (r s))"
        if "s < 2 ^ lg" for s
        using nib [OF that] False by (auto simp: less_Suc_eq)
      ultimately show ?thesis using run len by (intro exI [of _ bytes]) (simp add: fold_res_append)
    qed
  qed
  have "stored_nibble c (r s) = 15" if "s < 2 ^ lg" "\<not> unat (r s) < unat c + 15" for s
    using stored_nibble_cases(4) [OF H(6) [OF that(1)] H(7)] that(2) by simp
  then show ?thesis using step [of "2 ^ lg"] by (auto simp: at_min_def cong: conj_cong)
qed

lemma aux_rel_exceptions:
  assumes "aux_rel lg aux F"
  shows "distinct (map fst (case aux of Some m \<Rightarrow> aux_iter m | None \<Rightarrow> []))"
    and "map_of (case aux of Some m \<Rightarrow> aux_iter m | None \<Rightarrow> []) = F"
  using assms aux_iter_ok by (auto simp: aux_rel_def split: option.splits)

lemma a4_shift_exceptions:
  assumes core: "a4_core lg a r" and above: "\<And>s. s < 2 ^ lg \<Longrightarrow> a4_cur_min a < r s"
    and len: "length (a4_bytes b) = 2 ^ (lg - 1)" and lg: "a4_lg_config_k b = lg"
    and nib: "\<And>s. s < 2 ^ lg \<Longrightarrow> nibble (a4_bytes b) s =
      (if unat (r s) < unat (a4_cur_min a) + 15 then stored_nibble (a4_cur_min a + 1) (r s) else 15)"
    and xs: "distinct (map fst xs)" "map_of xs = exceptions lg (a4_cur_min a) r"
  defines "c \<equiv> a4_cur_min a"
  shows "\<exists>bytes aux. fold_res (a4_shift_exception (c + 1)) (b, None) xs = Inr (b\<lparr>a4_bytes := bytes\<rparr>, aux) \<and>
    length bytes = 2 ^ (lg - 1) \<and> (\<forall>s < 2 ^ lg. nibble bytes s = stored_nibble (c + 1) (r s)) \<and>
    aux_rel lg aux (exceptions lg (c + 1) r)"
proof -
  note H = a4_coreD [OF core, folded c_def]
  let ?P = "\<lambda>st ys. \<exists>bytes aux. st = (b\<lparr>a4_bytes := bytes\<rparr>, aux) \<and> length bytes = 2 ^ (lg - 1) \<and>
    (\<forall>s < 2 ^ lg. nibble bytes s = (if s \<in> fst ` set ys then stored_nibble (c + 1) (r s) else nibble (a4_bytes b) s)) \<and>
    aux_rel lg aux (\<lambda>s. if s \<in> fst ` set ys then exceptions lg (c + 1) r s else None)"
  have mem: "(s, v) \<in> set xs \<longleftrightarrow> s < 2 ^ lg \<and> unat c + 15 \<le> unat (r s) \<and> v = r s" for s v
    using map_of_eq_Some_iff [OF xs(1), of s v] unfolding xs(2) c_def [symmetric] by (auto simp: exceptions_def split: if_splits)
  have "\<exists>st. fold_res (a4_shift_exception (c + 1)) (b, None) xs = Inr st \<and> ?P st xs"
  proof (rule fold_res_prefix [where P = ?P])
    show "?P (b, None) []" using len by (intro exI [of _ "a4_bytes b"] exI [of _ None]) (simp add: aux_rel_def)
  next
    fix st ys x zs
    assume split: "xs = ys @ x # zs" and P: "?P st ys"
    obtain s v where x: "x = (s, v)" by (cases x)
    have s: "s < 2 ^ lg" "unat c + 15 \<le> unat (r s)" "v = r s" using mem [of s v] split x by auto
    have new: "s \<notin> fst ` set ys" using xs(1) split x by auto
    obtain bytes aux where st: "st = (b\<lparr>a4_bytes := bytes\<rparr>, aux)" and lenb: "length bytes = 2 ^ (lg - 1)"
      and nb: "\<And>s. s < 2 ^ lg \<Longrightarrow> nibble bytes s = (if s \<in> fst ` set ys then stored_nibble (c + 1) (r s) else nibble (a4_bytes b) s)"
      and ax: "aux_rel lg aux (\<lambda>s. if s \<in> fst ` set ys then exceptions lg (c + 1) r s else None)"
      using P by blast
    let ?b = "b\<lparr>a4_bytes := bytes\<rparr>"
    note S = stored_nibble_shift [OF above [OF s(1), folded c_def] H(7)]
    note N = stored_nibble_cases [OF S(4) H(7)]
    have nonneg: "0 < r s" using s(2) by (simp add: word_less_nat_alt)
    have "nibble bytes s = 15" using nb [OF s(1)] new nib [OF s(1)] s(2) by (simp add: c_def)
    then have raw: "a4_get_raw ?b s = Inr AUX_TOKEN"
      using a4_get_raw_in [of s ?b] lenb H(4) H(10) [OF s(1)] by (simp add: AUX_TOKEN_def)
    show "\<exists>st'. a4_shift_exception (c + 1) st x = Inr st' \<and> ?P st' (ys @ [x])"
    proof (cases "unat (r s) < unat (c + 1) + 15")
      case True
      obtain bytes' where put: "a4_put_raw ?b s (r s - (c + 1)) = Inr (b\<lparr>a4_bytes := bytes'\<rparr>)" "length bytes' = 2 ^ (lg - 1)"
        "\<And>t. t div 2 < length bytes' \<Longrightarrow> nibble bytes' t = (if t = s then r s - (c + 1) else nibble bytes t)"
        using a4_put_raw_in [of s ?b "r s - (c + 1)"] N(2) [OF True] stored_nibble_le [of "c + 1" "r s"]
          H(4) H(10) [OF s(1)] lenb by auto
      have "a4_shift_exception (c + 1) st x = Inr (b\<lparr>a4_bytes := bytes'\<rparr>, aux)"
        using put(1) raw N(5) True by (simp add: a4_shift_exception_def st x s(3) Let_def AUX_TOKEN_def not_less [symmetric])
      moreover have "nibble bytes' t = (if t \<in> fst ` set (ys @ [x]) then stored_nibble (c + 1) (r t) else nibble (a4_bytes b) t)"
        if "t < 2 ^ lg" for t
        using put(2) put(3) [of t] nb [OF that] H(4) H(10) [OF that] N(2) [OF True] x by simp
      moreover have "(\<lambda>t. if t \<in> fst ` set (ys @ [x]) then exceptions lg (c + 1) r t else None) =
          (\<lambda>t. if t \<in> fst ` set ys then exceptions lg (c + 1) r t else None)"
        using True x by (auto simp: fun_eq_iff exceptions_def)
      ultimately show ?thesis using put(2) ax by (intro exI conjI) (assumption | simp)+
    next
      case False
      have "exceptions lg (c + 1) r s = Some (r s)" using False s(1) by (simp add: exceptions_def)
      then have upd: "(\<lambda>t. if t \<in> fst ` set (ys @ [x]) then exceptions lg (c + 1) r t else None) =
          (\<lambda>t. if t \<in> fst ` set ys then exceptions lg (c + 1) r t else None)(s \<mapsto> r s)"
        using x new by (auto simp: fun_eq_iff)
      have "s \<notin> dom (\<lambda>t. if t \<in> fst ` set ys then exceptions lg (c + 1) r t else None)" using new by auto
      from aux_insert_new_ok [OF ax H(2,3) this s(1) nonneg H(7)]
      obtain aux' where ins: "aux_insert_new lg aux s (r s) = Inr aux'"
        "aux_rel lg aux' (\<lambda>t. if t \<in> fst ` set (ys @ [x]) then exceptions lg (c + 1) r t else None)"
        unfolding upd by blast
      have "a4_shift_exception (c + 1) st x = Inr (?b, aux')"
        using ins(1) raw N(5) False by (simp add: a4_shift_exception_def st x s(3) Let_def AUX_TOKEN_def lg not_less [symmetric])
      moreover have "nibble bytes t = (if t \<in> fst ` set (ys @ [x]) then stored_nibble (c + 1) (r t) else nibble (a4_bytes b) t)"
        if "t < 2 ^ lg" for t
        using nb [OF that] new nib [OF s(1)] s(2) N(4) False x by (auto simp: c_def)
      ultimately show ?thesis using lenb ins(2) by blast
    qed
  qed
  then obtain bytes aux where run: "fold_res (a4_shift_exception (c + 1)) (b, None) xs = Inr (b\<lparr>a4_bytes := bytes\<rparr>, aux)"
    "length bytes = 2 ^ (lg - 1)"
    and nb: "\<And>s. s < 2 ^ lg \<Longrightarrow> nibble bytes s = (if s \<in> fst ` set xs then stored_nibble (c + 1) (r s) else nibble (a4_bytes b) s)"
    and ax: "aux_rel lg aux (\<lambda>s. if s \<in> fst ` set xs then exceptions lg (c + 1) r s else None)" by blast
  have keys: "s \<in> fst ` set xs \<longleftrightarrow> s < 2 ^ lg \<and> unat c + 15 \<le> unat (r s)" for s using mem by force
  have "nibble bytes s = stored_nibble (c + 1) (r s)" if "s < 2 ^ lg" for s
    using nb [OF that] nib [OF that] keys [of s] that by (simp add: c_def not_less)
  moreover have "(\<lambda>s. if s \<in> fst ` set xs then exceptions lg (c + 1) r s else None) = exceptions lg (c + 1) r"
  proof
    fix s
    have "exceptions lg (c + 1) r s = None" if "\<not> (s < 2 ^ lg \<and> unat c + 15 \<le> unat (r s))"
      using that stored_nibble_shift(3) [OF above [folded c_def] H(7), of s] by (auto simp: exceptions_def)
    then show "(if s \<in> fst ` set xs then exceptions lg (c + 1) r s else None) = exceptions lg (c + 1) r s"
      using keys by simp
  qed
  ultimately show ?thesis using run ax by auto
qed

lemma a4_shift_ok:
  assumes core: "a4_core lg a r" and above: "\<And>s. s < 2 ^ lg \<Longrightarrow> a4_cur_min a < r s"
  shows "\<exists>a'. a4_shift_to_bigger_cur_min a = Inr a' \<and> a4_core lg a' r \<and> a4_cur_min a' = a4_cur_min a + 1 \<and>
    a4_num_at_cur_min a' = of_nat (at_min lg r (a4_cur_min a + 1)) \<and> a4_estimator a' = a4_estimator a"
proof -
  let ?c = "a4_cur_min a"
  note H = a4_coreD [OF core]
  obtain bytes where slots: "fold_res a4_shift_slot (a, 0) [0..<2 ^ lg] = Inr (a\<lparr>a4_bytes := bytes\<rparr>, of_nat (at_min lg r (?c + 1)))"
    "length bytes = 2 ^ (lg - 1)"
    and nib: "\<And>s. s < 2 ^ lg \<Longrightarrow> nibble bytes s = (if unat (r s) < unat ?c + 15 then stored_nibble (?c + 1) (r s) else 15)"
    using a4_shift_slots [OF core above] H(4) by auto
  let ?b = "a\<lparr>a4_bytes := bytes\<rparr>"
  define xs where "xs = (case a4_aux_map a of Some m \<Rightarrow> aux_iter m | None \<Rightarrow> [])"
  have xs: "distinct (map fst xs)" "map_of xs = exceptions lg ?c r"
    using aux_rel_exceptions [OF H(5)] by (simp_all add: xs_def)
  have b: "length (a4_bytes ?b) = 2 ^ (lg - 1)" "a4_lg_config_k ?b = lg" using slots(2) H(1) by simp_all
  have nb: "nibble (a4_bytes ?b) s = (if unat (r s) < unat ?c + 15 then stored_nibble (?c + 1) (r s) else 15)"
    if "s < 2 ^ lg" for s using nib [OF that] by simp
  obtain bytes' aux where exc: "fold_res (a4_shift_exception (?c + 1)) (?b, None) xs = Inr (?b\<lparr>a4_bytes := bytes'\<rparr>, aux)"
    "length bytes' = 2 ^ (lg - 1)" "\<And>s. s < 2 ^ lg \<Longrightarrow> nibble bytes' s = stored_nibble (?c + 1) (r s)"
    "aux_rel lg aux (exceptions lg (?c + 1) r)"
    using a4_shift_exceptions [OF core above b nb xs] by blast
  let ?a = "a\<lparr>a4_bytes := bytes', a4_cur_min := ?c + 1, a4_num_at_cur_min := of_nat (at_min lg r (?c + 1)), a4_aux_map := aux\<rparr>"
  have "a4_core lg ?a r"
    using H exc above stored_nibble_shift(4) [OF above H(7)] unfolding a4_core_def by simp
  moreover have "a4_shift_to_bigger_cur_min a = Inr ?a"
  proof (cases "a4_aux_map a")
    case None
    then have "bytes' = bytes" "aux = None" using exc(1) by (auto simp: xs_def dest: arg_cong [of _ _ a4_bytes])
    then show ?thesis using None slots(1) H(1) by (simp add: a4_shift_to_bigger_cur_min_def Let_def)
  next
    case (Some m)
    then show ?thesis using exc(1) slots(1) H(1) by (simp add: a4_shift_to_bigger_cur_min_def Let_def xs_def)
  qed
  ultimately show ?thesis by (intro exI [of _ ?a]) simp
qed

lemma a4_settle_ok:
  assumes "a4_core lg a r" and "a4_num_at_cur_min a = of_nat (at_min lg r (a4_cur_min a))"
    and "64 \<le> unat (a4_cur_min a) + rounds"
  shows "\<exists>a'. a4_settle rounds a = Inr a' \<and> a4_ok lg a' \<and> a4_reg a' = r \<and> a4_estimator a' = a4_estimator a"
  using assms
proof (induction rounds arbitrary: a)
  case (0 a)
  note H = a4_coreD [OF "0.prems"(1)]
  have "a4_cur_min a \<le> r 0" "r 0 < 64" using H(6) [of 0] H(7) [of 0] by simp_all
  then show ?case using "0.prems"(3) by (simp add: word_le_nat_alt word_less_nat_alt)
next
  case (Suc rounds a)
  note H = a4_coreD [OF Suc.prems(1)]
  note zero = at_min_zero [OF H(3), of r "a4_cur_min a"]
  show ?case
  proof (cases "at_min lg r (a4_cur_min a) = 0")
    case False
    then have "a4_settle (Suc rounds) a = Inr a" using zero Suc.prems(2) by (subst a4_settle.simps) simp
    moreover have "a4_ok lg a" unfolding a4_ok_def a4_core_reg [OF Suc.prems(1)] using Suc.prems False by simp
    ultimately show ?thesis using a4_core_reg [OF Suc.prems(1)] by simp
  next
    case True
    have "finite {s. s < 2 ^ lg \<and> r s = a4_cur_min a}" by simp
    then have "{s. s < 2 ^ lg \<and> r s = a4_cur_min a} = {}" using True unfolding at_min_def by simp
    then have above: "a4_cur_min a < r s" if "s < 2 ^ lg" for s using H(6) [OF that] that by fastforce
    obtain b where b: "a4_shift_to_bigger_cur_min a = Inr b" "a4_core lg b r" "a4_cur_min b = a4_cur_min a + 1"
      "a4_num_at_cur_min b = of_nat (at_min lg r (a4_cur_min a + 1))" "a4_estimator b = a4_estimator a"
      using a4_shift_ok [OF Suc.prems(1) above] by blast
    have "64 \<le> unat (a4_cur_min b) + rounds"
      using Suc.prems(3) stored_nibble_shift(3) [OF above [of 0] H(7)] b(3) by simp
    then obtain a' where a': "a4_settle rounds b = Inr a'" "a4_ok lg a'" "a4_reg a' = r" "a4_estimator a' = a4_estimator b"
      using Suc.IH [OF b(2)] b(3,4) by auto
    have "a4_settle (Suc rounds) a = Inr a'"
      using True zero Suc.prems(2) b(1) a'(1) by (subst a4_settle.simps) simp
    then show ?thesis using a' b(5) by simp
  qed
qed

section \<open>An update raises one register\<close>

text \<open>The write of an update: the nibble and the exception map of the new value, in each of the cases\<close>

lemma a4_write_ok:
  assumes core: "a4_core lg a r" and s: "s < 2 ^ lg" and v: "r s < v" "v < 64"
  defines "c \<equiv> a4_cur_min a"
  shows "\<exists>bytes aux. a4_write a s (stored_nibble c (r s)) v = Inr (a\<lparr>a4_bytes := bytes, a4_aux_map := aux\<rparr>) \<and>
    a4_core lg (a\<lparr>a4_bytes := bytes, a4_aux_map := aux\<rparr>) (r(s := v))"
proof -
  note H = a4_coreD [OF core, folded c_def]
  have le: "unat c \<le> unat (r s)" "unat (r s) < unat v" using H(6) [OF s] v(1) by (simp_all add: word_le_nat_alt word_less_nat_alt)
  then have cv: "c \<le> v" and pos: "0 < v" by (simp_all add: word_le_nat_alt word_less_nat_alt)
  note R = stored_nibble_cases [OF H(6) [OF s] H(7)] and V = stored_nibble_cases [OF cv v(2)]
  have tok: "stored_nibble c (r s) = AUX_TOKEN \<longleftrightarrow> unat c + 15 \<le> unat (r s)"
    using R(1,4) by (auto simp: AUX_TOKEN_def not_less)
  have exc: "exceptions lg c r s = (if unat c + 15 \<le> unat (r s) then Some (r s) else None)" using s by (simp add: exceptions_def)
  note upd = a4_core_upd [OF core s cv [unfolded c_def] v(2), folded c_def]
  show ?thesis
  proof (cases "unat c + 15 \<le> unat (r s)")
    case True
    then have big: "unat c + 15 \<le> unat v" using le by linarith
    obtain m where m: "a4_aux_map a = Some m" "aux_holds lg m (exceptions lg c r)"
      using H(5) exc True by (cases "a4_aux_map a") (auto simp: aux_rel_def)
    obtain m' where m': "aux_replace m s v = Inr m'" "aux_holds lg m' ((exceptions lg c r)(s \<mapsto> v))"
      using aux_replace_ok [OF m(2) _ pos v(2), of s] exc True by auto
    have "a4_write a s (stored_nibble c (r s)) v = Inr (a\<lparr>a4_bytes := a4_bytes a, a4_aux_map := Some m'\<rparr>)"
      using tok True V(5) big m(1) m'(1) by (simp add: a4_write_def Let_def c_def [symmetric] AUX_TOKEN_def)
    moreover have "nibble (a4_bytes a) s = stored_nibble c v" using H(8) [OF s] R(4) [OF True] V(4) [OF big] by simp
    ultimately show ?thesis
      using upd [of "a4_bytes a" "Some m'"] m'(2) big by (intro exI [of _ "a4_bytes a"] exI [of _ "Some m'"]) (simp add: aux_rel_def)
  next
    case False
    have nosl: "s \<notin> dom (exceptions lg c r)" using exc False by auto
    obtain bytes where put: "a4_put_raw a s (stored_nibble c v) = Inr (a\<lparr>a4_bytes := bytes\<rparr>)" "length bytes = length (a4_bytes a)"
      "\<And>t. t div 2 < length bytes \<Longrightarrow> nibble bytes t = (if t = s then stored_nibble c v else nibble (a4_bytes a) t)"
      using a4_put_raw_in [OF H(10) [OF s] stored_nibble_le, of c v] by blast
    show ?thesis
    proof (cases "unat c + 15 \<le> unat v")
      case True
      obtain aux where aux: "aux_insert_new lg (a4_aux_map a) s v = Inr aux" "aux_rel lg aux ((exceptions lg c r)(s \<mapsto> v))"
        using aux_insert_new_ok [OF H(5,2,3) nosl s pos v(2)] by blast
      have "a4_write a s (stored_nibble c (r s)) v = Inr (a\<lparr>a4_bytes := bytes, a4_aux_map := aux\<rparr>)"
        using tok False V(5) True put(1) aux(1) H(1) by (simp add: a4_write_def Let_def c_def [symmetric] AUX_TOKEN_def V(4) [OF True])
      then show ?thesis using upd [OF put(2,3), of aux] aux(2) True by (intro exI [of _ bytes] exI [of _ aux]) simp
    next
      case small: False
      then have sn: "stored_nibble c v = v - c" using V(2) by simp
      have "a4_write a s (stored_nibble c (r s)) v = Inr (a\<lparr>a4_bytes := bytes, a4_aux_map := a4_aux_map a\<rparr>)"
        using tok False V(5) small put(1) by (simp add: a4_write_def Let_def c_def [symmetric] AUX_TOKEN_def sn)
      moreover have "(exceptions lg c r)(s := None) = exceptions lg c r" using nosl by (auto simp: fun_eq_iff)
      ultimately show ?thesis using upd [OF put(2,3), of "a4_aux_map a"] H(5) small
        by (intro exI [of _ bytes] exI [of _ "a4_aux_map a"]) simp
    qed
  qed
qed

lemma a4_update_eval:
  assumes "a4_lg_config_k a = lg" and "a4_get_raw a (coupon_index lg c) = Inr raw"
    and "(if raw < AUX_TOKEN then Inr (raw + a4_cur_min a) else a4_exception a (coupon_index lg c)) = Inr old"
  shows "a4_update a c =
    (if coupon_value c \<le> a4_cur_min a \<or> coupon_value c \<le> raw + a4_cur_min a \<or> coupon_value c \<le> old then Inr a
     else bind_res (a4_write (a\<lparr>a4_estimator := hip_update (a4_estimator a) lg old (coupon_value c)\<rparr>) (coupon_index lg c)
            raw (coupon_value c)) (\<lambda>a.
       if old = a4_cur_min a then a4_settle 64 (a\<lparr>a4_num_at_cur_min := a4_num_at_cur_min a - 1\<rparr>) else Inr a))"
proof -
  have bind: "bind_res (Inr x) f = f x" for x :: 'x and f :: "'x \<Rightarrow> array4 res" by simp
  show ?thesis unfolding a4_update_def Let_def assms(1) slot_and_mask assms(2) bind assms(3) by simp
qed

lemma a4_update_refines:
  assumes ok: "a4_ok lg a"
  shows "\<exists>a'. a4_update a c = Inr a' \<and> a4_ok lg a' \<and> a4_abs a' = spec_update lg (a4_abs a) c"
proof -
  define r where "r = a4_reg a"
  let ?s = "coupon_index lg c" and ?v = "coupon_value c" and ?m = "a4_cur_min a"
  have core: "a4_core lg a r" and num: "a4_num_at_cur_min a = of_nat (at_min lg r ?m)"
    using ok by (simp_all add: a4_ok_def r_def)
  note H = a4_coreD [OF core] and raw = a4_core_get(1) [OF core coupon_index_lt, of c]
  have min: "?m \<le> r ?s" by (rule H(6) [OF coupon_index_lt])
  note R = stored_nibble_cases [OF min H(7)]
  have old: "(if stored_nibble ?m (r ?s) < AUX_TOKEN then Inr (stored_nibble ?m (r ?s) + ?m) else a4_exception a ?s) = Inr (r ?s)"
    using R(1,3) aux_rel_get [OF H(5), of ?s]
    by (auto simp: a4_exception_def AUX_TOKEN_def exceptions_def not_less split: option.splits)
  show ?thesis
  proof (cases "r ?s < ?v")
    case False
    have "a4_update a c = Inr a"
      unfolding a4_update_eval [OF H(1) raw old] using False by (simp add: not_less)
    moreover have "spec_update lg (a4_abs a) c = a4_abs a" using False by (simp add: spec_update_def a4_abs_def r_def)
    ultimately show ?thesis using ok by auto
  next
    case True
    have lt: "unat ?m \<le> unat (r ?s)" "unat (r ?s) < unat ?v" using min True by (simp_all add: word_le_nat_alt word_less_nat_alt)
    have low: "\<not> ?v \<le> ?m" "\<not> ?v \<le> stored_nibble ?m (r ?s) + ?m"
      using lt by (simp_all add: word_le_nat_alt R(6))
    let ?e = "hip_update (a4_estimator a) lg (r ?s) ?v"
    let ?a = "a\<lparr>a4_estimator := ?e\<rparr>"
    have core1: "a4_core lg ?a r" using core by simp
    obtain bytes aux where w: "a4_write ?a ?s (stored_nibble ?m (r ?s)) ?v = Inr (?a\<lparr>a4_bytes := bytes, a4_aux_map := aux\<rparr>)"
      and core2: "a4_core lg (?a\<lparr>a4_bytes := bytes, a4_aux_map := aux\<rparr>) (r(?s := ?v))"
      using a4_write_ok [OF core1 coupon_index_lt True coupon_value_lt] by auto
    let ?b = "?a\<lparr>a4_bytes := bytes, a4_aux_map := aux\<rparr>"
    have run: "a4_update a c =
        (if r ?s = ?m then a4_settle 64 (?b\<lparr>a4_num_at_cur_min := a4_num_at_cur_min a - 1\<rparr>) else Inr ?b)"
    proof -
      have "\<not> (?v \<le> ?m \<or> ?v \<le> stored_nibble ?m (r ?s) + ?m \<or> ?v \<le> r ?s)" using low True by (simp add: not_le)
      then show ?thesis unfolding a4_update_eval [OF H(1) raw old] by (simp only: w if_False) simp
    qed
    have "?v \<noteq> ?m" using lt by auto
    note cnt = count_upd [where r = r, OF coupon_index_lt this, folded at_min_def]
    have abs: "a4_abs a' = spec_update lg (a4_abs a) c" if "a4_reg a' = r(?s := ?v)" "a4_estimator a' = ?e" for a'
      using that True by (simp add: a4_abs_def spec_update_def Let_def r_def)
    show ?thesis
    proof (cases "r ?s = ?m")
      case at: True
      have "a4_core lg (?b\<lparr>a4_num_at_cur_min := a4_num_at_cur_min a - 1\<rparr>) (r(?s := ?v))" using core2 by simp
      from a4_settle_ok [OF this, of 64] show ?thesis using cnt at num abs unfolding run by auto
    next
      case above: False
      have "{s. s < 2 ^ lg \<and> (r(?s := ?v)) s = ?m} = {s. s < 2 ^ lg \<and> r s = ?m}" using above \<open>?v \<noteq> ?m\<close> by auto
      then have "at_min lg (r(?s := ?v)) ?m = at_min lg r ?m" by (simp only: at_min_def)
      then have "a4_ok lg ?b"
        using ok core2 num unfolding a4_ok_def a4_core_reg [OF core2] r_def [symmetric] by simp
      then show ?thesis using abs [OF a4_core_reg [OF core2]] above unfolding run by simp
    qed
  qed
qed

lemma a4_set_hip_refines:
  assumes "a4_ok lg a"
  shows "a4_ok lg (a4_set_hip_accum a v) \<and> a4_abs (a4_set_hip_accum a v) = spec_set_hip (a4_abs a) v"
proof -
  have core: "a4_core lg a (a4_reg a)" using assms by (simp add: a4_ok_def)
  then have core': "a4_core lg (a4_set_hip_accum a v) (a4_reg a)" by (simp add: a4_core_def a4_set_hip_accum_def)
  show ?thesis
    using assms core' unfolding a4_ok_def a4_abs_def a4_core_reg [OF core'] spec_set_hip_def
    by (simp add: a4_set_hip_accum_def)
qed

interpretation a4: hll_array a4_new a4_update a4_set_hip_accum a4_ok a4_abs
  by unfold_locales (use a4_new_refines a4_update_refines a4_set_hip_refines in blast)+

end
