(* ===== verification/HllSketch.thy ===== *)
theory HllSketch
  imports HllArray4
begin

text \<open>
  The HLL sketch (\<open>src/datasketches/src/hll/sketch.rs\<close>, \<open>mode.rs\<close>): a list of coupons, then a hash set,
  then one of the three register arrays. The theory shows that the sketch is the same machine whatever
  its target type (\<open>spec_step\<close>: the arrays replaced by their abstraction), and what it holds after a
  stream of coupons (\<open>holds\<close>): exactly the distinct coupons, or for every slot the greatest value.
\<close>

section \<open>The sketch\<close>

datatype hll_mode =
    ListMode container hll_type
  | SetMode container hll_type
  | Array4Mode array4
  | Array6Mode array6
  | Array8Mode array8

record hll_sketch =
  hs_lg_config_k :: nat
  hs_mode :: hll_mode

definition hll_new :: "nat \<Rightarrow> hll_type \<Rightarrow> hll_sketch res" where
  "hll_new lg_config_k hll_type =
     (if 4 \<le> lg_config_k \<and> lg_config_k \<le> 21
      then Inr \<lparr>hs_lg_config_k = lg_config_k, hs_mode = ListMode list_default hll_type\<rparr>
      else Inl (Panic ''lg_config_k must be in [4, 21]''))"

definition hll_from_mode :: "nat \<Rightarrow> hll_mode \<Rightarrow> hll_sketch" where
  "hll_from_mode lg_config_k mode = \<lparr>hs_lg_config_k = lg_config_k, hs_mode = mode\<rparr>"

definition hll_is_empty :: "hll_sketch \<Rightarrow> bool" where
  "hll_is_empty s =
     (case hs_mode s of
        ListMode l _ \<Rightarrow> container_is_empty l
      | SetMode st _ \<Rightarrow> container_is_empty st
      | Array4Mode a \<Rightarrow> a4_is_empty a
      | Array6Mode a \<Rightarrow> a6_is_empty a
      | Array8Mode a \<Rightarrow> a8_is_empty a)"

definition target_type :: "hll_sketch \<Rightarrow> hll_type" where
  "target_type s =
     (case hs_mode s of
        ListMode _ hll_type \<Rightarrow> hll_type
      | SetMode _ hll_type \<Rightarrow> hll_type
      | Array4Mode _ \<Rightarrow> Hll4
      | Array6Mode _ \<Rightarrow> Hll6
      | Array8Mode _ \<Rightarrow> Hll8)"

definition promote_container_to_set :: "container \<Rightarrow> hll_type \<Rightarrow> hll_mode res" where
  "promote_container_to_set c hll_type =
     bind_res (fold_res set_update_coupon set_default (container_iter c)) (\<lambda>st. Inr (SetMode st hll_type))"

definition grow_set :: "container \<Rightarrow> hll_type \<Rightarrow> hll_mode res" where
  "grow_set old_set hll_type =
     (let new_size = hc_lg_size old_set + 1
      in bind_res (fold_res set_update_coupon (container_new new_size) (container_iter old_set)) (\<lambda>new_set.
           Inr (SetMode new_set hll_type)))"

definition promote_container_to_array :: "container \<Rightarrow> hll_type \<Rightarrow> nat \<Rightarrow> hll_mode res" where
  "promote_container_to_array c hll_type lg_config_k =
     (case hll_type of
        Hll4 \<Rightarrow> bind_res (fold_res a4_update (a4_new lg_config_k) (container_iter c)) (\<lambda>array.
          Inr (Array4Mode (a4_set_hip_accum array (container_estimate c))))
      | Hll6 \<Rightarrow> bind_res (fold_res a6_update (a6_new lg_config_k) (container_iter c)) (\<lambda>array.
          Inr (Array6Mode (a6_set_hip_accum array (container_estimate c))))
      | Hll8 \<Rightarrow> bind_res (fold_res a8_update (a8_new lg_config_k) (container_iter c)) (\<lambda>array.
          Inr (Array8Mode (a8_set_hip_accum array (container_estimate c)))))"

definition update_with_coupon :: "hll_sketch \<Rightarrow> coupon \<Rightarrow> hll_sketch res" where
  "update_with_coupon s coupon =
     bind_res
       (case hs_mode s of
          ListMode l hll_type \<Rightarrow>
            let l = list_update_coupon l coupon
            in if container_is_full l then
                 if hs_lg_config_k s < 8 then promote_container_to_array l hll_type (hs_lg_config_k s)
                 else promote_container_to_set l hll_type
               else Inr (ListMode l hll_type)
        | SetMode st hll_type \<Rightarrow>
            bind_res (set_update_coupon st coupon) (\<lambda>st.
              if RESIZE_NUMERATOR * container_capacity st < RESIZE_DENOMINATOR * hc_len st then
                if hc_lg_size st = hs_lg_config_k s - 3
                then promote_container_to_array st hll_type (hs_lg_config_k s)
                else grow_set st hll_type
              else Inr (SetMode st hll_type))
        | Array4Mode a \<Rightarrow> bind_res (a4_update a coupon) (\<lambda>a. Inr (Array4Mode a))
        | Array6Mode a \<Rightarrow> bind_res (a6_update a coupon) (\<lambda>a. Inr (Array6Mode a))
        | Array8Mode a \<Rightarrow> bind_res (a8_update a coupon) (\<lambda>a. Inr (Array8Mode a))) (\<lambda>mode.
       Inr (s\<lparr>hs_mode := mode\<rparr>))"

definition hll_update :: "hll_sketch \<Rightarrow> u8 list list \<Rightarrow> hll_sketch res" where
  "hll_update s v = update_with_coupon s (coupon_from_value v)"

definition hll_update_all :: "hll_sketch \<Rightarrow> coupon list \<Rightarrow> hll_sketch res" where
  "hll_update_all s coupons = fold_res update_with_coupon s coupons"

definition hll_estimate :: "(hip_estimator \<Rightarrow> nat \<Rightarrow> nat \<Rightarrow> nat \<Rightarrow> f64) \<Rightarrow> hll_sketch \<Rightarrow> f64" where
  "hll_estimate composite s =
     (case hs_mode s of
        ListMode l _ \<Rightarrow> container_estimate l
      | SetMode st _ \<Rightarrow> container_estimate st
      | Array4Mode a \<Rightarrow> hip_estimate composite (a4_estimator a) (a4_lg_config_k a) (unat (a4_cur_min a)) (unat (a4_num_at_cur_min a))
      | Array6Mode a \<Rightarrow> hip_estimate composite (a6_estimator a) (a6_lg_config_k a) 0 (unat (a6_num_zeros a))
      | Array8Mode a \<Rightarrow> hip_estimate composite (a8_estimator a) (a8_lg_config_k a) 0 (unat (a8_num_zeros a)))"

section \<open>The abstract sketch\<close>

text \<open>The sketch without its target type: a register array is the function of its registers and its estimator.\<close>

datatype sketch_state = Listed container | Hashed container | Registers hll_state

definition spec_fill :: "nat \<Rightarrow> container \<Rightarrow> hll_state" where
  "spec_fill lg c = spec_set_hip (spec_updates lg (spec_new lg) (container_iter c)) (container_estimate c)"

definition spec_step :: "nat \<Rightarrow> sketch_state \<Rightarrow> coupon \<Rightarrow> sketch_state res" where
  "spec_step lg st c =
     (case st of
        Listed l \<Rightarrow>
          let l = list_update_coupon l c
          in if container_is_full l then
               if lg < 8 then Inr (Registers (spec_fill lg l))
               else bind_res (fold_res set_update_coupon set_default (container_iter l)) (\<lambda>st. Inr (Hashed st))
             else Inr (Listed l)
      | Hashed t \<Rightarrow>
          bind_res (set_update_coupon t c) (\<lambda>t.
            if 3 * container_capacity t < 4 * hc_len t then
              if hc_lg_size t = lg - 3 then Inr (Registers (spec_fill lg t))
              else bind_res (fold_res set_update_coupon (container_new (hc_lg_size t + 1)) (container_iter t)) (\<lambda>t. Inr (Hashed t))
            else Inr (Hashed t))
      | Registers r \<Rightarrow> Inr (Registers (spec_update lg r c)))"

definition mode_abs :: "hll_mode \<Rightarrow> sketch_state" where
  "mode_abs m =
     (case m of
        ListMode l _ \<Rightarrow> Listed l
      | SetMode t _ \<Rightarrow> Hashed t
      | Array4Mode a \<Rightarrow> Registers (a4_abs a)
      | Array6Mode a \<Rightarrow> Registers (a6_abs a)
      | Array8Mode a \<Rightarrow> Registers (a8_abs a))"

definition mode_ok :: "nat \<Rightarrow> hll_mode \<Rightarrow> bool" where
  "mode_ok lg m =
     (case m of
        Array4Mode a \<Rightarrow> a4.good lg a
      | Array6Mode a \<Rightarrow> a6.good lg a
      | Array8Mode a \<Rightarrow> a8.good lg a
      | _ \<Rightarrow> True)"

definition sketch_ok :: "hll_sketch \<Rightarrow> bool" where
  "sketch_ok s \<longleftrightarrow> 4 \<le> hs_lg_config_k s \<and> hs_lg_config_k s \<le> 21 \<and> mode_ok (hs_lg_config_k s) (hs_mode s)"

definition sketch_abs :: "hll_sketch \<Rightarrow> sketch_state" where
  "sketch_abs s = mode_abs (hs_mode s)"

lemma promote_refines:
  assumes "4 \<le> lg" and "lg \<le> 21"
  shows "\<exists>m. promote_container_to_array c ty lg = Inr m \<and> mode_ok lg m \<and> mode_abs m = Registers (spec_fill lg c) \<and>
    (\<forall>s. target_type (s\<lparr>hs_mode := m\<rparr>) = ty)"
proof (cases ty)
  case Hll4
  obtain a where "fold_res a4_update (a4_new lg) (container_iter c) = Inr a" "a4.good lg (a4_set_hip_accum a (container_estimate c))"
    "a4_abs (a4_set_hip_accum a (container_estimate c)) = spec_fill lg c"
    using a4.filled_good [OF assms] unfolding spec_fill_def by blast
  then show ?thesis using Hll4 by (simp add: promote_container_to_array_def mode_ok_def mode_abs_def target_type_def)
next
  case Hll6
  obtain a where "fold_res a6_update (a6_new lg) (container_iter c) = Inr a" "a6.good lg (a6_set_hip_accum a (container_estimate c))"
    "a6_abs (a6_set_hip_accum a (container_estimate c)) = spec_fill lg c"
    using a6.filled_good [OF assms] unfolding spec_fill_def by blast
  then show ?thesis using Hll6 by (simp add: promote_container_to_array_def mode_ok_def mode_abs_def target_type_def)
next
  case Hll8
  obtain a where "fold_res a8_update (a8_new lg) (container_iter c) = Inr a" "a8.good lg (a8_set_hip_accum a (container_estimate c))"
    "a8_abs (a8_set_hip_accum a (container_estimate c)) = spec_fill lg c"
    using a8.filled_good [OF assms] unfolding spec_fill_def by blast
  then show ?thesis using Hll8 by (simp add: promote_container_to_array_def mode_ok_def mode_abs_def target_type_def)
qed

lemma target_type_upd [simp]:
  "target_type (s\<lparr>hs_mode := ListMode l ty\<rparr>) = ty" "target_type (s\<lparr>hs_mode := SetMode l ty\<rparr>) = ty"
  "target_type (s\<lparr>hs_mode := Array4Mode a\<rparr>) = Hll4" "target_type (s\<lparr>hs_mode := Array6Mode b\<rparr>) = Hll6"
  "target_type (s\<lparr>hs_mode := Array8Mode d\<rparr>) = Hll8"
  by (simp_all add: target_type_def)

lemma update_refines:
  assumes ok: "sketch_ok s" and step: "spec_step (hs_lg_config_k s) (sketch_abs s) c = Inr st"
  shows "\<exists>s'. update_with_coupon s c = Inr s' \<and> sketch_ok s' \<and> sketch_abs s' = st \<and>
    hs_lg_config_k s' = hs_lg_config_k s \<and> target_type s' = target_type s"
proof -
  let ?lg = "hs_lg_config_k s"
  have lg: "4 \<le> ?lg" "?lg \<le> 21" and mode: "mode_ok ?lg (hs_mode s)" using ok by (simp_all add: sketch_ok_def)
  have finish: ?thesis if "update_with_coupon s c = Inr (s\<lparr>hs_mode := m\<rparr>)" "mode_ok ?lg m" "mode_abs m = st"
    "target_type (s\<lparr>hs_mode := m\<rparr>) = target_type s" for m
    using that lg by (simp add: sketch_ok_def sketch_abs_def)
  show ?thesis
  proof (cases "hs_mode s")
    case (ListMode l ty)
    let ?l = "list_update_coupon l c"
    have ty: "target_type s = ty" using ListMode by (simp add: target_type_def)
    obtain m where m: "promote_container_to_array ?l ty ?lg = Inr m" "mode_ok ?lg m"
      "mode_abs m = Registers (spec_fill ?lg ?l)" "target_type (s\<lparr>hs_mode := m\<rparr>) = ty"
      using promote_refines [OF lg] by blast
    have st: "(if container_is_full ?l then
         if ?lg < 8 then Inr (Registers (spec_fill ?lg ?l))
         else bind_res (fold_res set_update_coupon set_default (container_iter ?l)) (\<lambda>st. Inr (Hashed st))
       else Inr (Listed ?l)) = Inr st"
      using step ListMode by (simp add: spec_step_def sketch_abs_def mode_abs_def Let_def)
    consider (plain) "\<not> container_is_full ?l" "st = Listed ?l"
      | (array) "container_is_full ?l" "?lg < 8" "st = Registers (spec_fill ?lg ?l)"
      | (hash) t where "container_is_full ?l" "\<not> ?lg < 8" "fold_res set_update_coupon set_default (container_iter ?l) = Inr t"
          "st = Hashed t"
      using st by (auto split: if_splits simp: bind_res_Inr_iff)
    then show ?thesis
    proof cases
      case plain
      then show ?thesis using ListMode ty
        by (intro finish [of "ListMode ?l ty"]) (simp_all add: update_with_coupon_def Let_def mode_ok_def mode_abs_def)
    next
      case array
      then show ?thesis using ListMode ty m by (intro finish [of m]) (simp_all add: update_with_coupon_def Let_def)
    next
      case (hash t)
      then show ?thesis using ListMode ty
        by (intro finish [of "SetMode t ty"]) (simp_all add: update_with_coupon_def Let_def promote_container_to_set_def mode_ok_def mode_abs_def)
    qed
  next
    case (SetMode u ty)
    have ty: "target_type s = ty" using SetMode by (simp add: target_type_def)
    obtain t where t: "set_update_coupon u c = Inr t" and st: "(if 3 * container_capacity t < 4 * hc_len t then
         if hc_lg_size t = ?lg - 3 then Inr (Registers (spec_fill ?lg t))
         else bind_res (fold_res set_update_coupon (container_new (hc_lg_size t + 1)) (container_iter t)) (\<lambda>t. Inr (Hashed t))
       else Inr (Hashed t)) = Inr st"
      using step SetMode by (auto simp: spec_step_def sketch_abs_def mode_abs_def bind_res_Inr_iff)
    obtain m where m: "promote_container_to_array t ty ?lg = Inr m" "mode_ok ?lg m"
      "mode_abs m = Registers (spec_fill ?lg t)" "target_type (s\<lparr>hs_mode := m\<rparr>) = ty"
      using promote_refines [OF lg] by blast
    note upd = update_with_coupon_def RESIZE_NUMERATOR_def RESIZE_DENOMINATOR_def
    consider (plain) "\<not> 3 * container_capacity t < 4 * hc_len t" "st = Hashed t"
      | (array) "3 * container_capacity t < 4 * hc_len t" "hc_lg_size t = ?lg - 3" "st = Registers (spec_fill ?lg t)"
      | (hash) v where "3 * container_capacity t < 4 * hc_len t" "hc_lg_size t \<noteq> ?lg - 3"
          "fold_res set_update_coupon (container_new (hc_lg_size t + 1)) (container_iter t) = Inr v" "st = Hashed v"
      using st by (auto split: if_splits simp: bind_res_Inr_iff)
    then show ?thesis
    proof cases
      case plain
      then show ?thesis using SetMode ty t
        by (intro finish [of "SetMode t ty"]) (simp_all add: upd mode_ok_def mode_abs_def)
    next
      case array
      then show ?thesis using SetMode ty t m by (intro finish [of m]) (simp_all add: upd)
    next
      case (hash v)
      then show ?thesis using SetMode ty t
        by (intro finish [of "SetMode v ty"]) (simp_all add: upd grow_set_def mode_ok_def mode_abs_def)
    qed
  next
    case (Array4Mode a)
    then have "a4.good ?lg a" using mode by (simp add: mode_ok_def)
    then obtain a' where "a4_update a c = Inr a'" "a4.good ?lg a'" "a4_abs a' = spec_update ?lg (a4_abs a) c"
      using a4.upd_good by blast
    then show ?thesis using Array4Mode step
      by (intro finish [of "Array4Mode a'"]) (simp_all add: update_with_coupon_def spec_step_def sketch_abs_def mode_abs_def mode_ok_def target_type_def)
  next
    case (Array6Mode a)
    then have "a6.good ?lg a" using mode by (simp add: mode_ok_def)
    then obtain a' where "a6_update a c = Inr a'" "a6.good ?lg a'" "a6_abs a' = spec_update ?lg (a6_abs a) c"
      using a6.upd_good by blast
    then show ?thesis using Array6Mode step
      by (intro finish [of "Array6Mode a'"]) (simp_all add: update_with_coupon_def spec_step_def sketch_abs_def mode_abs_def mode_ok_def target_type_def)
  next
    case (Array8Mode a)
    then have "a8.good ?lg a" using mode by (simp add: mode_ok_def)
    then obtain a' where "a8_update a c = Inr a'" "a8.good ?lg a'" "a8_abs a' = spec_update ?lg (a8_abs a) c"
      using a8.upd_good by blast
    then show ?thesis using Array8Mode step
      by (intro finish [of "Array8Mode a'"]) (simp_all add: update_with_coupon_def spec_step_def sketch_abs_def mode_abs_def mode_ok_def target_type_def)
  qed
qed

section \<open>What the sketch holds\<close>

text \<open>An estimator that is out of order has given up its accumulator.\<close>

definition order_ok :: "hip_estimator \<Rightarrow> bool" where
  "order_ok e \<longleftrightarrow> (he_out_of_order e \<longrightarrow> he_hip_accum e = 0)"

definition in_order :: "sketch_state \<Rightarrow> bool" where
  "in_order st \<longleftrightarrow> (case st of Registers r \<Rightarrow> \<not> he_out_of_order (snd r) | _ \<Rightarrow> True)"

definition spec_holds :: "nat \<Rightarrow> sketch_state \<Rightarrow> coupon set \<Rightarrow> bool" where
  "spec_holds lg st C \<longleftrightarrow> finite C \<and> 0 \<notin> C \<and>
     (case st of
        Listed l \<Rightarrow> list_holds l C \<and> hc_lg_size l = 3 \<and> card C < 8
      | Hashed t \<Rightarrow> set_holds t C \<and> 5 \<le> hc_lg_size t \<and> hc_lg_size t \<le> lg - 3 \<and> 4 * card C \<le> 3 * 2 ^ hc_lg_size t
      | Registers r \<Rightarrow> spec_ok lg r \<and> fst r = coupon_regs lg C)"

lemma set_fill:
  assumes "0 \<notin> set cs" and "card (set cs) \<le> 2 ^ lg"
  shows "\<exists>t. fold_res set_update_coupon (container_new lg) cs = Inr t \<and> set_holds t (set cs) \<and> hc_lg_size t = lg"
proof -
  let ?P = "\<lambda>t ys. set_holds t (set ys) \<and> hc_lg_size t = lg"
  show ?thesis
  proof (rule fold_res_prefix [where P = ?P])
    show "?P (container_new lg) []" using set_new_holds by (simp add: container_new_def)
  next
    fix t ys x zs
    assume cs: "cs = ys @ x # zs" and P: "?P t ys"
    have "x \<in> set ys \<or> card (set ys) < 2 ^ hc_lg_size t"
    proof (rule disjCI)
      assume "\<not> card (set ys) < 2 ^ hc_lg_size t"
      then have "card (set cs) \<le> card (set ys)" using assms(2) P by simp
      moreover have "set ys \<subseteq> set cs" using cs by auto
      ultimately have eq: "set ys = set cs" by (metis List.finite_set card_seteq)
      have "x \<in> set cs" using cs by simp
      then show "x \<in> set ys" by (simp only: eq)
    qed
    then obtain t' where "set_update_coupon t x = Inr t'" "set_holds t' (insert x (set ys))" "hc_lg_size t' = hc_lg_size t"
      using set_update_holds [of t "set ys" x] P cs assms(1) by auto
    then show "\<exists>t'. set_update_coupon t x = Inr t' \<and> ?P t' (ys @ [x])" using P by simp
  qed
qed

text \<open>A sketch that only saw updates is in order.\<close>

lemma hip_update_order [simp]: "he_out_of_order (hip_update e lg old new) = he_out_of_order e"
  by (simp add: hip_update_def update_kxq_def Let_def)

lemma spec_update_order [simp]: "he_out_of_order (snd (spec_update lg st c)) = he_out_of_order (snd st)"
  by (cases st) (simp add: spec_update_def Let_def)

lemma spec_updates_order [simp]: "he_out_of_order (snd (spec_updates lg st cs)) = he_out_of_order (snd st)"
  unfolding spec_updates_def by (induction cs arbitrary: st) simp_all

lemma spec_fill_order: "\<not> he_out_of_order (snd (spec_fill lg c))"
  by (simp add: spec_fill_def spec_set_hip_def set_hip_accum_def) (simp add: spec_new_def hip_new_def)

lemma spec_fill_holds:
  assumes "4 \<le> lg" "lg \<le> 21" and "finite C" "0 \<notin> C" and "set (container_iter c) = C"
  shows "spec_holds lg (Registers (spec_fill lg c)) C"
proof -
  have "spec_ok lg (spec_fill lg c)"
    unfolding spec_fill_def by (intro spec_set_hip_ok spec_updates_ok spec_new_ok assms)
  moreover have "fst (spec_fill lg c) s = coupon_regs lg C s" for s
    using spec_updates_reg [of lg "spec_new lg" "container_iter c" s] assms(5)
    by (simp add: spec_fill_def spec_set_hip_def spec_new_def)
  ultimately show ?thesis using assms(3,4) by (simp add: spec_holds_def fun_eq_iff)
qed

lemma spec_step_holds:
  assumes lg: "4 \<le> lg" "lg \<le> 21" and h: "spec_holds lg st C" and c: "c \<noteq> 0"
  shows "\<exists>st'. spec_step lg st c = Inr st' \<and> spec_holds lg st' (insert c C)"
proof (cases st)
  case (Listed l)
  let ?l = "list_update_coupon l c" and ?C = "insert c C"
  have l: "list_holds l C" "hc_lg_size l = 3" "card C < 8" and C: "finite ?C" "0 \<notin> ?C"
    using h c Listed by (simp_all add: spec_holds_def)
  have hold: "list_holds ?l ?C" by (rule list_update_holds [OF l(1) c]) (simp add: l(2,3))
  note F = list_holds_facts [OF hold]
  have sz: "hc_lg_size ?l = 3" using l(2) by (simp add: list_update_coupon_def split: prod.split)
  have full: "container_is_full ?l \<longleftrightarrow> card ?C = 8" using F(1,4) sz by (simp add: container_is_full_def container_capacity_def)
  have "card ?C \<le> 8" using l(3) C(1) by (simp add: card_insert_if)
  show ?thesis
  proof (cases "card ?C = 8")
    case False
    then have "spec_holds lg (Listed ?l) ?C" using \<open>card ?C \<le> 8\<close> hold sz C by (simp add: spec_holds_def)
    then show ?thesis using False full Listed by (simp add: spec_step_def Let_def)
  next
    case True
    show ?thesis
    proof (cases "lg < 8")
      case less: True
      then show ?thesis using True full Listed spec_fill_holds [OF lg C F(5)] by (simp add: spec_step_def Let_def)
    next
      case False
      have room: "0 \<notin> set (container_iter ?l)" "card (set (container_iter ?l)) \<le> 2 ^ LG_INIT_SET_SIZE"
        using F(5) C True by (simp_all add: LG_INIT_SET_SIZE_def)
      obtain t where "fold_res set_update_coupon set_default (container_iter ?l) = Inr t" "set_holds t ?C" "hc_lg_size t = 5"
        using set_fill [OF room] F(5) by (auto simp: set_default_def LG_INIT_SET_SIZE_def)
      then show ?thesis using True full Listed False C by (simp add: spec_step_def Let_def spec_holds_def)
    qed
  qed
next
  case (Hashed u)
  let ?C = "insert c C"
  have u: "set_holds u C" "5 \<le> hc_lg_size u" "hc_lg_size u \<le> lg - 3" "4 * card C \<le> 3 * 2 ^ hc_lg_size u"
    and C: "finite ?C" "0 \<notin> ?C" using h c Hashed by (simp_all add: spec_holds_def)
  have "0 < (2 :: nat) ^ hc_lg_size u" by simp
  then have room: "card C < 2 ^ hc_lg_size u" using u(4) by linarith
  obtain t where t: "set_update_coupon u c = Inr t" "set_holds t ?C" "hc_lg_size t = hc_lg_size u"
    using set_update_holds [OF u(1) c] room by blast
  note F = set_holds_facts [OF t(2)]
  have card: "card ?C \<le> 2 ^ hc_lg_size u" using room C(1) by (simp add: card_insert_if)
  show ?thesis
  proof (cases "3 * container_capacity t < 4 * hc_len t")
    case False
    then have "spec_holds lg (Hashed t) ?C" using u t F C by (simp add: spec_holds_def)
    then show ?thesis using False t(1) Hashed by (simp add: spec_step_def)
  next
    case grow: True
    show ?thesis
    proof (cases "hc_lg_size t = lg - 3")
      case True
      then show ?thesis using grow t(1) Hashed spec_fill_holds [OF lg C F(5)] by (simp add: spec_step_def)
    next
      case False
      have "0 \<notin> set (container_iter t)" "card (set (container_iter t)) \<le> 2 ^ (hc_lg_size t + 1)"
        using F(5) C card t(3) by simp_all
      then obtain v where v: "fold_res set_update_coupon (container_new (hc_lg_size t + 1)) (container_iter t) = Inr v"
        "set_holds v ?C" "hc_lg_size v = hc_lg_size t + 1"
        using set_fill F(5) by metis
      then have "spec_holds lg (Hashed v) ?C" using u t(3) False card C by (simp add: spec_holds_def)
      then show ?thesis using grow False t(1) v(1) Hashed by (simp add: spec_step_def)
    qed
  qed
next
  case (Registers r)
  have r: "spec_ok lg r" "fst r = coupon_regs lg C" and C: "finite C" "0 \<notin> C" using h Registers by (simp_all add: spec_holds_def)
  have "fst (spec_update lg r c) s = coupon_regs lg (insert c C) s" for s
    unfolding spec_update_reg coupon_regs_insert [OF C(1)] r(2) by simp
  then have "spec_holds lg (Registers (spec_update lg r c)) (insert c C)"
    using spec_update_ok [OF r(1)] C c by (simp add: spec_holds_def fun_eq_iff)
  then show ?thesis using Registers by (simp add: spec_step_def)
qed

lemma spec_step_in_order: "spec_step lg st c = Inr st' \<Longrightarrow> in_order st \<Longrightarrow> in_order st'"
  using spec_fill_order
  by (cases st) (auto simp: spec_step_def in_order_def Let_def bind_res_Inr_iff split: if_splits)

lemma spec_steps_in_order: "fold_res (spec_step lg) st cs = Inr st' \<Longrightarrow> in_order st \<Longrightarrow> in_order st'"
  by (induction cs arbitrary: st) (auto simp: bind_res_Inr_iff intro: spec_step_in_order)

lemma spec_steps_hold:
  assumes lg: "4 \<le> lg" "lg \<le> 21" and cs: "0 \<notin> set cs"
  shows "\<exists>st. fold_res (spec_step lg) (Listed list_default) cs = Inr st \<and> spec_holds lg st (set cs)"
proof (rule fold_res_prefix [where P = "\<lambda>st ys. spec_holds lg st (set ys)"])
  show "spec_holds lg (Listed list_default) (set [])"
    using list_default_holds by (simp add: spec_holds_def) (simp add: list_default_def container_new_def LG_INIT_LIST_SIZE_def)
next
  fix st ys x zs
  assume "cs = ys @ x # zs" and P: "spec_holds lg st (set ys)"
  then have "x \<noteq> 0" using cs by auto
  then show "\<exists>st'. spec_step lg st x = Inr st' \<and> spec_holds lg st' (set (ys @ [x]))"
    using spec_step_holds [OF lg P] by simp
qed

text \<open>The sketch after a stream of coupons\<close>

lemma hll_stream:
  assumes lg: "4 \<le> lg" "lg \<le> 21" and cs: "0 \<notin> set cs"
  shows "\<exists>s0 s st. hll_new lg ty = Inr s0 \<and> hll_update_all s0 cs = Inr s \<and> sketch_ok s \<and> hs_lg_config_k s = lg \<and>
    target_type s = ty \<and> sketch_abs s = st \<and> fold_res (spec_step lg) (Listed list_default) cs = Inr st \<and>
    spec_holds lg st (set cs) \<and> in_order st"
proof -
  define s0 where "s0 = \<lparr>hs_lg_config_k = lg, hs_mode = ListMode list_default ty\<rparr>"
  have s0: "hll_new lg ty = Inr s0" using lg by (simp add: hll_new_def s0_def)
  let ?P = "\<lambda>s ys. sketch_ok s \<and> hs_lg_config_k s = lg \<and> target_type s = ty \<and>
    fold_res (spec_step lg) (Listed list_default) ys = Inr (sketch_abs s) \<and> spec_holds lg (sketch_abs s) (set ys) \<and> in_order (sketch_abs s)"
  have "\<exists>s. fold_res update_with_coupon s0 cs = Inr s \<and> ?P s cs"
  proof (rule fold_res_prefix [where P = ?P])
    show "?P s0 []" using lg spec_steps_hold [OF lg, of "[]"]
      by (simp add: s0_def sketch_ok_def mode_ok_def sketch_abs_def mode_abs_def target_type_def in_order_def)
  next
    fix s ys x zs
    assume split: "cs = ys @ x # zs" and P: "?P s ys"
    then have "x \<noteq> 0" using cs by auto
    then obtain st where st: "spec_step lg (sketch_abs s) x = Inr st" "spec_holds lg st (insert x (set ys))"
      using spec_step_holds [OF lg, of "sketch_abs s"] P by blast
    obtain s' where "update_with_coupon s x = Inr s'" "sketch_ok s'" "sketch_abs s' = st" "hs_lg_config_k s' = lg" "target_type s' = ty"
      using update_refines [of s x st] st(1) P by auto
    then show "\<exists>s'. update_with_coupon s x = Inr s' \<and> ?P s' (ys @ [x])" using P st spec_step_in_order [OF st(1)] by (simp add: fold_res_append)
  qed
  then show ?thesis using s0 by (auto simp: hll_update_all_def)
qed

section \<open>Properties of the sketch\<close>

lemma coupon_from_value_nonempty: "coupon_from_value item \<noteq> 0"
proof -
  obtain lo hi where h: "murmur_hash DEFAULT_UPDATE_SEED item = (lo, hi)" by (cases "murmur_hash DEFAULT_UPDATE_SEED item")
  define n where "n = min (leading_zeros hi) 62 + 1"
  have n: "0 < n" "n < 64" by (simp_all add: n_def min_def)
  have "unat (push_bit 26 (of_nat n :: u32)) = n * 2 ^ 26"
    using n by (simp add: push_bit_eq_mult unat_word_ariths unsigned_of_nat take_bit_nat_eq_self)
  then have "push_bit 26 (of_nat n :: u32) \<noteq> 0" using n(1) by (metis mult_is_0 unsigned_0 less_numeral_extra(3) power_not_zero zero_neq_numeral)
  then have "push_bit 26 (of_nat n) OR a \<noteq> 0" for a :: u32 by (simp add: or_eq_0_iff)
  then show ?thesis unfolding coupon_from_value_def h Let_def KEY_BITS_26_def n_def by simp
qed

text \<open>
  What a sketch shows of a set \<open>C\<close> of coupons: while it is a list or a set, the coupons themselves, each
  once and in the numbers that fit; then every register is the greatest value that \<open>C\<close> has for its slot.
\<close>

definition represents :: "nat \<Rightarrow> hll_mode \<Rightarrow> coupon set \<Rightarrow> bool" where
  "represents lg m C =
     (case m of
        ListMode l _ \<Rightarrow> set (container_iter l) = C \<and> distinct (container_iter l) \<and> hc_len l = card C \<and> card C < 8
      | SetMode t _ \<Rightarrow> set (container_iter t) = C \<and> distinct (container_iter t) \<and> hc_len t = card C \<and> 4 * card C \<le> 3 * 2 ^ (lg - 3)
      | Array4Mode a \<Rightarrow> list_all (\<lambda>slot. a4_get a slot = Inr (coupon_regs lg C slot)) [0..<2 ^ lg]
      | Array6Mode a \<Rightarrow> list_all (\<lambda>slot. a6_get_raw a slot = Inr (coupon_regs lg C slot)) [0..<2 ^ lg]
      | Array8Mode a \<Rightarrow> list_all (\<lambda>slot. a8_get a slot = Inr (coupon_regs lg C slot)) [0..<2 ^ lg])"

lemma sketch_represents:
  assumes ok: "sketch_ok s" and h: "spec_holds (hs_lg_config_k s) (sketch_abs s) C"
  shows "represents (hs_lg_config_k s) (hs_mode s) C"
proof (cases "hs_mode s")
  case (ListMode l ty)
  then have "list_holds l C" "card C < 8" using h by (simp_all add: spec_holds_def sketch_abs_def mode_abs_def)
  then show ?thesis using list_holds_facts ListMode by (simp add: represents_def)
next
  case (SetMode t ty)
  then have t: "set_holds t C" "hc_lg_size t \<le> hs_lg_config_k s - 3" "4 * card C \<le> 3 * 2 ^ hc_lg_size t"
    using h by (simp_all add: spec_holds_def sketch_abs_def mode_abs_def)
  have "(3 :: nat) * 2 ^ hc_lg_size t \<le> 3 * 2 ^ (hs_lg_config_k s - 3)" using t(2) by simp
  from order_trans [OF t(3) this] show ?thesis using set_holds_facts [OF t(1)] SetMode by (simp add: represents_def)
next
  case (Array4Mode a)
  then have a: "a4_core (hs_lg_config_k s) a (a4_reg a)" "a4_reg a = coupon_regs (hs_lg_config_k s) C"
    using ok h by (simp_all add: sketch_ok_def mode_ok_def a4.good_def a4_ok_def spec_holds_def sketch_abs_def mode_abs_def a4_abs_def)
  then show ?thesis using a4_core_get(2) [OF a(1)] Array4Mode by (simp add: represents_def list_all_iff)
next
  case (Array6Mode a)
  then have a: "a6_ok (hs_lg_config_k s) a" "a6_reg a = coupon_regs (hs_lg_config_k s) C"
    using ok h by (simp_all add: sketch_ok_def mode_ok_def a6.good_def spec_holds_def sketch_abs_def mode_abs_def a6_abs_def)
  note ok6 = a(1) [unfolded a6_ok_def]
  have "a6_get_raw a slot = Inr (a6_reg a slot)" if "slot < 2 ^ hs_lg_config_k s" for slot
  proof -
    have "Suc (slot * 6 div 8) < length (a6_bytes a)" by (rule a6_in_range [of "hs_lg_config_k s"]) (use ok6 that in blast)+
    then obtain v where "a6_get_raw a slot = Inr v" using a6_get_bits by blast
    then show ?thesis using ok6 that by (simp add: a6_reg_def)
  qed
  then show ?thesis using a(2) Array6Mode by (simp add: represents_def list_all_iff)
next
  case (Array8Mode a)
  then have a: "a8_ok (hs_lg_config_k s) a" "a8_reg a = coupon_regs (hs_lg_config_k s) C"
    using ok h by (simp_all add: sketch_ok_def mode_ok_def a8.good_def spec_holds_def sketch_abs_def mode_abs_def a8_abs_def)
  have "a8_get a slot = Inr (a8_reg a slot)" if "slot < 2 ^ hs_lg_config_k s" for slot
    using a(1) that by (simp add: a8_ok_def a8_get_def a8_reg_def)
  then show ?thesis using a(2) Array8Mode by (simp add: represents_def list_all_iff)
qed

lemma share_pow2:
  assumes "v < 64"
  shows "of_nat (share0 v) * pow2 (- 31) + of_nat (share1 v) * pow2 (- 63) = pow2 (- int (unat v))"
proof -
  have v: "unat v < 64" using assms by (simp add: word_less_nat_alt)
  show ?thesis
  proof (cases "unat v < 32")
    case True
    then have "v < 32" by (simp add: word_less_nat_alt)
    moreover have "of_nat (2 ^ (31 - unat v)) * pow2 (- 31) = pow2 (int (31 - unat v) + - 31)"
      by (subst power_int_add) (simp_all add: power_int_def)
    ultimately show ?thesis using True by (simp add: share0_def share1_def of_nat_diff)
  next
    case False
    then have "\<not> v < 32" by (simp add: word_less_nat_alt)
    moreover have "of_nat (2 ^ (63 - unat v)) * pow2 (- 63) = pow2 (int (63 - unat v) + - 63)"
      by (subst power_int_add) (simp_all add: power_int_def)
    ultimately show ?thesis using False v by (simp add: share0_def share1_def of_nat_diff)
  qed
qed

lemma kxq_sum:
  assumes "kxq_ok e k r" and "\<And>s. r s < 64"
  shows "f64_val (he_kxq0 e) + f64_val (he_kxq1 e) = (\<Sum>s<k. pow2 (- int (unat (r s))))"
proof -
  have "f64_val (he_kxq0 e) = of_nat (\<Sum>s<k. share0 (r s)) * pow2 (- 31)"
    "f64_val (he_kxq1 e) = of_nat (\<Sum>s<k. share1 (r s)) * pow2 (- 63)"
    using assms(1) unfolding kxq_ok_def scaled_def by blast+
  then have "f64_val (he_kxq0 e) + f64_val (he_kxq1 e) =
      (\<Sum>s<k. of_nat (share0 (r s)) * pow2 (- 31) + of_nat (share1 (r s)) * pow2 (- 63))"
    by (simp only: of_nat_sum sum_distrib_right sum.distrib)
  then show ?thesis by (simp only: share_pow2 [OF assms(2)])
qed

text \<open>The exact sum of the inverse powers of the registers, which the estimates are computed from\<close>

definition kxq_exact :: "hll_sketch \<Rightarrow> bool" where
  "kxq_exact s \<longleftrightarrow>
     (case sketch_abs s of
        Registers (r, e) \<Rightarrow>
          f64_val (he_kxq0 e) + f64_val (he_kxq1 e) = (\<Sum>i<2 ^ hs_lg_config_k s. pow2 (- int (unat (r i))))
      | _ \<Rightarrow> True)"

lemma hll_items: "0 \<notin> set (map coupon_from_value items)"
proof
  assume "0 \<in> set (map coupon_from_value items)"
  then obtain item where "coupon_from_value item = 0" by force
  then show False using coupon_from_value_nonempty by simp
qed

lemma hll_update_items: "fold_res hll_update s items = hll_update_all s (map coupon_from_value items)"
  unfolding hll_update_all_def by (induction items arbitrary: s) (simp_all add: hll_update_def)

text \<open>
  C5. However many items it sees, and whatever the target type, an HLL sketch never panics and represents
  exactly the set of the coupons of its items: as a list of fewer than 8 distinct coupons, as a set that is
  at most three quarters full, or in its registers, each the greatest value for its slot. The order of the
  items and their repetitions do not matter to the registers.
\<close>
theorem hll_sketch_exact:
  assumes "4 \<le> lg" and "lg \<le> 21"
  shows "\<exists>s0 s. hll_new lg ty = Inr s0 \<and> fold_res hll_update s0 items = Inr s \<and> hs_lg_config_k s = lg \<and>
    target_type s = ty \<and> represents lg (hs_mode s) (coupon_from_value ` set items)"
proof -
  obtain s0 s st where "hll_new lg ty = Inr s0" "hll_update_all s0 (map coupon_from_value items) = Inr s" "sketch_ok s"
    "hs_lg_config_k s = lg" "target_type s = ty" "sketch_abs s = st" "spec_holds lg st (set (map coupon_from_value items))"
    using hll_stream [OF assms hll_items] by blast
  then show ?thesis using sketch_represents [of s "set (map coupon_from_value items)"] by (auto simp: hll_update_items)
qed

theorem hll_sketch_exact_witness:
  "\<exists>s0 s. hll_new 12 Hll4 = Inr s0 \<and> fold_res hll_update s0 [[[1, 2]], [[3]], [[1, 2]]] = Inr s \<and> hs_lg_config_k s = 12 \<and>
    target_type s = Hll4 \<and> represents 12 (hs_mode s) (coupon_from_value ` set [[[1, 2]], [[3]], [[1, 2]]])"
  by (rule hll_sketch_exact) simp_all

text \<open>
  C19. The three target types agree: after the same items, sketches of any two target types hold the same
  list, the same set, or the same registers with the same estimator, bit for bit, so their estimates are
  equal (the composite estimate, a parameter, is not used by a sketch that only saw updates).
\<close>
theorem hll_types_agree:
  assumes "4 \<le> lg" and "lg \<le> 21"
  shows "\<exists>s0 s t0 t. hll_new lg ty = Inr s0 \<and> fold_res hll_update s0 items = Inr s \<and>
    hll_new lg ty' = Inr t0 \<and> fold_res hll_update t0 items = Inr t \<and>
    sketch_abs s = sketch_abs t \<and> hll_estimate composite s = hll_estimate composite' t"
proof -
  let ?cs = "map coupon_from_value items"
  obtain st where st: "fold_res (spec_step lg) (Listed list_default) ?cs = Inr st" "spec_holds lg st (set ?cs)"
    using spec_steps_hold [OF assms hll_items] by blast
  have order: "in_order st" by (rule spec_steps_in_order [OF st(1)]) (simp add: in_order_def)
  have run: "\<exists>s0 s. hll_new lg ty = Inr s0 \<and> fold_res hll_update s0 items = Inr s \<and> sketch_abs s = st" for ty
    using hll_stream [OF assms hll_items, of ty items] st(1) unfolding hll_update_items by auto
  have est: "hll_estimate composite s = (case st of Listed l \<Rightarrow> container_estimate l | Hashed t \<Rightarrow> container_estimate t
      | Registers r \<Rightarrow> he_hip_accum (snd r))" if "sketch_abs s = st" for composite s
    using that order by (cases "hs_mode s")
      (auto simp: hll_estimate_def sketch_abs_def mode_abs_def hip_estimate_def in_order_def a4_abs_def a6_abs_def a8_abs_def)
  show ?thesis using run [of ty] run [of ty'] est by metis
qed

theorem hll_types_agree_witness:
  "\<exists>s0 s t0 t. hll_new 4 Hll4 = Inr s0 \<and> fold_res hll_update s0 [[[1, 2]], [[3]]] = Inr s \<and>
    hll_new 4 Hll8 = Inr t0 \<and> fold_res hll_update t0 [[[1, 2]], [[3]]] = Inr t \<and>
    sketch_abs s = sketch_abs t \<and> hll_estimate (\<lambda>_ _ _ _. 0) s = hll_estimate (\<lambda>_ _ _ _. 1) t"
  by (rule hll_types_agree) simp_all

text \<open>
  C33. The floating-point sums of an HLL sketch do not round: after any items, the two accumulators together are
  exactly the sum of \<open>2 ^ (- register)\<close> over all the registers, however often registers were raised.
\<close>
theorem hll_kxq_exact:
  assumes "4 \<le> lg" and "lg \<le> 21"
  shows "\<exists>s0 s. hll_new lg ty = Inr s0 \<and> fold_res hll_update s0 items = Inr s \<and> kxq_exact s"
proof -
  obtain s0 s where s: "hll_new lg ty = Inr s0" "hll_update_all s0 (map coupon_from_value items) = Inr s"
    "hs_lg_config_k s = lg" "spec_holds lg (sketch_abs s) (set (map coupon_from_value items))"
    using hll_stream [OF assms hll_items, of ty items] by blast
  moreover have "kxq_exact s"
  proof (cases "sketch_abs s")
    case (Registers st)
    obtain r e where "st = (r, e)" by (cases st)
    moreover from this have "kxq_ok e (2 ^ lg) r" "\<And>s. r s < 64"
      using Registers s(3,4) unfolding spec_holds_def spec_ok_def by auto
    ultimately show ?thesis using Registers s(3) by (simp only: kxq_exact_def kxq_sum sketch_state.case prod.case)
  qed (simp_all add: kxq_exact_def)
  ultimately show ?thesis by (auto simp: hll_update_items)
qed

theorem hll_kxq_exact_witness:
  "\<exists>s0 s. hll_new 4 Hll6 = Inr s0 \<and> fold_res hll_update s0 [[[1, 2]], [[3]]] = Inr s \<and> kxq_exact s"
  by (rule hll_kxq_exact) simp_all

end
