(* ===== verification/HllWire.thy ===== *)
theory HllWire
  imports Codec HllSketch
begin

text \<open>
  The binary format of the HLL sketch: \<open>src/datasketches/src/hll/serialization.rs\<close>, the writers and
  readers of \<open>list.rs\<close>, \<open>hash_set.rs\<close>, \<open>array4.rs\<close>, \<open>array6.rs\<close> and \<open>array8.rs\<close>, and
  \<open>HllSketch::deserialize\<close>. The theory shows that what the writer writes the reader gives back. Lengths and
  counts are \<open>nat\<close>; the size of a buffer that is reserved in advance is left out.
\<close>

section \<open>Constants: \<open>serialization.rs\<close>\<close>

definition HLL_SERIAL_VERSION :: u8 where "HLL_SERIAL_VERSION = 1"
definition EMPTY_FLAG_MASK :: u8 where "EMPTY_FLAG_MASK = 4"
definition COMPACT_FLAG_MASK :: u8 where "COMPACT_FLAG_MASK = 8"
definition OUT_OF_ORDER_FLAG_MASK :: u8 where "OUT_OF_ORDER_FLAG_MASK = 16"
definition LIST_PREINTS :: u8 where "LIST_PREINTS = 2"
definition HASH_SET_PREINTS :: u8 where "HASH_SET_PREINTS = 3"
definition HLL_PREINTS :: u8 where "HLL_PREINTS = 10"

definition extract_cur_mode :: "u8 \<Rightarrow> u8" where
  "extract_cur_mode mode_byte = mode_byte AND 0x3"

definition extract_tgt_hll_type :: "u8 \<Rightarrow> u8" where
  "extract_tgt_hll_type mode_byte = drop_bit 2 mode_byte AND 0x3"

definition encode_mode_byte :: "u8 \<Rightarrow> u8 \<Rightarrow> u8" where
  "encode_mode_byte cur_mode tgt_type = (cur_mode AND 0x3) OR push_bit 2 (tgt_type AND 0x3)"

definition CUR_MODE_LIST :: u8 where "CUR_MODE_LIST = 0"
definition CUR_MODE_SET :: u8 where "CUR_MODE_SET = 1"
definition CUR_MODE_HLL :: u8 where "CUR_MODE_HLL = 2"
definition TGT_HLL4 :: u8 where "TGT_HLL4 = 0"
definition TGT_HLL6 :: u8 where "TGT_HLL6 = 1"
definition TGT_HLL8 :: u8 where "TGT_HLL8 = 2"
definition COUPON_SIZE_BYTES :: nat where "COUPON_SIZE_BYTES = 4"

definition hll_type_u8 :: "hll_type \<Rightarrow> u8" where
  "hll_type_u8 t = (case t of Hll4 \<Rightarrow> 0 | Hll6 \<Rightarrow> 1 | Hll8 \<Rightarrow> 2)"

section \<open>The list and the set\<close>

definition list_serialize :: "container \<Rightarrow> nat \<Rightarrow> hll_type \<Rightarrow> u8 list" where
  "list_serialize l lg_config_k hll_type =
     (let emp = container_is_empty l;
          coupon_count = hc_len l;
          bytes = with_capacity 0;
          bytes = write_u8 bytes LIST_PREINTS;
          bytes = write_u8 bytes HLL_SERIAL_VERSION;
          bytes = write_u8 bytes (fam_id family_hll);
          bytes = write_u8 bytes (of_nat lg_config_k);
          bytes = write_u8 bytes (of_nat (hc_lg_size l));
          bytes = write_u8 bytes ((if emp then EMPTY_FLAG_MASK else 0) OR COMPACT_FLAG_MASK);
          bytes = write_u8 bytes (of_nat coupon_count);
          bytes = write_u8 bytes (encode_mode_byte CUR_MODE_LIST (hll_type_u8 hll_type))
      in if emp then into_bytes bytes
         else into_bytes (foldl write_u32_le bytes (take coupon_count (container_iter l))))"

definition list_deserialize :: "sketch_slice \<Rightarrow> nat \<Rightarrow> nat \<Rightarrow> bool \<Rightarrow> bool \<Rightarrow> container res" where
  "list_deserialize cursor lg_arr coupon_count emp is_compact =
     (let array_size = 2 ^ lg_arr
      in if array_size < coupon_count then Inl (InvalidData ''LIST mode coupon count exceeds capacity'')
         else if emp \<noteq> (coupon_count = 0) then Inl (InvalidData ''LIST mode empty flag and coupon count disagree'')
         else
           let read_count = (if is_compact then coupon_count else array_size);
               required_bytes = read_count * 4
           in if \<not> emp \<and> length (remaining cursor) < required_bytes
              then Inl (InvalidData ''insufficient data: LIST mode coupons'')
              else bind_res
                (if \<not> emp \<and> 0 < coupon_count
                 then bind_res (insufficient_data ''coupons'' (read_many read_u32_le read_count cursor)) (\<lambda>(coupons, _).
                   Inr (coupons @ replicate (array_size - read_count) COUPON_EMPTY))
                 else Inr (replicate array_size COUPON_EMPTY)) (\<lambda>coupons.
                Inr (container_from_coupons lg_arr coupons coupon_count)))"

definition set_serialize :: "container \<Rightarrow> nat \<Rightarrow> hll_type \<Rightarrow> u8 list" where
  "set_serialize s lg_config_k hll_type =
     (let coupon_count = hc_len s;
          bytes = with_capacity 0;
          bytes = write_u8 bytes HASH_SET_PREINTS;
          bytes = write_u8 bytes HLL_SERIAL_VERSION;
          bytes = write_u8 bytes (fam_id family_hll);
          bytes = write_u8 bytes (of_nat lg_config_k);
          bytes = write_u8 bytes (of_nat (hc_lg_size s));
          bytes = write_u8 bytes COMPACT_FLAG_MASK;
          bytes = write_u8 bytes 0;
          bytes = write_u8 bytes (encode_mode_byte CUR_MODE_SET (hll_type_u8 hll_type));
          bytes = write_u32_le bytes (of_nat coupon_count)
      in into_bytes (foldl write_u32_le bytes (container_iter s)))"

text \<open>The loop of the compact reader: read a coupon, insert it.\<close>

fun set_read_coupons :: "nat \<Rightarrow> container \<Rightarrow> sketch_slice \<Rightarrow> container res" where
  "set_read_coupons 0 s cursor = Inr s"
| "set_read_coupons (Suc n) s cursor =
     bind_res (insufficient_data ''coupons'' (read_u32_le cursor)) (\<lambda>(coupon, cursor).
     bind_res (set_update_coupon s coupon) (\<lambda>s. set_read_coupons n s cursor))"

definition set_deserialize :: "sketch_slice \<Rightarrow> nat \<Rightarrow> bool \<Rightarrow> container res" where
  "set_deserialize cursor lg_arr is_compact =
     bind_res (insufficient_data ''coupon_count'' (read_u32_le cursor)) (\<lambda>(coupon_count, cursor).
       let coupon_count = unat coupon_count;
           array_size = 2 ^ lg_arr
       in if array_size \<le> coupon_count then Inl (InvalidData ''SET mode coupon count must be below capacity'')
          else
            let read_count = (if is_compact then coupon_count else array_size);
                required_bytes = read_count * 4
            in if length (remaining cursor) < required_bytes
               then Inl (InvalidData ''insufficient data: SET mode coupons'')
               else if is_compact then
                 bind_res (set_read_coupons coupon_count (container_new lg_arr) cursor) (\<lambda>s.
                   if hc_len s \<noteq> coupon_count then Inl (InvalidData ''SET mode contains duplicate coupons'')
                   else Inr s)
               else
                 bind_res (insufficient_data ''coupons'' (read_many read_u32_le array_size cursor)) (\<lambda>(coupons, _).
                   if length (filter (\<lambda>c. \<not> coupon_is_empty c) coupons) \<noteq> coupon_count
                   then Inl (InvalidData ''SET mode coupon count does not match occupied slots'')
                   else Inr (container_from_coupons lg_arr coupons coupon_count)))"

section \<open>The arrays with 8 and 6 bits\<close>

text \<open>The estimator that every array reader builds\<close>

definition restore_estimator :: "nat \<Rightarrow> f64 \<Rightarrow> f64 \<Rightarrow> f64 \<Rightarrow> bool \<Rightarrow> hip_estimator" where
  "restore_estimator lg_config_k hip_accum kxq0 kxq1 ooo =
     (let estimator = hip_new lg_config_k;
          estimator = set_hip_accum estimator hip_accum;
          estimator = set_kxq0 estimator kxq0;
          estimator = set_kxq1 estimator kxq1
      in set_out_of_order estimator ooo)"

definition a8_serialize :: "array8 \<Rightarrow> nat \<Rightarrow> u8 list" where
  "a8_serialize a lg_config_k =
     (let bytes = with_capacity 0;
          bytes = write_u8 bytes HLL_PREINTS;
          bytes = write_u8 bytes HLL_SERIAL_VERSION;
          bytes = write_u8 bytes (fam_id family_hll);
          bytes = write_u8 bytes (of_nat lg_config_k);
          bytes = write_u8 bytes 0;
          bytes = write_u8 bytes (if he_out_of_order (a8_estimator a) then OUT_OF_ORDER_FLAG_MASK else 0);
          bytes = write_u8 bytes 0;
          bytes = write_u8 bytes (encode_mode_byte CUR_MODE_HLL TGT_HLL8);
          bytes = write_f64_le bytes (he_hip_accum (a8_estimator a));
          bytes = write_f64_le bytes (he_kxq0 (a8_estimator a));
          bytes = write_f64_le bytes (he_kxq1 (a8_estimator a));
          bytes = write_u32_le bytes (a8_num_zeros a);
          bytes = write_u32_le bytes 0;
          bytes = write_bytes bytes (a8_bytes a)
      in into_bytes bytes)"

definition a8_deserialize_registers :: "sketch_slice \<Rightarrow> nat \<Rightarrow> bool \<Rightarrow> array8 res" where
  "a8_deserialize_registers cursor lg_config_k ooo =
     (let k = 2 ^ lg_config_k
      in bind_res (insufficient_data ''hip_accum'' (read_f64_le cursor)) (\<lambda>(hip_accum, cursor).
         bind_res (insufficient_data ''kxq0'' (read_f64_le cursor)) (\<lambda>(kxq0, cursor).
         bind_res (insufficient_data ''kxq1'' (read_f64_le cursor)) (\<lambda>(kxq1, cursor).
         bind_res (insufficient_data ''num_zeros'' (read_u32_le cursor)) (\<lambda>(num_zeros, cursor).
         bind_res (insufficient_data ''aux_count'' (read_u32_le cursor)) (\<lambda>(aux_count, cursor).
         if k < unat num_zeros \<or> aux_count \<noteq> 0
         then Inl (InvalidData ''HLL8 zero count must not exceed k and auxiliary count must be zero'')
         else if length (remaining cursor) < k then Inl (InvalidData ''insufficient data: HLL8 payload'')
         else bind_res (insufficient_data ''data'' (read_exact k cursor)) (\<lambda>(data, _).
           Inr \<lparr>a8_lg_config_k = lg_config_k, a8_bytes = data, a8_num_zeros = num_zeros,
                a8_estimator = restore_estimator lg_config_k hip_accum kxq0 kxq1 ooo\<rparr>)))))))"

definition a6_serialize :: "array6 \<Rightarrow> nat \<Rightarrow> u8 list" where
  "a6_serialize a lg_config_k =
     (let bytes = with_capacity 0;
          bytes = write_u8 bytes HLL_PREINTS;
          bytes = write_u8 bytes HLL_SERIAL_VERSION;
          bytes = write_u8 bytes (fam_id family_hll);
          bytes = write_u8 bytes (of_nat lg_config_k);
          bytes = write_u8 bytes 0;
          bytes = write_u8 bytes (if he_out_of_order (a6_estimator a) then OUT_OF_ORDER_FLAG_MASK else 0);
          bytes = write_u8 bytes 0;
          bytes = write_u8 bytes (encode_mode_byte CUR_MODE_HLL TGT_HLL6);
          bytes = write_f64_le bytes (he_hip_accum (a6_estimator a));
          bytes = write_f64_le bytes (he_kxq0 (a6_estimator a));
          bytes = write_f64_le bytes (he_kxq1 (a6_estimator a));
          bytes = write_u32_le bytes (a6_num_zeros a);
          bytes = write_u32_le bytes 0;
          bytes = write_bytes bytes (a6_bytes a)
      in into_bytes bytes)"

definition a6_deserialize_registers :: "sketch_slice \<Rightarrow> nat \<Rightarrow> bool \<Rightarrow> array6 res" where
  "a6_deserialize_registers cursor lg_config_k ooo =
     (let k = 2 ^ lg_config_k;
          num_bytes = num_bytes_for_k k
      in bind_res (insufficient_data ''hip_accum'' (read_f64_le cursor)) (\<lambda>(hip_accum, cursor).
         bind_res (insufficient_data ''kxq0'' (read_f64_le cursor)) (\<lambda>(kxq0, cursor).
         bind_res (insufficient_data ''kxq1'' (read_f64_le cursor)) (\<lambda>(kxq1, cursor).
         bind_res (insufficient_data ''num_zeros'' (read_u32_le cursor)) (\<lambda>(num_zeros, cursor).
         bind_res (insufficient_data ''aux_count'' (read_u32_le cursor)) (\<lambda>(aux_count, cursor).
         if k < unat num_zeros \<or> aux_count \<noteq> 0
         then Inl (InvalidData ''HLL6 zero count must not exceed k and auxiliary count must be zero'')
         else if length (remaining cursor) < num_bytes then Inl (InvalidData ''insufficient data: HLL6 payload'')
         else bind_res (insufficient_data ''data'' (read_exact num_bytes cursor)) (\<lambda>(data, _).
           Inr \<lparr>a6_lg_config_k = lg_config_k, a6_bytes = data, a6_num_zeros = num_zeros,
                a6_estimator = restore_estimator lg_config_k hip_accum kxq0 kxq1 ooo\<rparr>)))))))"

section \<open>The array with 4 bits\<close>

datatype aux_format = Compact_format | Updatable_format u8

definition aux_format_from_header :: "bool \<Rightarrow> u8 \<Rightarrow> aux_format" where
  "aux_format_from_header is_compact lg_arr = (if is_compact then Compact_format else Updatable_format lg_arr)"

definition a4_serialize :: "array4 \<Rightarrow> nat \<Rightarrow> u8 list" where
  "a4_serialize a lg_config_k =
     (let aux_entries = (case a4_aux_map a of Some aux \<Rightarrow> aux_iter aux | None \<Rightarrow> []);
          aux_count = of_nat (length aux_entries);
          bytes = with_capacity 0;
          bytes = write_u8 bytes HLL_PREINTS;
          bytes = write_u8 bytes HLL_SERIAL_VERSION;
          bytes = write_u8 bytes (fam_id family_hll);
          bytes = write_u8 bytes (of_nat lg_config_k);
          bytes = write_u8 bytes 0;
          bytes = write_u8 bytes (if he_out_of_order (a4_estimator a) then COMPACT_FLAG_MASK OR OUT_OF_ORDER_FLAG_MASK
            else COMPACT_FLAG_MASK);
          bytes = write_u8 bytes (a4_cur_min a);
          bytes = write_u8 bytes (encode_mode_byte CUR_MODE_HLL TGT_HLL4);
          bytes = write_f64_le bytes (he_hip_accum (a4_estimator a));
          bytes = write_f64_le bytes (he_kxq0 (a4_estimator a));
          bytes = write_f64_le bytes (he_kxq1 (a4_estimator a));
          bytes = write_u32_le bytes (a4_num_at_cur_min a);
          bytes = write_u32_le bytes aux_count;
          bytes = write_bytes bytes (a4_bytes a);
          bytes = foldl (\<lambda>bytes (slot, v). write_u32_le bytes (coupon_pack (of_nat slot) v)) bytes aux_entries
      in into_bytes bytes)"

text \<open>The loop that reads \<open>n\<close> auxiliary slots; it counts the decoded entries.\<close>

fun a4_read_aux :: "nat \<Rightarrow> bool \<Rightarrow> nat \<Rightarrow> aux_map \<Rightarrow> nat \<Rightarrow> sketch_slice \<Rightarrow> (aux_map \<times> nat) res" where
  "a4_read_aux lg_config_k is_compact 0 aux decoded_count cursor = Inr (aux, decoded_count)"
| "a4_read_aux lg_config_k is_compact (Suc n) aux decoded_count cursor =
     bind_res (insufficient_data ''HLL4 auxiliary slots'' (read_u32_le cursor)) (\<lambda>(coupon, cursor).
       if coupon_is_empty coupon \<and> \<not> is_compact then a4_read_aux lg_config_k is_compact n aux decoded_count cursor
       else
         let slot = unat (coupon_slot coupon) AND (2 ^ lg_config_k - 1);
             v = coupon_value coupon
         in bind_res (if coupon_is_empty coupon then Inr True else bind_res (aux_get aux slot) (\<lambda>old. Inr (old \<noteq> None))) (\<lambda>bad.
              if bad then Inl (InvalidData ''HLL4 auxiliary entries must be non-empty and unique'')
              else bind_res (aux_insert aux slot v) (\<lambda>aux.
                a4_read_aux lg_config_k is_compact n aux (decoded_count + 1) cursor)))"

definition a4_deserialize :: "sketch_slice \<Rightarrow> u8 \<Rightarrow> nat \<Rightarrow> aux_format \<Rightarrow> bool \<Rightarrow> array4 res" where
  "a4_deserialize cursor cur_min lg_config_k aux_format ooo =
     (let k = 2 ^ lg_config_k;
          num_bytes = 2 ^ (lg_config_k - 1)
      in bind_res (insufficient_data ''hip_accum'' (read_f64_le cursor)) (\<lambda>(hip_accum, cursor).
         bind_res (insufficient_data ''kxq0'' (read_f64_le cursor)) (\<lambda>(kxq0, cursor).
         bind_res (insufficient_data ''kxq1'' (read_f64_le cursor)) (\<lambda>(kxq1, cursor).
         bind_res (insufficient_data ''num_at_cur_min'' (read_u32_le cursor)) (\<lambda>(num_at_cur_min, cursor).
         bind_res (insufficient_data ''aux_count'' (read_u32_le cursor)) (\<lambda>(aux_count, cursor).
         if k < unat num_at_cur_min \<or> k < unat aux_count
         then Inl (InvalidData ''HLL4 register or auxiliary count exceeds k'')
         else bind_res
           (case aux_format of
              Compact_format \<Rightarrow> Inr (unat aux_count, True)
            | Updatable_format lg_arr \<Rightarrow>
                if aux_count = 0 then Inr (0, False)
                else if 64 \<le> unat lg_arr then Inl (InvalidData ''invalid HLL4 lg_arr'')
                else Inr (2 ^ unat lg_arr, False)) (\<lambda>(aux_slots, is_compact).
           let required_bytes = num_bytes + aux_slots * COUPON_SIZE_BYTES
           in if 2 ^ 64 \<le> required_bytes then Inl (InvalidData ''HLL4 payload length overflows'')
              else if length (remaining cursor) < required_bytes then Inl (InvalidData ''insufficient data: HLL4 payload'')
              else bind_res (insufficient_data ''data'' (read_exact num_bytes cursor)) (\<lambda>(data, cursor).
                bind_res
                  (if aux_count = 0 then Inr None
                   else bind_res (a4_read_aux lg_config_k is_compact aux_slots (aux_new lg_config_k) 0 cursor) (\<lambda>(aux, decoded_count).
                     if decoded_count \<noteq> unat aux_count then Inl (InvalidData ''HLL4 auxiliary count mismatch'')
                     else Inr (Some aux))) (\<lambda>aux_map.
                Inr \<lparr>a4_lg_config_k = lg_config_k, a4_bytes = data, a4_cur_min = cur_min,
                     a4_num_at_cur_min = num_at_cur_min, a4_aux_map = aux_map,
                     a4_estimator = restore_estimator lg_config_k hip_accum kxq0 kxq1 ooo\<rparr>)))))))))"

section \<open>The sketch: \<open>sketch.rs\<close>\<close>

definition hll_serialize :: "hll_sketch \<Rightarrow> u8 list" where
  "hll_serialize s =
     (case hs_mode s of
        ListMode l hll_type \<Rightarrow> list_serialize l (hs_lg_config_k s) hll_type
      | SetMode t hll_type \<Rightarrow> set_serialize t (hs_lg_config_k s) hll_type
      | Array4Mode a \<Rightarrow> a4_serialize a (hs_lg_config_k s)
      | Array6Mode a \<Rightarrow> a6_serialize a (hs_lg_config_k s)
      | Array8Mode a \<Rightarrow> a8_serialize a (hs_lg_config_k s))"

definition hll_type_of :: "u8 \<Rightarrow> hll_type res" where
  "hll_type_of tgt =
     (if tgt = TGT_HLL4 then Inr Hll4 else if tgt = TGT_HLL6 then Inr Hll6 else if tgt = TGT_HLL8 then Inr Hll8
      else Inl (InvalidData ''invalid HLL type''))"

definition hll_deserialize :: "u8 list \<Rightarrow> hll_sketch res" where
  "hll_deserialize bytes =
     (let cursor = new_slice bytes
      in bind_res (insufficient_data ''preamble_ints'' (read_u8 cursor)) (\<lambda>(preamble_ints, cursor).
         bind_res (insufficient_data ''serial_version'' (read_u8 cursor)) (\<lambda>(serial_version, cursor).
         bind_res (insufficient_data ''family_id'' (read_u8 cursor)) (\<lambda>(family_id, cursor).
         bind_res (insufficient_data ''lg_config_k'' (read_u8 cursor)) (\<lambda>(lg_k, cursor).
         bind_res (insufficient_data ''lg_arr'' (read_u8 cursor)) (\<lambda>(lg_arr, cursor).
         bind_res (insufficient_data ''flags'' (read_u8 cursor)) (\<lambda>(flags, cursor).
         bind_res (insufficient_data ''state'' (read_u8 cursor)) (\<lambda>(state, cursor).
         bind_res (insufficient_data ''mode'' (read_u8 cursor)) (\<lambda>(mode_byte, cursor).
         bind_res (validate_id family_hll family_id) (\<lambda>_.
         bind_res (ensure_serial_version_is HLL_SERIAL_VERSION serial_version) (\<lambda>_.
         let lg_config_k = unat lg_k
         in if \<not> (4 \<le> lg_config_k \<and> lg_config_k \<le> 21) then Inl (InvalidData ''lg_k must be in [4; 21]'')
            else bind_res (hll_type_of (extract_tgt_hll_type mode_byte)) (\<lambda>hll_type.
              let emp = flags AND EMPTY_FLAG_MASK \<noteq> 0;
                  is_compact = flags AND COMPACT_FLAG_MASK \<noteq> 0;
                  ooo = flags AND OUT_OF_ORDER_FLAG_MASK \<noteq> 0;
                  cur_mode = extract_cur_mode mode_byte
              in bind_res
                (if cur_mode = CUR_MODE_LIST then
                   if preamble_ints \<noteq> LIST_PREINTS then Inl (InvalidData ''LIST mode preamble'')
                   else if lg_arr \<noteq> 3 then Inl (InvalidData ''LIST mode lg_arr'')
                   else bind_res (list_deserialize cursor (unat lg_arr) (unat state) emp is_compact) (\<lambda>l.
                     Inr (ListMode l hll_type))
                 else if cur_mode = CUR_MODE_SET then
                   if preamble_ints \<noteq> HASH_SET_PREINTS then Inl (InvalidData ''SET mode preamble'')
                   else if \<not> (5 \<le> unat lg_arr \<and> unat lg_arr \<le> lg_config_k - 3) then Inl (InvalidData ''SET mode lg_arr'')
                   else bind_res (set_deserialize cursor (unat lg_arr) is_compact) (\<lambda>t. Inr (SetMode t hll_type))
                 else if cur_mode = CUR_MODE_HLL then
                   if preamble_ints \<noteq> HLL_PREINTS then Inl (InvalidData ''HLL mode preamble'')
                   else case hll_type of
                     Hll4 \<Rightarrow> bind_res (a4_deserialize cursor state lg_config_k (aux_format_from_header is_compact lg_arr) ooo)
                       (\<lambda>a. Inr (Array4Mode a))
                   | Hll6 \<Rightarrow> bind_res (a6_deserialize_registers cursor lg_config_k ooo) (\<lambda>a. Inr (Array6Mode a))
                   | Hll8 \<Rightarrow> bind_res (a8_deserialize_registers cursor lg_config_k ooo) (\<lambda>a. Inr (Array8Mode a))
                 else Inl (InvalidData ''invalid mode'')) (\<lambda>mode.
                Inr \<lparr>hs_lg_config_k = lg_config_k, hs_mode = mode\<rparr>)))))))))))))"

section \<open>The parts round trip\<close>

lemma read_coupons_enc:
  "remaining cursor = concat (map to_le_bytes cs) @ rest \<Longrightarrow>
     read_many read_u32_le (length cs) cursor = Some (cs, advance (4 * length cs) cursor)"
  by (rule u32_le_codec.rd_many)

lemma list_holds_layout:
  assumes "list_holds l C"
  shows "hc_coupons l = container_iter l @ replicate (2 ^ hc_lg_size l - hc_len l) 0" and "length (container_iter l) = hc_len l"
proof -
  obtain cs n where cs: "hc_coupons l = cs @ replicate n 0" "hc_len l = length cs" "0 \<notin> set cs" "length (hc_coupons l) = 2 ^ hc_lg_size l"
    using assms by (auto simp: list_holds_def)
  have "container_iter l = cs" using cs(1,3) by (auto simp: container_iter_def intro: filter_True)
  then show "hc_coupons l = container_iter l @ replicate (2 ^ hc_lg_size l - hc_len l) 0" "length (container_iter l) = hc_len l"
    using cs by auto
qed

lemma list_read_back:
  assumes l: "list_holds l C" and rem: "remaining cursor = concat (map to_le_bytes (container_iter l))"
  shows "list_deserialize cursor (hc_lg_size l) (hc_len l) (container_is_empty l) True = Inr l"
proof -
  note lay = list_holds_layout [OF l]
  have "length (hc_coupons l) = 2 ^ hc_lg_size l" using list_holds_facts(4) [OF l] by (simp add: container_capacity_def)
  then have le: "hc_len l \<le> 2 ^ hc_lg_size l" using lay by (metis le_add1 length_append)
  have len: "length (remaining cursor) = 4 * hc_len l"
    unfolding rem using u32_le_codec.length_wr_many [of "container_iter l"] lay(2) by simp
  have rd: "read_many read_u32_le (hc_len l) cursor = Some (container_iter l, advance (4 * hc_len l) cursor)"
    using read_coupons_enc [of cursor "container_iter l" "[]"] rem lay(2) by simp
  have eq: "container_from_coupons (hc_lg_size l) (hc_coupons l) (hc_len l) = l" by (simp add: container_from_coupons_def)
  show ?thesis
  proof (cases "hc_len l = 0")
    case True
    then have "container_iter l = []" using lay(2) by simp
    then have "hc_coupons l = replicate (2 ^ hc_lg_size l) 0" using lay(1) True by simp
    then show ?thesis using True eq by (simp add: list_deserialize_def Let_def container_is_empty_def COUPON_EMPTY_def)
  next
    case False
    then show ?thesis using le len rd eq lay(1) [symmetric]
      by (simp add: list_deserialize_def Let_def container_is_empty_def COUPON_EMPTY_def)
  qed
qed

lemma set_read_coupons_fold:
  "remaining cursor = concat (map to_le_bytes cs) @ rest \<Longrightarrow>
     set_read_coupons (length cs) s cursor = fold_res set_update_coupon s cs"
proof (induction cs arbitrary: s cursor)
  case (Cons c cs)
  have "read_u32_le cursor = Some (c, advance 4 cursor)"
    by (rule u32_le_codec.rd_enc) (use Cons.prems in simp)
  moreover have "remaining (advance 4 cursor) = concat (map to_le_bytes cs) @ rest" using Cons.prems by simp
  ultimately show ?case using Cons.IH by simp
qed simp

lemma set_read_back:
  assumes t: "set_holds t C" and small: "card C < 2 ^ hc_lg_size t" and lg: "hc_lg_size t \<le> 21"
    and rem: "remaining cursor = to_le_bytes (of_nat (hc_len t) :: u32) @ concat (map to_le_bytes (container_iter t))"
  shows "\<exists>t'. set_deserialize cursor (hc_lg_size t) True = Inr t' \<and> set_holds t' C \<and> hc_lg_size t' = hc_lg_size t"
proof -
  note F = set_holds_facts [OF t]
  have len: "length (container_iter t) = hc_len t" using F(1,5,6) distinct_card by metis
  have "(2 :: nat) ^ hc_lg_size t \<le> 2 ^ 21" by (rule power_increasing [OF lg]) simp
  then have count: "unat (of_nat (hc_len t) :: u32) = hc_len t"
    using small F(1) by (simp add: unsigned_of_nat take_bit_nat_eq_self)
  have rd: "read_u32_le cursor = Some (of_nat (hc_len t), advance 4 cursor)" by (rule u32_le_codec.rd_enc [OF rem])
  have rem4: "remaining (advance 4 cursor) = concat (map to_le_bytes (container_iter t)) @ []" using rem by simp
  have len4: "length (remaining (advance 4 cursor)) = 4 * hc_len t"
    unfolding rem4 using u32_le_codec.length_wr_many [of "container_iter t"] len by simp
  have "0 \<notin> set (container_iter t)" "card (set (container_iter t)) \<le> 2 ^ hc_lg_size t" using F(3,5) small by simp_all
  then obtain t' where t': "fold_res set_update_coupon (container_new (hc_lg_size t)) (container_iter t) = Inr t'"
    "set_holds t' C" "hc_lg_size t' = hc_lg_size t" using set_fill F(5) by metis
  have "set_read_coupons (hc_len t) (container_new (hc_lg_size t)) (advance 4 cursor) = Inr t'"
    using set_read_coupons_fold [OF rem4] t'(1) len by simp
  moreover have "hc_len t' = hc_len t" using set_holds_facts(1) [OF t'(2)] F(1) by simp
  ultimately have "set_deserialize cursor (hc_lg_size t) True = Inr t'"
    using rd count len4 small F(1) by (simp add: set_deserialize_def Let_def del: remaining_advance)
  then show ?thesis using t' by blast
qed

text \<open>The estimator that a reader restores is the one that was written.\<close>

lemma restore_estimator_id:
  "order_ok e \<Longrightarrow> restore_estimator lg (he_hip_accum e) (he_kxq0 e) (he_kxq1 e) (he_out_of_order e) = e"
  by (simp add: restore_estimator_def Let_def hip_new_def set_hip_accum_def set_kxq0_def set_kxq1_def
      set_out_of_order_def order_ok_def)

text \<open>The preamble of the arrays: three floats and two counts\<close>

definition array_preamble :: "hip_estimator \<Rightarrow> u32 \<Rightarrow> u32 \<Rightarrow> u8 list" where
  "array_preamble e n m = to_le_bytes (he_hip_accum e) @ to_le_bytes (he_kxq0 e) @ to_le_bytes (he_kxq1 e) @
     to_le_bytes n @ to_le_bytes m"

lemma read_preamble:
  assumes "remaining c = array_preamble e n m @ rest"
  shows "read_f64_le c = Some (he_hip_accum e, advance 8 c)" "read_f64_le (advance 8 c) = Some (he_kxq0 e, advance 16 c)"
    "read_f64_le (advance 16 c) = Some (he_kxq1 e, advance 24 c)" "read_u32_le (advance 24 c) = Some (n, advance 28 c)"
    "read_u32_le (advance 28 c) = Some (m, advance 32 c)" "drop 32 (remaining c) = rest"
proof -
  show "read_f64_le c = Some (he_hip_accum e, advance 8 c)"
    by (rule f64_le_codec.rd_enc) (simp add: assms array_preamble_def)
  have "read_f64_le (advance 8 c) = Some (he_kxq0 e, advance 8 (advance 8 c))"
    by (rule f64_le_codec.rd_enc) (simp add: assms array_preamble_def)
  then show "read_f64_le (advance 8 c) = Some (he_kxq0 e, advance 16 c)" by simp
  have "read_f64_le (advance 16 c) = Some (he_kxq1 e, advance 8 (advance 16 c))"
    by (rule f64_le_codec.rd_enc) (simp add: assms array_preamble_def)
  then show "read_f64_le (advance 16 c) = Some (he_kxq1 e, advance 24 c)" by simp
  have "read_u32_le (advance 24 c) = Some (n, advance 4 (advance 24 c))"
    by (rule u32_le_codec.rd_enc) (simp add: assms array_preamble_def)
  then show "read_u32_le (advance 24 c) = Some (n, advance 28 c)" by simp
  have "read_u32_le (advance 28 c) = Some (m, advance 4 (advance 28 c))"
    by (rule u32_le_codec.rd_enc) (simp add: assms array_preamble_def)
  then show "read_u32_le (advance 28 c) = Some (m, advance 32 c)" by simp
  show "drop 32 (remaining c) = rest" by (simp add: assms array_preamble_def)
qed

lemma small_count: "lg \<le> 21 \<Longrightarrow> n \<le> 2 ^ lg \<Longrightarrow> unat (of_nat n :: u32) = n"
  using lg_bound [of lg] by (simp add: unsigned_of_nat take_bit_nat_eq_self)

lemma card_regs_le: "card {s. s < (2 :: nat) ^ lg \<and> P s} \<le> 2 ^ lg"
  using card_mono [of "{..<2 ^ lg}" "{s. s < (2 :: nat) ^ lg \<and> P s}"] by auto

lemma a8_read_back:
  assumes a: "a8_ok lg a" "lg \<le> 21" "order_ok (a8_estimator a)"
    and rem: "remaining c = array_preamble (a8_estimator a) (a8_num_zeros a) 0 @ a8_bytes a"
  shows "a8_deserialize_registers c lg (he_out_of_order (a8_estimator a)) = Inr a"
proof -
  have H: "a8_lg_config_k a = lg" "length (a8_bytes a) = 2 ^ lg" "unat (a8_num_zeros a) \<le> 2 ^ lg"
    using a small_count [OF a(2) card_regs_le] card_regs_le by (auto simp: a8_ok_def)
  have data: "read_exact (2 ^ lg) (advance 32 c) = Some (a8_bytes a, advance (2 ^ lg) (advance 32 c))"
    using read_preamble(6) [OF rem] H(2) by (simp add: read_exact_def)
  show ?thesis
    using read_preamble [OF rem] H data restore_estimator_id [OF a(3)]
    by (simp add: a8_deserialize_registers_def Let_def)
qed

lemma a6_read_back:
  assumes a: "a6_ok lg a" "lg \<le> 21" "order_ok (a6_estimator a)"
    and rem: "remaining c = array_preamble (a6_estimator a) (a6_num_zeros a) 0 @ a6_bytes a"
  shows "a6_deserialize_registers c lg (he_out_of_order (a6_estimator a)) = Inr a"
proof -
  have H: "a6_lg_config_k a = lg" "length (a6_bytes a) = num_bytes_for_k (2 ^ lg)" "unat (a6_num_zeros a) \<le> 2 ^ lg"
    using a small_count [OF a(2) card_regs_le] card_regs_le by (auto simp: a6_ok_def)
  have data: "read_exact (num_bytes_for_k (2 ^ lg)) (advance 32 c) =
      Some (a6_bytes a, advance (num_bytes_for_k (2 ^ lg)) (advance 32 c))"
    using read_preamble(6) [OF rem] H(2) by (simp add: read_exact_def)
  show ?thesis
    using read_preamble [OF rem] H data restore_estimator_id [OF a(3)]
    by (simp add: a6_deserialize_registers_def Let_def)
qed

text \<open>The exception map: what is written entry by entry is inserted again.\<close>

lemma a4_read_aux_ok:
  assumes "aux_holds lg m G" and "distinct (map fst es)" and "fst ` set es \<inter> dom G = {}"
    and "\<And>s v. (s, v) \<in> set es \<Longrightarrow> s < 2 ^ lg \<and> 0 < v \<and> v < 64"
    and "remaining cursor = concat (map (\<lambda>(s, v). to_le_bytes (coupon_pack (of_nat s) v)) es) @ rest"
  shows "\<exists>m'. a4_read_aux lg True (length es) m n cursor = Inr (m', n + length es) \<and> aux_holds lg m' (G ++ map_of es)"
  using assms
proof (induction es arbitrary: m G n cursor)
  case (Cons x es)
  obtain s v where x: "x = (s, v)" by (cases x)
  have sv: "s < 2 ^ lg" "0 < v" "v < 64" using Cons.prems(4) x by auto
  have new: "s \<notin> dom G" "s \<notin> fst ` set es" using Cons.prems(2,3) x by auto
  let ?c = "coupon_pack (of_nat s) v"
  note P = pack_facts [OF sv(1) aux_holdsD(2) [OF Cons.prems(1)] sv(2,3)]
  have rd: "read_u32_le cursor = Some (?c, advance 4 cursor)"
    by (rule u32_le_codec.rd_enc) (use Cons.prems(5) x in simp)
  have slot: "unat (coupon_slot ?c) AND (2 ^ lg - 1) = s" unfolding P(2) and_mask_nat using sv(1) by simp
  have get: "aux_get m s = Inr None" using aux_get_ok [OF Cons.prems(1)] new(1) by (auto simp: dom_def)
  obtain m1 where m1: "aux_insert m s v = Inr m1" "aux_holds lg m1 (G(s \<mapsto> v))"
    using aux_insert_ok [OF Cons.prems(1) new(1) sv] by blast
  have disj: "fst ` set es \<inter> dom (G(s \<mapsto> v)) = {}" using Cons.prems(3) new(2) x by auto
  have rem: "remaining (advance 4 cursor) = concat (map (\<lambda>(s, v). to_le_bytes (coupon_pack (of_nat s) v)) es) @ rest"
    using Cons.prems(5) x by simp
  have dist: "distinct (map fst es)" using Cons.prems(2) by simp
  have mem: "s < 2 ^ lg \<and> 0 < v \<and> v < 64" if "(s, v) \<in> set es" for s v by (rule Cons.prems(4)) (use that in simp)
  obtain m' where m': "a4_read_aux lg True (length es) m1 (n + 1) (advance 4 cursor) = Inr (m', n + 1 + length es)"
    "aux_holds lg m' (G(s \<mapsto> v) ++ map_of es)"
    using Cons.IH [OF m1(2) dist disj mem rem, of "n + 1"] by blast
  have "a4_read_aux lg True (Suc (length es)) m n cursor = a4_read_aux lg True (length es) m1 (n + 1) (advance 4 cursor)"
    using rd P(1,3) get m1(1) by (simp only: a4_read_aux.simps Let_def insufficient_data_simps bind_res_simps
        prod.case slot coupon_is_empty_iff simp_thms if_False not_True_eq_False)
  moreover have "G(s \<mapsto> v) ++ map_of es = G ++ map_of (x # es)"
    using new(2) x by (simp add: map_add_upd_left dom_map_of_conv_image_fst)
  moreover have "n + 1 + length es = n + Suc (length es)" by simp
  ultimately show ?case using m' by (intro exI [of _ m']) (simp only: length_Cons simp_thms)
qed simp

lemma a4_read_back:
  assumes a: "a4_ok lg a" "order_ok (a4_estimator a)"
  defines "es \<equiv> case a4_aux_map a of Some m \<Rightarrow> aux_iter m | None \<Rightarrow> []"
  assumes rem: "remaining c = array_preamble (a4_estimator a) (a4_num_at_cur_min a) (of_nat (length es)) @
      a4_bytes a @ concat (map (\<lambda>(s, v). to_le_bytes (coupon_pack (of_nat s) v)) es)"
  shows "\<exists>a'. a4_deserialize c (a4_cur_min a) lg Compact_format (he_out_of_order (a4_estimator a)) = Inr a' \<and>
    a4_ok lg a' \<and> a4_abs a' = a4_abs a"
proof -
  define r where "r = a4_reg a"
  have core: "a4_core lg a r" and num: "a4_num_at_cur_min a = of_nat (at_min lg r (a4_cur_min a))"
    using a(1) by (simp_all add: a4_ok_def r_def)
  note H = a4_coreD [OF core]
  let ?F = "exceptions lg (a4_cur_min a) r"
  have es: "distinct (map fst es)" "map_of es = ?F" using aux_rel_exceptions [OF H(5)] by (simp_all add: es_def)
  have mem: "s < 2 ^ lg \<and> 0 < v \<and> v < 64" if "(s, v) \<in> set es" for s v
  proof -
    have "?F s = Some v" using that es map_of_is_SomeI by metis
    then have "s < 2 ^ lg" "unat (a4_cur_min a) + 15 \<le> unat v" "v = r s" by (auto simp: exceptions_def split: if_splits)
    then show ?thesis using H(7) [of s] by (simp add: word_less_nat_alt)
  qed
  have "length es = card (fst ` set es)" using distinct_card [OF es(1)] by simp
  also have "\<dots> \<le> card {..<(2 :: nat) ^ lg}" by (intro card_mono) (use mem in auto)
  finally have len: "length es \<le> 2 ^ lg" by simp
  note cnt = small_count [OF H(3) len] and num_le = small_count [OF H(3) at_min_le, of r "a4_cur_min a"] at_min_le [of lg r "a4_cur_min a"]
  note R = read_preamble [OF rem]
  have bytes: "read_exact (2 ^ (lg - 1)) (advance 32 c) = Some (a4_bytes a, advance (2 ^ (lg - 1)) (advance 32 c))"
    using R(6) H(4) by (simp add: read_exact_def)
  let ?c = "advance (2 ^ (lg - 1)) (advance 32 c)"
  have rem2: "remaining ?c = concat (map (\<lambda>(s, v). to_le_bytes (coupon_pack (of_nat s) v)) es) @ []"
    unfolding remaining_advance R(6) using H(4) by simp
  have lenr: "length (concat (map (\<lambda>(s, v). to_le_bytes (coupon_pack (of_nat s) v)) es)) = 4 * length es" for es
    by (induction es) auto
  have total: "length (remaining (advance 32 c)) = 2 ^ (lg - 1) + length es * 4"
    using R(6) H(4) lenr [of es] by simp
  have "(2 :: nat) ^ (lg - 1) \<le> 2 ^ 21" using H(3) by (intro power_increasing) simp_all
  then have small: "\<not> 2 ^ 64 \<le> 2 ^ (lg - 1) + length es * 4" using len lg_bound [OF H(3)] by simp
  obtain aux where aux: "(if (of_nat (length es) :: u32) = 0 then Inr None
      else bind_res (a4_read_aux lg True (length es) (aux_new lg) 0 ?c) (\<lambda>(aux, decoded_count).
        if decoded_count \<noteq> length es then Inl (InvalidData ''HLL4 auxiliary count mismatch'') else Inr (Some aux))) = Inr aux"
    "aux_rel lg aux ?F"
  proof (cases "es = []")
    case True
    then have "?F = Map.empty" using es(2) by simp
    then show ?thesis using that [of None] True by (simp add: aux_rel_def)
  next
    case False
    have nz: "(of_nat (length es) :: u32) \<noteq> 0" using cnt False by (metis length_0_conv unsigned_0)
    obtain m where "a4_read_aux lg True (length es) (aux_new lg) 0 ?c = Inr (m, 0 + length es)" "aux_holds lg m (Map.empty ++ map_of es)"
      using a4_read_aux_ok [OF aux_new_ok [OF H(2,3)] es(1) _ mem rem2, of 0] by auto
    then show ?thesis using that [of "Some m"] nz es(2) by (simp add: aux_rel_def)
  qed
  let ?a = "a\<lparr>a4_aux_map := aux\<rparr>"
  have core': "a4_core lg ?a r" using core aux(2) by (simp add: a4_core_def)
  have "a4_ok lg ?a" using a(1) core' unfolding a4_ok_def a4_core_reg [OF core'] r_def by simp
  moreover have "a4_abs ?a = a4_abs a" unfolding a4_abs_def a4_core_reg [OF core'] r_def by simp
  moreover have "a4_deserialize c (a4_cur_min a) lg Compact_format (he_out_of_order (a4_estimator a)) = Inr ?a"
  proof -
    have "unat (a4_num_at_cur_min a) \<le> 2 ^ lg" unfolding num num_le(1) by (rule num_le(2))
    then have guard: "\<not> (2 ^ lg < unat (a4_num_at_cur_min a) \<or> 2 ^ lg < unat (of_nat (length es) :: u32))"
      unfolding cnt using len by simp
    have short: "\<not> length (remaining (advance 32 c)) < 2 ^ (lg - 1) + length es * 4" unfolding total by simp
    show ?thesis
      unfolding a4_deserialize_def Let_def
      by (simp only: R(1-5) insufficient_data_simps bind_res_simps prod.case guard [unfolded cnt] if_False aux_format.case cnt COUPON_SIZE_BYTES_def
          small short bytes aux(1) restore_estimator_id [OF a(2)])
        (simp add: H(1))
  qed
  ultimately show ?thesis by blast
qed

section \<open>The sketch round trips\<close>

lemma header_reads:
  assumes "bs = [b0, b1, b2, b3, b4, b5, b6, b7] @ body"
  shows "read_u8 (new_slice bs) = Some (b0, advance 1 (new_slice bs))"
    "read_u8 (advance 1 (new_slice bs)) = Some (b1, advance 2 (new_slice bs))"
    "read_u8 (advance 2 (new_slice bs)) = Some (b2, advance 3 (new_slice bs))"
    "read_u8 (advance 3 (new_slice bs)) = Some (b3, advance 4 (new_slice bs))"
    "read_u8 (advance 4 (new_slice bs)) = Some (b4, advance 5 (new_slice bs))"
    "read_u8 (advance 5 (new_slice bs)) = Some (b5, advance 6 (new_slice bs))"
    "read_u8 (advance 6 (new_slice bs)) = Some (b6, advance 7 (new_slice bs))"
    "read_u8 (advance 7 (new_slice bs)) = Some (b7, advance 8 (new_slice bs))"
    "remaining (advance 8 (new_slice bs)) = body"
  using assms by (simp_all add: read_u8_at numeral_2_eq_2 [symmetric])

lemma mode_bytes [simp]:
  "extract_cur_mode (encode_mode_byte CUR_MODE_LIST (hll_type_u8 ty)) = CUR_MODE_LIST"
  "hll_type_of (extract_tgt_hll_type (encode_mode_byte CUR_MODE_LIST (hll_type_u8 ty))) = Inr ty"
  "extract_cur_mode (encode_mode_byte CUR_MODE_SET (hll_type_u8 ty)) = CUR_MODE_SET"
  "hll_type_of (extract_tgt_hll_type (encode_mode_byte CUR_MODE_SET (hll_type_u8 ty))) = Inr ty"
  "extract_cur_mode (encode_mode_byte CUR_MODE_HLL TGT_HLL4) = CUR_MODE_HLL"
  "extract_cur_mode (encode_mode_byte CUR_MODE_HLL TGT_HLL6) = CUR_MODE_HLL"
  "extract_cur_mode (encode_mode_byte CUR_MODE_HLL TGT_HLL8) = CUR_MODE_HLL"
  "hll_type_of (extract_tgt_hll_type (encode_mode_byte CUR_MODE_HLL TGT_HLL4)) = Inr Hll4"
  "hll_type_of (extract_tgt_hll_type (encode_mode_byte CUR_MODE_HLL TGT_HLL6)) = Inr Hll6"
  "hll_type_of (extract_tgt_hll_type (encode_mode_byte CUR_MODE_HLL TGT_HLL8)) = Inr Hll8"
  by (cases ty; simp add: extract_cur_mode_def encode_mode_byte_def extract_tgt_hll_type_def hll_type_u8_def hll_type_of_def
    CUR_MODE_LIST_def CUR_MODE_SET_def CUR_MODE_HLL_def TGT_HLL4_def TGT_HLL6_def TGT_HLL8_def)+

lemma mode_consts [simp]:
  "CUR_MODE_SET \<noteq> CUR_MODE_LIST" "CUR_MODE_HLL \<noteq> CUR_MODE_LIST" "CUR_MODE_HLL \<noteq> CUR_MODE_SET"
  by (simp_all add: CUR_MODE_LIST_def CUR_MODE_SET_def CUR_MODE_HLL_def)

lemma flag_masks [simp]: "COMPACT_FLAG_MASK \<noteq> 0" "EMPTY_FLAG_MASK \<noteq> 0" "OUT_OF_ORDER_FLAG_MASK \<noteq> 0"
  by (simp_all add: EMPTY_FLAG_MASK_def COMPACT_FLAG_MASK_def OUT_OF_ORDER_FLAG_MASK_def)

text \<open>The header of an image that the writer wrote, and the mode that the reader then reads\<close>

lemma hll_deserialize_header:
  assumes bs: "bs = [pre, HLL_SERIAL_VERSION, fam_id family_hll, of_nat lg, lg_arr, flags, state, mode_byte] @ body"
    and lg: "4 \<le> lg" "lg \<le> 21" and ty: "hll_type_of (extract_tgt_hll_type mode_byte) = Inr ty"
  shows "hll_deserialize bs =
    bind_res
      (if extract_cur_mode mode_byte = CUR_MODE_LIST then
         if pre \<noteq> LIST_PREINTS then Inl (InvalidData ''LIST mode preamble'')
         else if lg_arr \<noteq> 3 then Inl (InvalidData ''LIST mode lg_arr'')
         else bind_res (list_deserialize (advance 8 (new_slice bs)) (unat lg_arr) (unat state) (flags AND EMPTY_FLAG_MASK \<noteq> 0)
           (flags AND COMPACT_FLAG_MASK \<noteq> 0)) (\<lambda>l. Inr (ListMode l ty))
       else if extract_cur_mode mode_byte = CUR_MODE_SET then
         if pre \<noteq> HASH_SET_PREINTS then Inl (InvalidData ''SET mode preamble'')
         else if \<not> (5 \<le> unat lg_arr \<and> unat lg_arr \<le> lg - 3) then Inl (InvalidData ''SET mode lg_arr'')
         else bind_res (set_deserialize (advance 8 (new_slice bs)) (unat lg_arr) (flags AND COMPACT_FLAG_MASK \<noteq> 0))
           (\<lambda>t. Inr (SetMode t ty))
       else if extract_cur_mode mode_byte = CUR_MODE_HLL then
         if pre \<noteq> HLL_PREINTS then Inl (InvalidData ''HLL mode preamble'')
         else case ty of
           Hll4 \<Rightarrow> bind_res (a4_deserialize (advance 8 (new_slice bs)) state lg
               (aux_format_from_header (flags AND COMPACT_FLAG_MASK \<noteq> 0) lg_arr) (flags AND OUT_OF_ORDER_FLAG_MASK \<noteq> 0))
             (\<lambda>a. Inr (Array4Mode a))
         | Hll6 \<Rightarrow> bind_res (a6_deserialize_registers (advance 8 (new_slice bs)) lg (flags AND OUT_OF_ORDER_FLAG_MASK \<noteq> 0))
             (\<lambda>a. Inr (Array6Mode a))
         | Hll8 \<Rightarrow> bind_res (a8_deserialize_registers (advance 8 (new_slice bs)) lg (flags AND OUT_OF_ORDER_FLAG_MASK \<noteq> 0))
             (\<lambda>a. Inr (Array8Mode a))
       else Inl (InvalidData ''invalid mode'')) (\<lambda>mode. Inr \<lparr>hs_lg_config_k = lg, hs_mode = mode\<rparr>)"
proof -
  have u: "unat (of_nat lg :: u8) = lg" using lg by (simp add: unsigned_of_nat take_bit_nat_eq_self)
  note R = header_reads [OF bs]
  have ids: "validate_id family_hll (fam_id family_hll) = Inr ()"
    "ensure_serial_version_is HLL_SERIAL_VERSION HLL_SERIAL_VERSION = Inr ()"
    by (simp_all add: validate_id_def ensure_serial_version_is_def)
  have range: "(\<not> (4 \<le> lg \<and> lg \<le> 21)) = False" using lg by simp
  show ?thesis
    unfolding hll_deserialize_def Let_def
    by (simp only: R insufficient_data_simps bind_res_simps prod.case ids u range if_False ty)
qed

text \<open>
  Two sketches with the same content: the same list, hash sets of one size with the same coupons, or the same
  registers with the same estimator. (The order of a hash set's table or exception map may differ.)
\<close>

definition same_content :: "hll_sketch \<Rightarrow> hll_sketch \<Rightarrow> bool" where
  "same_content s t \<longleftrightarrow> hs_lg_config_k s = hs_lg_config_k t \<and> target_type s = target_type t \<and>
     (case sketch_abs s of
        Listed l \<Rightarrow> sketch_abs t = Listed l
      | Hashed u \<Rightarrow> (case sketch_abs t of
            Hashed v \<Rightarrow> hc_lg_size u = hc_lg_size v \<and> hc_len u = hc_len v \<and> set (container_iter u) = set (container_iter v)
          | _ \<Rightarrow> False)
      | Registers r \<Rightarrow> sketch_abs t = Registers r)"

lemma small_u8: "n < 256 \<Longrightarrow> unat (of_nat n :: u8) = n"
  by (simp add: unsigned_of_nat take_bit_nat_eq_self)

lemma order_flags [simp]:
  "(if b then OUT_OF_ORDER_FLAG_MASK else 0) AND OUT_OF_ORDER_FLAG_MASK \<noteq> 0 \<longleftrightarrow> b"
  "(if b then COMPACT_FLAG_MASK OR OUT_OF_ORDER_FLAG_MASK else COMPACT_FLAG_MASK) AND OUT_OF_ORDER_FLAG_MASK \<noteq> 0 \<longleftrightarrow> b"
  "(if b then COMPACT_FLAG_MASK OR OUT_OF_ORDER_FLAG_MASK else COMPACT_FLAG_MASK) AND COMPACT_FLAG_MASK \<noteq> 0"
  "((if b then EMPTY_FLAG_MASK else 0) OR COMPACT_FLAG_MASK) AND EMPTY_FLAG_MASK \<noteq> 0 \<longleftrightarrow> b"
  "((if b then EMPTY_FLAG_MASK else 0) OR COMPACT_FLAG_MASK) AND COMPACT_FLAG_MASK \<noteq> 0"
  by (simp_all add: EMPTY_FLAG_MASK_def COMPACT_FLAG_MASK_def OUT_OF_ORDER_FLAG_MASK_def)

lemmas write_simps = with_capacity_def into_bytes_def write_u8_def write_bytes_def
  u32_le_codec.wr_enc f64_le_codec.wr_enc u32_le_codec.wr_many

lemma list_mode_back:
  assumes lg: "4 \<le> lg" "lg \<le> 21" and l: "list_holds l C" "hc_lg_size l = 3" "card C < 8"
  shows "hll_deserialize (list_serialize l lg ty) = Inr \<lparr>hs_lg_config_k = lg, hs_mode = ListMode l ty\<rparr>"
proof -
  note F = list_holds_facts [OF l(1)] and lay = list_holds_layout [OF l(1)]
  let ?emp = "container_is_empty l"
  have nil: "?emp \<Longrightarrow> container_iter l = []" using lay(2) by (simp add: container_is_empty_def)
  have bs: "list_serialize l lg ty =
    [LIST_PREINTS, HLL_SERIAL_VERSION, fam_id family_hll, of_nat lg, of_nat (hc_lg_size l),
     (if ?emp then EMPTY_FLAG_MASK else 0) OR COMPACT_FLAG_MASK, of_nat (hc_len l),
     encode_mode_byte CUR_MODE_LIST (hll_type_u8 ty)] @ concat (map to_le_bytes (container_iter l))"
    using lay(2) nil by (simp add: list_serialize_def Let_def write_simps)
  have "hc_len l < 8" using F(1) l(3) by simp
  then have u: "unat (of_nat (hc_lg_size l) :: u8) = hc_lg_size l" "unat (of_nat (hc_len l) :: u8) = hc_len l"
    using l(2) small_u8 by simp_all
  have "(of_nat (hc_lg_size l) :: u8) = 3" by (simp add: l(2))
  then show ?thesis
    unfolding hll_deserialize_header [OF bs lg mode_bytes(2)] u order_flags
    using list_read_back [OF l(1), of "advance 8 (new_slice (list_serialize l lg ty))"] header_reads(9) [OF bs] by simp
qed

lemma set_mode_back:
  assumes lg: "4 \<le> lg" "lg \<le> 21" and t: "set_holds t C" "5 \<le> hc_lg_size t" "hc_lg_size t \<le> lg - 3" "4 * card C \<le> 3 * 2 ^ hc_lg_size t"
  shows "\<exists>t'. hll_deserialize (set_serialize t lg ty) = Inr \<lparr>hs_lg_config_k = lg, hs_mode = SetMode t' ty\<rparr> \<and>
    set_holds t' C \<and> hc_lg_size t' = hc_lg_size t"
proof -
  have bs: "set_serialize t lg ty =
    [HASH_SET_PREINTS, HLL_SERIAL_VERSION, fam_id family_hll, of_nat lg, of_nat (hc_lg_size t), COMPACT_FLAG_MASK, 0,
     encode_mode_byte CUR_MODE_SET (hll_type_u8 ty)] @
     (to_le_bytes (of_nat (hc_len t) :: u32) @ concat (map to_le_bytes (container_iter t)))"
    by (simp add: set_serialize_def Let_def write_simps)
  have u: "unat (of_nat (hc_lg_size t) :: u8) = hc_lg_size t" using lg t(3) by (intro small_u8) simp
  have "0 < (2 :: nat) ^ hc_lg_size t" by simp
  then have small: "card C < 2 ^ hc_lg_size t" using t(4) by linarith
  have le: "hc_lg_size t \<le> 21" using t(3) lg by simp
  obtain t' where t': "set_deserialize (advance 8 (new_slice (set_serialize t lg ty))) (hc_lg_size t) True = Inr t'"
    "set_holds t' C" "hc_lg_size t' = hc_lg_size t"
    using set_read_back [OF t(1) small le header_reads(9) [OF bs]] by blast
  have "hll_deserialize (set_serialize t lg ty) = Inr \<lparr>hs_lg_config_k = lg, hs_mode = SetMode t' ty\<rparr>"
    unfolding hll_deserialize_header [OF bs lg mode_bytes(4)] u using t(2,3) t'(1) by simp
  then show ?thesis using t' by blast
qed

lemma a8_mode_back:
  assumes lg: "4 \<le> lg" "lg \<le> 21" and a: "a8_ok lg a" "order_ok (a8_estimator a)"
  shows "hll_deserialize (a8_serialize a lg) = Inr \<lparr>hs_lg_config_k = lg, hs_mode = Array8Mode a\<rparr>"
proof -
  have bs: "a8_serialize a lg =
    [HLL_PREINTS, HLL_SERIAL_VERSION, fam_id family_hll, of_nat lg, 0,
     if he_out_of_order (a8_estimator a) then OUT_OF_ORDER_FLAG_MASK else 0, 0, encode_mode_byte CUR_MODE_HLL TGT_HLL8] @
     (array_preamble (a8_estimator a) (a8_num_zeros a) 0 @ a8_bytes a)"
    by (simp add: a8_serialize_def Let_def write_simps array_preamble_def)
  show ?thesis
    unfolding hll_deserialize_header [OF bs lg mode_bytes(10)] order_flags
    using a8_read_back [OF a(1) lg(2) a(2) header_reads(9) [OF bs]] by simp
qed

lemma a6_mode_back:
  assumes lg: "4 \<le> lg" "lg \<le> 21" and a: "a6_ok lg a" "order_ok (a6_estimator a)"
  shows "hll_deserialize (a6_serialize a lg) = Inr \<lparr>hs_lg_config_k = lg, hs_mode = Array6Mode a\<rparr>"
proof -
  have bs: "a6_serialize a lg =
    [HLL_PREINTS, HLL_SERIAL_VERSION, fam_id family_hll, of_nat lg, 0,
     if he_out_of_order (a6_estimator a) then OUT_OF_ORDER_FLAG_MASK else 0, 0, encode_mode_byte CUR_MODE_HLL TGT_HLL6] @
     (array_preamble (a6_estimator a) (a6_num_zeros a) 0 @ a6_bytes a)"
    by (simp add: a6_serialize_def Let_def write_simps array_preamble_def)
  show ?thesis
    unfolding hll_deserialize_header [OF bs lg mode_bytes(9)] order_flags
    using a6_read_back [OF a(1) lg(2) a(2) header_reads(9) [OF bs]] by simp
qed

lemma foldl_entries:
  "foldl (\<lambda>bytes (slot, v). write_u32_le bytes (f slot v)) bytes es = bytes @ concat (map (\<lambda>(s, v). to_le_bytes (f s v)) es)"
  by (induction es arbitrary: bytes) (auto simp: u32_le_codec.wr_enc)

lemma a4_mode_back:
  assumes lg: "4 \<le> lg" "lg \<le> 21" and a: "a4_ok lg a" "order_ok (a4_estimator a)"
  shows "\<exists>a'. hll_deserialize (a4_serialize a lg) = Inr \<lparr>hs_lg_config_k = lg, hs_mode = Array4Mode a'\<rparr> \<and>
    a4_ok lg a' \<and> a4_abs a' = a4_abs a"
proof -
  define es where "es = (case a4_aux_map a of Some m \<Rightarrow> aux_iter m | None \<Rightarrow> [])"
  have bs: "a4_serialize a lg =
    [HLL_PREINTS, HLL_SERIAL_VERSION, fam_id family_hll, of_nat lg, 0,
     if he_out_of_order (a4_estimator a) then COMPACT_FLAG_MASK OR OUT_OF_ORDER_FLAG_MASK else COMPACT_FLAG_MASK,
     a4_cur_min a, encode_mode_byte CUR_MODE_HLL TGT_HLL4] @
     (array_preamble (a4_estimator a) (a4_num_at_cur_min a) (of_nat (length es)) @ a4_bytes a @
       concat (map (\<lambda>(s, v). to_le_bytes (coupon_pack (of_nat s) v)) es))"
    unfolding a4_serialize_def Let_def es_def [symmetric] foldl_entries
    by (simp add: write_simps array_preamble_def)
  obtain a' where a': "a4_deserialize (advance 8 (new_slice (a4_serialize a lg))) (a4_cur_min a) lg Compact_format
      (he_out_of_order (a4_estimator a)) = Inr a'" "a4_ok lg a'" "a4_abs a' = a4_abs a"
    using a4_read_back [OF a header_reads(9) [OF bs, unfolded es_def]] by blast
  have "hll_deserialize (a4_serialize a lg) = Inr \<lparr>hs_lg_config_k = lg, hs_mode = Array4Mode a'\<rparr>"
    unfolding hll_deserialize_header [OF bs lg mode_bytes(8)] order_flags using a'(1) by (simp add: aux_format_from_header_def)
  then show ?thesis using a' by blast
qed

lemma hll_read_back:
  assumes ok: "sketch_ok s" and h: "spec_holds (hs_lg_config_k s) (sketch_abs s) C" and order: "in_order (sketch_abs s)"
  shows "\<exists>s'. hll_deserialize (hll_serialize s) = Inr s' \<and> sketch_ok s' \<and> same_content s s' \<and>
    hs_lg_config_k s' = hs_lg_config_k s \<and> target_type s' = target_type s \<and>
    spec_holds (hs_lg_config_k s) (sketch_abs s') C"
proof -
  let ?lg = "hs_lg_config_k s"
  have lg: "4 \<le> ?lg" "?lg \<le> 21" and mode: "mode_ok ?lg (hs_mode s)" using ok by (simp_all add: sketch_ok_def)
  have same: "\<lparr>hs_lg_config_k = ?lg, hs_mode = m\<rparr> = s" if "hs_mode s = m" for m using that by simp
  have equal: "same_content s s" unfolding same_content_def by (cases "sketch_abs s") simp_all
  have abs: "a4_abs a = (a4_reg a, a4_estimator a)" for a by (simp add: a4_abs_def)
  show ?thesis
  proof (cases "hs_mode s")
    case (ListMode l ty)
    then have "list_holds l C" "hc_lg_size l = 3" "card C < 8" using h by (simp_all add: spec_holds_def sketch_abs_def mode_abs_def)
    from list_mode_back [OF lg this, of ty] show ?thesis using ListMode ok h equal same by (simp add: hll_serialize_def)
  next
    case (SetMode t ty)
    then have t: "set_holds t C" "5 \<le> hc_lg_size t" "hc_lg_size t \<le> ?lg - 3" "4 * card C \<le> 3 * 2 ^ hc_lg_size t"
      using h by (simp_all add: spec_holds_def sketch_abs_def mode_abs_def)
    obtain t' where t': "hll_deserialize (set_serialize t ?lg ty) = Inr \<lparr>hs_lg_config_k = ?lg, hs_mode = SetMode t' ty\<rparr>"
      "set_holds t' C" "hc_lg_size t' = hc_lg_size t" using set_mode_back [OF lg t] by blast
    then show ?thesis using SetMode ok h set_holds_facts [OF t(1)] set_holds_facts [OF t'(2)]
      by (simp add: hll_serialize_def sketch_ok_def mode_ok_def same_content_def sketch_abs_def mode_abs_def spec_holds_def target_type_def)
  next
    case (Array4Mode a)
    then have a: "a4_ok ?lg a" "order_ok (a4_estimator a)" "spec_ok ?lg (a4_abs a)"
      using mode h order by (simp_all add: mode_ok_def a4.good_def spec_holds_def sketch_abs_def mode_abs_def abs in_order_def order_ok_def)
    obtain a' where "hll_deserialize (a4_serialize a ?lg) = Inr \<lparr>hs_lg_config_k = ?lg, hs_mode = Array4Mode a'\<rparr>"
      "a4_ok ?lg a'" "a4_abs a' = a4_abs a" using a4_mode_back [OF lg a(1,2)] by blast
    then show ?thesis using Array4Mode ok h a(3)
      by (simp add: hll_serialize_def sketch_ok_def mode_ok_def a4.good_def same_content_def sketch_abs_def mode_abs_def target_type_def)
  next
    case (Array6Mode a)
    then have "a6_ok ?lg a" "order_ok (a6_estimator a)"
      using mode h order by (simp_all add: mode_ok_def a6.good_def spec_holds_def sketch_abs_def mode_abs_def a6_abs_def in_order_def order_ok_def)
    from a6_mode_back [OF lg this] show ?thesis using Array6Mode ok h equal same by (simp add: hll_serialize_def)
  next
    case (Array8Mode a)
    then have "a8_ok ?lg a" "order_ok (a8_estimator a)"
      using mode h order by (simp_all add: mode_ok_def a8.good_def spec_holds_def sketch_abs_def mode_abs_def a8_abs_def in_order_def order_ok_def)
    from a8_mode_back [OF lg this] show ?thesis using Array8Mode ok h equal same by (simp add: hll_serialize_def)
  qed
qed

text \<open>
  C23. An HLL sketch survives its binary format: after any items and in any of its five modes, the reader accepts what
  the writer writes and gives a sketch of the same size, type and content - the same coupons, or the same registers
  and estimator - that represents the same set of coupons.
\<close>
theorem hll_round_trip:
  assumes "4 \<le> lg" and "lg \<le> 21"
  shows "\<exists>s0 s s'. hll_new lg ty = Inr s0 \<and> fold_res hll_update s0 items = Inr s \<and>
    hll_deserialize (hll_serialize s) = Inr s' \<and> same_content s s' \<and>
    represents lg (hs_mode s') (coupon_from_value ` set items)"
proof -
  obtain s0 s where s: "hll_new lg ty = Inr s0" "hll_update_all s0 (map coupon_from_value items) = Inr s" "sketch_ok s"
    "hs_lg_config_k s = lg" "spec_holds lg (sketch_abs s) (set (map coupon_from_value items))" "in_order (sketch_abs s)"
    using hll_stream [OF assms hll_items] by blast
  obtain s' where s': "hll_deserialize (hll_serialize s) = Inr s'" "sketch_ok s'" "same_content s s'" "hs_lg_config_k s' = lg"
    "spec_holds lg (sketch_abs s') (set (map coupon_from_value items))"
    using hll_read_back [OF s(3) _ s(6)] s(4,5) by auto
  then have "represents lg (hs_mode s') (set (map coupon_from_value items))" using sketch_represents [OF s'(2)] by simp
  then show ?thesis using s s' unfolding hll_update_items set_map by blast
qed

theorem hll_round_trip_witness:
  "\<exists>s0 s s'. hll_new 4 Hll4 = Inr s0 \<and> fold_res hll_update s0 [[[1, 2]], [[3]]] = Inr s \<and>
    hll_deserialize (hll_serialize s) = Inr s' \<and> same_content s s' \<and>
    represents 4 (hs_mode s') (coupon_from_value ` set [[[1, 2]], [[3]]])"
  by (rule hll_round_trip) simp_all

end
