(* ===== verification/HllUnion.thy ===== *)
theory HllUnion
  imports HllWire
begin

text \<open>
  The union of HLL sketches (\<open>src/datasketches/src/hll/union.rs\<close>) and the bulk merges of the array with 8 bits
  (\<open>array8.rs\<close>). Inputs may have any mode, target type and size. The union represents the
  coupons of all its inputs (\<open>hll_union_inv\<close>): an array of a smaller size lowers the size of the union, and folding
  the registers of an array onto fewer slots gives the registers of the same coupons at the smaller size. The composite
  estimate, which the conversion to another type compares, is an argument.
\<close>

section \<open>Bulk merges: \<open>array8.rs\<close>\<close>

definition a8_set_register :: "array8 \<Rightarrow> nat \<Rightarrow> u8 \<Rightarrow> array8 res" where
  "a8_set_register a slot v = bind_res (set_at (a8_bytes a) slot v) (\<lambda>bytes. Inr (a\<lparr>a8_bytes := bytes\<rparr>))"

text \<open>\<open>1u64 << val\<close> masks the shift to 6 bits.\<close>

definition inverse_shift :: "u8 \<Rightarrow> f64" where
  "inverse_shift v = f64_div (f64_of_nat 1) (f64_of_nat (2 ^ (unat v mod 64)))"

definition a8_rebuild_cached_values :: "array8 \<Rightarrow> array8" where
  "a8_rebuild_cached_values a =
     (let num_zeros = of_nat (length (filter (\<lambda>v. v = 0) (a8_bytes a)));
          (kxq0_sum, kxq1_sum) = foldl (\<lambda>(kxq0, kxq1) v.
            if v = 0 then (f64_add kxq0 (f64_of_nat 1), kxq1)
            else if v < 32 then (f64_add kxq0 (inverse_shift v), kxq1)
            else (kxq0, f64_add kxq1 (inverse_shift v))) (0, 0) (a8_bytes a);
          estimator = set_kxq1 (set_kxq0 (a8_estimator a) kxq0_sum) kxq1_sum
      in a\<lparr>a8_num_zeros := num_zeros, a8_estimator := estimator\<rparr>)"

definition a8_rebuild_estimator_from_registers :: "array8 \<Rightarrow> array8" where
  "a8_rebuild_estimator_from_registers a =
     (let a = a8_rebuild_cached_values a in a\<lparr>a8_estimator := set_out_of_order (a8_estimator a) True\<rparr>)"

definition a8_merge_array_same_lgk :: "array8 \<Rightarrow> u8 list \<Rightarrow> array8 res" where
  "a8_merge_array_same_lgk a src =
     (if length src \<noteq> length (a8_bytes a) then Inl (Panic ''Source and destination must have same lg_k'')
      else bind_res (fold_res (\<lambda>bytes (i, val).
             bind_res (get_at bytes i) (\<lambda>old. set_at bytes i (max old val))) (a8_bytes a) (enumerate 0 src)) (\<lambda>bytes.
        let a = a8_rebuild_cached_values (a\<lparr>a8_bytes := bytes\<rparr>)
        in Inr (a\<lparr>a8_estimator := set_out_of_order (a8_estimator a) True\<rparr>)))"

definition a8_merge_array_with_downsample :: "array8 \<Rightarrow> u8 list \<Rightarrow> nat \<Rightarrow> array8 res" where
  "a8_merge_array_with_downsample a src src_lg_k =
     (if \<not> a8_lg_config_k a < src_lg_k
      then Inl (Panic ''Source lg_k must be greater than destination lg_k for downsampling'')
      else if length src \<noteq> 2 ^ src_lg_k then Inl (Panic ''Source length must match 2^src_lg_k'')
      else
        let dst_mask = 2 ^ a8_lg_config_k a - 1
        in bind_res (fold_res (\<lambda>bytes (src_slot, val).
             let dst_slot = src_slot AND dst_mask
             in bind_res (get_at bytes dst_slot) (\<lambda>old. set_at bytes dst_slot (max old val))) (a8_bytes a) (enumerate 0 src)) (\<lambda>bytes.
           let a = a8_rebuild_cached_values (a\<lparr>a8_bytes := bytes\<rparr>)
           in Inr (a\<lparr>a8_estimator := set_out_of_order (a8_estimator a) True\<rparr>)))"

section \<open>Helpers: \<open>union.rs\<close>\<close>

definition merge_array46_same_lgk :: "array8 \<Rightarrow> nat \<Rightarrow> (nat \<Rightarrow> u8 res) \<Rightarrow> array8 res" where
  "merge_array46_same_lgk dst num_registers get_value =
     bind_res (fold_res (\<lambda>dst slot.
        bind_res (get_value slot) (\<lambda>val.
        bind_res (get_at (a8_bytes dst) slot) (\<lambda>current.
          if current < val then a8_set_register dst slot val else Inr dst))) dst [0..<num_registers]) (\<lambda>dst.
     Inr (a8_rebuild_estimator_from_registers dst))"

definition merge_array_same_lgk :: "array8 \<Rightarrow> hll_mode \<Rightarrow> array8 res" where
  "merge_array_same_lgk dst src_mode =
     (case src_mode of
        Array8Mode src \<Rightarrow> a8_merge_array_same_lgk dst (a8_bytes src)
      | Array6Mode src \<Rightarrow> merge_array46_same_lgk dst (2 ^ a6_lg_config_k src) (a6_get_raw src)
      | Array4Mode src \<Rightarrow> merge_array46_same_lgk dst (2 ^ a4_lg_config_k src) (a4_get src)
      | _ \<Rightarrow> Inl (Panic ''merge_array_same_lgk called with non-array mode''))"

definition merge_array46_with_downsample :: "array8 \<Rightarrow> nat \<Rightarrow> nat \<Rightarrow> (nat \<Rightarrow> u8 res) \<Rightarrow> array8 res" where
  "merge_array46_with_downsample dst dst_lg_k num_registers get_value =
     (let dst_mask = 2 ^ dst_lg_k - 1
      in bind_res (fold_res (\<lambda>dst src_slot.
           bind_res (get_value src_slot) (\<lambda>val.
             if 0 < val then
               let dst_slot = src_slot AND dst_mask
               in bind_res (get_at (a8_bytes dst) dst_slot) (\<lambda>current.
                    if current < val then a8_set_register dst dst_slot val else Inr dst)
             else Inr dst)) dst [0..<num_registers]) (\<lambda>dst.
         Inr (a8_rebuild_estimator_from_registers dst)))"

definition merge_array_with_downsample :: "array8 \<Rightarrow> nat \<Rightarrow> hll_mode \<Rightarrow> nat \<Rightarrow> array8 res" where
  "merge_array_with_downsample dst dst_lg_k src_mode src_lg_k =
     (if \<not> dst_lg_k < src_lg_k then Inl (Panic ''merge_array_with_downsample requires src_lg_k > dst_lg_k'')
      else case src_mode of
        Array8Mode src \<Rightarrow> a8_merge_array_with_downsample dst (a8_bytes src) src_lg_k
      | Array6Mode src \<Rightarrow> merge_array46_with_downsample dst dst_lg_k (2 ^ a6_lg_config_k src) (a6_get_raw src)
      | Array4Mode src \<Rightarrow> merge_array46_with_downsample dst dst_lg_k (2 ^ a4_lg_config_k src) (a4_get src)
      | _ \<Rightarrow> Inl (Panic ''merge_array_with_downsample called with non-array mode''))"

definition merge_array_into_array8 :: "array8 \<Rightarrow> nat \<Rightarrow> hll_mode \<Rightarrow> nat \<Rightarrow> array8 res" where
  "merge_array_into_array8 dst dst_lg_k src_mode src_lg_k =
     (if \<not> dst_lg_k \<le> src_lg_k then Inl (Panic ''merge_array_into_array8 requires src_lg_k >= dst_lg_k'')
      else if dst_lg_k = src_lg_k then merge_array_same_lgk dst src_mode
      else merge_array_with_downsample dst dst_lg_k src_mode src_lg_k)"

definition get_array_hip_accum :: "hll_mode \<Rightarrow> f64 res" where
  "get_array_hip_accum m =
     (case m of
        Array8Mode src \<Rightarrow> Inr (he_hip_accum (a8_estimator src))
      | Array6Mode src \<Rightarrow> Inr (he_hip_accum (a6_estimator src))
      | Array4Mode src \<Rightarrow> Inr (he_hip_accum (a4_estimator src))
      | _ \<Rightarrow> Inl (Panic ''get_array_hip_accum called with non-array mode''))"

definition copy_array46_via_coupons :: "array8 \<Rightarrow> nat \<Rightarrow> (nat \<Rightarrow> u8 res) \<Rightarrow> array8 res" where
  "copy_array46_via_coupons dst num_registers get_value =
     fold_res (\<lambda>dst slot.
       bind_res (get_value slot) (\<lambda>val.
         if 0 < val then a8_update dst (coupon_pack (of_nat slot) val) else Inr dst)) dst [0..<num_registers]"

definition copy_or_downsample :: "hll_mode \<Rightarrow> nat \<Rightarrow> nat \<Rightarrow> array8 res" where
  "copy_or_downsample src_mode src_lg_k tgt_lg_k =
     (if src_lg_k \<le> tgt_lg_k then
        let result = a8_new src_lg_k
        in bind_res (get_array_hip_accum src_mode) (\<lambda>src_hip.
           bind_res
             (case src_mode of
                Array8Mode src \<Rightarrow> a8_merge_array_same_lgk result (a8_bytes src)
              | Array6Mode src \<Rightarrow> copy_array46_via_coupons result (2 ^ a6_lg_config_k src) (a6_get_raw src)
              | Array4Mode src \<Rightarrow> copy_array46_via_coupons result (2 ^ a4_lg_config_k src) (a4_get src)
              | _ \<Rightarrow> Inl (Panic ''copy_or_downsample called with non-array mode'')) (\<lambda>result.
             Inr (a8_set_hip_accum result src_hip)))
      else merge_array_with_downsample (a8_new tgt_lg_k) tgt_lg_k src_mode src_lg_k)"

definition merge_coupons_into_gadget :: "hll_sketch \<Rightarrow> hll_mode \<Rightarrow> hll_sketch res" where
  "merge_coupons_into_gadget gadget src_mode =
     (case src_mode of
        ListMode l _ \<Rightarrow> fold_res update_with_coupon gadget (container_iter l)
      | SetMode t _ \<Rightarrow> fold_res update_with_coupon gadget (container_iter t)
      | _ \<Rightarrow> Inl (Panic ''merge_coupons_into_gadget called with array mode''))"

definition merge_coupons_into_mode :: "array8 \<Rightarrow> hll_mode \<Rightarrow> array8 res" where
  "merge_coupons_into_mode dst src_mode =
     (case src_mode of
        ListMode l _ \<Rightarrow> fold_res a8_update dst (container_iter l)
      | SetMode t _ \<Rightarrow> fold_res a8_update dst (container_iter t)
      | _ \<Rightarrow> Inl (Panic ''merge_coupons_into_mode called with array mode''))"

definition convert_coupon_mode_to_hll8 :: "hll_mode \<Rightarrow> nat \<Rightarrow> hll_sketch res" where
  "convert_coupon_mode_to_hll8 src_mode src_lg_k =
     (case src_mode of
        ListMode l _ \<Rightarrow> Inr (hll_from_mode src_lg_k (ListMode l Hll8))
      | SetMode t _ \<Rightarrow> Inr (hll_from_mode src_lg_k (SetMode t Hll8))
      | _ \<Rightarrow> Inl (Panic ''convert_coupon_mode_to_hll8 called with non-coupon mode''))"

definition convert_array8_to_type ::
  "(hip_estimator \<Rightarrow> nat \<Rightarrow> nat \<Rightarrow> nat \<Rightarrow> f64) \<Rightarrow> array8 \<Rightarrow> nat \<Rightarrow> hll_type \<Rightarrow> hll_sketch res" where
  "convert_array8_to_type composite src lg_config_k tgt =
     (case tgt of
        Hll8 \<Rightarrow> Inr (hll_from_mode lg_config_k (Array8Mode src))
      | Hll6 \<Rightarrow>
          bind_res (fold_res (\<lambda>array slot.
             bind_res (get_at (a8_bytes src) slot) (\<lambda>val.
               if 0 < val then a6_update array (coupon_pack (of_nat slot) (min val 63)) else Inr array))
             (a6_new lg_config_k) [0..<2 ^ a8_lg_config_k src]) (\<lambda>array6.
           let src_est = hip_estimate composite (a8_estimator src) (a8_lg_config_k src) 0 (unat (a8_num_zeros src));
               arr6_est = hip_estimate composite (a6_estimator array6) (a6_lg_config_k array6) 0 (unat (a6_num_zeros array6));
               array6 = (if f64_less arr6_est src_est then a6_set_hip_accum array6 src_est else array6)
           in Inr (hll_from_mode lg_config_k (Array6Mode array6)))
      | Hll4 \<Rightarrow>
          bind_res (fold_res (\<lambda>array slot.
             bind_res (get_at (a8_bytes src) slot) (\<lambda>val.
               if 0 < val then a4_update array (coupon_pack (of_nat slot) val) else Inr array))
             (a4_new lg_config_k) [0..<2 ^ a8_lg_config_k src]) (\<lambda>array4.
           let src_est = hip_estimate composite (a8_estimator src) (a8_lg_config_k src) 0 (unat (a8_num_zeros src));
               arr4_est = hip_estimate composite (a4_estimator array4) (a4_lg_config_k array4) (unat (a4_cur_min array4))
                 (unat (a4_num_at_cur_min array4));
               array4 = (if f64_less arr4_est src_est then a4_set_hip_accum array4 src_est else array4)
           in Inr (hll_from_mode lg_config_k (Array4Mode array4))))"

section \<open>The union\<close>

record hll_union =
  hu_lg_max_k :: nat
  hu_gadget :: hll_sketch

definition hll_union_new :: "nat \<Rightarrow> hll_union res" where
  "hll_union_new lg_max_k =
     (if 4 \<le> lg_max_k \<and> lg_max_k \<le> 21
      then bind_res (hll_new lg_max_k Hll8) (\<lambda>gadget. Inr \<lparr>hu_lg_max_k = lg_max_k, hu_gadget = gadget\<rparr>)
      else Inl (Panic ''lg_max_k must be in [4, 21]''))"

definition hll_union_update_value :: "hll_union \<Rightarrow> u8 list list \<Rightarrow> hll_union res" where
  "hll_union_update_value u v = bind_res (hll_update (hu_gadget u) v) (\<lambda>g. Inr (u\<lparr>hu_gadget := g\<rparr>))"

definition update_from_list_or_set :: "hll_union \<Rightarrow> hll_sketch \<Rightarrow> hll_mode \<Rightarrow> nat \<Rightarrow> nat \<Rightarrow> hll_union res" where
  "update_from_list_or_set u sketch src_mode src_lg_k dst_lg_k =
     (if hll_is_empty (hu_gadget u) \<and> src_lg_k = dst_lg_k then
        if target_type sketch = Hll8 then Inr (u\<lparr>hu_gadget := sketch\<rparr>)
        else bind_res (convert_coupon_mode_to_hll8 src_mode src_lg_k) (\<lambda>g. Inr (u\<lparr>hu_gadget := g\<rparr>))
      else bind_res (merge_coupons_into_gadget (hu_gadget u) src_mode) (\<lambda>g. Inr (u\<lparr>hu_gadget := g\<rparr>)))"

definition merge_array_into_array_gadget :: "hll_union \<Rightarrow> hll_mode \<Rightarrow> nat \<Rightarrow> nat \<Rightarrow> hll_union res" where
  "merge_array_into_array_gadget u src_mode src_lg_k dst_lg_k =
     (case hs_mode (hu_gadget u) of
        Array8Mode gadget \<Rightarrow>
          if src_lg_k < dst_lg_k then
            bind_res (merge_array_with_downsample (a8_new src_lg_k) src_lg_k (Array8Mode gadget) dst_lg_k) (\<lambda>new_array.
            bind_res (merge_array_same_lgk new_array src_mode) (\<lambda>new_array.
              Inr (u\<lparr>hu_gadget := hll_from_mode src_lg_k (Array8Mode new_array)\<rparr>)))
          else
            bind_res (merge_array_into_array8 gadget dst_lg_k src_mode src_lg_k) (\<lambda>dst_array.
              Inr (u\<lparr>hu_gadget := (hu_gadget u)\<lparr>hs_mode := Array8Mode dst_array\<rparr>\<rparr>))
      | _ \<Rightarrow> Inl (Panic ''gadget mode changed unexpectedly; should never be Array4/Array6''))"

text \<open>\<open>new_array.num_registers().trailing_zeros()\<close>: the register count is \<open>1 << lg_config_k\<close>.\<close>

definition a8_final_lg_k :: "array8 \<Rightarrow> nat" where
  "a8_final_lg_k a = a8_lg_config_k a"

definition promote_gadget_and_merge_array :: "hll_union \<Rightarrow> hll_mode \<Rightarrow> nat \<Rightarrow> hll_union res" where
  "promote_gadget_and_merge_array u src_mode src_lg_k =
     bind_res (copy_or_downsample src_mode src_lg_k (hu_lg_max_k u)) (\<lambda>new_array.
     bind_res (merge_coupons_into_mode new_array (hs_mode (hu_gadget u))) (\<lambda>new_array.
       Inr (u\<lparr>hu_gadget := hll_from_mode (a8_final_lg_k new_array) (Array8Mode new_array)\<rparr>)))"

definition update_from_array :: "hll_union \<Rightarrow> hll_mode \<Rightarrow> nat \<Rightarrow> nat \<Rightarrow> hll_union res" where
  "update_from_array u src_mode src_lg_k dst_lg_k =
     (if hll_is_empty (hu_gadget u) then
        bind_res (copy_or_downsample src_mode src_lg_k (hu_lg_max_k u)) (\<lambda>new_array.
          Inr (u\<lparr>hu_gadget := hll_from_mode (a8_final_lg_k new_array) (Array8Mode new_array)\<rparr>))
      else case hs_mode (hu_gadget u) of
        Array8Mode _ \<Rightarrow> merge_array_into_array_gadget u src_mode src_lg_k dst_lg_k
      | _ \<Rightarrow> promote_gadget_and_merge_array u src_mode src_lg_k)"

definition hll_union_update :: "hll_union \<Rightarrow> hll_sketch \<Rightarrow> hll_union res" where
  "hll_union_update u sketch =
     (if hll_is_empty sketch then Inr u
      else
        let src_lg_k = hs_lg_config_k sketch;
            dst_lg_k = hs_lg_config_k (hu_gadget u);
            src_mode = hs_mode sketch
        in case src_mode of
             ListMode _ _ \<Rightarrow> update_from_list_or_set u sketch src_mode src_lg_k dst_lg_k
           | SetMode _ _ \<Rightarrow> update_from_list_or_set u sketch src_mode src_lg_k dst_lg_k
           | _ \<Rightarrow> update_from_array u src_mode src_lg_k dst_lg_k)"

definition hll_union_to_sketch ::
  "(hip_estimator \<Rightarrow> nat \<Rightarrow> nat \<Rightarrow> nat \<Rightarrow> f64) \<Rightarrow> hll_union \<Rightarrow> hll_type \<Rightarrow> hll_sketch res" where
  "hll_union_to_sketch composite u hll_type =
     (let gadget = hu_gadget u
      in if hll_type = target_type gadget then Inr gadget
         else case hs_mode gadget of
           ListMode l _ \<Rightarrow> Inr (hll_from_mode (hs_lg_config_k gadget) (ListMode l hll_type))
         | SetMode t _ \<Rightarrow> Inr (hll_from_mode (hs_lg_config_k gadget) (SetMode t hll_type))
         | Array8Mode array8 \<Rightarrow> convert_array8_to_type composite array8 (hs_lg_config_k gadget) hll_type
         | _ \<Rightarrow> Inl (Panic ''gadget mode changed unexpectedly; should never be Array4/Array6''))"

definition hll_union_is_empty :: "hll_union \<Rightarrow> bool" where
  "hll_union_is_empty u = hll_is_empty (hu_gadget u)"

definition hll_union_reset :: "hll_union \<Rightarrow> hll_union res" where
  "hll_union_reset u = bind_res (hll_new (hu_lg_max_k u) Hll8) (\<lambda>g. Inr (u\<lparr>hu_gadget := g\<rparr>))"

definition hll_union_estimate :: "(hip_estimator \<Rightarrow> nat \<Rightarrow> nat \<Rightarrow> nat \<Rightarrow> f64) \<Rightarrow> hll_union \<Rightarrow> f64" where
  "hll_union_estimate composite u = hll_estimate composite (hu_gadget u)"

section \<open>The rebuilt sums are exact\<close>

lemma f64_val_pos: "0 < f64_val x \<Longrightarrow> \<not> f64_negative x \<and> f64_magnitude x = f64_val x"
proof -
  have "0 \<le> f64_magnitude x" by (simp add: f64_magnitude_def)
  then show "0 < f64_val x \<Longrightarrow> \<not> f64_negative x \<and> f64_magnitude x = f64_val x"
    by (cases "f64_negative x") (simp_all add: f64_val_def)
qed

lemma f64_div_exact:
  assumes "f64_number x" "f64_number y" and "0 < f64_val x" "0 < f64_val y"
    and q: "f64_val x / f64_val y = of_int m * pow2 q" and m: "0 < m" "m < 2 ^ 53" "- 1074 \<le> q" "q \<le> 900"
  shows "f64_val (f64_div x y) = of_int m * pow2 q" and "f64_number (f64_div x y)"
proof -
  note x = f64_val_pos [OF assms(3)] and y = f64_val_pos [OF assms(4)]
  have div: "f64_div x y = f64_round_magnitude (of_int m * pow2 q)"
    using assms(1-4) x y q by (simp add: f64_div_def Let_def f64_sign_bit_def)
  note R = f64_round_magnitude_exact [OF m]
  show "f64_val (f64_div x y) = of_int m * pow2 q" unfolding div f64_val_def using R(1,3) by simp
  show "f64_number (f64_div x y)" unfolding div by (rule R(2))
qed

lemma inverse_of_power: "1 / of_nat (2 ^ n) = of_int 1 * pow2 (- int n)"
  by (simp add: power_int_minus field_simps)

lemma inverse_power_val:
  assumes n: "n < 64"
  shows "f64_val (f64_div (f64_of_nat 1) (f64_of_nat (2 ^ n))) = pow2 (- int n) \<and>
    f64_number (f64_div (f64_of_nat 1) (f64_of_nat (2 ^ n)))"
proof -
  have one: "f64_val (f64_of_nat 1) = 1" "f64_number (f64_of_nat 1)"
    using f64_of_nat_exact [of 1] by simp_all
  have "f64_exact (of_nat (2 ^ n))"
    unfolding f64_exact_def
  proof (intro exI conjI)
    show "of_nat (2 ^ n) = of_int 1 * pow2 (int n)" by simp
  qed (use n in simp_all)
  from f64_round_exact [OF this] have two: "f64_val (f64_of_nat (2 ^ n)) = of_nat (2 ^ n)" "f64_number (f64_of_nat (2 ^ n))"
    by (simp_all add: f64_of_nat_def)
  have q: "f64_val (f64_of_nat 1) / f64_val (f64_of_nat (2 ^ n)) = of_int 1 * pow2 (- int n)"
    unfolding one two by (rule inverse_of_power)
  have "0 < f64_val (f64_of_nat 1)" "0 < f64_val (f64_of_nat (2 ^ n))" unfolding one two by simp_all
  from f64_div_exact [OF one(2) two(2) this q] show ?thesis using n by simp
qed

lemma inverse_shift_val:
  assumes "v < 64"
  shows "f64_val (inverse_shift v) = pow2 (- int (unat v))" and "f64_number (inverse_shift v)"
proof -
  have v: "unat v < 64" using assms by (simp add: word_less_nat_alt)
  then have "unat v mod 64 = unat v" by simp
  then show "f64_val (inverse_shift v) = pow2 (- int (unat v))" "f64_number (inverse_shift v)"
    unfolding inverse_shift_def using inverse_power_val [OF v] by simp_all
qed

lemma scaled_inverse_shift:
  "v < 32 \<Longrightarrow> scaled (- 31) (share0 v) (inverse_shift v)"
  "\<not> v < 32 \<Longrightarrow> v < 64 \<Longrightarrow> scaled (- 63) (share1 v) (inverse_shift v)"
proof -
  have same: "scaled q n (inverse_shift v)" if "scaled q n (inv_pow2 v)" "v < 64" for q n v
    using that inverse_shift_val [OF that(2)] inv_pow2_val(1) [of v] by (simp add: scaled_def)
  have "v < 32 \<Longrightarrow> v < 64" by (simp add: word_less_nat_alt)
  then show "v < 32 \<Longrightarrow> scaled (- 31) (share0 v) (inverse_shift v)" using scaled_inv_pow2(1) [of v] same by blast
  show "\<not> v < 32 \<Longrightarrow> v < 64 \<Longrightarrow> scaled (- 63) (share1 v) (inverse_shift v)" using scaled_inv_pow2(2) [of v] same by blast
qed

definition kxq_step_of :: "f64 \<times> f64 \<Rightarrow> u8 \<Rightarrow> f64 \<times> f64" where
  "kxq_step_of = (\<lambda>(kxq0, kxq1) v.
     if v = 0 then (f64_add kxq0 (f64_of_nat 1), kxq1)
     else if v < 32 then (f64_add kxq0 (inverse_shift v), kxq1)
     else (kxq0, f64_add kxq1 (inverse_shift v)))"

lemma sum_list_bound: "(\<And>x. f x \<le> (b :: nat)) \<Longrightarrow> sum_list (map f xs) \<le> length xs * b"
proof (induction xs)
  case (Cons x xs)
  then have "sum_list (map f xs) \<le> length xs * b" "f x \<le> b" by simp_all
  then show ?case by simp
qed simp

lemma kxq_fold:
  assumes "length bs \<le> 2 ^ 21" and "\<And>v. v \<in> set bs \<Longrightarrow> v < 64"
  shows "\<exists>k0 k1. foldl kxq_step_of (0, 0) bs = (k0, k1) \<and>
    scaled (- 31) (sum_list (map share0 bs)) k0 \<and> scaled (- 63) (sum_list (map share1 bs)) k1"
  using assms
proof (induction bs rule: rev_induct)
  case Nil
  then show ?case by (simp add: scaled_def)
next
  case (snoc v bs)
  have len: "length bs + 1 \<le> 2 ^ 21" and v: "v < 64" using snoc.prems by simp_all
  obtain k0 k1 where k: "foldl kxq_step_of (0, 0) bs = (k0, k1)"
    "scaled (- 31) (sum_list (map share0 bs)) k0" "scaled (- 63) (sum_list (map share1 bs)) k1"
    using snoc.IH len snoc.prems(2) by auto
  have b: "sum_list (map share0 bs) + share0 v < 2 ^ 53" "sum_list (map share1 bs) + share1 v < 2 ^ 53"
    using sum_list_bound [where f = share0 and xs = bs, OF share_bounds(1)]
      sum_list_bound [where f = share1 and xs = bs, OF share_bounds(2)] share_bounds [of v] len
    by simp_all
  show ?case
  proof (cases "v < 32")
    case True
    have x: "scaled (- 31) (share0 v) (if v = 0 then f64_of_nat 1 else inverse_shift v)"
    proof (cases "v = 0")
      case zero: True
      have "f64_val (f64_of_nat 1) = 1" "f64_number (f64_of_nat 1)" using f64_of_nat_exact [of 1] by simp_all
      then show ?thesis using zero by (simp add: scaled_def share0_def power_int_minus)
    qed (use scaled_inverse_shift(1) True in simp)
    have "share1 v = 0" using True by (simp add: share1_def)
    moreover have "scaled (- 31) (sum_list (map share0 bs) + share0 v) (f64_add k0 (if v = 0 then f64_of_nat 1 else inverse_shift v))"
      by (rule scaled_add [OF k(2) x b(1)]) simp_all
    ultimately show ?thesis using k True by (auto simp: kxq_step_of_def)
  next
    case False
    then have nz: "v \<noteq> 0" by auto
    have "share0 v = 0" using False by (simp add: share0_def)
    moreover have "scaled (- 63) (sum_list (map share1 bs) + share1 v) (f64_add k1 (inverse_shift v))"
      by (rule scaled_add [OF k(3) scaled_inverse_shift(2) [OF False v] b(2)]) simp_all
    ultimately show ?thesis using k False nz by (simp add: kxq_step_of_def)
  qed
qed

text \<open>An array of the right shape becomes well formed when its estimator is rebuilt.\<close>

definition a8_shape :: "nat \<Rightarrow> array8 \<Rightarrow> bool" where
  "a8_shape lg a \<longleftrightarrow> a8_lg_config_k a = lg \<and> length (a8_bytes a) = 2 ^ lg \<and> (\<forall>v \<in> set (a8_bytes a). v < 64)"

lemma rebuild_kxq:
  assumes "a8_shape lg a" and "lg \<le> 21"
  shows "kxq_ok (a8_estimator (a8_rebuild_cached_values a)) (2 ^ lg) (a8_reg a)"
proof -
  have len: "length (a8_bytes a) = 2 ^ lg" and v: "\<And>v. v \<in> set (a8_bytes a) \<Longrightarrow> v < 64" using assms(1) by (simp_all add: a8_shape_def)
  have "length (a8_bytes a) \<le> 2 ^ 21" using len lg_bound [OF assms(2)] by simp
  then obtain k0 k1 where k: "foldl kxq_step_of (0, 0) (a8_bytes a) = (k0, k1)"
    "scaled (- 31) (sum_list (map share0 (a8_bytes a))) k0" "scaled (- 63) (sum_list (map share1 (a8_bytes a))) k1"
    using kxq_fold v by blast
  have sum: "sum_list (map f (a8_bytes a)) = (\<Sum>s<2 ^ lg. f (a8_reg a s))" for f :: "u8 \<Rightarrow> nat"
    by (simp add: sum_list_sum_nth len a8_reg_def atLeast0LessThan)
  have "he_kxq0 (a8_estimator (a8_rebuild_cached_values a)) = k0" "he_kxq1 (a8_estimator (a8_rebuild_cached_values a)) = k1"
    using k(1) by (simp_all add: a8_rebuild_cached_values_def Let_def kxq_step_of_def [symmetric] set_kxq0_def set_kxq1_def)
  then show ?thesis using k(2,3) unfolding kxq_ok_def sum by simp
qed

lemma rebuild_simps [simp]:
  "a8_bytes (a8_rebuild_cached_values a) = a8_bytes a" "a8_lg_config_k (a8_rebuild_cached_values a) = a8_lg_config_k a"
  "a8_num_zeros (a8_rebuild_cached_values a) = of_nat (length (filter (\<lambda>v. v = 0) (a8_bytes a)))"
  "a8_bytes (a8_rebuild_estimator_from_registers a) = a8_bytes a"
  by (simp_all add: a8_rebuild_cached_values_def a8_rebuild_estimator_from_registers_def Let_def split: prod.split)

lemma rebuild_good:
  assumes "a8_shape lg a" and "4 \<le> lg" "lg \<le> 21"
  shows "a8.good lg (a8_rebuild_estimator_from_registers a)" and "a8_reg (a8_rebuild_estimator_from_registers a) = a8_reg a"
proof -
  let ?a = "a8_rebuild_estimator_from_registers a"
  show reg: "a8_reg ?a = a8_reg a" by (simp add: a8_reg_def fun_eq_iff)
  have len: "length (a8_bytes a) = 2 ^ lg" and v: "\<And>v. v \<in> set (a8_bytes a) \<Longrightarrow> v < 64" using assms(1) by (simp_all add: a8_shape_def)
  have "{i. i < length (a8_bytes a) \<and> a8_bytes a ! i = 0} = {s. s < 2 ^ lg \<and> a8_reg a s = 0}"
    using len by (auto simp: a8_reg_def)
  then have zeros: "length (filter (\<lambda>v. v = 0) (a8_bytes a)) = card {s. s < 2 ^ lg \<and> a8_reg a s = 0}"
    by (simp add: length_filter_conv_card)
  have ok: "a8_ok lg ?a" using assms(1) zeros unfolding a8_ok_def reg
    by (simp add: a8_rebuild_estimator_from_registers_def Let_def a8_shape_def)
  have small: "a8_reg a s < 64" for s using len v by (simp add: a8_reg_def)
  have "kxq_ok (a8_estimator ?a) (2 ^ lg) (a8_reg a)"
    using rebuild_kxq [OF assms(1,3)] by (simp add: a8_rebuild_estimator_from_registers_def Let_def set_out_of_order_def kxq_ok_def)
  then have "spec_ok lg (a8_abs ?a)" using assms(2,3) small len by (simp add: spec_ok_def a8_abs_def reg) (simp add: a8_reg_def)
  then show "a8.good lg ?a" using ok by (simp add: a8.good_def)
qed

section \<open>Merges take maxima\<close>

text \<open>\<open>packed_all bs xs\<close>: each \<open>(d, v)\<close> of \<open>xs\<close> raises register \<open>d\<close> to at least \<open>v\<close>.\<close>

definition packed_all :: "u8 list \<Rightarrow> (nat \<times> u8) list \<Rightarrow> u8 list" where
  "packed_all bs xs = foldl (\<lambda>bs (d, v). bs[d := max (bs ! d) v]) bs xs"

lemma put_all_simps [simp]:
  "packed_all bs [] = bs" "packed_all bs ((d, v) # xs) = packed_all (bs[d := max (bs ! d) v]) xs"
  by (simp_all add: packed_all_def)

lemma length_put_all [simp]: "length (packed_all bs xs) = length bs"
  by (induction xs arbitrary: bs) auto

lemma put_all_le:
  "i < length bs \<Longrightarrow> packed_all bs xs ! i \<le> b \<longleftrightarrow> bs ! i \<le> b \<and> (\<forall>(d, v) \<in> set xs. d = i \<longrightarrow> v \<le> b)"
proof (induction xs arbitrary: bs)
  case (Cons x xs)
  obtain d v where x: "x = (d, v)" by (cases x)
  have "bs[d := max (bs ! d) v] ! i \<le> b \<longleftrightarrow> bs ! i \<le> b \<and> (d = i \<longrightarrow> v \<le> b)"
    using Cons.prems by (cases "d = i") simp_all
  then show ?case using Cons.IH [of "bs[d := max (bs ! d) v]"] Cons.prems x by simp
qed simp

lemma put_all_small:
  assumes "\<forall>v \<in> set bs. v < 64" and "\<forall>(d, v) \<in> set xs. v < 64"
  shows "\<forall>v \<in> set (packed_all bs xs). v < 64"
  using assms
proof (induction xs arbitrary: bs)
  case (Cons x xs)
  obtain d v where x: "x = (d, v)" by (cases x)
  have "\<forall>w \<in> set (bs[d := max (bs ! d) v]). w < 64"
  proof (cases "d < length bs")
    case True
    then have "max (bs ! d) v < 64" using Cons.prems x by simp
    then show ?thesis using Cons.prems(1) set_update_subset_insert [of bs d "max (bs ! d) v"] by blast
  qed (use Cons.prems(1) in \<open>simp add: list_update_beyond\<close>)
  then show ?case using Cons.IH Cons.prems(2) x by simp
qed simp

text \<open>The four loops of the code raise registers one after the other.\<close>

lemma put_loop8:
  "\<forall>(i, v) \<in> set xs. g i < length bs \<Longrightarrow>
    fold_res (\<lambda>bytes (i, val). let d = g i in bind_res (get_at bytes d) (\<lambda>old. set_at bytes d (max old val))) bs xs =
      Inr (packed_all bs (map (\<lambda>(i, v). (g i, v)) xs))"
  by (induction xs arbitrary: bs) (auto simp: Let_def)

lemma put_loop46:
  assumes "\<And>s. s < n \<Longrightarrow> get s = Inr (f s)" and "\<And>s. s < n \<Longrightarrow> g s < length (a8_bytes a)"
  shows "fold_res (\<lambda>dst s. bind_res (get s) (\<lambda>val. bind_res (get_at (a8_bytes dst) (g s)) (\<lambda>current.
      if current < val then a8_set_register dst (g s) val else Inr dst))) a [0..<n] =
    Inr (a\<lparr>a8_bytes := packed_all (a8_bytes a) (map (\<lambda>s. (g s, f s)) [0..<n])\<rparr>)"
  using assms
proof (induction n)
  case (Suc n)
  let ?bs = "packed_all (a8_bytes a) (map (\<lambda>s. (g s, f s)) [0..<n])"
  have "packed_all (a8_bytes a) (map (\<lambda>s. (g s, f s)) [0..<Suc n]) = ?bs[g n := max (?bs ! g n) (f n)]"
    by (simp add: packed_all_def)
  moreover have "?bs[g n := max (?bs ! g n) (f n)] = (if ?bs ! g n < f n then ?bs[g n := f n] else ?bs)"
    by (cases "?bs ! g n < f n") (simp_all add: max_absorb1 max_absorb2 less_imp_le not_less leD)
  ultimately show ?case using Suc by (cases "?bs ! g n < f n") (simp_all add: fold_res_append a8_set_register_def leD)
qed simp

lemma put_loop46_down:
  assumes "\<And>s. s < n \<Longrightarrow> get s = Inr (f s)" and "\<And>s. s < n \<Longrightarrow> g s < length (a8_bytes a)"
  shows "fold_res (\<lambda>dst s. bind_res (get s) (\<lambda>val. if 0 < val then let d = g s in bind_res (get_at (a8_bytes dst) d) (\<lambda>current.
      if current < val then a8_set_register dst d val else Inr dst) else Inr dst)) a [0..<n] =
    Inr (a\<lparr>a8_bytes := packed_all (a8_bytes a) (map (\<lambda>s. (g s, f s)) [0..<n])\<rparr>)"
  using assms
proof (induction n)
  case (Suc n)
  let ?bs = "packed_all (a8_bytes a) (map (\<lambda>s. (g s, f s)) [0..<n])"
  have "packed_all (a8_bytes a) (map (\<lambda>s. (g s, f s)) [0..<Suc n]) = ?bs[g n := max (?bs ! g n) (f n)]"
    by (simp add: packed_all_def)
  moreover have "?bs[g n := max (?bs ! g n) (f n)] = (if ?bs ! g n < f n then ?bs[g n := f n] else ?bs)"
    by (cases "?bs ! g n < f n") (simp_all add: max_absorb1 max_absorb2 less_imp_le not_less leD)
  moreover have "0 < f n" if "?bs ! g n < f n" using that by (rule le_less_trans [OF word_zero_le])
  ultimately show ?case using Suc
    by (cases "?bs ! g n < f n"; cases "0 < f n") (simp_all add: fold_res_append a8_set_register_def Let_def leD)
qed simp

section \<open>Registers of the same coupons at a smaller size\<close>

lemma coupon_regs_le:
  assumes "finite C"
  shows "coupon_regs lg C s \<le> b \<longleftrightarrow> (\<forall>c \<in> C. coupon_index lg c = s \<longrightarrow> coupon_value c \<le> b)"
proof -
  have "finite (insert 0 {coupon_value c | c. c \<in> C \<and> coupon_index lg c = s})" using assms by simp
  then show ?thesis unfolding coupon_regs_def by (subst Max_le_iff) auto
qed

lemma coupon_index_mod: "lg \<le> lg' \<Longrightarrow> coupon_index lg' c mod 2 ^ lg = coupon_index lg c"
  by (simp add: coupon_index_def mod_mod_cancel le_imp_power_dvd)

lemma put_regs:
  assumes lg: "lg \<le> lg'" and fin: "finite C" "finite D"
    and bs: "length bs = 2 ^ lg" "\<And>s. s < 2 ^ lg \<Longrightarrow> bs ! s = coupon_regs lg C s" and i: "i < 2 ^ lg"
  shows "packed_all bs (map (\<lambda>t. (t mod 2 ^ lg, coupon_regs lg' D t)) [0..<2 ^ lg']) ! i = coupon_regs lg (C \<union> D) i"
proof -
  let ?xs = "map (\<lambda>t. (t mod 2 ^ lg, coupon_regs lg' D t)) [0..<2 ^ lg']"
  have "packed_all bs ?xs ! i \<le> b \<longleftrightarrow> coupon_regs lg (C \<union> D) i \<le> b" for b
  proof -
    have "(\<forall>(d, v) \<in> set ?xs. d = i \<longrightarrow> v \<le> b) \<longleftrightarrow> (\<forall>t < 2 ^ lg'. t mod 2 ^ lg = i \<longrightarrow> coupon_regs lg' D t \<le> b)" by auto
    also have "\<dots> \<longleftrightarrow> (\<forall>c \<in> D. coupon_index lg c = i \<longrightarrow> coupon_value c \<le> b)"
      unfolding coupon_regs_le [OF fin(2)]
    proof safe
      fix c
      assume H: "\<forall>t < 2 ^ lg'. t mod 2 ^ lg = coupon_index lg c \<longrightarrow> (\<forall>d \<in> D. coupon_index lg' d = t \<longrightarrow> coupon_value d \<le> b)"
        and c: "c \<in> D"
      show "coupon_value c \<le> b"
        using H [rule_format, of "coupon_index lg' c" c] coupon_index_mod [OF lg, of c] c by simp
    next
      fix t c
      assume H: "\<forall>d \<in> D. coupon_index lg d = coupon_index lg' c mod 2 ^ lg \<longrightarrow> coupon_value d \<le> b" and c: "c \<in> D"
      show "coupon_value c \<le> b" using H [rule_format, OF c] coupon_index_mod [OF lg, of c] by simp
    qed
    finally have "packed_all bs ?xs ! i \<le> b \<longleftrightarrow>
        coupon_regs lg C i \<le> b \<and> (\<forall>c \<in> D. coupon_index lg c = i \<longrightarrow> coupon_value c \<le> b)"
      using put_all_le [of i bs ?xs b] bs i by simp
    then show ?thesis using coupon_regs_le [OF fin(1)] coupon_regs_le [of "C \<union> D"] fin by (simp add: ball_Un)
  qed
  from this [of "packed_all bs ?xs ! i"] this [of "coupon_regs lg (C \<union> D) i"] show ?thesis by (intro order_antisym) simp_all
qed

section \<open>The merges represent the union of the coupons\<close>

text \<open>\<open>array_of lg m D\<close>: a well-formed register array of any type with the registers of \<open>D\<close>.\<close>

definition array_of :: "nat \<Rightarrow> hll_mode \<Rightarrow> coupon set \<Rightarrow> bool" where
  "array_of lg m D \<longleftrightarrow> mode_ok lg m \<and> (\<exists>r. mode_abs m = Registers r \<and> fst r = coupon_regs lg D)"

definition gadget_of :: "nat \<Rightarrow> array8 \<Rightarrow> coupon set \<Rightarrow> bool" where
  "gadget_of lg a C \<longleftrightarrow> a8.good lg a \<and> a8_reg a = coupon_regs lg C"

lemma array_ofD:
  assumes "array_of lg m D"
  shows "(\<exists>a. m = Array4Mode a \<and> a4_lg_config_k a = lg \<and> (\<forall>s < 2 ^ lg. a4_get a s = Inr (coupon_regs lg D s))) \<or>
    (\<exists>a. m = Array6Mode a \<and> a6_lg_config_k a = lg \<and> (\<forall>s < 2 ^ lg. a6_get_raw a s = Inr (coupon_regs lg D s))) \<or>
    (\<exists>a. m = Array8Mode a \<and> a8_bytes a = map (coupon_regs lg D) [0..<2 ^ lg])"
proof (cases m)
  case (Array4Mode a)
  then have a: "a4_ok lg a" "a4_reg a = coupon_regs lg D"
    using assms by (simp_all add: array_of_def mode_ok_def a4.good_def mode_abs_def a4_abs_def)
  then have core: "a4_core lg a (coupon_regs lg D)" by (simp add: a4_ok_def)
  then show ?thesis using a4_core_get(2) [OF core] a4_coreD(1) [OF core] Array4Mode by simp
next
  case (Array6Mode a)
  then have a: "a6_ok lg a" "a6_reg a = coupon_regs lg D"
    using assms by (simp_all add: array_of_def mode_ok_def a6.good_def mode_abs_def a6_abs_def)
  note ok6 = a(1) [unfolded a6_ok_def]
  have "a6_get_raw a s = Inr (coupon_regs lg D s)" if "s < 2 ^ lg" for s
  proof -
    have "Suc (s * 6 div 8) < length (a6_bytes a)" by (rule a6_in_range [of lg]) (use ok6 that in blast)+
    then obtain v where "a6_get_raw a s = Inr v" using a6_get_bits by blast
    then show ?thesis unfolding a(2) [symmetric] using ok6 that by (simp add: a6_reg_def)
  qed
  then show ?thesis using ok6 Array6Mode by blast
next
  case (Array8Mode a)
  then have a: "a8_ok lg a" "a8_reg a = coupon_regs lg D"
    using assms by (simp_all add: array_of_def mode_ok_def a8.good_def mode_abs_def a8_abs_def)
  have "a8_bytes a = map (coupon_regs lg D) [0..<2 ^ lg]"
    unfolding a(2) [symmetric] using a(1) by (intro nth_equalityI) (simp_all add: a8_ok_def a8_reg_def)
  then show ?thesis using Array8Mode by blast
qed (use assms in \<open>simp_all add: array_of_def mode_abs_def\<close>)

lemma gadget_ofD:
  assumes "gadget_of lg a C"
  shows "a8_lg_config_k a = lg" "length (a8_bytes a) = 2 ^ lg" "4 \<le> lg" "lg \<le> 21" "a8_shape lg a"
    "s < 2 ^ lg \<Longrightarrow> a8_bytes a ! s = coupon_regs lg C s"
proof -
  have ok: "a8_ok lg a" "spec_ok lg (a8_abs a)" "a8_reg a = coupon_regs lg C" using assms by (simp_all add: gadget_of_def a8.good_def)
  show lg: "a8_lg_config_k a = lg" "length (a8_bytes a) = 2 ^ lg" "4 \<le> lg" "lg \<le> 21" using ok by (simp_all add: a8_ok_def spec_ok_def)
  show nth: "a8_bytes a ! s = coupon_regs lg C s" if "s < 2 ^ lg" for s using ok(3) [THEN fun_cong, of s] that lg by (simp add: a8_reg_def)
  have "a8_reg a s < 64" for s using ok(2) by (simp add: spec_ok_def a8_abs_def)
  then have "a8_bytes a ! i < 64" if "i < length (a8_bytes a)" for i using that by (metis a8_reg_def)
  then have "v < 64" if "v \<in> set (a8_bytes a)" for v using that by (auto simp: in_set_conv_nth)
  then show "a8_shape lg a" using lg by (simp add: a8_shape_def)
qed

text \<open>The common end of the merges: the raised registers with a rebuilt estimator\<close>

lemma raised_gadget:
  assumes g: "gadget_of lg a C" and lg: "lg \<le> lg'" and fin: "finite C" "finite D"
  defines "bytes \<equiv> packed_all (a8_bytes a) (map (\<lambda>t. (t mod 2 ^ lg, coupon_regs lg' D t)) [0..<2 ^ lg'])"
  shows "gadget_of lg (a8_rebuild_estimator_from_registers (a\<lparr>a8_bytes := bytes\<rparr>)) (C \<union> D)"
proof -
  note G = gadget_ofD [OF g]
  have nth: "bytes ! i = coupon_regs lg (C \<union> D) i" if "i < 2 ^ lg" for i
    unfolding bytes_def by (rule put_regs [OF lg fin G(2,6) that])
  have "\<forall>v \<in> set bytes. v < 64"
    unfolding bytes_def by (rule put_all_small) (use G(5) coupon_regs_lt [OF fin(2)] in \<open>auto simp: a8_shape_def\<close>)
  then have shape: "a8_shape lg (a\<lparr>a8_bytes := bytes\<rparr>)" using G(1,2) by (simp add: a8_shape_def bytes_def)
  have "coupon_regs lg (C \<union> D) i = 0" if "2 ^ lg \<le> i" for i
    using coupon_regs_le [of "C \<union> D" lg i 0] fin that by auto
  then have "a8_reg (a\<lparr>a8_bytes := bytes\<rparr>) = coupon_regs lg (C \<union> D)"
    using nth G(2) by (auto simp: fun_eq_iff a8_reg_def bytes_def)
  then show ?thesis using rebuild_good [OF shape G(3,4)] by (simp add: gadget_of_def)
qed

lemma enumerate_map: "map (\<lambda>(i, v). (g i, v)) (enumerate 0 (map f [0..<n])) = map (\<lambda>s. (g s, f s)) [0..<n]"
  by (rule nth_equalityI) (simp_all add: nth_enumerate_eq)

lemma set_order_rebuild:
  "(let a = a8_rebuild_cached_values a in Inr (a\<lparr>a8_estimator := set_out_of_order (a8_estimator a) True\<rparr>)) =
    Inr (a8_rebuild_estimator_from_registers a)"
  by (simp add: a8_rebuild_estimator_from_registers_def Let_def)

lemma merge_down_ok:
  assumes g: "gadget_of lg a C" and src: "array_of lg' m D" and lg: "lg < lg'" and fin: "finite C" "finite D"
  shows "\<exists>b. merge_array_with_downsample a lg m lg' = Inr b \<and> gadget_of lg b (C \<union> D)"
proof -
  note G = gadget_ofD [OF g]
  let ?f = "coupon_regs lg' D"
  let ?bytes = "packed_all (a8_bytes a) (map (\<lambda>t. (t mod 2 ^ lg, ?f t)) [0..<2 ^ lg'])"
  note merged = raised_gadget [OF g less_imp_le [OF lg] fin]
  have small: "t mod 2 ^ lg < length (a8_bytes a)" for t using G(2) by simp
  have loop46: "merge_array46_with_downsample a lg (2 ^ lg') get = Inr (a8_rebuild_estimator_from_registers (a\<lparr>a8_bytes := ?bytes\<rparr>))"
    if "\<And>s. s < 2 ^ lg' \<Longrightarrow> get s = Inr (?f s)" for get
  proof -
    have "fold_res (\<lambda>dst s. bind_res (get s) (\<lambda>val. if 0 < val then let d = s mod 2 ^ lg in bind_res (get_at (a8_bytes dst) d) (\<lambda>current.
        if current < val then a8_set_register dst d val else Inr dst) else Inr dst)) a [0..<2 ^ lg'] =
      Inr (a\<lparr>a8_bytes := ?bytes\<rparr>)"
      by (rule put_loop46_down) (use that small in simp_all)
    then show ?thesis unfolding merge_array46_with_downsample_def Let_def and_mask_nat by (simp add: Let_def)
  qed
  have loop8: "a8_merge_array_with_downsample a (map ?f [0..<2 ^ lg']) lg' =
      Inr (a8_rebuild_estimator_from_registers (a\<lparr>a8_bytes := ?bytes\<rparr>))"
    using put_loop8 [of "enumerate 0 (map ?f [0..<2 ^ lg'])" "\<lambda>t. t mod 2 ^ lg" "a8_bytes a"] small lg
    unfolding a8_merge_array_with_downsample_def Let_def G(1) and_mask_nat set_order_rebuild [unfolded Let_def] enumerate_map
    by (simp add: case_prod_beta)
  have "merge_array_with_downsample a lg m lg' = Inr (a8_rebuild_estimator_from_registers (a\<lparr>a8_bytes := ?bytes\<rparr>))"
    using array_ofD [OF src] lg loop46 loop8 by (auto simp: merge_array_with_downsample_def)
  then show ?thesis using merged by blast
qed

lemma merge_same_ok:
  assumes g: "gadget_of lg a C" and src: "array_of lg m D" and fin: "finite C" "finite D"
  shows "\<exists>b. merge_array_same_lgk a m = Inr b \<and> gadget_of lg b (C \<union> D)"
proof -
  note G = gadget_ofD [OF g]
  let ?f = "coupon_regs lg D"
  let ?bytes = "packed_all (a8_bytes a) (map (\<lambda>t. (t mod 2 ^ lg, ?f t)) [0..<2 ^ lg])"
  have same: "map (\<lambda>t. (t mod 2 ^ lg, ?f t)) [0..<2 ^ lg] = map (\<lambda>t. (t, ?f t)) [0..<2 ^ lg]" by simp
  note merged = raised_gadget [OF g order_refl fin]
  have small: "t < length (a8_bytes a)" if "t < 2 ^ lg" for t using G(2) that by simp
  have loop46: "merge_array46_same_lgk a (2 ^ lg) get = Inr (a8_rebuild_estimator_from_registers (a\<lparr>a8_bytes := ?bytes\<rparr>))"
    if "\<And>s. s < 2 ^ lg \<Longrightarrow> get s = Inr (?f s)" for get
  proof -
    have "fold_res (\<lambda>dst s. bind_res (get s) (\<lambda>val. bind_res (get_at (a8_bytes dst) s) (\<lambda>current.
        if current < val then a8_set_register dst s val else Inr dst))) a [0..<2 ^ lg] =
      Inr (a\<lparr>a8_bytes := packed_all (a8_bytes a) (map (\<lambda>t. (t, ?f t)) [0..<2 ^ lg])\<rparr>)"
      by (rule put_loop46) (use that small in simp_all)
    then show ?thesis unfolding merge_array46_same_lgk_def same by simp
  qed
  have loop8: "a8_merge_array_same_lgk a (map ?f [0..<2 ^ lg]) =
      Inr (a8_rebuild_estimator_from_registers (a\<lparr>a8_bytes := ?bytes\<rparr>))"
    using put_loop8 [of "enumerate 0 (map ?f [0..<2 ^ lg])" "\<lambda>t. t" "a8_bytes a"] G(2)
    unfolding a8_merge_array_same_lgk_def set_order_rebuild same enumerate_map
    by (auto simp: Let_def case_prod_beta in_set_enumerate_eq)
  have "merge_array_same_lgk a m = Inr (a8_rebuild_estimator_from_registers (a\<lparr>a8_bytes := ?bytes\<rparr>))"
    using array_ofD [OF src] loop46 loop8 by (auto simp: merge_array_same_lgk_def)
  then show ?thesis using merged by blast
qed

lemma coupon_regs_Un:
  assumes "finite C" and "finite D"
  shows "coupon_regs lg (C \<union> D) s = max (coupon_regs lg C s) (coupon_regs lg D s)"
proof -
  have "coupon_regs lg (C \<union> D) s \<le> b \<longleftrightarrow> max (coupon_regs lg C s) (coupon_regs lg D s) \<le> b" for b
    using assms by (simp add: coupon_regs_le ball_Un)
  from this [of "coupon_regs lg (C \<union> D) s"] this [of "max (coupon_regs lg C s) (coupon_regs lg D s)"]
  show ?thesis by (intro order_antisym) simp_all
qed

lemma new_gadget: "4 \<le> lg \<Longrightarrow> lg \<le> 21 \<Longrightarrow> gadget_of lg (a8_new lg) {}"
  using a8.new_good [of lg] a8_new_refines [of lg] by (auto simp: gadget_of_def a8_abs_def spec_new_def)

lemma hip_gadget: "gadget_of lg a C \<Longrightarrow> gadget_of lg (a8_set_hip_accum a v) C"
  using a8.set_hip_good [of lg a v] by (auto simp: gadget_of_def a8_abs_def spec_set_hip_def)

lemma coupons_gadget:
  assumes g: "gadget_of lg a C" and fin: "finite C"
  shows "\<exists>b. fold_res a8_update a cs = Inr b \<and> gadget_of lg b (C \<union> set cs)"
proof -
  obtain b where b: "fold_res a8_update a cs = Inr b" "a8.good lg b" "a8_abs b = spec_updates lg (a8_abs a) cs"
    using a8.updates_good g unfolding gadget_of_def by blast
  have "a8_reg b s = coupon_regs lg (C \<union> set cs) s" for s
    using arg_cong [OF b(3), of "\<lambda>st. fst st s"] g coupon_regs_Un [OF fin, of "set cs" lg s]
    by (simp add: a8_abs_def spec_updates_reg gadget_of_def)
  then show ?thesis using b by (auto simp: gadget_of_def)
qed

text \<open>An array written as coupons, one for every register that is not zero\<close>

definition packs :: "(nat \<Rightarrow> u8) \<Rightarrow> nat \<Rightarrow> coupon list" where
  "packs f n = map (\<lambda>s. coupon_pack (of_nat s) (f s)) (filter (\<lambda>s. 0 < f s) [0..<n])"

lemma fold_packs:
  assumes "\<And>s. s < n \<Longrightarrow> get s = Inr (f s)" and "\<And>s. s < n \<Longrightarrow> h (f s) = f s"
  shows "fold_res (\<lambda>a s. bind_res (get s) (\<lambda>val. if 0 < val then upd a (coupon_pack (of_nat s) (h val)) else Inr a)) a [0..<n] =
    fold_res upd a (packs f n)"
  using assms
proof (induction n)
  case (Suc n)
  then show ?case by (cases "fold_res upd a (packs f n)") (simp_all add: fold_res_append packs_def)
qed (simp add: packs_def)

lemma packs_regs:
  assumes "lg \<le> 21" and "\<And>s. s < 2 ^ lg \<Longrightarrow> f s < 64" and "i < 2 ^ lg"
  shows "coupon_regs lg (set (packs f (2 ^ lg))) i = f i"
proof -
  have P: "coupon_index lg (coupon_pack (of_nat s) (f s)) = s \<and> coupon_value (coupon_pack (of_nat s) (f s)) = f s"
    if "s < 2 ^ lg" "0 < f s" for s
    using pack_facts [OF that(1) assms(1) that(2) assms(2) [OF that(1)]] that(1) by (simp add: coupon_index_def)
  have "coupon_regs lg (set (packs f (2 ^ lg))) i \<le> b \<longleftrightarrow> f i \<le> b" for b
  proof -
    have "(\<forall>c \<in> set (packs f (2 ^ lg)). coupon_index lg c = i \<longrightarrow> coupon_value c \<le> b) \<longleftrightarrow>
        (\<forall>s < 2 ^ lg. 0 < f s \<longrightarrow> s = i \<longrightarrow> f s \<le> b)"
      using P by (auto simp: packs_def)
    also have "\<dots> \<longleftrightarrow> f i \<le> b" using assms(3) by (cases "f i = 0") (auto simp: word_neq_0_conv)
    finally show ?thesis by (simp add: coupon_regs_le)
  qed
  from this [of "coupon_regs lg (set (packs f (2 ^ lg))) i"] this [of "f i"] show ?thesis by (intro order_antisym) simp_all
qed

lemma packs_coupon_regs:
  assumes "lg \<le> 21" and "finite D"
  shows "coupon_regs lg (set (packs (coupon_regs lg D) (2 ^ lg))) = coupon_regs lg D"
proof
  fix i
  show "coupon_regs lg (set (packs (coupon_regs lg D) (2 ^ lg))) i = coupon_regs lg D i"
  proof (cases "i < 2 ^ lg")
    case True
    then show ?thesis using packs_regs [OF assms(1)] coupon_regs_lt [OF assms(2)] by blast
  next
    case False
    then show ?thesis using coupon_regs_le [of D lg i 0] coupon_regs_le [of "set (packs (coupon_regs lg D) (2 ^ lg))" lg i 0]
      assms(2) by auto
  qed
qed

lemma copy_ok:
  assumes src: "array_of lg' m D" and fin: "finite D" and lg: "4 \<le> lg'" "lg' \<le> 21" "4 \<le> lg" "lg \<le> 21"
  shows "\<exists>b. copy_or_downsample m lg' lg = Inr b \<and> gadget_of (min lg lg') b D"
proof (cases "lg' \<le> lg")
  case False
  then obtain b where "merge_array_with_downsample (a8_new lg) lg m lg' = Inr b" "gadget_of lg b ({} \<union> D)"
    using merge_down_ok [OF new_gadget [OF lg(3,4)] src] fin by auto
  then show ?thesis using False by (simp add: copy_or_downsample_def)
next
  case True
  note new = new_gadget [OF lg(1,2)]
  have hip: "\<exists>v. get_array_hip_accum m = Inr v"
    using array_ofD [OF src] by (auto simp: get_array_hip_accum_def)
  have coupons: "\<exists>b. copy_array46_via_coupons (a8_new lg') (2 ^ lg') get = Inr b \<and> gadget_of lg' b D"
    if get: "\<And>s. s < 2 ^ lg' \<Longrightarrow> get s = Inr (coupon_regs lg' D s)" for get
  proof -
    obtain b where "fold_res a8_update (a8_new lg') (packs (coupon_regs lg' D) (2 ^ lg')) = Inr b"
      "gadget_of lg' b (set (packs (coupon_regs lg' D) (2 ^ lg')))"
      using coupons_gadget [OF new, of "packs (coupon_regs lg' D) (2 ^ lg')"] by auto
    then show ?thesis using fold_packs [of "2 ^ lg'" get "coupon_regs lg' D" "\<lambda>v. v" a8_update "a8_new lg'"] get packs_coupon_regs [OF lg(2) fin]
      by (simp add: copy_array46_via_coupons_def gadget_of_def)
  qed
  have "\<exists>b. (case m of
      Array8Mode src \<Rightarrow> a8_merge_array_same_lgk (a8_new lg') (a8_bytes src)
    | Array6Mode src \<Rightarrow> copy_array46_via_coupons (a8_new lg') (2 ^ a6_lg_config_k src) (a6_get_raw src)
    | Array4Mode src \<Rightarrow> copy_array46_via_coupons (a8_new lg') (2 ^ a4_lg_config_k src) (a4_get src)
    | _ \<Rightarrow> Inl (Panic ''copy_or_downsample called with non-array mode'')) = Inr b \<and> gadget_of lg' b D"
    using array_ofD [OF src] coupons merge_same_ok [OF new src _ fin] by (auto simp: merge_array_same_lgk_def)
  then obtain b where "(case m of
      Array8Mode src \<Rightarrow> a8_merge_array_same_lgk (a8_new lg') (a8_bytes src)
    | Array6Mode src \<Rightarrow> copy_array46_via_coupons (a8_new lg') (2 ^ a6_lg_config_k src) (a6_get_raw src)
    | Array4Mode src \<Rightarrow> copy_array46_via_coupons (a8_new lg') (2 ^ a4_lg_config_k src) (a4_get src)
    | _ \<Rightarrow> Inl (Panic ''copy_or_downsample called with non-array mode'')) = Inr b" "gadget_of lg' b D" by blast
  then show ?thesis using True hip hip_gadget by (auto simp: copy_or_downsample_def min_absorb2)
qed

section \<open>The union represents the coupons of its inputs\<close>

definition is_array :: "hll_sketch \<Rightarrow> bool" where
  "is_array s \<longleftrightarrow> (case sketch_abs s of Registers _ \<Rightarrow> True | _ \<Rightarrow> False)"

text \<open>A sketch of real coupons: a coupon of a hashed value has a positive register value.\<close>

definition sketch_of :: "hll_sketch \<Rightarrow> coupon set \<Rightarrow> bool" where
  "sketch_of s C \<longleftrightarrow> sketch_ok s \<and> spec_holds (hs_lg_config_k s) (sketch_abs s) C \<and> (\<forall>c \<in> C. 0 < coupon_value c)"

definition hll_union_inv :: "hll_union \<Rightarrow> coupon set \<Rightarrow> bool" where
  "hll_union_inv u C \<longleftrightarrow> 4 \<le> hu_lg_max_k u \<and> hu_lg_max_k u \<le> 21 \<and> sketch_of (hu_gadget u) C \<and> target_type (hu_gadget u) = Hll8 \<and>
     (if is_array (hu_gadget u) then hs_lg_config_k (hu_gadget u) \<le> hu_lg_max_k u \<and> C \<noteq> {}
      else hs_lg_config_k (hu_gadget u) = hu_lg_max_k u)"

lemma regs_empty_iff:
  assumes "finite C" and "\<forall>c \<in> C. 0 < coupon_value c"
  shows "(\<forall>s < 2 ^ lg. coupon_regs lg C s = 0) \<longleftrightarrow> C = {}"
proof
  assume z: "\<forall>s < 2 ^ lg. coupon_regs lg C s = 0"
  have False if c: "c \<in> C" for c
  proof -
    have "coupon_regs lg C (coupon_index lg c) = 0" using z by simp
    then have "coupon_value c \<le> 0" using coupon_regs_le [OF assms(1), of lg "coupon_index lg c" 0] c by simp
    then show False using assms(2) c by auto
  qed
  then show "C = {}" by blast
qed simp

lemma all_zero_count:
  fixes P :: "nat \<Rightarrow> bool"
  assumes "lg \<le> 21"
  shows "(of_nat (card {s. s < 2 ^ lg \<and> P s}) :: u32) = of_nat (2 ^ lg) \<longleftrightarrow> (\<forall>s < 2 ^ lg. P s)"
proof -
  have "(of_nat (card {s. s < 2 ^ lg \<and> P s}) :: u32) = of_nat (2 ^ lg) \<longleftrightarrow> card {s. s < 2 ^ lg \<and> P s} = 2 ^ lg"
    using small_count [OF assms card_regs_le [of lg P]] small_count [OF assms order_refl] by metis
  also have "\<dots> \<longleftrightarrow> {s. s < 2 ^ lg \<and> P s} = {..<2 ^ lg}"
  proof
    assume "card {s. s < 2 ^ lg \<and> P s} = 2 ^ lg"
    then show "{s. s < 2 ^ lg \<and> P s} = {..<2 ^ lg}" by (intro card_subset_eq) auto
  qed simp
  also have "\<dots> \<longleftrightarrow> (\<forall>s < 2 ^ lg. P s)" by auto
  finally show ?thesis .
qed

lemma sketch_of_empty:
  assumes "sketch_of s C"
  shows "hll_is_empty s \<longleftrightarrow> C = {}"
proof -
  have ok: "sketch_ok s" "spec_holds (hs_lg_config_k s) (sketch_abs s) C" and fin: "finite C" and pos: "\<forall>c \<in> C. 0 < coupon_value c"
    using assms by (simp_all add: sketch_of_def spec_holds_def)
  have lg: "hs_lg_config_k s \<le> 21" using ok(1) by (simp add: sketch_ok_def)
  note zero = regs_empty_iff [OF fin pos, of "hs_lg_config_k s"] and count = all_zero_count [OF lg]
  show ?thesis
  proof (cases "hs_mode s")
    case (ListMode l ty)
    then have "list_holds l C" using ok(2) by (simp add: spec_holds_def sketch_abs_def mode_abs_def)
    then show ?thesis using list_holds_facts(1) fin ListMode by (simp add: hll_is_empty_def container_is_empty_def)
  next
    case (SetMode t ty)
    then have "set_holds t C" using ok(2) by (simp add: spec_holds_def sketch_abs_def mode_abs_def)
    then show ?thesis using set_holds_facts(1) fin SetMode by (simp add: hll_is_empty_def container_is_empty_def)
  next
    case (Array4Mode a)
    then have a: "a4_ok (hs_lg_config_k s) a" and reg: "a4_reg a = coupon_regs (hs_lg_config_k s) C"
      using ok by (simp_all add: sketch_ok_def mode_ok_def a4.good_def spec_holds_def sketch_abs_def mode_abs_def a4_abs_def)
    have cfg: "a4_lg_config_k a = hs_lg_config_k s" using a by (simp add: a4_ok_def a4_core_def)
    have "a4_num_at_cur_min a = of_nat (2 ^ hs_lg_config_k s) \<longleftrightarrow> (\<forall>i < 2 ^ hs_lg_config_k s. a4_reg a i = a4_cur_min a)"
      using a count [of "\<lambda>i. a4_reg a i = a4_cur_min a"] by (simp add: a4_ok_def at_min_def)
    moreover have "a4_cur_min a \<le> a4_reg a i" if "i < 2 ^ hs_lg_config_k s" for i using a that by (simp add: a4_ok_def a4_core_def)
    ultimately have "a4_is_empty a \<longleftrightarrow> (\<forall>i < 2 ^ hs_lg_config_k s. a4_reg a i = 0)"
      unfolding a4_is_empty_def cfg by (metis word_le_0_iff zero_less_numeral zero_less_power)
    then show ?thesis using zero Array4Mode by (simp add: hll_is_empty_def reg)
  next
    case (Array6Mode a)
    then have a: "a6_ok (hs_lg_config_k s) a" "a6_reg a = coupon_regs (hs_lg_config_k s) C"
      using ok by (simp_all add: sketch_ok_def mode_ok_def a6.good_def spec_holds_def sketch_abs_def mode_abs_def a6_abs_def)
    have "a6_is_empty a \<longleftrightarrow> (\<forall>i < 2 ^ hs_lg_config_k s. a6_reg a i = 0)"
      using a(1) count [of "\<lambda>i. a6_reg a i = 0"] by (simp add: a6_is_empty_def a6_ok_def)
    then show ?thesis using zero Array6Mode by (simp add: hll_is_empty_def a(2))
  next
    case (Array8Mode a)
    then have a: "a8_ok (hs_lg_config_k s) a" "a8_reg a = coupon_regs (hs_lg_config_k s) C"
      using ok by (simp_all add: sketch_ok_def mode_ok_def a8.good_def spec_holds_def sketch_abs_def mode_abs_def a8_abs_def)
    have "a8_is_empty a \<longleftrightarrow> (\<forall>i < 2 ^ hs_lg_config_k s. a8_reg a i = 0)"
      using a(1) count [of "\<lambda>i. a8_reg a i = 0"] by (simp add: a8_is_empty_def a8_ok_def)
    then show ?thesis using zero Array8Mode by (simp add: hll_is_empty_def a(2))
  qed
qed

lemma sketch_ofD:
  assumes "sketch_of s C"
  shows "4 \<le> hs_lg_config_k s" "hs_lg_config_k s \<le> 21" "finite C" "sketch_ok s" "spec_holds (hs_lg_config_k s) (sketch_abs s) C"
    "c \<in> C \<Longrightarrow> 0 < coupon_value c"
  using assms by (auto simp: sketch_of_def sketch_ok_def spec_holds_def)

lemma coupons_sketch:
  assumes g: "sketch_of g C" and cs: "\<And>c. c \<in> set cs \<Longrightarrow> 0 < coupon_value c"
  shows "\<exists>g'. fold_res update_with_coupon g cs = Inr g' \<and> sketch_of g' (C \<union> set cs) \<and>
    hs_lg_config_k g' = hs_lg_config_k g \<and> target_type g' = target_type g \<and> (is_array g \<longrightarrow> is_array g')"
proof (rule fold_res_prefix [where P = "\<lambda>g' ys. sketch_of g' (C \<union> set ys) \<and> hs_lg_config_k g' = hs_lg_config_k g \<and>
    target_type g' = target_type g \<and> (is_array g \<longrightarrow> is_array g')"])
  show "sketch_of g (C \<union> set []) \<and> hs_lg_config_k g = hs_lg_config_k g \<and> target_type g = target_type g \<and> (is_array g \<longrightarrow> is_array g)"
    using g by simp
next
  fix h ys c zs
  assume split: "cs = ys @ c # zs" and P: "sketch_of h (C \<union> set ys) \<and> hs_lg_config_k h = hs_lg_config_k g \<and>
    target_type h = target_type g \<and> (is_array g \<longrightarrow> is_array h)"
  have c: "0 < coupon_value c" using cs split by simp
  have nz: "c \<noteq> 0" using c by (auto simp: coupon_value_def)
  note H = sketch_ofD [OF conjunct1 [OF P]]
  obtain st where st: "spec_step (hs_lg_config_k h) (sketch_abs h) c = Inr st" "spec_holds (hs_lg_config_k h) st (insert c (C \<union> set ys))"
    using spec_step_holds [OF H(1,2,5) nz] by blast
  obtain h' where h': "update_with_coupon h c = Inr h'" "sketch_ok h'" "sketch_abs h' = st" "hs_lg_config_k h' = hs_lg_config_k h"
    "target_type h' = target_type h" using update_refines [OF H(4) st(1)] by blast
  have "is_array h'" if "is_array h"
    using that st(1) h'(3) by (auto simp: is_array_def spec_step_def split: sketch_state.splits)
  moreover have "sketch_of h' (C \<union> set (ys @ [c]))" using h' st(2) c H(6) by (auto simp: sketch_of_def)
  ultimately show "\<exists>h'. update_with_coupon h c = Inr h' \<and> sketch_of h' (C \<union> set (ys @ [c])) \<and> hs_lg_config_k h' = hs_lg_config_k g \<and>
      target_type h' = target_type g \<and> (is_array g \<longrightarrow> is_array h')"
    using P h' by (intro exI [of _ h']) simp
qed

lemma gadget_sketch:
  assumes "gadget_of lg a C" and "finite C" and "\<And>c. c \<in> C \<Longrightarrow> 0 < coupon_value c"
  shows "sketch_of (s\<lparr>hs_lg_config_k := lg, hs_mode := Array8Mode a\<rparr>) C"
    and "sketch_of (hll_from_mode lg (Array8Mode a)) C"
    and "is_array (s\<lparr>hs_mode := Array8Mode a\<rparr>)" and "is_array (hll_from_mode lg (Array8Mode a))"
    and "target_type (hll_from_mode lg (Array8Mode a)) = Hll8"
proof -
  have "0 \<notin> C" using assms(3) [of 0] by (auto simp: coupon_value_def)
  moreover have good: "a8.good lg a" and reg: "a8_reg a = coupon_regs lg C" using assms(1) by (simp_all add: gadget_of_def)
  moreover have "spec_ok lg (a8_reg a, a8_estimator a)" using good unfolding a8.good_def a8_abs_def by blast
  then have "spec_ok lg (coupon_regs lg C, a8_estimator a)" unfolding reg .
  ultimately show "sketch_of (s\<lparr>hs_lg_config_k := lg, hs_mode := Array8Mode a\<rparr>) C" "sketch_of (hll_from_mode lg (Array8Mode a)) C"
    using assms(2,3) gadget_ofD(3,4) [OF assms(1)]
    by (simp_all add: sketch_of_def sketch_ok_def spec_holds_def sketch_abs_def mode_abs_def mode_ok_def hll_from_mode_def a8_abs_def)
qed (simp_all add: is_array_def sketch_abs_def mode_abs_def hll_from_mode_def target_type_def)

lemma array_sketch:
  assumes "sketch_of s C" and "is_array s"
  shows "array_of (hs_lg_config_k s) (hs_mode s) C"
  using sketch_ofD [OF assms(1)] assms(2)
  by (auto simp: is_array_def array_of_def sketch_ok_def spec_holds_def sketch_abs_def split: sketch_state.splits)

lemma array8_sketch:
  assumes "sketch_of s C" and "is_array s" and "target_type s = Hll8"
  shows "\<exists>a. hs_mode s = Array8Mode a \<and> gadget_of (hs_lg_config_k s) a C"
  using array_sketch [OF assms(1,2)] assms(2,3)
  by (cases "hs_mode s")
    (auto simp: is_array_def sketch_abs_def mode_abs_def target_type_def array_of_def gadget_of_def mode_ok_def a8_abs_def)

text \<open>The mode of a source that is not an array, with its coupons\<close>

lemma coupon_sketch:
  assumes "sketch_of s D" and "\<not> is_array s"
  shows "(\<exists>l ty. hs_mode s = ListMode l ty \<and> set (container_iter l) = D) \<or> (\<exists>t ty. hs_mode s = SetMode t ty \<and> set (container_iter t) = D)"
proof (cases "hs_mode s")
  case (ListMode l ty)
  then have "list_holds l D" using sketch_ofD(5) [OF assms(1)] by (simp add: spec_holds_def sketch_abs_def mode_abs_def)
  then show ?thesis using list_holds_facts(5) ListMode by blast
next
  case (SetMode t ty)
  then have "set_holds t D" using sketch_ofD(5) [OF assms(1)] by (simp add: spec_holds_def sketch_abs_def mode_abs_def)
  then show ?thesis using set_holds_facts(5) SetMode by blast
qed (use assms(2) in \<open>simp_all add: is_array_def sketch_abs_def mode_abs_def\<close>)

definition union_lg :: "nat \<Rightarrow> hll_sketch \<Rightarrow> nat" where
  "union_lg lg s = (if \<not> hll_is_empty s \<and> is_array s then min lg (hs_lg_config_k s) else lg)"

lemma union_from_coupons:
  assumes u: "hll_union_inv u C" and s: "sketch_of s D" "\<not> is_array s" "D \<noteq> {}"
  shows "\<exists>u'. update_from_list_or_set u s (hs_mode s) (hs_lg_config_k s) (hs_lg_config_k (hu_gadget u)) = Inr u' \<and>
    hll_union_inv u' (C \<union> D) \<and> hu_lg_max_k u' = hu_lg_max_k u \<and> hs_lg_config_k (hu_gadget u') = hs_lg_config_k (hu_gadget u)"
proof -
  let ?g = "hu_gadget u"
  have U: "4 \<le> hu_lg_max_k u" "hu_lg_max_k u \<le> 21" "sketch_of ?g C" "target_type ?g = Hll8"
    "if is_array ?g then hs_lg_config_k ?g \<le> hu_lg_max_k u \<and> C \<noteq> {} else hs_lg_config_k ?g = hu_lg_max_k u"
    using u by (simp_all add: hll_union_inv_def)
  note em = sketch_of_empty [OF U(3)] and mode = coupon_sketch [OF s(1,2)] and S = sketch_ofD [OF s(1)]
  show ?thesis
  proof (cases "hll_is_empty ?g \<and> hs_lg_config_k s = hs_lg_config_k ?g")
    case True
    then have C: "C = {}" and lg: "hs_lg_config_k ?g = hu_lg_max_k u" using em U(5) by (simp_all split: if_splits)
    define t where "t = (if target_type s = Hll8 then s else hll_from_mode (hs_lg_config_k s)
      (case hs_mode s of ListMode l _ \<Rightarrow> ListMode l Hll8 | SetMode t _ \<Rightarrow> SetMode t Hll8 | m \<Rightarrow> m))"
    have run: "update_from_list_or_set u s (hs_mode s) (hs_lg_config_k s) (hs_lg_config_k ?g) = Inr (u\<lparr>hu_gadget := t\<rparr>)"
      using True mode by (auto simp: update_from_list_or_set_def convert_coupon_mode_to_hll8_def t_def)
    have t: "sketch_of t D" "target_type t = Hll8" "\<not> is_array t" "hs_lg_config_k t = hs_lg_config_k s"
      using s mode by (auto simp: t_def sketch_of_def sketch_ok_def mode_ok_def hll_from_mode_def sketch_abs_def mode_abs_def
          is_array_def target_type_def)
    have "hll_union_inv (u\<lparr>hu_gadget := t\<rparr>) (C \<union> D)" using U(1,2) t True lg by (simp add: hll_union_inv_def C)
    then show ?thesis using run t(4) True by simp
  next
    case False
    obtain cs where cs: "merge_coupons_into_gadget ?g (hs_mode s) = fold_res update_with_coupon ?g cs" "set cs = D"
      using mode by (auto simp: merge_coupons_into_gadget_def)
    obtain g' where g': "fold_res update_with_coupon ?g cs = Inr g'" "sketch_of g' (C \<union> D)" "hs_lg_config_k g' = hs_lg_config_k ?g"
      "target_type g' = target_type ?g" "is_array ?g \<longrightarrow> is_array g'"
      using coupons_sketch [OF U(3), of cs] cs(2) S(6) by blast
    have "hll_union_inv (u\<lparr>hu_gadget := g'\<rparr>) (C \<union> D)" using U g' s(3) by (auto simp: hll_union_inv_def split: if_splits)
    moreover have "update_from_list_or_set u s (hs_mode s) (hs_lg_config_k s) (hs_lg_config_k ?g) = Inr (u\<lparr>hu_gadget := g'\<rparr>)"
      using False cs(1) g'(1) by (auto simp: update_from_list_or_set_def)
    ultimately show ?thesis using g'(3) by simp
  qed
qed

lemma union_from_array:
  assumes u: "hll_union_inv u C" and s: "sketch_of s D" "is_array s" "D \<noteq> {}"
  shows "\<exists>u'. update_from_array u (hs_mode s) (hs_lg_config_k s) (hs_lg_config_k (hu_gadget u)) = Inr u' \<and>
    hll_union_inv u' (C \<union> D) \<and> hu_lg_max_k u' = hu_lg_max_k u \<and>
    hs_lg_config_k (hu_gadget u') = min (hs_lg_config_k (hu_gadget u)) (hs_lg_config_k s)"
proof -
  let ?g = "hu_gadget u" and ?m = "hs_mode s" and ?ls = "hs_lg_config_k s"
  let ?lg = "hs_lg_config_k ?g"
  have U: "4 \<le> hu_lg_max_k u" "hu_lg_max_k u \<le> 21" "sketch_of ?g C" "target_type ?g = Hll8"
    "if is_array ?g then ?lg \<le> hu_lg_max_k u \<and> C \<noteq> {} else ?lg = hu_lg_max_k u"
    using u by (simp_all add: hll_union_inv_def)
  note em = sketch_of_empty [OF U(3)] and S = sketch_ofD [OF s(1)] and G = sketch_ofD [OF U(3)]
  note src = array_sketch [OF s(1,2)]
  have CD: "finite (C \<union> D)" "\<And>c. c \<in> C \<union> D \<Longrightarrow> 0 < coupon_value c" using S(3,6) G(3,6) by auto
  have inv: "hll_union_inv (u\<lparr>hu_gadget := h\<rparr>) (C \<union> D)"
    if "sketch_of h (C \<union> D)" "is_array h" "target_type h = Hll8" "hs_lg_config_k h \<le> hu_lg_max_k u" for h
    using that U(1,2) s(3) by (simp add: hll_union_inv_def)
  have fresh: "\<exists>b. copy_or_downsample ?m ?ls (hu_lg_max_k u) = Inr b \<and> gadget_of (min (hu_lg_max_k u) ?ls) b D"
    by (rule copy_ok [OF src S(3) S(1,2) U(1,2)])
  show ?thesis
  proof (cases "hll_is_empty ?g")
    case True
    then have C: "C = {}" and lg: "?lg = hu_lg_max_k u" using em U(5) by (simp_all split: if_splits)
    obtain b where b: "copy_or_downsample ?m ?ls (hu_lg_max_k u) = Inr b" "gadget_of (min (hu_lg_max_k u) ?ls) b D" using fresh by blast
    let ?h = "hll_from_mode (a8_final_lg_k b) (Array8Mode b)"
    have fin: "a8_final_lg_k b = min (hu_lg_max_k u) ?ls" using gadget_ofD(1) [OF b(2)] by (simp add: a8_final_lg_k_def)
    have "hll_union_inv (u\<lparr>hu_gadget := ?h\<rparr>) (C \<union> D)"
      unfolding fin using gadget_sketch(2,4,5) [OF b(2) S(3,6)] C by (intro inv) (simp_all add: hll_from_mode_def)
    then show ?thesis using True b(1) lg by (simp add: update_from_array_def fin) (simp add: hll_from_mode_def)
  next
    case nonempty: False
    show ?thesis
    proof (cases "is_array ?g")
      case False
      have lg: "?lg = hu_lg_max_k u" using U(5) False by simp
      obtain b where b: "copy_or_downsample ?m ?ls (hu_lg_max_k u) = Inr b" "gadget_of (min (hu_lg_max_k u) ?ls) b D" using fresh by blast
      obtain cs where cs: "merge_coupons_into_mode b (hs_mode ?g) = fold_res a8_update b cs" "set cs = C"
        using coupon_sketch [OF U(3) False] by (auto simp: merge_coupons_into_mode_def)
      obtain d where d: "fold_res a8_update b cs = Inr d" "gadget_of (min (hu_lg_max_k u) ?ls) d (C \<union> D)"
        using coupons_gadget [OF b(2) S(3), of cs] cs(2) by (auto simp: Un_commute)
      let ?h = "hll_from_mode (a8_final_lg_k d) (Array8Mode d)"
      have fin: "a8_final_lg_k d = min (hu_lg_max_k u) ?ls" using gadget_ofD(1) [OF d(2)] by (simp add: a8_final_lg_k_def)
      have "hll_union_inv (u\<lparr>hu_gadget := ?h\<rparr>) (C \<union> D)"
        unfolding fin using gadget_sketch(2,4,5) [OF d(2) CD] by (intro inv) (simp_all add: hll_from_mode_def)
      moreover have "update_from_array u ?m ?ls ?lg = Inr (u\<lparr>hu_gadget := ?h\<rparr>)"
        using nonempty b(1) d(1) cs(1) coupon_sketch [OF U(3) False]
        by (auto simp: update_from_array_def promote_gadget_and_merge_array_def)
      ultimately show ?thesis using lg fin by (simp add: hll_from_mode_def)
    next
      case True
      have le: "?lg \<le> hu_lg_max_k u" using U(5) True by simp
      obtain a where a: "hs_mode ?g = Array8Mode a" "gadget_of ?lg a C" using array8_sketch [OF U(3) True U(4)] by blast
      have enter: "update_from_array u ?m ?ls ?lg = merge_array_into_array_gadget u ?m ?ls ?lg"
        using nonempty a(1) by (simp add: update_from_array_def)
      show ?thesis
      proof (cases "?ls < ?lg")
        case less: True
        have old: "array_of ?lg (Array8Mode a) C" using array_sketch [OF U(3) True] a(1) by simp
        obtain b where b: "merge_array_with_downsample (a8_new ?ls) ?ls (Array8Mode a) ?lg = Inr b" "gadget_of ?ls b C"
          using merge_down_ok [OF new_gadget [OF S(1,2)] old less] G(3) by auto
        obtain d where d: "merge_array_same_lgk b ?m = Inr d" "gadget_of ?ls d (C \<union> D)"
          using merge_same_ok [OF b(2) src G(3) S(3)] by blast
        let ?h = "hll_from_mode ?ls (Array8Mode d)"
        have "hll_union_inv (u\<lparr>hu_gadget := ?h\<rparr>) (C \<union> D)"
          using gadget_sketch(2,4,5) [OF d(2) CD] less le by (intro inv) (simp_all add: hll_from_mode_def)
        then show ?thesis unfolding enter using less a(1) b(1) d(1)
          by (simp add: merge_array_into_array_gadget_def) (simp add: hll_from_mode_def)
      next
        case False
        have "\<exists>d. merge_array_into_array8 a ?lg ?m ?ls = Inr d \<and> gadget_of ?lg d (C \<union> D)"
        proof (cases "?lg = ?ls")
          case same: True
          then show ?thesis using merge_same_ok [OF a(2) _ G(3) S(3), of ?m] src by (simp add: merge_array_into_array8_def)
        next
          case diff: False
          then have "?lg < ?ls" using False by simp
          then show ?thesis using merge_down_ok [OF a(2) src _ G(3) S(3)] by (simp add: merge_array_into_array8_def)
        qed
        then obtain d where d: "merge_array_into_array8 a ?lg ?m ?ls = Inr d" "gadget_of ?lg d (C \<union> D)" by blast
        let ?h = "?g\<lparr>hs_mode := Array8Mode d\<rparr>"
        have "?g\<lparr>hs_lg_config_k := ?lg, hs_mode := Array8Mode d\<rparr> = ?h" by simp
        then have "sketch_of ?h (C \<union> D)" using gadget_sketch(1) [OF d(2) CD, of ?g] by simp
        then have "hll_union_inv (u\<lparr>hu_gadget := ?h\<rparr>) (C \<union> D)"
          using gadget_sketch(3) [OF d(2) CD] le by (intro inv) simp_all
        then show ?thesis unfolding enter using False a(1) d(1) by (simp add: merge_array_into_array_gadget_def)
      qed
    qed
  qed
qed

lemma union_update_ok:
  assumes u: "hll_union_inv u C" and s: "sketch_of s D"
  shows "\<exists>u'. hll_union_update u s = Inr u' \<and> hll_union_inv u' (C \<union> D) \<and> hu_lg_max_k u' = hu_lg_max_k u \<and>
    hs_lg_config_k (hu_gadget u') = union_lg (hs_lg_config_k (hu_gadget u)) s"
proof (cases "hll_is_empty s")
  case True
  then have "D = {}" using sketch_of_empty [OF s] by simp
  then show ?thesis using True u by (simp add: hll_union_update_def union_lg_def)
next
  case False
  then have D: "D \<noteq> {}" using sketch_of_empty [OF s] by simp
  show ?thesis
  proof (cases "is_array s")
    case True
    then have "hll_union_update u s = update_from_array u (hs_mode s) (hs_lg_config_k s) (hs_lg_config_k (hu_gadget u))"
      using False by (cases "hs_mode s") (simp_all add: hll_union_update_def is_array_def sketch_abs_def mode_abs_def)
    then show ?thesis using union_from_array [OF u s True D] False True by (simp add: union_lg_def)
  next
    case coupons: False
    then have "hll_union_update u s = update_from_list_or_set u s (hs_mode s) (hs_lg_config_k s) (hs_lg_config_k (hu_gadget u))"
      using False by (cases "hs_mode s") (simp_all add: hll_union_update_def is_array_def sketch_abs_def mode_abs_def)
    then show ?thesis using union_from_coupons [OF u s coupons D] coupons by (simp add: union_lg_def)
  qed
qed

lemma union_new_ok:
  assumes "4 \<le> lg" and "lg \<le> 21"
  shows "\<exists>u. hll_union_new lg = Inr u \<and> hll_union_inv u {} \<and> hu_lg_max_k u = lg"
proof -
  let ?g = "\<lparr>hs_lg_config_k = lg, hs_mode = ListMode list_default Hll8\<rparr>"
  have "spec_holds lg (Listed list_default) {}" using spec_steps_hold [OF assms, of "[]"] by simp
  then have "sketch_of ?g {}" using assms by (simp add: sketch_of_def sketch_ok_def mode_ok_def sketch_abs_def mode_abs_def)
  then show ?thesis using assms
    by (simp add: hll_union_new_def hll_new_def hll_union_inv_def is_array_def sketch_abs_def mode_abs_def target_type_def)
qed

text \<open>A gadget converted to another type has the same registers.\<close>

lemma to_sketch_ok:
  assumes u: "hll_union_inv u C"
  shows "\<exists>t. hll_union_to_sketch composite u ty = Inr t \<and> target_type t = ty \<and> sketch_of t C \<and>
    hs_lg_config_k t = hs_lg_config_k (hu_gadget u)"
proof -
  let ?g = "hu_gadget u"
  let ?lg = "hs_lg_config_k ?g"
  have g: "sketch_of ?g C" and ty8: "target_type ?g = Hll8" using u by (simp_all add: hll_union_inv_def)
  note G = sketch_ofD [OF g]
  have zero: "0 \<notin> C" using G(6) [of 0] by (auto simp: coupon_value_def)
  show ?thesis
  proof (cases "ty = Hll8")
    case True
    then show ?thesis using g ty8 by (simp add: hll_union_to_sketch_def)
  next
    case other: False
    show ?thesis
    proof (cases "is_array ?g")
      case False
      then show ?thesis using other ty8 g coupon_sketch [OF g False]
        by (auto simp: hll_union_to_sketch_def hll_from_mode_def target_type_def sketch_of_def sketch_ok_def mode_ok_def
            sketch_abs_def mode_abs_def)
    next
      case True
      obtain a where a: "hs_mode ?g = Array8Mode a" "gadget_of ?lg a C" using array8_sketch [OF g True ty8] by blast
      note A = gadget_ofD [OF a(2)]
      let ?ps = "packs (coupon_regs ?lg C) (2 ^ ?lg)"
      have regs: "coupon_regs ?lg (set ?ps) = coupon_regs ?lg C" by (rule packs_coupon_regs [OF G(2,3)])
      have get: "get_at (a8_bytes a) s = Inr (coupon_regs ?lg C s)" if "s < 2 ^ ?lg" for s using A(2,6) that by simp
      have cap: "min (coupon_regs ?lg C s) 63 = coupon_regs ?lg C s" for s
        using coupon_regs_lt [OF G(3), of ?lg s] by (simp add: min_def word_le_nat_alt word_less_nat_alt)
      have spec: "fst (spec_updates ?lg (spec_new ?lg) ?ps) = coupon_regs ?lg C"
        using spec_updates_reg [of ?lg "spec_new ?lg" ?ps] regs by (simp add: fun_eq_iff spec_new_def)
      have run: "hll_union_to_sketch composite u ty = convert_array8_to_type composite a ?lg ty"
        using other ty8 a(1) by (simp add: hll_union_to_sketch_def)
      show ?thesis
      proof (cases ty)
        case Hll4
        obtain b where b: "fold_res a4_update (a4_new ?lg) ?ps = Inr b" "a4.good ?lg b"
          "a4_abs b = spec_updates ?lg (a4_abs (a4_new ?lg)) ?ps" using a4.updates_good [OF a4.new_good [OF G(1,2)]] by blast
        define e where "e = (\<lambda>v. if f64_less (hip_estimate composite (a4_estimator b) (a4_lg_config_k b) (unat (a4_cur_min b))
          (unat (a4_num_at_cur_min b))) v then a4_set_hip_accum b v else b)"
        have e: "a4.good ?lg (e v) \<and> fst (a4_abs (e v)) = coupon_regs ?lg C" for v
          using b(2,3) a4.set_hip_good [OF b(2), of v] spec a4_new_refines [OF G(1,2)] by (simp add: e_def spec_set_hip_def)
        have "\<exists>v. convert_array8_to_type composite a ?lg Hll4 = Inr (hll_from_mode ?lg (Array4Mode (e v)))"
          using fold_packs [of "2 ^ ?lg" "get_at (a8_bytes a)" "coupon_regs ?lg C" "\<lambda>v. v" a4_update "a4_new ?lg"] get b(1) A(1)
          by (simp add: convert_array8_to_type_def Let_def e_def) blast
        then obtain v where "convert_array8_to_type composite a ?lg Hll4 = Inr (hll_from_mode ?lg (Array4Mode (e v)))" by blast
        moreover have "sketch_of (hll_from_mode ?lg (Array4Mode (e v))) C"
          using e [of v] G zero
          by (auto simp: sketch_of_def sketch_ok_def mode_ok_def hll_from_mode_def sketch_abs_def mode_abs_def spec_holds_def a4.good_def)
        ultimately show ?thesis using run Hll4 by (simp add: hll_from_mode_def target_type_def)
      next
        case Hll6
        obtain b where b: "fold_res a6_update (a6_new ?lg) ?ps = Inr b" "a6.good ?lg b"
          "a6_abs b = spec_updates ?lg (a6_abs (a6_new ?lg)) ?ps" using a6.updates_good [OF a6.new_good [OF G(1,2)]] by blast
        define e where "e = (\<lambda>v. if f64_less (hip_estimate composite (a6_estimator b) (a6_lg_config_k b) 0 (unat (a6_num_zeros b))) v
          then a6_set_hip_accum b v else b)"
        have new: "a6_abs (a6_new ?lg) = spec_new ?lg" using a6.new_refines [OF G(1,2)] by simp
        have e: "a6.good ?lg (e v) \<and> fst (a6_abs (e v)) = coupon_regs ?lg C" for v
          using b(2,3) a6.set_hip_good [OF b(2), of v] spec new by (simp add: e_def spec_set_hip_def)
        have "\<exists>v. convert_array8_to_type composite a ?lg Hll6 = Inr (hll_from_mode ?lg (Array6Mode (e v)))"
          using fold_packs [of "2 ^ ?lg" "get_at (a8_bytes a)" "coupon_regs ?lg C" "\<lambda>v. min v 63" a6_update "a6_new ?lg"] get b(1) A(1) cap
          by (simp add: convert_array8_to_type_def Let_def e_def) blast
        then obtain v where "convert_array8_to_type composite a ?lg Hll6 = Inr (hll_from_mode ?lg (Array6Mode (e v)))" by blast
        moreover have "sketch_of (hll_from_mode ?lg (Array6Mode (e v))) C"
          using e [of v] G zero
          by (auto simp: sketch_of_def sketch_ok_def mode_ok_def hll_from_mode_def sketch_abs_def mode_abs_def spec_holds_def a6.good_def)
        ultimately show ?thesis using run Hll6 by (simp add: hll_from_mode_def target_type_def)
      qed (use other in simp)
    qed
  qed
qed

section \<open>Properties of the union\<close>

definition sketch_of_items :: "nat \<Rightarrow> hll_type \<Rightarrow> u8 list list list \<Rightarrow> hll_sketch res" where
  "sketch_of_items lg ty items = bind_res (hll_new lg ty) (\<lambda>s. fold_res hll_update s items)"

definition union_of_streams :: "nat \<Rightarrow> (nat \<times> hll_type \<times> u8 list list list) list \<Rightarrow> hll_union res" where
  "union_of_streams lg_max_k sources =
     bind_res (hll_union_new lg_max_k) (\<lambda>u.
       fold_res (\<lambda>u (lg, ty, items). bind_res (sketch_of_items lg ty items) (hll_union_update u)) u sources)"

definition source_coupons :: "(nat \<times> hll_type \<times> u8 list list list) list \<Rightarrow> coupon set" where
  "source_coupons sources = (\<Union>(lg, ty, items) \<in> set sources. coupon_from_value ` set items)"

lemma coupon_from_value_pos: "0 < coupon_value (coupon_from_value item)"
proof -
  obtain lo hi where h: "murmur_hash DEFAULT_UPDATE_SEED item = (lo, hi)" by (cases "murmur_hash DEFAULT_UPDATE_SEED item")
  define n where "n = min (leading_zeros hi) 62 + 1"
  let ?a = "ucast lo AND KEY_MASK_26 :: u32"
  have n: "0 < n" "n < 64" by (simp_all add: n_def min_def)
  have c: "coupon_from_value item = push_bit 26 (of_nat n) OR ?a"
    unfolding coupon_from_value_def h Let_def KEY_BITS_26_def n_def by simp
  have "drop_bit 26 (push_bit 26 (of_nat n) OR ?a) = take_bit 6 (of_nat n :: u32)"
    by (rule bit_word_eqI) (auto simp: bit_simps bit_key_mask)
  moreover have "unat (take_bit 6 (of_nat n :: u32)) = n"
    unfolding unsigned_take_bit_eq unsigned_of_nat using n by (simp add: take_bit_nat_eq_self)
  ultimately have "unat (coupon_value (coupon_from_value item)) = n"
    unfolding coupon_value_def c KEY_BITS_26_def unsigned_ucast_eq using n by (simp add: take_bit_nat_eq_self)
  then show ?thesis using n(1) by (simp add: word_less_nat_alt)
qed

lemma sketch_of_items_ok:
  assumes "4 \<le> lg" and "lg \<le> 21"
  shows "\<exists>s. sketch_of_items lg ty items = Inr s \<and> sketch_of s (coupon_from_value ` set items) \<and> hs_lg_config_k s = lg"
proof -
  obtain s0 s where "hll_new lg ty = Inr s0" "hll_update_all s0 (map coupon_from_value items) = Inr s" "sketch_ok s"
    "hs_lg_config_k s = lg" "spec_holds lg (sketch_abs s) (set (map coupon_from_value items))"
    using hll_stream [OF assms hll_items] by blast
  then show ?thesis using coupon_from_value_pos by (auto simp: sketch_of_items_def hll_update_items sketch_of_def)
qed

text \<open>The sizes of the sources whose sketches have gone on to an array of registers\<close>

definition array_sizes :: "(nat \<times> hll_type \<times> u8 list list list) list \<Rightarrow> nat set" where
  "array_sizes sources =
     {lg. \<exists>ty items s. (lg, ty, items) \<in> set sources \<and> sketch_of_items lg ty items = Inr s \<and> is_array s}"

lemma finite_array_sizes [simp]: "finite (array_sizes sources)"
proof (rule finite_subset)
  show "array_sizes sources \<subseteq> fst ` set sources" by (force simp: array_sizes_def)
qed simp

lemma array_sizes_snoc:
  assumes "sketch_of_items lg ty items = Inr s"
  shows "array_sizes (ys @ [(lg, ty, items)]) = (if is_array s then insert lg (array_sizes ys) else array_sizes ys)"
  using assms by (auto simp: array_sizes_def)

text \<open>A sketch in an array mode has seen an item.\<close>

lemma array_not_empty:
  assumes "sketch_of_items lg ty items = Inr s" and "sketch_of s (coupon_from_value ` set items)" and "is_array s"
  shows "\<not> hll_is_empty s"
proof -
  have "items \<noteq> []"
    using assms(1,3) by (auto simp: sketch_of_items_def hll_new_def is_array_def sketch_abs_def mode_abs_def split: if_splits)
  then show ?thesis using sketch_of_empty [OF assms(2)] by simp
qed

lemma union_of_streams_ok:
  assumes "4 \<le> lg_max" "lg_max \<le> 21" and "list_all (\<lambda>(lg, ty, items). 4 \<le> lg \<and> lg \<le> 21) sources"
  shows "\<exists>u. union_of_streams lg_max sources = Inr u \<and> hll_union_inv u (source_coupons sources) \<and>
    hs_lg_config_k (hu_gadget u) = Min (insert lg_max (array_sizes sources))"
proof -
  obtain u0 where u0: "hll_union_new lg_max = Inr u0" "hll_union_inv u0 {}" "hu_lg_max_k u0 = lg_max"
    using union_new_ok [OF assms(1,2)] by blast
  let ?P = "\<lambda>u ys. hll_union_inv u (source_coupons ys) \<and> hu_lg_max_k u = lg_max \<and>
    hs_lg_config_k (hu_gadget u) = Min (insert lg_max (array_sizes ys))"
  have "\<exists>u. fold_res (\<lambda>u (lg, ty, items). bind_res (sketch_of_items lg ty items) (hll_union_update u)) u0 sources = Inr u \<and> ?P u sources"
  proof (rule fold_res_prefix [where P = ?P])
    show "?P u0 []" using u0 by (simp add: source_coupons_def array_sizes_def hll_union_inv_def split: if_splits)
  next
    fix u ys x zs
    assume split: "sources = ys @ x # zs" and P: "?P u ys"
    obtain lg ty items where x: "x = (lg, ty, items)" by (cases x)
    have lg: "4 \<le> lg" "lg \<le> 21" using assms(3) split x by simp_all
    obtain s where s: "sketch_of_items lg ty items = Inr s" "sketch_of s (coupon_from_value ` set items)"
      using sketch_of_items_ok [OF lg] by blast
    have size: "hs_lg_config_k s = lg" using sketch_of_items_ok [OF lg, of ty items] s(1) by auto
    obtain u' where u': "hll_union_update u s = Inr u'" "hll_union_inv u' (source_coupons ys \<union> coupon_from_value ` set items)"
      "hu_lg_max_k u' = hu_lg_max_k u" "hs_lg_config_k (hu_gadget u') = union_lg (hs_lg_config_k (hu_gadget u)) s"
      using union_update_ok [OF _ s(2)] P by blast
    have "hs_lg_config_k (hu_gadget u') = Min (insert lg_max (array_sizes (ys @ [x])))"
      using u'(4) P array_not_empty [OF s] size unfolding x array_sizes_snoc [OF s(1)] union_lg_def
      by (auto simp: insert_commute [of lg_max lg] min.commute)
    with u' show "\<exists>u'. (case x of (lg, ty, items) \<Rightarrow> bind_res (sketch_of_items lg ty items) (hll_union_update u)) = Inr u' \<and> ?P u' (ys @ [x])"
      using s(1) P x by (simp add: source_coupons_def Un_commute)
  qed
  then show ?thesis using u0(1) by (auto simp: union_of_streams_def)
qed

text \<open>
  C6. The HLL union is exact: sketches of any number of streams, with any sizes, target types and modes, merged in
  any order into a union never panic, and the sketch that the union converts to, of any requested type, represents
  the coupons of all the streams together: as its own coupons, or with registers that are the greatest values for
  their slots. Its size is exactly the least of \<open>lg_max_k\<close> and the sizes of the sources that are in an array mode;
  a source that still is a list or a set of coupons does not lower it. Merging and folding lose nothing that one
  sketch of that size over the concatenated streams would keep.
\<close>
theorem hll_union_exact:
  assumes "4 \<le> lg_max" and "lg_max \<le> 21" and "list_all (\<lambda>(lg, ty, items). 4 \<le> lg \<and> lg \<le> 21) sources"
  shows "\<exists>u t. union_of_streams lg_max sources = Inr u \<and> hll_union_to_sketch composite u ty = Inr t \<and> target_type t = ty \<and>
    hs_lg_config_k t = Min (insert lg_max (array_sizes sources)) \<and>
    represents (hs_lg_config_k t) (hs_mode t) (source_coupons sources)"
proof -
  obtain u where u: "union_of_streams lg_max sources = Inr u" "hll_union_inv u (source_coupons sources)"
    "hs_lg_config_k (hu_gadget u) = Min (insert lg_max (array_sizes sources))"
    using union_of_streams_ok [OF assms] by blast
  obtain t where t: "hll_union_to_sketch composite u ty = Inr t" "target_type t = ty" "sketch_of t (source_coupons sources)"
    "hs_lg_config_k t = hs_lg_config_k (hu_gadget u)" using to_sketch_ok [OF u(2)] by blast
  have "represents (hs_lg_config_k t) (hs_mode t) (source_coupons sources)"
    using sketch_represents sketch_ofD(4,5) [OF t(3)] by blast
  then show ?thesis using u(1,3) t(1,2,4) by auto
qed

theorem hll_union_exact_witness:
  "\<exists>u t. union_of_streams 10 [(12, Hll4, [[[1, 2]], [[3]]]), (8, Hll6, [[[3]]])] = Inr u \<and>
    hll_union_to_sketch (\<lambda>_ _ _ _. 0) u Hll8 = Inr t \<and> target_type t = Hll8 \<and>
    hs_lg_config_k t = Min (insert 10 (array_sizes [(12, Hll4, [[[1, 2]], [[3]]]), (8, Hll6, [[[3]]])])) \<and>
    represents (hs_lg_config_k t) (hs_mode t) (source_coupons [(12, Hll4, [[[1, 2]], [[3]]]), (8, Hll6, [[[3]]])])"
  by (rule hll_union_exact) simp_all

text \<open>
  C38. An out-of-order array with 4 or 6 bits is merged into an empty union as if it were in order, when it is no
  larger than the union: the gadget is an array with 8 bits and the same registers whose estimator is not marked out of order
  and has the accumulator of the source, which an out-of-order estimator has reset to zero. So, whatever composite
  estimator is used, the union of a sketch that is not empty estimates zero. (The comment of \<open>copy_or_downsample\<close>
  says that its result is marked as out of order; the path through coupons does not do it.)
\<close>
theorem hll_union_forgets_order:
  assumes "hll_union_inv u {}" and "sketch_of s D" and "D \<noteq> {}"
    and "(\<exists>a. hs_mode s = Array4Mode a \<and> he_out_of_order (a4_estimator a) \<and> he_hip_accum (a4_estimator a) = 0) \<or>
      (\<exists>a. hs_mode s = Array6Mode a \<and> he_out_of_order (a6_estimator a) \<and> he_hip_accum (a6_estimator a) = 0)"
    and "hs_lg_config_k s \<le> hu_lg_max_k u"
  shows "\<exists>u' b. hll_union_update u s = Inr u' \<and> hs_mode (hu_gadget u') = Array8Mode b \<and>
    hs_lg_config_k (hu_gadget u') = hs_lg_config_k s \<and>
    (\<forall>i < 2 ^ hs_lg_config_k s. a8_reg b i = coupon_regs (hs_lg_config_k s) D i) \<and>
    \<not> he_out_of_order (a8_estimator b) \<and> he_hip_accum (a8_estimator b) = 0 \<and>
    \<not> hll_union_is_empty u' \<and> hll_union_estimate composite u' = 0"
proof -
  let ?lg = "hs_lg_config_k s"
  note S = sketch_ofD [OF assms(2)]
  have g: "sketch_of (hu_gadget u) {}" using assms(1) by (simp add: hll_union_inv_def)
  have src: "is_array s" "\<not> hll_is_empty s" and em: "hll_is_empty (hu_gadget u)"
    using assms(4) sketch_of_empty [OF assms(2)] assms(3) sketch_of_empty [OF g]
    by (auto simp: is_array_def sketch_abs_def mode_abs_def)
  note arr = array_ofD [OF array_sketch [OF assms(2) src(1)]]
  obtain b where b: "fold_res a8_update (a8_new ?lg) (packs (coupon_regs ?lg D) (2 ^ ?lg)) = Inr b" "a8.good ?lg b"
    "a8_abs b = spec_updates ?lg (a8_abs (a8_new ?lg)) (packs (coupon_regs ?lg D) (2 ^ ?lg))"
    using a8.updates_good [OF a8.new_good [OF S(1,2)]] by blast
  have order: "\<not> he_out_of_order (a8_estimator b)"
    using arg_cong [OF b(3), of "\<lambda>st. he_out_of_order (snd st)"] a8_new_refines [of ?lg]
    by (simp add: a8_abs_def) (simp add: spec_new_def hip_new_def)
  have reg: "a8_reg b = coupon_regs ?lg D"
    using arg_cong [OF b(3), of fst] spec_updates_reg [of ?lg "spec_new ?lg" "packs (coupon_regs ?lg D) (2 ^ ?lg)"]
      a8_new_refines [of ?lg] packs_coupon_regs [OF S(2,3)]
    by (simp add: a8_abs_def fun_eq_iff) (simp add: spec_new_def)
  have cfg: "a8_lg_config_k b = ?lg" using b(2) by (simp add: a8.good_def a8_ok_def)
  let ?b = "a8_set_hip_accum b 0"
  have fields: "a8_reg ?b = a8_reg b" "a8_lg_config_k ?b = ?lg" "\<not> he_out_of_order (a8_estimator ?b)"
    "he_hip_accum (a8_estimator ?b) = 0"
    using order cfg by (simp_all add: a8_set_hip_accum_def set_hip_accum_def a8_reg_def fun_eq_iff)
  have via: "copy_array46_via_coupons (a8_new ?lg) (2 ^ ?lg) get = Inr b"
    if "\<And>i. i < 2 ^ ?lg \<Longrightarrow> get i = Inr (coupon_regs ?lg D i)" for get
    using fold_packs [of "2 ^ ?lg" get "coupon_regs ?lg D" "\<lambda>v. v" a8_update "a8_new ?lg"] that b(1)
    by (simp add: copy_array46_via_coupons_def)
  have "copy_or_downsample (hs_mode s) ?lg (hu_lg_max_k u) = Inr ?b"
    using arr assms(4,5) via by (auto simp: copy_or_downsample_def get_array_hip_accum_def Let_def)
  then have run: "hll_union_update u s = Inr (u\<lparr>hu_gadget := hll_from_mode ?lg (Array8Mode ?b)\<rparr>)"
    using src em assms(4) fields(2) by (auto simp: hll_union_update_def update_from_array_def a8_final_lg_k_def)
  let ?u = "u\<lparr>hu_gadget := hll_from_mode ?lg (Array8Mode ?b)\<rparr>"
  obtain u' where "hll_union_update u s = Inr u'" "hll_union_inv u' ({} \<union> D)" using union_update_ok [OF assms(1,2)] by blast
  then have "hll_union_inv ?u D" using run by simp
  then have "\<not> hll_union_is_empty ?u"
    using sketch_of_empty assms(3) unfolding hll_union_inv_def hll_union_is_empty_def by blast
  moreover have "hll_union_estimate composite ?u = 0"
    using fields(3,4) by (simp add: hll_union_estimate_def hll_estimate_def hll_from_mode_def hip_estimate_def)
  ultimately show ?thesis
    using run fields reg by (intro exI [of _ ?u] exI [of _ ?b]) (simp add: hll_from_mode_def)
qed

text \<open>An array with 4 bits after one coupon, marked out of order as a reader marks it\<close>

lemma out_of_order_sketch:
  assumes "4 \<le> lg" and "lg \<le> 21" and "0 < coupon_value c"
  shows "\<exists>a. he_out_of_order (a4_estimator a) \<and> he_hip_accum (a4_estimator a) = 0 \<and>
    sketch_of \<lparr>hs_lg_config_k = lg, hs_mode = Array4Mode a\<rparr> {c}"
proof -
  obtain b where b: "a4.good lg b" "a4_abs b = spec_updates lg (spec_new lg) [c]"
    using a4.updates_good [OF a4.new_good [OF assms(1,2)], of "[c]"] a4_new_refines [OF assms(1,2)] by auto
  let ?a = "b\<lparr>a4_estimator := set_out_of_order (a4_estimator b) True\<rparr>"
  have core: "a4_core lg b (a4_reg b)" using b(1) by (simp add: a4.good_def a4_ok_def)
  have "a4_core lg ?a (a4_reg b)" using core by (simp add: a4_core_def)
  then have reg: "a4_reg ?a = a4_reg b" by (rule a4_core_reg)
  have "a4_ok lg ?a" using b(1) \<open>a4_core lg ?a (a4_reg b)\<close> unfolding a4.good_def a4_ok_def reg by simp
  moreover have "spec_ok lg (a4_abs ?a)"
    using b(1) unfolding a4.good_def a4_abs_def reg by (simp add: spec_ok_def kxq_ok_def set_out_of_order_def)
  moreover have "a4_reg b = coupon_regs lg {c}"
  proof
    fix i
    show "a4_reg b i = coupon_regs lg {c} i"
      using arg_cong [OF b(2), of "\<lambda>st. fst st i"] spec_updates_reg [of lg "spec_new lg" "[c]" i] by (simp add: a4_abs_def spec_new_def)
  qed
  moreover have "c \<noteq> 0" using assms(3) by (auto simp: coupon_value_def)
  ultimately have "sketch_of \<lparr>hs_lg_config_k = lg, hs_mode = Array4Mode ?a\<rparr> {c}"
    using assms reg by (simp add: sketch_of_def sketch_ok_def mode_ok_def a4.good_def sketch_abs_def mode_abs_def spec_holds_def a4_abs_def)
  then show ?thesis by (intro exI [of _ ?a]) (simp add: set_out_of_order_def Let_def)
qed

lemma out_of_order_sketch6:
  assumes "4 \<le> lg" and "lg \<le> 21" and "0 < coupon_value c"
  shows "\<exists>a. he_out_of_order (a6_estimator a) \<and> he_hip_accum (a6_estimator a) = 0 \<and>
    sketch_of \<lparr>hs_lg_config_k = lg, hs_mode = Array6Mode a\<rparr> {c}"
proof -
  obtain b where b: "a6.good lg b" "a6_abs b = spec_updates lg (spec_new lg) [c]"
    using a6.updates_good [OF a6.new_good [OF assms(1,2)], of "[c]"] a6.new_refines [OF assms(1,2)] by auto
  let ?a = "b\<lparr>a6_estimator := set_out_of_order (a6_estimator b) True\<rparr>"
  have "a6_ok lg ?a" using b(1) by (simp add: a6.good_def a6_ok_def)
  moreover have "spec_ok lg (a6_abs ?a)"
    using b(1) unfolding a6.good_def a6_abs_def a6_reg_cong by (simp add: spec_ok_def kxq_ok_def set_out_of_order_def)
  moreover have "a6_reg b = coupon_regs lg {c}"
  proof
    fix i
    show "a6_reg b i = coupon_regs lg {c} i"
      using arg_cong [OF b(2), of "\<lambda>st. fst st i"] spec_updates_reg [of lg "spec_new lg" "[c]" i] by (simp add: a6_abs_def spec_new_def)
  qed
  moreover have "c \<noteq> 0" using assms(3) by (auto simp: coupon_value_def)
  ultimately have "sketch_of \<lparr>hs_lg_config_k = lg, hs_mode = Array6Mode ?a\<rparr> {c}"
    using assms by (simp add: sketch_of_def sketch_ok_def mode_ok_def a6.good_def sketch_abs_def mode_abs_def spec_holds_def a6_abs_def)
  then show ?thesis by (intro exI [of _ ?a]) (simp add: set_out_of_order_def Let_def)
qed

theorem hll_union_forgets_order_witness:
  "\<exists>u s a u' t c t'. hll_union_new 10 = Inr u \<and> hs_mode s = Array4Mode a \<and> he_out_of_order (a4_estimator a) \<and> \<not> hll_is_empty s \<and>
    hll_union_update u s = Inr u' \<and> \<not> hll_union_is_empty u' \<and> hll_union_estimate (\<lambda>_ _ _ _. 1) u' = 0 \<and>
    hs_mode t = Array6Mode c \<and> he_out_of_order (a6_estimator c) \<and> \<not> hll_is_empty t \<and>
    hll_union_update u t = Inr t' \<and> \<not> hll_union_is_empty t' \<and> hll_union_estimate (\<lambda>_ _ _ _. 1) t' = 0"
proof -
  obtain u where u: "hll_union_new 10 = Inr u" "hll_union_inv u {}" "hu_lg_max_k u = 10" using union_new_ok [of 10] by auto
  let ?c = "coupon_from_value [[1]]"
  obtain a where a: "he_out_of_order (a4_estimator a)" "he_hip_accum (a4_estimator a) = 0"
    "sketch_of \<lparr>hs_lg_config_k = 8, hs_mode = Array4Mode a\<rparr> {?c}"
    using out_of_order_sketch [of 8 ?c] coupon_from_value_pos by auto
  let ?s = "\<lparr>hs_lg_config_k = 8, hs_mode = Array4Mode a\<rparr>"
  obtain u' where u': "hll_union_update u ?s = Inr u'" "\<not> hll_union_is_empty u'" "hll_union_estimate (\<lambda>_ _ _ _. 1) u' = 0"
    using hll_union_forgets_order [OF u(2) a(3), of "\<lambda>_ _ _ _. 1"] a(1,2) u(3) by auto
  obtain b where b: "he_out_of_order (a6_estimator b)" "he_hip_accum (a6_estimator b) = 0"
    "sketch_of \<lparr>hs_lg_config_k = 8, hs_mode = Array6Mode b\<rparr> {?c}"
    using out_of_order_sketch6 [of 8 ?c] coupon_from_value_pos by auto
  let ?t = "\<lparr>hs_lg_config_k = 8, hs_mode = Array6Mode b\<rparr>"
  obtain t' where t': "hll_union_update u ?t = Inr t'" "\<not> hll_union_is_empty t'" "hll_union_estimate (\<lambda>_ _ _ _. 1) t' = 0"
    using hll_union_forgets_order [OF u(2) b(3), of "\<lambda>_ _ _ _. 1"] b(1,2) u(3) by auto
  have "\<not> hll_is_empty ?s" "\<not> hll_is_empty ?t" using sketch_of_empty [OF a(3)] sketch_of_empty [OF b(3)] by simp_all
  then show ?thesis using u(1) a(1) u' b(1) t'
    by (intro exI [of _ u] exI [of _ ?s] exI [of _ a] exI [of _ u'] exI [of _ ?t] exI [of _ b] exI [of _ t']) simp
qed

text \<open>
  C39. The reader of the list form counts coupons that are not there: an image that announces eight coupons, all of
  them the word 0 that marks a free place, is accepted, as a sketch that is not empty but holds no coupon. Its count
  never meets the capacity again, so the list is never promoted: of nine different coupons the ninth is dropped.
\<close>
theorem hll_reader_counts_empty_coupons:
  "\<exists>l s l'. hll_deserialize ([2, 1, 7, 12, 3, 8, 8, 8] @ replicate 32 0) = Inr s \<and> hs_mode s = ListMode l Hll8 \<and>
    \<not> hll_is_empty s \<and> container_iter l = [] \<and>
    hll_update_all s [0x4000001, 0x4000002, 0x4000003, 0x4000004, 0x4000005, 0x4000006, 0x4000007, 0x4000008, 0x4000009] =
      Inr (s\<lparr>hs_mode := ListMode l' Hll8\<rparr>) \<and>
    set (container_iter l') = {0x4000001, 0x4000002, 0x4000003, 0x4000004, 0x4000005, 0x4000006, 0x4000007, 0x4000008}"
proof -
  let ?l = "\<lparr>hc_lg_size = 3, hc_coupons = replicate 8 0, hc_len = 8\<rparr>"
  let ?s = "\<lparr>hs_lg_config_k = 12, hs_mode = ListMode ?l Hll8\<rparr>"
  let ?cs = "[0x4000001, 0x4000002, 0x4000003, 0x4000004, 0x4000005, 0x4000006, 0x4000007, 0x4000008] :: coupon list"
  let ?l' = "\<lparr>hc_lg_size = 3, hc_coupons = ?cs, hc_len = 16\<rparr>"
  define img :: "u8 list" where "img = [2, 1, 7, 12, 3, 8, 8, 8] @ replicate 32 0"
  have bs: "img =
    [2, HLL_SERIAL_VERSION, fam_id family_hll, of_nat 12, 3, 8, 8, 8] @ concat (map to_le_bytes (replicate 8 (0 :: u32)))"
  proof -
    have "to_le_bytes (0 :: u32) = replicate 4 0" by (rule nth_equalityI) (simp_all add: to_le_bytes_def)
    then show ?thesis by (simp add: img_def HLL_SERIAL_VERSION_def family_hll_def) (simp add: numeral_eq_Suc)
  qed
  have ty: "hll_type_of (extract_tgt_hll_type 8) = Inr Hll8"
    by (simp add: hll_type_of_def extract_tgt_hll_type_def TGT_HLL4_def TGT_HLL6_def TGT_HLL8_def)
  let ?c = "advance 8 (new_slice img)"
  have rem: "remaining ?c = concat (map to_le_bytes (replicate 8 (0 :: u32)))" using header_reads(9) [OF bs] .
  have "list_deserialize ?c 3 8 False True = Inr ?l"
    using read_coupons_enc [of ?c "replicate 8 0" "[]"] rem u32_le_codec.length_wr_many [of "replicate 8 0"]
    by (simp add: list_deserialize_def Let_def container_from_coupons_def)
  then have "hll_deserialize img = Inr ?s"
    by (subst hll_deserialize_header [OF bs _ _ ty])
      (simp_all add: extract_cur_mode_def CUR_MODE_LIST_def LIST_PREINTS_def EMPTY_FLAG_MASK_def COMPACT_FLAG_MASK_def)
  moreover have "hll_update_all ?s (?cs @ [0x4000009]) = Inr (?s\<lparr>hs_mode := ListMode ?l' Hll8\<rparr>)"
  proof -
    have "replicate 8 (0 :: coupon) = [0, 0, 0, 0, 0, 0, 0, 0]" by (simp add: numeral_eq_Suc)
    then show ?thesis
      by (simp add: hll_update_all_def update_with_coupon_def list_update_coupon_def container_is_full_def Let_def)
  qed
  ultimately show ?thesis unfolding img_def
    by (intro exI [of _ ?l] exI [of _ ?s] exI [of _ ?l'])
      (simp add: hll_is_empty_def container_is_empty_def container_iter_def)
qed

end
