(* ===== verification/TupleSketch.thy ===== *)
theory TupleSketch
  imports ThetaUnion ThetaIntersection ThetaANotB
begin

text \<open>
  The Tuple sketch: \<open>src/datasketches/src/thetafamily/tuple/policy.rs\<close>, \<open>tuple/hash_table.rs\<close> and
  \<open>TupleSketch\<close>, \<open>CompactTupleSketch\<close>, \<open>TupleSketchView\<close>, \<open>TupleSketchBuilder\<close> of \<open>tuple/sketch.rs\<close>.
  The hash table is the one of the Theta family; an entry carries a summary next to its hash. The
  summary type \<open>'s\<close>, the type \<open>'u\<close> of the update values and the policy are supplied by the caller,
  as in the source. The builder has the fields of \<open>theta_builder\<close>, and the policy on its own.
\<close>

section \<open>Policies and entries\<close>

record ('s, 'u) update_policy =
  up_create :: 's
  up_update :: "'s \<Rightarrow> 'u \<Rightarrow> 's"

record 's combine_policy =
  cb_create :: 's
  cb_combine :: "'s \<Rightarrow> 's \<Rightarrow> 's"

text \<open>The default policies, over the default value and the \<open>+=\<close> of the summary type\<close>

definition default_update_policy :: "'s \<Rightarrow> ('s \<Rightarrow> 'u \<Rightarrow> 's) \<Rightarrow> ('s, 'u) update_policy" where
  "default_update_policy dflt add_assign = \<lparr>up_create = dflt, up_update = add_assign\<rparr>"

definition default_union_policy :: "'s \<Rightarrow> ('s \<Rightarrow> 's \<Rightarrow> 's) \<Rightarrow> 's combine_policy" where
  "default_union_policy dflt add_assign = \<lparr>cb_create = dflt, cb_combine = add_assign\<rparr>"

datatype 's tuple_entry = TupleEntry (tue_hash: u64) (tue_summary: 's)

definition tuple_entry_new :: "u64 \<Rightarrow> 's \<Rightarrow> 's tuple_entry res" where
  "tuple_entry_new hash summary =
     (if hash \<noteq> 0 then Inr (TupleEntry hash summary) else Inl (Panic ''hash must be non-zero''))"

text \<open>
  The callback of the caller works on summaries; the table's callback wraps it. As for the Theta
  sketch, the panic of \<open>TupleEntry::new\<close> is the None that no search gets to.
\<close>

definition tuple_try_insert_hash ::
  "'s tuple_entry sketch_table \<Rightarrow> u64 \<Rightarrow> 's upsert \<Rightarrow> ('s tuple_entry sketch_table \<times> bool) res" where
  "tuple_try_insert_hash t hash f =
     upsert_entry tue_hash t hash
       \<lparr>on_existing = (\<lambda>entry. TupleEntry (tue_hash entry) (on_existing f (tue_summary entry))),
        on_new = (case on_new f of
            None \<Rightarrow> None
          | Some summary \<Rightarrow> (case tuple_entry_new hash summary of Inr e \<Rightarrow> Some e | Inl _ \<Rightarrow> None))\<rparr>"

definition tuple_try_insert ::
  "'s tuple_entry sketch_table \<Rightarrow> u8 list list \<Rightarrow> 's upsert \<Rightarrow> ('s tuple_entry sketch_table \<times> bool) res" where
  "tuple_try_insert t key f = (let hash = table_hash t key in tuple_try_insert_hash t hash f)"

text \<open>How the set operations merge an entry with another one of the same hash\<close>

definition entry_merge :: "'s combine_policy \<Rightarrow> 's tuple_entry \<Rightarrow> 's tuple_entry \<Rightarrow> 's tuple_entry" where
  "entry_merge pol existing incoming =
     TupleEntry (tue_hash existing) (cb_combine pol (tue_summary existing) (tue_summary incoming))"

section \<open>The sketch\<close>

record ('s, 'u) tuple_sketch =
  tp_table :: "'s tuple_entry sketch_table"
  tp_policy :: "('s, 'u) update_policy"

definition tuple_build :: "theta_builder \<Rightarrow> ('s, 'u) update_policy \<Rightarrow> ('s, 'u) tuple_sketch res" where
  "tuple_build b pol =
     bind_res (table_new (tb_lg_k b) (tb_resize_factor b) (tb_sampling_probability b) (tb_seed b))
       (\<lambda>table. Inr \<lparr>tp_table = table, tp_policy = pol\<rparr>)"

definition tuple_update :: "('s, 'u) tuple_sketch \<Rightarrow> u8 list list \<Rightarrow> 'u \<Rightarrow> ('s, 'u) tuple_sketch res" where
  "tuple_update s key v =
     (let pol = tp_policy s
      in bind_res (tuple_try_insert (tp_table s) key
           \<lparr>on_existing = (\<lambda>summary. up_update pol summary v),
            on_new = (let summary = up_create pol in Some (up_update pol summary v))\<rparr>) (\<lambda>(table, _).
         Inr (s\<lparr>tp_table := table\<rparr>)))"

definition tuple_trim :: "('s, 'u) tuple_sketch \<Rightarrow> ('s, 'u) tuple_sketch res" where
  "tuple_trim s = bind_res (table_trim tue_hash (tp_table s)) (\<lambda>table. Inr (s\<lparr>tp_table := table\<rparr>))"

definition tuple_reset :: "('s, 'u) tuple_sketch \<Rightarrow> ('s, 'u) tuple_sketch" where
  "tuple_reset s = s\<lparr>tp_table := table_reset (tp_table s)\<rparr>"

definition tuple_iter :: "('s, 'u) tuple_sketch \<Rightarrow> (u64 \<times> 's) list" where
  "tuple_iter s = map (\<lambda>entry. (tue_hash entry, tue_summary entry)) (iter_entries (tp_table s))"

text \<open>The compact form\<close>

record 's compact_tuple =
  cu_entries :: "'s tuple_entry list"
  cu_theta :: u64
  cu_seed_hash :: u16
  cu_ordered :: bool
  cu_empty :: bool

definition compact_tuple_from_parts :: "'s tuple_entry compact_parts \<Rightarrow> 's compact_tuple" where
  "compact_tuple_from_parts parts =
     \<lparr>cu_entries = cp_entries parts, cu_theta = cp_theta parts, cu_seed_hash = cp_seed_hash parts,
      cu_ordered = cp_ordered parts, cu_empty = cp_empty parts\<rparr>"

definition tuple_compact :: "('s, 'u) tuple_sketch \<Rightarrow> bool \<Rightarrow> 's compact_tuple res" where
  "tuple_compact s ordered =
     bind_res (table_to_compact_parts tue_hash (tp_table s) ordered) (\<lambda>parts.
       Inr (compact_tuple_from_parts parts))"

definition view_of_tuple :: "('s, 'u) tuple_sketch \<Rightarrow> 's tuple_entry sketch_view res" where
  "view_of_tuple s =
     bind_res (compute_seed_hash (ht_seed (tp_table s))) (\<lambda>seed_hash.
       Inr \<lparr>sv_seed_hash = seed_hash, sv_theta = ht_theta (tp_table s),
         sv_empty = ht_is_empty (tp_table s), sv_ordered = False,
         sv_num_retained = ht_num_retained (tp_table s), sv_entries = iter_entries (tp_table s)\<rparr>)"

definition view_of_compact_tuple :: "'s compact_tuple \<Rightarrow> 's tuple_entry sketch_view" where
  "view_of_compact_tuple s =
     \<lparr>sv_seed_hash = cu_seed_hash s, sv_theta = cu_theta s, sv_empty = cu_empty s,
      sv_ordered = cu_ordered s, sv_num_retained = length (cu_entries s), sv_entries = cu_entries s\<rparr>"

section \<open>The set operations\<close>

definition tuple_union_build :: "theta_builder \<Rightarrow> 's tuple_entry union_state res" where
  "tuple_union_build b =
     union_new (tb_lg_k b) (tb_resize_factor b) (tb_sampling_probability b) (tb_seed b)"

definition tuple_union_update ::
  "'s combine_policy \<Rightarrow> 's tuple_entry union_state \<Rightarrow> 's tuple_entry sketch_view \<Rightarrow> 's tuple_entry union_state res" where
  "tuple_union_update pol u sketch = union_update tue_hash (entry_merge pol) u sketch"

definition tuple_union_to_sketch :: "'s tuple_entry union_state \<Rightarrow> bool \<Rightarrow> 's compact_tuple res" where
  "tuple_union_to_sketch u ordered =
     bind_res (union_to_compact_parts tue_hash u ordered) (\<lambda>parts. Inr (compact_tuple_from_parts parts))"

definition tuple_intersection_new :: "u64 \<Rightarrow> 's tuple_entry intersection_state res" where
  "tuple_intersection_new seed = intersection_new seed"

definition tuple_intersection_update ::
  "'s combine_policy \<Rightarrow> 's tuple_entry intersection_state \<Rightarrow> 's tuple_entry sketch_view \<Rightarrow>
     's tuple_entry intersection_state \<times> unit res" where
  "tuple_intersection_update pol s sketch = intersection_update tue_hash (entry_merge pol) s sketch"

definition tuple_intersection_to_sketch ::
  "'s tuple_entry intersection_state \<Rightarrow> bool \<Rightarrow> 's compact_tuple option res" where
  "tuple_intersection_to_sketch s ordered =
     (if \<not> is_has_result s then Inr None
      else bind_res (intersection_to_compact_parts tue_hash s ordered) (\<lambda>parts.
        Inr (Some (compact_tuple_from_parts parts))))"

text \<open>The second operand may carry summaries of another type, which are ignored.\<close>

definition tuple_a_not_b ::
  "u16 \<Rightarrow> 's tuple_entry sketch_view \<Rightarrow> 't tuple_entry sketch_view \<Rightarrow> bool \<Rightarrow> 's compact_tuple res" where
  "tuple_a_not_b seed_hash a b ordered =
     bind_res (a_not_b_compute tue_hash tue_hash seed_hash a b ordered) (\<lambda>parts.
       Inr (compact_tuple_from_parts parts))"

section \<open>Which entry a hash has\<close>

text \<open>
  Below the bound \<open>b\<close> every entry of the table is the one that \<open>F\<close> expects for its hash.
\<close>

definition holds_entries :: "('e \<Rightarrow> u64) \<Rightarrow> u64 \<Rightarrow> (u64 \<Rightarrow> 'e option) \<Rightarrow> 'e sketch_table \<Rightarrow> bool" where
  "holds_entries h b F t \<longleftrightarrow> (\<forall>e \<in> entry_set t. h e < b \<longrightarrow> F (h e) = Some e)"

text \<open>Adding an entry to what is expected: the first one of a hash is taken over, later ones are merged.\<close>

definition absorb :: "('e \<Rightarrow> u64) \<Rightarrow> ('e \<Rightarrow> 'e \<Rightarrow> 'e) \<Rightarrow> (u64 \<Rightarrow> 'e option) \<Rightarrow> 'e \<Rightarrow> u64 \<Rightarrow> 'e option" where
  "absorb h merge F e = F(h e \<mapsto> (case F (h e) of None \<Rightarrow> e | Some x \<Rightarrow> merge x e))"

lemma holds_entries_mono: "holds_entries h b F t \<Longrightarrow> b' \<le> b \<Longrightarrow> holds_entries h b' F t"
  unfolding holds_entries_def by (meson less_le_trans)

lemma upsert_entries:
  assumes U: "union_table h theta0 b seen t" and hash: "0 < h e" "h e < b" "h e < ht_theta t"
    and merge: "\<And>x y. h (merge x y) = h x" and F: "holds_entries h b F t" "dom F \<subseteq> seen"
    and up: "upsert_entry h t (h e) \<lparr>on_existing = (\<lambda>x. merge x e), on_new = Some e\<rparr> = Inr (t', r)"
  shows "holds_entries h b (absorb h merge F e) t'"
  unfolding holds_entries_def
proof (intro ballI impI)
  let ?f = "\<lparr>on_existing = (\<lambda>x. merge x e), on_new = Some e\<rparr>"
  fix x assume x: "x \<in> entry_set t'" "h x < b"
  have ok: "table_ok h t" using U by (simp add: union_table_def)
  have f: "upsert_for h (h e) ?f" by (simp add: upsert_for_def merge)
  have "upsert_result h t (h e) ?f t'"
    using upsert_ok [OF ok f _ hash(3)] hash(1) up by auto
  then have mem: "x \<in> upserted h (entry_set t) (h e) ?f" using x(1) by (auto simp: upsert_result_def)
  have kept: "F (h y) = Some y" if "y \<in> entry_set t" "h y < b" for y
    using F(1) that by (simp add: holds_entries_def)
  show "absorb h merge F e (h x) = Some x"
  proof (cases "h e \<in> h ` entry_set t")
    case True
    then obtain y where y: "y \<in> entry_set t" "x = (if h y = h e then merge y e else y)"
      using mem by (auto simp: upserted_def)
    then show ?thesis using kept [OF y(1)] x(2) merge by (auto simp: absorb_def)
  next
    case False
    then have new: "\<forall>y \<in> entry_set t. h y \<noteq> h e" by (metis image_eqI)
    have "h e \<notin> retained_hashes h t" using False by (simp add: retained_hashes_def)
    then have "h e \<notin> seen" using U hash by (auto simp: union_table_def)
    then have none: "F (h e) = None" using F(2) by blast
    have "x = e \<or> x \<in> entry_set t \<and> h x \<noteq> h e" using mem False new by (auto simp: upserted_def)
    then show ?thesis using none kept [of x] x(2) by (auto simp: absorb_def)
  qed
qed

lemma absorb_skipped:
  "holds_entries h b F t \<Longrightarrow> \<forall>x \<in> entry_set t. h x < b \<longrightarrow> h x \<noteq> h e \<Longrightarrow>
   holds_entries h b (absorb h merge F e) t"
  by (auto simp: holds_entries_def absorb_def)

lemma dom_absorb [simp]: "dom (absorb h merge F e) = insert (h e) (dom F)"
  by (simp add: absorb_def)

section \<open>A stream of updates\<close>

definition tuple_update_all ::
  "('s, 'u) tuple_sketch \<Rightarrow> (u8 list list \<times> 'u) list \<Rightarrow> ('s, 'u) tuple_sketch res" where
  "tuple_update_all s kvs = fold_res (\<lambda>s (key, v). tuple_update s key v) s kvs"

text \<open>The values of a hash in a stream of hashes and values, and the summary they amount to\<close>

definition values_of :: "(u64 \<times> 'u) list \<Rightarrow> u64 \<Rightarrow> 'u list" where
  "values_of hs x = map snd (filter (\<lambda>p. fst p = x) hs)"

definition summary_of :: "('s, 'u) update_policy \<Rightarrow> (u64 \<times> 'u) list \<Rightarrow> u64 \<Rightarrow> 's" where
  "summary_of pol hs x = foldl (up_update pol) (up_create pol) (values_of hs x)"

definition stream_entry :: "('s, 'u) update_policy \<Rightarrow> (u64 \<times> 'u) list \<Rightarrow> u64 \<Rightarrow> 's tuple_entry option" where
  "stream_entry pol hs x = (if values_of hs x = [] then None else Some (TupleEntry x (summary_of pol hs x)))"

lemma values_of_snoc:
  "values_of (hs @ [(y, v)]) x = (if x = y then values_of hs x @ [v] else values_of hs x)"
  by (simp add: values_of_def)

lemma values_of_Nil_iff: "values_of hs x = [] \<longleftrightarrow> x \<notin> fst ` set hs"
  by (induction hs) (auto simp: values_of_def)

lemma dom_stream_entry: "dom (stream_entry pol hs) = fst ` set hs"
  by (auto simp: stream_entry_def dom_def values_of_Nil_iff)

definition update_merge :: "('s, 'u) update_policy \<Rightarrow> 'u \<Rightarrow> 's tuple_entry \<Rightarrow> 's tuple_entry \<Rightarrow> 's tuple_entry" where
  "update_merge pol v x y = TupleEntry (tue_hash x) (up_update pol (tue_summary x) v)"

lemma update_merge_hash: "tue_hash (update_merge pol v x y) = tue_hash x"
  by (simp add: update_merge_def)

lemma absorb_stream_entry:
  "absorb tue_hash (update_merge pol v) (stream_entry pol hs) (TupleEntry x (up_update pol (up_create pol) v)) =
   stream_entry pol (hs @ [(x, v)])"
  by (rule ext) (simp add: absorb_def stream_entry_def summary_of_def values_of_snoc update_merge_def)

text \<open>What the sketch holds after the updates \<open>hs\<close>\<close>

definition tuple_holds :: "u64 \<Rightarrow> ('s, 'u) update_policy \<Rightarrow> (u64 \<times> 'u) list \<Rightarrow> 's tuple_entry sketch_table \<Rightarrow> bool" where
  "tuple_holds theta0 pol hs t \<longleftrightarrow>
     union_table tue_hash theta0 theta0 (fst ` set hs) t \<and> holds_entries tue_hash theta0 (stream_entry pol hs) t"

lemma union_table_clear [simp]:
  "union_table h theta0 b seen (t\<lparr>ht_is_empty := False\<rparr>) = union_table h theta0 b seen t"
  by (simp add: union_table_def retained_hashes_def)

lemma tuple_update_holds:
  assumes holds: "tuple_holds theta0 pol hs (tp_table s)" and pol: "tp_policy s = pol"
    and x: "x = table_hash (tp_table s) key"
  shows "\<exists>s'. tuple_update s key v = Inr s' \<and> tuple_holds theta0 pol (hs @ [(x, v)]) (tp_table s') \<and>
     tp_policy s' = pol \<and> \<not> ht_is_empty (tp_table s') \<and>
     ht_lg_nom_size (tp_table s') = ht_lg_nom_size (tp_table s) \<and> ht_seed (tp_table s') = ht_seed (tp_table s)"
proof -
  let ?t = "tp_table s" and ?e = "TupleEntry x (up_update pol (up_create pol) v)"
  let ?f = "\<lparr>on_existing = (\<lambda>y. update_merge pol v y ?e), on_new = Some ?e\<rparr>"
  have U: "union_table tue_hash theta0 theta0 (fst ` set hs) ?t"
    and F: "holds_entries tue_hash theta0 (stream_entry pol hs) ?t"
    using holds by (simp_all add: tuple_holds_def)
  have ok: "table_ok tue_hash ?t" and le: "ht_theta ?t \<le> theta0" using U by (simp_all add: union_table_def)
  have upd: "tuple_update s key v =
      bind_res (if x = 0 then Inr (?t\<lparr>ht_is_empty := False\<rparr>, False) else upsert_entry tue_hash ?t x ?f)
        (\<lambda>(table, _). Inr (s\<lparr>tp_table := table\<rparr>))"
    by (simp add: tuple_update_def tuple_try_insert_def tuple_try_insert_hash_def tuple_entry_new_def
        update_merge_def pol x upsert_screened Let_def)
  show ?thesis
  proof (cases "x = 0 \<or> ht_theta ?t \<le> x")
    case True
    have "union_table tue_hash theta0 theta0 (fst ` set hs \<union> {x}) ?t"
      unfolding union_table_def
    proof (intro conjI)
      show "retained_hashes tue_hash ?t \<subseteq> fst ` set hs \<union> {x}"
        "ht_theta ?t = theta0 \<or> ht_theta ?t \<in> fst ` set hs \<union> {x} \<and> 2 ^ ht_lg_nom_size ?t \<le> ht_num_retained ?t"
        using U by (auto simp: union_table_def)
      show "\<forall>y \<in> fst ` set hs \<union> {x}. 0 < y \<and> y < theta0 \<and> y < ht_theta ?t \<longrightarrow> y \<in> retained_hashes tue_hash ?t"
        using U True by (auto simp: union_table_def)
    qed (use ok le in simp_all)
    moreover have "holds_entries tue_hash theta0 (absorb tue_hash (update_merge pol v) (stream_entry pol hs) ?e) ?t"
      by (rule absorb_skipped [OF F])
        (use True table_ok_hash_lt [OF ok] in \<open>fastforce simp: retained_hashes_def\<close>)
    ultimately have "tuple_holds theta0 pol (hs @ [(x, v)]) (?t\<lparr>ht_is_empty := False\<rparr>)"
      unfolding absorb_stream_entry tuple_holds_def
      by (simp add: holds_entries_def entry_set_def iter_entries_def)
    then show ?thesis
      using True pol by (intro exI [of _ "s\<lparr>tp_table := ?t\<lparr>ht_is_empty := False\<rparr>\<rparr>"]) (auto simp: upd upsert_screened)
  next
    case False
    then have e: "0 < tue_hash ?e" "tue_hash ?e < theta0" "tue_hash ?e < ht_theta ?t"
      using less_le_trans [OF _ le, of x] by (simp_all add: word_neq_0_conv not_le)
    obtain t' r where t': "upsert_entry tue_hash ?t (tue_hash ?e) ?f = Inr (t', r)"
      "union_table tue_hash theta0 theta0 (insert (tue_hash ?e) (fst ` set hs)) t'"
      "ht_is_empty t' = False" "ht_lg_nom_size t' = ht_lg_nom_size ?t" "ht_seed t' = ht_seed ?t"
      using union_table_upsert [where merge = "update_merge pol v", OF U e update_merge_hash] by blast
    have "holds_entries tue_hash theta0 (absorb tue_hash (update_merge pol v) (stream_entry pol hs) ?e) t'"
      by (rule upsert_entries [where merge = "update_merge pol v", OF U e update_merge_hash F _ t'(1)]) (simp add: dom_stream_entry)
    then have "tuple_holds theta0 pol (hs @ [(x, v)]) t'"
      using t'(2) unfolding absorb_stream_entry tuple_holds_def by simp
    then show ?thesis using t'(1,3-5) False pol by (simp add: upd)
  qed
qed

lemma tuple_update_all_holds:
  assumes "tuple_holds theta0 pol [] (tp_table s)" and "tp_policy s = pol"
  shows "\<exists>s'. tuple_update_all s kvs = Inr s' \<and>
     tuple_holds theta0 pol (map (\<lambda>(key, v). (table_hash (tp_table s) key, v)) kvs) (tp_table s') \<and>
     tp_policy s' = pol \<and> ht_is_empty (tp_table s') = (kvs = [] \<and> ht_is_empty (tp_table s)) \<and>
     ht_lg_nom_size (tp_table s') = ht_lg_nom_size (tp_table s) \<and> ht_seed (tp_table s') = ht_seed (tp_table s)"
proof (induction kvs rule: rev_induct)
  case (snoc kv kvs)
  obtain key v where kv: "kv = (key, v)" by (cases kv)
  obtain s1 where s1: "tuple_update_all s kvs = Inr s1"
    "tuple_holds theta0 pol (map (\<lambda>(key, v). (table_hash (tp_table s) key, v)) kvs) (tp_table s1)"
    "tp_policy s1 = pol" "ht_lg_nom_size (tp_table s1) = ht_lg_nom_size (tp_table s)"
    "ht_seed (tp_table s1) = ht_seed (tp_table s)"
    using snoc.IH by blast
  have x: "table_hash (tp_table s) key = table_hash (tp_table s1) key" by (simp add: table_hash_def s1(5))
  have "tuple_update_all s (kvs @ [kv]) = tuple_update s1 key v"
    using s1(1) by (cases "tuple_update s1 key v") (simp_all add: tuple_update_all_def fold_res_append kv)
  then show ?case
    using tuple_update_holds [OF s1(2,3) x, of v] s1(4,5) by (auto simp: kv)
qed (use assms in \<open>simp add: tuple_update_all_def\<close>)

lemma tuple_build_shape:
  fixes pol :: "('s, 'u) update_policy"
  assumes "4 \<le> tb_lg_k b"
  obtains s where "tuple_build b pol = Inr s" and "tp_policy s = pol"
    and "tuple_holds (starting_theta_from_sampling_probability (tb_sampling_probability b)) pol [] (tp_table s)"
    and "ht_is_empty (tp_table s)" and "ht_lg_nom_size (tp_table s) = tb_lg_k b"
    and "ht_seed (tp_table s) = tb_seed b"
proof -
  obtain t :: "'s tuple_entry sketch_table" where t:
    "table_new (tb_lg_k b) (tb_resize_factor b) (tb_sampling_probability b) (tb_seed b) = Inr t"
    "table_ok tue_hash t" "entry_set t = {}" "ht_is_empty t" "ht_lg_nom_size t = tb_lg_k b"
    "ht_theta t = starting_theta_from_sampling_probability (tb_sampling_probability b)"
    "ht_seed t = tb_seed b"
    by (rule table_new_shape [OF assms, where h = tue_hash])
  then show ?thesis
    using that [of "\<lparr>tp_table = t, tp_policy = pol\<rparr>"]
    by (simp add: tuple_build_def tuple_holds_def union_table_def holds_entries_def retained_hashes_def)
qed

lemma tuple_holds_entries:
  assumes "tuple_holds theta0 pol hs t"
  shows "table_ok tue_hash t"
    and "retained_hashes tue_hash t = {x \<in> fst ` set hs. 0 < x \<and> x < ht_theta t}"
    and "\<forall>e \<in> entry_set t. tue_summary e = summary_of pol hs (tue_hash e)"
    and "ht_theta t \<le> theta0"
    and "ht_theta t = theta0 \<or> ht_theta t \<in> fst ` set hs \<and> 2 ^ ht_lg_nom_size t \<le> ht_num_retained t"
proof -
  have U: "union_table tue_hash theta0 theta0 (fst ` set hs) t"
    and F: "holds_entries tue_hash theta0 (stream_entry pol hs) t"
    using assms by (simp_all add: tuple_holds_def)
  show ok: "table_ok tue_hash t" and le: "ht_theta t \<le> theta0"
    and "ht_theta t = theta0 \<or> ht_theta t \<in> fst ` set hs \<and> 2 ^ ht_lg_nom_size t \<le> ht_num_retained t"
    using U by (simp_all add: union_table_def)
  show "retained_hashes tue_hash t = {x \<in> fst ` set hs. 0 < x \<and> x < ht_theta t}"
    using U le table_ok_hash_lt [OF ok] by (auto simp: union_table_def intro: less_le_trans)
  show "\<forall>e \<in> entry_set t. tue_summary e = summary_of pol hs (tue_hash e)"
  proof
    fix e assume e: "e \<in> entry_set t"
    then have "tue_hash e < theta0"
      using table_ok_hash_lt [OF ok, of "tue_hash e"] le by (auto simp: retained_hashes_def intro: less_le_trans)
    then have "stream_entry pol hs (tue_hash e) = Some e" using F e by (simp add: holds_entries_def)
    then show "tue_summary e = summary_of pol hs (tue_hash e)"
      unfolding stream_entry_def by (cases e) (simp split: if_splits)
  qed
qed

section \<open>Properties\<close>

text \<open>
  C12. A Tuple sketch built with \<open>lg_k\<close> of at least 4 and any sequence of updates: no update panics; the
  sketch retains exactly the distinct non-zero hashes seen below theta, and the summary of each is what
  the policy makes of all the values that came with it, in their order - none is lost to screening,
  resizing or rebuilding. Theta is the starting theta, or a hash seen with at least \<open>2 ^ lg_k\<close> smaller
  ones retained.
\<close>

theorem tuple_sketch_exact:
  assumes "4 \<le> tb_lg_k b"
  shows "\<exists>s0 s. tuple_build b pol = Inr s0 \<and> tuple_update_all s0 kvs = Inr s \<and>
    (let hs = map (\<lambda>(key, v). (table_hash (tp_table s0) key, v)) kvs;
         theta = ht_theta (tp_table s);
         theta0 = starting_theta_from_sampling_probability (tb_sampling_probability b)
     in set (tuple_iter s) =
          (\<lambda>x. (x, foldl (up_update pol) (up_create pol) (map snd (filter (\<lambda>p. fst p = x) hs)))) `
            {x \<in> fst ` set hs. 0 < x \<and> x < theta} \<and>
        distinct (map fst (tuple_iter s)) \<and> theta \<le> theta0 \<and>
        (theta = theta0 \<or> theta \<in> fst ` set hs \<and> 2 ^ tb_lg_k b \<le> length (tuple_iter s)) \<and>
        ht_is_empty (tp_table s) = (kvs = []))"
proof -
  let ?theta0 = "starting_theta_from_sampling_probability (tb_sampling_probability b)"
  obtain s0 where s0: "tuple_build b pol = Inr s0" "tp_policy s0 = pol" "tuple_holds ?theta0 pol [] (tp_table s0)"
    "ht_is_empty (tp_table s0)" "ht_lg_nom_size (tp_table s0) = tb_lg_k b"
    by (rule tuple_build_shape [OF assms])
  let ?hs = "map (\<lambda>(key, v). (table_hash (tp_table s0) key, v)) kvs"
  obtain s where s: "tuple_update_all s0 kvs = Inr s" "tuple_holds ?theta0 pol ?hs (tp_table s)"
    "ht_is_empty (tp_table s) = (kvs = [])" "ht_lg_nom_size (tp_table s) = tb_lg_k b"
    using tuple_update_all_holds [OF s0(3,2), of kvs] s0(4,5) by auto
  note H = tuple_holds_entries [OF s(2)]
  have iter: "set (tuple_iter s) = (\<lambda>e. (tue_hash e, tue_summary e)) ` entry_set (tp_table s)"
    by (simp add: tuple_iter_def entry_set_def)
  also have "\<dots> = (\<lambda>e. (tue_hash e, summary_of pol ?hs (tue_hash e))) ` entry_set (tp_table s)"
    using H(3) by (intro image_cong) simp_all
  also have "\<dots> = (\<lambda>x. (x, summary_of pol ?hs x)) ` retained_hashes tue_hash (tp_table s)"
    by (simp add: retained_hashes_def image_image)
  finally have set: "set (tuple_iter s) = (\<lambda>x. (x, summary_of pol ?hs x)) `
      {x \<in> fst ` set ?hs. 0 < x \<and> x < ht_theta (tp_table s)}" unfolding H(2) .
  have dist: "distinct (map fst (tuple_iter s))"
    using iter_entries_distinct [OF H(1)] by (simp add: tuple_iter_def comp_def)
  have len: "length (tuple_iter s) = ht_num_retained (tp_table s)"
    using num_retained_card(2) [OF H(1)] by (simp add: tuple_iter_def)
  have "ht_theta (tp_table s) = ?theta0 \<or>
      ht_theta (tp_table s) \<in> fst ` set ?hs \<and> 2 ^ tb_lg_k b \<le> length (tuple_iter s)"
    using H(5) s(4) len by simp
  then show ?thesis
    using s0(1) s(1,3) set [unfolded summary_of_def values_of_def] dist H(4) unfolding Let_def by blast
qed

theorem tuple_sketch_exact_witness:
  "\<exists>s0 s. tuple_build theta_builder_default (default_update_policy (0 :: u64) (+)) = Inr s0 \<and>
     tuple_update_all s0 [([[1]], 5), ([[2]], 1), ([[1]], 7)] = Inr s \<and> \<not> ht_is_empty (tp_table s)"
  using tuple_sketch_exact [of theta_builder_default "default_update_policy (0 :: u64) (+)"
      "[([[1]], 5), ([[2]], 1), ([[1]], 7)]"]
  by (auto simp: theta_builder_default_def DEFAULT_LG_K_def Let_def)

end
