(* ===== verification/TupleOps.thy ===== *)
theory TupleOps
  imports TupleSketch
begin

text \<open>
  What the set operations on Tuple sketches do with the summaries: union (\<open>tuple/union.rs\<close>),
  intersection (\<open>tuple/intersection.rs\<close>) and difference (\<open>tuple/a_not_b.rs\<close>). The hashes follow from
  the lemmas on the shared state machines; here every entry of a result is traced to the summaries of
  its hash in the inputs.
\<close>

section \<open>The summaries of a hash in a sequence of views\<close>

definition summaries_in :: "'s tuple_entry list \<Rightarrow> u64 \<Rightarrow> 's list" where
  "summaries_in es x = map tue_summary (filter (\<lambda>e. tue_hash e = x) es)"

definition view_entries :: "'s tuple_entry sketch_view list \<Rightarrow> 's tuple_entry list" where
  "view_entries vs = concat (map sv_entries vs)"

text \<open>Combining them from left to right\<close>

fun combined :: "'s combine_policy \<Rightarrow> 's list \<Rightarrow> 's option" where
  "combined pol [] = None"
| "combined pol (s # ss) = Some (foldl (cb_combine pol) s ss)"

definition expected :: "'s combine_policy \<Rightarrow> 's tuple_entry list \<Rightarrow> u64 \<Rightarrow> 's tuple_entry option" where
  "expected pol es x = map_option (TupleEntry x) (combined pol (summaries_in es x))"

lemma combined_snoc:
  "combined pol (ss @ [s]) = Some (case combined pol ss of None \<Rightarrow> s | Some x \<Rightarrow> cb_combine pol x s)"
  by (cases ss) simp_all

lemma combined_None_iff [simp]: "combined pol ss = None \<longleftrightarrow> ss = []"
  by (cases ss) simp_all

lemma summaries_in_append: "summaries_in (es @ fs) x = summaries_in es x @ summaries_in fs x"
  by (simp add: summaries_in_def)

lemma summaries_in_Nil_iff: "summaries_in es x = [] \<longleftrightarrow> x \<notin> tue_hash ` set es"
  by (induction es) (auto simp: summaries_in_def)

lemma entry_merge_hash: "tue_hash (entry_merge pol x y) = tue_hash x"
  by (simp add: entry_merge_def)

lemma dom_expected: "dom (expected pol es) = tue_hash ` set es"
proof -
  have "expected pol es x = None \<longleftrightarrow> x \<notin> tue_hash ` set es" for x
    by (simp add: expected_def summaries_in_Nil_iff)
  then show ?thesis by (auto simp: dom_def simp del: imageE)
qed

lemma absorb_expected:
  "absorb tue_hash (entry_merge pol) (expected pol es) e = expected pol (es @ [e])"
proof (rule ext)
  fix x
  show "absorb tue_hash (entry_merge pol) (expected pol es) e x = expected pol (es @ [e]) x"
  proof (cases "x = tue_hash e")
    case True
    then have "summaries_in (es @ [e]) x = summaries_in es x @ [tue_summary e]"
      by (simp add: summaries_in_append) (simp add: summaries_in_def)
    then show ?thesis using True
      by (cases "combined pol (summaries_in es x)"; cases e)
        (simp_all add: absorb_def expected_def combined_snoc entry_merge_def)
  next
    case False
    then show ?thesis by (simp add: absorb_def expected_def summaries_in_def)
  qed
qed

section \<open>Union\<close>

lemma holds_clear [simp]: "holds_entries h b F (set_empty t e) = holds_entries h b F t"
  by (simp add: holds_entries_def set_empty_def)

lemma skipped_entries:
  "holds_entries tue_hash b (expected pol es) t \<Longrightarrow>
   \<forall>e \<in> set fs. \<forall>x \<in> entry_set t. tue_hash x < b \<longrightarrow> tue_hash x \<noteq> tue_hash e \<Longrightarrow>
   holds_entries tue_hash b (expected pol (es @ fs)) t"
proof (induction fs arbitrary: es)
  case (Cons f fs)
  have "holds_entries tue_hash b (expected pol (es @ [f])) t"
    unfolding absorb_expected [symmetric] by (rule absorb_skipped) (use Cons.prems in simp_all)
  then show ?case using Cons.IH [of "es @ [f]"] Cons.prems(2) by simp
qed simp

lemma above_skipped:
  assumes "table_ok tue_hash t" and "\<not> (tue_hash e < b \<and> tue_hash e < ht_theta t)"
  shows "\<forall>x \<in> entry_set t. tue_hash x < b \<longrightarrow> tue_hash x \<noteq> tue_hash e"
proof (intro ballI impI notI)
  fix x assume "x \<in> entry_set t" "tue_hash x < b" "tue_hash x = tue_hash e"
  moreover have "tue_hash x < ht_theta t"
    using table_ok_hash_lt [OF assms(1), of "tue_hash x"] \<open>x \<in> entry_set t\<close> by (simp add: retained_hashes_def)
  ultimately show False using assms(2) by simp
qed

lemma union_loop_entries:
  "union_table tue_hash theta0 b (tue_hash ` set es) t \<Longrightarrow> holds_entries tue_hash b (expected pol es) t \<Longrightarrow>
   \<forall>e \<in> set fs. 0 < tue_hash e \<Longrightarrow> ordered \<longrightarrow> sorted (map tue_hash fs) \<Longrightarrow>
   union_loop tue_hash (entry_merge pol) b ordered t fs = Inr t' \<Longrightarrow>
   holds_entries tue_hash b (expected pol (es @ fs)) t'"
proof (induction fs arbitrary: es t)
  case (Cons f fs)
  have ok: "table_ok tue_hash t" using Cons.prems(1) by (simp add: union_table_def)
  show ?case
  proof (cases "tue_hash f < b \<and> tue_hash f < ht_theta t")
    case True
    obtain t1 r where t1: "upsert_entry tue_hash t (tue_hash f)
        \<lparr>on_existing = (\<lambda>x. entry_merge pol x f), on_new = Some f\<rparr> = Inr (t1, r)"
      "union_table tue_hash theta0 b (insert (tue_hash f) (tue_hash ` set es)) t1"
      using union_table_upsert [where merge = "entry_merge pol", OF Cons.prems(1) _ _ _ entry_merge_hash, of f]
        Cons.prems(3) True by auto
    have "holds_entries tue_hash b (absorb tue_hash (entry_merge pol) (expected pol es) f) t1"
      by (rule upsert_entries [where merge = "entry_merge pol",
            OF Cons.prems(1) _ _ _ entry_merge_hash Cons.prems(2) _ t1(1)])
        (use Cons.prems(3) True in \<open>simp_all add: dom_expected\<close>)
    moreover have "union_loop tue_hash (entry_merge pol) b ordered t1 fs = Inr t'"
      using Cons.prems(5) True t1(1) by (simp add: Let_def)
    ultimately show ?thesis
      using Cons.IH [of "es @ [f]" t1] t1(2) Cons.prems(3,4) unfolding absorb_expected by simp
  next
    case False
    note skip = above_skipped [OF ok False]
    show ?thesis
    proof (cases ordered)
      case True
      have "\<forall>e \<in> set (f # fs). \<not> (tue_hash e < b \<and> tue_hash e < ht_theta t)"
        using True Cons.prems(4) False by (auto intro: le_less_trans)
      then have "\<forall>e \<in> set (f # fs). \<forall>x \<in> entry_set t. tue_hash x < b \<longrightarrow> tue_hash x \<noteq> tue_hash e"
        using above_skipped [OF ok] by blast
      from skipped_entries [OF Cons.prems(2) this] show ?thesis
        using Cons.prems(5) True False by (simp add: Let_def)
    next
      case not: False
      have "holds_entries tue_hash b (expected pol (es @ [f])) t"
        by (rule skipped_entries [OF Cons.prems(2)]) (use skip in simp)
      moreover have "union_table tue_hash theta0 b (tue_hash ` set (es @ [f])) t"
        using union_table_more [OF Cons.prems(1), of "{tue_hash f}"] False by simp
      ultimately show ?thesis
        using Cons.IH [of "es @ [f]" t] Cons.prems(3-5) not False by (simp add: Let_def)
    qed
  qed
qed simp

definition tuple_union_all ::
  "'s combine_policy \<Rightarrow> 's tuple_entry union_state \<Rightarrow> 's tuple_entry sketch_view list \<Rightarrow> 's tuple_entry union_state res" where
  "tuple_union_all pol u vs = fold_res (tuple_union_update pol) u vs"

definition union_holds ::
  "'s combine_policy \<Rightarrow> u64 \<Rightarrow> nat \<Rightarrow> u64 \<Rightarrow> 's tuple_entry union_state \<Rightarrow> 's tuple_entry sketch_view list \<Rightarrow> bool" where
  "union_holds pol seed lg_k theta0 u vs \<longleftrightarrow>
     union_inv tue_hash seed lg_k theta0 u vs \<and> (\<forall>v \<in> set vs. view_ok tue_hash seed v) \<and>
     holds_entries tue_hash (us_union_theta u) (expected pol (view_entries vs)) (us_table u)"

lemma seen_entries:
  "\<forall>v \<in> set vs. view_ok tue_hash seed v \<Longrightarrow> seen_hashes tue_hash vs = tue_hash ` set (view_entries vs)"
  by (auto simp: seen_hashes_def live_def view_hashes_def view_entries_def view_ok_def)

lemma tuple_union_update_holds:
  assumes holds: "union_holds pol seed lg_k theta0 u vs" and v: "view_ok tue_hash seed v"
  shows "\<exists>u'. tuple_union_update pol u v = Inr u' \<and> union_holds pol seed lg_k theta0 u' (vs @ [v])"
proof -
  have inv: "union_inv tue_hash seed lg_k theta0 u vs" and vs: "\<forall>v \<in> set vs. view_ok tue_hash seed v"
    and H: "holds_entries tue_hash (us_union_theta u) (expected pol (view_entries vs)) (us_table u)"
    using holds by (simp_all add: union_holds_def)
  obtain u' where u': "union_update tue_hash (entry_merge pol) u v = Inr u'"
    "union_inv tue_hash seed lg_k theta0 u' (vs @ [v])"
    using union_update_inv [where merge = "entry_merge pol", OF inv v entry_merge_hash] by blast
  have ent: "view_entries (vs @ [v]) = view_entries vs @ sv_entries v" by (simp add: view_entries_def)
  have "holds_entries tue_hash (us_union_theta u') (expected pol (view_entries vs @ sv_entries v)) (us_table u')"
  proof (cases "sv_empty v")
    case True
    then show ?thesis using u'(1) H v by (simp add: union_update_def view_ok_def)
  next
    case False
    let ?b = "min (us_union_theta u) (sv_theta v)" and ?t = "set_empty (us_table u) False"
    obtain t' where t': "union_loop tue_hash (entry_merge pol) ?b (sv_ordered v) ?t (sv_entries v) = Inr t'"
      "u' = \<lparr>us_table = t', us_union_theta = min ?b (ht_theta t')\<rparr>"
      using u'(1) False by (auto simp: union_update_def bind_res_Inr_iff Let_def)
    have "union_table tue_hash theta0 (us_union_theta u) (seen_hashes tue_hash vs) ?t"
      using conjunct1 [OF inv [unfolded union_inv_def]] by (simp add: set_empty_def)
    then have U: "union_table tue_hash theta0 ?b (tue_hash ` set (view_entries vs)) ?t"
      unfolding seen_entries [OF vs] by (rule union_table_mono) simp
    have "holds_entries tue_hash ?b (expected pol (view_entries vs)) ?t"
      by (rule holds_entries_mono [of _ "us_union_theta u"]) (use H in simp_all)
    from union_loop_entries [OF U this _ _ t'(1)]
    have "holds_entries tue_hash ?b (expected pol (view_entries vs @ sv_entries v)) t'"
      using v by (auto simp: view_ok_def view_hashes_def)
    then show ?thesis unfolding t'(2) by (simp add: holds_entries_mono [OF _ min.cobounded1])
  qed
  then show ?thesis using u' vs v by (simp add: tuple_union_update_def union_holds_def ent)
qed

lemma tuple_union_all_holds:
  assumes "union_holds pol seed lg_k theta0 u []" and "\<forall>v \<in> set vs. view_ok tue_hash seed v"
  shows "\<exists>u'. tuple_union_all pol u vs = Inr u' \<and> union_holds pol seed lg_k theta0 u' vs"
  using assms(2)
proof (induction vs rule: rev_induct)
  case (snoc v vs)
  then obtain u1 where u1: "tuple_union_all pol u vs = Inr u1" "union_holds pol seed lg_k theta0 u1 vs" by auto
  obtain u' where "tuple_union_update pol u1 v = Inr u'" "union_holds pol seed lg_k theta0 u' (vs @ [v])"
    using tuple_union_update_holds [OF u1(2), of v] snoc.prems by auto
  then show ?case using u1(1) by (simp add: tuple_union_all_def fold_res_append)
qed (use assms(1) in \<open>simp add: tuple_union_all_def\<close>)

lemma tuple_union_build_holds:
  fixes pol :: "'s combine_policy"
  assumes "4 \<le> tb_lg_k b"
  obtains u where "tuple_union_build b = Inr u"
    and "union_holds pol (tb_seed b) (tb_lg_k b)
      (starting_theta_from_sampling_probability (tb_sampling_probability b)) u []"
proof -
  obtain t :: "'s tuple_entry sketch_table" where t:
    "table_new (tb_lg_k b) (tb_resize_factor b) (tb_sampling_probability b) (tb_seed b) = Inr t"
    "table_ok tue_hash t" "entry_set t = {}" "ht_is_empty t" "ht_lg_nom_size t = tb_lg_k b"
    "ht_theta t = starting_theta_from_sampling_probability (tb_sampling_probability b)"
    "ht_seed t = tb_seed b"
    by (rule table_new_shape [OF assms, where h = tue_hash])
  then show ?thesis
    using that [of "\<lparr>us_table = t, us_union_theta = ht_theta t\<rparr>"]
    by (simp add: tuple_union_build_def union_new_def union_holds_def holds_entries_def union_inv_def
        union_table_def retained_hashes_def seen_hashes_def least_theta_def live_def)
qed

text \<open>The entries of the result are entries of the table below the union's theta.\<close>

lemma select_nth_subset:
  "select_nth_unstable_by_key k h es = Inr (lesser, kth, larger) \<Longrightarrow> set (lesser @ kth # larger) \<subseteq> set es"
proof -
  assume a: "select_nth_unstable_by_key k h es = Inr (lesser, kth, larger)"
  then have "k < length es" by (auto simp: select_nth_unstable_by_key_def Let_def split: if_splits)
  then have "set (take k (sort_key h es)) \<union> {sort_key h es ! k} \<union> set (drop (Suc k) (sort_key h es)) \<subseteq> set es"
    using set_take_subset [of k "sort_key h es"] set_drop_subset [of "Suc k" "sort_key h es"]
      nth_mem [of k "sort_key h es"] by auto
  then show ?thesis using a by (auto simp: select_nth_unstable_by_key_def Let_def split: if_splits)
qed

lemma union_parts_entries:
  assumes ok: "table_ok h (us_table u)" and parts: "union_to_compact_parts h u ordered = Inr parts"
    and e: "e \<in> set (cp_entries parts)"
  shows "e \<in> entry_set (us_table u)" and "h e < us_union_theta u"
proof -
  let ?t = "us_table u"
  define theta where "theta = min (us_union_theta u) (ht_theta ?t)"
  define es where "es = (if ht_theta ?t \<le> us_union_theta u then iter_entries ?t
    else filter (\<lambda>e. h e < theta) (iter_entries ?t))"
  have lt: "h x < ht_theta ?t" if "x \<in> entry_set ?t" for x
    using table_ok_hash_lt [OF ok, of "h x"] that by (simp add: retained_hashes_def)
  have es: "x \<in> entry_set ?t \<and> h x < us_union_theta u" if "x \<in> set es" for x
    using that lt [of x] by (auto simp: es_def theta_def entry_set_def split: if_splits intro: less_le_trans)
  have "e \<in> set es"
  proof (cases "ht_is_empty ?t")
    case True
    then show ?thesis using parts e by (auto simp: union_to_compact_parts_def bind_res_Inr_iff)
  next
    case False
    obtain theta' es' where cut: "(if 2 ^ ht_lg_nom_size ?t < length es then
        bind_res (select_nth_unstable_by_key (2 ^ ht_lg_nom_size ?t) h es) (\<lambda>(lesser, kth, larger).
          Inr (h kth, take (2 ^ ht_lg_nom_size ?t) (lesser @ kth # larger)))
      else Inr (theta, es)) = Inr (theta', es')" and cp: "set (cp_entries parts) = set es'"
      using parts False unfolding union_to_compact_parts_def Let_def theta_def [symmetric] es_def [symmetric]
      by (auto simp: bind_res_Inr_iff)
    have "set es' \<subseteq> set es"
    proof (cases "2 ^ ht_lg_nom_size ?t < length es")
      case True
      then obtain lesser kth larger where "select_nth_unstable_by_key (2 ^ ht_lg_nom_size ?t) h es = Inr (lesser, kth, larger)"
        "es' = take (2 ^ ht_lg_nom_size ?t) (lesser @ kth # larger)"
        using cut by (auto simp: bind_res_Inr_iff)
      then show ?thesis using select_nth_subset set_take_subset by (metis order_trans)
    qed (use cut in simp)
    then show ?thesis using e cp by blast
  qed
  then show "e \<in> entry_set ?t" "h e < us_union_theta u" using es by blast+
qed

text \<open>
  C13. The union of Tuple sketches: no update with a valid view is rejected or panics. The result has the
  hashes of the inputs below its theta, at most \<open>2 ^ lg_k\<close> of them, as for Theta sketches; and the
  summary of each is the combination, in the order of the inputs, of all the summaries that its hash has
  in them - also of those met while theta was still higher.
\<close>

theorem tuple_union_exact:
  fixes pol :: "'s combine_policy"
  assumes "4 \<le> tb_lg_k b" and "compute_seed_hash (tb_seed b) = Inr sh"
    and "\<forall>v \<in> set vs. view_ok tue_hash (tb_seed b) v"
    and "S = tue_hash ` (\<Union>v \<in> set vs. set (sv_entries v))"
    and "least = Min (insert (starting_theta_from_sampling_probability (tb_sampling_probability b))
           (sv_theta ` {v \<in> set vs. \<not> sv_empty v}))"
  shows "\<exists>u0 u c. tuple_union_build b = Inr u0 \<and> tuple_union_all pol u0 vs = Inr u \<and>
     tuple_union_to_sketch u ordered = Inr c \<and>
     tue_hash ` set (cu_entries c) = {x \<in> S. x < cu_theta c} \<and> distinct (map tue_hash (cu_entries c)) \<and>
     (\<forall>e \<in> set (cu_entries c). combined pol (summaries_in (view_entries vs) (tue_hash e)) = Some (tue_summary e)) \<and>
     cu_theta c \<le> least \<and>
     (cu_theta c = least \<or> cu_theta c \<in> S \<and> length (cu_entries c) = 2 ^ tb_lg_k b) \<and>
     length (cu_entries c) \<le> 2 ^ tb_lg_k b \<and> (ordered \<longrightarrow> sorted (map tue_hash (cu_entries c))) \<and>
     cu_empty c = (\<forall>v \<in> set vs. sv_empty v)"
proof -
  let ?theta0 = "starting_theta_from_sampling_probability (tb_sampling_probability b)"
  obtain u0 where u0: "tuple_union_build b = Inr u0"
    "union_holds pol (tb_seed b) (tb_lg_k b) ?theta0 u0 []"
    by (rule tuple_union_build_holds [OF assms(1)])
  obtain u where u: "tuple_union_all pol u0 vs = Inr u"
    "union_inv tue_hash (tb_seed b) (tb_lg_k b) ?theta0 u vs"
    "holds_entries tue_hash (us_union_theta u) (expected pol (view_entries vs)) (us_table u)"
    using tuple_union_all_holds [OF u0(2) assms(3)] by (auto simp: union_holds_def)
  have eqs: "seen_hashes tue_hash vs = S" "least_theta ?theta0 vs = least"
    "live vs = {} \<longleftrightarrow> (\<forall>v \<in> set vs. sv_empty v)"
    unfolding seen_entries [OF assms(3)] by (auto simp: assms(4,5) view_entries_def least_theta_def live_def)
  obtain parts where P: "union_to_compact_parts tue_hash u ordered = Inr parts"
    "bottom (2 ^ tb_lg_k b) least S (cp_theta parts) (tue_hash ` set (cp_entries parts))"
    "distinct (map tue_hash (cp_entries parts))" "cp_ordered parts \<longrightarrow> sorted (map tue_hash (cp_entries parts))"
    "ordered \<longrightarrow> cp_ordered parts" "cp_empty parts = (\<forall>v \<in> set vs. sv_empty v)"
    using union_parts_ok [OF u(2) assms(2) seen_pos [OF assms(3)], of ordered] unfolding eqs by blast
  let ?c = "compact_tuple_from_parts parts"
  have c: "tuple_union_to_sketch u ordered = Inr ?c" "cu_entries ?c = cp_entries parts"
    "cu_theta ?c = cp_theta parts" "cu_empty ?c = cp_empty parts"
    using P(1) by (simp_all add: tuple_union_to_sketch_def compact_tuple_from_parts_def)
  have ok: "table_ok tue_hash (us_table u)" using u(2) by (simp add: union_inv_def union_table_def)
  have sums: "combined pol (summaries_in (view_entries vs) (tue_hash e)) = Some (tue_summary e)"
    if "e \<in> set (cp_entries parts)" for e
  proof -
    have "expected pol (view_entries vs) (tue_hash e) = Some e"
      using u(3) union_parts_entries [OF ok P(1) that] by (simp add: holds_entries_def)
    then show ?thesis by (cases e) (auto simp: expected_def)
  qed
  have len: "length (cp_entries parts) = card (tue_hash ` set (cp_entries parts))"
    using distinct_card [OF P(3)] by simp
  have "tue_hash ` set (cp_entries parts) = {x \<in> S. x < cp_theta parts}" "cp_theta parts \<le> least"
    "cp_theta parts = least \<or> cp_theta parts \<in> S \<and> length (cp_entries parts) = 2 ^ tb_lg_k b"
    "length (cp_entries parts) \<le> 2 ^ tb_lg_k b"
    using P(2) unfolding bottom_def len by blast+
  moreover have "ordered \<longrightarrow> sorted (map tue_hash (cp_entries parts))" using P(4,5) by blast
  moreover have "\<forall>e \<in> set (cp_entries parts).
      combined pol (summaries_in (view_entries vs) (tue_hash e)) = Some (tue_summary e)" using sums by blast
  ultimately show ?thesis
    using u0(1) u(1) P(3,6) c by (intro exI [of _ u0] exI [of _ u] exI [of _ ?c]) simp
qed

text \<open>Views for the witnesses: two small sketches with the default seed\<close>

definition sample_views :: "u64 tuple_entry sketch_view list" where
  "sample_views =
     [view_of_compact_tuple \<lparr>cu_entries = [TupleEntry 5 1, TupleEntry 9 2], cu_theta = MAX_THETA,
        cu_seed_hash = 0x93cc, cu_ordered = True, cu_empty = False\<rparr>,
      view_of_compact_tuple \<lparr>cu_entries = [TupleEntry 7 10, TupleEntry 5 20], cu_theta = 100,
        cu_seed_hash = 0x93cc, cu_ordered = False, cu_empty = False\<rparr>]"

lemma sample_views_ok: "\<forall>v \<in> set sample_views. view_ok tue_hash DEFAULT_UPDATE_SEED v"
  by (auto simp: sample_views_def view_ok_def view_of_compact_tuple_def view_hashes_def MAX_THETA_def default_seed_hash)

lemma sample_entries: "view_entries sample_views = [TupleEntry 5 1, TupleEntry 9 2, TupleEntry 7 10, TupleEntry 5 20]"
  by (simp add: view_entries_def sample_views_def view_of_compact_tuple_def)

theorem tuple_union_exact_witness:
  "\<exists>u0 u c. tuple_union_build theta_builder_default = Inr u0 \<and>
     tuple_union_all (default_union_policy 0 (+)) u0 sample_views = Inr u \<and>
     tuple_union_to_sketch u True = Inr c \<and> \<not> cu_empty c \<and> sorted (map tue_hash (cu_entries c))"
proof -
  let ?b = theta_builder_default
  have b: "4 \<le> tb_lg_k ?b" "compute_seed_hash (tb_seed ?b) = Inr 0x93cc"
    "\<forall>v \<in> set sample_views. view_ok tue_hash (tb_seed ?b) v"
    using sample_views_ok by (simp_all add: theta_builder_default_def DEFAULT_LG_K_def default_seed_hash)
  have "\<not> (\<forall>v \<in> set sample_views. sv_empty v)" by (simp add: sample_views_def view_of_compact_tuple_def)
  then show ?thesis
    using tuple_union_exact [OF b refl refl, of "default_union_policy 0 (+)" True] by blast
qed

section \<open>Intersection\<close>

fun tuple_intersection_all ::
  "'s combine_policy \<Rightarrow> 's tuple_entry intersection_state \<Rightarrow> 's tuple_entry sketch_view list \<Rightarrow>
     's tuple_entry intersection_state \<times> unit res" where
  "tuple_intersection_all pol s [] = (s, Inr ())"
| "tuple_intersection_all pol s (v # vs) =
     (let (s, r) = tuple_intersection_update pol s v in try_res s r (\<lambda>_. tuple_intersection_all pol s vs))"

lemma tuple_intersection_all_ok:
  "holds_common tue_hash seed s c \<Longrightarrow> \<forall>v \<in> set vs. view_ok tue_hash seed v \<Longrightarrow>
   \<exists>s'. tuple_intersection_all pol s vs = (s', Inr ()) \<and>
     holds_common tue_hash seed s' (foldl (common_step tue_hash (entry_merge pol)) c vs)"
proof (induction vs arbitrary: s c)
  case (Cons v vs)
  obtain s1 where s1: "intersection_update tue_hash (entry_merge pol) s v = (s1, Inr ())"
    "holds_common tue_hash seed s1 (common_step tue_hash (entry_merge pol) c v)"
    using intersection_update_ok [where merge = "entry_merge pol", OF Cons.prems(1) _ entry_merge_hash]
      Cons.prems(2) by (metis list.set_intros(1))
  then show ?case
    using Cons.IH [of s1] Cons.prems(2) by (simp add: tuple_intersection_update_def)
qed simp

lemma tuple_intersection_new_ok:
  obtains s where "tuple_intersection_new seed = Inr s" and "holds_common tue_hash seed s Universe"
  by (simp add: tuple_intersection_new_def intersection_new_def from_raw_parts_def holds_common_def)

text \<open>
  What the specification of the intersection knows after the views \<open>vs\<close>: the entries are those of the
  hashes that all views share below theta, with the summaries combined in order.
\<close>

definition shared_ok :: "'s combine_policy \<Rightarrow> 's tuple_entry sketch_view list \<Rightarrow> 's tuple_entry common_set \<Rightarrow> bool" where
  "shared_ok pol vs c \<longleftrightarrow>
     (\<exists>E theta known. c = Common E theta known \<and>
        tue_hash ` E = {x \<in> (\<Inter>v \<in> set vs. view_hashes tue_hash v). x < theta} \<and>
        (\<forall>e \<in> E. combined pol (summaries_in (view_entries vs) (tue_hash e)) = Some (tue_summary e)) \<and>
        theta = (if known then MAX_THETA else Min (sv_theta ` set vs)) \<and>
        (known \<longrightarrow> E = {}) \<and> ((\<exists>v \<in> set vs. sv_empty v) \<longrightarrow> known))"

lemma summaries_in_distinct:
  "distinct (map tue_hash es) \<Longrightarrow> e \<in> set es \<Longrightarrow> summaries_in es (tue_hash e) = [tue_summary e]"
proof (induction es)
  case (Cons f es)
  show ?case
  proof (cases "e = f")
    case True
    then have "summaries_in es (tue_hash e) = []" using Cons.prems(1) by (simp add: summaries_in_Nil_iff)
    then show ?thesis using True by (simp add: summaries_in_def)
  next
    case False
    then have "e \<in> set es" using Cons.prems(2) by simp
    moreover have "tue_hash f \<noteq> tue_hash e" using Cons.prems(1) calculation by (auto simp: image_iff)
    ultimately show ?thesis using Cons by (simp add: summaries_in_def)
  qed
qed simp

lemma shared_step_ok:
  assumes c: "vs = [] \<and> c = Universe \<or> vs \<noteq> [] \<and> shared_ok pol vs c" and v: "view_ok tue_hash seed v"
  shows "shared_ok pol (vs @ [v]) (common_step tue_hash (entry_merge pol) c v)"
proof (cases "vs = []")
  case True
  have one: "combined pol (summaries_in (view_entries [v]) (tue_hash e)) = Some (tue_summary e)"
    if "e \<in> set (sv_entries v)" for e
    using that v summaries_in_distinct [of "sv_entries v" e] by (simp add: view_entries_def view_ok_def)
  show ?thesis
    using True c v one by (auto simp: shared_ok_def common_step_def view_hashes_def view_ok_def)
next
  case False
  then obtain E theta known where E: "c = Common E theta known"
    "tue_hash ` E = {x \<in> (\<Inter>v \<in> set vs. view_hashes tue_hash v). x < theta}"
    "\<forall>e \<in> E. combined pol (summaries_in (view_entries vs) (tue_hash e)) = Some (tue_summary e)"
    "theta = (if known then MAX_THETA else Min (sv_theta ` set vs))" "known \<longrightarrow> E = {}"
    "(\<exists>v \<in> set vs. sv_empty v) \<longrightarrow> known"
    using c unfolding shared_ok_def by blast
  have shared: "(\<Inter>v \<in> set (vs @ [v]). view_hashes tue_hash v) =
      (\<Inter>v \<in> set vs. view_hashes tue_hash v) \<inter> view_hashes tue_hash v" by auto
  show ?thesis
  proof (cases "known \<or> sv_empty v")
    case True
    have "{x \<in> (\<Inter>v \<in> set (vs @ [v]). view_hashes tue_hash v). x < MAX_THETA} = {}"
    proof (cases known)
      case True
      then have "{x \<in> (\<Inter>v \<in> set vs. view_hashes tue_hash v). x < MAX_THETA} = {}"
        using E(2,4,5) by simp
      then show ?thesis unfolding shared by blast
    next
      case False
      then have "view_hashes tue_hash v = {}" using True v by (simp add: view_ok_def view_hashes_def)
      then show ?thesis unfolding shared by simp
    qed
    then show ?thesis using True E(1,4,5) by (auto simp: shared_ok_def common_step_def)
  next
    case live: False
    let ?theta = "min theta (sv_theta v)"
    let ?E = "common tue_hash (entry_merge pol) ?theta E (set (sv_entries v))"
    have theta: "Min (sv_theta ` set (vs @ [v])) = ?theta" using live E(4) False by (simp add: min.commute)
    have hs: "tue_hash ` ?E = {x \<in> (\<Inter>v \<in> set (vs @ [v]). view_hashes tue_hash v). x < ?theta}"
      unfolding hashes_common [where merge = "entry_merge pol", OF entry_merge_hash] E(2) shared
        view_hashes_def by auto
    have "combined pol (summaries_in (view_entries (vs @ [v])) (tue_hash e)) = Some (tue_summary e)"
      if e: "e \<in> ?E" for e
    proof -
      obtain a b where ab: "e = entry_merge pol a b" "a \<in> E" "b \<in> set (sv_entries v)" "tue_hash a = tue_hash b"
        using e by (auto simp: common_def)
      have "summaries_in (view_entries (vs @ [v])) (tue_hash e) =
          summaries_in (view_entries vs) (tue_hash a) @ [tue_summary b]"
        using summaries_in_distinct [of "sv_entries v" b] v ab
        by (simp add: view_entries_def summaries_in_append entry_merge_hash view_ok_def)
      then show ?thesis using E(3) ab(1,2) by (simp add: combined_snoc entry_merge_def)
    qed
    then show ?thesis using live E(1,6) hs theta by (auto simp: shared_ok_def common_step_def Let_def)
  qed
qed

lemma shared_all_ok:
  assumes "\<forall>v \<in> set vs. view_ok tue_hash seed v" and "vs \<noteq> []"
  shows "shared_ok pol vs (foldl (common_step tue_hash (entry_merge pol)) Universe vs)"
proof -
  let ?c = "foldl (common_step tue_hash (entry_merge pol)) Universe"
  have "vs = [] \<and> ?c vs = Universe \<or> vs \<noteq> [] \<and> shared_ok pol vs (?c vs)"
    using assms(1)
  proof (induction vs rule: rev_induct)
    case (snoc v vs)
    then show ?case using shared_step_ok [of vs "?c vs" pol seed v] by simp
  qed simp
  then show ?thesis using assms(2) by blast
qed

text \<open>
  C14. The intersection of Tuple sketches: for any non-empty sequence of valid views no update is rejected
  or panics; the result has exactly the hashes that all inputs share below its theta, and the summary of
  each is the combination of its summaries in all the inputs, in their order. Theta is the least one of
  the inputs, unless the result is marked empty.
\<close>

theorem tuple_intersection_exact:
  assumes "compute_seed_hash seed = Inr sh" and "vs \<noteq> []" and "\<forall>v \<in> set vs. view_ok tue_hash seed v"
  shows "\<exists>s0 s c. tuple_intersection_new seed = Inr s0 \<and> tuple_intersection_all pol s0 vs = (s, Inr ()) \<and>
     tuple_intersection_to_sketch s ordered = Inr (Some c) \<and>
     tue_hash ` set (cu_entries c) = {x \<in> (\<Inter>v \<in> set vs. view_hashes tue_hash v). x < cu_theta c} \<and>
     distinct (map tue_hash (cu_entries c)) \<and>
     (\<forall>e \<in> set (cu_entries c). combined pol (summaries_in (view_entries vs) (tue_hash e)) = Some (tue_summary e)) \<and>
     (ordered \<longrightarrow> sorted (map tue_hash (cu_entries c))) \<and>
     cu_theta c = (if cu_empty c then MAX_THETA else Min (sv_theta ` set vs)) \<and>
     (cu_empty c \<longrightarrow> cu_entries c = []) \<and> ((\<exists>v \<in> set vs. sv_empty v) \<longrightarrow> cu_empty c)"
proof -
  obtain s0 :: "'a tuple_entry intersection_state" where s0: "tuple_intersection_new seed = Inr s0"
    "holds_common tue_hash seed s0 Universe" by (rule tuple_intersection_new_ok)
  obtain s where s: "tuple_intersection_all pol s0 vs = (s, Inr ())"
    "holds_common tue_hash seed s (foldl (common_step tue_hash (entry_merge pol)) Universe vs)"
    using tuple_intersection_all_ok [OF s0(2) assms(3)] by blast
  obtain E theta known where E: "foldl (common_step tue_hash (entry_merge pol)) Universe vs = Common E theta known"
    "tue_hash ` E = {x \<in> (\<Inter>v \<in> set vs. view_hashes tue_hash v). x < theta}"
    "\<forall>e \<in> E. combined pol (summaries_in (view_entries vs) (tue_hash e)) = Some (tue_summary e)"
    "theta = (if known then MAX_THETA else Min (sv_theta ` set vs))" "known \<longrightarrow> E = {}"
    "(\<exists>v \<in> set vs. sv_empty v) \<longrightarrow> known"
    using shared_all_ok [OF assms(3,2), of pol, unfolded shared_ok_def] by (elim exE conjE)
  let ?t = "is_table s"
  have r: "is_has_result s" "ht_is_empty ?t = known" "ht_theta ?t = theta" "entry_set ?t = E"
    "ht_seed ?t = seed" "E \<noteq> {} \<longrightarrow> table_ok tue_hash ?t"
    using s(2) unfolding E(1) by (simp_all add: holds_common_def split: if_splits)
  have dist: "distinct (map tue_hash (iter_entries ?t))"
  proof (cases "E = {}")
    case True
    then have "iter_entries ?t = []" using r(4) by (simp add: entry_set_def)
    then show ?thesis by simp
  qed (use r(6) iter_entries_distinct in blast)
  let ?es = "if ordered then sort_key tue_hash (iter_entries ?t) else iter_entries ?t"
  let ?c = "\<lparr>cu_entries = ?es, cu_theta = theta, cu_seed_hash = sh, cu_ordered = ordered, cu_empty = known\<rparr>"
  have c: "tuple_intersection_to_sketch s ordered = Inr (Some ?c)"
    using r assms(1)
    by (simp add: tuple_intersection_to_sketch_def intersection_to_compact_parts_def compact_tuple_from_parts_def)
  have es: "set ?es = E" using r(4) by (simp add: entry_set_def)
  have D: "distinct (map tue_hash ?es)" "known \<longrightarrow> ?es = []" "ordered \<longrightarrow> sorted (map tue_hash ?es)"
    using dist es E(5) by (auto simp: distinct_map)
  have "tue_hash ` set (cu_entries ?c) = {x \<in> (\<Inter>v \<in> set vs. view_hashes tue_hash v). x < cu_theta ?c} \<and>
     distinct (map tue_hash (cu_entries ?c)) \<and>
     (\<forall>e \<in> set (cu_entries ?c). combined pol (summaries_in (view_entries vs) (tue_hash e)) = Some (tue_summary e)) \<and>
     (ordered \<longrightarrow> sorted (map tue_hash (cu_entries ?c))) \<and>
     cu_theta ?c = (if cu_empty ?c then MAX_THETA else Min (sv_theta ` set vs)) \<and>
     (cu_empty ?c \<longrightarrow> cu_entries ?c = []) \<and> ((\<exists>v \<in> set vs. sv_empty v) \<longrightarrow> cu_empty ?c)"
    unfolding compact_tuple.simps es by (intro conjI; fact E D)
  then show ?thesis using s0(1) s(1) c by blast
qed

theorem tuple_intersection_exact_witness:
  "\<exists>s0 s c. tuple_intersection_new DEFAULT_UPDATE_SEED = Inr s0 \<and>
     tuple_intersection_all (default_union_policy 0 (+)) s0 sample_views = (s, Inr ()) \<and>
     tuple_intersection_to_sketch s True = Inr (Some c) \<and> cu_empty c \<noteq> (cu_theta c = 100)"
proof -
  have ne: "sample_views \<noteq> []" by (simp add: sample_views_def)
  have "Min (sv_theta ` set sample_views) = 100"
    by (simp add: sample_views_def view_of_compact_tuple_def MAX_THETA_def min_def)
  then show ?thesis
    using tuple_intersection_exact [OF default_seed_hash ne sample_views_ok, of "default_union_policy 0 (+)" True]
    by (auto simp: MAX_THETA_def split: if_splits)
qed

section \<open>Difference\<close>

text \<open>
  C27. The difference of two Tuple sketches, whose summaries may have different types: it never fails on
  valid views, and keeps exactly the entries of \<open>a\<close>, summaries unchanged, whose hashes are below the
  common theta and not in \<open>b\<close>, whichever of the three algorithms runs.
\<close>

theorem tuple_a_not_b_exact:
  assumes "view_ok tue_hash seed a" and "view_ok tue_hash seed b" and "compute_seed_hash seed = Inr sh"
    and "theta = (if sv_empty a \<or> sv_empty b then sv_theta a else min (sv_theta a) (sv_theta b))"
  shows "\<exists>c. tuple_a_not_b sh a b ordered = Inr c \<and> cu_theta c = theta \<and>
     set (cu_entries c) = {e \<in> set (sv_entries a). tue_hash e \<notin> view_hashes tue_hash b \<and> tue_hash e < theta} \<and>
     distinct (map tue_hash (cu_entries c)) \<and> (ordered \<longrightarrow> cu_ordered c) \<and>
     (cu_ordered c \<longrightarrow> sorted (map tue_hash (cu_entries c))) \<and>
     cu_empty c = (sv_empty a \<or> \<not> sv_empty b \<and> cu_entries c = [] \<and> theta = MAX_THETA)"
proof -
  have dist: "distinct (map tue_hash (sv_entries a))" and sorted: "sv_ordered a \<longrightarrow> sorted (map tue_hash (sv_entries a))"
    and lt: "\<forall>x \<in> view_hashes tue_hash a. x < sv_theta a"
    and none: "sv_empty a \<longrightarrow> sv_entries a = []" "sv_empty b \<longrightarrow> sv_entries b = []"
    using assms(1,2) by (auto simp: view_ok_def)
  have sort_Nil: "sort_key tue_hash xs = [] \<longleftrightarrow> xs = []" for xs :: "'a tuple_entry list"
    by (metis length_0_conv length_sort)
  have short: "length xs \<le> 1 \<Longrightarrow> sorted (map tue_hash xs)" for xs :: "'a tuple_entry list"
    by (cases xs) auto
  show ?thesis
  proof (cases "sv_empty a \<or> sv_empty b")
    case True
    have copy: "a_not_b_compute tue_hash tue_hash sh a b ordered = Inr (parts_from_sketch tue_hash a ordered)"
      using True assms(1,3) by (auto simp: a_not_b_compute_def check_seed_hash_def view_ok_def)
    have "{e \<in> set (sv_entries a). tue_hash e \<notin> view_hashes tue_hash b \<and> tue_hash e < theta} = set (sv_entries a)"
      using True none lt assms(4) by (auto simp: view_hashes_def)
    then show ?thesis
      using True copy dist sorted assms(4) short [of "sv_entries a"]
      by (auto simp: tuple_a_not_b_def parts_from_sketch_def Let_def compact_tuple_from_parts_def distinct_map)
  next
    case False
    define es where "es = filter (\<lambda>e. tue_hash e < theta \<and> tue_hash e \<notin> view_hashes tue_hash b) (sv_entries a)"
    have theta: "theta = min (sv_theta a) (sv_theta b)" using False assms(4) by simp
    note C = a_not_b_entries [OF assms(1,2) _ _ assms(3) theta es_def, of ordered]
    have "distinct (map tue_hash es)" using dist by (auto simp: es_def distinct_map inj_on_def)
    moreover have "sv_ordered a \<longrightarrow> sorted (map tue_hash es)" using sorted by (simp add: es_def sorted_filter)
    moreover have "set es = {e \<in> set (sv_entries a). tue_hash e \<notin> view_hashes tue_hash b \<and> tue_hash e < theta}"
      by (auto simp: es_def)
    ultimately show ?thesis
      using False C short [of es]
      by (auto simp: tuple_a_not_b_def compact_tuple_from_parts_def distinct_map sort_Nil)
  qed
qed

theorem tuple_a_not_b_exact_witness:
  "\<exists>c. tuple_a_not_b 0x93cc (sample_views ! 0) (sample_views ! 1) True = Inr c \<and>
     set (cu_entries c) = {TupleEntry 9 2}"
proof -
  have v: "view_ok tue_hash DEFAULT_UPDATE_SEED (sample_views ! 0)" "view_ok tue_hash DEFAULT_UPDATE_SEED (sample_views ! 1)"
    using sample_views_ok by (simp_all add: sample_views_def)
  have "{e \<in> set (sv_entries (sample_views ! 0)). tue_hash e \<notin> view_hashes tue_hash (sample_views ! 1) \<and> tue_hash e < 100}
      = {TupleEntry 9 2}"
    by (auto simp: sample_views_def view_of_compact_tuple_def view_hashes_def)
  moreover have "(if sv_empty (sample_views ! 0) \<or> sv_empty (sample_views ! 1) then sv_theta (sample_views ! 0)
      else min (sv_theta (sample_views ! 0)) (sv_theta (sample_views ! 1))) = 100"
    by (simp add: sample_views_def view_of_compact_tuple_def MAX_THETA_def min_def)
  ultimately show ?thesis
    using tuple_a_not_b_exact [OF v default_seed_hash refl, of True] by auto
qed

end
