(* ===== verification/TupleWire.thy ===== *)
theory TupleWire
  imports TupleOps
begin

text \<open>
  The binary format of compact Tuple sketches: \<open>tuple/serialization.rs\<close>, and \<open>serialize\<close> and
  \<open>deserialize_with_seed\<close> of \<open>CompactTupleSketch\<close> in \<open>tuple/sketch.rs\<close>. How a summary is written is up
  to its type: the trait \<open>TupleSummaryValue\<close> is a record of functions, and its contract the locale
  \<open>summary_codec\<close>, of which the primitive summaries of the source are instances.
\<close>

definition TUPLE_SERIAL_VERSION :: u8 where "TUPLE_SERIAL_VERSION = 3"

definition SERIAL_VERSION_LEGACY :: u8 where "SERIAL_VERSION_LEGACY = 1"

definition SKETCH_TYPE :: u8 where "SKETCH_TYPE = 1"

definition SKETCH_TYPE_LEGACY :: u8 where "SKETCH_TYPE_LEGACY = 5"

record 's summary_value =
  sm_serialize_size :: "'s \<Rightarrow> nat"
  sm_serialize_value :: "sketch_bytes \<Rightarrow> 's \<Rightarrow> sketch_bytes"
  sm_deserialize_value :: "sketch_slice \<Rightarrow> ('s \<times> sketch_slice) res"

text \<open>The macro for primitive summaries, and its six uses\<close>

definition impl_primitive_summary ::
  "nat \<Rightarrow> (sketch_slice \<Rightarrow> ('s \<times> sketch_slice) option) \<Rightarrow> (sketch_bytes \<Rightarrow> 's \<Rightarrow> sketch_bytes) \<Rightarrow> 's summary_value" where
  "impl_primitive_summary width rd wr =
     \<lparr>sm_serialize_size = (\<lambda>_. width), sm_serialize_value = wr,
      sm_deserialize_value = (\<lambda>cursor. insufficient_data ''failed to read summary bytes'' (rd cursor))\<rparr>"

definition u32_summary :: "32 word summary_value" where
  "u32_summary = impl_primitive_summary 4 read_u32_le write_u32_le"

definition u64_summary :: "64 word summary_value" where
  "u64_summary = impl_primitive_summary 8 read_u64_le write_u64_le"

definition i32_summary :: "32 word summary_value" where
  "i32_summary = impl_primitive_summary 4 read_i32_le write_i32_le"

definition i64_summary :: "64 word summary_value" where
  "i64_summary = impl_primitive_summary 8 read_i64_le write_i64_le"

definition f32_summary :: "32 word summary_value" where
  "f32_summary = impl_primitive_summary 4 read_f32_le write_f32_le"

definition f64_summary :: "64 word summary_value" where
  "f64_summary = impl_primitive_summary 8 read_f64_le write_f64_le"

section \<open>Writing\<close>

definition cu_is_estimation_mode :: "'s compact_tuple \<Rightarrow> bool" where
  "cu_is_estimation_mode s \<longleftrightarrow> cu_theta s < MAX_THETA"

definition tuple_preamble_longs :: "'s compact_tuple \<Rightarrow> u8" where
  "tuple_preamble_longs s =
     (if cu_is_estimation_mode s then 3
      else if cu_empty s \<or> length (cu_entries s) = 1 then 1
      else 2)"

definition tuple_serialize :: "'s summary_value \<Rightarrow> 's compact_tuple \<Rightarrow> u8 list" where
  "tuple_serialize S s =
     (let pre_longs = tuple_preamble_longs s;
          entries_size = sum_list (map (\<lambda>entry. 8 + sm_serialize_size S (tue_summary entry)) (cu_entries s));
          bytes = with_capacity (8 * unat pre_longs + entries_size);
          bytes = write_u8 bytes pre_longs;
          bytes = write_u8 bytes TUPLE_SERIAL_VERSION;
          bytes = write_u8 bytes (fam_id family_tuple);
          bytes = write_u8 bytes SKETCH_TYPE;
          bytes = write_u8 bytes 0;
          flags = FLAGS_IS_READ_ONLY OR FLAGS_IS_COMPACT;
          flags = (if cu_empty s then flags OR FLAGS_IS_EMPTY else flags);
          flags = (if cu_ordered s then flags OR FLAGS_IS_ORDERED else flags);
          bytes = write_u8 bytes flags;
          bytes = write_u16_le bytes (cu_seed_hash s);
          bytes = (if 1 < pre_longs then
                     let bytes = write_u32_le bytes (of_nat (length (cu_entries s)))
                     in write_u32_le bytes 0
                   else bytes);
          bytes = (if cu_is_estimation_mode s then write_u64_le bytes (cu_theta s) else bytes);
          bytes = foldl (\<lambda>bytes entry. sm_serialize_value S (write_u64_le bytes (tue_hash entry)) (tue_summary entry))
            bytes (cu_entries s)
      in into_bytes bytes)"

section \<open>Reading\<close>

fun read_tuple_entries ::
  "'s summary_value \<Rightarrow> nat \<Rightarrow> u64 \<Rightarrow> sketch_slice \<Rightarrow> ('s tuple_entry list \<times> sketch_slice) res" where
  "read_tuple_entries S 0 theta cursor = Inr ([], cursor)"
| "read_tuple_entries S (Suc n) theta cursor =
     bind_res (insufficient_data ''entry_hash'' (read_u64_le cursor)) (\<lambda>(hash, cursor).
       if hash = 0 \<or> theta \<le> hash then Inl (InvalidData ''corrupted: invalid retained hash value'')
       else
         bind_res (sm_deserialize_value S cursor) (\<lambda>(summary, cursor).
         bind_res (tuple_entry_new hash summary) (\<lambda>entry.
         bind_res (read_tuple_entries S n theta cursor) (\<lambda>(entries, cursor). Inr (entry # entries, cursor)))))"

definition tuple_deserialize_with_seed :: "'s summary_value \<Rightarrow> u8 list \<Rightarrow> u64 \<Rightarrow> 's compact_tuple res" where
  "tuple_deserialize_with_seed S bytes seed =
     (let cursor = new_slice bytes
      in bind_res (insufficient_data ''preamble_longs'' (read_u8 cursor)) (\<lambda>(pre_longs, cursor).
         bind_res (insufficient_data ''serial_version'' (read_u8 cursor)) (\<lambda>(ser_ver, cursor).
         bind_res (insufficient_data ''family_id'' (read_u8 cursor)) (\<lambda>(family_id, cursor).
         bind_res (insufficient_data ''sketch_type'' (read_u8 cursor)) (\<lambda>(sketch_type, cursor).
         bind_res (insufficient_data ''<unused>'' (read_u8 cursor)) (\<lambda>(_, cursor).
         bind_res (insufficient_data ''flags'' (read_u8 cursor)) (\<lambda>(flags, cursor).
         bind_res (insufficient_data ''seed_hash'' (read_u16_le cursor)) (\<lambda>(seed_hash, cursor).
         bind_res (validate_id family_tuple family_id) (\<lambda>_.
         bind_res (ensure_preamble_longs_in_range (fam_min_pre_longs family_tuple)
           (fam_max_pre_longs family_tuple) pre_longs) (\<lambda>_.
         if ser_ver \<noteq> TUPLE_SERIAL_VERSION \<and> ser_ver \<noteq> SERIAL_VERSION_LEGACY
         then Inl (InvalidData ''unsupported serial version'')
         else if sketch_type \<noteq> SKETCH_TYPE \<and> sketch_type \<noteq> SKETCH_TYPE_LEGACY
         then Inl (InvalidData ''unsupported sketch type'')
         else
           let is_empty = (flags AND FLAGS_IS_EMPTY \<noteq> 0);
               ordered = (flags AND FLAGS_IS_ORDERED \<noteq> 0)
           in if is_empty then
                Inr \<lparr>cu_entries = [], cu_theta = MAX_THETA, cu_seed_hash = seed_hash, cu_ordered = ordered, cu_empty = True\<rparr>
              else
                bind_res (compute_seed_hash seed) (\<lambda>expected.
                bind_res (check_seed_hash expected seed_hash InvalidData) (\<lambda>_.
                bind_res
                  (if pre_longs = 1 then Inr (1, MAX_THETA, cursor)
                   else
                     bind_res (insufficient_data ''num_entries'' (read_u32_le cursor)) (\<lambda>(n, cursor).
                     bind_res (insufficient_data ''<unused_u32>'' (read_u32_le cursor)) (\<lambda>(_, cursor).
                       if 2 < pre_longs then
                         bind_res (insufficient_data ''theta'' (read_u64_le cursor)) (\<lambda>(theta, cursor).
                           Inr (unat n, theta, cursor))
                       else Inr (unat n, MAX_THETA, cursor))))
                  (\<lambda>(num_entries, theta, cursor).
                if 2 ^ 64 \<le> num_entries * 8 then Inl (InvalidData ''Tuple entry payload length overflows'')
                else
                  let required_hash_bytes = num_entries * 8
                  in if length (remaining cursor) < required_hash_bytes
                     then Inl (InvalidData ''insufficient data: Tuple entry hashes'')
                     else bind_res (read_tuple_entries S num_entries theta cursor) (\<lambda>(entries, _).
                       Inr \<lparr>cu_entries = entries, cu_theta = theta, cu_seed_hash = seed_hash,
                         cu_ordered = ordered, cu_empty = False\<rparr>))))))))))))))"

definition tuple_deserialize :: "'s summary_value \<Rightarrow> u8 list \<Rightarrow> 's compact_tuple res" where
  "tuple_deserialize S bytes = tuple_deserialize_with_seed S bytes DEFAULT_UPDATE_SEED"

section \<open>The contract of a summary type\<close>

text \<open>
  Writing appends an encoding; reading at an encoding gives the summary back and moves the cursor past it.
\<close>

definition tuple_entry_bytes :: "('s \<Rightarrow> u8 list) \<Rightarrow> 's tuple_entry \<Rightarrow> u8 list" where
  "tuple_entry_bytes enc e = to_le_bytes (tue_hash e) @ enc (tue_summary e)"

locale summary_codec =
  fixes S :: "'s summary_value" and enc :: "'s \<Rightarrow> u8 list"
  assumes write_enc: "sm_serialize_value S bs x = bs @ enc x"
    and read_enc: "remaining c = enc x @ rest \<Longrightarrow> sm_deserialize_value S c = Inr (x, advance (length (enc x)) c)"
begin

lemma write_entries:
  "foldl (\<lambda>bytes entry. sm_serialize_value S (bytes @ to_le_bytes (tue_hash entry)) (tue_summary entry)) bs es =
   bs @ concat (map (tuple_entry_bytes enc) es)"
  by (induction es arbitrary: bs) (simp_all add: write_enc codec_simps tuple_entry_bytes_def)

lemma entry_bytes_length: "8 * length es \<le> length (concat (map (tuple_entry_bytes enc) es))"
  by (induction es) (simp_all add: tuple_entry_bytes_def)

lemma read_entries:
  "remaining c = concat (map (tuple_entry_bytes enc) es) @ rest \<Longrightarrow> \<forall>e \<in> set es. 0 < tue_hash e \<and> tue_hash e < theta \<Longrightarrow>
   \<exists>c'. read_tuple_entries S (length es) theta c = Inr (es, c')"
proof (induction es arbitrary: c)
  case (Cons e es)
  have "read_u64_le c = Some (tue_hash e, advance 8 c)"
    by (rule u64_le_codec.rd_enc) (use Cons.prems(1) in \<open>simp add: tuple_entry_bytes_def\<close>)
  moreover have "sm_deserialize_value S (advance 8 c) =
      Inr (tue_summary e, advance (length (enc (tue_summary e))) (advance 8 c))"
    by (rule read_enc) (use Cons.prems(1) in \<open>simp add: tuple_entry_bytes_def\<close>)
  moreover obtain c' where
    "read_tuple_entries S (length es) theta (advance (length (enc (tue_summary e))) (advance 8 c)) = Inr (es, c')"
    using Cons.IH [of "advance (length (enc (tue_summary e))) (advance 8 c)"] Cons.prems
    by (auto simp: tuple_entry_bytes_def simp del: advance_advance)
  moreover have "tue_hash e \<noteq> 0" "\<not> theta \<le> tue_hash e" using Cons.prems(2) by auto
  ultimately show ?case by (simp add: tuple_entry_new_def del: advance_advance)
qed simp

end

text \<open>Every pair of fixed-width accessors gives a summary that keeps the contract.\<close>

context wire_codec
begin

lemma primitive_summary: "summary_codec (impl_primitive_summary width rd wr) enc"
  by unfold_locales (simp_all add: impl_primitive_summary_def wr_enc rd_enc length_enc)

end

interpretation u32_sum: summary_codec u32_summary to_le_bytes
  unfolding u32_summary_def by (rule u32_le_codec.primitive_summary)

interpretation u64_sum: summary_codec u64_summary to_le_bytes
  unfolding u64_summary_def by (rule u64_le_codec.primitive_summary)

interpretation i32_sum: summary_codec i32_summary to_le_bytes
  unfolding i32_summary_def by (rule i32_le_codec.primitive_summary)

interpretation i64_sum: summary_codec i64_summary to_le_bytes
  unfolding i64_summary_def by (rule i64_le_codec.primitive_summary)

interpretation f32_sum: summary_codec f32_summary to_le_bytes
  unfolding f32_summary_def by (rule f32_le_codec.primitive_summary)

interpretation f64_sum: summary_codec f64_summary to_le_bytes
  unfolding f64_summary_def by (rule f64_le_codec.primitive_summary)

section \<open>Round trip\<close>

definition compact_tuple_ok :: "u64 \<Rightarrow> 's compact_tuple \<Rightarrow> bool" where
  "compact_tuple_ok seed s \<longleftrightarrow>
     length (cu_entries s) < 2 ^ 32 \<and> cu_theta s \<le> MAX_THETA \<and>
     (\<forall>e \<in> set (cu_entries s). 0 < tue_hash e \<and> tue_hash e < cu_theta s) \<and>
     (cu_empty s \<longrightarrow> cu_entries s = [] \<and> cu_theta s = MAX_THETA) \<and>
     compute_seed_hash seed = Inr (cu_seed_hash s)"

definition tuple_flags :: "'s compact_tuple \<Rightarrow> u8" where
  "tuple_flags s = 10 OR (if cu_empty s then 4 else 0) OR (if cu_ordered s then 16 else 0)"

lemma tuple_flags_bits:
  "tuple_flags s AND 4 = (if cu_empty s then 4 else 0)"
  "tuple_flags s AND 16 = (if cu_ordered s then 16 else 0)"
  by (simp_all add: tuple_flags_def)

lemma tuple_serialize_bytes:
  assumes "summary_codec S enc"
  shows "tuple_serialize S s =
     tuple_preamble_longs s # 3 # 9 # 1 # 0 # tuple_flags s # to_le_bytes (cu_seed_hash s) @
     (if 1 < tuple_preamble_longs s
      then to_le_bytes (of_nat (length (cu_entries s)) :: u32) @ to_le_bytes (0 :: u32) else []) @
     (if cu_is_estimation_mode s then to_le_bytes (cu_theta s) else []) @
     concat (map (tuple_entry_bytes enc) (cu_entries s))"
  by (simp add: tuple_serialize_def summary_codec.write_entries [OF assms] codec_simps Let_def
      TUPLE_SERIAL_VERSION_def SKETCH_TYPE_def family_tuple_def tuple_flags_def theta_flags)

lemma compact_tuple_eq_iff:
  "\<lparr>cu_entries = a, cu_theta = b, cu_seed_hash = c, cu_ordered = d, cu_empty = e\<rparr> = s \<longleftrightarrow>
   a = cu_entries s \<and> b = cu_theta s \<and> c = cu_seed_hash s \<and> d = cu_ordered s \<and> e = cu_empty s"
  by (cases s) auto

lemma tuple_roundtrip_ok:
  assumes S: "summary_codec S enc" and ok: "compact_tuple_ok seed s"
  shows "tuple_deserialize_with_seed S (tuple_serialize S s) seed = Inr s"
proof -
  have len: "length (cu_entries s) < 2 ^ 32" and max: "cu_theta s \<le> MAX_THETA"
    and hashes: "\<forall>e \<in> set (cu_entries s). 0 < tue_hash e \<and> tue_hash e < cu_theta s"
    and emp: "cu_empty s \<longrightarrow> cu_entries s = [] \<and> cu_theta s = MAX_THETA"
    and seed: "compute_seed_hash seed = Inr (cu_seed_hash s)"
    using ok by (auto simp: compact_tuple_ok_def)
  let ?bs = "tuple_serialize S s" and ?es = "concat (map (tuple_entry_bytes enc) (cu_entries s))"
  have entries: "\<exists>c'. read_tuple_entries S (length (cu_entries s)) (cu_theta s) (advance n (new_slice ?bs)) =
      Inr (cu_entries s, c')" if "drop n ?bs = ?es" for n
    by (rule summary_codec.read_entries [OF S _ hashes, of _ "[]"]) (use that in simp)
  have room: "\<not> length ?es < 8 * length (cu_entries s)" "\<not> 2 ^ 64 \<le> length (cu_entries s) * 8"
    using summary_codec.entry_bytes_length [OF S, of "cu_entries s"] len by simp_all
  note reads = cursor_reads compact_tuple_eq_iff tuple_serialize_bytes [OF S] tuple_flags_bits seed unat_of_length [OF len]
    validate_id_def ensure_preamble_longs_in_range_def family_tuple_def check_seed_hash_def
    TUPLE_SERIAL_VERSION_def SERIAL_VERSION_LEGACY_def SKETCH_TYPE_def SKETCH_TYPE_LEGACY_def
  consider (none) "cu_empty s" | (estimation) "\<not> cu_empty s" "cu_theta s < MAX_THETA"
    | (single) "\<not> cu_empty s" "cu_theta s = MAX_THETA" "length (cu_entries s) = 1"
    | (exact) "\<not> cu_empty s" "cu_theta s = MAX_THETA" "length (cu_entries s) \<noteq> 1"
    using max by fastforce
  then show ?thesis
  proof cases
    case none
    then show ?thesis using emp
      by (cases "cu_ordered s") (simp_all add: tuple_deserialize_with_seed_def reads tuple_preamble_longs_def
          cu_is_estimation_mode_def theta_flags Let_def del: One_nat_def)
  next
    case estimation
    have drop: "drop 24 ?bs = ?es"
      using estimation by (simp add: reads tuple_preamble_longs_def cu_is_estimation_mode_def)
    obtain c' where e: "read_tuple_entries S (length (cu_entries s)) (cu_theta s) (advance 24 (new_slice ?bs)) =
        Inr (cu_entries s, c')" using entries [OF drop] by blast
    show ?thesis using estimation e room
      by (cases "cu_ordered s") (simp_all add: tuple_deserialize_with_seed_def reads tuple_preamble_longs_def
          cu_is_estimation_mode_def theta_flags Let_def mult.commute del: One_nat_def)
  next
    case single
    have drop: "drop 8 ?bs = ?es"
      using single by (simp add: reads tuple_preamble_longs_def cu_is_estimation_mode_def)
    obtain c' where e: "read_tuple_entries S (length (cu_entries s)) (cu_theta s) (advance 8 (new_slice ?bs)) =
        Inr (cu_entries s, c')" using entries [OF drop] by blast
    show ?thesis using single e room
      by (cases "cu_ordered s") (simp_all add: tuple_deserialize_with_seed_def reads tuple_preamble_longs_def
          cu_is_estimation_mode_def theta_flags Let_def mult.commute del: One_nat_def)
  next
    case exact
    have drop: "drop 16 ?bs = ?es"
      using exact by (simp add: reads tuple_preamble_longs_def cu_is_estimation_mode_def)
    obtain c' where e: "read_tuple_entries S (length (cu_entries s)) (cu_theta s) (advance 16 (new_slice ?bs)) =
        Inr (cu_entries s, c')" using entries [OF drop] by blast
    show ?thesis using exact e room
      by (cases "cu_ordered s") (simp_all add: tuple_deserialize_with_seed_def reads tuple_preamble_longs_def
          cu_is_estimation_mode_def theta_flags Let_def mult.commute del: One_nat_def)
  qed
qed

section \<open>Compacting a sketch\<close>

lemma tuple_compact_shape:
  assumes ok: "table_ok tue_hash (tp_table s)" and theta: "ht_theta (tp_table s) \<le> MAX_THETA"
    and emp: "ht_is_empty (tp_table s) \<longrightarrow> entry_set (tp_table s) = {}"
    and small: "ht_num_retained (tp_table s) < 2 ^ 32" and sh: "compute_seed_hash (ht_seed (tp_table s)) = Inr sh"
  shows "\<exists>c. tuple_compact s ordered = Inr c \<and> compact_tuple_ok (ht_seed (tp_table s)) c \<and>
    set (cu_entries c) = entry_set (tp_table s) \<and> distinct (map tue_hash (cu_entries c)) \<and>
    (ordered \<longrightarrow> sorted (map tue_hash (cu_entries c)))"
proof -
  let ?t = "tp_table s"
  let ?es = "iter_entries ?t"
  define ord where "ord = (ordered \<or> ht_is_empty ?t \<or>
    (length ?es = 1 \<and> (if ht_is_empty ?t then MAX_THETA else ht_theta ?t) = MAX_THETA))"
  define xs where "xs = (if ord \<and> 1 < length ?es then sort_key tue_hash ?es else ?es)"
  let ?c = "\<lparr>cu_entries = xs, cu_theta = (if ht_is_empty ?t then MAX_THETA else ht_theta ?t), cu_seed_hash = sh,
    cu_ordered = ord, cu_empty = ht_is_empty ?t\<rparr>"
  have c: "tuple_compact s ordered = Inr ?c"
    using sh unfolding xs_def ord_def
    by (simp add: tuple_compact_def table_to_compact_parts_def compact_tuple_from_parts_def Let_def)
  have set: "set xs = entry_set ?t" by (simp add: xs_def entry_set_def)
  have dist: "distinct (map tue_hash xs)" using iter_entries_distinct [OF ok] by (auto simp: xs_def distinct_map)
  have len: "length xs = ht_num_retained ?t" using num_retained_card(2) [OF ok] by (simp add: xs_def)
  have "\<forall>e \<in> set xs. 0 < tue_hash e \<and> tue_hash e < ht_theta ?t"
    unfolding set using table_ok_hash_lt [OF ok] by (auto simp: retained_hashes_def)
  moreover have "ht_is_empty ?t \<longrightarrow> xs = []" using emp set by auto
  ultimately have "compact_tuple_ok (ht_seed ?t) ?c"
    using theta small sh len by (auto simp: compact_tuple_ok_def)
  moreover have "ordered \<longrightarrow> sorted (map tue_hash xs)"
  proof
    assume ordered
    show "sorted (map tue_hash xs)"
    proof (cases "1 < length ?es")
      case True
      then show ?thesis using \<open>ordered\<close> by (simp add: xs_def ord_def)
    next
      case False
      then have "length xs \<le> 1" by (simp add: xs_def)
      then show ?thesis by (cases xs) auto
    qed
  qed
  ultimately show ?thesis using c set dist by (intro exI [of _ ?c]) simp
qed

text \<open>
  C15. The Tuple pipeline: for every stream of keys and values and every summary type that keeps its
  contract, compacting the sketch, writing it and reading the bytes back with the sketch's seed gives the
  same compact sketch; it holds the hashes seen below theta, each once, with what the policy makes of
  their values.
\<close>

theorem tuple_pipeline_round_trip:
  fixes pol :: "('s, 'u) update_policy"
  assumes "summary_codec S enc" and "4 \<le> tb_lg_k b" and "tb_lg_k b \<le> MAX_LG_K"
    and "0 \<le> tb_sampling_probability b" and "compute_seed_hash (tb_seed b) = Inr sh"
  shows "\<exists>s0 s c. tuple_build b pol = Inr s0 \<and> tuple_update_all s0 kvs = Inr s \<and> tuple_compact s ordered = Inr c \<and>
    tuple_deserialize_with_seed S (tuple_serialize S c) (tb_seed b) = Inr c \<and>
    (let hs = map (\<lambda>(key, v). (table_hash (tp_table s0) key, v)) kvs
     in set (cu_entries c) = (\<lambda>x. TupleEntry x (summary_of pol hs x)) `
          {x \<in> fst ` set hs. 0 < x \<and> x < ht_theta (tp_table s)}) \<and>
    distinct (map tue_hash (cu_entries c)) \<and> (ordered \<longrightarrow> sorted (map tue_hash (cu_entries c)))"
proof -
  let ?theta0 = "starting_theta_from_sampling_probability (tb_sampling_probability b)"
  obtain s0 where s0: "tuple_build b pol = Inr s0" "tp_policy s0 = pol" "tuple_holds ?theta0 pol [] (tp_table s0)"
    "ht_is_empty (tp_table s0)" "ht_lg_nom_size (tp_table s0) = tb_lg_k b" "ht_seed (tp_table s0) = tb_seed b"
    by (rule tuple_build_shape [OF assms(2)])
  let ?hs = "map (\<lambda>(key, v). (table_hash (tp_table s0) key, v)) kvs"
  obtain s where s: "tuple_update_all s0 kvs = Inr s" "tuple_holds ?theta0 pol ?hs (tp_table s)"
    "ht_is_empty (tp_table s) = (kvs = [])" "ht_lg_nom_size (tp_table s) = tb_lg_k b" "ht_seed (tp_table s) = tb_seed b"
    using tuple_update_all_holds [OF s0(3,2), of kvs] s0(4-6) by auto
  note H = tuple_holds_entries [OF s(2)]
  have theta: "ht_theta (tp_table s) \<le> MAX_THETA"
    using H(4) starting_theta_le [OF assms(4)] by (rule order_trans)
  have emp: "ht_is_empty (tp_table s) \<longrightarrow> entry_set (tp_table s) = {}"
  proof
    assume "ht_is_empty (tp_table s)"
    then have "retained_hashes tue_hash (tp_table s) = {}" using H(2) s(3) by simp
    then show "entry_set (tp_table s) = {}" by (simp add: retained_hashes_def)
  qed
  have small: "ht_num_retained (tp_table s) < 2 ^ 32"
    using assms(3) s(4) by (intro num_retained_small [OF H(1)]) (simp add: MAX_LG_K_def)
  obtain c where c: "tuple_compact s ordered = Inr c" "compact_tuple_ok (tb_seed b) c"
    "set (cu_entries c) = entry_set (tp_table s)" "distinct (map tue_hash (cu_entries c))"
    "ordered \<longrightarrow> sorted (map tue_hash (cu_entries c))"
    using tuple_compact_shape [OF H(1) theta emp small, of sh ordered] assms(5) s(5) by auto
  have "entry_set (tp_table s) = (\<lambda>e. TupleEntry (tue_hash e) (summary_of pol ?hs (tue_hash e))) ` entry_set (tp_table s)"
  proof -
    have "TupleEntry (tue_hash e) (summary_of pol ?hs (tue_hash e)) = e" if "e \<in> entry_set (tp_table s)" for e
      using H(3) that by (cases e) fastforce
    then show ?thesis by simp
  qed
  also have "\<dots> = (\<lambda>x. TupleEntry x (summary_of pol ?hs x)) ` retained_hashes tue_hash (tp_table s)"
    by (simp add: retained_hashes_def image_image)
  finally have "set (cu_entries c) = (\<lambda>x. TupleEntry x (summary_of pol ?hs x)) `
      {x \<in> fst ` set ?hs. 0 < x \<and> x < ht_theta (tp_table s)}"
    unfolding c(3) H(2) .
  then show ?thesis
    using s0(1) s(1) c tuple_roundtrip_ok [OF assms(1) c(2)] unfolding Let_def by blast
qed

theorem tuple_pipeline_round_trip_witness:
  "\<exists>s0 s c. tuple_build theta_builder_default (default_update_policy (0 :: u64) (+)) = Inr s0 \<and>
     tuple_update_all s0 [([[1]], 5), ([[2]], 1), ([[1]], 7)] = Inr s \<and> tuple_compact s True = Inr c \<and>
     tuple_deserialize_with_seed u64_summary (tuple_serialize u64_summary c) DEFAULT_UPDATE_SEED = Inr c"
proof -
  let ?b = theta_builder_default
  have b: "4 \<le> tb_lg_k ?b" "tb_lg_k ?b \<le> MAX_LG_K" "0 \<le> tb_sampling_probability ?b"
    "compute_seed_hash (tb_seed ?b) = Inr 0x93cc" "tb_seed ?b = DEFAULT_UPDATE_SEED"
    by (simp_all add: theta_builder_default_def DEFAULT_LG_K_def MAX_LG_K_def default_seed_hash)
  show ?thesis
    using tuple_pipeline_round_trip [OF u64_sum.summary_codec_axioms b(1-4), of "default_update_policy 0 (+)"
      "[([[1]], 5), ([[2]], 1), ([[1]], 7)]" True] unfolding b(5) by blast
qed

end
