(* ===== verification/PairTable.thy ===== *)
theory PairTable
  imports Probing
begin

unbundle bit_operations_syntax

text \<open>
  The hash table of surprising values of the CPC sketch: \<open>src/datasketches/src/cpc/pair_table.rs\<close>. Linear
  probing over a power of two of slots; an item is a row and a column packed into 32 bits, its home slot
  is given by its high bits, and \<open>u32::MAX\<close> marks a free slot. The table grows and shrinks with its load,
  and deletion re-inserts the run of items behind the freed slot.
\<close>

section \<open>The operations\<close>

definition UPSIZE_NUMERATOR :: nat where "UPSIZE_NUMERATOR = 3"

definition UPSIZE_DENOMINATOR :: nat where "UPSIZE_DENOMINATOR = 4"

definition DOWNSIZE_NUMERATOR :: nat where "DOWNSIZE_NUMERATOR = 1"

definition DOWNSIZE_DENOMINATOR :: nat where "DOWNSIZE_DENOMINATOR = 4"

abbreviation FREE :: u32 where "FREE \<equiv> 0xFFFFFFFF"

record pair_table =
  pt_lg_size :: nat
  pt_num_valid_bits :: nat
  pt_num_items :: nat
  pt_slots :: "u32 list"

definition pair_table_new :: "nat \<Rightarrow> nat \<Rightarrow> pair_table res" where
  "pair_table_new lg_size num_valid_bits =
     (if \<not> (2 \<le> lg_size \<and> lg_size \<le> 26) then Inl (Panic ''lg_size must be in [2, 26]'')
      else if \<not> (lg_size + 1 \<le> num_valid_bits \<and> num_valid_bits \<le> 32)
      then Inl (Panic ''num_valid_bits must be in [lg_size + 1, 32]'')
      else Inr \<lparr>pt_lg_size = lg_size, pt_num_valid_bits = num_valid_bits, pt_num_items = 0,
        pt_slots = replicate (2 ^ lg_size) FREE\<rparr>)"

text \<open>
  The search loop has no bound in the source. Its fuel is the number of slots; when it is back at its
  first slot without having stopped, it runs forever, which the model shows as an error.
\<close>

definition pair_lookup :: "nat \<Rightarrow> nat \<Rightarrow> u32 list \<Rightarrow> u32 \<Rightarrow> nat res" where
  "pair_lookup num_valid_bits lg_size slots item =
     (let msk = 2 ^ lg_size - 1;
          shift = num_valid_bits - lg_size;
          probe = drop_bit shift (unat item)
      in if \<not> probe \<le> msk then Inl (Panic ''probe out of range'')
         else case probe_loop (2 ^ lg_size) (\<lambda>slot. \<not> (slot \<noteq> item \<and> slot \<noteq> FREE)) slots msk 1 probe probe of
                Slot i \<Rightarrow> Inr i
              | Wrapped \<Rightarrow> Inl (Panic ''lookup does not end'')
              | Out_of_fuel \<Rightarrow> Inl (Panic ''lookup does not end''))"

definition must_insert :: "nat \<Rightarrow> nat \<Rightarrow> u32 list \<Rightarrow> u32 \<Rightarrow> u32 list res" where
  "must_insert num_valid_bits lg_size slots item =
     bind_res (pair_lookup num_valid_bits lg_size slots item) (\<lambda>index.
       if slots ! index = item then Inl (Panic ''item already present in table'')
       else if slots ! index \<noteq> FREE then Inl (Panic ''no empty slot found'')
       else Inr (slots[index := item]))"

definition pair_rebuild :: "pair_table \<Rightarrow> nat \<Rightarrow> pair_table res" where
  "pair_rebuild t lg_size =
     (if \<not> (2 \<le> lg_size \<and> lg_size \<le> 26) then Inl (Panic ''lg_size must be in [2, 26]'')
      else if \<not> (lg_size + 1 \<le> pt_num_valid_bits t \<and> pt_num_valid_bits t \<le> 32)
      then Inl (Panic ''num_valid_bits must be in [lg_size + 1, 32]'')
      else
        let new_size = 2 ^ lg_size
        in if \<not> pt_num_items t < new_size then Inl (Panic ''new table size must be larger than number of items'')
           else
             bind_res (fold_res (must_insert (pt_num_valid_bits t) lg_size) (replicate new_size FREE)
                 (filter (\<lambda>slot. slot \<noteq> FREE) (pt_slots t))) (\<lambda>slots.
               Inr (t\<lparr>pt_lg_size := lg_size, pt_slots := slots\<rparr>)))"

text \<open>The two loops that rebuild until the load is right; a rebuild changes \<open>lg_size\<close>, which stays in 2..26\<close>

fun upsize :: "nat \<Rightarrow> pair_table \<Rightarrow> pair_table res" where
  "upsize 0 t = Inl (Panic ''upsize does not end'')"
| "upsize (Suc fuel) t =
     (if UPSIZE_NUMERATOR * 2 ^ pt_lg_size t < UPSIZE_DENOMINATOR * pt_num_items t
      then bind_res (pair_rebuild t (pt_lg_size t + 1)) (upsize fuel)
      else Inr t)"

fun downsize :: "nat \<Rightarrow> pair_table \<Rightarrow> pair_table res" where
  "downsize 0 t = Inl (Panic ''downsize does not end'')"
| "downsize (Suc fuel) t =
     (if DOWNSIZE_DENOMINATOR * pt_num_items t < DOWNSIZE_NUMERATOR * 2 ^ pt_lg_size t \<and> 2 < pt_lg_size t
      then bind_res (pair_rebuild t (pt_lg_size t - 1)) (downsize fuel)
      else Inr t)"

definition maybe_insert :: "pair_table \<Rightarrow> u32 \<Rightarrow> (pair_table \<times> bool) res" where
  "maybe_insert t item =
     bind_res (pair_lookup (pt_num_valid_bits t) (pt_lg_size t) (pt_slots t) item) (\<lambda>index.
       if pt_slots t ! index = item then Inr (t, False)
       else if pt_slots t ! index \<noteq> FREE then Inl (Panic ''no empty slot found'')
       else
         let t = t\<lparr>pt_slots := (pt_slots t)[index := item], pt_num_items := pt_num_items t + 1\<rparr>
         in bind_res (upsize 32 t) (\<lambda>t. Inr (t, True)))"

text \<open>The loop of \<open>maybe_delete\<close> over the items behind the freed slot\<close>

fun reinsert_run :: "nat \<Rightarrow> nat \<Rightarrow> nat \<Rightarrow> u32 list \<Rightarrow> nat \<Rightarrow> u32 list res" where
  "reinsert_run 0 num_valid_bits lg_size slots probe = Inl (Panic ''deletion does not end'')"
| "reinsert_run (Suc fuel) num_valid_bits lg_size slots probe =
     (let fetched = slots ! probe
      in if fetched \<noteq> FREE then
           bind_res (must_insert num_valid_bits lg_size (slots[probe := FREE]) fetched) (\<lambda>slots.
             reinsert_run fuel num_valid_bits lg_size slots ((probe + 1) AND (2 ^ lg_size - 1)))
         else Inr slots)"

definition maybe_delete :: "pair_table \<Rightarrow> u32 \<Rightarrow> (pair_table \<times> bool) res" where
  "maybe_delete t item =
     bind_res (pair_lookup (pt_num_valid_bits t) (pt_lg_size t) (pt_slots t) item) (\<lambda>index.
       if pt_slots t ! index = FREE then Inr (t, False)
       else if pt_slots t ! index \<noteq> item then Inl (Panic ''item not found at index'')
       else if \<not> 0 < pt_num_items t then Inl (Panic ''no items to delete'')
       else
         let lg_size = pt_lg_size t;
             slots = (pt_slots t)[index := FREE];
             msk = 2 ^ lg_size - 1
         in bind_res (reinsert_run (2 ^ lg_size) (pt_num_valid_bits t) lg_size slots ((index + 1) AND msk)) (\<lambda>slots.
            bind_res (downsize 32 (t\<lparr>pt_slots := slots, pt_num_items := pt_num_items t - 1\<rparr>)) (\<lambda>t.
              Inr (t, True))))"

definition pair_clear :: "pair_table \<Rightarrow> pair_table" where
  "pair_clear t = t\<lparr>pt_slots := replicate (length (pt_slots t)) FREE, pt_num_items := 0\<rparr>"



section \<open>Linear probing as open addressing\<close>

definition pair_occ :: "u32 \<Rightarrow> u32 option" where
  "pair_occ slot = (if slot = FREE then None else Some slot)"

definition pair_start :: "nat \<Rightarrow> nat \<Rightarrow> u32 \<Rightarrow> nat" where
  "pair_start num_valid_bits lg item = drop_bit (num_valid_bits - lg) (unat item) mod 2 ^ lg"

definition pair_probe :: "nat \<Rightarrow> nat \<Rightarrow> u32 list \<Rightarrow> u32 \<Rightarrow> probe_result" where
  "pair_probe num_valid_bits lg slots item =
     probe_loop (2 ^ lg) (\<lambda>s. pair_occ s = None \<or> pair_occ s = Some item) slots (2 ^ lg - 1) 1
       (pair_start num_valid_bits lg item) (pair_start num_valid_bits lg item)"

interpretation pt: open_addressing pair_occ "pair_start num_valid_bits" "\<lambda>_ _. Suc 0" "pair_probe num_valid_bits"
  for num_valid_bits
  by unfold_locales (simp_all add: pair_start_def pair_probe_def)

definition valid_item :: "nat \<Rightarrow> u32 \<Rightarrow> bool" where
  "valid_item num_valid_bits item \<longleftrightarrow> item \<noteq> FREE \<and> unat item < 2 ^ num_valid_bits"

lemma pair_start_valid:
  assumes "lg \<le> num_valid_bits" and "unat item < 2 ^ num_valid_bits"
  shows "drop_bit (num_valid_bits - lg) (unat item) < 2 ^ lg"
proof -
  have "unat item < 2 ^ lg * 2 ^ (num_valid_bits - lg)"
    using assms by (simp flip: power_add)
  then show ?thesis by (simp add: drop_bit_eq_div div_less_iff_less_mult)
qed

lemma pair_lookup_probe:
  assumes "lg \<le> num_valid_bits" and "valid_item num_valid_bits item"
  shows "pair_lookup num_valid_bits lg slots item =
    (case pair_probe num_valid_bits lg slots item of
       Slot i \<Rightarrow> Inr i | _ \<Rightarrow> Inl (Panic ''lookup does not end''))"
proof -
  have lt: "drop_bit (num_valid_bits - lg) (unat item) < 2 ^ lg"
    using assms by (intro pair_start_valid) (simp_all add: valid_item_def)
  have stop: "(\<lambda>slot. \<not> (slot \<noteq> item \<and> slot \<noteq> FREE)) = (\<lambda>s. pair_occ s = None \<or> pair_occ s = Some item)"
    using assms(2) by (auto simp: pair_occ_def valid_item_def fun_eq_iff)
  show ?thesis
    using lt unfolding pair_lookup_def pair_probe_def pair_start_def stop Let_def
    by (simp add: not_le less_Suc_eq_le [symmetric] del: One_nat_def split: probe_result.split)
qed

lemma pt_keys: "pt.keys slots = set slots - {FREE}"
  by (auto simp: pt.keys_def pair_occ_def split: if_splits)

lemma pt_stored: "pt.stored slots = set slots - {FREE}"
  by (auto simp: pt.stored_def pair_occ_def)


section \<open>Looking up, inserting and rebuilding\<close>

lemma pair_occ_simps [simp]: "pair_occ FREE = None" "pair_occ s = None \<longleftrightarrow> s = FREE"
    "pair_occ s = Some x \<longleftrightarrow> s = x \<and> x \<noteq> FREE"
  by (auto simp: pair_occ_def)

lemma set_nth: "x \<in> set slots \<longleftrightarrow> (\<exists>q < length slots. slots ! q = x)"
  by (auto simp: in_set_conv_nth)

lemma pair_lookup_present:
  assumes wf: "pt.wf nvb lg slots" and lg: "lg \<le> nvb" and x: "valid_item nvb x" "x \<in> set slots"
  obtains p where "pair_lookup nvb lg slots x = Inr p" and "p < 2 ^ lg" and "slots ! p = x"
proof -
  obtain p where p: "p < 2 ^ lg" "slots ! p = x"
    using x(2) pt.wf_length [OF wf] by (auto simp: set_nth)
  have "pair_probe nvb lg slots x = Slot p"
    using x(1) p by (intro pt.lookup_found [OF wf]) (simp_all add: valid_item_def)
  then show ?thesis using p by (intro that [of p]) (simp_all add: pair_lookup_probe [OF lg x(1)])
qed

lemma pair_lookup_absent:
  assumes len: "length slots = 2 ^ lg" and lg: "lg \<le> nvb" and x: "valid_item nvb x" "x \<notin> set slots"
    and free: "FREE \<in> set slots"
  obtains i where "i < 2 ^ lg" and "pair_lookup nvb lg slots x = Inr (pt.pos nvb lg x i)"
    and "pair_probe nvb lg slots x = Slot (pt.pos nvb lg x i)"
    and "slots ! pt.pos nvb lg x i = FREE" and "\<forall>j<i. slots ! pt.pos nvb lg x j \<noteq> FREE"
proof -
  have "x \<notin> pt.keys slots" using x(2) by (simp add: pt_keys)
  moreover have "\<exists>s \<in> set slots. pair_occ s = None" using free by auto
  ultimately obtain i where i: "i < 2 ^ lg" "pair_probe nvb lg slots x = Slot (pt.pos nvb lg x i)"
    "pair_occ (slots ! pt.pos nvb lg x i) = None" "\<forall>j<i. pair_occ (slots ! pt.pos nvb lg x j) \<noteq> None"
    using pt.lookup_absent [OF len] by metis
  then show ?thesis by (intro that [of i]) (simp_all add: pair_lookup_probe [OF lg x(1)])
qed

lemma must_insert_ok:
  assumes wf: "pt.wf nvb lg slots" and lg: "lg \<le> nvb" and x: "valid_item nvb x" "x \<notin> set slots"
    and free: "FREE \<in> set slots"
  obtains p where "pair_lookup nvb lg slots x = Inr p" and "p < 2 ^ lg" and "slots ! p = FREE"
    and "must_insert nvb lg slots x = Inr (slots[p := x])" and "pt.wf nvb lg (slots[p := x])"
    and "set (slots[p := x]) - {FREE} = insert x (set slots - {FREE})"
proof -
  obtain i where i: "pair_lookup nvb lg slots x = Inr (pt.pos nvb lg x i)"
    "pair_probe nvb lg slots x = Slot (pt.pos nvb lg x i)" "slots ! pt.pos nvb lg x i = FREE"
    by (rule pair_lookup_absent [OF pt.wf_length [OF wf] lg x free])
  have occ: "pair_occ x = Some x" using x(1) by (simp add: valid_item_def)
  have "must_insert nvb lg slots x = Inr (slots[pt.pos nvb lg x i := x])"
    using x(1) i(1,3) by (auto simp: must_insert_def valid_item_def)
  then show ?thesis
    using i pt.wf_insert [OF wf i(2) occ] pt.keys_insert [OF wf i(2) occ]
    by (intro that [of "pt.pos nvb lg x i"]) (simp_all add: pt_keys)
qed

lemma card_items:
  assumes "pt.wf nvb lg slots"
  shows "card (set slots - {FREE}) \<le> 2 ^ lg"
    and "FREE \<in> set slots \<longleftrightarrow> card (set slots - {FREE}) < 2 ^ lg"
proof -
  have eq: "card (set slots - {FREE}) = pt.occupied slots"
    using pt.occupied_card(2) [OF assms] by (simp add: pt_keys)
  show "card (set slots - {FREE}) \<le> 2 ^ lg"
    unfolding eq pt.occupied_def using pt.wf_length [OF assms] length_filter_le by metis
  have "(\<exists>s \<in> set slots. pair_occ s = None) \<longleftrightarrow> FREE \<in> set slots" by auto
  then show "FREE \<in> set slots \<longleftrightarrow> card (set slots - {FREE}) < 2 ^ lg"
    using pt.free_slot_iff [of slots] pt.wf_length [OF assms] by (simp add: eq)
qed

lemma must_insert_all_ok:
  assumes "pt.wf nvb lg slots" and "lg \<le> nvb" and "\<forall>x \<in> set xs. valid_item nvb x" and "distinct xs"
    and "set xs \<inter> set slots = {}" and "card (set slots - {FREE}) + length xs \<le> 2 ^ lg"
  shows "\<exists>slots'. fold_res (must_insert nvb lg) slots xs = Inr slots' \<and> pt.wf nvb lg slots' \<and>
    set slots' - {FREE} = (set slots - {FREE}) \<union> set xs"
  using assms
proof (induction xs arbitrary: slots)
  case (Cons x xs)
  have x: "valid_item nvb x" "x \<notin> set slots" using Cons.prems(3,5) by simp_all
  have "card (set slots - {FREE}) < 2 ^ lg" using Cons.prems(6) unfolding list.size by linarith
  then have "FREE \<in> set slots" unfolding card_items(2) [OF Cons.prems(1)] .
  then obtain p where p: "must_insert nvb lg slots x = Inr (slots[p := x])" "pt.wf nvb lg (slots[p := x])"
    "set (slots[p := x]) - {FREE} = insert x (set slots - {FREE})"
    by (rule must_insert_ok [OF Cons.prems(1,2) x])
  have "set xs \<inter> set (slots[p := x]) = {}"
    using Cons.prems(3,4,5) set_update_subset_insert [of slots p x] by auto
  moreover have "card (set (slots[p := x]) - {FREE}) = Suc (card (set slots - {FREE}))"
    unfolding p(3) using x(2) by (subst card_insert_disjoint) simp_all
  ultimately have "card (set (slots[p := x]) - {FREE}) + length xs \<le> 2 ^ lg"
    and "set xs \<inter> set (slots[p := x]) = {}"
    using Cons.prems(6) unfolding list.size by linarith+
  moreover have "\<forall>y \<in> set xs. valid_item nvb y" and "distinct xs" using Cons.prems(3,4) by simp_all
  ultimately obtain slots' where "fold_res (must_insert nvb lg) (slots[p := x]) xs = Inr slots'"
      "pt.wf nvb lg slots'" "set slots' - {FREE} = (set (slots[p := x]) - {FREE}) \<union> set xs"
    using Cons.IH [OF p(2) Cons.prems(2)] by metis
  then show ?case unfolding p(3) by (intro exI [of _ slots']) (simp add: p(1))
qed simp

section \<open>What a table holds\<close>

text \<open>
  \<open>pair_holds t P\<close>: the table is well formed, within its load, and holds exactly the items of P.
\<close>

definition pair_holds :: "pair_table \<Rightarrow> u32 set \<Rightarrow> bool" where
  "pair_holds t P \<longleftrightarrow>
     2 \<le> pt_lg_size t \<and> pt_lg_size t \<le> 26 \<and> pt_lg_size t + 1 \<le> pt_num_valid_bits t \<and> pt_num_valid_bits t \<le> 32 \<and>
     pt.wf (pt_num_valid_bits t) (pt_lg_size t) (pt_slots t) \<and> set (pt_slots t) - {FREE} = P \<and>
     pt_num_items t = card P \<and> 4 * card P \<le> 3 * 2 ^ pt_lg_size t \<and>
     (\<forall>x \<in> P. valid_item (pt_num_valid_bits t) x)"

lemma pair_holds_finite: "pair_holds t P \<Longrightarrow> finite P"
  by (auto simp: pair_holds_def)

lemma pair_table_new_holds:
  assumes "2 \<le> lg" and "lg \<le> 26" and "lg + 1 \<le> nvb" and "nvb \<le> 32"
  obtains t where "pair_table_new lg nvb = Inr t" and "pair_holds t {}" and "pt_num_valid_bits t = nvb"
proof (rule that)
  show "pair_table_new lg nvb = Inr \<lparr>pt_lg_size = lg, pt_num_valid_bits = nvb, pt_num_items = 0,
      pt_slots = replicate (2 ^ lg) FREE\<rparr>"
    using assms by (simp add: pair_table_new_def)
qed (use assms pt.wf_empty(1) [of FREE nvb lg] in \<open>simp_all add: pair_holds_def\<close>)

lemma pair_clear_holds: "pair_holds t P \<Longrightarrow> pair_holds (pair_clear t) {}"
  using pt.wf_empty(1) [of FREE "pt_num_valid_bits t" "pt_lg_size t"] pt.wf_length
  by (fastforce simp: pair_holds_def pair_clear_def)

text \<open>The same with any load that leaves a free slot, for the states between two rebuilds\<close>

definition pair_loose :: "pair_table \<Rightarrow> u32 set \<Rightarrow> bool" where
  "pair_loose t P \<longleftrightarrow>
     2 \<le> pt_lg_size t \<and> pt_lg_size t \<le> 26 \<and> pt_lg_size t + 1 \<le> pt_num_valid_bits t \<and> pt_num_valid_bits t \<le> 32 \<and>
     pt.wf (pt_num_valid_bits t) (pt_lg_size t) (pt_slots t) \<and> set (pt_slots t) - {FREE} = P \<and>
     pt_num_items t = card P \<and> (\<forall>x \<in> P. valid_item (pt_num_valid_bits t) x)"

lemma pair_holds_loose: "pair_holds t P \<longleftrightarrow> pair_loose t P \<and> 4 * card P \<le> 3 * 2 ^ pt_lg_size t"
  by (auto simp: pair_holds_def pair_loose_def)

lemma pair_rebuild_ok:
  assumes "pair_loose t P" and "2 \<le> lg" and "lg \<le> 26" and "lg + 1 \<le> pt_num_valid_bits t" and "card P < 2 ^ lg"
  obtains t' where "pair_rebuild t lg = Inr t'" and "pair_loose t' P" and "pt_lg_size t' = lg"
    and "pt_num_valid_bits t' = pt_num_valid_bits t"
proof -
  let ?nvb = "pt_num_valid_bits t" and ?xs = "filter (\<lambda>slot. slot \<noteq> FREE) (pt_slots t)"
  have wf: "pt.wf ?nvb (pt_lg_size t) (pt_slots t)" and P: "set (pt_slots t) - {FREE} = P"
    and num: "pt_num_items t = card P" and nvb: "?nvb \<le> 32" and valid: "\<forall>x \<in> P. valid_item ?nvb x"
    using assms(1) by (simp_all add: pair_loose_def)
  have xs: "set ?xs = P" using P by auto
  have "(\<lambda>s. pair_occ s \<noteq> None) = (\<lambda>slot. slot \<noteq> FREE)" by (auto simp: fun_eq_iff)
  then have d: "distinct ?xs" using pt.distinct_occupied(1) [OF wf] by simp
  then have len: "length ?xs = card P" using xs distinct_card by metis
  have "\<exists>slots'. fold_res (must_insert ?nvb lg) (replicate (2 ^ lg) FREE) ?xs = Inr slots' \<and>
      pt.wf ?nvb lg slots' \<and> set slots' - {FREE} = (set (replicate (2 ^ lg) FREE) - {FREE}) \<union> set ?xs"
  proof (rule must_insert_all_ok [OF pt.wf_empty(1)])
    show "card (set (replicate (2 ^ lg) FREE) - {FREE}) + length ?xs \<le> 2 ^ lg"
      unfolding len using assms(5) by simp
  qed (use assms(4) valid xs d in auto)
  then obtain slots' where s: "fold_res (must_insert ?nvb lg) (replicate (2 ^ lg) FREE) ?xs = Inr slots'"
    "pt.wf ?nvb lg slots'" "set slots' - {FREE} = P" unfolding xs by auto
  show ?thesis
  proof (rule that)
    show "pair_rebuild t lg = Inr (t\<lparr>pt_lg_size := lg, pt_slots := slots'\<rparr>)"
      using assms(2-5) nvb s(1) by (simp add: pair_rebuild_def Let_def num)
  qed (use assms s num nvb valid in \<open>simp_all add: pair_loose_def\<close>)
qed


section \<open>Insertion and deletion\<close>

lemma upsize_ok:
  assumes "pair_loose t P" and "card P \<le> 2 ^ pt_lg_size t" and "4 * card P \<le> 3 * 2 ^ m"
    and "m \<le> 26" and "m + 1 \<le> pt_num_valid_bits t" and "m < pt_lg_size t + fuel" and "0 < fuel"
  shows "\<exists>t'. upsize fuel t = Inr t' \<and> pair_holds t' P \<and> pt_num_valid_bits t' = pt_num_valid_bits t"
  using assms
proof (induction fuel arbitrary: t)
  case (Suc fuel)
  let ?lg = "pt_lg_size t"
  have num: "pt_num_items t = card P" using Suc.prems(1) by (simp add: pair_loose_def)
  show ?case
  proof (cases "4 * card P \<le> 3 * 2 ^ ?lg")
    case True
    then show ?thesis
      using Suc.prems(1) by (simp add: num pair_holds_loose UPSIZE_NUMERATOR_def UPSIZE_DENOMINATOR_def)
  next
    case False
    have "(2 :: nat) ^ ?lg < 2 ^ m" using False Suc.prems(3) by linarith
    then have m: "?lg < m" by simp
    have lg: "2 \<le> ?lg" using Suc.prems(1) by (simp add: pair_loose_def)
    have "card P < 2 ^ (?lg + 1)" using Suc.prems(2) by (simp add: less_le_trans [of _ "Suc (2 ^ ?lg)"])
    then obtain t' where t': "pair_rebuild t (?lg + 1) = Inr t'" "pair_loose t' P" "pt_lg_size t' = ?lg + 1"
      "pt_num_valid_bits t' = pt_num_valid_bits t"
      using m lg Suc.prems(4,5) by (auto intro: pair_rebuild_ok [OF Suc.prems(1), of "?lg + 1"])
    have "\<exists>t''. upsize fuel t' = Inr t'' \<and> pair_holds t'' P \<and> pt_num_valid_bits t'' = pt_num_valid_bits t'"
      using Suc.prems m t' \<open>card P < 2 ^ (?lg + 1)\<close> by (intro Suc.IH) simp_all
    then show ?thesis
      using False t'(1,4) by (simp add: num UPSIZE_NUMERATOR_def UPSIZE_DENOMINATOR_def)
  qed
qed simp

lemma downsize_ok:
  assumes "pair_holds t P" and "pt_lg_size t < fuel"
  shows "\<exists>t'. downsize fuel t = Inr t' \<and> pair_holds t' P \<and> pt_num_valid_bits t' = pt_num_valid_bits t"
  using assms
proof (induction fuel arbitrary: t)
  case (Suc fuel)
  let ?lg = "pt_lg_size t"
  have loose: "pair_loose t P" and num: "pt_num_items t = card P"
    and lg: "2 \<le> ?lg" "?lg \<le> 26" "?lg + 1 \<le> pt_num_valid_bits t"
    using Suc.prems(1) by (simp_all add: pair_holds_def pair_loose_def)
  show ?case
  proof (cases "4 * card P < 2 ^ ?lg \<and> 2 < ?lg")
    case False
    then show ?thesis
      using Suc.prems(1) by (auto simp: num DOWNSIZE_NUMERATOR_def DOWNSIZE_DENOMINATOR_def)
  next
    case True
    have half: "(2 :: nat) ^ ?lg = 2 * 2 ^ (?lg - 1)" using lg(1) by (simp flip: power_Suc)
    then have small: "2 * card P < 2 ^ (?lg - 1)" using True by simp
    obtain t' where t': "pair_rebuild t (?lg - 1) = Inr t'" "pair_loose t' P" "pt_lg_size t' = ?lg - 1"
      "pt_num_valid_bits t' = pt_num_valid_bits t"
      using True lg small by (auto intro: pair_rebuild_ok [OF loose, of "?lg - 1"])
    have "pair_holds t' P" using t'(2,3) small by (simp add: pair_holds_loose)
    then have "\<exists>t''. downsize fuel t' = Inr t'' \<and> pair_holds t'' P \<and> pt_num_valid_bits t'' = pt_num_valid_bits t'"
      using Suc.prems(2) t'(3) lg by (intro Suc.IH) simp_all
    then show ?thesis
      using True t'(1,4) by (simp add: num DOWNSIZE_NUMERATOR_def DOWNSIZE_DENOMINATOR_def)
  qed
qed simp

text \<open>An insertion succeeds as long as the table it grows to is allowed.\<close>

lemma maybe_insert_ok:
  assumes t: "pair_holds t P" and x: "valid_item (pt_num_valid_bits t) x"
    and room: "4 * card (insert x P) \<le> 3 * 2 ^ m" "m \<le> 26" "m + 1 \<le> pt_num_valid_bits t"
  obtains t' where "maybe_insert t x = Inr (t', x \<notin> P)" and "pair_holds t' (insert x P)"
    and "pt_num_valid_bits t' = pt_num_valid_bits t"
proof -
  let ?nvb = "pt_num_valid_bits t" and ?lg = "pt_lg_size t" and ?slots = "pt_slots t"
  have wf: "pt.wf ?nvb ?lg ?slots" and lg: "2 \<le> ?lg" "?lg \<le> ?nvb" and P: "set ?slots - {FREE} = P"
    and load: "4 * card P \<le> 3 * 2 ^ ?lg" and num: "pt_num_items t = card P"
    using t by (simp_all add: pair_holds_def)
  have nonfree: "x \<noteq> FREE" using x by (simp add: valid_item_def)
  have in_P: "x \<in> set ?slots \<longleftrightarrow> x \<in> P" using P nonfree by auto
  show ?thesis
  proof (cases "x \<in> P")
    case True
    obtain p where "pair_lookup ?nvb ?lg ?slots x = Inr p" "?slots ! p = x"
      by (rule pair_lookup_present [OF wf lg(2) x]) (use True in_P in simp_all)
    then show ?thesis
      using True t by (intro that [of t]) (simp_all add: maybe_insert_def insert_absorb)
  next
    case False
    have less: "card P < 2 ^ ?lg" using load zero_less_power [of "2 :: nat" ?lg] by linarith
    then have free: "FREE \<in> set ?slots" using card_items(2) [OF wf] P by simp
    obtain p where p: "pair_lookup ?nvb ?lg ?slots x = Inr p" "?slots ! p = FREE"
      "pt.wf ?nvb ?lg (?slots[p := x])" "set (?slots[p := x]) - {FREE} = insert x P"
      using False in_P must_insert_ok [OF wf lg(2) x _ free] unfolding P by metis
    let ?t = "t\<lparr>pt_slots := ?slots[p := x], pt_num_items := card P + 1\<rparr>"
    have card: "card (insert x P) = card P + 1" using False pair_holds_finite [OF t] by simp
    have "pair_loose ?t (insert x P)"
      using t x p(3,4) card by (simp add: pair_loose_def pair_holds_def)
    then have "\<exists>t'. upsize 32 ?t = Inr t' \<and> pair_holds t' (insert x P) \<and> pt_num_valid_bits t' = pt_num_valid_bits ?t"
      using room less card by (intro upsize_ok [where m = m]) simp_all
    then show ?thesis
      using that False nonfree p(1,2) num by (auto simp: maybe_insert_def Let_def)
  qed
qed


text \<open>
  Deletion frees a slot and re-inserts the run behind it. \<open>around n p j\<close> is the slot j steps behind p.
  While d items of the run are left, the table without them is well formed; each of them has its walk
  within the run, because the run ends at a free slot.
\<close>

definition around :: "nat \<Rightarrow> nat \<Rightarrow> nat \<Rightarrow> nat" where
  "around n p j = (p + j) mod n"

definition without :: "u32 list \<Rightarrow> nat set \<Rightarrow> u32 list" where
  "without slots R = map (\<lambda>q. if q \<in> R then FREE else slots ! q) [0..<length slots]"

lemma length_without [simp]: "length (without slots R) = length slots"
  by (simp add: without_def)

lemma nth_without: "q < length slots \<Longrightarrow> without slots R ! q = (if q \<in> R then FREE else slots ! q)"
  by (simp add: without_def)

lemma without_empty [simp]: "without slots {} = slots"
  by (simp add: without_def map_nth)

lemma around_lt [simp]: "0 < n \<Longrightarrow> around n p j < n"
  by (simp add: around_def)

lemma around_add: "around n (around n p i) j = around n p (i + j)"
  by (simp add: around_def mod_add_left_eq add.assoc)

lemma around_inj: "around n p i = around n p j \<Longrightarrow> i < n \<Longrightarrow> j < n \<Longrightarrow> i = j"
  using walk_inj [of n 1 i j p] by (simp add: around_def walk_def)

lemma pos_around: "pt.pos nvb lg x i = around (2 ^ lg) (pair_start nvb lg x) i"
  by (simp add: pt.pos_def walk_def around_def)

lemma pos_step: "around (2 ^ lg) (pt.pos nvb lg x i) j = pt.pos nvb lg x (i + j)"
  by (simp add: pos_around around_add)

definition run :: "nat \<Rightarrow> nat \<Rightarrow> nat \<Rightarrow> nat set" where
  "run n p d = {around n p j | j. j < d}"

lemma run_0 [simp]: "run n p 0 = {}"
  by (simp add: run_def)

lemma run_Suc: "p < n \<Longrightarrow> run n p (Suc d) = insert p (run n (around n p 1) d)"
proof -
  assume p: "p < n"
  have "run n p (Suc d) = (\<lambda>j. around n p j) ` {..<Suc d}" by (auto simp: run_def)
  also have "\<dots> = insert p ((\<lambda>j. around n p (Suc j)) ` {..<d})"
    using p by (simp add: lessThan_Suc_eq_insert_0 image_image around_def)
  also have "(\<lambda>j. around n p (Suc j)) ` {..<d} = run n (around n p 1) d"
    by (auto simp: run_def around_add)
  finally show ?thesis .
qed

text \<open>A walk that enters the run at a slot, and later reaches one outside, passes its end.\<close>

lemma walk_passes_end:
  assumes "pt.pos nvb lg x i = around (2 ^ lg) p a" and "a < d" and "d < 2 ^ lg"
    and "i < j" and "j < 2 ^ lg" and "pt.pos nvb lg x j \<notin> run (2 ^ lg) p d"
  shows "\<exists>l. i < l \<and> l \<le> j \<and> pt.pos nvb lg x l = around (2 ^ lg) p d"
proof (cases "a + (j - i) < d")
  case True
  have "pt.pos nvb lg x j = around (2 ^ lg) p (a + (j - i))"
    using assms(1,4) pos_step [of lg nvb x i "j - i"] by (simp add: around_add)
  then show ?thesis using True assms(6) by (auto simp: run_def)
next
  case False
  have "pt.pos nvb lg x (i + (d - a)) = around (2 ^ lg) p d"
    using assms(1,2) pos_step [of lg nvb x i "d - a"] by (simp add: around_add)
  then show ?thesis using False assms(2,4) by (intro exI [of _ "i + (d - a)"]) auto
qed

lemma wf_without_run:
  assumes wf: "pt.wf nvb lg slots" and p: "p < 2 ^ lg" and d: "d < 2 ^ lg"
    and stop: "slots ! around (2 ^ lg) p d = FREE"
  shows "pt.wf nvb lg (without slots (run (2 ^ lg) p d))"
proof -
  let ?n = "(2 :: nat) ^ lg" and ?R = "run (2 ^ lg) p d"
  have len: "length slots = ?n" by (rule pt.wf_length [OF wf])
  have nth: "without slots ?R ! q = (if q \<in> ?R then FREE else slots ! q)" if "q < ?n" for q
    using that len by (simp add: nth_without)
  have "\<exists>i < ?n. q = pt.pos nvb lg x i \<and> (\<forall>j<i. without slots ?R ! pt.pos nvb lg x j \<noteq> FREE)"
    if q: "q < ?n" "q \<notin> ?R" "slots ! q = x" "x \<noteq> FREE" for q x
  proof -
    obtain i where i: "i < ?n" "q = pt.pos nvb lg x i" "\<forall>j<i. slots ! pt.pos nvb lg x j \<noteq> FREE"
      using pt.wf_chain [OF wf q(1), of x] q(3,4) by auto
    have "pt.pos nvb lg x j \<notin> ?R" if ji: "j < i" for j
    proof
      assume "pt.pos nvb lg x j \<in> ?R"
      then obtain a where a: "a < d" "pt.pos nvb lg x j = around ?n p a" by (auto simp: run_def)
      have "pt.pos nvb lg x i \<notin> ?R" using q(2) i(2) by simp
      then obtain l where "j < l" "l \<le> i" "pt.pos nvb lg x l = around ?n p d"
        using walk_passes_end [OF a(2,1) d ji i(1)] by blast
      then show False using i q(3,4) stop by (metis le_neq_implies_less)
    qed
    then show ?thesis using i by (intro exI [of _ i]) (simp add: nth)
  qed
  moreover have "\<forall>q < ?n. \<forall>r < ?n. \<forall>x. slots ! q = x \<and> x \<noteq> FREE \<longrightarrow> slots ! r = x \<longrightarrow> q = r"
    using pt.wf_unique [OF wf] by auto
  ultimately show ?thesis unfolding pt.wf_def using len by (auto simp: nth split: if_splits)
qed

text \<open>The loop invariant, for the d items of the run from p on\<close>

definition run_left :: "nat \<Rightarrow> nat \<Rightarrow> u32 list \<Rightarrow> nat \<Rightarrow> nat \<Rightarrow> bool" where
  "run_left nvb lg slots p d \<longleftrightarrow>
     length slots = 2 ^ lg \<and> p < 2 ^ lg \<and> d < 2 ^ lg \<and>
     slots ! around (2 ^ lg) p d = FREE \<and>
     pt.wf nvb lg (without slots (run (2 ^ lg) p d)) \<and>
     (\<forall>q < 2 ^ lg. \<forall>r < 2 ^ lg. slots ! q = slots ! r \<longrightarrow> slots ! q \<noteq> FREE \<longrightarrow> q = r) \<and>
     (\<forall>x \<in> set slots - {FREE}. valid_item nvb x) \<and>
     (\<forall>j < d. slots ! around (2 ^ lg) p j \<noteq> FREE \<and>
        (\<exists>i < 2 ^ lg. around (2 ^ lg) p j = pt.pos nvb lg (slots ! around (2 ^ lg) p j) i \<and>
           (\<forall>l < i. pt.pos nvb lg (slots ! around (2 ^ lg) p j) l \<noteq> around (2 ^ lg) p d)))"


lemma run_left_step:
  assumes left: "run_left nvb lg slots p (Suc d)" and lg: "lg \<le> nvb"
  obtains slots1 where "must_insert nvb lg (slots[p := FREE]) (slots ! p) = Inr slots1"
    and "run_left nvb lg slots1 (around (2 ^ lg) p 1) d" and "set slots1 - {FREE} = set slots - {FREE}"
proof -
  let ?n = "(2 :: nat) ^ lg" and ?x = "slots ! p" and ?p1 = "around (2 ^ lg) p 1"
  let ?e = "around ?n p (Suc d)" and ?W = "without slots (run (2 ^ lg) p (Suc d))" and ?R = "run (2 ^ lg) (around (2 ^ lg) p 1) d"
  have len: "length slots = ?n" and p: "p < ?n" and d: "Suc d < ?n" and e: "slots ! ?e = FREE"
    and wf: "pt.wf nvb lg ?W"
    and uniq: "\<And>q r. q < ?n \<Longrightarrow> r < ?n \<Longrightarrow> slots ! q = slots ! r \<Longrightarrow> slots ! q \<noteq> FREE \<Longrightarrow> q = r"
    and valid: "\<And>y. y \<in> set slots - {FREE} \<Longrightarrow> valid_item nvb y"
    using left unfolding run_left_def by blast+
  have items: "slots ! around ?n p j \<noteq> FREE" "\<exists>i < ?n. around ?n p j = pt.pos nvb lg (slots ! around ?n p j) i \<and>
      (\<forall>l < i. pt.pos nvb lg (slots ! around ?n p j) l \<noteq> ?e)" if "j < Suc d" for j
    using left that unfolding run_left_def by blast+
  have p0: "around ?n p 0 = p" using p by (simp add: around_def)
  have x: "?x \<noteq> FREE" using items(1) [of 0] p0 by simp
  then have vx: "valid_item nvb ?x" using p len by (intro valid) simp
  obtain i0 where i0: "i0 < ?n" "p = pt.pos nvb lg ?x i0" "\<forall>l < i0. pt.pos nvb lg ?x l \<noteq> ?e"
    using items(2) [of 0] p0 by auto
  have R: "run ?n p (Suc d) = insert p ?R" by (rule run_Suc [OF p])
  have pR: "p \<notin> ?R"
  proof
    assume "p \<in> ?R"
    then obtain j where "j < d" "around ?n p 0 = around ?n p (Suc j)" unfolding run_def p0 around_add by auto
    then show False using around_inj [of ?n p 0 "Suc j"] d by simp
  qed
  have pe: "?e \<noteq> p" using e x by auto
  have W: "?W ! q = (if q = p \<or> q \<in> ?R then FREE else slots ! q)" if "q < ?n" for q
    using that len by (simp add: nth_without R)
  have xW: "?x \<notin> set ?W"
  proof
    assume "?x \<in> set ?W"
    then obtain q where q: "q < ?n" "?W ! q = ?x" using len by (auto simp: set_nth)
    then have "q \<noteq> p" "slots ! q = ?x" using W x by (auto split: if_splits)
    then show False using uniq q(1) p x by metis
  qed
  have "?W ! p = FREE" using W p by simp
  then have free: "FREE \<in> set ?W" using p len by (auto simp: set_nth)
  obtain i where i: "i < ?n" "pair_probe nvb lg ?W ?x = Slot (pt.pos nvb lg ?x i)"
    "?W ! pt.pos nvb lg ?x i = FREE" "\<forall>j<i. ?W ! pt.pos nvb lg ?x j \<noteq> FREE"
    by (rule pair_lookup_absent [OF pt.wf_length [OF wf] lg vx xW free])
  define r where "r = pt.pos nvb lg ?x i"
  have r: "r < ?n" by (simp add: r_def)
  have i_le: "i \<le> i0" using i(4) i0(2) \<open>?W ! p = FREE\<close> by (metis not_le)
  have same: "i = i0" if "r = p" using that i0(1,2) i(1) pt.pos_inj unfolding r_def by metis
  have re: "r \<noteq> ?e"
  proof
    assume "r = ?e"
    then show False using i0(3) i_le pe i0(2) unfolding r_def by (metis le_neq_implies_less)
  qed
  have rR: "r \<notin> ?R"
  proof
    assume rR: "r \<in> ?R"
    then obtain a where a: "a < d" "pt.pos nvb lg ?x i = around ?n ?p1 a" by (auto simp: run_def r_def)
    have "i < i0" using rR pR i_le i0(2) unfolding r_def by (metis le_neq_implies_less)
    moreover have "pt.pos nvb lg ?x i0 \<notin> ?R" using pR i0(2) by simp
    moreover have "d < ?n" using d by simp
    ultimately obtain l where "i < l" "l \<le> i0" "pt.pos nvb lg ?x l = around ?n ?p1 d"
      using walk_passes_end [OF a(2,1) _ _ i0(1)] by blast
    then show False using i0(2,3) pe unfolding around_add by (metis le_neq_implies_less plus_1_eq_Suc)
  qed
  let ?s' = "slots[p := FREE]" and ?s1 = "slots[p := FREE, r := slots ! p]"
  have s1: "?s1 ! q = (if q = r then ?x else if q = p then FREE else slots ! q)" if "q < ?n" for q
    using that len by simp
  have free_r: "r = p \<or> slots ! r = FREE" using i(3) W [OF r] rR unfolding r_def [symmetric] by (auto split: if_splits)
  have "pair_probe nvb lg ?s' ?x = Slot (pt.pos nvb lg ?x i)"
  proof (rule pt.lookup_hit)
    show "\<forall>j<i. pair_occ (?s' ! pt.pos nvb lg ?x j) \<notin> {None, Some ?x}"
    proof (intro allI impI)
      fix j assume "j < i"
      then have "?W ! pt.pos nvb lg ?x j \<noteq> FREE" using i(4) by simp
      then have "pt.pos nvb lg ?x j \<noteq> p" "slots ! pt.pos nvb lg ?x j \<noteq> FREE"
        by (auto simp: W split: if_splits)
      moreover from this have "slots ! pt.pos nvb lg ?x j \<noteq> ?x" using uniq p x by (metis pt.pos_lt)
      ultimately show "pair_occ (?s' ! pt.pos nvb lg ?x j) \<notin> {None, Some ?x}" by simp
    qed
    show "pair_occ (?s' ! pt.pos nvb lg ?x i) \<in> {None, Some ?x}"
      using free_r p len unfolding r_def [symmetric] by (auto simp: nth_list_update)
  qed (use len i(1) in simp_all)
  then have "pair_lookup nvb lg ?s' ?x = Inr r" by (simp add: pair_lookup_probe [OF lg vx] r_def)
  then have ins: "must_insert nvb lg ?s' ?x = Inr ?s1"
    using free_r p r len x by (auto simp: must_insert_def nth_list_update)
  have eq: "without ?s1 ?R = ?W[r := ?x]"
    by (rule nth_equalityI) (use rR len r p in \<open>auto simp: R nth_list_update nth_without\<close>)
  have origin: "?s1 ! q = slots ! (if q = r then p else q) \<and> (q = p \<longrightarrow> r = p)"
    if q: "q < ?n" "?s1 ! q \<noteq> FREE" for q
    using q(2) unfolding s1 [OF q(1)] by (auto split: if_splits)
  have wf1: "pt.wf nvb lg (?W[r := ?x])"
    unfolding r_def using x by (intro pt.wf_insert [OF wf i(2)]) simp
  have set: "set ?s1 - {FREE} = set slots - {FREE}"
  proof (intro set_eqI iffI)
    fix y assume "y \<in> set ?s1 - {FREE}"
    then obtain q where "q < ?n" "?s1 ! q = y" "y \<noteq> FREE" using len by (auto simp: set_nth)
    then show "y \<in> set slots - {FREE}" using s1 p len by (auto split: if_splits)
  next
    fix y assume "y \<in> set slots - {FREE}"
    then obtain q where q: "q < ?n" "slots ! q = y" "y \<noteq> FREE" using len by (auto simp: set_nth)
    then have "?s1 ! (if q = p then r else q) = y" using s1 r free_r by auto
    then show "y \<in> set ?s1 - {FREE}" using q(1,3) r len by (auto simp: set_nth split: if_splits)
  qed
  have "run_left nvb lg ?s1 ?p1 d" unfolding run_left_def
  proof (intro conjI allI impI)
    show "?s1 ! around ?n ?p1 d = FREE" using e re pe by (simp add: s1 around_add)
    show "pt.wf nvb lg (without ?s1 (run ?n ?p1 d))"
      unfolding eq by (rule wf1)
    show "\<forall>y \<in> set ?s1 - {FREE}. valid_item nvb y" unfolding set using valid by blast
    show "q = t" if "q < ?n" "t < ?n" "?s1 ! q = ?s1 ! t" "?s1 ! q \<noteq> FREE" for q t
    proof -
      have "?s1 ! t \<noteq> FREE" using that(3,4) by simp
      note eqs = origin [OF that(1,4)] origin [OF that(2) this]
      have "(if q = r then p else q) = (if t = r then p else t)"
        using that(1,2,3,4) p eqs by (intro uniq) (simp_all split: if_splits)
      then show ?thesis using eqs by (auto split: if_splits)
    qed
    fix j assume j: "j < d"
    have "around ?n ?p1 j = around ?n p (Suc j)" "around ?n ?p1 j \<in> ?R"
      using j by (auto simp: around_add run_def)
    then have at: "?s1 ! around ?n ?p1 j = slots ! around ?n p (Suc j)"
      using rR pR p by (auto simp: s1)
    show "?s1 ! around ?n ?p1 j \<noteq> FREE" using items(1) [of "Suc j"] j at by simp
    show "\<exists>i < ?n. around ?n ?p1 j = pt.pos nvb lg (?s1 ! around ?n ?p1 j) i \<and>
        (\<forall>l < i. pt.pos nvb lg (?s1 ! around ?n ?p1 j) l \<noteq> around ?n ?p1 d)"
      unfolding at using items(2) [of "Suc j"] j by (simp add: around_add)
  qed (use len d in simp_all)
  then show ?thesis using that ins set by blast
qed

lemma reinsert_run_ok:
  assumes "run_left nvb lg slots p d" and "lg \<le> nvb" and "d < fuel"
  shows "\<exists>slots'. reinsert_run fuel nvb lg slots p = Inr slots' \<and> pt.wf nvb lg slots' \<and>
    set slots' - {FREE} = set slots - {FREE}"
  using assms
proof (induction fuel arbitrary: slots p d)
  case (Suc fuel)
  show ?case
  proof (cases d)
    case 0
    then have "slots ! p = FREE" "pt.wf nvb lg slots"
      using Suc.prems(1) by (auto simp: run_left_def around_def)
    then show ?thesis by simp
  next
    case (Suc d')
    obtain slots1 where s1: "must_insert nvb lg (slots[p := FREE]) (slots ! p) = Inr slots1"
      "run_left nvb lg slots1 (around (2 ^ lg) p 1) d'" "set slots1 - {FREE} = set slots - {FREE}"
      using run_left_step Suc.prems(1,2) unfolding Suc by metis
    have "around (2 ^ lg) p 0 = p" using Suc.prems(1) by (simp add: run_left_def around_def)
    then have "slots ! p \<noteq> FREE" using Suc.prems(1) unfolding Suc run_left_def by (metis zero_less_Suc)
    moreover have "(p + 1) AND (2 ^ lg - 1) = around (2 ^ lg) p 1"
      unfolding and_mask_nat around_def ..
    ultimately show ?thesis
      using Suc.IH [OF s1(2) Suc.prems(2)] Suc.prems(3) s1(1,3) by (simp add: Suc Let_def)
  qed
qed simp


lemma maybe_delete_ok:
  assumes t: "pair_holds t P" and x: "valid_item (pt_num_valid_bits t) x"
  obtains t' where "maybe_delete t x = Inr (t', x \<in> P)" and "pair_holds t' (P - {x})"
    and "pt_num_valid_bits t' = pt_num_valid_bits t"
proof -
  let ?nvb = "pt_num_valid_bits t" and ?lg = "pt_lg_size t" and ?slots = "pt_slots t"
  let ?n = "(2 :: nat) ^ ?lg"
  have wf: "pt.wf ?nvb ?lg ?slots" and lg: "2 \<le> ?lg" "?lg \<le> ?nvb" "?lg \<le> 26" and P: "set ?slots - {FREE} = P"
    and load: "4 * card P \<le> 3 * ?n" and num: "pt_num_items t = card P"
    and valid: "\<forall>x \<in> P. valid_item ?nvb x"
    using t by (simp_all add: pair_holds_def)
  have len: "length ?slots = ?n" by (rule pt.wf_length [OF wf])
  have nonfree: "x \<noteq> FREE" using x by (simp add: valid_item_def)
  have in_P: "x \<in> set ?slots \<longleftrightarrow> x \<in> P" using P nonfree by auto
  have "card P < ?n" using load zero_less_power [of "2 :: nat" ?lg] by linarith
  then have free: "FREE \<in> set ?slots" using card_items(2) [OF wf] P by simp
  show ?thesis
  proof (cases "x \<in> P")
    case False
    then have "x \<notin> set ?slots" using in_P by simp
    then obtain i where "pair_lookup ?nvb ?lg ?slots x = Inr (pt.pos ?nvb ?lg x i)"
      "?slots ! pt.pos ?nvb ?lg x i = FREE"
      using pair_lookup_absent [OF len lg(2) x _ free] by metis
    then show ?thesis using False t by (intro that [of t]) (simp_all add: maybe_delete_def)
  next
    case True
    obtain p where p: "pair_lookup ?nvb ?lg ?slots x = Inr p" "p < ?n" "?slots ! p = x"
      by (rule pair_lookup_present [OF wf lg(2) x]) (use True in_P in simp_all)
    let ?s = "?slots[p := FREE]"
    have s_nth: "?s ! q = (if q = p then FREE else ?slots ! q)" if "q < ?n" for q
      using that len by simp
    have uniq: "q = r" if "q < ?n" "r < ?n" "?slots ! q = ?slots ! r" "?slots ! q \<noteq> FREE" for q r
      using pt.wf_unique [OF wf that(1,2), of "?slots ! q"] that(3,4) by simp
    have set_s: "set ?s - {FREE} = P - {x}"
    proof (intro set_eqI iffI)
      fix y assume "y \<in> set ?s - {FREE}"
      then obtain q where q: "q < ?n" "q \<noteq> p" "?slots ! q = y" "y \<noteq> FREE"
        using len s_nth by (auto simp: set_nth split: if_splits)
      then have "y \<noteq> x" using uniq [OF q(1) p(2)] p(3) by metis
      then show "y \<in> P - {x}" using P q len by (auto simp: set_nth)
    next
      fix y assume y: "y \<in> P - {x}"
      then have "y \<in> set ?slots" "y \<noteq> FREE" using P by auto
      then obtain q where "q < ?n" "?slots ! q = y" "y \<noteq> FREE" using len by (auto simp: set_nth)
      moreover from this have "q \<noteq> p" using y p(3) by auto
      ultimately have "q < ?n" "q \<noteq> p" "?slots ! q = y" "y \<noteq> FREE" by simp_all
      then show "y \<in> set ?s - {FREE}" using s_nth len by (auto simp: set_nth)
    qed
    have "\<exists>d. ?slots ! around ?n p (Suc d) = FREE \<and> Suc d < ?n"
    proof -
      obtain q where q: "q < ?n" "?slots ! q = FREE" using free len by (auto simp: set_nth)
      obtain j where j: "j < ?n" "q = walk ?n p 1 j" using walk_surj [of ?n 1 q p] q(1) by auto
      then have "q = around ?n p j" by (simp add: around_def walk_def)
      moreover from this have "j \<noteq> 0" using q(2) p nonfree by (intro notI) (simp add: around_def)
      ultimately show ?thesis using q(2) j(1) by (intro exI [of _ "j - 1"]) simp
    qed
    then obtain d0 where d0: "?slots ! around ?n p (Suc d0) = FREE \<and> Suc d0 < ?n" ..
    define d where "d = (LEAST d. ?slots ! around ?n p (Suc d) = FREE \<and> Suc d < ?n)"
    have d: "?slots ! around ?n p (Suc d) = FREE" "Suc d < ?n"
      using LeastI [where P = "\<lambda>d. ?slots ! around ?n p (Suc d) = FREE \<and> Suc d < ?n", OF d0]
      unfolding d_def by simp_all
    have before: "?slots ! around ?n p (Suc j) \<noteq> FREE" if "j < d" for j
      using not_less_Least [OF that [unfolded d_def]] that d(2) by auto
    let ?p1 = "around ?n p 1" and ?R = "run ?n p (Suc d)"
    have e: "around ?n ?p1 j = around ?n p (Suc j)" for j by (simp add: around_add)
    have p0: "around ?n p 0 = p" using p(2) by (simp add: around_def)
    have behind: "around ?n p (Suc j) \<noteq> p" if "Suc j < ?n" for j
      using around_inj [of ?n p "Suc j" 0] that p0 by auto
    have "without ?s (run ?n ?p1 d) = without ?slots ?R"
      unfolding run_Suc [OF p(2)] by (rule nth_equalityI) (use len in \<open>auto simp: nth_without nth_list_update\<close>)
    then have cleared: "pt.wf ?nvb ?lg (without ?s (run ?n ?p1 d))"
      using wf_without_run [OF wf p(2) d(2,1)] by simp
    have "run_left ?nvb ?lg ?s ?p1 d" unfolding run_left_def
    proof (intro conjI allI impI)
      show "?s ! around ?n ?p1 d = FREE" unfolding e using d behind by (simp add: s_nth)
      show "\<forall>y \<in> set ?s - {FREE}. valid_item ?nvb y" unfolding set_s using valid by blast
      show "q = r" if "q < ?n" "r < ?n" "?s ! q = ?s ! r" "?s ! q \<noteq> FREE" for q r
      proof -
        have "q \<noteq> p" using that(1,4) s_nth by auto
        moreover have "r \<noteq> p" using that(2-4) s_nth by auto
        ultimately show ?thesis using uniq [OF that(1,2)] that(3,4) by (simp add: s_nth [OF that(1)] s_nth [OF that(2)])
      qed
      fix j assume j: "j < d"
      let ?q = "around ?n p (Suc j)"
      have at: "?s ! ?q = ?slots ! ?q" using j d(2) behind by (simp add: s_nth)
      show "?s ! around ?n ?p1 j \<noteq> FREE" unfolding e at using before j by simp
      obtain i where i: "i < ?n" "?q = pt.pos ?nvb ?lg (?slots ! ?q) i"
        "\<forall>l<i. ?slots ! pt.pos ?nvb ?lg (?slots ! ?q) l \<noteq> FREE"
        using pt.wf_chain [OF wf, of ?q "?slots ! ?q"] before [OF j] by auto
      then show "\<exists>i < ?n. around ?n ?p1 j = pt.pos ?nvb ?lg (?s ! around ?n ?p1 j) i \<and>
          (\<forall>l < i. pt.pos ?nvb ?lg (?s ! around ?n ?p1 j) l \<noteq> around ?n ?p1 d)"
        unfolding e at using d(1) by metis
    qed (use len d(2) cleared in simp_all)
    then obtain slots' where s': "reinsert_run ?n ?nvb ?lg ?s ?p1 = Inr slots'" "pt.wf ?nvb ?lg slots'"
      "set slots' - {FREE} = P - {x}"
      using reinsert_run_ok [OF _ lg(2)] d(2) set_s by (metis Suc_lessD)
    let ?t = "t\<lparr>pt_slots := slots', pt_num_items := card P - 1\<rparr>"
    have fin: "finite P" by (rule pair_holds_finite [OF t])
    have card: "card (P - {x}) = card P - 1" "0 < card P"
      using True fin by (auto simp: card_gt_0_iff)
    have "pair_holds ?t (P - {x})"
      using t s'(2,3) card(1) unfolding pair_holds_def by auto
    then have "\<exists>t'. downsize 32 ?t = Inr t' \<and> pair_holds t' (P - {x}) \<and> pt_num_valid_bits t' = pt_num_valid_bits ?t"
      by (rule downsize_ok) (use lg in simp)
    then obtain t' where "downsize 32 ?t = Inr t'" "pair_holds t' (P - {x})" "pt_num_valid_bits t' = ?nvb"
      by auto
    moreover have "(p + 1) AND (2 ^ ?lg - 1) = ?p1"
      unfolding and_mask_nat around_def ..
    ultimately show ?thesis
      using that True nonfree p(1,3) num card(2) s'(1)
      by (auto simp: maybe_delete_def Let_def)
  qed
qed

definition pair_cap :: "nat \<Rightarrow> nat" where
  "pair_cap num_valid_bits = 3 * 2 ^ min 26 (num_valid_bits - 1)"

lemma maybe_insert_cap:
  assumes "pair_holds t P" and "valid_item (pt_num_valid_bits t) x"
    and "4 * card (insert x P) \<le> pair_cap (pt_num_valid_bits t)"
  obtains t' where "maybe_insert t x = Inr (t', x \<notin> P)" and "pair_holds t' (insert x P)"
    and "pt_num_valid_bits t' = pt_num_valid_bits t"
  by (rule maybe_insert_ok [OF assms(1,2), of "min 26 (pt_num_valid_bits t - 1)"])
    (use assms(1,3) in \<open>auto simp: pair_cap_def pair_holds_def\<close>)

section \<open>The table refines a set\<close>

datatype pair_op = Add u32 | Remove u32

fun pair_step :: "pair_table \<Rightarrow> pair_op \<Rightarrow> (pair_table \<times> bool) res" where
  "pair_step t (Add x) = maybe_insert t x"
| "pair_step t (Remove x) = maybe_delete t x"

fun op_item :: "pair_op \<Rightarrow> u32" where
  "op_item (Add x) = x"
| "op_item (Remove x) = x"

fun set_step :: "u32 set \<Rightarrow> pair_op \<Rightarrow> u32 set \<times> bool" where
  "set_step P (Add x) = (insert x P, x \<notin> P)"
| "set_step P (Remove x) = (P - {x}, x \<in> P)"

text \<open>The answers of a run of operations, and the table after it\<close>

fun pair_run :: "pair_table \<Rightarrow> pair_op list \<Rightarrow> (pair_table \<times> bool list) res" where
  "pair_run t [] = Inr (t, [])"
| "pair_run t (x # xs) =
     bind_res (pair_step t x) (\<lambda>(t, b). bind_res (pair_run t xs) (\<lambda>(t, bs). Inr (t, b # bs)))"

fun set_run :: "u32 set \<Rightarrow> pair_op list \<Rightarrow> u32 set \<times> bool list" where
  "set_run P [] = (P, [])"
| "set_run P (x # xs) =
     (let (P, b) = set_step P x; (P, bs) = set_run P xs in (P, b # bs))"

fun run_fits :: "nat \<Rightarrow> u32 set \<Rightarrow> pair_op list \<Rightarrow> bool" where
  "run_fits num_valid_bits P [] \<longleftrightarrow> True"
| "run_fits num_valid_bits P (x # xs) \<longleftrightarrow>
     valid_item num_valid_bits (op_item x) \<and> 4 * card (fst (set_step P x)) \<le> pair_cap num_valid_bits \<and>
     run_fits num_valid_bits (fst (set_step P x)) xs"

lemma pair_step_ok:
  assumes "pair_holds t P" and "valid_item (pt_num_valid_bits t) (op_item x)"
    and "4 * card (fst (set_step P x)) \<le> pair_cap (pt_num_valid_bits t)"
  obtains t' where "pair_step t x = Inr (t', snd (set_step P x))" and "pair_holds t' (fst (set_step P x))"
    and "pt_num_valid_bits t' = pt_num_valid_bits t"
proof (cases x)
  case (Add y)
  then show ?thesis using maybe_insert_cap [OF assms(1), of y] assms(2,3) that by auto
next
  case (Remove y)
  then show ?thesis using maybe_delete_ok [OF assms(1), of y] assms(2) that by auto
qed

lemma pair_run_ok:
  assumes "pair_holds t P" and "run_fits (pt_num_valid_bits t) P xs"
  shows "\<exists>t'. pair_run t xs = Inr (t', snd (set_run P xs)) \<and> pair_holds t' (fst (set_run P xs))"
  using assms
proof (induction xs arbitrary: t P)
  case (Cons x xs)
  obtain t1 where t1: "pair_step t x = Inr (t1, snd (set_step P x))" "pair_holds t1 (fst (set_step P x))"
    "pt_num_valid_bits t1 = pt_num_valid_bits t"
    using pair_step_ok [OF Cons.prems(1), of x] Cons.prems(2) by auto
  obtain t' where "pair_run t1 xs = Inr (t', snd (set_run (fst (set_step P x)) xs))"
    "pair_holds t' (fst (set_run (fst (set_step P x)) xs))"
    using Cons.IH [OF t1(2)] Cons.prems(2) t1(3) by auto
  then show ?case using t1(1) by (auto simp: split_beta Let_def)
qed simp

text \<open>C16.
  Any run of insertions and deletions on a new table, of items in range and within the largest load,
  never panics: lookups end, rehashing finds a free slot, and deletion re-inserts the run behind the
  freed slot without losing an item. The answers and the final items are those of a set.
\<close>

theorem pair_table_refines_set:
  assumes "2 \<le> lg" and "lg \<le> 26" and "lg + 1 \<le> nvb" and "nvb \<le> 32" and "run_fits nvb {} xs"
  shows "\<exists>t t'. pair_table_new lg nvb = Inr t \<and> pair_run t xs = Inr (t', snd (set_run {} xs)) \<and>
    set (pt_slots t') - {FREE} = fst (set_run {} xs) \<and> pt_num_items t' = card (fst (set_run {} xs))"
proof -
  obtain t where t: "pair_table_new lg nvb = Inr t" "pair_holds t {}" "pt_num_valid_bits t = nvb"
    by (rule pair_table_new_holds [OF assms(1-4)])
  then show ?thesis using pair_run_ok [OF t(2), of xs] assms(5) by (auto simp: pair_holds_def)
qed

lemma pair_table_refines_set_witness:
  "\<exists>t t'. pair_table_new 2 10 = Inr t \<and>
    pair_run t [Add 700, Add 701, Remove 700, Add 701] =
      Inr (t', snd (set_run {} [Add 700, Add 701, Remove 700, Add 701])) \<and>
    set (pt_slots t') - {FREE} = fst (set_run {} [Add 700, Add 701, Remove 700, Add 701]) \<and>
    pt_num_items t' = card (fst (set_run {} [Add 700, Add 701, Remove 700, Add 701]))"
  by (rule pair_table_refines_set)
    (simp_all add: valid_item_def pair_cap_def card_insert_if)

section \<open>The constructor of the decoder\<close>




end
