(* ===== verification/CpcSketch.thy ===== *)
theory CpcSketch
  imports PairTable Murmur HllEstimator
begin

unbundle bit_operations_syntax

text \<open>
  The CPC sketch: \<open>src/datasketches/src/cpc/mod.rs\<close> and the update side of \<open>cpc/sketch.rs\<close>. A coupon is a
  row and a column packed into 32 bits. While there are few, they are all in the table of surprising
  values; later a window of eight columns is kept in bytes, and the table holds the zeros before
  and the ones behind the window. The main invariant \<open>cpc_holds\<close> says which coupons a state stands for.
  The debug assertions of the source are branches of the model, and are shown never to fire.
\<close>

section \<open>Parameters of a state\<close>

definition CPC_MIN_LG_K :: nat where "CPC_MIN_LG_K = 4"

definition CPC_MAX_LG_K :: nat where "CPC_MAX_LG_K = 26"

datatype flavor = Empty | Sparse | Hybrid | Pinned | Sliding

definition determine_flavor :: "nat \<Rightarrow> nat \<Rightarrow> flavor" where
  "determine_flavor lg_k num_coupons =
     (let k = 2 ^ lg_k; coupons = num_coupons
      in if num_coupons = 0 then Empty
         else if 32 * coupons < 3 * k then Sparse
         else if 2 * coupons < k then Hybrid
         else if 8 * coupons < 27 * k then Pinned
         else Sliding)"

definition determine_correct_offset :: "nat \<Rightarrow> nat \<Rightarrow> nat" where
  "determine_correct_offset lg_k num_coupons =
     (let k = 2 ^ lg_k;
          tmp = int num_coupons * 8 - 19 * k
      in if tmp < 0 then 0 else nat (tmp div 2 ^ (lg_k + 3)) mod 256)"

text \<open>The row and the column of a coupon\<close>

definition rc_col :: "u32 \<Rightarrow> nat" where
  "rc_col row_col = unat (row_col AND 63)"

definition rc_row :: "u32 \<Rightarrow> nat" where
  "rc_row row_col = unat (drop_bit 6 row_col)"

definition rc_pack :: "nat \<Rightarrow> nat \<Rightarrow> u32" where
  "rc_pack row col = push_bit 6 (of_nat row) OR of_nat col"

section \<open>The sketch\<close>

record cpc_sketch =
  cs_lg_k :: nat
  cs_seed :: u64
  cs_seed_hash :: u16
  cs_first_interesting_column :: nat
  cs_num_coupons :: nat
  cs_table :: "pair_table option"
  cs_window_offset :: nat
  cs_sliding_window :: "u8 list"
  cs_merge_flag :: bool
  cs_kxp :: f64
  cs_hip_est_accum :: f64

definition cpc_with_seed :: "nat \<Rightarrow> u64 \<Rightarrow> cpc_sketch res" where
  "cpc_with_seed lg_k seed =
     (if \<not> (CPC_MIN_LG_K \<le> lg_k \<and> lg_k \<le> CPC_MAX_LG_K) then Inl (Panic ''lg_k out of range'')
      else bind_res (compute_seed_hash seed) (\<lambda>seed_hash.
        Inr \<lparr>cs_lg_k = lg_k, cs_seed = seed, cs_seed_hash = seed_hash, cs_first_interesting_column = 0,
          cs_num_coupons = 0, cs_table = None, cs_window_offset = 0, cs_sliding_window = [],
          cs_merge_flag = False, cs_kxp = f64_of_nat (2 ^ lg_k), cs_hip_est_accum = 0\<rparr>))"

definition cpc_is_empty :: "cpc_sketch \<Rightarrow> bool" where
  "cpc_is_empty s \<longleftrightarrow> cs_num_coupons s = 0"

definition cpc_flavor :: "cpc_sketch \<Rightarrow> flavor" where
  "cpc_flavor s = determine_flavor (cs_lg_k s) (cs_num_coupons s)"

text \<open>The two accessors of the table, with the operations called through them\<close>

definition surprising_value_table :: "cpc_sketch \<Rightarrow> pair_table res" where
  "surprising_value_table s =
     (case cs_table s of
        None \<Rightarrow> Inl (Panic ''surprising value table must be initialized'')
      | Some t \<Rightarrow> Inr t)"

definition surprising_insert :: "cpc_sketch \<Rightarrow> u32 \<Rightarrow> (cpc_sketch \<times> bool) res" where
  "surprising_insert s row_col =
     bind_res (surprising_value_table s) (\<lambda>t.
     bind_res (maybe_insert t row_col) (\<lambda>(t, is_novel). Inr (s\<lparr>cs_table := Some t\<rparr>, is_novel)))"

definition surprising_delete :: "cpc_sketch \<Rightarrow> u32 \<Rightarrow> (cpc_sketch \<times> bool) res" where
  "surprising_delete s row_col =
     bind_res (surprising_value_table s) (\<lambda>t.
     bind_res (maybe_delete t row_col) (\<lambda>(t, is_novel). Inr (s\<lparr>cs_table := Some t\<rparr>, is_novel)))"

section \<open>The estimator state\<close>

definition cpc_update_hip :: "cpc_sketch \<Rightarrow> u32 \<Rightarrow> cpc_sketch" where
  "cpc_update_hip s row_col =
     (let k = 2 ^ cs_lg_k s;
          col = rc_col row_col;
          one_over_p = f64_div (f64_of_nat k) (cs_kxp s)
      in s\<lparr>cs_hip_est_accum := f64_add (cs_hip_est_accum s) one_over_p,
           cs_kxp := f64_sub (cs_kxp s) (inv_pow2 (of_nat (col + 1)))\<rparr>)"

text \<open>\<open>src/datasketches/src/cpc/kxp_byte_lookup.rs\<close>\<close>

definition KXP_BYTE_TABLE :: "f64 list" where
  "KXP_BYTE_TABLE = map f64_round [
    0.99609375, 0.49609375, 0.74609375, 0.24609375, 0.87109375, 0.37109375, 0.62109375, 0.12109375,
    0.93359375, 0.43359375, 0.68359375, 0.18359375, 0.80859375, 0.30859375, 0.55859375, 0.05859375,
    0.96484375, 0.46484375, 0.71484375, 0.21484375, 0.83984375, 0.33984375, 0.58984375, 0.08984375,
    0.90234375, 0.40234375, 0.65234375, 0.15234375, 0.77734375, 0.27734375, 0.52734375, 0.02734375,
    0.98046875, 0.48046875, 0.73046875, 0.23046875, 0.85546875, 0.35546875, 0.60546875, 0.10546875,
    0.91796875, 0.41796875, 0.66796875, 0.16796875, 0.79296875, 0.29296875, 0.54296875, 0.04296875,
    0.94921875, 0.44921875, 0.69921875, 0.19921875, 0.82421875, 0.32421875, 0.57421875, 0.07421875,
    0.88671875, 0.38671875, 0.63671875, 0.13671875, 0.76171875, 0.26171875, 0.51171875, 0.01171875,
    0.98828125, 0.48828125, 0.73828125, 0.23828125, 0.86328125, 0.36328125, 0.61328125, 0.11328125,
    0.92578125, 0.42578125, 0.67578125, 0.17578125, 0.80078125, 0.30078125, 0.55078125, 0.05078125,
    0.95703125, 0.45703125, 0.70703125, 0.20703125, 0.83203125, 0.33203125, 0.58203125, 0.08203125,
    0.89453125, 0.39453125, 0.64453125, 0.14453125, 0.76953125, 0.26953125, 0.51953125, 0.01953125,
    0.97265625, 0.47265625, 0.72265625, 0.22265625, 0.84765625, 0.34765625, 0.59765625, 0.09765625,
    0.91015625, 0.41015625, 0.66015625, 0.16015625, 0.78515625, 0.28515625, 0.53515625, 0.03515625,
    0.94140625, 0.44140625, 0.69140625, 0.19140625, 0.81640625, 0.31640625, 0.56640625, 0.06640625,
    0.87890625, 0.37890625, 0.62890625, 0.12890625, 0.75390625, 0.25390625, 0.50390625, 0.00390625,
    0.9921875, 0.4921875, 0.7421875, 0.2421875, 0.8671875, 0.3671875, 0.6171875, 0.1171875, 0.9296875,
    0.4296875, 0.6796875, 0.1796875, 0.8046875, 0.3046875, 0.5546875, 0.0546875, 0.9609375, 0.4609375,
    0.7109375, 0.2109375, 0.8359375, 0.3359375, 0.5859375, 0.0859375, 0.8984375, 0.3984375, 0.6484375,
    0.1484375, 0.7734375, 0.2734375, 0.5234375, 0.0234375, 0.9765625, 0.4765625, 0.7265625, 0.2265625,
    0.8515625, 0.3515625, 0.6015625, 0.1015625, 0.9140625, 0.4140625, 0.6640625, 0.1640625, 0.7890625,
    0.2890625, 0.5390625, 0.0390625, 0.9453125, 0.4453125, 0.6953125, 0.1953125, 0.8203125, 0.3203125,
    0.5703125, 0.0703125, 0.8828125, 0.3828125, 0.6328125, 0.1328125, 0.7578125, 0.2578125, 0.5078125,
    0.0078125, 0.984375, 0.484375, 0.734375, 0.234375, 0.859375, 0.359375, 0.609375, 0.109375, 0.921875,
    0.421875, 0.671875, 0.171875, 0.796875, 0.296875, 0.546875, 0.046875, 0.953125, 0.453125, 0.703125,
    0.203125, 0.828125, 0.328125, 0.578125, 0.078125, 0.890625, 0.390625, 0.640625, 0.140625, 0.765625,
    0.265625, 0.515625, 0.015625, 0.96875, 0.46875, 0.71875, 0.21875, 0.84375, 0.34375, 0.59375, 0.09375,
    0.90625, 0.40625, 0.65625, 0.15625, 0.78125, 0.28125, 0.53125, 0.03125, 0.9375, 0.4375, 0.6875, 0.1875,
    0.8125, 0.3125, 0.5625, 0.0625, 0.875, 0.375, 0.625, 0.125, 0.75, 0.25, 0.5, 0.0]"

definition refresh_kxp :: "cpc_sketch \<Rightarrow> u64 list \<Rightarrow> cpc_sketch" where
  "refresh_kxp s bit_matrix =
     (let byte_sums = foldl (\<lambda>acc w.
            map (\<lambda>j. f64_add (acc ! j) (KXP_BYTE_TABLE ! unat (drop_bit (8 * j) w AND 0xFF))) [0..<8])
            (replicate 8 0) bit_matrix;
          total = foldl (\<lambda>total i. f64_add total (f64_mul (inv_pow2 (of_nat (i * 8))) (byte_sums ! i))) 0
            (rev [0..<8])
      in s\<lparr>cs_kxp := total\<rparr>)"

section \<open>The bit matrix\<close>

text \<open>The window bits of row i, and the flip of one cell\<close>

definition or_window_row :: "nat \<Rightarrow> u8 list \<Rightarrow> u64 list \<Rightarrow> nat \<Rightarrow> u64 list res" where
  "or_window_row offset window matrix i =
     bind_res (get_at window i) (\<lambda>b.
     bind_res (get_at matrix i) (\<lambda>x. set_at matrix i (x OR push_bit offset (ucast b))))"

definition flip_cell :: "u64 list \<Rightarrow> u32 \<Rightarrow> u64 list res" where
  "flip_cell matrix row_col =
     (if row_col \<noteq> FREE then
        let col = rc_col row_col; row = rc_row row_col
        in bind_res (get_at matrix row) (\<lambda>x. set_at matrix row (x XOR push_bit col 1))
      else Inr matrix)"

definition build_bit_matrix :: "cpc_sketch \<Rightarrow> u64 list res" where
  "build_bit_matrix s =
     (let k = 2 ^ cs_lg_k s; offset = cs_window_offset s
      in if \<not> offset \<le> 56 then Inl (Panic ''assertion failed: offset <= 56'')
         else
           let default_row = push_bit offset 1 - 1;
               matrix = replicate k default_row
           in if cs_num_coupons s = 0 then Inr matrix
              else
                bind_res
                  (if cs_sliding_window s \<noteq> []
                   then fold_res (or_window_row offset (cs_sliding_window s)) matrix [0..<k]
                   else Inr matrix) (\<lambda>matrix.
                bind_res (surprising_value_table s) (\<lambda>t. fold_res flip_cell matrix (pt_slots t))))"

definition count_bits_set_in_matrix :: "u64 list \<Rightarrow> nat" where
  "count_bits_set_in_matrix matrix = foldl (\<lambda>n w. n + length (filter (bit w) [0..<64])) 0 matrix"

section \<open>Moving the window\<close>

definition word_trailing_zeros :: "u64 \<Rightarrow> nat" where
  "word_trailing_zeros w = length (takeWhile (\<lambda>i. \<not> bit w i) [0..<64])"

text \<open>
  The loop over the set bits of a row; every round clears one of the 64 bits.
\<close>

fun insert_surprises :: "nat \<Rightarrow> nat \<Rightarrow> u64 \<Rightarrow> pair_table \<Rightarrow> pair_table res" where
  "insert_surprises 0 i pattern t = Inl (Panic ''row loop does not end'')"
| "insert_surprises (Suc fuel) i pattern t =
     (if pattern \<noteq> 0 then
        let col = word_trailing_zeros pattern;
            pattern = pattern XOR push_bit col 1;
            row_col = rc_pack i col
        in bind_res (maybe_insert t row_col) (\<lambda>(t, is_novel).
             if \<not> is_novel then Inl (Panic ''assertion failed: is_novel'') else insert_surprises fuel i pattern t)
      else Inr t)"

text \<open>One row of the loop of \<open>move_window\<close>: the window byte, the surprises, and their columns\<close>

definition split_row ::
  "nat \<Rightarrow> u64 list \<Rightarrow> u8 list \<times> pair_table \<times> u64 \<Rightarrow> nat \<Rightarrow> (u8 list \<times> pair_table \<times> u64) res" where
  "split_row new_offset bit_matrix = (\<lambda>(window, t, all_surprises_ored) i.
     let mask_for_clearing_window = push_bit new_offset 0xFF XOR - 1;
         mask_for_flipping_early_zone = push_bit new_offset 1 - 1
     in bind_res (get_at bit_matrix i) (\<lambda>pattern.
        bind_res (set_at window i (ucast (drop_bit new_offset pattern AND 0xFF))) (\<lambda>window.
          let pattern = (pattern AND mask_for_clearing_window) XOR mask_for_flipping_early_zone;
              all_surprises_ored = all_surprises_ored OR pattern
          in bind_res (insert_surprises 65 i pattern t) (\<lambda>t. Inr (window, t, all_surprises_ored)))))"

definition first_column :: "u64 \<Rightarrow> nat \<Rightarrow> nat" where
  "first_column all_surprises_ored new_offset =
     (let c = word_trailing_zeros all_surprises_ored in if new_offset < c then new_offset else c)"

definition move_window :: "cpc_sketch \<Rightarrow> cpc_sketch res" where
  "move_window s =
     (let new_offset = cs_window_offset s + 1
      in if \<not> new_offset \<le> 56 then Inl (Panic ''assertion failed: new_offset <= 56'')
         else if new_offset \<noteq> determine_correct_offset (cs_lg_k s) (cs_num_coupons s)
         then Inl (Panic ''assertion failed: new_offset is correct'')
         else
           let k = 2 ^ cs_lg_k s
           in bind_res (build_bit_matrix s) (\<lambda>bit_matrix.
              let s = (if new_offset AND 7 = 0 then refresh_kxp s bit_matrix else s)
              in bind_res (surprising_value_table s) (\<lambda>t.
                 bind_res (fold_res (split_row new_offset bit_matrix)
                     (cs_sliding_window s, pair_clear t, 0) [0..<k]) (\<lambda>(window, t, all_surprises_ored).
                   Inr (s\<lparr>cs_sliding_window := window, cs_table := Some t, cs_window_offset := new_offset,
                     cs_first_interesting_column := first_column all_surprises_ored new_offset\<rparr>)))))"

section \<open>Updates\<close>

definition promote_slot :: "u8 list \<times> pair_table \<Rightarrow> u32 \<Rightarrow> (u8 list \<times> pair_table) res" where
  "promote_slot = (\<lambda>(window, t) row_col.
     if row_col \<noteq> FREE then
       let col = rc_col row_col
       in if col < 8 then
            let row = rc_row row_col
            in bind_res (get_at window row) (\<lambda>b.
               bind_res (set_at window row (b OR push_bit col 1)) (\<lambda>window. Inr (window, t)))
          else
            bind_res (maybe_insert t row_col) (\<lambda>(t, is_novel).
              if \<not> is_novel then Inl (Panic ''assertion failed: is_novel'') else Inr (window, t))
     else Inr (window, t))"

definition promote_sparse_to_windowed :: "cpc_sketch \<Rightarrow> cpc_sketch res" where
  "promote_sparse_to_windowed s =
     (if cs_window_offset s \<noteq> 0 then Inl (Panic ''assertion failed: window_offset == 0'')
      else
        let k = 2 ^ cs_lg_k s; c32 = 32 * cs_num_coupons s
        in if \<not> (c32 = 3 * k \<or> cs_lg_k s = 4 \<and> 3 * k < c32) then Inl (Panic ''assertion failed: C == 3K/32'')
           else
             let window = take k (cs_sliding_window s) @ replicate (k - length (cs_sliding_window s)) 0
             in bind_res (pair_table_new 2 (6 + cs_lg_k s)) (\<lambda>new_table.
                bind_res (surprising_value_table s) (\<lambda>old_table.
                bind_res (fold_res promote_slot (window, new_table) (pt_slots old_table)) (\<lambda>(window, t).
                  Inr (s\<lparr>cs_sliding_window := window, cs_table := Some t\<rparr>)))))"

definition update_sparse :: "cpc_sketch \<Rightarrow> u32 \<Rightarrow> cpc_sketch res" where
  "update_sparse s row_col =
     (let k = 2 ^ cs_lg_k s; c32pre = 32 * cs_num_coupons s
      in if \<not> c32pre < 3 * k then Inl (Panic ''assertion failed: flavor is SPARSE'')
         else
           bind_res (surprising_insert s row_col) (\<lambda>(s, is_novel).
             if is_novel then
               let s = cpc_update_hip (s\<lparr>cs_num_coupons := cs_num_coupons s + 1\<rparr>) row_col;
                   c32post = 32 * cs_num_coupons s
               in if 3 * k \<le> c32post then promote_sparse_to_windowed s else Inr s
             else Inr s))"

text \<open>The three zones of \<open>update_windowed\<close>\<close>

definition update_zone :: "cpc_sketch \<Rightarrow> u32 \<Rightarrow> (cpc_sketch \<times> bool) res" where
  "update_zone s row_col =
     (let col = rc_col row_col
      in if col < cs_window_offset s then surprising_delete s row_col
         else if col < cs_window_offset s + 8 then
           let row = rc_row row_col
           in bind_res (get_at (cs_sliding_window s) row) (\<lambda>old_bits.
                let new_bits = old_bits OR push_bit (col - cs_window_offset s) 1
                in if old_bits \<noteq> new_bits
                   then bind_res (set_at (cs_sliding_window s) row new_bits) (\<lambda>window.
                     Inr (s\<lparr>cs_sliding_window := window\<rparr>, True))
                   else Inr (s, False))
         else surprising_insert s row_col)"

definition update_windowed :: "cpc_sketch \<Rightarrow> u32 \<Rightarrow> cpc_sketch res" where
  "update_windowed s row_col =
     (let k = 2 ^ cs_lg_k s;
          c32pre = 32 * cs_num_coupons s;
          c8pre = 8 * cs_num_coupons s;
          w8pre = 8 * cs_window_offset s
      in if \<not> cs_window_offset s \<le> 56 then Inl (Panic ''assertion failed: window_offset <= 56'')
         else if \<not> 3 * k \<le> c32pre then Inl (Panic ''assertion failed: flavor >= HYBRID'')
         else if \<not> c8pre < (27 + w8pre) * k then Inl (Panic ''assertion failed: C before the next move'')
         else
           bind_res (update_zone s row_col) (\<lambda>(s, is_novel).
             if is_novel then
               let s = cpc_update_hip (s\<lparr>cs_num_coupons := cs_num_coupons s + 1\<rparr>) row_col;
                   c8post = 8 * cs_num_coupons s
               in if (27 + w8pre) * k \<le> c8post then
                    bind_res (move_window s) (\<lambda>s.
                      if \<not> (1 \<le> cs_window_offset s \<and> cs_window_offset s \<le> 56)
                      then Inl (Panic ''assertion failed: window_offset in 1..=56'')
                      else if \<not> c8post < (27 + 8 * cs_window_offset s) * k
                      then Inl (Panic ''assertion failed: C after the move'')
                      else Inr s)
                  else Inr s
             else Inr s))"

definition row_col_update :: "cpc_sketch \<Rightarrow> u32 \<Rightarrow> cpc_sketch res" where
  "row_col_update s row_col =
     (let col = rc_col row_col
      in if col < cs_first_interesting_column s then Inr s
         else
           bind_res
             (if cs_num_coupons s = 0
              then bind_res (pair_table_new 2 (6 + cs_lg_k s)) (\<lambda>t. Inr (s\<lparr>cs_table := Some t\<rparr>))
              else Inr s) (\<lambda>s.
           if cs_sliding_window s = [] then update_sparse s row_col else update_windowed s row_col))"

text \<open>The coupon of an item, and the update with it\<close>

definition cpc_row_col :: "nat \<Rightarrow> u64 \<Rightarrow> u8 list list \<Rightarrow> u32" where
  "cpc_row_col lg_k seed item =
     (let (h1, h2) = murmur_hash seed item;
          k = 2 ^ lg_k;
          col = min (leading_zeros h2) 63;
          row = ucast (h1 AND (k - 1));
          row_col = push_bit 6 row OR of_nat col
      in if row_col = FREE then row_col XOR push_bit 6 1 else row_col)"

definition cpc_update :: "cpc_sketch \<Rightarrow> u8 list list \<Rightarrow> cpc_sketch res" where
  "cpc_update s item = row_col_update s (cpc_row_col (cs_lg_k s) (cs_seed s) item)"

definition cpc_update_all :: "cpc_sketch \<Rightarrow> u8 list list list \<Rightarrow> cpc_sketch res" where
  "cpc_update_all s items = fold_res cpc_update s items"

definition cpc_validate :: "cpc_sketch \<Rightarrow> bool res" where
  "cpc_validate s =
     bind_res (build_bit_matrix s) (\<lambda>bit_matrix. Inr (count_bits_set_in_matrix bit_matrix = cs_num_coupons s))"


section \<open>Rows and columns\<close>

lemma rc_col_mod: "rc_col x = unat x mod 64"
proof -
  have "x AND 63 = take_bit 6 x" by (simp add: take_bit_eq_mask mask_eq_exp_minus_1)
  then have "rc_col x = take_bit 6 (unat x)" by (simp only: rc_col_def unsigned_take_bit_eq)
  then show ?thesis by (simp add: take_bit_eq_mod)
qed

lemma rc_row_div: "rc_row x = unat x div 64"
  unfolding rc_row_def unat_drop_bit_eq by (simp add: drop_bit_eq_div)

lemma rc_col_lt [simp]: "rc_col x < 64"
  by (simp add: rc_col_mod)

lemma rc_unat: "unat x = 64 * rc_row x + rc_col x"
  by (simp add: rc_col_mod rc_row_div)

lemma rc_eqI: "rc_row x = rc_row y \<Longrightarrow> rc_col x = rc_col y \<Longrightarrow> x = y"
  by (simp add: word_unat_eq_iff rc_unat [of x] rc_unat [of y])

lemma unat_rc_pack:
  assumes "i < 2 ^ 26" and "j < 64"
  shows "unat (rc_pack i j) = 64 * i + j"
proof -
  have "take_bit 6 j = j" using assms(2) by (simp add: take_bit_nat_eq_self)
  then have j: "(of_nat j :: u32) = take_bit 6 (of_nat j)" by (metis take_bit_of_nat)
  have "push_bit 6 (of_nat i :: u32) AND of_nat j = 0"
    by (subst j, rule bit_word_eqI) (auto simp: bit_simps)
  then have "rc_pack i j = push_bit 6 (of_nat i) + of_nat j"
    unfolding rc_pack_def by (rule disjunctive_add_eq_or [symmetric])
  also have "\<dots> = of_nat (64 * i + j)" by (simp add: push_bit_eq_mult)
  finally have pack: "rc_pack i j = of_nat (64 * i + j)" .
  show ?thesis unfolding pack unat_of_nat using assms by simp
qed

lemma rc_pack_fields:
  assumes "i < 2 ^ 26" and "j < 64"
  shows "rc_row (rc_pack i j) = i" and "rc_col (rc_pack i j) = j"
  using assms(2) by (simp_all add: rc_row_div rc_col_mod unat_rc_pack [OF assms])

lemma rc_row_lt26 [simp]: "rc_row x < 2 ^ 26"
proof -
  have "unat x < 2 ^ LENGTH(32)" by (rule unsigned_less)
  then show ?thesis by (simp add: rc_row_div)
qed

lemma rc_pack_row_col [simp]: "rc_pack (rc_row x) (rc_col x) = x"
  by (rule rc_eqI) (simp_all only: rc_pack_fields rc_row_lt26 rc_col_lt)

lemma rc_pack_eq_iff:
  assumes "i < 2 ^ 26" and "j < 64"
  shows "rc_pack i j = x \<longleftrightarrow> rc_row x = i \<and> rc_col x = j"
  using rc_pack_fields [OF assms] rc_pack_row_col by metis

text \<open>The coupons of a sketch with \<open>2 ^ lg_k\<close> rows\<close>

abbreviation coupon_ok :: "nat \<Rightarrow> u32 \<Rightarrow> bool" where
  "coupon_ok lg_k x \<equiv> valid_item (6 + lg_k) x"

lemma coupon_ok_row: "coupon_ok lg_k x \<longleftrightarrow> x \<noteq> FREE \<and> rc_row x < 2 ^ lg_k"
proof -
  have "unat x < 2 ^ (6 + lg_k) \<longleftrightarrow> unat x < 64 * 2 ^ lg_k" by (simp add: power_add)
  also have "\<dots> \<longleftrightarrow> rc_row x < 2 ^ lg_k" unfolding rc_unat [of x] using rc_col_lt [of x] by linarith
  finally show ?thesis by (simp add: valid_item_def)
qed

lemma FREE_fields: "rc_row FREE = 2 ^ 26 - 1" "rc_col FREE = 63"
  by (simp_all add: rc_row_div rc_col_mod)

lemma coupon_ok_pack:
  assumes "i < 2 ^ lg_k" and "lg_k \<le> 26" and "j < 63"
  shows "coupon_ok lg_k (rc_pack i j)"
proof -
  have i: "i < 2 ^ 26" using assms(1,2) power_increasing [of lg_k 26 "2 :: nat"] by simp
  have "rc_pack i j \<noteq> FREE" using rc_pack_fields(2) [OF i, of j] FREE_fields(2) assms(3) by auto
  then show ?thesis using assms(1,3) rc_pack_fields(1) [OF i, of j] by (simp add: coupon_ok_row)
qed

section \<open>The bit matrix of a set of coupons\<close>

definition represents :: "u64 list \<Rightarrow> nat \<Rightarrow> u32 set \<Rightarrow> bool" where
  "represents M lg_k C \<longleftrightarrow>
     length M = 2 ^ lg_k \<and> (\<forall>i < 2 ^ lg_k. \<forall>j < 64. bit (M ! i) j \<longleftrightarrow> rc_pack i j \<in> C)"

lemma represents_unique: "represents M lg_k C \<Longrightarrow> represents M' lg_k C \<Longrightarrow> M = M'"
  by (intro nth_equalityI bit_word_eqI) (simp_all add: represents_def)

lemma fold_rows:
  assumes "n \<le> length xs" and "\<And>ys i. length ys = length xs \<Longrightarrow> i < n \<Longrightarrow> ys ! i = xs ! i \<Longrightarrow>
      f ys i = Inr (ys[i := g i (xs ! i)])"
  shows "\<exists>ys. fold_res f xs [0..<n] = Inr ys \<and> length ys = length xs \<and>
    (\<forall>i < n. ys ! i = g i (xs ! i)) \<and> (\<forall>i < length xs. n \<le> i \<longrightarrow> ys ! i = xs ! i)"
  using assms
proof (induction n)
  case (Suc n)
  obtain ys where ys: "fold_res f xs [0..<n] = Inr ys" "length ys = length xs"
    "\<forall>i < n. ys ! i = g i (xs ! i)" "\<forall>i < length xs. n \<le> i \<longrightarrow> ys ! i = xs ! i"
    using Suc.IH Suc.prems by fastforce
  have "f ys n = Inr (ys[n := g n (xs ! n)])" using ys Suc.prems by simp
  then show ?case using ys Suc.prems(1) by (auto simp: fold_res_append nth_list_update less_Suc_eq)
qed simp

text \<open>Flipping a set of cells, each of them once\<close>

lemma flip_cells:
  assumes "length M = 2 ^ lg_k" and "distinct (filter (\<lambda>x. x \<noteq> FREE) xs)"
    and "\<forall>x \<in> set xs - {FREE}. rc_row x < 2 ^ lg_k"
  shows "\<exists>M'. fold_res flip_cell M xs = Inr M' \<and> length M' = 2 ^ lg_k \<and>
    (\<forall>i < 2 ^ lg_k. \<forall>j < 64. bit (M' ! i) j \<longleftrightarrow>
       (bit (M ! i) j \<noteq> (\<exists>x \<in> set xs. x \<noteq> FREE \<and> rc_row x = i \<and> rc_col x = j)))"
  using assms
proof (induction xs arbitrary: M)
  case (Cons x xs)
  show ?case
  proof (cases "x = FREE")
    case True
    then show ?thesis using Cons.IH [of M] Cons.prems by (simp add: flip_cell_def)
  next
    case False
    let ?M = "M[rc_row x := M ! rc_row x XOR push_bit (rc_col x) 1]"
    have row: "rc_row x < 2 ^ lg_k" using Cons.prems(3) False by simp
    have new: "y \<noteq> x" if "y \<in> set xs" for y using Cons.prems(2) False that by auto
    obtain M' where M': "fold_res flip_cell ?M xs = Inr M'" "length M' = 2 ^ lg_k"
      "\<forall>i < 2 ^ lg_k. \<forall>j < 64. bit (M' ! i) j \<longleftrightarrow>
         (bit (?M ! i) j \<noteq> (\<exists>x \<in> set xs. x \<noteq> FREE \<and> rc_row x = i \<and> rc_col x = j))"
      using Cons.IH [of ?M] Cons.prems False by auto
    have flip: "bit (?M ! i) j \<longleftrightarrow> (bit (M ! i) j \<noteq> (rc_row x = i \<and> rc_col x = j))"
      if "i < 2 ^ lg_k" "j < 64" for i j
      using that row Cons.prems(1) by (auto simp: nth_list_update bit_simps)
    have once: "\<not> (\<exists>y \<in> set xs. y \<noteq> FREE \<and> rc_row y = i \<and> rc_col y = j)"
      if "rc_row x = i \<and> rc_col x = j" for i j
      using new that rc_eqI by metis
    have "\<forall>i < 2 ^ lg_k. \<forall>j < 64. bit (M' ! i) j \<longleftrightarrow>
        (bit (M ! i) j \<noteq> (\<exists>y \<in> set (x # xs). y \<noteq> FREE \<and> rc_row y = i \<and> rc_col y = j))"
    proof (intro allI impI)
      fix i j :: nat assume ij: "i < 2 ^ lg_k" "j < 64"
      have ex: "(\<exists>y \<in> set (x # xs). y \<noteq> FREE \<and> rc_row y = i \<and> rc_col y = j) \<longleftrightarrow>
          (rc_row x = i \<and> rc_col x = j) \<or> (\<exists>y \<in> set xs. y \<noteq> FREE \<and> rc_row y = i \<and> rc_col y = j)"
        using False by auto
      show "bit (M' ! i) j \<longleftrightarrow>
          (bit (M ! i) j \<noteq> (\<exists>y \<in> set (x # xs). y \<noteq> FREE \<and> rc_row y = i \<and> rc_col y = j))"
        unfolding ex M'(3) [rule_format, OF ij] flip [OF ij] using once [of i j] by argo
    qed
    moreover have "fold_res flip_cell M (x # xs) = Inr M'"
      using row False Cons.prems(1) M'(1) by (simp add: flip_cell_def Let_def)
    ultimately show ?thesis using M'(2) by blast
  qed
qed simp


section \<open>What a sketch holds\<close>

text \<open>
  \<open>surprises lg_k w C\<close>: the zeros before and the ones behind a window at w. \<open>cpc_holds s C\<close>: the
  state stands for exactly the coupons C.
\<close>

definition surprises :: "nat \<Rightarrow> nat \<Rightarrow> u32 set \<Rightarrow> u32 set" where
  "surprises lg_k w C = {x. coupon_ok lg_k x \<and> (rc_col x < w \<and> x \<notin> C \<or> w + 8 \<le> rc_col x \<and> x \<in> C)}"

definition table_holds :: "cpc_sketch \<Rightarrow> u32 set \<Rightarrow> bool" where
  "table_holds s P \<longleftrightarrow>
     (\<exists>t. cs_table s = Some t \<and> pt_num_valid_bits t = 6 + cs_lg_k s \<and> pair_holds t P)"

definition window_holds :: "u8 list \<Rightarrow> nat \<Rightarrow> nat \<Rightarrow> u32 set \<Rightarrow> bool" where
  "window_holds window lg_k w C \<longleftrightarrow>
     length window = 2 ^ lg_k \<and> (\<forall>i < 2 ^ lg_k. \<forall>j < 8. bit (window ! i) j \<longleftrightarrow> rc_pack i (w + j) \<in> C)"

definition cpc_holds :: "cpc_sketch \<Rightarrow> u32 set \<Rightarrow> bool" where
  "cpc_holds s C \<longleftrightarrow>
     4 \<le> cs_lg_k s \<and> cs_lg_k s \<le> 26 \<and> finite C \<and> (\<forall>x \<in> C. coupon_ok (cs_lg_k s) x) \<and>
     cs_num_coupons s = card C \<and> cs_window_offset s = determine_correct_offset (cs_lg_k s) (card C) \<and>
     cs_window_offset s \<le> 56 \<and> cs_first_interesting_column s \<le> cs_window_offset s \<and>
     (\<forall>x. coupon_ok (cs_lg_k s) x \<longrightarrow> rc_col x < cs_first_interesting_column s \<longrightarrow> x \<in> C) \<and>
     (if 32 * card C < 3 * 2 ^ cs_lg_k s
      then cs_sliding_window s = [] \<and> (C \<noteq> {} \<longrightarrow> table_holds s C)
      else window_holds (cs_sliding_window s) (cs_lg_k s) (cs_window_offset s) C \<and>
        table_holds s (surprises (cs_lg_k s) (cs_window_offset s) C))"

lemma cpc_holds_sparse:
  "cpc_holds s C \<Longrightarrow> 32 * card C < 3 * 2 ^ cs_lg_k s \<Longrightarrow>
   cs_sliding_window s = [] \<and> (C \<noteq> {} \<longrightarrow> table_holds s C)"
  unfolding cpc_holds_def by argo

lemma cpc_holds_windowed:
  "cpc_holds s C \<Longrightarrow> \<not> 32 * card C < 3 * 2 ^ cs_lg_k s \<Longrightarrow>
   window_holds (cs_sliding_window s) (cs_lg_k s) (cs_window_offset s) C \<and>
   table_holds s (surprises (cs_lg_k s) (cs_window_offset s) C)"
  unfolding cpc_holds_def by argo

lemma finite_surprises [simp]: "finite (surprises lg_k w C)"
  by simp

lemma surprises_ok: "x \<in> surprises lg_k w C \<Longrightarrow> coupon_ok lg_k x"
  by (simp add: surprises_def)

text \<open>The offset is the number of window moves that are due\<close>

lemma offset_due:
  "8 * C < 27 * 2 ^ lg_k \<Longrightarrow> determine_correct_offset lg_k C = 0"
  "(19 + 8 * w) * 2 ^ lg_k \<le> 8 * C \<Longrightarrow> 8 * C < (27 + 8 * w) * 2 ^ lg_k \<Longrightarrow> w < 256 \<Longrightarrow>
   determine_correct_offset lg_k C = w"
proof -
  have div: "nat ((int C * 8 - 19 * 2 ^ lg_k) div 2 ^ (lg_k + 3)) = w"
    if "(19 + 8 * w) * 2 ^ lg_k \<le> 8 * C" "8 * C < (27 + 8 * w) * 2 ^ lg_k" for w
  proof -
    have "int ((19 + 8 * w) * 2 ^ lg_k) \<le> int (8 * C)" "int (8 * C) < int ((27 + 8 * w) * 2 ^ lg_k)"
      using that by (simp_all only: of_nat_le_iff of_nat_less_iff)
    then have "int w * 2 ^ (lg_k + 3) \<le> int C * 8 - 19 * 2 ^ lg_k"
      "int C * 8 - 19 * 2 ^ lg_k < (int w + 1) * 2 ^ (lg_k + 3)"
      by (simp_all add: power_add algebra_simps)
    then have "(int C * 8 - 19 * 2 ^ lg_k) div 2 ^ (lg_k + 3) = int w"
      by (intro int_div_pos_eq [of _ _ _ "int C * 8 - 19 * 2 ^ lg_k - int w * 2 ^ (lg_k + 3)"])
        (simp_all add: algebra_simps)
    then show ?thesis by simp
  qed
  show "8 * C < 27 * 2 ^ lg_k \<Longrightarrow> determine_correct_offset lg_k C = 0"
  proof -
    assume lt: "8 * C < 27 * 2 ^ lg_k"
    show "determine_correct_offset lg_k C = 0"
    proof (cases "19 * 2 ^ lg_k \<le> 8 * C")
      case True
      then show ?thesis using div [of 0] lt by (auto simp: determine_correct_offset_def Let_def)
    next
      case False
      then have "int (8 * C) < int (19 * 2 ^ lg_k)" by (simp only: of_nat_less_iff not_le)
      then show ?thesis by (simp add: determine_correct_offset_def Let_def)
    qed
  qed
  show "(19 + 8 * w) * 2 ^ lg_k \<le> 8 * C \<Longrightarrow> 8 * C < (27 + 8 * w) * 2 ^ lg_k \<Longrightarrow> w < 256 \<Longrightarrow>
      determine_correct_offset lg_k C = w"
  proof -
    assume le: "(19 + 8 * w) * 2 ^ lg_k \<le> 8 * C" and lt: "8 * C < (27 + 8 * w) * 2 ^ lg_k" and w: "w < 256"
    have "19 * 2 ^ lg_k \<le> 8 * C" using le by (simp add: algebra_simps)
    then have "int (19 * 2 ^ lg_k) \<le> int (8 * C)" by (simp only: of_nat_le_iff)
    then have "\<not> int C * 8 - 19 * 2 ^ lg_k < 0" by simp
    then show "determine_correct_offset lg_k C = w"
      unfolding determine_correct_offset_def Let_def div [OF le lt] using w by simp
  qed
qed

section \<open>The matrix of a state\<close>

lemma bit_default_row: "bit (push_bit offset 1 - 1 :: u64) j \<longleftrightarrow> j < 64 \<and> j < offset"
proof -
  have "(push_bit offset 1 - 1 :: u64) = mask offset" by (simp add: mask_eq_exp_minus_1)
  then show ?thesis by (simp only: bit_mask_iff) auto
qed

lemma or_window_rows:
  assumes "length M = 2 ^ lg_k" and "length window = 2 ^ lg_k"
  obtains M' where "fold_res (or_window_row offset window) M [0..<2 ^ lg_k] = Inr M'" and "length M' = 2 ^ lg_k"
    and "\<And>i j. i < 2 ^ lg_k \<Longrightarrow> j < 64 \<Longrightarrow>
      bit (M' ! i) j \<longleftrightarrow> bit (M ! i) j \<or> offset \<le> j \<and> bit (window ! i) (j - offset)"
proof -
  let ?g = "\<lambda>i x. x OR push_bit offset (ucast (window ! i))"
  have "\<exists>ys. fold_res (or_window_row offset window) M [0..<2 ^ lg_k] = Inr ys \<and> length ys = length M \<and>
      (\<forall>i < 2 ^ lg_k. ys ! i = ?g i (M ! i)) \<and> (\<forall>i < length M. 2 ^ lg_k \<le> i \<longrightarrow> ys ! i = M ! i)"
    by (rule fold_rows) (simp_all add: assms or_window_row_def)
  then obtain M' where M': "fold_res (or_window_row offset window) M [0..<2 ^ lg_k] = Inr M'" "length M' = 2 ^ lg_k"
      "\<forall>i < 2 ^ lg_k. M' ! i = ?g i (M ! i)" using assms(1) by auto
  have "bit (M' ! i) j \<longleftrightarrow> bit (M ! i) j \<or> offset \<le> j \<and> bit (window ! i) (j - offset)"
    if "i < 2 ^ lg_k" "j < 64" for i j
    using that M'(3) by (auto simp: bit_simps dest: bit_imp_le_length)
  then show ?thesis using that M' by blast
qed

lemma flip_table:
  assumes M: "length M = 2 ^ lg_k" and t: "pair_holds t P" and ok: "\<And>x. x \<in> P \<Longrightarrow> coupon_ok lg_k x" and lg: "lg_k \<le> 26"
  obtains M' where "fold_res flip_cell M (pt_slots t) = Inr M'" and "length M' = 2 ^ lg_k"
    and "\<And>i j. i < 2 ^ lg_k \<Longrightarrow> j < 64 \<Longrightarrow> bit (M' ! i) j \<longleftrightarrow> (bit (M ! i) j \<noteq> (rc_pack i j \<in> P))"
proof -
  have wf: "pt.wf (pt_num_valid_bits t) (pt_lg_size t) (pt_slots t)" and P: "set (pt_slots t) - {FREE} = P"
    using t by (simp_all add: pair_holds_def)
  have "(\<lambda>s. pair_occ s \<noteq> None) = (\<lambda>x. x \<noteq> FREE)" by (auto simp: fun_eq_iff)
  then have d: "distinct (filter (\<lambda>x. x \<noteq> FREE) (pt_slots t))"
    using pt.distinct_occupied(1) [OF wf] by simp
  have rows: "\<forall>x \<in> set (pt_slots t) - {FREE}. rc_row x < 2 ^ lg_k"
    unfolding P using ok by (simp add: coupon_ok_row)
  obtain M' where M': "fold_res flip_cell M (pt_slots t) = Inr M'" "length M' = 2 ^ lg_k"
    "\<forall>i < 2 ^ lg_k. \<forall>j < 64. bit (M' ! i) j \<longleftrightarrow>
       (bit (M ! i) j \<noteq> (\<exists>x \<in> set (pt_slots t). x \<noteq> FREE \<and> rc_row x = i \<and> rc_col x = j))"
    using flip_cells [OF M d rows] by blast
  have "(\<exists>x \<in> set (pt_slots t). x \<noteq> FREE \<and> rc_row x = i \<and> rc_col x = j) \<longleftrightarrow> rc_pack i j \<in> P"
    if "i < 2 ^ lg_k" "j < 64" for i j
  proof -
    have "i < 2 ^ 26" using that(1) lg power_increasing [of lg_k 26 "2 :: nat"] by simp
    note eq = rc_pack_eq_iff [OF this that(2)]
    show ?thesis unfolding P [symmetric] using eq by auto
  qed
  then show ?thesis using M' by (intro that [of M']) simp_all
qed

lemma represents_empty: "represents (replicate (2 ^ lg_k) (push_bit 0 1 - 1)) lg_k {}"
  by (simp add: represents_def)

text \<open>A state with a window, whether or not the window is due to move\<close>

definition windowed :: "cpc_sketch \<Rightarrow> u32 set \<Rightarrow> bool" where
  "windowed s C \<longleftrightarrow>
     4 \<le> cs_lg_k s \<and> cs_lg_k s \<le> 26 \<and> finite C \<and> (\<forall>x \<in> C. coupon_ok (cs_lg_k s) x) \<and> C \<noteq> {} \<and>
     cs_num_coupons s = card C \<and> cs_window_offset s \<le> 56 \<and>
     window_holds (cs_sliding_window s) (cs_lg_k s) (cs_window_offset s) C \<and>
     table_holds s (surprises (cs_lg_k s) (cs_window_offset s) C)"

lemma windowed_matrix:
  assumes "windowed s C"
  shows "\<exists>M. build_bit_matrix s = Inr M \<and> represents M (cs_lg_k s) C"
proof -
  let ?lg = "cs_lg_k s" and ?w = "cs_window_offset s" and ?win = "cs_sliding_window s"
  let ?M0 = "replicate (2 ^ cs_lg_k s) (push_bit (cs_window_offset s) 1 - 1) :: u64 list"
  have lg: "?lg \<le> 26" and num: "cs_num_coupons s = card C" and w: "?w \<le> 56" and fin: "finite C" "C \<noteq> {}"
    and ok: "\<And>x. x \<in> C \<Longrightarrow> coupon_ok ?lg x" and win: "window_holds ?win ?lg ?w C"
    and tab: "table_holds s (surprises ?lg ?w C)"
    using assms by (simp_all add: windowed_def)
  have M0: "length ?M0 = 2 ^ ?lg" by simp
  have len: "length ?win = 2 ^ ?lg" using win by (simp add: window_holds_def)
  obtain t where t: "cs_table s = Some t" "pair_holds t (surprises ?lg ?w C)"
    using tab by (auto simp: table_holds_def)
  obtain M1 where M1: "fold_res (or_window_row ?w ?win) ?M0 [0..<2 ^ ?lg] = Inr M1" "length M1 = 2 ^ ?lg"
    "\<And>i j. i < 2 ^ ?lg \<Longrightarrow> j < 64 \<Longrightarrow>
      bit (M1 ! i) j \<longleftrightarrow> bit (?M0 ! i) j \<or> ?w \<le> j \<and> bit (?win ! i) (j - ?w)"
    using or_window_rows [OF M0 len] by metis
  obtain M2 where M2: "fold_res flip_cell M1 (pt_slots t) = Inr M2" "length M2 = 2 ^ ?lg"
    "\<And>i j. i < 2 ^ ?lg \<Longrightarrow> j < 64 \<Longrightarrow> bit (M2 ! i) j \<longleftrightarrow> (bit (M1 ! i) j \<noteq> (rc_pack i j \<in> surprises ?lg ?w C))"
    using flip_table [OF M1(2) t(2) surprises_ok [of _ ?lg ?w C] lg] by metis
  have "bit (M2 ! i) j \<longleftrightarrow> rc_pack i j \<in> C" if ij: "i < 2 ^ ?lg" "j < 64" for i j
  proof -
    have i: "i < 2 ^ 26" using ij(1) lg power_increasing [of ?lg 26 "2 :: nat"] by simp
    have col: "rc_col (rc_pack i j) = j" by (rule rc_pack_fields(2) [OF i ij(2)])
    have M0: "bit (?M0 ! i) j \<longleftrightarrow> j < ?w" using ij bit_default_row by simp
    consider "j < ?w" | "?w \<le> j" "j < ?w + 8" | "?w + 8 \<le> j" by linarith
    then show ?thesis
    proof cases
      case 1
      then have "coupon_ok ?lg (rc_pack i j)" using coupon_ok_pack [OF ij(1) lg, of j] w by simp
      then have "rc_pack i j \<in> surprises ?lg ?w C \<longleftrightarrow> rc_pack i j \<notin> C" using 1 col by (simp add: surprises_def)
      then show ?thesis using M2(3) [OF ij] M1(3) [OF ij] M0 1 by simp
    next
      case 2
      then have "rc_pack i j \<notin> surprises ?lg ?w C" using col by (simp add: surprises_def)
      moreover have "bit (?win ! i) (j - ?w) \<longleftrightarrow> rc_pack i j \<in> C"
        using win ij(1) 2 by (simp add: window_holds_def)
      ultimately show ?thesis using M2(3) [OF ij] M1(3) [OF ij] M0 2 by simp
    next
      case 3
      then have "rc_pack i j \<in> surprises ?lg ?w C \<longleftrightarrow> rc_pack i j \<in> C"
        using ok col by (auto simp: surprises_def)
      moreover have "\<not> bit (?win ! i) (j - ?w)" using 3 by (auto dest: bit_imp_le_length)
      ultimately show ?thesis using M2(3) [OF ij] M1(3) [OF ij] M0 3 by simp
    qed
  qed
  then have "represents M2 ?lg C" using M2(2) by (simp add: represents_def)
  moreover have "card C \<noteq> 0" "?win \<noteq> []" using fin len by auto
  ultimately show ?thesis
    using M1(1) M2(1) t(1) w num by (simp add: build_bit_matrix_def surprising_value_table_def Let_def)
qed

lemma cpc_holds_is_windowed: "cpc_holds s C \<Longrightarrow> \<not> 32 * card C < 3 * 2 ^ cs_lg_k s \<Longrightarrow> windowed s C"
proof -
  assume s: "cpc_holds s C" and many: "\<not> 32 * card C < 3 * 2 ^ cs_lg_k s"
  have "C \<noteq> {}" using many by auto
  moreover have "finite C" "4 \<le> cs_lg_k s" "cs_lg_k s \<le> 26" "\<forall>x \<in> C. coupon_ok (cs_lg_k s) x"
    "cs_num_coupons s = card C" "cs_window_offset s \<le> 56"
    using s unfolding cpc_holds_def by argo+
  ultimately show "windowed s C" using cpc_holds_windowed [OF s many] unfolding windowed_def by blast
qed

lemma sparse_matrix:
  assumes "cpc_holds s C" and sparse: "32 * card C < 3 * 2 ^ cs_lg_k s"
  shows "\<exists>M. build_bit_matrix s = Inr M \<and> represents M (cs_lg_k s) C"
proof -
  let ?lg = "cs_lg_k s" and ?w = "cs_window_offset s"
  let ?M0 = "replicate (2 ^ cs_lg_k s) (push_bit (cs_window_offset s) 1 - 1) :: u64 list"
  have lg: "?lg \<le> 26" and num: "cs_num_coupons s = card C" and w: "?w \<le> 56" and fin: "finite C"
    and ok: "\<And>x. x \<in> C \<Longrightarrow> coupon_ok ?lg x" and offset: "?w = determine_correct_offset ?lg (card C)"
    using assms(1) by (simp_all add: cpc_holds_def)
  have M0: "length ?M0 = 2 ^ ?lg" by simp
  have w0: "?w = 0" unfolding offset by (rule offset_due) (use sparse in linarith)
  have win: "cs_sliding_window s = []" and tab: "C \<noteq> {} \<longrightarrow> table_holds s C"
    using cpc_holds_sparse [OF assms] by simp_all
  show ?thesis
  proof (cases "C = {}")
    case True
    then show ?thesis using num w0 represents_empty by (auto simp: build_bit_matrix_def)
  next
    case False
    then obtain t where t: "cs_table s = Some t" "pair_holds t C" using tab by (auto simp: table_holds_def)
    obtain M' where M': "fold_res flip_cell ?M0 (pt_slots t) = Inr M'" "length M' = 2 ^ ?lg"
      "\<And>i j. i < 2 ^ ?lg \<Longrightarrow> j < 64 \<Longrightarrow> bit (M' ! i) j \<longleftrightarrow> (bit (?M0 ! i) j \<noteq> (rc_pack i j \<in> C))"
      using flip_table [OF M0 t(2) ok lg] by metis
    have "represents M' ?lg C" using M'(2,3) w0 by (simp add: represents_def)
    moreover have "card C \<noteq> 0" using False fin by simp
    ultimately show ?thesis
      using M'(1) t(1) w win num by (simp add: build_bit_matrix_def surprising_value_table_def Let_def)
  qed
qed

lemma build_bit_matrix_ok:
  "cpc_holds s C \<Longrightarrow> \<exists>M. build_bit_matrix s = Inr M \<and> represents M (cs_lg_k s) C"
  using sparse_matrix windowed_matrix cpc_holds_is_windowed by blast

section \<open>Splitting the matrix into window and surprises\<close>

lemma trailing_zeros_bits:
  assumes "w \<noteq> 0"
  shows "word_trailing_zeros w < 64" and "bit w (word_trailing_zeros w)"
proof -
  have "\<exists>i \<in> set [0..<64]. bit w i"
    using assms by (auto simp: bit_eq_iff dest: bit_imp_le_length)
  then have tw: "takeWhile (\<lambda>i. \<not> bit w i) [0..<64] \<noteq> [0..<64]" by (auto simp: takeWhile_eq_all_conv)
  then have lt: "length (takeWhile (\<lambda>i. \<not> bit w i) [0..<64]) < length [0..<64]"
    using length_takeWhile_le [of "\<lambda>i. \<not> bit w i" "[0..<64]"]
    by (metis le_neq_implies_less takeWhile_eq_take take_all order_refl)
  then show "word_trailing_zeros w < 64" by (simp add: word_trailing_zeros_def)
  show "bit w (word_trailing_zeros w)"
    using nth_length_takeWhile [OF lt] lt by (simp add: word_trailing_zeros_def)
qed

lemma trailing_zeros_below: "j < word_trailing_zeros w \<Longrightarrow> \<not> bit w j"
proof -
  assume j: "j < word_trailing_zeros w"
  have "word_trailing_zeros w \<le> 64"
    unfolding word_trailing_zeros_def using length_takeWhile_le [of _ "[0..<64 :: nat]"] by (metis length_upt diff_zero)
  moreover have "takeWhile (\<lambda>i. \<not> bit w i) [0..<64] ! j = [0..<64] ! j"
    using j unfolding word_trailing_zeros_def by (rule takeWhile_nth)
  moreover have "takeWhile (\<lambda>i. \<not> bit w i) [0..<64] ! j \<in> set (takeWhile (\<lambda>i. \<not> bit w i) [0..<64])"
    using j unfolding word_trailing_zeros_def by (rule nth_mem)
  ultimately show "\<not> bit w j" using j by (auto dest: set_takeWhileD)
qed

lemma first_column_bounds:
  "first_column w offset \<le> offset" "j < first_column w offset \<Longrightarrow> \<not> bit w j"
  using trailing_zeros_below [of j w] by (auto simp: first_column_def Let_def split: if_splits)

definition row_cells :: "nat \<Rightarrow> u64 \<Rightarrow> u32 set" where
  "row_cells i pattern = rc_pack i ` {j. bit pattern j}"

lemma finite_bits [simp]: "finite {j. bit (w :: u64) j}"
  by (rule finite_subset [of _ "{..<64}"]) (auto dest: bit_imp_le_length)

lemma row_cells_clear:
  assumes "bit pattern c"
  shows "row_cells i pattern = insert (rc_pack i c) (row_cells i (pattern XOR push_bit c 1))"
    and "{j. bit (pattern XOR push_bit c 1) j} = {j. bit pattern j} - {c}"
proof -
  have c: "c < 64" using assms by (auto dest: bit_imp_le_length)
  show "{j. bit (pattern XOR push_bit c 1) j} = {j. bit pattern j} - {c}"
    using c assms by (auto simp: bit_simps dest: bit_imp_le_length)
  then show "row_cells i pattern = insert (rc_pack i c) (row_cells i (pattern XOR push_bit c 1))"
    using assms by (auto simp: row_cells_def)
qed

lemma insert_surprises_ok:
  assumes "pair_holds t P" and "\<forall>x \<in> row_cells i pattern. valid_item (pt_num_valid_bits t) x" and "i < 2 ^ 26"
    and "row_cells i pattern \<inter> P = {}" and "4 * card (row_cells i pattern \<union> P) \<le> pair_cap (pt_num_valid_bits t)"
    and "card {j. bit pattern j} < fuel"
  shows "\<exists>t'. insert_surprises fuel i pattern t = Inr t' \<and> pair_holds t' (row_cells i pattern \<union> P) \<and>
    pt_num_valid_bits t' = pt_num_valid_bits t"
  using assms
proof (induction fuel arbitrary: pattern t P)
  case (Suc fuel)
  show ?case
  proof (cases "pattern = 0")
    case True
    then show ?thesis using Suc.prems(1) by (simp add: row_cells_def)
  next
    case False
    let ?c = "word_trailing_zeros pattern" and ?rest = "pattern XOR push_bit (word_trailing_zeros pattern) 1"
    let ?x = "rc_pack i (word_trailing_zeros pattern)"
    note tz = trailing_zeros_bits [OF False]
    note clear = row_cells_clear [OF tz(2)]
    have fin: "finite (row_cells i pattern \<union> P)"
      using pair_holds_finite [OF Suc.prems(1)] by (simp add: row_cells_def)
    have x: "?x \<in> row_cells i pattern" using clear(1) [of i] by simp
    have "insert ?x P \<subseteq> row_cells i pattern \<union> P" using x by blast
    then have "card (insert ?x P) \<le> card (row_cells i pattern \<union> P)" by (rule card_mono [OF fin])
    then have cap: "4 * card (insert ?x P) \<le> pair_cap (pt_num_valid_bits t)" using Suc.prems(5) by linarith
    have new: "?x \<notin> P" using x Suc.prems(4) by blast
    obtain t1 where t1: "maybe_insert t ?x = Inr (t1, True)" "pair_holds t1 (insert ?x P)"
      "pt_num_valid_bits t1 = pt_num_valid_bits t"
      using maybe_insert_cap [OF Suc.prems(1) _ cap] Suc.prems(2) x new by metis
    have fresh: "?x \<notin> row_cells i ?rest"
    proof
      assume "?x \<in> row_cells i ?rest"
      then obtain j where j: "bit ?rest j" "rc_pack i j = ?x" unfolding row_cells_def by fastforce
      have "j < 64" using bit_imp_le_length [OF j(1)] by simp
      moreover have "j \<noteq> ?c" using j(1) clear(2) by blast
      ultimately show False using j(2) rc_pack_fields(2) [OF Suc.prems(3)] tz(1) by metis
    qed
    have union: "row_cells i ?rest \<union> insert ?x P = row_cells i pattern \<union> P" using clear(1) by blast
    have rest: "row_cells i ?rest \<subseteq> row_cells i pattern" using clear(1) [of i] by blast
    have valid: "\<forall>y \<in> row_cells i ?rest. valid_item (pt_num_valid_bits t1) y"
      unfolding t1(3) using Suc.prems(2) rest by blast
    have disj: "row_cells i ?rest \<inter> insert ?x P = {}" using fresh Suc.prems(4) rest by blast
    have room: "4 * card (row_cells i ?rest \<union> insert ?x P) \<le> pair_cap (pt_num_valid_bits t1)"
      unfolding union t1(3) by (rule Suc.prems(5))
    have "card {j. bit ?rest j} < fuel"
    proof -
      have "Suc (card ({j. bit pattern j} - {?c})) = card {j. bit pattern j}"
        by (rule card_Suc_Diff1) (simp_all add: tz(2))
      then show ?thesis unfolding clear(2) using Suc.prems(6) by linarith
    qed
    note ih = Suc.IH [OF t1(2) valid Suc.prems(3) disj room this]
    have "insert_surprises (Suc fuel) i pattern t = insert_surprises fuel i ?rest t1"
      using False t1(1) by (simp add: Let_def)
    then show ?thesis using ih unfolding union t1(3) by simp
  qed
qed simp

lemma bit_pattern:
  "bit ((m AND (push_bit w 0xFF XOR - 1)) XOR (push_bit w 1 - 1) :: u64) j \<longleftrightarrow>
     j < 64 \<and> (j < w \<and> \<not> bit m j \<or> w + 8 \<le> j \<and> bit m j)"
  by (simp only: bit_xor_iff bit_and_iff bit_push_bit_iff bit_default_row bit_minus_1_iff bit_255 possible_bit_word)
    (auto dest: bit_imp_le_length)

lemma row_cells_surprises:
  assumes M: "represents M lg_k C" and i: "i < 2 ^ lg_k" and lg: "lg_k \<le> 26" and w: "w \<le> 56"
    and ok: "\<forall>x \<in> C. coupon_ok lg_k x"
  shows "row_cells i ((M ! i AND (push_bit w 0xFF XOR - 1)) XOR (push_bit w 1 - 1)) =
    {x \<in> surprises lg_k w C. rc_row x = i}"
proof -
  have i26: "i < 2 ^ 26" using i lg power_increasing [of lg_k 26 "2 :: nat"] by simp
  have "rc_pack i j \<in> surprises lg_k w C \<longleftrightarrow> j < w \<and> \<not> bit (M ! i) j \<or> w + 8 \<le> j \<and> bit (M ! i) j" if "j < 64" for j
    using M i that ok rc_pack_fields(2) [OF i26 that] coupon_ok_pack [OF i lg, of j] w
    by (auto simp: surprises_def represents_def)
  then have *: "bit ((M ! i AND (push_bit w 0xFF XOR - 1)) XOR (push_bit w 1 - 1)) j \<longleftrightarrow>
      j < 64 \<and> rc_pack i j \<in> surprises lg_k w C" for j
    unfolding bit_pattern by blast
  show ?thesis
  proof (intro set_eqI iffI)
    fix x assume "x \<in> row_cells i ((M ! i AND (push_bit w 0xFF XOR - 1)) XOR (push_bit w 1 - 1))"
    then obtain j where "j < 64" "rc_pack i j \<in> surprises lg_k w C" "x = rc_pack i j"
      unfolding row_cells_def * by blast
    then show "x \<in> {x \<in> surprises lg_k w C. rc_row x = i}" using rc_pack_fields(1) [OF i26] by simp
  next
    fix x assume "x \<in> {x \<in> surprises lg_k w C. rc_row x = i}"
    then have "x = rc_pack i (rc_col x)" "rc_pack i (rc_col x) \<in> surprises lg_k w C" by auto
    then show "x \<in> row_cells i ((M ! i AND (push_bit w 0xFF XOR - 1)) XOR (push_bit w 1 - 1))"
      unfolding row_cells_def * by auto
  qed
qed


lemma card_bits_64: "card {j. bit (w :: u64) j} < 65"
proof -
  have "{j. bit w j} \<subseteq> {..<64}" by (auto dest: bit_imp_le_length)
  then have "card {j. bit w j} \<le> card {..<64 :: nat}" by (rule card_mono [rotated]) simp
  then show ?thesis by simp
qed

lemma split_rows_ok:
  assumes M: "represents M lg_k C" and lg: "lg_k \<le> 26" and w: "w \<le> 56" and ok: "\<forall>x \<in> C. coupon_ok lg_k x"
    and len: "length window = 2 ^ lg_k" and t: "pair_holds t {}" "pt_num_valid_bits t = 6 + lg_k"
    and room: "4 * card (surprises lg_k w C) \<le> pair_cap (6 + lg_k)" and n: "n \<le> 2 ^ lg_k"
  shows "\<exists>window' t' ored. fold_res (split_row w M) (window, t, 0) [0..<n] = Inr (window', t', ored) \<and>
    length window' = 2 ^ lg_k \<and> (\<forall>i < n. \<forall>j < 8. bit (window' ! i) j \<longleftrightarrow> rc_pack i (w + j) \<in> C) \<and>
    pair_holds t' {x \<in> surprises lg_k w C. rc_row x < n} \<and> pt_num_valid_bits t' = 6 + lg_k \<and>
    (\<forall>x \<in> surprises lg_k w C. rc_row x < n \<longrightarrow> bit ored (rc_col x))"
  using n
proof (induction n)
  case 0
  then show ?case using len t by auto
next
  case (Suc n)
  let ?S = "surprises lg_k w C"
  obtain win t1 ored where ih: "fold_res (split_row w M) (window, t, 0) [0..<n] = Inr (win, t1, ored)"
    "length win = 2 ^ lg_k" "\<And>i j. i < n \<Longrightarrow> j < 8 \<Longrightarrow> bit (win ! i) j \<longleftrightarrow> rc_pack i (w + j) \<in> C"
    "pair_holds t1 {x \<in> ?S. rc_row x < n}" "pt_num_valid_bits t1 = 6 + lg_k"
    "\<And>x. x \<in> ?S \<Longrightarrow> rc_row x < n \<Longrightarrow> bit ored (rc_col x)"
    using Suc.IH Suc.prems by fastforce
  have n: "n < 2 ^ lg_k" "n < 2 ^ 26"
    using Suc.prems lg power_increasing [of lg_k 26 "2 :: nat"] by simp_all
  let ?m = "M ! n"
  define p where "p = (?m AND (push_bit w 0xFF XOR - 1)) XOR (push_bit w 1 - 1)"
  have cells: "row_cells n p = {x \<in> ?S. rc_row x = n}"
    unfolding p_def by (rule row_cells_surprises [OF M n(1) lg w ok])
  have union: "row_cells n p \<union> {x \<in> ?S. rc_row x < n} = {x \<in> ?S. rc_row x < Suc n}"
    unfolding cells by auto
  have sub: "{x \<in> ?S. rc_row x < Suc n} \<subseteq> ?S" by blast
  have "\<exists>t'. insert_surprises 65 n p t1 = Inr t' \<and> pair_holds t' (row_cells n p \<union> {x \<in> ?S. rc_row x < n}) \<and>
      pt_num_valid_bits t' = pt_num_valid_bits t1"
  proof (rule insert_surprises_ok [OF ih(4) _ n(2) _ _ card_bits_64])
    show "\<forall>x \<in> row_cells n p. valid_item (pt_num_valid_bits t1) x"
      unfolding cells ih(5) using surprises_ok by blast
    show "row_cells n p \<inter> {x \<in> ?S. rc_row x < n} = {}" unfolding cells by auto
    show "4 * card (row_cells n p \<union> {x \<in> ?S. rc_row x < n}) \<le> pair_cap (pt_num_valid_bits t1)"
      unfolding union ih(5) using card_mono [OF finite_surprises sub] room by linarith
  qed
  then obtain t' where t': "insert_surprises 65 n p t1 = Inr t'" "pair_holds t' {x \<in> ?S. rc_row x < Suc n}"
    "pt_num_valid_bits t' = 6 + lg_k" unfolding union ih(5) by blast
  let ?win = "win[n := ucast (drop_bit w ?m AND 0xFF)]"
  have lenM: "length M = 2 ^ lg_k" using M by (simp add: represents_def)
  have "fold_res (split_row w M) (window, t, 0) [0..<Suc n] = Inr (?win, t', ored OR p)"
    using ih(1,2) n(1) t'(1) lenM by (simp add: fold_res_append split_row_def Let_def p_def)
  moreover have "bit (?win ! i) j \<longleftrightarrow> rc_pack i (w + j) \<in> C" if "i < Suc n" "j < 8" for i j
  proof (cases "i = n")
    case True
    have "?win ! i = ucast (drop_bit w ?m AND 0xFF)" using True n(1) ih(2) by simp
    then have "bit (?win ! i) j \<longleftrightarrow> bit ?m (w + j)"
      using that(2) by (simp only: bit_ucast_iff bit_and_iff bit_drop_bit_eq bit_255 possible_bit_word) simp
    then show ?thesis using M n(1) True that(2) w by (simp add: represents_def)
  next
    case False
    then show ?thesis using ih(3) that by simp
  qed
  moreover have "bit (ored OR p) (rc_col x)" if "x \<in> ?S" "rc_row x < Suc n" for x
  proof (cases "rc_row x = n")
    case True
    then have "x \<in> row_cells n p" unfolding cells using that(1) by blast
    then obtain j where "x = rc_pack n j" "bit p j" by (auto simp: row_cells_def)
    moreover from this have "rc_col x = j" using rc_pack_fields(2) [OF n(2)] by (auto dest: bit_imp_le_length)
    ultimately show ?thesis by (simp add: bit_or_iff)
  next
    case False
    then show ?thesis using ih(6) that by (simp add: bit_or_iff)
  qed
  moreover have "length ?win = 2 ^ lg_k" using ih(2) by simp
  ultimately show ?case using t'(2,3) by blast
qed

text \<open>All rows together\<close>

lemma split_all_rows:
  assumes "represents M lg_k C" and "lg_k \<le> 26" and "w \<le> 56" and "\<forall>x \<in> C. coupon_ok lg_k x"
    and "length window = 2 ^ lg_k" and "pair_holds t {}" "pt_num_valid_bits t = 6 + lg_k"
    and "4 * card (surprises lg_k w C) \<le> pair_cap (6 + lg_k)"
  obtains window' t' ored where
    "fold_res (split_row w M) (window, t, 0) [0..<2 ^ lg_k] = Inr (window', t', ored)"
    and "window_holds window' lg_k w C" and "pair_holds t' (surprises lg_k w C)"
    and "pt_num_valid_bits t' = 6 + lg_k"
    and "\<And>x. coupon_ok lg_k x \<Longrightarrow> rc_col x < first_column ored w \<Longrightarrow> x \<in> C"
proof -
  let ?S = "surprises lg_k w C"
  have all: "rc_row x < 2 ^ lg_k" if "x \<in> ?S" for x
    using surprises_ok [OF that] by (simp add: coupon_ok_row)
  then have eq: "{x \<in> ?S. rc_row x < 2 ^ lg_k} = ?S" by blast
  obtain window' t' ored where r:
    "fold_res (split_row w M) (window, t, 0) [0..<2 ^ lg_k] = Inr (window', t', ored)"
    "length window' = 2 ^ lg_k" "\<forall>i < 2 ^ lg_k. \<forall>j < 8. bit (window' ! i) j \<longleftrightarrow> rc_pack i (w + j) \<in> C"
    "pair_holds t' ?S" "pt_num_valid_bits t' = 6 + lg_k"
    "\<forall>x \<in> ?S. rc_row x < 2 ^ lg_k \<longrightarrow> bit ored (rc_col x)"
    using split_rows_ok [OF assms order.refl] unfolding eq by (elim exE conjE)
  have "x \<in> C" if x: "coupon_ok lg_k x" "rc_col x < first_column ored w" for x
  proof (rule ccontr)
    assume "x \<notin> C"
    moreover have "rc_col x < w" using x(2) first_column_bounds(1) [of ored w] by linarith
    ultimately have "x \<in> ?S" using x(1) by (simp add: surprises_def)
    then have "bit ored (rc_col x)" using r(6) all by blast
    then show False using first_column_bounds(2) [OF x(2)] by simp
  qed
  then show ?thesis using r by (intro that [of window' t' ored]) (simp_all add: window_holds_def)
qed


section \<open>The operations keep the invariant\<close>

text \<open>The fields that an update of the table or the window leaves alone\<close>

definition same_frame :: "cpc_sketch \<Rightarrow> cpc_sketch \<Rightarrow> bool" where
  "same_frame s s' \<longleftrightarrow>
     cs_lg_k s' = cs_lg_k s \<and> cs_seed s' = cs_seed s \<and> cs_seed_hash s' = cs_seed_hash s \<and>
     cs_merge_flag s' = cs_merge_flag s"

definition same_counts :: "cpc_sketch \<Rightarrow> cpc_sketch \<Rightarrow> bool" where
  "same_counts s s' \<longleftrightarrow> same_frame s s' \<and>
     cs_first_interesting_column s' = cs_first_interesting_column s \<and>
     cs_num_coupons s' = cs_num_coupons s \<and> cs_window_offset s' = cs_window_offset s"

lemma same_frame_simps [simp]: "same_frame s s" "same_counts s s"
  by (simp_all add: same_frame_def same_counts_def)

lemma refresh_kxp_frame [simp]:
  "same_counts s (refresh_kxp s M)" "cs_table (refresh_kxp s M) = cs_table s"
  "cs_sliding_window (refresh_kxp s M) = cs_sliding_window s"
  by (simp_all add: refresh_kxp_def same_counts_def same_frame_def Let_def)

lemma move_window_ok:
  assumes s: "windowed s C" and off: "determine_correct_offset (cs_lg_k s) (card C) = cs_window_offset s + 1"
    and max: "cs_window_offset s + 1 \<le> 56" and many: "3 * 2 ^ cs_lg_k s \<le> 32 * card C"
    and room: "4 * card (surprises (cs_lg_k s) (cs_window_offset s + 1) C) \<le> pair_cap (6 + cs_lg_k s)"
  obtains s' where "move_window s = Inr s'" and "cpc_holds s' C" and "same_frame s s'"
    and "cs_window_offset s' = cs_window_offset s + 1"
proof -
  let ?lg = "cs_lg_k s" and ?w = "cs_window_offset s + 1"
  have lg: "4 \<le> ?lg" "?lg \<le> 26" and num: "cs_num_coupons s = card C" and fin: "finite C"
    and ok: "\<forall>x \<in> C. coupon_ok ?lg x" and win: "length (cs_sliding_window s) = 2 ^ ?lg"
    using s by (simp_all add: windowed_def window_holds_def)
  obtain t where t: "cs_table s = Some t" "pt_num_valid_bits t = 6 + ?lg" "pair_holds (pair_clear t) {}"
    using s pair_clear_holds by (auto simp: windowed_def table_holds_def)
  have nvb: "pt_num_valid_bits (pair_clear t) = 6 + ?lg" using t(2) by (simp add: pair_clear_def)
  obtain M where M: "build_bit_matrix s = Inr M" "represents M ?lg C" using windowed_matrix [OF s] by blast
  let ?s1 = "if ?w AND 7 = 0 then refresh_kxp s M else s"
  have s1: "same_counts s ?s1" "cs_table ?s1 = Some t" "cs_sliding_window ?s1 = cs_sliding_window s"
    using t(1) by simp_all
  obtain window' t' ored where r:
    "fold_res (split_row ?w M) (cs_sliding_window s, pair_clear t, 0) [0..<2 ^ ?lg] = Inr (window', t', ored)"
    "window_holds window' ?lg ?w C" "pair_holds t' (surprises ?lg ?w C)" "pt_num_valid_bits t' = 6 + ?lg"
    "\<And>x. coupon_ok ?lg x \<Longrightarrow> rc_col x < first_column ored ?w \<Longrightarrow> x \<in> C"
    using split_all_rows [OF M(2) lg(2) max ok win t(3) nvb room] by metis
  let ?s' = "?s1\<lparr>cs_sliding_window := window', cs_table := Some t', cs_window_offset := ?w,
      cs_first_interesting_column := first_column ored ?w\<rparr>"
  have "move_window s = Inr ?s'"
    using max off num M(1) r(1) t(1)
    by (simp add: move_window_def Let_def surprising_value_table_def)
  moreover have "cpc_holds ?s' C"
    using lg num fin ok off max many r(2-5) s1(1) first_column_bounds(1) [of ored ?w]
    unfolding cpc_holds_def by (simp add: same_counts_def same_frame_def table_holds_def not_less)
  moreover have "same_frame s ?s'" using s1(1) by (simp add: same_counts_def same_frame_def)
  ultimately show ?thesis using that by simp
qed


lemma update_hip_frame [simp]:
  "same_counts s (cpc_update_hip s x)" "cs_table (cpc_update_hip s x) = cs_table s"
  "cs_sliding_window (cpc_update_hip s x) = cs_sliding_window s"
  by (simp_all add: cpc_update_hip_def same_counts_def same_frame_def Let_def)

lemma surprising_insert_ok:
  assumes "table_holds s P" and "coupon_ok (cs_lg_k s) x" and "4 * card (insert x P) \<le> pair_cap (6 + cs_lg_k s)"
  obtains t' where "surprising_insert s x = Inr (s\<lparr>cs_table := Some t'\<rparr>, x \<notin> P)"
    and "table_holds (s\<lparr>cs_table := Some t'\<rparr>) (insert x P)"
proof -
  obtain t where t: "cs_table s = Some t" "pt_num_valid_bits t = 6 + cs_lg_k s" "pair_holds t P"
    using assms(1) by (auto simp: table_holds_def)
  obtain t' where t': "maybe_insert t x = Inr (t', x \<notin> P)" "pair_holds t' (insert x P)"
    "pt_num_valid_bits t' = pt_num_valid_bits t"
    using maybe_insert_cap [OF t(3)] assms(2,3) unfolding t(2) by metis
  then show ?thesis
    using t by (intro that [of t']) (simp_all add: surprising_insert_def surprising_value_table_def table_holds_def)
qed

lemma surprising_delete_ok:
  assumes "table_holds s P" and "coupon_ok (cs_lg_k s) x"
  obtains t' where "surprising_delete s x = Inr (s\<lparr>cs_table := Some t'\<rparr>, x \<in> P)"
    and "table_holds (s\<lparr>cs_table := Some t'\<rparr>) (P - {x})"
proof -
  obtain t where t: "cs_table s = Some t" "pt_num_valid_bits t = 6 + cs_lg_k s" "pair_holds t P"
    using assms(1) by (auto simp: table_holds_def)
  obtain t' where t': "maybe_delete t x = Inr (t', x \<in> P)" "pair_holds t' (P - {x})"
    "pt_num_valid_bits t' = pt_num_valid_bits t"
    using maybe_delete_ok [OF t(3)] assms(2) unfolding t(2) by metis
  then show ?thesis
    using t by (intro that [of t']) (simp_all add: surprising_delete_def surprising_value_table_def table_holds_def)
qed

text \<open>How the surprises change with a coupon, by its zone\<close>

lemma surprises_insert:
  assumes "coupon_ok lg_k x"
  shows "rc_col x < w \<Longrightarrow> surprises lg_k w (insert x C) = surprises lg_k w C - {x} \<and>
      (x \<in> surprises lg_k w C \<longleftrightarrow> x \<notin> C)"
    and "w \<le> rc_col x \<Longrightarrow> rc_col x < w + 8 \<Longrightarrow> surprises lg_k w (insert x C) = surprises lg_k w C"
    and "w + 8 \<le> rc_col x \<Longrightarrow> surprises lg_k w (insert x C) = insert x (surprises lg_k w C) \<and>
      (x \<in> surprises lg_k w C \<longleftrightarrow> x \<in> C)"
  using assms by (auto simp: surprises_def)

lemma window_insert:
  assumes win: "window_holds window lg_k w C" and ok: "coupon_ok lg_k x"
    and col: "w \<le> rc_col x" "rc_col x < w + 8" and lg: "lg_k \<le> 26" and w: "w \<le> 56"
  shows "rc_row x < length window"
    and "window ! rc_row x \<noteq> window ! rc_row x OR push_bit (rc_col x - w) 1 \<longleftrightarrow> x \<notin> C"
    and "window_holds (window[rc_row x := window ! rc_row x OR push_bit (rc_col x - w) 1]) lg_k w (insert x C)"
proof -
  let ?i = "rc_row x" and ?c = "rc_col x - w"
  have len: "length window = 2 ^ lg_k" and i: "?i < 2 ^ lg_k"
    using win ok by (simp_all add: window_holds_def coupon_ok_row)
  then show "rc_row x < length window" by simp
  have c: "?c < 8" "w + ?c = rc_col x" using col by simp_all
  have bit_x: "bit (window ! ?i) ?c \<longleftrightarrow> x \<in> C"
    using win i c unfolding window_holds_def by (metis rc_pack_row_col)
  have new: "bit (window ! ?i OR push_bit ?c 1) j \<longleftrightarrow> bit (window ! ?i) j \<or> j = ?c" if "j < 8" for j
    using that by (auto simp: bit_or_iff bit_exp_iff)
  have "window ! ?i = window ! ?i OR push_bit ?c 1 \<longleftrightarrow> bit (window ! ?i) ?c"
  proof
    assume "window ! ?i = window ! ?i OR push_bit ?c 1"
    then show "bit (window ! ?i) ?c" using new [OF c(1)] by metis
  next
    assume "bit (window ! ?i) ?c"
    then show "window ! ?i = window ! ?i OR push_bit ?c 1"
      by (intro bit_word_eqI) (use new in auto)
  qed
  then show "window ! ?i \<noteq> window ! ?i OR push_bit ?c 1 \<longleftrightarrow> x \<notin> C" using bit_x by simp
  show "window_holds (window[?i := window ! ?i OR push_bit ?c 1]) lg_k w (insert x C)"
    unfolding window_holds_def
  proof (intro conjI allI impI)
    fix i' j :: nat assume ij: "i' < 2 ^ lg_k" "j < 8"
    have old: "bit (window ! i') j \<longleftrightarrow> rc_pack i' (w + j) \<in> C" using win ij by (simp add: window_holds_def)
    have i26: "i' < 2 ^ 26" using ij(1) lg power_increasing [of lg_k 26 "2 :: nat"] by simp
    have eq: "rc_pack i' (w + j) = x \<longleftrightarrow> ?i = i' \<and> rc_col x = w + j"
      by (rule rc_pack_eq_iff) (use i26 ij(2) w in simp_all)
    show "bit (window[?i := window ! ?i OR push_bit ?c 1] ! i') j \<longleftrightarrow> rc_pack i' (w + j) \<in> insert x C"
    proof (cases "i' = ?i \<and> j = ?c")
      case True
      then have "rc_pack i' (w + j) = x" using c(2) by simp
      then show ?thesis using True new [OF ij(2)] i len by simp
    next
      case False
      then have "bit (window[?i := window ! ?i OR push_bit ?c 1] ! i') j \<longleftrightarrow> bit (window ! i') j"
        using new [OF ij(2)] len i by (cases "i' = ?i") simp_all
      moreover have "rc_pack i' (w + j) \<noteq> x" using False eq by auto
      ultimately show ?thesis using old by auto
    qed
  qed (simp add: len)
qed


lemma update_zone_ok:
  assumes s: "windowed s C" and x: "coupon_ok (cs_lg_k s) x"
    and room: "4 * card (surprises (cs_lg_k s) (cs_window_offset s) (insert x C)) \<le> pair_cap (6 + cs_lg_k s)"
  obtains s' where "update_zone s x = Inr (s', x \<notin> C)" and "same_counts s s'"
    and "window_holds (cs_sliding_window s') (cs_lg_k s) (cs_window_offset s) (insert x C)"
    and "table_holds s' (surprises (cs_lg_k s) (cs_window_offset s) (insert x C))"
proof -
  let ?lg = "cs_lg_k s" and ?w = "cs_window_offset s" and ?win = "cs_sliding_window s"
  have win: "window_holds ?win ?lg ?w C" and tab: "table_holds s (surprises ?lg ?w C)"
    and lg: "?lg \<le> 26" and w: "?w \<le> 56"
    using s by (simp_all add: windowed_def)
  note sur = surprises_insert [OF x, where C = C and w = ?w]
  have outside: "window_holds ?win ?lg ?w (insert x C)" if "\<not> (?w \<le> rc_col x \<and> rc_col x < ?w + 8)"
    unfolding window_holds_def
  proof (intro conjI allI impI)
    fix i j :: nat assume ij: "i < 2 ^ ?lg" "j < 8"
    have "i < 2 ^ 26" using ij(1) lg power_increasing [of ?lg 26 "2 :: nat"] by simp
    then have "rc_col (rc_pack i (?w + j)) = ?w + j" using ij(2) w by (intro rc_pack_fields(2)) simp_all
    then have "rc_pack i (?w + j) \<noteq> x" using that ij(2) by auto
    then show "bit (?win ! i) j \<longleftrightarrow> rc_pack i (?w + j) \<in> insert x C"
      using win ij by (simp add: window_holds_def)
  qed (use win in \<open>simp add: window_holds_def\<close>)
  consider (early) "rc_col x < ?w" | (inside) "?w \<le> rc_col x" "rc_col x < ?w + 8" | (late) "?w + 8 \<le> rc_col x"
    by linarith
  then show ?thesis
  proof cases
    case early
    obtain t' where t': "surprising_delete s x = Inr (s\<lparr>cs_table := Some t'\<rparr>, x \<in> surprises ?lg ?w C)"
      "table_holds (s\<lparr>cs_table := Some t'\<rparr>) (surprises ?lg ?w C - {x})"
      by (rule surprising_delete_ok [OF tab x])
    then show ?thesis
      using sur(1) [OF early] early outside
      by (intro that [of "s\<lparr>cs_table := Some t'\<rparr>"])
        (simp_all add: update_zone_def Let_def same_counts_def same_frame_def)
  next
    case inside
    note W = window_insert [OF win x inside lg w]
    let ?new = "?win ! rc_row x OR push_bit (rc_col x - ?w) 1"
    have keep: "s\<lparr>cs_sliding_window := ?win[rc_row x := ?win ! rc_row x]\<rparr> = s" by simp
    show ?thesis
    proof (cases "x \<in> C")
      case True
      then have "?win ! rc_row x = ?new" using W(2) by blast
      then show ?thesis
        using True inside W(1) tab win insert_absorb [OF True]
        by (intro that [of s]) (simp_all add: update_zone_def Let_def)
    next
      case False
      then have "?win ! rc_row x \<noteq> ?new" using W(2) by blast
      then show ?thesis
        using False inside W(1,3) tab sur(2) [OF inside]
        by (intro that [of "s\<lparr>cs_sliding_window := ?win[rc_row x := ?new]\<rparr>"])
          (simp_all add: update_zone_def Let_def same_counts_def same_frame_def table_holds_def)
    qed
  next
    case late
    have room': "4 * card (insert x (surprises ?lg ?w C)) \<le> pair_cap (6 + ?lg)"
      using room sur(3) [OF late] by simp
    obtain t' where t': "surprising_insert s x = Inr (s\<lparr>cs_table := Some t'\<rparr>, x \<notin> surprises ?lg ?w C)"
      "table_holds (s\<lparr>cs_table := Some t'\<rparr>) (insert x (surprises ?lg ?w C))"
      by (rule surprising_insert_ok [OF tab x room'])
    then show ?thesis
      using sur(3) [OF late] late outside
      by (intro that [of "s\<lparr>cs_table := Some t'\<rparr>"])
        (simp_all add: update_zone_def Let_def same_counts_def same_frame_def)
  qed
qed

text \<open>
  What an update with a coupon needs: the table has room for the surprising values, before and after the window
  moves, and the offset after the update is at most 56, the largest one for which the window of eight columns
  lies in the 64. The offset condition is the debug assertion of \<open>update_windowed\<close>, \<open>move_window\<close> and
  \<open>build_bit_matrix\<close>: beyond it a debug build panics, and so does the model.
\<close>

definition fits :: "nat \<Rightarrow> u32 set \<Rightarrow> u32 \<Rightarrow> bool" where
  "fits lg_k C x \<longleftrightarrow>
     (let C' = insert x C;
          w = determine_correct_offset lg_k (card C);
          w' = determine_correct_offset lg_k (card C')
      in w' \<le> 56 \<and> 4 * card (surprises lg_k w C') \<le> pair_cap (6 + lg_k) \<and>
         4 * card (surprises lg_k w' C') \<le> pair_cap (6 + lg_k))"

lemma coupons_bound:
  assumes "\<forall>x \<in> C. coupon_ok lg_k x"
  shows "card C \<le> 64 * 2 ^ lg_k"
proof -
  have "unat ` C \<subseteq> {..<64 * 2 ^ lg_k}" using assms by (auto simp: valid_item_def power_add)
  then have "card (unat ` C) \<le> card {..<64 * 2 ^ lg_k :: nat}" by (rule card_mono [rotated]) simp
  moreover have "card (unat ` C) = card C" by (rule card_image) (simp add: inj_on_def word_unat_eq_iff)
  ultimately show ?thesis by simp
qed

lemma offset_bounds:
  assumes "C \<le> 64 * 2 ^ lg_k"
  shows "8 * C < (27 + 8 * determine_correct_offset lg_k C) * 2 ^ lg_k"
    and "determine_correct_offset lg_k C = 0 \<or> (19 + 8 * determine_correct_offset lg_k C) * 2 ^ lg_k \<le> 8 * C"
proof -
  have "\<exists>w. (w = 0 \<or> (19 + 8 * w) * 2 ^ lg_k \<le> 8 * C) \<and> 8 * C < (27 + 8 * w) * 2 ^ lg_k \<and> w < 256"
  proof (cases "8 * C < 27 * 2 ^ lg_k")
    case True
    then show ?thesis by (intro exI [of _ 0]) simp
  next
    case False
    define w where "w = (8 * C - 19 * 2 ^ lg_k) div (8 * 2 ^ lg_k)"
    have le: "19 * 2 ^ lg_k \<le> 8 * C" using False by simp
    have "w * (8 * 2 ^ lg_k) \<le> 8 * C - 19 * 2 ^ lg_k" unfolding w_def by (rule div_times_less_eq_dividend)
    moreover have "8 * C - 19 * 2 ^ lg_k < w * (8 * 2 ^ lg_k) + 8 * 2 ^ lg_k"
      unfolding w_def by (subst add.commute, rule dividend_less_div_times) simp
    ultimately have "(19 + 8 * w) * 2 ^ lg_k \<le> 8 * C" "8 * C < (27 + 8 * w) * 2 ^ lg_k"
      using le by (simp_all add: algebra_simps)
    moreover from this(1) have "w * (8 * 2 ^ lg_k) \<le> 64 * (8 * 2 ^ lg_k)"
      using assms unfolding add_mult_distrib by linarith
    then have "w \<le> 64" by (rule mult_right_le_imp_le) simp
    then have "w < 256" by simp
    ultimately show ?thesis by blast
  qed
  then obtain w where w: "w = 0 \<or> (19 + 8 * w) * 2 ^ lg_k \<le> 8 * C" "8 * C < (27 + 8 * w) * 2 ^ lg_k" "w < 256"
    by blast
  then have "determine_correct_offset lg_k C = w"
    using offset_due(1) [of C lg_k] offset_due(2) [of w lg_k C] by auto
  then show "8 * C < (27 + 8 * determine_correct_offset lg_k C) * 2 ^ lg_k"
    and "determine_correct_offset lg_k C = 0 \<or> (19 + 8 * determine_correct_offset lg_k C) * 2 ^ lg_k \<le> 8 * C"
    using w by simp_all
qed


lemma update_windowed_ok:
  assumes s: "cpc_holds s C" and many: "\<not> 32 * card C < 3 * 2 ^ cs_lg_k s"
    and x: "coupon_ok (cs_lg_k s) x" and fits: "fits (cs_lg_k s) C x"
  obtains s' where "update_windowed s x = Inr s'" and "cpc_holds s' (insert x C)" and "same_frame s s'"
proof -
  let ?lg = "cs_lg_k s" and ?w = "cs_window_offset s" and ?C' = "insert x C" and ?k = "(2 :: nat) ^ cs_lg_k s"
  let ?due = "determine_correct_offset (cs_lg_k s) (card (insert x C))"
  have win: "windowed s C" by (rule cpc_holds_is_windowed [OF s many])
  have lg: "4 \<le> ?lg" "?lg \<le> 26" and fin: "finite C" and num: "cs_num_coupons s = card C"
    and ok: "\<forall>x \<in> C. coupon_ok ?lg x" and off: "?w = determine_correct_offset ?lg (card C)" and w: "?w \<le> 56"
    and fic: "cs_first_interesting_column s \<le> ?w"
      "\<forall>x. coupon_ok ?lg x \<longrightarrow> rc_col x < cs_first_interesting_column s \<longrightarrow> x \<in> C"
    using s unfolding cpc_holds_def by argo+
  have room: "4 * card (surprises ?lg ?w ?C') \<le> pair_cap (6 + ?lg)"
    "4 * card (surprises ?lg ?due ?C') \<le> pair_cap (6 + ?lg)" "?due \<le> 56"
    using fits unfolding fits_def Let_def off by blast+
  have ok': "\<forall>x \<in> ?C'. coupon_ok ?lg x" using ok x by simp
  note bounds = offset_bounds [OF coupons_bound [OF ok], folded off]
  obtain s1 where s1: "update_zone s x = Inr (s1, x \<notin> C)" "same_counts s s1"
    "window_holds (cs_sliding_window s1) ?lg ?w ?C'" "table_holds s1 (surprises ?lg ?w ?C')"
    by (rule update_zone_ok [OF win x room(1)])
  have frame1: "cs_lg_k s1 = ?lg" "cs_num_coupons s1 = card C" "cs_window_offset s1 = ?w"
    "cs_first_interesting_column s1 = cs_first_interesting_column s"
    using s1(2) num by (simp_all add: same_counts_def same_frame_def)
  have pre: "?w \<le> 56" "3 * ?k \<le> 32 * card C" "8 * card C < (27 + 8 * ?w) * ?k"
    using w many bounds(1) by simp_all
  have run: "update_windowed s x =
      (if x \<notin> C then
         let s2 = cpc_update_hip (s1\<lparr>cs_num_coupons := card C + 1\<rparr>) x
         in if (27 + 8 * ?w) * ?k \<le> 8 * (card C + 1) then
              bind_res (move_window s2) (\<lambda>s.
                if \<not> (1 \<le> cs_window_offset s \<and> cs_window_offset s \<le> 56)
                then Inl (Panic ''assertion failed: window_offset in 1..=56'')
                else if \<not> 8 * (card C + 1) < (27 + 8 * cs_window_offset s) * ?k
                then Inl (Panic ''assertion failed: C after the move'')
                else Inr s)
            else Inr s2
       else Inr s1)"
  proof -
    have "cs_num_coupons (cpc_update_hip (s1\<lparr>cs_num_coupons := card C + 1\<rparr>) x) = card C + 1"
      by (simp add: cpc_update_hip_def Let_def)
    then show ?thesis
      using pre s1(1) frame1 unfolding update_windowed_def num Let_def by (simp add: not_le cong del: if_weak_cong)
  qed
  show ?thesis
  proof (cases "x \<in> C")
    case True
    have "cpc_holds s1 ?C'" unfolding cpc_holds_def
      using s1 frame1 lg fin ok' off w fic many insert_absorb [OF True] by simp
    then show ?thesis using that run True s1(2) by (simp add: same_counts_def)
  next
    case False
    let ?s2 = "cpc_update_hip (s1\<lparr>cs_num_coupons := card C + 1\<rparr>) x"
    have card: "card ?C' = card C + 1" using False fin by simp
    have s2: "cs_lg_k ?s2 = ?lg" "cs_num_coupons ?s2 = card ?C'" "cs_window_offset ?s2 = ?w"
      "cs_first_interesting_column ?s2 = cs_first_interesting_column s" "same_frame s ?s2"
      "cs_sliding_window ?s2 = cs_sliding_window s1" "cs_table ?s2 = cs_table s1"
      using frame1 s1(2) card by (simp_all add: cpc_update_hip_def Let_def same_counts_def same_frame_def)
    have tab2: "table_holds ?s2 (surprises ?lg ?w ?C')"
      using s1(4) s2(1,7) frame1(1) by (simp add: table_holds_def)
    show ?thesis
    proof (cases "(27 + 8 * ?w) * ?k \<le> 8 * (card C + 1)")
      case True
      have "(19 + 8 * (?w + 1)) * ?k \<le> 8 * card ?C'" using True by (simp add: card algebra_simps)
      moreover have "8 * card ?C' < (27 + 8 * (?w + 1)) * ?k"
      proof -
        have "8 * card ?C' < (27 + 8 * ?w) * ?k + 8" using pre(3) card by linarith
        also have "\<dots> \<le> (27 + 8 * (?w + 1)) * ?k" by (simp add: algebra_simps)
        finally show ?thesis .
      qed
      ultimately have due: "?due = ?w + 1" and after: "8 * card ?C' < (27 + 8 * (?w + 1)) * ?k"
        using offset_due(2) [of "?w + 1" ?lg "card ?C'"] w by simp_all
      have win2: "windowed ?s2 ?C'" unfolding windowed_def s2(1,2,3,6) using lg fin ok' w s1(3) tab2 by simp
      have many2: "3 * 2 ^ cs_lg_k ?s2 \<le> 32 * card ?C'" using many card s2(1) by simp
      obtain s3 where s3: "move_window ?s2 = Inr s3" "cpc_holds s3 ?C'" "same_frame ?s2 s3"
        "cs_window_offset s3 = ?w + 1"
        using move_window_ok [OF win2 _ _ many2] due room(2,3) unfolding s2(1,3) by metis
      have "update_windowed s x = Inr s3"
        using run False True s3(1,4) after due room(3) card by (simp add: Let_def)
      then show ?thesis using that s3(2,3) s2(5) by (simp add: same_frame_def)
    next
      case notdue: False
      have due: "?due = ?w"
      proof (cases "?w = 0")
        case True
        then show ?thesis using notdue offset_due(1) [of "card ?C'" ?lg] by (simp add: card)
      next
        case False
        then show ?thesis
          using notdue bounds(2) w offset_due(2) [of ?w ?lg "card ?C'"] by (simp add: card)
      qed
      have "cpc_holds ?s2 ?C'" unfolding cpc_holds_def s2(1,2,3,4,6)
        using lg fin ok' due w fic many s1(3) tab2 card by auto
      moreover have "update_windowed s x = Inr ?s2" using run False notdue by (simp add: Let_def)
      ultimately show ?thesis using that s2(5) by blast
    qed
  qed
qed


text \<open>The promotion of a sparse sketch, slot by slot\<close>

definition stands_for :: "u8 list \<times> pair_table \<Rightarrow> nat \<Rightarrow> u32 set \<Rightarrow> bool" where
  "stands_for st lg_k D \<longleftrightarrow>
     window_holds (fst st) lg_k 0 D \<and> pair_holds (snd st) (surprises lg_k 0 D) \<and>
     pt_num_valid_bits (snd st) = 6 + lg_k"

lemma promote_slot_ok:
  assumes st: "stands_for (window, t) lg_k D" and x: "coupon_ok lg_k x" "x \<notin> D" and lg: "lg_k \<le> 26"
    and room: "4 * card (surprises lg_k 0 (insert x D)) \<le> pair_cap (6 + lg_k)"
  shows "\<exists>st'. promote_slot (window, t) x = Inr st' \<and> stands_for st' lg_k (insert x D)"
proof -
  have win: "window_holds window lg_k 0 D" and t: "pair_holds t (surprises lg_k 0 D)" "pt_num_valid_bits t = 6 + lg_k"
    using st by (simp_all add: stands_for_def)
  have nonfree: "x \<noteq> FREE" using x(1) by (simp add: valid_item_def)
  note sur = surprises_insert [OF x(1), where C = D and w = 0]
  show ?thesis
  proof (cases "rc_col x < 8")
    case True
    then have inside: "0 \<le> rc_col x" "rc_col x < 0 + 8" by simp_all
    note W = window_insert [OF win x(1) inside lg, simplified]
    have "promote_slot (window, t) x = Inr (window[rc_row x := window ! rc_row x OR push_bit (rc_col x) 1], t)"
      using nonfree True W(1) by (simp add: promote_slot_def Let_def)
    moreover have "surprises lg_k 0 (insert x D) = surprises lg_k 0 D" by (rule sur(2) [OF inside])
    ultimately show ?thesis using W(3) t by (simp add: stands_for_def)
  next
    case False
    then have late: "0 + 8 \<le> rc_col x" by simp
    have S: "surprises lg_k 0 (insert x D) = insert x (surprises lg_k 0 D)" "x \<notin> surprises lg_k 0 D"
      using sur(3) [OF late] x(2) by simp_all
    obtain t' where t': "maybe_insert t x = Inr (t', True)" "pair_holds t' (surprises lg_k 0 (insert x D))"
      "pt_num_valid_bits t' = 6 + lg_k"
      using maybe_insert_cap [OF t(1), unfolded t(2), OF x(1)] room S by metis
    have "window_holds window lg_k 0 (insert x D)" unfolding window_holds_def
    proof (intro conjI allI impI)
      fix i j :: nat assume ij: "i < 2 ^ lg_k" "j < 8"
      have "i < 2 ^ 26" using ij(1) lg power_increasing [of lg_k 26 "2 :: nat"] by simp
      then have "rc_col (rc_pack i (0 + j)) = j" using ij(2) by (simp add: rc_pack_fields(2))
      then have "rc_pack i (0 + j) \<noteq> x" using False ij(2) by auto
      then show "bit (window ! i) j \<longleftrightarrow> rc_pack i (0 + j) \<in> insert x D"
        using win ij by (simp add: window_holds_def)
    qed (use win in \<open>simp add: window_holds_def\<close>)
    then show ?thesis
      using nonfree False t' by (simp add: promote_slot_def Let_def stands_for_def)
  qed
qed

lemma promote_slots_ok:
  assumes "stands_for st lg_k D" and "\<forall>x \<in> set xs - {FREE}. coupon_ok lg_k x" and "lg_k \<le> 26"
    and "distinct (filter (\<lambda>x. x \<noteq> FREE) xs)" and "(set xs - {FREE}) \<inter> D = {}"
    and "4 * card (surprises lg_k 0 (D \<union> (set xs - {FREE}))) \<le> pair_cap (6 + lg_k)"
  shows "\<exists>st'. fold_res promote_slot st xs = Inr st' \<and> stands_for st' lg_k (D \<union> (set xs - {FREE}))"
  using assms
proof (induction xs arbitrary: st D)
  case (Cons x xs)
  obtain window t where st: "st = (window, t)" by (cases st)
  show ?case
  proof (cases "x = FREE")
    case True
    then have "set (x # xs) - {FREE} = set xs - {FREE}" by auto
    then show ?thesis using Cons True by (simp add: st promote_slot_def)
  next
    case False
    have all: "insert x D \<union> (set xs - {FREE}) = D \<union> (set (x # xs) - {FREE})" using False by auto
    have x: "coupon_ok lg_k x" "x \<notin> D" using Cons.prems(2,5) False by auto
    have "surprises lg_k 0 (insert x D) \<subseteq> surprises lg_k 0 (D \<union> (set (x # xs) - {FREE}))"
      using False by (auto simp: surprises_def)
    then have "card (surprises lg_k 0 (insert x D)) \<le> card (surprises lg_k 0 (D \<union> (set (x # xs) - {FREE})))"
      by (rule card_mono [OF finite_surprises])
    then have "4 * card (surprises lg_k 0 (insert x D)) \<le> pair_cap (6 + lg_k)" using Cons.prems(6) by linarith
    then obtain st1 where st1: "promote_slot st x = Inr st1" "stands_for st1 lg_k (insert x D)"
      using promote_slot_ok [OF Cons.prems(1) [unfolded st] x Cons.prems(3)] unfolding st by blast
    have "\<exists>st'. fold_res promote_slot st1 xs = Inr st' \<and> stands_for st' lg_k (insert x D \<union> (set xs - {FREE}))"
    proof (rule Cons.IH [OF st1(2)])
      show "(set xs - {FREE}) \<inter> insert x D = {}" "distinct (filter (\<lambda>x. x \<noteq> FREE) xs)"
        using Cons.prems(4,5) False by auto
      show "4 * card (surprises lg_k 0 (insert x D \<union> (set xs - {FREE}))) \<le> pair_cap (6 + lg_k)"
        unfolding all by (rule Cons.prems(6))
    qed (use Cons.prems(2,3) in auto)
    then show ?thesis unfolding all using st1(1) by simp
  qed
qed simp

lemma promote_ok:
  assumes lg: "4 \<le> cs_lg_k s" "cs_lg_k s \<le> 26" and off: "cs_window_offset s = 0"
    and win: "cs_sliding_window s = []" and tab: "table_holds s C"
    and exact: "32 * cs_num_coupons s = 3 * 2 ^ cs_lg_k s \<or> cs_lg_k s = 4 \<and> 3 * 2 ^ cs_lg_k s < 32 * cs_num_coupons s"
    and ok: "\<forall>x \<in> C. coupon_ok (cs_lg_k s) x" and room: "4 * card (surprises (cs_lg_k s) 0 C) \<le> pair_cap (6 + cs_lg_k s)"
  obtains s' where "promote_sparse_to_windowed s = Inr s'" and "same_counts s s'"
    and "window_holds (cs_sliding_window s') (cs_lg_k s) 0 C" and "table_holds s' (surprises (cs_lg_k s) 0 C)"
proof -
  let ?lg = "cs_lg_k s"
  obtain t where t: "cs_table s = Some t" "pair_holds t C" using tab by (auto simp: table_holds_def)
  have wf: "pt.wf (pt_num_valid_bits t) (pt_lg_size t) (pt_slots t)" and C: "set (pt_slots t) - {FREE} = C"
    using t(2) by (simp_all add: pair_holds_def)
  have "(\<lambda>s. pair_occ s \<noteq> None) = (\<lambda>x. x \<noteq> FREE)" by (auto simp: fun_eq_iff)
  then have d: "distinct (filter (\<lambda>x. x \<noteq> FREE) (pt_slots t))"
    using pt.distinct_occupied(1) [OF wf] by simp
  obtain new where new: "pair_table_new 2 (6 + ?lg) = Inr new" "pair_holds new {}" "pt_num_valid_bits new = 6 + ?lg"
    by (rule pair_table_new_holds [of 2 "6 + ?lg"]) (use lg in simp_all)
  have "surprises ?lg 0 {} = {}" by (simp add: surprises_def)
  then have "stands_for (replicate (2 ^ ?lg) 0, new) ?lg {}"
    using new(2,3) by (simp add: stands_for_def window_holds_def)
  then have "\<exists>st. fold_res promote_slot (replicate (2 ^ ?lg) 0, new) (pt_slots t) = Inr st \<and>
      stands_for st ?lg ({} \<union> (set (pt_slots t) - {FREE}))"
    by (rule promote_slots_ok [OF _ _ lg(2) d]) (use ok room in \<open>simp_all add: C\<close>)
  then obtain st where st: "fold_res promote_slot (replicate (2 ^ ?lg) 0, new) (pt_slots t) = Inr st"
    "stands_for st ?lg C" unfolding C by auto
  obtain window t' where w: "st = (window, t')" by (cases st)
  have "promote_sparse_to_windowed s = Inr (s\<lparr>cs_sliding_window := window, cs_table := Some t'\<rparr>)"
    using off win exact new(1) t(1) st(1)
    by (auto simp: promote_sparse_to_windowed_def surprising_value_table_def Let_def w)
  then show ?thesis
    using st(2) by (intro that [of "s\<lparr>cs_sliding_window := window, cs_table := Some t'\<rparr>"])
      (auto simp: stands_for_def w table_holds_def same_counts_def same_frame_def)
qed


lemma pair_cap_ge: "4 \<le> lg_k \<Longrightarrow> lg_k \<le> 26 \<Longrightarrow> 3 * 2 ^ lg_k \<le> pair_cap (6 + lg_k)"
  unfolding pair_cap_def by (intro mult_le_mono2 power_increasing) simp_all

text \<open>In a sparse state the next coupon at most completes three thirty-seconds of the rows.\<close>

lemma sparse_step:
  fixes n :: nat
  assumes "4 \<le> lg" and "32 * n < 3 * 2 ^ lg" and "3 * 2 ^ lg \<le> 32 * (n + 1)"
  shows "32 * (n + 1) = 3 * 2 ^ lg \<or> lg = 4 \<and> 3 * 2 ^ lg < 32 * (n + 1)"
proof (cases "lg = 4")
  case True
  then show ?thesis using assms(3) by auto
next
  case False
  then have "(2 :: nat) ^ lg = 32 * 2 ^ (lg - 5)"
    using assms(1) power_add [of "2 :: nat" 5 "lg - 5"] by simp
  then obtain p :: nat where p: "2 ^ lg = 32 * p" by blast
  have "n < 3 * p" "3 * p \<le> n + 1" using assms(2,3) unfolding p by simp_all
  then have "n + 1 = 3 * p" by linarith
  then show ?thesis unfolding p by simp
qed

lemma update_sparse_ok:
  assumes lg: "4 \<le> cs_lg_k s" "cs_lg_k s \<le> 26" and fin: "finite C" and ok: "\<forall>x \<in> C. coupon_ok (cs_lg_k s) x"
    and num: "cs_num_coupons s = card C" and zero: "cs_window_offset s = 0" "cs_first_interesting_column s = 0"
    and few: "32 * card C < 3 * 2 ^ cs_lg_k s" and win: "cs_sliding_window s = []" and tab: "table_holds s C"
    and x: "coupon_ok (cs_lg_k s) x" and fits: "fits (cs_lg_k s) C x"
  obtains s' where "update_sparse s x = Inr s'" and "cpc_holds s' (insert x C)" and "same_frame s s'"
proof -
  let ?lg = "cs_lg_k s" and ?C' = "insert x C" and ?k = "(2 :: nat) ^ cs_lg_k s"
  have ok': "\<forall>x \<in> ?C'. coupon_ok ?lg x" using ok x by simp
  have card_le: "card ?C' \<le> card C + 1" using fin by (simp add: card_insert_if)
  have small: "32 * card ?C' < 27 * ?k" "4 * card ?C' \<le> 3 * ?k"
  proof -
    have "(2 :: nat) ^ 4 \<le> ?k" by (rule power_increasing [OF lg(1)]) simp
    then have "16 \<le> ?k" by simp
    then show "32 * card ?C' < 27 * ?k" "4 * card ?C' \<le> 3 * ?k" using card_le few by linarith+
  qed
  have off: "determine_correct_offset ?lg (card C) = 0" "determine_correct_offset ?lg (card ?C') = 0"
    by (rule offset_due(1), use small few in linarith)+
  have "4 * card ?C' \<le> pair_cap (6 + ?lg)" using small(2) pair_cap_ge [OF lg] by linarith
  then obtain t where t: "surprising_insert s x = Inr (s\<lparr>cs_table := Some t\<rparr>, x \<notin> C)"
    "table_holds (s\<lparr>cs_table := Some t\<rparr>) ?C'"
    by (rule surprising_insert_ok [OF tab x])
  let ?s1 = "s\<lparr>cs_table := Some t\<rparr>"
  show ?thesis
  proof (cases "x \<in> C")
    case True
    then have "update_sparse s x = Inr ?s1" using t(1) few num by (simp add: update_sparse_def Let_def)
    moreover have "cpc_holds ?s1 ?C'"
      unfolding cpc_holds_def using lg fin ok' num zero few win t(2) off(1) insert_absorb [OF True] by simp
    moreover have "same_frame s ?s1" by (simp add: same_frame_def)
    ultimately show ?thesis using that by blast
  next
    case False
    let ?s2 = "cpc_update_hip (?s1\<lparr>cs_num_coupons := card C + 1\<rparr>) x"
    have card: "card ?C' = card C + 1" using False fin by simp
    have s2: "cs_lg_k ?s2 = ?lg" "cs_num_coupons ?s2 = card ?C'" "cs_window_offset ?s2 = 0"
      "cs_first_interesting_column ?s2 = 0" "same_frame s ?s2" "cs_sliding_window ?s2 = []"
      "table_holds ?s2 ?C'"
      using zero win card t(2)
      by (simp_all add: cpc_update_hip_def Let_def same_frame_def table_holds_def)
    have run: "update_sparse s x =
        (if 3 * ?k \<le> 32 * card ?C' then promote_sparse_to_windowed ?s2 else Inr ?s2)"
      using t(1) few num False s2(2) card by (simp add: update_sparse_def Let_def)
    show ?thesis
    proof (cases "3 * ?k \<le> 32 * card ?C'")
      case many: True
      have exact: "32 * cs_num_coupons ?s2 = 3 * 2 ^ cs_lg_k ?s2 \<or>
          cs_lg_k ?s2 = 4 \<and> 3 * 2 ^ cs_lg_k ?s2 < 32 * cs_num_coupons ?s2"
        unfolding s2(1,2) card using sparse_step [OF lg(1) few] many card by simp
      have room: "4 * card (surprises ?lg 0 ?C') \<le> pair_cap (6 + ?lg)"
        using fits unfolding fits_def Let_def off by blast
      obtain s3 where s3: "promote_sparse_to_windowed ?s2 = Inr s3" "same_counts ?s2 s3"
        "window_holds (cs_sliding_window s3) ?lg 0 ?C'" "table_holds s3 (surprises ?lg 0 ?C')"
        using promote_ok [OF _ _ s2(3,6,7) exact] lg ok' room unfolding s2(1) by metis
      have "cpc_holds s3 ?C'"
        unfolding cpc_holds_def using s2(1-4) s3(2-4) lg fin ok' off(2) many
        by (simp add: same_counts_def same_frame_def not_less)
      moreover have "same_frame s s3" using s3(2) s2(5) by (simp add: same_counts_def same_frame_def)
      ultimately show ?thesis using that run many s3(1) by simp
    next
      case False
      have "cpc_holds ?s2 ?C'"
        unfolding cpc_holds_def using s2 lg fin ok' off(2) False by simp
      then show ?thesis using that run False s2(5) by simp
    qed
  qed
qed

text \<open>Every update with a coupon that has room adds it, and nothing else.\<close>

lemma row_col_update_ok:
  assumes s: "cpc_holds s C" and x: "coupon_ok (cs_lg_k s) x" and fits: "fits (cs_lg_k s) C x"
  obtains s' where "row_col_update s x = Inr s'" and "cpc_holds s' (insert x C)" and "same_frame s s'"
proof (cases "rc_col x < cs_first_interesting_column s")
  case True
  then have "x \<in> C" using s x unfolding cpc_holds_def by blast
  then show ?thesis
    using True s by (intro that [of s]) (simp_all add: row_col_update_def insert_absorb)
next
  case interesting: False
  let ?lg = "cs_lg_k s"
  have lg: "4 \<le> ?lg" "?lg \<le> 26" and fin: "finite C" and ok: "\<forall>x \<in> C. coupon_ok ?lg x"
    and num: "cs_num_coupons s = card C" and off: "cs_window_offset s = determine_correct_offset ?lg (card C)"
    and fic: "cs_first_interesting_column s \<le> cs_window_offset s"
    using s unfolding cpc_holds_def by argo+
  show ?thesis
  proof (cases "32 * card C < 3 * 2 ^ ?lg")
    case few: True
    have zero: "cs_window_offset s = 0" "cs_first_interesting_column s = 0"
    proof -
      show "cs_window_offset s = 0" unfolding off by (rule offset_due(1)) (use few in linarith)
      then show "cs_first_interesting_column s = 0" using fic by simp
    qed
    note S = cpc_holds_sparse [OF s few]
    obtain new where new: "pair_table_new 2 (6 + ?lg) = Inr new" "pair_holds new {}" "pt_num_valid_bits new = 6 + ?lg"
      by (rule pair_table_new_holds [of 2 "6 + ?lg"]) (use lg in simp_all)
    let ?s1 = "if cs_num_coupons s = 0 then s\<lparr>cs_table := Some new\<rparr> else s"
    have run: "row_col_update s x = update_sparse ?s1 x"
      using interesting new(1) S by (simp add: row_col_update_def Let_def)
    have "table_holds ?s1 C" using S new(2,3) num fin by (auto simp: table_holds_def)
    then obtain s' where "update_sparse ?s1 x = Inr s'" "cpc_holds s' (insert x C)" "same_frame ?s1 s'"
      using update_sparse_ok [of ?s1 C x] lg fin ok num zero few S x fits by (auto split: if_splits)
    then show ?thesis using that run by (simp add: same_frame_def split: if_splits)
  next
    case many: False
    have "window_holds (cs_sliding_window s) ?lg (cs_window_offset s) C"
      using cpc_holds_windowed [OF s many] by simp
    then have "cs_sliding_window s \<noteq> []" by (auto simp: window_holds_def)
    moreover have "cs_num_coupons s \<noteq> 0" using many num by auto
    ultimately have run: "row_col_update s x = update_windowed s x"
      using interesting by (simp add: row_col_update_def Let_def)
    show ?thesis using update_windowed_ok [OF s many x fits] that unfolding run by blast
  qed
qed


section \<open>Counting cells\<close>

lemma card_cells:
  assumes "\<forall>x \<in> P. coupon_ok lg_k x \<and> rc_col x < w"
  shows "card P \<le> w * 2 ^ lg_k"
proof -
  have "inj_on (\<lambda>x. (rc_row x, rc_col x)) P" by (auto intro: inj_onI rc_eqI)
  moreover have "(\<lambda>x. (rc_row x, rc_col x)) ` P \<subseteq> {..<2 ^ lg_k} \<times> {..<w}"
    using assms by (auto simp: coupon_ok_row)
  ultimately have "card P \<le> card ({..<2 ^ lg_k :: nat} \<times> {..<w})" by (rule card_inj_on_le) simp
  then show ?thesis by (simp add: mult.commute)
qed

lemma count_bits_sum:
  "count_bits_set_in_matrix M = (\<Sum>i < length M. card {j. bit (M ! i) j})"
proof -
  have row: "length (filter (bit w) [0..<64]) = card {j. bit w j}" for w :: u64
  proof -
    have "{j. bit w j} = set (filter (bit w) [0..<64])" by (auto dest: bit_imp_le_length)
    then show ?thesis by (simp only: distinct_card [OF distinct_filter [OF distinct_upt]])
  qed
  have "foldl (\<lambda>n w. n + length (filter (bit w) [0..<64])) a M = a + (\<Sum>i < length M. card {j. bit (M ! i) j})" for a
  proof (induction M rule: rev_induct)
    case (snoc w M)
    then show ?case by (simp add: row nth_append)
  qed simp
  then show ?thesis by (simp add: count_bits_set_in_matrix_def)
qed

lemma count_bits_card:
  assumes M: "represents M lg_k C" and ok: "\<forall>x \<in> C. coupon_ok lg_k x" and lg: "lg_k \<le> 26"
  shows "count_bits_set_in_matrix M = card C"
proof -
  have len: "length M = 2 ^ lg_k" using M by (simp add: represents_def)
  have i26: "i < 2 ^ 26" if "i < 2 ^ lg_k" for i :: nat
    using that lg power_increasing [of lg_k 26 "2 :: nat"] by simp
  have row: "card {j. bit (M ! i) j} = card {x \<in> C. rc_row x = i}" if i: "i < 2 ^ lg_k" for i
  proof -
    have "{j. bit (M ! i) j} = rc_col ` {x \<in> C. rc_row x = i}"
    proof (intro set_eqI iffI)
      fix j assume "j \<in> {j. bit (M ! i) j}"
      then have b: "bit (M ! i) j" by simp
      have "j < 64" using bit_imp_le_length [OF b] by simp
      then have j: "j < 64" "rc_pack i j \<in> C" using M i b unfolding represents_def by simp_all
      then show "j \<in> rc_col ` {x \<in> C. rc_row x = i}"
        using rc_pack_fields [OF i26 [OF i] j(1)] by (intro image_eqI [of _ _ "rc_pack i j"]) simp_all
    next
      fix j assume "j \<in> rc_col ` {x \<in> C. rc_row x = i}"
      then obtain x where "x \<in> C" "rc_row x = i" "j = rc_col x" by blast
      then show "j \<in> {j. bit (M ! i) j}" using M i unfolding represents_def by auto
    qed
    moreover have "inj_on rc_col {x \<in> C. rc_row x = i}" by (rule inj_onI) (auto intro: rc_eqI)
    ultimately show ?thesis by (simp add: card_image)
  qed
  have "C = (\<Union>i < 2 ^ lg_k. {x \<in> C. rc_row x = i})" using ok by (auto simp: coupon_ok_row)
  then have "card C = card (\<Union>i < 2 ^ lg_k. {x \<in> C. rc_row x = i})" by simp
  also have "\<dots> = (\<Sum>i < 2 ^ lg_k. card {x \<in> C. rc_row x = i})"
    by (rule card_UN_disjoint) auto
  finally show ?thesis unfolding count_bits_sum len using row by simp
qed

section \<open>Streams\<close>

lemma cpc_row_col_ok:
  assumes "lg_k \<le> 26"
  shows "coupon_ok lg_k (cpc_row_col lg_k seed item)"
proof -
  obtain h1 h2 where h: "murmur_hash seed item = (h1, h2)" by (cases "murmur_hash seed item")
  let ?row = "ucast (h1 AND (2 ^ lg_k - 1)) :: u32" and ?col = "min (leading_zeros h2) 63"
  have "h1 AND (2 ^ lg_k - 1) = take_bit lg_k h1" by (simp add: take_bit_eq_mask mask_eq_exp_minus_1)
  then have "unat ?row = take_bit lg_k (unat h1)"
    using assms by (simp add: unsigned_ucast_eq unsigned_take_bit_eq)
  then have row: "unat ?row < 2 ^ lg_k" by simp
  have i26: "unat ?row < 2 ^ 26" using row assms power_increasing [of lg_k 26 "2 :: nat"] by simp
  have pack: "push_bit 6 ?row OR of_nat ?col = rc_pack (unat ?row) ?col" by (simp add: rc_pack_def)
  have eq: "cpc_row_col lg_k seed item =
      (if rc_pack (unat ?row) ?col = FREE then rc_pack (unat ?row) ?col XOR push_bit 6 1
       else rc_pack (unat ?row) ?col)"
    unfolding cpc_row_col_def h Let_def prod.case pack ..
  have fields: "rc_row (rc_pack (unat ?row) ?col) = unat ?row"
    using rc_pack_fields(1) [OF i26, of ?col] by simp
  show ?thesis
  proof (cases "rc_pack (unat ?row) ?col = FREE")
    case False
    then show ?thesis
      unfolding eq using row fields by (simp only: if_False coupon_ok_row simp_thms)
  next
    case True
    then have "(2 :: nat) ^ 26 - 1 < 2 ^ lg_k" using row fields FREE_fields(1) by simp
    then have "lg_k = 26" using assms power_increasing [of lg_k 25 "2 :: nat"] by (cases "lg_k \<le> 25") simp_all
    moreover have "FREE XOR push_bit 6 1 = 0xFFFFFFBF" by simp
    moreover have "cpc_row_col lg_k seed item = FREE XOR push_bit 6 1" unfolding eq using True by (simp only: if_True simp_thms)
    ultimately show ?thesis by (simp add: valid_item_def)
  qed
qed

fun stream_fits :: "nat \<Rightarrow> u32 set \<Rightarrow> u32 list \<Rightarrow> bool" where
  "stream_fits lg_k C [] \<longleftrightarrow> True"
| "stream_fits lg_k C (x # xs) \<longleftrightarrow> fits lg_k C x \<and> stream_fits lg_k (insert x C) xs"

lemma cpc_update_all_ok:
  assumes "cpc_holds s C" and "stream_fits (cs_lg_k s) C (map (cpc_row_col (cs_lg_k s) (cs_seed s)) items)"
  shows "\<exists>s'. cpc_update_all s items = Inr s' \<and>
    cpc_holds s' (C \<union> cpc_row_col (cs_lg_k s) (cs_seed s) ` set items) \<and> same_frame s s'"
  using assms
proof (induction items arbitrary: s C)
  case Nil
  then show ?case by (simp add: cpc_update_all_def)
next
  case (Cons item items)
  let ?x = "cpc_row_col (cs_lg_k s) (cs_seed s) item"
  have "cs_lg_k s \<le> 26" using Cons.prems(1) by (simp add: cpc_holds_def)
  then obtain s1 where s1: "row_col_update s ?x = Inr s1" "cpc_holds s1 (insert ?x C)" "same_frame s s1"
    using row_col_update_ok [OF Cons.prems(1) cpc_row_col_ok] Cons.prems(2) by auto
  have same: "cs_lg_k s1 = cs_lg_k s" "cs_seed s1 = cs_seed s" using s1(3) by (simp_all add: same_frame_def)
  obtain s' where "cpc_update_all s1 items = Inr s'"
    "cpc_holds s' (insert ?x C \<union> cpc_row_col (cs_lg_k s) (cs_seed s) ` set items)" "same_frame s1 s'"
    using Cons.IH [OF s1(2)] Cons.prems(2) unfolding same by auto
  then show ?case
    using s1 by (intro exI [of _ s']) (simp add: cpc_update_all_def cpc_update_def same_frame_def)
qed

lemma cpc_with_seed_ok:
  assumes "4 \<le> lg_k" and "lg_k \<le> 26" and "compute_seed_hash seed = Inr sh"
  obtains s where "cpc_with_seed lg_k seed = Inr s" and "cpc_holds s {}" and "cs_lg_k s = lg_k"
    and "cs_seed s = seed" and "cs_seed_hash s = sh" and "cs_merge_flag s = False"
  using assms offset_due(1) [of 0 lg_k]
  by (intro that [of "\<lparr>cs_lg_k = lg_k, cs_seed = seed, cs_seed_hash = sh, cs_first_interesting_column = 0,
      cs_num_coupons = 0, cs_table = None, cs_window_offset = 0, cs_sliding_window = [],
      cs_merge_flag = False, cs_kxp = f64_of_nat (2 ^ lg_k), cs_hip_est_accum = 0\<rparr>"])
    (simp_all add: cpc_with_seed_def CPC_MIN_LG_K_def CPC_MAX_LG_K_def cpc_holds_def)

text \<open>The coupons of a stream of items\<close>

definition stream_coupons :: "nat \<Rightarrow> u64 \<Rightarrow> u8 list list list \<Rightarrow> u32 set" where
  "stream_coupons lg_k seed items = cpc_row_col lg_k seed ` set items"

lemma finite_stream_coupons [simp]: "finite (stream_coupons lg_k seed items)"
  by (simp add: stream_coupons_def)

text \<open>
  A table of at most \<open>2 ^ 21\<close> rows has room for every state with up to 13 coupons per row: the
  early zone has w cells per row, and the window is at w only after \<open>w + 19/8\<close> coupons per row.
\<close>

lemma fits_13:
  assumes lg: "4 \<le> lg_k" "lg_k \<le> 21" and few: "card (insert x C) \<le> 13 * 2 ^ lg_k" and fin: "finite C"
    and ok: "\<forall>y \<in> insert x C. coupon_ok lg_k y"
  shows "fits lg_k C x"
proof -
  let ?C' = "insert x C"
  have cap: "pair_cap (6 + lg_k) = 96 * 2 ^ lg_k" using lg by (simp add: pair_cap_def power_add)
  have le: "card C \<le> card ?C'" by (rule card_mono) (use fin in auto)
  have room: "4 * card (surprises lg_k w ?C') \<le> pair_cap (6 + lg_k) \<and> w \<le> 56"
    if n: "n \<le> card ?C'" and w: "w = determine_correct_offset lg_k n" for n w
  proof -
    have "n \<le> 64 * 2 ^ lg_k" using n few by linarith
    note b = offset_bounds(2) [OF this, folded w]
    have "surprises lg_k w ?C' \<subseteq> {y. coupon_ok lg_k y \<and> rc_col y < w} \<union> ?C'" by (auto simp: surprises_def)
    then have "card (surprises lg_k w ?C') \<le> card ({y. coupon_ok lg_k y \<and> rc_col y < w} \<union> ?C')"
      by (rule card_mono [rotated]) simp
    also have "\<dots> \<le> card {y. coupon_ok lg_k y \<and> rc_col y < w} + card ?C'" by (rule card_Un_le)
    finally have "card (surprises lg_k w ?C') \<le> w * 2 ^ lg_k + 13 * 2 ^ lg_k"
      using card_cells [of "{y. coupon_ok lg_k y \<and> rc_col y < w}" lg_k w] few by simp
    moreover have "8 * (w * 2 ^ lg_k) \<le> 85 * 2 ^ lg_k"
    proof (cases "w = 0")
      case False
      then show ?thesis using b n few unfolding add_mult_distrib mult.assoc by linarith
    qed simp
    moreover from this have "8 * w \<le> 85" by simp
    ultimately show ?thesis unfolding cap by linarith
  qed
  show ?thesis unfolding fits_def Let_def using room [OF le refl] room [OF order.refl refl] by blast
qed

lemma stream_fits_13:
  assumes lg: "4 \<le> lg_k" "lg_k \<le> 21" and "card (C \<union> set xs) \<le> 13 * 2 ^ lg_k" and "finite C"
    and "\<forall>y \<in> C \<union> set xs. coupon_ok lg_k y"
  shows "stream_fits lg_k C xs"
  using assms(3-5)
proof (induction xs arbitrary: C)
  case (Cons x xs)
  have "card (insert x C) \<le> card (C \<union> set (x # xs))" by (rule card_mono) (use Cons.prems(2) in auto)
  then have "fits lg_k C x" using Cons.prems by (intro fits_13 [OF lg]) auto
  moreover have "stream_fits lg_k (insert x C) xs" using Cons.prems by (intro Cons.IH) auto
  ultimately show ?case by simp
qed simp


section \<open>The properties of the sketch\<close>

text \<open>C7.
  Feeding a new CPC sketch with any stream of items never panics (no assertion or debug assertion
  fires, no index is out of range, every loop ends), as long as every update fits: the table of surprising
  values has room, and the window's offset does not exceed 56. The bit matrix of the final state has a one in exactly the cells of the
  coupons of the stream, and the coupon count is the number of distinct coupons.
\<close>

theorem cpc_sketch_exact:
  assumes "4 \<le> lg_k" and "lg_k \<le> 26" and "compute_seed_hash seed = Inr sh"
    and "stream_fits lg_k {} (map (cpc_row_col lg_k seed) items)"
  shows "\<exists>s0 s M. cpc_with_seed lg_k seed = Inr s0 \<and> cpc_update_all s0 items = Inr s \<and>
    build_bit_matrix s = Inr M \<and> represents M lg_k (stream_coupons lg_k seed items) \<and>
    cs_num_coupons s = card (stream_coupons lg_k seed items) \<and> cpc_validate s = Inr True"
proof -
  obtain s0 where s0: "cpc_with_seed lg_k seed = Inr s0" "cpc_holds s0 {}" "cs_lg_k s0 = lg_k" "cs_seed s0 = seed"
    by (rule cpc_with_seed_ok [OF assms(1-3)])
  obtain s where s: "cpc_update_all s0 items = Inr s" "cpc_holds s (stream_coupons lg_k seed items)" "same_frame s0 s"
    using cpc_update_all_ok [OF s0(2), of items] assms(4) s0(3,4) by (auto simp: stream_coupons_def)
  have lg: "cs_lg_k s = lg_k" using s(3) s0(3) by (simp add: same_frame_def)
  obtain M where M: "build_bit_matrix s = Inr M" "represents M lg_k (stream_coupons lg_k seed items)"
    using build_bit_matrix_ok [OF s(2)] unfolding lg by blast
  have "cs_num_coupons s = card (stream_coupons lg_k seed items)"
    and ok: "\<forall>x \<in> stream_coupons lg_k seed items. coupon_ok lg_k x"
    using s(2) lg by (simp_all add: cpc_holds_def)
  moreover from this have "cpc_validate s = Inr True"
    using M(1) count_bits_card [OF M(2) ok assms(2)] by (simp add: cpc_validate_def)
  ultimately show ?thesis using s0(1) s(1) M by blast
qed

text \<open>C28.
  For up to \<open>2 ^ 21\<close> rows the table of surprising values has room for every stream with at most 13
  distinct coupons per row, whatever the coupons and their order are: feeding the stream to a new sketch
  returns a sketch (no update panics) that counts the coupons. Its window has moved exactly as far as the
  count demands, that is, with C coupons, K rows and offset w, \<open>8 C < (27 + 8 w) K\<close>, and
  \<open>(19 + 8 w) K \<le> 8 C\<close> unless w is 0; so w is at most 10. Its table holds all the coupons while the
  sketch is sparse and then the surprising values of that window, and these are at most three quarters of the
  largest table.
\<close>

theorem cpc_table_has_room:
  assumes "4 \<le> lg_k" and "lg_k \<le> 21" and "compute_seed_hash seed = Inr sh"
    and "card (stream_coupons lg_k seed items) \<le> 13 * 2 ^ lg_k" and "items \<noteq> []"
  shows "\<exists>s0 s t. cpc_with_seed lg_k seed = Inr s0 \<and> cpc_update_all s0 items = Inr s \<and> cs_table s = Some t \<and>
    cs_num_coupons s = card (stream_coupons lg_k seed items) \<and>
    8 * cs_num_coupons s < (27 + 8 * cs_window_offset s) * 2 ^ lg_k \<and>
    (cs_window_offset s = 0 \<or> (19 + 8 * cs_window_offset s) * 2 ^ lg_k \<le> 8 * cs_num_coupons s) \<and>
    cs_window_offset s \<le> 10 \<and>
    set (pt_slots t) - {FREE} =
      (if 32 * cs_num_coupons s < 3 * 2 ^ lg_k then stream_coupons lg_k seed items
       else surprises lg_k (cs_window_offset s) (stream_coupons lg_k seed items)) \<and>
    pt_num_items t = card (set (pt_slots t) - {FREE}) \<and> 4 * pt_num_items t \<le> 3 * 2 ^ (5 + lg_k)"
proof -
  let ?C = "stream_coupons lg_k seed items"
  have lg26: "lg_k \<le> 26" using assms(2) by simp
  have ok: "\<forall>x \<in> ?C. coupon_ok lg_k x" using cpc_row_col_ok [OF lg26] by (auto simp: stream_coupons_def)
  have C: "?C \<noteq> {}" using assms(5) by (simp add: stream_coupons_def)
  obtain s0 where s0: "cpc_with_seed lg_k seed = Inr s0" "cpc_holds s0 {}" "cs_lg_k s0 = lg_k" "cs_seed s0 = seed"
    by (rule cpc_with_seed_ok [OF assms(1) lg26 assms(3)])
  have "stream_fits lg_k {} (map (cpc_row_col lg_k seed) items)"
    by (rule stream_fits_13 [OF assms(1,2)]) (use assms(4) ok in \<open>simp_all add: stream_coupons_def\<close>)
  then obtain s where s: "cpc_update_all s0 items = Inr s" "cpc_holds s ?C" "same_frame s0 s"
    using cpc_update_all_ok [OF s0(2), of items] s0(3,4) by (auto simp: stream_coupons_def)
  have lg: "cs_lg_k s = lg_k" using s(3) s0(3) by (simp add: same_frame_def)
  have num: "cs_num_coupons s = card ?C" and off: "cs_window_offset s = determine_correct_offset lg_k (card ?C)"
    using s(2) lg by (simp_all add: cpc_holds_def)
  note B = offset_bounds [OF coupons_bound [OF ok], folded off num]
  have ten: "cs_window_offset s \<le> 10"
  proof (rule ccontr)
    assume far: "\<not> cs_window_offset s \<le> 10"
    then have "107 * 2 ^ lg_k \<le> (19 + 8 * cs_window_offset s) * (2 :: nat) ^ lg_k" by (intro mult_right_mono) simp_all
    moreover have "(19 + 8 * cs_window_offset s) * 2 ^ lg_k \<le> 8 * card ?C" using B(2) far num by auto
    moreover have "(0 :: nat) < 2 ^ lg_k" by simp
    ultimately show False using assms(4) by linarith
  qed
  define P where "P = (if 32 * cs_num_coupons s < 3 * 2 ^ lg_k then ?C else surprises lg_k (cs_window_offset s) ?C)"
  have "table_holds s P"
    using cpc_holds_sparse [OF s(2)] cpc_holds_windowed [OF s(2)] C unfolding lg P_def num by simp
  then obtain t where t: "cs_table s = Some t" "pair_holds t P" by (auto simp: table_holds_def)
  obtain x where x: "x \<in> ?C" using C by blast
  then have "fits lg_k ?C x" using assms(1,2,4) ok by (intro fits_13) (simp_all add: insert_absorb)
  then have "4 * card (surprises lg_k (cs_window_offset s) ?C) \<le> 3 * 2 ^ (5 + lg_k)"
    using x assms(2) by (simp add: fits_def Let_def insert_absorb off pair_cap_def)
  then have "4 * card P \<le> 3 * 2 ^ (5 + lg_k)" by (simp add: P_def num power_add)
  moreover have items: "set (pt_slots t) - {FREE} = P" "pt_num_items t = card P"
    using t(2) by (simp_all add: pair_holds_def)
  ultimately have "pt_num_items t = card (set (pt_slots t) - {FREE})" "4 * pt_num_items t \<le> 3 * 2 ^ (5 + lg_k)"
    by simp_all
  then show ?thesis
    using s0(1) s(1) t(1) num B ten items(1) [unfolded P_def] by (intro exI [of _ s0] exI [of _ s] exI [of _ t] conjI)
qed

lemma cpc_table_has_room_witness:
  "\<exists>s0 s t. cpc_with_seed 11 DEFAULT_UPDATE_SEED = Inr s0 \<and> cpc_update_all s0 [[[1]], [[2]], [[1]]] = Inr s \<and>
    cs_table s = Some t \<and> cs_num_coupons s = card (stream_coupons 11 DEFAULT_UPDATE_SEED [[[1]], [[2]], [[1]]]) \<and>
    8 * cs_num_coupons s < (27 + 8 * cs_window_offset s) * 2 ^ 11 \<and>
    (cs_window_offset s = 0 \<or> (19 + 8 * cs_window_offset s) * 2 ^ 11 \<le> 8 * cs_num_coupons s) \<and>
    cs_window_offset s \<le> 10 \<and>
    set (pt_slots t) - {FREE} =
      (if 32 * cs_num_coupons s < 3 * 2 ^ 11 then stream_coupons 11 DEFAULT_UPDATE_SEED [[[1]], [[2]], [[1]]]
       else surprises 11 (cs_window_offset s) (stream_coupons 11 DEFAULT_UPDATE_SEED [[[1]], [[2]], [[1]]])) \<and>
    pt_num_items t = card (set (pt_slots t) - {FREE}) \<and> 4 * pt_num_items t \<le> 3 * 2 ^ (5 + 11)"
proof (rule cpc_table_has_room [OF _ _ default_seed_hash])
  have "card (stream_coupons 11 DEFAULT_UPDATE_SEED [[[1]], [[2]], [[1]]]) \<le> card {[[1 :: u8]], [[2]], [[1]]}"
    unfolding stream_coupons_def by (rule order_trans [OF card_image_le]) (simp_all add: card_mono)
  also have "\<dots> \<le> 3" by (simp add: card_insert_if)
  finally show "card (stream_coupons 11 DEFAULT_UPDATE_SEED [[[1]], [[2]], [[1]]]) \<le> 13 * 2 ^ 11" by simp
qed simp_all

lemma sample_stream_fits:
  "stream_fits 4 {} (map (cpc_row_col 4 DEFAULT_UPDATE_SEED) [[[1]], [[2]], [[3]]])"
proof (rule stream_fits_13)
  have "card (set (map (cpc_row_col 4 DEFAULT_UPDATE_SEED) [[[1]], [[2]], [[3]]])) \<le> 3"
    by (rule order_trans [OF card_length]) simp
  then show "card ({} \<union> set (map (cpc_row_col 4 DEFAULT_UPDATE_SEED) [[[1]], [[2]], [[3]]])) \<le> 13 * 2 ^ 4" by simp
  show "\<forall>y \<in> {} \<union> set (map (cpc_row_col 4 DEFAULT_UPDATE_SEED) [[[1]], [[2]], [[3]]]). coupon_ok 4 y"
    using cpc_row_col_ok [of 4] by auto
qed simp_all

lemma cpc_sketch_exact_witness:
  "\<exists>s0 s M. cpc_with_seed 4 DEFAULT_UPDATE_SEED = Inr s0 \<and>
    cpc_update_all s0 [[[1]], [[2]], [[3]]] = Inr s \<and> build_bit_matrix s = Inr M \<and>
    represents M 4 (stream_coupons 4 DEFAULT_UPDATE_SEED [[[1]], [[2]], [[3]]]) \<and>
    cs_num_coupons s = card (stream_coupons 4 DEFAULT_UPDATE_SEED [[[1]], [[2]], [[3]]]) \<and>
    cpc_validate s = Inr True"
  by (rule cpc_sketch_exact [OF _ _ default_seed_hash sample_stream_fits]) simp_all

end
