(* ===== verification/CpcUnion.thy ===== *)
theory CpcUnion
  imports CpcSketch
begin

unbundle bit_operations_syntax

text \<open>
  The union of CPC sketches: \<open>src/datasketches/src/cpc/union.rs\<close>. While everything seen is sparse the
  state is a sketch; then it becomes a bit matrix. Sources with more rows are folded onto the rows of the
  union (\<open>fold_coupon\<close>), and a source with fewer rows reduces the union. \<open>union_holds\<close> says which
  coupons a union stands for.
\<close>

section \<open>The state\<close>

datatype union_mode = Accumulator cpc_sketch | BitMatrix "u64 list"

record cpc_union =
  cn_lg_k :: nat
  cn_seed :: u64
  cn_state :: union_mode

definition cpc_union_with_seed :: "nat \<Rightarrow> u64 \<Rightarrow> cpc_union res" where
  "cpc_union_with_seed lg_k seed =
     bind_res (cpc_with_seed lg_k seed) (\<lambda>sketch.
       Inr \<lparr>cn_lg_k = lg_k, cn_seed = seed, cn_state = Accumulator sketch\<rparr>)"

definition cpc_union_num_coupons :: "cpc_union \<Rightarrow> nat" where
  "cpc_union_num_coupons u =
     (case cn_state u of
        Accumulator sketch \<Rightarrow> cs_num_coupons sketch
      | BitMatrix matrix \<Rightarrow> count_bits_set_in_matrix matrix)"

section \<open>Joining into a matrix\<close>

definition or_into_row :: "u64 list \<Rightarrow> nat \<Rightarrow> u64 \<Rightarrow> u64 list res" where
  "or_into_row matrix row bits = bind_res (get_at matrix row) (\<lambda>x. set_at matrix row (x OR bits))"

definition or_window_into_matrix ::
  "u64 list \<Rightarrow> nat \<Rightarrow> u8 list \<Rightarrow> nat \<Rightarrow> nat \<Rightarrow> u64 list res" where
  "or_window_into_matrix dst_matrix dst_lg_k src_window src_offset src_lg_k =
     (if \<not> dst_lg_k \<le> src_lg_k then Inl (Panic ''assertion failed: dst_lg_k <= src_lg_k'')
      else
        let dst_mask = 2 ^ dst_lg_k - 1; src_k = 2 ^ src_lg_k
        in fold_res (\<lambda>matrix src_row. bind_res (get_at src_window src_row) (\<lambda>b.
             or_into_row matrix (src_row AND dst_mask) (push_bit src_offset (ucast b)))) dst_matrix [0..<src_k])"

definition or_table_into_matrix :: "u64 list \<Rightarrow> nat \<Rightarrow> pair_table \<Rightarrow> u64 list res" where
  "or_table_into_matrix dst_matrix dst_lg_k src_table =
     (let dst_mask = 2 ^ dst_lg_k - 1
      in fold_res (\<lambda>matrix row_col.
           if row_col \<noteq> FREE then
             let src_row = rc_row row_col; src_col = rc_col row_col; dst_row = src_row AND dst_mask
             in or_into_row matrix dst_row (push_bit src_col 1)
           else Inr matrix) dst_matrix (pt_slots src_table))"

definition or_matrix_into_matrix :: "u64 list \<Rightarrow> nat \<Rightarrow> u64 list \<Rightarrow> nat \<Rightarrow> u64 list res" where
  "or_matrix_into_matrix dst_matrix dst_lg_k src_matrix src_lg_k =
     (if \<not> dst_lg_k \<le> src_lg_k then Inl (Panic ''assertion failed: dst_lg_k <= src_lg_k'')
      else
        let dst_mask = 2 ^ dst_lg_k - 1; src_k = 2 ^ src_lg_k
        in fold_res (\<lambda>matrix src_row. bind_res (get_at src_matrix src_row) (\<lambda>x.
             or_into_row matrix (src_row AND dst_mask) x)) dst_matrix [0..<src_k])"

section \<open>Walking a table\<close>

text \<open>The stride is the golden section of the number of slots, made odd.\<close>

definition walk_stride :: "nat \<Rightarrow> nat" where
  "walk_stride num_slots =
     (let stride = nat \<lfloor>f64_val (f64_mul (f64_round 0.6180339887498949) (f64_of_nat num_slots))\<rfloor>
      in if stride = push_bit 1 (drop_bit 1 stride) then stride + 1 else stride)"

fun walk_slots :: "nat \<Rightarrow> u32 list \<Rightarrow> nat \<Rightarrow> u32 \<Rightarrow> nat \<Rightarrow> cpc_sketch \<Rightarrow> cpc_sketch res" where
  "walk_slots 0 slots stride dst_mask k sketch = Inr sketch"
| "walk_slots (Suc left) slots stride dst_mask k sketch =
     (let k = k AND (length slots - 1); row_col = slots ! k
      in bind_res (if row_col \<noteq> FREE then row_col_update sketch (row_col AND dst_mask) else Inr sketch)
           (walk_slots left slots stride dst_mask (k + stride)))"

definition walk_table_updating_sketch :: "cpc_sketch \<Rightarrow> pair_table \<Rightarrow> cpc_sketch res" where
  "walk_table_updating_sketch sketch table =
     (if \<not> cs_lg_k sketch \<le> 26 then Inl (Panic ''assertion failed: lg_k <= 26'')
      else
        let slots = pt_slots table;
            num_slots = length slots;
            dst_mask = ucast (push_bit 6 (push_bit (cs_lg_k sketch) 1 - 1) OR 63 :: u64);
            stride = walk_stride num_slots
        in if \<not> (3 \<le> stride \<and> stride < num_slots) then Inl (Panic ''assertion failed: stride'')
           else walk_slots num_slots slots stride dst_mask 0 sketch)"

section \<open>Updates\<close>

definition reduce_k :: "cpc_union \<Rightarrow> nat \<Rightarrow> cpc_union res" where
  "reduce_k u new_lg_k =
     (case cn_state u of
        Accumulator sketch \<Rightarrow>
          bind_res (cpc_with_seed new_lg_k (cn_seed u)) (\<lambda>new_sketch.
            if cpc_is_empty sketch then Inr (u\<lparr>cn_lg_k := new_lg_k, cn_state := Accumulator new_sketch\<rparr>)
            else
              bind_res (surprising_value_table sketch) (\<lambda>t.
              bind_res (walk_table_updating_sketch new_sketch t) (\<lambda>new_sketch.
                if cpc_flavor new_sketch = Empty then Inl (Panic ''assertion failed: flavor is not Empty'')
                else if cpc_flavor new_sketch = Sparse
                then Inr (u\<lparr>cn_lg_k := new_lg_k, cn_state := Accumulator new_sketch\<rparr>)
                else bind_res (build_bit_matrix new_sketch) (\<lambda>m.
                  Inr (u\<lparr>cn_lg_k := new_lg_k, cn_state := BitMatrix m\<rparr>)))))
      | BitMatrix matrix \<Rightarrow>
          bind_res (or_matrix_into_matrix (replicate (2 ^ new_lg_k) 0) new_lg_k matrix (cn_lg_k u)) (\<lambda>m.
            Inr (u\<lparr>cn_lg_k := new_lg_k, cn_state := BitMatrix m\<rparr>)))"

text \<open>The order of the flavors\<close>

definition beyond_sparse :: "flavor \<Rightarrow> bool" where
  "beyond_sparse f \<longleftrightarrow> f = Hybrid \<or> f = Pinned \<or> f = Sliding"

definition update_accumulator :: "cpc_union \<Rightarrow> cpc_sketch \<Rightarrow> cpc_sketch \<Rightarrow> cpc_union res" where
  "update_accumulator u old_sketch sketch =
     (if cpc_flavor sketch = Sparse then
        let old_flavor = cpc_flavor old_sketch
        in if old_flavor \<noteq> Sparse \<and> old_flavor \<noteq> Empty
           then Inl (Panic ''unreachable: unexpected old flavor in union accumulator'')
           else if old_flavor = Empty \<and> cn_lg_k u = cs_lg_k sketch
           then Inr (u\<lparr>cn_state := Accumulator sketch\<rparr>)
           else
             bind_res (surprising_value_table sketch) (\<lambda>t.
             bind_res (walk_table_updating_sketch old_sketch t) (\<lambda>old_sketch.
               if beyond_sparse (cpc_flavor old_sketch)
               then bind_res (build_bit_matrix old_sketch) (\<lambda>m. Inr (u\<lparr>cn_state := BitMatrix m\<rparr>))
               else Inr (u\<lparr>cn_state := Accumulator old_sketch\<rparr>)))
      else Inl (Panic ''unreachable: unexpected flavor in union accumulator''))"

definition update_bit_matrix :: "cpc_union \<Rightarrow> u64 list \<Rightarrow> cpc_sketch \<Rightarrow> cpc_union res" where
  "update_bit_matrix u old_matrix sketch =
     bind_res
       (if cpc_flavor sketch = Sparse then
          bind_res (surprising_value_table sketch) (or_table_into_matrix old_matrix (cn_lg_k u))
        else if cpc_flavor sketch = Hybrid \<or> cpc_flavor sketch = Pinned then
          bind_res (or_window_into_matrix old_matrix (cn_lg_k u) (cs_sliding_window sketch)
              (cs_window_offset sketch) (cs_lg_k sketch)) (\<lambda>m.
          bind_res (surprising_value_table sketch) (or_table_into_matrix m (cn_lg_k u)))
        else if cpc_flavor sketch \<noteq> Sliding then Inl (Panic ''assertion failed: flavor == Sliding'')
        else
          bind_res (build_bit_matrix sketch) (\<lambda>src_matrix.
            or_matrix_into_matrix old_matrix (cn_lg_k u) src_matrix (cs_lg_k sketch)))
       (\<lambda>m. Inr (u\<lparr>cn_state := BitMatrix m\<rparr>))"

definition cpc_union_update :: "cpc_union \<Rightarrow> cpc_sketch \<Rightarrow> cpc_union res" where
  "cpc_union_update u sketch =
     (if cn_seed u \<noteq> cs_seed sketch then Inl (Panic ''assertion failed: seed'')
      else if cpc_flavor sketch = Empty then Inr u
      else
        bind_res (if cs_lg_k sketch < cn_lg_k u then reduce_k u (cs_lg_k sketch) else Inr u) (\<lambda>u.
        bind_res
          (if beyond_sparse (cpc_flavor sketch) then
             (case cn_state u of
                Accumulator old_sketch \<Rightarrow>
                  bind_res (build_bit_matrix old_sketch) (\<lambda>m. Inr (u\<lparr>cn_state := BitMatrix m\<rparr>))
              | BitMatrix _ \<Rightarrow> Inr u)
           else Inr u) (\<lambda>u.
        case cn_state u of
          Accumulator old_sketch \<Rightarrow> update_accumulator u old_sketch sketch
        | BitMatrix old_matrix \<Rightarrow> update_bit_matrix u old_matrix sketch)))"

definition cpc_union_all :: "cpc_union \<Rightarrow> cpc_sketch list \<Rightarrow> cpc_union res" where
  "cpc_union_all u sketches = fold_res cpc_union_update u sketches"

section \<open>The result\<close>

definition cpc_to_sketch :: "cpc_union \<Rightarrow> cpc_sketch res" where
  "cpc_to_sketch u =
     (case cn_state u of
        Accumulator sketch \<Rightarrow>
          if cpc_is_empty sketch then cpc_with_seed (cn_lg_k u) (cn_seed u)
          else if cpc_flavor sketch \<noteq> Sparse then Inl (Panic ''assertion failed: flavor == Sparse'')
          else Inr (sketch\<lparr>cs_merge_flag := True\<rparr>)
      | BitMatrix matrix \<Rightarrow>
          let lg_k = cn_lg_k u
          in bind_res (cpc_with_seed lg_k (cn_seed u)) (\<lambda>sketch.
             let num_coupons = count_bits_set_in_matrix matrix;
                 offset = determine_correct_offset lg_k num_coupons;
                 k = 2 ^ lg_k;
                 new_table_lg_size = max (lg_k - 4) 2
             in bind_res (pair_table_new new_table_lg_size (6 + lg_k)) (\<lambda>table.
                bind_res (fold_res (split_row offset matrix) (replicate k 0, table, 0) [0..<k])
                  (\<lambda>(window, table, all_surprises_ored).
                  Inr (sketch\<lparr>cs_num_coupons := num_coupons, cs_window_offset := offset,
                    cs_first_interesting_column := first_column all_surprises_ored offset,
                    cs_sliding_window := window, cs_table := Some table, cs_merge_flag := True\<rparr>)))))"

section \<open>Folding coupons onto fewer rows\<close>

definition fold_coupon :: "nat \<Rightarrow> u32 \<Rightarrow> u32" where
  "fold_coupon lg_k x = rc_pack (rc_row x mod 2 ^ lg_k) (rc_col x)"

lemma mod_lt26: "lg \<le> 26 \<Longrightarrow> (n :: nat) mod 2 ^ lg < 2 ^ 26"
proof -
  assume "lg \<le> 26"
  then have "(2 :: nat) ^ lg \<le> 2 ^ 26" by (intro power_increasing) simp_all
  moreover have "n mod 2 ^ lg < 2 ^ lg" by simp
  ultimately show ?thesis by linarith
qed

lemma fold_coupon_fields:
  assumes "lg \<le> 26"
  shows "rc_row (fold_coupon lg x) = rc_row x mod 2 ^ lg" and "rc_col (fold_coupon lg x) = rc_col x"
  unfolding fold_coupon_def by (rule rc_pack_fields [OF mod_lt26 [OF assms]], simp)+

lemma fold_coupon_ok:
  assumes "lg \<le> 26" and "x \<noteq> FREE"
  shows "coupon_ok lg (fold_coupon lg x)"
proof -
  have row: "rc_row (fold_coupon lg x) < 2 ^ lg" using fold_coupon_fields(1) [OF assms(1)] by simp
  have "fold_coupon lg x \<noteq> FREE"
  proof
    assume free: "fold_coupon lg x = FREE"
    then have "(2 :: nat) ^ 26 - 1 < 2 ^ lg" using row FREE_fields(1) by simp
    then have "lg = 26" using assms(1) power_increasing [of lg 25 "2 :: nat"] by (cases "lg \<le> 25") simp_all
    then have "rc_row x mod 2 ^ lg = rc_row x" using rc_row_lt26 [of x] by simp
    then show False using free assms(2) by (simp add: fold_coupon_def)
  qed
  then show ?thesis using row by (simp add: coupon_ok_row)
qed

lemma fold_coupon_id: "coupon_ok lg x \<Longrightarrow> fold_coupon lg x = x"
  by (simp add: fold_coupon_def coupon_ok_row)

lemma fold_coupon_image_id: "\<forall>x \<in> C. coupon_ok lg x \<Longrightarrow> fold_coupon lg ` C = C"
  using fold_coupon_id by force

lemma fold_coupon_twice: "lg' \<le> lg \<Longrightarrow> lg \<le> 26 \<Longrightarrow> fold_coupon lg' (fold_coupon lg x) = fold_coupon lg' x"
proof -
  assume "lg' \<le> lg" "lg \<le> 26"
  then have "rc_row x mod 2 ^ lg mod 2 ^ lg' = rc_row x mod 2 ^ lg'"
    by (simp add: mod_mod_cancel le_imp_power_dvd)
  then show ?thesis unfolding fold_coupon_def [of lg'] fold_coupon_fields [OF \<open>lg \<le> 26\<close>] by simp
qed

lemma and_dst_mask:
  assumes "lg \<le> 26"
  shows "x AND ucast (push_bit 6 (push_bit lg 1 - 1) OR 63 :: u64) = fold_coupon lg x"
proof -
  have m63: "(63 :: u64) = mask 6" by (simp add: mask_eq_exp_minus_1)
  have m: "bit (ucast (push_bit 6 (push_bit lg 1 - 1) OR 63 :: u64) :: u32) j \<longleftrightarrow> j < 32 \<and> j < 6 + lg" for j
    unfolding m63 by (simp only: bit_ucast_iff bit_or_iff bit_push_bit_iff bit_default_row bit_mask_iff possible_bit_word)
      (use assms in auto)
  have "x AND ucast (push_bit 6 (push_bit lg 1 - 1) OR 63 :: u64) = take_bit (6 + lg) x"
    by (rule bit_word_eqI) (simp only: bit_and_iff m bit_take_bit_iff, auto)
  then have u: "unat (x AND ucast (push_bit 6 (push_bit lg 1 - 1) OR 63 :: u64)) = unat x mod (64 * 2 ^ lg)"
    by (simp only: unsigned_take_bit_eq) (simp add: take_bit_eq_mod power_add)
  show ?thesis
  proof (rule rc_eqI)
    show "rc_row (x AND ucast (push_bit 6 (push_bit lg 1 - 1) OR 63 :: u64)) = rc_row (fold_coupon lg x)"
      unfolding fold_coupon_fields [OF assms] by (simp only: rc_row_div u) (simp add: mod_mult2_eq)
    show "rc_col (x AND ucast (push_bit 6 (push_bit lg 1 - 1) OR 63 :: u64)) = rc_col (fold_coupon lg x)"
      unfolding fold_coupon_fields [OF assms] by (simp only: rc_col_mod u) (simp add: mod_mult2_eq)
  qed
qed

text \<open>Folding loses at most the factor between the numbers of rows.\<close>

lemma card_fold:
  assumes "lg' \<le> lg" and "lg \<le> 26" and "\<forall>x \<in> C. coupon_ok lg x" and "finite C"
  shows "card C * 2 ^ lg' \<le> card (fold_coupon lg' ` C) * 2 ^ lg"
proof -
  let ?f = "\<lambda>x. (fold_coupon lg' x, rc_row x div 2 ^ lg')"
  have lg': "lg' \<le> 26" using assms(1,2) by simp
  have "inj_on ?f C"
  proof (rule inj_onI)
    fix x y assume eq: "?f x = ?f y"
    then have f: "fold_coupon lg' x = fold_coupon lg' y" by simp
    have "rc_row x mod 2 ^ lg' = rc_row y mod 2 ^ lg'" "rc_col x = rc_col y"
      using fold_coupon_fields [OF lg', of x] fold_coupon_fields [OF lg', of y] f by simp_all
    moreover have "rc_row x div 2 ^ lg' = rc_row y div 2 ^ lg'" using eq by simp
    ultimately show "x = y" by (metis rc_eqI div_mult_mod_eq)
  qed
  moreover have "?f ` C \<subseteq> fold_coupon lg' ` C \<times> {..<2 ^ (lg - lg')}"
  proof
    fix p assume "p \<in> ?f ` C"
    then obtain x where x: "x \<in> C" "p = ?f x" by blast
    have "rc_row x < 2 ^ lg" using x(1) assms(3) by (simp add: coupon_ok_row)
    also have "(2 :: nat) ^ lg = 2 ^ (lg - lg') * 2 ^ lg'" using assms(1) by (simp flip: power_add)
    finally have "rc_row x div 2 ^ lg' < 2 ^ (lg - lg')" by (simp add: less_mult_imp_div_less)
    then show "p \<in> fold_coupon lg' ` C \<times> {..<2 ^ (lg - lg')}" using x by simp
  qed
  ultimately have "card C \<le> card (fold_coupon lg' ` C \<times> {..<2 ^ (lg - lg') :: nat})"
    using assms(4) by (intro card_inj_on_le) simp_all
  then have "card C \<le> card (fold_coupon lg' ` C) * 2 ^ (lg - lg')" by (simp add: card_cartesian_product)
  then have "card C * 2 ^ lg' \<le> card (fold_coupon lg' ` C) * 2 ^ (lg - lg') * 2 ^ lg'" by simp
  also have "\<dots> = card (fold_coupon lg' ` C) * 2 ^ lg" using assms(1) by (simp flip: power_add)
  finally show ?thesis .
qed

lemma many_fold:
  assumes "lg' \<le> lg" and "lg \<le> 26" and "\<forall>x \<in> C. coupon_ok lg x" and "finite C" and "3 * 2 ^ lg \<le> 32 * card C"
  shows "3 * 2 ^ lg' \<le> 32 * card (fold_coupon lg' ` C)"
proof -
  have "3 * 2 ^ lg' * 2 ^ lg \<le> 32 * (card C * 2 ^ lg')"
    using mult_le_mono1 [OF assms(5), of "2 ^ lg'"] by (simp add: algebra_simps)
  also have "\<dots> \<le> 32 * (card (fold_coupon lg' ` C) * 2 ^ lg)" using card_fold [OF assms(1-4)] by simp
  finally have "(3 * 2 ^ lg') * 2 ^ lg \<le> (32 * card (fold_coupon lg' ` C)) * 2 ^ lg" by (simp only: mult.assoc)
  then show ?thesis by (rule mult_right_le_imp_le) simp
qed

section \<open>Joining matrices\<close>

lemma or_into_row_ok:
  assumes M: "represents M lg C" and i: "i < 2 ^ lg" and lg: "lg \<le> 26"
  shows "\<exists>M'. or_into_row M i bits = Inr M' \<and> represents M' lg (C \<union> row_cells i bits)"
proof -
  have i26: "j < 2 ^ lg \<Longrightarrow> j < 2 ^ 26" for j :: nat using lg power_increasing [of lg 26 "2 :: nat"] by simp
  have len: "length M = 2 ^ lg" using M by (simp add: represents_def)
  have "bit (M[i := M ! i OR bits] ! i') j \<longleftrightarrow> rc_pack i' j \<in> C \<union> row_cells i bits"
    if ij: "i' < 2 ^ lg" "j < 64" for i' j
  proof -
    have "rc_pack i' j \<in> row_cells i bits \<longleftrightarrow> i' = i \<and> bit bits j"
    proof
      assume "rc_pack i' j \<in> row_cells i bits"
      then obtain c where c: "bit bits c" "rc_pack i' j = rc_pack i c" by (auto simp: row_cells_def)
      have "c < 64" using bit_imp_le_length [OF c(1)] by simp
      then show "i' = i \<and> bit bits j"
        using c rc_pack_fields [OF i26 [OF ij(1)] ij(2)] rc_pack_fields [OF i26 [OF i], of c] by simp
    qed (auto simp: row_cells_def)
    moreover have "bit (M[i := M ! i OR bits] ! i') j \<longleftrightarrow> bit (M ! i') j \<or> i' = i \<and> bit bits j"
      using len i by (cases "i' = i") (auto simp: bit_or_iff)
    moreover have "bit (M ! i') j \<longleftrightarrow> rc_pack i' j \<in> C" using M ij by (simp add: represents_def)
    ultimately show ?thesis by blast
  qed
  then have "represents (M[i := M ! i OR bits]) lg (C \<union> row_cells i bits)"
    using len by (simp add: represents_def)
  then show ?thesis using i len by (simp add: or_into_row_def)
qed

lemma and_mask_Suc: "n AND (2 ^ lg - Suc 0) = n mod 2 ^ lg" for n :: nat
  using and_mask_nat [of n lg] by simp

lemma bit_64: "bit (w :: u64) j \<Longrightarrow> j < 64"
  using bit_imp_le_length [of w j] by simp

text \<open>A loop over the rows of a source\<close>

lemma or_rows_ok:
  assumes M: "represents M lg C" and lg: "lg \<le> 26" and n: "n \<le> length src"
  shows "\<exists>M'. fold_res (\<lambda>matrix src_row. bind_res (get_at src src_row) (\<lambda>b.
      or_into_row matrix (src_row AND (2 ^ lg - 1)) (g b))) M [0..<n] = Inr M' \<and>
    represents M' lg (C \<union> (\<Union>i < n. row_cells (i mod 2 ^ lg) (g (src ! i))))"
  using n
proof (induction n)
  case 0
  then show ?case using M by simp
next
  case (Suc n)
  obtain M1 where M1: "fold_res (\<lambda>matrix src_row. bind_res (get_at src src_row) (\<lambda>b.
      or_into_row matrix (src_row AND (2 ^ lg - 1)) (g b))) M [0..<n] = Inr M1"
    "represents M1 lg (C \<union> (\<Union>i < n. row_cells (i mod 2 ^ lg) (g (src ! i))))"
    using Suc.IH Suc.prems by auto
  obtain M2 where M2: "or_into_row M1 (n mod 2 ^ lg) (g (src ! n)) = Inr M2"
    "represents M2 lg (C \<union> (\<Union>i < n. row_cells (i mod 2 ^ lg) (g (src ! i))) \<union> row_cells (n mod 2 ^ lg) (g (src ! n)))"
    using or_into_row_ok [OF M1(2) _ lg, of "n mod 2 ^ lg"] by auto
  have "C \<union> (\<Union>i < n. row_cells (i mod 2 ^ lg) (g (src ! i))) \<union> row_cells (n mod 2 ^ lg) (g (src ! n)) =
      C \<union> (\<Union>i < Suc n. row_cells (i mod 2 ^ lg) (g (src ! i)))"
    by (auto simp: lessThan_Suc)
  then show ?case using M1(1) M2 Suc.prems by (auto simp: fold_res_append and_mask_Suc)
qed

text \<open>The rows of a source that stands for the coupons D\<close>

lemma folded_rows:
  assumes bits: "\<And>i j. i < 2 ^ lg' \<Longrightarrow> bit (f i) j \<longleftrightarrow> j < 64 \<and> rc_pack i j \<in> D"
    and ok: "\<forall>x \<in> D. coupon_ok lg' x" and lg': "lg' \<le> 26"
  shows "(\<Union>i < 2 ^ lg'. row_cells (i mod 2 ^ lg) (f i)) = fold_coupon lg ` D"
proof (intro set_eqI iffI)
  fix x assume "x \<in> (\<Union>i < 2 ^ lg'. row_cells (i mod 2 ^ lg) (f i))"
  then obtain i j where ij: "i < 2 ^ lg'" "bit (f i) j" "x = rc_pack (i mod 2 ^ lg) j" by (auto simp: row_cells_def)
  then have j: "j < 64" "rc_pack i j \<in> D" using bits by blast+
  have "i < 2 ^ 26" using ij(1) lg' power_increasing [of lg' 26 "2 :: nat"] by simp
  then have "x = fold_coupon lg (rc_pack i j)" unfolding fold_coupon_def using rc_pack_fields [OF _ j(1)] ij(3) by simp
  then show "x \<in> fold_coupon lg ` D" using j(2) by blast
next
  fix x assume "x \<in> fold_coupon lg ` D"
  then obtain y where y: "y \<in> D" "x = fold_coupon lg y" by blast
  then have "rc_row y < 2 ^ lg'" using ok by (simp add: coupon_ok_row)
  moreover from this have "bit (f (rc_row y)) (rc_col y)" using bits y(1) by simp
  ultimately show "x \<in> (\<Union>i < 2 ^ lg'. row_cells (i mod 2 ^ lg) (f i))"
    using y(2) by (auto simp: row_cells_def fold_coupon_def)
qed

lemma or_matrix_ok:
  assumes M: "represents M lg C" and N: "represents N lg' D" and lg: "lg \<le> lg'" "lg' \<le> 26"
    and ok: "\<forall>x \<in> D. coupon_ok lg' x"
  shows "\<exists>M'. or_matrix_into_matrix M lg N lg' = Inr M' \<and> represents M' lg (C \<union> fold_coupon lg ` D)"
proof -
  have lg26: "lg \<le> 26" using lg by simp
  have len: "2 ^ lg' \<le> length N" using N by (simp add: represents_def)
  have "(\<Union>i < 2 ^ lg'. row_cells (i mod 2 ^ lg) (N ! i)) = fold_coupon lg ` D"
    by (rule folded_rows [OF _ ok lg(2)]) (use N bit_64 in \<open>auto simp: represents_def\<close>)
  then show ?thesis
    using or_rows_ok [OF M lg26 len, of "\<lambda>x. x"] lg(1) by (simp add: or_matrix_into_matrix_def Let_def)
qed

lemma or_window_ok:
  assumes M: "represents M lg C" and win: "window_holds window lg' w D" and lg: "lg \<le> lg'" "lg' \<le> 26"
    and ok: "\<forall>x \<in> D. coupon_ok lg' x" and w: "w \<le> 56"
  shows "\<exists>M'. or_window_into_matrix M lg window w lg' = Inr M' \<and>
    represents M' lg (C \<union> fold_coupon lg ` {x \<in> D. w \<le> rc_col x \<and> rc_col x < w + 8})"
proof -
  let ?D = "{x \<in> D. w \<le> rc_col x \<and> rc_col x < w + 8}"
  have lg26: "lg \<le> 26" using lg by simp
  have len: "2 ^ lg' \<le> length window" using win by (simp add: window_holds_def)
  have "(\<Union>i < 2 ^ lg'. row_cells (i mod 2 ^ lg) (push_bit w (ucast (window ! i)))) = fold_coupon lg ` ?D"
  proof (rule folded_rows [OF _ _ lg(2)])
    fix i j :: nat assume i: "i < 2 ^ lg'"
    have i26: "i < 2 ^ 26" using i lg(2) power_increasing [of lg' 26 "2 :: nat"] by simp
    have b: "bit (push_bit w (ucast (window ! i)) :: u64) j \<longleftrightarrow> j < 64 \<and> w \<le> j \<and> bit (window ! i) (j - w)"
      by (auto simp: bit_simps dest: bit_imp_le_length)
    show "bit (push_bit w (ucast (window ! i)) :: u64) j \<longleftrightarrow> j < 64 \<and> rc_pack i j \<in> ?D"
    proof (cases "j < 64 \<and> w \<le> j \<and> j < w + 8")
      case True
      then have "w \<le> j" "j < w + 8" by simp_all
      then have "bit (window ! i) (j - w) \<longleftrightarrow> rc_pack i j \<in> D" using win i by (simp add: window_holds_def)
      then show ?thesis unfolding b using True rc_pack_fields(2) [OF i26, of j] by auto
    next
      case False
      have "\<not> bit (window ! i) (j - w)" if "w \<le> j" "j < 64"
        using False that by (auto dest: bit_imp_le_length)
      then show ?thesis unfolding b using False rc_pack_fields(2) [OF i26, of j] by auto
    qed
  qed (use ok in blast)
  then show ?thesis
    using or_rows_ok [OF M lg26 len, of "\<lambda>b. push_bit w (ucast b)"] lg(1)
    by (simp add: or_window_into_matrix_def Let_def)
qed

lemma or_table_ok:
  assumes M: "represents M lg C" and t: "pair_holds t P" and lg: "lg \<le> 26"
  shows "\<exists>M'. or_table_into_matrix M lg t = Inr M' \<and> represents M' lg (C \<union> fold_coupon lg ` P)"
proof -
  let ?step = "\<lambda>matrix row_col. if row_col \<noteq> FREE then
      let src_row = rc_row row_col; src_col = rc_col row_col; dst_row = src_row AND (2 ^ lg - 1)
      in or_into_row matrix dst_row (push_bit src_col 1) else Inr matrix"
  have "\<exists>M'. fold_res ?step M xs = Inr M' \<and> represents M' lg (C \<union> fold_coupon lg ` (set xs - {FREE}))" for xs
    using M
  proof (induction xs arbitrary: M C)
    case (Cons x xs)
    show ?case
    proof (cases "x = FREE")
      case True
      then have "set (x # xs) - {FREE} = set xs - {FREE}" by auto
      then show ?thesis using Cons True by simp
    next
      case False
      have "row_cells (rc_row x mod 2 ^ lg) (push_bit (rc_col x) 1) = {fold_coupon lg x}"
      proof -
        have "{j. bit (push_bit (rc_col x) 1 :: u64) j} = {rc_col x}"
          using rc_col_lt [of x] by (auto simp: bit_exp_iff)
        then show ?thesis by (simp add: row_cells_def fold_coupon_def)
      qed
      then obtain M1 where M1: "or_into_row M (rc_row x mod 2 ^ lg) (push_bit (rc_col x) 1) = Inr M1"
        "represents M1 lg (C \<union> {fold_coupon lg x})"
        using or_into_row_ok [OF Cons.prems _ lg, of "rc_row x mod 2 ^ lg" "push_bit (rc_col x) 1"] by auto
      have "?step M x = Inr M1" using M1(1) False by (simp only: Let_def and_mask_nat if_True not_False_eq_True) 
      moreover have "C \<union> {fold_coupon lg x} \<union> fold_coupon lg ` (set xs - {FREE}) =
          C \<union> fold_coupon lg ` (set (x # xs) - {FREE})" using False by auto
      ultimately show ?thesis using Cons.IH [OF M1(2)] by simp
    qed
  qed simp
  note run = this [of "pt_slots t"]
  have P: "set (pt_slots t) - {FREE} = P" using t by (simp add: pair_holds_def)
  have eq: "or_table_into_matrix M lg t = fold_res ?step M (pt_slots t)"
    unfolding or_table_into_matrix_def Let_def ..
  show ?thesis unfolding eq using run unfolding P .
qed


section \<open>The walk over a table\<close>

abbreviation golden :: rat where "golden \<equiv> 0.6180339887498949"

lemma golden_number:
  "f64_magnitude (f64_round golden) = of_int 5566755282872656 * pow2 (- 53)"
  "f64_number (f64_round golden)" "\<not> f64_negative (f64_round golden)"
proof -
  let ?m = "5566755282872656 :: int"
  have half: "rat_exponent r = - 1" if r: "0 < r" "pow2 (- 1) \<le> r" "r < pow2 0" for r
  proof -
    note E = rat_exponent_bounds [OF r(1)]
    have "rat_exponent r < 0" using le_less_trans [OF E(1) r(3)] by (simp only: pow2_less_iff)
    moreover have "- 1 < rat_exponent r + 1" using le_less_trans [OF r(2) E(2)] by (simp only: pow2_less_iff)
    ultimately show ?thesis by simp
  qed
  have e: "rat_exponent golden = - 1" "rat_exponent (of_int ?m * pow2 (- 53)) = - 1"
    by (intro half; simp add: power_int_minus)+
  have "\<lfloor>849419446239113766059900928 / 152587890625 :: rat\<rfloor> = 5566755282872655"
    by (simp add: floor_eq_iff)
  then have "round_half_even (golden / pow2 (- 53)) = ?m"
    by (simp add: round_half_even_def Let_def power_int_minus)
  moreover have "round_half_even (of_int ?m * pow2 (- 53) / pow2 (- 53)) = ?m"
    by (simp add: round_half_even_def Let_def power_int_minus)
  ultimately have "f64_round_magnitude golden = f64_round_magnitude (of_int ?m * pow2 (- 53))"
    unfolding f64_round_magnitude_def Let_def e by (simp add: power_int_minus)
  then have r: "f64_round golden = f64_round_magnitude (of_int ?m * pow2 (- 53))"
    by (simp add: f64_round_def f64_sign_bit_def)
  show "f64_magnitude (f64_round golden) = of_int ?m * pow2 (- 53)"
    "f64_number (f64_round golden)" "\<not> f64_negative (f64_round golden)"
    unfolding r by (rule f64_round_magnitude_exact; simp)+
qed


lemma f64_of_power: "f64_val (f64_of_nat (2 ^ n)) = 2 ^ n \<and> f64_number (f64_of_nat (2 ^ n)) \<and>
    \<not> f64_negative (f64_of_nat (2 ^ n)) \<and> f64_magnitude (f64_of_nat (2 ^ n)) = pow2 (int n)" if "n \<le> 900" for n
proof -
  have eq: "of_nat (2 ^ n) = of_int 1 * pow2 (int n)" by simp
  have "(0 :: rat) < of_nat (2 ^ n)" by simp
  then have r: "f64_of_nat (2 ^ n) = f64_round_magnitude (of_int 1 * pow2 (int n))"
    unfolding f64_of_nat_def f64_round_def eq by (simp add: f64_sign_bit_def)
  have m: "f64_magnitude (f64_of_nat (2 ^ n)) = of_int 1 * pow2 (int n)"
    and n: "f64_number (f64_of_nat (2 ^ n))" and s: "\<not> f64_negative (f64_of_nat (2 ^ n))"
    unfolding r by (rule f64_round_magnitude_exact; use that in simp)+
  then show ?thesis by (simp add: f64_val_def)
qed

lemma golden_stride:
  assumes "lg \<le> 26"
  shows "f64_val (f64_mul (f64_round golden) (f64_of_nat (2 ^ lg))) = of_int 5566755282872656 * pow2 (int lg - 53)"
proof -
  note P = f64_of_power [of lg]
  let ?p = "f64_of_nat (2 ^ lg)"
  have p: "f64_number ?p" "\<not> f64_negative ?p" "f64_magnitude ?p = pow2 (int lg)" using P assms by simp_all
  have prod: "f64_magnitude (f64_round golden) * f64_magnitude ?p = of_int 5566755282872656 * pow2 (int lg - 53)"
    unfolding golden_number(1) p(3) by (simp add: power_int_diff power_int_minus)
  have "f64_mul (f64_round golden) ?p = f64_round_magnitude (of_int 5566755282872656 * pow2 (int lg - 53))"
    using golden_number(2,3) p(1,2) prod by (simp add: f64_mul_def Let_def f64_sign_bit_def)
  moreover have "f64_magnitude (f64_round_magnitude (of_int 5566755282872656 * pow2 (int lg - 53))) =
      of_int 5566755282872656 * pow2 (int lg - 53)"
    "\<not> f64_negative (f64_round_magnitude (of_int 5566755282872656 * pow2 (int lg - 53)))"
    by (rule f64_round_magnitude_exact; use assms in simp)+
  ultimately show ?thesis by (simp add: f64_val_def)
qed

lemma walk_stride_ok:
  assumes "2 \<le> lg" and "lg \<le> 26"
  shows "3 \<le> walk_stride (2 ^ lg)" and "walk_stride (2 ^ lg) < 2 ^ lg" and "odd (walk_stride (2 ^ lg))"
proof -
  let ?r = "of_int 5566755282872656 * pow2 (int lg - 53) :: rat"
  define n where "n = nat \<lfloor>?r\<rfloor>"
  have four: "(4 :: nat) \<le> 2 ^ lg" using power_increasing [OF assms(1), of "2 :: nat"] by simp
  have r: "?r = 5566755282872656 / 2 ^ 53 * 2 ^ lg" by (simp add: power_int_diff)
  have "6 / 10 * 2 ^ lg \<le> ?r" "?r \<le> 62 / 100 * 2 ^ lg"
    unfolding r by (intro mult_right_mono; simp)+
  moreover have "rat_of_nat 4 \<le> rat_of_nat (2 ^ lg)" using four by (simp only: of_nat_le_iff)
  ultimately have b: "2 \<le> ?r" "?r + 1 < rat_of_nat (2 ^ lg)" by simp_all
  have f: "of_int \<lfloor>?r\<rfloor> \<le> ?r" "2 \<le> \<lfloor>?r\<rfloor>" using b(1) by (simp_all add: le_floor_iff)
  then have n2: "2 \<le> n" unfolding n_def using nat_mono [OF f(2)] by (simp only: nat_numeral)
  have "int n = \<lfloor>?r\<rfloor>" unfolding n_def using f(2) by (intro nat_0_le) linarith
  then have "of_nat n \<le> ?r" using f(1) by (metis of_int_of_nat_eq)
  then have "rat_of_nat (n + 1) < rat_of_nat (2 ^ lg)" using b(2) by simp
  then have n3: "n + 1 < 2 ^ lg" by (simp only: of_nat_less_iff)
  have w: "walk_stride (2 ^ lg) = (if n = push_bit 1 (drop_bit 1 n) then n + 1 else n)"
    unfolding walk_stride_def Let_def golden_stride [OF assms(2)] n_def ..
  have "push_bit 1 (drop_bit 1 n) = 2 * (n div 2)" by (simp add: push_bit_eq_mult drop_bit_eq_div)
  then have e: "n = push_bit 1 (drop_bit 1 n) \<longleftrightarrow> even n" by presburger
  show "3 \<le> walk_stride (2 ^ lg)" "walk_stride (2 ^ lg) < 2 ^ lg" "odd (walk_stride (2 ^ lg))"
    unfolding w e using n2 n3 by (cases "even n"; auto; presburger)+
qed


text \<open>The walk visits every slot: it is a loop over a reordering of the slots.\<close>

lemma walk_slots_fold:
  assumes "length slots = 2 ^ lg"
  shows "walk_slots left slots stride msk k s =
    fold_res (\<lambda>s row_col. if row_col \<noteq> FREE then row_col_update s (row_col AND msk) else Inr s) s
      (map (\<lambda>i. slots ! ((k + i * stride) mod 2 ^ lg)) [0..<left])"
proof (induction left arbitrary: k s)
  case (Suc left)
  have upt: "[0..<Suc left] = 0 # map Suc [0..<left]" by (simp add: map_Suc_upt upt_conv_Cons)
  have shift: "(k mod 2 ^ lg + stride + i * stride) mod 2 ^ lg = (k + Suc i * stride) mod 2 ^ lg" for i
    by (metis add.assoc mod_add_left_eq mult_Suc)
  have k: "k AND (length slots - 1) = k mod 2 ^ lg" unfolding assms by (rule and_mask_nat)
  show ?case
    unfolding walk_slots.simps Let_def k Suc.IH upt by (simp add: shift o_def)
qed simp

lemma walk_visits_all:
  assumes "length slots = 2 ^ lg" and "odd stride"
  shows "set (map (\<lambda>i. slots ! ((0 + i * stride) mod 2 ^ lg)) [0..<2 ^ lg]) = set slots"
proof -
  have cop: "coprime (2 ^ lg) stride" using assms(2) by simp
  show ?thesis
  proof (intro set_eqI iffI)
    fix x assume "x \<in> set slots"
    then obtain p where p: "p < 2 ^ lg" "slots ! p = x" using assms(1) by (auto simp: in_set_conv_nth)
    obtain i where "i < 2 ^ lg" "p = walk (2 ^ lg) 0 stride i" using walk_surj [OF cop p(1)] by blast
    then show "x \<in> set (map (\<lambda>i. slots ! ((0 + i * stride) mod 2 ^ lg)) [0..<2 ^ lg])"
      using p(2) by (force simp: walk_def)
  qed (use assms(1) in auto)
qed

text \<open>
  A set of coupons that can be added in any order: the walk takes them in the order of the slots, so the
  proofs look at every part of the set. The theorems do not ask for it: it follows for the walks of the
  union (\<open>roomy_13\<close>, \<open>roomy_sparse\<close>).
\<close>

definition roomy :: "nat \<Rightarrow> u32 set \<Rightarrow> bool" where
  "roomy lg_k C \<longleftrightarrow> (\<forall>D \<subseteq> C. \<forall>x \<in> C. fits lg_k D x)"

lemma roomy_mono: "roomy lg_k C \<Longrightarrow> D \<subseteq> C \<Longrightarrow> roomy lg_k D"
  by (auto simp: roomy_def)

lemma roomy_13:
  assumes "4 \<le> lg" and "lg \<le> 21" and "card C \<le> 13 * 2 ^ lg" and "finite C" and "\<forall>x \<in> C. coupon_ok lg x"
  shows "roomy lg C"
  unfolding roomy_def
proof (intro allI impI ballI)
  fix D x assume D: "D \<subseteq> C" and x: "x \<in> C"
  have "card (insert x D) \<le> card C" by (rule card_mono [OF assms(4)]) (use D x in auto)
  then show "fits lg D x"
    using assms D x finite_subset [OF D assms(4)] by (intro fits_13) auto
qed

text \<open>While the window has not moved, only coupons are surprising.\<close>

lemma roomy_few:
  assumes "finite C" and "8 * card C < 27 * 2 ^ lg" and "4 * card C \<le> pair_cap (6 + lg)"
  shows "roomy lg C"
  unfolding roomy_def
proof (intro allI impI ballI)
  fix D x assume D: "D \<subseteq> C" and x: "x \<in> C"
  have sub: "insert x D \<subseteq> C" using D x by simp
  have le: "card (insert x D) \<le> card C" "card D \<le> card C" using card_mono [OF assms(1)] sub D by blast+
  have zero: "determine_correct_offset lg (card D) = 0" "determine_correct_offset lg (card (insert x D)) = 0"
    using le assms(2) by (simp_all add: offset_due(1))
  have "surprises lg 0 (insert x D) \<subseteq> insert x D" by (auto simp: surprises_def)
  then have "card (surprises lg 0 (insert x D)) \<le> card C" using sub by (intro card_mono [OF assms(1)]) blast
  then show "fits lg D x" using assms(3) by (simp add: fits_def Let_def zero)
qed

text \<open>
  A walk joins fewer coupons than three thirty-seconds of the rows of both sides. That leaves room when the
  rows differ by at most the factor \<open>2 ^ 7\<close>, and for tables of 22 or more bits it always does.
\<close>

lemma roomy_sparse:
  assumes lg: "4 \<le> lg" "lg \<le> 26" "lg' \<le> 26" and few: "32 * card C < 3 * (2 ^ lg + 2 ^ lg')"
    and fin: "finite C" and ok: "\<forall>x \<in> C. coupon_ok lg x" and near: "lg' \<le> lg + 7 \<or> card C \<le> 13 * 2 ^ lg"
  shows "roomy lg C"
proof (cases "lg \<le> 21")
  case True
  have "card C \<le> 13 * 2 ^ lg" using near
  proof
    assume "lg' \<le> lg + 7"
    then have "(2 :: nat) ^ lg' \<le> 2 ^ (lg + 7)" by (rule power_increasing) simp
    then show ?thesis using few by (simp add: power_add)
  qed
  then show ?thesis by (rule roomy_13 [OF lg(1) True _ fin ok])
next
  case False
  have cap: "pair_cap (6 + lg) = 3 * 2 ^ 26" using False by (simp add: pair_cap_def min_def)
  have "(2 :: nat) ^ lg \<le> 2 ^ 26" "(2 :: nat) ^ lg' \<le> 2 ^ 26" "(2 :: nat) ^ 22 \<le> 2 ^ lg"
    using lg False by (intro power_increasing; simp)+
  then show ?thesis using few by (intro roomy_few [OF fin]) (simp_all add: cap)
qed

lemma walk_list_ok:
  assumes "cpc_holds s C" and "roomy (cs_lg_k s) (C \<union> fold_coupon (cs_lg_k s) ` (set xs - {FREE}))"
    and "\<And>x. x AND msk = fold_coupon (cs_lg_k s) x"
  shows "\<exists>s'. fold_res (\<lambda>s row_col. if row_col \<noteq> FREE then row_col_update s (row_col AND msk) else Inr s) s xs = Inr s' \<and>
    cpc_holds s' (C \<union> fold_coupon (cs_lg_k s) ` (set xs - {FREE})) \<and> same_frame s s'"
  using assms
proof (induction xs arbitrary: s C)
  case (Cons x xs)
  let ?lg = "cs_lg_k s"
  show ?case
  proof (cases "x = FREE")
    case True
    then have "set (x # xs) - {FREE} = set xs - {FREE}" by auto
    then show ?thesis using Cons True by simp
  next
    case False
    let ?y = "fold_coupon ?lg x" and ?all = "C \<union> fold_coupon (cs_lg_k s) ` (set (x # xs) - {FREE})"
    have lg: "?lg \<le> 26" using Cons.prems(1) by (simp add: cpc_holds_def)
    have y: "?y \<in> ?all" using False by simp
    have all: "insert ?y C \<union> fold_coupon ?lg ` (set xs - {FREE}) = ?all" using False by auto
    have "fits ?lg C ?y" using Cons.prems(2) y unfolding roomy_def by blast
    then obtain s1 where s1: "row_col_update s ?y = Inr s1" "cpc_holds s1 (insert ?y C)" "same_frame s s1"
      using row_col_update_ok [OF Cons.prems(1) fold_coupon_ok [OF lg False]] by metis
    have same: "cs_lg_k s1 = ?lg" using s1(3) by (simp add: same_frame_def)
    obtain s' where "fold_res (\<lambda>s row_col. if row_col \<noteq> FREE then row_col_update s (row_col AND msk) else Inr s) s1 xs = Inr s'"
      "cpc_holds s' ?all" "same_frame s1 s'"
      using Cons.IH [OF s1(2), unfolded same all, OF Cons.prems(2,3)] by blast
    then show ?thesis
      using s1 False by (intro exI [of _ s']) (simp add: Cons.prems(3) same_frame_def)
  qed
qed simp

lemma walk_table_ok:
  assumes s: "cpc_holds s C" and t: "pair_holds t P"
    and room: "roomy (cs_lg_k s) (C \<union> fold_coupon (cs_lg_k s) ` P)"
  shows "\<exists>s'. walk_table_updating_sketch s t = Inr s' \<and>
    cpc_holds s' (C \<union> fold_coupon (cs_lg_k s) ` P) \<and> same_frame s s'"
proof -
  let ?lg = "cs_lg_k s" and ?slots = "pt_slots t"
  have lg: "?lg \<le> 26" using s by (simp add: cpc_holds_def)
  have size: "2 \<le> pt_lg_size t" "pt_lg_size t \<le> 26" and P: "set ?slots - {FREE} = P"
    and len: "length ?slots = 2 ^ pt_lg_size t"
    using t pt.wf_length by (auto simp: pair_holds_def)
  note stride = walk_stride_ok [OF size]
  let ?xs = "map (\<lambda>i. ?slots ! ((0 + i * walk_stride (2 ^ pt_lg_size t)) mod 2 ^ pt_lg_size t)) [0..<2 ^ pt_lg_size t]"
  have xs: "set ?xs - {FREE} = P" unfolding walk_visits_all [OF len stride(3)] P ..
  have "walk_table_updating_sketch s t =
      fold_res (\<lambda>s row_col. if row_col \<noteq> FREE
        then row_col_update s (row_col AND ucast (push_bit 6 (push_bit ?lg 1 - 1) OR 63 :: u64)) else Inr s) s ?xs"
    using lg stride(1,2) unfolding walk_table_updating_sketch_def Let_def len walk_slots_fold [OF len]
    by (simp only: if_False not_not simp_thms)
  then show ?thesis
    using walk_list_ok [OF s _ and_dst_mask [OF lg], of ?xs, unfolded xs, OF room] by simp
qed

section \<open>What a union holds\<close>

definition union_holds :: "cpc_union \<Rightarrow> u32 set \<Rightarrow> bool" where
  "union_holds u C \<longleftrightarrow>
     4 \<le> cn_lg_k u \<and> cn_lg_k u \<le> 26 \<and> (\<exists>h. compute_seed_hash (cn_seed u) = Inr h) \<and>
     (case cn_state u of
        Accumulator s \<Rightarrow> cpc_holds s C \<and> cs_lg_k s = cn_lg_k u \<and> cs_seed s = cn_seed u \<and>
          32 * card C < 3 * 2 ^ cn_lg_k u
      | BitMatrix M \<Rightarrow> represents M (cn_lg_k u) C \<and> finite C \<and> (\<forall>x \<in> C. coupon_ok (cn_lg_k u) x) \<and>
          3 * 2 ^ cn_lg_k u \<le> 32 * card C)"

lemma union_holds_coupons: "union_holds u C \<Longrightarrow> finite C \<and> (\<forall>x \<in> C. coupon_ok (cn_lg_k u) x)"
  by (auto simp: union_holds_def cpc_holds_def split: union_mode.splits)

lemma flavor_cases:
  assumes "cpc_holds s C"
  shows "cpc_flavor s = Empty \<longleftrightarrow> C = {}"
    and "cpc_flavor s = Sparse \<longleftrightarrow> C \<noteq> {} \<and> 32 * card C < 3 * 2 ^ cs_lg_k s"
    and "beyond_sparse (cpc_flavor s) \<longleftrightarrow> \<not> 32 * card C < 3 * 2 ^ cs_lg_k s"
    and "cpc_flavor s = Hybrid \<or> cpc_flavor s = Pinned \<Longrightarrow> \<not> 32 * card C < 3 * 2 ^ cs_lg_k s \<and> cs_window_offset s = 0"
    and "cpc_is_empty s \<longleftrightarrow> C = {}"
proof -
  have num: "cs_num_coupons s = card C" and fin: "finite C"
    and off: "cs_window_offset s = determine_correct_offset (cs_lg_k s) (card C)"
    using assms by (simp_all add: cpc_holds_def)
  have zero: "card C = 0 \<longleftrightarrow> C = {}" using fin by simp
  show "cpc_flavor s = Empty \<longleftrightarrow> C = {}"
    and "cpc_flavor s = Sparse \<longleftrightarrow> C \<noteq> {} \<and> 32 * card C < 3 * 2 ^ cs_lg_k s"
    and "beyond_sparse (cpc_flavor s) \<longleftrightarrow> \<not> 32 * card C < 3 * 2 ^ cs_lg_k s"
    and "cpc_is_empty s \<longleftrightarrow> C = {}"
    unfolding cpc_flavor_def determine_flavor_def num Let_def beyond_sparse_def cpc_is_empty_def zero by auto
  assume f: "cpc_flavor s = Hybrid \<or> cpc_flavor s = Pinned"
  then have "8 * card C < 27 * 2 ^ cs_lg_k s"
    unfolding cpc_flavor_def determine_flavor_def num Let_def by (auto split: if_splits)
  then have "cs_window_offset s = 0" unfolding off by (rule offset_due(1))
  moreover have "\<not> 32 * card C < 3 * 2 ^ cs_lg_k s"
    using f unfolding cpc_flavor_def determine_flavor_def num Let_def by (auto split: if_splits)
  ultimately show "\<not> 32 * card C < 3 * 2 ^ cs_lg_k s \<and> cs_window_offset s = 0" by simp
qed

lemma cpc_holds_table: "cpc_holds s C \<Longrightarrow> C \<noteq> {} \<Longrightarrow> 32 * card C < 3 * 2 ^ cs_lg_k s \<Longrightarrow>
    \<exists>t. surprising_value_table s = Inr t \<and> pair_holds t C"
  using cpc_holds_sparse [of s C] by (auto simp: table_holds_def surprising_value_table_def)

lemma cpc_union_new_ok:
  assumes "4 \<le> lg_k" and "lg_k \<le> 26" and "compute_seed_hash seed = Inr sh"
  obtains u where "cpc_union_with_seed lg_k seed = Inr u" and "union_holds u {}" and "cn_lg_k u = lg_k"
    and "cn_seed u = seed"
proof -
  obtain s where s: "cpc_with_seed lg_k seed = Inr s" "cpc_holds s {}" "cs_lg_k s = lg_k" "cs_seed s = seed"
    by (rule cpc_with_seed_ok [OF assms])
  show ?thesis
    by (rule that [of "\<lparr>cn_lg_k = lg_k, cn_seed = seed, cn_state = Accumulator s\<rparr>"])
      (use assms s in \<open>auto simp: cpc_union_with_seed_def union_holds_def\<close>)
qed


lemma represents_zero: "represents (replicate (2 ^ lg) 0) lg {}"
  by (simp add: represents_def)

text \<open>A sketch that has just been filled becomes the state that fits its flavor.\<close>

lemma holds_accumulator:
  "cpc_holds s C \<Longrightarrow> cs_lg_k s = cn_lg_k u \<Longrightarrow> cs_seed s = cn_seed u \<Longrightarrow> 32 * card C < 3 * 2 ^ cn_lg_k u \<Longrightarrow>
   compute_seed_hash (cn_seed u) = Inr h \<Longrightarrow> union_holds (u\<lparr>cn_state := Accumulator s\<rparr>) C"
  by (auto simp: union_holds_def cpc_holds_def)

lemma holds_matrix:
  "cpc_holds s C \<Longrightarrow> cs_lg_k s = cn_lg_k u \<Longrightarrow> represents M (cn_lg_k u) C \<Longrightarrow> \<not> 32 * card C < 3 * 2 ^ cn_lg_k u \<Longrightarrow>
   compute_seed_hash (cn_seed u) = Inr h \<Longrightarrow> union_holds (u\<lparr>cn_state := BitMatrix M\<rparr>) C"
  by (simp add: union_holds_def cpc_holds_def)

lemma reduce_k_ok:
  assumes u: "union_holds u C" and lg': "4 \<le> lg'" "lg' < cn_lg_k u"
    and room: "32 * card C < 3 * 2 ^ cn_lg_k u \<Longrightarrow> roomy lg' (fold_coupon lg' ` C)"
  obtains u' where "reduce_k u lg' = Inr u'" and "union_holds u' (fold_coupon lg' ` C)" and "cn_lg_k u' = lg'"
    and "cn_seed u' = cn_seed u"
proof -
  let ?C = "fold_coupon lg' ` C"
  obtain h where h: "compute_seed_hash (cn_seed u) = Inr h" using u by (auto simp: union_holds_def)
  have lg: "cn_lg_k u \<le> 26" "lg' \<le> 26" using u lg' by (simp_all add: union_holds_def)
  show ?thesis
  proof (cases "cn_state u")
    case (Accumulator s)
    have s: "cpc_holds s C" "cs_lg_k s = cn_lg_k u" "32 * card C < 3 * 2 ^ cs_lg_k s"
      using u Accumulator by (simp_all add: union_holds_def)
    obtain n where n: "cpc_with_seed lg' (cn_seed u) = Inr n" "cpc_holds n {}" "cs_lg_k n = lg'" "cs_seed n = cn_seed u"
      by (rule cpc_with_seed_ok [OF lg'(1) lg(2) h])
    show ?thesis
    proof (cases "C = {}")
      case True
      then have "reduce_k u lg' = Inr (u\<lparr>cn_lg_k := lg', cn_state := Accumulator n\<rparr>)"
        using n(1) flavor_cases(5) [OF s(1)] by (simp add: reduce_k_def Accumulator)
      moreover have "union_holds (u\<lparr>cn_lg_k := lg', cn_state := Accumulator n\<rparr>) {}"
        using n(2-4) lg' lg h by (auto simp: union_holds_def)
      ultimately show ?thesis using that True by simp
    next
      case False
      obtain t where t: "surprising_value_table s = Inr t" "pair_holds t C"
        using cpc_holds_table [OF s(1) False s(3)] by blast
      obtain n' where n': "walk_table_updating_sketch n t = Inr n'" "cpc_holds n' ?C" "same_frame n n'"
        using walk_table_ok [OF n(2) t(2)] room s(2,3) unfolding n(3) by auto
      have fields: "cs_lg_k n' = lg'" "cs_seed n' = cn_seed u" using n'(3) n(3,4) by (simp_all add: same_frame_def)
      have nonempty: "cpc_flavor n' \<noteq> Empty" using flavor_cases(1) [OF n'(2)] False by simp
      have run: "reduce_k u lg' =
          (if cpc_flavor n' = Sparse then Inr (u\<lparr>cn_lg_k := lg', cn_state := Accumulator n'\<rparr>)
           else bind_res (build_bit_matrix n') (\<lambda>m. Inr (u\<lparr>cn_lg_k := lg', cn_state := BitMatrix m\<rparr>)))"
        using n(1) n'(1) t(1) nonempty flavor_cases(5) [OF s(1)] False by (simp add: reduce_k_def Accumulator)
      show ?thesis
      proof (cases "cpc_flavor n' = Sparse")
        case True
        then have "32 * card ?C < 3 * 2 ^ lg'" using flavor_cases(2) [OF n'(2)] fields(1) by simp
        then have "union_holds (u\<lparr>cn_lg_k := lg', cn_state := Accumulator n'\<rparr>) ?C"
          using n'(2) fields lg' lg h by (auto simp: union_holds_def)
        then show ?thesis using that run True by simp
      next
        case dense: False
        then have many: "\<not> 32 * card ?C < 3 * 2 ^ lg'" using flavor_cases(2) [OF n'(2)] fields(1) False by simp
        obtain m where m: "build_bit_matrix n' = Inr m" "represents m lg' ?C"
          using build_bit_matrix_ok [OF n'(2)] unfolding fields(1) by blast
        have "union_holds (u\<lparr>cn_lg_k := lg', cn_state := BitMatrix m\<rparr>) ?C"
          using n'(2) m(2) fields many lg' lg h by (auto simp: union_holds_def cpc_holds_def)
        then show ?thesis using that run dense m(1) by simp
      qed
    qed
  next
    case (BitMatrix M)
    have M: "represents M (cn_lg_k u) C" "finite C" "\<forall>x \<in> C. coupon_ok (cn_lg_k u) x"
      "3 * 2 ^ cn_lg_k u \<le> 32 * card C"
      using u BitMatrix by (simp_all add: union_holds_def)
    obtain M' where M': "or_matrix_into_matrix (replicate (2 ^ lg') 0) lg' M (cn_lg_k u) = Inr M'"
      "represents M' lg' ?C"
      using or_matrix_ok [OF represents_zero M(1) less_imp_le [OF lg'(2)] lg(1) M(3)] by auto
    have "3 * 2 ^ lg' \<le> 32 * card ?C" by (rule many_fold [OF less_imp_le [OF lg'(2)] lg(1) M(3,2,4)])
    moreover have "\<forall>x \<in> ?C. coupon_ok lg' x"
      using fold_coupon_ok [OF lg(2)] M(3) by (auto simp: valid_item_def)
    ultimately have "union_holds (u\<lparr>cn_lg_k := lg', cn_state := BitMatrix M'\<rparr>) ?C"
      using M'(2) M(2) lg' lg h by (auto simp: union_holds_def)
    then show ?thesis using that M'(1) by (simp add: reduce_k_def BitMatrix)
  qed
qed

text \<open>Joining a sketch with at least as many rows into the two kinds of state\<close>

lemma update_accumulator_ok:
  assumes u: "union_holds u C" and st: "cn_state u = Accumulator old" and s: "cpc_holds s D" "D \<noteq> {}"
    and few: "32 * card D < 3 * 2 ^ cs_lg_k s" and lg: "cn_lg_k u \<le> cs_lg_k s" and seed: "cs_seed s = cn_seed u"
    and room: "roomy (cn_lg_k u) (C \<union> fold_coupon (cn_lg_k u) ` D)"
  obtains u' where "update_accumulator u old s = Inr u'" and "union_holds u' (C \<union> fold_coupon (cn_lg_k u) ` D)"
    and "cn_lg_k u' = cn_lg_k u" and "cn_seed u' = cn_seed u"
proof -
  let ?lg = "cn_lg_k u" and ?C = "C \<union> fold_coupon (cn_lg_k u) ` D"
  obtain h where h: "compute_seed_hash (cn_seed u) = Inr h" using u by (auto simp: union_holds_def)
  have old: "cpc_holds old C" "cs_lg_k old = ?lg" "cs_seed old = cn_seed u" "32 * card C < 3 * 2 ^ cs_lg_k old"
    using u st by (simp_all add: union_holds_def)
  have sparse: "cpc_flavor s = Sparse" using flavor_cases(2) [OF s(1)] s(2) few by simp
  have fl: "cpc_flavor old = Sparse \<or> cpc_flavor old = Empty"
    using flavor_cases(1,2) [OF old(1)] old(4) by blast
  obtain t where t: "surprising_value_table s = Inr t" "pair_holds t D"
    using cpc_holds_table [OF s(1,2) few] by blast
  show ?thesis
  proof (cases "cpc_flavor old = Empty \<and> ?lg = cs_lg_k s")
    case True
    then have "C = {}" using flavor_cases(1) [OF old(1)] by simp
    moreover have "fold_coupon ?lg ` D = D"
      using s(1) True by (intro fold_coupon_image_id) (simp add: cpc_holds_def)
    ultimately have eq: "?C = D" by simp
    have "union_holds (u\<lparr>cn_state := Accumulator s\<rparr>) D"
      by (rule holds_accumulator [OF s(1) _ seed _ h]) (use True few in simp_all)
    moreover have "update_accumulator u old s = Inr (u\<lparr>cn_state := Accumulator s\<rparr>)"
      using True sparse by (simp add: update_accumulator_def Let_def)
    ultimately show ?thesis using that [of "u\<lparr>cn_state := Accumulator s\<rparr>"] unfolding eq by simp
  next
    case False
    obtain n where n: "walk_table_updating_sketch old t = Inr n" "cpc_holds n ?C" "same_frame old n"
      using walk_table_ok [OF old(1) t(2)] room unfolding old(2) by auto
    have fields: "cs_lg_k n = ?lg" "cs_seed n = cn_seed u" using n(3) old(2,3) by (simp_all add: same_frame_def)
    have run: "update_accumulator u old s =
        (if beyond_sparse (cpc_flavor n) then bind_res (build_bit_matrix n) (\<lambda>m. Inr (u\<lparr>cn_state := BitMatrix m\<rparr>))
         else Inr (u\<lparr>cn_state := Accumulator n\<rparr>))"
      using sparse fl False t(1) n(1) by (auto simp: update_accumulator_def Let_def)
    show ?thesis
    proof (cases "beyond_sparse (cpc_flavor n)")
      case True
      then have many: "\<not> 32 * card ?C < 3 * 2 ^ ?lg" using flavor_cases(3) [OF n(2)] fields(1) by simp
      obtain m where m: "build_bit_matrix n = Inr m" "represents m ?lg ?C"
        using build_bit_matrix_ok [OF n(2)] unfolding fields(1) by blast
      have "union_holds (u\<lparr>cn_state := BitMatrix m\<rparr>) ?C" by (rule holds_matrix [OF n(2) fields(1) m(2) many h])
      then show ?thesis using that [of "u\<lparr>cn_state := BitMatrix m\<rparr>"] run True m(1) by simp
    next
      case False
      then have "32 * card ?C < 3 * 2 ^ ?lg" using flavor_cases(3) [OF n(2)] fields(1) by simp
      then have "union_holds (u\<lparr>cn_state := Accumulator n\<rparr>) ?C" by (rule holds_accumulator [OF n(2) fields _ h])
      then show ?thesis using that [of "u\<lparr>cn_state := Accumulator n\<rparr>"] run False by simp
    qed
  qed
qed

lemma update_bit_matrix_ok:
  assumes u: "4 \<le> cn_lg_k u" "compute_seed_hash (cn_seed u) = Inr h"
    and M: "represents M (cn_lg_k u) C" "finite C" "\<forall>x \<in> C. coupon_ok (cn_lg_k u) x"
    and many: "3 * 2 ^ cn_lg_k u \<le> 32 * card C \<or> 3 * 2 ^ cs_lg_k s \<le> 32 * card D"
    and s: "cpc_holds s D" "D \<noteq> {}" and lg: "cn_lg_k u \<le> cs_lg_k s"
  obtains u' where "update_bit_matrix u M s = Inr u'" and "union_holds u' (C \<union> fold_coupon (cn_lg_k u) ` D)"
    and "cn_lg_k u' = cn_lg_k u" and "cn_seed u' = cn_seed u"
proof -
  let ?lg = "cn_lg_k u" and ?C = "C \<union> fold_coupon (cn_lg_k u) ` D"
  have lg': "cs_lg_k s \<le> 26" "?lg \<le> 26" and ok: "\<forall>x \<in> D. coupon_ok (cs_lg_k s) x" and fin: "finite D"
    using s(1) lg by (simp_all add: cpc_holds_def)
  have "\<exists>M'. update_bit_matrix u M s = Inr (u\<lparr>cn_state := BitMatrix M'\<rparr>) \<and> represents M' ?lg ?C"
  proof -
    consider (sparse) "cpc_flavor s = Sparse" | (window) "cpc_flavor s = Hybrid \<or> cpc_flavor s = Pinned"
      | (sliding) "cpc_flavor s = Sliding"
      using flavor_cases(1) [OF s(1)] s(2) by (cases "cpc_flavor s") auto
    then show ?thesis
    proof cases
      case sparse
      then have few: "32 * card D < 3 * 2 ^ cs_lg_k s" using flavor_cases(2) [OF s(1)] by simp
      obtain t where t: "surprising_value_table s = Inr t" "pair_holds t D"
        using cpc_holds_table [OF s(1,2) few] by blast
      show ?thesis
        using or_table_ok [OF M(1) t(2) lg'(2)] sparse t(1) by (auto simp: update_bit_matrix_def)
    next
      case window
      note F = flavor_cases(4) [OF s(1) window]
      have win: "window_holds (cs_sliding_window s) (cs_lg_k s) 0 D"
        and tab: "table_holds s (surprises (cs_lg_k s) 0 D)"
        using cpc_holds_windowed [OF s(1)] F by simp_all
      obtain t where t: "surprising_value_table s = Inr t" "pair_holds t (surprises (cs_lg_k s) 0 D)"
        using tab by (auto simp: table_holds_def surprising_value_table_def)
      obtain M1 where M1: "or_window_into_matrix M ?lg (cs_sliding_window s) 0 (cs_lg_k s) = Inr M1"
        "represents M1 ?lg (C \<union> fold_coupon ?lg ` {x \<in> D. 0 \<le> rc_col x \<and> rc_col x < 0 + 8})"
        using or_window_ok [OF M(1) win lg lg'(1) ok] by auto
      obtain M2 where M2: "or_table_into_matrix M1 ?lg t = Inr M2"
        "represents M2 ?lg (C \<union> fold_coupon ?lg ` {x \<in> D. 0 \<le> rc_col x \<and> rc_col x < 0 + 8} \<union>
          fold_coupon ?lg ` surprises (cs_lg_k s) 0 D)"
        using or_table_ok [OF M1(2) t(2) lg'(2)] by auto
      have "D = {x \<in> D. 0 \<le> rc_col x \<and> rc_col x < 0 + 8} \<union> surprises (cs_lg_k s) 0 D"
        using ok by (auto simp: surprises_def)
      then have eq: "C \<union> fold_coupon ?lg ` {x \<in> D. 0 \<le> rc_col x \<and> rc_col x < 0 + 8} \<union>
          fold_coupon ?lg ` surprises (cs_lg_k s) 0 D = ?C"
        by (metis image_Un Un_assoc)
      have "cpc_flavor s \<noteq> Sparse" using window by auto
      then have "update_bit_matrix u M s = Inr (u\<lparr>cn_state := BitMatrix M2\<rparr>)"
        using window F M1(1) M2(1) t(1) by (simp add: update_bit_matrix_def)
      then show ?thesis using M2(2) unfolding eq by blast
    next
      case sliding
      obtain N where N: "build_bit_matrix s = Inr N" "represents N (cs_lg_k s) D"
        using build_bit_matrix_ok [OF s(1)] by blast
      show ?thesis
        using or_matrix_ok [OF M(1) N(2) lg lg'(1) ok] sliding N(1) by (auto simp: update_bit_matrix_def)
    qed
  qed
  then obtain M' where M': "update_bit_matrix u M s = Inr (u\<lparr>cn_state := BitMatrix M'\<rparr>)" "represents M' ?lg ?C"
    by blast
  have "\<forall>x \<in> ?C. coupon_ok ?lg x" using M(3) fold_coupon_ok [OF lg'(2)] ok by (auto simp: valid_item_def)
  moreover have "3 * 2 ^ ?lg \<le> 32 * card ?C" using many
  proof
    assume "3 * 2 ^ ?lg \<le> 32 * card C"
    moreover have "card C \<le> card ?C" using M(2) fin by (intro card_mono) auto
    ultimately show ?thesis by linarith
  next
    assume "3 * 2 ^ cs_lg_k s \<le> 32 * card D"
    then have "3 * 2 ^ ?lg \<le> 32 * card (fold_coupon ?lg ` D)" by (rule many_fold [OF lg lg'(1) ok fin])
    moreover have "card (fold_coupon ?lg ` D) \<le> card ?C" using M(2) fin by (intro card_mono) auto
    ultimately show ?thesis by linarith
  qed
  ultimately have "union_holds (u\<lparr>cn_state := BitMatrix M'\<rparr>) ?C"
    using u lg' M'(2) M(2) fin by (auto simp: union_holds_def)
  then show ?thesis using that M'(1) by simp
qed


section \<open>The union of a list of sketches\<close>

text \<open>
  What a union of the first kind becomes with a sketch of the second: empty sketches are ignored, and
  the smaller number of rows wins.
\<close>

fun joined :: "nat \<times> u32 set \<Rightarrow> nat \<times> u32 set \<Rightarrow> nat \<times> u32 set" where
  "joined (lg, C) (lg', D) =
     (if D = {} then (lg, C) else (min lg lg', fold_coupon (min lg lg') ` (C \<union> D)))"

text \<open>
  When a step has room. An empty sketch is ignored, and a union that is a bit matrix already needs none. Otherwise
  tables may be walked: that has room when neither side has more than \<open>2 ^ 7\<close> times the rows of the
  result, and also when the result has at most 13 coupons per row.
\<close>

definition step_fits :: "nat \<times> u32 set \<Rightarrow> nat \<times> u32 set \<Rightarrow> bool" where
  "step_fits p d \<longleftrightarrow>
     (let (m, C') = joined p d
      in snd d = {} \<or> 3 * 2 ^ fst p \<le> 32 * card (snd p) \<or>
         fst p \<le> m + 7 \<and> fst d \<le> m + 7 \<or> card C' \<le> 13 * 2 ^ m)"

text \<open>The walks of a step have room.\<close>

lemma step_walks:
  assumes p: "4 \<le> lg" "lg \<le> 26" "finite C" "32 * card C < 3 * 2 ^ lg"
    and d: "4 \<le> l" "l \<le> 26" "finite D" "D \<noteq> {}" and step: "step_fits (lg, C) (l, D)"
    and m: "m = min lg l" and ok: "\<forall>x \<in> fold_coupon m ` (C \<union> D). coupon_ok m x"
  shows "roomy m (fold_coupon m ` C)"
    and "32 * card (fold_coupon m ` C) < 3 * 2 ^ m \<Longrightarrow> 32 * card D < 3 * 2 ^ l \<Longrightarrow>
      roomy m (fold_coupon m ` C \<union> fold_coupon m ` D)"
proof -
  have m4: "4 \<le> m" "m \<le> 26" using p d m by simp_all
  have near: "lg \<le> m + 7 \<and> l \<le> m + 7 \<or> card (fold_coupon m ` (C \<union> D)) \<le> 13 * 2 ^ m"
    using step p(4) d(4) m by (auto simp: step_fits_def Let_def)
  have sub: "card (fold_coupon m ` C) \<le> card (fold_coupon m ` (C \<union> D))"
    using p(3) d(3) by (intro card_mono) auto
  have le: "card (fold_coupon m ` C) \<le> card C" "card (fold_coupon m ` D) \<le> card D"
    using p(3) d(3) by (simp_all add: card_image_le)
  show "roomy m (fold_coupon m ` C)"
    by (rule roomy_sparse [OF m4 p(2)]) (use near sub le(1) p(3,4) ok in auto)
  assume few: "32 * card (fold_coupon m ` C) < 3 * 2 ^ m" "32 * card D < 3 * 2 ^ l"
  have "card (fold_coupon m ` C \<union> fold_coupon m ` D) \<le> card (fold_coupon m ` C) + card (fold_coupon m ` D)"
    by (rule card_Un_le)
  then have "32 * card (fold_coupon m ` (C \<union> D)) < 3 * (2 ^ m + 2 ^ l)"
    using few le(2) unfolding image_Un distrib_left by linarith
  then show "roomy m (fold_coupon m ` C \<union> fold_coupon m ` D)"
    unfolding image_Un [symmetric] using near p(3) d(3) ok by (intro roomy_sparse [OF m4 d(2)]) auto
qed

lemma cpc_union_update_ok:
  assumes u: "union_holds u C" and s: "cpc_holds s D" and seed: "cs_seed s = cn_seed u"
    and j: "joined (cn_lg_k u, C) (cs_lg_k s, D) = (lg', C')"
    and room: "step_fits (cn_lg_k u, C) (cs_lg_k s, D)"
  obtains u' where "cpc_union_update u s = Inr u'" and "union_holds u' C'" and "cn_lg_k u' = lg'"
    and "cn_seed u' = cn_seed u"
proof (cases "D = {}")
  case True
  then have "cpc_flavor s = Empty" using flavor_cases(1) [OF s] by simp
  then show ?thesis using that [of u] u seed j True by (simp add: cpc_union_update_def)
next
  case False
  obtain h where h: "compute_seed_hash (cn_seed u) = Inr h" using u by (auto simp: union_holds_def)
  have lg': "lg' = min (cn_lg_k u) (cs_lg_k s)" and C': "C' = fold_coupon lg' ` (C \<union> D)"
    using j False by (auto simp: Let_def)
  have four: "4 \<le> lg'" "lg' \<le> cs_lg_k s" using u s lg' by (simp_all add: union_holds_def cpc_holds_def)
  have nonempty: "cpc_flavor s \<noteq> Empty" using flavor_cases(1) [OF s] False by simp
  have p: "4 \<le> cn_lg_k u" "cn_lg_k u \<le> 26" "finite C" "\<forall>x \<in> C. coupon_ok (cn_lg_k u) x"
    and d: "4 \<le> cs_lg_k s" "cs_lg_k s \<le> 26" "finite D" "\<forall>x \<in> D. coupon_ok (cs_lg_k s) x"
    using u s union_holds_coupons [OF u] by (simp_all add: union_holds_def cpc_holds_def)
  have ok: "\<forall>x \<in> fold_coupon lg' ` (C \<union> D). coupon_ok lg' x"
    using p d lg' fold_coupon_ok [of lg'] by (auto simp: valid_item_def)
  note walks = step_walks [OF p(1-3) _ d(1-3) False room lg' ok]
  let ?C = "fold_coupon lg' ` C"
  have split: "C' = ?C \<union> fold_coupon lg' ` D" unfolding C' by (rule image_Un)
  have "\<exists>u1. (if cs_lg_k s < cn_lg_k u then reduce_k u (cs_lg_k s) else Inr u) = Inr u1 \<and>
      union_holds u1 ?C \<and> cn_lg_k u1 = lg' \<and> cn_seed u1 = cn_seed u"
  proof (cases "cs_lg_k s < cn_lg_k u")
    case True
    then have eq: "cs_lg_k s = lg'" using lg' by simp
    obtain u1 where "reduce_k u lg' = Inr u1" "union_holds u1 ?C" "cn_lg_k u1 = lg'" "cn_seed u1 = cn_seed u"
      by (rule reduce_k_ok [OF u four(1) _ walks(1)]) (use True eq in simp_all)
    then show ?thesis using True eq by auto
  next
    case False
    then have eq: "lg' = cn_lg_k u" using lg' by simp
    have "?C = C" unfolding eq by (rule fold_coupon_image_id) (use union_holds_coupons [OF u] in simp)
    then show ?thesis using u False eq by auto
  qed
  then obtain u1 where u1: "(if cs_lg_k s < cn_lg_k u then reduce_k u (cs_lg_k s) else Inr u) = Inr u1"
    "union_holds u1 ?C" "cn_lg_k u1 = lg'" "cn_seed u1 = cn_seed u" by blast
  have le: "cn_lg_k u1 \<le> cs_lg_k s" using four(2) u1(3) by simp
  have h1: "compute_seed_hash (cn_seed u1) = Inr h" using h u1(4) by simp
  have four1: "4 \<le> cn_lg_k u1" using four(1) u1(3) by simp
  have coupons: "finite ?C" "\<forall>x \<in> ?C. coupon_ok (cn_lg_k u1) x" using union_holds_coupons [OF u1(2)] by simp_all
  have goal: "C' = ?C \<union> fold_coupon (cn_lg_k u1) ` D" unfolding split u1(3) ..
  show ?thesis
  proof (cases "beyond_sparse (cpc_flavor s)")
    case sparse: False
    then have few: "32 * card D < 3 * 2 ^ cs_lg_k s" using flavor_cases(3) [OF s] by simp
    show ?thesis
    proof (cases "cn_state u1")
      case (Accumulator old)
      then have few1: "32 * card ?C < 3 * 2 ^ lg'" using u1(2,3) by (simp add: union_holds_def)
      have "32 * card C < 3 * 2 ^ cn_lg_k u"
      proof (rule ccontr)
        assume "\<not> 32 * card C < 3 * 2 ^ cn_lg_k u"
        then have "3 * 2 ^ lg' \<le> 32 * card ?C" using p lg' by (intro many_fold [of lg' "cn_lg_k u"]) simp_all
        then show False using few1 by simp
      qed
      then have room1: "roomy (cn_lg_k u1) (?C \<union> fold_coupon (cn_lg_k u1) ` D)"
        using walks(2) few1 few unfolding u1(3) by blast
      obtain u' where "update_accumulator u1 old s = Inr u'" "union_holds u' C'" "cn_lg_k u' = cn_lg_k u1"
        "cn_seed u' = cn_seed u1"
        using update_accumulator_ok [OF u1(2) Accumulator s False few le _ room1] seed u1(4) unfolding goal by metis
      then show ?thesis
        using that u1 seed nonempty sparse Accumulator by (simp add: cpc_union_update_def)
    next
      case (BitMatrix M)
      have M: "represents M (cn_lg_k u1) ?C" "3 * 2 ^ cn_lg_k u1 \<le> 32 * card ?C"
        using u1(2) BitMatrix by (simp_all add: union_holds_def)
      obtain u' where "update_bit_matrix u1 M s = Inr u'" "union_holds u' C'" "cn_lg_k u' = cn_lg_k u1"
        "cn_seed u' = cn_seed u1"
        using update_bit_matrix_ok [OF four1 h1 M(1) coupons _ s False le] M(2) unfolding goal by metis
      then show ?thesis
        using that u1 seed nonempty sparse BitMatrix by (simp add: cpc_union_update_def)
    qed
  next
    case dense: True
    then have many: "3 * 2 ^ cs_lg_k s \<le> 32 * card D" using flavor_cases(3) [OF s] by simp
    have "\<exists>M. (case cn_state u1 of
            Accumulator old_sketch \<Rightarrow>
              bind_res (build_bit_matrix old_sketch) (\<lambda>m. Inr (u1\<lparr>cn_state := BitMatrix m\<rparr>))
          | BitMatrix _ \<Rightarrow> Inr u1) = Inr (u1\<lparr>cn_state := BitMatrix M\<rparr>) \<and> represents M (cn_lg_k u1) ?C"
    proof (cases "cn_state u1")
      case (Accumulator old)
      then have "cpc_holds old ?C" "cs_lg_k old = cn_lg_k u1" using u1(2) by (simp_all add: union_holds_def)
      then obtain M where "build_bit_matrix old = Inr M" "represents M (cn_lg_k u1) ?C"
        using build_bit_matrix_ok by metis
      then show ?thesis using Accumulator by auto
    next
      case (BitMatrix M)
      have "u1\<lparr>cn_state := BitMatrix M\<rparr> = u1" using BitMatrix by (cases u1) simp
      then show ?thesis using u1(2) BitMatrix by (intro exI [of _ M]) (simp add: union_holds_def)
    qed
    then obtain M where M: "(case cn_state u1 of
            Accumulator old_sketch \<Rightarrow>
              bind_res (build_bit_matrix old_sketch) (\<lambda>m. Inr (u1\<lparr>cn_state := BitMatrix m\<rparr>))
          | BitMatrix _ \<Rightarrow> Inr u1) = Inr (u1\<lparr>cn_state := BitMatrix M\<rparr>)" "represents M (cn_lg_k u1) ?C" by blast
    let ?u2 = "u1\<lparr>cn_state := BitMatrix M\<rparr>"
    obtain u' where u': "update_bit_matrix ?u2 M s = Inr u'" "union_holds u' C'" "cn_lg_k u' = cn_lg_k u1"
      "cn_seed u' = cn_seed u1"
      using update_bit_matrix_ok [of ?u2 h M ?C s D] four1 h1 M(2) coupons many s False le unfolding goal by auto
    have "cpc_union_update u s = update_bit_matrix ?u2 M s"
      using seed nonempty dense u1(1) M(1) unfolding cpc_union_update_def by simp
    then show ?thesis using that u' u1(3,4) by simp
  qed
qed

text \<open>
  When the conversion has room: a sparse state is converted as it is; otherwise the offset is at most 56, the
  last one the window has columns for, and the new table has room for the surprising values of the result.
\<close>

definition result_fits :: "nat \<times> u32 set \<Rightarrow> bool" where
  "result_fits p \<longleftrightarrow>
     (let (lg, C) = p; w = determine_correct_offset lg (card C)
      in 32 * card C < 3 * 2 ^ lg \<or> w \<le> 56 \<and> 4 * card (surprises lg w C) \<le> pair_cap (6 + lg))"

lemma cpc_to_sketch_ok:
  assumes u: "union_holds u C" and room: "result_fits (cn_lg_k u, C)"
  obtains s where "cpc_to_sketch u = Inr s" and "cpc_holds s C" and "cs_lg_k s = cn_lg_k u"
    and "cs_seed s = cn_seed u"
proof -
  let ?lg = "cn_lg_k u"
  obtain h where h: "compute_seed_hash (cn_seed u) = Inr h" using u by (auto simp: union_holds_def)
  have lg: "4 \<le> ?lg" "?lg \<le> 26" using u by (simp_all add: union_holds_def)
  obtain n where n: "cpc_with_seed ?lg (cn_seed u) = Inr n" "cpc_holds n {}" "cs_lg_k n = ?lg" "cs_seed n = cn_seed u"
    by (rule cpc_with_seed_ok [OF lg h])
  show ?thesis
  proof (cases "cn_state u")
    case (Accumulator s)
    then have s: "cpc_holds s C" "cs_lg_k s = ?lg" "cs_seed s = cn_seed u" "32 * card C < 3 * 2 ^ ?lg"
      using u by (simp_all add: union_holds_def)
    show ?thesis
    proof (cases "C = {}")
      case True
      then show ?thesis using that n flavor_cases(5) [OF s(1)] Accumulator by (simp add: cpc_to_sketch_def)
    next
      case False
      have "cpc_flavor s = Sparse" using flavor_cases(2) [OF s(1)] s(2,4) False by simp
      then have run: "cpc_to_sketch u = Inr (s\<lparr>cs_merge_flag := True\<rparr>)"
        using flavor_cases(5) [OF s(1)] False Accumulator by (simp add: cpc_to_sketch_def)
      have tab: "table_holds (s\<lparr>cs_merge_flag := True\<rparr>) P \<longleftrightarrow> table_holds s P" for P
        by (simp add: table_holds_def)
      have same: "cs_lg_k (s\<lparr>cs_merge_flag := True\<rparr>) = cs_lg_k s"
        "cs_num_coupons (s\<lparr>cs_merge_flag := True\<rparr>) = cs_num_coupons s"
        "cs_window_offset (s\<lparr>cs_merge_flag := True\<rparr>) = cs_window_offset s"
        "cs_first_interesting_column (s\<lparr>cs_merge_flag := True\<rparr>) = cs_first_interesting_column s"
        "cs_sliding_window (s\<lparr>cs_merge_flag := True\<rparr>) = cs_sliding_window s" by simp_all
      have "cpc_holds (s\<lparr>cs_merge_flag := True\<rparr>) C"
        using s(1) unfolding cpc_holds_def tab same .
      then show ?thesis using that [of "s\<lparr>cs_merge_flag := True\<rparr>"] run s(2,3) by simp
    qed
  next
    case (BitMatrix M)
    then have M: "represents M ?lg C" "finite C" "\<forall>x \<in> C. coupon_ok ?lg x" "3 * 2 ^ ?lg \<le> 32 * card C"
      using u by (simp_all add: union_holds_def)
    let ?w = "determine_correct_offset ?lg (card C)"
    have R: "?w \<le> 56" "4 * card (surprises ?lg ?w C) \<le> pair_cap (6 + ?lg)"
      using room M(4) by (simp_all add: result_fits_def Let_def not_less)
    have num: "count_bits_set_in_matrix M = card C" by (rule count_bits_card [OF M(1,3) lg(2)])
    obtain t where t: "pair_table_new (max (?lg - 4) 2) (6 + ?lg) = Inr t" "pair_holds t {}" "pt_num_valid_bits t = 6 + ?lg"
      by (rule pair_table_new_holds [of "max (?lg - 4) 2" "6 + ?lg"]) (use lg in simp_all)
    have len: "length (replicate (2 ^ ?lg) (0 :: u8)) = 2 ^ ?lg" by simp
    obtain window t' ored where r:
      "fold_res (split_row ?w M) (replicate (2 ^ ?lg) 0, t, 0) [0..<2 ^ ?lg] = Inr (window, t', ored)"
      "window_holds window ?lg ?w C" "pair_holds t' (surprises ?lg ?w C)" "pt_num_valid_bits t' = 6 + ?lg"
      "\<And>x. coupon_ok ?lg x \<Longrightarrow> rc_col x < first_column ored ?w \<Longrightarrow> x \<in> C"
      using split_all_rows [OF M(1) lg(2) R(1) M(3) len t(2,3) R(2)] by metis
    let ?s = "n\<lparr>cs_num_coupons := card C, cs_window_offset := ?w,
        cs_first_interesting_column := first_column ored ?w,
        cs_sliding_window := window, cs_table := Some t', cs_merge_flag := True\<rparr>"
    have "cpc_to_sketch u = Inr ?s"
      using BitMatrix n(1) t(1) r(1) by (simp add: cpc_to_sketch_def Let_def num)
    moreover have "cpc_holds ?s C"
      unfolding cpc_holds_def using lg M(2,3,4) R(1) n(3) r(2-5) first_column_bounds(1) [of ored ?w]
      by (simp add: table_holds_def not_less)
    ultimately show ?thesis using that [of ?s] n(3,4) by simp
  qed
qed


text \<open>The room a union needs: at each step for the walks, and at the end for the result.\<close>

fun union_fits :: "nat \<times> u32 set \<Rightarrow> (nat \<times> u32 set) list \<Rightarrow> bool" where
  "union_fits p [] \<longleftrightarrow> result_fits p"
| "union_fits p (d # ds) \<longleftrightarrow> step_fits p d \<and> union_fits (joined p d) ds"

lemma cpc_union_all_ok:
  assumes "union_holds u C" and "union_fits (cn_lg_k u, C) ds"
    and "list_all2 (\<lambda>s d. cpc_holds s (snd d) \<and> cs_lg_k s = fst d \<and> cs_seed s = seed) ss ds" and "cn_seed u = seed"
  shows "\<exists>u'. cpc_union_all u ss = Inr u' \<and> union_holds u' (snd (foldl joined (cn_lg_k u, C) ds)) \<and>
    cn_lg_k u' = fst (foldl joined (cn_lg_k u, C) ds) \<and> cn_seed u' = seed \<and>
    result_fits (cn_lg_k u', snd (foldl joined (cn_lg_k u, C) ds))"
  using assms(3,1,2,4)
proof (induction ss ds arbitrary: u C rule: list_all2_induct)
  case Nil
  then show ?case by (simp add: cpc_union_all_def)
next
  case (Cons s ss d ds)
  obtain lg D where d: "d = (lg, D)" by (cases d)
  obtain lg' C' where j: "joined (cn_lg_k u, C) (cs_lg_k s, D) = (lg', C')" by (cases "joined (cn_lg_k u, C) (cs_lg_k s, D)")
  have s: "cpc_holds s D" "cs_lg_k s = lg" "cs_seed s = cn_seed u" using Cons.hyps(1) Cons.prems(3) d by simp_all
  have room: "step_fits (cn_lg_k u, C) (cs_lg_k s, D)" using Cons.prems(2) s(2) d by simp
  obtain u1 where u1: "cpc_union_update u s = Inr u1" "union_holds u1 C'" "cn_lg_k u1 = lg'" "cn_seed u1 = cn_seed u"
    by (rule cpc_union_update_ok [OF Cons.prems(1) s(1,3) j room])
  have "union_fits (cn_lg_k u1, C') ds" using Cons.prems(2) j s(2) d u1(3) by simp
  then obtain u' where u': "cpc_union_all u1 ss = Inr u'"
    "union_holds u' (snd (foldl joined (cn_lg_k u1, C') ds))" "cn_lg_k u' = fst (foldl joined (cn_lg_k u1, C') ds)"
    "cn_seed u' = seed" "result_fits (cn_lg_k u', snd (foldl joined (cn_lg_k u1, C') ds))"
    using Cons.IH [OF u1(2)] u1(3,4) Cons.prems(3) by auto
  moreover have "foldl joined (cn_lg_k u, C) (d # ds) = foldl joined (cn_lg_k u1, C') ds"
    using j s(2) d u1(3) by simp
  ultimately show ?case using u1(1) by (simp add: cpc_union_all_def)
qed

text \<open>The closed form: every coupon folded onto the smallest number of rows among the union and its non-empty sources\<close>

lemma foldl_min_le: "foldl min a xs \<le> a" for a :: nat
proof (induction xs arbitrary: a)
  case (Cons x xs)
  show ?case using Cons.IH [of "min a x"] by simp
qed simp

lemma joined_all:
  assumes "lg \<le> 26" and "\<forall>x \<in> C. coupon_ok lg x"
  shows "foldl joined (lg, C) ds =
    (let m = foldl min lg (map fst (filter (\<lambda>d. snd d \<noteq> {}) ds))
     in (m, fold_coupon m ` (C \<union> (\<Union>d \<in> set ds. snd d))))"
proof -
  have "foldl joined (lg, fold_coupon lg ` C) ds =
      (let m = foldl min lg (map fst (filter (\<lambda>d. snd d \<noteq> {}) ds))
       in (m, fold_coupon m ` (C \<union> (\<Union>d \<in> set ds. snd d))))"
    using assms(1)
  proof (induction ds arbitrary: lg C)
    case (Cons d ds)
    obtain l D where d: "d = (l, D)" by (cases d)
    show ?case
    proof (cases "D = {}")
      case True
      then show ?thesis using Cons.IH [OF Cons.prems, of C] d by simp
    next
      case False
      let ?m = "min lg l"
      have m: "?m \<le> 26" using Cons.prems by simp
      have "fold_coupon ?m ` (fold_coupon lg ` C \<union> D) = fold_coupon ?m ` (C \<union> D)"
        using fold_coupon_twice [of ?m lg] Cons.prems by (simp add: image_Un image_image)
      then have "joined (lg, fold_coupon lg ` C) d = (?m, fold_coupon ?m ` (C \<union> D))"
        using False by (simp add: d Let_def)
      then show ?thesis using Cons.IH [OF m, of "C \<union> D"] d False by (simp add: Un_assoc)
    qed
  qed simp
  then show ?thesis using fold_coupon_image_id [OF assms(2)] by simp
qed

text \<open>With numbers of rows within the factor \<open>2 ^ 7\<close>, only the result needs room.\<close>

lemma union_fits_near:
  assumes "lg \<le> foldl min lg (map fst (filter (\<lambda>d. snd d \<noteq> {}) ds)) + 7"
    and "\<forall>d \<in> set ds. snd d \<noteq> {} \<longrightarrow> fst d \<le> foldl min lg (map fst (filter (\<lambda>d. snd d \<noteq> {}) ds)) + 7"
  shows "union_fits (lg, C) ds \<longleftrightarrow> result_fits (foldl joined (lg, C) ds)"
  using assms
proof (induction ds arbitrary: lg C)
  case (Cons d ds)
  obtain l D where d: "d = (l, D)" by (cases d)
  show ?case
  proof (cases "D = {}")
    case True
    then show ?thesis using Cons d by (simp add: step_fits_def Let_def)
  next
    case False
    have le: "foldl min (min lg l) (map fst (filter (\<lambda>d. snd d \<noteq> {}) ds)) \<le> min lg l" by (rule foldl_min_le)
    have "step_fits (lg, C) d" using le Cons.prems False d by (auto simp: step_fits_def Let_def)
    then show ?thesis using le Cons.prems False d by (simp add: Cons.IH)
  qed
qed simp

lemma result_fits_13:
  assumes "4 \<le> lg" and "lg \<le> 21" and "card C \<le> 13 * 2 ^ lg" and "finite C" and "\<forall>x \<in> C. coupon_ok lg x"
  shows "result_fits (lg, C)"
proof (cases "C = {}")
  case False
  then obtain x where x: "x \<in> C" by blast
  then have "fits lg C x" using assms by (intro fits_13) (simp_all add: insert_absorb)
  then show ?thesis using x by (simp add: fits_def result_fits_def Let_def insert_absorb)
qed (simp add: result_fits_def)

lemma union_fits_13:
  assumes "lg \<le> 21" and "\<forall>d \<in> set ds. 4 \<le> fst d \<and> fst d \<le> 26 \<and> finite (snd d) \<and> (\<forall>x \<in> snd d. coupon_ok (fst d) x)"
    and "4 \<le> lg" and "finite C" and "\<forall>x \<in> C. coupon_ok lg x"
    and "card C + (\<Sum>d \<leftarrow> ds. card (snd d)) \<le> 13 * 2 ^ foldl min lg (map fst (filter (\<lambda>d. snd d \<noteq> {}) ds))"
  shows "union_fits (lg, C) ds"
  using assms
proof (induction ds arbitrary: lg C)
  case (Cons d ds)
  obtain l D where d: "d = (l, D)" by (cases d)
  let ?C' = "snd (joined (lg, C) d)" and ?lg' = "fst (joined (lg, C) d)"
  have D: "4 \<le> l" "l \<le> 26" "finite D" "\<forall>x \<in> D. coupon_ok l x" using Cons.prems(2) d by simp_all
  have lg': "4 \<le> ?lg'" "?lg' \<le> 21" "?lg' \<le> lg" using Cons.prems(1,3) D(1) d by auto
  have fin: "finite ?C'" using Cons.prems(4) D(3) d by (auto simp: Let_def)
  have ok: "\<forall>x \<in> ?C'. coupon_ok ?lg' x"
  proof (cases "D = {}")
    case False
    have "coupon_ok (min lg l) (fold_coupon (min lg l) x)" if "x \<in> C \<union> D" for x
      using that Cons.prems(1,5) D(4) by (intro fold_coupon_ok) (auto simp: valid_item_def)
    then show ?thesis using False by (auto simp: d Let_def)
  qed (use Cons.prems(5) d in simp)
  have "card ?C' \<le> card C + card D"
  proof (cases "D = {}")
    case False
    then have "card ?C' \<le> card (C \<union> D)"
      using Cons.prems(4) D(3) by (simp add: d Let_def card_image_le)
    also have "\<dots> \<le> card C + card D" by (rule card_Un_le)
    finally show ?thesis .
  qed (simp add: d)
  moreover have eq: "foldl min lg (map fst (filter (\<lambda>d. snd d \<noteq> {}) (d # ds))) =
      foldl min ?lg' (map fst (filter (\<lambda>d. snd d \<noteq> {}) ds))"
    by (simp add: d Let_def)
  ultimately have bound: "card ?C' + (\<Sum>d \<leftarrow> ds. card (snd d)) \<le>
      13 * 2 ^ foldl min ?lg' (map fst (filter (\<lambda>d. snd d \<noteq> {}) ds))"
    using Cons.prems(6) by (simp add: d)
  have "(2 :: nat) ^ foldl min ?lg' (map fst (filter (\<lambda>d. snd d \<noteq> {}) ds)) \<le> 2 ^ ?lg'"
    by (rule power_increasing [OF foldl_min_le]) simp
  then have "card ?C' \<le> 13 * 2 ^ ?lg'" using bound by linarith
  then have "step_fits (lg, C) d" by (simp add: step_fits_def Let_def split_beta)
  moreover have "union_fits (?lg', ?C') ds"
    using Cons.prems(2) by (intro Cons.IH [OF lg'(2) _ lg'(1) fin ok bound]) simp
  ultimately show ?case by simp
qed (simp add: result_fits_13)


section \<open>Sketching streams and joining them\<close>

text \<open>A source is a number of rows (its logarithm) and a stream of items.\<close>

fun sketch_sources :: "u64 \<Rightarrow> (nat \<times> u8 list list list) list \<Rightarrow> cpc_sketch list res" where
  "sketch_sources seed [] = Inr []"
| "sketch_sources seed ((lg_k, items) # sources) =
     bind_res (cpc_with_seed lg_k seed) (\<lambda>s.
     bind_res (cpc_update_all s items) (\<lambda>s.
     bind_res (sketch_sources seed sources) (\<lambda>ss. Inr (s # ss))))"

definition cpc_union_of_streams ::
  "nat \<Rightarrow> u64 \<Rightarrow> (nat \<times> u8 list list list) list \<Rightarrow> cpc_sketch res" where
  "cpc_union_of_streams lg_k seed sources =
     bind_res (sketch_sources seed sources) (\<lambda>ss.
     bind_res (cpc_union_with_seed lg_k seed) (\<lambda>u.
     bind_res (cpc_union_all u ss) cpc_to_sketch))"

definition source_ok :: "u64 \<Rightarrow> nat \<times> u8 list list list \<Rightarrow> bool" where
  "source_ok seed source \<longleftrightarrow>
     4 \<le> fst source \<and> fst source \<le> 26 \<and>
     stream_fits (fst source) {} (map (cpc_row_col (fst source) seed) (snd source))"

definition source_coupons :: "u64 \<Rightarrow> nat \<times> u8 list list list \<Rightarrow> nat \<times> u32 set" where
  "source_coupons seed source = (fst source, stream_coupons (fst source) seed (snd source))"

definition result_lg_k :: "nat \<Rightarrow> (nat \<times> u8 list list list) list \<Rightarrow> nat" where
  "result_lg_k lg_k sources = foldl min lg_k (map fst (filter (\<lambda>source. snd source \<noteq> []) sources))"

lemma sketch_sources_ok:
  assumes "compute_seed_hash seed = Inr sh" and "\<forall>source \<in> set sources. source_ok seed source"
  shows "\<exists>ss. sketch_sources seed sources = Inr ss \<and>
    list_all2 (\<lambda>s d. cpc_holds s (snd d) \<and> cs_lg_k s = fst d \<and> cs_seed s = seed) ss
      (map (source_coupons seed) sources)"
  using assms(2)
proof (induction sources)
  case (Cons source sources)
  obtain lg_k items where source: "source = (lg_k, items)" by (cases source)
  have ok: "4 \<le> lg_k" "lg_k \<le> 26" "stream_fits lg_k {} (map (cpc_row_col lg_k seed) items)"
    using Cons.prems source by (simp_all add: source_ok_def)
  obtain s0 where s0: "cpc_with_seed lg_k seed = Inr s0" "cpc_holds s0 {}" "cs_lg_k s0 = lg_k" "cs_seed s0 = seed"
    by (rule cpc_with_seed_ok [OF ok(1,2) assms(1)])
  obtain s where s: "cpc_update_all s0 items = Inr s" "cpc_holds s (stream_coupons lg_k seed items)" "same_frame s0 s"
    using cpc_update_all_ok [OF s0(2), of items] ok(3) s0(3,4) by (auto simp: stream_coupons_def)
  obtain ss where "sketch_sources seed sources = Inr ss"
    "list_all2 (\<lambda>s d. cpc_holds s (snd d) \<and> cs_lg_k s = fst d \<and> cs_seed s = seed) ss
      (map (source_coupons seed) sources)"
    using Cons.IH Cons.prems by auto
  moreover have "source_coupons seed source = (lg_k, stream_coupons lg_k seed items)"
    by (simp add: source source_coupons_def)
  ultimately show ?case
    using s0 s by (intro exI [of _ "s # ss"]) (simp add: source same_frame_def)
qed simp

lemma result_lg_k_joined:
  assumes "lg_k \<le> 26"
  shows "foldl joined (lg_k, {}) (map (source_coupons seed) sources) =
    (result_lg_k lg_k sources,
     \<Union>(l, items) \<in> set sources. fold_coupon (result_lg_k lg_k sources) ` stream_coupons l seed items)"
proof -
  have "snd (source_coupons seed source) \<noteq> {} \<longleftrightarrow> snd source \<noteq> []" for source
    by (simp add: source_coupons_def stream_coupons_def)
  moreover have "fst (source_coupons seed source) = fst source" for source by (simp add: source_coupons_def)
  ultimately have lg: "foldl min lg_k (map fst (filter (\<lambda>d. snd d \<noteq> {}) (map (source_coupons seed) sources))) =
      result_lg_k lg_k sources"
    by (simp add: result_lg_k_def filter_map o_def)
  show ?thesis
    unfolding joined_all [OF assms, of "{}", simplified] Let_def lg
    by (simp add: source_coupons_def split_beta image_UN)
qed

text \<open>C8.
  Take streams that fit their sketches (\<open>source_ok\<close>, between \<open>2 ^ 4\<close> and \<open>2 ^ 26\<close> rows each) and a union
  they fit (\<open>union_fits\<close>): the result's offset is at most 56 and its table has room for its surprising values,
  and wherever tables are walked, neither side has more than \<open>2 ^ 7\<close> times the rows of the step's result or
  that result has at most 13 coupons per row. Then sketching the streams, joining the sketches, in their order,
  and converting the union never panics. The result has the
  smallest number of rows among the union and the non-empty sources, its matrix has a one in exactly the
  cells of the coupons of all streams, folded onto that number of rows, and its coupon count is their number.
\<close>

theorem cpc_union_exact:
  assumes "4 \<le> lg_k" and "lg_k \<le> 26" and "compute_seed_hash seed = Inr sh"
    and "\<forall>source \<in> set sources. source_ok seed source"
    and "union_fits (lg_k, {}) (map (source_coupons seed) sources)"
  shows "\<exists>s M. cpc_union_of_streams lg_k seed sources = Inr s \<and> build_bit_matrix s = Inr M \<and>
    cs_lg_k s = result_lg_k lg_k sources \<and>
    represents M (cs_lg_k s) (\<Union>(l, items) \<in> set sources. fold_coupon (cs_lg_k s) ` stream_coupons l seed items) \<and>
    cs_num_coupons s = card (\<Union>(l, items) \<in> set sources. fold_coupon (cs_lg_k s) ` stream_coupons l seed items)"
proof -
  obtain ss where ss: "sketch_sources seed sources = Inr ss"
    "list_all2 (\<lambda>s d. cpc_holds s (snd d) \<and> cs_lg_k s = fst d \<and> cs_seed s = seed) ss
      (map (source_coupons seed) sources)"
    using sketch_sources_ok [OF assms(3,4)] by blast
  obtain u where u: "cpc_union_with_seed lg_k seed = Inr u" "union_holds u {}" "cn_lg_k u = lg_k" "cn_seed u = seed"
    by (rule cpc_union_new_ok [OF assms(1-3)])
  obtain u' where u': "cpc_union_all u ss = Inr u'"
    "union_holds u' (snd (foldl joined (lg_k, {}) (map (source_coupons seed) sources)))"
    "cn_lg_k u' = fst (foldl joined (lg_k, {}) (map (source_coupons seed) sources))"
    "result_fits (cn_lg_k u', snd (foldl joined (lg_k, {}) (map (source_coupons seed) sources)))"
    using cpc_union_all_ok [OF u(2) _ ss(2) u(4)] assms(5) u(3) by auto
  obtain s where s: "cpc_to_sketch u' = Inr s"
    "cpc_holds s (snd (foldl joined (lg_k, {}) (map (source_coupons seed) sources)))" "cs_lg_k s = cn_lg_k u'"
    by (rule cpc_to_sketch_ok [OF u'(2,4)])
  have lg: "cs_lg_k s = result_lg_k lg_k sources" using s(3) u'(3) result_lg_k_joined [OF assms(2)] by simp
  have holds: "cpc_holds s (\<Union>(l, items) \<in> set sources. fold_coupon (cs_lg_k s) ` stream_coupons l seed items)"
    using s(2) unfolding result_lg_k_joined [OF assms(2)] lg by simp
  obtain M where "build_bit_matrix s = Inr M"
    "represents M (cs_lg_k s) (\<Union>(l, items) \<in> set sources. fold_coupon (cs_lg_k s) ` stream_coupons l seed items)"
    using build_bit_matrix_ok [OF holds] by blast
  moreover have "cpc_union_of_streams lg_k seed sources = Inr s"
    using ss(1) u(1) u'(1) s(1) by (simp add: cpc_union_of_streams_def)
  moreover have "cs_num_coupons s =
      card (\<Union>(l, items) \<in> set sources. fold_coupon (cs_lg_k s) ` stream_coupons l seed items)"
    using holds unfolding cpc_holds_def by blast
  ultimately show ?thesis using lg by blast
qed

text \<open>A union of at most \<open>2 ^ 21\<close> rows has room for 13 coupons per row of its result.\<close>

lemma union_has_room:
  assumes "4 \<le> lg_k" and "lg_k \<le> 21" and "\<forall>source \<in> set sources. 4 \<le> fst source \<and> fst source \<le> 26"
    and "(\<Sum>source \<leftarrow> sources. card (stream_coupons (fst source) seed (snd source))) \<le>
      13 * 2 ^ result_lg_k lg_k sources"
  shows "union_fits (lg_k, {}) (map (source_coupons seed) sources)"
proof -
  have lg26: "lg_k \<le> 26" using assms(2) by simp
  have "foldl min lg_k (map fst (filter (\<lambda>d. snd d \<noteq> {}) (map (source_coupons seed) sources))) =
      result_lg_k lg_k sources"
    using result_lg_k_joined [OF lg26, of seed sources] joined_all [OF lg26, of "{}"] by (simp add: Let_def)
  then show ?thesis
    using assms cpc_row_col_ok
    by (intro union_fits_13) (auto simp: source_coupons_def stream_coupons_def o_def)
qed

lemma sample_sources:
  "\<forall>source \<in> set [(5, [[[1]], [[2]]]), (4, [[[3]]])]. source_ok DEFAULT_UPDATE_SEED source"
  "union_fits (11, {}) (map (source_coupons DEFAULT_UPDATE_SEED) [(5, [[[1]], [[2]]]), (4, [[[3]]])])"
proof -
  have small: "card (stream_coupons lg DEFAULT_UPDATE_SEED items) \<le> length items" for lg items
    unfolding stream_coupons_def by (metis card_length image_set length_map)
  have "stream_fits lg {} (map (cpc_row_col lg DEFAULT_UPDATE_SEED) items)"
    if "4 \<le> lg" "lg \<le> 21" "length items \<le> 13 * 2 ^ lg" for lg items
  proof (rule stream_fits_13 [OF that(1,2)])
    show "\<forall>y \<in> {} \<union> set (map (cpc_row_col lg DEFAULT_UPDATE_SEED) items). coupon_ok lg y"
      using cpc_row_col_ok [of lg] that(2) by auto
    show "card ({} \<union> set (map (cpc_row_col lg DEFAULT_UPDATE_SEED) items)) \<le> 13 * 2 ^ lg"
      using order_trans [OF small [of lg items] that(3)] by (simp add: stream_coupons_def)
  qed simp
  then show "\<forall>source \<in> set [(5, [[[1]], [[2]]]), (4, [[[3]]])]. source_ok DEFAULT_UPDATE_SEED source"
    by (simp add: source_ok_def del: stream_fits.simps list.map)
  have "(\<Sum>source \<leftarrow> [(5, [[[1]], [[2]]]), (4, [[[3]]])].
      card (stream_coupons (fst source) DEFAULT_UPDATE_SEED (snd source))) \<le> 3"
    using small [of 5 "[[[1]], [[2]]]"] small [of 4 "[[[3]]]"] by simp
  then show "union_fits (11, {}) (map (source_coupons DEFAULT_UPDATE_SEED) [(5, [[[1]], [[2]]]), (4, [[[3]]])])"
    by (intro union_has_room) (simp_all add: result_lg_k_def)
qed

lemma cpc_union_exact_witness:
  "\<exists>s M. cpc_union_of_streams 11 DEFAULT_UPDATE_SEED [(5, [[[1]], [[2]]]), (4, [[[3]]])] = Inr s \<and>
    build_bit_matrix s = Inr M \<and> cs_lg_k s = result_lg_k 11 [(5, [[[1]], [[2]]]), (4, [[[3]]])] \<and>
    represents M (cs_lg_k s) (\<Union>(l, items) \<in> set [(5, [[[1]], [[2]]]), (4, [[[3]]])].
      fold_coupon (cs_lg_k s) ` stream_coupons l DEFAULT_UPDATE_SEED items) \<and>
    cs_num_coupons s = card (\<Union>(l, items) \<in> set [(5, [[[1]], [[2]]]), (4, [[[3]]])].
      fold_coupon (cs_lg_k s) ` stream_coupons l DEFAULT_UPDATE_SEED items)"
  by (rule cpc_union_exact [OF _ _ default_seed_hash sample_sources]) simp_all

end
