(* ===== verification/Spec2Isabelle.thy ===== *)
theory Spec2Isabelle
  imports Codec BitPack XxHash HashTable CompactTheta ThetaUnion ThetaIntersection ThetaANotB FrequentItems CountMin Bloom HllUnion TupleWire CpcUnion
begin

text \<open>
  Verification library of the DataSketches Rust crate (\<open>src/datasketches\<close>): probabilistic summaries of
  streams that can be updated item by item, merged, written to bytes and read back.

  The parts and how they interact. Every sketch hashes its items with one of the two streaming hashers,
  keeps the hashes, coupons or counters in a table of its own, and has a union (or merge) and a binary
  form. \<^bold>\<open>Theta\<close> and \<^bold>\<open>Tuple\<close> sketches share one hash table and the state machines of the set operations;
  \<^bold>\<open>HLL\<close> goes through a list, a hash set and one of three register arrays; \<^bold>\<open>CPC\<close> keeps a window of bytes and a
  table of surprises; \<^bold>\<open>frequent items\<close> rests on a purging map of counters; \<^bold>\<open>CountMin\<close> and the
  \<^bold>\<open>Bloom filter\<close> are arrays addressed by hashes. All binary forms are written and read through one codec.

  How the model relates to the code. A struct is a record whose fields carry a prefix (\<open>ht_theta\<close> is the
  field \<open>theta\<close> of \<open>SketchHashTable\<close>), an enum is a datatype, and a method is a definition of the same
  name (prefixed where two types share it) that takes the state and returns the new one. A result and a
  panic are the left side of \<open>'a res\<close>; a theorem that says \<open>Inr\<close> therefore also says that no assertion,
  index or \<open>unreachable!\<close> fires. Debug assertions are branches too, as in a debug build (machine
  arithmetic wraps, and the theorems bound what must not overflow), with these exceptions, which are left out of the definitions: the range of the interpolation tables in
  \<open>hll/cubic_interpolation.rs\<close>; the bit offset of a packer in \<open>bit_pack.rs\<close> (66); the hash of an inserted entry in
  \<open>common/hash_table.rs\<close> (195), a hypothesis of the lemmas; the positive table size in \<open>common/intersection.rs\<close>
  (139, 210); the stored seed hash in \<open>countmin/sketch.rs\<close> (300); and the map size in \<open>frequencies/sketch.rs\<close> (53), which
  its callers check. Machine words are kept as words where they can
  wrap; counters that the code keeps in range are natural numbers. \<open>f64\<close> is the bit pattern of binary64 with
  rounding written out. Type parameters of the source (entry, policy, summary, item) are parameters here, and
  their traits are locales that the types of the crate interpret.

  Which theory models what (paths under \<open>src/datasketches/src\<close>):

  \<^item> \<open>Prelude\<close>: results, words, byte order, generic lemmas. \<open>Codec\<close>: \<open>codec/*.rs\<close>, \<open>error.rs\<close>; the locale
    \<open>wire_codec\<close> is the contract of a writer and a reader, interpreted for every accessor pair.
  \<^item> \<open>BitStream\<close>, \<open>BitPacker\<close>, \<open>BitPack_Pack1\<close>, \<open>BitPack_Pack2\<close>, \<open>BitPack_Unpack1\<close>, \<open>BitPack_Unpack2\<close>, \<open>BitPack\<close>:
    \<open>thetafamily/theta/bit_pack.rs\<close>, with the 126 unrolled routines, against one specification as a bit stream.
  \<^item> \<open>Streaming\<close>, \<open>Murmur\<close>, \<open>XxHash\<close>: the hashers of \<open>hash\<close> as instances of one block-wise absorber; the
    result does not depend on how the input is split.
  \<^item> \<open>Probing\<close>: open addressing in a table of a power of two of slots, as the locale \<open>open_addressing\<close>, used
    by the tables of Theta, HLL (hash set and exception map) and CPC. \<open>HashTable\<close>: \<open>thetafamily/common/hash_table.rs\<close>.
  \<^item> \<open>ThetaSketch\<close>, \<open>CompactTheta\<close>, \<open>SketchView\<close>, \<open>ThetaUnion\<close>, \<open>ThetaIntersection\<close>, \<open>ThetaANotB\<close>: \<open>thetafamily/theta\<close>
    and \<open>thetafamily/common\<close>. \<open>TupleSketch\<close>, \<open>TupleOps\<close>, \<open>TupleWire\<close>: \<open>thetafamily/tuple\<close>.
  \<^item> \<open>PurgeMap\<close>, \<open>FrequentItems\<close>: \<open>frequencies\<close>. \<open>CountMin\<close>: \<open>countmin\<close>. \<open>Bloom\<close>: \<open>bloom\<close>.
  \<^item> \<open>Float64\<close>: the arithmetic of \<open>f64\<close>. \<open>HllCoupon\<close>, \<open>HllEstimator\<close>, \<open>HllArray\<close>, \<open>HllAux\<close>, \<open>HllArray4\<close>, \<open>HllSketch\<close>,
    \<open>HllWire\<close>, \<open>HllUnion\<close>: \<open>hll\<close>; the three register arrays interpret one locale of an array of registers.
  \<^item> \<open>PairTable\<close>, \<open>CpcSketch\<close>, \<open>CpcUnion\<close>: \<open>cpc\<close> (\<open>pair_table.rs\<close>, \<open>mod.rs\<close>, the update side of \<open>sketch.rs\<close>, \<open>union.rs\<close>).
  \<^item> This theory composes sketching and merging of Theta sketches.

  What the lemmas show. Each component has an invariant (\<open>table_ok\<close>, \<open>kmv\<close>, \<open>union_table\<close>, \<open>list_holds\<close>, \<open>set_holds\<close>,
  \<open>a4_core\<close>, \<open>pair_holds\<close>, \<open>cpc_holds\<close>, \<open>union_holds\<close>, ...) that says which abstract content a state stands for. Every
  operation keeps it and never panics (on CPC states that fit, and but for the drift assertion of the purging map,
  as the theorems say), and the functional theorems read off the content after any
  stream: the hashes below theta for Theta and Tuple, the register maxima for HLL, the bit matrix for CPC,
  upper and lower bounds of counts for frequent items, sums for CountMin. The set operations are shown
  against unions, intersections and differences of the streams. The binary forms have round trips over
  reachable states, and readers are shown to accept only well-formed states; where they do not, the
  counterexample is a theorem and a finding.

  Bounds and fuel. A probing loop has as many rounds as slots: \<open>Probing\<close> shows that an odd stride visits every slot once, so
  it stops when a free slot is left, and every table is shown to keep one. The purging map has up to \<open>2 ^ 30\<close>
  slots; its searches may drift, and the debug assertion that they stay below 1024 is the panic \<open>drift_exceeded\<close>, which
  the theorems name as the only failure and for which they state what it needs. Streams have a total weight below \<open>2 ^ 64\<close>. The shift of the four-bit array repeats at
  most 64 times, as register values are at most 63. The table of surprises of CPC grows and shrinks at most 32 times
  in a row, as its size is between \<open>2 ^ 2\<close> and \<open>2 ^ 26\<close>; a row has 64 columns, so the loop over its set bits ends after
  65 rounds. A CPC stream fits (\<open>stream_fits\<close>) as long as the table of surprises stays within its largest
  size and the offset of the window is at most 56, after every update; 13 coupons per row are shown to be few enough up to
  \<open>2 ^ 21\<close> rows. A union needs this of its result only (\<open>union_fits\<close>), as the walks over tables are shown to have room
  unless the numbers of rows differ by more than the factor \<open>2 ^ 7\<close>.

  Not modelled: the estimates and error bounds that need logarithms, square roots or large interpolation tables
  (the composite estimator of HLL, the ICON estimator of CPC, binomial bounds), as their results are approximations
  without an exact contract; the compressed form of CPC sketches with its 22 code tables; the REQ and t-digest sketches; the Jaccard
  similarity, whose result is made of binomial bounds; the value wrappers of \<open>hash/value\<close>, as an item is modelled by the
  byte chunks its \<open>Hash\<close> implementation writes; \<open>estimated_size\<close> and the formatting of values and messages;
  benchmarks, tests and the \<open>xtask\<close> tool.
\<close>

section \<open>Composition: sketching in parts and merging\<close>

text \<open>Each stream is sketched on its own, and the union takes in the views of the sketches.\<close>

fun stream_views :: "theta_sketch \<Rightarrow> u8 list list list list \<Rightarrow> theta_entry sketch_view list res" where
  "stream_views s0 [] = Inr []"
| "stream_views s0 (vs # vss) =
     bind_res (theta_update_all s0 vs) (\<lambda>s.
     bind_res (view_of_sketch s) (\<lambda>v.
     bind_res (stream_views s0 vss) (\<lambda>ws. Inr (v # ws))))"

definition theta_union_of_streams :: "theta_builder \<Rightarrow> u8 list list list list \<Rightarrow> bool \<Rightarrow> compact_theta res" where
  "theta_union_of_streams b vss ordered =
     bind_res (builder_build b) (\<lambda>s0.
     bind_res (stream_views s0 vss) (\<lambda>ws.
     bind_res (theta_union_build b) (\<lambda>u.
     bind_res (theta_union_all u ws) (\<lambda>u. theta_union_to_sketch u ordered))))"

definition stream_view_ok :: "theta_builder \<Rightarrow> u64 \<Rightarrow> u64 set \<Rightarrow> theta_entry sketch_view \<Rightarrow> bool" where
  "stream_view_ok b theta0 H v \<longleftrightarrow>
     view_ok te_hash (tb_seed b) v \<and> (sv_empty v \<longleftrightarrow> H = {}) \<and>
     view_hashes te_hash v = {x \<in> H. 0 < x \<and> x < sv_theta v} \<and> sv_theta v \<le> theta0 \<and>
     (sv_theta v = theta0 \<or> sv_theta v \<in> H \<and> 2 ^ tb_lg_k b \<le> card (view_hashes te_hash v))"

lemma stream_view:
  assumes s0: "kmv theta0 {} (ts_table s0)" "ht_is_empty (ts_table s0)" "ht_lg_nom_size (ts_table s0) = tb_lg_k b"
      "ht_seed (ts_table s0) = tb_seed b"
    and sh: "compute_seed_hash (tb_seed b) = Inr sh" and theta0: "0 < theta0" "theta0 \<le> MAX_THETA"
  shows "\<exists>s v. theta_update_all s0 vs = Inr s \<and> view_of_sketch s = Inr v \<and>
    stream_view_ok b theta0 (set (map (table_hash (ts_table s0)) vs)) v"
proof -
  let ?H = "set (map (table_hash (ts_table s0)) vs)"
  obtain s where s': "theta_update_all s0 vs = Inr s" "kmv theta0 ?H (ts_table s)"
    "ht_is_empty (ts_table s) = (vs = [] \<and> ht_is_empty (ts_table s0))"
    "ht_lg_nom_size (ts_table s) = ht_lg_nom_size (ts_table s0)" "ht_seed (ts_table s) = ht_seed (ts_table s0)"
    using theta_update_all_kmv [OF s0(1), of vs] by (elim exE conjE)
  have s'': "ht_is_empty (ts_table s) = (vs = [])" "ht_lg_nom_size (ts_table s) = tb_lg_k b"
    "ht_seed (ts_table s) = tb_seed b"
    by (simp_all only: s'(3-5) s0(2-4) simp_thms)
  note s = s'(1,2) s''
  let ?t = "ts_table s"
  have K: "table_ok te_hash ?t" "theta_hashes s = {x \<in> ?H. 0 < x \<and> x < ht_theta ?t}" "ht_theta ?t \<le> theta0"
    "ht_theta ?t = theta0 \<or> ht_theta ?t \<in> ?H \<and> 2 ^ tb_lg_k b \<le> ht_num_retained ?t"
    unfolding theta_hashes_def using s(2) [unfolded kmv_def s(4)] by - (elim conjE, assumption)+
  have num: "ht_num_retained ?t = card (theta_hashes s)"
    unfolding theta_hashes_def by (rule num_retained_card(1) [OF K(1)])
  have pos: "0 < ht_theta ?t"
  proof (cases "ht_theta ?t = theta0")
    case False
    then have "2 ^ tb_lg_k b \<le> card (theta_hashes s)" using K(4) num by simp
    then have "0 < card (theta_hashes s)" by (rule less_le_trans [rotated]) simp
    then show ?thesis using K(2) by (auto simp: card_gt_0_iff)
  qed (use theta0 in simp)
  obtain v where v: "view_of_sketch s = Inr v" using sh s(5) by (simp add: view_of_sketch_def)
  have emp: "ht_is_empty ?t \<longrightarrow> theta_hashes s = {}" using s(3) K(2) by simp
  note V = view_of_sketch_ok [OF K(1) pos order_trans [OF K(3) theta0(2)] emp v]
  have "stream_view_ok b theta0 ?H v"
    using V K(2-4) s(3,5) num unfolding stream_view_ok_def by simp
  then show ?thesis using s(1) v by blast
qed

lemma stream_views_ok:
  assumes s0: "kmv theta0 {} (ts_table s0)" "ht_is_empty (ts_table s0)" "ht_lg_nom_size (ts_table s0) = tb_lg_k b"
      "ht_seed (ts_table s0) = tb_seed b"
    and sh: "compute_seed_hash (tb_seed b) = Inr sh" and theta0: "0 < theta0" "theta0 \<le> MAX_THETA"
  shows "\<exists>ws. stream_views s0 vss = Inr ws \<and>
    list_all2 (\<lambda>vs v. stream_view_ok b theta0 (set (map (table_hash (ts_table s0)) vs)) v) vss ws"
proof (induction vss)
  case (Cons vs vss)
  then show ?case using stream_view [OF assms, of vs] by auto
qed simp

lemma stream_views_valid:
  "list_all2 (stream_view_ok b theta0) Hs ws \<Longrightarrow> \<forall>v \<in> set ws. view_ok te_hash (tb_seed b) v"
  by (induction Hs ws rule: list_all2_induct) (auto simp: stream_view_ok_def)

text \<open>The bottom-\<open>k\<close> of the parts, cut at the least of their thetas, is the bottom-\<open>k\<close> of the whole.\<close>

lemma union_of_stream_views:
  assumes views: "list_all2 (stream_view_ok b theta0) Hs ws"
    and c: "bottom (2 ^ tb_lg_k b) (least_theta theta0 ws) (seen_hashes te_hash ws) theta X"
    and fin: "finite (\<Union> (set Hs))"
  shows "bottom (2 ^ tb_lg_k b) theta0 {x \<in> \<Union> (set Hs). 0 < x \<and> x < theta0} theta X"
proof -
  let ?S = "seen_hashes te_hash ws" and ?H = "\<Union> (set Hs)"
  have C: "X = {x \<in> ?S. x < theta}" "theta \<le> least_theta theta0 ws" "card X \<le> 2 ^ tb_lg_k b"
    "theta = least_theta theta0 ws \<or> theta \<in> ?S \<and> card X = 2 ^ tb_lg_k b"
    using c unfolding bottom_def by blast+
  have least: "least_theta theta0 ws \<le> theta0" "\<And>v. v \<in> live ws \<Longrightarrow> least_theta theta0 ws \<le> sv_theta v"
    "least_theta theta0 ws = theta0 \<or> (\<exists>v \<in> live ws. least_theta theta0 ws = sv_theta v)"
    using Min_in [of "insert theta0 (sv_theta ` live ws)"] by (auto simp: least_theta_def)
  have view: "\<exists>H \<in> set Hs. stream_view_ok b theta0 H v" if "v \<in> set ws" for v
    using views that by (metis in_set_conv_nth list_all2_conv_all_nth)
  have part: "\<exists>v \<in> set ws. stream_view_ok b theta0 H v" if "H \<in> set Hs" for H
    using views that by (metis in_set_conv_nth list_all2_conv_all_nth)
  have mem: "x \<in> ?S \<longleftrightarrow> x \<in> ?H \<and> 0 < x" if x: "x < least_theta theta0 ws" for x
  proof
    assume "x \<in> ?S"
    then obtain v where v: "v \<in> live ws" "x \<in> view_hashes te_hash v" by (auto simp: seen_hashes_def)
    then show "x \<in> ?H \<and> 0 < x" using view [of v] by (auto simp: live_def stream_view_ok_def)
  next
    assume "x \<in> ?H \<and> 0 < x"
    then obtain H v where v: "x \<in> H" "v \<in> set ws" "stream_view_ok b theta0 H v" "0 < x" using part by blast
    then have "v \<in> live ws" by (auto simp: live_def stream_view_ok_def)
    then show "x \<in> ?S" using v x least(2) [of v] by (auto simp: seen_hashes_def stream_view_ok_def)
  qed
  have X: "X = {x \<in> {x \<in> ?H. 0 < x \<and> x < theta0}. x < theta}"
    using C(1,2) mem least(1) by (auto dest: order_less_le_trans)
  have "theta = theta0 \<or> theta \<in> {x \<in> ?H. 0 < x \<and> x < theta0} \<and> card X = 2 ^ tb_lg_k b"
  proof (cases "theta = least_theta theta0 ws")
    case False
    then have "theta < least_theta theta0 ws" "theta \<in> ?S" "card X = 2 ^ tb_lg_k b" using C(2,4) by auto
    then show ?thesis using mem [of theta] least(1) by auto
  next
    case True
    show ?thesis
    proof (cases "theta = theta0")
      case False
      then obtain v where v: "v \<in> live ws" "theta = sv_theta v" using True least(3) by auto
      then obtain H where H: "H \<in> set Hs" "stream_view_ok b theta0 H v" using view by (auto simp: live_def)
      have th: "theta \<in> H" "2 ^ tb_lg_k b \<le> card (view_hashes te_hash v)"
        using H(2) False unfolding stream_view_ok_def v(2) by blast+
      have sub: "view_hashes te_hash v \<subseteq> X"
        using H(2) v by (auto simp: C(1) seen_hashes_def stream_view_ok_def)
      moreover have "finite X" unfolding X using fin by simp
      ultimately have "card X = 2 ^ tb_lg_k b" using th(2) C(3) by (meson card_mono le_antisym le_trans)
      moreover have "0 < theta" using H(2) v(2) by (auto simp: stream_view_ok_def view_ok_def)
      moreover have "theta < theta0" using False True least(1) by simp
      ultimately show ?thesis using H(1) th(1) by blast
    qed simp
  qed
  moreover have "theta \<le> theta0" using C(2) least(1) by (rule order_trans)
  ultimately show ?thesis unfolding bottom_def using X C(3) by blast
qed

text \<open>
  C3. Sketching in parts loses nothing: for any streams, building a sketch of each and taking the
  union, all with the same builder, never fails and gives the bottom-\<open>k\<close> sketch of the joined stream:
  theta is the starting theta or a hash of the joined stream, the entries are exactly the distinct
  non-zero hashes of it below theta, and \<open>2 ^ lg_k\<close> of them when theta fell. The result thus depends
  only on the set of the values seen, and counts it exactly while theta is the starting theta.
\<close>

theorem theta_union_of_streams_exact:
  assumes "4 \<le> tb_lg_k b" and "compute_seed_hash (tb_seed b) = Inr sh"
    and "theta0 = starting_theta_from_sampling_probability (tb_sampling_probability b)"
    and "0 < theta0" and "theta0 \<le> MAX_THETA"
  shows "\<exists>s0 c. builder_build b = Inr s0 \<and> theta_union_of_streams b vss ordered = Inr c \<and>
    (let seen = set (map (table_hash (ts_table s0)) (concat vss))
     in set (ct_entries c) = {x \<in> seen. 0 < x \<and> x < ct_theta c} \<and> distinct (ct_entries c) \<and>
        (ct_theta c = theta0 \<or> ct_theta c \<in> seen \<and> ct_theta c < theta0 \<and> length (ct_entries c) = 2 ^ tb_lg_k b) \<and>
        length (ct_entries c) \<le> 2 ^ tb_lg_k b \<and> ct_empty c = (concat vss = []) \<and>
        (ordered \<longrightarrow> sorted (ct_entries c)))"
proof -
  obtain s0 where s0: "builder_build b = Inr s0" "kmv theta0 {} (ts_table s0)" "ht_is_empty (ts_table s0)"
    "ht_lg_nom_size (ts_table s0) = tb_lg_k b" "ht_seed (ts_table s0) = tb_seed b"
    using builder_build_shape [OF assms(1)] unfolding assms(3) by metis
  let ?Hs = "map (\<lambda>vs. set (map (table_hash (ts_table s0)) vs)) vss"
  let ?seen = "set (map (table_hash (ts_table s0)) (concat vss))"
  obtain ws where ws: "stream_views s0 vss = Inr ws"
    "list_all2 (\<lambda>vs v. stream_view_ok b theta0 (set (map (table_hash (ts_table s0)) vs)) v) vss ws"
    using stream_views_ok [OF s0(2-5) assms(2,4,5), of vss] by blast
  have views: "list_all2 (stream_view_ok b theta0) ?Hs ws" using ws(2) by (simp add: list_all2_map1)
  have seen: "\<Union> (set ?Hs) = ?seen" by auto
  obtain u0 where u0: "theta_union_build b = Inr u0" using theta_union_build_ok [OF assms(1)] by blast
  have "\<forall>v \<in> set ws. view_ok te_hash (tb_seed b) v"
    using views by (rule stream_views_valid)
  then obtain u c where u: "theta_union_all u0 ws = Inr u" "theta_union_to_sketch u ordered = Inr c"
    "union_result (tb_seed b) (tb_lg_k b) theta0 ws ordered c"
    using theta_union_result [OF assms(1) u0 assms(2)] unfolding assms(3) by blast
  have R: "bottom (2 ^ tb_lg_k b) (least_theta theta0 ws) (seen_hashes te_hash ws) (ct_theta c) (set (ct_entries c))"
    "distinct (ct_entries c)" "ct_ordered c \<longrightarrow> sorted (ct_entries c)" "ordered \<longrightarrow> ct_ordered c"
    "ct_empty c = (live ws = {})"
    using u(3) unfolding union_result_def by blast+
  have B: "bottom (2 ^ tb_lg_k b) theta0 {x \<in> ?seen. 0 < x \<and> x < theta0} (ct_theta c) (set (ct_entries c))"
    using union_of_stream_views [OF views R(1)] unfolding seen by simp
  have len: "length (ct_entries c) = card (set (ct_entries c))" using R(2) by (simp add: distinct_card)
  have "live ws = {} \<longleftrightarrow> (\<forall>vs \<in> set vss. vs = [])"
    using ws(2) unfolding live_def
    by (induction vss ws rule: list_all2_induct) (auto simp: stream_view_ok_def)
  then have emp: "ct_empty c = (concat vss = [])" using R(5) by simp
  have run: "theta_union_of_streams b vss ordered = Inr c"
    using s0(1) ws(1) u0 u(1,2) by (simp add: theta_union_of_streams_def)
  have entries: "set (ct_entries c) = {x \<in> ?seen. 0 < x \<and> x < ct_theta c}"
    using B unfolding bottom_def by auto
  have "ct_theta c = theta0 \<or> ct_theta c \<in> ?seen \<and> ct_theta c < theta0 \<and> length (ct_entries c) = 2 ^ tb_lg_k b"
    "length (ct_entries c) \<le> 2 ^ tb_lg_k b"
    using B unfolding bottom_def len by blast+
  then show ?thesis using s0(1) run entries R(2-4) emp unfolding Let_def by blast
qed

theorem theta_union_of_streams_exact_witness:
  "\<exists>c. theta_union_of_streams theta_builder_default [[[[1]], [[2]]], [], [[[2]], [[3]]]] True = Inr c \<and>
     \<not> ct_empty c \<and> sorted (ct_entries c)"
proof -
  let ?b = theta_builder_default
  have b: "4 \<le> tb_lg_k ?b" "compute_seed_hash (tb_seed ?b) = Inr 0x93cc"
    by (simp_all add: theta_builder_default_def DEFAULT_LG_K_def default_seed_hash)
  have t: "MAX_THETA = starting_theta_from_sampling_probability (tb_sampling_probability ?b)"
    by (simp add: theta_builder_default_def starting_theta_from_sampling_probability_def)
  have p: "0 < MAX_THETA" "MAX_THETA \<le> MAX_THETA" by (simp_all add: MAX_THETA_def)
  show ?thesis
    using theta_union_of_streams_exact [OF b t p, of "[[[[1]], [[2]]], [], [[[2]], [[3]]]]" True]
    by (auto simp: Let_def)
qed

end
